(* ===== verification/Prelude.thy ===== *)
theory Prelude
  imports Main "HOL-Library.Word" "HOL-Library.Monad_Syntax"
begin

text \<open>
  Shared vocabulary of the development: the C machine types, raw memory blocks with checked
  reads and writes, NUL-terminated strings, and the parts of \<^verbatim>\<open>printf\<close> and
  \<^verbatim>\<open>string.h\<close> that the program's sources use.

  Undefined behaviour of C (a dereference of NULL or of freed memory, an access outside a
  block) is the value \<^term>\<open>None\<close> of an option type, and the definitions of the
  components are written in the option monad.  A theorem that an operation is
  \<^term>\<open>Some y\<close> therefore says, among other things, that it is free of such behaviour.
\<close>

unbundle bit_operations_syntax

section \<open>Machine types\<close>

type_synonym byte = "8 word"
type_synonym u16 = "16 word"
type_synonym u32 = "32 word"
type_synonym u64 = "64 word"

abbreviation NUL :: char where
  "NUL \<equiv> CHR 0x00"

named_theorems mem_simps \<open>checked memory accesses that are in bounds\<close>
named_theorems cstr_simps \<open>C strings\<close>

section \<open>Small signed values\<close>

lemma sint_small:
  assumes "unat (x :: u32) < 2 ^ 31"
  shows "sint x = int (unat x)"
proof -
  have u: "uint x = int (unat x)" by (rule uint_nat)
  have "sint x = signed_take_bit 31 (uint x)" by (simp add: sint_uint)
  also have "\<dots> = uint x"
  proof (rule signed_take_bit_int_eq_self)
    have "- (2 ^ 31) \<le> (0 :: int)" by simp
    also have "0 \<le> uint x" by (rule uint_ge_0)
    finally show "- (2 ^ 31) \<le> uint x" .
    have "int (unat x) < int (2 ^ 31)" using assms by (simp only: of_nat_less_iff)
    then show "uint x < 2 ^ 31" by (simp only: u) simp
  qed
  also have "uint x = int (unat x)" by (rule u)
  finally show ?thesis .
qed

lemma unat_scast_small:
  assumes "unat (x :: u32) < 2 ^ 31"
  shows "unat (scast x :: u64) = unat x"
proof -
  have "(scast x :: u64) = of_int (sint x)" by (simp only: of_int_sint)
  also have "\<dots> = of_nat (unat x)" by (simp only: sint_small [OF assms] of_int_of_nat_eq)
  finally show ?thesis using assms by (simp only: unat_of_nat) simp
qed

lemma unat_ucast_small: "unat (x :: u64) < 2 ^ 32 \<Longrightarrow> unat (ucast x :: u32) = unat x"
  by (simp add: unsigned_ucast_eq take_bit_nat_eq_self)

section \<open>Memory blocks\<close>

text \<open>A block of memory is the list of its cells; \<^verbatim>\<open>memcpy\<close> into it is checked.\<close>

definition write_at :: "nat \<Rightarrow> 'a list \<Rightarrow> 'a list \<Rightarrow> 'a list option" where
  "write_at off xs mem =
     (if off + length xs \<le> length mem
      then Some (take off mem @ xs @ drop (off + length xs) mem) else None)"

definition read_at :: "nat \<Rightarrow> nat \<Rightarrow> 'a list \<Rightarrow> 'a list option" where
  "read_at off n mem = (if off + n \<le> length mem then Some (take n (drop off mem)) else None)"

definition nth_opt :: "'a list \<Rightarrow> nat \<Rightarrow> 'a option" where
  "nth_opt xs i = (if i < length xs then Some (xs ! i) else None)"

lemma write_at_Some [mem_simps]:
  "off + length xs \<le> length mem \<Longrightarrow>
     write_at off xs mem = Some (take off mem @ xs @ drop (off + length xs) mem)"
  by (simp add: write_at_def)

lemma write_at_eq_None_iff: "write_at off xs mem = None \<longleftrightarrow> length mem < off + length xs"
  by (auto simp: write_at_def)

lemma length_write_at: "write_at off xs mem = Some mem' \<Longrightarrow> length mem' = length mem"
  by (auto simp: write_at_def split: if_splits)

lemma read_at_Some [mem_simps]:
  "off + n \<le> length mem \<Longrightarrow> read_at off n mem = Some (take n (drop off mem))"
  by (simp add: read_at_def)

lemma read_at_length: "read_at off n mem = Some xs \<Longrightarrow> length xs = n"
  by (auto simp: read_at_def split: if_splits)

lemma read_write_same:
  "write_at off xs mem = Some mem' \<Longrightarrow> read_at off (length xs) mem' = Some xs"
  by (auto simp: write_at_def read_at_def split: if_splits)

lemma nth_opt_Some [mem_simps]: "i < length xs \<Longrightarrow> nth_opt xs i = Some (xs ! i)"
  by (simp add: nth_opt_def)

lemma nth_opt_None [mem_simps]: "length xs \<le> i \<Longrightarrow> nth_opt xs i = None"
  by (simp add: nth_opt_def)

lemma nth_opt_eq_Some_iff: "nth_opt xs i = Some x \<longleftrightarrow> i < length xs \<and> xs ! i = x"
  by (auto simp: nth_opt_def)

section \<open>C strings\<close>

text \<open>The string that starts at the first cell of a block: up to the first NUL.\<close>

definition c_str :: "string \<Rightarrow> string" where
  "c_str cs = takeWhile (\<lambda>c. c \<noteq> NUL) cs"

text \<open>\<^verbatim>\<open>strlen\<close> and string reads run to the first NUL; a block without one is overrun.\<close>

definition c_str_at :: "nat \<Rightarrow> string \<Rightarrow> string option" where
  "c_str_at off mem =
     (if off \<le> length mem \<and> NUL \<in> set (drop off mem) then Some (c_str (drop off mem)) else None)"

definition no_nul :: "string \<Rightarrow> bool" where
  "no_nul s \<longleftrightarrow> NUL \<notin> set s"

lemma no_nul_Nil [cstr_simps, simp]: "no_nul []"
  by (simp add: no_nul_def)

lemma no_nul_Cons [cstr_simps, simp]: "no_nul (c # s) \<longleftrightarrow> c \<noteq> NUL \<and> no_nul s"
  by (auto simp: no_nul_def)

lemma no_nul_append [cstr_simps, simp]: "no_nul (s @ t) \<longleftrightarrow> no_nul s \<and> no_nul t"
  by (auto simp: no_nul_def)

lemma no_nul_take [cstr_simps]: "no_nul s \<Longrightarrow> no_nul (take n s)"
  by (auto simp: no_nul_def dest: in_set_takeD)

lemma c_str_Nil [cstr_simps, simp]: "c_str [] = []"
  by (simp add: c_str_def)

lemma c_str_Cons [cstr_simps]: "c_str (c # s) = (if c = NUL then [] else c # c_str s)"
  by (simp add: c_str_def)

lemma c_str_no_nul [cstr_simps]: "no_nul s \<Longrightarrow> c_str (s @ t) = s @ c_str t"
  by (induction s) (auto simp: c_str_def)

lemma c_str_terminated [cstr_simps]: "no_nul s \<Longrightarrow> c_str (s @ NUL # t) = s"
  by (simp add: c_str_no_nul c_str_Cons)

lemma c_str_idem [cstr_simps, simp]: "no_nul s \<Longrightarrow> c_str s = s"
  by (induction s) (auto simp: c_str_def)

lemma no_nul_c_str [cstr_simps, simp]: "no_nul (c_str s)"
  by (induction s) (auto simp: c_str_def)

lemma c_str_at_terminated:
  "no_nul s \<Longrightarrow> length pre = off \<Longrightarrow> c_str_at off (pre @ s @ NUL # post) = Some s"
  by (auto simp: c_str_at_def c_str_terminated)

text \<open>
  \<^verbatim>\<open>strncpy(dst, src, n)\<close> into a zeroed array of more than \<^verbatim>\<open>n\<close> cells, and
  \<^verbatim>\<open>snprintf(dst, n, "%s", s)\<close>, as the C strings they leave in the destination.
\<close>

definition strncpy_str :: "nat \<Rightarrow> string \<Rightarrow> string" where
  "strncpy_str n s = take n (c_str s)"

definition snprintf_str :: "nat \<Rightarrow> string \<Rightarrow> string" where
  "snprintf_str n s = take (n - 1) s"

lemma strncpy_str_short: "no_nul s \<Longrightarrow> length s \<le> n \<Longrightarrow> strncpy_str n s = s"
  by (simp add: strncpy_str_def)

lemma length_strncpy_str: "length (strncpy_str n s) \<le> n"
  by (simp add: strncpy_str_def)

lemma snprintf_str_short: "length s < n \<Longrightarrow> snprintf_str n s = s"
  by (simp add: snprintf_str_def)

lemma length_snprintf_str: "0 < n \<Longrightarrow> length (snprintf_str n s) < n"
  by (simp add: snprintf_str_def)

text \<open>
  \<^verbatim>\<open>strcmp(a, b) == 0\<close> on C strings held as values is equality.  The library's
  NULL-safe \<^verbatim>\<open>iks_strcmp\<close> is in theory \<open>IksUtil\<close>.
\<close>

section \<open>Number formats of printf\<close>

definition digit_char :: "nat \<Rightarrow> char" where
  "digit_char n = char_of ((if n < 10 then 48 else 87) + n)"

fun show_base :: "nat \<Rightarrow> nat \<Rightarrow> string" where
  "show_base b n =
     (if b < 2 \<or> n < b then [digit_char n] else show_base b (n div b) @ [digit_char (n mod b)])"

declare show_base.simps [simp del]

definition pad_left :: "char \<Rightarrow> nat \<Rightarrow> string \<Rightarrow> string" where
  "pad_left c w s = replicate (w - length s) c @ s"

definition pad_right :: "nat \<Rightarrow> string \<Rightarrow> string" where
  "pad_right w s = s @ replicate (w - length s) CHR '' ''"

definition fmt_d :: "nat \<Rightarrow> string" where \<comment> \<open>\<open>%d\<close> of a non-negative value, \<open>%u\<close>\<close>
  "fmt_d n = show_base 10 n"

definition fmt_0x :: "nat \<Rightarrow> nat \<Rightarrow> string" where \<comment> \<open>\<open>%0wx\<close>\<close>
  "fmt_0x w n = pad_left CHR ''0'' w (show_base 16 n)"

definition fmt_int :: "int \<Rightarrow> string" where \<comment> \<open>\<open>%d\<close>\<close>
  "fmt_int i = (if i < 0 then CHR ''-'' # show_base 10 (nat (- i)) else show_base 10 (nat i))"

lemma digit_char_not_nul: "n < 36 \<Longrightarrow> digit_char n \<noteq> NUL"
proof
  assume n: "n < 36" and "digit_char n = NUL"
  then have "of_char (digit_char n) = (0 :: nat)" by simp
  with n show False by (auto simp: digit_char_def split: if_splits)
qed

lemma show_base_not_Nil: "show_base b n \<noteq> []"
  by (subst show_base.simps) simp

lemma length_show_base_pos: "0 < length (show_base b n)"
  using show_base_not_Nil by simp

lemma show_base_no_nul: "2 \<le> b \<Longrightarrow> b \<le> 36 \<Longrightarrow> no_nul (show_base b n)"
proof (induction b n rule: show_base.induct)
  case (1 b n)
  have m: "n mod b < 36" using "1.prems" mod_less_divisor [of b n] by linarith
  show ?case
  proof (cases "n < b")
    case True
    with "1.prems" have "n < 36" by linarith
    with True show ?thesis
      by (simp add: show_base.simps [of b n] digit_char_not_nul)
  next
    case False
    with "1" m show ?thesis
      by (simp add: show_base.simps [of b n] digit_char_not_nul)
  qed
qed

lemma length_show_base_le: "2 \<le> b \<Longrightarrow> n < b ^ Suc k \<Longrightarrow> length (show_base b n) \<le> Suc k"
proof (induction k arbitrary: n)
  case 0
  then show ?case by (simp add: show_base.simps [of b n])
next
  case (Suc k)
  show ?case
  proof (cases "n < b")
    case True
    then show ?thesis by (simp add: show_base.simps [of b n])
  next
    case False
    from Suc.prems have "n div b < b ^ Suc k"
      by (simp add: less_mult_imp_div_less mult.commute)
    with Suc.IH Suc.prems(1) False show ?thesis
      by (simp add: show_base.simps [of b n])
  qed
qed

lemma fmt_d_no_nul [simp]: "no_nul (fmt_d n)"
  by (simp add: fmt_d_def show_base_no_nul)

lemma length_fmt_d_le: "n < 10 ^ Suc k \<Longrightarrow> length (fmt_d n) \<le> Suc k"
  by (simp only: fmt_d_def length_show_base_le)

end
