(* ===== verification/CatNet.thy ===== *)
theory CatNet
  imports Prelude
begin

text \<open>
  The sockets of the client, \<^verbatim>\<open>src/CuteCat/CuteCat/net.c\<close>.  The calls of Winsock are parameters
  that answer each call; what the functions do to the sockets is the list of their effects.
\<close>

datatype net_effect = Close_Socket int | Connect_To string nat | Bind_To string nat | Listen_On int nat

record net_env =
  ne_socket :: int \<comment> \<open>\<open>- 1\<close> for an error\<close>
  ne_connect :: int
  ne_would_block :: bool \<comment> \<open>the error of \<^verbatim>\<open>connect\<close> is \<^verbatim>\<open>WSAEWOULDBLOCK\<close>\<close>
  ne_select :: int
  ne_getsockopt :: "int option" \<comment> \<open>\<open>None\<close> for an error, else the pending error of the socket\<close>
  ne_bind :: int
  ne_listen :: int

definition CloseSocket :: "int \<Rightarrow> int \<times> net_effect list" where
  "CloseSocket sockfd = (0, [Close_Socket sockfd])"

definition CreateSocket :: "net_env \<Rightarrow> int" where
  "CreateSocket env = (let sock = ne_socket env in if sock = - 1 then - 1 else sock)"

text \<open>The result is the value of the function, the contents of \<^verbatim>\<open>*sock\<close> and the effects.\<close>

definition CreateSocketConnect :: "net_env \<Rightarrow> int \<Rightarrow> string \<Rightarrow> nat \<Rightarrow> int \<times> int \<times> net_effect list" where
  "CreateSocketConnect env sock ip port =
     (if sock \<le> 0 then
        (let sockfd = ne_socket env in
         if sockfd = - 1 then (- 1, sock, [])
         else if ne_connect env < 0 then
           if ne_would_block env then (1, sockfd, [Connect_To ip port])
           else (- 2, sock, [Connect_To ip port, Close_Socket sockfd])
         else (0, sock, [Connect_To ip port]))
      else
        (if ne_select env < 0 then (1, sock, [])
         else if 0 < ne_select env then
           if ne_getsockopt env \<noteq> Some 0 then (- 3, 0, [Close_Socket sock]) else (0, sock, [])
         else (1, sock, [])))"

definition cat_CreateSocketListen :: "net_env \<Rightarrow> int \<Rightarrow> string \<Rightarrow> nat \<Rightarrow> int \<times> int \<times> net_effect list" where
  "cat_CreateSocketListen env fd ip port =
     (let sockfd = ne_socket env in
      if sockfd = - 1 then (- 1, fd, [])
      else if ne_bind env < 0 then (- 2, fd, [Bind_To ip port, Close_Socket sockfd])
      else if ne_listen env < 0 then (- 3, fd, [Bind_To ip port, Listen_On sockfd 512, Close_Socket sockfd])
      else (0, sockfd, [Bind_To ip port, Listen_On sockfd 512]))"

text \<open>
  A socket that is opened for a connection is given to the caller or closed, except when the
  connection is made at once: then the function answers success and the socket is in neither
  place.
\<close>

theorem connected_at_once_is_lost:
  assumes "sock \<le> 0" and "0 < ne_socket env" and "CreateSocketConnect env sock ip port = (ret, sock', es)"
  shows "sock' = ne_socket env \<or> Close_Socket (ne_socket env) \<in> set es \<longleftrightarrow> ne_connect env < 0"
    and "0 \<le> ne_connect env \<longleftrightarrow> ret = 0"
  using assms by (auto simp: CreateSocketConnect_def Let_def split: if_splits)

theorem connected_at_once_is_lost_witness:
  "CreateSocketConnect \<lparr>ne_socket = 5, ne_connect = 0, ne_would_block = False, ne_select = 0, ne_getsockopt = None, ne_bind = 0, ne_listen = 0\<rparr>
      (- 1) ''10.0.0.1'' 8888 = (0, - 1, [Connect_To ''10.0.0.1'' 8888])"
  using connected_at_once_is_lost [of "- 1"
      "\<lparr>ne_socket = 5, ne_connect = 0, ne_would_block = False, ne_select = 0, ne_getsockopt = None, ne_bind = 0, ne_listen = 0\<rparr>" "''10.0.0.1''" 8888]
  by (simp add: CreateSocketConnect_def)

end
