(* ===== verification/IksUtil.thy ===== *)
theory IksUtil
  imports Prelude
begin

text \<open>
  The NULL-safe string functions and the XML escaping of
  \<^verbatim>\<open>src/CuteCat/iksemel/utility.c\<close>.  A C string pointer is a
  \<^typ>\<open>string option\<close>; a string value has no NUL.
\<close>

section \<open>NULL-safe functions\<close>

fun strcmp :: "string \<Rightarrow> string \<Rightarrow> int" where
  "strcmp [] [] = 0"
| "strcmp [] (b # bs) = - of_char b"
| "strcmp (a # as) [] = of_char a"
| "strcmp (a # as) (b # bs) = (if a = b then strcmp as bs else of_char a - of_char b)"

definition tolower :: "char \<Rightarrow> char" where
  "tolower c = (let n = of_char c :: nat in if 65 \<le> n \<and> n \<le> 90 then char_of (n + 32) else c)"

definition iks_strdup :: "string option \<Rightarrow> string option" where
  "iks_strdup src = (case src of Some s \<Rightarrow> Some s | None \<Rightarrow> None)"

text \<open>\<open>dest\<close> is the offset into the destination block; the result is the new offset.\<close>

definition iks_strcat :: "nat \<Rightarrow> string option \<Rightarrow> string \<Rightarrow> (nat \<times> string) option" where
  "iks_strcat dest src mem =
     (case src of
       None \<Rightarrow> Some (dest, mem)
     | Some s \<Rightarrow> do {
         mem \<leftarrow> write_at dest s mem;
         mem \<leftarrow> write_at (dest + length s) [NUL] mem;
         Some (dest + length s, mem)
       })"

definition iks_strcmp :: "string option \<Rightarrow> string option \<Rightarrow> int" where
  "iks_strcmp a b = (case (a, b) of (Some a, Some b) \<Rightarrow> strcmp a b | _ \<Rightarrow> - 1)"

definition iks_strcasecmp :: "string option \<Rightarrow> string option \<Rightarrow> int" where
  "iks_strcasecmp a b =
     (case (a, b) of (Some a, Some b) \<Rightarrow> strcmp (map tolower a) (map tolower b) | _ \<Rightarrow> - 1)"

definition iks_strncmp :: "string option \<Rightarrow> string option \<Rightarrow> nat \<Rightarrow> int" where
  "iks_strncmp a b n = (case (a, b) of (Some a, Some b) \<Rightarrow> strcmp (take n a) (take n b) | _ \<Rightarrow> - 1)"

definition iks_strncasecmp :: "string option \<Rightarrow> string option \<Rightarrow> nat \<Rightarrow> int" where
  "iks_strncasecmp a b n =
     (case (a, b) of
       (Some a, Some b) \<Rightarrow> strcmp (map tolower (take n a)) (map tolower (take n b)) | _ \<Rightarrow> - 1)"

definition iks_strlen :: "string option \<Rightarrow> nat" where
  "iks_strlen src = (case src of None \<Rightarrow> 0 | Some s \<Rightarrow> length s)"

lemma of_char_0_iff: "(of_char c :: int) = 0 \<longleftrightarrow> c = NUL"
proof
  assume "(of_char c :: int) = 0"
  then have "(of_char c :: int) = of_char NUL" by simp
  then show "c = NUL" by (simp only: of_char_eq_iff)
qed simp

lemma strcmp_0_iff: "no_nul a \<Longrightarrow> no_nul b \<Longrightarrow> strcmp a b = 0 \<longleftrightarrow> a = b"
  by (induction a b rule: strcmp.induct) (auto simp: of_char_0_iff)

lemma iks_strcmp_0_iff:
  "pred_option no_nul a \<Longrightarrow> pred_option no_nul b \<Longrightarrow>
     iks_strcmp a b = 0 \<longleftrightarrow> a \<noteq> None \<and> b \<noteq> None \<and> a = b"
  by (auto simp: iks_strcmp_def strcmp_0_iff split: option.splits)

section \<open>Escaping\<close>

text \<open>The first pass: the length of the result; then the copy into a block of that size.\<close>

fun escape_extra :: "char \<Rightarrow> nat" where
  "escape_extra c =
     (if c = CHR ''&'' then 4 else if c = CHR ''<'' then 3 else if c = CHR ''>'' then 3
      else if c = CHR 0x27 then 5 else if c = CHR 0x22 then 5 else 0)"

fun escape_char :: "char \<Rightarrow> string" where
  "escape_char c =
     (if c = CHR ''&'' then ''&amp;'' else if c = CHR 0x27 then ''&apos;''
      else if c = CHR 0x22 then ''&quot;'' else if c = CHR ''<'' then ''&lt;''
      else if c = CHR ''>'' then ''&gt;'' else [c])"

fun escape_loop :: "string \<Rightarrow> nat \<Rightarrow> string \<Rightarrow> (nat \<times> string) option" where
  "escape_loop [] j ret = Some (j, ret)"
| "escape_loop (c # src) j ret =
     do { ret \<leftarrow> write_at j (escape_char c) ret; escape_loop src (j + length (escape_char c)) ret }"

text \<open>
  \<open>s\<close> says whether there is a stack, \<open>blk\<close> is the block that
  \<^verbatim>\<open>iks_stack_alloc\<close> answers a request with.  The length -1 stands for \<open>strlen\<close>.
\<close>

definition iks_escape ::
  "bool \<Rightarrow> (nat \<Rightarrow> string option) \<Rightarrow> string option \<Rightarrow> int \<Rightarrow> string option option" where
  "iks_escape s alloc src len =
     (case src of
       None \<Rightarrow> Some None
     | Some str \<Rightarrow>
         if \<not> s then Some None
         else (let len = (if len = - 1 then length str else nat len) in do {
           body \<leftarrow> read_at 0 len str;
           nlen \<leftarrow> Some (len + sum_list (map escape_extra body));
           if len = nlen then Some (Some str)
           else case alloc (nlen + 1) of
             None \<Rightarrow> Some None
           | Some ret \<Rightarrow> do {
               x \<leftarrow> escape_loop body 0 ret;
               ret \<leftarrow> write_at (fst x) [NUL] (snd x);
               Some (Some (c_str ret))
             }
         }))"

definition prefix_at :: "string \<Rightarrow> nat \<Rightarrow> string \<Rightarrow> bool" where \<comment> \<open>\<^verbatim>\<open>strncmp (&src[i], p, n) == 0\<close>\<close>
  "prefix_at src i p \<longleftrightarrow> take (length p) (drop i src) = p"

text \<open>
  One round of the unescaping loop: the character for \<^verbatim>\<open>ret[j]\<close> and the index that the
  loop's \<^verbatim>\<open>i++\<close> leaves.
\<close>

definition unescape_step :: "string \<Rightarrow> nat \<Rightarrow> char \<times> nat" where
  "unescape_step src i =
     (if src ! i = CHR ''&'' then
        if prefix_at src (i + 1) ''amp;'' then (CHR ''&'', i + 5)
        else if prefix_at src (i + 1) ''quot;'' then (CHR 0x22, i + 6)
        else if prefix_at src (i + 1) ''apos;'' then (CHR 0x27, i + 6)
        else if prefix_at src (i + 1) ''lt;'' then (CHR ''<'', i + 4)
        else if prefix_at src (i + 1) ''gt;'' then (CHR ''>'', i + 4)
        else (src ! i, i + 1)
      else (src ! i, i + 1))"

lemma unescape_step_progress: "i < snd (unescape_step src i)"
  by (simp add: unescape_step_def)

function unescape_loop :: "string \<Rightarrow> nat \<Rightarrow> nat \<Rightarrow> nat \<Rightarrow> string \<Rightarrow> (nat \<times> string) option" where
  "unescape_loop src len i j ret =
     (if len \<le> i then Some (j, ret)
      else do {
        ret \<leftarrow> write_at j [fst (unescape_step src i)] ret;
        unescape_loop src len (snd (unescape_step src i)) (j + 1) ret })"
  by pat_completeness auto
termination
  by (relation "measure (\<lambda>(src, len, i, j, ret). len - i)")
    (simp_all add: diff_less_mono2 unescape_step_progress)

declare unescape_loop.simps [simp del]

definition iks_unescape ::
  "bool \<Rightarrow> (nat \<Rightarrow> string option) \<Rightarrow> string option \<Rightarrow> int \<Rightarrow> string option option" where
  "iks_unescape s alloc src len =
     (case src of
       None \<Rightarrow> Some None
     | Some str \<Rightarrow>
         if \<not> s then Some None
         else if CHR ''&'' \<notin> set str then Some (Some str)
         else (let len = (if len = - 1 then length str else nat len) in
           if length str < len then None
           else case alloc (len + 1) of
             None \<Rightarrow> Some None
           | Some ret \<Rightarrow> do {
               x \<leftarrow> unescape_loop str len 0 0 ret;
               ret \<leftarrow> write_at (fst x) [NUL] (snd x);
               Some (Some (c_str ret))
             }))"

section \<open>What the escaping does\<close>

definition escaped :: "string \<Rightarrow> string" where
  "escaped s = concat (map escape_char s)"

lemma escaped_simps [simp]: "escaped [] = []" "escaped (c # s) = escape_char c @ escaped s"
  by (simp_all add: escaped_def)

declare escape_char.simps [simp del] escape_extra.simps [simp del]

lemma length_escape_char: "length (escape_char c) = Suc (escape_extra c)"
  by (simp add: escape_char.simps escape_extra.simps)

lemma length_escaped: "length (escaped s) = length s + sum_list (map escape_extra s)"
  by (induction s) (simp_all add: length_escape_char)

lemma escape_char_no_nul: "c \<noteq> NUL \<Longrightarrow> no_nul (escape_char c)"
  by (simp add: escape_char.simps)

lemma escaped_no_nul: "no_nul s \<Longrightarrow> no_nul (escaped s)"
  by (induction s) (simp_all add: escape_char_no_nul)

lemma escaped_plain: "sum_list (map escape_extra s) = 0 \<Longrightarrow> escaped s = s"
  by (induction s) (auto simp: escape_extra.simps escape_char.simps split: if_splits)

text \<open>A block that is written from its start on: what is written, then the rest.\<close>

lemma write_at_append:
  "length pre0 = j \<Longrightarrow> length xs \<le> length rest \<Longrightarrow>
     write_at j xs (pre0 @ rest) = Some (pre0 @ xs @ drop (length xs) rest)"
  by (simp add: write_at_def)

lemma escape_loop_writes:
  "length pre0 = j \<Longrightarrow> length (escaped s) \<le> length rest \<Longrightarrow>
     escape_loop s j (pre0 @ rest) = Some (j + length (escaped s), pre0 @ escaped s @ drop (length (escaped s)) rest)"
proof (induction s arbitrary: pre0 j rest)
  case (Cons c s)
  then have "write_at j (escape_char c) (pre0 @ rest) = Some (pre0 @ escape_char c @ drop (length (escape_char c)) rest)"
    by (intro write_at_append) auto
  with Cons.IH [of "pre0 @ escape_char c" "j + length (escape_char c)" "drop (length (escape_char c)) rest"] Cons.prems
  show ?case by (simp add: add.commute add.left_commute)
qed simp

definition sized :: "(nat \<Rightarrow> string option) \<Rightarrow> bool" where
  "sized alloc \<longleftrightarrow> (\<forall>n. case alloc n of None \<Rightarrow> True | Some blk \<Rightarrow> length blk = n)"

lemma sizedD: "sized alloc \<Longrightarrow> alloc n = Some blk \<Longrightarrow> length blk = n"
  by (auto simp: sized_def split: option.splits dest: spec [of _ n])

lemma iks_escape_spec:
  assumes "sized alloc" "no_nul str"
  shows "iks_escape True alloc (Some str) (- 1)
    = Some (if escaped str = str then Some str
            else map_option (\<lambda>_. escaped str) (alloc (length (escaped str) + 1)))"
proof -
  have b: "read_at 0 (length str) str = Some str" by (simp add: read_at_def)
  have n: "length str + sum_list (map escape_extra str) = length (escaped str)" by (simp add: length_escaped)
  show ?thesis
  proof (cases "escaped str = str")
    case True
    then show ?thesis using b n by (simp add: iks_escape_def Let_def)
  next
    case False
    then have ne: "sum_list (map escape_extra str) \<noteq> 0" using escaped_plain by blast
    show ?thesis
    proof (cases "alloc (length (escaped str) + 1)")
      case None
      then show ?thesis using b n ne False by (simp add: iks_escape_def Let_def)
    next
      case (Some blk)
      have "length blk = length (escaped str) + 1" using assms(1) Some by (rule sizedD)
      moreover have "escape_loop str 0 blk = Some (length (escaped str), escaped str @ drop (length (escaped str)) blk)"
        using escape_loop_writes [of "[]" 0 str blk] calculation by simp
      ultimately show ?thesis
        using Some b n ne False escaped_no_nul [OF assms(2)]
        by (simp add: iks_escape_def Let_def write_at_def c_str_terminated)
    qed
  qed
qed

section \<open>What the unescaping does\<close>

lemma unescape_step_escape:
  "unescape_step (pre @ escape_char c @ post) (length pre) = (c, length pre + length (escape_char c))"
  by (auto simp: unescape_step_def escape_char.simps prefix_at_def nth_append)

lemma unescape_loop_escaped:
  "length pre0 = j \<Longrightarrow> length s < length rest \<Longrightarrow> src = pre @ escaped s \<Longrightarrow>
     unescape_loop src (length src) (length pre) j (pre0 @ rest)
       = Some (j + length s, pre0 @ s @ drop (length s) rest)"
proof (induction s arbitrary: pre j pre0 rest)
  case Nil
  then show ?case by (simp add: unescape_loop.simps)
next
  case (Cons c s)
  have i: "\<not> length src \<le> length pre" using Cons.prems(3) by (simp add: length_escape_char)
  have step: "unescape_step src (length pre) = (c, length (pre @ escape_char c))"
    using unescape_step_escape [of pre c "escaped s"] Cons.prems(3) by simp
  have "write_at j [c] (pre0 @ rest) = Some ((pre0 @ [c]) @ drop 1 rest)"
    using Cons.prems(1,2) by (simp add: write_at_append)
  with Cons.IH [of "pre0 @ [c]" "Suc j" "drop 1 rest" "pre @ escape_char c"] Cons.prems i step
  show ?case by (subst unescape_loop.simps) simp
qed

lemma unescape_loop_in_bounds:
  "j \<le> i \<Longrightarrow> j \<le> len \<Longrightarrow> length ret = len + 1 \<Longrightarrow>
     \<exists>j' ret'. unescape_loop src len i j ret = Some (j', ret') \<and> j' \<le> len \<and> length ret' = len + 1"
proof (induction src len i j ret rule: unescape_loop.induct)
  case (1 src len i j ret)
  show ?case
  proof (cases "len \<le> i")
    case True
    with 1 show ?thesis by (simp add: unescape_loop.simps)
  next
    case False
    with "1.prems" have w: "write_at j [c] ret = Some (take j ret @ c # drop (Suc j) ret)" for c
      by (simp add: write_at_def)
    let ?ret = "take j ret @ fst (unescape_step src i) # drop (Suc j) ret"
    have "length ?ret = len + 1" "j + 1 \<le> len" "j + 1 \<le> snd (unescape_step src i)"
      using "1.prems" False unescape_step_progress [of i src] by auto
    with "1.IH" [OF False, of ?ret] show ?thesis
      by (subst unescape_loop.simps) (simp add: False w)
  qed
qed

section \<open>Properties\<close>

text \<open>
  Escaping a string and unescaping the result gives the string back, for every
  NUL-free string and every allocator; on the way neither function leaves its block, and
  the escaped string has exactly the length that was counted in advance.
\<close>

theorem iks_escape_round_trip:
  assumes "sized alloc" and "no_nul str"
  shows "\<exists>r. iks_escape True alloc (Some str) (- 1) = Some r
    \<and> (\<forall>e. r = Some e \<longrightarrow> length e = length str + sum_list (map escape_extra str)
        \<and> (\<exists>u. iks_unescape True alloc (Some e) (- 1) = Some u \<and> u \<in> {None, Some str}))"
proof -
  have u: "\<exists>u. iks_unescape True alloc (Some (escaped str)) (- 1) = Some u \<and> u \<in> {None, Some str}"
  proof (cases "CHR ''&'' \<in> set (escaped str)")
    case False
    then have "escaped str = str"
      by (induction str) (auto simp: escape_char.simps split: if_splits)
    with False show ?thesis by (simp add: iks_unescape_def)
  next
    case True
    show ?thesis
    proof (cases "alloc (length (escaped str) + 1)")
      case None
      with True show ?thesis by (simp add: iks_unescape_def Let_def)
    next
      case (Some blk)
      have "length blk = length (escaped str) + 1" using assms(1) Some by (rule sizedD)
      moreover have "length str \<le> length (escaped str)" by (simp add: length_escaped)
      ultimately have l: "length str < length blk" by simp
      have "unescape_loop (escaped str) (length (escaped str)) 0 0 blk = Some (length str, str @ drop (length str) blk)"
        using unescape_loop_escaped [of "[]" 0 str blk "escaped str" "[]"] l by simp
      with True Some l assms(2) show ?thesis
        by (simp add: iks_unescape_def Let_def write_at_def c_str_terminated)
    qed
  qed
  obtain r where r: "iks_escape True alloc (Some str) (- 1) = Some r" "r \<in> {None, Some (escaped str)}"
    unfolding iks_escape_spec [OF assms] by (cases "alloc (length (escaped str) + 1)") auto
  then show ?thesis
    using u length_escaped [of str]
    by (intro exI [of _ r] conjI) (simp, safe, simp_all only:, simp_all)
qed

theorem iks_escape_round_trip_witness:
  "iks_unescape True (\<lambda>n. Some (replicate n NUL))
    (the (iks_escape True (\<lambda>n. Some (replicate n NUL)) (Some ''a<b&c'') (- 1))) (- 1) \<in> {Some None, Some (Some ''a<b&c'')}"
proof -
  have "sized (\<lambda>n. Some (replicate n NUL))" by (simp add: sized_def)
  moreover have "no_nul ''a<b&c''" by simp
  moreover have "iks_escape True (\<lambda>n. Some (replicate n NUL)) (Some ''a<b&c'') (- 1) = Some (Some ''a&lt;b&amp;c'')"
    by (subst iks_escape_spec [OF calculation]) (simp add: escape_char.simps)
  ultimately show ?thesis using iks_escape_round_trip [of "\<lambda>n. Some (replicate n NUL)" "''a<b&c''"] by auto
qed

text \<open>
  Unescaping is defined for every string and every length up to its own, even one that
  ends inside an entity: it writes at most that many characters and a NUL, inside its block.
\<close>

theorem iks_unescape_total:
  assumes "sized alloc" and "len \<le> length str"
  shows "\<exists>u. iks_unescape s alloc (Some str) (int len) = Some u
    \<and> (\<forall>r. u = Some r \<longrightarrow> length r \<le> max len (length str))"
proof (cases "s \<and> CHR ''&'' \<in> set str")
  case False
  then show ?thesis by (auto simp: iks_unescape_def)
next
  case True
  show ?thesis
  proof (cases "alloc (len + 1)")
    case None
    with True assms show ?thesis by (simp add: iks_unescape_def Let_def)
  next
    case (Some blk)
    have "length blk = len + 1" using assms(1) Some by (rule sizedD)
    then obtain j ret where l: "unescape_loop str len 0 0 blk = Some (j, ret)" "j \<le> len" "length ret = len + 1"
      using unescape_loop_in_bounds [of 0 0 len blk str] by auto
    have "length (c_str (take j ret @ NUL # drop (Suc j) ret)) \<le> j"
      using length_takeWhile_le [of "\<lambda>c. c \<noteq> NUL" "take j ret"]
      by (simp add: c_str_def takeWhile_append del: length_takeWhile_le)
    with True Some l assms(2) show ?thesis
      by (auto simp: iks_unescape_def Let_def write_at_def)
  qed
qed

theorem iks_unescape_total_witness:
  "\<exists>u. iks_unescape True (\<lambda>n. Some (replicate n NUL)) (Some ''x&amp;'') (int 4) = Some u"
  using iks_unescape_total [of "\<lambda>n. Some (replicate n NUL)" 4 "''x&amp;''" True] by (auto simp: sized_def)

end
