(* ===== verification/CatState.thy ===== *)
theory CatState
  imports IksUtil
begin

text \<open>
  The state of the client, \<^verbatim>\<open>src/CuteCat/CuteCat/catcore.h\<close> and the globals of
  \<^verbatim>\<open>catEar.c\<close>, and the part of \<^verbatim>\<open>catEar.c\<close> that prepares what is sent.
\<close>

datatype SOCETSTATUS = CAT_SOCKET_CLOSED | CAT_SOCKET_CONNECT

datatype CLIENTSTATUS = CLIENT_UNSHAKE | CLIENT_SHAKEED | CLIENT_UNLOGIN | CLIENT_LOGINED | CLIENT_STOPPED

definition MSGINITSIZE :: nat where "MSGINITSIZE = 1024"

definition INVALID_SOCKET :: int where "INVALID_SOCKET = - 1"

text \<open>
  \<^verbatim>\<open>CLIENTINFO\<close> with the globals \<^verbatim>\<open>VMSendBuf\<close>, \<^verbatim>\<open>nCnnAnOK\<close> and \<^verbatim>\<open>DOG\<close>: \<open>pSndData\<close> is the offset of the
  pointer in \<open>VMSendBuf\<close>.  The parser \<^verbatim>\<open>Prs\<close> is kept beside it.
\<close>

record cat =
  SockStatus :: SOCETSTATUS
  Status :: CLIENTSTATUS
  Socket :: int
  cat_SendLen :: int
  pSndData :: nat
  VMSendBuf :: string
  cat_Name :: string
  nCnnAnOK :: bool
  DOG :: "string \<times> nat"

abbreviation in_quotes :: "string \<Rightarrow> string" where
  "in_quotes v \<equiv> CHR 0x27 # v @ [CHR 0x27]"

definition HANDSHAKE_STREAM :: string where
  "HANDSHAKE_STREAM = ''<?xml version='' @ in_quotes ''1.0'' @ '' encoding='' @ in_quotes ''UTF-8'' @ ''?>''
     @ ''<stream:stream to='' @ in_quotes ''dog'' @ '' xmlns='' @ in_quotes ''jabber:cat''
     @ '' xmlns:stream='' @ in_quotes ''http://etherx.jabber.org/streams'' @ ''>''"

definition CLOSE_STREAM :: string where "CLOSE_STREAM = ''</stream:stream>''"

definition SetClientStatus :: "CLIENTSTATUS \<Rightarrow> cat \<Rightarrow> cat" where
  "SetClientStatus st s = s\<lparr>Status := st\<rparr>"

text \<open>\<open>pSendData\<close> is a C string; \<^verbatim>\<open>strncpy\<close> fills all bytes of the buffer.\<close>

definition PushSendStream :: "string \<Rightarrow> nat \<Rightarrow> cat \<Rightarrow> int \<times> cat" where
  "PushSendStream pSendData len s =
     (let len = (if len = 0 then length pSendData else len) in
      (1, s\<lparr>VMSendBuf := take MSGINITSIZE (pSendData @ replicate MSGINITSIZE NUL), cat_SendLen := int len\<rparr>))"

definition HandShake :: "cat \<Rightarrow> cat option" where
  "HandShake s =
     (if nCnnAnOK s \<and> Status s = CLIENT_UNSHAKE then do {
        buf \<leftarrow> write_at 0 (HANDSHAKE_STREAM @ [NUL]) (VMSendBuf s);
        len \<leftarrow> c_str_at 0 buf;
        Some (s\<lparr>VMSendBuf := buf, cat_SendLen := int (length len)\<rparr>)
      }
      else Some s)"

text \<open>
  The sending part of a round: \<open>sn\<close> is what \<^verbatim>\<open>send\<close> answers.  The result is the state, the bytes
  that were sent and whether the connection is to be closed.  A length that goes past the buffer
  is undefined.
\<close>

definition send_part :: "int \<Rightarrow> cat \<Rightarrow> (cat \<times> string \<times> bool) option" where
  "send_part sn s = do {
     out \<leftarrow> read_at (pSndData s) (nat (cat_SendLen s)) (VMSendBuf s);
     if 0 < sn then
       (let s = s\<lparr>cat_SendLen := cat_SendLen s - sn\<rparr>;
            s = (if 0 < cat_SendLen s then s\<lparr>pSndData := pSndData s + nat sn\<rparr> else s) in
        Some (s, take (nat sn) out, False))
     else Some (s, [], True)
   }"

section \<open>What is sent\<close>

text \<open>The rounds that send something: \<open>sns\<close> are the answers of \<^verbatim>\<open>send\<close>.\<close>

fun send_rounds :: "int list \<Rightarrow> cat \<Rightarrow> (cat \<times> string) option" where
  "send_rounds [] s = Some (s, [])"
| "send_rounds (sn # sns) s = do {
     (s, out, closed) \<leftarrow> send_part sn s;
     if closed then Some (s, out)
     else do { (s, rest) \<leftarrow> send_rounds sns s; Some (s, out @ rest) }
   }"

text \<open>Answers that take \<open>n\<close> bytes in all, in pieces that are not empty.\<close>

definition takes_all :: "int list \<Rightarrow> nat \<Rightarrow> bool" where
  "takes_all sns n \<longleftrightarrow> sns \<noteq> [] \<and> (\<forall>sn \<in> set sns. 0 < sn) \<and> sum_list sns = int n"

lemma sum_list_pos: "\<forall>sn \<in> set sns. 0 < sn \<Longrightarrow> 0 \<le> sum_list (sns :: int list)"
  by (induction sns) auto

lemma send_rounds_all:
  assumes "read_at (pSndData s) n (VMSendBuf s) = Some out" and "cat_SendLen s = int n" and "takes_all sns n"
  shows "send_rounds sns s = Some (s\<lparr>cat_SendLen := 0, pSndData := pSndData s + nat (sum_list (butlast sns))\<rparr>, out)"
  using assms
proof (induction sns arbitrary: s n out)
  case Nil
  then show ?case by (simp add: takes_all_def)
next
  case (Cons sn sns)
  have sn: "0 < sn" and rest: "\<forall>x \<in> set sns. 0 < x" and total: "sn + sum_list sns = int n"
    using Cons.prems(3) by (simp_all add: takes_all_def)
  have b: "pSndData s + n \<le> length (VMSendBuf s)" "out = take n (drop (pSndData s) (VMSendBuf s))"
    using Cons.prems(1) by (simp_all add: read_at_def split: if_splits)
  show ?case
  proof (cases "sns = []")
    case True
    then show ?thesis using Cons.prems(1,2) sn total b(2) by (simp add: send_part_def)
  next
    case False
    then have pos: "0 < sum_list sns" using rest by (cases sns) (auto dest: sum_list_pos)
    let ?k = "nat sn" and ?s = "s\<lparr>cat_SendLen := int n - sn, pSndData := pSndData s + nat sn\<rparr>"
    have k: "?k \<le> n" "int (n - ?k) = int n - sn" using sn total pos by simp_all
    have "read_at (pSndData ?s) (n - ?k) (VMSendBuf ?s) = Some (drop ?k out)"
      using b k(1) by (simp add: read_at_def drop_take add.commute)
    moreover have "takes_all sns (n - ?k)" using False rest total k(2) by (simp add: takes_all_def)
    moreover have "cat_SendLen ?s = int (n - ?k)" using k(2) by simp
    ultimately have IH: "send_rounds sns ?s = Some (?s\<lparr>cat_SendLen := 0, pSndData := pSndData ?s + nat (sum_list (butlast sns))\<rparr>, drop ?k out)"
      using Cons.IH by blast
    have st: "send_part sn s = Some (?s, take ?k out, False)"
      using Cons.prems(1,2) sn total pos by (simp add: send_part_def)
    have "0 \<le> sum_list (butlast sns)" using rest by (auto dest: in_set_butlastD intro: sum_list_pos)
    then have "nat sn + nat (sum_list (butlast sns)) = nat (sn + sum_list (butlast sns))" using sn by (simp add: nat_add_distrib)
    then show ?thesis using False by (simp add: st IH add.assoc)
  qed
qed

text \<open>
  C35. As long as the send pointer stands at the start of the buffer, a message that was taken by \<^verbatim>\<open>send\<close> in
  several pieces spoils the next one: the send pointer is moved by the pieces and never put back.  Of two texts that fit
  the buffer together, the first is then sent as it is, and the second intact if and only if the first was sent in one piece;
  otherwise other bytes of the buffer are sent.
\<close>

theorem next_message_intact_iff:
  assumes "takes_all sns (length m)" and "takes_all sns' (length m')" and "no_nul m'" and "pSndData s = 0"
    and "length m \<le> MSGINITSIZE" and "length m + length m' \<le> MSGINITSIZE"
  shows "\<exists>s1 s2 out. send_rounds sns (snd (PushSendStream m 0 s)) = Some (s1, m)
    \<and> send_rounds sns' (snd (PushSendStream m' 0 s1)) = Some (s2, out) \<and> (out = m' \<longleftrightarrow> length sns = 1)"
proof -
  let ?q = "snd (PushSendStream m 0 s)" and ?k = "nat (sum_list (butlast sns))"
  let ?buf = "take MSGINITSIZE (m' @ replicate MSGINITSIZE NUL)"
  have ne: "sns \<noteq> []" "m' \<noteq> []" "sns' \<noteq> []"
    using assms(1,2) sum_list_pos [of "tl sns'"] by (auto simp: takes_all_def) (cases sns', auto)
  have pos: "\<forall>x \<in> set sns. 0 < x" "sum_list sns = int (length m)" using assms(1) by (simp_all add: takes_all_def)
  have "sum_list sns = sum_list (butlast sns) + last sns"
    using ne(1) by (metis append_butlast_last_id sum_list.append sum_list.Cons sum_list.Nil add.right_neutral)
  moreover have "0 < last sns" using pos(1) ne(1) by simp
  moreover have b0: "0 \<le> sum_list (butlast sns)" using pos(1) by (auto dest: in_set_butlastD intro: sum_list_pos)
  ultimately have k: "?k \<le> length m" using pos(2) by simp
  have r: "read_at (pSndData ?q) (length m) (VMSendBuf ?q) = Some m" "cat_SendLen ?q = int (length m)"
    using assms(4,5) by (simp_all add: PushSendStream_def read_at_def)
  define s1 where "s1 = ?q\<lparr>cat_SendLen := 0, pSndData := pSndData ?q + ?k\<rparr>"
  have run1: "send_rounds sns ?q = Some (s1, m)" unfolding s1_def by (rule send_rounds_all [OF r assms(1)])
  let ?q' = "snd (PushSendStream m' 0 s1)"
  have off: "pSndData ?q' = ?k" using assms(4) by (simp add: PushSendStream_def s1_def)
  have len: "length ?buf = MSGINITSIZE" by simp
  define out where "out = take (length m') (drop ?k ?buf)"
  have r': "read_at (pSndData ?q') (length m') (VMSendBuf ?q') = Some out"
    unfolding off using k assms(6) by (simp add: PushSendStream_def read_at_def out_def)
  have l': "cat_SendLen ?q' = int (length m')" by (simp add: PushSendStream_def)
  have run2: "send_rounds sns' ?q' = Some (?q'\<lparr>cat_SendLen := 0, pSndData := pSndData ?q' + nat (sum_list (butlast sns'))\<rparr>, out)"
    by (rule send_rounds_all [OF r' l' assms(2)])
  have "out = m' \<longleftrightarrow> ?k = 0"
  proof
    assume "?k = 0"
    then show "out = m'" using assms(6) by (simp add: out_def)
  next
    assume eq: "out = m'"
    show "?k = 0"
    proof (rule ccontr)
      assume "?k \<noteq> 0"
      then have j: "length m' \<le> ?k + (length m' - 1)" by simp
      have i: "length m' - 1 < length m'" using ne(2) by simp
      have "out ! (length m' - 1) = ?buf ! (?k + (length m' - 1))"
        unfolding out_def using i k assms(6) by (subst nth_take) (simp_all del: take_append)
      also have "\<dots> = (m' @ replicate MSGINITSIZE NUL) ! (?k + (length m' - 1))"
        using i k assms(6) by (subst nth_take) simp_all
      also have "\<dots> = NUL" unfolding nth_append using j i k assms(6) by (simp del: One_nat_def)
      finally have "out ! (length m' - 1) = NUL" .
      then have "NUL \<in> set m'" using i eq by (metis nth_mem)
      then show False using assms(3) by (simp add: no_nul_def)
    qed
  qed
  moreover have "?k = 0 \<longleftrightarrow> length sns = 1"
  proof
    assume "?k = 0"
    then have "sum_list (butlast sns) = 0" using b0 by simp
    moreover have "\<forall>x \<in> set (butlast sns). 0 < x" using pos(1) by (auto dest: in_set_butlastD)
    ultimately have "butlast sns = []" using sum_list_pos [of "tl (butlast sns)"] by (cases "butlast sns") auto
    then show "length sns = 1" using ne(1) by (metis append_butlast_last_id append_Nil length_Cons list.size(3) One_nat_def)
  next
    assume "length sns = 1"
    then show "?k = 0" by (cases sns) auto
  qed
  ultimately have "out = m' \<longleftrightarrow> length sns = 1" by simp
  with run1 run2 show ?thesis by (intro exI conjI)
qed

definition cat_idle :: cat where
  "cat_idle = \<lparr>SockStatus = CAT_SOCKET_CONNECT, Status = CLIENT_LOGINED, Socket = 5, cat_SendLen = 0, pSndData = 0,
     VMSendBuf = replicate MSGINITSIZE NUL, cat_Name = ''tom'', nCnnAnOK = True, DOG = (''10.0.0.1'', 8888)\<rparr>"

theorem next_message_intact_iff_witness:
  "\<exists>s1 s2 out. send_rounds [2, 1] (snd (PushSendStream ''abc'' 0 cat_idle)) = Some (s1, ''abc'')
    \<and> send_rounds [3] (snd (PushSendStream ''def'' 0 s1)) = Some (s2, out) \<and> out \<noteq> ''def''"
  using next_message_intact_iff [of "[2, 1]" "''abc''" "[3]" "''def''" cat_idle]
  by (simp add: takes_all_def MSGINITSIZE_def cat_idle_def)

end
