(* ===== verification/CLib.thy ===== *)
theory CLib
  imports Prelude
begin

text \<open>
  Functions of the C library on strings that the server and the client use.
\<close>

definition is_digit :: "char \<Rightarrow> bool" where
  "is_digit c \<longleftrightarrow> 48 \<le> (of_char c :: nat) \<and> (of_char c :: nat) \<le> 57"

definition is_space :: "char \<Rightarrow> bool" where
  "is_space c \<longleftrightarrow> (of_char c :: nat) = 32 \<or> 9 \<le> (of_char c :: nat) \<and> (of_char c :: nat) \<le> 13"

definition digits_val :: "string \<Rightarrow> int" where
  "digits_val s = int (foldl (\<lambda>n c. 10 * n + (of_char c - 48)) 0 (takeWhile is_digit s))"

text \<open>\<^verbatim>\<open>atoi\<close>, undefined when the value is not an \<^verbatim>\<open>int\<close>.\<close>

definition atoi :: "string \<Rightarrow> int option" where
  "atoi s =
     (let t = dropWhile is_space s;
          v = (case t of CHR ''-'' # r \<Rightarrow> - digits_val r | CHR ''+'' # r \<Rightarrow> digits_val r | _ \<Rightarrow> digits_val t) in
      if - (2 ^ 31) \<le> v \<and> v < 2 ^ 31 then Some v else None)"

end
