(* ===== verification/Iks.thy ===== *)
theory Iks
  imports IksUtil
begin

text \<open>
  The XML trees of \<^verbatim>\<open>src/CuteCat/iksemel/iks.c\<close>: the data, the functions that extend
  a tree, the lookups that the server's handlers use, and the serializer.  A node pointer
  is an \<^typ>\<open>'a option\<close> (NULL is \<^term>\<open>None\<close>); a node together with its following
  siblings is the list that starts with it.  Reading the tag fields of a character-data
  node is undefined behaviour: the outer \<^term>\<open>None\<close> of a result.
\<close>

section \<open>Trees\<close>

datatype ikstype = IKS_NONE | IKS_TAG | IKS_ATTRIBUTE | IKS_CDATA

datatype iks =
  IksTag (tag_name: string) (tag_attribs: "(string \<times> string) list") (tag_children: "iks list")
| IksCData (cdata_string: string)

definition iks_type :: "iks option \<Rightarrow> ikstype" where
  "iks_type x = (case x of None \<Rightarrow> IKS_NONE | Some (IksTag _ _ _) \<Rightarrow> IKS_TAG | Some (IksCData _) \<Rightarrow> IKS_CDATA)"

text \<open>The casts \<^verbatim>\<open>IKS_TAG_CHILDREN\<close> and \<^verbatim>\<open>IKS_TAG_ATTRIBS\<close>.\<close>

definition IKS_TAG_CHILDREN :: "iks \<Rightarrow> iks list option" where
  "IKS_TAG_CHILDREN x = (case x of IksTag _ _ cs \<Rightarrow> Some cs | IksCData _ \<Rightarrow> None)"

definition IKS_TAG_ATTRIBS :: "iks \<Rightarrow> (string \<times> string) list option" where
  "IKS_TAG_ATTRIBS x = (case x of IksTag _ as _ \<Rightarrow> Some as | IksCData _ \<Rightarrow> None)"

text \<open>What a stream parser passes to its hook: \<^verbatim>\<open>enum iksnodetype\<close> with the node; the last has none.\<close>

datatype iksnode = IKS_NODE_START iks | IKS_NODE_NORMAL iks | IKS_NODE_ERROR iks | IKS_NODE_STOP

section \<open>Building\<close>

definition iks_new :: "string \<Rightarrow> iks" where
  "iks_new name = IksTag name [] []"

definition iks_insert_node :: "iks \<Rightarrow> iks \<Rightarrow> iks option" where
  "iks_insert_node x y =
     (case x of IksTag n as cs \<Rightarrow> Some (IksTag n as (cs @ [y])) | IksCData _ \<Rightarrow> None)"

definition iks_insert :: "iks \<Rightarrow> string \<Rightarrow> iks option" where
  "iks_insert x name = iks_insert_node x (iks_new name)"

text \<open>
  A length of 0 stands for \<open>strlen\<close>, and one beyond the NUL reads outside the text; adjacent character data is
  joined.
\<close>

definition iks_insert_cdata :: "iks \<Rightarrow> string \<Rightarrow> nat \<Rightarrow> iks option" where
  "iks_insert_cdata x data len =
     (case x of
       IksCData _ \<Rightarrow> None
     | IksTag n as cs \<Rightarrow> do {
         d \<leftarrow> (if len = 0 then Some data else read_at 0 len (data @ [NUL]));
         Some (IksTag n as
           (case rev cs of
              IksCData old # rest \<Rightarrow> rev rest @ [IksCData (old @ d)]
            | _ \<Rightarrow> cs @ [IksCData d]))
       })"

lemma insert_whole_cdata: "len = 0 \<or> len = length data \<Longrightarrow> iks_insert_cdata (IksTag n as cs) data len
    = Some (IksTag n as (case rev cs of IksCData old # rest \<Rightarrow> rev rest @ [IksCData (old @ data)] | _ \<Rightarrow> cs @ [IksCData data]))"
proof -
  have "read_at 0 (length data) (data @ [NUL]) = Some data" by (simp add: read_at_def)
  then show "len = 0 \<or> len = length data \<Longrightarrow> ?thesis" by (auto simp: iks_insert_cdata_def)
qed

fun set_attrib :: "string \<Rightarrow> string \<Rightarrow> (string \<times> string) list \<Rightarrow> (string \<times> string) list" where
  "set_attrib name v [] = [(name, v)]"
| "set_attrib name v ((n, w) # as) = (if name = n then (n, v) # as else (n, w) # set_attrib name v as)"

fun remove_attrib :: "string \<Rightarrow> (string \<times> string) list \<Rightarrow> (string \<times> string) list" where
  "remove_attrib name [] = []"
| "remove_attrib name ((n, w) # as) = (if name = n then as else (n, w) # remove_attrib name as)"

text \<open>A NULL value removes the attribute.\<close>

definition iks_insert_attrib :: "iks \<Rightarrow> string \<Rightarrow> string option \<Rightarrow> iks option" where
  "iks_insert_attrib x name v =
     (case x of
       IksCData _ \<Rightarrow> None
     | IksTag n as cs \<Rightarrow>
         Some (IksTag n (case v of Some v \<Rightarrow> set_attrib name v as | None \<Rightarrow> remove_attrib name as) cs))"

section \<open>Traversing\<close>

definition iks_next :: "iks list \<Rightarrow> iks list" where
  "iks_next x = (case x of [] \<Rightarrow> [] | _ # xs \<Rightarrow> xs)"

fun skip_to_tag :: "iks list \<Rightarrow> iks list" where
  "skip_to_tag [] = []"
| "skip_to_tag (x # xs) = (if iks_type (Some x) = IKS_TAG then x # xs else skip_to_tag xs)"

definition iks_next_tag :: "iks list \<Rightarrow> iks list" where
  "iks_next_tag x = skip_to_tag (iks_next x)"

definition iks_child :: "iks option \<Rightarrow> iks list" where
  "iks_child x = (case x of Some (IksTag _ _ cs) \<Rightarrow> cs | _ \<Rightarrow> [])"

definition iks_first_tag :: "iks option \<Rightarrow> iks list option" where
  "iks_first_tag x =
     (case x of None \<Rightarrow> Some [] | Some x \<Rightarrow> do { cs \<leftarrow> IKS_TAG_CHILDREN x; Some (skip_to_tag cs) })"

definition iks_attrib :: "iks option \<Rightarrow> (string \<times> string) list option" where
  "iks_attrib x = (case x of None \<Rightarrow> Some [] | Some x \<Rightarrow> IKS_TAG_ATTRIBS x)"

fun find_child :: "string \<Rightarrow> iks list \<Rightarrow> iks option" where
  "find_child name [] = None"
| "find_child name (y # ys) =
     (case y of
       IksTag n _ _ \<Rightarrow> if n = name then Some y else find_child name ys
     | IksCData _ \<Rightarrow> find_child name ys)"

definition iks_find :: "iks option \<Rightarrow> string \<Rightarrow> iks option option" where
  "iks_find x name =
     (case x of None \<Rightarrow> Some None | Some x \<Rightarrow> do { cs \<leftarrow> IKS_TAG_CHILDREN x; Some (find_child name cs) })"

definition iks_find_cdata :: "iks option \<Rightarrow> string \<Rightarrow> string option option" where
  "iks_find_cdata x name = do {
     y \<leftarrow> iks_find x name;
     case y of
       None \<Rightarrow> Some None
     | Some y \<Rightarrow> do {
         cs \<leftarrow> IKS_TAG_CHILDREN y;
         Some (case cs of IksCData d # _ \<Rightarrow> Some d | _ \<Rightarrow> None)
       }
   }"

definition iks_find_attrib :: "iks option \<Rightarrow> string \<Rightarrow> string option option" where
  "iks_find_attrib x name =
     (case x of None \<Rightarrow> Some None | Some x \<Rightarrow> do { as \<leftarrow> IKS_TAG_ATTRIBS x; Some (map_of as name) })"

fun find_with :: "string option \<Rightarrow> string \<Rightarrow> string option \<Rightarrow> iks list \<Rightarrow> iks option" where
  "find_with tagname attrname v [] = None"
| "find_with tagname attrname v (y # ys) =
     (case y of
       IksTag n as _ \<Rightarrow>
         if (case tagname of None \<Rightarrow> True | Some t \<Rightarrow> n = t) \<and> iks_strcmp (map_of as attrname) v = 0
         then Some y else find_with tagname attrname v ys
     | IksCData _ \<Rightarrow> find_with tagname attrname v ys)"

definition iks_find_with_attrib ::
  "iks option \<Rightarrow> string option \<Rightarrow> string \<Rightarrow> string option \<Rightarrow> iks option option" where
  "iks_find_with_attrib x tagname attrname v =
     (case x of
       None \<Rightarrow> Some None
     | Some x \<Rightarrow> do { cs \<leftarrow> IKS_TAG_CHILDREN x; Some (find_with tagname attrname v cs) })"

definition iks_name :: "iks option \<Rightarrow> string option option" where
  "iks_name x = (case x of None \<Rightarrow> Some None | Some (IksTag n _ _) \<Rightarrow> Some (Some n) | Some (IksCData _) \<Rightarrow> None)"

definition iks_cdata :: "iks option \<Rightarrow> string option option" where
  "iks_cdata x = (case x of None \<Rightarrow> Some None | Some (IksCData d) \<Rightarrow> Some (Some d) | Some (IksTag _ _ _) \<Rightarrow> None)"

definition iks_cdata_size :: "iks option \<Rightarrow> nat option" where
  "iks_cdata_size x =
     (case x of None \<Rightarrow> Some 0 | Some (IksCData d) \<Rightarrow> Some (length d) | Some (IksTag _ _ _) \<Rightarrow> None)"

definition iks_has_children :: "iks option \<Rightarrow> bool" where
  "iks_has_children x \<longleftrightarrow> (case x of Some (IksTag _ _ cs) \<Rightarrow> cs \<noteq> [] | _ \<Rightarrow> False)"

definition iks_has_attribs :: "iks option \<Rightarrow> bool" where
  "iks_has_attribs x \<longleftrightarrow> (case x of Some (IksTag _ as _) \<Rightarrow> as \<noteq> [] | _ \<Rightarrow> False)"

section \<open>Serializing\<close>

text \<open>The output position and the block that is written.\<close>

type_synonym out = "nat \<times> string"

definition put_c :: "char \<Rightarrow> out \<Rightarrow> out option" where \<comment> \<open>\<^verbatim>\<open>*t++ = c\<close>\<close>
  "put_c c t = do { m \<leftarrow> write_at (fst t) [c] (snd t); Some (fst t + 1, m) }"

text \<open>A length of 0 stands for \<open>strlen\<close>.\<close>

definition my_strcat :: "string \<Rightarrow> nat \<Rightarrow> out \<Rightarrow> out option" where
  "my_strcat src len t =
     (let s = (if len = 0 then src else take len src) in
      do { m \<leftarrow> write_at (fst t) s (snd t); Some (fst t + length s, m) })"

definition is_special :: "char \<Rightarrow> bool" where
  "is_special c \<longleftrightarrow> c = CHR ''&'' \<or> c = CHR ''<'' \<or> c = CHR ''>'' \<or> c = CHR 0x27 \<or> c = CHR 0x22"

text \<open>
  The loop at index \<open>i\<close> with the plain characters from \<open>j\<close> on not yet copied; the first
  argument is the rest of the text.
\<close>

fun escape_go :: "string \<Rightarrow> string \<Rightarrow> nat \<Rightarrow> nat \<Rightarrow> out \<Rightarrow> out option" where
  "escape_go [] src i j t = (if 0 < i - j then my_strcat (drop j src) (i - j) t else Some t)"
| "escape_go (c # cs) src i j t =
     (if is_special c then do {
        t \<leftarrow> (if 0 < i - j then my_strcat (drop j src) (i - j) t else Some t);
        t \<leftarrow> (if c = CHR ''&'' then my_strcat ''&amp;'' 5 t
              else if c = CHR 0x27 then my_strcat ''&apos;'' 6 t
              else if c = CHR 0x22 then my_strcat ''&quot;'' 6 t
              else if c = CHR ''<'' then my_strcat ''&lt;'' 4 t
              else my_strcat ''&gt;'' 4 t);
        escape_go cs src (i + 1) (i + 1) t
      }
      else escape_go cs src (i + 1) j t)"

definition escape :: "string \<Rightarrow> out \<Rightarrow> out option" where
  "escape src t = escape_go src src 0 0 t"

fun escape_size :: "string \<Rightarrow> nat" where
  "escape_size [] = 0"
| "escape_size (c # cs) =
     (if c = CHR ''&'' then 5 else if c = CHR 0x27 then 6 else if c = CHR 0x22 then 6
      else if c = CHR ''<'' then 4 else if c = CHR ''>'' then 4 else 1) + escape_size cs"

text \<open>The first traversal of \<^verbatim>\<open>iks_string\<close> adds up the size, the second one writes.\<close>

fun attribs_size :: "(string \<times> string) list \<Rightarrow> nat" where
  "attribs_size [] = 0"
| "attribs_size ((n, v) # as) = 4 + length n + escape_size v + attribs_size as"

fun node_size :: "iks \<Rightarrow> nat" and nodes_size :: "iks list \<Rightarrow> nat" where
  "node_size (IksCData d) = escape_size d"
| "node_size (IksTag n as cs) =
     1 + length n + attribs_size as + (if cs = [] then 2 else 1 + nodes_size cs + (3 + length n))"
| "nodes_size [] = 0"
| "nodes_size (c # cs) = node_size c + nodes_size cs"

fun put_attribs :: "(string \<times> string) list \<Rightarrow> out \<Rightarrow> out option" where
  "put_attribs [] t = Some t"
| "put_attribs ((n, v) # as) t = do {
     t \<leftarrow> put_c CHR '' '' t;
     t \<leftarrow> my_strcat n 0 t;
     t \<leftarrow> put_c CHR ''='' t;
     t \<leftarrow> put_c CHR 0x27 t;
     t \<leftarrow> escape v t;
     t \<leftarrow> put_c CHR 0x27 t;
     put_attribs as t
   }"

fun put_node :: "iks \<Rightarrow> out \<Rightarrow> out option" and put_nodes :: "iks list \<Rightarrow> out \<Rightarrow> out option" where
  "put_node (IksCData d) t = escape d t"
| "put_node (IksTag n as cs) t = do {
     t \<leftarrow> put_c CHR ''<'' t;
     t \<leftarrow> my_strcat n 0 t;
     t \<leftarrow> put_attribs as t;
     if cs = [] then do { t \<leftarrow> put_c CHR ''/'' t; put_c CHR ''>'' t }
     else do {
       t \<leftarrow> put_c CHR ''>'' t;
       t \<leftarrow> put_nodes cs t;
       t \<leftarrow> put_c CHR ''<'' t;
       t \<leftarrow> put_c CHR ''/'' t;
       t \<leftarrow> my_strcat n 0 t;
       put_c CHR ''>'' t
     }
   }"
| "put_nodes [] t = Some t"
| "put_nodes (c # cs) t = do { t \<leftarrow> put_node c t; put_nodes cs t }"

text \<open>
  The result is the block: a NUL-terminated string for a tag, the bare bytes for character
  data outside a stack.
\<close>

definition iks_string :: "(nat \<Rightarrow> string option) \<Rightarrow> iks option \<Rightarrow> string option option" where
  "iks_string alloc x =
     (case x of
       None \<Rightarrow> Some None
     | Some (IksCData d) \<Rightarrow> Some (Some d)
     | Some y \<Rightarrow>
         (case alloc (node_size y + 1) of
           None \<Rightarrow> Some None
         | Some ret \<Rightarrow> do {
             t \<leftarrow> put_node y (0, ret);
             m \<leftarrow> write_at (fst t) [NUL] (snd t);
             Some (Some m)
           }))"

section \<open>What is written\<close>

fun attribs_text :: "(string \<times> string) list \<Rightarrow> string" where
  "attribs_text [] = []"
| "attribs_text ((n, v) # as) = '' '' @ n @ ''='' @ [CHR 0x27] @ escaped v @ [CHR 0x27] @ attribs_text as"

fun node_text :: "iks \<Rightarrow> string" and nodes_text :: "iks list \<Rightarrow> string" where
  "node_text (IksCData d) = escaped d"
| "node_text (IksTag n as cs) = ''<'' @ n @ attribs_text as @
     (if cs = [] then ''/>'' else ''>'' @ nodes_text cs @ ''</'' @ n @ ''>'')"
| "nodes_text [] = []"
| "nodes_text (c # cs) = node_text c @ nodes_text cs"

text \<open>A writer appends a text to what is already in the block, when the block has the room.\<close>

definition writes :: "(out \<Rightarrow> out option) \<Rightarrow> string \<Rightarrow> bool" where
  "writes w s \<longleftrightarrow> (\<forall>pre rest. length s \<le> length rest \<longrightarrow>
     w (length pre, pre @ rest) = Some (length (pre @ s), (pre @ s) @ drop (length s) rest))"

lemma writesD:
  "writes w s \<Longrightarrow> length s \<le> length rest \<Longrightarrow>
     w (length pre, pre @ rest) = Some (length (pre @ s), (pre @ s) @ drop (length s) rest)"
  by (auto simp: writes_def)

lemma writes_bind:
  assumes "writes v s" "writes w t"
  shows "writes (\<lambda>x. do { y \<leftarrow> v x; w y }) (s @ t)"
  unfolding writes_def
proof (intro allI impI)
  fix pre rest :: string assume l: "length (s @ t) \<le> length rest"
  have "v (length pre, pre @ rest) = Some (length (pre @ s), (pre @ s) @ drop (length s) rest)"
    using l by (intro writesD [OF assms(1)]) simp
  moreover have "w (length (pre @ s), (pre @ s) @ drop (length s) rest)
      = Some (length ((pre @ s) @ t), ((pre @ s) @ t) @ drop (length t) (drop (length s) rest))"
    using l by (intro writesD [OF assms(2)]) simp
  ultimately show "do { y \<leftarrow> v (length pre, pre @ rest); w y }
      = Some (length (pre @ s @ t), (pre @ s @ t) @ drop (length (s @ t)) rest)"
    by (simp add: add.commute)
qed

lemma writes_skip: "writes Some []"
  by (simp add: writes_def)

lemma writes_put_c: "writes (put_c c) [c]"
  by (simp add: writes_def put_c_def write_at_append)

lemma writes_my_strcat: "writes (my_strcat s n) (if n = 0 then s else take n s)"
  by (simp add: writes_def my_strcat_def write_at_append Let_def)

lemma writes_my_strcat0: "writes (my_strcat s 0) s"
  using writes_my_strcat [of s 0] by simp

lemma writes_cong: "(\<And>x. w x = v x) \<Longrightarrow> writes v s \<Longrightarrow> writes w s"
  by (simp add: writes_def)

lemma writes_pending:
  "i = length pre \<Longrightarrow> j \<le> i \<Longrightarrow> src = pre @ cs \<Longrightarrow>
     writes (\<lambda>t. if 0 < i - j then my_strcat (drop j src) (i - j) t else Some t) (drop j pre)"
  using writes_my_strcat [of "drop j src" "i - j"] writes_skip
  by (cases "0 < i - j") simp_all

lemma writes_entity:
  assumes "is_special c"
  shows "writes (\<lambda>t. if c = CHR ''&'' then my_strcat ''&amp;'' 5 t
      else if c = CHR 0x27 then my_strcat ''&apos;'' 6 t
      else if c = CHR 0x22 then my_strcat ''&quot;'' 6 t
      else if c = CHR ''<'' then my_strcat ''&lt;'' 4 t
      else my_strcat ''&gt;'' 4 t) (escape_char c)"
  using assms writes_my_strcat [of "''&amp;''" 5] writes_my_strcat [of "''&apos;''" 6]
    writes_my_strcat [of "''&quot;''" 6] writes_my_strcat [of "''&lt;''" 4] writes_my_strcat [of "''&gt;''" 4]
  by (auto simp: is_special_def escape_char.simps)

lemma escape_char_plain: "\<not> is_special c \<Longrightarrow> escape_char c = [c]"
  by (simp add: is_special_def escape_char.simps)

lemma writes_escape_go:
  "i = length pre \<Longrightarrow> j \<le> i \<Longrightarrow> src = pre @ cs \<Longrightarrow> writes (escape_go cs src i j) (drop j pre @ escaped cs)"
proof (induction cs arbitrary: pre i j)
  case Nil
  then show ?case using writes_pending [of i pre j src "[]"] by (auto intro: writes_cong)
next
  case (Cons c cs)
  have IH: "writes (escape_go cs src (i + 1) k) (drop k (pre @ [c]) @ escaped cs)" if "k \<le> i + 1" for k
    using Cons.IH [of "i + 1" "pre @ [c]" k] Cons.prems that by simp
  show ?case
  proof (cases "is_special c")
    case True
    have "drop (i + 1) (pre @ [c]) = []" using Cons.prems(1) by simp
    then have "writes (escape_go cs src (i + 1) (i + 1)) (escaped cs)" using IH [of "i + 1"] by simp
    from writes_bind [OF writes_pending [OF Cons.prems] writes_bind [OF writes_entity [OF True] this]]
    show ?thesis unfolding escaped_simps by (rule writes_cong [rotated]) (simp add: True)
  next
    case False
    with IH [of j] Cons.prems show ?thesis
      by (auto simp: escape_char_plain intro: writes_cong)
  qed
qed

lemma writes_escape: "writes (escape s) (escaped s)"
  using writes_escape_go [of 0 "[]" 0 s s] by (auto simp: escape_def intro: writes_cong)

lemma writes_put_attribs: "writes (put_attribs as) (attribs_text as)"
proof (induction as)
  case Nil
  then show ?case using writes_skip by (auto intro: writes_cong)
next
  case (Cons a as)
  obtain n v where a: "a = (n, v)" by (cases a)
  from writes_bind [OF writes_put_c writes_bind [OF writes_my_strcat0 writes_bind [OF writes_put_c
        writes_bind [OF writes_put_c writes_bind [OF writes_escape writes_bind [OF writes_put_c Cons.IH]]]]]]
  have "writes (put_attribs (a # as)) ([CHR '' ''] @ n @ [CHR ''=''] @ [CHR 0x27] @ escaped v @ [CHR 0x27] @ attribs_text as)"
    by (rule writes_cong [rotated]) (simp add: a)
  then show ?case by (simp only: a attribs_text.simps append_Cons append_Nil)
qed

lemma writes_put_node: "writes (put_node x) (node_text x)" "writes (put_nodes xs) (nodes_text xs)"
proof (induction x and xs rule: node_text_nodes_text.induct)
  case (1 d)
  then show ?case using writes_escape by (auto intro: writes_cong)
next
  case (2 n as cs)
  show ?case
  proof (cases "cs = []")
    case True
    from writes_bind [OF writes_put_c writes_bind [OF writes_my_strcat0 writes_bind [OF writes_put_attribs
          writes_bind [OF writes_put_c writes_put_c]]]]
    have "writes (put_node (IksTag n as cs)) ([CHR ''<''] @ n @ attribs_text as @ [CHR ''/''] @ [CHR ''>''])"
      by (rule writes_cong [rotated]) (simp add: True)
    then show ?thesis using True by (simp only: node_text.simps refl if_True append_Cons append_Nil append_assoc)
  next
    case False
    with 2 have c: "writes (put_nodes cs) (nodes_text cs)" by simp
    from writes_bind [OF writes_put_c writes_bind [OF writes_my_strcat0 writes_bind [OF writes_put_attribs
          writes_bind [OF writes_put_c writes_bind [OF c writes_bind [OF writes_put_c
          writes_bind [OF writes_put_c writes_bind [OF writes_my_strcat0 writes_put_c]]]]]]]]
    have "writes (put_node (IksTag n as cs)) ([CHR ''<''] @ n @ attribs_text as @ [CHR ''>''] @ nodes_text cs @
        [CHR ''<''] @ [CHR ''/''] @ n @ [CHR ''>''])"
      by (rule writes_cong [rotated]) (simp add: False)
    then show ?thesis using False by (simp only: node_text.simps if_False append_Cons append_Nil append_assoc)
  qed
next
  case 3
  then show ?case using writes_skip by (auto intro: writes_cong)
next
  case (4 c cs)
  from writes_bind [OF 4] show ?case
    unfolding nodes_text.simps by (rule writes_cong [rotated]) simp
qed

lemma escape_size_escaped: "escape_size s = length (escaped s)"
  by (induction s) (simp_all add: escape_char.simps)

lemma attribs_size_text: "attribs_size as = length (attribs_text as)"
  by (induction as rule: attribs_size.induct) (simp_all add: escape_size_escaped)

lemma node_size_text: "node_size x = length (node_text x)" "nodes_size xs = length (nodes_text xs)"
  by (induction x and xs rule: node_text_nodes_text.induct)
    (simp_all add: escape_size_escaped attribs_size_text)

lemma set_attrib_map_of: "map_of (set_attrib name v as) = (map_of as)(name \<mapsto> v)"
  by (induction name v as rule: set_attrib.induct) auto

lemma set_attrib_names: "set (map fst (set_attrib name v as)) = insert name (set (map fst as))"
  by (induction name v as rule: set_attrib.induct) auto

lemma set_attrib_distinct: "distinct (map fst as) \<Longrightarrow> distinct (map fst (set_attrib name v as))"
  using set_attrib_names by (induction name v as rule: set_attrib.induct) auto

lemma remove_attrib_map_of:
  "distinct (map fst as) \<Longrightarrow> map_of (remove_attrib name as) = (map_of as)(name := None)"
  by (induction name as rule: remove_attrib.induct) (auto simp: fun_eq_iff map_of_eq_None_iff)

lemma remove_attrib_subset: "set (remove_attrib name as) \<subseteq> set as"
  by (induction name as rule: remove_attrib.induct) auto

lemma remove_attrib_distinct: "distinct (map fst as) \<Longrightarrow> distinct (map fst (remove_attrib name as))"
  using remove_attrib_subset by (induction name as rule: remove_attrib.induct) force+

section \<open>Properties\<close>

text \<open>
  Serializing a tag fills the block whose size the first traversal computed exactly: no
  byte is written outside it, and it holds the markup of the tree with every attribute value
  and every character-data node escaped, and the terminating NUL.
\<close>

theorem iks_string_fills_block:
  assumes "sized alloc" and "iks_type (Some x) = IKS_TAG"
  shows "iks_string alloc (Some x)
    = Some (map_option (\<lambda>_. node_text x @ [NUL]) (alloc (length (node_text x) + 1)))"
proof -
  obtain n as cs where x: "x = IksTag n as cs" using assms(2) by (cases x) (auto simp: iks_type_def)
  have s: "iks_string alloc (Some x) = (case alloc (node_size x + 1) of None \<Rightarrow> Some None
      | Some ret \<Rightarrow> do { t \<leftarrow> put_node x (0, ret); m \<leftarrow> write_at (fst t) [NUL] (snd t); Some (Some m) })"
    unfolding iks_string_def x option.case iks.case by (rule refl)
  show ?thesis
  proof (cases "alloc (length (node_text x) + 1)")
    case None
    then show ?thesis by (simp add: s node_size_text(1))
  next
    case (Some ret)
    have l: "length ret = length (node_text x) + 1" using assms(1) Some by (rule sizedD)
    have p: "put_node x (0, ret) = Some (length (node_text x), node_text x @ drop (length (node_text x)) ret)"
      using writesD [OF writes_put_node(1), where pre = "[]" and rest = ret] l by simp
    have w: "write_at (length (node_text x)) [NUL] (node_text x @ drop (length (node_text x)) ret) = Some (node_text x @ [NUL])"
      using l by (simp add: write_at_def)
    then show ?thesis using Some p by (simp add: s node_size_text(1))
  qed
qed

theorem iks_string_fills_block_witness:
  "iks_string (\<lambda>n. Some (replicate n NUL)) (Some (IksTag ''a'' [(''b'', ''<'')] [IksCData ''x&y'']))
    = Some (Some (node_text (IksTag ''a'' [(''b'', ''<'')] [IksCData ''x&y'']) @ [NUL]))"
  using iks_string_fills_block [of "\<lambda>n. Some (replicate n NUL)" "IksTag ''a'' [(''b'', ''<'')] [IksCData ''x&y'']"]
  by (simp add: sized_def iks_type_def)

text \<open>
  Setting an attribute of a tag whose attribute names are distinct makes exactly that
  value the result of looking the name up, removing it makes the lookup fail, the lookups of
  the other names do not change, and the names stay distinct.
\<close>

theorem iks_insert_attrib_lookup:
  assumes "distinct (map fst as)"
  shows "\<exists>as'. iks_insert_attrib (IksTag n as cs) name v = Some (IksTag n as' cs) \<and> distinct (map fst as')
    \<and> (\<forall>k. iks_find_attrib (Some (IksTag n as' cs)) k
        = Some (if k = name then v else map_of as k))"
  using assms by (cases v) (auto simp: iks_insert_attrib_def iks_find_attrib_def IKS_TAG_ATTRIBS_def
      set_attrib_map_of set_attrib_distinct remove_attrib_map_of remove_attrib_distinct)

theorem iks_insert_attrib_lookup_witness:
  "\<exists>as'. iks_insert_attrib (IksTag ''iq'' [(''type'', ''get''), (''id'', ''1'')] []) ''type'' None
      = Some (IksTag ''iq'' as' [])
    \<and> (\<forall>k. iks_find_attrib (Some (IksTag ''iq'' as' [])) k
        = Some (if k = ''type'' then None else map_of [(''type'', ''get''), (''id'', ''1'')] k))"
  using iks_insert_attrib_lookup [of "[(''type'', ''get''), (''id'', ''1'')]" "''iq''" "[]" "''type''" None]
  by auto

end
