(* ===== verification/Jabber.thy ===== *)
theory Jabber
  imports Iks
begin

text \<open>
  The stanza layer of \<^verbatim>\<open>src/CuteCat/iksemel/jabber.c\<close>: identifiers, the
  classification of received stanzas that the server and the client dispatch on, and the
  builders of outgoing ones.  Allocation failures inside the builders are not modelled.
\<close>

section \<open>Identifiers\<close>

record iksid =
  id_user :: "string option"
  id_server :: "string option"
  id_resource :: "string option"
  id_partial :: "string option"
  id_full :: "string option"

definition before_char :: "char \<Rightarrow> string \<Rightarrow> string" where
  "before_char c s = takeWhile (\<lambda>x. x \<noteq> c) s"

definition after_char :: "char \<Rightarrow> string \<Rightarrow> string" where
  "after_char c s = drop (length (before_char c s) + 1) s"

text \<open>
  \<^verbatim>\<open>iks_stack_strdup (s, src, n)\<close> copies \<open>n\<close> characters, or the whole string when
  \<open>n\<close> is 0.
\<close>

definition stack_strdup :: "string \<Rightarrow> nat \<Rightarrow> string" where
  "stack_strdup src n = (if n = 0 then src else take n src)"

definition iks_id_new :: "string option \<Rightarrow> iksid option" where
  "iks_id_new jid =
     (case jid of
       None \<Rightarrow> None
     | Some jid \<Rightarrow>
         (let full = (if take 7 jid = ''jabber:'' then drop 7 jid else jid);
              partial = (if CHR ''/'' \<in> set full
                         then stack_strdup full (length (before_char CHR ''/'' full)) else full);
              resource = (if CHR ''/'' \<in> set full then Some (after_char CHR ''/'' full) else None);
              user = (if CHR ''@'' \<in> set partial
                      then Some (stack_strdup partial (length (before_char CHR ''@'' partial))) else None);
              server = (if CHR ''@'' \<in> set partial then after_char CHR ''@'' partial else partial)
          in Some \<lparr>id_user = user, id_server = Some server, id_resource = resource,
               id_partial = Some partial, id_full = Some full\<rparr>))"

definition IKS_ID_USER :: nat where "IKS_ID_USER = 1"
definition IKS_ID_SERVER :: nat where "IKS_ID_SERVER = 2"
definition IKS_ID_RESOURCE :: nat where "IKS_ID_RESOURCE = 4"

definition iks_id_cmp :: "iksid option \<Rightarrow> iksid option \<Rightarrow> nat \<Rightarrow> nat" where
  "iks_id_cmp a b parts =
     (case (a, b) of
       (Some a, Some b) \<Rightarrow>
         (if parts AND IKS_ID_RESOURCE \<noteq> 0 \<and> \<not> (id_resource a = None \<and> id_resource b = None)
             \<and> iks_strcmp (id_resource a) (id_resource b) \<noteq> 0 then IKS_ID_RESOURCE else 0)
         + (if parts AND IKS_ID_USER \<noteq> 0 \<and> \<not> (id_user a = None \<and> id_user b = None)
             \<and> iks_strcasecmp (id_user a) (id_user b) \<noteq> 0 then IKS_ID_USER else 0)
         + (if parts AND IKS_ID_SERVER \<noteq> 0 \<and> \<not> (id_server a = None \<and> id_server b = None)
             \<and> iks_strcmp (id_server a) (id_server b) \<noteq> 0 then IKS_ID_SERVER else 0)
     | _ \<Rightarrow> IKS_ID_RESOURCE OR IKS_ID_USER OR IKS_ID_SERVER)"

section \<open>Received stanzas\<close>

datatype ikspaktype = IKS_PAK_NONE | IKS_PAK_MESSAGE | IKS_PAK_PRESENCE | IKS_PAK_IQ | IKS_PAK_S10N

datatype iksubtype =
  IKS_TYPE_NONE | IKS_TYPE_ERROR | IKS_TYPE_CHAT | IKS_TYPE_GROUPCHAT | IKS_TYPE_HEADLINE
| IKS_TYPE_GET | IKS_TYPE_SET | IKS_TYPE_RESULT | IKS_TYPE_SUBSCRIBE | IKS_TYPE_SUBSCRIBED
| IKS_TYPE_UNSUBSCRIBE | IKS_TYPE_UNSUBSCRIBED | IKS_TYPE_PROBE | IKS_TYPE_AVAILABLE
| IKS_TYPE_UNAVAILABLE

datatype ikshowtype =
  IKS_SHOW_UNAVAILABLE | IKS_SHOW_AVAILABLE | IKS_SHOW_CHAT | IKS_SHOW_AWAY | IKS_SHOW_XA | IKS_SHOW_DND

record ikspak =
  pak_from :: "iksid option"
  pak_query :: "iks option"
  pak_ns :: "string option"
  pak_id :: "string option"
  pak_type :: ikspaktype
  pak_subtype :: iksubtype
  pak_show :: ikshowtype

definition subtype_of :: "(string \<times> 'a) list \<Rightarrow> 'a \<Rightarrow> string option \<Rightarrow> 'a" where
  "subtype_of table dflt s =
     (case s of None \<Rightarrow> dflt | Some s \<Rightarrow> (case map_of table s of None \<Rightarrow> dflt | Some t \<Rightarrow> t))"

definition message_subtypes :: "(string \<times> iksubtype) list" where
  "message_subtypes = [(''chat'', IKS_TYPE_CHAT), (''groupchat'', IKS_TYPE_GROUPCHAT),
     (''headline'', IKS_TYPE_HEADLINE), (''error'', IKS_TYPE_ERROR)]"

definition presence_subtypes :: "(string \<times> iksubtype) list" where
  "presence_subtypes = [(''subscribe'', IKS_TYPE_SUBSCRIBE), (''subscribed'', IKS_TYPE_SUBSCRIBED),
     (''unsubscribe'', IKS_TYPE_UNSUBSCRIBE), (''unsubscribed'', IKS_TYPE_UNSUBSCRIBED),
     (''error'', IKS_TYPE_ERROR)]"

definition show_types :: "(string \<times> ikshowtype) list" where
  "show_types = [(''chat'', IKS_SHOW_CHAT), (''away'', IKS_SHOW_AWAY), (''xa'', IKS_SHOW_XA),
     (''dnd'', IKS_SHOW_DND)]"

definition iq_subtypes :: "(string \<times> iksubtype) list" where
  "iq_subtypes = [(''get'', IKS_TYPE_GET), (''set'', IKS_TYPE_SET), (''result'', IKS_TYPE_RESULT),
     (''error'', IKS_TYPE_ERROR)]"

text \<open>The first child tag with a namespace.\<close>

fun find_query :: "iks list \<Rightarrow> (iks \<times> string) option" where
  "find_query [] = None"
| "find_query (q # qs) =
     (case q of
       IksTag _ as _ \<Rightarrow> (case map_of as ''xmlns'' of Some ns \<Rightarrow> Some (q, ns) | None \<Rightarrow> find_query qs)
     | IksCData _ \<Rightarrow> find_query qs)"

definition iks_packet :: "iks \<Rightarrow> ikspak option" where
  "iks_packet x = do {
     from \<leftarrow> iks_find_attrib (Some x) ''from'';
     ident \<leftarrow> iks_find_attrib (Some x) ''id'';
     tmp \<leftarrow> iks_find_attrib (Some x) ''type'';
     name \<leftarrow> iks_name (Some x);
     pak \<leftarrow> Some \<lparr>pak_from = iks_id_new from, pak_query = None, pak_ns = None, pak_id = ident,
       pak_type = IKS_PAK_NONE, pak_subtype = IKS_TYPE_NONE, pak_show = IKS_SHOW_UNAVAILABLE\<rparr>;
     if name = Some ''message'' then
       Some (pak\<lparr>pak_type := IKS_PAK_MESSAGE, pak_subtype := subtype_of message_subtypes IKS_TYPE_NONE tmp\<rparr>)
     else if name = Some ''presence'' then
       (case tmp of
         Some t \<Rightarrow>
           if t = ''unavailable'' then
             Some (pak\<lparr>pak_type := IKS_PAK_PRESENCE, pak_subtype := IKS_TYPE_UNAVAILABLE,
               pak_show := IKS_SHOW_UNAVAILABLE\<rparr>)
           else if t = ''probe'' then
             Some (pak\<lparr>pak_type := IKS_PAK_PRESENCE, pak_subtype := IKS_TYPE_PROBE\<rparr>)
           else Some (pak\<lparr>pak_type := IKS_PAK_S10N, pak_subtype := subtype_of presence_subtypes IKS_TYPE_NONE tmp\<rparr>)
       | None \<Rightarrow> do {
           sh \<leftarrow> iks_find_cdata (Some x) ''show'';
           Some (pak\<lparr>pak_type := IKS_PAK_PRESENCE, pak_subtype := IKS_TYPE_AVAILABLE,
             pak_show := subtype_of show_types IKS_SHOW_AVAILABLE sh\<rparr>)
         })
     else if name = Some ''iq'' then
       Some (pak\<lparr>pak_type := IKS_PAK_IQ, pak_subtype := subtype_of iq_subtypes IKS_TYPE_NONE tmp,
         pak_query := map_option fst (find_query (iks_child (Some x))),
         pak_ns := map_option snd (find_query (iks_child (Some x)))\<rparr>)
     else Some pak
   }"

section \<open>Outgoing stanzas\<close>

text \<open>\<^verbatim>\<open>iks_insert_cdata (iks_insert (x, name), data, 0)\<close>; NULL data inserts no text.\<close>

definition insert_text :: "iks \<Rightarrow> string \<Rightarrow> string option \<Rightarrow> iks option" where
  "insert_text x name data =
     (case data of
       None \<Rightarrow> iks_insert x name
     | Some d \<Rightarrow> do { y \<leftarrow> iks_insert_cdata (iks_new name) d 0; iks_insert_node x y })"

definition insert_attrib_if :: "iks \<Rightarrow> string \<Rightarrow> string option \<Rightarrow> iks option" where
  "insert_attrib_if x name v = (case v of None \<Rightarrow> Some x | Some _ \<Rightarrow> iks_insert_attrib x name v)"

definition insert_text_if :: "iks \<Rightarrow> string \<Rightarrow> string option \<Rightarrow> iks option" where
  "insert_text_if x name data = (case data of None \<Rightarrow> Some x | Some _ \<Rightarrow> insert_text x name data)"

definition IKS_NS_AUTH :: string where "IKS_NS_AUTH = ''jabber:iq:auth''"
definition IKS_NS_XMPP_BIND :: string where "IKS_NS_XMPP_BIND = ''urn:ietf:params:xml:ns:xmpp-bind''"
definition IKS_NS_XMPP_SESSION :: string where "IKS_NS_XMPP_SESSION = ''urn:ietf:params:xml:ns:xmpp-session''"

text \<open>\<open>digest\<close> is the printed SHA-1 of the stream id followed by the password.\<close>

definition iks_make_auth :: "(string \<Rightarrow> string) \<Rightarrow> iksid \<Rightarrow> string \<Rightarrow> string option \<Rightarrow> iks option" where
  "iks_make_auth digest ident pass sid = do {
     x \<leftarrow> iks_insert_attrib (iks_new ''iq'') ''type'' (Some ''set'');
     y \<leftarrow> iks_insert_attrib (iks_new ''query'') ''xmlns'' (Some IKS_NS_AUTH);
     y \<leftarrow> insert_text y ''username'' (id_user ident);
     y \<leftarrow> insert_text y ''resource'' (id_resource ident);
     y \<leftarrow> (case sid of
            Some sid \<Rightarrow> do { d \<leftarrow> iks_insert_cdata (iks_new ''digest'') (digest (sid @ pass)) 40; iks_insert_node y d }
          | None \<Rightarrow> insert_text y ''password'' (Some pass));
     iks_insert_node x y
   }"

definition iks_make_msg :: "iksubtype \<Rightarrow> string option \<Rightarrow> string option \<Rightarrow> iks option" where
  "iks_make_msg type to body = do {
     x \<leftarrow> insert_attrib_if (iks_new ''message'') ''type''
        (case type of IKS_TYPE_CHAT \<Rightarrow> Some ''chat'' | IKS_TYPE_GROUPCHAT \<Rightarrow> Some ''groupchat''
         | IKS_TYPE_HEADLINE \<Rightarrow> Some ''headline'' | _ \<Rightarrow> None);
     x \<leftarrow> insert_attrib_if x ''to'' to;
     insert_text_if x ''body'' body
   }"

definition iks_make_s10n :: "iksubtype \<Rightarrow> string option \<Rightarrow> string option \<Rightarrow> iks option" where
  "iks_make_s10n type to msg = do {
     x \<leftarrow> insert_attrib_if (iks_new ''presence'') ''type''
        (case type of IKS_TYPE_SUBSCRIBE \<Rightarrow> Some ''subscribe'' | IKS_TYPE_SUBSCRIBED \<Rightarrow> Some ''subscribed''
         | IKS_TYPE_UNSUBSCRIBE \<Rightarrow> Some ''unsubscribe'' | IKS_TYPE_UNSUBSCRIBED \<Rightarrow> Some ''unsubscribed''
         | IKS_TYPE_PROBE \<Rightarrow> Some ''probe'' | _ \<Rightarrow> None);
     x \<leftarrow> insert_attrib_if x ''to'' to;
     insert_text_if x ''status'' msg
   }"

definition iks_make_pres :: "ikshowtype \<Rightarrow> string option \<Rightarrow> iks option" where
  "iks_make_pres show status = do {
     x \<leftarrow> (if show = IKS_SHOW_UNAVAILABLE
          then iks_insert_attrib (iks_new ''presence'') ''type'' (Some ''unavailable'')
          else Some (iks_new ''presence''));
     x \<leftarrow> insert_text_if x ''show''
        (case show of IKS_SHOW_CHAT \<Rightarrow> Some ''chat'' | IKS_SHOW_AWAY \<Rightarrow> Some ''away'' | IKS_SHOW_XA \<Rightarrow> Some ''xa''
         | IKS_SHOW_DND \<Rightarrow> Some ''dnd'' | _ \<Rightarrow> None);
     insert_text_if x ''status'' status
   }"

definition iks_make_iq :: "iksubtype \<Rightarrow> string option \<Rightarrow> iks option" where
  "iks_make_iq type xmlns = do {
     x \<leftarrow> insert_attrib_if (iks_new ''iq'') ''type''
        (case type of IKS_TYPE_GET \<Rightarrow> Some ''get'' | IKS_TYPE_SET \<Rightarrow> Some ''set''
         | IKS_TYPE_RESULT \<Rightarrow> Some ''result'' | IKS_TYPE_ERROR \<Rightarrow> Some ''error'' | _ \<Rightarrow> None);
     q \<leftarrow> iks_insert_attrib (iks_new ''query'') ''xmlns'' xmlns;
     iks_insert_node x q
   }"

definition iks_make_resource_bind :: "iksid \<Rightarrow> iks option" where
  "iks_make_resource_bind ident = do {
     x \<leftarrow> iks_insert_attrib (iks_new ''iq'') ''type'' (Some ''set'');
     y \<leftarrow> iks_insert_attrib (iks_new ''bind'') ''xmlns'' (Some IKS_NS_XMPP_BIND);
     y \<leftarrow> (if id_resource ident \<noteq> None \<and> iks_strcmp (id_resource ident) (Some []) \<noteq> 0
          then insert_text y ''resource'' (id_resource ident) else Some y);
     iks_insert_node x y
   }"

definition iks_make_session :: "iks option" where
  "iks_make_session = do {
     x \<leftarrow> iks_insert_attrib (iks_new ''iq'') ''type'' (Some ''set'');
     y \<leftarrow> iks_insert_attrib (iks_new ''session'') ''xmlns'' (Some IKS_NS_XMPP_SESSION);
     iks_insert_node x y
   }"

section \<open>Stream features\<close>

definition IKS_STREAM_STARTTLS :: nat where "IKS_STREAM_STARTTLS = 1"
definition IKS_STREAM_SESSION :: nat where "IKS_STREAM_SESSION = 2"
definition IKS_STREAM_BIND :: nat where "IKS_STREAM_BIND = 4"
definition IKS_STREAM_SASL_PLAIN :: nat where "IKS_STREAM_SASL_PLAIN = 8"
definition IKS_STREAM_SASL_MD5 :: nat where "IKS_STREAM_SASL_MD5 = 16"

text \<open>\<open>first\<close> reads the text of a mechanism; both loops step with \<^verbatim>\<open>iks_next_tag\<close>.\<close>

definition head_of :: "iks list \<Rightarrow> iks option" where
  "head_of x = (case x of [] \<Rightarrow> None | y # _ \<Rightarrow> Some y)"

lemma length_skip_to_tag: "length (skip_to_tag xs) \<le> length xs"
  by (induction xs) auto

lemma length_iks_next_tag: "x \<noteq> [] \<Longrightarrow> length (iks_next_tag x) < length x"
  using length_skip_to_tag [of "iks_next x"] by (cases x) (auto simp: iks_next_tag_def iks_next_def)

function iks_sasl_mechanisms :: "iks list \<Rightarrow> nat \<Rightarrow> nat option" where
  "iks_sasl_mechanisms x mech =
     (if x = [] then Some mech
      else do {
        t \<leftarrow> iks_cdata (head_of (iks_child (head_of x)));
        iks_sasl_mechanisms (iks_next_tag x)
          (if iks_strcmp t (Some ''DIGEST-MD5'') = 0 then mech OR IKS_STREAM_SASL_MD5
           else if iks_strcmp t (Some ''PLAIN'') = 0 then mech OR IKS_STREAM_SASL_PLAIN else mech)
      })"
  by pat_completeness auto
termination
  by (relation "measure (\<lambda>(x, mech). length x)") (simp_all add: length_iks_next_tag)

function feature_loop :: "iks list \<Rightarrow> nat \<Rightarrow> nat option" where
  "feature_loop x features =
     (if x = [] then Some features
      else do {
        n \<leftarrow> iks_name (head_of x);
        f \<leftarrow> (if iks_strcmp n (Some ''starttls'') = 0 then Some IKS_STREAM_STARTTLS
             else if iks_strcmp n (Some ''bind'') = 0 then Some IKS_STREAM_BIND
             else if iks_strcmp n (Some ''session'') = 0 then Some IKS_STREAM_SESSION
             else if iks_strcmp n (Some ''mechanisms'') = 0
             then iks_sasl_mechanisms (iks_child (head_of x)) 0 else Some 0);
        feature_loop (iks_next_tag x) (features OR f)
      })"
  by pat_completeness auto
termination
  by (relation "measure (\<lambda>(x, features). length x)") (simp_all add: length_iks_next_tag)

definition iks_stream_features :: "iks option \<Rightarrow> nat option" where
  "iks_stream_features x = do {
     n \<leftarrow> iks_name x;
     if iks_strcmp n (Some ''stream:features'') \<noteq> 0 then Some 0 else feature_loop (iks_child x) 0
   }"

declare iks_sasl_mechanisms.simps [simp del] feature_loop.simps [simp del]

section \<open>Properties\<close>

lemma before_char_append: "c \<notin> set s \<Longrightarrow> before_char c (s @ c # t) = s"
  by (induction s) (auto simp: before_char_def)

lemma after_char_append: "c \<notin> set s \<Longrightarrow> after_char c (s @ c # t) = t"
  by (simp add: after_char_def before_char_append)

text \<open>
  An identifier \<open>user@server/resource\<close>, with or without the scheme in front, is split
  into exactly its parts when the user is not empty and neither it nor the server contains a
  separator.
\<close>

theorem iks_id_new_parts:
  assumes "u \<noteq> []" and "CHR ''@'' \<notin> set u" and "CHR ''/'' \<notin> set (u @ s)"
    and "scheme \<in> {[], ''jabber:''}" and "scheme = [] \<longrightarrow> take 7 (u @ ''@'' @ s @ ''/'' @ r) \<noteq> ''jabber:''"
  shows "iks_id_new (Some (scheme @ u @ ''@'' @ s @ ''/'' @ r))
    = Some \<lparr>id_user = Some u, id_server = Some s, id_resource = Some r,
        id_partial = Some (u @ ''@'' @ s), id_full = Some (u @ ''@'' @ s @ ''/'' @ r)\<rparr>"
proof -
  let ?full = "u @ ''@'' @ s @ ''/'' @ r" and ?p = "u @ ''@'' @ s"
  have full: "(if take 7 (scheme @ ?full) = ''jabber:'' then drop 7 (scheme @ ?full) else scheme @ ?full) = ?full"
    using assms(4,5) by auto
  have "CHR ''/'' \<notin> set ?p" using assms(3) by auto
  then have b: "before_char CHR ''/'' ?full = ?p" "after_char CHR ''/'' ?full = r"
    using before_char_append [of "CHR ''/''" ?p r] after_char_append [of "CHR ''/''" ?p r] by simp_all
  have u: "before_char CHR ''@'' ?p = u" "after_char CHR ''@'' ?p = s"
    using assms(2) before_char_append [of "CHR ''@''" u s] after_char_append [of "CHR ''@''" u s] by simp_all
  have d: "stack_strdup ?full (length ?p) = ?p" "stack_strdup ?p (length u) = u"
    using assms(1) by (simp_all add: stack_strdup_def)
  have m: "CHR ''/'' \<in> set ?full" "CHR ''@'' \<in> set ?p" by simp_all
  show ?thesis
    unfolding iks_id_new_def option.case Let_def full
    by (simp only: m b u d if_True)
qed

theorem iks_id_new_parts_witness:
  "iks_id_new (Some ''jabber:tom@cat/home'') = Some \<lparr>id_user = Some ''tom'', id_server = Some ''cat'',
     id_resource = Some ''home'', id_partial = Some ''tom@cat'', id_full = Some ''tom@cat/home''\<rparr>"
  using iks_id_new_parts [of "''tom''" "''cat''" "''jabber:''" "''home''"] by simp

text \<open>
  An empty user part is not recognized: the copy of length 0 stands for the whole
  string, so the user of \<open>@server\<close> is reported as \<open>@server\<close>.
\<close>

theorem iks_id_new_empty_user:
  assumes "CHR ''/'' \<notin> set s"
  shows "map_option id_user (iks_id_new (Some (CHR ''@'' # s))) = Some (Some (CHR ''@'' # s))
    \<and> map_option id_server (iks_id_new (Some (CHR ''@'' # s))) = Some (Some s)"
  using assms by (simp add: iks_id_new_def Let_def before_char_def after_char_def stack_strdup_def)

theorem iks_id_new_empty_user_witness:
  "map_option id_user (iks_id_new (Some ''@cat'')) = Some (Some ''@cat'')"
  using iks_id_new_empty_user [of "''cat''"] by simp

text \<open>
  Every query that \<^verbatim>\<open>iks_make_iq\<close> builds is classified by \<^verbatim>\<open>iks_packet\<close> as
  an IQ of the requested kind with the requested namespace, and every presence that
  \<^verbatim>\<open>iks_make_pres\<close> builds as a presence with the requested show value.
\<close>

theorem built_stanzas_are_classified:
  "(\<exists>x q. iks_make_iq type (Some ns) = Some x \<and> iks_packet x = Some \<lparr>pak_from = None, pak_query = Some q,
      pak_ns = Some ns, pak_id = None, pak_type = IKS_PAK_IQ,
      pak_subtype = (if type \<in> {IKS_TYPE_GET, IKS_TYPE_SET, IKS_TYPE_RESULT, IKS_TYPE_ERROR} then type
        else IKS_TYPE_NONE), pak_show = IKS_SHOW_UNAVAILABLE\<rparr>)
   \<and> (\<exists>x pak. iks_make_pres sh status = Some x \<and> iks_packet x = Some pak \<and> pak_type pak = IKS_PAK_PRESENCE
      \<and> pak_show pak = sh)"
proof
  show "\<exists>x q. iks_make_iq type (Some ns) = Some x \<and> iks_packet x = Some \<lparr>pak_from = None, pak_query = Some q,
      pak_ns = Some ns, pak_id = None, pak_type = IKS_PAK_IQ,
      pak_subtype = (if type \<in> {IKS_TYPE_GET, IKS_TYPE_SET, IKS_TYPE_RESULT, IKS_TYPE_ERROR} then type
        else IKS_TYPE_NONE), pak_show = IKS_SHOW_UNAVAILABLE\<rparr>"
    by (cases "type") (simp_all add: iks_make_iq_def insert_attrib_if_def iks_insert_attrib_def iks_new_def
        iks_insert_node_def iks_packet_def iks_find_attrib_def IKS_TAG_ATTRIBS_def iks_name_def iks_id_new_def
        subtype_of_def iq_subtypes_def iks_child_def)
  show "\<exists>x pak. iks_make_pres sh status = Some x \<and> iks_packet x = Some pak \<and> pak_type pak = IKS_PAK_PRESENCE
      \<and> pak_show pak = sh"
    by (cases sh; cases status)
      (simp_all add: iks_make_pres_def insert_text_if_def insert_text_def iks_insert_attrib_def iks_new_def
        iks_insert_def insert_whole_cdata iks_insert_node_def iks_packet_def iks_find_attrib_def
        IKS_TAG_ATTRIBS_def IKS_TAG_CHILDREN_def iks_find_def iks_find_cdata_def iks_name_def iks_id_new_def
        subtype_of_def show_types_def)
qed

end
