(* ===== verification/Base64.thy ===== *)
theory Base64
  imports Prelude
begin

text \<open>
  The base64 codec of \<^verbatim>\<open>src/CuteDog/cdogBase64.c\<close> (used for captured payloads) and its
  original in \<^verbatim>\<open>src/CuteCat/iksemel/base64.c\<close>, which reads its input as signed
  characters.  Inputs are bytes, every read of the input and of the alphabet and every write
  of the output is checked against the size of its block.
\<close>

section \<open>The alphabet\<close>

definition base64_charset :: string where
  "base64_charset = ''ABCDEFGHIJKLMNOPQRSTUVWXYZabcdefghijklmnopqrstuvwxyz0123456789+/''"

text \<open>Reading the array, terminating NUL included, at a C \<^verbatim>\<open>int\<close> index.\<close>

definition charset_at :: "u32 \<Rightarrow> char option" where
  "charset_at i = (if sint i < 0 then None else nth_opt (base64_charset @ [NUL]) (unat i))"

text \<open>\<^verbatim>\<open>strchr\<close> in the alphabet, its start when the character is not in it.\<close>

fun strchr_index :: "string \<Rightarrow> char \<Rightarrow> nat option" where
  "strchr_index [] c = None"
| "strchr_index (x # xs) c = (if x = c then Some 0 else map_option Suc (strchr_index xs c))"

definition charset_val :: "char \<Rightarrow> byte" where
  "charset_val c = (case strchr_index base64_charset c of None \<Rightarrow> 0 | Some i \<Rightarrow> of_nat i)"

lemma length_charset: "length base64_charset = 64"
  by (simp add: base64_charset_def)

lemma charset_val_nth: "i < 64 \<Longrightarrow> charset_val (base64_charset ! i) = of_nat i"
proof -
  have "list_all (\<lambda>i. charset_val (base64_charset ! i) = of_nat i) [0..<64]" by code_simp
  then show "i < 64 \<Longrightarrow> ?thesis" by (simp add: list_all_iff)
qed

lemma charset_no_nul: "i < 64 \<Longrightarrow> base64_charset ! i \<noteq> NUL"
proof -
  have "list_all (\<lambda>c. c \<noteq> NUL) base64_charset" by code_simp
  then show "i < 64 \<Longrightarrow> ?thesis" by (simp add: list_all_iff length_charset)
qed

lemma charset_val_pad: "charset_val CHR ''='' = 0"
  by code_simp

section \<open>Encoding\<close>

text \<open>\<^verbatim>\<open>*res++ = base64_charset[i]\<close> into a block of \<open>cap\<close> bytes.\<close>

definition put_char :: "nat \<Rightarrow> char \<Rightarrow> string \<Rightarrow> string option" where
  "put_char cap c out = (if length out < cap then Some (out @ [c]) else None)"

definition put64 :: "nat \<Rightarrow> u32 \<Rightarrow> string \<Rightarrow> string option" where
  "put64 cap i out = do { c \<leftarrow> charset_at i; put_char cap c out }"

text \<open>
  \<open>p\<close> promotes an input byte to \<^verbatim>\<open>int\<close>: with zeroes for \<^verbatim>\<open>unsigned char\<close>, with the
  sign for \<^verbatim>\<open>char\<close>.  Shifts to the right are arithmetic.
\<close>

fun encode_loop :: "(byte \<Rightarrow> u32) \<Rightarrow> nat \<Rightarrow> nat \<Rightarrow> byte list \<Rightarrow> string \<Rightarrow> (byte list \<times> string) option" where
  "encode_loop p cap 0 buf out = Some (buf, out)"
| "encode_loop p cap (Suc k) buf out = do {
     b0 \<leftarrow> map_option p (nth_opt buf 0);
     out \<leftarrow> put64 cap (signed_drop_bit 2 b0) out;
     b1 \<leftarrow> map_option p (nth_opt buf 1);
     out \<leftarrow> put64 cap (push_bit 4 (b0 AND 0x03) OR signed_drop_bit 4 b1) out;
     b2 \<leftarrow> map_option p (nth_opt buf 2);
     out \<leftarrow> put64 cap (push_bit 2 (b1 AND 0x0F) OR signed_drop_bit 6 b2) out;
     out \<leftarrow> put64 cap (b2 AND 0x3F) out;
     encode_loop p cap k (drop 3 buf) out
   }"

definition encode_rest :: "(byte \<Rightarrow> u32) \<Rightarrow> nat \<Rightarrow> nat \<Rightarrow> byte list \<Rightarrow> string \<Rightarrow> string option" where
  "encode_rest p cap m buf out =
     (if m = 2 then do {
        b0 \<leftarrow> map_option p (nth_opt buf 0);
        out \<leftarrow> put64 cap (signed_drop_bit 2 b0) out;
        b1 \<leftarrow> map_option p (nth_opt buf 1);
        out \<leftarrow> put64 cap (push_bit 4 (b0 AND 0x03) OR signed_drop_bit 4 b1) out;
        out \<leftarrow> put64 cap (push_bit 2 (b1 AND 0x0F)) out;
        put_char cap CHR ''='' out
      } else if m = 1 then do {
        b0 \<leftarrow> map_option p (nth_opt buf 0);
        out \<leftarrow> put64 cap (signed_drop_bit 2 b0) out;
        out \<leftarrow> put64 cap (push_bit 4 (b0 AND 0x03)) out;
        out \<leftarrow> put_char cap CHR ''='' out;
        put_char cap CHR ''='' out
      } else Some out)"

text \<open>\<^verbatim>\<open>strlen\<close> of bytes, undefined when there is no zero byte.\<close>

definition bytes_strlen :: "byte list \<Rightarrow> nat option" where
  "bytes_strlen buf =
     (if 0 \<in> set buf then Some (length (takeWhile (\<lambda>b. b \<noteq> 0) buf)) else None)"

text \<open>
  \<open>mem\<close> says whether the allocator answers; the result \<open>Some None\<close> is NULL.  The
  \<^verbatim>\<open>int\<close> product \<^verbatim>\<open>len*8\<close> must not overflow.
\<close>

definition encode_with :: "(byte \<Rightarrow> u32) \<Rightarrow> bool \<Rightarrow> byte list \<Rightarrow> int \<Rightarrow> string option option" where
  "encode_with p mem buf len = do {
     n \<leftarrow> (if 0 < len then Some (nat len) else bytes_strlen buf);
     if 2 ^ 31 \<le> n * 8 then None
     else if \<not> mem then Some None
     else do {
       let_cap \<leftarrow> Some (n * 8 div 6 + 4);
       x \<leftarrow> encode_loop p let_cap (n div 3) buf [];
       out \<leftarrow> encode_rest p let_cap (n mod 3) (fst x) (snd x);
       out' \<leftarrow> put_char let_cap NUL out;
       Some (Some out)
     }
   }"

definition base64_encode :: "bool \<Rightarrow> byte list \<Rightarrow> int \<Rightarrow> string option option" where
  "base64_encode = encode_with ucast"

definition iks_base64_encode :: "bool \<Rightarrow> byte list \<Rightarrow> int \<Rightarrow> string option option" where
  "iks_base64_encode = encode_with scast"

section \<open>Decoding\<close>

text \<open>\<^verbatim>\<open>*res |= v\<close>, with the promoted value cut to a byte.\<close>

definition or_at :: "nat \<Rightarrow> byte \<Rightarrow> byte list \<Rightarrow> byte list option" where
  "or_at i v res = do { b \<leftarrow> nth_opt res i; Some (res[i := b OR v]) }"

fun decode_loop :: "string \<Rightarrow> nat \<Rightarrow> nat \<Rightarrow> byte list \<Rightarrow> (nat \<times> byte list) option" where
  "decode_loop [] index i res = Some (i, res)"
| "decode_loop (c # cs) index i res =
     (let val = charset_val c in
      if index = 0 then do {
        res \<leftarrow> or_at i (push_bit 2 val) res;
        decode_loop cs 1 i res }
      else if index = 1 then do {
        res \<leftarrow> or_at i (drop_bit 4 val) res;
        res \<leftarrow> or_at (i + 1) (push_bit 4 val) res;
        decode_loop cs 2 (i + 1) res }
      else if index = 2 then do {
        res \<leftarrow> or_at i (drop_bit 2 val) res;
        res \<leftarrow> or_at (i + 1) (push_bit 6 val) res;
        decode_loop cs 3 (i + 1) res }
      else do {
        res \<leftarrow> or_at i val res;
        decode_loop cs 0 (i + 1) res })"

text \<open>The argument is the C string, or NULL; the result is the whole block.\<close>

definition base64_decode :: "bool \<Rightarrow> string option \<Rightarrow> byte list option option" where
  "base64_decode mem buf =
     (case buf of
       None \<Rightarrow> Some None
     | Some s \<Rightarrow>
         if \<not> mem then Some None
         else do {
           x \<leftarrow> decode_loop s 0 0 (replicate (length s * 6 div 8 + 1) 0);
           _ \<leftarrow> nth_opt (snd x) (fst x);
           Some (Some ((snd x)[fst x := 0]))
         })"

definition iks_base64_decode :: "bool \<Rightarrow> string option \<Rightarrow> byte list option option" where
  "iks_base64_decode = base64_decode"

section \<open>What the encoder writes\<close>

declare push_bit_and [simp del]

definition sextets :: "byte \<Rightarrow> byte \<Rightarrow> byte \<Rightarrow> byte list" where
  "sextets a b c = [drop_bit 2 a, push_bit 4 (a AND 3) OR drop_bit 4 b,
     push_bit 2 (b AND 15) OR drop_bit 6 c, c AND 63]"

definition sextet_char :: "byte \<Rightarrow> char" where
  "sextet_char v = base64_charset ! unat v"

fun encode_spec :: "byte list \<Rightarrow> string" where
  "encode_spec (a # b # c # bs) = map sextet_char (sextets a b c) @ encode_spec bs"
| "encode_spec [a, b] = map sextet_char (take 3 (sextets a b 0)) @ ''=''"
| "encode_spec [a] = map sextet_char (take 2 (sextets a 0 0)) @ ''==''"
| "encode_spec [] = []"

text \<open>Sextets computed at 32 bits are the promoted 8-bit ones.\<close>

lemma bit_byte_less: "bit (b :: byte) n \<Longrightarrow> n < 8"
  using bit_imp_le_length [of b n] by simp

lemma mask_numerals: "(3 :: 'a :: len word) = mask 2" "(15 :: 'a word) = mask 4" "(63 :: 'a word) = mask 6"
  by (simp_all add: mask_eq_exp_minus_1)

lemma promote_drop:
  assumes "k < 8"
  shows "signed_drop_bit k (ucast (a :: byte) :: u32) = ucast (drop_bit k a)"
  using assms
  by (intro bit_word_eqI)
    (auto simp: bit_signed_drop_bit_iff bit_unsigned_iff bit_drop_bit_eq dest: bit_byte_less)

lemma promote_mask: "(ucast (a :: byte) AND mask k :: u32) = ucast (a AND mask k)"
  using bit_byte_less [of a]
  by (intro bit_word_eqI) (auto simp: bit_and_iff bit_mask_iff bit_unsigned_iff)

lemma promote_mask_push:
  assumes "k + j \<le> 8"
  shows "push_bit j (ucast (a :: byte) AND mask k :: u32) = ucast (push_bit j (a AND mask k))"
  using assms bit_byte_less [of a]
  by (intro bit_word_eqI) (auto simp: bit_and_iff bit_mask_iff bit_unsigned_iff bit_push_bit_iff)

lemma byte_less_64:
  assumes "\<And>n. bit (v :: byte) n \<Longrightarrow> n < 6"
  shows "unat v < 64"
proof -
  have "take_bit 6 v = v" using assms by (intro bit_word_eqI) (auto simp: bit_take_bit_iff)
  then have "unat v = take_bit 6 (unat v)" by (metis unsigned_take_bit_eq)
  also have "\<dots> < 2 ^ 6" by (rule take_bit_nat_less_exp)
  finally show ?thesis by simp
qed

lemmas sextet_bits = sextets_def mask_numerals bit_or_iff bit_and_iff bit_mask_iff bit_push_bit_iff
  bit_drop_bit_eq

lemma sextets_less:
  assumes "v \<in> set (sextets a b c)"
  shows "unat v < 64"
proof (rule byte_less_64)
  fix n assume "bit v n"
  with assms show "n < 6"
    using bit_byte_less [of a "2 + n"] bit_byte_less [of b "4 + n"] bit_byte_less [of c "6 + n"]
    by (auto simp: sextet_bits)
qed

lemma byte_eqI:
  assumes "bit x 0 = bit y 0" "bit x 1 = bit y 1" "bit x 2 = bit y 2" "bit x 3 = bit y 3"
    "bit x 4 = bit y 4" "bit x 5 = bit y 5" "bit x 6 = bit y 6" "bit x 7 = bit y 7"
  shows "x = (y :: byte)"
proof (rule bit_word_eqI)
  fix n assume "n < LENGTH(8)"
  then have "n = 0 \<or> n = 1 \<or> n = 2 \<or> n = 3 \<or> n = 4 \<or> n = 5 \<or> n = 6 \<or> n = 7" by auto
  then show "bit x n = bit y n" using assms by (elim disjE) simp_all
qed

text \<open>The four sextets carry the three bytes.\<close>

lemma sextets_decode:
  "push_bit 2 (sextets a b c ! 0) OR drop_bit 4 (sextets a b c ! 1) = a"
  "push_bit 4 (sextets a b c ! 1) OR drop_bit 2 (sextets a b c ! 2) = b"
  "push_bit 6 (sextets a b c ! 2) OR sextets a b c ! 3 = c"
proof -
  have b: "\<not> bit (x :: byte) m" if "8 \<le> m" for x m using bit_byte_less [of x m] that by auto
  show "push_bit 2 (sextets a b c ! 0) OR drop_bit 4 (sextets a b c ! 1) = a"
    by (rule byte_eqI) (simp_all add: sextet_bits b)
  show "push_bit 4 (sextets a b c ! 1) OR drop_bit 2 (sextets a b c ! 2) = b"
    by (rule byte_eqI) (simp_all add: sextet_bits b)
  show "push_bit 6 (sextets a b c ! 2) OR sextets a b c ! 3 = c"
    by (rule byte_eqI) (simp_all add: sextet_bits b)
qed

lemma length_sextets: "length (sextets a b c) = 4"
  by (simp add: sextets_def)

lemma put64_sextet:
  assumes "v \<in> set (sextets a b c)"
  shows "put64 cap (ucast v) out = put_char cap (sextet_char v) out"
proof -
  have v: "unat v < 64" by (rule sextets_less [OF assms])
  then have u: "unat (ucast v :: u32) = unat v" by (simp add: unsigned_ucast_eq take_bit_nat_eq_self)
  with v have "sint (ucast v :: u32) = int (unat v)" using sint_small [of "ucast v"] by simp
  then have "\<not> sint (ucast v :: u32) < 0" by simp
  then show ?thesis
    using v by (simp add: put64_def charset_at_def u nth_opt_def nth_append length_charset sextet_char_def)
qed

lemma put_char_ok: "length out < cap \<Longrightarrow> put_char cap c out = Some (out @ [c])"
  by (simp add: put_char_def)

lemma put_sextets:
  fixes a b c :: byte
  defines "A \<equiv> ucast a :: u32" and "B \<equiv> ucast b :: u32" and "C \<equiv> ucast c :: u32"
  shows "put64 cap (signed_drop_bit 2 A) out = put_char cap (sextet_char (sextets a b c ! 0)) out"
    "put64 cap (push_bit 4 (A AND 0x03) OR signed_drop_bit 4 B) out
       = put_char cap (sextet_char (sextets a b c ! 1)) out"
    "put64 cap (push_bit 2 (B AND 0x0F) OR signed_drop_bit 6 C) out
       = put_char cap (sextet_char (sextets a b c ! 2)) out"
    "put64 cap (C AND 0x3F) out = put_char cap (sextet_char (sextets a b c ! 3)) out"
proof -
  have s: "sextets a b c ! i \<in> set (sextets a b c)" if "i < 4" for i
    using that by (intro nth_mem) (simp add: length_sextets)
  have e: "signed_drop_bit 2 A = ucast (sextets a b c ! 0)"
    "push_bit 4 (A AND 0x03) OR signed_drop_bit 4 B = ucast (sextets a b c ! 1)"
    "push_bit 2 (B AND 0x0F) OR signed_drop_bit 6 C = ucast (sextets a b c ! 2)"
    "C AND 0x3F = ucast (sextets a b c ! 3)"
    unfolding A_def B_def C_def sextets_def mask_numerals
    using promote_mask_push [of 2 4 a] promote_mask_push [of 4 2 b]
    by (simp_all add: promote_drop promote_mask [of c] unsigned_or_eq)
  show "put64 cap (signed_drop_bit 2 A) out = put_char cap (sextet_char (sextets a b c ! 0)) out"
    "put64 cap (push_bit 4 (A AND 0x03) OR signed_drop_bit 4 B) out
       = put_char cap (sextet_char (sextets a b c ! 1)) out"
    "put64 cap (push_bit 2 (B AND 0x0F) OR signed_drop_bit 6 C) out
       = put_char cap (sextet_char (sextets a b c ! 2)) out"
    "put64 cap (C AND 0x3F) out = put_char cap (sextet_char (sextets a b c ! 3)) out"
    unfolding e by (rule put64_sextet, rule s, simp)+
qed

lemma encode_loop_spec:
  "3 * k \<le> length buf \<Longrightarrow> length out + 4 * k \<le> cap \<Longrightarrow>
     encode_loop ucast cap k buf out = Some (drop (3 * k) buf, out @ encode_spec (take (3 * k) buf))"
proof (induction k arbitrary: buf out)
  case 0
  then show ?case by simp
next
  case (Suc k)
  then obtain a b c bs where buf: "buf = a # b # c # bs"
    by (cases buf; cases "tl buf"; cases "tl (tl buf)") auto
  have sp: "map sextet_char (sextets a b c) = [sextet_char (sextets a b c ! 0), sextet_char (sextets a b c ! 1),
      sextet_char (sextets a b c ! 2), sextet_char (sextets a b c ! 3)]"
    by (simp add: sextets_def)
  have "encode_loop ucast cap (Suc k) buf out
      = encode_loop ucast cap k bs (out @ map sextet_char (sextets a b c))"
    unfolding sp using Suc.prems(2)
    by (simp add: buf nth_opt_def put_sextets [where a = a and b = b and c = c] put_char_ok)
  moreover have "drop (3 * Suc k) buf = drop (3 * k) bs" "take (3 * Suc k) buf = a # b # c # take (3 * k) bs"
  proof -
    have "3 * Suc k = Suc (Suc (Suc (3 * k)))" by simp
    then show "drop (3 * Suc k) buf = drop (3 * k) bs" "take (3 * Suc k) buf = a # b # c # take (3 * k) bs"
      by (simp_all only: buf drop_Suc_Cons take_Suc_Cons)
  qed
  moreover have "3 * k \<le> length bs" "length (out @ map sextet_char (sextets a b c)) + 4 * k \<le> cap"
    using Suc.prems by (simp_all add: buf length_sextets)
  ultimately show ?case using Suc.IH by simp
qed

lemma encode_rest_spec:
  assumes "length buf = m" "m < 3" "m \<noteq> 0 \<Longrightarrow> length out + 4 \<le> cap"
  shows "encode_rest ucast cap m buf out = Some (out @ encode_spec buf)"
proof -
  consider "m = 0" | "m = 1" | "m = 2" using assms(2) by linarith
  then show ?thesis
  proof cases
    case 1
    then show ?thesis using assms(1) by (simp add: encode_rest_def)
  next
    case 2
    then obtain a where buf: "buf = [a]" using assms(1) by (cases buf) auto
    have z: "put64 cap (push_bit 4 (ucast a AND 3)) o' = put_char cap (sextet_char (sextets a 0 0 ! 1)) o'" for o'
      using put_sextets(2) [of cap a 0 o' 0] by simp
    show ?thesis
      unfolding 2 buf encode_rest_def using assms(3) 2
      by (simp add: nth_opt_def put_sextets(1) [where b = 0 and c = 0] z put_char_ok)
        (simp add: sextets_def)
  next
    case 3
    then obtain a b where buf: "buf = [a, b]" using assms(1) by (cases buf; cases "tl buf") auto
    have z: "put64 cap (push_bit 2 (ucast b AND 15)) o' = put_char cap (sextet_char (sextets a b 0 ! 2)) o'" for o'
      using put_sextets(3) [of cap b 0 o' a] by simp
    show ?thesis
      unfolding 3 buf encode_rest_def using assms(3) 3
      by (simp add: nth_opt_def put_sextets(1,2) [where b = b and c = 0] z put_char_ok)
        (simp add: sextets_def)
  qed
qed

lemma encode_spec_append:
  "length xs mod 3 = 0 \<Longrightarrow> encode_spec (xs @ ys) = encode_spec xs @ encode_spec ys"
  by (induction xs rule: encode_spec.induct) (simp_all add: mod_Suc split: if_splits)

lemma div_3_step: "(5 + n) div 3 = Suc (Suc (Suc n) div 3)" for n :: nat
  by presburger

lemma encode_cap: "4 * (n div 3) + (if n mod 3 = 0 then 0 else 4) + 1 \<le> n * 8 div 6 + 4" for n :: nat
proof -
  define k m where "k = n div 3" and "m = n mod 3"
  have "n = 3 * k + m" "m < 3" by (simp_all add: k_def m_def)
  then show ?thesis unfolding k_def [symmetric] m_def [symmetric] by auto
qed

lemma length_encode_spec: "length (encode_spec bs) = 4 * ((length bs + 2) div 3)"
  by (induction bs rule: encode_spec.induct) (simp_all add: sextets_def div_3_step)

lemma encode_ok:
  assumes "bs \<noteq> []" "length bs < 2 ^ 28"
  shows "base64_encode True bs (int (length bs)) = Some (Some (encode_spec bs))"
proof -
  let ?n = "length bs"
  let ?cap = "?n * 8 div 6 + 4" and ?k = "?n div 3" and ?m = "?n mod 3"
  have nm: "3 * ?k + ?m = ?n" "?m < 3" by simp_all
  have cap: "4 * ?k + (if ?m = 0 then 0 else 4) + 1 \<le> ?cap"
    by (rule encode_cap)
  have l1: "length (encode_spec (take (3 * ?k) bs)) = 4 * ?k"
  proof -
    have "length (take (3 * ?k) bs) = 3 * ?k" using nm by simp
    moreover have "(3 * j + 2) div 3 = j" for j :: nat by presburger
    ultimately show ?thesis by (simp only: length_encode_spec)
  qed
  have loop: "encode_loop ucast ?cap ?k bs [] = Some (drop (3 * ?k) bs, encode_spec (take (3 * ?k) bs))"
    using encode_loop_spec [of ?k bs "[]" ?cap] cap nm by auto
  have rest: "encode_rest ucast ?cap ?m (drop (3 * ?k) bs) (encode_spec (take (3 * ?k) bs))
      = Some (encode_spec (take (3 * ?k) bs) @ encode_spec (drop (3 * ?k) bs))"
  proof (rule encode_rest_spec)
    show "length (drop (3 * ?k) bs) = ?m" using nm(1) by (metis add_diff_cancel_left' length_drop)
    show "?m < 3" by simp
    show "?m \<noteq> 0 \<Longrightarrow> length (encode_spec (take (3 * ?k) bs)) + 4 \<le> ?cap" using cap l1 by simp
  qed
  have "length (take (3 * ?k) bs) = 3 * ?k" using nm by simp
  then have "length (take (3 * ?k) bs) mod 3 = 0" by (simp only: mod_mult_self1_is_0)
  then have e: "encode_spec (take (3 * ?k) bs) @ encode_spec (drop (3 * ?k) bs) = encode_spec bs"
    by (metis append_take_drop_id encode_spec_append)
  have "length (encode_spec bs) < ?cap" using nm unfolding length_encode_spec by linarith
  then have "put_char ?cap NUL (encode_spec bs) \<noteq> None" by (simp add: put_char_def)
  then obtain z where z: "put_char ?cap NUL (encode_spec bs) = Some z" by blast
  have "nat (int ?n) = ?n" "0 < int ?n" "\<not> 2 ^ 31 \<le> ?n * 8" using assms by auto
  then show ?thesis
    unfolding base64_encode_def encode_with_def using loop rest z by (simp add: e)
qed

section \<open>What the decoder makes of it\<close>

lemma or_at_end: "or_at (length xs) v (xs @ b # ys) = Some (xs @ (b OR v) # ys)"
  by (simp add: or_at_def nth_opt_def)

lemma or_at_next: "or_at (Suc (length xs)) v (xs @ a # b # ys) = Some (xs @ a # (b OR v) # ys)"
  using or_at_end [of "xs @ [a]" v b ys] by simp

text \<open>Four characters of a group fill three zeroed bytes.\<close>

lemma decode_group:
  assumes "v0 = charset_val c0" "v1 = charset_val c1" "v2 = charset_val c2" "v3 = charset_val c3"
  shows "decode_loop (c0 # c1 # c2 # c3 # cs) 0 (length xs) (xs @ 0 # 0 # 0 # ys)
    = decode_loop cs 0 (length xs + 3) (xs @ (push_bit 2 v0 OR drop_bit 4 v1) #
        (push_bit 4 v1 OR drop_bit 2 v2) # (push_bit 6 v2 OR v3) # ys)"
  using assms or_at_end [of "xs @ [push_bit 2 v0 OR drop_bit 4 v1]"]
    or_at_end [of "xs @ [push_bit 2 v0 OR drop_bit 4 v1, push_bit 4 v1 OR drop_bit 2 v2]"]
  by (simp add: or_at_end or_at_next Let_def numeral_3_eq_3)

lemma charset_val_sextet:
  assumes "v \<in> set (sextets a b c)"
  shows "charset_val (sextet_char v) = v"
  using sextets_less [OF assms] by (simp add: sextet_char_def charset_val_nth)

lemma decode_group_sextets:
  assumes "charset_val c0 = sextets a b c ! 0" "charset_val c1 = sextets a b c ! 1"
    "charset_val c2 = sextets a b c ! 2" "charset_val c3 = sextets a b c ! 3"
  shows "decode_loop (c0 # c1 # c2 # c3 # cs) 0 (length xs) (xs @ 0 # 0 # 0 # ys)
    = decode_loop cs 0 (length (xs @ [a, b, c])) ((xs @ [a, b, c]) @ ys)"
  using decode_group [of _ c0 _ c1 _ c2 _ c3 cs xs ys, OF refl refl refl refl] unfolding assms
  by (simp only: sextets_decode) (simp add: numeral_3_eq_3)

lemma charset_val_sextets:
  "i < 4 \<Longrightarrow> charset_val (sextet_char (sextets a b c ! i)) = sextets a b c ! i"
  by (rule charset_val_sextet [of _ a b c], rule nth_mem) (simp add: length_sextets)

text \<open>The number of zero bytes that the padding adds.\<close>

definition pad_zeros :: "byte list \<Rightarrow> nat" where
  "pad_zeros bs = 3 * ((length bs + 2) div 3) - length bs"

lemma pad_zeros_simps:
  "pad_zeros (a # b # c # bs) = pad_zeros bs" "pad_zeros [a, b] = 1" "pad_zeros [a] = 2"
  "pad_zeros [] = 0"
  by (simp_all add: pad_zeros_def div_3_step)

lemma encode_spec_groups:
  "encode_spec (a # b # c # bs) = sextet_char (sextets a b c ! 0) # sextet_char (sextets a b c ! 1) #
      sextet_char (sextets a b c ! 2) # sextet_char (sextets a b c ! 3) # encode_spec bs"
  "encode_spec [a, b] = [sextet_char (sextets a b 0 ! 0), sextet_char (sextets a b 0 ! 1),
      sextet_char (sextets a b 0 ! 2), CHR ''='']"
  "encode_spec [a] = [sextet_char (sextets a 0 0 ! 0), sextet_char (sextets a 0 0 ! 1), CHR ''='', CHR ''='']"
  by (simp_all add: sextets_def)

lemma decode_spec:
  "decode_loop (encode_spec bs) 0 (length xs) (xs @ replicate (length bs + pad_zeros bs) 0 @ ys)
     = Some (length xs + length bs + pad_zeros bs, xs @ bs @ replicate (pad_zeros bs) 0 @ ys)"
proof (induction bs arbitrary: xs rule: encode_spec.induct)
  case (1 a b c bs)
  have r: "replicate (length (a # b # c # bs) + pad_zeros (a # b # c # bs)) 0 @ ys
      = 0 # 0 # 0 # replicate (length bs + pad_zeros bs) (0 :: byte) @ ys"
    by (simp add: pad_zeros_simps)
  show ?case
    unfolding encode_spec_groups r
    by (subst decode_group_sextets [where a = a and b = b and c = c])
      (simp_all only: charset_val_sextets 1, simp_all add: pad_zeros_simps)
next
  case (2 a b)
  have r: "replicate (length [a, b] + pad_zeros [a, b]) 0 @ ys = 0 # 0 # 0 # (ys :: byte list)"
    by (simp add: pad_zeros_simps numeral_3_eq_3)
  show ?case
    unfolding encode_spec_groups r
    by (subst decode_group_sextets [where a = a and b = b and c = 0])
      (simp_all only: charset_val_sextets charset_val_pad, simp_all add: pad_zeros_simps sextets_def)
next
  case (3 a)
  have r: "replicate (length [a] + pad_zeros [a]) 0 @ ys = 0 # 0 # 0 # (ys :: byte list)"
    by (simp add: pad_zeros_simps numeral_3_eq_3)
  show ?case
    unfolding encode_spec_groups r
    by (subst decode_group_sextets [where a = a and b = 0 and c = 0])
      (simp_all only: charset_val_sextets charset_val_pad,
        simp_all add: pad_zeros_simps sextets_def numeral_2_eq_2)
qed (simp add: pad_zeros_simps)

lemma length_pad: "length (encode_spec bs) * 6 div 8 = length bs + pad_zeros bs"
proof -
  have "length (encode_spec bs) * 6 div 8 = 3 * ((length bs + 2) div 3)"
    by (simp add: length_encode_spec)
  moreover have "n \<le> 3 * ((n + 2) div 3)" for n :: nat by presburger
  ultimately show ?thesis by (simp add: pad_zeros_def)
qed

lemma encode_spec_no_nul: "no_nul (encode_spec bs)"
proof -
  have c: "sextet_char (sextets a b c ! i) \<noteq> NUL" if "i < 4" for a b c i
    using that sextets_less [of "sextets a b c ! i" a b c]
    by (simp add: sextet_char_def charset_no_nul length_sextets)
  show ?thesis
    by (induction bs rule: encode_spec.induct) (simp_all only: encode_spec_groups, simp_all add: c)
qed

text \<open>
  The write position of the decoder is a function of the number of characters read, so it
  stays inside the block for every string, well formed or not.
\<close>

lemma or_at_Some: "i < length res \<Longrightarrow> or_at i v res = Some (res[i := res ! i OR v])"
  by (simp add: or_at_def nth_opt_def)

definition decode_pos :: "nat \<Rightarrow> nat" where
  "decode_pos j = j * 6 div 8"

lemma decode_pos_4: "r < 4 \<Longrightarrow> decode_pos (4 * q + r) = 3 * q + decode_pos r"
  by (simp add: decode_pos_def)

lemma decode_pos_Suc:
  "j mod 4 = 0 \<Longrightarrow> Suc j mod 4 = 1 \<and> decode_pos (Suc j) = decode_pos j"
  "j mod 4 = 1 \<Longrightarrow> Suc j mod 4 = 2 \<and> decode_pos (Suc j) = Suc (decode_pos j)"
  "j mod 4 = 2 \<Longrightarrow> Suc j mod 4 = 3 \<and> decode_pos (Suc j) = Suc (decode_pos j)"
  "j mod 4 = 3 \<Longrightarrow> Suc j mod 4 = 0 \<and> decode_pos (Suc j) = Suc (decode_pos j)"
proof -
  have j: "j = 4 * (j div 4) + j mod 4" by simp
  have p: "decode_pos 0 = 0" "decode_pos 1 = 0" "decode_pos 2 = 1" "decode_pos 3 = 2" "decode_pos 4 = 3"
    by (simp_all add: decode_pos_def)
  have q: "decode_pos (4 * Suc (j div 4) + 0) = 3 * Suc (j div 4)"
    by (subst decode_pos_4) (simp_all add: p)
  show "j mod 4 = 0 \<Longrightarrow> Suc j mod 4 = 1 \<and> decode_pos (Suc j) = decode_pos j"
    using j decode_pos_4 [of 0 "j div 4"] decode_pos_4 [of 1 "j div 4"] p by (simp add: mod_Suc)
  show "j mod 4 = 1 \<Longrightarrow> Suc j mod 4 = 2 \<and> decode_pos (Suc j) = Suc (decode_pos j)"
    using j decode_pos_4 [of 1 "j div 4"] decode_pos_4 [of 2 "j div 4"] p by (simp add: mod_Suc)
  show "j mod 4 = 2 \<Longrightarrow> Suc j mod 4 = 3 \<and> decode_pos (Suc j) = Suc (decode_pos j)"
    using j decode_pos_4 [of 2 "j div 4"] decode_pos_4 [of 3 "j div 4"] p by (simp add: mod_Suc numeral_3_eq_3)
  show "j mod 4 = 3 \<Longrightarrow> Suc j mod 4 = 0 \<and> decode_pos (Suc j) = Suc (decode_pos j)"
  proof -
    assume m: "j mod 4 = 3"
    define r where "r = j div 4"
    have "j = 4 * r + 3" using j m by (simp only: r_def)
    then have "Suc j = 4 * Suc (j div 4) + 0" unfolding r_def [symmetric] by simp
    then have "decode_pos (Suc j) = 3 * Suc (j div 4)" using q by (simp only:)
    moreover have "decode_pos j = 3 * (j div 4) + 2"
      using decode_pos_4 [of 3 "j div 4"] j m p by (simp only:)
    ultimately show ?thesis using m by (simp add: mod_Suc)
  qed
qed

lemma decode_pos_mono: "j \<le> k \<Longrightarrow> decode_pos j \<le> decode_pos k"
  by (simp add: decode_pos_def div_le_mono)

lemma decode_loop_in_bounds:
  "decode_pos (j + length cs) < length res \<Longrightarrow>
     \<exists>res'. decode_loop cs (j mod 4) (decode_pos j) res = Some (decode_pos (j + length cs), res')
       \<and> length res' = length res"
proof (induction cs arbitrary: res j)
  case Nil
  then show ?case by simp
next
  case (Cons c cs)
  have b: "decode_pos j < length res" "decode_pos (Suc j) < length res"
    using Cons.prems decode_pos_mono [of j "j + length (c # cs)"]
      decode_pos_mono [of "Suc j" "j + length (c # cs)"] by auto
  have IH: "\<exists>res''. decode_loop cs (Suc j mod 4) (decode_pos (Suc j)) res' = Some (decode_pos (j + length (c # cs)), res'')
      \<and> length res'' = length res" if "length res' = length res" for res'
    using Cons.IH [of "Suc j" res'] Cons.prems that by simp
  consider (0) "j mod 4 = 0" | (1) "j mod 4 = 1" | (2) "j mod 4 = 2" | (3) "j mod 4 = 3" by linarith
  then show ?case
  proof cases
    case 0
    with decode_pos_Suc(1) [OF 0] b IH show ?thesis by (simp add: or_at_Some Let_def)
  next
    case 1
    with decode_pos_Suc(2) [OF 1] b IH show ?thesis by (simp add: or_at_Some Let_def)
  next
    case 2
    with decode_pos_Suc(3) [OF 2] b IH show ?thesis by (simp add: or_at_Some Let_def)
  next
    case 3
    with decode_pos_Suc(4) [OF 3] b IH show ?thesis by (simp add: or_at_Some Let_def)
  qed
qed

section \<open>The signed variant\<close>

lemma charset_at_negative: "bit i 31 \<Longrightarrow> charset_at i = None"
  by (simp add: charset_at_def sint_uint signed_take_bit_negative_iff bit_uint_iff)

lemma put64_negative: "bit i 31 \<Longrightarrow> put64 cap i out = None"
  by (simp add: put64_def charset_at_negative)

lemma bit_scast_byte: "bit (scast (b :: byte) :: u32) 31 = bit b 7"
  by (simp add: bit_signed_iff)

lemma bit_byte_less_7: "\<not> bit (b :: byte) 7 \<Longrightarrow> bit b n \<Longrightarrow> n < 7"
  using bit_byte_less [of b n] by (cases "n = 7") auto

lemma scast_byte: "\<not> bit (b :: byte) 7 \<Longrightarrow> (scast b :: u32) = ucast b"
  by (intro bit_word_eqI) (auto simp: bit_signed_iff bit_unsigned_iff min_def dest: bit_byte_less_7)

lemma encode_loop_cong:
  "(\<And>b. b \<in> set buf \<Longrightarrow> p b = q b) \<Longrightarrow> encode_loop p cap k buf out = encode_loop q cap k buf out"
proof (induction k arbitrary: buf out)
  case (Suc k)
  have "p (buf ! i) = q (buf ! i)" if "i < length buf" for i using Suc.prems that by simp
  then have "map_option p (nth_opt buf i) = map_option q (nth_opt buf i)" for i
    by (simp add: nth_opt_def)
  moreover have "encode_loop p cap k (drop 3 buf) = encode_loop q cap k (drop 3 buf)"
    using Suc.prems by (intro ext Suc.IH) (auto dest: in_set_dropD)
  ultimately show ?case by simp
qed simp

lemma encode_rest_cong:
  "(\<And>b. b \<in> set buf \<Longrightarrow> p b = q b) \<Longrightarrow> encode_rest p cap m buf out = encode_rest q cap m buf out"
proof -
  assume "\<And>b. b \<in> set buf \<Longrightarrow> p b = q b"
  then have "map_option p (nth_opt buf i) = map_option q (nth_opt buf i)" for i
    by (simp add: nth_opt_def)
  then show ?thesis by (simp add: encode_rest_def)
qed

lemma bit31_or: "bit (x OR y :: u32) 31 \<longleftrightarrow> bit x 31 \<or> bit y 31"
  by (simp add: bit_or_iff)

lemma bit31_shift: "k < 8 \<Longrightarrow> bit (signed_drop_bit k (scast (b :: byte)) :: u32) 31 = bit b 7"
  by (cases k) (simp_all add: bit_signed_drop_bit_iff bit_scast_byte)

lemma encode_loop_negative:
  "3 * k \<le> length buf \<Longrightarrow> b \<in> set (take (3 * k) buf) \<Longrightarrow> bit b 7 \<Longrightarrow>
     encode_loop scast cap k buf out = None"
proof (induction k arbitrary: buf out)
  case (Suc k)
  then obtain x y z bs where buf: "buf = x # y # z # bs"
    by (cases buf; cases "tl buf"; cases "tl (tl buf)") auto
  have tk: "take (3 * Suc k) buf = x # y # z # take (3 * k) bs" "drop 3 buf = bs"
    by (simp_all add: buf take_Cons')
  have n: "nth_opt buf 0 = Some x" "nth_opt buf 1 = Some y" "nth_opt buf 2 = Some z"
    by (simp_all add: buf nth_opt_def)
  from Suc.prems tk consider "bit x 7" | "bit y 7" | "bit z 7" | "b \<in> set (take (3 * k) bs)" by auto
  then show ?case
  proof cases
    case 4
    then have "encode_loop scast cap k bs o' = None" for o'
      using Suc.prems buf by (intro Suc.IH) auto
    then show ?thesis unfolding encode_loop.simps tk n by (simp add: bind_eq_None_conv)
  qed (simp_all only: encode_loop.simps n option.map Option.bind.simps,
       simp_all add: put64_negative bit31_or bit31_shift bind_eq_None_conv)
qed simp

lemma encode_loop_fst: "encode_loop p c k buf o1 = Some x \<Longrightarrow> fst x = drop (3 * k) buf"
proof (induction k arbitrary: buf o1)
  case (Suc k)
  from Suc.prems obtain o2 where "encode_loop p c k (drop 3 buf) o2 = Some x"
    by (auto split: Option.bind_splits)
  from Suc.IH [OF this] show ?case by (simp add: add.commute)
qed auto

lemma encode_rest_negative:
  "length buf = m \<Longrightarrow> m < 3 \<Longrightarrow> b \<in> set buf \<Longrightarrow> bit b 7 \<Longrightarrow> encode_rest scast cap m buf out = None"
  by (cases buf; cases "tl buf")
    (auto simp: encode_rest_def nth_opt_def put64_negative bit31_or bit31_shift bind_eq_None_conv)

lemma bit_7_iff: "bit (b :: byte) 7 \<longleftrightarrow> 128 \<le> b"
proof -
  have "unat b < 2 ^ LENGTH(8)" by (rule unsigned_less)
  then have "unat b div 128 = 0 \<or> unat b div 128 = 1" by auto
  moreover have "bit b 7 \<longleftrightarrow> bit (unat b) 7" by (simp add: bit_unsigned_iff)
  ultimately show ?thesis by (auto simp: bit_iff_odd word_le_nat_alt)
qed

section \<open>Properties\<close>

lemma decode_encode_spec:
  assumes "bs \<noteq> []" and "length bs < 2 ^ 28"
  shows "base64_decode True (Some (encode_spec bs)) = Some (Some (bs @ replicate (pad_zeros bs + 1) 0))"
proof -
  have r: "replicate (length bs + pad_zeros bs + 1) 0 = replicate (length bs + pad_zeros bs) 0 @ [0 :: byte]"
    by (simp add: replicate_append_same)
  have "decode_loop (encode_spec bs) 0 0 (replicate (length bs + pad_zeros bs + 1) 0)
      = Some (length bs + pad_zeros bs, bs @ replicate (pad_zeros bs) 0 @ [0])"
    unfolding r using decode_spec [of bs "[]" "[0]"] by simp
  moreover have "(bs @ replicate (pad_zeros bs) 0 @ [0])[length bs + pad_zeros bs := 0 :: byte]
      = bs @ replicate (pad_zeros bs + 1) 0"
  proof -
    let ?b = "bs @ replicate (pad_zeros bs) 0 @ [0 :: byte]"
    have "?b ! (length bs + pad_zeros bs) = 0" by (simp add: nth_append)
    then have "?b[length bs + pad_zeros bs := 0] = ?b" by (metis list_update_id)
    then show ?thesis by (simp add: replicate_append_same)
  qed
  ultimately show ?thesis
    by (simp add: base64_decode_def length_pad nth_opt_def)
qed

text \<open>
  C30. Every non-empty payload below the \<^verbatim>\<open>int\<close> bound is encoded without leaving its
  blocks into a NUL-free string of four characters per started group of three bytes, and
  decoding that string gives the payload back, followed by zeroes.
\<close>

theorem base64_round_trip:
  assumes "bs \<noteq> []" and "length bs < 2 ^ 28"
  shows "\<exists>s. base64_encode True bs (int (length bs)) = Some (Some s)
    \<and> length s = 4 * ((length bs + 2) div 3) \<and> no_nul s
    \<and> base64_decode True (Some s) = Some (Some (bs @ replicate (pad_zeros bs + 1) 0))"
proof (intro exI conjI)
  show "base64_encode True bs (int (length bs)) = Some (Some (encode_spec bs))"
    by (rule encode_ok [OF assms])
  show "length (encode_spec bs) = 4 * ((length bs + 2) div 3)" by (rule length_encode_spec)
  show "no_nul (encode_spec bs)" by (rule encode_spec_no_nul)
  show "base64_decode True (Some (encode_spec bs)) = Some (Some (bs @ replicate (pad_zeros bs + 1) 0))"
    by (rule decode_encode_spec [OF assms])
qed

theorem base64_round_trip_witness:
  "\<exists>s. base64_encode True [0x84, 0x09, 0x00, 0xFF] 4 = Some (Some s) \<and> length s = 8
    \<and> base64_decode True (Some s) = Some (Some [0x84, 0x09, 0x00, 0xFF, 0, 0, 0])"
proof -
  let ?bs = "[0x84, 0x09, 0x00, 0xFF] :: byte list"
  have "pad_zeros ?bs + 1 = 3" "4 * ((length ?bs + 2) div 3) = 8" "int (length ?bs) = 4"
    by (simp_all add: pad_zeros_def)
  moreover have "replicate 3 0 = [0, 0, 0 :: byte]" by (simp add: numeral_3_eq_3)
  moreover have "?bs \<noteq> []" "length ?bs < 2 ^ 28" by simp_all
  ultimately show ?thesis using base64_round_trip [of ?bs] by (simp only: append.simps) blast
qed

text \<open>
  The decoder never leaves its block and never fails, whatever string it is given: the
  result has six bits for each character, rounded down, and a terminating zero.
\<close>

theorem base64_decode_total:
  "\<exists>block. base64_decode True (Some s) = Some (Some block) \<and> length block = length s * 6 div 8 + 1
    \<and> last block = 0"
proof -
  let ?n = "length s * 6 div 8"
  obtain res where "decode_loop s 0 0 (replicate (?n + 1) 0) = Some (?n, res)" "length res = ?n + 1"
    using decode_loop_in_bounds [of 0 s "replicate (?n + 1) 0"] by (auto simp: decode_pos_def)
  moreover from this(2) have "last (res[?n := 0]) = 0"
    by (cases "res = []") (simp_all add: last_conv_nth)
  ultimately show ?thesis
    by (simp add: base64_decode_def nth_opt_def)
qed

text \<open>
  The library's own encoder indexes its alphabet with signed characters: it is defined
  (and then equal to the corrected one) exactly for payloads of bytes below 128, and reads
  before the alphabet for every other one.
\<close>

theorem iks_base64_encode_defined_iff:
  assumes "bs \<noteq> []" and "length bs < 2 ^ 28"
  shows "iks_base64_encode True bs (int (length bs))
    = (if \<forall>b. b \<in> set bs \<longrightarrow> b < 128 then base64_encode True bs (int (length bs)) else None)"
proof (cases "\<forall>b. b \<in> set bs \<longrightarrow> b < 128")
  case True
  then have e: "scast b = (ucast b :: u32)" if "b \<in> set bs" for b
    using that bit_7_iff [of b] by (auto intro: scast_byte)
  have r: "encode_rest scast c (length bs mod 3) (drop (3 * (length bs div 3)) bs) o1
      = encode_rest ucast c (length bs mod 3) (drop (3 * (length bs div 3)) bs) o1" for c o1
    using e by (intro encode_rest_cong) (auto dest: in_set_dropD)
  have l: "encode_loop scast c k bs [] = encode_loop ucast c k bs []" for c k
    using e by (intro encode_loop_cong)
  have "encode_with scast True bs (int (length bs)) = encode_with ucast True bs (int (length bs))"
    unfolding encode_with_def l using encode_loop_fst r assms(1) by (auto intro!: Option.bind_cong)
  then show ?thesis using True by (simp add: iks_base64_encode_def base64_encode_def)
next
  case False
  then obtain b where b: "b \<in> set bs" "bit b 7" using bit_7_iff by (auto simp: not_less)
  let ?k = "length bs div 3"
  have "b \<in> set (take (3 * ?k) bs) \<or> b \<in> set (drop (3 * ?k) bs)"
    using b(1) by (metis Un_iff append_take_drop_id set_append)
  then have "encode_with scast True bs (int (length bs)) = None"
  proof
    assume "b \<in> set (take (3 * ?k) bs)"
    then have "encode_loop scast c ?k bs [] = None" for c
      using b(2) by (intro encode_loop_negative) auto
    then show ?thesis using assms by (simp add: encode_with_def)
  next
    assume d: "b \<in> set (drop (3 * ?k) bs)"
    have "encode_rest scast c (length bs mod 3) (drop (3 * ?k) bs) o1 = None" for c o1
      using b(2) d by (intro encode_rest_negative [where b = b]) (auto simp: minus_mult_div_eq_mod)
    then show ?thesis using assms encode_loop_fst
      by (auto simp: encode_with_def bind_eq_None_conv)
  qed
  then show ?thesis using False by (simp only: iks_base64_encode_def if_False)
qed

theorem iks_base64_encode_defined_iff_witness:
  "iks_base64_encode True [0x41, 0x84] 2 = None \<and> iks_base64_encode True [0x41, 0x04] 2 = base64_encode True [0x41, 0x04] 2"
  using iks_base64_encode_defined_iff [of "[0x41, 0x84]"] iks_base64_encode_defined_iff [of "[0x41, 0x04]"]
  by simp

end
