(* ===== verification/Sax.thy ===== *)
theory Sax
  imports IksUtil
begin

text \<open>
  The XML tokenizer of \<^verbatim>\<open>src/CuteCat/iksemel/sax.c\<close>, one definition for each case of
  the switch in \<^verbatim>\<open>sax_core\<close>.  The parser collects names and values in one block
  (\<^verbatim>\<open>stack\<close>) and calls its hooks for tags and character data; the state \<open>'u\<close> stands
  for \<^verbatim>\<open>user_data\<close> and everything the hooks change.

  A pointer into the block is an offset, so the rebasing in \<^verbatim>\<open>stack_expand\<close> leaves it
  as it is.  \<^verbatim>\<open>stack_max\<close> is the length of the block.  Lengths and counters are natural
  numbers; a chunk is shorter than 2 GB.
\<close>

section \<open>State\<close>

datatype ikserror = IKS_OK | IKS_NOMEM | IKS_BADXML | IKS_HOOK

datatype ikstagtype = IKS_OPEN | IKS_CLOSE | IKS_SINGLE

datatype cons_e =
  C_CDATA | C_TAG_START | C_TAG | C_TAG_END | C_ATTRIBUTE | C_ATTRIBUTE_1 | C_ATTRIBUTE_2
| C_VALUE | C_VALUE_APOS | C_VALUE_QUOT | C_WHITESPACE | C_ENTITY
| C_COMMENT | C_COMMENT_1 | C_COMMENT_2 | C_COMMENT_3 | C_MARKUP | C_MARKUP_1
| C_SECT | C_SECT_CDATA | C_SECT_CDATA_1 | C_SECT_CDATA_2 | C_SECT_CDATA_3 | C_SECT_CDATA_4
| C_SECT_CDATA_C | C_SECT_CDATA_E | C_SECT_CDATA_E2 | C_PI

record iksparser =
  stack :: "string option" \<comment> \<open>\<^verbatim>\<open>None\<close> is NULL\<close>
  stack_pos :: nat
  ctx :: cons_e
  oldctx :: cons_e
  tag_at :: nat \<comment> \<open>\<^verbatim>\<open>tag_name\<close>\<close>
  tagtype :: ikstagtype
  attmax :: nat
  attcur :: nat
  attflag :: bool
  atts :: "nat option list option"
  valflag :: int
  entity :: string \<comment> \<open>the first \<^verbatim>\<open>entpos\<close> cells of the array\<close>
  nr_bytes :: nat
  nr_lines :: nat
  uni_max :: nat
  uni_len :: nat

text \<open>
  The hooks; \<open>None\<close> is NULL.  The tag hook gets the name, the attributes (none for NULL) and
  the type; a result of \<open>None\<close> is undefined behaviour in the hook.
\<close>

record 'u hooks =
  tagHook :: "('u \<Rightarrow> string \<Rightarrow> (string \<times> string) list \<Rightarrow> ikstagtype \<Rightarrow> (ikserror \<times> 'u) option) option"
  cdataHook :: "('u \<Rightarrow> string \<Rightarrow> (ikserror \<times> 'u) option) option"
  deleteHook :: "('u \<Rightarrow> 'u) option"

text \<open>The parser after the \<^verbatim>\<open>memset\<close>.\<close>

definition iks_sax_extend :: iksparser where
  "iks_sax_extend = \<lparr>stack = None, stack_pos = 0, ctx = C_CDATA, oldctx = C_CDATA, tag_at = 0, tagtype = IKS_OPEN,
     attmax = 0, attcur = 0, attflag = False, atts = None, valflag = 0, entity = [],
     nr_bytes = 0, nr_lines = 0, uni_max = 0, uni_len = 0\<rparr>"

section \<open>The block of names and values\<close>

definition stack_max :: "iksparser \<Rightarrow> nat" where
  "stack_max p = (case stack p of None \<Rightarrow> 0 | Some b \<Rightarrow> length b)"

text \<open>\<open>alloc\<close> answers \<^verbatim>\<open>iks_malloc\<close>; the result is \<open>False\<close> when it refuses.\<close>

definition stack_init :: "(nat \<Rightarrow> string option) \<Rightarrow> iksparser \<Rightarrow> iksparser \<times> bool" where
  "stack_init alloc p =
     (case alloc 128 of
        None \<Rightarrow> (p, False)
      | Some b \<Rightarrow> (p\<lparr>stack := Some b, stack_pos := 0\<rparr>, True))"

definition stack_expand :: "(nat \<Rightarrow> string option) \<Rightarrow> nat \<Rightarrow> iksparser \<Rightarrow> (iksparser \<times> bool) option" where
  "stack_expand alloc len p =
     (let need = len - (stack_max p - stack_pos p);
          need = (if need < stack_max p then stack_max p * 2 else stack_max p + need * 6 div 5) in
      case alloc need of
        None \<Rightarrow> Some (p, False)
      | Some tmp \<Rightarrow> do {
          b \<leftarrow> stack p;
          tmp \<leftarrow> write_at 0 b tmp;
          Some (p\<lparr>stack := Some tmp\<rparr>, True)
        })"

definition STACK_INIT :: "(nat \<Rightarrow> string option) \<Rightarrow> iksparser \<Rightarrow> iksparser \<times> bool" where
  "STACK_INIT alloc p = (if stack p = None then stack_init alloc p else (p, True))"

definition STACK_PUSH :: "(nat \<Rightarrow> string option) \<Rightarrow> string \<Rightarrow> iksparser \<Rightarrow> (iksparser \<times> bool) option" where
  "STACK_PUSH alloc s p = do {
     (p, ok) \<leftarrow> (if stack_max p - stack_pos p \<le> length s then stack_expand alloc (length s) p else Some (p, True));
     if \<not> ok then Some (p, False)
     else do {
       b \<leftarrow> stack p;
       b \<leftarrow> write_at (stack_pos p) s b;
       Some (p\<lparr>stack := Some b, stack_pos := stack_pos p + length s\<rparr>, True)
     }
   }"

definition STACK_PUSH_END :: "(nat \<Rightarrow> string option) \<Rightarrow> iksparser \<Rightarrow> (iksparser \<times> bool) option" where
  "STACK_PUSH_END alloc p = do {
     (p, ok) \<leftarrow> (if stack_max p \<le> stack_pos p then stack_expand alloc 1 p else Some (p, True));
     if \<not> ok then Some (p, False)
     else do {
       b \<leftarrow> stack p;
       b \<leftarrow> write_at (stack_pos p) [NUL] b;
       Some (p\<lparr>stack := Some b, stack_pos := stack_pos p + 1\<rparr>, True)
     }
   }"

section \<open>The locals of the loop\<close>

record 'u run =
  prs :: iksparser
  usr :: 'u
  pos :: nat
  old :: nat
  stack_old :: "nat option" \<comment> \<open>\<open>None\<close> is -1\<close>

text \<open>
  How a round of the loop ends: \<open>Again\<close> is \<^verbatim>\<open>re = 1\<close>, the same character once more.
\<close>

datatype verdict = Next | Again | Return ikserror

type_synonym 'u result = "('u run \<times> verdict) option"

abbreviation upd_prs :: "(iksparser \<Rightarrow> iksparser) \<Rightarrow> 'u run \<Rightarrow> 'u run" where
  "upd_prs f r \<equiv> r\<lparr>prs := f (prs r)\<rparr>"

definition to_ctx :: "cons_e \<Rightarrow> 'u run \<Rightarrow> 'u result" where
  "to_ctx k r = Some (upd_prs (\<lambda>p. p\<lparr>ctx := k\<rparr>) r, Next)"

definition again_in :: "cons_e \<Rightarrow> 'u run \<Rightarrow> 'u result" where
  "again_in k r = Some (upd_prs (\<lambda>p. p\<lparr>ctx := k\<rparr>) r, Again)"

definition fail_with :: "ikserror \<Rightarrow> 'u run \<Rightarrow> 'u result" where
  "fail_with e r = Some (r, Return e)"

text \<open>\<^verbatim>\<open>err = hook(...); if (IKS_OK != err) return err;\<close>, then the rest.\<close>

definition call_hook :: "(ikserror \<times> 'u) option \<Rightarrow> ('u run \<Rightarrow> 'u result) \<Rightarrow> 'u run \<Rightarrow> 'u result" where
  "call_hook x f r = do {
     (e, u) \<leftarrow> x;
     let r = r\<lparr>usr := u\<rparr>;
     if e \<noteq> IKS_OK then fail_with e r else f r
   }"

definition call_cdata :: "'u hooks \<Rightarrow> string \<Rightarrow> ('u run \<Rightarrow> 'u result) \<Rightarrow> 'u run \<Rightarrow> 'u result" where
  "call_cdata h s f r = (case cdataHook h of None \<Rightarrow> f r | Some k \<Rightarrow> call_hook (k (usr r) s) f r)"

text \<open>The character data since \<open>old\<close>, when there is any.\<close>

definition deliver :: "'u hooks \<Rightarrow> string \<Rightarrow> ('u run \<Rightarrow> 'u result) \<Rightarrow> 'u run \<Rightarrow> 'u result" where
  "deliver h buf f r =
     (if old r < pos r then do { s \<leftarrow> read_at (old r) (pos r - old r) buf; call_cdata h s f r } else f r)"

text \<open>The lines that finish a name or a value: push what is pending and a NUL.\<close>

definition close_string ::
  "(nat \<Rightarrow> string option) \<Rightarrow> string \<Rightarrow> ('u run \<Rightarrow> 'u result) \<Rightarrow> 'u run \<Rightarrow> 'u result" where
  "close_string alloc buf f r = do {
     (p, ok) \<leftarrow> (case stack_old r of
         None \<Rightarrow> Some (prs r, True)
       | Some so \<Rightarrow> do { s \<leftarrow> read_at so (pos r - so) buf; STACK_PUSH alloc s (prs r) });
     if \<not> ok then fail_with IKS_NOMEM (r\<lparr>prs := p\<rparr>)
     else do {
       (p, ok) \<leftarrow> STACK_PUSH_END alloc p;
       let r = r\<lparr>prs := p, stack_old := None\<rparr>;
       if ok then f r else fail_with IKS_NOMEM r
     }
   }"

definition start_old :: "'u run \<Rightarrow> 'u run" where \<comment> \<open>\<^verbatim>\<open>if (stack_old == -1) stack_old = pos\<close>\<close>
  "start_old r = (if stack_old r = None then r\<lparr>stack_old := Some (pos r)\<rparr> else r)"


section \<open>The cases of the switch\<close>

definition sax_CDATA :: "(nat \<Rightarrow> string option) \<Rightarrow> 'u hooks \<Rightarrow> string \<Rightarrow> char \<Rightarrow> 'u run \<Rightarrow> 'u result" where
  "sax_CDATA alloc h buf c r =
     (if c = CHR ''&'' then deliver h buf (\<lambda>r. to_ctx C_ENTITY (upd_prs (\<lambda>p. p\<lparr>entity := []\<rparr>) r)) r
      else if c = CHR ''<'' then
        deliver h buf (\<lambda>r. case STACK_INIT alloc (prs r) of (p, ok) \<Rightarrow>
          if \<not> ok then fail_with IKS_NOMEM (r\<lparr>prs := p\<rparr>)
          else to_ctx C_TAG_START (r\<lparr>prs := p\<lparr>tag_at := stack_pos p\<rparr>\<rparr>)) r
      else Some (r, Next))"

definition sax_TAG_START :: "char \<Rightarrow> 'u run \<Rightarrow> 'u result" where
  "sax_TAG_START c r =
     (let r = upd_prs (\<lambda>p. p\<lparr>ctx := C_TAG\<rparr>) r in
      if c = CHR ''/'' then Some (upd_prs (\<lambda>p. p\<lparr>tagtype := IKS_CLOSE\<rparr>) r, Next)
      else if c = CHR ''?'' then to_ctx C_PI r
      else if c = CHR ''!'' then to_ctx C_MARKUP r
      else Some ((upd_prs (\<lambda>p. p\<lparr>tagtype := IKS_OPEN\<rparr>) r)\<lparr>stack_old := Some (pos r)\<rparr>, Next))"

definition is_whitespace :: "char \<Rightarrow> bool" where
  "is_whitespace c \<longleftrightarrow> c = CHR '' '' \<or> c = CHR 0x09 \<or> c = CHR 0x0D \<or> c = CHR 0x0A"

definition sax_TAG :: "(nat \<Rightarrow> string option) \<Rightarrow> string \<Rightarrow> char \<Rightarrow> 'u run \<Rightarrow> 'u result" where
  "sax_TAG alloc buf c r =
     (if is_whitespace c then
        close_string alloc buf (\<lambda>r. Some (r, Next)) (upd_prs (\<lambda>p. p\<lparr>ctx := C_WHITESPACE,
          oldctx := (if tagtype p = IKS_CLOSE then C_TAG_END else C_ATTRIBUTE)\<rparr>) r)
      else if c = CHR ''/'' then
        (if tagtype (prs r) = IKS_CLOSE then fail_with IKS_BADXML r
         else close_string alloc buf (\<lambda>r. Some (r, Next)) (upd_prs (\<lambda>p. p\<lparr>tagtype := IKS_SINGLE, ctx := C_TAG_END\<rparr>) r))
      else if c = CHR ''>'' then
        close_string alloc buf (\<lambda>r. Some (r, Again)) (upd_prs (\<lambda>p. p\<lparr>ctx := C_TAG_END\<rparr>) r)
      else Some (start_old r, Next))"

text \<open>
  The pairs that the hook finds in the array before the NULL entry; undefined when there is
  none, or a name without a value.
\<close>

fun read_atts :: "string \<Rightarrow> nat option list \<Rightarrow> (string \<times> string) list option" where
  "read_atts b (None # as) = Some []"
| "read_atts b (Some n # Some v # as) = do {
     n \<leftarrow> c_str_at n b;
     v \<leftarrow> c_str_at v b;
     rest \<leftarrow> read_atts b as;
     Some ((n, v) # rest)
   }"
| "read_atts b _ = None"

definition sax_TAG_END :: "'u hooks \<Rightarrow> char \<Rightarrow> 'u run \<Rightarrow> 'u result" where
  "sax_TAG_END h c r =
     (let finish = (\<lambda>r. Some ((upd_prs (\<lambda>p. p\<lparr>stack_pos := 0, attcur := 0, attflag := False, ctx := C_CDATA\<rparr>) r)
            \<lparr>stack_old := None, old := pos r + 1\<rparr>, Next)) in
      if c \<noteq> CHR ''>'' then fail_with IKS_BADXML r
      else case tagHook h of
        None \<Rightarrow> finish r
      | Some k \<Rightarrow> do {
          b \<leftarrow> stack (prs r);
          name \<leftarrow> c_str_at (tag_at (prs r)) b;
          tmp \<leftarrow> (if attcur (prs r) = 0 then Some [] else do { as \<leftarrow> atts (prs r); read_atts b as });
          call_hook (k (usr r) name tmp (tagtype (prs r))) finish r
        })"

text \<open>
  A fresh array of attributes has 12 pairs, a full one is copied into one with 12 more.  The
  calls of \<^verbatim>\<open>iks_malloc\<close> for it are answered like those for the block.
\<close>

definition grow_atts :: "(nat \<Rightarrow> string option) \<Rightarrow> iksparser \<Rightarrow> (iksparser \<times> bool) option" where
  "grow_atts alloc p =
     (case atts p of
        None \<Rightarrow>
          (let p = p\<lparr>attmax := 12\<rparr> in
           if alloc (8 * 2 * 12) = None then Some (p, False)
           else Some (p\<lparr>atts := Some (replicate (2 * 12) None), attcur := 0\<rparr>, True))
      | Some as \<Rightarrow>
          if attmax p * 2 \<le> attcur p then
            (let p = p\<lparr>attmax := attmax p + 12\<rparr> in
             if alloc (8 * 2 * attmax p) = None then Some (p, False)
             else do {
               as \<leftarrow> read_at 0 (attcur p) as;
               tmp \<leftarrow> write_at 0 as (replicate (2 * attmax p) None);
               Some (p\<lparr>atts := Some tmp\<rparr>, True)
             })
          else Some (p, True))"

definition set_att :: "nat \<Rightarrow> nat option \<Rightarrow> iksparser \<Rightarrow> iksparser option" where \<comment> \<open>\<^verbatim>\<open>prs->atts[i] = v\<close>\<close>
  "set_att i v p = do { as \<leftarrow> atts p; as \<leftarrow> write_at i [v] as; Some (p\<lparr>atts := Some as\<rparr>) }"

definition sax_ATTRIBUTE :: "(nat \<Rightarrow> string option) \<Rightarrow> char \<Rightarrow> 'u run \<Rightarrow> 'u result" where
  "sax_ATTRIBUTE alloc c r =
     (if c = CHR ''/'' then to_ctx C_TAG_END (upd_prs (\<lambda>p. p\<lparr>tagtype := IKS_SINGLE\<rparr>) r)
      else if c = CHR ''>'' then again_in C_TAG_END r
      else do {
        (p, ok) \<leftarrow> grow_atts alloc (prs r);
        if \<not> ok then fail_with IKS_NOMEM (r\<lparr>prs := p\<rparr>)
        else do {
          p \<leftarrow> set_att (attcur p) (Some (stack_pos p)) (p\<lparr>attflag := True\<rparr>);
          to_ctx C_ATTRIBUTE_1 (r\<lparr>prs := p, stack_old := Some (pos r)\<rparr>)
        }
      })"

definition sax_ATTRIBUTE_1 :: "(nat \<Rightarrow> string option) \<Rightarrow> string \<Rightarrow> char \<Rightarrow> 'u run \<Rightarrow> 'u result" where
  "sax_ATTRIBUTE_1 alloc buf c r =
     (if c = CHR ''='' then close_string alloc buf (to_ctx C_VALUE) r else Some (start_old r, Next))"

definition sax_ATTRIBUTE_2 :: "char \<Rightarrow> 'u run \<Rightarrow> 'u result" where
  "sax_ATTRIBUTE_2 c r =
     (if c = CHR ''/'' then do {
        p \<leftarrow> set_att (attcur (prs r)) None ((prs r)\<lparr>tagtype := IKS_SINGLE\<rparr>);
        to_ctx C_TAG_END (r\<lparr>prs := p\<rparr>)
      }
      else if c = CHR ''>'' then do {
        p \<leftarrow> set_att (attcur (prs r)) None (prs r);
        again_in C_TAG_END (r\<lparr>prs := p\<rparr>)
      }
      else again_in C_ATTRIBUTE r)"

definition sax_VALUE :: "char \<Rightarrow> 'u run \<Rightarrow> 'u result" where
  "sax_VALUE c r = do {
     p \<leftarrow> set_att (attcur (prs r) + 1) (Some (stack_pos (prs r))) (prs r);
     let r = r\<lparr>prs := p\<rparr>;
     if c = CHR 0x27 then to_ctx C_VALUE_APOS r
     else if c = CHR 0x22 then to_ctx C_VALUE_QUOT r
     else fail_with IKS_BADXML r
   }"

text \<open>
  \<open>q\<close> is the quote of the case \<^verbatim>\<open>C_VALUE_APOS\<close> or \<^verbatim>\<open>C_VALUE_QUOT\<close>.  The last line of
  the case is reached after the quote, too.
\<close>

definition sax_VALUE_IN :: "char \<Rightarrow> (nat \<Rightarrow> string option) \<Rightarrow> string \<Rightarrow> char \<Rightarrow> 'u run \<Rightarrow> 'u result" where
  "sax_VALUE_IN q alloc buf c r =
     (if c = q then
        close_string alloc buf (\<lambda>r. Some (start_old (upd_prs
          (\<lambda>p. p\<lparr>oldctx := C_ATTRIBUTE_2, ctx := C_WHITESPACE, attcur := attcur p + 2\<rparr>) r), Next)) r
      else Some (start_old r, Next))"

definition sax_WHITESPACE :: "char \<Rightarrow> 'u run \<Rightarrow> 'u result" where
  "sax_WHITESPACE c r =
     (if \<not> is_whitespace c then again_in (oldctx (prs r)) r else Some (r, Next))"

definition entity_char :: "string \<Rightarrow> char" where
  "entity_char e =
     (if strcmp e ''amp'' = 0 then CHR ''&''
      else if strcmp e ''quot'' = 0 then CHR 0x22
      else if strcmp e ''apos'' = 0 then CHR 0x27
      else if strcmp e ''lt'' = 0 then CHR ''<''
      else if strcmp e ''gt'' = 0 then CHR ''>''
      else CHR ''?'')"

text \<open>
  The array \<^verbatim>\<open>entity\<close> has 8 cells: a character is stored at \<^verbatim>\<open>entpos\<close>, before the
  test, and the NUL at the semicolon.
\<close>

definition sax_ENTITY :: "'u hooks \<Rightarrow> char \<Rightarrow> 'u run \<Rightarrow> 'u result" where
  "sax_ENTITY h c r =
     (let e = entity (prs r) in
      if 8 \<le> length e then None
      else if c = CHR '';'' then
        call_cdata h [entity_char e] (to_ctx C_CDATA) (r\<lparr>old := pos r + 1\<rparr>)
      else
        (let r = upd_prs (\<lambda>p. p\<lparr>entity := e @ [c]\<rparr>) r in
         if 7 < length (entity (prs r)) then fail_with IKS_BADXML r else Some (r, Next)))"

definition sax_COMMENT :: "char \<Rightarrow> 'u run \<Rightarrow> 'u result" where
  "sax_COMMENT c r = (if c \<noteq> CHR ''-'' then fail_with IKS_BADXML r else to_ctx C_COMMENT_1 r)"

definition sax_COMMENT_1 :: "char \<Rightarrow> 'u run \<Rightarrow> 'u result" where
  "sax_COMMENT_1 c r = (if c = CHR ''-'' then to_ctx C_COMMENT_2 r else Some (r, Next))"

definition sax_COMMENT_2 :: "char \<Rightarrow> 'u run \<Rightarrow> 'u result" where
  "sax_COMMENT_2 c r = to_ctx (if c = CHR ''-'' then C_COMMENT_3 else C_COMMENT_1) r"

definition sax_COMMENT_3 :: "char \<Rightarrow> 'u run \<Rightarrow> 'u result" where
  "sax_COMMENT_3 c r =
     (if c \<noteq> CHR ''>'' then fail_with IKS_BADXML r else to_ctx C_CDATA (r\<lparr>old := pos r + 1\<rparr>))"

definition sax_MARKUP_1 :: "char \<Rightarrow> 'u run \<Rightarrow> 'u result" where
  "sax_MARKUP_1 c r = (if c = CHR ''>'' then to_ctx C_CDATA (r\<lparr>old := pos r + 1\<rparr>) else Some (r, Next))"

text \<open>This case has no \<^verbatim>\<open>break\<close> and runs into the next one.\<close>

definition sax_MARKUP :: "char \<Rightarrow> 'u run \<Rightarrow> 'u result" where
  "sax_MARKUP c r =
     (if c = CHR ''['' then to_ctx C_SECT r
      else if c = CHR ''-'' then to_ctx C_COMMENT r
      else sax_MARKUP_1 c (upd_prs (\<lambda>p. p\<lparr>ctx := C_MARKUP_1\<rparr>) r))"

text \<open>The six cases that compare with the characters of \<^verbatim>\<open>CDATA[\<close>.\<close>

definition sax_SECT :: "char \<Rightarrow> cons_e \<Rightarrow> char \<Rightarrow> 'u run \<Rightarrow> 'u result" where
  "sax_SECT x k c r = (if c = x then to_ctx k r else fail_with IKS_BADXML r)"

definition sax_SECT_CDATA_4 :: "char \<Rightarrow> 'u run \<Rightarrow> 'u result" where
  "sax_SECT_CDATA_4 c r =
     (if c \<noteq> CHR ''['' then fail_with IKS_BADXML r else to_ctx C_SECT_CDATA_C (r\<lparr>old := pos r + 1\<rparr>))"

definition sax_SECT_CDATA_C :: "'u hooks \<Rightarrow> string \<Rightarrow> char \<Rightarrow> 'u run \<Rightarrow> 'u result" where
  "sax_SECT_CDATA_C h buf c r =
     (if c = CHR '']'' then deliver h buf (\<lambda>r. Some (r, Next)) (upd_prs (\<lambda>p. p\<lparr>ctx := C_SECT_CDATA_E\<rparr>) r)
      else Some (r, Next))"

definition sax_SECT_CDATA_E :: "'u hooks \<Rightarrow> char \<Rightarrow> 'u run \<Rightarrow> 'u result" where
  "sax_SECT_CDATA_E h c r =
     (if c = CHR '']'' then to_ctx C_SECT_CDATA_E2 r
      else call_cdata h '']'' (\<lambda>r. to_ctx C_SECT_CDATA_C (r\<lparr>old := pos r\<rparr>)) r)"

definition sax_SECT_CDATA_E2 :: "'u hooks \<Rightarrow> char \<Rightarrow> 'u run \<Rightarrow> 'u result" where
  "sax_SECT_CDATA_E2 h c r =
     (if c = CHR ''>'' then to_ctx C_CDATA (r\<lparr>old := pos r + 1\<rparr>)
      else call_cdata h '']]'' (\<lambda>r. to_ctx C_SECT_CDATA_C (r\<lparr>old := pos r\<rparr>)) r)"

definition sax_PI :: "char \<Rightarrow> 'u run \<Rightarrow> 'u result" where
  "sax_PI c r =
     (let r = r\<lparr>old := pos r + 1\<rparr> in if c = CHR ''>'' then to_ctx C_CDATA r else Some (r, Next))"


section \<open>The loop\<close>

definition byte_of :: "char \<Rightarrow> byte" where \<comment> \<open>the \<^verbatim>\<open>unsigned char c\<close>\<close>
  "byte_of c = of_char c"

text \<open>The first byte of a longer character: its length and the mask of its payload.\<close>

definition lead_class :: "byte \<Rightarrow> (nat \<times> byte) option" where
  "lead_class c =
     (if c AND 0x60 = 0x40 then Some (2, 0x1F)
      else if c AND 0x70 = 0x60 then Some (3, 0x0F)
      else if c AND 0x78 = 0x70 then Some (4, 0x07)
      else if c AND 0x7C = 0x78 then Some (5, 0x03)
      else if c AND 0x7E = 0x7C then Some (6, 0x01)
      else None)"

definition collects :: "cons_e \<Rightarrow> bool" where
  "collects k \<longleftrightarrow> k = C_TAG \<or> k = C_ATTRIBUTE_1 \<or> k = C_VALUE_APOS \<or> k = C_VALUE_QUOT"

definition sax_lead :: "byte \<Rightarrow> 'u run \<Rightarrow> 'u result" where
  "sax_lead c r =
     (case lead_class c of
        None \<Rightarrow> fail_with IKS_BADXML r
      | Some (n, m) \<Rightarrow>
          (let r = upd_prs (\<lambda>p. p\<lparr>uni_max := n\<rparr>) r in
           if c AND m = 0 then fail_with IKS_BADXML r
           else (let r = upd_prs (\<lambda>p. p\<lparr>uni_len := 1\<rparr>) r in
                 Some (if collects (ctx (prs r)) then start_old r else r, Next))))"

definition sax_continue :: "byte \<Rightarrow> 'u run \<Rightarrow> 'u result" where
  "sax_continue c r =
     (if c AND 0xC0 \<noteq> 0x80 then fail_with IKS_BADXML r
      else Some (upd_prs (\<lambda>p. p\<lparr>uni_len := uni_len p + 1,
        uni_max := (if uni_len p + 1 = uni_max p then 0 else uni_max p)\<rparr>) r, Next))"

definition sax_switch :: "(nat \<Rightarrow> string option) \<Rightarrow> 'u hooks \<Rightarrow> string \<Rightarrow> char \<Rightarrow> 'u run \<Rightarrow> 'u result" where
  "sax_switch alloc h buf c r =
     (case ctx (prs r) of
        C_CDATA \<Rightarrow> sax_CDATA alloc h buf c r
      | C_TAG_START \<Rightarrow> sax_TAG_START c r
      | C_TAG \<Rightarrow> sax_TAG alloc buf c r
      | C_TAG_END \<Rightarrow> sax_TAG_END h c r
      | C_ATTRIBUTE \<Rightarrow> sax_ATTRIBUTE alloc c r
      | C_ATTRIBUTE_1 \<Rightarrow> sax_ATTRIBUTE_1 alloc buf c r
      | C_ATTRIBUTE_2 \<Rightarrow> sax_ATTRIBUTE_2 c r
      | C_VALUE \<Rightarrow> sax_VALUE c r
      | C_VALUE_APOS \<Rightarrow> sax_VALUE_IN CHR 0x27 alloc buf c r
      | C_VALUE_QUOT \<Rightarrow> sax_VALUE_IN CHR 0x22 alloc buf c r
      | C_WHITESPACE \<Rightarrow> sax_WHITESPACE c r
      | C_ENTITY \<Rightarrow> sax_ENTITY h c r
      | C_COMMENT \<Rightarrow> sax_COMMENT c r
      | C_COMMENT_1 \<Rightarrow> sax_COMMENT_1 c r
      | C_COMMENT_2 \<Rightarrow> sax_COMMENT_2 c r
      | C_COMMENT_3 \<Rightarrow> sax_COMMENT_3 c r
      | C_MARKUP \<Rightarrow> sax_MARKUP c r
      | C_MARKUP_1 \<Rightarrow> sax_MARKUP_1 c r
      | C_SECT \<Rightarrow> sax_SECT CHR ''C'' C_SECT_CDATA c r
      | C_SECT_CDATA \<Rightarrow> sax_SECT CHR ''D'' C_SECT_CDATA_1 c r
      | C_SECT_CDATA_1 \<Rightarrow> sax_SECT CHR ''A'' C_SECT_CDATA_2 c r
      | C_SECT_CDATA_2 \<Rightarrow> sax_SECT CHR ''T'' C_SECT_CDATA_3 c r
      | C_SECT_CDATA_3 \<Rightarrow> sax_SECT CHR ''A'' C_SECT_CDATA_4 c r
      | C_SECT_CDATA_4 \<Rightarrow> sax_SECT_CDATA_4 c r
      | C_SECT_CDATA_C \<Rightarrow> sax_SECT_CDATA_C h buf c r
      | C_SECT_CDATA_E \<Rightarrow> sax_SECT_CDATA_E h c r
      | C_SECT_CDATA_E2 \<Rightarrow> sax_SECT_CDATA_E2 h c r
      | C_PI \<Rightarrow> sax_PI c r)"

definition sax_step :: "(nat \<Rightarrow> string option) \<Rightarrow> 'u hooks \<Rightarrow> string \<Rightarrow> char \<Rightarrow> 'u run \<Rightarrow> 'u result" where
  "sax_step alloc h buf ch r =
     (let c = byte_of ch in
      if c = 0 \<or> c = 0xFE \<or> c = 0xFF then fail_with IKS_BADXML r
      else if uni_max (prs r) \<noteq> 0 then sax_continue c r
      else if c AND 0x80 \<noteq> 0 then sax_lead c r
      else sax_switch alloc h buf ch r)"

definition next_char :: "char \<Rightarrow> 'u run \<Rightarrow> 'u run" where \<comment> \<open>the lines at \<^verbatim>\<open>cont\<close>\<close>
  "next_char c r = (upd_prs (\<lambda>p. p\<lparr>nr_bytes := nr_bytes p + 1,
     nr_lines := (if c = CHR 0x0A then nr_lines p + 1 else nr_lines p)\<rparr>) r)\<lparr>pos := pos r + 1\<rparr>"

text \<open>An error leaves the loop; the end of the chunk is \<open>IKS_OK\<close>.\<close>

partial_function (option) sax_loop ::
  "(nat \<Rightarrow> string option) \<Rightarrow> 'u hooks \<Rightarrow> string \<Rightarrow> 'u run \<Rightarrow> ('u run \<times> ikserror) option" where
  "sax_loop alloc h buf r =
     (if pos r < length buf then do {
        (r', v) \<leftarrow> sax_step alloc h buf (buf ! pos r) r;
        case v of
          Return e \<Rightarrow> Some (r', e)
        | Again \<Rightarrow> sax_loop alloc h buf r'
        | Next \<Rightarrow> sax_loop alloc h buf (next_char (buf ! pos r) r')
      }
      else Some (r, IKS_OK))"

text \<open>After the loop: what is pending is pushed, the character data delivered.\<close>

definition sax_flush :: "(nat \<Rightarrow> string option) \<Rightarrow> 'u hooks \<Rightarrow> string \<Rightarrow> 'u run \<Rightarrow> ('u run \<times> ikserror) option" where
  "sax_flush alloc h buf r = do {
     (p, ok) \<leftarrow> (case stack_old r of
         None \<Rightarrow> Some (prs r, True)
       | Some so \<Rightarrow> do { s \<leftarrow> read_at so (pos r - so) buf; STACK_PUSH alloc s (prs r) });
     let r = r\<lparr>prs := p\<rparr>;
     if \<not> ok then Some (r, IKS_NOMEM)
     else case cdataHook h of
       None \<Rightarrow> Some (r, IKS_OK)
     | Some k \<Rightarrow>
         if (ctx p = C_CDATA \<or> ctx p = C_SECT_CDATA_C) \<and> old r < pos r then do {
           s \<leftarrow> read_at (old r) (pos r - old r) buf;
           (e, u) \<leftarrow> k (usr r) s;
           Some (r\<lparr>usr := u\<rparr>, e)
         }
         else Some (r, IKS_OK)
   }"

definition sax_core ::
  "(nat \<Rightarrow> string option) \<Rightarrow> 'u hooks \<Rightarrow> string \<Rightarrow> iksparser \<times> 'u \<Rightarrow> ((iksparser \<times> 'u) \<times> ikserror) option" where
  "sax_core alloc h buf x = do {
     (r, e) \<leftarrow> sax_loop alloc h buf \<lparr>prs = fst x, usr = snd x, pos = 0, old = 0, stack_old = None\<rparr>;
     (r, e) \<leftarrow> (if e = IKS_OK then sax_flush alloc h buf r else Some (r, e));
     Some ((prs r, usr r), e)
   }"

text \<open>A length of 0 stands for \<^verbatim>\<open>strlen\<close>.\<close>

definition iks_parse ::
  "(nat \<Rightarrow> string option) \<Rightarrow> 'u hooks \<Rightarrow> string option \<Rightarrow> nat \<Rightarrow> iksparser \<times> 'u \<Rightarrow> ((iksparser \<times> 'u) \<times> ikserror) option" where
  "iks_parse alloc h data len x =
     (case data of
        None \<Rightarrow> Some (x, IKS_OK)
      | Some d \<Rightarrow>
          if len = 0 then sax_core alloc h (c_str d) x
          else do { d \<leftarrow> read_at 0 len d; sax_core alloc h d x })"

definition call_delete :: "'u hooks \<Rightarrow> 'u \<Rightarrow> 'u" where
  "call_delete h u = (case deleteHook h of None \<Rightarrow> u | Some k \<Rightarrow> k u)"

definition iks_parser_reset :: "'u hooks \<Rightarrow> iksparser \<times> 'u \<Rightarrow> iksparser \<times> 'u" where
  "iks_parser_reset h x =
     ((fst x)\<lparr>stack_pos := 0, ctx := C_CDATA, oldctx := C_CDATA, tagtype := IKS_OPEN, attcur := 0,
        attflag := False, valflag := 0, entity := [], nr_bytes := 0, nr_lines := 0, uni_max := 0, uni_len := 0\<rparr>,
      call_delete h (snd x))"

text \<open>What deleting a parser leaves of the state of its hooks.\<close>

definition iks_parser_delete :: "'u hooks \<Rightarrow> iksparser \<times> 'u \<Rightarrow> 'u" where
  "iks_parser_delete h x = call_delete h (snd x)"

definition iks_nr_bytes :: "iksparser \<times> 'u \<Rightarrow> nat" where
  "iks_nr_bytes x = nr_bytes (fst x)"

definition iks_nr_lines :: "iksparser \<times> 'u \<Rightarrow> nat" where
  "iks_nr_lines x = nr_lines (fst x)"

end
