(* ===== verification/SaxSpec.thy ===== *)
theory SaxSpec
  imports Sax
begin

text \<open>
  A reference tokenizer for theory \<open>Sax\<close>: it reads one byte at a time, holds names and values
  as strings and has neither a block of memory, nor pointers, nor the locals of
  \<^verbatim>\<open>sax_core\<close>.  A round that the source repeats for the same character is one step here.
  The tokenizer of the source agrees with it on every chunk.
\<close>

section \<open>The reference tokenizer\<close>

record lexer =
  l_ctx :: cons_e
  l_old :: cons_e
  l_type :: ikstagtype
  l_name :: string
  l_atts :: "(string \<times> string) list"
  l_key :: string
  l_text :: string \<comment> \<open>the name or value that is being read\<close>
  l_max :: nat \<comment> \<open>how many attributes the array has room for\<close>
  l_entity :: string
  l_bytes :: nat
  l_lines :: nat
  l_umax :: nat
  l_ulen :: nat

type_synonym 'u tag_fun = "'u \<Rightarrow> string \<Rightarrow> (string \<times> string) list \<Rightarrow> ikstagtype \<Rightarrow> (ikserror \<times> 'u) option"

type_synonym 'u lexed = "(lexer \<times> 'u \<times> ikserror) option"

definition ok :: "'u \<Rightarrow> lexer \<Rightarrow> 'u lexed" where
  "ok u l = Some (l, u, IKS_OK)"

definition bad :: "'u \<Rightarrow> lexer \<Rightarrow> 'u lexed" where
  "bad u l = Some (l, u, IKS_BADXML)"

definition lx_tag_end :: "'u tag_fun \<Rightarrow> char \<Rightarrow> 'u \<Rightarrow> lexer \<Rightarrow> 'u lexed" where
  "lx_tag_end tag c u l =
     (if c \<noteq> CHR ''>'' then bad u l
      else do {
        (e, u) \<leftarrow> tag u (l_name l) (l_atts l) (l_type l);
        Some (if e = IKS_OK then l\<lparr>l_ctx := C_CDATA, l_atts := []\<rparr> else l, u, e)
      })"

definition grown :: "lexer \<Rightarrow> nat" where
  "grown l = (if l_max l \<le> length (l_atts l) then l_max l + 12 else l_max l)"

definition lx_attribute :: "'u tag_fun \<Rightarrow> char \<Rightarrow> 'u \<Rightarrow> lexer \<Rightarrow> 'u lexed" where
  "lx_attribute tag c u l =
     (if c = CHR ''/'' then ok u (l\<lparr>l_type := IKS_SINGLE, l_ctx := C_TAG_END\<rparr>)
      else if c = CHR ''>'' then lx_tag_end tag c u l
      else ok u (l\<lparr>l_max := grown l, l_text := [c], l_ctx := C_ATTRIBUTE_1\<rparr>))"

text \<open>The NULL after the attributes needs a cell of its own.\<close>

definition lx_attribute_2 :: "'u tag_fun \<Rightarrow> char \<Rightarrow> 'u \<Rightarrow> lexer \<Rightarrow> 'u lexed" where
  "lx_attribute_2 tag c u l =
     (if c = CHR ''/'' \<or> c = CHR ''>''
      then if l_max l \<le> length (l_atts l) then None else lx_attribute tag c u l
      else lx_attribute tag c u l)"

definition lx_space :: "'u tag_fun \<Rightarrow> char \<Rightarrow> 'u \<Rightarrow> lexer \<Rightarrow> 'u lexed" where
  "lx_space tag c u l =
     (if is_whitespace c then ok u l
      else if l_old l = C_TAG_END then lx_tag_end tag c u l
      else if l_old l = C_ATTRIBUTE then lx_attribute tag c u l
      else lx_attribute_2 tag c u l)"

definition lx_tag :: "'u tag_fun \<Rightarrow> char \<Rightarrow> 'u \<Rightarrow> lexer \<Rightarrow> 'u lexed" where
  "lx_tag tag c u l =
     (let named = l\<lparr>l_name := l_text l\<rparr> in
      if is_whitespace c then
        ok u (named\<lparr>l_ctx := C_WHITESPACE, l_old := (if l_type l = IKS_CLOSE then C_TAG_END else C_ATTRIBUTE)\<rparr>)
      else if c = CHR ''/'' then
        (if l_type l = IKS_CLOSE then bad u l else ok u (named\<lparr>l_ctx := C_TAG_END, l_type := IKS_SINGLE\<rparr>))
      else if c = CHR ''>'' then lx_tag_end tag c u named
      else ok u (l\<lparr>l_text := l_text l @ [c]\<rparr>))"

definition lx_value_in :: "char \<Rightarrow> char \<Rightarrow> 'u \<Rightarrow> lexer \<Rightarrow> 'u lexed" where
  "lx_value_in q c u l =
     (if c = q then ok u (l\<lparr>l_atts := l_atts l @ [(l_key l, l_text l)], l_ctx := C_WHITESPACE, l_old := C_ATTRIBUTE_2\<rparr>)
      else ok u (l\<lparr>l_text := l_text l @ [c]\<rparr>))"

definition lx_entity :: "('u \<Rightarrow> string \<Rightarrow> 'u) \<Rightarrow> char \<Rightarrow> 'u \<Rightarrow> lexer \<Rightarrow> 'u lexed" where
  "lx_entity cd c u l =
     (if c = CHR '';'' then ok (cd u [entity_char (l_entity l)]) (l\<lparr>l_ctx := C_CDATA\<rparr>)
      else if 7 \<le> length (l_entity l) then bad u l
      else ok u (l\<lparr>l_entity := l_entity l @ [c]\<rparr>))"

definition lx_switch :: "'u tag_fun \<Rightarrow> ('u \<Rightarrow> string \<Rightarrow> 'u) \<Rightarrow> char \<Rightarrow> 'u \<Rightarrow> lexer \<Rightarrow> 'u lexed" where
  "lx_switch tag cd c u l =
     (let to = (\<lambda>k. ok u (l\<lparr>l_ctx := k\<rparr>));
          expect = (\<lambda>x k. if c = x then to k else bad u l) in
      case l_ctx l of
        C_CDATA \<Rightarrow>
          if c = CHR ''&'' then ok u (l\<lparr>l_ctx := C_ENTITY, l_entity := []\<rparr>)
          else if c = CHR ''<'' then to C_TAG_START
          else ok (cd u [c]) l
      | C_TAG_START \<Rightarrow>
          if c = CHR ''/'' then ok u (l\<lparr>l_type := IKS_CLOSE, l_text := [], l_ctx := C_TAG\<rparr>)
          else if c = CHR ''?'' then to C_PI
          else if c = CHR ''!'' then to C_MARKUP
          else ok u (l\<lparr>l_type := IKS_OPEN, l_text := [c], l_ctx := C_TAG\<rparr>)
      | C_TAG \<Rightarrow> lx_tag tag c u l
      | C_TAG_END \<Rightarrow> lx_tag_end tag c u l
      | C_ATTRIBUTE_1 \<Rightarrow>
          if c = CHR ''='' then ok u (l\<lparr>l_key := l_text l, l_ctx := C_VALUE\<rparr>)
          else ok u (l\<lparr>l_text := l_text l @ [c]\<rparr>)
      | C_VALUE \<Rightarrow>
          if c = CHR 0x27 then ok u (l\<lparr>l_text := [], l_ctx := C_VALUE_APOS\<rparr>)
          else if c = CHR 0x22 then ok u (l\<lparr>l_text := [], l_ctx := C_VALUE_QUOT\<rparr>)
          else bad u l
      | C_VALUE_APOS \<Rightarrow> lx_value_in CHR 0x27 c u l
      | C_VALUE_QUOT \<Rightarrow> lx_value_in CHR 0x22 c u l
      | C_WHITESPACE \<Rightarrow> lx_space tag c u l
      | C_ENTITY \<Rightarrow> lx_entity cd c u l
      | C_COMMENT \<Rightarrow> expect CHR ''-'' C_COMMENT_1
      | C_COMMENT_1 \<Rightarrow> if c = CHR ''-'' then to C_COMMENT_2 else ok u l
      | C_COMMENT_2 \<Rightarrow> to (if c = CHR ''-'' then C_COMMENT_3 else C_COMMENT_1)
      | C_COMMENT_3 \<Rightarrow> expect CHR ''>'' C_CDATA
      | C_MARKUP \<Rightarrow>
          if c = CHR ''['' then to C_SECT else if c = CHR ''-'' then to C_COMMENT
          else to (if c = CHR ''>'' then C_CDATA else C_MARKUP_1)
      | C_MARKUP_1 \<Rightarrow> if c = CHR ''>'' then to C_CDATA else ok u l
      | C_SECT \<Rightarrow> expect CHR ''C'' C_SECT_CDATA
      | C_SECT_CDATA \<Rightarrow> expect CHR ''D'' C_SECT_CDATA_1
      | C_SECT_CDATA_1 \<Rightarrow> expect CHR ''A'' C_SECT_CDATA_2
      | C_SECT_CDATA_2 \<Rightarrow> expect CHR ''T'' C_SECT_CDATA_3
      | C_SECT_CDATA_3 \<Rightarrow> expect CHR ''A'' C_SECT_CDATA_4
      | C_SECT_CDATA_4 \<Rightarrow> expect CHR ''['' C_SECT_CDATA_C
      | C_SECT_CDATA_C \<Rightarrow> if c = CHR '']'' then to C_SECT_CDATA_E else ok (cd u [c]) l
      | C_SECT_CDATA_E \<Rightarrow>
          if c = CHR '']'' then to C_SECT_CDATA_E2 else ok (cd (cd u '']'') [c]) (l\<lparr>l_ctx := C_SECT_CDATA_C\<rparr>)
      | C_SECT_CDATA_E2 \<Rightarrow>
          if c = CHR ''>'' then to C_CDATA else ok (cd (cd u '']]'') [c]) (l\<lparr>l_ctx := C_SECT_CDATA_C\<rparr>)
      | C_PI \<Rightarrow> if c = CHR ''>'' then to C_CDATA else ok u l
      | _ \<Rightarrow> ok u l)"

text \<open>A byte of a longer character is collected, delivered or skipped.\<close>

definition lx_part :: "('u \<Rightarrow> string \<Rightarrow> 'u) \<Rightarrow> char \<Rightarrow> 'u \<Rightarrow> lexer \<Rightarrow> 'u lexed" where
  "lx_part cd c u l =
     (if collects (l_ctx l) then ok u (l\<lparr>l_text := l_text l @ [c]\<rparr>)
      else if l_ctx l = C_CDATA \<or> l_ctx l = C_SECT_CDATA_C then ok (cd u [c]) l
      else ok u l)"

definition lx_step :: "'u tag_fun \<Rightarrow> ('u \<Rightarrow> string \<Rightarrow> 'u) \<Rightarrow> char \<Rightarrow> 'u \<Rightarrow> lexer \<Rightarrow> 'u lexed" where
  "lx_step tag cd c u l =
     (let b = byte_of c in
      if b = 0 \<or> b = 0xFE \<or> b = 0xFF then bad u l
      else if l_umax l \<noteq> 0 then
        (if b AND 0xC0 \<noteq> 0x80 then bad u l
         else lx_part cd c u (l\<lparr>l_umax := (if l_ulen l + 1 = l_umax l then 0 else l_umax l), l_ulen := l_ulen l + 1\<rparr>))
      else if b AND 0x80 \<noteq> 0 then
        (case lead_class b of
           None \<Rightarrow> bad u l
         | Some (n, m) \<Rightarrow> if b AND m = 0 then bad u l else lx_part cd c u (l\<lparr>l_umax := n, l_ulen := 1\<rparr>))
      else lx_switch tag cd c u l)"

definition count_char :: "char \<Rightarrow> lexer \<Rightarrow> lexer" where
  "count_char c l = l\<lparr>l_bytes := l_bytes l + 1, l_lines := (if c = CHR 0x0A then l_lines l + 1 else l_lines l)\<rparr>"

text \<open>A chunk, up to the first error.\<close>

fun lx_run :: "'u tag_fun \<Rightarrow> ('u \<Rightarrow> string \<Rightarrow> 'u) \<Rightarrow> string \<Rightarrow> 'u \<Rightarrow> lexer \<Rightarrow> 'u lexed" where
  "lx_run tag cd [] u l = ok u l"
| "lx_run tag cd (c # cs) u l = do {
     (l', u', e) \<leftarrow> lx_step tag cd c u l;
     if e = IKS_OK then lx_run tag cd cs u' (count_char c l') else Some (l', u', e)
   }"

lemma lx_run_append:
  "lx_run tag cd (s @ t) u l = do {
     (l', u', e) \<leftarrow> lx_run tag cd s u l;
     if e = IKS_OK then lx_run tag cd t u' l' else Some (l', u', e)
   }"
proof (induction s arbitrary: u l)
  case (Cons c s)
  then show ?case
    by (cases "lx_step tag cd c u l") (auto split: prod.splits if_splits)
qed (simp add: ok_def)

definition lexer_start :: lexer where
  "lexer_start = \<lparr>l_ctx = C_CDATA, l_old = C_CDATA, l_type = IKS_OPEN, l_name = [], l_atts = [], l_key = [],
     l_text = [], l_max = 0, l_entity = [], l_bytes = 0, l_lines = 0, l_umax = 0, l_ulen = 0\<rparr>"

end
