(* ===== verification/SaxSim.thy ===== *)
theory SaxSim
  imports SaxSpec
begin

text \<open>
  The tokenizer of the source agrees with the reference tokenizer: the block of names and values
  with the pending characters of a chunk represents the strings of theory \<open>SaxSpec\<close>.
\<close>

section \<open>The block\<close>

definition roomy :: "(nat \<Rightarrow> string option) \<Rightarrow> bool" where \<comment> \<open>no allocation is refused\<close>
  "roomy alloc \<longleftrightarrow> (\<forall>n. \<exists>b. alloc n = Some b \<and> length b = n)"

lemma roomyE: "roomy alloc \<Longrightarrow> (\<And>b. alloc n = Some b \<Longrightarrow> length b = n \<Longrightarrow> P) \<Longrightarrow> P"
  by (auto simp: roomy_def)

text \<open>The cells of the block that are in use.\<close>

definition data :: "iksparser \<Rightarrow> string" where
  "data p = (case stack p of None \<Rightarrow> [] | Some b \<Rightarrow> take (stack_pos p) b)"

definition block_ok :: "iksparser \<Rightarrow> bool" where
  "block_ok p \<longleftrightarrow> (\<exists>b. stack p = Some b \<and> stack_pos p \<le> length b)"

text \<open>The parser after pushes that leave \<open>d\<close> in the block.\<close>

definition stacked :: "iksparser \<Rightarrow> string \<Rightarrow> iksparser \<Rightarrow> bool" where
  "stacked p d p' \<longleftrightarrow> block_ok p' \<and> data p' = d \<and> (\<exists>b n. p' = p\<lparr>stack := b, stack_pos := n\<rparr>)"

lemma length_data: "block_ok p \<Longrightarrow> length (data p) = stack_pos p"
  by (auto simp: block_ok_def data_def)

lemma expand_ok:
  assumes "roomy alloc" and "stack p = Some b" and "stack_pos p \<le> length b" and "length b - stack_pos p \<le> n"
  shows "\<exists>t. stack_expand alloc n p = Some (p\<lparr>stack := Some (b @ t)\<rparr>, True) \<and> stack_pos p + n \<le> length b + length t"
proof -
  define need where "need = n - (length b - stack_pos p)"
  define m where "m = (if need < length b then length b * 2 else length b + need * 6 div 5)"
  obtain tmp where tmp: "alloc m = Some tmp" "length tmp = m" using assms(1) by (rule roomyE)
  have "need \<le> need * 6 div 5" by simp
  then have m: "length b \<le> m" "stack_pos p + n \<le> m" using assms(3,4) by (auto simp: m_def need_def)
  have "stack_max p = length b" using assms(2) by (simp add: stack_max_def)
  then have "stack_expand alloc n p = (case alloc m of None \<Rightarrow> Some (p, False)
      | Some tmp \<Rightarrow> do { b \<leftarrow> stack p; tmp \<leftarrow> write_at 0 b tmp; Some (p\<lparr>stack := Some tmp\<rparr>, True) })"
    by (simp add: stack_expand_def Let_def need_def m_def)
  then show ?thesis using tmp assms(2) m
    by (intro exI [of _ "drop (length b) tmp"]) (simp add: write_at_def)
qed

lemma write_grows:
  assumes "n + length s \<le> length c"
  shows "\<exists>c'. write_at n s c = Some c' \<and> n + length s \<le> length c' \<and> take (n + length s) c' = take n c @ s"
  using assms by (simp add: write_at_def)

lemma push_ok:
  assumes "roomy alloc" and "block_ok p"
  shows "\<exists>p'. STACK_PUSH alloc s p = Some (p', True) \<and> stacked p (data p @ s) p'"
proof -
  obtain b where b: "stack p = Some b" "stack_pos p \<le> length b" using assms(2) by (auto simp: block_ok_def)
  show ?thesis
  proof (cases "length b - stack_pos p \<le> length s")
    case True
    obtain t where t: "stack_expand alloc (length s) p = Some (p\<lparr>stack := Some (b @ t)\<rparr>, True)"
        "stack_pos p + length s \<le> length (b @ t)"
      using expand_ok [OF assms(1) b True] by auto
    obtain b' where "write_at (stack_pos p) s (b @ t) = Some b'" "stack_pos p + length s \<le> length b'"
        "take (stack_pos p + length s) b' = take (stack_pos p) b @ s"
      using write_grows [OF t(2)] b(2) by auto
    then show ?thesis using t(1) b(1) True
      by (auto simp: STACK_PUSH_def stack_max_def stacked_def block_ok_def data_def)
  next
    case False
    then have "stack_pos p + length s \<le> length b" using b(2) by simp
    then obtain b' where "write_at (stack_pos p) s b = Some b'" "stack_pos p + length s \<le> length b'"
        "take (stack_pos p + length s) b' = take (stack_pos p) b @ s"
      using write_grows by blast
    then show ?thesis using b False
      by (auto simp: STACK_PUSH_def stack_max_def stacked_def block_ok_def data_def)
  qed
qed

lemma push_end_ok:
  assumes "roomy alloc" and "block_ok p"
  shows "\<exists>p'. STACK_PUSH_END alloc p = Some (p', True) \<and> stacked p (data p @ [NUL]) p'"
proof -
  obtain b where b: "stack p = Some b" "stack_pos p \<le> length b" using assms(2) by (auto simp: block_ok_def)
  show ?thesis
  proof (cases "length b \<le> stack_pos p")
    case True
    then obtain t where t: "stack_expand alloc 1 p = Some (p\<lparr>stack := Some (b @ t)\<rparr>, True)"
        "stack_pos p + 1 \<le> length (b @ t)"
      using expand_ok [OF assms(1) b, of 1] b by auto
    then show ?thesis using True b
      by (auto simp: STACK_PUSH_END_def stack_max_def stacked_def block_ok_def data_def write_at_def)
  next
    case False
    then show ?thesis using b
      by (auto simp: STACK_PUSH_END_def stack_max_def stacked_def block_ok_def data_def write_at_def)
  qed
qed

lemma stacked_trans: "stacked p d p' \<Longrightarrow> stacked p' e p'' \<Longrightarrow> stacked p e p''"
  by (force simp: stacked_def)

section \<open>Strings in the block\<close>

text \<open>A terminated string at an offset.\<close>

definition held :: "string \<Rightarrow> nat \<Rightarrow> string \<Rightarrow> bool" where
  "held d i s \<longleftrightarrow> take (Suc (length s)) (drop i d) = s @ [NUL] \<and> no_nul s"

lemma held_mono: "held d i s \<Longrightarrow> held (d @ e) i s"
proof -
  assume h: "held d i s"
  then have "length (take (Suc (length s)) (drop i d)) = Suc (length s)" by (simp add: held_def)
  then have "Suc (length s) \<le> length d - i" "i < length d" by (auto simp: min_def split: if_splits)
  then show "held (d @ e) i s" using h by (simp add: held_def)
qed

lemma held_closed: "drop i d @ t = s \<Longrightarrow> i \<le> length d \<Longrightarrow> no_nul s \<Longrightarrow> held (d @ t @ [NUL]) i s"
  by (auto simp: held_def)

lemma held_read: "held (take n b) i s \<Longrightarrow> c_str_at i b = Some s"
proof -
  assume h: "held (take n b) i s"
  then have "drop i (take n b) = s @ NUL # drop (Suc (length s)) (drop i (take n b))"
    by (metis append.assoc append_Cons append_Nil append_take_drop_id held_def)
  then have d: "drop i b = s @ NUL # drop (Suc (length s)) (drop i (take n b)) @ drop (n - i) (drop i b)"
    by (metis append.assoc append_Cons append_take_drop_id drop_take)
  moreover have "i \<le> length b"
  proof (rule ccontr)
    assume "\<not> i \<le> length b" then show False using d by simp
  qed
  ultimately show ?thesis using h by (simp add: c_str_at_def c_str_terminated held_def)
qed

fun pairs :: "string \<Rightarrow> nat option list \<Rightarrow> (string \<times> string) list \<Rightarrow> bool" where
  "pairs d [] [] = True"
| "pairs d (Some i # Some j # as) (a # l) = (held d i (fst a) \<and> held d j (snd a) \<and> pairs d as l)"
| "pairs d _ _ = False"

lemma pairs_mono: "pairs d as l \<Longrightarrow> pairs (d @ e) as l"
  by (induction d as l rule: pairs.induct) (auto intro: held_mono)

lemma pairs_snoc: "pairs d as l \<Longrightarrow> held d i n \<Longrightarrow> held d j v \<Longrightarrow> pairs d (as @ [Some i, Some j]) (l @ [(n, v)])"
  by (induction d as l rule: pairs.induct) auto

lemma read_pairs: "pairs (take n b) as l \<Longrightarrow> read_atts b (as @ None # bs) = Some l"
  by (induction "take n b" as l rule: pairs.induct) (auto simp: held_read)

section \<open>The relation\<close>

definition pending :: "string \<Rightarrow> 'u run \<Rightarrow> string" where
  "pending buf r = (case stack_old r of None \<Rightarrow> [] | Some so \<Rightarrow> take (pos r - so) (drop so buf))"

definition same_fields :: "iksparser \<Rightarrow> lexer \<Rightarrow> bool" where
  "same_fields p l \<longleftrightarrow> ctx p = l_ctx l \<and> oldctx p = l_old l \<and> tagtype p = l_type l
     \<and> nr_bytes p = l_bytes l \<and> nr_lines p = l_lines l \<and> uni_max p = l_umax l \<and> uni_len p = l_ulen l"

definition atts_rel :: "iksparser \<Rightarrow> lexer \<Rightarrow> bool" where
  "atts_rel p l \<longleftrightarrow> attmax p = l_max l \<and> attcur p = 2 * length (l_atts l) \<and> length (l_atts l) \<le> l_max l
     \<and> (case atts p of
          None \<Rightarrow> l_max l = 0
        | Some as \<Rightarrow> 0 < l_max l \<and> length as = 2 * l_max l \<and> pairs (data p) (take (attcur p) as) (l_atts l))"

text \<open>A string that is being read at an offset of the block, and one that is complete.\<close>

definition reading :: "iksparser \<Rightarrow> string \<Rightarrow> nat \<Rightarrow> string \<Rightarrow> bool" where
  "reading p t i s \<longleftrightarrow> i \<le> stack_pos p \<and> drop i (data p) @ t = s \<and> no_nul s"

definition named :: "iksparser \<Rightarrow> lexer \<Rightarrow> bool" where
  "named p l \<longleftrightarrow> block_ok p \<and> held (data p) (tag_at p) (l_name l)"

definition att_slot :: "iksparser \<Rightarrow> nat \<Rightarrow> nat option \<Rightarrow> bool" where
  "att_slot p i v \<longleftrightarrow> (\<exists>as. atts p = Some as \<and> i < length as \<and> as ! i = v)"

definition place_rel :: "iksparser \<Rightarrow> string \<Rightarrow> lexer \<Rightarrow> bool" where
  "place_rel p t l =
     (case l_ctx l of
        C_TAG_START \<Rightarrow> block_ok p \<and> tag_at p = stack_pos p \<and> l_atts l = []
      | C_TAG \<Rightarrow> block_ok p \<and> reading p t (tag_at p) (l_text l) \<and> l_atts l = []
      | C_TAG_END \<Rightarrow> named p l \<and> (l_atts l = [] \<or> att_slot p (attcur p) None)
      | C_WHITESPACE \<Rightarrow> named p l
          \<and> ((l_old l = C_TAG_END \<or> l_old l = C_ATTRIBUTE) \<and> l_atts l = [] \<or> l_old l = C_ATTRIBUTE_2 \<and> l_atts l \<noteq> [])
      | C_ATTRIBUTE \<Rightarrow> False
      | C_ATTRIBUTE_1 \<Rightarrow> named p l \<and> length (l_atts l) < l_max l
          \<and> (\<exists>i. att_slot p (attcur p) (Some i) \<and> reading p t i (l_text l))
      | C_ATTRIBUTE_2 \<Rightarrow> False
      | C_VALUE \<Rightarrow> named p l \<and> length (l_atts l) < l_max l
          \<and> (\<exists>i. att_slot p (attcur p) (Some i) \<and> held (data p) i (l_key l))
      | C_VALUE_APOS \<Rightarrow> named p l \<and> length (l_atts l) < l_max l
          \<and> (\<exists>i j. att_slot p (attcur p) (Some i) \<and> held (data p) i (l_key l)
               \<and> att_slot p (attcur p + 1) (Some j) \<and> reading p t j (l_text l))
      | C_VALUE_QUOT \<Rightarrow> named p l \<and> length (l_atts l) < l_max l
          \<and> (\<exists>i j. att_slot p (attcur p) (Some i) \<and> held (data p) i (l_key l)
               \<and> att_slot p (attcur p + 1) (Some j) \<and> reading p t j (l_text l))
      | C_ENTITY \<Rightarrow> entity p = l_entity l \<and> length (l_entity l) \<le> 7 \<and> l_atts l = []
      | _ \<Rightarrow> l_atts l = [])"

text \<open>Only the block and the array of attributes matter for the strings.\<close>

lemma data_upd [simp]:
  "data (p\<lparr>ctx := v0\<rparr>) = data p"
  "data (p\<lparr>oldctx := v1\<rparr>) = data p"
  "data (p\<lparr>tagtype := v2\<rparr>) = data p"
  "data (p\<lparr>tag_at := v3\<rparr>) = data p"
  "data (p\<lparr>attmax := v4\<rparr>) = data p"
  "data (p\<lparr>attcur := v5\<rparr>) = data p"
  "data (p\<lparr>attflag := v6\<rparr>) = data p"
  "data (p\<lparr>atts := v7\<rparr>) = data p"
  "data (p\<lparr>entity := v8\<rparr>) = data p"
  "data (p\<lparr>nr_bytes := v9\<rparr>) = data p"
  "data (p\<lparr>nr_lines := v10\<rparr>) = data p"
  "data (p\<lparr>uni_max := v11\<rparr>) = data p"
  "data (p\<lparr>uni_len := v12\<rparr>) = data p"
  by (simp_all add: data_def split: option.split)

lemma block_ok_upd [simp]:
  "block_ok (p\<lparr>ctx := v0\<rparr>) = block_ok p"
  "block_ok (p\<lparr>oldctx := v1\<rparr>) = block_ok p"
  "block_ok (p\<lparr>tagtype := v2\<rparr>) = block_ok p"
  "block_ok (p\<lparr>tag_at := v3\<rparr>) = block_ok p"
  "block_ok (p\<lparr>attmax := v4\<rparr>) = block_ok p"
  "block_ok (p\<lparr>attcur := v5\<rparr>) = block_ok p"
  "block_ok (p\<lparr>attflag := v6\<rparr>) = block_ok p"
  "block_ok (p\<lparr>atts := v7\<rparr>) = block_ok p"
  "block_ok (p\<lparr>entity := v8\<rparr>) = block_ok p"
  "block_ok (p\<lparr>nr_bytes := v9\<rparr>) = block_ok p"
  "block_ok (p\<lparr>nr_lines := v10\<rparr>) = block_ok p"
  "block_ok (p\<lparr>uni_max := v11\<rparr>) = block_ok p"
  "block_ok (p\<lparr>uni_len := v12\<rparr>) = block_ok p"
  by (simp_all add: block_ok_def)

lemma reading_upd [simp]:
  "reading (p\<lparr>ctx := v0\<rparr>) t i s = reading p t i s"
  "reading (p\<lparr>oldctx := v1\<rparr>) t i s = reading p t i s"
  "reading (p\<lparr>tagtype := v2\<rparr>) t i s = reading p t i s"
  "reading (p\<lparr>tag_at := v3\<rparr>) t i s = reading p t i s"
  "reading (p\<lparr>attmax := v4\<rparr>) t i s = reading p t i s"
  "reading (p\<lparr>attcur := v5\<rparr>) t i s = reading p t i s"
  "reading (p\<lparr>attflag := v6\<rparr>) t i s = reading p t i s"
  "reading (p\<lparr>atts := v7\<rparr>) t i s = reading p t i s"
  "reading (p\<lparr>entity := v8\<rparr>) t i s = reading p t i s"
  "reading (p\<lparr>nr_bytes := v9\<rparr>) t i s = reading p t i s"
  "reading (p\<lparr>nr_lines := v10\<rparr>) t i s = reading p t i s"
  "reading (p\<lparr>uni_max := v11\<rparr>) t i s = reading p t i s"
  "reading (p\<lparr>uni_len := v12\<rparr>) t i s = reading p t i s"
  by (simp_all add: reading_def)

lemma att_slot_upd [simp]:
  "att_slot (p\<lparr>ctx := v0\<rparr>) i x = att_slot p i x"
  "att_slot (p\<lparr>oldctx := v1\<rparr>) i x = att_slot p i x"
  "att_slot (p\<lparr>tagtype := v2\<rparr>) i x = att_slot p i x"
  "att_slot (p\<lparr>tag_at := v3\<rparr>) i x = att_slot p i x"
  "att_slot (p\<lparr>attmax := v4\<rparr>) i x = att_slot p i x"
  "att_slot (p\<lparr>attcur := v5\<rparr>) i x = att_slot p i x"
  "att_slot (p\<lparr>attflag := v6\<rparr>) i x = att_slot p i x"
  "att_slot (p\<lparr>entity := v8\<rparr>) i x = att_slot p i x"
  "att_slot (p\<lparr>nr_bytes := v9\<rparr>) i x = att_slot p i x"
  "att_slot (p\<lparr>nr_lines := v10\<rparr>) i x = att_slot p i x"
  "att_slot (p\<lparr>uni_max := v11\<rparr>) i x = att_slot p i x"
  "att_slot (p\<lparr>uni_len := v12\<rparr>) i x = att_slot p i x"
  by (simp_all add: att_slot_def)

definition prs_rel :: "iksparser \<Rightarrow> string \<Rightarrow> lexer \<Rightarrow> bool" where
  "prs_rel p t l \<longleftrightarrow> same_fields p l \<and> atts_rel p l \<and> (stack p = None \<or> block_ok p) \<and> place_rel p t l"

definition may_pend :: "cons_e \<Rightarrow> bool" where
  "may_pend k \<longleftrightarrow> collects k \<or> k = C_WHITESPACE \<or> k = C_TAG_END"

definition delivers :: "cons_e \<Rightarrow> bool" where
  "delivers k \<longleftrightarrow> k = C_CDATA \<or> k = C_SECT_CDATA_C"

definition loc_rel :: "string \<Rightarrow> 'u run \<Rightarrow> bool" where
  "loc_rel buf r \<longleftrightarrow> pos r \<le> length buf \<and> old r \<le> pos r \<and> (\<forall>so. stack_old r = Some so \<longrightarrow> so \<le> pos r)
     \<and> (stack_old r \<noteq> None \<longrightarrow> may_pend (ctx (prs r)))"

definition usr_rel :: "('u \<Rightarrow> string \<Rightarrow> 'u) \<Rightarrow> string \<Rightarrow> 'u run \<Rightarrow> 'u \<Rightarrow> bool" where
  "usr_rel cd buf r u \<longleftrightarrow>
     u = (if delivers (ctx (prs r)) \<and> old r < pos r then cd (usr r) (take (pos r - old r) (drop (old r) buf)) else usr r)"

definition sim :: "('u \<Rightarrow> string \<Rightarrow> 'u) \<Rightarrow> string \<Rightarrow> 'u run \<Rightarrow> 'u \<Rightarrow> lexer \<Rightarrow> bool" where
  "sim cd buf r u l \<longleftrightarrow> prs_rel (prs r) (pending buf r) l \<and> loc_rel buf r \<and> usr_rel cd buf r u"

text \<open>
  The hooks of a parser whose character data can be delivered in pieces: the calls of \<open>cd\<close>
  never fail, and two in a row are one.
\<close>

locale piecewise_hooks =
  fixes h :: "'u hooks" and tag :: "'u tag_fun" and cd :: "'u \<Rightarrow> string \<Rightarrow> 'u"
  assumes tag_hook: "tagHook h = Some tag"
    and cdata_hook: "cdataHook h = Some (\<lambda>u s. Some (IKS_OK, cd u s))"
    and joins: "s \<noteq> [] \<Longrightarrow> t \<noteq> [] \<Longrightarrow> cd u (s @ t) = cd (cd u s) t"

section \<open>One character\<close>

definition matches ::
  "(nat \<Rightarrow> string option) \<Rightarrow> 'u hooks \<Rightarrow> ('u \<Rightarrow> string \<Rightarrow> 'u) \<Rightarrow> string \<Rightarrow> 'u run \<Rightarrow> 'u lexed \<Rightarrow> bool" where
  "matches alloc h cd buf r x \<longleftrightarrow>
     (case x of
        None \<Rightarrow> sax_loop alloc h buf r = None
      | Some (l', u', e) \<Rightarrow>
          if e = IKS_OK
          then \<exists>r'. sax_loop alloc h buf r = sax_loop alloc h buf r' \<and> pos r' = Suc (pos r)
            \<and> sim cd buf r' u' (count_char (buf ! pos r) l')
          else \<exists>r'. sax_loop alloc h buf r = Some (r', e))"

lemma loop_step:
  "pos r < length buf \<Longrightarrow> sax_loop alloc h buf r = do {
     (r', v) \<leftarrow> sax_step alloc h buf (buf ! pos r) r;
     case v of
       Return e \<Rightarrow> Some (r', e)
     | Again \<Rightarrow> sax_loop alloc h buf r'
     | Next \<Rightarrow> sax_loop alloc h buf (next_char (buf ! pos r) r')
   }"
  by (subst sax_loop.simps) simp

lemma matches_next:
  assumes "pos r < length buf" and "sax_step alloc h buf (buf ! pos r) r = Some (r', Next)" and "pos r' = pos r"
    and "sim cd buf (next_char (buf ! pos r) r') u' (count_char (buf ! pos r) l')"
  shows "matches alloc h cd buf r (Some (l', u', IKS_OK))"
  using assms by (auto simp: matches_def loop_step next_char_def)

lemma matches_ok:
  assumes "pos r < length buf" and "sax_step alloc h buf (buf ! pos r) r = Some (r', Next)" and "pos r' = pos r"
    and "sim cd buf (next_char (buf ! pos r) r') u' (count_char (buf ! pos r) l')"
  shows "matches alloc h cd buf r (ok u' l')"
  unfolding ok_def by (rule matches_next [OF assms])

lemma matches_again:
  assumes "pos r < length buf" and "sax_step alloc h buf (buf ! pos r) r = Some (r', Again)" and "pos r' = pos r"
    and "matches alloc h cd buf r' x"
  shows "matches alloc h cd buf r x"
proof -
  have "sax_loop alloc h buf r = sax_loop alloc h buf r'" using assms(1,2) by (simp add: loop_step)
  then show ?thesis using assms(3,4) by (cases x) (auto simp: matches_def)
qed

lemma matches_fail:
  assumes "pos r < length buf" and "sax_step alloc h buf (buf ! pos r) r = Some (r', Return e)" and "e \<noteq> IKS_OK"
  shows "matches alloc h cd buf r (Some (l', u', e))"
  using assms by (simp add: matches_def loop_step)

lemma matches_bad:
  assumes "pos r < length buf" and "sax_step alloc h buf (buf ! pos r) r = Some (r', Return IKS_BADXML)"
  shows "matches alloc h cd buf r (bad u' l')"
  unfolding bad_def by (rule matches_fail [OF assms]) simp

lemma matches_undefined:
  assumes "pos r < length buf" and "sax_step alloc h buf (buf ! pos r) r = None"
  shows "matches alloc h cd buf r None"
  using assms by (simp add: matches_def loop_step)

text \<open>The counters are the same on both sides.\<close>

lemma prs_rel_next:
  assumes "same_fields (prs r) l"
  shows "prs_rel (prs (next_char c r)) t (count_char c l) = prs_rel (prs r) t l"
proof -
  obtain n m where n: "prs (next_char c r) = (prs r)\<lparr>nr_bytes := n, nr_lines := m\<rparr>"
    and l: "count_char c l = l\<lparr>l_bytes := n, l_lines := m\<rparr>"
    using assms by (simp add: next_char_def count_char_def same_fields_def)
  have d: "data (prs (next_char c r)) = data (prs r)" "block_ok (prs (next_char c r)) = block_ok (prs r)"
    by (simp_all add: n)
  have "named (prs (next_char c r)) (count_char c l) = named (prs r) l"
    "\<And>i v. att_slot (prs (next_char c r)) i v = att_slot (prs r) i v"
    "\<And>t i s. reading (prs (next_char c r)) t i s = reading (prs r) t i s"
    "atts_rel (prs (next_char c r)) (count_char c l) = atts_rel (prs r) l"
    unfolding named_def att_slot_def reading_def atts_rel_def d by (simp_all add: n l split: option.split)
  moreover from this have "place_rel (prs (next_char c r)) t (count_char c l) = place_rel (prs r) t l"
    unfolding place_rel_def d by (cases "l_ctx l") (simp_all add: n l)
  moreover have "same_fields (prs (next_char c r)) (count_char c l)"
    using assms by (simp add: same_fields_def n l)
  ultimately show ?thesis unfolding prs_rel_def d using assms by (simp add: n)
qed

lemma sim_next:
  assumes "prs_rel (prs r) (pending buf (r\<lparr>pos := Suc (pos r)\<rparr>)) l" and "pos r < length buf" and "old r \<le> Suc (pos r)"
    and "\<And>so. stack_old r = Some so \<Longrightarrow> so \<le> pos r \<and> may_pend (ctx (prs r))"
    and "usr_rel cd buf (r\<lparr>pos := Suc (pos r)\<rparr>) u"
  shows "sim cd buf (next_char c r) u (count_char c l)"
proof -
  have "pending buf (next_char c r) = pending buf (r\<lparr>pos := Suc (pos r)\<rparr>)"
    by (simp add: pending_def next_char_def split: option.split)
  moreover have "same_fields (prs r) l" using assms(1) by (simp add: prs_rel_def)
  moreover have "usr_rel cd buf (next_char c r) u" using assms(5) by (simp add: usr_rel_def next_char_def)
  moreover have "loc_rel buf (next_char c r)" using assms(2-4) by (force simp: loc_rel_def next_char_def)
  ultimately show ?thesis using assms(1) by (simp add: sim_def prs_rel_next)
qed

lemma take_more: "n \<le> m \<Longrightarrow> m < length buf \<Longrightarrow> take (Suc m - n) (drop n buf) = take (m - n) (drop n buf) @ [buf ! m]"
  by (simp add: Suc_diff_le take_Suc_conv_app_nth)

lemma pending_more:
  assumes "pos r < length buf" and "loc_rel buf r"
  shows "pending buf ((start_old r)\<lparr>pos := Suc (pos r)\<rparr>) = pending buf r @ [buf ! pos r]"
proof (cases "stack_old r")
  case None
  then show ?thesis using take_more [of "pos r" "pos r" buf] assms(1) by (simp add: pending_def start_old_def)
next
  case (Some so)
  then have "so \<le> pos r" using assms(2) by (simp add: loc_rel_def)
  then show ?thesis using Some take_more [of so "pos r" buf] assms(1) by (simp add: pending_def start_old_def)
qed

lemma pending_none: "stack_old r = None \<Longrightarrow> pending buf (r\<lparr>pos := n\<rparr>) = []" "stack_old r = None \<Longrightarrow> pending buf r = []"
  by (simp_all add: pending_def)

lemma pending_first: "pos r < length buf \<Longrightarrow> pending buf (r\<lparr>stack_old := Some (pos r), pos := Suc (pos r)\<rparr>) = [buf ! pos r]"
  using take_more [of "pos r" "pos r" buf] by (simp add: pending_def)

lemma usr_quiet: "\<not> delivers (ctx (prs r)) \<Longrightarrow> usr_rel cd buf r u \<longleftrightarrow> u = usr r"
  by (simp add: usr_rel_def)

lemma usr_fresh: "old r = Suc (pos r) \<Longrightarrow> usr_rel cd buf (r\<lparr>pos := Suc (pos r)\<rparr>) u \<longleftrightarrow> u = usr r"
  by (simp add: usr_rel_def)

lemma usr_restart: "delivers (ctx (prs r)) \<Longrightarrow> old r = pos r \<Longrightarrow> pos r < length buf \<Longrightarrow>
    usr_rel cd buf (r\<lparr>pos := Suc (pos r)\<rparr>) u \<longleftrightarrow> u = cd (usr r) [buf ! pos r]"
  using take_more [of "pos r" "pos r" buf] by (simp add: usr_rel_def)

section \<open>Outside tags\<close>

definition plain :: "cons_e \<Rightarrow> bool" where
  "plain k \<longleftrightarrow> \<not> may_pend k \<and> k \<noteq> C_TAG_START \<and> k \<noteq> C_VALUE \<and> k \<noteq> C_ATTRIBUTE \<and> k \<noteq> C_ATTRIBUTE_2"

lemmas kinds = plain_def may_pend_def collects_def delivers_def

lemma plain_place:
  "plain (l_ctx l) \<Longrightarrow> place_rel p t l \<longleftrightarrow>
     l_atts l = [] \<and> (l_ctx l = C_ENTITY \<longrightarrow> entity p = l_entity l \<and> length (l_entity l) \<le> 7)"
  by (cases "l_ctx l") (auto simp: kinds place_rel_def)

lemma sim_quiet: "sim cd buf r u l \<Longrightarrow> \<not> may_pend (l_ctx l) \<Longrightarrow> stack_old r = None"
  by (auto simp: sim_def loc_rel_def prs_rel_def same_fields_def)

lemma sim_ctx: "sim cd buf r u l \<Longrightarrow> ctx (prs r) = l_ctx l"
  by (simp add: sim_def prs_rel_def same_fields_def)

lemma atts_rel_upd [simp]:
  "atts_rel (p\<lparr>ctx := k\<rparr>) l = atts_rel p l" "atts_rel (p\<lparr>oldctx := k\<rparr>) l = atts_rel p l"
  "atts_rel (p\<lparr>entity := e\<rparr>) l = atts_rel p l" "atts_rel (p\<lparr>tagtype := ty\<rparr>) l = atts_rel p l"
  "atts_rel (p\<lparr>uni_max := n\<rparr>) l = atts_rel p l" "atts_rel (p\<lparr>uni_len := m\<rparr>) l = atts_rel p l"
  "atts_rel (p\<lparr>tag_at := i\<rparr>) l = atts_rel p l" "atts_rel (p\<lparr>attflag := b\<rparr>) l = atts_rel p l"
  "atts_rel p (l\<lparr>l_ctx := k\<rparr>) = atts_rel p l" "atts_rel p (l\<lparr>l_old := k\<rparr>) = atts_rel p l"
  "atts_rel p (l\<lparr>l_entity := e\<rparr>) = atts_rel p l" "atts_rel p (l\<lparr>l_type := ty\<rparr>) = atts_rel p l"
  "atts_rel p (l\<lparr>l_umax := n\<rparr>) = atts_rel p l" "atts_rel p (l\<lparr>l_ulen := m\<rparr>) = atts_rel p l"
  "atts_rel p (l\<lparr>l_name := s\<rparr>) = atts_rel p l" "atts_rel p (l\<lparr>l_key := s\<rparr>) = atts_rel p l"
  "atts_rel p (l\<lparr>l_text := s\<rparr>) = atts_rel p l"
  by (simp_all add: atts_rel_def split: option.split)

lemma plain_ok:
  assumes "sim cd buf r u l" and "pos r < length buf" and "plain (l_ctx l)" and "plain k"
    and "sax_step alloc h buf (buf ! pos r) r = Some (r\<lparr>prs := (prs r)\<lparr>ctx := k, entity := e\<rparr>, usr := v, old := i\<rparr>, Next)"
    and "k = C_ENTITY \<Longrightarrow> e = e' \<and> length e \<le> 7"
    and "usr_rel cd buf (r\<lparr>prs := (prs r)\<lparr>ctx := k, entity := e\<rparr>, usr := v, old := i, pos := Suc (pos r)\<rparr>) u'" and "i \<le> Suc (pos r)"
  shows "matches alloc h cd buf r (ok u' (l\<lparr>l_ctx := k, l_entity := e'\<rparr>))"
proof (rule matches_ok [OF assms(2,5)])
  have so: "stack_old r = None" using sim_quiet [OF assms(1)] assms(3) by (simp add: plain_def)
  have p: "prs_rel (prs r) [] l" using assms(1) so by (simp add: sim_def pending_none)
  then have "l_atts l = []" using assms(3) by (simp add: prs_rel_def plain_place)
  then have "prs_rel ((prs r)\<lparr>ctx := k, entity := e\<rparr>) [] (l\<lparr>l_ctx := k, l_entity := e'\<rparr>)"
    using p assms(4,6) by (auto simp: prs_rel_def plain_place same_fields_def)
  then show "sim cd buf (next_char (buf ! pos r) (r\<lparr>prs := (prs r)\<lparr>ctx := k, entity := e\<rparr>, usr := v, old := i\<rparr>)) u'
      (count_char (buf ! pos r) (l\<lparr>l_ctx := k, l_entity := e'\<rparr>))"
    using so assms(2,7,8) by (intro sim_next) (simp_all add: pending_none)
qed simp

context piecewise_hooks
begin

lemma usr_more:
  assumes "sim cd buf r u l" and "pos r < length buf" and "delivers (ctx (prs r))"
  shows "usr_rel cd buf (r\<lparr>pos := Suc (pos r)\<rparr>) (cd u [buf ! pos r])"
proof -
  have i: "old r \<le> pos r" and u: "usr_rel cd buf r u" using assms(1) by (simp_all add: sim_def loc_rel_def)
  show ?thesis
  proof (cases "old r = pos r")
    case True
    then show ?thesis using assms(2,3) u take_more [of "pos r" "pos r" buf] by (simp add: usr_rel_def)
  next
    case False
    then have "take (pos r - old r) (drop (old r) buf) \<noteq> []" using i assms(2) by simp
    then show ?thesis using assms(2,3) u i False take_more [of "old r" "pos r" buf] joins [of _ "[buf ! pos r]"]
      by (simp add: usr_rel_def)
  qed
qed

lemma deliver_ok:
  assumes "sim cd buf r u l" and "delivers (ctx (prs r))" and "pos r' = pos r" "old r' = old r" "usr r' = usr r"
  shows "deliver h buf f r' = f (r'\<lparr>usr := u\<rparr>)"
proof -
  have i: "old r \<le> pos r" "pos r \<le> length buf" and u: "usr_rel cd buf r u"
    using assms(1) by (simp_all add: sim_def loc_rel_def)
  show ?thesis
  proof (cases "old r < pos r")
    case True
    then show ?thesis using i u assms
      by (simp add: deliver_def usr_rel_def read_at_def call_cdata_def call_hook_def cdata_hook)
  next
    case False
    then have "usr r = u" using u by (simp add: usr_rel_def)
    then have "r'\<lparr>usr := u\<rparr> = r'" using assms(5) by simp
    then show ?thesis using False assms by (simp add: deliver_def)
  qed
qed

lemma cdata_ok: "call_cdata h s f r = f (r\<lparr>usr := cd (usr r) s\<rparr>)"
  by (simp add: call_cdata_def call_hook_def cdata_hook)

end

lemma same_ctx: "ctx p = k \<Longrightarrow> p\<lparr>ctx := k\<rparr> = (p :: iksparser)"
  by simp

lemma same_lctx: "l_ctx l = k \<Longrightarrow> l\<lparr>l_ctx := k\<rparr> = (l :: lexer)"
  by simp

lemma same_entity: "p\<lparr>ctx := k, entity := entity p\<rparr> = p\<lparr>ctx := k\<rparr>" "l\<lparr>l_ctx := k, l_entity := l_entity l\<rparr> = l\<lparr>l_ctx := k\<rparr>"
  by (cases p, simp) (cases l, simp)

lemma same_usr: "r\<lparr>prs := p, usr := usr r, old := i\<rparr> = r\<lparr>prs := p, old := i\<rparr>"
  "r\<lparr>prs := p, usr := v, old := old r\<rparr> = r\<lparr>prs := p, usr := v\<rparr>" "r\<lparr>prs := p, old := old r\<rparr> = r\<lparr>prs := p\<rparr>"
  by (cases r, simp)+

text \<open>The ways in which a character changes the state outside tags.\<close>

lemma plain_to:
  assumes "sim cd buf r u l" and "pos r < length buf" and "plain (l_ctx l)" and "plain k" and "k \<noteq> C_ENTITY"
    and "sax_step alloc h buf (buf ! pos r) r = Some (r\<lparr>prs := (prs r)\<lparr>ctx := k\<rparr>, usr := v, old := i\<rparr>, Next)"
    and "usr_rel cd buf (r\<lparr>prs := (prs r)\<lparr>ctx := k\<rparr>, usr := v, old := i, pos := Suc (pos r)\<rparr>) u'" and "i \<le> Suc (pos r)"
  shows "matches alloc h cd buf r (ok u' (l\<lparr>l_ctx := k\<rparr>))"
  using plain_ok [where e = "entity (prs r)" and e' = "l_entity l", OF assms(1-4) _ _ _ assms(8)] assms(5-7)
  by (simp add: same_entity)

lemma plain_quiet:
  assumes "sim cd buf r u l" and "pos r < length buf" and "plain (l_ctx l)" and "plain k" and "k \<noteq> C_ENTITY"
    and "\<not> delivers (l_ctx l)" and "\<not> delivers k" and "i \<le> Suc (pos r)"
    and "sax_step alloc h buf (buf ! pos r) r = Some (r\<lparr>prs := (prs r)\<lparr>ctx := k\<rparr>, old := i\<rparr>, Next)"
  shows "matches alloc h cd buf r (ok u (l\<lparr>l_ctx := k\<rparr>))"
  using plain_to [OF assms(1-5), where v = "usr r" and i = i and u' = u and alloc = alloc and h = h] assms(1,6-9) sim_ctx [OF assms(1)]
  by (simp add: same_usr usr_quiet sim_def)

lemma plain_fresh:
  assumes "sim cd buf r u l" and "pos r < length buf" and "plain (l_ctx l)" and "plain k" and "k \<noteq> C_ENTITY"
    and "\<not> delivers (l_ctx l)"
    and "sax_step alloc h buf (buf ! pos r) r = Some (r\<lparr>prs := (prs r)\<lparr>ctx := k\<rparr>, usr := v, old := Suc (pos r)\<rparr>, Next)"
  shows "matches alloc h cd buf r (ok v (l\<lparr>l_ctx := k\<rparr>))"
  using plain_to [OF assms(1-5,7)] by (simp add: usr_rel_def)

lemma plain_restart:
  assumes "sim cd buf r u l" and "pos r < length buf" and "plain (l_ctx l)" and "plain k" and "k \<noteq> C_ENTITY" and "delivers k"
    and "sax_step alloc h buf (buf ! pos r) r = Some (r\<lparr>prs := (prs r)\<lparr>ctx := k\<rparr>, usr := v, old := pos r\<rparr>, Next)"
  shows "matches alloc h cd buf r (ok (cd v [buf ! pos r]) (l\<lparr>l_ctx := k\<rparr>))"
  using plain_to [OF assms(1-5,7)] assms(2,6) take_more [of "pos r" "pos r" buf] by (simp add: usr_rel_def)

lemma plain_flushed:
  assumes "sim cd buf r u l" and "pos r < length buf" and "plain (l_ctx l)" and "plain k" and "\<not> delivers k"
    and "k = C_ENTITY \<Longrightarrow> e = e' \<and> length e \<le> 7"
    and "sax_step alloc h buf (buf ! pos r) r = Some (r\<lparr>prs := (prs r)\<lparr>ctx := k, entity := e\<rparr>, usr := u\<rparr>, Next)"
  shows "matches alloc h cd buf r (ok u (l\<lparr>l_ctx := k, l_entity := e'\<rparr>))"
proof -
  have "old r \<le> Suc (pos r)" using assms(1) by (simp add: sim_def loc_rel_def)
  then show ?thesis
    by (intro plain_ok [OF assms(1-4) _ assms(6)]) (simp_all add: assms(5,7) same_usr usr_rel_def)
qed

lemma stay_quiet:
  assumes "sim cd buf r u l" and "pos r < length buf" and "plain (l_ctx l)" and "l_ctx l \<noteq> C_ENTITY" and "\<not> delivers (l_ctx l)"
    and "sax_step alloc h buf (buf ! pos r) r = Some (r, Next)"
  shows "matches alloc h cd buf r (ok u l)"
proof -
  have "old r \<le> Suc (pos r)" using assms(1) by (simp add: sim_def loc_rel_def)
  then show ?thesis
    using plain_quiet [OF assms(1-3,3-5,5), where i = "old r"] assms(6) same_ctx [of "prs r"] same_lctx [of l] sim_ctx [OF assms(1)]
    by (simp add: same_usr)
qed

context piecewise_hooks
begin

lemma stay_delivering:
  assumes "sim cd buf r u l" and "pos r < length buf" and "delivers (l_ctx l)"
    and "sax_step alloc h buf (buf ! pos r) r = Some (r, Next)"
  shows "matches alloc h cd buf r (ok (cd u [buf ! pos r]) l)"
proof -
  have k: "plain (l_ctx l)" "l_ctx l \<noteq> C_ENTITY" using assms(3) by (auto simp: kinds)
  have "old r \<le> Suc (pos r)" using assms(1) by (simp add: sim_def loc_rel_def)
  moreover have "usr_rel cd buf (r\<lparr>pos := Suc (pos r)\<rparr>) (cd u [buf ! pos r])"
    using usr_more [OF assms(1,2)] assms(3) sim_ctx [OF assms(1)] by simp
  ultimately show ?thesis
    using plain_to [OF assms(1,2) k(1,1,2), where alloc = alloc and h = h and v = "usr r" and i = "old r" and u' = "cd u [buf ! pos r]"]
      assms(4) same_ctx [of "prs r"] same_lctx [of l] sim_ctx [OF assms(1)]
    by (simp add: same_usr usr_rel_def)
qed

end

text \<open>The cases of the switch outside tags.\<close>

lemmas plain_steps = sax_switch_def to_ctx_def fail_with_def lx_switch_def

context piecewise_hooks
begin

lemma step_CDATA:
  assumes "sim cd buf r u l" and "pos r < length buf" and "l_ctx l = C_CDATA" and "roomy alloc"
    and s: "sax_step alloc h buf (buf ! pos r) r = sax_switch alloc h buf (buf ! pos r) r"
  shows "matches alloc h cd buf r (lx_switch tag cd (buf ! pos r) u l)"
proof -
  let ?c = "buf ! pos r"
  have k: "ctx (prs r) = C_CDATA" using sim_ctx [OF assms(1)] assms(3) by simp
  then have d: "delivers (ctx (prs r))" by (simp add: delivers_def)
  have f: "deliver h buf f r = f (r\<lparr>usr := u\<rparr>)" for f by (rule deliver_ok [OF assms(1) d]) simp_all
  have so: "stack_old r = None" using sim_quiet [OF assms(1)] assms(3) by (simp add: kinds)
  consider "?c = CHR ''&''" | "?c = CHR ''<''" | "?c \<noteq> CHR ''&''" "?c \<noteq> CHR ''<''" by blast
  then show ?thesis
  proof cases
    case 1
    have "matches alloc h cd buf r (ok u (l\<lparr>l_ctx := C_ENTITY, l_entity := []\<rparr>))"
      using 1 assms(3) k s by (intro plain_flushed [OF assms(1,2), where e = "[]"]) (simp_all add: kinds f sax_CDATA_def plain_steps)
    then show ?thesis using 1 assms(3) by (simp add: lx_switch_def)
  next
    case 2
    have p: "prs_rel (prs r) [] l" using assms(1) so by (simp add: sim_def pending_none)
    have "\<exists>p'. STACK_INIT alloc (prs r) = (p', True) \<and> block_ok p' \<and> data p' = data (prs r)
        \<and> (\<exists>b n. p' = (prs r)\<lparr>stack := b, stack_pos := n\<rparr>)"
    proof (cases "stack (prs r)")
      case None
      obtain b where "alloc 128 = Some b" using assms(4) by (auto simp: roomy_def)
      then show ?thesis using None by (auto simp: STACK_INIT_def stack_init_def block_ok_def data_def)
    next
      case (Some b)
      then show ?thesis using p by (auto simp: STACK_INIT_def prs_rel_def intro!: exI [of _ "stack (prs r)"] exI [of _ "stack_pos (prs r)"])
    qed
    then obtain p' b n where p': "STACK_INIT alloc (prs r) = (p', True)" "block_ok p'" "data p' = data (prs r)"
        "p' = (prs r)\<lparr>stack := b, stack_pos := n\<rparr>" by blast
    have "atts_rel p' l" using p p'(3) by (auto simp: prs_rel_def atts_rel_def p'(4) split: option.splits)
    then have "prs_rel (p'\<lparr>tag_at := stack_pos p', ctx := C_TAG_START\<rparr>) [] (l\<lparr>l_ctx := C_TAG_START\<rparr>)"
      using p p'(2) assms(3) by (simp add: prs_rel_def place_rel_def same_fields_def p'(4))
    then have "matches alloc h cd buf r (ok u (l\<lparr>l_ctx := C_TAG_START\<rparr>))"
      using so assms(1,2) k 2 p'(1) s
      by (intro matches_ok [where r' = "r\<lparr>usr := u, prs := p'\<lparr>tag_at := stack_pos p', ctx := C_TAG_START\<rparr>\<rparr>"] sim_next)
        (auto simp: f sax_CDATA_def plain_steps pending_none usr_rel_def delivers_def sim_def loc_rel_def)
    then show ?thesis using 2 assms(3) by (simp add: lx_switch_def)
  next
    case 3
    then show ?thesis using stay_delivering [OF assms(1,2)] assms(3) k
      by (simp add: s plain_steps sax_CDATA_def delivers_def)
  qed
qed

lemma step_SECT_CDATA_C:
  assumes "sim cd buf r u l" and "pos r < length buf" and "l_ctx l = C_SECT_CDATA_C"
    and s: "sax_step alloc h buf (buf ! pos r) r = sax_switch alloc h buf (buf ! pos r) r"
  shows "matches alloc h cd buf r (lx_switch tag cd (buf ! pos r) u l)"
proof (cases "buf ! pos r = CHR '']''")
  case True
  have k: "ctx (prs r) = C_SECT_CDATA_C" using sim_ctx [OF assms(1)] assms(3) by simp
  have f: "deliver h buf f (r\<lparr>prs := (prs r)\<lparr>ctx := C_SECT_CDATA_E\<rparr>\<rparr>) = f (r\<lparr>prs := (prs r)\<lparr>ctx := C_SECT_CDATA_E\<rparr>, usr := u\<rparr>)" for f
    using deliver_ok [OF assms(1), of "r\<lparr>prs := (prs r)\<lparr>ctx := C_SECT_CDATA_E\<rparr>\<rparr>" f] k by (simp add: delivers_def)
  have "matches alloc h cd buf r (ok u (l\<lparr>l_ctx := C_SECT_CDATA_E, l_entity := l_entity l\<rparr>))"
    using True assms(3) k s
    by (intro plain_flushed [OF assms(1,2), where e = "entity (prs r)"])
      (simp_all add: kinds plain_steps sax_SECT_CDATA_C_def f same_entity)
  then show ?thesis using True assms(3) by (simp add: lx_switch_def same_entity)
next
  case False
  then show ?thesis using stay_delivering [OF assms(1,2)] assms(3) sim_ctx [OF assms(1)]
    by (simp add: s plain_steps sax_SECT_CDATA_C_def delivers_def)
qed

lemma step_ENTITY:
  assumes "sim cd buf r u l" and "pos r < length buf" and "l_ctx l = C_ENTITY"
    and s: "sax_step alloc h buf (buf ! pos r) r = sax_switch alloc h buf (buf ! pos r) r"
  shows "matches alloc h cd buf r (lx_switch tag cd (buf ! pos r) u l)"
proof -
  let ?c = "buf ! pos r"
  have k: "ctx (prs r) = C_ENTITY" using sim_ctx [OF assms(1)] assms(3) by simp
  have "place_rel (prs r) (pending buf r) l" using assms(1) by (simp add: sim_def prs_rel_def)
  then have e: "entity (prs r) = l_entity l" "length (l_entity l) \<le> 7" using assms(3) by (simp_all add: place_rel_def)
  have u: "u = usr r" using assms(1) k by (simp add: sim_def usr_rel_def delivers_def)
  have i: "old r \<le> Suc (pos r)" using assms(1) by (simp add: sim_def loc_rel_def)
  consider "?c = CHR '';''" | "?c \<noteq> CHR '';''" "7 \<le> length (l_entity l)" | "?c \<noteq> CHR '';''" "length (l_entity l) < 7" by linarith
  then show ?thesis
  proof cases
    case 1
    then show ?thesis using e assms(3) k s
      by (simp add: lx_switch_def lx_entity_def)
        (intro plain_fresh [OF assms(1,2)], simp_all add: kinds plain_steps sax_ENTITY_def cdata_ok u)
  next
    case 2
    then show ?thesis using e assms(2,3) k
      by (simp add: lx_switch_def lx_entity_def)
        (rule matches_bad, simp_all add: s plain_steps sax_ENTITY_def)
  next
    case 3
    have "matches alloc h cd buf r (ok u (l\<lparr>l_ctx := C_ENTITY, l_entity := l_entity l @ [?c]\<rparr>))"
      using 3 e assms(3) k i
      by (intro plain_ok [OF assms(1,2), where e = "l_entity l @ [?c]" and v = "usr r" and i = "old r"])
        (simp_all add: kinds s plain_steps sax_ENTITY_def same_usr same_ctx usr_rel_def u)
    then show ?thesis using 3 assms(3) by (simp add: lx_switch_def lx_entity_def same_lctx)
  qed
qed

end

lemma plain_move:
  assumes "sim cd buf r u l" and "pos r < length buf" and "plain (l_ctx l)" and "plain k" and "k \<noteq> C_ENTITY"
    and "\<not> delivers (l_ctx l)" and "i = (if delivers k then Suc (pos r) else old r)"
    and "sax_step alloc h buf (buf ! pos r) r = Some (r\<lparr>prs := (prs r)\<lparr>ctx := k\<rparr>, old := i\<rparr>, Next)"
  shows "matches alloc h cd buf r (ok u (l\<lparr>l_ctx := k\<rparr>))"
proof (cases "delivers k")
  case True
  have "u = usr r" using assms(1,6) sim_ctx [OF assms(1)] by (simp add: sim_def usr_rel_def)
  then show ?thesis using plain_fresh [OF assms(1-6), where v = "usr r"] assms(7,8) True by (simp add: same_usr)
next
  case False
  have "old r \<le> Suc (pos r)" using assms(1) by (simp add: sim_def loc_rel_def)
  then show ?thesis using plain_quiet [OF assms(1-6) False _ assms(8)] assms(7) False by simp
qed

lemma step_expect:
  assumes "sim cd buf r u l" and "pos r < length buf" and "plain (l_ctx l)" and "plain k" and "k \<noteq> C_ENTITY"
    and "\<not> delivers (l_ctx l)" and "i = (if delivers k then Suc (pos r) else old r)"
    and "sax_step alloc h buf (buf ! pos r) r =
      (if buf ! pos r = x then Some (r\<lparr>prs := (prs r)\<lparr>ctx := k\<rparr>, old := i\<rparr>, Next) else Some (r, Return IKS_BADXML))"
  shows "matches alloc h cd buf r (if buf ! pos r = x then ok u (l\<lparr>l_ctx := k\<rparr>) else bad u l)"
  using plain_move [OF assms(1-7)] matches_bad [OF assms(2)] assms(8) by (cases "buf ! pos r = x") simp_all

lemma step_wait:
  assumes "sim cd buf r u l" and "pos r < length buf" and "plain (l_ctx l)" and "l_ctx l \<noteq> C_ENTITY" and "plain k" and "k \<noteq> C_ENTITY"
    and "\<not> delivers (l_ctx l)" and "i = (if delivers k then Suc (pos r) else old r)"
    and "sax_step alloc h buf (buf ! pos r) r =
      (if buf ! pos r = x then Some (r\<lparr>prs := (prs r)\<lparr>ctx := k\<rparr>, old := i\<rparr>, Next) else Some (r, Next))"
  shows "matches alloc h cd buf r (if buf ! pos r = x then ok u (l\<lparr>l_ctx := k\<rparr>) else ok u l)"
  using plain_move [OF assms(1-3,5-8)] stay_quiet [OF assms(1-4,7)] assms(9) by (cases "buf ! pos r = x") simp_all

context piecewise_hooks
begin

lemma step_SECT_CDATA_E:
  assumes "sim cd buf r u l" and "pos r < length buf" and "l_ctx l = C_SECT_CDATA_E \<or> l_ctx l = C_SECT_CDATA_E2"
    and s: "sax_step alloc h buf (buf ! pos r) r = sax_switch alloc h buf (buf ! pos r) r"
  shows "matches alloc h cd buf r (lx_switch tag cd (buf ! pos r) u l)"
proof -
  let ?c = "buf ! pos r"
  have k: "ctx (prs r) = l_ctx l" using sim_ctx [OF assms(1)] .
  have u: "u = usr r" using assms(1,3) k by (auto simp: sim_def usr_rel_def delivers_def)
  have p: "plain (l_ctx l)" "\<not> delivers (l_ctx l)" using assms(3) by (auto simp: kinds)
  have q: "plain C_SECT_CDATA_C" "delivers C_SECT_CDATA_C" by (simp_all add: kinds)
  have again: "matches alloc h cd buf r (ok (cd (cd u t) [?c]) (l\<lparr>l_ctx := C_SECT_CDATA_C\<rparr>))"
    if "sax_step alloc h buf ?c r = call_cdata h t (\<lambda>r. to_ctx C_SECT_CDATA_C (r\<lparr>old := pos r\<rparr>)) r" for t
    by (rule plain_restart [OF assms(1,2) p(1) q(1) _ q(2)]) (simp_all add: that cdata_ok to_ctx_def u)
  show ?thesis
  proof (cases "l_ctx l = C_SECT_CDATA_E")
    case True
    then show ?thesis
      using plain_move [OF assms(1,2) p(1) _ _ p(2), where k = C_SECT_CDATA_E2 and i = "old r" and alloc = alloc and h = h] again [of "'']''"] s k
      by (cases "?c = CHR '']''") (simp_all add: sax_SECT_CDATA_E_def plain_steps kinds same_usr)
  next
    case False
    then have e: "l_ctx l = C_SECT_CDATA_E2" using assms(3) by simp
    then show ?thesis
      using plain_move [OF assms(1,2) p(1) _ _ p(2), where k = C_CDATA and i = "Suc (pos r)" and alloc = alloc and h = h] again [of "'']]''"] s k
      by (cases "?c = CHR ''>''") (simp_all add: sax_SECT_CDATA_E2_def plain_steps kinds)
  qed
qed

lemma step_TAG_START:
  assumes "sim cd buf r u l" and "pos r < length buf" and "l_ctx l = C_TAG_START" and "byte_of (buf ! pos r) \<noteq> 0"
    and s: "sax_step alloc h buf (buf ! pos r) r = sax_switch alloc h buf (buf ! pos r) r"
  shows "matches alloc h cd buf r (lx_switch tag cd (buf ! pos r) u l)"
proof -
  let ?c = "buf ! pos r"
  have k: "ctx (prs r) = C_TAG_START" using sim_ctx [OF assms(1)] assms(3) by simp
  have u: "u = usr r" using assms(1) k by (simp add: sim_def usr_rel_def delivers_def)
  have so: "stack_old r = None" using sim_quiet [OF assms(1)] assms(3) by (simp add: kinds)
  have i: "old r \<le> Suc (pos r)" using assms(1) by (simp add: sim_def loc_rel_def)
  have p: "prs_rel (prs r) [] l" using assms(1) so by (simp add: sim_def pending_none)
  then have b: "block_ok (prs r)" "tag_at (prs r) = stack_pos (prs r)" "l_atts l = []"
    using assms(3) by (simp_all add: prs_rel_def place_rel_def)
  have n: "?c \<noteq> NUL" using assms(4) by (auto simp: byte_of_def)
  have empty: "drop (stack_pos (prs r)) (data (prs r)) = []" using length_data [OF b(1)] by simp
  have tag: "matches alloc h cd buf r (ok u (l\<lparr>l_type := ty, l_text := t, l_ctx := C_TAG\<rparr>))"
    if "sax_step alloc h buf ?c r = Some (r\<lparr>prs := (prs r)\<lparr>ctx := C_TAG, tagtype := ty\<rparr>, stack_old := st\<rparr>, Next)"
      "st = None \<and> t = [] \<or> st = Some (pos r) \<and> t = [?c]" for ty t st
  proof (rule matches_ok [OF assms(2) that(1)])
    have "prs_rel ((prs r)\<lparr>ctx := C_TAG, tagtype := ty\<rparr>) t (l\<lparr>l_type := ty, l_text := t, l_ctx := C_TAG\<rparr>)"
      using p b empty n that(2) by (auto simp: prs_rel_def place_rel_def same_fields_def reading_def)
    then show "sim cd buf (next_char ?c (r\<lparr>prs := (prs r)\<lparr>ctx := C_TAG, tagtype := ty\<rparr>, stack_old := st\<rparr>)) u
        (count_char ?c (l\<lparr>l_type := ty, l_text := t, l_ctx := C_TAG\<rparr>))"
      using that(2) assms(2) i u take_more [of "pos r" "pos r" buf]
      by (intro sim_next) (auto simp: pending_def usr_rel_def kinds)
  qed simp
  have quiet: "matches alloc h cd buf r (ok u (l\<lparr>l_ctx := k\<rparr>))"
    if "sax_step alloc h buf ?c r = Some (r\<lparr>prs := (prs r)\<lparr>ctx := k\<rparr>\<rparr>, Next)" "plain k" "k \<noteq> C_ENTITY" "\<not> delivers k" for k
  proof (rule matches_ok [OF assms(2) that(1)])
    have "prs_rel ((prs r)\<lparr>ctx := k\<rparr>) [] (l\<lparr>l_ctx := k\<rparr>)"
      using p b that(2,3) by (auto simp: prs_rel_def plain_place same_fields_def)
    then show "sim cd buf (next_char ?c (r\<lparr>prs := (prs r)\<lparr>ctx := k\<rparr>\<rparr>)) u (count_char ?c (l\<lparr>l_ctx := k\<rparr>))"
      using that(4) so assms(2) i u by (intro sim_next) (auto simp: pending_none usr_rel_def)
  qed simp
  have same: "r\<lparr>prs := p, stack_old := None\<rparr> = r\<lparr>prs := p\<rparr>" for p using so by (cases r) simp
  consider "?c = CHR ''/''" | "?c = CHR ''?''" | "?c = CHR ''!''" | "?c \<noteq> CHR ''/''" "?c \<noteq> CHR ''?''" "?c \<noteq> CHR ''!''" by blast
  then show ?thesis
  proof cases
    case 1
    then show ?thesis using tag [where ty = IKS_CLOSE and st = None and t = "[]"] s k assms(3)
      by (simp add: plain_steps sax_TAG_START_def Let_def same)
  next
    case 2
    then show ?thesis using quiet [of C_PI] s k assms(3)
      by (simp add: plain_steps sax_TAG_START_def Let_def kinds)
  next
    case 3
    then show ?thesis using quiet [of C_MARKUP] s k assms(3)
      by (simp add: plain_steps sax_TAG_START_def Let_def kinds)
  next
    case 4
    then show ?thesis using tag [where ty = IKS_OPEN and st = "Some (pos r)" and t = "[?c]"] s k assms(3)
      by (simp add: plain_steps sax_TAG_START_def Let_def)
  qed
qed

end

section \<open>Inside tags\<close>

lemma tag_facts:
  assumes "sim cd buf r u l" and "\<not> delivers (l_ctx l)"
  shows "u = usr r" "old r \<le> pos r" "\<And>so. stack_old r = Some so \<Longrightarrow> so \<le> pos r" "ctx (prs r) = l_ctx l"
    "prs_rel (prs r) (pending buf r) l" "pos r \<le> length buf"
  using assms by (auto simp: sim_def usr_rel_def loc_rel_def prs_rel_def same_fields_def)

lemma tag_next:
  assumes "prs_rel (prs r) (pending buf (r\<lparr>pos := Suc (pos r)\<rparr>)) l" and "pos r < length buf" and "old r \<le> pos r"
    and "\<And>so. stack_old r = Some so \<Longrightarrow> so \<le> pos r" and "stack_old r \<noteq> None \<Longrightarrow> may_pend (l_ctx l)"
    and "\<not> delivers (l_ctx l)"
  shows "sim cd buf (next_char c r) (usr r) (count_char c l)"
proof -
  have "ctx (prs r) = l_ctx l" using assms(1) by (simp add: prs_rel_def same_fields_def)
  then show ?thesis using assms by (intro sim_next) (auto simp: usr_rel_def)
qed

lemma tag_simI:
  assumes "prs_rel (prs r) (pending buf r) l" and "pos r \<le> length buf" and "old r \<le> pos r"
    and "\<And>so. stack_old r = Some so \<Longrightarrow> so \<le> pos r" and "stack_old r \<noteq> None \<Longrightarrow> may_pend (l_ctx l)"
    and "\<not> delivers (l_ctx l)"
  shows "sim cd buf r (usr r) l"
  using assms by (auto simp: sim_def usr_rel_def loc_rel_def prs_rel_def same_fields_def)

lemma stackedD:
  assumes "stacked p d p'"
  shows "block_ok p'" "data p' = d" "ctx p' = ctx p" "oldctx p' = oldctx p" "tagtype p' = tagtype p" "tag_at p' = tag_at p"
    "attmax p' = attmax p" "attcur p' = attcur p" "atts p' = atts p" "entity p' = entity p"
    "nr_bytes p' = nr_bytes p" "nr_lines p' = nr_lines p" "uni_max p' = uni_max p" "uni_len p' = uni_len p"
  using assms by (auto simp: stacked_def)

lemma close_ok:
  assumes "roomy alloc" and "block_ok (prs r)" and "\<And>so. stack_old r = Some so \<Longrightarrow> so \<le> pos r" and "pos r \<le> length buf"
  shows "\<exists>p'. (\<forall>f. close_string alloc buf f r = f (r\<lparr>prs := p', stack_old := None\<rparr>))
    \<and> stacked (prs r) (data (prs r) @ pending buf r @ [NUL]) p'"
proof -
  have "\<exists>p1. (case stack_old r of None \<Rightarrow> Some (prs r, True)
        | Some so \<Rightarrow> do { s \<leftarrow> read_at so (pos r - so) buf; STACK_PUSH alloc s (prs r) }) = Some (p1, True)
      \<and> stacked (prs r) (data (prs r) @ pending buf r) p1"
  proof (cases "stack_old r")
    case None
    then show ?thesis using assms(2)
      by (auto simp: pending_def stacked_def intro!: exI [of _ "stack (prs r)"] exI [of _ "stack_pos (prs r)"])
  next
    case (Some so)
    then show ?thesis using push_ok [OF assms(1,2), of "pending buf r"] assms(3,4)
      by (simp add: pending_def read_at_def)
  qed
  then obtain p1 where p1: "(case stack_old r of None \<Rightarrow> Some (prs r, True)
        | Some so \<Rightarrow> do { s \<leftarrow> read_at so (pos r - so) buf; STACK_PUSH alloc s (prs r) }) = Some (p1, True)"
      "stacked (prs r) (data (prs r) @ pending buf r) p1" by blast
  then obtain p2 where p2: "STACK_PUSH_END alloc p1 = Some (p2, True)" "stacked p1 (data p1 @ [NUL]) p2"
    using push_end_ok [OF assms(1) stackedD(1) [OF p1(2)]] by blast
  have "data p1 = data (prs r) @ pending buf r" using p1(2) by (simp add: stacked_def)
  then have "stacked (prs r) (data (prs r) @ pending buf r @ [NUL]) p2"
    using stacked_trans [OF p1(2) p2(2)] by simp
  moreover have "\<forall>f. close_string alloc buf f r = f (r\<lparr>prs := p2, stack_old := None\<rparr>)"
    using p1(1) p2(1) by (simp add: close_string_def Let_def)
  ultimately show ?thesis by blast
qed

lemma stacked_keeps:
  assumes "stacked p (data p @ d) p'"
  shows "atts_rel p l \<Longrightarrow> atts_rel p' l" "named p l \<Longrightarrow> named p' l" "att_slot p' i v = att_slot p i v"
    "same_fields p' l = same_fields p l"
  using stackedD [OF assms] by (auto simp: atts_rel_def named_def att_slot_def same_fields_def pairs_mono held_mono split: option.splits)

text \<open>The end of a string that is being read.\<close>

lemma reading_closed:
  assumes "reading p t i s" and "block_ok p" and "stacked p (data p @ t @ [NUL]) p'"
  shows "held (data p') i s"
  using assms held_closed [of i "data p" t s] stackedD(2) [OF assms(3)] length_data [OF assms(2)]
  by (simp add: reading_def)

lemma lx_tag_end_ctx:
  "matches alloc h cd buf r (lx_tag_end tag c u (l\<lparr>l_ctx := k\<rparr>)) = matches alloc h cd buf r (lx_tag_end tag c u l)"
proof (cases "c \<noteq> CHR ''>''")
  case True
  then show ?thesis by (simp add: lx_tag_end_def bad_def matches_def)
next
  case False
  then show ?thesis
    by (cases "tag u (l_name l) (l_atts l) (l_type l)") (auto simp: lx_tag_end_def matches_def)
qed

context piecewise_hooks
begin

lemma step_TAG_END:
  assumes "sim cd buf r u l" and "pos r < length buf" and "l_ctx l = C_TAG_END"
    and s: "sax_step alloc h buf (buf ! pos r) r = sax_switch alloc h buf (buf ! pos r) r"
  shows "matches alloc h cd buf r (lx_tag_end tag (buf ! pos r) u l)"
proof (cases "buf ! pos r = CHR ''>''")
  case False
  then show ?thesis using matches_bad [OF assms(2)] assms(3) s sim_ctx [OF assms(1)]
    by (simp add: lx_tag_end_def sax_switch_def sax_TAG_END_def fail_with_def Let_def)
next
  case True
  have f: "u = usr r" "prs_rel (prs r) (pending buf r) l" using tag_facts [OF assms(1)] assms(3) by (simp_all add: delivers_def)
  then have a: "named (prs r) l" "atts_rel (prs r) l" "l_atts l = [] \<or> att_slot (prs r) (attcur (prs r)) None"
    using assms(3) by (simp_all add: prs_rel_def place_rel_def)
  obtain b where b: "stack (prs r) = Some b" "stack_pos (prs r) \<le> length b" "data (prs r) = take (stack_pos (prs r)) b"
    using a(1) by (auto simp: named_def block_ok_def data_def)
  have name: "c_str_at (tag_at (prs r)) b = Some (l_name l)"
    using a(1) b(3) by (auto simp: named_def intro: held_read)
  have tmp: "(if attcur (prs r) = 0 then Some [] else do { as \<leftarrow> atts (prs r); read_atts b as }) = Some (l_atts l)"
  proof (cases "l_atts l = []")
    case True
    then show ?thesis using a(2) by (simp add: atts_rel_def)
  next
    case False
    then obtain as where as: "atts (prs r) = Some as" "attcur (prs r) < length as" "as ! attcur (prs r) = None"
      using a(3) by (auto simp: att_slot_def)
    then have p: "pairs (take (stack_pos (prs r)) b) (take (attcur (prs r)) as) (l_atts l)" "attcur (prs r) \<noteq> 0"
      using a(2) False by (auto simp: atts_rel_def b(3))
    have "as = take (attcur (prs r)) as @ None # drop (Suc (attcur (prs r))) as"
      using id_take_nth_drop [OF as(2)] as(3) by simp
    then have "read_atts b as = Some (l_atts l)" using read_pairs [OF p(1)] by metis
    then show ?thesis using as(1) p(2) by simp
  qed
  have ty: "tagtype (prs r) = l_type l" using f(2) by (simp add: prs_rel_def same_fields_def)
  have t: "sax_step alloc h buf (buf ! pos r) r = call_hook (tag u (l_name l) (l_atts l) (l_type l))
      (\<lambda>r. Some ((upd_prs (\<lambda>p. p\<lparr>stack_pos := 0, attcur := 0, attflag := False, ctx := C_CDATA\<rparr>) r)
        \<lparr>stack_old := None, old := pos r + 1\<rparr>, Next)) r"
    using s sim_ctx [OF assms(1)] assms(3) True b(1) name tmp ty f(1)
    by (simp add: sax_switch_def sax_TAG_END_def tag_hook Let_def)
  show ?thesis
  proof (cases "tag u (l_name l) (l_atts l) (l_type l)")
    case None
    then show ?thesis using t matches_undefined [OF assms(2)] True by (simp add: lx_tag_end_def call_hook_def)
  next
    case (Some x)
    obtain e v where x: "x = (e, v)" by (cases x)
    show ?thesis
    proof (cases "e = IKS_OK")
      case False
      then show ?thesis using t Some x matches_fail [OF assms(2)] True by (simp add: lx_tag_end_def call_hook_def fail_with_def)
    next
      case e: True
      let ?r = "r\<lparr>usr := v, prs := (prs r)\<lparr>stack_pos := 0, attcur := 0, attflag := False, ctx := C_CDATA\<rparr>, stack_old := None, old := Suc (pos r)\<rparr>"
      have "prs_rel (prs ?r) [] (l\<lparr>l_ctx := C_CDATA, l_atts := []\<rparr>)"
        using f(2) b(1) a(2) by (auto simp: prs_rel_def same_fields_def atts_rel_def plain_place kinds block_ok_def split: option.splits)
      then have "sim cd buf (next_char (buf ! pos r) ?r) v (count_char (buf ! pos r) (l\<lparr>l_ctx := C_CDATA, l_atts := []\<rparr>))"
        using assms(2) by (intro sim_next) (simp_all add: pending_none usr_rel_def)
      then show ?thesis using t Some x e True matches_next [OF assms(2)]
        by (simp add: lx_tag_end_def call_hook_def)
    qed
  qed
qed

end

end
