(* ===== verification/SaxRefine.thy ===== *)
theory SaxRefine
  imports SaxSim
begin

text \<open>
  The rest of the agreement of theory \<open>SaxSim\<close>: the cases inside a tag, longer characters, a
  whole chunk.  It follows that it does not matter how a text is cut into chunks.
\<close>

section \<open>Names and values\<close>

lemma start_old_sel [simp]:
  "prs (start_old r) = prs r" "usr (start_old r) = usr r" "pos (start_old r) = pos r" "old (start_old r) = old r"
  "stack_old (start_old r) \<noteq> None"
  by (simp_all add: start_old_def)

lemma pending_prs [simp]: "pending buf (r\<lparr>prs := p\<rparr>) = pending buf r"
  by (simp add: pending_def split: option.split)

lemma start_old_le: "stack_old (start_old r) = Some so \<Longrightarrow> (\<And>so. stack_old r = Some so \<Longrightarrow> so \<le> pos r) \<Longrightarrow> so \<le> pos r"
  by (auto simp: start_old_def split: if_splits)

text \<open>A character is added to the name or value that is being read.\<close>

lemma collect_prs:
  assumes "prs_rel p t l" and "collects (l_ctx l)" and "c \<noteq> NUL"
  shows "prs_rel p (t @ [c]) (l\<lparr>l_text := l_text l @ [c]\<rparr>)"
proof -
  have r: "reading p (t @ [c]) i (s @ [c])" if "reading p t i s" for i s
    using that assms(3) by (auto simp: reading_def)
  have n: "named p (l\<lparr>l_text := l_text l @ [c]\<rparr>) = named p l" by (simp add: named_def)
  show ?thesis
    using assms(1,2) by (auto simp: prs_rel_def collects_def place_rel_def same_fields_def n) (blast intro: r)+
qed

lemma collect_sim:
  assumes "sim cd buf r u l" and "pos r < length buf" and "collects (l_ctx l)" and "buf ! pos r \<noteq> NUL"
  shows "sim cd buf (next_char (buf ! pos r) (start_old r)) u (count_char (buf ! pos r) (l\<lparr>l_text := l_text l @ [buf ! pos r]\<rparr>))"
proof -
  have d: "\<not> delivers (l_ctx l)" "may_pend (l_ctx l)" using assms(3) by (auto simp: kinds)
  note f = tag_facts [OF assms(1) d(1)]
  have "loc_rel buf r" using assms(1) by (simp add: sim_def)
  then have "pending buf ((start_old r)\<lparr>pos := Suc (pos r)\<rparr>) = pending buf r @ [buf ! pos r]"
    using pending_more assms(2) by blast
  then have "prs_rel (prs (start_old r)) (pending buf ((start_old r)\<lparr>pos := Suc (pos (start_old r))\<rparr>))
      (l\<lparr>l_text := l_text l @ [buf ! pos r]\<rparr>)"
    using collect_prs [OF f(5) assms(3,4)] by simp
  then have "sim cd buf (next_char (buf ! pos r) (start_old r)) (usr (start_old r))
      (count_char (buf ! pos r) (l\<lparr>l_text := l_text l @ [buf ! pos r]\<rparr>))"
    using assms(2) f(2,3) d by (intro tag_next) (auto dest: start_old_le)
  then show ?thesis using f(1) by simp
qed

lemma collect_ok:
  assumes "sim cd buf r u l" and "pos r < length buf" and "collects (l_ctx l)" and "buf ! pos r \<noteq> NUL"
    and "sax_step alloc h buf (buf ! pos r) r = Some (start_old r, Next)"
  shows "matches alloc h cd buf r (ok u (l\<lparr>l_text := l_text l @ [buf ! pos r]\<rparr>))"
  by (rule matches_ok [OF assms(2,5)]) (simp_all add: collect_sim [OF assms(1-4)])

context piecewise_hooks
begin

lemma tag_end_in:
  assumes "sim cd buf r u (l\<lparr>l_ctx := C_TAG_END\<rparr>)" and "pos r < length buf"
    and "sax_step alloc h buf (buf ! pos r) r = sax_switch alloc h buf (buf ! pos r) r"
  shows "matches alloc h cd buf r (lx_tag_end tag (buf ! pos r) u l)"
  using step_TAG_END [OF assms(1,2) _ assms(3)] by (simp add: lx_tag_end_ctx)

end

text \<open>When the round that is repeated reaches the switch again.\<close>

definition plain_char :: "char \<Rightarrow> bool" where
  "plain_char c \<longleftrightarrow> byte_of c \<noteq> 0 \<and> byte_of c \<noteq> 0xFE \<and> byte_of c \<noteq> 0xFF \<and> byte_of c AND 0x80 = 0"

lemma plain_char_step: "plain_char c \<Longrightarrow> uni_max (prs r) = 0 \<Longrightarrow> sax_step alloc h buf c r = sax_switch alloc h buf c r"
  by (simp add: plain_char_def sax_step_def Let_def)

lemma plain_char_not_nul: "plain_char c \<Longrightarrow> c \<noteq> NUL"
  by (auto simp: plain_char_def byte_of_def)

context piecewise_hooks
begin

lemma step_TAG:
  assumes sim: "sim cd buf r u l" and "pos r < length buf" and "l_ctx l = C_TAG" and "roomy alloc"
    and c: "plain_char (buf ! pos r)" and m: "l_umax l = 0"
  shows "matches alloc h cd buf r (lx_tag tag (buf ! pos r) u l)"
proof -
  let ?c = "buf ! pos r"
  have d: "\<not> delivers (l_ctx l)" using assms(3) by (simp add: delivers_def)
  note f = tag_facts [OF sim d]
  have k: "same_fields (prs r) l" "atts_rel (prs r) l" "l_atts l = []" "block_ok (prs r)"
      "reading (prs r) (pending buf r) (tag_at (prs r)) (l_text l)"
    using f(5) assms(3) by (simp_all add: prs_rel_def place_rel_def)
  have um: "uni_max (prs r) = 0" using k(1) m by (simp add: same_fields_def)
  have s: "sax_step alloc h buf ?c r = sax_TAG alloc buf ?c r"
    using plain_char_step [OF c um] f(4) assms(3) by (simp add: sax_switch_def)
  have close: "\<exists>p'. (\<forall>g. close_string alloc buf g (r\<lparr>prs := q\<rparr>) = g (r\<lparr>prs := p', stack_old := None\<rparr>))
      \<and> stacked q (data q @ pending buf r @ [NUL]) p'"
    if "q = (prs r)\<lparr>ctx := k, oldctx := k', tagtype := ty\<rparr>" for q k k' ty
    using close_ok [OF assms(4), where r = "r\<lparr>prs := q\<rparr>" and buf = buf] k(4) f(3,6) that by simp
  have rel: "prs_rel p' [] (l\<lparr>l_name := l_text l, l_ctx := k, l_old := k', l_type := ty\<rparr>)"
    if "stacked q (data q @ pending buf r @ [NUL]) p'" "q = (prs r)\<lparr>ctx := k, oldctx := k', tagtype := ty\<rparr>"
      "k = C_TAG_END \<or> k = C_WHITESPACE \<and> (k' = C_TAG_END \<or> k' = C_ATTRIBUTE)" for p' q k k' ty
  proof -
    have "held (data p') (tag_at (prs r)) (l_text l)"
      using reading_closed [OF _ _ that(1)] k(4,5) that(2) by simp
    moreover have "atts_rel p' l" using stacked_keeps(1) [OF that(1)] k(2) that(2) by simp
    ultimately show ?thesis
      using stackedD [OF that(1)] k(1,3) that(2,3) by (auto simp: prs_rel_def place_rel_def same_fields_def named_def)
  qed
  have after: "matches alloc h cd buf r (ok u (l\<lparr>l_name := l_text l, l_ctx := k, l_old := k', l_type := ty\<rparr>))"
    if st: "sax_step alloc h buf ?c r = close_string alloc buf (\<lambda>r. Some (r, Next)) (r\<lparr>prs := q\<rparr>)"
      and q: "q = (prs r)\<lparr>ctx := k, oldctx := k', tagtype := ty\<rparr>"
      and kk: "k = C_TAG_END \<or> k = C_WHITESPACE \<and> (k' = C_TAG_END \<or> k' = C_ATTRIBUTE)" for q k k' ty
  proof -
    obtain p' where p': "\<And>g. close_string alloc buf g (r\<lparr>prs := q\<rparr>) = g (r\<lparr>prs := p', stack_old := None\<rparr>)"
        "stacked q (data q @ pending buf r @ [NUL]) p'" using close [OF q] by blast
    show ?thesis
    proof (rule matches_ok [OF assms(2)])
      show "sax_step alloc h buf ?c r = Some (r\<lparr>prs := p', stack_old := None\<rparr>, Next)" using st p'(1) by simp
      have "sim cd buf (next_char ?c (r\<lparr>prs := p', stack_old := None\<rparr>)) (usr (r\<lparr>prs := p', stack_old := None\<rparr>))
          (count_char ?c (l\<lparr>l_name := l_text l, l_ctx := k, l_old := k', l_type := ty\<rparr>))"
        using rel [OF p'(2) q kk] assms(2) f(2) kk by (intro tag_next) (auto simp: pending_none delivers_def)
      then show "sim cd buf (next_char ?c (r\<lparr>prs := p', stack_old := None\<rparr>)) u
          (count_char ?c (l\<lparr>l_name := l_text l, l_ctx := k, l_old := k', l_type := ty\<rparr>))" using f(1) by simp
    qed simp
  qed
  have at_end: "matches alloc h cd buf r (lx_tag_end tag ?c u (l\<lparr>l_name := l_text l\<rparr>))"
    if st: "sax_step alloc h buf ?c r = close_string alloc buf (\<lambda>r. Some (r, Again)) (r\<lparr>prs := (prs r)\<lparr>ctx := C_TAG_END\<rparr>\<rparr>)"
  proof -
    let ?q = "(prs r)\<lparr>ctx := C_TAG_END, oldctx := oldctx (prs r), tagtype := tagtype (prs r)\<rparr>"
    have q: "(prs r)\<lparr>ctx := C_TAG_END\<rparr> = ?q" by (cases "prs r") simp
    have l: "l\<lparr>l_name := l_text l, l_ctx := C_TAG_END, l_old := oldctx (prs r), l_type := tagtype (prs r)\<rparr>
        = l\<lparr>l_name := l_text l, l_ctx := C_TAG_END\<rparr>" using k(1) by (cases l) (simp add: same_fields_def)
    obtain p' where p': "\<And>g. close_string alloc buf g (r\<lparr>prs := ?q\<rparr>) = g (r\<lparr>prs := p', stack_old := None\<rparr>)"
        "stacked ?q (data ?q @ pending buf r @ [NUL]) p'" using close [OF refl] by blast
    let ?r = "r\<lparr>prs := p', stack_old := None\<rparr>"
    have "prs_rel p' [] (l\<lparr>l_name := l_text l, l_ctx := C_TAG_END\<rparr>)" using rel [OF p'(2) refl] l by simp
    moreover from this have um': "uni_max p' = 0" using m by (simp add: prs_rel_def same_fields_def)
    ultimately have "sim cd buf ?r (usr ?r) (l\<lparr>l_name := l_text l, l_ctx := C_TAG_END\<rparr>)"
      using assms(2) f(2) by (intro tag_simI) (auto simp: pending_none delivers_def)
    then have "matches alloc h cd buf ?r (lx_tag_end tag ?c u (l\<lparr>l_name := l_text l\<rparr>))"
      using tag_end_in [of buf ?r u "l\<lparr>l_name := l_text l\<rparr>" alloc] plain_char_step [OF c, of ?r] um' assms(2) f(1) by simp
    then show ?thesis using st p'(1) q by (intro matches_again [OF assms(2)]) auto
  qed
  have ty: "tagtype (prs r) = l_type l" "oldctx (prs r) = l_old l" using k(1) by (simp_all add: same_fields_def)
  consider "is_whitespace ?c" | "\<not> is_whitespace ?c" "?c = CHR ''/''" "l_type l = IKS_CLOSE"
    | "\<not> is_whitespace ?c" "?c = CHR ''/''" "l_type l \<noteq> IKS_CLOSE" | "\<not> is_whitespace ?c" "?c = CHR ''>''"
    | "\<not> is_whitespace ?c" "?c \<noteq> CHR ''/''" "?c \<noteq> CHR ''>''" by blast
  then show ?thesis
  proof cases
    case 1
    define k' where "k' = (if l_type l = IKS_CLOSE then C_TAG_END else C_ATTRIBUTE)"
    have "(prs r)\<lparr>ctx := C_WHITESPACE, oldctx := k'\<rparr> = (prs r)\<lparr>ctx := C_WHITESPACE, oldctx := k', tagtype := l_type l\<rparr>"
      using ty by (cases "prs r") simp
    moreover have "l\<lparr>l_name := l_text l, l_ctx := C_WHITESPACE, l_old := k', l_type := l_type l\<rparr>
        = l\<lparr>l_name := l_text l, l_ctx := C_WHITESPACE, l_old := k'\<rparr>" by (cases l) simp
    ultimately show ?thesis
      using after [where q = "(prs r)\<lparr>ctx := C_WHITESPACE, oldctx := k'\<rparr>" and k = C_WHITESPACE and k' = k' and ty = "l_type l"] s 1 ty
      by (auto simp: lx_tag_def sax_TAG_def k'_def)
  next
    case 2
    then show ?thesis using matches_bad [OF assms(2)] s ty by (simp add: lx_tag_def sax_TAG_def fail_with_def)
  next
    case 3
    have q: "(prs r)\<lparr>tagtype := IKS_SINGLE, ctx := C_TAG_END\<rparr> = (prs r)\<lparr>ctx := C_TAG_END, oldctx := l_old l, tagtype := IKS_SINGLE\<rparr>"
      using ty by (cases "prs r") simp
    show ?thesis
      using after [OF _ q] s 3 ty
      by (simp add: lx_tag_def sax_TAG_def)
  next
    case 4
    then show ?thesis using at_end s by (simp add: lx_tag_def sax_TAG_def)
  next
    case 5
    then show ?thesis using collect_ok [OF sim assms(2), of alloc] s assms(3) plain_char_not_nul [OF c]
      by (simp add: lx_tag_def sax_TAG_def collects_def)
  qed
qed

end

section \<open>Attributes\<close>

lemma set_att_ok: "atts p = Some as \<Longrightarrow> i < length as \<Longrightarrow> set_att i v p = Some (p\<lparr>atts := Some (as[i := v])\<rparr>)"
  by (simp add: set_att_def write_at_def upd_conv_take_nth_drop)

lemma set_att_out: "atts p = Some as \<Longrightarrow> length as \<le> i \<Longrightarrow> set_att i v p = None"
  by (simp add: set_att_def write_at_def)

lemma named_upd [simp]:
  "named (p\<lparr>ctx := k\<rparr>) l = named p l" "named (p\<lparr>oldctx := k\<rparr>) l = named p l" "named (p\<lparr>tagtype := ty\<rparr>) l = named p l"
  "named (p\<lparr>atts := as\<rparr>) l = named p l" "named (p\<lparr>attcur := n\<rparr>) l = named p l" "named (p\<lparr>attmax := n\<rparr>) l = named p l"
  "named (p\<lparr>attflag := b\<rparr>) l = named p l"
  "named p (l\<lparr>l_ctx := k\<rparr>) = named p l" "named p (l\<lparr>l_old := k\<rparr>) = named p l" "named p (l\<lparr>l_type := ty\<rparr>) = named p l"
  "named p (l\<lparr>l_atts := a\<rparr>) = named p l" "named p (l\<lparr>l_key := s\<rparr>) = named p l" "named p (l\<lparr>l_text := s\<rparr>) = named p l"
  "named p (l\<lparr>l_max := n\<rparr>) = named p l"
  by (simp_all add: named_def)

lemma atts_relD:
  assumes "atts_rel p l" and "length (l_atts l) < l_max l"
  obtains as where "atts p = Some as" and "length as = 2 * l_max l" and "attcur p = 2 * length (l_atts l)"
    and "attcur p + 1 < length as" and "pairs (data p) (take (attcur p) as) (l_atts l)"
proof (cases "atts p")
  case None
  then show ?thesis using assms by (simp add: atts_rel_def)
next
  case (Some as)
  then show ?thesis using assms by (intro that [of as]) (auto simp: atts_rel_def)
qed

text \<open>The free cells of the array may change.\<close>

lemma atts_rel_set:
  assumes "atts_rel p l" and "atts p = Some as" and "attcur p \<le> i"
  shows "atts_rel (p\<lparr>atts := Some (as[i := v])\<rparr>) l"
  using assms by (auto simp: atts_rel_def)

lemma grow_ok:
  assumes "roomy alloc" and "atts_rel p l"
  shows "\<exists>as n. grow_atts alloc p = Some (p\<lparr>attmax := n, atts := Some as\<rparr>, True)
    \<and> atts_rel (p\<lparr>attmax := n, atts := Some as\<rparr>) (l\<lparr>l_max := grown l\<rparr>) \<and> attcur p < length as
    \<and> length (l_atts l) < grown l"
proof (cases "atts p")
  case None
  then have l: "l_max l = 0" "l_atts l = []" "attcur p = 0" "attmax p = 0" using assms(2) by (auto simp: atts_rel_def)
  obtain b where "alloc (8 * 2 * 12) = Some b" using assms(1) by (auto simp: roomy_def)
  moreover have "p\<lparr>attmax := 12, atts := Some (replicate 24 None), attcur := 0\<rparr>
      = p\<lparr>attmax := 12, atts := Some (replicate 24 None)\<rparr>" using l(3) by (cases p) simp
  ultimately have "grow_atts alloc p = Some (p\<lparr>attmax := 12, atts := Some (replicate 24 None)\<rparr>, True)"
    using None by (simp add: grow_atts_def Let_def)
  then show ?thesis using l
    by (intro exI [of _ "replicate 24 None"] exI [of _ 12]) (simp add: atts_rel_def grown_def)
next
  case (Some as)
  then have l: "length as = 2 * l_max l" "attmax p = l_max l" "attcur p = 2 * length (l_atts l)"
      "length (l_atts l) \<le> l_max l" "pairs (data p) (take (attcur p) as) (l_atts l)" "0 < l_max l"
    using assms(2) by (auto simp: atts_rel_def)
  show ?thesis
  proof (cases "l_max l \<le> length (l_atts l)")
    case True
    then have e: "attcur p = length as" "attcur p = 2 * l_max l" using l by simp_all
    obtain b where "alloc (8 * 2 * (l_max l + 12)) = Some b" using assms(1) by (auto simp: roomy_def)
    then have "grow_atts alloc p = Some (p\<lparr>attmax := l_max l + 12, atts := Some (as @ replicate 24 None)\<rparr>, True)"
      using Some e l by (simp add: grow_atts_def Let_def read_at_def write_at_def)
    then show ?thesis using l e True
      by (intro exI [of _ "as @ replicate 24 None"] exI [of _ "l_max l + 12"]) (simp add: atts_rel_def grown_def)
  next
    case False
    then have g: "grow_atts alloc p = Some (p, True)" using Some l by (simp add: grow_atts_def)
    have p: "p\<lparr>attmax := attmax p, atts := Some as\<rparr> = p" using Some by (cases p) simp
    have r: "l\<lparr>l_max := grown l\<rparr> = l" using False by (simp add: grown_def)
    have "attcur p < length as" "length (l_atts l) < grown l" using l False by (simp_all add: grown_def)
    then show ?thesis using assms(2) g unfolding r by (intro exI [of _ as] exI [of _ "attmax p"]) (simp only: p simp_thms)
  qed
qed

text \<open>What a round knows when it looks at the first character after the space in a tag.\<close>

definition at_atts :: "string \<Rightarrow> 'u run \<Rightarrow> 'u \<Rightarrow> lexer \<Rightarrow> bool" where
  "at_atts buf r u l \<longleftrightarrow> same_fields ((prs r)\<lparr>ctx := l_ctx l\<rparr>) l \<and> atts_rel (prs r) l \<and> named (prs r) l
     \<and> u = usr r \<and> old r \<le> pos r \<and> (\<forall>so. stack_old r = Some so \<longrightarrow> so \<le> pos r) \<and> pos r < length buf \<and> l_umax l = 0
     \<and> plain_char (buf ! pos r)"

lemma at_atts_switch:
  "at_atts buf r u l \<Longrightarrow> sax_step alloc h buf (buf ! pos r) r = sax_switch alloc h buf (buf ! pos r) r"
  by (rule plain_char_step) (simp_all add: at_atts_def same_fields_def)

context piecewise_hooks
begin

lemma to_tag_end:
  assumes "at_atts buf r u l" and "l_atts l = [] \<or> att_slot (prs r) (attcur (prs r)) None"
    and "ctx (prs r) = C_TAG_END"
  shows "matches alloc h cd buf r (lx_tag_end tag (buf ! pos r) u l)"
proof (rule tag_end_in)
  have k: "block_ok (prs r)" using assms(1) by (simp add: at_atts_def named_def)
  then have "prs_rel (prs r) t (l\<lparr>l_ctx := C_TAG_END\<rparr>)" for t
    using assms by (auto simp: at_atts_def prs_rel_def place_rel_def same_fields_def)
  then have "sim cd buf r (usr r) (l\<lparr>l_ctx := C_TAG_END\<rparr>)"
    using assms(1) by (intro tag_simI) (auto simp: at_atts_def kinds)
  then show "sim cd buf r u (l\<lparr>l_ctx := C_TAG_END\<rparr>)" using assms(1) by (simp add: at_atts_def)
qed (use assms(1) at_atts_switch [OF assms(1)] in \<open>simp_all add: at_atts_def\<close>)

lemma in_attribute:
  assumes a: "at_atts buf r u l" and k: "ctx (prs r) = C_ATTRIBUTE" and "roomy alloc"
    and e: "buf ! pos r = CHR ''/'' \<or> buf ! pos r = CHR ''>'' \<Longrightarrow> l_atts l = []"
  shows "matches alloc h cd buf r (lx_attribute tag (buf ! pos r) u l)"
proof -
  let ?c = "buf ! pos r"
  have f: "u = usr r" "old r \<le> pos r" "\<And>so. stack_old r = Some so \<Longrightarrow> so \<le> pos r" "pos r < length buf"
      "atts_rel (prs r) l" "named (prs r) l" "same_fields ((prs r)\<lparr>ctx := l_ctx l\<rparr>) l"
    using a by (simp_all add: at_atts_def)
  then have b: "block_ok (prs r)" by (simp add: named_def)
  have s: "sax_step alloc h buf ?c r = sax_ATTRIBUTE alloc ?c r" using at_atts_switch [OF a] k by (simp add: sax_switch_def)
  consider "?c = CHR ''/''" | "?c = CHR ''>''" | "?c \<noteq> CHR ''/''" "?c \<noteq> CHR ''>''" by blast
  then show ?thesis
  proof cases
    case 1
    let ?r = "r\<lparr>prs := (prs r)\<lparr>tagtype := IKS_SINGLE, ctx := C_TAG_END\<rparr>\<rparr>"
    let ?l = "l\<lparr>l_type := IKS_SINGLE, l_ctx := C_TAG_END\<rparr>"
    have "prs_rel (prs ?r) t ?l" for t
      using f b e 1 by (simp add: prs_rel_def place_rel_def same_fields_def)
    then have "sim cd buf (next_char ?c ?r) (usr ?r) (count_char ?c ?l)"
      using f by (intro tag_next) (auto simp: kinds)
    then show ?thesis using 1 s f(1) matches_ok [OF f(4), where r' = ?r and l' = ?l]
      by (simp add: lx_attribute_def sax_ATTRIBUTE_def to_ctx_def)
  next
    case 2
    let ?r = "r\<lparr>prs := (prs r)\<lparr>ctx := C_TAG_END\<rparr>\<rparr>"
    have "at_atts buf ?r u l" using a by (simp add: at_atts_def same_fields_def)
    then have "matches alloc h cd buf ?r (lx_tag_end tag ?c u l)"
      using to_tag_end [of buf ?r u l alloc] e 2 by simp
    then show ?thesis using 2 s matches_again [OF f(4), where r' = ?r]
      by (simp add: lx_attribute_def sax_ATTRIBUTE_def again_in_def)
  next
    case 3
    obtain as n where g: "grow_atts alloc (prs r) = Some ((prs r)\<lparr>attmax := n, atts := Some as\<rparr>, True)"
        "atts_rel ((prs r)\<lparr>attmax := n, atts := Some as\<rparr>) (l\<lparr>l_max := grown l\<rparr>)" "attcur (prs r) < length as"
        "length (l_atts l) < grown l"
      using grow_ok [OF assms(3) f(5)] by blast
    define q where "q = (prs r)\<lparr>attmax := n, atts := Some as, attflag := True\<rparr>"
    define p' where "p' = q\<lparr>atts := Some (as[attcur q := Some (stack_pos q)]), ctx := C_ATTRIBUTE_1\<rparr>"
    let ?r = "r\<lparr>prs := p', stack_old := Some (pos r)\<rparr>"
    let ?l = "l\<lparr>l_max := grown l, l_text := [?c], l_ctx := C_ATTRIBUTE_1\<rparr>"
    have st: "sax_step alloc h buf ?c r = Some (?r, Next)"
      using s 3 g(1,3) set_att_ok [of q as "attcur q" "Some (stack_pos q)"]
      by (simp add: sax_ATTRIBUTE_def to_ctx_def q_def p'_def)
    have "atts_rel q (l\<lparr>l_max := grown l\<rparr>)" using g(2) by (simp add: q_def)
    then have "atts_rel p' ?l" using atts_rel_set [of q "l\<lparr>l_max := grown l\<rparr>" as "attcur q"] by (simp add: p'_def q_def)
    moreover have "same_fields p' ?l" using f(7) by (simp add: same_fields_def p'_def q_def)
    moreover have "reading p' [?c] (stack_pos q) [?c]"
      using length_data [OF b] plain_char_not_nul [of ?c] a by (simp add: reading_def p'_def q_def at_atts_def)
    moreover have "att_slot p' (attcur p') (Some (stack_pos q))" using g(3) by (simp add: att_slot_def p'_def q_def)
    moreover have "named p' ?l" "block_ok p'" using f(6) b by (simp_all add: p'_def q_def)
    ultimately have "prs_rel p' [?c] ?l" using g(4) by (auto simp: prs_rel_def place_rel_def)
    then have "sim cd buf (next_char ?c ?r) (usr ?r) (count_char ?c ?l)"
      using f(2,4) take_more [of "pos r" "pos r" buf] by (intro tag_next) (auto simp: pending_def kinds)
    then show ?thesis using 3 st f(1) matches_ok [OF f(4), where r' = ?r and l' = ?l] by (simp add: lx_attribute_def)
  qed
qed

end

context piecewise_hooks
begin

lemma in_attribute_2:
  assumes a: "at_atts buf r u l" and k: "ctx (prs r) = C_ATTRIBUTE_2" and "roomy alloc" and ne: "l_atts l \<noteq> []"
  shows "matches alloc h cd buf r (lx_attribute_2 tag (buf ! pos r) u l)"
proof -
  let ?c = "buf ! pos r"
  have f: "u = usr r" "old r \<le> pos r" "\<And>so. stack_old r = Some so \<Longrightarrow> so \<le> pos r" "pos r < length buf"
      "atts_rel (prs r) l" "named (prs r) l" "same_fields ((prs r)\<lparr>ctx := l_ctx l\<rparr>) l"
    using a by (simp_all add: at_atts_def)
  then have b: "block_ok (prs r)" by (simp add: named_def)
  have s: "sax_step alloc h buf ?c r = sax_ATTRIBUTE_2 ?c r" using at_atts_switch [OF a] k by (simp add: sax_switch_def)
  obtain as where as: "atts (prs r) = Some as" "length as = 2 * l_max l" "attcur (prs r) = 2 * length (l_atts l)"
    using f(5) ne by (auto simp: atts_rel_def split: option.splits)
  show ?thesis
  proof (cases "?c = CHR ''/'' \<or> ?c = CHR ''>''")
    case False
    let ?r = "r\<lparr>prs := (prs r)\<lparr>ctx := C_ATTRIBUTE\<rparr>\<rparr>"
    have "at_atts buf ?r u l" using a by (simp add: at_atts_def same_fields_def)
    then have "matches alloc h cd buf ?r (lx_attribute tag ?c u l)"
      using in_attribute [of buf ?r u l alloc] assms(3) False by simp
    then show ?thesis using False s matches_again [OF f(4), where r' = ?r]
      by (simp add: lx_attribute_2_def sax_ATTRIBUTE_2_def again_in_def)
  next
    case True
    show ?thesis
    proof (cases "l_max l \<le> length (l_atts l)")
      case full: True
      have "set_att (attcur q) None q = None" if "atts q = Some as" "attcur q = attcur (prs r)" for q
        using set_att_out [of q as] that as full by simp
      then show ?thesis using True s as(1) full matches_undefined [OF f(4)]
        by (auto simp: lx_attribute_2_def sax_ATTRIBUTE_2_def)
    next
      case False
      then have i: "attcur (prs r) < length as" using as by simp
      have slot: "att_slot (q\<lparr>atts := Some (as[attcur q := None])\<rparr>) (attcur q) None" if "attcur q < length as" for q
        using that by (simp add: att_slot_def)
      show ?thesis
      proof (cases "?c = CHR ''/''")
        case slash: True
        let ?p = "(prs r)\<lparr>tagtype := IKS_SINGLE, atts := Some (as[attcur (prs r) := None]), ctx := C_TAG_END\<rparr>"
        let ?r = "r\<lparr>prs := ?p\<rparr>"
        let ?l = "l\<lparr>l_type := IKS_SINGLE, l_ctx := C_TAG_END\<rparr>"
        have st: "sax_step alloc h buf ?c r = Some (?r, Next)"
          using s slash set_att_ok [of "(prs r)\<lparr>tagtype := IKS_SINGLE\<rparr>" as] as(1) i
          by (simp add: sax_ATTRIBUTE_2_def to_ctx_def)
        have "atts_rel ?p ?l" using atts_rel_set [OF f(5) as(1), of "attcur (prs r)" None]
          by (auto simp: atts_rel_def)
        then have "prs_rel (prs ?r) t ?l" for t
          using f b slot [of "(prs r)\<lparr>tagtype := IKS_SINGLE\<rparr>"] i
          by (simp add: prs_rel_def place_rel_def same_fields_def att_slot_def)
        then have "sim cd buf (next_char ?c ?r) (usr ?r) (count_char ?c ?l)"
          using f by (intro tag_next) (auto simp: kinds)
        then show ?thesis using slash False st f(1) matches_ok [OF f(4), where r' = ?r and l' = ?l]
          by (simp add: lx_attribute_2_def lx_attribute_def)
      next
        case gt: False
        then have c: "?c = CHR ''>''" using True by simp
        let ?r = "r\<lparr>prs := (prs r)\<lparr>atts := Some (as[attcur (prs r) := None]), ctx := C_TAG_END\<rparr>\<rparr>"
        have st: "sax_step alloc h buf ?c r = Some (?r, Again)"
          using s c set_att_ok [of "prs r" as] as(1) i by (simp add: sax_ATTRIBUTE_2_def again_in_def)
        have "at_atts buf ?r u l"
          using a atts_rel_set [OF f(5) as(1), of "attcur (prs r)" None] by (simp add: at_atts_def same_fields_def)
        then have "matches alloc h cd buf ?r (lx_tag_end tag ?c u l)"
          using to_tag_end [of buf ?r u l alloc] slot [of "prs r"] i by (simp add: att_slot_def)
        then show ?thesis using c False st matches_again [OF f(4), where r' = ?r]
          by (simp add: lx_attribute_2_def lx_attribute_def)
      qed
    qed
  qed
qed

lemma step_WHITESPACE:
  assumes sim: "sim cd buf r u l" and "pos r < length buf" and k: "l_ctx l = C_WHITESPACE" and "roomy alloc"
    and c: "plain_char (buf ! pos r)" and m: "l_umax l = 0"
  shows "matches alloc h cd buf r (lx_space tag (buf ! pos r) u l)"
proof -
  let ?c = "buf ! pos r"
  have d: "\<not> delivers (l_ctx l)" using k by (simp add: delivers_def)
  note f = tag_facts [OF sim d]
  have g: "same_fields (prs r) l" "atts_rel (prs r) l" "named (prs r) l"
      "(l_old l = C_TAG_END \<or> l_old l = C_ATTRIBUTE) \<and> l_atts l = [] \<or> l_old l = C_ATTRIBUTE_2 \<and> l_atts l \<noteq> []"
    using f(5) k by (auto simp: prs_rel_def place_rel_def)
  have um: "uni_max (prs r) = 0" using g(1) m by (simp add: same_fields_def)
  have s: "sax_step alloc h buf ?c r = sax_WHITESPACE ?c r"
    using plain_char_step [OF c um] f(4) k by (simp add: sax_switch_def)
  show ?thesis
  proof (cases "is_whitespace ?c")
    case True
    have "prs_rel (prs r) t l" for t using f(5) k by (simp add: prs_rel_def place_rel_def)
    then have "sim cd buf (next_char ?c r) (usr r) (count_char ?c l)"
      using f assms(2) k by (intro tag_next) (auto simp: kinds)
    then show ?thesis using True s f(1) matches_ok [OF assms(2), where r' = r and l' = l]
      by (simp add: lx_space_def sax_WHITESPACE_def)
  next
    case False
    let ?r = "r\<lparr>prs := (prs r)\<lparr>ctx := l_old l\<rparr>\<rparr>"
    have st: "sax_step alloc h buf ?c r = Some (?r, Again)"
      using s False g(1) by (simp add: sax_WHITESPACE_def again_in_def same_fields_def)
    have a: "at_atts buf ?r u l"
      using f g assms(2) c m by (simp add: at_atts_def same_fields_def)
    consider "l_old l = C_TAG_END" "l_atts l = []" | "l_old l = C_ATTRIBUTE" "l_atts l = []" | "l_old l = C_ATTRIBUTE_2" "l_atts l \<noteq> []"
      using g(4) by blast
    then have "matches alloc h cd buf ?r (lx_space tag ?c u l)"
    proof cases
      case 1
      then show ?thesis using to_tag_end [OF a, of alloc] False by (simp add: lx_space_def)
    next
      case 2
      then show ?thesis using in_attribute [OF a, of alloc] False assms(4) by (simp add: lx_space_def)
    next
      case 3
      then show ?thesis using in_attribute_2 [OF a, of alloc] False assms(4) by (simp add: lx_space_def)
    qed
    then show ?thesis by (intro matches_again [OF assms(2) st]) simp_all
  qed
qed

lemma step_ATTRIBUTE_1:
  assumes sim: "sim cd buf r u l" and "pos r < length buf" and k: "l_ctx l = C_ATTRIBUTE_1" and "roomy alloc"
    and c: "plain_char (buf ! pos r)" and m: "l_umax l = 0"
  shows "matches alloc h cd buf r (lx_switch tag cd (buf ! pos r) u l)"
proof -
  let ?c = "buf ! pos r"
  have d: "\<not> delivers (l_ctx l)" using k by (simp add: delivers_def)
  note f = tag_facts [OF sim d]
  obtain i where g: "same_fields (prs r) l" "atts_rel (prs r) l" "named (prs r) l" "length (l_atts l) < l_max l"
      "att_slot (prs r) (attcur (prs r)) (Some i)" "reading (prs r) (pending buf r) i (l_text l)"
    using f(5) k by (auto simp: prs_rel_def place_rel_def)
  have b: "block_ok (prs r)" using g(3) by (simp add: named_def)
  have um: "uni_max (prs r) = 0" using g(1) m by (simp add: same_fields_def)
  have s: "sax_step alloc h buf ?c r = sax_ATTRIBUTE_1 alloc buf ?c r"
    using plain_char_step [OF c um] f(4) k by (simp add: sax_switch_def)
  show ?thesis
  proof (cases "?c = CHR ''=''")
    case True
    obtain p' where p': "\<And>g. close_string alloc buf g r = g (r\<lparr>prs := p', stack_old := None\<rparr>)"
        "stacked (prs r) (data (prs r) @ pending buf r @ [NUL]) p'"
      using close_ok [OF assms(4) b f(3) f(6)] by blast
    let ?r = "r\<lparr>prs := p'\<lparr>ctx := C_VALUE\<rparr>, stack_old := None\<rparr>"
    let ?l = "l\<lparr>l_key := l_text l, l_ctx := C_VALUE\<rparr>"
    note t = stackedD [OF p'(2)] and q = stacked_keeps [OF p'(2)]
    have "held (data p') i (l_text l)" by (rule reading_closed [OF g(6) b p'(2)])
    then have "prs_rel (prs ?r) [] ?l"
      using t(1,3,8) q(1) [OF g(2)] q(2) [OF g(3)] q(3) [of "attcur (prs r)" "Some i"] q(4) [of l] g
      by (auto simp: prs_rel_def place_rel_def same_fields_def)
    then have "sim cd buf (next_char ?c ?r) (usr ?r) (count_char ?c ?l)"
      using f(2) assms(2) by (intro tag_next) (auto simp: kinds pending_none)
    then show ?thesis using True s f(1) k p'(1) matches_ok [OF assms(2), where r' = ?r and l' = ?l]
      by (simp add: lx_switch_def sax_ATTRIBUTE_1_def to_ctx_def)
  next
    case False
    then show ?thesis using collect_ok [OF sim assms(2), of alloc] s k plain_char_not_nul [OF c]
      by (simp add: lx_switch_def sax_ATTRIBUTE_1_def collects_def)
  qed
qed

lemma step_VALUE:
  assumes sim: "sim cd buf r u l" and "pos r < length buf" and k: "l_ctx l = C_VALUE"
    and c: "plain_char (buf ! pos r)" and m: "l_umax l = 0"
  shows "matches alloc h cd buf r (lx_switch tag cd (buf ! pos r) u l)"
proof -
  let ?c = "buf ! pos r"
  have d: "\<not> delivers (l_ctx l)" "\<not> may_pend (l_ctx l)" using k by (simp_all add: kinds)
  note f = tag_facts [OF sim d(1)] and so = sim_quiet [OF sim d(2)]
  obtain i where g: "same_fields (prs r) l" "atts_rel (prs r) l" "named (prs r) l" "length (l_atts l) < l_max l"
      "att_slot (prs r) (attcur (prs r)) (Some i)" "held (data (prs r)) i (l_key l)"
    using f(5) k by (auto simp: prs_rel_def place_rel_def)
  have b: "block_ok (prs r)" using g(3) by (simp add: named_def)
  have um: "uni_max (prs r) = 0" using g(1) m by (simp add: same_fields_def)
  obtain as where as: "atts (prs r) = Some as" "attcur (prs r) + 1 < length as"
    using g(2,4) by (rule atts_relD)
  let ?p = "(prs r)\<lparr>atts := Some (as[attcur (prs r) + 1 := Some (stack_pos (prs r))])\<rparr>"
  have s: "sax_step alloc h buf ?c r =
      (if ?c = CHR 0x27 then to_ctx C_VALUE_APOS (r\<lparr>prs := ?p\<rparr>)
       else if ?c = CHR 0x22 then to_ctx C_VALUE_QUOT (r\<lparr>prs := ?p\<rparr>) else fail_with IKS_BADXML (r\<lparr>prs := ?p\<rparr>))"
    using plain_char_step [OF c um] f(4) k set_att_ok [OF as]
    by (simp add: sax_switch_def sax_VALUE_def Let_def)
  have ok: "matches alloc h cd buf r (ok u (l\<lparr>l_text := [], l_ctx := kk\<rparr>))"
    if "sax_step alloc h buf ?c r = to_ctx kk (r\<lparr>prs := ?p\<rparr>)" "kk = C_VALUE_APOS \<or> kk = C_VALUE_QUOT" for kk
  proof -
    let ?r = "r\<lparr>prs := ?p\<lparr>ctx := kk\<rparr>\<rparr>"
    let ?l = "l\<lparr>l_text := [], l_ctx := kk\<rparr>"
    have "atts_rel (?p\<lparr>ctx := kk\<rparr>) ?l" using atts_rel_set [OF g(2) as(1)] by simp
    moreover have "att_slot (?p\<lparr>ctx := kk\<rparr>) (attcur (prs r)) (Some i)"
      using g(5) as by (simp add: att_slot_def)
    moreover have "att_slot (?p\<lparr>ctx := kk\<rparr>) (attcur (prs r) + 1) (Some (stack_pos (prs r)))"
      using as by (simp add: att_slot_def)
    moreover have "reading (?p\<lparr>ctx := kk\<rparr>) [] (stack_pos (prs r)) []"
      using length_data [OF b] by (simp add: reading_def)
    ultimately have "prs_rel (prs ?r) [] ?l"
      using g b that(2) by (auto simp: prs_rel_def place_rel_def same_fields_def simp del: att_slot_upd) blast+
    then have "sim cd buf (next_char ?c ?r) (usr ?r) (count_char ?c ?l)"
      using f(2) assms(2) so that(2) by (intro tag_next) (auto simp: kinds pending_none)
    then show ?thesis using that(1) f(1) matches_ok [OF assms(2), where r' = ?r and l' = ?l] by (simp add: to_ctx_def)
  qed
  show ?thesis
    using s ok [of C_VALUE_APOS] ok [of C_VALUE_QUOT] matches_bad [OF assms(2), of alloc h] k
    by (simp add: lx_switch_def fail_with_def split: if_splits)
qed

lemma step_VALUE_IN:
  assumes sim: "sim cd buf r u l" and "pos r < length buf" and k: "l_ctx l = C_VALUE_APOS \<or> l_ctx l = C_VALUE_QUOT" and "roomy alloc"
    and c: "plain_char (buf ! pos r)"
    and s: "sax_step alloc h buf (buf ! pos r) r = sax_VALUE_IN q alloc buf (buf ! pos r) r"
  shows "matches alloc h cd buf r (lx_value_in q (buf ! pos r) u l)"
proof -
  let ?c = "buf ! pos r"
  have d: "\<not> delivers (l_ctx l)" using k by (auto simp: delivers_def)
  note f = tag_facts [OF sim d]
  obtain i j where g: "same_fields (prs r) l" "atts_rel (prs r) l" "named (prs r) l" "length (l_atts l) < l_max l"
      "att_slot (prs r) (attcur (prs r)) (Some i)" "held (data (prs r)) i (l_key l)"
      "att_slot (prs r) (attcur (prs r) + 1) (Some j)" "reading (prs r) (pending buf r) j (l_text l)"
    using f(5) k by (auto simp: prs_rel_def place_rel_def)
  have b: "block_ok (prs r)" using g(3) by (simp add: named_def)
  show ?thesis
  proof (cases "?c = q")
    case True
    obtain p' where p': "\<And>g. close_string alloc buf g r = g (r\<lparr>prs := p', stack_old := None\<rparr>)"
        "stacked (prs r) (data (prs r) @ pending buf r @ [NUL]) p'"
      using close_ok [OF assms(4) b f(3) f(6)] by blast
    let ?p = "p'\<lparr>oldctx := C_ATTRIBUTE_2, ctx := C_WHITESPACE, attcur := attcur p' + 2\<rparr>"
    let ?r = "r\<lparr>prs := ?p, stack_old := Some (pos r)\<rparr>"
    let ?l = "l\<lparr>l_atts := l_atts l @ [(l_key l, l_text l)], l_ctx := C_WHITESPACE, l_old := C_ATTRIBUTE_2\<rparr>"
    note t = stackedD [OF p'(2)] and k' = stacked_keeps [OF p'(2)]
    have hd: "held (data p') i (l_key l)" "held (data p') j (l_text l)"
      using held_mono [OF g(6)] reading_closed [OF g(8) b p'(2)] t(2) by simp_all
    obtain as where as: "atts p' = Some as" "length as = 2 * l_max l" "attcur p' = 2 * length (l_atts l)"
        "attcur p' + 1 < length as" "pairs (data p') (take (attcur p') as) (l_atts l)"
      using k'(1) [OF g(2)] g(4) by (rule atts_relD)
    have slots: "as ! attcur p' = Some i" "as ! (attcur p' + 1) = Some j"
      using g(5,7) as(1) t(8,9) by (simp_all add: att_slot_def)
    have "take (attcur p' + 2) as = take (attcur p') as @ [Some i, Some j]"
      using as(4) slots by (simp add: take_Suc_conv_app_nth numeral_2_eq_2)
    then have "pairs (data p') (take (attcur p' + 2) as) (l_atts l @ [(l_key l, l_text l)])"
      using pairs_snoc [OF as(5) hd] by simp
    then have "atts_rel ?p ?l" using as k'(1) [OF g(2)] g(4) by (simp add: atts_rel_def)
    then have "prs_rel (prs ?r) t ?l" for t
      using k'(2) [OF g(3)] k'(4) [of l] g(1) t(1) by (simp add: prs_rel_def place_rel_def same_fields_def)
    then have "sim cd buf (next_char ?c ?r) (usr ?r) (count_char ?c ?l)"
      using f(2) assms(2) by (intro tag_next) (auto simp: kinds)
    then show ?thesis using True s f(1) p'(1) matches_ok [OF assms(2), where r' = ?r and l' = ?l]
      by (simp add: lx_value_in_def sax_VALUE_IN_def start_old_def)
  next
    case False
    have "collects (l_ctx l)" using k by (auto simp: collects_def)
    then show ?thesis using collect_ok [OF sim assms(2), of alloc] s False plain_char_not_nul [OF c]
      by (simp add: lx_value_in_def sax_VALUE_IN_def)
  qed
qed

end

section \<open>Longer characters\<close>

lemma sim_uni:
  assumes "sim cd buf r u l"
  shows "sim cd buf (r\<lparr>prs := (prs r)\<lparr>uni_max := n, uni_len := m\<rparr>\<rparr>) u (l\<lparr>l_umax := n, l_ulen := m\<rparr>)"
proof -
  let ?p = "(prs r)\<lparr>uni_max := n, uni_len := m\<rparr>" and ?l = "l\<lparr>l_umax := n, l_ulen := m\<rparr>"
  have n: "named ?p ?l = named (prs r) l" by (simp add: named_def)
  have "place_rel ?p t ?l = place_rel (prs r) t l" for t
    unfolding place_rel_def n by (cases "l_ctx l") simp_all
  then have "prs_rel (prs r) t l \<Longrightarrow> prs_rel ?p t ?l" for t by (auto simp: prs_rel_def same_fields_def)
  then show ?thesis using assms by (simp add: sim_def loc_rel_def usr_rel_def)
qed

text \<open>In a chunk the start of a longer name character is pending, so its other bytes are collected, too.\<close>

definition uni_ok :: "'u run \<Rightarrow> bool" where
  "uni_ok r \<longleftrightarrow> (uni_max (prs r) \<noteq> 0 \<and> collects (ctx (prs r)) \<longrightarrow> stack_old r \<noteq> None)"

lemma quiet_sim:
  assumes "sim cd buf r u l" and "pos r < length buf" and "\<not> collects (l_ctx l)" and "\<not> delivers (l_ctx l)"
  shows "sim cd buf (next_char c r) u (count_char c l)"
proof -
  note f = tag_facts [OF assms(1,4)]
  have so: "stack_old r \<noteq> None \<Longrightarrow> may_pend (l_ctx l)" using assms(1) f(4) by (simp add: sim_def loc_rel_def)
  have "prs_rel (prs r) (pending buf (r\<lparr>pos := Suc (pos r)\<rparr>)) l"
  proof (cases "l_ctx l = C_WHITESPACE \<or> l_ctx l = C_TAG_END")
    case True
    then show ?thesis using f(5) by (auto simp: prs_rel_def place_rel_def)
  next
    case False
    then have "stack_old r = None" using so assms(3) by (cases "stack_old r") (auto simp: may_pend_def)
    then show ?thesis using f(5) by (simp add: pending_none)
  qed
  then have "sim cd buf (next_char c r) (usr r) (count_char c l)"
    using assms(2,4) f(2,3) so by (intro tag_next) auto
  then show ?thesis using f(1) by simp
qed

context piecewise_hooks
begin

lemma deliver_sim:
  assumes "sim cd buf r u l" and "pos r < length buf" and "delivers (l_ctx l)"
  shows "sim cd buf (next_char (buf ! pos r) r) (cd u [buf ! pos r]) (count_char (buf ! pos r) l)"
proof -
  have k: "\<not> may_pend (l_ctx l)" using assms(3) by (auto simp: kinds)
  have so: "stack_old r = None" by (rule sim_quiet [OF assms(1) k])
  have "old r \<le> Suc (pos r)" "prs_rel (prs r) [] l" using assms(1) so by (simp_all add: sim_def loc_rel_def pending_none)
  then show ?thesis using usr_more [OF assms(1,2)] assms so sim_ctx [OF assms(1)]
    by (intro sim_next) (auto simp: pending_none)
qed

lemma part_sim:
  assumes "sim cd buf r u l" and "pos r < length buf" and "buf ! pos r \<noteq> NUL"
    and "l' = l\<lparr>l_umax := n, l_ulen := m\<rparr>" and "r' = r\<lparr>prs := (prs r)\<lparr>uni_max := n, uni_len := m\<rparr>\<rparr>"
    and "r'' = (if collects (ctx (prs r)) then start_old r' else r')"
  shows "\<exists>l2 u2. lx_part cd (buf ! pos r) u l' = ok u2 l2
    \<and> sim cd buf (next_char (buf ! pos r) r'') u2 (count_char (buf ! pos r) l2) \<and> uni_ok (next_char (buf ! pos r) r'')"
proof -
  have s: "sim cd buf r' u l'" using sim_uni [OF assms(1)] assms(4,5) by simp
  have k: "ctx (prs r) = l_ctx l" "l_ctx l' = l_ctx l" "ctx (prs r') = l_ctx l" "pos r' = pos r"
    using sim_ctx [OF assms(1)] assms(4,5) by simp_all
  have so: "uni_ok (next_char c r'')" for c
    using assms(6) k by (simp add: uni_ok_def next_char_def) (simp add: start_old_def)
  consider "collects (l_ctx l)" | "delivers (l_ctx l)" "\<not> collects (l_ctx l)" | "\<not> collects (l_ctx l)" "\<not> delivers (l_ctx l)" by blast
  then show ?thesis
  proof cases
    case 1
    then show ?thesis using collect_sim [OF s] assms(2,3,6) k so by (auto simp: lx_part_def)
  next
    case 2
    then show ?thesis using deliver_sim [OF s] assms(2,6) k so by (auto simp: lx_part_def delivers_def)
  next
    case 3
    then show ?thesis using quiet_sim [OF s] assms(2,6) k so by (auto simp: lx_part_def delivers_def)
  qed
qed

lemma uni_char:
  assumes sim: "sim cd buf r u l" and uni: "uni_ok r" and i: "pos r < length buf" and n: "\<not> plain_char (buf ! pos r) \<or> l_umax l \<noteq> 0"
  shows "case lx_step tag cd (buf ! pos r) u l of
      None \<Rightarrow> sax_loop alloc h buf r = None
    | Some (l', u', e) \<Rightarrow>
        if e = IKS_OK
        then \<exists>r'. sax_loop alloc h buf r = sax_loop alloc h buf r' \<and> pos r' = Suc (pos r)
          \<and> sim cd buf r' u' (count_char (buf ! pos r) l') \<and> uni_ok r'
        else \<exists>r'. sax_loop alloc h buf r = Some (r', e)"
    (is "case lx_step tag cd ?c u l of None \<Rightarrow> ?N | Some (l', u', e) \<Rightarrow> ?S l' u' e")
proof -
  define b where "b = byte_of ?c"
  have m: "uni_max (prs r) = l_umax l" "uni_len (prs r) = l_ulen l"
    using sim by (simp_all add: sim_def prs_rel_def same_fields_def)
  have fail: "?S l' u' IKS_BADXML" if "sax_step alloc h buf ?c r = Some (r', Return IKS_BADXML)" for r' l' u'
    using that i by (simp add: loop_step)
  have part: "case lx_part cd ?c u l' of None \<Rightarrow> ?N | Some (l', u', e) \<Rightarrow> ?S l' u' e"
    if "b \<noteq> 0" "l' = l\<lparr>l_umax := n, l_ulen := k\<rparr>" "r' = r\<lparr>prs := (prs r)\<lparr>uni_max := n, uni_len := k\<rparr>\<rparr>"
      "sax_step alloc h buf ?c r = Some (if collects (ctx (prs r)) then start_old r' else r', Next)" for l' n k r'
  proof -
    note t = that
    have "?c \<noteq> NUL" using t(1) by (auto simp: b_def byte_of_def)
    then obtain l2 u2 where p: "lx_part cd ?c u l' = ok u2 l2"
        "sim cd buf (next_char ?c (if collects (ctx (prs r)) then start_old r' else r')) u2 (count_char ?c l2)"
        "uni_ok (next_char ?c (if collects (ctx (prs r)) then start_old r' else r'))"
      using part_sim [OF sim i _ t(2,3) refl] by blast
    have "pos (next_char ?c (if collects (ctx (prs r)) then start_old r' else r')) = Suc (pos r)"
      using that(3) by (simp add: next_char_def)
    moreover have "sax_loop alloc h buf r = sax_loop alloc h buf (next_char ?c (if collects (ctx (prs r)) then start_old r' else r'))"
      using that(4) i by (simp add: loop_step)
    ultimately show ?thesis using p by (auto simp: ok_def)
  qed
  consider "b = 0 \<or> b = 0xFE \<or> b = 0xFF" | "\<not> (b = 0 \<or> b = 0xFE \<or> b = 0xFF)" "l_umax l \<noteq> 0" "b AND 0xC0 \<noteq> 0x80"
    | "\<not> (b = 0 \<or> b = 0xFE \<or> b = 0xFF)" "l_umax l \<noteq> 0" "b AND 0xC0 = 0x80"
    | "\<not> (b = 0 \<or> b = 0xFE \<or> b = 0xFF)" "l_umax l = 0" "b AND 0x80 \<noteq> 0" using n by (auto simp: plain_char_def b_def)
  then show ?thesis
  proof cases
    case 1
    then show ?thesis using fail by (auto simp: lx_step_def sax_step_def b_def [symmetric] bad_def fail_with_def Let_def)
  next
    case 2
    then show ?thesis using fail m
      by (auto simp: lx_step_def sax_step_def sax_continue_def b_def [symmetric] bad_def fail_with_def Let_def)
  next
    case 3
    let ?n = "if l_ulen l + 1 = l_umax l then 0 else l_umax l" and ?k = "l_ulen l + 1"
    let ?r = "r\<lparr>prs := (prs r)\<lparr>uni_max := ?n, uni_len := ?k\<rparr>\<rparr>"
    have "(if collects (ctx (prs r)) then start_old ?r else ?r) = ?r"
      using uni 3(2) m(1) by (auto simp: uni_ok_def start_old_def)
    moreover have "(prs r)\<lparr>uni_len := ?k, uni_max := ?n\<rparr> = (prs r)\<lparr>uni_max := ?n, uni_len := ?k\<rparr>" by (cases "prs r") simp
    ultimately have st: "sax_step alloc h buf ?c r = Some (if collects (ctx (prs r)) then start_old ?r else ?r, Next)"
      using 3 m unfolding sax_step_def Let_def b_def [symmetric] sax_continue_def by simp
    have lx: "lx_step tag cd ?c u l = lx_part cd ?c u (l\<lparr>l_umax := ?n, l_ulen := ?k\<rparr>)"
      unfolding lx_step_def Let_def b_def [symmetric] if_not_P [OF 3(1)] if_P [OF 3(2)]
      using 3(3) by (intro if_not_P) simp
    have "b \<noteq> 0" using 3(1) by blast
    then show ?thesis unfolding lx by (rule part [OF _ refl refl st])
  next
    case 4
    show ?thesis
    proof (cases "lead_class b")
      case None
      then show ?thesis using fail m 4
        by (auto simp: lx_step_def sax_step_def sax_lead_def b_def [symmetric] bad_def fail_with_def Let_def)
    next
      case (Some x)
      obtain n w where x: "x = (n, w)" by (cases x)
      show ?thesis
      proof (cases "b AND w = 0")
        case True
        then show ?thesis using fail m 4 Some x
          by (auto simp: lx_step_def sax_step_def sax_lead_def b_def [symmetric] bad_def fail_with_def Let_def)
      next
        case False
        have st: "sax_step alloc h buf ?c r = Some (if collects (ctx (prs r))
            then start_old (r\<lparr>prs := (prs r)\<lparr>uni_max := n, uni_len := 1\<rparr>\<rparr>) else r\<lparr>prs := (prs r)\<lparr>uni_max := n, uni_len := 1\<rparr>\<rparr>, Next)"
          using 4 m Some x False unfolding sax_step_def Let_def b_def [symmetric] sax_lead_def by simp
        have lx: "lx_step tag cd ?c u l = lx_part cd ?c u (l\<lparr>l_umax := n, l_ulen := 1\<rparr>)"
          using 4 Some x False unfolding lx_step_def Let_def b_def [symmetric] by simp
        have "b \<noteq> 0" using 4(1) by blast
        then show ?thesis unfolding lx by (rule part [OF _ refl refl st])
      qed
    qed
  qed
qed

end

section \<open>Chunks\<close>

lemma lx_switch_umax:
  assumes "lx_switch tag cd c u l = Some (l', u', e)"
  shows "l_umax l' = l_umax l"
proof -
  have te: "lx_tag_end tag c u l = Some (l', u', e) \<Longrightarrow> l_umax l' = l_umax l" for l
    by (auto simp: lx_tag_end_def bad_def split: if_splits bind_splits)
  have at: "lx_attribute tag c u l = Some (l', u', e) \<Longrightarrow> l_umax l' = l_umax l"
    by (auto simp: lx_attribute_def ok_def te split: if_splits)
  have at2: "lx_attribute_2 tag c u l = Some (l', u', e) \<Longrightarrow> l_umax l' = l_umax l"
    by (auto simp: lx_attribute_2_def at split: if_splits)
  have sp: "lx_space tag c u l = Some (l', u', e) \<Longrightarrow> l_umax l' = l_umax l"
    by (auto simp: lx_space_def ok_def te at at2 split: if_splits)
  have tg: "lx_tag tag c u l = Some (l', u', e) \<Longrightarrow> l_umax l' = l_umax l"
    using te [of "l\<lparr>l_name := l_text l\<rparr>"] by (auto simp: lx_tag_def ok_def bad_def Let_def split: if_splits)
  show ?thesis
    using assms te [of l] sp tg
    by (cases "l_ctx l") (auto simp: lx_switch_def lx_value_in_def lx_entity_def ok_def bad_def Let_def split: if_splits)
qed

context piecewise_hooks
begin

lemma plain_step:
  assumes sim: "sim cd buf r u l" and i: "pos r < length buf" and "roomy alloc"
    and c: "plain_char (buf ! pos r)" and m: "l_umax l = 0"
  shows "matches alloc h cd buf r (lx_switch tag cd (buf ! pos r) u l)"
proof -
  let ?c = "buf ! pos r"
  have um: "uni_max (prs r) = 0" using sim m by (simp add: sim_def prs_rel_def same_fields_def)
  note s = plain_char_step [OF c um]
  have k: "ctx (prs r) = l_ctx l" by (rule sim_ctx [OF sim])
  have n: "byte_of ?c \<noteq> 0" using c by (simp add: plain_char_def)
  have p: "place_rel (prs r) (pending buf r) l" using sim by (simp add: sim_def prs_rel_def)
  have old: "old r \<le> Suc (pos r)" using sim by (simp add: sim_def loc_rel_def)
  note ex = step_expect [OF sim i] and wt = step_wait [OF sim i] and mv = plain_move [OF sim i]
  show ?thesis
  proof (cases "l_ctx l")
    case C_CDATA then show ?thesis using step_CDATA [OF sim i _ assms(3) s] by simp
  next
    case C_TAG_START then show ?thesis using step_TAG_START [OF sim i _ n s] by simp
  next
    case C_TAG then show ?thesis using step_TAG [OF sim i _ assms(3) c m] by (simp add: lx_switch_def)
  next
    case C_TAG_END then show ?thesis using step_TAG_END [OF sim i _ s] by (simp add: lx_switch_def)
  next
    case C_ATTRIBUTE then show ?thesis using p by (simp add: place_rel_def)
  next
    case C_ATTRIBUTE_1 then show ?thesis using step_ATTRIBUTE_1 [OF sim i _ assms(3) c m] by simp
  next
    case C_ATTRIBUTE_2 then show ?thesis using p by (simp add: place_rel_def)
  next
    case C_VALUE then show ?thesis using step_VALUE [OF sim i _ c m] by simp
  next
    case C_VALUE_APOS then show ?thesis
      using step_VALUE_IN [OF sim i _ assms(3) c, of "CHR 0x27"] s k by (simp add: lx_switch_def sax_switch_def)
  next
    case C_VALUE_QUOT then show ?thesis
      using step_VALUE_IN [OF sim i _ assms(3) c, of "CHR 0x22"] s k by (simp add: lx_switch_def sax_switch_def)
  next
    case C_WHITESPACE then show ?thesis using step_WHITESPACE [OF sim i _ assms(3) c m] by (simp add: lx_switch_def)
  next
    case C_ENTITY then show ?thesis using step_ENTITY [OF sim i _ s] by simp
  next
    case C_COMMENT then show ?thesis
      using ex [where k = C_COMMENT_1 and x = "CHR ''-''" and i = "old r" and alloc = alloc and h = h] s k
      by (auto simp: kinds plain_steps sax_COMMENT_def same_usr)
  next
    case C_COMMENT_1 then show ?thesis
      using wt [where k = C_COMMENT_2 and x = "CHR ''-''" and i = "old r" and alloc = alloc and h = h] s k
      by (auto simp: kinds plain_steps sax_COMMENT_1_def same_usr)
  next
    case C_COMMENT_2 then show ?thesis
      using mv [where k = "if ?c = CHR ''-'' then C_COMMENT_3 else C_COMMENT_1" and i = "old r" and alloc = alloc and h = h] s k
      by (simp add: kinds plain_steps sax_COMMENT_2_def same_usr)
  next
    case C_COMMENT_3 then show ?thesis
      using ex [where k = C_CDATA and x = "CHR ''>''" and i = "Suc (pos r)" and alloc = alloc and h = h] s k
      by (auto simp: kinds plain_steps sax_COMMENT_3_def)
  next
    case C_MARKUP
    have "?thesis" if "?c = CHR ''[''"
      using mv [where k = C_SECT and i = "old r" and alloc = alloc and h = h] s k that C_MARKUP
      by (simp add: kinds plain_steps sax_MARKUP_def same_usr)
    moreover have "?thesis" if "?c = CHR ''-''"
      using mv [where k = C_COMMENT and i = "old r" and alloc = alloc and h = h] s k that C_MARKUP
      by (simp add: kinds plain_steps sax_MARKUP_def same_usr)
    moreover have "?thesis" if "?c = CHR ''>''"
      using mv [where k = C_CDATA and i = "Suc (pos r)" and alloc = alloc and h = h] s k that C_MARKUP
      by (simp add: kinds plain_steps sax_MARKUP_def sax_MARKUP_1_def)
    moreover have "?thesis" if "?c \<noteq> CHR ''[''" "?c \<noteq> CHR ''-''" "?c \<noteq> CHR ''>''"
      using mv [where k = C_MARKUP_1 and i = "old r" and alloc = alloc and h = h] s k that C_MARKUP
      by (simp add: kinds plain_steps sax_MARKUP_def sax_MARKUP_1_def same_usr)
    ultimately show ?thesis by blast
  next
    case C_MARKUP_1 then show ?thesis
      using wt [where k = C_CDATA and x = "CHR ''>''" and i = "Suc (pos r)" and alloc = alloc and h = h] s k
      by (auto simp: kinds plain_steps sax_MARKUP_1_def)
  next
    case C_SECT then show ?thesis
      using ex [where k = C_SECT_CDATA and x = "CHR ''C''" and i = "old r" and alloc = alloc and h = h] s k
      by (auto simp: kinds plain_steps sax_SECT_def same_usr)
  next
    case C_SECT_CDATA then show ?thesis
      using ex [where k = C_SECT_CDATA_1 and x = "CHR ''D''" and i = "old r" and alloc = alloc and h = h] s k
      by (auto simp: kinds plain_steps sax_SECT_def same_usr)
  next
    case C_SECT_CDATA_1 then show ?thesis
      using ex [where k = C_SECT_CDATA_2 and x = "CHR ''A''" and i = "old r" and alloc = alloc and h = h] s k
      by (auto simp: kinds plain_steps sax_SECT_def same_usr)
  next
    case C_SECT_CDATA_2 then show ?thesis
      using ex [where k = C_SECT_CDATA_3 and x = "CHR ''T''" and i = "old r" and alloc = alloc and h = h] s k
      by (auto simp: kinds plain_steps sax_SECT_def same_usr)
  next
    case C_SECT_CDATA_3 then show ?thesis
      using ex [where k = C_SECT_CDATA_4 and x = "CHR ''A''" and i = "old r" and alloc = alloc and h = h] s k
      by (auto simp: kinds plain_steps sax_SECT_def same_usr)
  next
    case C_SECT_CDATA_4 then show ?thesis
      using ex [where k = C_SECT_CDATA_C and x = "CHR ''[''" and i = "Suc (pos r)" and alloc = alloc and h = h] s k
      by (auto simp: kinds plain_steps sax_SECT_CDATA_4_def)
  next
    case C_SECT_CDATA_C then show ?thesis using step_SECT_CDATA_C [OF sim i _ s] by simp
  next
    case C_SECT_CDATA_E then show ?thesis using step_SECT_CDATA_E [OF sim i _ s] by simp
  next
    case C_SECT_CDATA_E2 then show ?thesis using step_SECT_CDATA_E [OF sim i _ s] by simp
  next
    case C_PI
    have "?thesis" if "?c = CHR ''>''"
      using mv [where k = C_CDATA and i = "Suc (pos r)" and alloc = alloc and h = h] s k that C_PI
      by (simp add: kinds plain_steps sax_PI_def)
    moreover have "?thesis" if "?c \<noteq> CHR ''>''"
      using plain_quiet [OF sim i, where k = C_PI and i = "Suc (pos r)" and alloc = alloc and h = h] s k that C_PI
      by (simp add: kinds plain_steps sax_PI_def same_ctx same_lctx)
    ultimately show ?thesis by blast
  qed
qed

end

text \<open>The state of a parser between two chunks.\<close>

definition at_rest :: "iksparser \<Rightarrow> lexer \<Rightarrow> bool" where
  "at_rest p l \<longleftrightarrow> prs_rel p [] l"

text \<open>A chunk must not start in the middle of a longer character of a name or a value.\<close>

definition resumes :: "lexer \<Rightarrow> bool" where
  "resumes l \<longleftrightarrow> l_umax l = 0 \<or> \<not> collects (l_ctx l)"

lemma rest_at_start: "at_rest iks_sax_extend lexer_start"
  by (simp add: at_rest_def prs_rel_def same_fields_def atts_rel_def place_rel_def iks_sax_extend_def lexer_start_def)

lemma rest_sim:
  "at_rest p l \<Longrightarrow> sim cd buf \<lparr>prs = p, usr = u, pos = 0, old = 0, stack_old = None\<rparr> u l"
  by (simp add: at_rest_def sim_def pending_def loc_rel_def usr_rel_def)

lemma flushed_rel:
  assumes "prs_rel p t l" and "stacked p (data p @ t) p'" and "may_pend (l_ctx l)"
  shows "prs_rel p' [] l"
proof -
  note k = stacked_keeps [OF assms(2)] and d = stackedD [OF assms(2)]
  have r: "reading p' [] i s" if "reading p t i s" "block_ok p" for i s
    using that length_data [OF that(2)] length_data [OF d(1)] d(2) by (simp add: reading_def)
  have h: "held (data p') i s" if "held (data p) i s" for i s using held_mono [OF that] d(2) by simp
  have b: "named p l \<Longrightarrow> block_ok p" by (simp add: named_def)
  have "place_rel p t l" using assms(1) by (simp add: prs_rel_def)
  then have "place_rel p' [] l"
    using assms(3) d(1,6,8) k(2) [of l] by (auto simp: kinds place_rel_def k(3)) (blast intro: r h dest: b)+
  then show ?thesis using assms(1) k(1,4) d(1) by (simp add: prs_rel_def)
qed

context piecewise_hooks
begin

lemma one_char:
  assumes sim: "sim cd buf r u l" and uni: "uni_ok r" and i: "pos r < length buf" and room: "roomy alloc"
  shows "case lx_step tag cd (buf ! pos r) u l of
      None \<Rightarrow> sax_loop alloc h buf r = None
    | Some (l', u', e) \<Rightarrow>
        if e = IKS_OK
        then \<exists>r'. sax_loop alloc h buf r = sax_loop alloc h buf r' \<and> pos r' = Suc (pos r)
          \<and> sim cd buf r' u' (count_char (buf ! pos r) l') \<and> uni_ok r'
        else \<exists>r'. sax_loop alloc h buf r = Some (r', e)"
proof (cases "plain_char (buf ! pos r) \<and> l_umax l = 0")
  case True
  then have "lx_step tag cd (buf ! pos r) u l = lx_switch tag cd (buf ! pos r) u l"
    by (simp add: lx_step_def plain_char_def Let_def)
  moreover have "uni_ok r'" if "sim cd buf r' u' (count_char c l')" "l_umax l' = 0" for r' u' c l'
    using that by (simp add: uni_ok_def sim_def prs_rel_def same_fields_def count_char_def)
  ultimately show ?thesis
    using plain_step [OF sim i room] True lx_switch_umax [of tag cd "buf ! pos r" u l]
    by (fastforce simp: matches_def split: option.splits prod.splits if_splits)
next
  case False
  then show ?thesis using uni_char [OF sim uni i] by blast
qed

lemma loop_ok:
  assumes "sim cd buf r u l" and "uni_ok r" and "roomy alloc"
  shows "case lx_run tag cd (drop (pos r) buf) u l of
      None \<Rightarrow> sax_loop alloc h buf r = None
    | Some (l', u', e) \<Rightarrow>
        if e = IKS_OK then \<exists>r'. sax_loop alloc h buf r = Some (r', IKS_OK) \<and> sim cd buf r' u' l'
        else \<exists>r'. sax_loop alloc h buf r = Some (r', e)"
  using assms(1,2)
proof (induction "length buf - pos r" arbitrary: r u l)
  case 0
  then have "pos r = length buf" by (simp add: sim_def loc_rel_def)
  then show ?case using 0 by (subst sax_loop.simps) (simp add: ok_def)
next
  case (Suc n)
  then have i: "pos r < length buf" by simp
  have d: "drop (pos r) buf = buf ! pos r # drop (Suc (pos r)) buf" by (simp add: Cons_nth_drop_Suc i)
  note one = one_char [OF Suc.prems i assms(3)]
  show ?case
  proof (cases "lx_step tag cd (buf ! pos r) u l")
    case None
    then show ?thesis using one by (simp add: d)
  next
    case (Some x)
    obtain l1 u1 e where x: "x = (l1, u1, e)" by (cases x)
    show ?thesis
    proof (cases "e = IKS_OK")
      case False
      then show ?thesis using one Some x by (simp add: d)
    next
      case True
      then obtain r1 where r1: "sax_loop alloc h buf r = sax_loop alloc h buf r1" "pos r1 = Suc (pos r)"
          "sim cd buf r1 u1 (count_char (buf ! pos r) l1)" "uni_ok r1"
        using one Some x by auto
      have "n = length buf - pos r1" using Suc.hyps(2) r1(2) by simp
      moreover have "lx_run tag cd (drop (pos r) buf) u l = lx_run tag cd (drop (pos r1) buf) u1 (count_char (buf ! pos r) l1)"
        using Some x True r1(2) by (simp add: d)
      ultimately show ?thesis unfolding r1(1) using Suc.hyps(1) [OF _ r1(3,4)] by metis
    qed
  qed
qed

lemma flush_ok:
  assumes "sim cd buf r u l" and "roomy alloc"
  shows "\<exists>r'. sax_flush alloc h buf r = Some (r', IKS_OK) \<and> usr r' = u \<and> at_rest (prs r') l"
proof -
  have rel: "prs_rel (prs r) (pending buf r) l" and loc: "pos r \<le> length buf" "old r \<le> pos r"
      "\<And>so. stack_old r = Some so \<Longrightarrow> so \<le> pos r" "stack_old r \<noteq> None \<Longrightarrow> may_pend (l_ctx l)"
      and u: "usr_rel cd buf r u"
    using assms(1) sim_ctx [OF assms(1)] by (auto simp: sim_def loc_rel_def)
  have "\<exists>p. (case stack_old r of None \<Rightarrow> Some (prs r, True)
        | Some so \<Rightarrow> do { s \<leftarrow> read_at so (pos r - so) buf; STACK_PUSH alloc s (prs r) }) = Some (p, True)
      \<and> prs_rel p [] l"
  proof (cases "stack_old r")
    case None
    then show ?thesis using rel by (simp add: pending_def)
  next
    case (Some so)
    then have "block_ok (prs r)" using rel loc(4) by (auto simp: kinds prs_rel_def place_rel_def named_def)
    then obtain p where p: "STACK_PUSH alloc (pending buf r) (prs r) = Some (p, True)" "stacked (prs r) (data (prs r) @ pending buf r) p"
      using push_ok [OF assms(2)] by blast
    then show ?thesis using Some loc(1,3) flushed_rel [OF rel p(2)] loc(4) by (simp add: read_at_def pending_def)
  qed
  then obtain p where p: "(case stack_old r of None \<Rightarrow> Some (prs r, True)
        | Some so \<Rightarrow> do { s \<leftarrow> read_at so (pos r - so) buf; STACK_PUSH alloc s (prs r) }) = Some (p, True)" "prs_rel p [] l"
    by blast
  have k: "ctx p = ctx (prs r)" using rel p(2) by (simp add: prs_rel_def same_fields_def)
  show ?thesis
  proof (cases "delivers (ctx p) \<and> old r < pos r")
    case True
    then have "u = cd (usr r) (take (pos r - old r) (drop (old r) buf))" using u k by (simp add: usr_rel_def)
    then show ?thesis using True p loc
      by (simp add: sax_flush_def cdata_hook delivers_def read_at_def at_rest_def Let_def)
  next
    case False
    then have "u = usr r" using u k by (auto simp: usr_rel_def)
    then show ?thesis using False p
      by (auto simp: sax_flush_def cdata_hook delivers_def at_rest_def Let_def)
  qed
qed

lemma chunk_ok:
  assumes "at_rest p l" and "resumes l" and "roomy alloc"
  shows "case lx_run tag cd buf u l of
      None \<Rightarrow> sax_core alloc h buf (p, u) = None
    | Some (l', u', e) \<Rightarrow>
        if e = IKS_OK then \<exists>p'. sax_core alloc h buf (p, u) = Some ((p', u'), IKS_OK) \<and> at_rest p' l'
        else \<exists>x. sax_core alloc h buf (p, u) = Some (x, e)"
proof -
  let ?r = "\<lparr>prs = p, usr = u, pos = 0, old = 0, stack_old = None\<rparr>"
  have "uni_ok ?r" using assms(1,2) by (auto simp: uni_ok_def resumes_def at_rest_def prs_rel_def same_fields_def)
  note run = loop_ok [OF rest_sim [OF assms(1), where u = u and buf = buf and cd = cd] this assms(3)]
  show ?thesis
  proof (cases "lx_run tag cd buf u l")
    case None
    then show ?thesis using run by (simp add: sax_core_def)
  next
    case (Some x)
    obtain l1 u1 e where x: "x = (l1, u1, e)" by (cases x)
    show ?thesis
    proof (cases "e = IKS_OK")
      case False
      then show ?thesis using run Some x by (auto simp: sax_core_def)
    next
      case True
      then obtain r1 where r1: "sax_loop alloc h buf ?r = Some (r1, IKS_OK)" "sim cd buf r1 u1 l1" using run Some x by auto
      obtain r2 where "sax_flush alloc h buf r1 = Some (r2, IKS_OK)" "usr r2 = u1" "at_rest (prs r2) l1"
        using flush_ok [OF r1(2) assms(3)] by blast
      then show ?thesis using Some x True r1(1) by (auto simp: sax_core_def)
    qed
  qed
qed

end

end
