(* ===== verification/SaxProps.thy ===== *)
theory SaxProps
  imports SaxRefine
begin

text \<open>
  What the tokenizer promises its callers: the chunks in which a text arrives do not matter as
  long as no chunk starts inside a longer character, and where the arrays of
  \<^verbatim>\<open>src/CuteCat/iksemel/sax.c\<close> are too small.
\<close>

section \<open>Chunks\<close>

text \<open>The calls of \<^verbatim>\<open>iks_parse\<close> for the chunks of a text, up to the first error.\<close>

fun feed ::
  "(nat \<Rightarrow> string option) \<Rightarrow> 'u hooks \<Rightarrow> string list \<Rightarrow> iksparser \<times> 'u \<Rightarrow> ((iksparser \<times> 'u) \<times> ikserror) option" where
  "feed alloc h [] x = Some (x, IKS_OK)"
| "feed alloc h (s # ss) x = do {
     (x, e) \<leftarrow> iks_parse alloc h (Some s) (length s) x;
     if e = IKS_OK then feed alloc h ss x else Some (x, e)
   }"

definition cont_byte :: "char \<Rightarrow> bool" where
  "cont_byte c \<longleftrightarrow> byte_of c AND 0xC0 = 0x80"

text \<open>No chunk starts with a byte that continues a character.\<close>

definition clean_cut :: "string list \<Rightarrow> bool" where
  "clean_cut ss \<longleftrightarrow> (\<forall>s \<in> set ss. s = [] \<or> \<not> cont_byte (hd s))"

lemma clean_cut_Cons: "clean_cut (s # ss) \<longleftrightarrow> (s = [] \<or> \<not> cont_byte (hd s)) \<and> clean_cut ss"
  by (auto simp: clean_cut_def)

lemma iks_parse_all: "iks_parse alloc h (Some s) (length s) x = sax_core alloc h s x"
  by (simp add: iks_parse_def read_at_def)

text \<open>How the outcome of the source compares with that of the reference tokenizer.\<close>

definition agrees :: "((iksparser \<times> 'u) \<times> ikserror) option \<Rightarrow> 'u lexed \<Rightarrow> bool" where
  "agrees y x \<longleftrightarrow>
     (case x of
        None \<Rightarrow> y = None
      | Some (l', u', e) \<Rightarrow>
          if e = IKS_OK then \<exists>p'. y = Some ((p', u'), IKS_OK) \<and> at_rest p' l'
          else \<exists>z. y = Some (z, e))"

lemma agrees_simps [simp]:
  "agrees y None \<longleftrightarrow> y = None"
  "agrees y (Some (l', u', e)) \<longleftrightarrow>
     (if e = IKS_OK then \<exists>p'. y = Some ((p', u'), IKS_OK) \<and> at_rest p' l' else \<exists>z. y = Some (z, e))"
  by (simp_all add: agrees_def)

lemma sax_core_Nil:
  assumes "at_rest p l" and "collects (l_ctx l)"
  shows "sax_core alloc h [] (p, u) = Some ((p, u), IKS_OK)"
proof -
  have "ctx p = l_ctx l" using assms(1) by (simp add: at_rest_def prs_rel_def same_fields_def)
  then have "ctx p \<noteq> C_CDATA" "ctx p \<noteq> C_SECT_CDATA_C" using assms(2) by (auto simp: collects_def)
  then show ?thesis
    by (subst sax_core_def, subst sax_loop.simps) (simp add: sax_flush_def Let_def split: option.split)
qed

lemma broken_char:
  assumes "l_umax l \<noteq> 0" and "\<not> cont_byte c" and "at_rest p l"
  shows "lx_step tag cd c u l = bad u l" and "\<exists>x. sax_core alloc h (c # cs) (p, u) = Some (x, IKS_BADXML)"
proof -
  have m: "uni_max p \<noteq> 0" using assms(1,3) by (simp add: at_rest_def prs_rel_def same_fields_def)
  show "lx_step tag cd c u l = bad u l" using assms(1,2) by (simp add: lx_step_def cont_byte_def Let_def)
  show "\<exists>x. sax_core alloc h (c # cs) (p, u) = Some (x, IKS_BADXML)"
    using m assms(2)
    by (subst sax_core_def, subst sax_loop.simps)
      (simp add: sax_step_def sax_continue_def fail_with_def cont_byte_def Let_def)
qed

context piecewise_hooks
begin

lemma core_agrees:
  assumes "at_rest p l" and "roomy alloc" and cut: "s = [] \<or> \<not> cont_byte (hd s)"
  shows "agrees (sax_core alloc h s (p, u)) (lx_run tag cd s u l)"
proof (cases "resumes l")
  case True
  then show ?thesis using chunk_ok [OF assms(1) True assms(2), of s u] by (simp add: agrees_def)
next
  case False
  then have l: "l_umax l \<noteq> 0" "collects (l_ctx l)" by (auto simp: resumes_def)
  show ?thesis
  proof (cases s)
    case Nil
    then show ?thesis using sax_core_Nil [OF assms(1) l(2), of alloc h u] assms(1) by (auto simp: ok_def)
  next
    case (Cons c cs)
    then show ?thesis using broken_char(1) [OF l(1) _ assms(1), of c tag cd u] broken_char(2) [OF l(1) _ assms(1), of c alloc h cs u] cut
      by (simp add: bad_def)
  qed
qed

lemma feed_agrees:
  assumes "at_rest p l" and "roomy alloc" and "clean_cut ss"
  shows "agrees (feed alloc h ss (p, u)) (lx_run tag cd (concat ss) u l)"
  using assms(1,3)
proof (induction ss arbitrary: p u l)
  case Nil
  then show ?case by (simp add: ok_def)
next
  case (Cons s ss)
  have a: "agrees (sax_core alloc h s (p, u)) (lx_run tag cd s u l)"
    using core_agrees [OF Cons.prems(1) assms(2)] Cons.prems(2) by (simp add: clean_cut_Cons)
  show ?case
  proof (cases "lx_run tag cd s u l")
    case None
    then show ?thesis using a by (simp add: iks_parse_all lx_run_append)
  next
    case (Some x)
    obtain l1 u1 e where x: "x = (l1, u1, e)" by (cases x)
    then show ?thesis
      using a Some Cons.IH [where l = l1 and u = u1] Cons.prems(2)
      by (auto simp: iks_parse_all lx_run_append clean_cut_Cons split: if_splits)
  qed
qed

lemma cuts_agree:
  assumes "roomy alloc" and "clean_cut ss" and "clean_cut ts" and "concat ss = concat ts" and "at_rest p l"
  shows "map_option (\<lambda>(x, e). (e, if e = IKS_OK then Some (snd x) else None)) (feed alloc h ss (p, u))
    = map_option (\<lambda>(x, e). (e, if e = IKS_OK then Some (snd x) else None)) (feed alloc h ts (p, u))"
  using feed_agrees [OF assms(5,1,2), of u] feed_agrees [OF assms(5,1,3), of u] assms(4)
  by (cases "lx_run tag cd (concat ts) u l") (auto split: if_splits)

end

section \<open>A character that is split\<close>

text \<open>
  When a chunk starts with the last byte of a character of a name or value, the byte is counted
  but not collected.
\<close>

definition skipped :: "char \<Rightarrow> lexer \<Rightarrow> lexer" where
  "skipped c l = count_char c (l\<lparr>l_umax := 0, l_ulen := l_ulen l + 1\<rparr>)"

lemma skipped_fields [simp]:
  "l_ctx (skipped c l) = l_ctx l" "l_atts (skipped c l) = l_atts l" "l_text (skipped c l) = l_text l"
  "l_old (skipped c l) = l_old l" "l_max (skipped c l) = l_max l" "l_key (skipped c l) = l_key l"
  "l_entity (skipped c l) = l_entity l" "l_name (skipped c l) = l_name l" "l_type (skipped c l) = l_type l"
  "l_umax (skipped c l) = 0"
  by (simp_all add: skipped_def count_char_def)

lemma skip_rel:
  assumes "prs_rel p [] l"
  shows "prs_rel (p\<lparr>uni_len := uni_len p + 1, uni_max := 0, nr_bytes := nr_bytes p + 1,
      nr_lines := (if c = CHR 0x0A then nr_lines p + 1 else nr_lines p)\<rparr>) [] (skipped c l)" (is "prs_rel ?p [] ?l")
proof -
  define q where "q = ?p"
  define k where "k = skipped c l"
  have d: "data q = data p" "block_ok q = block_ok p" "stack q = stack p" "stack_pos q = stack_pos p" "tag_at q = tag_at p"
      "atts q = atts p" "attcur q = attcur p" "attmax q = attmax p" "entity q = entity p"
    by (simp_all add: q_def data_def block_ok_def split: option.split)
  have f: "l_ctx k = l_ctx l" "l_atts k = l_atts l" "l_text k = l_text l" "l_old k = l_old l" "l_max k = l_max l"
      "l_key k = l_key l" "l_entity k = l_entity l" "l_name k = l_name l"
    by (simp_all add: k_def)
  have r: "reading q [] i s = reading p [] i s" "named q k = named p l" "att_slot q i v = att_slot p i v" for i s v
    by (simp_all add: reading_def named_def att_slot_def d f)
  have "same_fields q k" using assms by (simp add: q_def k_def prs_rel_def same_fields_def skipped_def count_char_def)
  moreover have "atts_rel q k" using assms by (auto simp: prs_rel_def atts_rel_def d f split: option.splits)
  moreover have "place_rel q [] k" using assms by (cases "l_ctx l") (simp_all add: prs_rel_def place_rel_def f d r)
  ultimately have "prs_rel q [] k" using assms by (simp add: prs_rel_def d)
  then show ?thesis unfolding q_def k_def .
qed

context piecewise_hooks
begin

lemma finish_agrees:
  assumes "sim cd buf r u' l" and "uni_ok r" and "roomy alloc"
    and "sax_loop alloc h buf \<lparr>prs = p, usr = u, pos = 0, old = 0, stack_old = None\<rparr> = sax_loop alloc h buf r"
  shows "agrees (sax_core alloc h buf (p, u)) (lx_run tag cd (drop (pos r) buf) u' l)"
proof (cases "lx_run tag cd (drop (pos r) buf) u' l")
  case None
  then show ?thesis using loop_ok [OF assms(1-3)] assms(4) by (simp add: sax_core_def)
next
  case (Some x)
  obtain l1 u1 e where x: "x = (l1, u1, e)" by (cases x)
  show ?thesis
  proof (cases "e = IKS_OK")
    case False
    then show ?thesis using loop_ok [OF assms(1-3)] assms(4) Some x by (auto simp: sax_core_def)
  next
    case True
    then obtain r1 where r1: "sax_loop alloc h buf r = Some (r1, IKS_OK)" "sim cd buf r1 u1 l1"
      using loop_ok [OF assms(1-3)] Some x by auto
    obtain r2 where "sax_flush alloc h buf r1 = Some (r2, IKS_OK)" "usr r2 = u1" "at_rest (prs r2) l1"
      using flush_ok [OF r1(2) assms(3)] by blast
    then show ?thesis using Some x True r1(1) assms(4) by (auto simp: sax_core_def)
  qed
qed

lemma split_char_agrees:
  assumes "at_rest p l" and "roomy alloc" and "collects (l_ctx l)" and "l_umax l = l_ulen l + 1" and "cont_byte c"
  shows "agrees (sax_core alloc h (c # s) (p, u)) (lx_run tag cd s u (skipped c l))"
proof -
  let ?p = "p\<lparr>uni_len := uni_len p + 1, uni_max := 0, nr_bytes := nr_bytes p + 1,
      nr_lines := (if c = CHR 0x0A then nr_lines p + 1 else nr_lines p)\<rparr>"
  let ?r = "\<lparr>prs = ?p, usr = u, pos = 1, old = 0, stack_old = None\<rparr>"
  have p: "prs_rel p [] l" using assms(1) by (simp add: at_rest_def)
  then have m: "ctx p = l_ctx l" "uni_max p = uni_len p + 1" using assms(4) by (simp_all add: prs_rel_def same_fields_def)
  have b: "byte_of c \<noteq> 0" "byte_of c \<noteq> 0xFE" "byte_of c \<noteq> 0xFF" using assms(5) by (auto simp: cont_byte_def)
  have k: "\<not> delivers (ctx p)" using assms(3) m(1) by (auto simp: collects_def delivers_def)
  have "sim cd (c # s) ?r u (skipped c l)"
    using skip_rel [OF p, of c] k by (simp add: sim_def pending_def loc_rel_def usr_rel_def)
  moreover have "uni_ok ?r" by (simp add: uni_ok_def)
  moreover have "sax_loop alloc h (c # s) \<lparr>prs = p, usr = u, pos = 0, old = 0, stack_old = None\<rparr> = sax_loop alloc h (c # s) ?r"
    using m(2) b assms(5)
    by (subst sax_loop.simps) (simp add: sax_step_def sax_continue_def next_char_def cont_byte_def Let_def)
  ultimately show ?thesis using finish_agrees [OF _ _ assms(2), where r = ?r and buf = "c # s"] by simp
qed

end

end
