(* ===== verification/IksHooks.thy ===== *)
theory IksHooks
  imports Iks
begin

text \<open>
  How the hooks of \<^verbatim>\<open>src/CuteCat/iksemel/stream.c\<close> and \<^verbatim>\<open>dom.c\<close> build a tree from tags and
  character data: \<^verbatim>\<open>current\<close> and its ancestors as a list, innermost first.  The sources link a
  new element to its parent at once; here the parent gets it when it is closed, and is not
  looked at before.
\<close>

type_synonym open_tag = "string \<times> (string \<times> string) list \<times> iks list"

definition node_of :: "open_tag \<Rightarrow> iks" where
  "node_of t = (case t of (n, as, cs) \<Rightarrow> IksTag n as cs)"

fun insert_attribs :: "(string \<times> string) list \<Rightarrow> (string \<times> string) list \<Rightarrow> (string \<times> string) list" where
  "insert_attribs as [] = as"
| "insert_attribs as ((n, v) # rest) = insert_attribs (set_attrib n v as) rest"

definition tag_node :: "string \<Rightarrow> (string \<times> string) list \<Rightarrow> open_tag" where
  "tag_node name attrs = (name, insert_attribs [] attrs, [])"

text \<open>\<^verbatim>\<open>data->current = iks_parent (x)\<close>: the parent gets the element.\<close>

definition into_parent :: "open_tag \<Rightarrow> open_tag \<Rightarrow> open_tag" where
  "into_parent t parent = (case parent of (n, as, cs) \<Rightarrow> (n, as, cs @ [node_of t]))"

text \<open>\<^verbatim>\<open>iks_insert_cdata\<close> on the innermost element, with a length that is not 0.\<close>

definition add_cdata :: "string \<Rightarrow> open_tag list \<Rightarrow> open_tag list" where
  "add_cdata s ts =
     (case ts of
        [] \<Rightarrow> []
      | (n, as, cs) # rest \<Rightarrow>
          (case iks_insert_cdata (IksTag n as cs) s (length s) of
             Some (IksTag n as cs) \<Rightarrow> (n, as, cs) # rest
           | _ \<Rightarrow> ts))"

lemma add_cdata_joins: "s \<noteq> [] \<Longrightarrow> t \<noteq> [] \<Longrightarrow> add_cdata (s @ t) ts = add_cdata t (add_cdata s ts)"
  by (auto simp: add_cdata_def insert_whole_cdata Let_def split: list.split iks.split prod.split)

section \<open>Children\<close>

definition is_cdata :: "iks \<Rightarrow> bool" where
  "is_cdata x \<longleftrightarrow> (case x of IksCData _ \<Rightarrow> True | _ \<Rightarrow> False)"

definition add_child :: "open_tag \<Rightarrow> iks \<Rightarrow> open_tag" where
  "add_child t x = (case t of (n, as, cs) \<Rightarrow> (n, as, cs @ [x]))"

definition ends_with_cdata :: "open_tag \<Rightarrow> bool" where
  "ends_with_cdata t \<longleftrightarrow> (case t of (n, as, cs) \<Rightarrow> cs \<noteq> [] \<and> is_cdata (last cs))"

lemma add_cdata_child:
  assumes "\<not> ends_with_cdata t" and "s \<noteq> []"
  shows "add_cdata s (t # rest) = add_child t (IksCData s) # rest"
proof -
  obtain n as cs where t: "t = (n, as, cs)" by (cases t)
  have "rev cs = [] \<or> (\<exists>n as ds rest. rev cs = IksTag n as ds # rest)"
    using assms(1) unfolding t ends_with_cdata_def is_cdata_def
    by (cases cs rule: rev_cases) (auto split: iks.splits)
  then show ?thesis using assms(2) by (auto simp: t add_cdata_def insert_whole_cdata add_child_def Let_def)
qed

lemma ends_with_add: "ends_with_cdata (add_child t x) \<longleftrightarrow> is_cdata x"
  by (cases t) (simp add: add_child_def ends_with_cdata_def)

lemma into_parent_child: "into_parent (n, as, cs) t = add_child t (IksTag n as cs)"
  by (cases t) (simp add: into_parent_def add_child_def node_of_def)

lemma foldl_add_child: "foldl add_child (n, as, cs) xs = (n, as, cs @ xs)"
  by (induction xs arbitrary: cs) (simp_all add: add_child_def)

lemma set_attrib_new: "n \<notin> fst ` set as \<Longrightarrow> set_attrib n v as = as @ [(n, v)]"
  by (induction as) auto

lemma insert_attribs_distinct: "distinct (map fst (bs @ as)) \<Longrightarrow> insert_attribs bs as = bs @ as"
proof (induction as arbitrary: bs)
  case (Cons a as)
  obtain n v where a: "a = (n, v)" by (cases a)
  have "set_attrib n v bs = bs @ [a]" using Cons.prems set_attrib_new [of n bs v] by (simp add: a)
  then show ?case using Cons.IH [of "bs @ [a]"] Cons.prems by (simp add: a)
qed simp

end
