(* ===== verification/IksStream.thy ===== *)
theory IksStream
  imports SaxProps IksHooks Base64
begin

text \<open>
  The stream parser of \<^verbatim>\<open>src/CuteCat/iksemel/stream.c\<close>: the hooks that build a tree
  from the tags and hand each complete stanza to the program, and the requests it sends.  The
  parts that need GnuTLS are not compiled into this program; the default transport is a parameter.
\<close>

section \<open>State\<close>

text \<open>
  The world \<open>'w\<close> is the state of the program that the hook changes, and of the connection
  behind \<^verbatim>\<open>sock\<close>.  A transport is a record of functions on it; \<open>t_recv\<close> answers
  \<open>None\<close> for a negative length, else the bytes it stored.
\<close>

record 'w transport =
  t_connect :: "(string \<Rightarrow> nat \<Rightarrow> 'w \<Rightarrow> int \<times> 'w) option"
  t_connect_async :: "(string \<Rightarrow> string \<Rightarrow> nat \<Rightarrow> 'w \<Rightarrow> int \<times> 'w) option"
  t_send :: "string \<Rightarrow> 'w \<Rightarrow> int \<times> 'w"
  t_recv :: "int \<Rightarrow> 'w \<Rightarrow> string option \<times> 'w"
  t_close :: "'w \<Rightarrow> 'w"

record 'w stream_data =
  current :: "open_tag list"
  trans :: "'w transport option"
  name_space :: string
  server :: "string option"
  logHook :: "(string \<Rightarrow> bool \<Rightarrow> 'w \<Rightarrow> 'w) option"
  buf_there :: bool
  auth_username :: "string option"
  auth_pass :: "string option"
  world :: 'w

text \<open>The codes of \<^verbatim>\<open>enum iksneterror\<close>, which continue those of \<^verbatim>\<open>enum ikserror\<close>.\<close>

definition ikserror_code :: "ikserror \<Rightarrow> int" where
  "ikserror_code e = (case e of IKS_OK \<Rightarrow> 0 | IKS_NOMEM \<Rightarrow> 1 | IKS_BADXML \<Rightarrow> 2 | IKS_HOOK \<Rightarrow> 3)"

definition IKS_NET_NOCONN :: int where "IKS_NET_NOCONN = 6"
definition IKS_NET_RWERR :: int where "IKS_NET_RWERR = 7"
definition IKS_NET_NOTSUPP :: int where "IKS_NET_NOTSUPP = 8"

text \<open>
  What the library's other files and the C library provide: the MD5 digest of a text as 16 bytes,
  the same printed in hexadecimal, and the values of \<^verbatim>\<open>rand()\<close>.
\<close>

record crypto =
  md5_digest :: "string \<Rightarrow> string"
  md5_print :: "string \<Rightarrow> string"
  rand :: "nat \<Rightarrow> nat"

type_synonym 'w stream_hook = "iksnode \<Rightarrow> 'w \<Rightarrow> (ikserror \<times> 'w) option"

section \<open>Sending\<close>

definition call_log :: "string \<Rightarrow> bool \<Rightarrow> 'w stream_data \<Rightarrow> 'w stream_data" where
  "call_log text incoming d = (case logHook d of None \<Rightarrow> d | Some log \<Rightarrow> d\<lparr>world := log text incoming (world d)\<rparr>)"

text \<open>Without a transport the send function is called through NULL.\<close>

definition iks_send_raw :: "string \<Rightarrow> 'w stream_data \<Rightarrow> (int \<times> 'w stream_data) option" where
  "iks_send_raw xmlstr d =
     (case trans d of
        None \<Rightarrow> None
      | Some t \<Rightarrow>
          (let (ret, w) = t_send t xmlstr (world d); d = d\<lparr>world := w\<rparr> in
           if ret \<noteq> 0 then Some (ret, d) else Some (0, call_log xmlstr False d)))"

definition iks_send :: "iks \<Rightarrow> 'w stream_data \<Rightarrow> (int \<times> 'w stream_data) option" where
  "iks_send x d = do {
     s \<leftarrow> iks_string (\<lambda>n. Some (replicate n NUL)) (Some x);
     s \<leftarrow> s;
     iks_send_raw (c_str s) d
   }"

definition header_text :: "string \<Rightarrow> string \<Rightarrow> string" where
  "header_text ns to =
     (let q = [CHR 0x27] in
      ''<?xml version='1.0'?>'' @ ''<stream:stream xmlns:stream='http://etherx.jabber.org/streams' xmlns=''
        @ q @ ns @ q @ '' to='' @ q @ to @ q @ '' version='1.0'>'')"

definition iks_send_header :: "string \<Rightarrow> 'w stream_data \<Rightarrow> (int \<times> 'w stream_data) option" where
  "iks_send_header to d = do {
     let len = 91 + length (name_space d) + 6 + length to + 16 + 1;
     let msg = header_text (name_space d) to;
     _ \<leftarrow> write_at 0 (msg @ [NUL]) (replicate len NUL);
     (err, d) \<leftarrow> iks_send_raw msg d;
     Some (err, if err \<noteq> 0 then d else d\<lparr>server := Some to\<rparr>)
   }"

section \<open>Connecting\<close>

text \<open>\<open>room\<close> answers the allocation of the receive buffer.\<close>

definition with_buf :: "bool \<Rightarrow> 'w stream_data \<Rightarrow> ('w stream_data \<Rightarrow> (int \<times> 'w stream_data) option) \<Rightarrow> (int \<times> 'w stream_data) option" where
  "with_buf room d f = (if buf_there d \<or> room then f (d\<lparr>buf_there := True\<rparr>) else Some (ikserror_code IKS_NOMEM, d))"

definition iks_connect_with ::
  "bool \<Rightarrow> string \<Rightarrow> nat \<Rightarrow> string \<Rightarrow> 'w transport \<Rightarrow> 'w stream_data \<Rightarrow> (int \<times> 'w stream_data) option" where
  "iks_connect_with room srv port server_name t d =
     (case t_connect t of
        None \<Rightarrow> Some (IKS_NET_NOTSUPP, d)
      | Some connect \<Rightarrow>
          with_buf room d (\<lambda>d.
            let (ret, w) = connect srv port (world d); d = d\<lparr>world := w\<rparr> in
            if ret \<noteq> 0 then Some (ret, d) else iks_send_header server_name (d\<lparr>trans := Some t\<rparr>)))"

definition iks_connect_async_with ::
  "bool \<Rightarrow> string \<Rightarrow> nat \<Rightarrow> string \<Rightarrow> 'w transport \<Rightarrow> 'w stream_data \<Rightarrow> (int \<times> 'w stream_data) option" where
  "iks_connect_async_with room srv port server_name t d =
     (case t_connect_async t of
        None \<Rightarrow> Some (IKS_NET_NOTSUPP, d)
      | Some connect \<Rightarrow>
          with_buf room d (\<lambda>d.
            let (ret, w) = connect srv server_name port (world d); d = d\<lparr>world := w\<rparr> in
            if ret \<noteq> 0 then Some (ret, d) else Some (0, d\<lparr>trans := Some t, server := Some server_name\<rparr>)))"

text \<open>\<open>io\<close> is the default transport, \<open>None\<close> when it is not compiled in.\<close>

definition iks_connect_via ::
  "'w transport option \<Rightarrow> bool \<Rightarrow> string \<Rightarrow> nat \<Rightarrow> string \<Rightarrow> 'w stream_data \<Rightarrow> (int \<times> 'w stream_data) option" where
  "iks_connect_via io room srv port server_name d =
     (case io of None \<Rightarrow> Some (IKS_NET_NOTSUPP, d) | Some t \<Rightarrow> iks_connect_with room srv port server_name t d)"

definition iks_connect_tcp ::
  "'w transport option \<Rightarrow> bool \<Rightarrow> string \<Rightarrow> nat \<Rightarrow> 'w stream_data \<Rightarrow> (int \<times> 'w stream_data) option" where
  "iks_connect_tcp io room srv port d = iks_connect_via io room srv port srv d"

definition iks_connect_async ::
  "'w transport option \<Rightarrow> bool \<Rightarrow> string \<Rightarrow> nat \<Rightarrow> 'w stream_data \<Rightarrow> (int \<times> 'w stream_data) option" where
  "iks_connect_async io room srv port d =
     (case io of None \<Rightarrow> Some (IKS_NET_NOTSUPP, d) | Some t \<Rightarrow> iks_connect_async_with room srv port srv t d)"

definition iks_connect_fd :: "'w transport option \<Rightarrow> bool \<Rightarrow> ('w \<Rightarrow> 'w) \<Rightarrow> 'w stream_data \<Rightarrow> (int \<times> 'w stream_data) option" where
  "iks_connect_fd io room set_sock d =
     (case io of
        None \<Rightarrow> Some (IKS_NET_NOTSUPP, d)
      | Some t \<Rightarrow> with_buf room d (\<lambda>d. Some (0, d\<lparr>world := set_sock (world d), trans := Some t\<rparr>)))"

section \<open>SASL\<close>

text \<open>\<^verbatim>\<open>strstr\<close>: the offset of the first occurrence.\<close>

fun strstr_at :: "nat \<Rightarrow> string \<Rightarrow> string \<Rightarrow> nat option" where
  "strstr_at i [] key = (if key = [] then Some i else None)"
| "strstr_at i (c # s) key = (if take (length key) (c # s) = key then Some i else strstr_at (i + 1) s key)"

text \<open>
  The scan for the quote that ends a value: \<^verbatim>\<open>t[0]\<close> is not a backslash and
  \<^verbatim>\<open>t[1]\<close> is a quote; the result is the offset of the quote.
\<close>

fun value_end :: "nat \<Rightarrow> string \<Rightarrow> nat option" where
  "value_end i (a # b # s) = (if a \<noteq> CHR 0x5C \<and> b = CHR 0x22 then Some (i + 1) else value_end (i + 1) (b # s))"
| "value_end i _ = None"

definition parse_digest :: "string \<Rightarrow> string \<Rightarrow> nat option \<times> nat option" where
  "parse_digest message key =
     (case strstr_at 0 message key of
        None \<Rightarrow> (None, None)
      | Some t \<Rightarrow> (Some (t + length key), value_end (t + length key) (drop (t + length key) message)))"

definition hex8 :: "nat \<Rightarrow> string" where \<comment> \<open>\<^verbatim>\<open>"%08x"\<close> of an \<^verbatim>\<open>unsigned\<close>\<close>
  "hex8 n = pad_left CHR ''0'' 8 (show_base 16 (n mod 2 ^ 32))"

definition text_or_empty :: "string option \<Rightarrow> string" where \<comment> \<open>what hashing \<^verbatim>\<open>iks_strlen\<close> bytes sees\<close>
  "text_or_empty s = (case s of None \<Rightarrow> [] | Some s \<Rightarrow> s)"

text \<open>
  The message is changed in place: each value is cut at its quote.  The outer \<open>None\<close> is
  undefined behaviour (printing a NULL string among it), the inner one the NULL result.
\<close>

definition make_sasl_response :: "crypto \<Rightarrow> 'w stream_data \<Rightarrow> string \<Rightarrow> iks option option" where
  "make_sasl_response cr d message =
     (case (parse_digest message ''realm=\"'', parse_digest message ''nonce=\"'') of
        ((realm, realm_end), (nonce, nonce_end)) \<Rightarrow>
        case (nonce, nonce_end) of
          (Some n, Some ne) \<Rightarrow> do {
            message \<leftarrow> write_at ne [NUL] (message @ [NUL]);
            if realm \<noteq> None \<and> realm_end = None then Some None
            else do {
              message \<leftarrow> (case realm_end of Some re \<Rightarrow> write_at re [NUL] message | None \<Rightarrow> Some message);
              rl \<leftarrow> (case realm of Some r \<Rightarrow> map_option Some (c_str_at r message) | None \<Rightarrow> Some (server d));
              nonce \<leftarrow> c_str_at n message;
              let cnonce = hex8 (rand cr 0) @ hex8 (rand cr 1) @ hex8 (rand cr 2) @ hex8 (rand cr 3);
              let a1_h = md5_digest cr (text_or_empty (auth_username d) @ '':'' @ text_or_empty rl @ '':'' @ text_or_empty (auth_pass d));
              let a1 = md5_print cr (a1_h @ '':'' @ nonce @ '':'' @ cnonce);
              let a2 = md5_print cr (''AUTHENTICATE:xmpp/'' @ text_or_empty (server d));
              let response_value = md5_print cr (a1 @ '':'' @ nonce @ '':00000001:'' @ cnonce @ '':auth:'' @ a2);
              username \<leftarrow> auth_username d;
              realm \<leftarrow> rl;
              srv \<leftarrow> server d;
              let response = ''username=\"'' @ username @ ''\",realm=\"'' @ realm @ ''\",nonce=\"'' @ nonce @ ''\",cnonce=\"'' @ cnonce
                @ ''\",nc=00000001,qop=auth,digest-uri=\"xmpp/'' @ srv @ ''\",response='' @ response_value @ '',charset=utf-8'';
              _ \<leftarrow> write_at 0 (response @ [NUL])
                (replicate (length username + length realm + length nonce + length srv + 4 * 8 + 136) NUL);
              coded \<leftarrow> iks_base64_encode True (map of_char response @ [0]) 0;
              case coded of
                None \<Rightarrow> Some None
              | Some t \<Rightarrow> do { x \<leftarrow> iks_insert_cdata (iks_new ''response'') t 0; Some (Some x) }
            }
          }
        | _ \<Rightarrow> Some None)"

text \<open>
  \<^verbatim>\<open>iks_cdata (iks_child (challenge))\<close> of an element is undefined; of nothing it is NULL.
\<close>

definition iks_sasl_challenge :: "crypto \<Rightarrow> iks \<Rightarrow> 'w stream_data \<Rightarrow> 'w stream_data option" where
  "iks_sasl_challenge cr challenge d =
     (case iks_cdata (case iks_child (Some challenge) of [] \<Rightarrow> None | x # _ \<Rightarrow> Some x) of
        None \<Rightarrow> None
      | Some None \<Rightarrow> Some d
      | Some (Some tmp) \<Rightarrow>
          (case iks_base64_decode True (Some tmp) of
             None \<Rightarrow> None
           | Some None \<Rightarrow> Some d
           | Some (Some bytes) \<Rightarrow>
               (let message = c_str (map (\<lambda>b. char_of (unat b)) bytes) in
                case if strstr_at 0 message ''rspauth'' \<noteq> None then Some (Some (iks_new ''response''))
                     else make_sasl_response cr d message of
                  None \<Rightarrow> None
                | Some None \<Rightarrow> Some d
                | Some (Some x) \<Rightarrow> do {
                    x \<leftarrow> iks_insert_attrib x ''xmlns'' (Some ''urn:ietf:params:xml:ns:xmpp-sasl'');
                    y \<leftarrow> iks_send x d;
                    Some (snd y)
                  })))"

datatype ikssasltype = IKS_SASL_PLAIN | IKS_SASL_DIGEST_MD5

definition iks_start_sasl :: "ikssasltype \<Rightarrow> string \<Rightarrow> string \<Rightarrow> 'w stream_data \<Rightarrow> 'w stream_data option" where
  "iks_start_sasl ty username pass d = do {
     x \<leftarrow> iks_insert_attrib (iks_new ''auth'') ''xmlns'' (Some ''urn:ietf:params:xml:ns:xmpp-sasl'');
     (x, d) \<leftarrow> (case ty of
         IKS_SASL_PLAIN \<Rightarrow> do {
           let len = length username + length pass + 2;
           let s = [NUL] @ username @ [NUL] @ pass;
           x \<leftarrow> iks_insert_attrib x ''mechanism'' (Some ''PLAIN'');
           _ \<leftarrow> write_at 0 (s @ [NUL]) (replicate (80 + len) NUL);
           base64 \<leftarrow> iks_base64_encode True (map of_char s) (int len);
           t \<leftarrow> base64;
           x \<leftarrow> iks_insert_cdata x t 0;
           Some (x, d)
         }
       | IKS_SASL_DIGEST_MD5 \<Rightarrow> do {
           x \<leftarrow> iks_insert_attrib x ''mechanism'' (Some ''DIGEST-MD5'');
           Some (x, d\<lparr>auth_username := Some username, auth_pass := Some pass\<rparr>)
         });
     y \<leftarrow> iks_send x d;
     Some (snd y)
   }"

section \<open>The hooks\<close>

text \<open>\<open>hook\<close> is \<^verbatim>\<open>data->streamHook\<close>, called with the world.\<close>

definition call_stream :: "'w stream_hook \<Rightarrow> iksnode \<Rightarrow> 'w stream_data \<Rightarrow> (ikserror \<times> 'w stream_data) option" where
  "call_stream hook ev d = do { (e, w) \<leftarrow> hook ev (world d); Some (e, d\<lparr>world := w\<rparr>) }"

definition close_tag :: "crypto \<Rightarrow> 'w stream_hook \<Rightarrow> string \<Rightarrow> 'w stream_data \<Rightarrow> (ikserror \<times> 'w stream_data) option" where
  "close_tag cr hook name d =
     (case current d of
        [] \<Rightarrow> call_stream hook IKS_NODE_STOP d
      | [x] \<Rightarrow>
          (let d = d\<lparr>current := []\<rparr> in
           if iks_strcmp (Some name) (Some ''challenge'') = 0
           then do { d \<leftarrow> iks_sasl_challenge cr (node_of x) d; Some (IKS_OK, d) }
           else if iks_strcmp (Some name) (Some ''stream:error'') = 0 then call_stream hook (IKS_NODE_ERROR (node_of x)) d
           else call_stream hook (IKS_NODE_NORMAL (node_of x)) d)
      | x # parent # rest \<Rightarrow> Some (IKS_OK, d\<lparr>current := into_parent x parent # rest\<rparr>))"

definition stream_tagHook :: "crypto \<Rightarrow> 'w stream_hook \<Rightarrow> 'w stream_data tag_fun" where
  "stream_tagHook cr hook d name attrs ty =
     (if ty = IKS_CLOSE then close_tag cr hook name d
      else if current d = [] \<and> iks_strcmp (Some name) (Some ''stream:stream'') = 0
      then call_stream hook (IKS_NODE_START (node_of (tag_node name attrs))) d
      else
        (let d = d\<lparr>current := tag_node name attrs # current d\<rparr> in
         if ty = IKS_OPEN then Some (IKS_OK, d) else close_tag cr hook name d))"

definition stream_cdataHook :: "'w stream_data \<Rightarrow> string \<Rightarrow> 'w stream_data" where
  "stream_cdataHook d cdata = d\<lparr>current := add_cdata cdata (current d)\<rparr>"

definition stream_deleteHook :: "'w stream_data \<Rightarrow> 'w stream_data" where
  "stream_deleteHook d = (let d = (case trans d of None \<Rightarrow> d | Some t \<Rightarrow> d\<lparr>world := t_close t (world d)\<rparr>) in
     d\<lparr>trans := None, current := []\<rparr>)"

definition stream_hooks :: "crypto \<Rightarrow> 'w stream_hook \<Rightarrow> 'w stream_data hooks" where
  "stream_hooks cr hook = \<lparr>tagHook = Some (stream_tagHook cr hook),
     cdataHook = Some (\<lambda>d s. Some (IKS_OK, stream_cdataHook d s)), deleteHook = Some stream_deleteHook\<rparr>"

definition iks_stream_new :: "string \<Rightarrow> 'w \<Rightarrow> iksparser \<times> 'w stream_data" where
  "iks_stream_new ns w = (iks_sax_extend,
     \<lparr>current = [], trans = None, name_space = ns, server = None, logHook = None, buf_there = False,
       auth_username = None, auth_pass = None, world = w\<rparr>)"

definition iks_disconnect :: "crypto \<Rightarrow> 'w stream_hook \<Rightarrow> iksparser \<times> 'w stream_data \<Rightarrow> iksparser \<times> 'w stream_data" where
  "iks_disconnect cr hook x = iks_parser_reset (stream_hooks cr hook) x"

text \<open>
  The loop of \<^verbatim>\<open>iks_recv\<close>.  The buffer has 4096 bytes, one of them for the NUL; a call
  without a transport is undefined.
\<close>

partial_function (option) iks_recv ::
  "(nat \<Rightarrow> string option) \<Rightarrow> crypto \<Rightarrow> 'w stream_hook \<Rightarrow> int \<Rightarrow> iksparser \<times> 'w stream_data
     \<Rightarrow> (int \<times> iksparser \<times> 'w stream_data) option" where
  "iks_recv alloc cr hook timeout x =
     (case trans (snd x) of
        None \<Rightarrow> None
      | Some t \<Rightarrow>
          (case t_recv t timeout (world (snd x)) of
             (got, w) \<Rightarrow>
               (let d = (snd x)\<lparr>world := w\<rparr> in
                case got of
                  None \<Rightarrow> Some (IKS_NET_RWERR, fst x, d)
                | Some s \<Rightarrow>
                    if s = [] then Some (0, fst x, d)
                    else if 4096 \<le> length s then None
                    else do {
                      (y, e) \<leftarrow> iks_parse alloc (stream_hooks cr hook) (Some s) (length s) (fst x, call_log s True d);
                      if e \<noteq> IKS_OK then Some (ikserror_code e, y)
                      else if trans (snd y) = None then Some (IKS_NET_NOCONN, y)
                      else iks_recv alloc cr hook 0 y
                    })))"

text \<open>The parser behind a connection: text is handled as it comes in.\<close>

interpretation stream: piecewise_hooks "stream_hooks cr hook" "stream_tagHook cr hook" stream_cdataHook for cr hook
proof
  show "stream_cdataHook d (s @ t) = stream_cdataHook (stream_cdataHook d s) t" if "s \<noteq> []" "t \<noteq> []" for d s t
    using add_cdata_joins [OF that] by (simp add: stream_cdataHook_def)
qed (simp_all add: stream_hooks_def)

end
