(* ===== verification/CatDlg.thy ===== *)
theory CatDlg
  imports CatState CLib Jabber Base64 IksStream
begin

text \<open>
  The protocol of the client, \<^verbatim>\<open>src/CuteCat/CuteCat/CuteCatDlg.cpp\<close>: the stream hook and its
  handlers, and the buttons that send requests.  Of the window, the state the handlers keep, the
  enabled controls, the lists and the message boxes are modelled.
\<close>

section \<open>State\<close>

datatype HCISTATUS = HCI_ERROR | HCI_UNKNOW | HCI_UNAUTH | HCI_AUTHED | HCI_HOOKER | HCI_HOOKER_RUNNING | HCI_HOOKER_STOP
  | HCI_PIONEER | HCI_PIONEER_RUNNING | HCI_PIONEER_STOP

datatype run_status = RUN_ERROR | RUN_UNKNOW | RUN_UNAUTH | RUN_AUTHED | RUN_START | RUN_RUNNING | RUN_STOP

datatype ctrl = BTN_PSTART | BTN_PSTOP | BTN_HSTART | BTN_HSTOP | EDIT_OPTION | EDIT_NAME | BTN_LOGIN | RADIO1 | RADIO2

text \<open>\<open>cap_buf\<close> holds the \<open>iLen + 1\<close> bytes behind \<^verbatim>\<open>pBuf\<close>.\<close>

record CAPELEMENT =
  cap_len :: nat
  cap_buf :: string

record msg_row =
  row_sn :: "string option"
  row_from :: "string option"
  row_fp :: "string option"
  row_to :: "string option"
  row_tp :: "string option"
  row_len :: "string option"
  row_content :: string

record cat_dlg =
  m_Status :: run_status
  m_Name :: string
  m_Option :: string
  m_SelCuteDogName :: string
  m_EthModel :: nat
  m_ListMsg :: "msg_row list"
  m_ListView :: "(string option \<times> string option) list"
  m_CapElement :: "CAPELEMENT list"
  enabled :: "ctrl \<Rightarrow> bool"
  boxes :: "string list"

text \<open>\<open>radio\<close> is the checked radio button; \<open>cap_room\<close> answers the allocation of a captured element.\<close>

record dlg_env =
  radio :: "ctrl option"
  cap_room :: bool

type_synonym client = "cat \<times> cat_dlg"

definition AfxMessageBox :: "string \<Rightarrow> client \<Rightarrow> client" where
  "AfxMessageBox t s = (fst s, (snd s)\<lparr>boxes := boxes (snd s) @ [t]\<rparr>)"

definition set_status :: "run_status \<Rightarrow> client \<Rightarrow> client" where
  "set_status r s = (fst s, (snd s)\<lparr>m_Status := r\<rparr>)"

definition push :: "string \<Rightarrow> client \<Rightarrow> client" where \<comment> \<open>\<^verbatim>\<open>PushSendStream(SndBuf,0)\<close>\<close>
  "push t s = (snd (PushSendStream t 0 (fst s)), snd s)"

definition controls :: "HCISTATUS \<Rightarrow> (ctrl \<times> bool) list" where
  "controls h =
     (case h of
        HCI_UNKNOW \<Rightarrow> [(BTN_PSTART, False), (BTN_PSTOP, False), (BTN_HSTART, False), (BTN_HSTOP, False),
          (EDIT_OPTION, False), (RADIO1, False), (RADIO2, False)]
      | HCI_UNAUTH \<Rightarrow> [(EDIT_NAME, True), (BTN_LOGIN, True)]
      | HCI_AUTHED \<Rightarrow> [(BTN_LOGIN, False), (EDIT_NAME, False), (RADIO1, True), (RADIO2, True)]
      | HCI_HOOKER \<Rightarrow> [(BTN_HSTART, True), (EDIT_OPTION, False), (BTN_PSTART, False)]
      | HCI_HOOKER_RUNNING \<Rightarrow> [(BTN_HSTOP, True), (BTN_HSTART, False), (RADIO1, False), (RADIO2, False)]
      | HCI_HOOKER_STOP \<Rightarrow> [(RADIO1, True), (RADIO2, True), (BTN_HSTOP, False)]
      | HCI_PIONEER \<Rightarrow> [(EDIT_OPTION, True), (BTN_PSTART, True)]
      | HCI_PIONEER_RUNNING \<Rightarrow> [(BTN_PSTOP, True), (BTN_PSTART, False), (RADIO1, False), (RADIO2, False)]
      | HCI_PIONEER_STOP \<Rightarrow> [(RADIO1, True), (RADIO2, True), (BTN_PSTART, True), (BTN_PSTOP, False)]
      | HCI_ERROR \<Rightarrow> [(BTN_LOGIN, True), (RADIO1, True), (RADIO2, True),
          (BTN_PSTART, False), (BTN_PSTOP, False), (BTN_HSTART, False), (BTN_HSTOP, False)])"

definition HCIStatusCenter :: "HCISTATUS \<Rightarrow> client \<Rightarrow> client" where
  "HCIStatusCenter h s = (fst s, (snd s)\<lparr>enabled := fold (\<lambda>(c, b) f. f(c := b)) (controls h) (enabled (snd s))\<rparr>)"

text \<open>\<^verbatim>\<open>sprintf\<close> of a text into an array of \<open>n\<close> bytes.\<close>

definition fits :: "nat \<Rightarrow> string \<Rightarrow> string option" where
  "fits n t = (if length t < n then Some t else None)"

section \<open>Requests\<close>

definition LOGIN_STREAM :: "string \<Rightarrow> string" where
  "LOGIN_STREAM name = ''<iq type='' @ in_quotes ''set'' @ '' ><query xmlns='' @ in_quotes ''jabber:iq:auth'' @ ''><username>''
     @ name @ ''</username></query></iq>''"

definition NEW_CUTEDOG_STREAM :: "string \<Rightarrow> string \<Rightarrow> string \<Rightarrow> string" where
  "NEW_CUTEDOG_STREAM model name filt = ''<iq type='' @ in_quotes ''set'' @ ''><query xmlns='' @ in_quotes ''filter:new''
     @ '' action='' @ in_quotes ''create'' @ '' model='' @ in_quotes model @ ''><username>'' @ name
     @ ''</username><filterstring>'' @ filt @ ''</filterstring></query></iq>''"

definition DEL_CUTEDOG_STREAM :: "string \<Rightarrow> string" where
  "DEL_CUTEDOG_STREAM name = ''<iq type='' @ in_quotes ''set'' @ ''><query xmlns='' @ in_quotes ''filter:new''
     @ '' action='' @ in_quotes ''cancel'' @ ''><username>'' @ name @ ''</username></query></iq>''"

definition FILTER_SHOW :: string where
  "FILTER_SHOW = ''<iq type='' @ in_quotes ''get'' @ '' ><query xmlns='' @ in_quotes ''filter:show'' @ '' action='' @ in_quotes ''show''
     @ ''></query></iq>''"

definition HOOK_CUTEDOG :: "string \<Rightarrow> string \<Rightarrow> string" where
  "HOOK_CUTEDOG name dog = ''<iq type='' @ in_quotes ''set'' @ ''><query xmlns='' @ in_quotes ''filter:hook''
     @ '' action='' @ in_quotes ''hook'' @ ''><item cat='' @ in_quotes name @ ''>'' @ dog @ ''</item></query></iq>''"

definition CANCEL_HOOK_CUTEDOG :: "string \<Rightarrow> string \<Rightarrow> string" where
  "CANCEL_HOOK_CUTEDOG name dog = ''<iq type='' @ in_quotes ''set'' @ ''><query xmlns='' @ in_quotes ''filter:hook''
     @ '' action='' @ in_quotes ''cancel'' @ ''><item cat='' @ in_quotes name @ ''>'' @ dog @ ''</item></query></iq>''"

section \<open>Buttons\<close>

text \<open>\<open>Option\<close> is the text of the edit control.\<close>

definition OnBtnPioneerStart :: "string \<Rightarrow> client \<Rightarrow> client option" where
  "OnBtnPioneerStart opt s =
     (if length opt < 1 then Some (AfxMessageBox ''Please Input Option String!!'' s)
      else
        (let s = (fst s, (snd s)\<lparr>m_Option := take 127 opt\<rparr>) in
         if m_Status (snd s) = RUN_AUTHED \<or> m_Status (snd s) = RUN_STOP then do {
           SndBuf \<leftarrow> (if m_EthModel (snd s) = 0 then fits 1024 (NEW_CUTEDOG_STREAM ''lo'' (m_Name (snd s)) (m_Option (snd s)))
             else if m_EthModel (snd s) = 1 then fits 1024 (NEW_CUTEDOG_STREAM ''net'' (m_Name (snd s)) (m_Option (snd s)))
             else Some []);
           Some (set_status RUN_START (push SndBuf s))
         }
         else Some (AfxMessageBox ''Status Error !! '' s)))"

definition OnBtnPioneerStop :: "client \<Rightarrow> client option" where
  "OnBtnPioneerStop s = do {
     s \<leftarrow> (if m_Status (snd s) = RUN_RUNNING
       then do { SndBuf \<leftarrow> fits 1024 (DEL_CUTEDOG_STREAM (m_Name (snd s))); Some (push SndBuf s) } else Some s);
     Some (set_status RUN_STOP s)
   }"

definition OnBtnHookerStart :: "client \<Rightarrow> client option" where
  "OnBtnHookerStart s =
     (if m_SelCuteDogName (snd s) \<noteq> [] \<and> (m_Status (snd s) = RUN_AUTHED \<or> m_Status (snd s) = RUN_STOP) then do {
        SndBuf \<leftarrow> fits 1024 (HOOK_CUTEDOG (m_Name (snd s)) (m_SelCuteDogName (snd s)));
        Some (set_status RUN_START (push SndBuf s))
      }
      else Some s)"

definition OnBtnHookerStop :: "client \<Rightarrow> client option" where
  "OnBtnHookerStop s =
     (if m_Status (snd s) = RUN_RUNNING then do {
        SndBuf \<leftarrow> fits 1024 (CANCEL_HOOK_CUTEDOG (m_Name (snd s)) (m_SelCuteDogName (snd s)));
        Some (push SndBuf s)
      }
      else Some s)"

text \<open>A click into the list of cutedogs; \<open>sel\<close> is the text of the selected row.\<close>

definition OnClickListView :: "dlg_env \<Rightarrow> string option \<Rightarrow> client \<Rightarrow> client option" where
  "OnClickListView env sel s =
     (case sel of
        None \<Rightarrow> Some s
      | Some t \<Rightarrow>
          if t \<noteq> [] \<and> m_Status (snd s) \<noteq> RUN_RUNNING then do {
            n \<leftarrow> fits 32 t;
            let s = (fst s, (snd s)\<lparr>m_SelCuteDogName := n\<rparr>);
            Some (if radio env = Some RADIO1 then HCIStatusCenter HCI_HOOKER s else s)
          }
          else Some s)"

definition ONRadio :: "ctrl \<Rightarrow> client \<Rightarrow> client" where
  "ONRadio nID s =
     (if m_Status (snd s) = RUN_UNAUTH then AfxMessageBox ''You have not login succeed!!'' s
      else if nID = RADIO1 then HCIStatusCenter HCI_HOOKER s
      else if nID = RADIO2 then HCIStatusCenter HCI_PIONEER s else s)"

text \<open>The menu that selects the network; \<open>checked\<close> says whether the item is checked already.\<close>

definition ONEthModel :: "bool \<Rightarrow> bool \<Rightarrow> client \<Rightarrow> client" where
  "ONEthModel checked net s =
     (if checked then s else (fst s, (snd s)\<lparr>m_EthModel := if net then 1 else 0\<rparr>))"

definition OnMenuClear :: "client \<Rightarrow> client" where
  "OnMenuClear s = (fst s, (snd s)\<lparr>m_ListMsg := [], m_CapElement := []\<rparr>)"

section \<open>Answers of the server\<close>

definition answered_ok :: "iks option \<Rightarrow> bool option" where \<comment> \<open>\<^verbatim>\<open>iks_strcmp(ID,"OK")==0\<close>\<close>
  "answered_ok x = do {
     err \<leftarrow> iks_find x ''error'';
     ID \<leftarrow> iks_find_attrib err ''id'';
     Some (iks_strcmp ID (Some ''OK'') = 0)
   }"

definition RespLogin :: "dlg_env \<Rightarrow> iks option \<Rightarrow> client \<Rightarrow> client option" where
  "RespLogin env x s = do {
     good \<leftarrow> answered_ok x;
     Some (if good then
         (let s = HCIStatusCenter HCI_AUTHED (set_status RUN_AUTHED (push FILTER_SHOW s)) in
          if radio env = Some RADIO2 then HCIStatusCenter HCI_PIONEER s else s)
       else AfxMessageBox ''Name have existed please change another one!'' (set_status RUN_UNAUTH s))
   }"

definition RespFilterNew :: "dlg_env \<Rightarrow> iks option \<Rightarrow> client \<Rightarrow> client option" where
  "RespFilterNew env x s = do {
     action \<leftarrow> iks_find_attrib x ''action'';
     good \<leftarrow> answered_ok x;
     Some (if iks_strcmp action (Some ''create'') = 0 then
         if good then
           (let s = set_status RUN_RUNNING s in
            if radio env = Some RADIO2 then HCIStatusCenter HCI_PIONEER_RUNNING s else s)
         else AfxMessageBox ''Option Set Fail,Please check Option condition!'' (set_status RUN_STOP s)
       else if iks_strcmp action (Some ''cancel'') = 0 then
         if good then HCIStatusCenter HCI_PIONEER_STOP (set_status RUN_STOP s)
         else AfxMessageBox ''Stop Pionner Fail!!'' s
       else s)
   }"

definition cat_RespSetHooker :: "iks option \<Rightarrow> client \<Rightarrow> client option" where
  "cat_RespSetHooker x s = do {
     action \<leftarrow> iks_find_attrib x ''action'';
     good \<leftarrow> answered_ok x;
     Some (if iks_strcmp action (Some ''hook'') = 0 then
         if good then HCIStatusCenter HCI_HOOKER_RUNNING (set_status RUN_RUNNING s)
         else set_status RUN_STOP (AfxMessageBox ''Set Hook Error !!!'' s)
       else if iks_strcmp action (Some ''cancel'') = 0 then
         if good then HCIStatusCenter HCI_HOOKER_STOP (set_status RUN_STOP s)
         else AfxMessageBox ''Stop Hooker Fail!!'' s
       else s)
   }"

text \<open>Printing a NULL name and writing past \<^verbatim>\<open>Msg\<close> are undefined.\<close>

definition RespFilterNotice :: "iks option \<Rightarrow> client \<Rightarrow> client option" where
  "RespFilterNotice x s = do {
     action \<leftarrow> iks_find_attrib x ''action'';
     name \<leftarrow> iks_find_cdata x ''username'';
     if iks_strcmp action (Some ''lose'') = 0 then do {
       name \<leftarrow> name;
       Msg \<leftarrow> fits 128 (''Pioneer ['' @ name @ ''] have exit,so stop now!'');
       Some (set_status RUN_STOP (HCIStatusCenter HCI_HOOKER_STOP (AfxMessageBox Msg s)))
     }
     else Some s
   }"

text \<open>The loop goes on from the query to the elements that follow it.\<close>

fun filter_rows :: "iks list \<Rightarrow> (string option \<times> string option) list option" where
  "filter_rows [] = Some []"
| "filter_rows (child # rest) = do {
     name \<leftarrow> iks_find_cdata (Some child) ''name'';
     opt \<leftarrow> iks_find_cdata (Some child) ''filterstring'';
     rows \<leftarrow> filter_rows rest;
     Some (if name \<noteq> None \<or> opt \<noteq> None then (name, opt) # rows else rows)
   }"

definition RespAllFilters :: "iks list \<Rightarrow> client \<Rightarrow> client option" where
  "RespAllFilters xs s = do { rows \<leftarrow> filter_rows xs; Some (fst s, (snd s)\<lparr>m_ListView := rows\<rparr>) }"

text \<open>The elements from the first one with a name, as \<^verbatim>\<open>iks_find\<close> and \<^verbatim>\<open>iks_next\<close> reach them.\<close>

definition from_child :: "string \<Rightarrow> iks list \<Rightarrow> iks list" where
  "from_child name cs = dropWhile (\<lambda>y. case y of IksTag n _ _ \<Rightarrow> n \<noteq> name | IksCData _ \<Rightarrow> True) cs"

text \<open>\<^verbatim>\<open>strcmp(type,a)==0 && strcmp(xmlns,b)==0\<close>; a NULL that is compared is undefined.\<close>

definition both_are :: "string option \<Rightarrow> string \<Rightarrow> string option \<Rightarrow> string \<Rightarrow> bool option" where
  "both_are ty a ns b = do {
     t \<leftarrow> ty;
     if strcmp t a = 0 then do { n \<leftarrow> ns; Some (strcmp n b = 0) } else Some False
   }"

definition IOXMLIQ :: "dlg_env \<Rightarrow> iks \<Rightarrow> client \<Rightarrow> client option" where
  "IOXMLIQ env node s = do {
     ty \<leftarrow> iks_find_attrib (Some node) ''type'';
     x \<leftarrow> iks_find (Some node) ''query'';
     ns \<leftarrow> iks_find_attrib x ''xmlns'';
     b \<leftarrow> both_are ty ''result'' ns ''jabber:iq:auth'';
     if b then RespLogin env x s
     else do {
       b \<leftarrow> both_are ty ''result'' ns ''filter:show'';
       if b then RespAllFilters (from_child ''query'' (iks_child (Some node))) s
       else do {
         b \<leftarrow> both_are ty ''result'' ns ''filter:hook'';
         if b then cat_RespSetHooker x s
         else do {
           b \<leftarrow> both_are ty ''result'' ns ''filter:new'';
           if b then RespFilterNew env x s
           else do {
             b \<leftarrow> both_are ty ''set'' ns ''filter:notice'';
             if b then RespFilterNotice x s else Some s
           }
         }
       }
     }
   }"

section \<open>Captured payloads\<close>

text \<open>
  \<^verbatim>\<open>iLen\<close> is a \<^verbatim>\<open>size_t\<close>, so a negative size is a large one.  A size of 0 leaves \<^verbatim>\<open>pCapEle\<close> NULL, which is
  read in the end; the copy reads \<open>iLen\<close> bytes of what was decoded.
\<close>

definition IOXMLMessage :: "dlg_env \<Rightarrow> iks \<Rightarrow> client \<Rightarrow> client option" where
  "IOXMLMessage env node s = do {
     From \<leftarrow> iks_find_attrib (Some node) ''from'';
     Fp \<leftarrow> iks_find_attrib (Some node) ''fp'';
     To \<leftarrow> iks_find_attrib (Some node) ''to'';
     Tp \<leftarrow> iks_find_attrib (Some node) ''tp'';
     body \<leftarrow> iks_find (Some node) ''body'';
     Len \<leftarrow> iks_find_attrib body ''size'';
     Sn \<leftarrow> iks_find_attrib body ''sn'';
     str \<leftarrow> iks_find_cdata (Some node) ''body'';
     t \<leftarrow> Len;
     iLen \<leftarrow> atoi t;
     if iLen = 0 then None
     else if iLen < 0 \<or> 4096 < iLen then Some s
     else if \<not> cap_room env then Some s
     else do {
       pDataDecode \<leftarrow> iks_base64_decode True str;
       bytes \<leftarrow> pDataDecode;
       buf \<leftarrow> read_at 0 (nat iLen) bytes;
       let cap = \<lparr>cap_len = nat iLen, cap_buf = map (\<lambda>b. char_of (unat b)) buf @ [NUL]\<rparr>;
       let row = \<lparr>row_sn = Sn, row_from = From, row_fp = Fp, row_to = To, row_tp = Tp, row_len = Len, row_content = c_str (cap_buf cap)\<rparr>;
       Some (fst s, (snd s)\<lparr>m_ListMsg := m_ListMsg (snd s) @ [row], m_CapElement := m_CapElement (snd s) @ [cap]\<rparr>)
     }
   }"

text \<open>
  The text of the edit controls after a click on a message, \<open>None\<close> for one that is not set.  \<^verbatim>\<open>OutStrBuf\<close> has
  4096 bytes, so a text of that length has no NUL behind it.
\<close>

definition ShowString :: "string \<Rightarrow> nat \<Rightarrow> string option option" where
  "ShowString ptrBuf Len =
     (if 4096 < Len then Some None
      else do {
        bytes \<leftarrow> read_at 0 Len ptrBuf;
        OutStrBuf \<leftarrow> fits 4096 (map (\<lambda>c. if c = NUL then CHR ''.'' else c) bytes);
        Some (Some OutStrBuf)
      })"

text \<open>\<^verbatim>\<open>"%-3X"\<close> prints three characters and a NUL into an array of three.\<close>

fun hex_columns :: "nat \<Rightarrow> string \<Rightarrow> string option" where
  "hex_columns 0 buf = Some []"
| "hex_columns (Suc n) [] = None"
| "hex_columns (Suc n) (c # buf) = do {
     Element \<leftarrow> fits 3 (pad_right 3 (show_base 16 (of_char c)));
     rest \<leftarrow> hex_columns n buf;
     Some (Element @ rest)
   }"

definition OnClickMessageList :: "nat option \<Rightarrow> client \<Rightarrow> (string option \<times> string option) option" where
  "OnClickMessageList sel s =
     (case sel of
        None \<Rightarrow> Some (None, None)
      | Some i \<Rightarrow> do {
          pCapEle \<leftarrow> nth_opt (m_CapElement (snd s)) i;
          str \<leftarrow> ShowString (cap_buf pCapEle) (cap_len pCapEle);
          HEX \<leftarrow> hex_columns (cap_len pCapEle) (cap_buf pCapEle);
          Some (str, Some HEX)
        })"

section \<open>The hook\<close>

text \<open>
  The reset at the end, for elements of more than 4096 bytes, changes the counters of the parser only and is
  left out; the result is 0.
\<close>

definition IOProcessDogMsg :: "dlg_env \<Rightarrow> iksnode \<Rightarrow> client \<Rightarrow> client option" where
  "IOProcessDogMsg env ev s =
     (case ev of
        IKS_NODE_START node \<Rightarrow> do {
          let s = (SetClientStatus CLIENT_SHAKEED (fst s), snd s);
          SndBuf \<leftarrow> fits 1024 (LOGIN_STREAM (m_Name (snd s)));
          let (ret, c) = PushSendStream SndBuf 0 (fst s);
          Some (if ret \<noteq> 0 then SetClientStatus CLIENT_LOGINED c else c, snd s)
        }
      | IKS_NODE_NORMAL node \<Rightarrow> do {
          pak \<leftarrow> iks_packet node;
          case pak_type pak of
            IKS_PAK_MESSAGE \<Rightarrow> IOXMLMessage env node s
          | IKS_PAK_IQ \<Rightarrow> IOXMLIQ env node s
          | _ \<Rightarrow> Some s
        }
      | IKS_NODE_ERROR node \<Rightarrow> Some s
      | IKS_NODE_STOP \<Rightarrow>
          if Status (fst s) = CLIENT_STOPPED then
            Some (AfxMessageBox ''Server Stopped,Please check it!!''
              (set_status RUN_UNAUTH (HCIStatusCenter HCI_UNAUTH (HCIStatusCenter HCI_UNKNOW s))))
          else Some s)"

text \<open>The world of the client's parser: the number of the callbacks so far and the state of the client.\<close>

definition dog_hook :: "(nat \<Rightarrow> dlg_env) \<Rightarrow> (nat \<times> client) stream_hook" where
  "dog_hook envs ev w = map_option (\<lambda>s. (IKS_OK, Suc (fst w), s)) (IOProcessDogMsg (envs (fst w)) ev (snd w))"

section \<open>Clicks\<close>

datatype click = Pioneer_Start string | Pioneer_Stop | Hooker_Start | Hooker_Stop | Select_Dog dlg_env "string option"
  | Select_Message "nat option" | Radio ctrl | Eth_Model bool bool | Menu_Clear

definition on_click :: "click \<Rightarrow> client \<Rightarrow> client option" where
  "on_click k s =
     (case k of
        Pioneer_Start opt \<Rightarrow> OnBtnPioneerStart opt s
      | Pioneer_Stop \<Rightarrow> OnBtnPioneerStop s
      | Hooker_Start \<Rightarrow> OnBtnHookerStart s
      | Hooker_Stop \<Rightarrow> OnBtnHookerStop s
      | Select_Dog env sel \<Rightarrow> OnClickListView env sel s
      | Select_Message sel \<Rightarrow> map_option (\<lambda>_. s) (OnClickMessageList sel s)
      | Radio nID \<Rightarrow> Some (ONRadio nID s)
      | Eth_Model checked net \<Rightarrow> Some (ONEthModel checked net s)
      | Menu_Clear \<Rightarrow> Some (OnMenuClear s))"

section \<open>What the handlers leave alone\<close>

text \<open>No handler and no click touches the connection of the client.\<close>

definition same_net :: "client \<Rightarrow> client \<Rightarrow> bool" where
  "same_net s s' \<longleftrightarrow> nCnnAnOK (fst s') = nCnnAnOK (fst s) \<and> Socket (fst s') = Socket (fst s)
     \<and> SockStatus (fst s') = SockStatus (fst s) \<and> DOG (fst s') = DOG (fst s) \<and> pSndData (fst s') = pSndData (fst s)"

lemma same_net_id [simp]: "same_net s s"
  by (simp add: same_net_def)

lemma same_net_moves [simp]:
  "same_net s (AfxMessageBox t s') = same_net s s'" "same_net s (set_status r s') = same_net s s'"
  "same_net s (push t s') = same_net s s'" "same_net s (HCIStatusCenter h s') = same_net s s'"
  "same_net s (ONRadio k s') = same_net s s'" "same_net s (ONEthModel b n s') = same_net s s'"
  "same_net s (OnMenuClear s') = same_net s s'" "same_net s (fst s', d) = same_net s s'"
  by (simp_all add: same_net_def AfxMessageBox_def set_status_def push_def PushSendStream_def HCIStatusCenter_def
      ONRadio_def ONEthModel_def OnMenuClear_def Let_def)

lemmas answer_defs = RespLogin_def RespFilterNew_def cat_RespSetHooker_def RespFilterNotice_def RespAllFilters_def IOXMLMessage_def

lemma answer_same_net:
  "RespLogin env x s = Some s' \<Longrightarrow> same_net s s'" "RespFilterNew env x s = Some s' \<Longrightarrow> same_net s s'"
  "cat_RespSetHooker x s = Some s' \<Longrightarrow> same_net s s'" "RespFilterNotice x s = Some s' \<Longrightarrow> same_net s s'"
  "RespAllFilters xs s = Some s' \<Longrightarrow> same_net s s'" "IOXMLMessage env node s = Some s' \<Longrightarrow> same_net s s'"
  by (auto simp: answer_defs Let_def split: bind_splits if_splits)

lemma IOXMLIQ_same_net: "IOXMLIQ env node s = Some s' \<Longrightarrow> same_net s s'"
  by (auto simp: IOXMLIQ_def split: bind_splits if_splits dest: answer_same_net)

lemma dog_msg_same_net:
  assumes "IOProcessDogMsg env ev s = Some s'"
  shows "same_net s s'"
proof (cases ev)
  case (IKS_NODE_START node)
  then show ?thesis
    using assms by (auto simp: IOProcessDogMsg_def Let_def same_net_def SetClientStatus_def PushSendStream_def split: bind_splits)
next
  case (IKS_NODE_NORMAL node)
  then show ?thesis
    using assms by (auto simp: IOProcessDogMsg_def split: bind_splits ikspaktype.splits dest: answer_same_net IOXMLIQ_same_net)
qed (use assms in \<open>auto simp: IOProcessDogMsg_def split: if_splits\<close>)

lemma push_same_net: "push t s = s' \<Longrightarrow> same_net s s'"
  by auto

lemma click_same_net:
  assumes "on_click k s = Some s'"
  shows "same_net s s'"
  using assms
  by (cases k) (auto simp: on_click_def OnBtnPioneerStart_def OnBtnPioneerStop_def OnBtnHookerStart_def OnBtnHookerStop_def
      OnClickListView_def Let_def split: bind_splits if_splits option.splits dest: push_same_net)

section \<open>Properties\<close>

text \<open>
  A click on a stored message is undefined: every byte is printed with \<^verbatim>\<open>"%-3X"\<close>, which needs four
  characters, into an array of three.
\<close>

theorem message_click_overflows:
  assumes "nth_opt (m_CapElement (snd s)) i = Some cap" and "0 < cap_len cap"
  shows "OnClickMessageList (Some i) s = None"
proof -
  have "fits 3 (pad_right 3 t) = None" for t by (simp add: fits_def pad_right_def)
  then have "hex_columns (cap_len cap) (cap_buf cap) = None"
    using assms(2) by (cases "(cap_len cap, cap_buf cap)" rule: hex_columns.cases) simp_all
  then show ?thesis using assms(1) by (simp add: OnClickMessageList_def split: option.split bind_split)
qed


definition dlg_idle :: cat_dlg where
  "dlg_idle = \<lparr>m_Status = RUN_UNKNOW, m_Name = ''tom'', m_Option = [], m_SelCuteDogName = [], m_EthModel = 0,
     m_ListMsg = [], m_ListView = [], m_CapElement = [], enabled = \<lambda>_. False, boxes = []\<rparr>"

theorem message_click_overflows_witness:
  "OnClickMessageList (Some 0) (cat_idle, dlg_idle\<lparr>m_CapElement := [\<lparr>cap_len = 2, cap_buf = ''ab'' @ [NUL]\<rparr>]\<rparr>) = None"
  by (rule message_click_overflows [where cap = "\<lparr>cap_len = 2, cap_buf = ''ab'' @ [NUL]\<rparr>"]) (simp_all add: nth_opt_def)

end
