(* ===== verification/SaxKeep.thy ===== *)
theory SaxKeep
  imports Sax
begin

text \<open>
  What the tokenizer of \<^verbatim>\<open>src/CuteCat/iksemel/sax.c\<close> does to the state of its hooks on any input,
  well formed or not: it only calls the hooks, so what every hook keeps holds after
  \<^verbatim>\<open>iks_parse\<close>, whatever the bytes and the state of the parser.
\<close>

locale hook_keeps =
  fixes h :: "'u hooks" and P :: "'u \<Rightarrow> bool"
  assumes tag_keeps: "tagHook h = Some t \<Longrightarrow> P u \<Longrightarrow> t u n as ty = Some (e, u') \<Longrightarrow> P u'"
    and cdata_keeps: "cdataHook h = Some k \<Longrightarrow> P u \<Longrightarrow> k u s = Some (e, u') \<Longrightarrow> P u'"
begin

definition keeps :: "'u result \<Rightarrow> bool" where
  "keeps x \<longleftrightarrow> (\<forall>r v. x = Some (r, v) \<longrightarrow> P (usr r))"

lemma keeps_None [simp]: "keeps None"
  by (simp add: keeps_def)

lemma keeps_Some [simp]: "keeps (Some (r, v)) \<longleftrightarrow> P (usr r)"
  by (simp add: keeps_def)

lemma keeps_bind: "(\<And>y. x = Some y \<Longrightarrow> keeps (f y)) \<Longrightarrow> keeps (Option.bind x f)"
  by (cases x) simp_all

lemma keeps_moves [simp]:
  "keeps (to_ctx k r) \<longleftrightarrow> P (usr r)" "keeps (again_in k r) \<longleftrightarrow> P (usr r)" "keeps (fail_with e r) \<longleftrightarrow> P (usr r)"
  by (simp_all add: to_ctx_def again_in_def fail_with_def)

lemma usr_start_old [simp]: "usr (start_old r) = usr r"
  by (simp add: start_old_def)

lemma keeps_call_hook:
  assumes "\<And>e u. x = Some (e, u) \<Longrightarrow> P u" and "\<And>r'. P (usr r') \<Longrightarrow> keeps (f r')"
  shows "keeps (call_hook x f r)"
  using assms by (auto simp: call_hook_def Let_def intro!: keeps_bind)

lemma keeps_call_cdata:
  assumes "P (usr r)" and "\<And>r'. P (usr r') \<Longrightarrow> keeps (f r')"
  shows "keeps (call_cdata h s f r)"
  using assms cdata_keeps [OF _ assms(1)] by (auto simp: call_cdata_def intro: keeps_call_hook split: option.split)

lemma keeps_deliver:
  assumes "P (usr r)" and "\<And>r'. P (usr r') \<Longrightarrow> keeps (f r')"
  shows "keeps (deliver h buf f r)"
  using assms by (auto simp: deliver_def intro: keeps_bind keeps_call_cdata)

lemma keeps_close_string:
  assumes "P (usr r)" and "\<And>r'. P (usr r') \<Longrightarrow> keeps (f r')"
  shows "keeps (close_string alloc buf f r)"
  using assms by (auto simp: close_string_def Let_def intro!: keeps_bind)

lemma keeps_tag_end: "P (usr r) \<Longrightarrow> keeps (sax_TAG_END h c r)"
  using tag_keeps [of _ "usr r"]
  by (auto simp: sax_TAG_END_def Let_def intro!: keeps_bind keeps_call_hook split: option.split)

lemma keeps_cdata: "P (usr r) \<Longrightarrow> keeps (sax_CDATA alloc h buf c r)"
  by (auto simp: sax_CDATA_def intro!: keeps_deliver split: prod.split)

lemma keeps_entity: "P (usr r) \<Longrightarrow> keeps (sax_ENTITY h c r)"
  by (auto simp: sax_ENTITY_def Let_def intro!: keeps_call_cdata)

lemma keeps_sections:
  "P (usr r) \<Longrightarrow> keeps (sax_SECT_CDATA_C h buf c r)"
  "P (usr r) \<Longrightarrow> keeps (sax_SECT_CDATA_E h c r)"
  "P (usr r) \<Longrightarrow> keeps (sax_SECT_CDATA_E2 h c r)"
  by (auto simp: sax_SECT_CDATA_C_def sax_SECT_CDATA_E_def sax_SECT_CDATA_E2_def intro!: keeps_deliver keeps_call_cdata)

lemma keeps_names:
  "P (usr r) \<Longrightarrow> keeps (sax_TAG alloc buf c r)"
  "P (usr r) \<Longrightarrow> keeps (sax_ATTRIBUTE_1 alloc buf c r)"
  "P (usr r) \<Longrightarrow> keeps (sax_VALUE_IN q alloc buf c r)"
  "P (usr r) \<Longrightarrow> keeps (sax_ATTRIBUTE alloc c r)"
  "P (usr r) \<Longrightarrow> keeps (sax_ATTRIBUTE_2 c r)"
  "P (usr r) \<Longrightarrow> keeps (sax_VALUE c r)"
  by (auto simp: sax_TAG_def sax_ATTRIBUTE_1_def sax_VALUE_IN_def sax_ATTRIBUTE_def sax_ATTRIBUTE_2_def sax_VALUE_def Let_def
      intro!: keeps_close_string keeps_bind)

lemma keeps_rest:
  "P (usr r) \<Longrightarrow> keeps (sax_TAG_START c r)" "P (usr r) \<Longrightarrow> keeps (sax_WHITESPACE c r)"
  "P (usr r) \<Longrightarrow> keeps (sax_COMMENT c r)" "P (usr r) \<Longrightarrow> keeps (sax_COMMENT_1 c r)" "P (usr r) \<Longrightarrow> keeps (sax_COMMENT_2 c r)"
  "P (usr r) \<Longrightarrow> keeps (sax_COMMENT_3 c r)" "P (usr r) \<Longrightarrow> keeps (sax_MARKUP c r)" "P (usr r) \<Longrightarrow> keeps (sax_MARKUP_1 c r)"
  "P (usr r) \<Longrightarrow> keeps (sax_SECT x k c r)" "P (usr r) \<Longrightarrow> keeps (sax_SECT_CDATA_4 c r)" "P (usr r) \<Longrightarrow> keeps (sax_PI c r)"
  by (auto simp: sax_TAG_START_def sax_WHITESPACE_def sax_COMMENT_def sax_COMMENT_1_def sax_COMMENT_2_def sax_COMMENT_3_def
      sax_MARKUP_def sax_MARKUP_1_def sax_SECT_def sax_SECT_CDATA_4_def sax_PI_def Let_def)

lemma keeps_step: "P (usr r) \<Longrightarrow> keeps (sax_step alloc h buf c r)"
proof -
  assume r: "P (usr r)"
  have "keeps (sax_switch alloc h buf c r)"
    using r by (cases "ctx (prs r)")
      (simp_all add: sax_switch_def keeps_tag_end keeps_cdata keeps_entity keeps_sections keeps_names keeps_rest)
  moreover have "keeps (sax_continue (byte_of c) r)" "keeps (sax_lead (byte_of c) r)"
    using r by (auto simp: sax_continue_def sax_lead_def Let_def split: option.split prod.split)
  ultimately show ?thesis using r by (simp add: sax_step_def Let_def)
qed

lemma loop_keeps_body:
  assumes IH: "\<And>r x. loop r = Some x \<Longrightarrow> P (usr r) \<Longrightarrow> P (usr (fst x))" and r: "P (usr r)"
    and body: "(if pos r < length buf then do {
        (r', v) \<leftarrow> sax_step alloc h buf (buf ! pos r) r;
        case v of Return e \<Rightarrow> Some (r', e) | Again \<Rightarrow> loop r' | Next \<Rightarrow> loop (next_char (buf ! pos r) r')
      } else Some (r, IKS_OK)) = Some x"
  shows "P (usr (fst x))"
proof (cases "pos r < length buf")
  case False
  then show ?thesis using body r by auto
next
  case True
  then obtain r' v where st: "sax_step alloc h buf (buf ! pos r) r = Some (r', v)" using body by (auto split: bind_splits)
  then have r': "P (usr r')" using keeps_step [OF r, of alloc buf "buf ! pos r"] by (simp add: keeps_def)
  then have "P (usr (next_char (buf ! pos r) r'))" by (simp add: next_char_def)
  then show ?thesis using IH [of r' x] IH [of "next_char (buf ! pos r) r'" x] body st True r' by (cases v) auto
qed

lemma loop_keeps:
  assumes "sax_loop alloc h buf r = Some x" and "P (usr r)"
  shows "P (usr (fst x))"
proof -
  let ?Q = "\<lambda>alloc' h' buf' r x. alloc' = alloc \<longrightarrow> h' = h \<longrightarrow> buf' = buf \<longrightarrow> P (usr r) \<longrightarrow> P (usr (fst x))"
  have "?Q alloc h buf r x"
  proof (rule sax_loop.raw_induct [where P = ?Q, OF _ assms(1)], intro impI)
    fix loop alloc' h' buf' r x
    assume IH: "\<And>alloc' h' buf' r x. loop alloc' h' buf' r = Some x \<Longrightarrow> ?Q alloc' h' buf' r x"
      and body: "(if pos r < length buf' then do {
          (r', v) \<leftarrow> sax_step alloc' h' buf' (buf' ! pos r) r;
          case v of Return e \<Rightarrow> Some (r', e) | Again \<Rightarrow> loop alloc' h' buf' r' | Next \<Rightarrow> loop alloc' h' buf' (next_char (buf' ! pos r) r')
        } else Some (r, IKS_OK)) = Some x"
      and eq: "alloc' = alloc" "h' = h" "buf' = buf" and r: "P (usr r)"
    show "P (usr (fst x))"
      by (rule loop_keeps_body [where loop = "loop alloc h buf", OF _ r body [unfolded eq]]) (use IH in blast)
  qed
  then show ?thesis using assms(2) by blast
qed

theorem parse_keeps:
  assumes "iks_parse alloc h str len x = Some (y, e)" and "P (snd x)"
  shows "P (snd y)"
proof -
  have core: "P (snd z)" if z: "sax_core alloc h buf x = Some (z, e')" for buf z e'
  proof -
    obtain r e1 where r: "sax_loop alloc h buf \<lparr>prs = fst x, usr = snd x, pos = 0, old = 0, stack_old = None\<rparr> = Some (r, e1)"
      using z by (auto simp: sax_core_def split: bind_splits)
    from loop_keeps [OF this] have P: "P (usr r)" using assms(2) by simp
    have "P (usr r2)" if f: "sax_flush alloc h buf r = Some (r2, e2)" for r2 e2
      using f P cdata_keeps [OF _ P]
      by (auto simp: sax_flush_def Let_def split: bind_splits option.splits if_splits prod.splits)
    then show ?thesis using z r P by (auto simp: sax_core_def split: bind_splits if_splits)
  qed
  show ?thesis using assms core by (auto simp: iks_parse_def split: option.splits if_splits bind_splits)
qed

end

end
