(* ===== verification/StreamKeep.thy ===== *)
theory StreamKeep
  imports SaxKeep IksStream
begin

text \<open>
  What a stream parser without a transport keeps on any input: a connection of a server stays without one,
  and what the program's hook keeps of the state of the program is kept.
\<close>

lemma challenge_keeps:
  assumes "trans d = None" and "iks_sasl_challenge cr x d = Some d'"
  shows "d' = d"
proof -
  have "iks_send y d = None" for y
    using assms(1) by (auto simp: iks_send_def iks_send_raw_def split: option.split bind_splits)
  then show ?thesis
    using assms(2) by (auto simp: iks_sasl_challenge_def Let_def split: option.splits bind_splits if_splits list.splits)
qed

lemma stream_keeps:
  assumes "\<And>ev w e w'. hook ev w = Some (e, w') \<Longrightarrow> Q w \<Longrightarrow> Q w'"
  shows "hook_keeps (stream_hooks cr hook) (\<lambda>d. trans d = None \<and> Q (world d))"
proof
  have call: "trans d' = None \<and> Q (world d')"
    if "call_stream hook ev d = Some (e, d')" "trans d = None \<and> Q (world d)" for ev d e d'
    using that assms by (auto simp: call_stream_def split: bind_splits)
  have close: "trans d' = None \<and> Q (world d')"
    if "IksStream.close_tag cr hook n d = Some (e, d')" "trans d = None \<and> Q (world d)" for n d e d'
  proof -
    have ch: "trans d' = None \<and> Q (world d')" if "iks_sasl_challenge cr x (d\<lparr>current := []\<rparr>) = Some d'" for x
      using challenge_keeps [OF _ that] \<open>trans d = None \<and> Q (world d)\<close> by simp
    show ?thesis
      using that call ch by (auto simp: IksStream.close_tag_def Let_def split: list.splits if_splits bind_splits)
  qed
  show "trans u' = None \<and> Q (world u')"
    if "tagHook (stream_hooks cr hook) = Some t" "trans u = None \<and> Q (world u)" "t u n as ty = Some (e, u')" for t u n as ty e u'
    using that call close by (auto simp: stream_hooks_def stream_tagHook_def Let_def split: if_splits)
  show "trans u' = None \<and> Q (world u')"
    if "cdataHook (stream_hooks cr hook) = Some k" "trans u = None \<and> Q (world u)" "k u s = Some (e, u')" for k u s e u'
    using that by (auto simp: stream_hooks_def stream_cdataHook_def)
qed

end
