(* ===== verification/SaxText.thy ===== *)
theory SaxText
  imports SaxProps
begin

text \<open>
  What the reference tokenizer of theory \<open>SaxSpec\<close> makes of well-formed text: names,
  attributes, character data with its entities, and the tags around them.
\<close>

section \<open>Text the parser accepts\<close>

text \<open>
  A scanner for text whose ASCII characters satisfy \<open>P\<close> and whose longer characters are
  complete; \<open>k\<close> bytes of the current character are missing.
\<close>

fun uscan :: "(char \<Rightarrow> bool) \<Rightarrow> nat \<Rightarrow> string \<Rightarrow> bool" where
  "uscan P k [] \<longleftrightarrow> k = 0"
| "uscan P k (c # cs) \<longleftrightarrow>
     (if 0 < k then cont_byte c \<and> uscan P (k - 1) cs
      else if byte_of c AND 0x80 = 0 then c \<noteq> NUL \<and> P c \<and> uscan P 0 cs
      else case lead_class (byte_of c) of
        None \<Rightarrow> False
      | Some (n, m) \<Rightarrow> byte_of c AND m \<noteq> 0 \<and> uscan P (n - 1) cs)"

abbreviation utext :: "(char \<Rightarrow> bool) \<Rightarrow> string \<Rightarrow> bool" where
  "utext P s \<equiv> uscan P 0 s"

definition ascii :: "char \<Rightarrow> bool" where
  "ascii c \<longleftrightarrow> c \<noteq> NUL \<and> byte_of c AND 0x80 = 0"

lemma byte_of_NUL: "byte_of c = 0 \<longleftrightarrow> c = NUL"
proof
  assume "byte_of c = 0"
  then have "(of_nat (of_char c) :: byte) = 0" by (simp add: byte_of_def of_nat_of_char)
  then have "256 dvd (of_char c :: nat)" by (simp add: word_of_nat_eq_0_iff)
  then have "(of_char c :: nat) = of_char NUL"
    using nat_of_char_less_256 [of c] dvd_imp_le [of 256 "of_char c :: nat"] by fastforce
  then show "c = NUL" by (simp only: of_char_eq_iff)
qed (simp add: byte_of_def)

lemma ascii_plain: "ascii c \<longleftrightarrow> plain_char c"
proof -
  have "b \<noteq> 0xFE \<and> b \<noteq> 0xFF" if "b AND 0x80 = 0" for b :: byte using that by auto
  then show ?thesis by (auto simp: ascii_def plain_char_def byte_of_NUL)
qed

lemma ascii_step: "ascii c \<Longrightarrow> l_umax l = 0 \<Longrightarrow> lx_step tag cd c u l = lx_switch tag cd c u l"
  by (simp add: ascii_plain plain_char_def lx_step_def Let_def)

lemma lead_class_length: "lead_class b = Some (n, m) \<Longrightarrow> 2 \<le> n \<and> n \<le> 6"
  by (auto simp: lead_class_def split: if_splits)

lemma lead_class_marks: "lead_class b = Some (n, m) \<Longrightarrow> b \<noteq> 0 \<and> b \<noteq> 0xFE \<and> b \<noteq> 0xFF"
  by (auto simp: lead_class_def split: if_splits)

lemma cont_byte_marks: "cont_byte c \<Longrightarrow> byte_of c \<noteq> 0 \<and> byte_of c \<noteq> 0xFE \<and> byte_of c \<noteq> 0xFF"
  by (auto simp: cont_byte_def)

text \<open>The fields of a tokenizer that count are left out of comparisons.\<close>

definition core :: "lexer \<Rightarrow> lexer" where
  "core l = l\<lparr>l_bytes := 0, l_lines := 0, l_ulen := 0\<rparr>"

lemma core_count [simp]: "core (count_char c l) = core l"
  by (simp add: core_def count_char_def)

lemma count_char_fields [simp]:
  "l_ctx (count_char c l) = l_ctx l" "l_old (count_char c l) = l_old l" "l_type (count_char c l) = l_type l"
  "l_name (count_char c l) = l_name l" "l_atts (count_char c l) = l_atts l" "l_key (count_char c l) = l_key l"
  "l_text (count_char c l) = l_text l" "l_max (count_char c l) = l_max l" "l_entity (count_char c l) = l_entity l"
  "l_umax (count_char c l) = l_umax l" "l_ulen (count_char c l) = l_ulen l"
  by (simp_all add: count_char_def)

lemma core_fields:
  assumes "core l' = core l"
  shows "l_ctx l' = l_ctx l" "l_old l' = l_old l" "l_type l' = l_type l" "l_name l' = l_name l" "l_atts l' = l_atts l"
    "l_key l' = l_key l" "l_text l' = l_text l" "l_max l' = l_max l" "l_entity l' = l_entity l" "l_umax l' = l_umax l"
  using assms by (cases l, cases l', simp add: core_def)+

text \<open>One character that is read without an error.\<close>

lemma lx_run_one:
  "lx_step tag cd c u l = ok u' l' \<Longrightarrow> lx_run tag cd (c # s) u l = lx_run tag cd s u' (count_char c l')"
  by (simp add: ok_def)

lemma lx_run_ascii:
  "ascii c \<Longrightarrow> l_umax l = 0 \<Longrightarrow> lx_switch tag cd c u l = ok u' l' \<Longrightarrow>
     lx_run tag cd (c # s) u l = lx_run tag cd s u' (count_char c l')"
  by (rule lx_run_one) (simp add: ascii_step)

text \<open>A run over a first part that ends well.\<close>

lemma lx_run_then:
  "lx_run tag cd s u l = Some (l', u', IKS_OK) \<Longrightarrow> lx_run tag cd (s @ t) u l = lx_run tag cd t u' l'"
  by (simp add: lx_run_append)

lemma lx_umax_step:
  assumes "0 < k" and "l_umax l = l_ulen l + k" and "cont_byte c"
  shows "lx_step tag cd c u l = lx_part cd c u (l\<lparr>l_umax := (if k = 1 then 0 else l_umax l), l_ulen := l_ulen l + 1\<rparr>)"
  using assms cont_byte_marks [OF assms(3)] by (simp add: lx_step_def Let_def cont_byte_def)

lemma lx_lead_step:
  assumes "l_umax l = 0" and "byte_of c AND 0x80 \<noteq> 0" and "lead_class (byte_of c) = Some (n, m)" and "byte_of c AND m \<noteq> 0"
  shows "lx_step tag cd c u l = lx_part cd c u (l\<lparr>l_umax := n, l_ulen := 1\<rparr>)"
  using assms lead_class_marks [OF assms(3)] by (simp add: lx_step_def Let_def)

text \<open>
  Text in a state that keeps every character: it is collected (\<open>col\<close>) or delivered.
\<close>

definition keeps_in :: "bool \<Rightarrow> char \<Rightarrow> lexer \<Rightarrow> lexer" where
  "keeps_in col c l = (if col then l\<lparr>l_text := l_text l @ [c]\<rparr> else l)"

definition gives :: "('u \<Rightarrow> string \<Rightarrow> 'u) \<Rightarrow> bool \<Rightarrow> char \<Rightarrow> 'u \<Rightarrow> 'u" where
  "gives cd col c u = (if col then u else cd u [c])"

lemma text_run:
  assumes sw: "\<And>c u l. P c \<Longrightarrow> l_ctx l = K \<Longrightarrow> lx_switch tag cd c u l = ok (gives cd col c u) (keeps_in col c l)"
    and part: "\<And>c u l. l_ctx l = K \<Longrightarrow> lx_part cd c u l = ok (gives cd col c u) (keeps_in col c l)"
    and "l_ctx l = K" and "uscan P k s" and "if k = 0 then l_umax l = 0 else l_umax l = l_ulen l + k"
  shows "\<exists>l'. lx_run tag cd s u l = Some (l', fold (gives cd col) s u, IKS_OK)
    \<and> core l' = core (l\<lparr>l_text := l_text l @ (if col then s else []), l_umax := 0\<rparr>)"
  using assms(3-5)
proof (induction s arbitrary: k u l)
  case Nil
  then show ?case by (cases l) (simp add: ok_def core_def)
next
  case (Cons c s)
  have go: ?case if st: "lx_step tag cd c u l = ok (gives cd col c u) (keeps_in col c (l\<lparr>l_umax := a, l_ulen := b\<rparr>))"
    and k: "uscan P k' s" "if k' = 0 then a = 0 else a = b + k'" for a b k'
  proof -
    let ?l = "count_char c (keeps_in col c (l\<lparr>l_umax := a, l_ulen := b\<rparr>))"
    have "l_ctx ?l = K" using Cons.prems(1) by (simp add: keeps_in_def)
    moreover have "if k' = 0 then l_umax ?l = 0 else l_umax ?l = l_ulen ?l + k'" using k(2) by (simp add: keeps_in_def)
    ultimately obtain l' where l': "lx_run tag cd s (gives cd col c u) ?l = Some (l', fold (gives cd col) s (gives cd col c u), IKS_OK)"
        "core l' = core (?l\<lparr>l_text := l_text ?l @ (if col then s else []), l_umax := 0\<rparr>)"
      using Cons.IH [OF _ k(1)] by blast
    have "core l' = core (l\<lparr>l_text := l_text l @ (if col then c # s else []), l_umax := 0\<rparr>)"
      unfolding l'(2) by (cases l) (simp add: core_def keeps_in_def count_char_def)
    then show ?thesis unfolding lx_run_one [OF st] using l'(1) by auto
  qed
  show ?case
  proof (cases "0 < k")
    case True
    then have c: "cont_byte c" "uscan P (k - 1) s" "l_umax l = l_ulen l + k" using Cons.prems(2,3) by simp_all
    then show ?thesis
      using True Cons.prems(1)
      by (intro go [where a = "if k = 1 then 0 else l_umax l" and b = "l_ulen l + 1" and k' = "k - 1"])
        (simp_all add: lx_umax_step [OF True c(3,1)] part)
  next
    case False
    then have u: "l_umax l = 0" using Cons.prems(3) by simp
    show ?thesis
    proof (cases "byte_of c AND 0x80 = 0")
      case asc: True
      then have c: "ascii c" "P c" "uscan P 0 s" using False Cons.prems(2) by (simp_all add: ascii_def)
      have same: "l\<lparr>l_umax := 0\<rparr> = l" using u by (cases l) simp
      show ?thesis using c(3) u Cons.prems(1)
        by (intro go [where a = 0 and b = "l_ulen l" and k' = 0]) (simp_all add: ascii_step [OF c(1) u] sw [OF c(2)] same)
    next
      case lead: False
      then obtain n m where c: "lead_class (byte_of c) = Some (n, m)" "byte_of c AND m \<noteq> 0" "uscan P (n - 1) s"
        using False Cons.prems(2) by (auto split: option.splits)
      then show ?thesis using Cons.prems(1) lead_class_length [OF c(1)]
        by (intro go [where a = n and b = 1 and k' = "n - 1"]) (simp_all add: lx_lead_step [OF u lead c(1,2)] part)
    qed
  qed
qed

section \<open>Names, attributes and values\<close>

lemma core_update [simp]:
  "core (l\<lparr>l_ctx := a1\<rparr>) = (core l)\<lparr>l_ctx := a1\<rparr>"
  "core (l\<lparr>l_old := a2\<rparr>) = (core l)\<lparr>l_old := a2\<rparr>"
  "core (l\<lparr>l_type := a3\<rparr>) = (core l)\<lparr>l_type := a3\<rparr>"
  "core (l\<lparr>l_name := a4\<rparr>) = (core l)\<lparr>l_name := a4\<rparr>"
  "core (l\<lparr>l_atts := a5\<rparr>) = (core l)\<lparr>l_atts := a5\<rparr>"
  "core (l\<lparr>l_key := a6\<rparr>) = (core l)\<lparr>l_key := a6\<rparr>"
  "core (l\<lparr>l_text := a7\<rparr>) = (core l)\<lparr>l_text := a7\<rparr>"
  "core (l\<lparr>l_max := a8\<rparr>) = (core l)\<lparr>l_max := a8\<rparr>"
  "core (l\<lparr>l_entity := a9\<rparr>) = (core l)\<lparr>l_entity := a9\<rparr>"
  "core (l\<lparr>l_umax := a0\<rparr>) = (core l)\<lparr>l_umax := a0\<rparr>"
  by (simp_all add: core_def)

lemma core_read [simp]:
  "l_ctx (core l) = l_ctx l" "l_old (core l) = l_old l" "l_type (core l) = l_type l" "l_name (core l) = l_name l"
  "l_atts (core l) = l_atts l" "l_key (core l) = l_key l" "l_text (core l) = l_text l" "l_max (core l) = l_max l"
  "l_entity (core l) = l_entity l" "l_umax (core l) = l_umax l"
  by (simp_all add: core_def)

text \<open>A field of a state that is known up to the counters.\<close>

lemma core_get:
  assumes "core l' = m"
  shows "l_ctx l' = l_ctx m" "l_old l' = l_old m" "l_type l' = l_type m" "l_name l' = l_name m" "l_atts l' = l_atts m"
    "l_key l' = l_key m" "l_text l' = l_text m" "l_max l' = l_max m" "l_entity l' = l_entity m" "l_umax l' = l_umax m"
  using assms by auto

definition tag_char :: "char \<Rightarrow> bool" where
  "tag_char c \<longleftrightarrow> \<not> is_whitespace c \<and> c \<noteq> CHR ''/'' \<and> c \<noteq> CHR ''>''"

text \<open>The bytes of a longer character at the start of a name would be skipped.\<close>

definition tag_name_ok :: "string \<Rightarrow> bool" where
  "tag_name_ok n \<longleftrightarrow>
     (case n of [] \<Rightarrow> False
      | c # cs \<Rightarrow> ascii c \<and> c \<noteq> CHR ''/'' \<and> c \<noteq> CHR ''?'' \<and> c \<noteq> CHR ''!'' \<and> utext tag_char cs)"

definition attr_name_ok :: "string \<Rightarrow> bool" where
  "attr_name_ok n \<longleftrightarrow>
     (case n of [] \<Rightarrow> False | c # cs \<Rightarrow> ascii c \<and> tag_char c \<and> utext (\<lambda>c. c \<noteq> CHR ''='') cs)"

definition value_ok :: "string \<Rightarrow> bool" where
  "value_ok v \<longleftrightarrow> utext (\<lambda>c. c \<noteq> CHR 0x27) v"

definition raw_attr :: "string \<times> string \<Rightarrow> string" where
  "raw_attr a = fst a @ ''='' @ [CHR 0x27] @ snd a @ [CHR 0x27]"

definition raw_attrs :: "(string \<times> string) list \<Rightarrow> string" where
  "raw_attrs as = concat (map (\<lambda>a. '' '' @ raw_attr a) as)"

lemma collect_run:
  assumes "collects (l_ctx l)" and "\<And>c u k. P c \<Longrightarrow> l_ctx k = l_ctx l \<Longrightarrow> lx_switch tag cd c u k = ok u (k\<lparr>l_text := l_text k @ [c]\<rparr>)"
    and "utext P s" and "l_umax l = 0"
  shows "\<exists>l'. lx_run tag cd s u l = Some (l', u, IKS_OK) \<and> core l' = (core l)\<lparr>l_text := l_text l @ s\<rparr>"
proof -
  have g: "gives cd True c u = u" for c and u :: 'a by (simp add: gives_def)
  have f: "fold (gives cd True) s u = u" by (induction s) (simp_all add: g)
  have u: "(core l)\<lparr>l_text := l_text l @ s, l_umax := 0\<rparr> = (core l)\<lparr>l_text := l_text l @ s\<rparr>"
    using assms(4) by (cases l) (simp add: core_def)
  show ?thesis
    using text_run [of P "l_ctx l" tag cd True l 0 s u] assms
    by (simp add: g f u keeps_in_def lx_part_def)
qed

lemma chars_plain:
  "ascii CHR ''<''" "ascii CHR ''>''" "ascii CHR ''/''" "ascii CHR ''=''" "ascii CHR '' ''" "ascii CHR 0x27" "ascii CHR ''&''"
  "ascii CHR '';''" "ascii CHR ''?''"
  by (simp_all add: ascii_def byte_of_def)

lemma attr_run:
  assumes "attr_name_ok (fst a)" and "value_ok (snd a)"
    and "l_ctx l = C_WHITESPACE" and "l_old l = C_ATTRIBUTE \<or> l_old l = C_ATTRIBUTE_2" and "l_umax l = 0"
  shows "\<exists>l'. lx_run tag cd (raw_attr a @ s) u l = lx_run tag cd s u l'
    \<and> core l' = (core l)\<lparr>l_atts := l_atts l @ [a], l_max := grown l, l_key := fst a, l_text := snd a,
        l_ctx := C_WHITESPACE, l_old := C_ATTRIBUTE_2\<rparr>"
proof -
  obtain c n where n: "fst a = c # n" "ascii c" "tag_char c" "utext (\<lambda>c. c \<noteq> CHR ''='') n"
    using assms(1) by (auto simp: attr_name_ok_def split: list.splits)
  let ?v = "snd a" and ?q = "CHR 0x27"
  have st: "lx_switch tag cd c u l = ok u (l\<lparr>l_max := grown l, l_text := [c], l_ctx := C_ATTRIBUTE_1\<rparr>)"
    using n(3) assms(3,4)
    by (auto simp: lx_switch_def lx_space_def lx_attribute_2_def lx_attribute_def tag_char_def Let_def)
  let ?l1 = "count_char c (l\<lparr>l_max := grown l, l_text := [c], l_ctx := C_ATTRIBUTE_1\<rparr>)"
  obtain l2 where l2: "lx_run tag cd n u ?l1 = Some (l2, u, IKS_OK)" "core l2 = (core ?l1)\<lparr>l_text := l_text ?l1 @ n\<rparr>"
    using collect_run [of ?l1 "\<lambda>c. c \<noteq> CHR ''=''" tag cd n u] n(4) assms(5)
    by (auto simp: collects_def lx_switch_def)
  note f2 = core_get [OF l2(2), simplified, folded n(1)]
  let ?l3 = "count_char CHR ''='' (l2\<lparr>l_key := l_text l2, l_ctx := C_VALUE\<rparr>)"
  let ?l4 = "count_char ?q (?l3\<lparr>l_text := [], l_ctx := C_VALUE_APOS\<rparr>)"
  obtain l5 where l5: "lx_run tag cd ?v u ?l4 = Some (l5, u, IKS_OK)" "core l5 = (core ?l4)\<lparr>l_text := l_text ?l4 @ ?v\<rparr>"
    using collect_run [of ?l4 "\<lambda>c. c \<noteq> ?q" tag cd ?v u] assms(2,5) f2
    by (auto simp: collects_def lx_switch_def lx_value_in_def value_ok_def)
  note f5 = core_get [OF l5(2), simplified]
  let ?l6 = "count_char ?q (l5\<lparr>l_atts := l_atts l5 @ [(l_key l5, l_text l5)], l_ctx := C_WHITESPACE, l_old := C_ATTRIBUTE_2\<rparr>)"
  have "lx_run tag cd (raw_attr a @ s) u l = lx_run tag cd (n @ CHR ''='' # ?q # ?v @ ?q # s) u ?l1"
    using lx_run_ascii [OF n(2) assms(5) st] by (simp add: raw_attr_def n(1) del: lx_run.simps)
  also have "\<dots> = lx_run tag cd (CHR ''='' # ?q # ?v @ ?q # s) u l2" by (rule lx_run_then [OF l2(1)])
  also have "\<dots> = lx_run tag cd (?q # ?v @ ?q # s) u ?l3"
    using assms(5) f2 by (intro lx_run_ascii chars_plain) (simp_all add: lx_switch_def)
  also have "\<dots> = lx_run tag cd (?v @ ?q # s) u ?l4"
    using assms(5) f2 by (intro lx_run_ascii chars_plain) (simp_all add: lx_switch_def)
  also have "\<dots> = lx_run tag cd (?q # s) u l5" by (rule lx_run_then [OF l5(1)])
  also have "\<dots> = lx_run tag cd s u ?l6"
    using assms(5) f5 f2 by (intro lx_run_ascii chars_plain) (simp_all add: lx_switch_def lx_value_in_def)
  moreover have "core ?l6 = (core l)\<lparr>l_atts := l_atts l @ [a], l_max := grown l, l_key := fst a, l_text := snd a,
        l_ctx := C_WHITESPACE, l_old := C_ATTRIBUTE_2\<rparr>"
    by (simp add: l5(2) l2(2) f5 f2)
  ultimately show ?thesis by metis
qed

text \<open>The room after \<open>k\<close> attributes: at least what there was, in steps of 12.\<close>

definition room_for :: "nat \<Rightarrow> nat \<Rightarrow> nat" where
  "room_for m k = max m (12 * ((k + 11) div 12))"

lemma room_for_0: "room_for m 0 = m"
  by (simp add: room_for_def)

lemma steps_of_12: "b < 12 \<Longrightarrow> (12 * a + b + 11) div 12 = (if b = 0 then a else Suc a)" for a b :: nat
  by auto

lemma room_for_split:
  assumes "b < 12"
  shows "room_for (12 * j) (12 * a + b) = 12 * max j (if b = 0 then a else Suc a)"
  unfolding room_for_def steps_of_12 [OF assms] by (simp add: max_def)

lemma split_12: "\<exists>a b. k = 12 * a + b \<and> b < 12" for k :: nat
  by (rule exI [of _ "k div 12"], rule exI [of _ "k mod 12"]) simp

lemma room_for_Suc:
  assumes "12 dvd m"
  shows "room_for m (Suc k) = (if room_for m k \<le> k then room_for m k + 12 else room_for m k)"
proof -
  obtain j where j: "m = 12 * j" using assms by blast
  obtain a b where k: "k = 12 * a + b" "b < 12" using split_12 by blast
  show ?thesis
  proof (cases "b = 11")
    case True
    have "Suc k = 12 * Suc a + 0" using k True by simp
    then have s: "room_for m (Suc k) = 12 * max j (Suc a)" using room_for_split [of 0 j "Suc a"] by (simp only: j) simp
    show ?thesis using room_for_split [OF k(2), of j a] True by (simp add: s, simp add: j k(1) max_def)
  next
    case False
    have "Suc k = 12 * a + Suc b" "Suc b < 12" using k False by simp_all
    then have s: "room_for m (Suc k) = 12 * max j (Suc a)" using room_for_split [of "Suc b" j a] by (simp only: j) simp
    show ?thesis using room_for_split [OF k(2), of j a] k(2) by (simp add: s, simp add: j k(1) max_def)
  qed
qed

lemma room_for_full:
  assumes "12 dvd m"
  shows "room_for m k \<le> k \<longleftrightarrow> 12 dvd k \<and> m \<le> k"
proof -
  obtain j where j: "m = 12 * j" using assms by blast
  obtain a b where k: "k = 12 * a + b" "b < 12" using split_12 by blast
  have "12 dvd k \<longleftrightarrow> b = 0" using k by (simp add: dvd_eq_mod_eq_0 mod_less)
  then show ?thesis using room_for_split [OF k(2), of j a] k(2) by (simp add: j, simp add: k(1) max_def)
qed

section \<open>Tags\<close>

definition idle :: "nat \<Rightarrow> lexer \<Rightarrow> bool" where
  "idle m l \<longleftrightarrow> l_ctx l = C_CDATA \<and> l_umax l = 0 \<and> l_atts l = [] \<and> l_max l = m"

definition in_tag :: "nat \<Rightarrow> string \<Rightarrow> ikstagtype \<Rightarrow> (string \<times> string) list \<Rightarrow> lexer \<Rightarrow> bool" where
  "in_tag m n ty as l \<longleftrightarrow> l_ctx l = C_WHITESPACE \<and> l_old l = (if as = [] then C_ATTRIBUTE else C_ATTRIBUTE_2)
     \<and> l_umax l = 0 \<and> l_name l = n \<and> l_type l = ty \<and> l_atts l = as \<and> l_max l = room_for m (length as)"

definition attr_ok :: "string \<times> string \<Rightarrow> bool" where
  "attr_ok a \<longleftrightarrow> attr_name_ok (fst a) \<and> value_ok (snd a)"

text \<open>The rest \<open>s\<close> is read after the hook was called for a tag.\<close>

definition tag_done ::
  "'u tag_fun \<Rightarrow> ('u \<Rightarrow> string \<Rightarrow> 'u) \<Rightarrow> string \<Rightarrow> (string \<times> string) list \<Rightarrow> ikstagtype \<Rightarrow> nat \<Rightarrow> string \<Rightarrow> 'u \<Rightarrow> 'u lexed \<Rightarrow> bool" where
  "tag_done tag cd n as ty m s u x \<longleftrightarrow>
     (case tag u n as ty of
        None \<Rightarrow> x = None
      | Some (e, u') \<Rightarrow>
          if e = IKS_OK then \<exists>l'. idle m l' \<and> x = lx_run tag cd s u' l' else \<exists>l'. x = Some (l', u', e))"

lemma attr_in_tag:
  assumes "in_tag m n ty as l" and "attr_ok a" and "12 dvd m"
  shows "\<exists>l'. lx_run tag cd (raw_attr a @ s) u l = lx_run tag cd s u l' \<and> in_tag m n ty (as @ [a]) l'"
proof -
  have "l_old l = C_ATTRIBUTE \<or> l_old l = C_ATTRIBUTE_2" using assms(1) by (auto simp: in_tag_def split: if_splits)
  then obtain l' where l': "lx_run tag cd (raw_attr a @ s) u l = lx_run tag cd s u l'"
      "core l' = (core l)\<lparr>l_atts := l_atts l @ [a], l_max := grown l, l_key := fst a, l_text := snd a,
        l_ctx := C_WHITESPACE, l_old := C_ATTRIBUTE_2\<rparr>"
    using attr_run [of a l tag cd s u] assms(1,2) by (auto simp: in_tag_def attr_ok_def)
  then show ?thesis using assms(1) core_get [OF l'(2), simplified]
    by (auto simp: in_tag_def grown_def room_for_Suc [OF assms(3)])
qed

lemma space_in_tag:
  "in_tag m n ty as l \<Longrightarrow> lx_run tag cd (CHR '' '' # s) u l = lx_run tag cd s u (count_char CHR '' '' l)
     \<and> in_tag m n ty as (count_char CHR '' '' l)"
  using lx_run_ascii [OF chars_plain(5), where l = l and l' = l and u' = u]
  by (simp add: in_tag_def lx_switch_def lx_space_def is_whitespace_def del: lx_run.simps)

lemma attrs_in_tag:
  assumes "in_tag m n ty as l" and "\<forall>a \<in> set bs. attr_ok a" and "12 dvd m"
  shows "\<exists>l'. lx_run tag cd (raw_attrs bs @ s) u l = lx_run tag cd s u l' \<and> in_tag m n ty (as @ bs) l'"
  using assms(1,2)
proof (induction bs arbitrary: as l)
  case Nil
  then show ?case by (auto simp: raw_attrs_def)
next
  case (Cons b bs)
  note sp = space_in_tag [OF Cons.prems(1), of tag cd "raw_attr b @ raw_attrs bs @ s" u]
  obtain l1 where l1: "lx_run tag cd (raw_attr b @ raw_attrs bs @ s) u (count_char CHR '' '' l) = lx_run tag cd (raw_attrs bs @ s) u l1"
      "in_tag m n ty (as @ [b]) l1"
    using attr_in_tag [OF conjunct2 [OF sp] _ assms(3)] Cons.prems(2) by fastforce
  have "raw_attrs (b # bs) @ s = CHR '' '' # raw_attr b @ raw_attrs bs @ s" by (simp add: raw_attrs_def)
  then show ?case using sp l1 Cons.IH [OF l1(2)] Cons.prems(2) by (fastforce simp del: lx_run.simps)
qed

text \<open>From \<open>\<langle>\<close> to the end of the name.\<close>

definition named_tag :: "nat \<Rightarrow> string \<Rightarrow> ikstagtype \<Rightarrow> lexer \<Rightarrow> bool" where
  "named_tag m n ty l \<longleftrightarrow> l_ctx l = C_TAG \<and> l_umax l = 0 \<and> l_text l = n \<and> l_type l = ty \<and> l_atts l = [] \<and> l_max l = m"

lemma tag_chars:
  assumes "named_tag m k ty l" and "utext tag_char n"
  shows "\<exists>l'. lx_run tag cd (n @ s) u l = lx_run tag cd s u l' \<and> named_tag m (k @ n) ty l'"
proof -
  obtain l' where l': "lx_run tag cd n u l = Some (l', u, IKS_OK)" "core l' = (core l)\<lparr>l_text := l_text l @ n\<rparr>"
    using collect_run [of l tag_char tag cd n u] assms
    by (auto simp: collects_def named_tag_def lx_switch_def lx_tag_def tag_char_def Let_def)
  then show ?thesis using lx_run_then [OF l'(1)] core_get [OF l'(2), simplified] assms(1) by (auto simp: named_tag_def)
qed

lemma open_name:
  assumes "idle m l" and "tag_name_ok n"
  shows "\<exists>l'. lx_run tag cd (CHR ''<'' # n @ s) u l = lx_run tag cd s u l' \<and> named_tag m n IKS_OPEN l'"
proof -
  obtain c cs where n: "n = c # cs" "ascii c" "c \<noteq> CHR ''/''" "c \<noteq> CHR ''?''" "c \<noteq> CHR ''!''" "utext tag_char cs"
    using assms(2) by (auto simp: tag_name_ok_def split: list.splits)
  let ?l1 = "count_char CHR ''<'' (l\<lparr>l_ctx := C_TAG_START\<rparr>)"
  let ?l2 = "count_char c (?l1\<lparr>l_type := IKS_OPEN, l_text := [c], l_ctx := C_TAG\<rparr>)"
  have "lx_run tag cd (CHR ''<'' # n @ s) u l = lx_run tag cd (c # cs @ s) u ?l1"
    unfolding n(1) append_Cons using assms(1) by (intro lx_run_ascii chars_plain) (simp_all add: idle_def lx_switch_def)
  also have "\<dots> = lx_run tag cd (cs @ s) u ?l2"
    using assms(1) n by (intro lx_run_ascii) (simp_all add: idle_def lx_switch_def)
  finally show ?thesis
    using tag_chars [of m "[c]" IKS_OPEN ?l2 cs tag cd s u] assms(1) n(1,6) by (auto simp: named_tag_def idle_def simp del: lx_run.simps)
qed

lemma close_name:
  assumes "idle m l" and "utext tag_char n"
  shows "\<exists>l'. lx_run tag cd (CHR ''<'' # CHR ''/'' # n @ s) u l = lx_run tag cd s u l' \<and> named_tag m n IKS_CLOSE l'"
proof -
  let ?l1 = "count_char CHR ''<'' (l\<lparr>l_ctx := C_TAG_START\<rparr>)"
  let ?l2 = "count_char CHR ''/'' (?l1\<lparr>l_type := IKS_CLOSE, l_text := [], l_ctx := C_TAG\<rparr>)"
  have "lx_run tag cd (CHR ''<'' # CHR ''/'' # n @ s) u l = lx_run tag cd (CHR ''/'' # n @ s) u ?l1"
    using assms(1) by (intro lx_run_ascii chars_plain) (simp_all add: idle_def lx_switch_def)
  also have "\<dots> = lx_run tag cd (n @ s) u ?l2"
    using assms(1) by (intro lx_run_ascii chars_plain) (simp_all add: idle_def lx_switch_def)
  finally show ?thesis
    using tag_chars [of m "[]" IKS_CLOSE ?l2 n tag cd s u] assms by (auto simp: named_tag_def idle_def simp del: lx_run.simps)
qed

lemma finish_tag:
  assumes "lx_step tag cd CHR ''>'' u l = lx_tag_end tag CHR ''>'' u k"
    and "l_name k = n" and "l_atts k = as" and "l_type k = ty" and "l_umax k = 0" and "l_max k = m"
  shows "tag_done tag cd n as ty m s u (lx_run tag cd (CHR ''>'' # s) u l)"
proof (cases "tag u n as ty")
  case None
  then show ?thesis using assms by (simp add: tag_done_def lx_tag_end_def)
next
  case (Some x)
  obtain e u' where x: "x = (e, u')" by (cases x)
  have "idle m (count_char CHR ''>'' (k\<lparr>l_ctx := C_CDATA, l_atts := []\<rparr>))" using assms by (simp add: idle_def)
  then show ?thesis using assms Some x by (auto simp: tag_done_def lx_tag_end_def)
qed

text \<open>In \<open>C_TAG_END\<close> only the closing bracket is left.\<close>

lemma finish_single:
  assumes "l_ctx l = C_TAG_END" and "l_umax l = 0" and "l_name l = n" and "l_atts l = as" and "l_type l = ty" and "l_max l = m"
  shows "tag_done tag cd n as ty m s u (lx_run tag cd (CHR ''>'' # s) u l)"
  using assms by (intro finish_tag [where k = l]) (simp_all add: ascii_step chars_plain lx_switch_def)

lemma named_tag_end:
  assumes "named_tag m n ty l"
  shows "tag_done tag cd n [] ty m s u (lx_run tag cd (CHR ''>'' # s) u l)"
    and "ty = IKS_OPEN \<Longrightarrow> tag_done tag cd n [] IKS_SINGLE m s u (lx_run tag cd (''/>'' @ s) u l)"
proof -
  show "tag_done tag cd n [] ty m s u (lx_run tag cd (CHR ''>'' # s) u l)"
    using assms
    by (intro finish_tag [where k = "l\<lparr>l_name := l_text l\<rparr>"])
      (simp_all add: named_tag_def ascii_step chars_plain lx_switch_def lx_tag_def is_whitespace_def Let_def)
  let ?k = "count_char CHR ''/'' (l\<lparr>l_name := l_text l, l_ctx := C_TAG_END, l_type := IKS_SINGLE\<rparr>)"
  assume "ty = IKS_OPEN"
  then have "lx_run tag cd (CHR ''/'' # CHR ''>'' # s) u l = lx_run tag cd (CHR ''>'' # s) u ?k"
    using assms by (intro lx_run_ascii chars_plain)
      (simp_all add: named_tag_def lx_switch_def lx_tag_def is_whitespace_def Let_def)
  moreover have "tag_done tag cd n [] IKS_SINGLE m s u (lx_run tag cd (CHR ''>'' # s) u ?k)"
    using assms by (intro finish_single) (simp_all add: named_tag_def)
  ultimately show "tag_done tag cd n [] IKS_SINGLE m s u (lx_run tag cd (''/>'' @ s) u l)" by (simp del: lx_run.simps)
qed

lemma in_tag_end:
  assumes "in_tag m n ty as l" and "as \<noteq> []"
  shows "room_for m (length as) \<le> length as \<Longrightarrow> c = CHR ''>'' \<or> c = CHR ''/'' \<Longrightarrow> lx_run tag cd (c # s) u l = None"
    and "\<not> room_for m (length as) \<le> length as \<Longrightarrow>
      tag_done tag cd n as ty (room_for m (length as)) s u (lx_run tag cd (CHR ''>'' # s) u l)"
    and "\<not> room_for m (length as) \<le> length as \<Longrightarrow>
      tag_done tag cd n as IKS_SINGLE (room_for m (length as)) s u (lx_run tag cd (''/>'' @ s) u l)"
proof -
  show "lx_run tag cd (c # s) u l = None" if "room_for m (length as) \<le> length as" "c = CHR ''>'' \<or> c = CHR ''/''"
  proof -
    have a: "ascii c" "\<not> is_whitespace c" using that(2) by (auto simp: chars_plain is_whitespace_def)
    have "lx_step tag cd c u l = None"
      using that assms a(2) by (subst ascii_step [OF a(1)]) (auto simp: in_tag_def lx_switch_def lx_space_def lx_attribute_2_def)
    then show ?thesis by simp
  qed
  show "tag_done tag cd n as ty (room_for m (length as)) s u (lx_run tag cd (CHR ''>'' # s) u l)"
    if "\<not> room_for m (length as) \<le> length as"
    using that assms
    by (intro finish_tag [where k = l])
      (simp_all add: in_tag_def ascii_step chars_plain lx_switch_def lx_space_def lx_attribute_2_def lx_attribute_def is_whitespace_def)
  let ?k = "count_char CHR ''/'' (l\<lparr>l_type := IKS_SINGLE, l_ctx := C_TAG_END\<rparr>)"
  assume r: "\<not> room_for m (length as) \<le> length as"
  then have "lx_run tag cd (CHR ''/'' # CHR ''>'' # s) u l = lx_run tag cd (CHR ''>'' # s) u ?k"
    using assms by (intro lx_run_ascii chars_plain)
      (simp_all add: in_tag_def lx_switch_def lx_space_def lx_attribute_2_def lx_attribute_def is_whitespace_def)
  moreover have "tag_done tag cd n as IKS_SINGLE (room_for m (length as)) s u (lx_run tag cd (CHR ''>'' # s) u ?k)"
    using assms by (intro finish_single) (simp_all add: in_tag_def)
  ultimately show "tag_done tag cd n as IKS_SINGLE (room_for m (length as)) s u (lx_run tag cd (''/>'' @ s) u l)"
    by (simp del: lx_run.simps)
qed

text \<open>An opening or empty tag, as text.\<close>

definition tag_text :: "string \<Rightarrow> (string \<times> string) list \<Rightarrow> ikstagtype \<Rightarrow> string" where
  "tag_text n as ty = CHR ''<'' # n @ raw_attrs as @ (if ty = IKS_SINGLE then ''/>'' else ''>'')"

definition overfull :: "nat \<Rightarrow> (string \<times> string) list \<Rightarrow> bool" where
  "overfull m as \<longleftrightarrow> as \<noteq> [] \<and> 12 dvd length as \<and> m \<le> length as"

text \<open>Blanks may follow the attributes.\<close>

definition spaced_tag :: "string \<Rightarrow> (string \<times> string) list \<Rightarrow> nat \<Rightarrow> ikstagtype \<Rightarrow> string" where
  "spaced_tag n as k ty = CHR ''<'' # n @ raw_attrs as @ replicate k CHR '' '' @ (if ty = IKS_SINGLE then ''/>'' else ''>'')"

lemma tag_text_spaced: "tag_text n as ty = spaced_tag n as 0 ty"
  by (simp add: tag_text_def spaced_tag_def)

lemma spaces_in_tag:
  "in_tag m n ty as l \<Longrightarrow> \<exists>l'. lx_run tag cd (replicate k CHR '' '' @ s) u l = lx_run tag cd s u l' \<and> in_tag m n ty as l'"
proof (induction k arbitrary: l)
  case (Suc k)
  note sp = space_in_tag [OF Suc.prems, of tag cd "replicate k CHR '' '' @ s" u]
  obtain l' where "lx_run tag cd (replicate k CHR '' '' @ s) u (count_char CHR '' '' l) = lx_run tag cd s u l'" "in_tag m n ty as l'"
    using Suc.IH sp by blast
  then show ?case using sp by (auto simp del: lx_run.simps)
qed auto

lemma start_spaced_tag:
  assumes l: "idle m l" and n: "tag_name_ok n" and as: "\<forall>a \<in> set as. attr_ok a" and m: "12 dvd m" and ty: "ty \<noteq> IKS_CLOSE"
    and k: "k = 0 \<or> as \<noteq> []"
  shows "if overfull m as then lx_run tag cd (spaced_tag n as k ty @ s) u l = None
    else tag_done tag cd n as ty (room_for m (length as)) s u (lx_run tag cd (spaced_tag n as k ty @ s) u l)"
proof -
  let ?e = "if ty = IKS_SINGLE then ''/>'' else ''>''" and ?sp = "replicate k CHR '' ''"
  obtain l1 where l1: "lx_run tag cd (spaced_tag n as k ty @ s) u l = lx_run tag cd (raw_attrs as @ ?sp @ ?e @ s) u l1" "named_tag m n IKS_OPEN l1"
    using open_name [OF l n, of tag cd "raw_attrs as @ ?sp @ ?e @ s" u] by (auto simp: spaced_tag_def simp del: lx_run.simps)
  show ?thesis
  proof (cases as)
    case Nil
    then show ?thesis unfolding l1(1) using named_tag_end [OF l1(2), of tag cd s u] ty k
      by (cases ty) (simp_all add: overfull_def raw_attrs_def room_for_0 del: lx_run.simps)
  next
    case (Cons a bs)
    let ?t = "?sp @ ?e @ s"
    let ?l2 = "count_char CHR '' '' (l1\<lparr>l_name := l_text l1, l_ctx := C_WHITESPACE, l_old := C_ATTRIBUTE\<rparr>)"
    have r: "raw_attrs as @ ?t = CHR '' '' # raw_attr a @ raw_attrs bs @ ?t" by (simp add: Cons raw_attrs_def)
    have l2: "lx_run tag cd (raw_attrs as @ ?t) u l1 = lx_run tag cd (raw_attr a @ raw_attrs bs @ ?t) u ?l2"
      unfolding r using l1(2) by (intro lx_run_ascii chars_plain)
        (simp_all add: named_tag_def lx_switch_def lx_tag_def is_whitespace_def Let_def)
    have "in_tag m n IKS_OPEN [] ?l2" using l1(2) by (simp add: named_tag_def in_tag_def room_for_0)
    then obtain l3 where l3: "lx_run tag cd (raw_attr a @ raw_attrs bs @ ?t) u ?l2 = lx_run tag cd (raw_attrs bs @ ?t) u l3"
        "in_tag m n IKS_OPEN ([] @ [a]) l3"
      using attr_in_tag [of m n IKS_OPEN "[]" ?l2 a tag cd "raw_attrs bs @ ?t" u] as m Cons by auto
    obtain l4 where l4: "lx_run tag cd (raw_attrs bs @ ?t) u l3 = lx_run tag cd ?t u l4"
        "in_tag m n IKS_OPEN (([] @ [a]) @ bs) l4"
      using attrs_in_tag [OF l3(2) _ m] as Cons by fastforce
    obtain l5 where l5: "lx_run tag cd ?t u l4 = lx_run tag cd (?e @ s) u l5" "in_tag m n IKS_OPEN (([] @ [a]) @ bs) l5"
      using spaces_in_tag [OF l4(2), of tag cd k "?e @ s" u] by blast
    have "lx_run tag cd (spaced_tag n as k ty @ s) u l = lx_run tag cd (?e @ s) u l5" "in_tag m n IKS_OPEN as l5"
      using l5(2) by (simp_all only: l1(1) l2 l3(1) l4(1) l5(1)) (simp add: Cons)
    then show ?thesis
      using in_tag_end [of m n IKS_OPEN as l5, where tag = tag and cd = cd and s = s and u = u]
        in_tag_end(1) [of m n IKS_OPEN as l5 "CHR ''/''" tag cd "CHR ''>'' # s" u] Cons ty room_for_full [OF m, of "length as"]
      by (cases ty) (auto simp: overfull_def simp del: lx_run.simps)
  qed
qed

lemma start_tag:
  assumes "idle m l" and "tag_name_ok n" and "\<forall>a \<in> set as. attr_ok a" and "12 dvd m" and "ty \<noteq> IKS_CLOSE"
  shows "if overfull m as then lx_run tag cd (tag_text n as ty @ s) u l = None
    else tag_done tag cd n as ty (room_for m (length as)) s u (lx_run tag cd (tag_text n as ty @ s) u l)"
  using start_spaced_tag [OF assms, of 0 tag cd s u] by (simp add: tag_text_spaced)

lemma close_tag:
  assumes "idle m l" and "utext tag_char n"
  shows "tag_done tag cd n [] IKS_CLOSE m s u (lx_run tag cd (''</'' @ n @ ''>'' @ s) u l)"
proof -
  obtain l1 where l1: "lx_run tag cd (CHR ''<'' # CHR ''/'' # n @ CHR ''>'' # s) u l = lx_run tag cd (CHR ''>'' # s) u l1"
      "named_tag m n IKS_CLOSE l1"
    using close_name [OF assms, of tag cd "CHR ''>'' # s" u] by blast
  then show ?thesis using named_tag_end(1) [OF l1(2), of tag cd s u] by (simp del: lx_run.simps)
qed

end
