(* ===== verification/SaxNodes.thy ===== *)
theory SaxNodes
  imports SaxText IksHooks
begin

text \<open>
  The printer of theory \<open>Iks\<close> against the stream parser: what the hooks of
  \<^verbatim>\<open>src/CuteCat/iksemel/stream.c\<close> make of the text of a tree.
\<close>

section \<open>Escaped text\<close>

lemma ascii_not_cont: "byte_of c AND 0x80 = 0 \<Longrightarrow> \<not> cont_byte c"
proof
  assume a: "byte_of c AND 0x80 = 0" and "cont_byte c"
  then have "(byte_of c AND 0xC0) AND 0x80 = 0x80" by (simp add: cont_byte_def)
  moreover have "(byte_of c AND 0xC0) AND 0x80 = byte_of c AND 0x80" by (simp add: and.assoc)
  ultimately show False using a by simp
qed

lemma special_ascii: "is_special c \<Longrightarrow> ascii c"
  by (auto simp: is_special_def ascii_def byte_of_def)

lemma uscan_append:
  assumes "\<And>k. uscan P k t \<Longrightarrow> k = 0"
  shows "uscan P k (a @ t) \<Longrightarrow> uscan P k a \<and> uscan P 0 t"
proof (induction a arbitrary: k)
  case Nil
  then show ?case using assms [of k] by simp
next
  case (Cons x a)
  then show ?case by (auto split: if_splits option.splits)
qed

lemma uscan_split:
  assumes "ascii c" and "uscan P k (a @ c # b)"
  shows "uscan P k a \<and> uscan P 0 (c # b)"
proof (rule uscan_append [OF _ assms(2)])
  show "k = 0" if "uscan P k (c # b)" for k
    using that assms(1) ascii_not_cont [of c] by (cases k) (auto simp: ascii_def)
qed

lemma uscan_mono: "uscan P k s \<Longrightarrow> (\<And>c. P c \<Longrightarrow> Q c) \<Longrightarrow> uscan Q k s"
  by (induction P k s rule: uscan.induct) (auto split: if_splits option.splits)

lemma uscan_on: "uscan P k s \<Longrightarrow> (\<And>c. c \<in> set s \<Longrightarrow> Q c) \<Longrightarrow> uscan Q k s"
  by (induction P k s rule: uscan.induct) (auto split: if_splits option.splits)

lemma uscan_no_special: "uscan (\<lambda>c. \<not> is_special c) k s \<Longrightarrow> \<forall>c \<in> set s. \<not> is_special c"
proof (induction s arbitrary: k)
  case (Cons c cs)
  have s: "byte_of c AND 0x80 = 0 \<and> \<not> cont_byte c" if "is_special c"
    using special_ascii [OF that] ascii_not_cont [of c] by (simp add: ascii_def)
  have "\<not> is_special c" using Cons.prems s by (auto split: if_splits)
  moreover obtain k' where "uscan (\<lambda>c. \<not> is_special c) k' cs" using Cons.prems by (auto split: if_splits option.splits)
  ultimately show ?case using Cons.IH by auto
qed simp

lemma uscan_no_nul: "uscan P k s \<Longrightarrow> no_nul s"
proof (induction s arbitrary: k)
  case (Cons c s)
  have "\<not> cont_byte NUL" by (simp add: cont_byte_def byte_of_def)
  then have "c \<noteq> NUL" using Cons.prems by (auto simp: byte_of_def split: if_splits)
  moreover obtain k' where "uscan P k' s" using Cons.prems by (auto split: if_splits option.splits)
  ultimately show ?case using Cons.IH by simp
qed simp

lemma escaped_plain_text: "\<forall>c \<in> set s. \<not> is_special c \<Longrightarrow> escaped s = s"
  by (induction s) (simp_all add: escape_char_plain)

lemma escape_char_entity:
  assumes "is_special c"
  obtains e where "escape_char c = CHR ''&'' # e @ [CHR '';'']" and "entity_char e = c" and "length e \<le> 7"
    and "\<forall>x \<in> set e. ascii x \<and> x \<noteq> CHR '';''"
proof -
  have "\<exists>e \<in> {''amp'', ''lt'', ''gt'', ''apos'', ''quot''}. escape_char c = CHR ''&'' # e @ [CHR '';''] \<and> entity_char e = c"
    using assms by (auto simp: is_special_def escape_char.simps entity_char_def)
  then obtain e where e: "e \<in> {''amp'', ''lt'', ''gt'', ''apos'', ''quot''}"
      "escape_char c = CHR ''&'' # e @ [CHR '';'']" "entity_char e = c" by blast
  have "length e \<le> 7 \<and> (\<forall>x \<in> set e. ascii x \<and> x \<noteq> CHR '';'')"
    using e(1) by (auto simp: ascii_def byte_of_def)
  then show ?thesis using that e(2,3) by blast
qed

lemma entity_chars:
  assumes "l_ctx l = C_ENTITY" and "l_umax l = 0" and "length (l_entity l) + length e \<le> 7"
    and "\<forall>x \<in> set e. ascii x \<and> x \<noteq> CHR '';''"
  shows "\<exists>l'. lx_run tag cd (e @ s) u l = lx_run tag cd s u l' \<and> core l' = (core l)\<lparr>l_entity := l_entity l @ e\<rparr>"
  using assms
proof (induction e arbitrary: l)
  case Nil
  then show ?case by (intro exI [of _ l]) (cases l, simp add: core_def)
next
  case (Cons x e)
  let ?l = "count_char x (l\<lparr>l_entity := l_entity l @ [x]\<rparr>)"
  have "lx_run tag cd ((x # e) @ s) u l = lx_run tag cd (e @ s) u ?l"
    unfolding append_Cons using Cons.prems
    by (intro lx_run_ascii) (simp_all add: lx_switch_def lx_entity_def)
  moreover obtain l' where "lx_run tag cd (e @ s) u ?l = lx_run tag cd s u l'" "core l' = (core ?l)\<lparr>l_entity := l_entity ?l @ e\<rparr>"
    using Cons.IH [of ?l] Cons.prems by auto
  ultimately show ?case by (intro exI [of _ l']) simp
qed

lemma entity_run:
  assumes "idle m l" and "is_special c"
  shows "\<exists>l'. lx_run tag cd (escape_char c @ s) u l = lx_run tag cd s (cd u [c]) l' \<and> idle m l'"
proof -
  obtain e where e: "escape_char c = CHR ''&'' # e @ [CHR '';'']" "entity_char e = c" "length e \<le> 7"
      "\<forall>x \<in> set e. ascii x \<and> x \<noteq> CHR '';''"
    using escape_char_entity [OF assms(2)] by blast
  let ?l1 = "count_char CHR ''&'' (l\<lparr>l_ctx := C_ENTITY, l_entity := []\<rparr>)"
  have l1: "lx_run tag cd (escape_char c @ s) u l = lx_run tag cd (e @ CHR '';'' # s) u ?l1"
    unfolding e(1) append_Cons append_assoc append_Nil using assms(1)
    by (intro lx_run_ascii chars_plain) (simp_all add: idle_def lx_switch_def)
  obtain l2 where l2: "lx_run tag cd (e @ CHR '';'' # s) u ?l1 = lx_run tag cd (CHR '';'' # s) u l2"
      "core l2 = (core ?l1)\<lparr>l_entity := l_entity ?l1 @ e\<rparr>"
    using entity_chars [of ?l1 e tag cd "CHR '';'' # s" u] assms(1) e(3,4) by (auto simp: idle_def)
  note f = core_get [OF l2(2), simplified]
  have l3: "lx_run tag cd (CHR '';'' # s) u l2 = lx_run tag cd s (cd u [c]) (count_char CHR '';'' (l2\<lparr>l_ctx := C_CDATA\<rparr>))"
    using f assms(1) e(2) by (intro lx_run_ascii chars_plain) (simp_all add: idle_def lx_switch_def lx_entity_def)
  have "idle m (count_char CHR '';'' (l2\<lparr>l_ctx := C_CDATA\<rparr>))" using f assms(1) by (simp add: idle_def)
  then show ?thesis unfolding l1 l2(1) l3 by blast
qed

text \<open>The character data is handed over one character at a time.\<close>

abbreviation given :: "('u \<Rightarrow> string \<Rightarrow> 'u) \<Rightarrow> string \<Rightarrow> 'u \<Rightarrow> 'u" where
  "given cd \<equiv> fold (\<lambda>c u. cd u [c])"

lemma plain_run:
  assumes "idle m l" and "utext (\<lambda>c. \<not> is_special c) d"
  shows "\<exists>l'. lx_run tag cd (d @ s) u l = lx_run tag cd s (given cd d u) l' \<and> idle m l'"
proof -
  have g: "gives cd False = (\<lambda>c u. cd u [c])" by (simp add: gives_def fun_eq_iff)
  obtain l' where l': "lx_run tag cd d u l = Some (l', given cd d u, IKS_OK)"
      "core l' = core (l\<lparr>l_text := l_text l @ [], l_umax := 0\<rparr>)"
    using text_run [of "\<lambda>c. \<not> is_special c" C_CDATA tag cd False l 0 d u] assms
    by (auto simp: idle_def lx_switch_def lx_part_def collects_def keeps_in_def g is_special_def)
  then show ?thesis using lx_run_then [OF l'(1)] core_get [OF l'(2)] assms(1) by (auto simp: idle_def)
qed

lemma escaped_run:
  assumes "idle m l" and "utext (\<lambda>_. True) d"
  shows "\<exists>l'. lx_run tag cd (escaped d @ s) u l = lx_run tag cd s (given cd d u) l' \<and> idle m l'"
  using assms
proof (induction d arbitrary: u l rule: length_induct)
  case (1 d)
  define a where "a = takeWhile (\<lambda>c. \<not> is_special c) d"
  have pl: "\<forall>c \<in> set a. \<not> is_special c" by (auto simp: a_def dest: set_takeWhileD)
  note ea = escaped_plain_text [OF pl]
  show ?case
  proof (cases "dropWhile (\<lambda>c. \<not> is_special c) d")
    case Nil
    then have d: "d = a" by (metis a_def append_Nil2 takeWhile_dropWhile_id)
    have "utext (\<lambda>c. \<not> is_special c) a" using uscan_on [OF "1.prems"(2), of "\<lambda>c. \<not> is_special c"] pl d by simp
    then show ?thesis using plain_run [OF "1.prems"(1)] ea by (simp add: d)
  next
    case (Cons c b)
    then have d: "d = a @ c # b" and c: "is_special c"
      unfolding a_def by (metis takeWhile_dropWhile_id) (metis Cons dropWhile_eq_Cons_conv)
    have u: "uscan (\<lambda>_. True) 0 a" "uscan (\<lambda>_. True) 0 (c # b)"
      using uscan_split [OF special_ascii [OF c], of "\<lambda>_. True" 0 a b] "1.prems"(2) d by simp_all
    then have b: "utext (\<lambda>_. True) b" using special_ascii [OF c] by (simp add: ascii_def)
    have "utext (\<lambda>c. \<not> is_special c) a" using uscan_on [OF u(1), of "\<lambda>c. \<not> is_special c"] pl by simp
    then obtain l1 where l1: "lx_run tag cd (a @ escape_char c @ escaped b @ s) u l
        = lx_run tag cd (escape_char c @ escaped b @ s) (given cd a u) l1" "idle m l1"
      using plain_run [OF "1.prems"(1), of a tag cd "escape_char c @ escaped b @ s" u] by blast
    obtain l2 where l2: "lx_run tag cd (escape_char c @ escaped b @ s) (given cd a u) l1
        = lx_run tag cd (escaped b @ s) (cd (given cd a u) [c]) l2" "idle m l2"
      using entity_run [OF l1(2) c, of tag cd "escaped b @ s" "given cd a u"] by blast
    have e: "escaped d @ s = a @ escape_char c @ escaped b @ s" using ea by (simp add: d escaped_def)
    obtain l3 where "lx_run tag cd (escaped b @ s) (cd (given cd a u) [c]) l2
        = lx_run tag cd s (given cd b (cd (given cd a u) [c])) l3" "idle m l3"
      using 1(1) [rule_format, of b l2 "cd (given cd a u) [c]"] l2(2) b by (auto simp: d)
    then show ?thesis unfolding e l1(1) l2(1) by (auto simp: d)
  qed
qed

section \<open>Trees that survive\<close>

definition name_ok :: "string \<Rightarrow> bool" where
  "name_ok n \<longleftrightarrow> tag_name_ok n \<and> utext tag_char n"

definition attrs_ok :: "(string \<times> string) list \<Rightarrow> bool" where
  "attrs_ok as \<longleftrightarrow> distinct (map fst as) \<and> length as \<le> 11
     \<and> (\<forall>a \<in> set as. attr_name_ok (fst a) \<and> utext (\<lambda>c. \<not> is_special c) (snd a))"

text \<open>
  Names and values the parser reads back, no empty and no adjacent character data, and at most
  11 attributes in a tag.
\<close>

fun node_ok :: "iks \<Rightarrow> bool" and nodes_ok :: "iks list \<Rightarrow> bool" where
  "node_ok (IksCData d) \<longleftrightarrow> d \<noteq> [] \<and> utext (\<lambda>_. True) d"
| "node_ok (IksTag n as cs) \<longleftrightarrow> name_ok n \<and> attrs_ok as \<and> nodes_ok cs"
| "nodes_ok [] \<longleftrightarrow> True"
| "nodes_ok (c # cs) \<longleftrightarrow> node_ok c \<and> nodes_ok cs \<and> (is_cdata c \<and> cs \<noteq> [] \<longrightarrow> \<not> is_cdata (hd cs))"

lemma attrs_ok_raw:
  assumes "attrs_ok as"
  shows "attribs_text as = raw_attrs as" and "\<forall>a \<in> set as. attr_ok a" and "\<not> overfull m as"
proof -
  have v: "escaped (snd a) = snd a" if "a \<in> set as" for a
    using assms that uscan_no_special [of 0 "snd a"] escaped_plain_text [of "snd a"] by (simp add: attrs_ok_def)
  then have "\<forall>a \<in> set as. escaped (snd a) = snd a" by blast
  then show "attribs_text as = raw_attrs as"
    by (induction as rule: attribs_text.induct) (auto simp: raw_attrs_def raw_attr_def)
  have "value_ok (snd a)" if "a \<in> set as" for a
  proof -
    have "utext (\<lambda>c. \<not> is_special c) (snd a)" using assms that by (simp add: attrs_ok_def)
    then show ?thesis unfolding value_ok_def by (rule uscan_mono) (auto simp: is_special_def)
  qed
  then show "\<forall>a \<in> set as. attr_ok a" using assms by (simp add: attrs_ok_def attr_ok_def)
  show "\<not> overfull m as" using assms by (cases as) (auto simp: attrs_ok_def overfull_def dest: dvd_imp_le)
qed

lemma name_no_nul: "name_ok n \<Longrightarrow> no_nul n"
  using uscan_no_nul [of tag_char 0 n] by (simp add: name_ok_def)

lemma attribs_no_nul:
  assumes "attrs_ok as"
  shows "no_nul (attribs_text as)"
proof -
  have "no_nul (raw_attr a)" if "a \<in> set as" for a
  proof -
    have "attr_name_ok (fst a)" and v: "utext (\<lambda>c. \<not> is_special c) (snd a)" using assms that by (simp_all add: attrs_ok_def)
    then have "no_nul (fst a)" using uscan_no_nul by (auto simp: attr_name_ok_def ascii_def split: list.splits)
    then show ?thesis using uscan_no_nul [OF v] by (simp add: raw_attr_def)
  qed
  then show ?thesis unfolding attrs_ok_raw(1) [OF assms] raw_attrs_def by (induction as) auto
qed

lemma node_text_no_nul:
  "node_ok x \<Longrightarrow> no_nul (node_text x)"
  "nodes_ok xs \<Longrightarrow> no_nul (nodes_text xs)"
  by (induction x and xs rule: node_ok_nodes_ok.induct)
    (auto simp: attribs_no_nul name_no_nul escaped_no_nul uscan_no_nul)

section \<open>Texts of a tree\<close>

text \<open>
  A tree may be written with blanks after the attributes of a tag, and an empty element as two
  tags; the printer writes neither.
\<close>

inductive node_form :: "iks \<Rightarrow> string \<Rightarrow> bool" and nodes_form :: "iks list \<Rightarrow> string \<Rightarrow> bool" where
  cdata_form: "node_form (IksCData d) (escaped d)"
| single_form: "k = 0 \<or> as \<noteq> [] \<Longrightarrow> node_form (IksTag n as []) (spaced_tag n as k IKS_SINGLE)"
| open_form: "k = 0 \<or> as \<noteq> [] \<Longrightarrow> nodes_form cs t
    \<Longrightarrow> node_form (IksTag n as cs) (spaced_tag n as k IKS_OPEN @ t @ ''</'' @ n @ ''>'')"
| no_form: "nodes_form [] []"
| more_form: "node_form c t \<Longrightarrow> nodes_form cs ts \<Longrightarrow> nodes_form (c # cs) (t @ ts)"

inductive_cases tag_formE: "node_form (IksTag n as cs) t"
inductive_simps cdata_form_iff: "node_form (IksCData d) t"
inductive_simps nodes_form_Nil [simp]: "nodes_form [] t"
inductive_simps nodes_form_Cons: "nodes_form (c # cs) t"

lemma printed_form:
  "node_ok x \<Longrightarrow> node_form x (node_text x)"
  "nodes_ok xs \<Longrightarrow> nodes_form xs (nodes_text xs)"
proof (induction x and xs rule: node_ok_nodes_ok.induct)
  case (2 n as cs)
  then have ok: "attrs_ok as" and cs: "nodes_form cs (nodes_text cs)" by simp_all
  show ?case
  proof (cases "cs = []")
    case True
    have "node_text (IksTag n as []) = spaced_tag n as 0 IKS_SINGLE"
      using attrs_ok_raw(1) [OF ok] by (simp add: spaced_tag_def)
    then show ?thesis using single_form [of 0 as n] True by simp
  next
    case False
    have "node_text (IksTag n as cs) = spaced_tag n as 0 IKS_OPEN @ nodes_text cs @ ''</'' @ n @ ''>''"
      using attrs_ok_raw(1) [OF ok] False by (simp add: spaced_tag_def)
    then show ?thesis using open_form [OF _ cs, of 0 as n] by simp
  qed
qed (auto intro: node_form_nodes_form.intros)

lemma form_starts: "node_form (IksTag n as cs) t \<Longrightarrow> \<exists>s. t = CHR ''<'' # s"
  by (elim tag_formE) (simp_all add: spaced_tag_def)

lemma form_no_nul:
  "node_form x t \<Longrightarrow> node_ok x \<Longrightarrow> no_nul t"
  "nodes_form xs ts \<Longrightarrow> nodes_ok xs \<Longrightarrow> no_nul ts"
proof (induction x t and xs ts rule: node_form_nodes_form.inducts)
  case (cdata_form d)
  then show ?case using uscan_no_nul [of _ 0 d] escaped_no_nul [of d] by auto
next
  case (single_form k as n)
  then show ?case using attribs_no_nul [of as] attrs_ok_raw(1) [of as] name_no_nul [of n] by (simp add: spaced_tag_def no_nul_def)
next
  case (open_form k as cs t n)
  then show ?case using attribs_no_nul [of as] attrs_ok_raw(1) [of as] name_no_nul [of n] by (simp add: spaced_tag_def no_nul_def)
qed simp_all

section \<open>Reading a tree back\<close>

text \<open>The rest \<open>s\<close> is read after a hook's result \<open>r\<close>.\<close>

definition goes_on ::
  "'u tag_fun \<Rightarrow> ('u \<Rightarrow> string \<Rightarrow> 'u) \<Rightarrow> string \<Rightarrow> (ikserror \<times> 'u) option \<Rightarrow> 'u lexed \<Rightarrow> bool" where
  "goes_on tag cd s r x \<longleftrightarrow>
     (case r of
        None \<Rightarrow> x = None
      | Some (e, u') \<Rightarrow>
          if e = IKS_OK then \<exists>m l'. 12 dvd m \<and> idle m l' \<and> x = lx_run tag cd s u' l' else \<exists>l'. x = Some (l', u', e))"

lemma goes_on_tag:
  "12 dvd m \<Longrightarrow> tag_done tag cd n as ty m s u x \<Longrightarrow> goes_on tag cd s (tag u n as ty) x"
  by (auto simp: tag_done_def goes_on_def split: option.splits prod.splits if_splits)

lemma room_for_dvd: "12 dvd m \<Longrightarrow> 12 dvd room_for m k"
  by (simp add: room_for_def max_def)

lemma goes_onD:
  assumes "goes_on tag cd s (Some (IKS_OK, u)) x"
  obtains m l where "12 dvd m" and "idle m l" and "x = lx_run tag cd s u l"
  using assms by (auto simp: goes_on_def)

lemma node_start: "attrs_ok as \<Longrightarrow> tag_node n as = (n, as, [])"
  using insert_attribs_distinct [of "[]" as] by (simp add: tag_node_def attrs_ok_def)

lemma start_run:
  assumes "name_ok n" and "attrs_ok as" and "12 dvd m" and "idle m l" and "ty \<noteq> IKS_CLOSE" and "k = 0 \<or> as \<noteq> []"
  shows "goes_on tag cd s (tag u n as ty) (lx_run tag cd (spaced_tag n as k ty @ s) u l)"
  using start_spaced_tag [OF assms(4) _ attrs_ok_raw(2) [OF assms(2)] assms(3,5,6), of n tag cd s u]
    attrs_ok_raw(3) [OF assms(2)] assms(1) room_for_dvd [OF assms(3)]
  by (auto simp: name_ok_def intro: goes_on_tag)

section \<open>Hooks that build a tree\<close>

text \<open>
  The laws of hooks that keep the open elements in a part \<open>cur\<close> of their state: \<open>opens u n\<close>
  says that a tag \<open>n\<close> becomes an element in the state \<open>u\<close>.  What the end of the outermost element does
  is left open.
\<close>

locale tree_builder =
  fixes tag :: "'u tag_fun" and cd :: "'u \<Rightarrow> string \<Rightarrow> 'u"
    and cur :: "'u \<Rightarrow> open_tag list" and put :: "open_tag list \<Rightarrow> 'u \<Rightarrow> 'u" and opens :: "'u \<Rightarrow> string \<Rightarrow> bool"
  assumes put_put [simp]: "put ts (put us u) = put ts u" and cur_put [simp]: "cur (put ts u) = ts"
    and put_cur: "cur u = ts \<Longrightarrow> put ts u = u"
    and open_tag: "opens u n \<Longrightarrow> tag u n as IKS_OPEN = Some (IKS_OK, put (tag_node n as # cur u) u)"
    and single_tag: "opens u n \<Longrightarrow> tag u n as IKS_SINGLE = tag (put (tag_node n as # cur u) u) n [] IKS_CLOSE"
    and inner_tag: "no_nul n \<Longrightarrow> tag (put ((n, as, cs) # t # ts) u) n [] IKS_CLOSE
      = Some (IKS_OK, put (add_child t (IksTag n as cs) # ts) u)"
    and inside: "cur u \<noteq> [] \<Longrightarrow> no_nul n \<Longrightarrow> opens u n"
    and data: "s \<noteq> [] \<Longrightarrow> cd u s = put (add_cdata s (cur u)) u"
begin

lemma given_data:
  assumes "d \<noteq> []"
  shows "given cd d u = cd u d"
  using assms
proof (induction d rule: rev_induct)
  case (snoc c d)
  have "cd u (d @ [c]) = cd (cd u d) [c]" if "d \<noteq> []"
    using that add_cdata_joins [of d "[c]" "cur u"] by (simp add: data)
  then show ?case using snoc.IH by (cases d) auto
qed simp

text \<open>The text \<open>ts\<close> of children is read into the innermost element.\<close>

definition reads_children :: "iks list \<Rightarrow> string \<Rightarrow> bool" where
  "reads_children xs ts \<longleftrightarrow>
     (\<forall>m l u t rest s. 12 dvd m \<longrightarrow> idle m l \<longrightarrow> cur u = t # rest
        \<longrightarrow> (xs \<noteq> [] \<and> is_cdata (hd xs) \<longrightarrow> \<not> ends_with_cdata t)
        \<longrightarrow> goes_on tag cd s (Some (IKS_OK, put (foldl add_child t xs # rest) u)) (lx_run tag cd (ts @ s) u l))"

lemma reads_childrenD:
  assumes "reads_children xs ts" and "12 dvd m" and "idle m l" and "cur u = t # rest"
    and "xs \<noteq> [] \<and> is_cdata (hd xs) \<longrightarrow> \<not> ends_with_cdata t"
  shows "goes_on tag cd s (Some (IKS_OK, put (foldl add_child t xs # rest) u)) (lx_run tag cd (ts @ s) u l)"
  using assms unfolding reads_children_def by blast

lemma open_run:
  assumes "name_ok n" and "attrs_ok as" and "reads_children cs t" and "12 dvd m" and "idle m l" and "opens u n"
    and "k = 0 \<or> as \<noteq> []"
  shows "goes_on tag cd s (Some (IKS_OK, put ((n, as, cs) # cur u) u))
    (lx_run tag cd (spaced_tag n as k IKS_OPEN @ t @ s) u l)"
proof -
  let ?u = "put ((n, as, []) # cur u) u"
  have "goes_on tag cd (t @ s) (Some (IKS_OK, ?u)) (lx_run tag cd (spaced_tag n as k IKS_OPEN @ t @ s) u l)"
    using start_run [OF assms(1,2,4,5) _ assms(7), where ty = IKS_OPEN and u = u and s = "t @ s" and tag = tag and cd = cd] assms(2)
    by (simp add: open_tag [OF assms(6)] node_start)
  then obtain m1 l1 where l1: "12 dvd m1" "idle m1 l1"
      "lx_run tag cd (spaced_tag n as k IKS_OPEN @ t @ s) u l = lx_run tag cd (t @ s) ?u l1"
    by (rule goes_onD)
  have "goes_on tag cd s (Some (IKS_OK, put (foldl add_child (n, as, []) cs # cur u) ?u)) (lx_run tag cd (t @ s) ?u l1)"
    by (intro reads_childrenD [OF assms(3) l1(1,2)]) (simp_all add: ends_with_cdata_def)
  then show ?thesis unfolding l1(3) by (simp add: foldl_add_child)
qed

text \<open>The closing tag of an open element may have any name.\<close>

lemma close_run:
  assumes "name_ok n" and "attrs_ok as" and "reads_children cs t" and "12 dvd m" and "idle m l" and "opens u n"
    and "k = 0 \<or> as \<noteq> []" and "name_ok n'"
  shows "goes_on tag cd s (tag (put ((n, as, cs) # cur u) u) n' [] IKS_CLOSE)
    (lx_run tag cd (spaced_tag n as k IKS_OPEN @ t @ ''</'' @ n' @ ''>'' @ s) u l)"
proof -
  obtain m2 l2 where l2: "12 dvd m2" "idle m2 l2"
      "lx_run tag cd (spaced_tag n as k IKS_OPEN @ t @ ''</'' @ n' @ ''>'' @ s) u l
        = lx_run tag cd (''</'' @ n' @ ''>'' @ s) (put ((n, as, cs) # cur u) u) l2"
    using open_run [OF assms(1-7)] by (rule goes_onD)
  show ?thesis unfolding l2(3) using goes_on_tag [OF l2(1) close_tag [OF l2(2)]] assms(8) by (metis name_ok_def)
qed

lemma single_run:
  assumes "name_ok n" and "attrs_ok as" and "12 dvd m" and "idle m l" and "opens u n" and "k = 0 \<or> as \<noteq> []"
  shows "goes_on tag cd s (tag (put ((n, as, []) # cur u) u) n [] IKS_CLOSE) (lx_run tag cd (spaced_tag n as k IKS_SINGLE @ s) u l)"
  using start_run [OF assms(1-4) _ assms(6), where ty = IKS_SINGLE and u = u and s = s and tag = tag and cd = cd] assms(2)
  by (simp add: single_tag [OF assms(5)] node_start)

text \<open>One child is added to the innermost element.\<close>

definition reads_child :: "iks \<Rightarrow> string \<Rightarrow> bool" where
  "reads_child x ts \<longleftrightarrow>
     (\<forall>m l u t rest s. 12 dvd m \<longrightarrow> idle m l \<longrightarrow> cur u = t # rest \<longrightarrow> (is_cdata x \<longrightarrow> \<not> ends_with_cdata t)
        \<longrightarrow> goes_on tag cd s (Some (IKS_OK, put (add_child t x # rest) u)) (lx_run tag cd (ts @ s) u l))"

lemma reads_childD:
  assumes "reads_child x ts" and "12 dvd m" and "idle m l" and "cur u = t # rest" and "is_cdata x \<longrightarrow> \<not> ends_with_cdata t"
  shows "goes_on tag cd s (Some (IKS_OK, put (add_child t x # rest) u)) (lx_run tag cd (ts @ s) u l)"
  using assms unfolding reads_child_def by blast

lemma reads_cdata:
  assumes "node_ok (IksCData d)"
  shows "reads_child (IksCData d) (escaped d)"
  unfolding reads_child_def
proof (intro allI impI)
  fix m l u t rest s
  assume m: "12 dvd m" "idle m l" and u: "cur u = t # rest" and t: "is_cdata (IksCData d) \<longrightarrow> \<not> ends_with_cdata t"
  have d: "d \<noteq> []" "utext (\<lambda>_. True) d" "\<not> ends_with_cdata t" using assms t by (simp_all add: is_cdata_def)
  obtain l' where "lx_run tag cd (escaped d @ s) u l = lx_run tag cd s (given cd d u) l'" "idle m l'"
    using escaped_run [OF m(2) d(2), of tag cd s u] by blast
  then show "goes_on tag cd s (Some (IKS_OK, put (add_child t (IksCData d) # rest) u)) (lx_run tag cd (escaped d @ s) u l)"
    using m(1) by (auto simp: goes_on_def given_data [OF d(1)] data [OF d(1)] u add_cdata_child [OF d(3,1)])
qed

lemma inside_name: "cur u = t # rest \<Longrightarrow> name_ok n \<Longrightarrow> opens u n"
  using inside [of u n] name_no_nul [of n] by simp

lemma reads_more:
  assumes c: "reads_child c t" and cs: "reads_children cs ts" and ok: "is_cdata c \<and> cs \<noteq> [] \<longrightarrow> \<not> is_cdata (hd cs)"
  shows "reads_children (c # cs) (t @ ts)"
  unfolding reads_children_def
proof (intro allI impI)
  fix m l u tp rest s
  assume m: "12 dvd m" and l: "idle m l" and u: "cur u = tp # rest"
    and t: "c # cs \<noteq> [] \<and> is_cdata (hd (c # cs)) \<longrightarrow> \<not> ends_with_cdata tp"
  let ?u = "put (add_child tp c # rest) u"
  obtain m1 l1 where l1: "12 dvd m1" "idle m1 l1"
      "lx_run tag cd (t @ ts @ s) u l = lx_run tag cd (ts @ s) ?u l1"
    using reads_childD [OF c m l u, where s = "ts @ s"] t by (auto elim: goes_onD)
  have "goes_on tag cd s (Some (IKS_OK, put (foldl add_child (add_child tp c) cs # rest) ?u)) (lx_run tag cd (ts @ s) ?u l1)"
    using ok by (intro reads_childrenD [OF cs l1(1,2)]) (auto simp: ends_with_add)
  then show "goes_on tag cd s (Some (IKS_OK, put (foldl add_child tp (c # cs) # rest) u)) (lx_run tag cd ((t @ ts) @ s) u l)"
    by (simp add: l1(3))
qed

lemma children_run:
  "node_form x t \<Longrightarrow> node_ok x \<Longrightarrow> reads_child x t"
  "nodes_form xs ts \<Longrightarrow> nodes_ok xs \<Longrightarrow> reads_children xs ts"
proof (induction x t and xs ts rule: node_form_nodes_form.inducts)
  case (cdata_form d)
  then show ?case by (rule reads_cdata)
next
  case (single_form k as n)
  then have n: "name_ok n" "attrs_ok as" by simp_all
  show ?case unfolding reads_child_def
  proof (intro allI impI)
    fix m l u t rest s
    assume m: "12 dvd m" "idle m l" and u: "cur u = t # rest"
    show "goes_on tag cd s (Some (IKS_OK, put (add_child t (IksTag n as []) # rest) u)) (lx_run tag cd (spaced_tag n as k IKS_SINGLE @ s) u l)"
      using single_run [OF n m inside_name [OF u n(1)] single_form(1), of s] by (simp add: u inner_tag [OF name_no_nul [OF n(1)]])
  qed
next
  case (open_form k as cs t n)
  then have n: "name_ok n" "attrs_ok as" and cs: "reads_children cs t" by simp_all
  show ?case unfolding reads_child_def
  proof (intro allI impI)
    fix m l u tp rest s
    assume m: "12 dvd m" "idle m l" and u: "cur u = tp # rest"
    show "goes_on tag cd s (Some (IKS_OK, put (add_child tp (IksTag n as cs) # rest) u))
        (lx_run tag cd ((spaced_tag n as k IKS_OPEN @ t @ ''</'' @ n @ ''>'') @ s) u l)"
      using close_run [OF n cs m inside_name [OF u n(1)] open_form(1) n(1), of s] by (simp add: u inner_tag [OF name_no_nul [OF n(1)]])
  qed
next
  case no_form
  show ?case by (simp add: reads_children_def goes_on_def put_cur) blast
next
  case (more_form c t cs ts)
  then show ?case by (intro reads_more) auto
qed

text \<open>A whole element: its subtree is built, then the end of the element is handled.\<close>

lemma node_run:
  assumes "node_form (IksTag n as cs) t" and "node_ok (IksTag n as cs)" and "12 dvd m" and "idle m l" and "opens u n"
  shows "goes_on tag cd s (tag (put ((n, as, cs) # cur u) u) n [] IKS_CLOSE) (lx_run tag cd (t @ s) u l)"
proof -
  have ok: "name_ok n" "attrs_ok as" "nodes_ok cs" using assms(2) by simp_all
  consider (single) k where "t = spaced_tag n as k IKS_SINGLE" "cs = []" "k = 0 \<or> as \<noteq> []"
    | (tags) k t' where "t = spaced_tag n as k IKS_OPEN @ t' @ ''</'' @ n @ ''>''" "nodes_form cs t'" "k = 0 \<or> as \<noteq> []"
    using assms(1) by (auto elim: tag_formE)
  then show ?thesis
  proof cases
    case single
    then show ?thesis using single_run [OF ok(1,2) assms(3-5), of k s] by simp
  next
    case (tags k t')
    then show ?thesis using close_run [OF ok(1,2) children_run(2) [OF tags(2) ok(3)] assms(3-5) tags(3) ok(1), of s] by simp
  qed
qed

end

end
