(* ===== verification/StreamEvents.thy ===== *)
theory StreamEvents
  imports SaxNodes IksStream
begin

text \<open>
  The contract of a connection: what one side prints as a session, the other side's stream hook
  gets as the same sequence of events, however the network cuts the text.
\<close>

section \<open>The tree of a stanza\<close>

lemma stream_close: "stream_tagHook cr hook u n as IKS_CLOSE = IksStream.close_tag cr hook n u"
  by (simp add: stream_tagHook_def)

interpretation stream_tree: tree_builder "stream_tagHook cr hook" stream_cdataHook current "\<lambda>ts d. d\<lparr>current := ts\<rparr>"
  "\<lambda>d n. no_nul n \<and> (current d = [] \<longrightarrow> n \<noteq> ''stream:stream'')" for cr hook
  by unfold_locales
    (auto simp: stream_tagHook_def stream_cdataHook_def IksStream.close_tag_def iks_strcmp_0_iff into_parent_child)

text \<open>A complete stanza calls the program's hook with its tree.\<close>

lemma stanza_run:
  fixes u :: "'w stream_data"
  assumes "node_ok (IksTag n as cs)" and "n \<notin> {''stream:stream'', ''stream:error'', ''challenge''}"
    and "12 dvd m" and "idle m l" and "current u = []" and "node_form (IksTag n as cs) t"
  shows "goes_on (stream_tagHook cr hook) stream_cdataHook s (call_stream hook (IKS_NODE_NORMAL (IksTag n as cs)) u)
    (lx_run (stream_tagHook cr hook) stream_cdataHook (t @ s) u l)"
proof -
  have nul: "no_nul n" using assms(1) name_no_nul by simp
  have "u\<lparr>current := []\<rparr> = u" using assms(5) by simp
  then have cl: "IksStream.close_tag cr hook n (u\<lparr>current := [(n, as, cs)]\<rparr>) = call_stream hook (IKS_NODE_NORMAL (IksTag n as cs)) u"
    using assms(2) nul by (simp add: IksStream.close_tag_def iks_strcmp_0_iff node_of_def)
  show ?thesis
    using stream_tree.node_run [OF assms(6,1,3,4), of u cr hook s] assms(2) nul unfolding assms(5) stream_close cl by simp
qed

section \<open>Sessions\<close>

text \<open>The text of an event: the tag that opens a stream, a stanza, the tag that closes the stream.\<close>

definition event_text :: "iksnode \<Rightarrow> string" where
  "event_text ev =
     (case ev of
        IKS_NODE_START (IksTag n as cs) \<Rightarrow> tag_text n as IKS_OPEN
      | IKS_NODE_NORMAL x \<Rightarrow> node_text x
      | IKS_NODE_ERROR x \<Rightarrow> node_text x
      | _ \<Rightarrow> ''</stream:stream>'')"

definition event_ok :: "iksnode \<Rightarrow> bool" where
  "event_ok ev \<longleftrightarrow>
     (case ev of
        IKS_NODE_START (IksTag n as cs) \<Rightarrow> n = ''stream:stream'' \<and> attrs_ok as \<and> cs = []
      | IKS_NODE_NORMAL (IksTag n as cs) \<Rightarrow>
          n \<notin> {''stream:stream'', ''stream:error'', ''challenge''} \<and> node_ok (IksTag n as cs)
      | IKS_NODE_ERROR (IksTag n as cs) \<Rightarrow> n = ''stream:error'' \<and> node_ok (IksTag n as cs)
      | IKS_NODE_STOP \<Rightarrow> True
      | _ \<Rightarrow> False)"

text \<open>The texts of an event and of a session, as any client may write them.\<close>

definition event_form :: "iksnode \<Rightarrow> string \<Rightarrow> bool" where
  "event_form ev t \<longleftrightarrow>
     (case ev of
        IKS_NODE_START (IksTag n as cs) \<Rightarrow> \<exists>k. (k = 0 \<or> as \<noteq> []) \<and> t = spaced_tag n as k IKS_OPEN
      | IKS_NODE_NORMAL x \<Rightarrow> node_form x t
      | IKS_NODE_ERROR x \<Rightarrow> node_form x t
      | _ \<Rightarrow> t = ''</stream:stream>'')"

inductive session_form :: "iksnode list \<Rightarrow> string \<Rightarrow> bool" where
  "session_form [] []"
| "event_form ev t \<Longrightarrow> session_form es ts \<Longrightarrow> session_form (ev # es) (t @ ts)"

inductive_simps session_form_Nil [simp]: "session_form [] t"
inductive_cases session_formE: "session_form (ev # es) t"

lemma session_form_one: "event_form ev t \<Longrightarrow> session_form [ev] t"
  using session_form.intros(2) [of ev t "[]" "[]"] by simp

definition session_text :: "iksnode list \<Rightarrow> string" where
  "session_text es = concat (map event_text es)"

lemma printed_event: "event_ok ev \<Longrightarrow> event_form ev (event_text ev)"
  using printed_form(1)
  by (auto simp: event_ok_def event_form_def event_text_def tag_text_spaced simp del: node_ok.simps node_text.simps split: iksnode.splits iks.splits)

lemma printed_session: "\<forall>ev \<in> set es. event_ok ev \<Longrightarrow> session_form es (session_text es)"
  by (induction es) (auto simp: session_text_def intro: session_form.intros printed_event)

text \<open>The calls of the program's hook, up to its first error.\<close>

fun hook_run :: "'w stream_hook \<Rightarrow> iksnode list \<Rightarrow> 'w \<Rightarrow> (ikserror \<times> 'w) option" where
  "hook_run hook [] w = Some (IKS_OK, w)"
| "hook_run hook (ev # es) w = do {
     (e, w) \<leftarrow> hook ev w;
     if e = IKS_OK then hook_run hook es w else Some (e, w)
   }"

text \<open>A processing instruction may come first.\<close>

definition prolog_ok :: "string \<Rightarrow> bool" where
  "prolog_ok p \<longleftrightarrow> p = [] \<or> (\<exists>q. p = ''<?'' @ q @ ''>'' \<and> (\<forall>c \<in> set q. ascii c \<and> c \<noteq> CHR ''>''))"

lemma stream_name: "name_ok ''stream:stream''"
  by (simp add: name_ok_def tag_name_ok_def ascii_def byte_of_def tag_char_def is_whitespace_def)

lemma pi_chars:
  assumes "l_ctx l = C_PI" and "l_umax l = 0" and "\<forall>c \<in> set q. ascii c \<and> c \<noteq> CHR ''>''"
  shows "\<exists>l'. lx_run tag cd (q @ s) u l = lx_run tag cd s u l' \<and> core l' = core l"
  using assms
proof (induction q arbitrary: l)
  case (Cons c q)
  have "lx_run tag cd ((c # q) @ s) u l = lx_run tag cd (q @ s) u (count_char c l)"
    unfolding append_Cons using Cons.prems by (intro lx_run_ascii) (simp_all add: lx_switch_def)
  then show ?case using Cons.IH [of "count_char c l"] Cons.prems by fastforce
qed auto

lemma prolog_run:
  assumes "prolog_ok p" and "idle m l"
  shows "\<exists>l'. lx_run tag cd (p @ s) u l = lx_run tag cd s u l' \<and> idle m l'"
proof (cases "p = []")
  case True
  then show ?thesis using assms(2) by auto
next
  case False
  then obtain q where q: "p = ''<?'' @ q @ ''>''" "\<forall>c \<in> set q. ascii c \<and> c \<noteq> CHR ''>''"
    using assms(1) by (auto simp: prolog_ok_def)
  let ?l1 = "count_char CHR ''<'' (l\<lparr>l_ctx := C_TAG_START\<rparr>)"
  let ?l2 = "count_char CHR ''?'' (?l1\<lparr>l_ctx := C_PI\<rparr>)"
  have t: "p @ s = CHR ''<'' # CHR ''?'' # q @ CHR ''>'' # s" by (simp add: q(1))
  have l1: "lx_run tag cd (CHR ''<'' # CHR ''?'' # q @ CHR ''>'' # s) u l = lx_run tag cd (CHR ''?'' # q @ CHR ''>'' # s) u ?l1"
    using assms(2) by (intro lx_run_ascii chars_plain) (simp_all add: idle_def lx_switch_def)
  have l2: "lx_run tag cd (CHR ''?'' # q @ CHR ''>'' # s) u ?l1 = lx_run tag cd (q @ CHR ''>'' # s) u ?l2"
    using assms(2) by (intro lx_run_ascii chars_plain) (simp_all add: idle_def lx_switch_def)
  obtain l3 where l3: "lx_run tag cd (q @ CHR ''>'' # s) u ?l2 = lx_run tag cd (CHR ''>'' # s) u l3" "core l3 = core ?l2"
    using pi_chars [of ?l2 q tag cd "CHR ''>'' # s" u] q(2) assms(2) by (auto simp: idle_def)
  note f = core_get [OF l3(2), simplified]
  have "lx_run tag cd (CHR ''>'' # s) u l3 = lx_run tag cd s u (count_char CHR ''>'' (l3\<lparr>l_ctx := C_CDATA\<rparr>))"
    using f assms(2) by (intro lx_run_ascii chars_plain) (simp_all add: idle_def lx_switch_def)
  moreover have "idle m (count_char CHR ''>'' (l3\<lparr>l_ctx := C_CDATA\<rparr>))" using f assms(2) by (simp add: idle_def)
  ultimately show ?thesis unfolding t l1 l2 l3(1) by blast
qed

lemma start_event_run:
  fixes u :: "'w stream_data"
  assumes "attrs_ok as" and "12 dvd m" and "idle m l" and "current u = []" and "k = 0 \<or> as \<noteq> []"
  shows "goes_on (stream_tagHook cr hook) stream_cdataHook s
      (call_stream hook (IKS_NODE_START (IksTag ''stream:stream'' as [])) u)
      (lx_run (stream_tagHook cr hook) stream_cdataHook (spaced_tag ''stream:stream'' as k IKS_OPEN @ s) u l)"
proof -
  have eq: "stream_tagHook cr hook u ''stream:stream'' as IKS_OPEN = call_stream hook (IKS_NODE_START (IksTag ''stream:stream'' as [])) u"
    using assms(1,4) by (simp add: stream_tagHook_def node_start node_of_def iks_strcmp_0_iff)
  show ?thesis unfolding eq [symmetric] by (rule start_run [OF stream_name assms(1-3) _ assms(5)]) simp
qed

lemma stop_event_run:
  assumes "12 dvd m" and "idle m l" and "current u = []"
  shows "goes_on (stream_tagHook cr hook) stream_cdataHook s (call_stream hook IKS_NODE_STOP u)
      (lx_run (stream_tagHook cr hook) stream_cdataHook (''</stream:stream>'' @ s) u l)"
proof -
  note n = stream_name [unfolded name_ok_def, THEN conjunct2]
  have eq: "stream_tagHook cr hook u ''stream:stream'' [] IKS_CLOSE = call_stream hook IKS_NODE_STOP u"
    using assms(3) by (simp add: stream_tagHook_def IksStream.close_tag_def)
  have t: "''</stream:stream>'' @ s = ''</'' @ ''stream:stream'' @ ''>'' @ s" by simp
  show ?thesis unfolding t eq [symmetric] by (rule goes_on_tag [OF assms(1) SaxText.close_tag [OF assms(2) n]])
qed

lemma error_run:
  fixes u :: "'w stream_data"
  assumes "node_ok (IksTag ''stream:error'' as cs)" and "12 dvd m" and "idle m l" and "current u = []"
    and "node_form (IksTag ''stream:error'' as cs) t"
  shows "goes_on (stream_tagHook cr hook) stream_cdataHook s (call_stream hook (IKS_NODE_ERROR (IksTag ''stream:error'' as cs)) u)
    (lx_run (stream_tagHook cr hook) stream_cdataHook (t @ s) u l)"
proof -
  have "u\<lparr>current := []\<rparr> = u" using assms(4) by simp
  then have cl: "IksStream.close_tag cr hook ''stream:error'' (u\<lparr>current := [(''stream:error'', as, cs)]\<rparr>)
      = call_stream hook (IKS_NODE_ERROR (IksTag ''stream:error'' as cs)) u"
    by (simp add: IksStream.close_tag_def iks_strcmp_0_iff node_of_def)
  show ?thesis
    using stream_tree.node_run [OF assms(5,1-3), of u cr hook s] unfolding assms(4) stream_close cl by simp
qed

lemma event_run:
  fixes u :: "'w stream_data"
  assumes "event_ok ev" and "12 dvd m" and "idle m l" and "current u = []" and "event_form ev t"
  shows "goes_on (stream_tagHook cr hook) stream_cdataHook s (call_stream hook ev u)
    (lx_run (stream_tagHook cr hook) stream_cdataHook (t @ s) u l)"
proof (cases ev)
  case (IKS_NODE_START x)
  then show ?thesis using assms start_event_run [OF _ assms(2-4)]
    by (cases x) (auto simp: event_ok_def event_form_def simp del: lx_run.simps)
next
  case (IKS_NODE_NORMAL x)
  then show ?thesis using assms stanza_run [OF _ _ assms(2-4)]
    by (cases x) (auto simp: event_ok_def event_form_def simp del: lx_run.simps node_ok.simps)
next
  case (IKS_NODE_ERROR x)
  then show ?thesis using assms error_run [OF _ assms(2-4)]
    by (cases x) (auto simp: event_ok_def event_form_def simp del: lx_run.simps node_ok.simps)
next
  case IKS_NODE_STOP
  then show ?thesis using stop_event_run [OF assms(2-4), where s = s] assms(5)
    by (simp add: event_form_def del: lx_run.simps)
qed

lemma session_run:
  fixes u :: "'w stream_data"
  assumes "\<forall>ev \<in> set es. event_ok ev" and "12 dvd m" and "idle m l" and "current u = []" and "session_form es t"
  shows "case hook_run hook es (world u) of
      None \<Rightarrow> lx_run (stream_tagHook cr hook) stream_cdataHook t u l = None
    | Some (e, w) \<Rightarrow> \<exists>l' u'. lx_run (stream_tagHook cr hook) stream_cdataHook t u l = Some (l', u', e)
        \<and> world u' = w \<and> (e = IKS_OK \<longrightarrow> current u' = [] \<and> (\<exists>m'. 12 dvd m' \<and> idle m' l'))"
  using assms
proof (induction es arbitrary: m l u t)
  case Nil
  then show ?case by (auto simp: ok_def)
next
  case (Cons ev es)
  let ?tag = "stream_tagHook cr hook"
  obtain t1 t2 where t: "t = t1 @ t2" "event_form ev t1" "session_form es t2" using Cons.prems(5) by (rule session_formE)
  have g: "goes_on ?tag stream_cdataHook t2 (call_stream hook ev u) (lx_run ?tag stream_cdataHook t u l)"
    unfolding t(1) using Cons.prems t(2) by (intro event_run) simp_all
  show ?case
  proof (cases "hook ev (world u)")
    case None
    then show ?thesis using g by (simp add: call_stream_def goes_on_def)
  next
    case (Some x)
    obtain e w where x: "x = (e, w)" by (cases x)
    show ?thesis
    proof (cases "e = IKS_OK")
      case False
      then show ?thesis using g Some x by (auto simp: call_stream_def goes_on_def)
    next
      case True
      then obtain m' l' where l': "12 dvd m'" "idle m' l'"
          "lx_run ?tag stream_cdataHook t u l = lx_run ?tag stream_cdataHook t2 (u\<lparr>world := w\<rparr>) l'"
        using g Some x by (auto simp: call_stream_def goes_on_def)
      show ?thesis
        unfolding l'(3) using Cons.IH [OF _ l'(1,2) _ t(3), of "u\<lparr>world := w\<rparr>"] Cons.prems Some x True by simp
    qed
  qed
qed

text \<open>A connection between two events.\<close>

definition ready :: "iksparser \<times> 'w stream_data \<Rightarrow> bool" where
  "ready x \<longleftrightarrow> current (snd x) = [] \<and> (\<exists>m l. 12 dvd m \<and> idle m l \<and> at_rest (fst x) l)"

lemma ready_new: "ready (iks_stream_new ns w)"
proof -
  have "idle 0 lexer_start" by (simp add: idle_def lexer_start_def)
  then show ?thesis using rest_at_start by (auto simp: ready_def iks_stream_new_def intro!: exI [of _ 0])
qed

lemma session_feed:
  assumes "roomy alloc" and "clean_cut ss" and "concat ss = p @ t" and "prolog_ok p"
    and "\<forall>ev \<in> set es. event_ok ev" and "session_form es t" and "ready x"
  shows "case hook_run hook es (world (snd x)) of
      None \<Rightarrow> feed alloc (stream_hooks cr hook) ss x = None
    | Some (e, w') \<Rightarrow> \<exists>y. feed alloc (stream_hooks cr hook) ss x = Some (y, e)
        \<and> (e = IKS_OK \<longrightarrow> world (snd y) = w' \<and> ready y)"
proof -
  let ?tag = "stream_tagHook cr hook"
  obtain prs d where x: "x = (prs, d)" by (cases x)
  then obtain m l0 where r: "current d = []" "12 dvd m" "idle m l0" "at_rest prs l0" using assms(7) by (auto simp: ready_def)
  obtain l where l: "lx_run ?tag stream_cdataHook (p @ t) d l0
      = lx_run ?tag stream_cdataHook t d l" "idle m l"
    using prolog_run [OF assms(4) r(3), of ?tag stream_cdataHook t d] by blast
  note f = stream.feed_agrees [OF r(4) assms(1,2), where cr = cr and hook = hook and u = d, unfolded assms(3) l(1)]
  note run = session_run [OF assms(5) r(2) l(2) r(1) assms(6), where hook = hook and cr = cr]
  show ?thesis
  proof (cases "hook_run hook es (world d)")
    case None
    then show ?thesis using f run by (simp add: x)
  next
    case (Some y)
    then show ?thesis using f run by (cases y) (fastforce simp: x ready_def split: if_splits)
  qed
qed

end
