(* ===== verification/StreamProps.thy ===== *)
theory StreamProps
  imports StreamEvents
begin

text \<open>
  The properties of a connection: sessions are read back as they were printed, the chunks of the
  text do not matter, and which inputs of the stream parser lose text or are undefined.
\<close>

section \<open>Evaluation\<close>

abbreviation give_block :: "nat \<Rightarrow> string option" where
  "give_block n \<equiv> Some (replicate n NUL)"

lemma roomy_give: "roomy (\<lambda>n. give_block n)"
  by (simp add: roomy_def)

definition no_crypto :: crypto where
  "no_crypto = \<lparr>md5_digest = \<lambda>s. s, md5_print = \<lambda>s. s, rand = \<lambda>i. i\<rparr>"

lemma utext_ascii: "\<forall>c \<in> set s. ascii c \<and> P c \<Longrightarrow> utext P s"
  by (induction s) (auto simp: ascii_def)

lemma ascii_bytes: "\<forall>c \<in> set s. byte_of c AND 0x80 = 0 \<and> c \<noteq> NUL \<Longrightarrow> \<forall>c \<in> set s. ascii c"
  by (simp add: ascii_def)

section \<open>Sessions and chunks\<close>

text \<open>
  C4. A session written as text (an opening tag, stanzas and errors, the
  closing tag, in any number and order, as the serializer prints them or with blanks and empty
  elements in two tags) and fed to a new stream parser in any cutting into
  chunks that does not split a character calls the program's hook with exactly the events that
  were written, in their order, and returns the first error of the hook.
\<close>

theorem session_round_trip:
  assumes "roomy alloc" and "clean_cut ss" and "concat ss = p @ t" and "prolog_ok p"
    and "\<forall>ev \<in> set es. event_ok ev" and "session_form es t"
  shows "case hook_run hook es w of
      None \<Rightarrow> feed alloc (stream_hooks cr hook) ss (iks_stream_new ns w) = None
    | Some (e, w') \<Rightarrow> \<exists>prs d. feed alloc (stream_hooks cr hook) ss (iks_stream_new ns w) = Some ((prs, d), e)
        \<and> (e = IKS_OK \<longrightarrow> world d = w' \<and> current d = [])"
  using session_feed [OF assms ready_new [of ns w], where hook = hook and cr = cr]
  by (auto simp: ready_def iks_stream_new_def split: option.splits)

theorem session_round_trip_witness:
  "let es = [IKS_NODE_START (IksTag ''stream:stream'' [(''to'', ''dog'')] []),
      IKS_NODE_NORMAL (IksTag ''iq'' [(''type'', ''set'')] [IksTag ''query'' [] [], IksCData ''a<b'']), IKS_NODE_STOP];
    t = ''<?xml?>'' @ session_text es
   in \<exists>prs d. feed (\<lambda>n. give_block n) (stream_hooks no_crypto (\<lambda>ev w. Some (IKS_OK, w @ [ev]))) [take 20 t, drop 20 t]
      (iks_stream_new ''dog'' []) = Some ((prs, d), IKS_OK) \<and> world d = es"
proof -
  let ?es = "[IKS_NODE_START (IksTag ''stream:stream'' [(''to'', ''dog'')] []),
      IKS_NODE_NORMAL (IksTag ''iq'' [(''type'', ''set'')] [IksTag ''query'' [] [], IksCData ''a<b'']), IKS_NODE_STOP]"
  let ?t = "''<?xml?>'' @ session_text ?es" and ?hook = "\<lambda>ev w. Some (IKS_OK, w @ [ev])"
  have ev: "\<forall>ev \<in> set ?es. event_ok ev"
    by (simp add: event_ok_def attrs_ok_def attr_name_ok_def tag_char_def is_whitespace_def name_ok_def tag_name_ok_def
        is_cdata_def ascii_def byte_of_def is_special_def)
  have tx: "?t = ''<?xml?><stream:stream to='' @ [CHR 0x27] @ ''dog'' @ [CHR 0x27] @ ''><iq type='' @ [CHR 0x27] @ ''set'' @ [CHR 0x27]
      @ ''><query/>a&lt;b</iq></stream:stream>''"
    by (simp add: session_text_def event_text_def tag_text_def raw_attrs_def raw_attr_def escape_char.simps)
  have cut: "clean_cut [take 20 ?t, drop 20 ?t]"
    unfolding tx by (simp add: clean_cut_def cont_byte_def byte_of_def)
  have p: "prolog_ok ''<?xml?>''"
    unfolding prolog_ok_def by (intro disjI2 exI [of _ "''xml?''"]) (simp add: ascii_def byte_of_def)
  have cc: "concat [take 20 ?t, drop 20 ?t] = ?t"
    by (simp only: concat.simps append_Nil2 append_take_drop_id)
  have hr: "hook_run ?hook ?es [] = Some (IKS_OK, ?es)" by simp
  from session_round_trip [OF roomy_give cut cc p ev printed_session [OF ev], where hook = ?hook and w = "[]" and cr = no_crypto and ns = "''dog''"]
  show ?thesis unfolding Let_def hr option.case prod.case by blast
qed

text \<open>What a caller of the parser sees: the error, and the state of the program after a success.\<close>

definition outcome :: "((iksparser \<times> 'u) \<times> ikserror) option \<Rightarrow> (ikserror \<times> 'u option) option" where
  "outcome y = map_option (\<lambda>(x, e). (e, if e = IKS_OK then Some (snd x) else None)) y"

text \<open>
  C13. How the network cuts a text into chunks does not matter: two cuttings of the same text,
  none of which splits a character, give the same error code of \<^verbatim>\<open>iks_parse\<close> and the same state of the
  connection and of the program, or are both undefined.
\<close>

theorem cuts_are_equivalent:
  assumes "roomy alloc" and "clean_cut ss" and "clean_cut ts" and "concat ss = concat ts"
  shows "outcome (feed alloc (stream_hooks cr hook) ss (iks_stream_new ns w))
    = outcome (feed alloc (stream_hooks cr hook) ts (iks_stream_new ns w))"
  unfolding iks_stream_new_def outcome_def by (rule stream.cuts_agree [OF assms rest_at_start])

theorem cuts_are_equivalent_witness:
  "outcome (feed (\<lambda>n. give_block n) (stream_hooks no_crypto (\<lambda>ev w. Some (IKS_OK, w @ [ev]))) [''<a>x'', '''', ''&am'', ''p;</a>''] (iks_stream_new ''dog'' []))
    = outcome (feed (\<lambda>n. give_block n) (stream_hooks no_crypto (\<lambda>ev w. Some (IKS_OK, w @ [ev]))) [''<'', ''a>x&amp;</a'', ''>''] (iks_stream_new ''dog'' []))"
  by (rule cuts_are_equivalent) (simp_all add: roomy_give clean_cut_def cont_byte_def byte_of_def)

section \<open>Where the arrays end\<close>

text \<open>
  C33. The NULL that ends the array of attributes is written without a test. When the first tag
  of a connection, an opening tag (also that of the stream) or an empty element, is read with any
  attributes (each readable, and the program's hook defined), the parser writes past the array
  exactly when there are 12, 24, 36 and so on of them; with any other number it works.  Left out is the
  empty element \<^verbatim>\<open>challenge\<close>, which a parser without a transport cannot answer at all; no chunk starts inside a
  character.
\<close>

theorem attribute_array_overrun_iff:
  assumes "roomy alloc" and "clean_cut ss" and "concat ss = tag_text n as ty" and "ty \<noteq> IKS_CLOSE"
    and "name_ok n" and "n \<noteq> ''challenge'' \<or> ty = IKS_OPEN" and "\<forall>a \<in> set as. attr_ok a"
    and "\<forall>ev w. hook ev w \<noteq> None"
  shows "feed alloc (stream_hooks cr hook) ss (iks_stream_new ns w) = None \<longleftrightarrow> as \<noteq> [] \<and> 12 dvd length as"
proof -
  let ?tag = "stream_tagHook cr hook"
  define d where "d = snd (iks_stream_new ns w)"
  have d: "iks_stream_new ns w = (iks_sax_extend, d)" "current d = []" by (simp_all add: iks_stream_new_def d_def)
  have i: "idle 0 lexer_start" by (simp add: idle_def lexer_start_def)
  have n: "tag_name_ok n" "no_nul n" using assms(5) uscan_no_nul [of tag_char 0 n] by (simp_all add: name_ok_def)
  have hk: "call_stream hook ev d' \<noteq> None" for ev d'
    using assms(8) by (auto simp: call_stream_def split: Option.bind_split prod.split)
  then have "?tag d n as ty \<noteq> None"
    using assms(4,6) n(2) d(2) by (cases ty) (auto simp: stream_tagHook_def IksStream.close_tag_def tag_node_def iks_strcmp_0_iff Let_def)
  then have t: "x \<noteq> None" if "tag_done ?tag stream_cdataHook n as ty m [] d x" for m x
    using that by (auto simp: tag_done_def ok_def split: option.splits prod.splits if_splits)
  have "lx_run ?tag stream_cdataHook (concat ss) d lexer_start = None \<longleftrightarrow> overfull 0 as"
    using start_tag [OF i n(1) assms(7) _ assms(4), of ?tag stream_cdataHook "[]" d]
      t [of "room_for 0 (length as)" "lx_run ?tag stream_cdataHook (tag_text n as ty @ []) d lexer_start"]
    unfolding assms(3) by (cases "overfull 0 as") auto
  moreover have "overfull 0 as \<longleftrightarrow> as \<noteq> [] \<and> 12 dvd length as" by (simp add: overfull_def)
  ultimately show ?thesis
    using stream.feed_agrees [OF rest_at_start assms(1,2), where cr = cr and hook = hook and u = d]
    by (cases "lx_run ?tag stream_cdataHook (concat ss) d lexer_start") (auto simp: d(1) split: if_splits)
qed

theorem attribute_array_overrun_iff_witness:
  "feed (\<lambda>n. give_block n) (stream_hooks no_crypto (\<lambda>ev w. Some (IKS_OK, w)))
     [tag_text ''stream:stream'' (replicate 12 (''a'', ''1'')) IKS_OPEN] (iks_stream_new ''dog'' ()) = None"
proof -
  let ?as = "replicate 12 (''a'', ''1'')"
  have "clean_cut [tag_text ''stream:stream'' ?as IKS_OPEN]" by (simp add: clean_cut_def tag_text_def cont_byte_def byte_of_def)
  moreover have "name_ok ''stream:stream''"
    by (simp add: name_ok_def tag_name_ok_def ascii_def byte_of_def tag_char_def is_whitespace_def)
  moreover have "\<forall>a \<in> set ?as. attr_ok a"
    by (simp add: attr_ok_def attr_name_ok_def value_ok_def ascii_def byte_of_def tag_char_def is_whitespace_def)
  ultimately show ?thesis
    using attribute_array_overrun_iff [OF roomy_give, where ss = "[tag_text ''stream:stream'' ?as IKS_OPEN]" and n = "''stream:stream''" and as = ?as and ty = IKS_OPEN
        and hook = "\<lambda>ev w. Some (IKS_OK, w)" and cr = no_crypto and ns = "''dog''" and w = "()"]
    by simp
qed

text \<open>The loop inside an entity that is too long.\<close>

lemma entity_loop:
  assumes "ctx (prs r) = C_ENTITY" and "uni_max (prs r) = 0" and "\<forall>c \<in> set (drop (pos r) buf). ascii c \<and> c \<noteq> CHR '';''"
    and "length (entity (prs r)) \<le> 7" and "length (entity (prs r)) + length (drop (pos r) buf) = 8"
  shows "\<exists>r'. sax_loop alloc h buf r = Some (r', IKS_BADXML) \<and> ctx (prs r') = C_ENTITY
    \<and> uni_max (prs r') = 0 \<and> length (entity (prs r')) = 8 \<and> usr r' = usr r"
  using assms
proof (induction "length (drop (pos r) buf)" arbitrary: r)
  case 0
  then show ?case by simp
next
  case (Suc n)
  have i: "pos r < length buf" using Suc.hyps(2) by simp
  then have d: "drop (pos r) buf = buf ! pos r # drop (Suc (pos r)) buf" by (simp add: Cons_nth_drop_Suc)
  let ?c = "buf ! pos r" and ?e = "entity (prs r)"
  let ?r = "upd_prs (\<lambda>p. p\<lparr>entity := ?e @ [?c]\<rparr>) r"
  have c: "ascii ?c" "?c \<noteq> CHR '';''" using Suc.prems(3) d by auto
  have st: "sax_step alloc h buf ?c r = (if length ?e = 7 then fail_with IKS_BADXML ?r else Some (?r, Next))"
    using plain_char_step [OF c(1) [unfolded ascii_plain] Suc.prems(2), of alloc h buf] Suc.prems(1,4) c(2)
    by (auto simp: sax_switch_def sax_ENTITY_def Let_def)
  show ?case
  proof (cases "length ?e = 7")
    case True
    then show ?thesis using i st Suc.prems(1,2) by (subst sax_loop.simps) (simp add: fail_with_def)
  next
    case False
    let ?n = "next_char ?c ?r"
    have "sax_loop alloc h buf r = sax_loop alloc h buf ?n" using i st False by (subst sax_loop.simps) simp
    moreover have "drop (pos ?n) buf = drop (Suc (pos r)) buf" by (simp add: next_char_def)
    ultimately show ?thesis
      using Suc.hyps(1) [of ?n] Suc.hyps(2) Suc.prems False d by (simp add: next_char_def)
  qed
qed

lemma entity_overrun:
  assumes "length e = 8" and "\<forall>c \<in> set e. ascii c \<and> c \<noteq> CHR '';''" and "ascii c"
  shows "\<exists>x. iks_parse alloc h (Some (CHR ''&'' # e)) 9 (iks_sax_extend, u) = Some (x, IKS_BADXML)
    \<and> iks_parse alloc h (Some (c # t)) (length (c # t)) x = None \<and> snd x = u"
proof -
  let ?r = "\<lparr>prs = iks_sax_extend, usr = u, pos = 0, old = 0, stack_old = None\<rparr>"
  let ?buf = "CHR ''&'' # e"
  let ?r1 = "next_char CHR ''&'' (upd_prs (\<lambda>p. p\<lparr>entity := [], ctx := C_ENTITY\<rparr>) ?r)"
  have "sax_step alloc h ?buf CHR ''&'' ?r = Some (upd_prs (\<lambda>p. p\<lparr>entity := [], ctx := C_ENTITY\<rparr>) ?r, Next)"
    using plain_char_step [OF chars_plain(7) [unfolded ascii_plain], of ?r alloc h ?buf]
    by (simp add: iks_sax_extend_def sax_switch_def sax_CDATA_def deliver_def to_ctx_def)
  then have "sax_loop alloc h ?buf ?r = sax_loop alloc h ?buf ?r1" by (subst sax_loop.simps) simp
  then obtain r where r: "sax_loop alloc h ?buf ?r = Some (r, IKS_BADXML)" "ctx (prs r) = C_ENTITY"
      "uni_max (prs r) = 0" "length (entity (prs r)) = 8" "usr r = u"
    using entity_loop [of ?r1 ?buf alloc h] assms(1,2) by (auto simp: next_char_def iks_sax_extend_def)
  have "iks_parse alloc h (Some ?buf) (length ?buf) (iks_sax_extend, u) = Some ((prs r, usr r), IKS_BADXML)"
    unfolding iks_parse_all using r(1) by (simp add: sax_core_def)
  moreover have "iks_parse alloc h (Some (c # t)) (length (c # t)) (prs r, usr r) = None"
    unfolding iks_parse_all
    using r plain_char_step [OF assms(3) [unfolded ascii_plain], of "\<lparr>prs = prs r, usr = usr r, pos = 0, old = 0, stack_old = None\<rparr>" alloc h "c # t"]
    by (subst sax_core_def, subst sax_loop.simps) (simp add: sax_switch_def sax_ENTITY_def Let_def)
  moreover have "length ?buf = 9" using assms(1) by simp
  ultimately show ?thesis using r(5) by auto
qed

text \<open>
  An entity of 8 characters without a semicolon is an error, but the character that filled
  the array \<^verbatim>\<open>entity\<close> has been stored and counted: unless the caller resets the parser,
  the next call writes past the array, whatever ASCII character the next chunk starts with.
\<close>

theorem entity_array_overrun:
  assumes "length e = 8" and "\<forall>c \<in> set e. ascii c \<and> c \<noteq> CHR '';''" and "ascii c"
  shows "\<exists>x. iks_parse alloc h (Some (CHR ''&'' # e)) 9 (iks_sax_extend, u) = Some (x, IKS_BADXML)
    \<and> iks_parse alloc h (Some (c # t)) (length (c # t)) x = None"
  using entity_overrun [OF assms, of alloc h u t] by blast

theorem entity_array_overrun_witness:
  "\<exists>x. iks_parse (\<lambda>n. give_block n) (stream_hooks no_crypto (\<lambda>ev w. Some (IKS_OK, w))) (Some ''&12345678'') 9 (iks_stream_new ''dog'' ())
      = Some (x, IKS_BADXML)
    \<and> iks_parse (\<lambda>n. give_block n) (stream_hooks no_crypto (\<lambda>ev w. Some (IKS_OK, w))) (Some ''</stream:stream>'') (length ''</stream:stream>'') x = None"
  unfolding iks_stream_new_def
  by (rule entity_array_overrun) (simp_all add: ascii_def byte_of_def)

section \<open>Stanzas the library answers\<close>

lemma rspauth_response:
  assumes "trans d = None" and "iks_base64_decode True (Some s) = Some (Some bytes)"
    and "strstr_at 0 (c_str (map (\<lambda>b. char_of (unat b)) bytes)) ''rspauth'' \<noteq> None"
  shows "iks_sasl_challenge cr (IksTag n as (IksCData s # cs)) d = None"
proof -
  have c: "iks_cdata (case iks_child (Some (IksTag n as (IksCData s # cs))) of [] \<Rightarrow> None | x # _ \<Rightarrow> Some x) = Some (Some s)"
    by (simp add: iks_child_def iks_cdata_def)
  have "iks_send x d = None" for x
    using assms(1) by (auto simp: iks_send_def iks_send_raw_def split: option.split bind_splits)
  then show ?thesis using assms(2,3) unfolding iks_sasl_challenge_def c by (simp add: Let_def)
qed

lemma challenge_feed:
  assumes "roomy alloc" and "clean_cut ss" and "concat ss = node_text (IksTag ''challenge'' [] [IksCData s])"
    and "s \<noteq> []" and "utext (\<lambda>_. True) s" and "iks_base64_decode True (Some s) = Some (Some bytes)"
    and "strstr_at 0 (c_str (map (\<lambda>b. char_of (unat b)) bytes)) ''rspauth'' \<noteq> None"
    and "ready x" and "trans (snd x) = None"
  shows "feed alloc (stream_hooks cr hook) ss x = None"
proof -
  let ?tag = "stream_tagHook cr hook" and ?x = "IksTag ''challenge'' [] [IksCData s]"
  obtain prs d where x: "x = (prs, d)" by (cases x)
  then obtain m l where r: "current d = []" "trans d = None" "12 dvd m" "idle m l" "at_rest prs l"
    using assms(8,9) by (auto simp: ready_def)
  have ok: "node_ok ?x"
    using assms(4,5)
    by (simp add: name_ok_def tag_name_ok_def ascii_def byte_of_def tag_char_def is_whitespace_def attrs_ok_def is_cdata_def)
  have "IksStream.close_tag cr hook ''challenge'' (d\<lparr>current := (''challenge'', [], [IksCData s]) # current d\<rparr>) = None"
    using rspauth_response [OF _ assms(6,7), of "d\<lparr>current := []\<rparr>" cr "''challenge''" "[]" "[]"] r(1,2)
    by (simp add: IksStream.close_tag_def node_of_def iks_strcmp_0_iff)
  then have "lx_run ?tag stream_cdataHook (node_text ?x @ []) d l = None"
    using stream_tree.node_run [OF printed_form(1) [OF ok] ok r(3,4), of d cr hook "[]"] r(1) by (simp add: goes_on_def stream_close)
  then show ?thesis
    using stream.feed_agrees [OF r(5) assms(1,2), where cr = cr and hook = hook and u = d] by (simp add: assms(3) x)
qed

text \<open>
  A server's connection has no transport. When its peer sends a \<^verbatim>\<open>challenge\<close> stanza whose text
  decodes to one with the word \<^verbatim>\<open>rspauth\<close>, the library answers by itself and calls the send function
  of the transport through NULL: the behaviour is undefined in whatever chunks the stanza comes.
\<close>

theorem rspauth_challenge_is_undefined:
  assumes "roomy alloc" and "clean_cut ss" and "concat ss = node_text (IksTag ''challenge'' [] [IksCData s])"
    and "s \<noteq> []" and "utext (\<lambda>_. True) s" and "iks_base64_decode True (Some s) = Some (Some bytes)"
    and "strstr_at 0 (c_str (map (\<lambda>b. char_of (unat b)) bytes)) ''rspauth'' \<noteq> None"
  shows "feed alloc (stream_hooks cr hook) ss (iks_stream_new ns w) = None"
  by (rule challenge_feed [OF assms ready_new]) (simp add: iks_stream_new_def)

theorem rspauth_challenge_is_undefined_witness:
  "feed (\<lambda>n. give_block n) (stream_hooks no_crypto (\<lambda>ev w. Some (IKS_OK, w))) [''<challenge>cnNwYXV0aA=='', ''</challenge>'']
     (iks_stream_new ''dog'' ()) = None"
proof (rule rspauth_challenge_is_undefined [OF roomy_give, where s = "''cnNwYXV0aA==''" and bytes = "map of_char ''rspauth'' @ [0, 0, 0]"])
  show "clean_cut [''<challenge>cnNwYXV0aA=='', ''</challenge>'']" by (simp add: clean_cut_def cont_byte_def byte_of_def)
  show "concat [''<challenge>cnNwYXV0aA=='', ''</challenge>''] = node_text (IksTag ''challenge'' [] [IksCData ''cnNwYXV0aA==''])"
    by (simp add: escape_char.simps)
  show "utext (\<lambda>_. True) ''cnNwYXV0aA==''" by (simp add: byte_of_def)
  show "iks_base64_decode True (Some ''cnNwYXV0aA=='') = Some (Some (map of_char ''rspauth'' @ [0, 0, 0]))" by code_simp
  show "strstr_at 0 (c_str (map (\<lambda>b. char_of (unat b)) (map of_char ''rspauth'' @ [0, 0, 0] :: byte list))) ''rspauth'' \<noteq> None" by code_simp
qed simp

section \<open>A character across two chunks\<close>

text \<open>The beginning of a tag, up to the first quote of its attribute.\<close>

lemma tag_prefix:
  assumes "idle 0 l"
  shows "\<exists>l'. lx_run tag cd (''<a b='' @ CHR 0x27 # s) u l = lx_run tag cd s u l' \<and> l_ctx l' = C_VALUE_APOS \<and> l_umax l' = 0
    \<and> l_text l' = [] \<and> l_key l' = ''b'' \<and> l_name l' = ''a'' \<and> l_type l' = IKS_OPEN \<and> l_atts l' = [] \<and> l_max l' = 12"
proof -
  let ?q = "CHR 0x27"
  have a: "ascii CHR ''a''" "ascii CHR ''b''" by (simp_all add: ascii_def byte_of_def)
  have "lx_run tag cd (''<a b='' @ ?q # s) u l
    = lx_run tag cd (CHR ''<'' # CHR ''a'' # CHR '' '' # CHR ''b'' # CHR ''='' # ?q # s) u l" by simp
  also have "\<dots> = lx_run tag cd (CHR ''a'' # CHR '' '' # CHR ''b'' # CHR ''='' # ?q # s) u (count_char CHR ''<'' (l\<lparr>l_ctx := C_TAG_START\<rparr>))"
    (is "_ = lx_run _ _ _ _ ?l1")
    using assms by (intro lx_run_ascii chars_plain) (simp_all add: idle_def lx_switch_def)
  also have "\<dots> = lx_run tag cd (CHR '' '' # CHR ''b'' # CHR ''='' # ?q # s) u
      (count_char CHR ''a'' (?l1\<lparr>l_type := IKS_OPEN, l_text := ''a'', l_ctx := C_TAG\<rparr>))" (is "_ = lx_run _ _ _ _ ?l2")
    using assms by (intro lx_run_ascii a) (simp_all add: idle_def lx_switch_def)
  also have "\<dots> = lx_run tag cd (CHR ''b'' # CHR ''='' # ?q # s) u
      (count_char CHR '' '' (?l2\<lparr>l_name := ''a'', l_ctx := C_WHITESPACE, l_old := C_ATTRIBUTE\<rparr>))" (is "_ = lx_run _ _ _ _ ?l3")
    using assms by (intro lx_run_ascii chars_plain) (simp_all add: idle_def lx_switch_def lx_tag_def is_whitespace_def)
  also have "\<dots> = lx_run tag cd (CHR ''='' # ?q # s) u
      (count_char CHR ''b'' (?l3\<lparr>l_max := 12, l_text := ''b'', l_ctx := C_ATTRIBUTE_1\<rparr>))" (is "_ = lx_run _ _ _ _ ?l4")
    using assms
    by (intro lx_run_ascii a) (simp_all add: idle_def lx_switch_def lx_space_def lx_attribute_def grown_def is_whitespace_def)
  also have "\<dots> = lx_run tag cd (?q # s) u (count_char CHR ''='' (?l4\<lparr>l_key := ''b'', l_ctx := C_VALUE\<rparr>))" (is "_ = lx_run _ _ _ _ ?l5")
    using assms by (intro lx_run_ascii chars_plain) (simp_all add: idle_def lx_switch_def)
  also have "\<dots> = lx_run tag cd s u (count_char ?q (?l5\<lparr>l_text := [], l_ctx := C_VALUE_APOS\<rparr>))" (is "_ = lx_run _ _ _ _ ?l6")
    using assms by (intro lx_run_ascii chars_plain) (simp_all add: idle_def lx_switch_def)
  finally show ?thesis using assms by (intro exI [of _ ?l6]) (simp add: idle_def)
qed

text \<open>The rest of an empty tag after its last value.\<close>

lemma tag_suffix:
  assumes "l_ctx l = C_VALUE_APOS" and "l_umax l = 0" and "l_atts l = []" and "l_max l = 12"
  shows "tag_done tag cd (l_name l) [(l_key l, l_text l)] IKS_SINGLE 12 [] u (lx_run tag cd (CHR 0x27 # ''/>'') u l)"
proof -
  let ?l1 = "count_char CHR 0x27 (l\<lparr>l_atts := [(l_key l, l_text l)], l_ctx := C_WHITESPACE, l_old := C_ATTRIBUTE_2\<rparr>)"
  let ?l2 = "count_char CHR ''/'' (?l1\<lparr>l_type := IKS_SINGLE, l_ctx := C_TAG_END\<rparr>)"
  have "lx_run tag cd (CHR 0x27 # ''/>'') u l = lx_run tag cd ''/>'' u ?l1"
    using assms by (intro lx_run_ascii chars_plain) (simp_all add: lx_switch_def lx_value_in_def)
  also have "\<dots> = lx_run tag cd ''>'' u ?l2"
    using assms by (intro lx_run_ascii chars_plain)
      (simp_all add: lx_switch_def lx_space_def lx_attribute_2_def lx_attribute_def is_whitespace_def)
  finally show ?thesis using assms by (auto intro!: finish_single simp del: lx_run.simps)
qed

text \<open>
  C36. When the first thing a connection receives is the empty element \<^verbatim>\<open>a\<close> with the one attribute
  \<^verbatim>\<open>b\<close>, and the network cuts it inside a last character of two bytes of the value, the second byte is
  lost: the program's hook gets a value that ends with half a character, and no error.  (In character data
  the byte would be delivered, in a second piece.)
\<close>

theorem split_character_loses_byte:
  assumes "roomy alloc" and "value_ok v" and "lead_class (byte_of b) = Some (2, k)" and "byte_of b AND k \<noteq> 0"
    and "byte_of b AND 0x80 \<noteq> 0" and "cont_byte c"
  shows "case hook (IKS_NODE_NORMAL (IksTag ''a'' [(''b'', v @ [b])] [])) w of
      None \<Rightarrow> feed alloc (stream_hooks cr hook) [''<a b='' @ CHR 0x27 # v @ [b], c # CHR 0x27 # ''/>''] (iks_stream_new ns w) = None
    | Some (e, w') \<Rightarrow> \<exists>prs d. feed alloc (stream_hooks cr hook) [''<a b='' @ CHR 0x27 # v @ [b], c # CHR 0x27 # ''/>''] (iks_stream_new ns w)
          = Some ((prs, d), e) \<and> (e = IKS_OK \<longrightarrow> world d = w')"
proof -
  let ?tag = "stream_tagHook cr hook" and ?cd = stream_cdataHook and ?s = "''<a b='' @ CHR 0x27 # v @ [b]"
  define d where "d = snd (iks_stream_new ns w)"
  have d: "iks_stream_new ns w = (iks_sax_extend, d)" "current d = []" "world d = w" by (simp_all add: iks_stream_new_def d_def)
  obtain l1 where l1: "lx_run ?tag ?cd ?s d lexer_start = lx_run ?tag ?cd (v @ [b]) d l1" "l_ctx l1 = C_VALUE_APOS"
      "l_umax l1 = 0" "l_text l1 = []" "l_key l1 = ''b''" "l_name l1 = ''a''" "l_type l1 = IKS_OPEN" "l_atts l1 = []" "l_max l1 = 12"
    using tag_prefix [of lexer_start ?tag ?cd "v @ [b]" d] by (auto simp: idle_def lexer_start_def)
  obtain l2 where l2: "lx_run ?tag ?cd v d l1 = Some (l2, d, IKS_OK)" "core l2 = (core l1)\<lparr>l_text := v\<rparr>"
    using collect_run [of l1 "\<lambda>c. c \<noteq> CHR 0x27" ?tag ?cd v d] assms(2) l1(2-4)
    by (auto simp: collects_def lx_switch_def lx_value_in_def value_ok_def)
  note f2 = core_get [OF l2(2), simplified, unfolded l1(2-9)]
  let ?l3 = "count_char b (l2\<lparr>l_umax := 2, l_ulen := 1, l_text := v @ [b]\<rparr>)"
  have st: "lx_step ?tag ?cd b d l2 = ok d (l2\<lparr>l_umax := 2, l_ulen := 1, l_text := v @ [b]\<rparr>)"
    using lx_lead_step [OF _ assms(5,3,4), of l2 ?tag ?cd d] f2 by (simp add: lx_part_def collects_def)
  have run1: "lx_run ?tag ?cd ?s d lexer_start = Some (?l3, d, IKS_OK)"
    unfolding l1(1) lx_run_then [OF l2(1)] lx_run_one [OF st] by (simp add: ok_def)
  have "\<not> cont_byte CHR ''<''" by (simp add: cont_byte_def byte_of_def)
  then obtain p where p: "sax_core alloc (stream_hooks cr hook) ?s (iks_sax_extend, d) = Some ((p, d), IKS_OK)" "at_rest p ?l3"
    using stream.core_agrees [OF rest_at_start assms(1), of ?s cr hook d] unfolding run1 by auto
  let ?l4 = "skipped c ?l3"
  have "l_umax ?l3 = l_ulen ?l3 + 1" "collects (l_ctx ?l3)" using f2 by (simp_all add: collects_def)
  from stream.split_char_agrees [OF p(2) assms(1) this(2,1) assms(6), where cr = cr and hook = hook and u = d and s = "CHR 0x27 # ''/>''"]
  have a: "agrees (sax_core alloc (stream_hooks cr hook) (c # CHR 0x27 # ''/>'') (p, d)) (lx_run ?tag ?cd (CHR 0x27 # ''/>'') d ?l4)" .
  have t: "tag_done ?tag ?cd ''a'' [(''b'', v @ [b])] IKS_SINGLE 12 [] d (lx_run ?tag ?cd (CHR 0x27 # ''/>'') d ?l4)"
    using tag_suffix [of ?l4 ?tag ?cd d] f2 by (simp del: lx_run.simps)
  have h: "?tag d ''a'' [(''b'', v @ [b])] IKS_SINGLE = call_stream hook (IKS_NODE_NORMAL (IksTag ''a'' [(''b'', v @ [b])] [])) d"
  proof -
    have same: "d\<lparr>current := []\<rparr> = d" using d(2) by (cases d) simp
    show ?thesis
      by (simp add: d(2) same stream_tagHook_def IksStream.close_tag_def tag_node_def node_of_def iks_strcmp_0_iff)
  qed
  have f: "feed alloc (stream_hooks cr hook) [?s, c # CHR 0x27 # ''/>''] (iks_stream_new ns w)
      = sax_core alloc (stream_hooks cr hook) (c # CHR 0x27 # ''/>'') (p, d)"
    unfolding d(1) feed.simps iks_parse_all p(1) by (auto split: bind_splits)
  show ?thesis
    using a t unfolding f tag_done_def h call_stream_def d(3)
    by (cases "hook (IKS_NODE_NORMAL (IksTag ''a'' [(''b'', v @ [b])] [])) w") (auto simp: ok_def simp del: lx_run.simps(2) split: if_splits)
qed

theorem split_character_loses_byte_witness:
  "\<exists>prs d. feed (\<lambda>n. give_block n) (stream_hooks no_crypto (\<lambda>ev w. Some (IKS_OK, w @ [ev])))
      [''<a b='' @ CHR 0x27 # ''x'' @ [CHR 0xC3], CHR 0xA9 # CHR 0x27 # ''/>''] (iks_stream_new ''dog'' []) = Some ((prs, d), IKS_OK)
    \<and> world d = [IKS_NODE_NORMAL (IksTag ''a'' [(''b'', ''x'' @ [CHR 0xC3])] [])]"
  using split_character_loses_byte [OF roomy_give, where v = "''x''" and b = "CHR 0xC3" and c = "CHR 0xA9" and k = "0x1F"
      and hook = "\<lambda>ev w. Some (IKS_OK, w @ [ev])" and w = "[]" and cr = no_crypto and ns = "''dog''"]
  by (simp add: value_ok_def byte_of_def lead_class_def cont_byte_def del: feed.simps)

end
