(* ===== verification/CatEar.thy ===== *)
theory CatEar
  imports CatNet CatDlg StreamKeep StreamProps
begin

text \<open>
  The network side of the client, \<^verbatim>\<open>src/CuteCat/CuteCat/catEar.c\<close>: the start, the rounds of
  \<^verbatim>\<open>ClientRecSndThread\<close> and the parser in it, with the hook of theory \<open>CatDlg\<close>.  A round is one
  step; a click of the user happens between two rounds.
\<close>

section \<open>The connected parser\<close>

type_synonym dog_parser = "iksparser \<times> (nat \<times> client) stream_data"

definition the_client :: "dog_parser \<Rightarrow> client" where
  "the_client x = snd (world (snd x))"

definition on_client :: "(client \<Rightarrow> client) \<Rightarrow> dog_parser \<Rightarrow> dog_parser" where
  "on_client f x = (fst x, (snd x)\<lparr>world := (fst (world (snd x)), f (the_client x))\<rparr>)"

abbreviation cat_of :: "dog_parser \<Rightarrow> cat" where
  "cat_of x \<equiv> fst (the_client x)"

abbreviation set_cat :: "cat \<Rightarrow> dog_parser \<Rightarrow> dog_parser" where
  "set_cat c x \<equiv> on_client (\<lambda>s. (c, snd s)) x"

text \<open>What the parser needs from outside: the allocator, the digests and the answers to the callbacks.\<close>

record cat_lib =
  l_alloc :: "nat \<Rightarrow> string option"
  l_crypto :: crypto
  l_envs :: "nat \<Rightarrow> dlg_env"

abbreviation dog_hooks :: "cat_lib \<Rightarrow> (nat \<times> client) stream_data hooks" where
  "dog_hooks lib \<equiv> stream_hooks (l_crypto lib) (dog_hook (l_envs lib))"

definition cat_IOProcessParser :: "cat_lib \<Rightarrow> string \<Rightarrow> nat \<Rightarrow> dog_parser \<Rightarrow> dog_parser option" where
  "cat_IOProcessParser lib stream len x =
     (if len = 0 then Some x
      else do {
        let x = (if iks_strcasecmp (Some (c_str stream)) (Some CLOSE_STREAM) = 0
          then set_cat (SetClientStatus CLIENT_STOPPED (cat_of x)) x else x);
        (x, Ret) \<leftarrow> iks_parse (l_alloc lib) (dog_hooks lib) (Some stream) 0 x;
        Some (if Ret \<noteq> IKS_OK then iks_parser_reset (dog_hooks lib) x else x)
      })"

text \<open>The loop of \<^verbatim>\<open>IKSParseEX\<close>, which the present code does not call: \<open>y\<close> is what is left of the \<open>z\<close> bytes, with a NUL behind.\<close>

function IKSParseEX :: "cat_lib \<Rightarrow> string \<Rightarrow> nat \<Rightarrow> dog_parser \<Rightarrow> dog_parser option" where
  "IKSParseEX lib y z x =
     (if z \<le> 1 then Some x
      else do {
        (x, Ret) \<leftarrow> iks_parse (l_alloc lib) (dog_hooks lib) (Some y) 0 x;
        let x = (if Ret \<noteq> IKS_OK then iks_parser_reset (dog_hooks lib) x else x);
        let n = length (c_str y) + 1;
        IKSParseEX lib (drop n y) (z - n) x
      })"
  by pat_completeness auto
termination by (relation "measure (\<lambda>(lib, y, z, x). z)") auto

section \<open>The start\<close>

text \<open>A name that does not fit \<^verbatim>\<open>Name\<close> is written past it.\<close>

definition InitCat :: "string \<Rightarrow> dog_parser \<Rightarrow> dog_parser option" where
  "InitCat Name x =
     (if length Name < 32 then
        (let c = (cat_of x)\<lparr>Socket := INVALID_SOCKET, VMSendBuf := replicate MSGINITSIZE NUL, pSndData := 0,
           cat_SendLen := 0, cat_Name := Name, Status := CLIENT_UNSHAKE\<rparr> in
         Some (iks_stream_new ''jabber:dog'' (fst (world (snd x)), c, snd (the_client x))))
      else None)"

text \<open>
  \<open>cfg\<close> is what \<^verbatim>\<open>cat.cfg\<close> gives.  The last part of the result says whether \<^verbatim>\<open>WorkMain\<close> creates the thread;
  nothing ends a thread that runs.
\<close>

definition Start :: "string \<times> nat \<Rightarrow> string \<Rightarrow> dog_parser \<Rightarrow> (int \<times> dog_parser \<times> bool) option" where
  "Start cfg Name x =
     (let x = set_cat ((cat_of x)\<lparr>DOG := cfg\<rparr>) x in
      if strcmp (fst cfg) ''0.0.0.0'' = 0 \<or> snd cfg = 0 then Some (0, x, False)
      else do { x \<leftarrow> InitCat Name x; Some (1, x, True) })"

definition Stop :: int where "Stop = 1"

definition OnBtnLogin :: "string \<times> nat \<Rightarrow> string \<Rightarrow> dog_parser \<Rightarrow> (dog_parser \<times> bool) option" where
  "OnBtnLogin cfg Name x =
     (if length Name < 3 then Some (on_client (AfxMessageBox ''name len should more then 2 !!'') x, False)
      else do {
        (_, x, started) \<leftarrow> Start cfg Name (on_client (\<lambda>s. (fst s, (snd s)\<lparr>m_Name := take 31 Name\<rparr>)) x);
        Some (x, started)
      })"

section \<open>A round\<close>

datatype cat_effect = Net net_effect | Sent int string

text \<open>
  The answers of the system in a round: whether the connection is due to be tested, whether \<^verbatim>\<open>select\<close> answers more
  than 0 and with the socket readable, what \<^verbatim>\<open>recv\<close> stores (\<open>None\<close> for an error) and what \<^verbatim>\<open>send\<close> answers.
\<close>

record round_env =
  re_due :: bool
  re_net :: net_env
  re_select :: bool
  re_readable :: bool
  re_recv :: "string option"
  re_send :: int

text \<open>\<^verbatim>\<open>CnnDOG\<close>: what follows the test of the flag, and the function.\<close>

definition cnn_connect :: "net_env \<Rightarrow> cat \<Rightarrow> cat \<times> net_effect list" where
  "cnn_connect env s =
     (let (s, es) = (if Socket s \<noteq> INVALID_SOCKET
          then (s\<lparr>Socket := INVALID_SOCKET\<rparr>, snd (CloseSocket (Socket s))) else (s, []));
          (_, sock, es') = CreateSocketConnect env (Socket s) (fst (DOG s)) (snd (DOG s)) in
      (s\<lparr>Socket := sock, SockStatus := CAT_SOCKET_CONNECT, nCnnAnOK := True\<rparr>, es @ es'))"

definition CnnDOG :: "net_env \<Rightarrow> cat \<Rightarrow> cat \<times> net_effect list" where
  "CnnDOG env s = (if nCnnAnOK s then (s, []) else cnn_connect env s)"

definition CHECK_CNN_LOGIN :: "net_env \<Rightarrow> cat \<Rightarrow> (cat \<times> net_effect list) option" where
  "CHECK_CNN_LOGIN env s = (let (s, es) = CnnDOG env s in do { s \<leftarrow> HandShake s; Some (s, es) })"

definition client_to_end :: "cat_lib \<Rightarrow> dog_parser \<Rightarrow> (dog_parser \<times> cat_effect list) option" where
  "client_to_end lib x = do {
     let c = cat_of x;
     x \<leftarrow> cat_IOProcessParser lib CLOSE_STREAM (length CLOSE_STREAM)
       (set_cat (c\<lparr>SockStatus := CAT_SOCKET_CLOSED, Socket := INVALID_SOCKET\<rparr>) x);
     Some (x, map Net (snd (CloseSocket (Socket c))))
   }"

text \<open>
  The receiving part; the inner \<open>None\<close> is the jump to \<^verbatim>\<open>CLIENTTOEND\<close>.  When the
  buffer is full, the NUL behind the bytes is written past it.
\<close>

definition recv_part :: "cat_lib \<Rightarrow> round_env \<Rightarrow> dog_parser \<Rightarrow> dog_parser option option" where
  "recv_part lib env x =
     (if Socket (cat_of x) \<noteq> INVALID_SOCKET \<and> re_readable env then
        (case re_recv env of
           None \<Rightarrow> Some None
         | Some [] \<Rightarrow> Some None
         | Some (b # bs) \<Rightarrow>
             if length (b # bs) < MSGINITSIZE * 256 then do {
               x \<leftarrow> cat_IOProcessParser lib ((b # bs) @ [NUL]) (length (b # bs)) x;
               Some (Some x)
             }
             else None)
      else Some (Some x))"

definition select_part :: "cat_lib \<Rightarrow> round_env \<Rightarrow> dog_parser \<Rightarrow> (dog_parser \<times> cat_effect list) option" where
  "select_part lib env x = do {
     r \<leftarrow> recv_part lib env x;
     case r of
       None \<Rightarrow> client_to_end lib x
     | Some x \<Rightarrow>
         if cat_SendLen (cat_of x) \<noteq> 0 then do {
           (c, out, closed) \<leftarrow> send_part (re_send env) (cat_of x);
           if closed then client_to_end lib (set_cat c x) else Some (set_cat c x, [Sent (Socket c) out])
         }
         else if SockStatus (cat_of x) = CAT_SOCKET_CLOSED then client_to_end lib x
         else Some (x, [])
   }"

definition ClientRecSndThread_round :: "cat_lib \<Rightarrow> round_env \<Rightarrow> dog_parser \<Rightarrow> (dog_parser \<times> cat_effect list) option" where
  "ClientRecSndThread_round lib env x = do {
     (c, es) \<leftarrow> (if re_due env then CHECK_CNN_LOGIN (re_net env) (cat_of x) else Some (cat_of x, []));
     (x, es') \<leftarrow> (if re_select env then select_part lib env (set_cat c x) else Some (set_cat c x, []));
     Some (x, map Net es @ es')
   }"

text \<open>
  The life of the client: rounds of the thread, logins with the configuration and the name, and the other
  clicks of the user.  A round is one step, which is exact as long as one thread runs; every login of a name
  that is long enough creates another one.
\<close>

datatype cat_action = Round round_env | Login "string \<times> nat" string | Click click

fun cat_step :: "cat_lib \<Rightarrow> cat_action \<Rightarrow> dog_parser \<Rightarrow> (dog_parser \<times> cat_effect list) option" where
  "cat_step lib (Round env) x = ClientRecSndThread_round lib env x"
| "cat_step lib (Login cfg Name) x = map_option (\<lambda>(x, _). (x, [])) (OnBtnLogin cfg Name x)"
| "cat_step lib (Click k) x = map_option (\<lambda>s. (on_client (\<lambda>_. s) x, [])) (on_click k (the_client x))"

fun cat_run :: "cat_lib \<Rightarrow> cat_action list \<Rightarrow> dog_parser \<Rightarrow> (dog_parser \<times> cat_effect list) option" where
  "cat_run lib [] x = Some (x, [])"
| "cat_run lib (st # sts) x = do { (x, es) \<leftarrow> cat_step lib st x; (x, es') \<leftarrow> cat_run lib sts x; Some (x, es @ es') }"


section \<open>What a run leaves alone\<close>

definition net_kept :: "cat \<Rightarrow> dog_parser \<Rightarrow> bool" where
  "net_kept c x \<longleftrightarrow> trans (snd x) = None \<and> nCnnAnOK (cat_of x) = nCnnAnOK c \<and> Socket (cat_of x) = Socket c"

lemma cat_of_moves [simp]:
  "the_client (on_client f x) = f (the_client x)" "trans (snd (on_client f x)) = trans (snd x)"
  by (simp_all add: the_client_def on_client_def)

interpretation dog: hook_keeps "stream_hooks cr (dog_hook envs)"
    "\<lambda>d. trans d = None \<and> nCnnAnOK (fst (snd (world d))) = b \<and> Socket (fst (snd (world d))) = k"
  for cr envs b k
proof (rule stream_keeps)
  fix ev w e w'
  assume "dog_hook envs ev w = Some (e, w')" and k: "nCnnAnOK (fst (snd w)) = b \<and> Socket (fst (snd w)) = k"
  then have "same_net (snd w) (snd w')"
    using dog_msg_same_net [of "envs (fst w)" ev "snd w" "snd w'"] by (auto simp: dog_hook_def)
  with k show "nCnnAnOK (fst (snd w')) = b \<and> Socket (fst (snd w')) = k" by (simp add: same_net_def)
qed

lemma parser_reset_kept: "net_kept c (iks_parser_reset (stream_hooks cr hook) x) = (nCnnAnOK (cat_of x) = nCnnAnOK c \<and> Socket (cat_of x) = Socket c)"
  if "trans (snd x) = None"
  using that by (simp add: net_kept_def iks_parser_reset_def call_delete_def stream_hooks_def stream_deleteHook_def the_client_def)

lemma parser_kept:
  assumes "cat_IOProcessParser lib stream len x = Some y" and "net_kept c x"
  shows "net_kept c y"
proof (cases "len = 0")
  case False
  let ?x = "if iks_strcasecmp (Some (c_str stream)) (Some CLOSE_STREAM) = 0 then set_cat (SetClientStatus CLIENT_STOPPED (cat_of x)) x else x"
  obtain z e where z: "iks_parse (l_alloc lib) (dog_hooks lib) (Some stream) 0 ?x = Some (z, e)"
      "y = (if e \<noteq> IKS_OK then iks_parser_reset (dog_hooks lib) z else z)"
    using assms(1) False by (auto simp: cat_IOProcessParser_def Let_def split: bind_splits)
  have "net_kept c ?x" using assms(2) by (simp add: net_kept_def SetClientStatus_def)
  then have "net_kept c z"
    using dog.parse_keeps [OF z(1), of "nCnnAnOK c" "Socket c"] by (simp add: net_kept_def the_client_def)
  moreover from this have "net_kept c (iks_parser_reset (dog_hooks lib) z)"
    using parser_reset_kept by (simp add: net_kept_def)
  ultimately show ?thesis using z(2) by (simp split: if_splits)
qed (use assms in \<open>simp add: cat_IOProcessParser_def\<close>)

lemma to_end_kept:
  assumes "client_to_end lib x = Some (y, es)" and "trans (snd x) = None"
  shows "net_kept ((cat_of x)\<lparr>Socket := INVALID_SOCKET\<rparr>) y" and "es = [Net (Close_Socket (Socket (cat_of x)))]"
  using assms parser_kept [of lib CLOSE_STREAM _ _ y "(cat_of x)\<lparr>Socket := INVALID_SOCKET\<rparr>"]
  by (auto simp: client_to_end_def Let_def net_kept_def CloseSocket_def split: bind_splits)


text \<open>The part of a round that receives and sends: a connection is not opened, and bytes go to the client's socket only.\<close>

definition quiet :: "int \<Rightarrow> cat_effect list \<Rightarrow> bool" where
  "quiet k es \<longleftrightarrow> (\<forall>e \<in> set es. case e of Net n \<Rightarrow> n = Close_Socket k | Sent j _ \<Rightarrow> j = k)"

lemma send_part_kept: "send_part sn c = Some (c', out, b) \<Longrightarrow> nCnnAnOK c' = nCnnAnOK c \<and> Socket c' = Socket c"
  by (auto simp: send_part_def Let_def split: bind_splits if_splits)

lemma recv_part_kept: "recv_part lib env x = Some (Some y) \<Longrightarrow> net_kept c x \<Longrightarrow> net_kept c y"
  by (auto simp: recv_part_def split: bind_splits if_splits option.splits list.splits dest: parser_kept)

lemma select_part_kept:
  assumes "select_part lib env x = Some (y, es)" and "trans (snd x) = None"
  shows "trans (snd y) = None \<and> nCnnAnOK (cat_of y) = nCnnAnOK (cat_of x) \<and> Socket (cat_of y) \<in> {Socket (cat_of x), INVALID_SOCKET}
    \<and> quiet (Socket (cat_of x)) es"
proof -
  have k: "net_kept (cat_of x) x" using assms(2) by (simp add: net_kept_def)
  have fin: ?thesis if "client_to_end lib z = Some (y, es)" "net_kept (cat_of x) z" for z
    using to_end_kept [OF that(1)] that(2) by (simp add: net_kept_def quiet_def)
  show ?thesis
  proof (cases "recv_part lib env x")
    case (Some r)
    show ?thesis
    proof (cases r)
      case None
      then show ?thesis using assms(1) Some fin [OF _ k] by (simp add: select_part_def)
    next
      case (Some z)
      have kz: "net_kept (cat_of x) z" using \<open>recv_part lib env x = Some r\<close> Some k by (auto dest: recv_part_kept)
      have kc: "net_kept (cat_of x) (set_cat c z)" if "send_part sn (cat_of z) = Some (c, out, b)" for sn c out b
        using send_part_kept [OF that] kz by (simp add: net_kept_def)
      show ?thesis
        using assms(1) \<open>recv_part lib env x = Some r\<close> Some fin [OF _ kz] fin [OF _ kc] kc kz
        by (auto simp: select_part_def net_kept_def quiet_def dest: send_part_kept split: bind_splits if_splits)
    qed
  qed (use assms in \<open>simp add: select_part_def\<close>)
qed


fun is_connect :: "cat_effect \<Rightarrow> bool" where
  "is_connect (Net (Connect_To ip port)) = True"
| "is_connect _ = False"

definition connects :: "cat_effect list \<Rightarrow> nat" where
  "connects es = length (filter is_connect es)"

lemma connects_append [simp]: "connects (es @ es') = connects es + connects es'" "connects [] = 0"
  by (simp_all add: connects_def)

lemma quiet_connects: "quiet k es \<Longrightarrow> connects es = 0"
  by (induction es) (auto simp: quiet_def connects_def split: cat_effect.splits)

lemma quiet_append [simp]: "quiet k (es @ es') \<longleftrightarrow> quiet k es \<and> quiet k es'" "quiet k []"
  by (auto simp: quiet_def)

text \<open>The connection flag of the client bounds what is left to connect; with the flag a closed client stays closed.\<close>

definition step_kept :: "cat \<Rightarrow> dog_parser \<Rightarrow> cat_effect list \<Rightarrow> bool" where
  "step_kept c y es \<longleftrightarrow> trans (snd y) = None
     \<and> connects es + (if nCnnAnOK (cat_of y) then 0 else 1) \<le> (if nCnnAnOK c then 0 else 1)
     \<and> (nCnnAnOK c \<longrightarrow> Socket c = INVALID_SOCKET \<longrightarrow> Socket (cat_of y) = INVALID_SOCKET \<and> quiet INVALID_SOCKET es)"

lemma check_kept:
  assumes "CHECK_CNN_LOGIN env c = Some (c', es)"
  shows "nCnnAnOK c'" and "connects (map Net es) \<le> (if nCnnAnOK c then 0 else 1)"
    and "nCnnAnOK c \<Longrightarrow> Socket c' = Socket c \<and> es = []"
proof -
  obtain d where d: "CnnDOG env c = (d, es)" "HandShake d = Some c'"
    using assms by (auto simp: CHECK_CNN_LOGIN_def split: bind_splits prod.splits)
  have h: "nCnnAnOK c' = nCnnAnOK d \<and> Socket c' = Socket d"
    using d(2) by (auto simp: HandShake_def split: if_splits bind_splits)
  show "nCnnAnOK c'" using h d(1) by (auto simp: CnnDOG_def cnn_connect_def Let_def split: if_splits prod.splits)
  show "connects (map Net es) \<le> (if nCnnAnOK c then 0 else 1)"
    using d(1) by (auto simp: CnnDOG_def cnn_connect_def CreateSocketConnect_def CloseSocket_def connects_def Let_def split: if_splits)
  show "nCnnAnOK c \<Longrightarrow> Socket c' = Socket c \<and> es = []"
    using h d(1) by (auto simp: CnnDOG_def cnn_connect_def)
qed

lemma round_kept:
  assumes "ClientRecSndThread_round lib env x = Some (y, es)" and "trans (snd x) = None"
  shows "step_kept (cat_of x) y es"
proof -
  obtain c es1 es2 where c: "(if re_due env then CHECK_CNN_LOGIN (re_net env) (cat_of x) else Some (cat_of x, [])) = Some (c, es1)"
      "(if re_select env then select_part lib env (set_cat c x) else Some (set_cat c x, [])) = Some (y, es2)"
      "es = map Net es1 @ es2"
    using assms(1) by (auto simp: ClientRecSndThread_round_def split: bind_splits)
  have a: "connects (map Net es1) + (if nCnnAnOK c then 0 else 1) \<le> (if nCnnAnOK (cat_of x) then 0 else 1)"
      "nCnnAnOK (cat_of x) \<longrightarrow> Socket c = Socket (cat_of x) \<and> es1 = []"
    using c(1) check_kept [of "re_net env" "cat_of x" c es1] by (auto simp del: connects_append(1) split: if_splits)
  have t: "trans (snd (set_cat c x)) = None" using assms(2) by simp
  have b: "trans (snd y) = None \<and> nCnnAnOK (cat_of y) = nCnnAnOK c \<and> Socket (cat_of y) \<in> {Socket c, INVALID_SOCKET} \<and> quiet (Socket c) es2"
    using c(2) select_part_kept [OF _ t] t by (auto split: if_splits)
  then have "connects es2 = 0" using quiet_connects by blast
  then show ?thesis using a b c(3) by (auto simp: step_kept_def)
qed

lemma cat_step_kept:
  assumes "cat_step lib st x = Some (y, es)" and "trans (snd x) = None"
  shows "step_kept (cat_of x) y es"
proof (cases st)
  case (Round env)
  then show ?thesis using assms round_kept by simp
next
  case (Login cfg Name)
  then have "OnBtnLogin cfg Name x = Some (y, True) \<or> OnBtnLogin cfg Name x = Some (y, False)" and [simp]: "es = []"
    using assms(1) by auto
  then have "trans (snd y) = None \<and> nCnnAnOK (cat_of y) = nCnnAnOK (cat_of x) \<and> Socket (cat_of y) \<in> {Socket (cat_of x), INVALID_SOCKET}"
    using assms(2)
    by (auto simp: OnBtnLogin_def Start_def InitCat_def iks_stream_new_def AfxMessageBox_def the_client_def on_client_def Let_def
        split: if_splits bind_splits)
  then show ?thesis by (auto simp: step_kept_def)
next
  case (Click k)
  then show ?thesis
    using assms click_same_net [of k "the_client x"] by (auto simp: step_kept_def same_net_def)
qed

lemma cat_run_kept:
  "cat_run lib sts x = Some (y, es) \<Longrightarrow> trans (snd x) = None \<Longrightarrow> step_kept (cat_of x) y es"
proof (induction sts arbitrary: x es)
  case Nil
  then show ?case by (auto simp: step_kept_def)
next
  case (Cons st sts)
  then obtain z es1 es2 where z: "cat_step lib st x = Some (z, es1)" "cat_run lib sts z = Some (y, es2)" "es = es1 @ es2"
    by (auto split: bind_splits)
  have a: "step_kept (cat_of x) z es1" using z(1) Cons.prems(2) by (rule cat_step_kept)
  then have "trans (snd z) = None" by (simp add: step_kept_def)
  then have b: "step_kept (cat_of z) y es2" using Cons.IH z(2) by blast
  show ?case using a b z(3) by (auto simp: step_kept_def split: if_splits)
qed

section \<open>The handshake\<close>

lemma handshake_no_nul: "no_nul HANDSHAKE_STREAM"
  by (simp add: HANDSHAKE_STREAM_def)

lemma handshake_length: "length HANDSHAKE_STREAM = 129"
  by (simp add: HANDSHAKE_STREAM_def)

lemma handshake_shakes:
  assumes "nCnnAnOK s" and "Status s = CLIENT_UNSHAKE" and "length (VMSendBuf s) = MSGINITSIZE"
  shows "HandShake s = Some (s\<lparr>VMSendBuf := HANDSHAKE_STREAM @ NUL # drop 130 (VMSendBuf s), cat_SendLen := 129\<rparr>)"
proof -
  have "write_at 0 (HANDSHAKE_STREAM @ [NUL]) (VMSendBuf s) = Some (HANDSHAKE_STREAM @ NUL # drop 130 (VMSendBuf s))"
    using assms(3) handshake_length by (simp add: write_at_def MSGINITSIZE_def)
  moreover have "c_str_at 0 (HANDSHAKE_STREAM @ NUL # t) = Some HANDSHAKE_STREAM" for t
    using c_str_at_terminated [OF handshake_no_nul, of "[]" 0 t] by simp
  ultimately show ?thesis using assms(1,2) handshake_length by (simp add: HandShake_def)
qed

text \<open>The system's answers to a connection that is being made, with room for \<open>n\<close> bytes.\<close>

definition connecting :: "int \<Rightarrow> int \<Rightarrow> round_env" where
  "connecting k n = \<lparr>re_due = True, re_net = \<lparr>ne_socket = k, ne_connect = - 1, ne_would_block = True, ne_select = 0,
     ne_getsockopt = None, ne_bind = 0, ne_listen = 0\<rparr>, re_select = True, re_readable = False, re_recv = None, re_send = n\<rparr>"

lemma login_connects:
  assumes "strcmp (fst cfg) ''0.0.0.0'' \<noteq> 0" and "snd cfg \<noteq> 0" and "3 \<le> length Name" and "length Name < 32"
    and "\<not> nCnnAnOK (cat_of x)" and "0 < k"
  shows "\<exists>c d. cat_run lib [Login cfg Name, Round (connecting k 129)] x
      = Some (iks_stream_new ''jabber:dog'' (fst (world (snd x)), c, d), [Net (Connect_To (fst cfg) (snd cfg)), Sent k HANDSHAKE_STREAM])
    \<and> nCnnAnOK c \<and> Socket c = k \<and> SockStatus c = CAT_SOCKET_CONNECT \<and> Status c = CLIENT_UNSHAKE \<and> cat_SendLen c = 0
    \<and> pSndData c = 0 \<and> DOG c = cfg \<and> m_Name d = take 31 Name"
proof -
  let ?c = "(cat_of x)\<lparr>DOG := cfg, Socket := INVALID_SOCKET, VMSendBuf := replicate MSGINITSIZE NUL, pSndData := 0,
     cat_SendLen := 0, cat_Name := Name, Status := CLIENT_UNSHAKE\<rparr>"
  let ?d = "(snd (the_client x))\<lparr>m_Name := take 31 Name\<rparr>" and ?n = "fst (world (snd x))"
  let ?x1 = "iks_stream_new ''jabber:dog'' (?n, ?c, ?d)"
  let ?c2 = "?c\<lparr>Socket := k, SockStatus := CAT_SOCKET_CONNECT, nCnnAnOK := True\<rparr>"
  define c3 where "c3 = ?c2\<lparr>VMSendBuf := HANDSHAKE_STREAM @ NUL # drop 130 (VMSendBuf ?c2), cat_SendLen := 129\<rparr>"
  define c4 where "c4 = c3\<lparr>cat_SendLen := 0\<rparr>"
  have c3: "cat_SendLen c3 = 129" "Socket c3 = k" "Socket c4 = k" by (simp_all add: c3_def c4_def)
  have world1: "fst (world (snd (on_client f y))) = fst (world (snd y))" for f y by (simp add: on_client_def)
  have login: "cat_step lib (Login cfg Name) x = Some (?x1, [])"
    using assms(1-4) by (simp add: OnBtnLogin_def Start_def InitCat_def Let_def world1)
  have set1: "set_cat c (iks_stream_new ns (n, c', d)) = iks_stream_new ns (n, c, d)" for c c' d n ns
    by (simp add: on_client_def iks_stream_new_def the_client_def)
  have cat1: "the_client (iks_stream_new ns (n, s)) = s" for ns n s by (simp add: the_client_def iks_stream_new_def)
  have "HandShake ?c2 = Some c3" unfolding c3_def by (subst handshake_shakes) simp_all
  then have check: "CHECK_CNN_LOGIN (re_net (connecting k 129)) ?c = Some (c3, [Connect_To (fst cfg) (snd cfg)])"
    using assms(5,6) by (simp add: CHECK_CNN_LOGIN_def CnnDOG_def cnn_connect_def CreateSocketConnect_def connecting_def INVALID_SOCKET_def)
  have sent: "send_part 129 c3 = Some (c4, HANDSHAKE_STREAM, False)"
    using handshake_length by (simp add: send_part_def read_at_def MSGINITSIZE_def c3_def c4_def)
  have "select_part lib (connecting k 129) (iks_stream_new ''jabber:dog'' (?n, c3, ?d))
      = Some (iks_stream_new ''jabber:dog'' (?n, c4, ?d), [Sent k HANDSHAKE_STREAM])"
    by (simp add: select_part_def recv_part_def connecting_def [of k] cat1 set1 sent c3)
  then have "cat_step lib (Round (connecting k 129)) ?x1
      = Some (iks_stream_new ''jabber:dog'' (?n, c4, ?d), [Net (Connect_To (fst cfg) (snd cfg)), Sent k HANDSHAKE_STREAM])"
    by (simp add: ClientRecSndThread_round_def check cat1 set1) (simp add: connecting_def)
  with login have "cat_run lib [Login cfg Name, Round (connecting k 129)] x
      = Some (iks_stream_new ''jabber:dog'' (?n, c4, ?d), [Net (Connect_To (fst cfg) (snd cfg)), Sent k HANDSHAKE_STREAM])"
    by (simp del: cat_step.simps)
  then show ?thesis by (intro exI [of _ c4] exI [of _ ?d]) (simp add: c4_def c3_def)
qed

section \<open>Properties\<close>

fun is_login :: "cat_action \<Rightarrow> bool" where
  "is_login (Login cfg Name) = True"
| "is_login _ = False"

text \<open>
  C8. In a run with one login, so with one network thread, the client opens at most one connection, and none
  when the flag is set from before, whatever the server sends, the calls of Winsock answer and the user clicks.
\<close>

theorem client_connects_at_most_once:
  assumes "cat_run lib (Login cfg Name # sts) x = Some (y, es)" and "trans (snd x) = None"
    and "\<forall>st \<in> set sts. \<not> is_login st"
  shows "connects es \<le> (if nCnnAnOK (cat_of x) then 0 else 1)"
  using cat_run_kept [OF assms(1,2)] by (simp add: step_kept_def)

text \<open>
  With a second login a second thread runs over the same globals.  \<^verbatim>\<open>CnnDOG\<close> as two steps of a thread: the
  test of the flag, and behind it the connection up to the setting of the flag.
\<close>

datatype cnn_pc = At_Test | At_Connect | Returned

fun cnn_step :: "net_env \<Rightarrow> cnn_pc \<times> cat \<Rightarrow> (cnn_pc \<times> cat) \<times> net_effect list" where
  "cnn_step env (At_Test, s) = ((if nCnnAnOK s then Returned else At_Connect, s), [])"
| "cnn_step env (At_Connect, s) = ((Returned, fst (cnn_connect env s)), snd (cnn_connect env s))"
| "cnn_step env (Returned, s) = ((Returned, s), [])"

text \<open>Steps of the threads with the given numbers, in the given order.\<close>

fun cnn_run :: "(nat \<Rightarrow> net_env) \<Rightarrow> nat list \<Rightarrow> (nat \<Rightarrow> cnn_pc) \<times> cat \<Rightarrow> ((nat \<Rightarrow> cnn_pc) \<times> cat) \<times> net_effect list" where
  "cnn_run env [] x = (x, [])"
| "cnn_run env (t # ts) x =
     (case cnn_step (env t) (fst x t, snd x) of ((pc, s), es) \<Rightarrow>
        case cnn_run env ts ((fst x)(t := pc), s) of (y, es') \<Rightarrow> (y, es @ es'))"

lemma CnnDOG_steps: "(snd (fst (cnn_run env [t, t] (\<lambda>_. At_Test, s))), snd (cnn_run env [t, t] (\<lambda>_. At_Test, s))) = CnnDOG (env t) s"
  by (simp add: CnnDOG_def cnn_connect_def split: prod.split)

text \<open>
  Two threads, of two logins, can both find the flag of the connection unset: then both connect, the second one
  closes the socket of the first, and what remains is the second socket.  A thread that runs alone connects once.
\<close>

theorem two_logins_connect_twice:
  assumes "\<not> nCnnAnOK c" and "Socket c = INVALID_SOCKET" and "0 < k0" and "0 < k1"
    and "env = (\<lambda>t. re_net (connecting (if t = 0 then k0 else k1) 0))"
  shows "(\<exists>pcs c'. cnn_run env [0, 1, 0, 1] (\<lambda>_. At_Test, c) =
       ((pcs, c'), [Connect_To (fst (DOG c)) (snd (DOG c)), Close_Socket k0, Connect_To (fst (DOG c)) (snd (DOG c))])
     \<and> Socket c' = k1 \<and> nCnnAnOK c')
    \<and> (\<exists>pcs c'. cnn_run env [0, 0, 1, 1] (\<lambda>_. At_Test, c) = ((pcs, c'), [Connect_To (fst (DOG c)) (snd (DOG c))])
     \<and> Socket c' = k0 \<and> nCnnAnOK c')"
  using assms
  by (simp_all add: cnn_connect_def CreateSocketConnect_def CloseSocket_def connecting_def INVALID_SOCKET_def)



section \<open>Concrete runs\<close>

definition demo_lib :: cat_lib where
  "demo_lib = \<lparr>l_alloc = \<lambda>n. give_block n, l_crypto = no_crypto, l_envs = \<lambda>_. \<lparr>radio = None, cap_room = True\<rparr>\<rparr>"

definition new_client :: dog_parser where
  "new_client = iks_stream_new ''jabber:dog'' (0, cat_idle\<lparr>Socket := INVALID_SOCKET, nCnnAnOK := False\<rparr>, dlg_idle)"

abbreviation dog_cfg :: "string \<times> nat" where "dog_cfg \<equiv> (''10.0.0.1'', 8888)"

lemma new_client_facts: "trans (snd new_client) = None" "\<not> nCnnAnOK (cat_of new_client)"
  by (simp_all add: new_client_def iks_stream_new_def the_client_def)

lemma new_client_run:
  "\<exists>y. cat_run demo_lib [Login dog_cfg ''tom'', Round (connecting 5 129)] new_client
     = Some (y, [Net (Connect_To ''10.0.0.1'' 8888), Sent 5 HANDSHAKE_STREAM])"
  using login_connects [of dog_cfg "''tom''" new_client 5 demo_lib] new_client_facts(2) by auto

theorem client_connects_at_most_once_witness:
  "\<exists>y es. cat_run demo_lib [Login dog_cfg ''tom'', Round (connecting 5 129)] new_client = Some (y, es) \<and> connects es = 1 \<and> connects es \<le> 1"
proof -
  obtain y where y: "cat_run demo_lib [Login dog_cfg ''tom'', Round (connecting 5 129)] new_client
     = Some (y, [Net (Connect_To ''10.0.0.1'' 8888), Sent 5 HANDSHAKE_STREAM])"
    using new_client_run by blast
  have "connects [Net (Connect_To ''10.0.0.1'' 8888), Sent 5 HANDSHAKE_STREAM] \<le> 1"
    using client_connects_at_most_once [OF y new_client_facts(1)] new_client_facts(2) by simp
  then show ?thesis using y by (intro exI conjI) (auto simp: connects_def)
qed

theorem two_logins_connect_twice_witness:
  "\<exists>pcs c'. cnn_run (\<lambda>t. re_net (connecting (if t = 0 then 5 else 6) 0)) [0, 1, 0, 1] (\<lambda>_. At_Test, cat_of new_client\<lparr>DOG := dog_cfg\<rparr>) =
       ((pcs, c'), [Connect_To ''10.0.0.1'' 8888, Close_Socket 5, Connect_To ''10.0.0.1'' 8888]) \<and> Socket c' = 6"
proof -
  let ?c = "cat_of new_client\<lparr>DOG := dog_cfg\<rparr>"
  have "\<not> nCnnAnOK ?c" "Socket ?c = INVALID_SOCKET" "0 < (5 :: int)" "0 < (6 :: int)"
    by (simp_all add: new_client_def iks_stream_new_def the_client_def)
  from two_logins_connect_twice [OF this refl] show ?thesis by auto
qed

definition closed_client :: dog_parser where
  "closed_client = iks_stream_new ''jabber:dog'' (0, cat_idle\<lparr>Socket := INVALID_SOCKET\<rparr>, dlg_idle)"


end
