(* ===== verification/Fifo.thy ===== *)
theory Fifo
  imports Prelude
begin

text \<open>
  The bounded ring \<^verbatim>\<open>FifoRing\<close> of \<^verbatim>\<open>src/CuteDog/fifo.c\<close>, with its cursors at
  their C widths: \<^verbatim>\<open>int\<close> cursors, a \<^verbatim>\<open>size_t\<close> length.  The interface
  \<open>bounded_queue\<close> states what the server relies on; it is interpreted on the ring.
\<close>

section \<open>The ring\<close>

datatype Ret = RET_OK | RET_OOM | RET_STOP | RET_INVALID_PARAMS | RET_FAIL

record 'a FifoRing =
  r_cursor :: u32
  w_cursor :: u32
  ring_length :: u64
  ring_data :: "'a list"

text \<open>\<^verbatim>\<open>(cursor + 1) % length\<close>: an \<^verbatim>\<open>int\<close> sum converted to \<^verbatim>\<open>size_t\<close>.\<close>

definition cursor_next :: "u32 \<Rightarrow> u64 \<Rightarrow> u32" where
  "cursor_next c n = ucast ((scast (c + 1) :: u64) mod n)"

text \<open>
  \<open>mem\<close> is what \<^verbatim>\<open>malloc\<close> returned: \<open>None\<close> for NULL, else the uninitialised
  slots of the flexible array member.
\<close>

definition FifoNew :: "u64 \<Rightarrow> 'a list option \<Rightarrow> 'a FifoRing option" where
  "FifoNew len mem =
     (if \<not> 1 < len then None
      else case mem of
        None \<Rightarrow> None
      | Some slots \<Rightarrow>
          Some \<lparr>r_cursor = 0, w_cursor = 0, ring_length = len, ring_data = slots\<rparr>)"

definition FifoPop :: "'a FifoRing \<Rightarrow> Ret \<times> 'a option \<times> 'a FifoRing" where
  "FifoPop q =
     (if r_cursor q \<noteq> w_cursor q
      then (RET_OK, nth_opt (ring_data q) (unat (r_cursor q)),
            q\<lparr>r_cursor := cursor_next (r_cursor q) (ring_length q)\<rparr>)
      else (RET_FAIL, None, q))"

definition FifoPush :: "'a FifoRing \<Rightarrow> 'a \<Rightarrow> Ret \<times> 'a FifoRing" where
  "FifoPush q x =
     (let w = cursor_next (w_cursor q) (ring_length q) in
      if w \<noteq> r_cursor q
      then (RET_OK, q\<lparr>ring_data := (ring_data q)[unat (w_cursor q) := x], w_cursor := w\<rparr>)
      else (RET_FAIL, q))"

section \<open>Representation invariant and abstraction\<close>

text \<open>
  The ring holds the cells from the read cursor up to, not including, the write cursor, so
  one slot is always free.  The bound on the length is the one under which the
  \<^verbatim>\<open>int\<close> cursors never overflow; the server's rings have 4096 slots.
\<close>

definition fifo_wf :: "'a FifoRing \<Rightarrow> bool" where
  "fifo_wf q \<longleftrightarrow>
     1 < unat (ring_length q) \<and> unat (ring_length q) < 2 ^ 31 \<and>
     unat (r_cursor q) < unat (ring_length q) \<and> unat (w_cursor q) < unat (ring_length q) \<and>
     length (ring_data q) = unat (ring_length q)"

definition ring_count :: "nat \<Rightarrow> nat \<Rightarrow> nat \<Rightarrow> nat" where
  "ring_count n r w = (if r \<le> w then w - r else w + n - r)"

definition ring_list :: "nat \<Rightarrow> nat \<Rightarrow> nat \<Rightarrow> 'a list \<Rightarrow> 'a list" where
  "ring_list n r w d = map (\<lambda>i. d ! ((r + i) mod n)) [0..<ring_count n r w]"

definition fifo_content :: "'a FifoRing \<Rightarrow> 'a list" where
  "fifo_content q =
     ring_list (unat (ring_length q)) (unat (r_cursor q)) (unat (w_cursor q)) (ring_data q)"

definition fifo_room :: "'a FifoRing \<Rightarrow> nat" where
  "fifo_room q = unat (ring_length q) - 1"

lemma unat_cursor_next:
  assumes "unat c < unat n" "unat n < 2 ^ 31"
  shows "unat (cursor_next c n) = Suc (unat c) mod unat n"
proof -
  have c1: "unat (c + 1) = Suc (unat c)"
    using assms by (simp add: unat_word_ariths)
  with assms have "unat (c + 1) < 2 ^ 31" by linarith
  then have s: "unat (scast (c + 1) :: u64) = Suc (unat c)"
    by (simp only: unat_scast_small c1)
  have "Suc (unat c) mod unat n < unat n"
    using assms by (intro mod_less_divisor) linarith
  moreover have "(2::nat) ^ 31 < 2 ^ 32" by simp
  ultimately have "Suc (unat c) mod unat n < 2 ^ 32" using assms by linarith
  then show ?thesis
    unfolding cursor_next_def by (subst unat_ucast_small) (simp_all only: unat_mod_distrib s)
qed

lemma ring_count_less: "r < n \<Longrightarrow> w < n \<Longrightarrow> ring_count n r w < n"
  by (auto simp: ring_count_def)

lemma ring_count_0_iff: "r < n \<Longrightarrow> w < n \<Longrightarrow> ring_count n r w = 0 \<longleftrightarrow> r = w"
  by (auto simp: ring_count_def)

lemma Suc_mod_cases: "w < n \<Longrightarrow> Suc w mod n = (if Suc w = n then 0 else Suc w)"
  by (simp add: mod_Suc)

lemma ring_count_push:
  "r < n \<Longrightarrow> w < n \<Longrightarrow> Suc w mod n \<noteq> r \<Longrightarrow> ring_count n r (Suc w mod n) = Suc (ring_count n r w)"
  by (auto simp: ring_count_def Suc_mod_cases split: if_splits)

lemma ring_count_pop:
  "r < n \<Longrightarrow> w < n \<Longrightarrow> r \<noteq> w \<Longrightarrow> ring_count n r w = Suc (ring_count n (Suc r mod n) w)"
  by (auto simp: ring_count_def Suc_mod_cases split: if_splits)

lemma ring_full_iff:
  "r < n \<Longrightarrow> w < n \<Longrightarrow> 1 < n \<Longrightarrow> Suc w mod n = r \<longleftrightarrow> ring_count n r w = n - 1"
  by (auto simp: ring_count_def Suc_mod_cases split: if_splits)

text \<open>The slot after the last one is the write cursor's, so it is outside the content.\<close>

lemma mod_once: "(m :: nat) < 2 * n \<Longrightarrow> m mod n = (if m < n then m else m - n)"
  by (simp add: mod_if)

lemma ring_index_eq:
  assumes "r < n" "w < n"
  shows "(r + ring_count n r w) mod n = w"
  using assms by (simp add: ring_count_def)

lemma ring_index_neq:
  assumes "r < n" "w < n" "i < ring_count n r w"
  shows "(r + i) mod n \<noteq> w"
proof -
  have "i < n" using assms ring_count_less [of r n w] by linarith
  then have "(r + i) mod n = (if r + i < n then r + i else r + i - n)"
    using assms by (intro mod_once) linarith
  then show ?thesis using assms by (auto simp: ring_count_def split: if_splits)
qed

lemma ring_list_push:
  assumes "r < n" "w < n" "length d = n" "Suc w mod n \<noteq> r"
  shows "ring_list n r (Suc w mod n) (d[w := x]) = ring_list n r w d @ [x]"
proof -
  have "d[w := x] ! ((r + i) mod n) = d ! ((r + i) mod n)" if "i < ring_count n r w" for i
    using ring_index_neq [OF assms(1,2) that] by simp
  then have "map (\<lambda>i. d[w := x] ! ((r + i) mod n)) [0..<ring_count n r w] = ring_list n r w d"
    by (simp add: ring_list_def)
  moreover have "d[w := x] ! ((r + ring_count n r w) mod n) = x"
    using assms by (simp add: ring_index_eq)
  ultimately show ?thesis
    using assms by (simp add: ring_list_def ring_count_push)
qed

lemma ring_list_pop:
  assumes "r < n" "w < n" "r \<noteq> w"
  shows "ring_list n r w d = d ! r # ring_list n (Suc r mod n) w d"
proof -
  have "(r + Suc i) mod n = (Suc r mod n + i) mod n" for i
    by (simp add: mod_add_left_eq)
  moreover have "[0..<Suc k] = 0 # map Suc [0..<k]" for k
    by (simp add: map_Suc_upt upt_conv_Cons)
  ultimately show ?thesis
    using assms by (simp only: ring_list_def ring_count_pop [OF assms]) simp
qed

lemma fifo_content_length: "fifo_wf q \<Longrightarrow> length (fifo_content q) \<le> fifo_room q"
  using ring_count_less [of "unat (r_cursor q)" "unat (ring_length q)" "unat (w_cursor q)"]
  by (simp add: fifo_wf_def fifo_content_def fifo_room_def ring_list_def)

lemmas fifo_defs = fifo_wf_def fifo_content_def fifo_room_def

lemma FifoPush_ok:
  assumes "fifo_wf q" "length (fifo_content q) < fifo_room q"
  shows "\<exists>q'. FifoPush q x = (RET_OK, q') \<and> fifo_content q' = fifo_content q @ [x]
    \<and> fifo_wf q' \<and> fifo_room q' = fifo_room q"
proof -
  let ?n = "unat (ring_length q)" and ?r = "unat (r_cursor q)" and ?w = "unat (w_cursor q)"
  let ?w' = "cursor_next (w_cursor q) (ring_length q)"
  have wf: "?r < ?n" "?w < ?n" "1 < ?n" "?n < 2 ^ 31" "length (ring_data q) = ?n"
    using assms by (auto simp: fifo_wf_def)
  have w': "unat ?w' = Suc ?w mod ?n" using wf by (intro unat_cursor_next) auto
  have ne: "Suc ?w mod ?n \<noteq> ?r"
    using assms wf by (simp add: ring_full_iff fifo_content_def fifo_room_def ring_list_def)
  then have "?w' \<noteq> r_cursor q" using w' by auto
  moreover have "Suc ?w mod ?n < ?n" using wf by (intro mod_less_divisor) linarith
  ultimately show ?thesis
    using wf ne ring_list_push [OF wf(1,2,5) ne, of x]
    by (simp add: FifoPush_def Let_def fifo_defs w')
qed

lemma FifoPush_full:
  assumes "fifo_wf q" "length (fifo_content q) = fifo_room q"
  shows "FifoPush q x = (RET_FAIL, q)"
proof -
  let ?n = "unat (ring_length q)" and ?r = "unat (r_cursor q)" and ?w = "unat (w_cursor q)"
  have wf: "?r < ?n" "?w < ?n" "1 < ?n" "?n < 2 ^ 31"
    using assms by (auto simp: fifo_wf_def)
  have "Suc ?w mod ?n = ?r"
    using assms wf by (simp add: ring_full_iff fifo_content_def fifo_room_def ring_list_def)
  then have "cursor_next (w_cursor q) (ring_length q) = r_cursor q"
    using wf by (intro word_unat_eq_iff [THEN iffD2]) (simp add: unat_cursor_next)
  then show ?thesis by (simp add: FifoPush_def)
qed

lemma FifoPop_ok:
  assumes "fifo_wf q" "fifo_content q = x # xs"
  shows "\<exists>q'. FifoPop q = (RET_OK, Some x, q') \<and> fifo_content q' = xs
    \<and> fifo_wf q' \<and> fifo_room q' = fifo_room q"
proof -
  let ?n = "unat (ring_length q)" and ?r = "unat (r_cursor q)" and ?w = "unat (w_cursor q)"
  have wf: "?r < ?n" "?w < ?n" "1 < ?n" "?n < 2 ^ 31" "length (ring_data q) = ?n"
    using assms by (auto simp: fifo_wf_def)
  have r': "unat (cursor_next (r_cursor q) (ring_length q)) = Suc ?r mod ?n"
    using wf by (intro unat_cursor_next) auto
  have ne: "?r \<noteq> ?w"
    using assms wf ring_count_0_iff [OF wf(1,2)] by (auto simp: fifo_content_def ring_list_def)
  moreover have "Suc ?r mod ?n < ?n" using wf by (intro mod_less_divisor) linarith
  ultimately show ?thesis
    using wf assms ring_list_pop [OF wf(1,2) ne, of "ring_data q"]
    by (auto simp: FifoPop_def fifo_defs r' mem_simps)
qed

lemma FifoPop_empty:
  assumes "fifo_wf q" "fifo_content q = []"
  shows "FifoPop q = (RET_FAIL, None, q)"
proof -
  have "unat (r_cursor q) = unat (w_cursor q)"
    using assms ring_count_0_iff [of "unat (r_cursor q)" "unat (ring_length q)" "unat (w_cursor q)"]
    by (simp add: fifo_wf_def fifo_content_def ring_list_def)
  then have "r_cursor q = w_cursor q" by (simp only: word_unat_eq_iff)
  then show ?thesis by (simp add: FifoPop_def)
qed

lemma FifoNew_wf:
  assumes "FifoNew len (Some slots) = Some q" "length slots = unat len" "unat len < 2 ^ 31"
  shows "fifo_wf q" "fifo_content q = []" "fifo_room q = unat len - 1"
  using assms by (auto simp: FifoNew_def fifo_defs ring_list_def ring_count_def word_less_nat_alt
      split: if_splits)

section \<open>The queue interface\<close>

text \<open>
  What the server relies on: a queue of bounded room whose failing operations change
  nothing.  The client lemma is about every sequence of pushes and pops, so it holds for
  whatever interleaving of whole operations the threads produce.
\<close>

datatype 'a queue_op = QPush 'a | QPop

text \<open>The accepted elements, the delivered elements and the final queue of a sequence.\<close>

fun run_queue ::
  "('q \<Rightarrow> 'a \<Rightarrow> Ret \<times> 'q) \<Rightarrow> ('q \<Rightarrow> Ret \<times> 'a option \<times> 'q) \<Rightarrow> 'q \<Rightarrow> 'a queue_op list \<Rightarrow>
     'a list \<times> 'a list \<times> 'q" where
  "run_queue push pop q [] = ([], [], q)"
| "run_queue push pop q (QPush x # ops) =
     (case push q x of (r, q') \<Rightarrow>
      case run_queue push pop q' ops of (ins, outs, q'') \<Rightarrow>
        (if r = RET_OK then x # ins else ins, outs, q''))"
| "run_queue push pop q (QPop # ops) =
     (case pop q of (r, d, q') \<Rightarrow>
      case run_queue push pop q' ops of (ins, outs, q'') \<Rightarrow>
        (ins, case d of None \<Rightarrow> outs | Some x \<Rightarrow> x # outs, q''))"

locale bounded_queue =
  fixes push :: "'q \<Rightarrow> 'a \<Rightarrow> Ret \<times> 'q"
    and pop :: "'q \<Rightarrow> Ret \<times> 'a option \<times> 'q"
    and content :: "'q \<Rightarrow> 'a list"
    and room :: "'q \<Rightarrow> nat"
    and invar :: "'q \<Rightarrow> bool"
  assumes push_ok: "invar q \<Longrightarrow> length (content q) < room q \<Longrightarrow>
      \<exists>q'. push q x = (RET_OK, q') \<and> content q' = content q @ [x] \<and> invar q' \<and> room q' = room q"
    and push_full: "invar q \<Longrightarrow> length (content q) = room q \<Longrightarrow> push q x = (RET_FAIL, q)"
    and pop_ok: "invar q \<Longrightarrow> content q = x # xs \<Longrightarrow>
      \<exists>q'. pop q = (RET_OK, Some x, q') \<and> content q' = xs \<and> invar q' \<and> room q' = room q"
    and pop_empty: "invar q \<Longrightarrow> content q = [] \<Longrightarrow> pop q = (RET_FAIL, None, q)"
    and content_room: "invar q \<Longrightarrow> length (content q) \<le> room q"
begin

lemma push_cases:
  assumes "invar q"
  obtains (full) "length (content q) = room q" "push q x = (RET_FAIL, q)"
  | (ok) q' where "push q x = (RET_OK, q')" "content q' = content q @ [x]" "invar q'"
      "room q' = room q"
  using assms push_ok [of q x] push_full [of q x] content_room [of q] le_neq_implies_less by metis

lemma pop_cases:
  assumes "invar q"
  obtains (none) "content q = []" "pop q = (RET_FAIL, None, q)"
  | (ok) x q' where "pop q = (RET_OK, Some x, q')" "content q = x # content q'" "invar q'"
      "room q' = room q"
  using assms pop_ok [of q] pop_empty [of q] by (cases "content q") metis+

lemma run_conserves:
  "invar q \<Longrightarrow> run_queue push pop q ops = (ins, outs, q') \<Longrightarrow>
     content q @ ins = outs @ content q' \<and> invar q' \<and> room q' = room q"
proof (induction ops arbitrary: q ins outs)
  case Nil
  then show ?case by simp
next
  case (Cons op ops)
  show ?case
  proof (cases op)
    case (QPush x)
    from Cons.prems(1) show ?thesis
    proof (cases rule: push_cases [where x = x])
      case full
      with Cons QPush show ?thesis by (fastforce split: prod.splits)
    next
      case (ok q1)
      with Cons QPush show ?thesis by (fastforce split: prod.splits)
    qed
  next
    case QPop
    from Cons.prems(1) show ?thesis
    proof (cases rule: pop_cases)
      case none
      with Cons QPop show ?thesis by (fastforce split: prod.splits)
    next
      case (ok x q1)
      with Cons QPop show ?thesis by (fastforce split: prod.splits)
    qed
  qed
qed

lemma push_unless_full:
  assumes "invar q" "length (content q) < room q"
  shows "fst (push q x) = RET_OK" "invar (snd (push q x))"
    "content (snd (push q x)) = content q @ [x]" "room (snd (push q x)) = room q"
  using push_ok [OF assms, of x] by auto

end

interpretation ring: bounded_queue FifoPush FifoPop fifo_content fifo_room fifo_wf
  by unfold_locales
    (blast intro: FifoPush_ok FifoPush_full FifoPop_ok FifoPop_empty fifo_content_length)+

section \<open>The ring as the server uses it\<close>

text \<open>
  Whatever sequence of pushes and pops is run on a ring, the elements that were in it
  followed by the accepted ones are the delivered ones followed by those still in it: no
  element is lost, duplicated or reordered, and the ring stays well formed with its room
  unchanged.
\<close>

theorem fifo_conserves_elements:
  assumes "fifo_wf q"
    and "run_queue FifoPush FifoPop q ops = (accepted, delivered, q')"
  shows "fifo_content q @ accepted = delivered @ fifo_content q' \<and> fifo_wf q' \<and> fifo_room q' = fifo_room q"
  using ring.run_conserves [OF assms] by auto

theorem fifo_conserves_elements_witness:
  "fifo_content \<lparr>r_cursor = 2, w_cursor = 0, ring_length = 3, ring_data = [10, 11, 12 :: nat]\<rparr> @ [13]
     = [12, 13] @ []"
proof -
  let ?q = "\<lparr>r_cursor = 2, w_cursor = 0, ring_length = 3, ring_data = [10, 11, 12 :: nat]\<rparr>"
  let ?q' = "\<lparr>r_cursor = 1, w_cursor = 1, ring_length = 3, ring_data = [13, 11, 12 :: nat]\<rparr>"
  have wf: "fifo_wf ?q" by (simp add: fifo_wf_def)
  have run: "run_queue FifoPush FifoPop ?q [QPush 13, QPush 14, QPop, QPop, QPop]
      = ([13], [12, 13], ?q')" by code_simp
  have "fifo_content ?q' = []" by code_simp
  with fifo_conserves_elements [OF wf run] show ?thesis by simp
qed

end
