(* ===== verification/FifoThreads.thy ===== *)
theory FifoThreads
  imports Fifo
begin

text \<open>
  The two rings of \<^verbatim>\<open>src/CuteDog/cdogEar.c\<close> are shared by threads without a lock:
  the capture threads and the I/O thread take cells from the free ring and put them on the
  message ring, the socket thread does the reverse.  This theory splits \<^verbatim>\<open>FifoPush\<close>
  and \<^verbatim>\<open>FifoPop\<close> into their memory accesses (store or load the slot, then move the
  cursor) and lets the accesses of different threads interleave under sequential
  consistency.  With one producer and one consumer the ring is still a queue; with a second
  consumer one element can be delivered twice and another be lost.
\<close>

section \<open>Interleaved steps\<close>

text \<open>
  A thread is between the slot access and the cursor move, or idle.  Reading the other side's cursor, to test whether the
  ring is full or empty, and the access of the slot behind the test are one step here; in the source they are two.
  With one thread on each side that makes no difference: only the other thread moves the cursor that is read, and
  it moves it so that the test, once passed, stays passed.
\<close>

datatype 'a fifo_pc = Idle | Stored 'a | Loaded 'a

record 'a fifo_threads =
  ring :: "'a FifoRing"
  pcs :: "nat \<Rightarrow> 'a fifo_pc"
  pushed :: "'a list"
  popped :: "'a list"

definition next_r :: "'a FifoRing \<Rightarrow> u32" where
  "next_r q = cursor_next (r_cursor q) (ring_length q)"

definition next_w :: "'a FifoRing \<Rightarrow> u32" where
  "next_w q = cursor_next (w_cursor q) (ring_length q)"

inductive fifo_step :: "nat set \<Rightarrow> nat set \<Rightarrow> 'a fifo_threads \<Rightarrow> 'a fifo_threads \<Rightarrow> bool"
  for producers consumers where
  store: "i \<in> producers \<Longrightarrow> pcs s i = Idle \<Longrightarrow> next_w (ring s) \<noteq> r_cursor (ring s) \<Longrightarrow>
    fifo_step producers consumers s
      (s\<lparr>ring := (ring s)\<lparr>ring_data := (ring_data (ring s))[unat (w_cursor (ring s)) := x]\<rparr>,
         pcs := (pcs s)(i := Stored x)\<rparr>)"
| publish: "i \<in> producers \<Longrightarrow> pcs s i = Stored x \<Longrightarrow>
    fifo_step producers consumers s
      (s\<lparr>ring := (ring s)\<lparr>w_cursor := next_w (ring s)\<rparr>,
         pcs := (pcs s)(i := Idle), pushed := pushed s @ [x]\<rparr>)"
| load: "i \<in> consumers \<Longrightarrow> pcs s i = Idle \<Longrightarrow> r_cursor (ring s) \<noteq> w_cursor (ring s) \<Longrightarrow>
    fifo_step producers consumers s
      (s\<lparr>pcs := (pcs s)(i := Loaded (ring_data (ring s) ! unat (r_cursor (ring s))))\<rparr>)"
| advance: "i \<in> consumers \<Longrightarrow> pcs s i = Loaded x \<Longrightarrow>
    fifo_step producers consumers s
      (s\<lparr>ring := (ring s)\<lparr>r_cursor := next_r (ring s)\<rparr>,
         pcs := (pcs s)(i := Idle), popped := popped s @ [x]\<rparr>)"

inductive fifo_reach :: "nat set \<Rightarrow> nat set \<Rightarrow> 'a fifo_threads \<Rightarrow> 'a fifo_threads \<Rightarrow> bool"
  for producers consumers s0 where
  start: "fifo_reach producers consumers s0 s0"
| step: "fifo_reach producers consumers s0 s \<Longrightarrow> fifo_step producers consumers s t \<Longrightarrow>
    fifo_reach producers consumers s0 t"

definition fifo_threads_init :: "'a FifoRing \<Rightarrow> 'a fifo_threads" where
  "fifo_threads_init q = \<lparr>ring = q, pcs = (\<lambda>_. Idle), pushed = [], popped = []\<rparr>"

text \<open>Run without interleaving, the steps are the operations of \<open>Fifo\<close>.\<close>

lemma store_publish_is_FifoPush:
  "next_w q \<noteq> r_cursor q \<Longrightarrow>
     FifoPush q x = (RET_OK, q\<lparr>ring_data := (ring_data q)[unat (w_cursor q) := x], w_cursor := next_w q\<rparr>)"
  by (simp add: FifoPush_def next_w_def Let_def)

lemma load_advance_is_FifoPop:
  "fifo_wf q \<Longrightarrow> r_cursor q \<noteq> w_cursor q \<Longrightarrow>
     FifoPop q = (RET_OK, Some (ring_data q ! unat (r_cursor q)), q\<lparr>r_cursor := next_r q\<rparr>)"
  by (simp add: FifoPop_def next_r_def fifo_wf_def mem_simps)

section \<open>One producer, one consumer\<close>

text \<open>
  The producer's stored slot is outside the content until it is published; the consumer's
  loaded element is the head of the content until the cursor moves.
\<close>

definition spsc_inv :: "nat \<Rightarrow> nat \<Rightarrow> 'a list \<Rightarrow> 'a fifo_threads \<Rightarrow> bool" where
  "spsc_inv p c c0 s \<longleftrightarrow>
     fifo_wf (ring s) \<and> c0 @ pushed s = popped s @ fifo_content (ring s) \<and>
     (pcs s p = Idle \<or> (\<exists>x. pcs s p = Stored x \<and> next_w (ring s) \<noteq> r_cursor (ring s) \<and>
        ring_data (ring s) ! unat (w_cursor (ring s)) = x)) \<and>
     (pcs s c = Idle \<or> (\<exists>x xs. pcs s c = Loaded x \<and> fifo_content (ring s) = x # xs))"

lemma fifo_content_store:
  assumes "fifo_wf q"
  shows "fifo_content (q\<lparr>ring_data := (ring_data q)[unat (w_cursor q) := x]\<rparr>) = fifo_content q"
proof -
  have "(ring_data q)[unat (w_cursor q) := x] ! ((unat (r_cursor q) + i) mod unat (ring_length q))
      = ring_data q ! ((unat (r_cursor q) + i) mod unat (ring_length q))"
    if "i < ring_count (unat (ring_length q)) (unat (r_cursor q)) (unat (w_cursor q))" for i
    using assms ring_index_neq [OF _ _ that] by (simp add: fifo_wf_def)
  then show ?thesis by (simp add: fifo_content_def ring_list_def)
qed

lemma cursor_next_inj:
  assumes "fifo_wf q" "next_w q = next_r q"
  shows "w_cursor q = r_cursor q"
proof -
  from assms(2) have "unat (next_w q) = unat (next_r q)" by simp
  with assms(1) have "Suc (unat (w_cursor q)) mod unat (ring_length q)
      = Suc (unat (r_cursor q)) mod unat (ring_length q)"
    by (simp add: fifo_wf_def next_w_def next_r_def unat_cursor_next)
  with assms(1) have "unat (w_cursor q) = unat (r_cursor q)"
    by (simp add: fifo_wf_def Suc_mod_cases split: if_splits)
  then show ?thesis by (simp only: word_unat_eq_iff)
qed

lemma fifo_publish:
  assumes "fifo_wf q" "next_w q \<noteq> r_cursor q" "ring_data q ! unat (w_cursor q) = x"
  shows "fifo_wf (q\<lparr>w_cursor := next_w q\<rparr>)"
    and "fifo_content (q\<lparr>w_cursor := next_w q\<rparr>) = fifo_content q @ [x]"
proof -
  let ?q = "q\<lparr>w_cursor := next_w q\<rparr>"
  have same: "(ring_data q)[unat (w_cursor q) := x] = ring_data q"
    using assms by auto
  have room: "length (fifo_content q) < fifo_room q"
  proof (rule ccontr)
    assume "\<not> length (fifo_content q) < fifo_room q"
    with assms(1) have "FifoPush q x = (RET_FAIL, q)"
      using fifo_content_length [of q] by (intro FifoPush_full) auto
    with store_publish_is_FifoPush [OF assms(2), of x] show False by simp
  qed
  have "FifoPush q x = (RET_OK, ?q)"
    using store_publish_is_FifoPush [OF assms(2), of x] by (simp add: same)
  with ring.push_unless_full [OF assms(1) room, of x]
  show "fifo_wf ?q" and "fifo_content ?q = fifo_content q @ [x]" by auto
qed

lemma fifo_advance:
  assumes "fifo_wf q" "fifo_content q = x # xs"
  shows "fifo_wf (q\<lparr>r_cursor := next_r q\<rparr>)"
    and "fifo_content (q\<lparr>r_cursor := next_r q\<rparr>) = xs"
    and "ring_data q ! unat (r_cursor q) = x" and "r_cursor q \<noteq> w_cursor q"
proof -
  have ne: "r_cursor q \<noteq> w_cursor q"
    using assms by (auto simp: fifo_content_def ring_list_def ring_count_def)
  show "r_cursor q \<noteq> w_cursor q" by (rule ne)
  from FifoPop_ok [OF assms] load_advance_is_FifoPop [OF assms(1) ne]
  show "fifo_wf (q\<lparr>r_cursor := next_r q\<rparr>)" "fifo_content (q\<lparr>r_cursor := next_r q\<rparr>) = xs"
    "ring_data q ! unat (r_cursor q) = x" by auto
qed

lemma fifo_load:
  assumes "fifo_wf q" "r_cursor q \<noteq> w_cursor q"
  shows "\<exists>xs. fifo_content q = ring_data q ! unat (r_cursor q) # xs"
  using assms(1) by (cases rule: ring.pop_cases)
    (use load_advance_is_FifoPop [OF assms] in auto)

lemma spsc_inv_step:
  assumes "fifo_step {p} {c} s t" "p \<noteq> c" "spsc_inv p c c0 s"
  shows "spsc_inv p c c0 t"
  using assms(1)
proof (cases rule: fifo_step.cases)
  case (store i x)
  with assms(2,3) show ?thesis
    by (auto simp: spsc_inv_def fifo_content_store next_w_def) (auto simp: fifo_wf_def)
next
  case (publish i x)
  with assms(3) have "fifo_wf (ring s)" "next_w (ring s) \<noteq> r_cursor (ring s)"
    "ring_data (ring s) ! unat (w_cursor (ring s)) = x"
    by (auto simp: spsc_inv_def)
  from fifo_publish [OF this] publish assms(2,3) show ?thesis
    by (auto simp: spsc_inv_def)
next
  case (load i)
  with assms(2,3) fifo_load [of "ring s"] show ?thesis
    by (auto simp: spsc_inv_def)
next
  case (advance i x)
  with assms(3) obtain xs where c: "fifo_wf (ring s)" "fifo_content (ring s) = x # xs"
    by (auto simp: spsc_inv_def)
  have "next_w (ring s) \<noteq> next_r (ring s)"
    using cursor_next_inj [OF c(1)] fifo_advance(4) [OF c] by auto
  with fifo_advance [OF c] advance assms(2,3) c show ?thesis
    by (auto simp: spsc_inv_def next_w_def)
qed

lemma spsc_inv_reach:
  assumes "fifo_reach {p} {c} s t" "p \<noteq> c" "spsc_inv p c c0 s"
  shows "spsc_inv p c c0 t"
  using assms by (induction rule: fifo_reach.induct) (auto intro: spsc_inv_step)

text \<open>
  C21. A ring shared without a lock by one pushing thread and one popping thread, whose slot
  accesses and cursor moves interleave freely, delivers what was in the ring and then the
  pushed elements, in order and each once, at every moment of the execution.
\<close>

theorem spsc_ring_is_a_queue:
  assumes "fifo_wf q" and "p \<noteq> c" and "fifo_reach {p} {c} (fifo_threads_init q) s"
  shows "fifo_content q @ pushed s = popped s @ fifo_content (ring s) \<and> fifo_wf (ring s)"
proof -
  have "spsc_inv p c (fifo_content q) (fifo_threads_init q)"
    using assms(1) by (simp add: spsc_inv_def fifo_threads_init_def)
  from spsc_inv_reach [OF assms(3,2) this]
  show ?thesis
    by (auto simp: spsc_inv_def)
qed

text \<open>A ring of three slots that holds \<open>10\<close> and \<open>11\<close>.\<close>

definition demo_ring :: "nat FifoRing" where
  "demo_ring = \<lparr>r_cursor = 0, w_cursor = 2, ring_length = 3, ring_data = [10, 11, 0]\<rparr>"

lemma demo_ring_wf: "fifo_wf demo_ring"
  by (simp add: fifo_wf_def demo_ring_def)

lemma demo_ring_content: "fifo_content demo_ring = [10, 11]"
  by code_simp

lemma cursor_next_3: "cursor_next 0 3 = 1" "cursor_next 1 3 = 2" "cursor_next 2 3 = 0"
  by code_simp+

text \<open>The consumer's steps in the form in which they run on explicit states.\<close>

lemma load_to:
  "i \<in> consumers \<Longrightarrow> f i = Idle \<Longrightarrow> r_cursor q \<noteq> w_cursor q \<Longrightarrow>
     x = ring_data q ! unat (r_cursor q) \<Longrightarrow>
     fifo_step producers consumers \<lparr>ring = q, pcs = f, pushed = a, popped = b\<rparr>
       \<lparr>ring = q, pcs = f(i := Loaded x), pushed = a, popped = b\<rparr>"
  using fifo_step.load [of i consumers "\<lparr>ring = q, pcs = f, pushed = a, popped = b\<rparr>" producers]
  by simp

lemma advance_to:
  "i \<in> consumers \<Longrightarrow> f i = Loaded x \<Longrightarrow> q' = q\<lparr>r_cursor := next_r q\<rparr> \<Longrightarrow>
     fifo_step producers consumers \<lparr>ring = q, pcs = f, pushed = a, popped = b\<rparr>
       \<lparr>ring = q', pcs = f(i := Idle), pushed = a, popped = b @ [x]\<rparr>"
  using fifo_step.advance [of i consumers "\<lparr>ring = q, pcs = f, pushed = a, popped = b\<rparr>" x producers]
  by simp

lemma demo_ring_advance:
  "next_r demo_ring = 1" "next_r (demo_ring\<lparr>r_cursor := 1\<rparr>) = 2"
  by (simp_all add: next_r_def demo_ring_def cursor_next_3)

lemma demo_ring_drained: "fifo_content (demo_ring\<lparr>r_cursor := 2\<rparr>) = []"
  by (simp add: fifo_content_def demo_ring_def ring_list_def ring_count_def)

theorem spsc_ring_is_a_queue_witness:
  "\<exists>s :: nat fifo_threads. popped s = [10] \<and> fifo_content demo_ring @ pushed s = [10] @ fifo_content (ring s)"
proof -
  let ?f = "(\<lambda>_. Idle) :: nat \<Rightarrow> nat fifo_pc"
  let ?s1 = "\<lparr>ring = demo_ring, pcs = ?f(1 := Loaded 10), pushed = [], popped = []\<rparr>"
  let ?s2 = "\<lparr>ring = demo_ring\<lparr>r_cursor := 1\<rparr>, pcs = (?f(1 := Loaded 10))(1 := Idle),
    pushed = [], popped = [] @ [10]\<rparr>"
  have "fifo_step {0} {1} (fifo_threads_init demo_ring) ?s1"
    unfolding fifo_threads_init_def by (rule load_to) (simp_all add: demo_ring_def)
  moreover have "fifo_step {0} {1} ?s1 ?s2"
    by (rule advance_to) (simp_all add: demo_ring_advance)
  ultimately have "fifo_reach {0} {1} (fifo_threads_init demo_ring) ?s2"
    by (blast intro: fifo_reach.intros)
  from spsc_ring_is_a_queue [OF demo_ring_wf _ this]
  have "fifo_content demo_ring @ [] = [10] @ fifo_content (demo_ring\<lparr>r_cursor := 1\<rparr>)" by simp
  then show ?thesis by - (rule exI [of _ ?s2], simp)
qed

section \<open>A second consumer\<close>

text \<open>
  With two popping threads, as the free ring of the server has (the I/O thread and every
  capture thread call \<open>IoGetSendMsgCell\<close>), the ring is not a queue: there is an execution
  in which both threads take the same element and the element after it is lost.
\<close>

theorem two_consumers_lose_and_duplicate:
  "\<exists>s. fifo_reach {} {1, 2} (fifo_threads_init demo_ring) s
     \<and> fifo_content demo_ring = [10, 11] \<and> popped s = [10, 10] \<and> fifo_content (ring s) = []"
proof -
  let ?f = "((\<lambda>_. Idle) :: nat \<Rightarrow> nat fifo_pc)(1 := Loaded 10)"
  let ?s1 = "\<lparr>ring = demo_ring, pcs = ?f, pushed = [], popped = []\<rparr>"
  let ?s2 = "\<lparr>ring = demo_ring, pcs = ?f(2 := Loaded 10), pushed = [], popped = []\<rparr>"
  let ?s3 = "\<lparr>ring = demo_ring\<lparr>r_cursor := 1\<rparr>, pcs = (?f(2 := Loaded 10))(1 := Idle),
    pushed = [], popped = [] @ [10]\<rparr>"
  let ?s4 = "\<lparr>ring = demo_ring\<lparr>r_cursor := 2\<rparr>, pcs = ((?f(2 := Loaded 10))(1 := Idle))(2 := Idle),
    pushed = [], popped = ([] @ [10]) @ [10]\<rparr>"
  have s1: "fifo_step {} {1, 2} (fifo_threads_init demo_ring) ?s1"
    unfolding fifo_threads_init_def by (rule load_to) (simp_all add: demo_ring_def)
  have s2: "fifo_step {} {1, 2} ?s1 ?s2" by (rule load_to) (simp_all add: demo_ring_def)
  have s3: "fifo_step {} {1, 2} ?s2 ?s3" by (rule advance_to) (simp_all add: demo_ring_advance)
  have s4: "fifo_step {} {1, 2} ?s3 ?s4" by (rule advance_to) (simp_all add: demo_ring_advance)
  have "fifo_reach {} {1, 2} (fifo_threads_init demo_ring) ?s4"
    by (rule fifo_reach.step [OF fifo_reach.step [OF fifo_reach.step [OF fifo_reach.step
            [OF fifo_reach.start s1] s2] s3] s4])
  then show ?thesis
    by - (rule exI [of _ ?s4], simp add: demo_ring_content demo_ring_drained)
qed

end
