(* ===== verification/LinkedList.thy ===== *)
theory LinkedList
  imports Prelude
begin

text \<open>
  The intrusive doubly linked lists of \<^verbatim>\<open>src/CuteDog/list.h\<close> on an explicit store of
  links: a node is an embedded \<^verbatim>\<open>struct list_head\<close>, a link is a node or NULL
  (\<^term>\<open>None\<close>), and following NULL is undefined behaviour.  The operations are shown to
  implement HOL lists through \<open>is_list\<close>, with frame lemmas for the other lists of the
  store; the loop macros are higher-order functions over the state of the loop's body.
\<close>

section \<open>The store of links\<close>

record 'n links =
  nxt :: "'n \<Rightarrow> 'n option"
  prv :: "'n \<Rightarrow> 'n option"

definition null_links :: "'n links" where
  "null_links = \<lparr>nxt = (\<lambda>_. None), prv = (\<lambda>_. None)\<rparr>"

definition set_nxt :: "'n \<Rightarrow> 'n option \<Rightarrow> 'n links \<Rightarrow> 'n links" where
  "set_nxt a b h = h\<lparr>nxt := (nxt h)(a := b)\<rparr>"

definition set_prv :: "'n \<Rightarrow> 'n option \<Rightarrow> 'n links \<Rightarrow> 'n links" where
  "set_prv a b h = h\<lparr>prv := (prv h)(a := b)\<rparr>"

lemma set_nxt_sel [simp]:
  "nxt (set_nxt a b h) = (nxt h)(a := b)" "prv (set_nxt a b h) = prv h"
  by (simp_all add: set_nxt_def)

lemma set_prv_sel [simp]:
  "prv (set_prv a b h) = (prv h)(a := b)" "nxt (set_prv a b h) = nxt h"
  by (simp_all add: set_prv_def)

section \<open>The operations\<close>

definition INIT_LIST_HEAD :: "'n \<Rightarrow> 'n links \<Rightarrow> 'n links" where
  "INIT_LIST_HEAD l h = set_prv l (Some l) (set_nxt l (Some l) h)"

definition list_insert_between :: "'n \<Rightarrow> 'n \<Rightarrow> 'n \<Rightarrow> 'n links \<Rightarrow> 'n links" where
  "list_insert_between new p n h =
     set_nxt p (Some new) (set_prv new (Some p) (set_nxt new (Some n) (set_prv n (Some new) h)))"

definition list_add :: "'n \<Rightarrow> 'n \<Rightarrow> 'n links \<Rightarrow> 'n links option" where
  "list_add new head h = do { n \<leftarrow> nxt h head; Some (list_insert_between new head n h) }"

definition list_add_tail :: "'n \<Rightarrow> 'n \<Rightarrow> 'n links \<Rightarrow> 'n links option" where
  "list_add_tail new head h = do { p \<leftarrow> prv h head; Some (list_insert_between new p head h) }"

definition list_unlink :: "'n \<Rightarrow> 'n \<Rightarrow> 'n links \<Rightarrow> 'n links" where
  "list_unlink p n h = set_nxt p (Some n) (set_prv n (Some p) h)"

definition list_del :: "'n \<Rightarrow> 'n links \<Rightarrow> 'n links option" where
  "list_del e h = do {
     p \<leftarrow> prv h e;
     n \<leftarrow> nxt h e;
     Some (set_prv e None (set_nxt e None (list_unlink p n h)))
   }"

definition list_del_init :: "'n \<Rightarrow> 'n links \<Rightarrow> 'n links option" where
  "list_del_init e h = do {
     p \<leftarrow> prv h e;
     n \<leftarrow> nxt h e;
     Some (INIT_LIST_HEAD e (list_unlink p n h))
   }"

definition list_move :: "'n \<Rightarrow> 'n \<Rightarrow> 'n links \<Rightarrow> 'n links option" where
  "list_move e head h = do {
     p \<leftarrow> prv h e;
     n \<leftarrow> nxt h e;
     list_add e head (list_unlink p n h)
   }"

definition list_move_tail :: "'n \<Rightarrow> 'n \<Rightarrow> 'n links \<Rightarrow> 'n links option" where
  "list_move_tail e head h = do {
     p \<leftarrow> prv h e;
     n \<leftarrow> nxt h e;
     list_add_tail e head (list_unlink p n h)
   }"

definition list_empty :: "'n \<Rightarrow> 'n links \<Rightarrow> bool" where
  "list_empty head h \<longleftrightarrow> nxt h head = Some head"

definition list_notempty :: "'n \<Rightarrow> 'n links \<Rightarrow> bool" where
  "list_notempty head h \<longleftrightarrow> nxt h head \<noteq> Some head"

lemmas list_op_defs = list_add_def list_add_tail_def list_del_def list_del_init_def
  list_move_def list_move_tail_def list_insert_between_def list_unlink_def INIT_LIST_HEAD_def

section \<open>The loop macros\<close>

text \<open>
  A loop runs a body on each node; the body says whether to leave the loop (a
  \<^verbatim>\<open>return\<close> in the source).  \<open>lk\<close> reads the links out of the state.  A loop
  that follows NULL, or never meets its head again, has no result.
\<close>

partial_function (option) list_for_each ::
  "('s \<Rightarrow> 'n links) \<Rightarrow> 'n \<Rightarrow> ('n \<Rightarrow> 's \<Rightarrow> (bool \<times> 's) option) \<Rightarrow> 'n \<Rightarrow> 's \<Rightarrow> (bool \<times> 's) option" where
  "list_for_each lk head body pos s =
     (if pos = head then Some (False, s)
      else do {
        x \<leftarrow> body pos s;
        if fst x then Some x
        else do { n \<leftarrow> nxt (lk (snd x)) pos; list_for_each lk head body n (snd x) }
      })"

text \<open>The safe form holds the successor, read before the body ran.\<close>

partial_function (option) list_for_each_safe ::
  "('s \<Rightarrow> 'n links) \<Rightarrow> 'n \<Rightarrow> ('n \<Rightarrow> 's \<Rightarrow> (bool \<times> 's) option) \<Rightarrow> 'n \<Rightarrow> 'n option \<Rightarrow> 's \<Rightarrow>
     (bool \<times> 's) option" where
  "list_for_each_safe lk head body pos n s =
     (if pos = head then Some (False, s)
      else do {
        x \<leftarrow> body pos s;
        if fst x then Some x
        else do { p \<leftarrow> n; list_for_each_safe lk head body p (nxt (lk (snd x)) p) (snd x) }
      })"

definition for_each ::
  "('s \<Rightarrow> 'n links) \<Rightarrow> 'n \<Rightarrow> ('n \<Rightarrow> 's \<Rightarrow> (bool \<times> 's) option) \<Rightarrow> 's \<Rightarrow> (bool \<times> 's) option" where
  "for_each lk head body s = do { p \<leftarrow> nxt (lk s) head; list_for_each lk head body p s }"

definition for_each_safe ::
  "('s \<Rightarrow> 'n links) \<Rightarrow> 'n \<Rightarrow> ('n \<Rightarrow> 's \<Rightarrow> (bool \<times> 's) option) \<Rightarrow> 's \<Rightarrow> (bool \<times> 's) option" where
  "for_each_safe lk head body s =
     do { p \<leftarrow> nxt (lk s) head; list_for_each_safe lk head body p (nxt (lk s) p) s }"

section \<open>Lists in the store\<close>

fun links_path :: "'n links \<Rightarrow> 'n \<Rightarrow> 'n list \<Rightarrow> 'n \<Rightarrow> bool" where
  "links_path h a [] b \<longleftrightarrow> nxt h a = Some b \<and> prv h b = Some a"
| "links_path h a (x # xs) b \<longleftrightarrow> nxt h a = Some x \<and> prv h x = Some a \<and> links_path h x xs b"

definition is_list :: "'n links \<Rightarrow> 'n \<Rightarrow> 'n list \<Rightarrow> bool" where
  "is_list h head xs \<longleftrightarrow> distinct (head # xs) \<and> links_path h head xs head"

lemma links_path_append:
  "links_path h a (xs @ y # ys) b \<longleftrightarrow> links_path h a xs y \<and> links_path h y ys b"
  by (induction xs arbitrary: a) auto

lemma links_path_nxt: "links_path h a xs b \<Longrightarrow> nxt h a = Some (hd (xs @ [b]))"
  by (cases xs) auto

lemma links_path_prv: "links_path h a xs b \<Longrightarrow> prv h b = Some (last (a # xs))"
  by (induction xs arbitrary: a) auto

lemma links_path_cong:
  "links_path h a xs b \<Longrightarrow> (\<And>x. x \<in> set (a # xs) \<Longrightarrow> nxt h' x = nxt h x) \<Longrightarrow>
     (\<And>x. x \<in> set (b # xs) \<Longrightarrow> prv h' x = prv h x) \<Longrightarrow> links_path h' a xs b"
  by (induction xs arbitrary: a) auto

lemma is_list_frame:
  "is_list h head xs \<Longrightarrow> (\<And>x. x \<in> set (head # xs) \<Longrightarrow> nxt h' x = nxt h x \<and> prv h' x = prv h x) \<Longrightarrow>
     is_list h' head xs"
  by (auto simp: is_list_def intro: links_path_cong)

lemma is_list_INIT: "is_list (INIT_LIST_HEAD l h) l []"
  by (simp add: is_list_def INIT_LIST_HEAD_def)

lemma is_list_empty_iff: "is_list h head xs \<Longrightarrow> list_empty head h \<longleftrightarrow> xs = []"
  by (cases xs) (auto simp: is_list_def list_empty_def)

lemma is_list_notempty_iff: "is_list h head xs \<Longrightarrow> list_notempty head h \<longleftrightarrow> xs \<noteq> []"
  by (cases xs) (auto simp: is_list_def list_notempty_def)

section \<open>The operations on lists\<close>

lemma links_path_insert:
  "links_path h a (us @ vs) b \<Longrightarrow> distinct (a # us @ vs) \<Longrightarrow> b \<notin> set (us @ vs) \<Longrightarrow>
     new \<notin> set (a # b # us @ vs) \<Longrightarrow>
     links_path (list_insert_between new (last (a # us)) (hd (vs @ [b])) h) a (us @ new # vs) b"
proof (induction us arbitrary: a)
  case Nil
  then show ?case
    by (cases vs) (auto simp: list_insert_between_def elim!: links_path_cong)
next
  case (Cons u us)
  have "last (u # us) \<noteq> a" using Cons.prems(2) by (metis append_Cons distinct.simps(2) in_set_conv_decomp last_in_set list.distinct(1) Un_iff set_append)
  moreover have "hd (vs @ [b]) \<noteq> u" using Cons.prems(2,3) by (cases vs) auto
  ultimately show ?case
    using Cons.IH [of u] Cons.prems by (auto simp: list_insert_between_def)
qed

lemma links_path_unlink:
  "links_path h a (us @ e # vs) b \<Longrightarrow> distinct (a # us @ e # vs) \<Longrightarrow> b \<notin> set (us @ e # vs) \<Longrightarrow>
     links_path (list_unlink (last (a # us)) (hd (vs @ [b])) h) a (us @ vs) b"
proof (induction us arbitrary: a)
  case Nil
  then show ?case
    by (cases vs) (auto simp: list_unlink_def elim!: links_path_cong)
next
  case (Cons u us)
  have "last (u # us) \<noteq> a" using Cons.prems(2) by (metis append_Cons distinct.simps(2) in_set_conv_decomp last_in_set list.distinct(1) Un_iff set_append)
  moreover have "hd (vs @ [b]) \<noteq> u" using Cons.prems(2,3) by (cases vs) auto
  ultimately show ?case
    using Cons.IH [of u] Cons.prems by (auto simp: list_unlink_def)
qed

text \<open>The links an operation writes: those of the new node and of its neighbours.\<close>

lemma list_insert_between_frame:
  "x \<notin> {new, p, n} \<Longrightarrow> nxt (list_insert_between new p n h) x = nxt h x
     \<and> prv (list_insert_between new p n h) x = prv h x"
  by (simp add: list_insert_between_def)

lemma list_unlink_frame:
  "x \<notin> {p, n} \<Longrightarrow> nxt (list_unlink p n h) x = nxt h x \<and> prv (list_unlink p n h) x = prv h x"
  by (simp add: list_unlink_def)

lemma hd_append_in: "hd (vs @ [b]) \<in> set (b # vs)"
  by (cases vs) auto

lemma last_Cons_in: "last (a # us) \<in> set (a # us)"
  by simp

lemma list_add_is_list:
  assumes "is_list h head xs" "new \<notin> set (head # xs)"
  shows "\<exists>h'. list_add new head h = Some h' \<and> is_list h' head (new # xs)
    \<and> (\<forall>y. y \<notin> set (new # head # xs) \<longrightarrow> nxt h' y = nxt h y \<and> prv h' y = prv h y)"
proof -
  let ?h' = "list_insert_between new head (hd (xs @ [head])) h"
  have "nxt h head = Some (hd (xs @ [head]))"
    using assms(1) by (intro links_path_nxt) (simp add: is_list_def)
  then have "list_add new head h = Some ?h'" by (simp only: list_add_def Option.bind.simps)
  moreover have "is_list ?h' head (new # xs)"
    using links_path_insert [of h head "[]" xs head new] assms by (auto simp: is_list_def)
  moreover have "nxt ?h' y = nxt h y \<and> prv ?h' y = prv h y" if "y \<notin> set (new # head # xs)" for y
    using that hd_append_in [of xs head] by (intro list_insert_between_frame) auto
  ultimately show ?thesis by blast
qed

lemma list_add_tail_is_list:
  assumes "is_list h head xs" "new \<notin> set (head # xs)"
  shows "\<exists>h'. list_add_tail new head h = Some h' \<and> is_list h' head (xs @ [new])
    \<and> (\<forall>y. y \<notin> set (new # head # xs) \<longrightarrow> nxt h' y = nxt h y \<and> prv h' y = prv h y)"
proof -
  let ?h' = "list_insert_between new (last (head # xs)) head h"
  have "prv h head = Some (last (head # xs))"
    using assms(1) by (intro links_path_prv) (simp add: is_list_def)
  then have "list_add_tail new head h = Some ?h'"
    by (simp only: list_add_tail_def Option.bind.simps)
  moreover have "is_list ?h' head (xs @ [new])"
    using links_path_insert [of h head xs "[]" head new] assms by (auto simp: is_list_def)
  moreover have "nxt ?h' y = nxt h y \<and> prv ?h' y = prv h y" if "y \<notin> set (new # head # xs)" for y
    using that last_Cons_in [of head xs] by (intro list_insert_between_frame) auto
  ultimately show ?thesis by blast
qed

lemma is_list_neighbours:
  assumes "is_list h head (us @ e # vs)"
  shows "prv h e = Some (last (head # us))" "nxt h e = Some (hd (vs @ [head]))"
  using assms links_path_prv [of h head us e] links_path_nxt [of h e vs head]
  by (auto simp: is_list_def links_path_append)

lemma list_unlink_is_list:
  assumes "is_list h head (us @ e # vs)"
  shows "is_list (list_unlink (last (head # us)) (hd (vs @ [head])) h) head (us @ vs)"
  using assms links_path_unlink [of h head us e vs head] by (auto simp: is_list_def)

lemma list_unlink_frame_of:
  assumes "y \<notin> set (head # us @ e # vs)"
  shows "nxt (list_unlink (last (head # us)) (hd (vs @ [head])) h) y = nxt h y
    \<and> prv (list_unlink (last (head # us)) (hd (vs @ [head])) h) y = prv h y"
  using assms hd_append_in [of vs head] last_Cons_in [of head us]
  by (intro list_unlink_frame) auto

lemma is_list_ignores:
  "is_list h head xs \<Longrightarrow> e \<notin> set (head # xs) \<Longrightarrow> is_list (set_prv e a (set_nxt e b h)) head xs"
  by (erule is_list_frame) auto

lemma list_del_is_list_split:
  assumes "is_list h head (us @ e # vs)"
  shows "\<exists>h'. list_del e h = Some h' \<and> is_list h' head (us @ vs) \<and> nxt h' e = None \<and> prv h' e = None
    \<and> (\<forall>y. y \<notin> set (head # us @ e # vs) \<longrightarrow> nxt h' y = nxt h y \<and> prv h' y = prv h y)"
proof -
  let ?u = "list_unlink (last (head # us)) (hd (vs @ [head])) h"
  let ?h' = "set_prv e None (set_nxt e None ?u)"
  have "list_del e h = Some ?h'" by (simp add: list_del_def is_list_neighbours [OF assms])
  moreover have "is_list ?h' head (us @ vs)"
    using assms by (intro is_list_ignores list_unlink_is_list) (auto simp: is_list_def)
  moreover have "nxt ?h' y = nxt h y \<and> prv ?h' y = prv h y"
    if "y \<notin> set (head # us @ e # vs)" for y
    using list_unlink_frame_of [OF that] that by auto
  ultimately show ?thesis by fastforce
qed

lemma remove1_split: "e \<notin> set us \<Longrightarrow> remove1 e (us @ e # vs) = us @ vs"
  by (induction us) auto

lemma is_list_split:
  assumes "is_list h head xs" "e \<in> set xs"
  obtains us vs where "xs = us @ e # vs" "remove1 e xs = us @ vs" "e \<notin> set (head # us @ vs)"
proof -
  from assms(2) obtain us vs where x: "xs = us @ e # vs" by (meson split_list)
  with assms(1) have "e \<notin> set (head # us @ vs)" by (auto simp: is_list_def)
  with x that show thesis by (auto simp: remove1_split)
qed

lemma list_del_is_list:
  assumes "is_list h head xs" "e \<in> set xs"
  shows "\<exists>h'. list_del e h = Some h' \<and> is_list h' head (remove1 e xs) \<and> nxt h' e = None \<and> prv h' e = None
    \<and> (\<forall>y. y \<notin> set (head # xs) \<longrightarrow> nxt h' y = nxt h y \<and> prv h' y = prv h y)"
proof -
  obtain us vs where x: "xs = us @ e # vs" "remove1 e xs = us @ vs" "e \<notin> set (head # us @ vs)"
    using assms by (elim is_list_split)
  show ?thesis
    using list_del_is_list_split [of h head us e vs] assms(1) x by simp
qed

text \<open>
  A node that moves: from its place in one list to the front or the back of another one.
  The lists of a store that share no node are independent of each other.
\<close>

definition disjoint_lists :: "'n \<Rightarrow> 'n list \<Rightarrow> 'n \<Rightarrow> 'n list \<Rightarrow> bool" where
  "disjoint_lists a xs b ys \<longleftrightarrow> set (a # xs) \<inter> set (b # ys) = {}"

lemma is_list_split_frame:
  assumes "is_list h a xs" "e \<in> set xs"
  obtains p n where "prv h e = Some p" "nxt h e = Some n" "p \<in> set (a # xs)" "n \<in> set (a # xs)"
    "is_list (list_unlink p n h) a (remove1 e xs)"
proof -
  obtain us vs where x: "xs = us @ e # vs" "remove1 e xs = us @ vs" "e \<notin> set (a # us @ vs)"
    using assms by (elim is_list_split)
  have "is_list h a (us @ e # vs)" using assms(1) x by simp
  note l = this
  have "last (a # us) \<in> set (a # xs)" using last_Cons_in [of a us] x by auto
  moreover have "hd (vs @ [a]) \<in> set (a # xs)" using hd_append_in [of vs a] x by auto
  ultimately show thesis
    by (rule that [OF is_list_neighbours [OF l]]) (simp only: x(2) list_unlink_is_list [OF l])
qed

lemma list_move_is_list:
  assumes "is_list h a xs" "e \<in> set xs" "is_list h b ys" "disjoint_lists a xs b ys"
  shows "\<exists>h'. list_move e b h = Some h' \<and> is_list h' a (remove1 e xs) \<and> is_list h' b (e # ys)
    \<and> (\<forall>y. y \<notin> set (a # xs) \<union> set (b # ys) \<longrightarrow> nxt h' y = nxt h y \<and> prv h' y = prv h y)"
proof -
  obtain p n where e: "prv h e = Some p" "nxt h e = Some n" and pn: "p \<in> set (a # xs)" "n \<in> set (a # xs)"
    and u: "is_list (list_unlink p n h) a (remove1 e xs)"
    by (rule is_list_split_frame [OF assms(1,2)])
  let ?u = "list_unlink p n h"
  have "is_list ?u b ys"
    using assms(4) pn by (intro is_list_frame [OF assms(3)] list_unlink_frame) (auto simp: disjoint_lists_def)
  moreover have "e \<notin> set (b # ys)" using assms(2,4) by (auto simp: disjoint_lists_def)
  ultimately obtain h' where h': "list_add e b ?u = Some h'" "is_list h' b (e # ys)"
    and f: "\<And>y. y \<notin> set (e # b # ys) \<Longrightarrow> nxt h' y = nxt ?u y \<and> prv h' y = prv ?u y"
    using list_add_is_list [of ?u b ys e] by auto
  have "list_move e b h = Some h'" using h' e by (simp add: list_move_def)
  moreover have "is_list h' a (remove1 e xs)"
  proof (rule is_list_frame [OF u])
    fix x assume x: "x \<in> set (a # remove1 e xs)"
    have "distinct (a # xs)" using assms(1) by (simp add: is_list_def)
    with x assms(2,4) have "x \<notin> set (e # b # ys)"
      by (auto simp: disjoint_lists_def dest: notin_set_remove1)
    then show "nxt h' x = nxt ?u x \<and> prv h' x = prv ?u x" by (rule f)
  qed
  moreover have "nxt h' y = nxt h y \<and> prv h' y = prv h y" if "y \<notin> set (a # xs) \<union> set (b # ys)" for y
  proof -
    have "y \<notin> {p, n}" "y \<notin> set (e # b # ys)" using that pn assms(2) by auto
    then show ?thesis using f [of y] list_unlink_frame [of y p n h] by simp
  qed
  ultimately show ?thesis using h'(2) by blast
qed

section \<open>The loops on lists\<close>

text \<open>What a loop does on a list of nodes that the body leaves alone.\<close>

fun run_body :: "('n \<Rightarrow> 's \<Rightarrow> (bool \<times> 's) option) \<Rightarrow> 'n list \<Rightarrow> 's \<Rightarrow> (bool \<times> 's) option" where
  "run_body body [] s = Some (False, s)"
| "run_body body (x # xs) s =
     do { r \<leftarrow> body x s; if fst r then Some r else run_body body xs (snd r) }"

fun next_path :: "'n links \<Rightarrow> 'n \<Rightarrow> 'n list \<Rightarrow> 'n \<Rightarrow> bool" where
  "next_path h a [] b \<longleftrightarrow> nxt h a = Some b"
| "next_path h a (x # xs) b \<longleftrightarrow> nxt h a = Some x \<and> next_path h x xs b"

lemma links_next_path: "links_path h a xs b \<Longrightarrow> next_path h a xs b"
  by (induction xs arbitrary: a) auto

lemma next_path_cong:
  "next_path h a xs b \<Longrightarrow> (\<And>y. y \<in> set (a # xs) \<Longrightarrow> nxt h' y = nxt h y) \<Longrightarrow> next_path h' a xs b"
  by (induction xs arbitrary: a) auto

lemma list_for_each_run:
  assumes step: "\<And>x ys s s'. P (x # ys) s \<Longrightarrow> body x s = Some (False, s') \<Longrightarrow>
      P ys s' \<and> (\<forall>y \<in> set (x # ys). nxt (lk s') y = nxt (lk s) y)"
  shows "P xs s \<Longrightarrow> next_path (lk s) a xs head \<Longrightarrow> head \<notin> set xs \<Longrightarrow>
    do { p \<leftarrow> nxt (lk s) a; list_for_each lk head body p s } = run_body body xs s"
proof (induction xs arbitrary: a s)
  case Nil
  then show ?case by (simp add: list_for_each.simps [of _ head])
next
  case (Cons x xs)
  show ?case
  proof (cases "body x s")
    case None
    with Cons.prems show ?thesis by (auto simp: list_for_each.simps [of _ head _ x])
  next
    case (Some r)
    obtain b s' where r: "r = (b, s')" by (cases r)
    show ?thesis
    proof (cases b)
      case True
      with Some r Cons.prems show ?thesis by (auto simp: list_for_each.simps [of _ head _ x])
    next
      case False
      with step [of x xs s s'] Cons.prems Some r
      have s': "P xs s'" "\<And>y. y \<in> set (x # xs) \<Longrightarrow> nxt (lk s') y = nxt (lk s) y" by auto
      with Cons.prems have "next_path (lk s') x xs head" by (auto intro: next_path_cong)
      with Cons.IH [OF s'(1), of x] Cons.prems Some r False show ?thesis
        by (auto simp: list_for_each.simps [of _ head _ x])
    qed
  qed
qed

lemma list_for_each_safe_run:
  assumes step: "\<And>x ys s s'. P (x # ys) s \<Longrightarrow> body x s = Some (False, s') \<Longrightarrow>
      P ys s' \<and> (\<forall>y \<in> set ys. nxt (lk s') y = nxt (lk s) y)"
  shows "P (x # xs) s \<Longrightarrow> next_path (lk s) x xs head \<Longrightarrow> head \<notin> set (x # xs) \<Longrightarrow>
    list_for_each_safe lk head body x (nxt (lk s) x) s = run_body body (x # xs) s"
proof (induction xs arbitrary: x s)
  case Nil
  then show ?case
    by (auto simp: list_for_each_safe.simps [of _ head _ x] list_for_each_safe.simps [of _ head _ head]
        intro!: Option.bind_cong)
next
  case (Cons z xs)
  show ?case
  proof (cases "body x s")
    case None
    with Cons.prems show ?thesis by (auto simp: list_for_each_safe.simps [of _ head _ x])
  next
    case (Some r)
    obtain b s' where r: "r = (b, s')" by (cases r)
    show ?thesis
    proof (cases b)
      case True
      with Some r Cons.prems show ?thesis by (auto simp: list_for_each_safe.simps [of _ head _ x])
    next
      case False
      with step [of x "z # xs" s s'] Cons.prems Some r
      have s': "P (z # xs) s'" "\<And>y. y \<in> set (z # xs) \<Longrightarrow> nxt (lk s') y = nxt (lk s) y" by auto
      with Cons.prems have "next_path (lk s') z xs head" by (auto intro: next_path_cong)
      with Cons.IH [OF s'(1)] Cons.prems Some r False show ?thesis
        by (auto simp: list_for_each_safe.simps [of _ head _ x])
    qed
  qed
qed

lemma for_each_run:
  assumes "\<And>x ys s s'. P (x # ys) s \<Longrightarrow> body x s = Some (False, s') \<Longrightarrow>
      P ys s' \<and> (\<forall>y \<in> set (x # ys). nxt (lk s') y = nxt (lk s) y)"
    and "is_list (lk s) head xs" "P xs s"
  shows "for_each lk head body s = run_body body xs s"
  using list_for_each_run [where P = P, where head = head and a = head, OF assms(1) assms(3)] assms(2)
  by (auto simp: for_each_def is_list_def links_next_path)

lemma for_each_safe_run:
  assumes step: "\<And>x ys s s'. P (x # ys) s \<Longrightarrow> body x s = Some (False, s') \<Longrightarrow>
      P ys s' \<and> (\<forall>y \<in> set ys. nxt (lk s') y = nxt (lk s) y)"
    and l: "is_list (lk s) head xs" and P: "P xs s"
  shows "for_each_safe lk head body s = run_body body xs s"
proof (cases xs)
  case Nil
  with l show ?thesis
    by (simp add: for_each_safe_def is_list_def list_for_each_safe.simps [of _ head _ head])
next
  case (Cons x ys)
  with l have "nxt (lk s) head = Some x" "next_path (lk s) x ys head" "head \<notin> set (x # ys)"
    by (auto simp: is_list_def links_next_path)
  with list_for_each_safe_run [where P = P and x = x and xs = ys and s = s and head = head and lk = lk, OF step] P Cons
  show ?thesis by (simp add: for_each_safe_def)
qed

text \<open>
  A loop whose position is its own successor, with a body that neither leaves the loop nor
  repairs the link, has no result.
\<close>

lemma list_for_each_self_loop:
  assumes step: "\<And>s b s'. P s \<Longrightarrow> body pos s = Some (b, s') \<Longrightarrow>
      \<not> b \<and> P s' \<and> nxt (lk s') pos = Some pos"
    and "pos \<noteq> head" "P s"
  shows "list_for_each lk head body pos s = None"
proof -
  let ?Q = "\<lambda>lk' head' body' pos' t r. (lk', head', body', pos') = (lk, head, body, pos) \<longrightarrow> \<not> P t"
  have "?Q lk' head' body' pos' t r" if "list_for_each lk' head' body' pos' t = Some r"
    for lk' head' body' pos' t r
    by (rule list_for_each.raw_induct [where P = ?Q, OF _ that])
      (use assms(2) in \<open>auto split: Option.bind_splits if_splits dest: step\<close>)
  with assms(3) show ?thesis by (cases "list_for_each lk head body pos s") auto
qed

section \<open>The interface\<close>

text \<open>
  What the server relies on: the embedded heads and nodes behave as HOL lists as long as a
  node is added only where it is not already linked and deleted only where it is.
\<close>

datatype 'n list_op = AddFront 'n | AddBack 'n | Delete 'n

fun spec_list_ops :: "'n \<Rightarrow> 'n list_op list \<Rightarrow> 'n list \<Rightarrow> 'n list option" where
  "spec_list_ops head [] xs = Some xs"
| "spec_list_ops head (AddFront e # ops) xs =
     (if e \<in> set (head # xs) then None else spec_list_ops head ops (e # xs))"
| "spec_list_ops head (AddBack e # ops) xs =
     (if e \<in> set (head # xs) then None else spec_list_ops head ops (xs @ [e]))"
| "spec_list_ops head (Delete e # ops) xs =
     (if e \<in> set xs then spec_list_ops head ops (remove1 e xs) else None)"

fun run_list_ops ::
  "('n \<Rightarrow> 'n \<Rightarrow> 'h \<Rightarrow> 'h option) \<Rightarrow> ('n \<Rightarrow> 'n \<Rightarrow> 'h \<Rightarrow> 'h option) \<Rightarrow> ('n \<Rightarrow> 'h \<Rightarrow> 'h option) \<Rightarrow> 'n \<Rightarrow>
     'n list_op list \<Rightarrow> 'h \<Rightarrow> 'h option" where
  "run_list_ops add addt del head [] h = Some h"
| "run_list_ops add addt del head (AddFront e # ops) h =
     do { h \<leftarrow> add e head h; run_list_ops add addt del head ops h }"
| "run_list_ops add addt del head (AddBack e # ops) h =
     do { h \<leftarrow> addt e head h; run_list_ops add addt del head ops h }"
| "run_list_ops add addt del head (Delete e # ops) h =
     do { h \<leftarrow> del e h; run_list_ops add addt del head ops h }"

locale list_store =
  fixes add :: "'n \<Rightarrow> 'n \<Rightarrow> 'h \<Rightarrow> 'h option"
    and addt :: "'n \<Rightarrow> 'n \<Rightarrow> 'h \<Rightarrow> 'h option"
    and del :: "'n \<Rightarrow> 'h \<Rightarrow> 'h option"
    and repr :: "'h \<Rightarrow> 'n \<Rightarrow> 'n list \<Rightarrow> bool"
    and same :: "'n set \<Rightarrow> 'h \<Rightarrow> 'h \<Rightarrow> bool"
  assumes add_repr: "repr h head xs \<Longrightarrow> e \<notin> set (head # xs) \<Longrightarrow>
      \<exists>h'. add e head h = Some h' \<and> repr h' head (e # xs) \<and> same (- set (e # head # xs)) h h'"
    and addt_repr: "repr h head xs \<Longrightarrow> e \<notin> set (head # xs) \<Longrightarrow>
      \<exists>h'. addt e head h = Some h' \<and> repr h' head (xs @ [e]) \<and> same (- set (e # head # xs)) h h'"
    and del_repr: "repr h head xs \<Longrightarrow> e \<in> set xs \<Longrightarrow>
      \<exists>h'. del e h = Some h' \<and> repr h' head (remove1 e xs) \<and> same (- set (head # xs)) h h'"
    and same_repr: "repr h head xs \<Longrightarrow> same A h h' \<Longrightarrow> set (head # xs) \<subseteq> A \<Longrightarrow> repr h' head xs"
begin

text \<open>Operations on one list, with the other lists of the store untouched.\<close>

fun op_node :: "'n list_op \<Rightarrow> 'n" where
  "op_node (AddFront e) = e" | "op_node (AddBack e) = e" | "op_node (Delete e) = e"

lemma run_repr:
  "repr h head xs \<Longrightarrow> spec_list_ops head ops xs = Some ys \<Longrightarrow>
     repr h other zs \<Longrightarrow> set (other # zs) \<inter> (set (head # xs) \<union> op_node ` set ops) = {} \<Longrightarrow>
     \<exists>h'. run_list_ops add addt del head ops h = Some h' \<and> repr h' head ys \<and> repr h' other zs"
proof (induction ops arbitrary: h xs)
  case Nil
  then show ?case by simp
next
  case (Cons op ops)
  show ?case
  proof (cases op)
    case (AddFront e)
    with Cons.prems have e: "e \<notin> set (head # xs)" "spec_list_ops head ops (e # xs) = Some ys"
      by (auto split: if_splits)
    from add_repr [OF Cons.prems(1) e(1)] obtain h1
      where h1: "add e head h = Some h1" "repr h1 head (e # xs)" "same (- set (e # head # xs)) h h1"
      by blast
    have "repr h1 other zs"
      using Cons.prems AddFront by (intro same_repr [OF Cons.prems(3) h1(3)]) auto
    with Cons.IH [OF h1(2) e(2)] Cons.prems(4) AddFront h1(1) show ?thesis by auto
  next
    case (AddBack e)
    with Cons.prems have e: "e \<notin> set (head # xs)" "spec_list_ops head ops (xs @ [e]) = Some ys"
      by (auto split: if_splits)
    from addt_repr [OF Cons.prems(1) e(1)] obtain h1
      where h1: "addt e head h = Some h1" "repr h1 head (xs @ [e])" "same (- set (e # head # xs)) h h1"
      by blast
    have "repr h1 other zs"
      using Cons.prems AddBack by (intro same_repr [OF Cons.prems(3) h1(3)]) auto
    with Cons.IH [OF h1(2) e(2)] Cons.prems(4) AddBack h1(1) show ?thesis by auto
  next
    case (Delete e)
    with Cons.prems have e: "e \<in> set xs" "spec_list_ops head ops (remove1 e xs) = Some ys"
      by (auto split: if_splits)
    from del_repr [OF Cons.prems(1) e(1)] obtain h1
      where h1: "del e h = Some h1" "repr h1 head (remove1 e xs)" "same (- set (head # xs)) h h1"
      by blast
    have "repr h1 other zs"
      using Cons.prems by (intro same_repr [OF Cons.prems(3) h1(3)]) auto
    moreover have "set (remove1 e xs) \<subseteq> set xs" by (rule set_remove1_subset)
    ultimately show ?thesis
      using Cons.IH [OF h1(2) e(2)] Cons.prems(4) Delete h1(1) by fastforce
  qed
qed

end

definition same_links :: "'n set \<Rightarrow> 'n links \<Rightarrow> 'n links \<Rightarrow> bool" where
  "same_links A h h' \<longleftrightarrow> (\<forall>y \<in> A. nxt h' y = nxt h y \<and> prv h' y = prv h y)"

interpretation links: list_store list_add list_add_tail list_del is_list same_links
proof
  fix h :: "'n links" and head e xs
  assume l: "is_list h head xs"
  show "\<exists>h'. list_add e head h = Some h' \<and> is_list h' head (e # xs) \<and> same_links (- set (e # head # xs)) h h'"
    if "e \<notin> set (head # xs)"
    using list_add_is_list [OF l that] unfolding same_links_def by blast
  show "\<exists>h'. list_add_tail e head h = Some h' \<and> is_list h' head (xs @ [e]) \<and> same_links (- set (e # head # xs)) h h'"
    if "e \<notin> set (head # xs)"
    using list_add_tail_is_list [OF l that] unfolding same_links_def by blast
  show "\<exists>h'. list_del e h = Some h' \<and> is_list h' head (remove1 e xs) \<and> same_links (- set (head # xs)) h h'"
    if "e \<in> set xs"
    using list_del_is_list [OF l that] unfolding same_links_def by blast
  show "is_list h' head xs" if "same_links A h h'" "set (head # xs) \<subseteq> A" for A h'
    using that by (intro is_list_frame [OF l]) (auto simp: same_links_def)
qed

section \<open>Properties\<close>

text \<open>
  C23. Any sequence of \<^verbatim>\<open>list_add\<close>, \<^verbatim>\<open>list_add_tail\<close> and
  \<^verbatim>\<open>list_del\<close> calls on one list that adds only unlinked nodes and deletes only linked
  ones follows no NULL, leaves in the store exactly the list a functional list would hold,
  and leaves every list of other nodes as it was.
\<close>

theorem list_operations_refine_lists:
  assumes "is_list h head xs" and "spec_list_ops head ops xs = Some ys"
    and "is_list h other zs" and "set (other # zs) \<inter> (set (head # xs) \<union> links.op_node ` set ops) = {}"
  shows "\<exists>h'. run_list_ops list_add list_add_tail list_del head ops h = Some h'
    \<and> is_list h' head ys \<and> is_list h' other zs"
  using assms by (rule links.run_repr)

definition two_heads :: "nat links" where
  "two_heads = INIT_LIST_HEAD 0 (INIT_LIST_HEAD 9 null_links)"

theorem list_operations_refine_lists_witness:
  "\<exists>h'. run_list_ops list_add list_add_tail list_del 0
      [AddFront 1, AddBack 2, AddFront 3, Delete 1] two_heads = Some h'
    \<and> is_list h' 0 [3, 2 :: nat] \<and> is_list h' 9 []"
proof (rule list_operations_refine_lists)
  show "is_list two_heads 0 []" "is_list two_heads 9 []"
    by (simp_all add: two_heads_def is_list_def INIT_LIST_HEAD_def)
qed simp_all

text \<open>
  Adding to a list the node that is already its first makes the node its own
  successor: every traversal whose body does not leave the loop or relink the node then
  never returns.
\<close>

theorem list_add_twice_never_ends:
  assumes "is_list (lk s) head (e # xs)"
    and "list_add e head (lk s) = Some h'" and "lk s' = h'" and "P s'"
    and "\<And>t b t'. P t \<Longrightarrow> body e t = Some (b, t') \<Longrightarrow> \<not> b \<and> P t' \<and> nxt (lk t') e = Some e"
  shows "for_each lk head body s' = None"
proof -
  have n: "nxt (lk s) head = Some e" "e \<noteq> head" using assms(1) by (auto simp: is_list_def)
  with assms(2,3) have "nxt (lk s') head = Some e"
    by (auto simp: list_add_def list_insert_between_def)
  then show ?thesis
    using list_for_each_self_loop [where P = P, OF assms(5) n(2) assms(4)]
    by (simp add: for_each_def)
qed

theorem list_add_twice_never_ends_witness:
  "for_each id 0 (\<lambda>x h. Some (False, h))
     (the (list_add 1 0 (the (list_add 1 0 two_heads)))) = None"
proof -
  let ?h = "the (list_add 1 0 two_heads)"
  have l: "is_list (id ?h) 0 [1]"
    by (simp add: two_heads_def is_list_def INIT_LIST_HEAD_def list_add_def list_insert_between_def)
  have h': "list_add 1 0 (id ?h) = Some (the (list_add 1 0 ?h))"
    by (simp add: two_heads_def INIT_LIST_HEAD_def list_add_def list_insert_between_def)
  show ?thesis
    by (rule list_add_twice_never_ends [where P = "\<lambda>h. nxt h 1 = Some 1" and lk = id and s = ?h, OF l h'])
      (simp_all add: two_heads_def INIT_LIST_HEAD_def list_add_def list_insert_between_def)
qed

end
