(* ===== verification/MsgStream.thy ===== *)
theory MsgStream
  imports Prelude
begin

text \<open>
  The growing message buffers of \<^verbatim>\<open>src/CuteDog/stream.c\<close>: every message cell of the
  server owns one.  The buffer is a block of memory with checked accesses; the cursors are
  offsets from \<^verbatim>\<open>chunk_buf\<close>; \<^verbatim>\<open>unsigned int\<close> arithmetic wraps at
  \<^term>\<open>2 ^ 32 :: nat\<close>.
\<close>

section \<open>The buffer\<close>

record cstream =
  stream_size :: nat
  chunk_block :: string
  chunk_mem :: bool \<comment> \<open>\<^verbatim>\<open>chunk_mem\<close> is not NULL\<close>
  chunk_base :: nat \<comment> \<open>offset of \<^verbatim>\<open>chunk_buf\<close> in the block\<close>
  chunk_ptr :: nat
  chunk_read :: nat
  chunk_write :: nat
  syncword :: nat
  endword :: nat

definition MIN_MALLOC_LEN :: nat where
  "MIN_MALLOC_LEN = 32"

text \<open>\<^verbatim>\<open>while (chunk_buf % 16) chunk_buf++\<close> from the address that malloc returned.\<close>

function align16 :: "nat \<Rightarrow> nat" where
  "align16 addr = (if addr mod 16 = 0 then 0 else Suc (align16 (Suc addr)))"
  by pat_completeness auto
termination
  by (relation "measure (\<lambda>a. (16 - a mod 16) mod 16)") (auto simp: mod_Suc)

declare align16.simps [simp del]

lemma align16_eq: "align16 addr = (16 - addr mod 16) mod 16"
proof (induction addr rule: align16.induct)
  case (1 addr)
  show ?case
  proof (cases "addr mod 16 = 0")
    case True
    then show ?thesis by (simp add: align16.simps [of addr])
  next
    case False
    have "addr mod 16 < 16" by simp
    with 1 False show ?thesis
      by (subst align16.simps) (auto simp: mod_Suc)
  qed
qed

lemma align16_aligned: "(addr + align16 addr) mod 16 = 0"
proof -
  have "addr mod 16 < 16" by simp
  then have "(addr mod 16 + (16 - addr mod 16) mod 16) mod 16 = 0" by (cases "addr mod 16 = 0") auto
  then show ?thesis by (simp add: align16_eq mod_add_left_eq)
qed

lemma align16_less: "align16 addr < 16"
  by (simp add: align16_eq)

text \<open>
  \<open>hdr\<close> is the address of the record (NULL is dereferenced by the next statement),
  \<open>blk\<close> the address of the data block; the result \<open>Some None\<close> is NULL.
\<close>

definition init_stream :: "nat option \<Rightarrow> nat option \<Rightarrow> nat \<Rightarrow> cstream option option" where
  "init_stream hdr blk n = do {
     _ \<leftarrow> hdr;
     Some (case blk of
       None \<Rightarrow> None
     | Some addr \<Rightarrow> Some \<lparr>stream_size = n, chunk_block = replicate (n + MIN_MALLOC_LEN) NUL,
         chunk_mem = True, chunk_base = align16 addr, chunk_ptr = 0, chunk_read = 0,
         chunk_write = 0, syncword = 0, endword = 0\<rparr>)
   }"

text \<open>The bytes from \<^verbatim>\<open>current\<close> to \<^verbatim>\<open>end\<close>; the result is what is left of them.\<close>

definition copy_stream :: "string \<Rightarrow> cstream \<Rightarrow> (string \<times> cstream) option" where
  "copy_stream current hs =
     (let limit = min (int (stream_size hs) - int (chunk_ptr hs)) (int (length current));
          len_t = nat (limit mod 2 ^ 32) in
      do {
        xs \<leftarrow> read_at 0 len_t current;
        block \<leftarrow> write_at (chunk_base hs + chunk_ptr hs) xs (chunk_block hs);
        Some (drop len_t current, hs\<lparr>chunk_block := block, chunk_ptr := chunk_ptr hs + len_t\<rparr>)
      })"

definition reset_stream :: "cstream \<Rightarrow> cstream" where
  "reset_stream hs =
     hs\<lparr>chunk_ptr := 0, chunk_read := 0, chunk_write := 0, endword := 0, syncword := 0\<rparr>"

text \<open>The verdict and \<^verbatim>\<open>*wrotelen\<close>.\<close>

definition check_write_free :: "cstream \<Rightarrow> nat \<Rightarrow> bool \<times> nat" where
  "check_write_free hs push_len =
     (let wrotelen = chunk_write hs mod 2 ^ 32;
          len_t = (wrotelen + push_len) mod 2 ^ 32 in
      (\<not> stream_size hs < len_t, wrotelen))"

text \<open>
  The allocator \<open>ra\<close> answers \<^verbatim>\<open>realloc\<close> with the bytes of the new block before the
  old contents are copied into it, or with NULL; a NULL \<^verbatim>\<open>chunk_mem\<close> has no old contents.
\<close>

definition realloc_stream_size ::
  "(nat \<Rightarrow> string option) \<Rightarrow> cstream \<Rightarrow> nat \<Rightarrow> nat \<Rightarrow> bool \<times> cstream" where
  "realloc_stream_size ra hs wrotesize writtingsize =
     (let len_t = (stream_size hs + writtingsize) mod 2 ^ 32;
          new_size = (len_t + drop_bit 2 len_t) mod 2 ^ 32;
          old = (if chunk_mem hs then chunk_block hs else []) in
      case ra new_size of
        None \<Rightarrow> (False, hs\<lparr>chunk_mem := False\<rparr>)
      | Some fresh \<Rightarrow>
          (True, hs\<lparr>chunk_block := take new_size old @ drop (length old) fresh, chunk_mem := True,
             stream_size := new_size, chunk_base := 0, chunk_ptr := wrotesize, chunk_read := wrotesize,
             chunk_write := wrotesize\<rparr>))"

text \<open>\<^verbatim>\<open>if (!check_write_free) if (!realloc_stream_size) return;\<close>: None is the return.\<close>

definition make_room :: "(nat \<Rightarrow> string option) \<Rightarrow> cstream \<Rightarrow> nat \<Rightarrow> bool \<times> cstream" where
  "make_room ra hs len =
     (case check_write_free hs len of (free, wrotelen) \<Rightarrow>
      if free then (True, hs) else realloc_stream_size ra hs wrotelen len)"

definition push_stream_buf :: "(nat \<Rightarrow> string option) \<Rightarrow> string \<Rightarrow> cstream \<Rightarrow> cstream option" where
  "push_stream_buf ra buf hs =
     (if length buf = 0 then Some hs
      else case make_room ra hs (length buf) of (ok, hs) \<Rightarrow>
        if \<not> ok then Some hs
        else do {
          block \<leftarrow> write_at (chunk_base hs + chunk_write hs) buf (chunk_block hs);
          Some (hs\<lparr>chunk_block := block, chunk_write := chunk_write hs + length buf\<rparr>)
        })"

definition push_stream_string :: "(nat \<Rightarrow> string option) \<Rightarrow> string \<Rightarrow> cstream \<Rightarrow> cstream option" where
  "push_stream_string ra str hs =
     (case make_room ra hs (length str) of (ok, hs) \<Rightarrow>
        if \<not> ok then Some hs
        else do {
          block \<leftarrow> write_at (chunk_base hs + chunk_write hs) (str @ [NUL]) (chunk_block hs);
          Some (hs\<lparr>chunk_block := block, chunk_write := chunk_write hs + (length str + 1)\<rparr>)
        })"

text \<open>What the reader of \<^verbatim>\<open>get_stream_ptr\<close> sees as a string, and its length.\<close>

definition get_stream_ptr :: "cstream \<Rightarrow> string option" where
  "get_stream_ptr hs = c_str_at (chunk_base hs) (chunk_block hs)"

definition get_stream_len :: "cstream \<Rightarrow> nat option" where
  "get_stream_len hs = map_option length (get_stream_ptr hs)"

definition get_xmlstream_len :: "cstream \<Rightarrow> nat option" where
  "get_xmlstream_len hs = map_option Suc (get_stream_len hs)"

section \<open>Well-formed buffers\<close>

text \<open>
  A buffer that was never reallocated has bytes past its size: they hold the terminating
  NUL of a message that fills it.  After a reallocation the block has exactly \<open>stream_size\<close> bytes.
\<close>

definition stream_wf :: "cstream \<Rightarrow> bool" where
  "stream_wf hs \<longleftrightarrow> chunk_base hs + stream_size hs \<le> length (chunk_block hs) \<and> stream_size hs < 2 ^ 31
     \<and> chunk_ptr hs \<le> stream_size hs"

definition stream_slack :: "cstream \<Rightarrow> bool" where
  "stream_slack hs \<longleftrightarrow> chunk_base hs + stream_size hs < length (chunk_block hs)
     \<and> chunk_block hs ! (chunk_base hs + stream_size hs) = NUL"

definition stream_area :: "cstream \<Rightarrow> string" where
  "stream_area hs = drop (chunk_base hs) (chunk_block hs)"

definition stream_data :: "cstream \<Rightarrow> string" where
  "stream_data hs = take (chunk_write hs) (stream_area hs)"

definition allocator :: "(nat \<Rightarrow> string option) \<Rightarrow> bool" where
  "allocator ra \<longleftrightarrow> (\<forall>n fresh. ra n = Some fresh \<longrightarrow> length fresh = n)"

lemma init_stream_wf:
  "init_stream hdr (Some addr) n = Some (Some hs) \<Longrightarrow> n < 2 ^ 31 \<Longrightarrow> stream_wf hs \<and> stream_slack hs"
  using align16_less [of addr]
  by (cases hdr) (auto simp: init_stream_def stream_wf_def stream_slack_def MIN_MALLOC_LEN_def)

lemma reset_stream_sel [simp]:
  "stream_size (reset_stream hs) = stream_size hs" "chunk_block (reset_stream hs) = chunk_block hs"
  "chunk_base (reset_stream hs) = chunk_base hs" "chunk_write (reset_stream hs) = 0"
  "chunk_ptr (reset_stream hs) = 0" "chunk_mem (reset_stream hs) = chunk_mem hs"
  by (simp_all add: reset_stream_def)

lemma reset_stream_wf [simp]:
  "stream_wf hs \<Longrightarrow> stream_wf (reset_stream hs)"
  "stream_slack (reset_stream hs) \<longleftrightarrow> stream_slack hs"
  "stream_area (reset_stream hs) = stream_area hs"
  by (simp_all add: stream_wf_def stream_slack_def stream_area_def)

lemma get_stream_ptr_area:
  "chunk_base hs \<le> length (chunk_block hs) \<Longrightarrow>
     get_stream_ptr hs = (if NUL \<in> set (stream_area hs) then Some (c_str (stream_area hs)) else None)"
  by (simp add: get_stream_ptr_def c_str_at_def stream_area_def)

lemma make_room_free:
  "chunk_write hs + n \<le> stream_size hs \<Longrightarrow> stream_size hs < 2 ^ 31 \<Longrightarrow> make_room ra hs n = (True, hs)"
  by (simp add: make_room_def check_write_free_def)

text \<open>A push writes its bytes at the write cursor and nothing else.\<close>

lemma push_stream_string_fits:
  assumes "stream_wf hs" "chunk_write hs + length str \<le> stream_size hs"
    and "chunk_base hs + chunk_write hs + length str < length (chunk_block hs)"
  shows "push_stream_string ra str hs = Some (hs\<lparr>chunk_block :=
      take (chunk_base hs + chunk_write hs) (chunk_block hs) @ (str @ [NUL]) @
      drop (chunk_base hs + chunk_write hs + length (str @ [NUL])) (chunk_block hs),
      chunk_write := chunk_write hs + (length str + 1)\<rparr>)"
  using assms by (simp add: push_stream_string_def make_room_free stream_wf_def mem_simps)

lemma get_stream_len_of: "get_stream_ptr hs = Some s \<Longrightarrow> get_stream_len hs = Some (length s)"
  by (simp add: get_stream_len_def)

lemma push_after_reset:
  assumes "stream_wf hs" "length str \<le> stream_size hs" "chunk_base hs + length str < length (chunk_block hs)"
    and "no_nul str"
  shows "\<exists>hs'. push_stream_string ra str (reset_stream hs) = Some hs' \<and> get_stream_ptr hs' = Some str
    \<and> stream_area hs' = str @ NUL # drop (Suc (length str)) (stream_area hs)
    \<and> stream_size hs' = stream_size hs \<and> chunk_base hs' = chunk_base hs
    \<and> length (chunk_block hs') = length (chunk_block hs) \<and> chunk_ptr hs' = 0"
proof -
  let ?b = "take (chunk_base hs) (chunk_block hs) @ (str @ [NUL]) @
      drop (chunk_base hs + length (str @ [NUL])) (chunk_block hs)"
  let ?hs' = "reset_stream hs\<lparr>chunk_block := ?b, chunk_write := length str + 1\<rparr>"
  have "push_stream_string ra str (reset_stream hs) = Some ?hs'"
    using push_stream_string_fits [of "reset_stream hs" str ra] assms by simp
  moreover have area: "stream_area ?hs' = str @ NUL # drop (Suc (length str)) (stream_area hs)"
    using assms(3) by (simp add: stream_area_def add.commute)
  moreover have "get_stream_ptr ?hs' = Some str"
    using assms(3,4) area by (subst get_stream_ptr_area) (simp_all add: c_str_terminated)
  ultimately show ?thesis using assms(3) by (intro exI [of _ ?hs'] conjI) auto
qed

lemma push_string_at:
  assumes "make_room ra hs (length str) = (True, hs1)" "chunk_base hs1 = 0" "chunk_write hs1 = 0"
    and "length str < length (chunk_block hs1)" "no_nul str"
  shows "\<exists>hs'. push_stream_string ra str hs = Some hs' \<and> get_stream_ptr hs' = Some str
    \<and> chunk_base hs' = 0 \<and> stream_size hs' = stream_size hs1
    \<and> length (chunk_block hs') = length (chunk_block hs1)"
  using assms by (auto simp: push_stream_string_def write_at_def get_stream_ptr_def c_str_at_def
      c_str_terminated)

lemma stream_slack_area:
  "stream_slack hs \<longleftrightarrow> stream_size hs < length (stream_area hs) \<and> stream_area hs ! stream_size hs = NUL"
  by (auto simp: stream_slack_def stream_area_def)

section \<open>Properties\<close>

text \<open>
  A message that fits the buffer of a reset cell is written without overrun and is
  exactly the string, of exactly the length, that the sender reads back; the cell stays well
  formed for the next message.
\<close>

theorem push_string_after_reset:
  assumes "stream_wf hs" and "stream_slack hs" and "no_nul str" and "length str \<le> stream_size hs"
  shows "\<exists>hs'. push_stream_string ra str (reset_stream hs) = Some hs' \<and> get_stream_ptr hs' = Some str
    \<and> get_stream_len hs' = Some (length str) \<and> stream_wf hs' \<and> stream_slack hs'"
proof -
  have "chunk_base hs + length str < length (chunk_block hs)"
    using assms by (simp add: stream_slack_def)
  from push_after_reset [OF assms(1,4) this assms(3)] obtain hs' where
    hs': "push_stream_string ra str (reset_stream hs) = Some hs'" "get_stream_ptr hs' = Some str"
      "stream_area hs' = str @ NUL # drop (Suc (length str)) (stream_area hs)"
      "stream_size hs' = stream_size hs" "chunk_base hs' = chunk_base hs"
      "length (chunk_block hs') = length (chunk_block hs)" "chunk_ptr hs' = 0"
    by blast
  have "stream_slack hs'"
    using assms(2,4) hs'(3,4) unfolding stream_slack_area
    by (cases "length str = stream_size hs") (auto simp: nth_append nth_Cons')
  moreover have "stream_wf hs'" using assms(1) hs' by (simp add: stream_wf_def)
  ultimately show ?thesis using hs'(1,2) get_stream_len_of by blast
qed

definition demo_stream :: cstream where
  "demo_stream = the (the (init_stream (Some 0) (Some 24) 6))"

lemma demo_stream_wf: "stream_wf demo_stream \<and> stream_slack demo_stream"
  by (rule init_stream_wf [of "Some 0" 24 6]) (simp_all add: demo_stream_def init_stream_def)

theorem push_string_after_reset_witness:
  "\<exists>hs'. push_stream_string (\<lambda>_. None) ''ABCDEF'' (reset_stream demo_stream) = Some hs'
    \<and> get_stream_ptr hs' = Some ''ABCDEF'' \<and> get_stream_len hs' = Some (length ''ABCDEF'')
    \<and> stream_wf hs' \<and> stream_slack hs'"
  by (rule push_string_after_reset)
    (simp_all add: demo_stream_wf, simp add: demo_stream_def init_stream_def)

text \<open>
  A message longer than the buffer reallocates it: when the allocator grants the
  request, the message is again what is read back, and the new size is one and a quarter
  times the old size plus the message.  When it refuses, the push silently does nothing.
\<close>

theorem push_string_reallocates:
  assumes "stream_wf hs" and "chunk_mem hs" and "no_nul str" and "allocator ra"
    and "0 < stream_size hs" and "stream_size hs < length str" and "length str < 2 ^ 30"
  shows "case ra (stream_size hs + length str + (stream_size hs + length str) div 4) of
      None \<Rightarrow> push_stream_string ra str (reset_stream hs) = Some ((reset_stream hs)\<lparr>chunk_mem := False\<rparr>)
    | Some fresh \<Rightarrow> \<exists>hs'. push_stream_string ra str (reset_stream hs) = Some hs'
        \<and> get_stream_ptr hs' = Some str \<and> chunk_base hs' = 0
        \<and> stream_size hs' = stream_size hs + length str + (stream_size hs + length str) div 4
        \<and> length (chunk_block hs') = stream_size hs'"
proof -
  let ?m = "stream_size hs + length str" and ?n = "stream_size hs + length str + (stream_size hs + length str) div 4"
  have small: "length str < 2 ^ 32" "?m < 2 ^ 32" "?n < 2 ^ 32"
    using assms(6,7) by (simp_all add: div_less_dividend)
  have busy: "check_write_free (reset_stream hs) (length str) = (False, 0)"
    using assms(6) small(1) by (simp add: check_write_free_def)
  have ra: "realloc_stream_size ra (reset_stream hs) 0 (length str) =
      (case ra ?n of None \<Rightarrow> (False, (reset_stream hs)\<lparr>chunk_mem := False\<rparr>)
       | Some fresh \<Rightarrow> (True, (reset_stream hs)\<lparr>chunk_block := take ?n (chunk_block hs) @ drop (length (chunk_block hs)) fresh,
             chunk_mem := True, stream_size := ?n, chunk_base := 0, chunk_ptr := 0, chunk_read := 0,
             chunk_write := 0\<rparr>))"
  proof -
    have "?m mod 2 ^ 32 = ?m" "?n mod 2 ^ 32 = ?n" "drop_bit 2 ?m = ?m div 4"
      using small(2,3) by (simp_all add: drop_bit_eq_div)
    then show ?thesis
      using assms(2) unfolding realloc_stream_size_def Let_def reset_stream_sel by (simp only: if_True)
  qed
  show ?thesis
  proof (cases "ra ?n")
    case None
    with busy ra show ?thesis by (simp add: push_stream_string_def make_room_def)
  next
    case (Some fresh)
    let ?b = "take ?n (chunk_block hs) @ drop (length (chunk_block hs)) fresh"
    let ?hs1 = "(reset_stream hs)\<lparr>chunk_block := ?b, chunk_mem := True, stream_size := ?n,
        chunk_base := 0, chunk_ptr := 0, chunk_read := 0, chunk_write := 0\<rparr>"
    have "length fresh = ?n" using assms(4) Some by (auto simp: allocator_def)
    then have b: "length ?b = ?n" by simp
    then have "length str < length (chunk_block ?hs1)" using assms(5) by simp
    moreover have "make_room ra (reset_stream hs) (length str) = (True, ?hs1)"
      using busy ra Some by (simp add: make_room_def)
    ultimately have "\<exists>hs'. push_stream_string ra str (reset_stream hs) = Some hs' \<and> get_stream_ptr hs' = Some str
      \<and> chunk_base hs' = 0 \<and> stream_size hs' = stream_size ?hs1
      \<and> length (chunk_block hs') = length (chunk_block ?hs1)"
      using assms(3) by (intro push_string_at) simp_all
    moreover have "length (chunk_block ?hs1) = ?n" using b by simp
    ultimately show ?thesis using Some by fastforce
  qed
qed

theorem push_string_reallocates_witness:
  "\<exists>hs'. push_stream_string (\<lambda>n. Some (replicate n NUL)) ''ABCDEFGH'' (reset_stream demo_stream) = Some hs'
    \<and> get_stream_ptr hs' = Some ''ABCDEFGH'' \<and> chunk_base hs' = 0 \<and> stream_size hs' = 17
    \<and> length (chunk_block hs') = stream_size hs'"
  using push_string_reallocates [of demo_stream "''ABCDEFGH''" "\<lambda>n. Some (replicate n NUL)"]
  by (simp add: demo_stream_wf) (simp add: demo_stream_def init_stream_def allocator_def)

text \<open>
  A push to a reset cell overruns its block exactly when the message is as long as what
  is left of the block after \<^verbatim>\<open>chunk_buf\<close>: \<^verbatim>\<open>check_write_free\<close> does not count the
  terminating NUL, which lands one byte past a block that was reallocated.
\<close>

theorem push_string_overflow_iff:
  assumes "stream_wf hs" and "length str \<le> stream_size hs" and "no_nul str"
  shows "push_stream_string ra str (reset_stream hs) = None
    \<longleftrightarrow> length (chunk_block hs) = chunk_base hs + length str"
proof
  assume n: "push_stream_string ra str (reset_stream hs) = None"
  have "chunk_base hs + length str \<le> length (chunk_block hs)" using assms by (simp add: stream_wf_def)
  with push_after_reset [OF assms(1,2) _ assms(3), of ra] n
  show "length (chunk_block hs) = chunk_base hs + length str" by fastforce
next
  assume "length (chunk_block hs) = chunk_base hs + length str"
  with assms show "push_stream_string ra str (reset_stream hs) = None"
    by (simp add: push_stream_string_def make_room_free stream_wf_def write_at_def)
qed

definition grown_stream :: cstream where
  "grown_stream =
     the (push_stream_string (\<lambda>n. Some (replicate n NUL)) ''ABCDEFGH'' (the (the (init_stream (Some 0) (Some 32) 4))))"

lemma grown_stream_sel:
  "stream_size grown_stream = 15" "chunk_base grown_stream = 0" "length (chunk_block grown_stream) = 15"
  "chunk_ptr grown_stream = 0"
  by (simp_all add: grown_stream_def init_stream_def push_stream_string_def make_room_def
      check_write_free_def realloc_stream_size_def drop_bit_eq_div write_at_def align16.simps MIN_MALLOC_LEN_def)

theorem push_string_overflow_iff_witness:
  "push_stream_string (\<lambda>_. None) ''123456789012345'' (reset_stream grown_stream) = None"
  by (subst push_string_overflow_iff) (simp_all add: grown_stream_sel stream_wf_def)

lemma take_splice: "k \<le> length b \<Longrightarrow> take (k + length xs) (take k b @ xs @ zs) = take k b @ xs"
  by simp

lemma limit_nat:
  assumes "a < 2 ^ 31"
  shows "nat (min (int a - int 0) (int b) mod 2 ^ 32) = min a b"
proof -
  have "min (int a - int 0) (int b) mod 2 ^ 32 = int (min a b mod 2 ^ 32)"
    by (simp add: zmod_int of_nat_min)
  moreover have "min a b < 2 ^ 32" using assms by (simp add: min_def)
  ultimately show ?thesis by simp
qed

lemma push_buf_at:
  assumes "make_room ra hs (length buf) = (True, hs1)" "buf \<noteq> []" "chunk_base hs1 = 0"
    and "chunk_write hs1 + length buf \<le> length (chunk_block hs1)"
  shows "\<exists>hs'. push_stream_buf ra buf hs = Some hs'
    \<and> stream_data hs' = take (chunk_write hs1) (chunk_block hs1) @ buf
    \<and> chunk_base hs' = 0 \<and> chunk_write hs' = chunk_write hs1 + length buf \<and> chunk_ptr hs' = chunk_ptr hs1
    \<and> stream_size hs' = stream_size hs1 \<and> chunk_mem hs' = chunk_mem hs1
    \<and> length (chunk_block hs') = length (chunk_block hs1)"
  using assms take_splice [of "chunk_write hs1" "chunk_block hs1" buf]
  by (simp add: push_stream_buf_def write_at_def stream_data_def stream_area_def)

text \<open>What \<^verbatim>\<open>copy_stream\<close> does with a cell that was just reset.\<close>

lemma copy_stream_reset:
  assumes "stream_wf hs"
  shows "\<exists>hs'. copy_stream data (reset_stream hs) = Some (drop (stream_size hs) data, hs')
    \<and> stream_area hs' = take (stream_size hs) data @ drop (length (take (stream_size hs) data)) (stream_area hs)
    \<and> stream_wf hs' \<and> stream_size hs' = stream_size hs \<and> chunk_base hs' = chunk_base hs
    \<and> length (chunk_block hs') = length (chunk_block hs) \<and> chunk_ptr hs' = length (take (stream_size hs) data)"
proof -
  let ?n = "min (stream_size hs) (length data)"
  let ?b = "take (chunk_base hs) (chunk_block hs) @ take ?n data @
      drop (chunk_base hs + ?n) (chunk_block hs)"
  let ?hs' = "(reset_stream hs)\<lparr>chunk_block := ?b, chunk_ptr := ?n\<rparr>"
  have wf: "chunk_base hs + stream_size hs \<le> length (chunk_block hs)" "stream_size hs < 2 ^ 31"
    using assms by (simp_all add: stream_wf_def)
  have n: "nat (min (int (stream_size (reset_stream hs)) - int (chunk_ptr (reset_stream hs)))
      (int (length data)) mod 2 ^ 32) = ?n"
    unfolding reset_stream_sel by (rule limit_nat [OF wf(2)])
  have "read_at 0 ?n data = Some (take ?n data)" by (simp add: read_at_def)
  moreover have "write_at (chunk_base hs + 0) (take ?n data) (chunk_block hs) = Some ?b"
    using wf(1) by (simp add: write_at_def)
  ultimately have "copy_stream data (reset_stream hs) = Some (drop ?n data, ?hs')"
    unfolding copy_stream_def Let_def n by simp
  moreover have "drop ?n data = drop (stream_size hs) data" "take ?n data = take (stream_size hs) data"
    by (simp_all add: min_def)
  moreover have "stream_area ?hs' = take ?n data @ drop ?n (stream_area hs)"
    using wf(1) by (simp add: stream_area_def add.commute)
  moreover have "stream_wf ?hs'" using assms wf by (simp add: stream_wf_def)
  moreover have "length ?b = length (chunk_block hs)" using wf(1) by simp
  ultimately show ?thesis by (intro exI [of _ ?hs'] conjI) (simp_all add: min.commute)
qed

text \<open>
  Received bytes that fit are copied into a reset cell without overrun, nothing is left
  over, and the cell is read back as exactly those bytes if and only if the byte after them
  in the recycled buffer is a NUL: \<^verbatim>\<open>reset_stream\<close> does not clear the buffer and
  \<^verbatim>\<open>copy_stream\<close> writes no NUL, so the tail of an older message is read as well.
\<close>

theorem copy_stream_reads_stale_bytes_iff:
  assumes "stream_wf hs" and "stream_slack hs" and "no_nul data" and "length data \<le> stream_size hs"
  shows "\<exists>hs'. copy_stream data (reset_stream hs) = Some ([], hs')
    \<and> get_stream_ptr hs' = Some (data @ c_str (drop (length data) (stream_area hs)))
    \<and> (get_stream_ptr hs' = Some data \<longleftrightarrow> stream_area hs ! length data = NUL)
    \<and> stream_wf hs' \<and> stream_slack hs'"
proof -
  from copy_stream_reset [OF assms(1), of data] assms(4) obtain hs' where
    hs': "copy_stream data (reset_stream hs) = Some ([], hs')" "stream_wf hs'"
      "stream_area hs' = data @ drop (length data) (stream_area hs)"
      "stream_size hs' = stream_size hs" "chunk_base hs' = chunk_base hs"
      "length (chunk_block hs') = length (chunk_block hs)"
    by auto
  have l: "stream_size hs < length (stream_area hs)" "stream_area hs ! stream_size hs = NUL"
    using assms(2) by (simp_all add: stream_slack_area)
  then have "drop (length data) (stream_area hs) ! (stream_size hs - length data) = NUL"
    "stream_size hs - length data < length (drop (length data) (stream_area hs))"
    using assms(4) by auto
  then have nul: "NUL \<in> set (drop (length data) (stream_area hs))" by (metis nth_mem)
  then have p: "get_stream_ptr hs' = Some (data @ c_str (drop (length data) (stream_area hs)))"
    using hs' assms(3) by (subst get_stream_ptr_area) (auto simp: stream_wf_def c_str_no_nul)
  moreover have "c_str (drop (length data) (stream_area hs)) = [] \<longleftrightarrow> stream_area hs ! length data = NUL"
    using l(1) assms(4) by (subst Cons_nth_drop_Suc [symmetric]) (auto simp: c_str_Cons)
  moreover have "stream_slack hs'"
    using l assms(4) hs'(3,4) unfolding stream_slack_area by (auto simp: nth_append)
  ultimately show ?thesis using hs'(1,2) by auto
qed

theorem copy_stream_reads_stale_bytes_iff_witness:
  "\<exists>hs hs'. push_stream_string (\<lambda>_. None) ''ABCDEF'' demo_stream = Some hs
    \<and> copy_stream ''xy'' (reset_stream hs) = Some ([], hs')
    \<and> get_stream_ptr hs' = Some ''xyCDEF'' \<and> stream_wf hs'"
proof -
  let ?hs = "the (push_stream_string (\<lambda>_. None) ''ABCDEF'' demo_stream)"
  have p: "push_stream_string (\<lambda>_. None) ''ABCDEF'' demo_stream = Some ?hs"
    and wf: "stream_wf ?hs" "stream_slack ?hs"
    and a: "take 7 (stream_area ?hs) = ''ABCDEF'' @ [NUL]"
    by (simp_all add: demo_stream_def init_stream_def push_stream_string_def make_room_def
        check_write_free_def write_at_def align16.simps MIN_MALLOC_LEN_def stream_wf_def
        stream_slack_def stream_area_def)
  have d: "drop 2 xs = ''CDEF'' @ NUL # drop 7 xs" if "take 7 xs = ''ABCDEF'' @ [NUL]" for xs
  proof -
    have "drop 2 xs = drop 2 (take 7 xs @ drop 7 xs)" by (simp only: append_take_drop_id)
    then show ?thesis by (simp only: that) simp
  qed
  note d [OF a]
  moreover have "no_nul ''CDEF''" by simp
  ultimately have "c_str (drop 2 (stream_area ?hs)) = ''CDEF''"
    by (simp only: c_str_terminated)
  moreover have "length ''xy'' \<le> stream_size ?hs"
    by (simp add: demo_stream_def init_stream_def push_stream_string_def make_room_def
        check_write_free_def write_at_def align16.simps MIN_MALLOC_LEN_def)
  moreover obtain hs' where "copy_stream ''xy'' (reset_stream ?hs) = Some ([], hs')" "stream_wf hs'"
      "get_stream_ptr hs' = Some (''xy'' @ c_str (drop (length ''xy'') (stream_area ?hs)))"
    using copy_stream_reads_stale_bytes_iff [OF wf, of "''xy''"] calculation(2) by auto
  moreover have "length ''xy'' = 2" by simp
  ultimately have "get_stream_ptr hs' = Some ''xyCDEF''" by (simp only:) simp
  then show ?thesis using p \<open>copy_stream ''xy'' (reset_stream ?hs) = Some ([], hs')\<close> \<open>stream_wf hs'\<close>
    by blast
qed

text \<open>
  As long as the allocator grants the requests, pushing binary data appends it to the
  data pushed so far, whether or not the buffer has to grow.
\<close>

theorem push_stream_buf_appends:
  assumes "stream_wf hs" and "chunk_mem hs" and "chunk_base hs = 0" and "chunk_write hs \<le> stream_size hs"
    and "allocator ra" and "\<forall>n. ra n \<noteq> None" and "stream_size hs + length buf < 2 ^ 29"
  shows "\<exists>hs'. push_stream_buf ra buf hs = Some hs' \<and> stream_data hs' = stream_data hs @ buf
    \<and> stream_wf hs' \<and> chunk_mem hs' \<and> chunk_base hs' = 0 \<and> chunk_write hs' \<le> stream_size hs'"
proof -
  let ?m = "stream_size hs + length buf"
  have wf: "stream_size hs \<le> length (chunk_block hs)" "chunk_ptr hs \<le> stream_size hs"
    using assms(1,3) by (simp_all add: stream_wf_def)
  have w: "chunk_write hs mod 2 ^ 32 = chunk_write hs" "(chunk_write hs + length buf) mod 2 ^ 32 = chunk_write hs + length buf"
    using assms(4,7) by simp_all
  show ?thesis
  proof (cases "chunk_write hs + length buf \<le> stream_size hs")
    case True
    then have "make_room ra hs (length buf) = (True, hs)"
      using assms(1) by (intro make_room_free) (simp_all add: stream_wf_def)
    with True assms wf show ?thesis
      by (auto simp: push_stream_buf_def write_at_def stream_data_def stream_area_def stream_wf_def)
  next
    case False
    let ?n = "?m + ?m div 4"
    obtain fresh where f: "ra ?n = Some fresh" using assms(6) by blast
    with assms(5) have lf: "length fresh = ?n" by (auto simp: allocator_def)
    let ?b = "take ?n (chunk_block hs) @ drop (length (chunk_block hs)) fresh"
    let ?hs1 = "hs\<lparr>chunk_block := ?b, chunk_mem := True, stream_size := ?n, chunk_base := 0,
        chunk_ptr := chunk_write hs, chunk_read := chunk_write hs, chunk_write := chunk_write hs\<rparr>"
    have "?m mod 2 ^ 32 = ?m" "?n mod 2 ^ 32 = ?n" "drop_bit 2 ?m = ?m div 4"
      using assms(7) by (simp_all add: drop_bit_eq_div)
    then have room: "make_room ra hs (length buf) = (True, ?hs1)"
      using False w f assms(2)
      by (simp add: make_room_def check_write_free_def realloc_stream_size_def Let_def)
    have lb: "length ?b = ?n" using lf by simp
    have le: "chunk_write hs + length buf \<le> ?n" using assms(4) by simp
    have data: "take (chunk_write ?hs1) (chunk_block ?hs1) = stream_data hs"
      using assms(3,4) wf(1) by (simp add: stream_data_def stream_area_def)
    have "buf \<noteq> []" using False assms(4) by (cases buf) auto
    from push_buf_at [OF room this] le lb have "\<exists>hs'. push_stream_buf ra buf hs = Some hs'
      \<and> stream_data hs' = stream_data hs @ buf \<and> chunk_base hs' = 0
      \<and> chunk_write hs' = chunk_write hs + length buf \<and> chunk_ptr hs' = chunk_write hs
      \<and> stream_size hs' = ?n \<and> chunk_mem hs' \<and> length (chunk_block hs') = ?n"
      unfolding data by simp
    moreover have "?n < 2 ^ 31" "chunk_write hs \<le> ?n" using assms(4,7) by simp_all
    ultimately show ?thesis using le by (elim exE) (auto simp: stream_wf_def)
  qed
qed

theorem push_stream_buf_appends_witness:
  "\<exists>hs'. push_stream_buf (\<lambda>n. Some (replicate n NUL)) ''ABCDEFGH'' (the (the (init_stream (Some 0) (Some 0) 4))) = Some hs'
    \<and> stream_data hs' = ''ABCDEFGH''"
  using push_stream_buf_appends [of "the (the (init_stream (Some 0) (Some 0) 4))" "\<lambda>n. Some (replicate n NUL)" "''ABCDEFGH''"]
  by (auto simp: init_stream_def stream_wf_def allocator_def stream_data_def MIN_MALLOC_LEN_def
      align16.simps)

end
