(* ===== verification/DogState.thy ===== *)
theory DogState
  imports FifoThreads LinkedList MsgStream
begin

text \<open>
  The state of the server, \<^verbatim>\<open>src/CuteDog/cdogcore.h\<close> and the globals of
  \<^verbatim>\<open>src/CuteDog/cdogEar.c\<close>, and the message cells through which the I/O and capture
  threads hand replies to the socket thread.  Pointers are indices: a client is an index
  into \<^verbatim>\<open>ClientInfo\<close>, a message cell an index into the pool, a cutedog the number of its
  allocation; a cutedog that was freed is \<^term>\<open>None\<close>, so using a dangling pointer is
  undefined behaviour.
\<close>

section \<open>Data\<close>

datatype CLIENTSOCKETSTATUS = STATUS_SOCKET_CLOSED | STATUS_SOCKET_CONNECT

datatype CLIENTSTATUS =
  STATUS_UNKNOWN | STATUS_ACCEPT | STATUS_TIMEOUT1 | STATUS_TIMEOUT2 | STATUS_BUSY | STATUS_IDLE
| STATUS_ERRORLOGIN | STATUS_SHUNDOWN | STATUS_GETVSBASEINFO | STATUS_GETVSSTREAMINFO
| STATUS_GETVSDECODEINFO | STATUS_GETVSDATAINFO | STATUS_RECBINARYDATA | STATUS_SENDBINARYDATA
| STATUS_IOCMDCLOSE | STATUS_IOCLOSEED

datatype CLIENTTYPE = CLIENT_UNKNOWN | CLIENT_USER_PIONEER | CLIENT_USER_HOOKER | CLIENT_USER_ADMIN

definition CLIENTNUM :: nat where "CLIENTNUM = 16"
definition CAT2DOGIOMSGNUM :: nat where "CAT2DOGIOMSGNUM = 4096"
definition DOG2CATIOMSGNUM :: nat where "DOG2CATIOMSGNUM = 4096"
definition MSGINITSIZE :: nat where "MSGINITSIZE = 1024"

text \<open>
  The list heads and the embedded list nodes of the server.  A node determines the object
  it is embedded in, which is what \<^verbatim>\<open>list_entry\<close> computes.
\<close>

datatype node =
  FreeHd | WorkHd | DogHd
| Cli nat | CliHook nat | SendHd nat
| Cell nat | Dog nat | HookHd nat

record DOG2CATIOMSG =
  m_session :: u32
  m_client :: "nat option"
  m_stream :: cstream

record CAT2DOGIOMSG =
  in_session :: u32
  in_client :: "nat option"
  in_stream :: cstream

text \<open>
  The parser is represented by whether it exists; \<open>pSndData\<close> is a cell and an offset
  into its buffer.
\<close>

record CLIENTINFO =
  iID :: int
  lType :: CLIENTTYPE
  lStatus :: CLIENTSTATUS
  lSocketStatus :: CLIENTSOCKETSTATUS
  IPAddress :: nat
  strIP :: string
  lIPPort :: nat
  Prs :: bool
  Socket :: int
  iSessionID :: u32
  iMsgNumID :: u32
  pCurCat2DogIOMsg :: "nat option"
  iCurSendLen :: int
  pSndData :: "(nat \<times> nat) option"
  pCurSendMsg :: "nat option"
  CuteDog :: "nat option"

record CUTEDOG =
  d_Name :: string
  d_Filter :: string
  d_Master :: nat
  d_Thid :: bool \<comment> \<open>not NULL, then it points to the global \<^verbatim>\<open>tidp\<close>\<close>
  d_Handle :: "nat option"

text \<open>Calls of the operating system and of libpcap whose effects outlive a handler.\<close>

datatype callback = TcpCallback | UdpCallback \<comment> \<open>values of \<^verbatim>\<open>FunCallBack\<close>\<close>

datatype effect =
  PcapClose nat | PthreadCancel nat | PthreadCreate nat nat | CloseSocket int | SendBytes int string

record dogstate =
  lk :: "node links"
  ClientInfo :: "nat \<Rightarrow> CLIENTINFO"
  CuteDogs :: "nat \<Rightarrow> CUTEDOG option"
  dog_count :: nat
  cells :: "nat \<Rightarrow> DOG2CATIOMSG"
  pFifoDogMsg :: "nat FifoRing"
  pFifoDogMsgFree :: "nat FifoRing"
  in_cells :: "nat \<Rightarrow> CAT2DOGIOMSG"
  Cat2DogIOMsg :: "nat option list"
  uiCliPutMsgIndex :: nat
  uiIoGetMsgIndex :: nat
  uiCliGetMsgIndex :: nat
  uiCliGetMsgNextIndex :: nat
  tidp :: nat
  pcap_handle :: "nat option"
  FunCallBack :: "callback option"
  effects :: "effect list"

text \<open>What the environment answers while a handler runs.\<close>

record environ =
  env_realloc :: "nat \<Rightarrow> nat \<Rightarrow> string option" \<comment> \<open>for the buffer of a cell\<close>
  env_malloc :: bool
  env_handle :: "nat option" \<comment> \<open>\<^verbatim>\<open>pcap_open_live\<close>\<close>
  env_compile :: bool \<comment> \<open>\<^verbatim>\<open>pcap_compile\<close> fills in the program\<close>
  env_setfilter :: int \<comment> \<open>\<^verbatim>\<open>pcap_setfilter\<close>\<close>
  env_ethernet :: bool \<comment> \<open>\<^verbatim>\<open>pcap_datalink\<close> is \<^verbatim>\<open>DLT_EN10MB\<close>\<close>
  env_create :: "nat option" \<comment> \<open>\<^verbatim>\<open>pthread_create\<close>: the new thread, or failure\<close>
  env_cancel :: int \<comment> \<open>\<^verbatim>\<open>pthread_cancel\<close>\<close>

definition upd_client :: "nat \<Rightarrow> (CLIENTINFO \<Rightarrow> CLIENTINFO) \<Rightarrow> dogstate \<Rightarrow> dogstate" where
  "upd_client c f s = s\<lparr>ClientInfo := (ClientInfo s)(c := f (ClientInfo s c))\<rparr>"

definition upd_cell :: "nat \<Rightarrow> (DOG2CATIOMSG \<Rightarrow> DOG2CATIOMSG) \<Rightarrow> dogstate \<Rightarrow> dogstate" where
  "upd_cell m f s = s\<lparr>cells := (cells s)(m := f (cells s m))\<rparr>"

definition log_effect :: "effect \<Rightarrow> dogstate \<Rightarrow> dogstate" where
  "log_effect e s = s\<lparr>effects := effects s @ [e]\<rparr>"

lemma upd_client_sel [simp]:
  "ClientInfo (upd_client c f s) = (ClientInfo s)(c := f (ClientInfo s c))"
  "lk (upd_client c f s) = lk s" "CuteDogs (upd_client c f s) = CuteDogs s"
  "cells (upd_client c f s) = cells s" "pFifoDogMsg (upd_client c f s) = pFifoDogMsg s"
  "pFifoDogMsgFree (upd_client c f s) = pFifoDogMsgFree s" "effects (upd_client c f s) = effects s"
  "tidp (upd_client c f s) = tidp s" "dog_count (upd_client c f s) = dog_count s"
  by (simp_all add: upd_client_def)

lemma upd_cell_sel [simp]:
  "cells (upd_cell m f s) = (cells s)(m := f (cells s m))"
  "lk (upd_cell m f s) = lk s" "CuteDogs (upd_cell m f s) = CuteDogs s"
  "ClientInfo (upd_cell m f s) = ClientInfo s" "pFifoDogMsg (upd_cell m f s) = pFifoDogMsg s"
  "pFifoDogMsgFree (upd_cell m f s) = pFifoDogMsgFree s" "effects (upd_cell m f s) = effects s"
  "tidp (upd_cell m f s) = tidp s" "dog_count (upd_cell m f s) = dog_count s"
  by (simp_all add: upd_cell_def)

lemma log_effect_sel [simp]:
  "cells (log_effect e s) = cells s" "lk (log_effect e s) = lk s"
  "CuteDogs (log_effect e s) = CuteDogs s" "ClientInfo (log_effect e s) = ClientInfo s"
  "pFifoDogMsg (log_effect e s) = pFifoDogMsg s" "pFifoDogMsgFree (log_effect e s) = pFifoDogMsgFree s"
  "effects (log_effect e s) = effects s @ [e]" "tidp (log_effect e s) = tidp s"
  "dog_count (log_effect e s) = dog_count s"
  by (simp_all add: log_effect_def)

section \<open>Message cells\<close>

text \<open>\<^verbatim>\<open>None\<close> inside the result is the NULL that is returned when the free ring is empty.\<close>

definition IoGetSendMsgCell :: "nat \<Rightarrow> dogstate \<Rightarrow> (nat option \<times> dogstate) option" where
  "IoGetSendMsgCell c s =
     (case FifoPop (pFifoDogMsgFree s) of (r, d, q) \<Rightarrow>
        if r = RET_FAIL then Some (None, s)
        else do {
          m \<leftarrow> d;
          Some (Some m, upd_cell m (\<lambda>x. x\<lparr>m_client := Some c,
            m_session := iSessionID (ClientInfo s c), m_stream := reset_stream (m_stream x)\<rparr>)
            (s\<lparr>pFifoDogMsgFree := q\<rparr>))
        })"

definition IoPutSendMsgCell :: "nat \<Rightarrow> dogstate \<Rightarrow> dogstate" where
  "IoPutSendMsgCell m s = s\<lparr>pFifoDogMsg := snd (FifoPush (pFifoDogMsg s) m)\<rparr>"

lemma IoPutSendMsgCell_sel [simp]:
  "lk (IoPutSendMsgCell m s) = lk s" "CuteDogs (IoPutSendMsgCell m s) = CuteDogs s"
  "ClientInfo (IoPutSendMsgCell m s) = ClientInfo s" "cells (IoPutSendMsgCell m s) = cells s"
  "dog_count (IoPutSendMsgCell m s) = dog_count s" "effects (IoPutSendMsgCell m s) = effects s"
  "tidp (IoPutSendMsgCell m s) = tidp s" "pFifoDogMsgFree (IoPutSendMsgCell m s) = pFifoDogMsgFree s"
  by (simp_all add: IoPutSendMsgCell_def)

definition push_cell_string :: "environ \<Rightarrow> nat \<Rightarrow> string \<Rightarrow> dogstate \<Rightarrow> dogstate option" where
  "push_cell_string env m str s = do {
     hs \<leftarrow> push_stream_string (env_realloc env m) str (m_stream (cells s m));
     Some (upd_cell m (\<lambda>x. x\<lparr>m_stream := hs\<rparr>) s)
   }"

text \<open>
  The sequence that ends every reply: take a cell for the client, return if there is none,
  write the text, queue the cell.  The flag says whether a cell was found.
\<close>

definition post :: "environ \<Rightarrow> nat \<Rightarrow> string \<Rightarrow> dogstate \<Rightarrow> (bool \<times> dogstate) option" where
  "post env c str s = do {
     x \<leftarrow> IoGetSendMsgCell c s;
     case fst x of
       None \<Rightarrow> Some (False, snd x)
     | Some m \<Rightarrow> do {
         s \<leftarrow> push_cell_string env m str (snd x);
         Some (True, IoPutSendMsgCell m s)
       }
   }"

section \<open>What a post does\<close>

definition rings_ok :: "dogstate \<Rightarrow> bool" where
  "rings_ok s \<longleftrightarrow> fifo_wf (pFifoDogMsg s) \<and> fifo_wf (pFifoDogMsgFree s)"

definition free_cells :: "dogstate \<Rightarrow> nat list" where
  "free_cells s = fifo_content (pFifoDogMsgFree s)"

definition queued_cells :: "dogstate \<Rightarrow> nat list" where
  "queued_cells s = fifo_content (pFifoDogMsg s)"

definition room_for :: "nat \<Rightarrow> dogstate \<Rightarrow> bool" where
  "room_for n s \<longleftrightarrow> length (queued_cells s) + n \<le> fifo_room (pFifoDogMsg s)"

text \<open>The buffer of a cell takes the text, without or with a reallocation, and holds it then.\<close>

definition takes :: "(nat \<Rightarrow> string option) \<Rightarrow> string \<Rightarrow> cstream \<Rightarrow> bool" where
  "takes ra str hs \<longleftrightarrow>
     (\<exists>hs'. push_stream_string ra str (reset_stream hs) = Some hs' \<and> get_stream_ptr hs' = Some str)"

lemma takes_short:
  assumes "stream_wf hs" "length str \<le> stream_size hs" "chunk_base hs + length str < length (chunk_block hs)"
    and "no_nul str"
  shows "takes ra str hs"
  using push_after_reset [OF assms] unfolding takes_def by blast

text \<open>The message in a cell, as its reader sees it.\<close>

definition cell_message :: "dogstate \<Rightarrow> nat \<Rightarrow> (nat option \<times> u32 \<times> string option)" where
  "cell_message s m = (m_client (cells s m), m_session (cells s m), get_stream_ptr (m_stream (cells s m)))"

text \<open>Everything that the cells and the rings are not part of.\<close>

definition same_rest :: "dogstate \<Rightarrow> dogstate \<Rightarrow> bool" where
  "same_rest s s' \<longleftrightarrow> lk s' = lk s \<and> ClientInfo s' = ClientInfo s \<and> CuteDogs s' = CuteDogs s
     \<and> effects s' = effects s \<and> tidp s' = tidp s \<and> dog_count s' = dog_count s"

lemma same_rest_refl [simp]: "same_rest s s"
  by (simp add: same_rest_def)

lemma same_rest_trans: "same_rest s t \<Longrightarrow> same_rest t u \<Longrightarrow> same_rest s u"
  by (simp add: same_rest_def)

lemma IoGetSendMsgCell_none:
  assumes "rings_ok s" "free_cells s = []"
  shows "IoGetSendMsgCell c s = Some (None, s)"
  using FifoPop_empty [of "pFifoDogMsgFree s"] assms
  by (simp add: IoGetSendMsgCell_def rings_ok_def free_cells_def)

lemma IoGetSendMsgCell_some:
  assumes "rings_ok s" "free_cells s = m # ms"
  shows "\<exists>s'. IoGetSendMsgCell c s = Some (Some m, s') \<and> rings_ok s' \<and> free_cells s' = ms
    \<and> pFifoDogMsg s' = pFifoDogMsg s \<and> same_rest s s'
    \<and> cells s' = (cells s)(m := (cells s m)\<lparr>m_client := Some c, m_session := iSessionID (ClientInfo s c),
        m_stream := reset_stream (m_stream (cells s m))\<rparr>)"
proof -
  obtain q where "FifoPop (pFifoDogMsgFree s) = (RET_OK, Some m, q)" "fifo_content q = ms" "fifo_wf q"
    using FifoPop_ok [of "pFifoDogMsgFree s" m ms] assms by (auto simp: rings_ok_def free_cells_def)
  then show ?thesis
    using assms by (simp add: IoGetSendMsgCell_def rings_ok_def free_cells_def same_rest_def)
qed

lemma IoPutSendMsgCell_ok:
  assumes "rings_ok s" "room_for 1 s"
  shows "rings_ok (IoPutSendMsgCell m s) \<and> free_cells (IoPutSendMsgCell m s) = free_cells s
    \<and> queued_cells (IoPutSendMsgCell m s) = queued_cells s @ [m]
    \<and> fifo_room (pFifoDogMsg (IoPutSendMsgCell m s)) = fifo_room (pFifoDogMsg s)
    \<and> cells (IoPutSendMsgCell m s) = cells s \<and> same_rest s (IoPutSendMsgCell m s)"
proof -
  obtain q where "FifoPush (pFifoDogMsg s) m = (RET_OK, q)" "fifo_content q = fifo_content (pFifoDogMsg s) @ [m]"
    "fifo_wf q" "fifo_room q = fifo_room (pFifoDogMsg s)"
    using FifoPush_ok [of "pFifoDogMsg s" m] assms by (auto simp: rings_ok_def room_for_def queued_cells_def)
  then show ?thesis
    using assms by (simp add: IoPutSendMsgCell_def rings_ok_def free_cells_def queued_cells_def same_rest_def)
qed

lemma post_none:
  assumes "rings_ok s" "free_cells s = []"
  shows "post env c str s = Some (False, s)"
  using IoGetSendMsgCell_none [OF assms, of c] by (simp add: post_def)

text \<open>A successful post moves the first free cell to the end of the message ring.\<close>

lemma post_some:
  assumes "rings_ok s" "free_cells s = m # ms" "room_for 1 s" "takes (env_realloc env m) str (m_stream (cells s m))"
  shows "\<exists>s'. post env c str s = Some (True, s') \<and> rings_ok s' \<and> free_cells s' = ms
    \<and> queued_cells s' = queued_cells s @ [m] \<and> fifo_room (pFifoDogMsg s') = fifo_room (pFifoDogMsg s)
    \<and> cell_message s' m = (Some c, iSessionID (ClientInfo s c), Some str)
    \<and> (\<forall>k. k \<noteq> m \<longrightarrow> cells s' k = cells s k) \<and> same_rest s s'"
proof -
  obtain s1 where s1: "IoGetSendMsgCell c s = Some (Some m, s1)" "rings_ok s1" "free_cells s1 = ms"
    "pFifoDogMsg s1 = pFifoDogMsg s" "same_rest s s1"
    "cells s1 = (cells s)(m := (cells s m)\<lparr>m_client := Some c, m_session := iSessionID (ClientInfo s c),
        m_stream := reset_stream (m_stream (cells s m))\<rparr>)"
    using IoGetSendMsgCell_some [OF assms(1,2)] by blast
  obtain hs where hs: "push_stream_string (env_realloc env m) str (reset_stream (m_stream (cells s m))) = Some hs"
    "get_stream_ptr hs = Some str"
    using assms(4) by (auto simp: takes_def)
  let ?s2 = "upd_cell m (\<lambda>x. x\<lparr>m_stream := hs\<rparr>) s1"
  have s2: "push_cell_string env m str s1 = Some ?s2" using s1(6) hs(1) by (simp add: push_cell_string_def)
  have ok2: "rings_ok ?s2" "room_for 1 ?s2" "free_cells ?s2 = ms" "queued_cells ?s2 = queued_cells s"
    "pFifoDogMsg ?s2 = pFifoDogMsg s" "same_rest s ?s2"
    using s1 assms(3) by (simp_all add: rings_ok_def room_for_def free_cells_def queued_cells_def same_rest_def)
  note put = IoPutSendMsgCell_ok [OF ok2(1,2), of m]
  have "post env c str s = Some (True, IoPutSendMsgCell m ?s2)" by (simp add: post_def s1(1) s2)
  moreover have "cell_message (IoPutSendMsgCell m ?s2) m = (Some c, iSessionID (ClientInfo s c), Some str)"
    using put s1(6) hs(2) by (simp add: cell_message_def)
  moreover have "\<forall>k. k \<noteq> m \<longrightarrow> cells (IoPutSendMsgCell m ?s2) k = cells s k" using put s1(6) by simp
  moreover have "same_rest s (IoPutSendMsgCell m ?s2)" using put ok2(6) same_rest_trans by blast
  ultimately show ?thesis using put ok2 by (intro exI [of _ "IoPutSendMsgCell m ?s2"]) simp
qed

section \<open>Sequences of posts\<close>

text \<open>
  The cells are numbered and the two rings hold each cell at most once, so the message ring
  has room for every free cell.
\<close>

definition pool_ok :: "dogstate \<Rightarrow> bool" where
  "pool_ok s \<longleftrightarrow> rings_ok s \<and> distinct (free_cells s)
     \<and> length (free_cells s) + length (queued_cells s) \<le> fifo_room (pFifoDogMsg s)"

definition cells_take :: "environ \<Rightarrow> string \<Rightarrow> dogstate \<Rightarrow> nat list \<Rightarrow> bool" where
  "cells_take env str s ms \<longleftrightarrow> (\<forall>m \<in> set ms. takes (env_realloc env m) str (m_stream (cells s m)))"

definition letters :: "dogstate \<Rightarrow> string \<Rightarrow> nat list \<Rightarrow> (nat option \<times> u32 \<times> string option) list" where
  "letters s str cs = map (\<lambda>c. (Some c, iSessionID (ClientInfo s c), Some str)) cs"

text \<open>The first free cells \<open>ms\<close> have become the last queued ones and hold these letters.\<close>

definition posted ::
  "dogstate \<Rightarrow> nat list \<Rightarrow> (nat option \<times> u32 \<times> string option) list \<Rightarrow> dogstate \<Rightarrow> bool" where
  "posted s ms ls s' \<longleftrightarrow> pool_ok s' \<and> free_cells s = ms @ free_cells s'
     \<and> queued_cells s' = queued_cells s @ ms \<and> map (cell_message s') ms = ls
     \<and> (\<forall>k. k \<notin> set ms \<longrightarrow> cells s' k = cells s k)"

lemma posted_refl: "pool_ok s \<Longrightarrow> posted s [] [] s"
  by (simp add: posted_def)

lemma pool_ok_lk [simp]: "pool_ok (s\<lparr>lk := h\<rparr>) = pool_ok s"
  by (simp add: pool_ok_def rings_ok_def free_cells_def queued_cells_def)

lemma pool_ok_upd_client [simp]: "pool_ok (upd_client c f s) = pool_ok s"
  by (simp add: pool_ok_def rings_ok_def free_cells_def queued_cells_def)

lemma posted_cong:
  "pFifoDogMsg t = pFifoDogMsg s' \<Longrightarrow> pFifoDogMsgFree t = pFifoDogMsgFree s' \<Longrightarrow> cells t = cells s' \<Longrightarrow>
     posted s ms ls t = posted s ms ls s'"
  by (simp add: posted_def pool_ok_def rings_ok_def free_cells_def queued_cells_def cell_message_def [abs_def])

lemma posted_lk [simp]:
  "posted s ms ls (s'\<lparr>lk := h\<rparr>) = posted s ms ls s'" "posted (s\<lparr>lk := h\<rparr>) ms ls s' = posted s ms ls s'"
  by (simp_all add: posted_def free_cells_def queued_cells_def cell_message_def [abs_def])

lemma posted_upd_client [simp]:
  "posted s ms ls (upd_client c f s') = posted s ms ls s'" "posted (upd_client c f s) ms ls s' = posted s ms ls s'"
  by (simp_all add: posted_def free_cells_def queued_cells_def cell_message_def [abs_def])

lemma posted_trans:
  assumes "posted s ms ls s1" "posted s1 ns ks s2" "pool_ok s"
  shows "posted s (ms @ ns) (ls @ ks) s2"
proof -
  have d: "distinct (ms @ ns)" using assms by (auto simp: posted_def pool_ok_def)
  then have "map (cell_message s2) ms = map (cell_message s1) ms"
    using assms(2) by (intro map_cong) (auto simp: posted_def cell_message_def)
  with assms show ?thesis by (simp add: posted_def)
qed

lemma post_posted:
  assumes "pool_ok s" "free_cells s = m # ms" "takes (env_realloc env m) str (m_stream (cells s m))"
  shows "\<exists>s'. post env c str s = Some (True, s') \<and> posted s [m] (letters s str [c]) s' \<and> same_rest s s'"
proof -
  have "rings_ok s" "room_for 1 s" using assms by (auto simp: pool_ok_def room_for_def)
  with post_some [OF _ assms(2) _ assms(3)] assms(1,2) show ?thesis
    by (fastforce simp: posted_def letters_def pool_ok_def)
qed

lemma post_exhausted:
  assumes "pool_ok s" "free_cells s = []"
  shows "post env c str s = Some (False, s)"
  using assms post_none by (simp add: pool_ok_def)

lemma cells_take_posted:
  assumes "posted s ms ls s'" "cells_take env str s (ms @ ns)" "pool_ok s" "free_cells s = ms @ ns @ rest"
  shows "cells_take env str s' ns"
proof -
  have "set ms \<inter> set ns = {}" using assms(3,4) by (auto simp: pool_ok_def)
  moreover have "\<forall>k. k \<notin> set ms \<longrightarrow> cells s' k = cells s k" using assms(1) by (simp add: posted_def)
  ultimately show ?thesis using assms(2) unfolding cells_take_def by (metis Un_iff disjoint_iff set_append)
qed

section \<open>The interface of the cells\<close>

text \<open>
  What the handlers rely on: a message that is sent takes the first free slot, and none is
  sent when there is no free slot.  Sending one text to several receivers then uses the free
  slots in order and stops when they run out.
\<close>

fun send_all :: "('c \<Rightarrow> 'm \<Rightarrow> 's \<Rightarrow> (bool \<times> 's) option) \<Rightarrow> 'c list \<Rightarrow> 'm \<Rightarrow> 's \<Rightarrow> (bool \<times> 's) option" where
  "send_all send [] m s = Some (True, s)"
| "send_all send (c # cs) m s =
     do { x \<leftarrow> send c m s; if fst x then send_all send cs m (snd x) else Some x }"

locale mailbox =
  fixes send :: "'c \<Rightarrow> 'm \<Rightarrow> 's \<Rightarrow> (bool \<times> 's) option"
    and inv :: "'s \<Rightarrow> bool"
    and slots :: "'s \<Rightarrow> nat list"
    and fits :: "'m \<Rightarrow> 's \<Rightarrow> nat list \<Rightarrow> bool"
    and outcome :: "'s \<Rightarrow> nat list \<Rightarrow> ('c \<times> 'm) list \<Rightarrow> 's \<Rightarrow> bool"
  assumes send_none: "inv s \<Longrightarrow> slots s = [] \<Longrightarrow> send c m s = Some (False, s)"
    and send_some: "inv s \<Longrightarrow> slots s = x # xs \<Longrightarrow> fits m s [x] \<Longrightarrow>
      \<exists>s'. send c m s = Some (True, s') \<and> outcome s [x] [(c, m)] s'"
    and outcome_inv: "outcome s xs ls s' \<Longrightarrow> inv s' \<and> slots s = xs @ slots s'"
    and outcome_refl: "inv s \<Longrightarrow> outcome s [] [] s"
    and outcome_trans: "inv s \<Longrightarrow> outcome s xs ls s1 \<Longrightarrow> outcome s1 ys ks s2 \<Longrightarrow> outcome s (xs @ ys) (ls @ ks) s2"
    and fits_head: "fits m s (x # xs) \<Longrightarrow> fits m s [x]"
    and fits_tail: "inv s \<Longrightarrow> fits m s (x # xs) \<Longrightarrow> outcome s [x] ls s' \<Longrightarrow> set xs \<subseteq> set (slots s') \<Longrightarrow> fits m s' xs"
begin

lemma send_each:
  "inv s \<Longrightarrow> fits m s (take (length cs) (slots s)) \<Longrightarrow>
     \<exists>s'. send_all send cs m s = Some (length cs \<le> length (slots s), s')
       \<and> outcome s (take (length cs) (slots s)) (map (\<lambda>c. (c, m)) (take (length (slots s)) cs)) s'"
proof (induction cs arbitrary: s)
  case Nil
  then show ?case by (auto intro: outcome_refl)
next
  case (Cons c cs)
  show ?case
  proof (cases "slots s")
    case Nil
    with Cons.prems show ?thesis by (auto simp: send_none intro: outcome_refl)
  next
    case slots: (Cons x xs)
    with Cons.prems have "fits m s (x # take (length cs) xs)" by simp
    note f = this
    obtain s1 where s1: "send c m s = Some (True, s1)" "outcome s [x] [(c, m)] s1"
      using send_some [OF Cons.prems(1) slots fits_head [OF f]] by blast
    have sl: "inv s1" "slots s1 = xs" using outcome_inv [OF s1(2)] slots by auto
    have "fits m s1 (take (length cs) xs)"
      using fits_tail [OF Cons.prems(1) f s1(2)] sl(2) set_take_subset [of "length cs" xs] by simp
    then obtain s2 where s2: "send_all send cs m s1 = Some (length cs \<le> length xs, s2)"
      "outcome s1 (take (length cs) xs) (map (\<lambda>c. (c, m)) (take (length xs) cs)) s2"
      using Cons.IH [of s1] sl by auto
    show ?thesis
      using s1(1) s2(1) outcome_trans [OF Cons.prems(1) s1(2) s2(2)] slots by auto
  qed
qed

end

definition delivered :: "dogstate \<Rightarrow> nat list \<Rightarrow> (nat \<times> string) list \<Rightarrow> dogstate \<Rightarrow> bool" where
  "delivered s ms ls s' \<longleftrightarrow>
     posted s ms (map (\<lambda>(c, str). (Some c, iSessionID (ClientInfo s c), Some str)) ls) s' \<and> same_rest s s'"

interpretation mail: mailbox "post env" pool_ok free_cells "\<lambda>str s. cells_take env str s" delivered for env
proof
  fix s s' s1 s2 :: dogstate and c x :: nat and m :: string and xs ys ls ks
  show "pool_ok s \<Longrightarrow> free_cells s = [] \<Longrightarrow> post env c m s = Some (False, s)"
    by (rule post_exhausted)
  show "\<exists>s'. post env c m s = Some (True, s') \<and> delivered s [x] [(c, m)] s'"
    if "pool_ok s" "free_cells s = x # xs" "cells_take env m s [x]"
    using post_posted [OF that(1,2), of env m c] that(3) by (auto simp: cells_take_def delivered_def letters_def)
  show "pool_ok s' \<and> free_cells s = xs @ free_cells s'" if "delivered s xs ls s'"
    using that by (simp add: delivered_def posted_def)
  show "pool_ok s \<Longrightarrow> delivered s [] [] s" by (simp add: delivered_def posted_refl)
  show "delivered s (xs @ ys) (ls @ ks) s2"
    if "pool_ok s" "delivered s xs ls s1" "delivered s1 ys ks s2"
  proof -
    have "ClientInfo s1 = ClientInfo s" using that(2) by (simp add: delivered_def same_rest_def)
    then show ?thesis
      using that posted_trans [of s xs _ s1 ys _ s2] same_rest_trans by (auto simp: delivered_def)
  qed
  show "cells_take env m s (x # xs) \<Longrightarrow> cells_take env m s [x]" by (simp add: cells_take_def)
  show "cells_take env m s' xs"
    if "pool_ok s" "cells_take env m s (x # xs)" "delivered s [x] ls s'" "set xs \<subseteq> set (free_cells s')"
  proof -
    have "x \<notin> set xs" using that by (auto simp: delivered_def posted_def pool_ok_def)
    then show ?thesis using that(2,3) by (auto simp: cells_take_def delivered_def posted_def)
  qed
qed

end
