(* ===== verification/DogLists.thy ===== *)
theory DogLists
  imports DogState
begin

text \<open>
  The lists of the server, \<^verbatim>\<open>src/CuteDog/cdogEar.c\<close>: the running cutedogs, the clients
  hooked to each of them, and the broadcast of the filter list.  The loops are the macros of
  theory \<open>LinkedList\<close> run on the whole server state; \<open>shape\<close> relates a state to the lists
  it stores, and each operation is shown to be the corresponding operation on those lists.
\<close>

section \<open>Objects of the embedded nodes\<close>

fun dog_of :: "node \<Rightarrow> nat option" where \<comment> \<open>\<^verbatim>\<open>list_entry(n, CUTEDOG, list)\<close>\<close>
  "dog_of (Dog d) = Some d" | "dog_of _ = None"

fun client_of :: "node \<Rightarrow> nat option" where \<comment> \<open>\<^verbatim>\<open>list_entry(n, CLIENTINFO, list)\<close>\<close>
  "client_of (Cli c) = Some c" | "client_of _ = None"

fun hooker_of :: "node \<Rightarrow> nat option" where \<comment> \<open>\<^verbatim>\<open>list_entry(n, CLIENTINFO, list1)\<close>\<close>
  "hooker_of (CliHook c) = Some c" | "hooker_of _ = None"

section \<open>The operations\<close>

definition Row :: "CUTEDOG \<Rightarrow> string" where \<comment> \<open>\<^verbatim>\<open>char Row[128]\<close>\<close>
  "Row dog = snprintf_str 128
     (''<name>'' @ d_Name dog @ ''</name><filterstring>'' @ d_Filter dog @ ''</filterstring>'')"

text \<open>
  The loop runs on the state and the contents of the caller's buffer; its write position
  advances by \<^verbatim>\<open>pos\<close>, which is never set.
\<close>

definition GetAllCuteDogsFilterString :: "nat \<Rightarrow> dogstate \<Rightarrow> string option" where
  "GetAllCuteDogsFilterString sz s =
     (if list_notempty DogHd (lk s)
      then do {
        r \<leftarrow> for_each (\<lambda>x. lk (fst x)) DogHd
          (\<lambda>n x. do {
             d \<leftarrow> dog_of n;
             dog \<leftarrow> CuteDogs (fst x) d;
             let pos = 0;
             Some (False, (fst x, snprintf_str (sz - pos) (Row dog)))
           }) (s, '''');
        Some (snd (snd r))
      }
      else Some '''')"

definition broadcast_body :: "string \<Rightarrow> string" where
  "broadcast_body Rows =
     (if Rows \<noteq> [] then snprintf_str (1024 + 128)
        (''<iq type='result'><query xmlns='filter:show'>'' @ Rows @ ''</query></iq>'')
      else ''<iq type='result'><query xmlns='filter:show' ></query></iq>'')"

definition broadcast_step :: "environ \<Rightarrow> string \<Rightarrow> node \<Rightarrow> dogstate \<Rightarrow> (bool \<times> dogstate) option" where
  "broadcast_step env Body n s = do {
     c \<leftarrow> client_of n;
     x \<leftarrow> IoGetSendMsgCell c s;
     case fst x of
       None \<Rightarrow> Some (True, snd x)
     | Some m \<Rightarrow> do { y \<leftarrow> post env c Body (snd x); Some (\<not> fst y, snd y) }
   }"

definition CuteDogBroadCast :: "environ \<Rightarrow> dogstate \<Rightarrow> dogstate option" where
  "CuteDogBroadCast env s = do {
     Rows \<leftarrow> GetAllCuteDogsFilterString 1024 s;
     let Body = broadcast_body Rows;
     if list_notempty WorkHd (lk s)
     then do {
       r \<leftarrow> for_each_safe lk WorkHd (broadcast_step env Body) s;
       Some (snd r)
     }
     else Some s
   }"

text \<open>A NULL string is \<^term>\<open>None\<close>; the flag is the returned 1 or 0.\<close>

definition AddHooker2CuteDog :: "string option \<Rightarrow> nat \<Rightarrow> dogstate \<Rightarrow> (bool \<times> dogstate) option" where
  "AddHooker2CuteDog CuteDogName c s =
     (case CuteDogName of
        None \<Rightarrow> Some (False, s)
      | Some name \<Rightarrow>
          if list_notempty DogHd (lk s)
          then for_each lk DogHd
            (\<lambda>n s. do {
               d \<leftarrow> dog_of n;
               dog \<leftarrow> CuteDogs s d;
               if name = d_Name dog
               then do {
                 h \<leftarrow> list_add (CliHook c) (HookHd d) (lk s);
                 Some (True, upd_client c (\<lambda>x. x\<lparr>CuteDog := Some d\<rparr>) (s\<lparr>lk := h\<rparr>))
               }
               else Some (False, s)
             }) s
          else Some (False, s))"

definition DelHookerInCuteDog :: "nat \<Rightarrow> dogstate \<Rightarrow> (bool \<times> dogstate) option" where
  "DelHookerInCuteDog c s =
     (if list_notempty DogHd (lk s)
      then for_each_safe lk DogHd
        (\<lambda>n s. do {
           d \<leftarrow> dog_of n;
           dog \<leftarrow> CuteDogs s d;
           if list_notempty (HookHd d) (lk s)
           then for_each_safe lk (HookHd d)
             (\<lambda>n1 s. do {
                c1 \<leftarrow> hooker_of n1;
                if c1 = c
                then do { h \<leftarrow> list_del (CliHook c) (lk s); Some (True, s\<lparr>lk := h\<rparr>) }
                else Some (False, s)
              }) s
           else Some (False, s)
         }) s
      else Some (False, s))"

definition lose_message :: "CUTEDOG \<Rightarrow> string" where
  "lose_message dog = snprintf_str 512
     (''<iq type='set'><query xmlns='filter:notice' action='lose'><username>'' @ d_Name dog
        @ ''</username></query></iq>'')"

text \<open>Here the loop is left by \<^verbatim>\<open>return 0\<close>, so the flags are opposite.\<close>

definition lose_step :: "environ \<Rightarrow> nat \<Rightarrow> node \<Rightarrow> dogstate \<Rightarrow> (bool \<times> dogstate) option" where
  "lose_step env d n s = do {
     c \<leftarrow> hooker_of n;
     dog \<leftarrow> CuteDogs s d;
     x \<leftarrow> post env c (lose_message dog) s;
     if \<not> fst x then Some (True, snd x)
     else do { h \<leftarrow> list_del (CliHook c) (lk (snd x)); Some (False, (snd x)\<lparr>lk := h\<rparr>) }
   }"

definition DelHookersWithCuteDog :: "environ \<Rightarrow> nat \<Rightarrow> dogstate \<Rightarrow> (bool \<times> dogstate) option" where
  "DelHookersWithCuteDog env d s = do {
     dog \<leftarrow> CuteDogs s d;
     if list_notempty (HookHd d) (lk s)
     then do {
       r \<leftarrow> for_each_safe lk (HookHd d) (lose_step env d) s;
       Some (\<not> fst r, snd r)
     }
     else Some (True, s)
   }"

text \<open>After \<^verbatim>\<open>free\<close> neither the cutedog nor the list nodes inside it can be used.\<close>

definition free_dog :: "nat \<Rightarrow> dogstate \<Rightarrow> dogstate" where
  "free_dog d s = s\<lparr>CuteDogs := (CuteDogs s)(d := None),
     lk := set_nxt (HookHd d) None (set_prv (HookHd d) None (lk s))\<rparr>"

definition DelCuteDogInList :: "environ \<Rightarrow> nat \<Rightarrow> dogstate \<Rightarrow> (bool \<times> dogstate) option" where
  "DelCuteDogInList env c s =
     (case CuteDog (ClientInfo s c) of
        None \<Rightarrow> Some (False, s)
      | Some d \<Rightarrow> do {
          x \<leftarrow> DelHookersWithCuteDog env d s;
          h \<leftarrow> list_del (Dog d) (lk (snd x));
          Some (True, upd_client c (\<lambda>x. x\<lparr>CuteDog := None\<rparr>) (free_dog d ((snd x)\<lparr>lk := h\<rparr>)))
        })"

text \<open>
  \<^verbatim>\<open>memset\<close> of a NULL block and \<^verbatim>\<open>strncpy\<close> from a NULL name are undefined.
\<close>

definition AddCuteDog2List ::
  "environ \<Rightarrow> nat option \<Rightarrow> string option \<Rightarrow> string \<Rightarrow> nat \<Rightarrow> dogstate \<Rightarrow> (nat option \<times> dogstate) option" where
  "AddCuteDog2List env Handle Name FilterStr c s =
     (case Handle of
        None \<Rightarrow> Some (None, s)
      | Some hnd \<Rightarrow>
          if \<not> env_malloc env then None
          else do {
            name \<leftarrow> Name;
            let d = dog_count s;
            let dog = \<lparr>d_Name = strncpy_str 31 name, d_Filter = strncpy_str 255 FilterStr, d_Master = c,
              d_Thid = True, d_Handle = Some hnd\<rparr>;
            h \<leftarrow> list_add (Dog d) DogHd (lk s);
            Some (Some d, upd_client c (\<lambda>x. x\<lparr>CuteDog := Some d\<rparr>)
              (s\<lparr>CuteDogs := (CuteDogs s)(d := Some dog), dog_count := Suc d,
                 lk := INIT_LIST_HEAD (HookHd d) h\<rparr>))
          })"

definition CheckNameInList :: "string \<Rightarrow> dogstate \<Rightarrow> bool option" where
  "CheckNameInList Name s =
     (if list_notempty DogHd (lk s)
      then do {
        r \<leftarrow> for_each lk DogHd
          (\<lambda>n s. do {
             d \<leftarrow> dog_of n;
             dog \<leftarrow> CuteDogs s d;
             Some (Name = d_Name dog, s)
           }) s;
        Some (fst r)
      }
      else Some False)"

section \<open>The lists of a state\<close>

record kennel =
  k_dogs :: "nat list"
  k_hook :: "nat \<Rightarrow> nat list"
  k_work :: "nat list"
  k_free :: "nat list"
  k_send :: "nat \<Rightarrow> nat list"

definition dogs_shape :: "node links \<Rightarrow> kennel \<Rightarrow> bool" where
  "dogs_shape h k \<longleftrightarrow> is_list h DogHd (map Dog (k_dogs k))"

definition hooks_shape :: "node links \<Rightarrow> kennel \<Rightarrow> bool" where
  "hooks_shape h k \<longleftrightarrow> (\<forall>d \<in> set (k_dogs k). is_list h (HookHd d) (map CliHook (k_hook k d)))
     \<and> (\<forall>d \<in> set (k_dogs k). \<forall>e \<in> set (k_dogs k). d \<noteq> e \<longrightarrow> set (k_hook k d) \<inter> set (k_hook k e) = {})"

definition clients_shape :: "node links \<Rightarrow> kennel \<Rightarrow> bool" where
  "clients_shape h k \<longleftrightarrow> is_list h WorkHd (map Cli (k_work k)) \<and> is_list h FreeHd (map Cli (k_free k))
     \<and> set (k_work k) \<inter> set (k_free k) = {}"

definition sends_shape :: "node links \<Rightarrow> kennel \<Rightarrow> bool" where
  "sends_shape h k \<longleftrightarrow> (\<forall>c < CLIENTNUM. is_list h (SendHd c) (map Cell (k_send k c)))
     \<and> (\<forall>c < CLIENTNUM. \<forall>e < CLIENTNUM. c \<noteq> e \<longrightarrow> set (k_send k c) \<inter> set (k_send k e) = {})"

text \<open>Linked cutedogs are allocated, and numbered below the allocation counter.\<close>

definition shape :: "dogstate \<Rightarrow> kennel \<Rightarrow> bool" where
  "shape s k \<longleftrightarrow> dogs_shape (lk s) k \<and> hooks_shape (lk s) k \<and> clients_shape (lk s) k \<and> sends_shape (lk s) k
     \<and> (\<forall>d \<in> set (k_dogs k). CuteDogs s d \<noteq> None \<and> d < dog_count s)"

text \<open>A linked cutedog.\<close>

definition dog_at :: "dogstate \<Rightarrow> nat \<Rightarrow> CUTEDOG" where
  "dog_at s d = the (CuteDogs s d)"

definition dog_nodes :: "node set" where "dog_nodes = insert DogHd (range Dog)"
definition hook_nodes :: "node set" where "hook_nodes = range HookHd \<union> range CliHook"
definition client_nodes :: "node set" where "client_nodes = {FreeHd, WorkHd} \<union> range Cli"
definition send_nodes :: "node set" where "send_nodes = range SendHd \<union> range Cell"

lemmas node_sets = dog_nodes_def hook_nodes_def client_nodes_def send_nodes_def

lemma same_list:
  "same_links A h h' \<Longrightarrow> set (head # xs) \<subseteq> A \<Longrightarrow> is_list h head xs \<Longrightarrow> is_list h' head xs"
  by (erule is_list_frame) (auto simp: same_links_def)

lemma dogs_shape_frame:
  assumes "dogs_shape h k" "same_links dog_nodes h h'"
  shows "dogs_shape h' k"
  using assms(1) unfolding dogs_shape_def
  by (auto simp: node_sets intro!: same_list [OF assms(2)])

lemma hooks_shape_frame:
  assumes "hooks_shape h k" "same_links hook_nodes h h'"
  shows "hooks_shape h' k"
  using assms(1) unfolding hooks_shape_def
  by (auto simp: node_sets intro!: same_list [OF assms(2)])

lemma clients_shape_frame:
  assumes "clients_shape h k" "same_links client_nodes h h'"
  shows "clients_shape h' k"
  using assms(1) unfolding clients_shape_def
  by (auto simp: node_sets intro!: same_list [OF assms(2)])

lemma sends_shape_frame:
  assumes "sends_shape h k" "same_links send_nodes h h'"
  shows "sends_shape h' k"
  using assms(1) unfolding sends_shape_def
  by (auto simp: node_sets intro!: same_list [OF assms(2)])

lemma same_links_refl [simp]: "same_links A h h"
  by (simp add: same_links_def)

lemma shape_frame:
  "shape s k \<Longrightarrow> lk s' = lk s \<Longrightarrow> CuteDogs s' = CuteDogs s \<Longrightarrow> dog_count s' = dog_count s \<Longrightarrow> shape s' k"
  by (simp add: shape_def)

lemma shape_same_rest: "same_rest s s' \<Longrightarrow> shape s k \<Longrightarrow> shape s' k"
  by (simp add: shape_def same_rest_def)

lemma shape_upd_client [simp]: "shape (upd_client c f s) k = shape s k"
  by (simp add: shape_def)

section \<open>The loops that only read\<close>

lemma dogs_loop:
  assumes "shape s k"
  shows "is_list (lk s) DogHd (map Dog (k_dogs k))" "list_notempty DogHd (lk s) \<longleftrightarrow> k_dogs k \<noteq> []"
  using assms is_list_notempty_iff [of "lk s" DogHd "map Dog (k_dogs k)"]
  by (auto simp: shape_def dogs_shape_def)

lemma hooks_loop:
  assumes "shape s k" "d \<in> set (k_dogs k)"
  shows "is_list (lk s) (HookHd d) (map CliHook (k_hook k d))"
    "list_notempty (HookHd d) (lk s) \<longleftrightarrow> k_hook k d \<noteq> []"
  using assms is_list_notempty_iff [of "lk s" "HookHd d" "map CliHook (k_hook k d)"]
  by (auto simp: shape_def hooks_shape_def)

lemma work_loop:
  assumes "shape s k"
  shows "is_list (lk s) WorkHd (map Cli (k_work k))" "list_notempty WorkHd (lk s) \<longleftrightarrow> k_work k \<noteq> []"
  using assms is_list_notempty_iff [of "lk s" WorkHd "map Cli (k_work k)"]
  by (auto simp: shape_def clients_shape_def)

lemma linked_dog: "shape s k \<Longrightarrow> d \<in> set (k_dogs k) \<Longrightarrow> CuteDogs s d = Some (dog_at s d)"
  by (auto simp: shape_def dog_at_def)

lemma hooks_disjoint:
  "shape s k \<Longrightarrow> e \<in> set (k_dogs k) \<Longrightarrow> d \<in> set (k_dogs k) \<Longrightarrow> e \<noteq> d \<Longrightarrow>
     set (k_hook k e) \<inter> set (k_hook k d) = {}"
  by (simp add: shape_def hooks_shape_def)

text \<open>The first linked cutedog of that name, in list order.\<close>

definition named :: "dogstate \<Rightarrow> string \<Rightarrow> nat list \<Rightarrow> nat option" where
  "named s name ds = find (\<lambda>d. name = d_Name (dog_at s d)) ds"

lemma CheckNameInList_shape:
  assumes "shape s k"
  shows "CheckNameInList Name s = Some (named s Name (k_dogs k) \<noteq> None)"
proof -
  let ?body = "\<lambda>n s. do { d \<leftarrow> dog_of n; dog \<leftarrow> CuteDogs s d; Some (Name = d_Name dog, s) }"
  have r: "run_body ?body (map Dog ds) s = Some (named s Name ds \<noteq> None, s)" if "set ds \<subseteq> set (k_dogs k)" for ds
    using that by (induction ds) (auto simp: named_def linked_dog [OF assms])
  have "for_each lk DogHd ?body s = run_body ?body (map Dog (k_dogs k)) s"
    by (rule for_each_run [where P = "\<lambda>_ _. True"])
      (auto simp: dogs_loop(1) [OF assms] split: Option.bind_splits)
  then show ?thesis
    using r [of "k_dogs k"] dogs_loop(2) [OF assms]
    by (auto simp: CheckNameInList_def named_def)
qed

text \<open>
  The filter string is the row of the last cutedog of the list alone: every row is written to
  the start of the buffer.
\<close>

lemma GetAllCuteDogsFilterString_shape:
  assumes "shape s k"
  shows "GetAllCuteDogsFilterString sz s =
    Some (if k_dogs k = [] then [] else snprintf_str sz (Row (dog_at s (last (k_dogs k)))))"
proof -
  let ?body = "\<lambda>n x. do { d \<leftarrow> dog_of n; dog \<leftarrow> CuteDogs (fst x) d; let pos = 0;
      Some (False, (fst x, snprintf_str (sz - pos) (Row dog))) }"
  have r: "run_body ?body (map Dog ds) (s, f) =
      Some (False, (s, if ds = [] then f else snprintf_str sz (Row (dog_at s (last ds)))))"
    if "set ds \<subseteq> set (k_dogs k)" for ds f
    using that by (induction ds arbitrary: f) (auto simp: linked_dog [OF assms])
  have "for_each (\<lambda>x. lk (fst x)) DogHd ?body (s, '''') = run_body ?body (map Dog (k_dogs k)) (s, '''')"
    by (rule for_each_run [where P = "\<lambda>_ _. True"]) (auto simp: dogs_loop(1) [OF assms] split: Option.bind_splits)
  then show ?thesis
    using r [of "k_dogs k" "''''"] dogs_loop(2) [OF assms]
    by (auto simp: GetAllCuteDogsFilterString_def)
qed

section \<open>Hooking\<close>

lemma AddHooker2CuteDog_loop:
  assumes "shape s k"
  shows "AddHooker2CuteDog (Some name) c s =
    (case named s name (k_dogs k) of
       None \<Rightarrow> Some (False, s)
     | Some d \<Rightarrow> do {
         h \<leftarrow> list_add (CliHook c) (HookHd d) (lk s);
         Some (True, upd_client c (\<lambda>x. x\<lparr>CuteDog := Some d\<rparr>) (s\<lparr>lk := h\<rparr>))
       })"
proof -
  let ?body = "\<lambda>n s. do {
      d \<leftarrow> dog_of n; dog \<leftarrow> CuteDogs s d;
      if name = d_Name dog
      then do { h \<leftarrow> list_add (CliHook c) (HookHd d) (lk s);
        Some (True, upd_client c (\<lambda>x. x\<lparr>CuteDog := Some d\<rparr>) (s\<lparr>lk := h\<rparr>)) }
      else Some (False, s) }"
  have r: "run_body ?body (map Dog ds) s =
    (case named s name ds of
       None \<Rightarrow> Some (False, s)
     | Some d \<Rightarrow> do {
         h \<leftarrow> list_add (CliHook c) (HookHd d) (lk s);
         Some (True, upd_client c (\<lambda>x. x\<lparr>CuteDog := Some d\<rparr>) (s\<lparr>lk := h\<rparr>))
       })" if "set ds \<subseteq> set (k_dogs k)" for ds
    using that by (induction ds) (auto simp: named_def linked_dog [OF assms] split: Option.bind_splits)
  have "for_each lk DogHd ?body s = run_body ?body (map Dog (k_dogs k)) s"
    by (rule for_each_run [where P = "\<lambda>_ _. True"])
      (auto simp: dogs_loop(1) [OF assms] split: Option.bind_splits if_splits)
  then show ?thesis
    using r [of "k_dogs k"] dogs_loop(2) [OF assms]
    by (auto simp: AddHooker2CuteDog_def named_def)
qed

lemma named_in: "named s name ds = Some d \<Longrightarrow> d \<in> set ds \<and> d_Name (dog_at s d) = name"
  by (auto simp: named_def find_Some_iff in_set_conv_nth)

text \<open>A change of the hookers of one cutedog, by links of that list only.\<close>

lemma shape_rehook:
  assumes sh: "shape s k" and d: "d \<in> set (k_dogs k)"
    and l: "is_list h (HookHd d) (map CliHook cs)"
    and same: "same_links (- insert (HookHd d) (CliHook ` X)) (lk s) h"
    and X: "set cs \<subseteq> X" "\<And>e. e \<in> set (k_dogs k) \<Longrightarrow> e \<noteq> d \<Longrightarrow> X \<inter> set (k_hook k e) = {}"
  shows "shape (s\<lparr>lk := h\<rparr>) (k\<lparr>k_hook := (k_hook k)(d := cs)\<rparr>)"
proof -
  have a: "same_links A (lk s) h" if "A \<inter> insert (HookHd d) (CliHook ` X) = {}" for A
    using same that unfolding same_links_def by blast
  have other: "is_list h (HookHd e) (map CliHook (k_hook k e))" if e: "e \<in> set (k_dogs k)" "e \<noteq> d" for e
  proof (rule same_list [OF a _ hooks_loop(1) [OF sh e(1)]])
    show "set (HookHd e # map CliHook (k_hook k e)) \<inter> insert (HookHd d) (CliHook ` X) = {}"
      using X(2) [OF e] e(2) by auto
  qed simp
  let ?k = "k\<lparr>k_hook := (k_hook k)(d := cs)\<rparr>"
  show ?thesis unfolding shape_def
  proof (intro conjI)
    show "dogs_shape (lk (s\<lparr>lk := h\<rparr>)) ?k"
      using sh dogs_shape_frame [OF _ a] by (auto simp: shape_def dogs_shape_def node_sets)
    show "clients_shape (lk (s\<lparr>lk := h\<rparr>)) ?k"
      using sh clients_shape_frame [OF _ a] by (auto simp: shape_def clients_shape_def node_sets)
    show "sends_shape (lk (s\<lparr>lk := h\<rparr>)) ?k"
      using sh sends_shape_frame [OF _ a] by (auto simp: shape_def sends_shape_def node_sets)
    show "hooks_shape (lk (s\<lparr>lk := h\<rparr>)) ?k"
      using sh l other X by (fastforce simp: shape_def hooks_shape_def)
  qed (use sh in \<open>auto simp: shape_def\<close>)
qed

lemma AddHooker2CuteDog_shape:
  assumes sh: "shape s k" and d: "named s name (k_dogs k) = Some d"
    and c: "\<forall>e \<in> set (k_dogs k). c \<notin> set (k_hook k e)"
  shows "\<exists>h. AddHooker2CuteDog (Some name) c s
      = Some (True, upd_client c (\<lambda>x. x\<lparr>CuteDog := Some d\<rparr>) (s\<lparr>lk := h\<rparr>))
    \<and> shape (s\<lparr>lk := h\<rparr>) (k\<lparr>k_hook := (k_hook k)(d := c # k_hook k d)\<rparr>)"
proof -
  have din: "d \<in> set (k_dogs k)" using named_in [OF d] by simp
  note l = hooks_loop(1) [OF sh din]
  have "CliHook c \<notin> set (HookHd d # map CliHook (k_hook k d))" using c din by auto
  from list_add_is_list [OF l this] obtain h where
    h: "list_add (CliHook c) (HookHd d) (lk s) = Some h" "is_list h (HookHd d) (CliHook c # map CliHook (k_hook k d))"
    and f: "\<And>y. y \<notin> set (CliHook c # HookHd d # map CliHook (k_hook k d)) \<Longrightarrow> nxt h y = nxt (lk s) y \<and> prv h y = prv (lk s) y"
    by blast
  have "shape (s\<lparr>lk := h\<rparr>) (k\<lparr>k_hook := (k_hook k)(d := c # k_hook k d)\<rparr>)"
  proof (rule shape_rehook [OF sh din, where X = "insert c (set (k_hook k d))"])
    show "same_links (- insert (HookHd d) (CliHook ` insert c (set (k_hook k d)))) (lk s) h"
      using f by (auto simp: same_links_def)
  qed (use h(2) c hooks_disjoint [OF sh _ din] in auto)
  then show ?thesis using AddHooker2CuteDog_loop [OF sh, of name c] d h(1) by auto
qed

lemma AddHooker2CuteDog_unknown:
  "shape s k \<Longrightarrow> named s name (k_dogs k) = None \<Longrightarrow> AddHooker2CuteDog (Some name) c s = Some (False, s)"
  by (simp add: AddHooker2CuteDog_loop)

section \<open>Unhooking\<close>

lemma unhook_loop:
  assumes "shape s k" "d \<in> set (k_dogs k)"
  shows "for_each_safe lk (HookHd d)
     (\<lambda>n1 s. do { c1 \<leftarrow> hooker_of n1;
        if c1 = c then do { h \<leftarrow> list_del (CliHook c) (lk s); Some (True, s\<lparr>lk := h\<rparr>) } else Some (False, s) }) s
   = (if c \<in> set (k_hook k d) then do { h \<leftarrow> list_del (CliHook c) (lk s); Some (True, s\<lparr>lk := h\<rparr>) }
      else Some (False, s))" (is "for_each_safe _ _ ?body _ = _")
proof -
  have "for_each_safe lk (HookHd d) ?body s = run_body ?body (map CliHook (k_hook k d)) s"
    by (rule for_each_safe_run [where P = "\<lambda>_ _. True"])
      (auto simp: hooks_loop(1) [OF assms] split: Option.bind_splits if_splits)
  also have "run_body ?body (map CliHook cs) s
    = (if c \<in> set cs then do { h \<leftarrow> list_del (CliHook c) (lk s); Some (True, s\<lparr>lk := h\<rparr>) } else Some (False, s))" for cs
    by (induction cs) (auto split: Option.bind_splits)
  finally show ?thesis .
qed

lemma DelHookerInCuteDog_loop:
  assumes "shape s k"
  shows "DelHookerInCuteDog c s =
    (if \<exists>d \<in> set (k_dogs k). c \<in> set (k_hook k d)
     then do { h \<leftarrow> list_del (CliHook c) (lk s); Some (True, s\<lparr>lk := h\<rparr>) }
     else Some (False, s))"
proof -
  let ?inner = "\<lambda>n1 s. do { c1 \<leftarrow> hooker_of n1;
        if c1 = c then do { h \<leftarrow> list_del (CliHook c) (lk s); Some (True, s\<lparr>lk := h\<rparr>) } else Some (False, s) }"
  let ?body = "\<lambda>n s. do { d \<leftarrow> dog_of n; dog \<leftarrow> CuteDogs s d;
      if list_notempty (HookHd d) (lk s) then for_each_safe lk (HookHd d) ?inner s else Some (False, s) }"
  have b: "?body (Dog d) s = (if c \<in> set (k_hook k d)
      then do { h \<leftarrow> list_del (CliHook c) (lk s); Some (True, s\<lparr>lk := h\<rparr>) } else Some (False, s))"
    if "d \<in> set (k_dogs k)" for d
    using that linked_dog [OF assms that] hooks_loop(2) [OF assms that] unhook_loop [OF assms that, of c] by auto
  have r: "run_body ?body (map Dog ds) s =
    (if \<exists>d \<in> set ds. c \<in> set (k_hook k d)
     then do { h \<leftarrow> list_del (CliHook c) (lk s); Some (True, s\<lparr>lk := h\<rparr>) } else Some (False, s))"
    if "set ds \<subseteq> set (k_dogs k)" for ds
    using that
  proof (induction ds)
    case (Cons d ds)
    then have "d \<in> set (k_dogs k)" by simp
    from Cons b [OF this] show ?case by (auto simp del: dog_of.simps split: Option.bind_splits)
  qed simp
  have "for_each_safe lk DogHd ?body s = run_body ?body (map Dog (k_dogs k)) s"
  proof (rule for_each_safe_run [where P = "\<lambda>xs t. t = s \<and> set xs \<subseteq> Dog ` set (k_dogs k)"])
    fix x ys t t'
    assume "t = s \<and> set (x # ys) \<subseteq> Dog ` set (k_dogs k)" "?body x t = Some (False, t')"
    moreover then obtain d where "x = Dog d" "d \<in> set (k_dogs k)" by auto
    ultimately have "t' = s" using b [of d] by (auto simp del: dog_of.simps split: Option.bind_splits if_splits)
    with \<open>t = s \<and> _\<close> show "(t' = s \<and> set ys \<subseteq> Dog ` set (k_dogs k)) \<and> (\<forall>y\<in>set ys. nxt (lk t') y = nxt (lk t) y)"
      by auto
  qed (auto simp: dogs_loop(1) [OF assms])
  then show ?thesis
    using r [of "k_dogs k"] dogs_loop(2) [OF assms] by (auto simp: DelHookerInCuteDog_def)
qed

lemma DelHookerInCuteDog_shape:
  assumes sh: "shape s k" and d: "d \<in> set (k_dogs k)" and c: "c \<in> set (k_hook k d)"
  shows "\<exists>h. DelHookerInCuteDog c s = Some (True, s\<lparr>lk := h\<rparr>) \<and> nxt h (CliHook c) = None
    \<and> shape (s\<lparr>lk := h\<rparr>) (k\<lparr>k_hook := (k_hook k)(d := remove1 c (k_hook k d))\<rparr>)"
proof -
  note l = hooks_loop(1) [OF sh d]
  obtain h where h: "list_del (CliHook c) (lk s) = Some h" "nxt h (CliHook c) = None"
      "is_list h (HookHd d) (remove1 (CliHook c) (map CliHook (k_hook k d)))"
    and f: "\<And>y. y \<notin> set (HookHd d # map CliHook (k_hook k d)) \<Longrightarrow> nxt h y = nxt (lk s) y \<and> prv h y = prv (lk s) y"
    using list_del_is_list [OF l, of "CliHook c"] c by auto
  have "remove1 (CliHook c) (map CliHook cs) = map CliHook (remove1 c cs)" for cs
    by (induction cs) auto
  with h(3) have "is_list h (HookHd d) (map CliHook (remove1 c (k_hook k d)))" by simp
  then have "shape (s\<lparr>lk := h\<rparr>) (k\<lparr>k_hook := (k_hook k)(d := remove1 c (k_hook k d))\<rparr>)"
  proof (rule shape_rehook [OF sh d, where X = "set (k_hook k d)"])
    show "same_links (- insert (HookHd d) (CliHook ` set (k_hook k d))) (lk s) h"
      using f by (auto simp: same_links_def)
  qed (use hooks_disjoint [OF sh _ d] in \<open>auto simp: set_remove1_subset\<close>)
  then show ?thesis using DelHookerInCuteDog_loop [OF sh, of c] h(1,2) c d by auto
qed

lemma DelHookerInCuteDog_none:
  "shape s k \<Longrightarrow> \<forall>d \<in> set (k_dogs k). c \<notin> set (k_hook k d) \<Longrightarrow> DelHookerInCuteDog c s = Some (False, s)"
  by (simp add: DelHookerInCuteDog_loop)

section \<open>Losing a cutedog\<close>

lemma push_cell_string_same_rest: "push_cell_string env m str s = Some s' \<Longrightarrow> same_rest s s'"
  by (auto simp: push_cell_string_def same_rest_def split: Option.bind_splits)

lemma IoGetSendMsgCell_same_rest: "IoGetSendMsgCell c s = Some (r, s') \<Longrightarrow> same_rest s s'"
  by (auto simp: IoGetSendMsgCell_def same_rest_def split: prod.splits if_splits Option.bind_splits)

lemma IoPutSendMsgCell_same_rest: "same_rest s (IoPutSendMsgCell m s)"
  by (simp add: IoPutSendMsgCell_def same_rest_def)

lemma post_same_rest: "post env c str s = Some (b, s') \<Longrightarrow> same_rest s s'"
  unfolding post_def
  by (auto split: Option.bind_splits option.splits dest!: IoGetSendMsgCell_same_rest push_cell_string_same_rest)
    (meson same_rest_trans IoPutSendMsgCell_same_rest)

text \<open>The loop serves the hookers in list order as long as there are free cells.\<close>

lemma lose_run:
  assumes "pool_ok s" "is_list (lk s) (HookHd d) (map CliHook cs)" "CuteDogs s d = Some dog"
    and "cells_take env (lose_message dog) s (take (length cs) (free_cells s))"
  shows "\<exists>s'. run_body (lose_step env d) (map CliHook cs) s = Some (length (free_cells s) < length cs, s')
    \<and> posted s (take (length cs) (free_cells s)) (letters s (lose_message dog) (take (length (free_cells s)) cs)) s'
    \<and> is_list (lk s') (HookHd d) (map CliHook (drop (length (free_cells s)) cs))
    \<and> same_links (- insert (HookHd d) (CliHook ` set cs)) (lk s) (lk s') \<and> same_rest s (s'\<lparr>lk := lk s\<rparr>)"
  using assms
proof (induction cs arbitrary: s)
  case Nil
  then show ?case by (auto simp: posted_refl letters_def)
next
  case (Cons c cs)
  show ?case
  proof (cases "free_cells s")
    case Nil
    have "run_body (lose_step env d) (map CliHook (c # cs)) s = Some (True, s)"
      using post_exhausted [OF Cons.prems(1) Nil] Cons.prems(3) by (simp add: lose_step_def)
    with Nil Cons.prems show ?thesis by (simp add: posted_refl letters_def)
  next
    case free: (Cons m ms)
    then have tk: "takes (env_realloc env m) (lose_message dog) (m_stream (cells s m))"
      using Cons.prems(4) by (simp add: cells_take_def)
    obtain s1 where s1: "post env c (lose_message dog) s = Some (True, s1)"
        "posted s [m] (letters s (lose_message dog) [c]) s1" "same_rest s s1"
      using post_posted [OF Cons.prems(1) free tk] by blast
    have l1: "is_list (lk s1) (HookHd d) (map CliHook (c # cs))"
      using s1(3) Cons.prems(2) by (simp add: same_rest_def)
    obtain h where h: "list_del (CliHook c) (lk s1) = Some h" "is_list h (HookHd d) (map CliHook cs)"
      and f: "\<And>y. y \<notin> set (HookHd d # map CliHook (c # cs)) \<Longrightarrow> nxt h y = nxt (lk s1) y \<and> prv h y = prv (lk s1) y"
      using list_del_is_list [OF l1, of "CliHook c"] by auto
    let ?s2 = "s1\<lparr>lk := h\<rparr>"
    have p2: "posted s [m] (letters s (lose_message dog) [c]) ?s2" using s1(2) by simp
    have fr: "free_cells ?s2 = ms" using p2 free by (simp add: posted_def)
    have ct: "cells_take env (lose_message dog) ?s2 (take (length cs) ms)"
      using cells_take_posted [OF p2 _ Cons.prems(1), of env "lose_message dog" "take (length cs) ms" "drop (length cs) ms"]
        Cons.prems(4) free by simp
    have ok2: "pool_ok ?s2" using p2 by (simp add: posted_def)
    have d2: "CuteDogs ?s2 d = Some dog" using s1(3) Cons.prems(3) by (simp add: same_rest_def)
    obtain s3 where s3: "run_body (lose_step env d) (map CliHook cs) ?s2 = Some (length ms < length cs, s3)"
      "posted ?s2 (take (length cs) ms) (letters ?s2 (lose_message dog) (take (length ms) cs)) s3"
      "is_list (lk s3) (HookHd d) (map CliHook (drop (length ms) cs))"
      "same_links (- insert (HookHd d) (CliHook ` set cs)) h (lk s3)" "same_rest ?s2 (s3\<lparr>lk := h\<rparr>)"
      using Cons.IH [OF ok2 _ d2] h(2) ct fr by auto
    have "run_body (lose_step env d) (map CliHook (c # cs)) s = Some (length (free_cells s) < length (c # cs), s3)"
      using s1(1) h(1) s3(1) Cons.prems(3) free by (simp add: lose_step_def)
    moreover have ls: "letters ?s2 (lose_message dog) (take (length ms) cs) = letters s (lose_message dog) (take (length ms) cs)"
      using s1(3) by (simp add: letters_def same_rest_def)
    have "posted s (take (length (c # cs)) (free_cells s))
        (letters s (lose_message dog) (take (length (free_cells s)) (c # cs))) s3"
      using posted_trans [OF p2 s3(2) [unfolded ls] Cons.prems(1)] free by (simp add: letters_def)
    moreover have "same_links (- insert (HookHd d) (CliHook ` set (c # cs))) (lk s) (lk s3)"
      using s3(4) f s1(3) unfolding same_links_def same_rest_def by auto
    moreover have "same_rest s (s3\<lparr>lk := lk s\<rparr>)" using s3(5) s1(3) by (simp add: same_rest_def)
    ultimately show ?thesis using s3(3) free by auto
  qed
qed

lemma list_del_nxt:
  "list_del e h = Some h' \<Longrightarrow> prv h e = Some p \<Longrightarrow> y \<noteq> p \<Longrightarrow> y \<noteq> e \<Longrightarrow> nxt h' y = nxt h y"
  by (auto simp: list_op_defs split: Option.bind_splits)

lemma DelHookersWithCuteDog_loop:
  assumes "shape s k" "d \<in> set (k_dogs k)"
  shows "DelHookersWithCuteDog env d s = do {
      r \<leftarrow> run_body (lose_step env d) (map CliHook (k_hook k d)) s; Some (\<not> fst r, snd r) }"
proof -
  have "for_each_safe lk (HookHd d) (lose_step env d) s = run_body (lose_step env d) (map CliHook (k_hook k d)) s"
  proof (rule for_each_safe_run [where P = "\<lambda>xs t. is_list (lk t) (HookHd d) xs"])
    fix x ys t t'
    assume l: "is_list (lk t) (HookHd d) (x # ys)" and "lose_step env d x t = Some (False, t')"
    then obtain c dog u h where x: "x = CliHook c" "post env c (lose_message dog) t = Some (True, u)"
      and h: "list_del x (lk u) = Some h" "t' = u\<lparr>lk := h\<rparr>"
      by (cases x) (auto simp: lose_step_def split: Option.bind_splits if_splits)
    have lku: "lk u = lk t" using post_same_rest [OF x(2)] by (simp add: same_rest_def)
    have p: "prv (lk t) x = Some (HookHd d)" "HookHd d \<notin> set ys" "x \<notin> set ys" using l by (auto simp: is_list_def)
    have "\<forall>y \<in> set ys. nxt h y = nxt (lk t) y"
      using p list_del_nxt [OF h(1) [unfolded lku] p(1)] by metis
    moreover have "is_list h (HookHd d) ys"
      using list_del_is_list_split [of "lk t" "HookHd d" "[]" x ys] l h(1) lku by auto
    ultimately show "is_list (lk t') (HookHd d) ys \<and> (\<forall>y \<in> set ys. nxt (lk t') y = nxt (lk t) y)"
      using h(2) by simp
  qed (simp_all add: hooks_loop(1) [OF assms])
  then show ?thesis
    using hooks_loop(2) [OF assms] linked_dog [OF assms]
    by (auto simp: DelHookersWithCuteDog_def)
qed

lemma DelHookersWithCuteDog_shape:
  assumes sh: "shape s k" and d: "d \<in> set (k_dogs k)" and ok: "pool_ok s"
    and tk: "cells_take env (lose_message (dog_at s d)) s (take (length (k_hook k d)) (free_cells s))"
  shows "\<exists>s'. DelHookersWithCuteDog env d s = Some (length (k_hook k d) \<le> length (free_cells s), s')
    \<and> posted s (take (length (k_hook k d)) (free_cells s))
        (letters s (lose_message (dog_at s d)) (take (length (free_cells s)) (k_hook k d))) s'
    \<and> shape s' (k\<lparr>k_hook := (k_hook k)(d := drop (length (free_cells s)) (k_hook k d))\<rparr>)
    \<and> same_rest s (s'\<lparr>lk := lk s\<rparr>)"
proof -
  obtain s' where s': "run_body (lose_step env d) (map CliHook (k_hook k d)) s
      = Some (length (free_cells s) < length (k_hook k d), s')"
    "posted s (take (length (k_hook k d)) (free_cells s))
      (letters s (lose_message (dog_at s d)) (take (length (free_cells s)) (k_hook k d))) s'"
    "is_list (lk s') (HookHd d) (map CliHook (drop (length (free_cells s)) (k_hook k d)))"
    "same_links (- insert (HookHd d) (CliHook ` set (k_hook k d))) (lk s) (lk s')"
    "same_rest s (s'\<lparr>lk := lk s\<rparr>)"
    using lose_run [OF ok hooks_loop(1) [OF sh d] linked_dog [OF sh d] tk] by blast
  have "shape (s\<lparr>lk := lk s'\<rparr>) (k\<lparr>k_hook := (k_hook k)(d := drop (length (free_cells s)) (k_hook k d))\<rparr>)"
    using hooks_disjoint [OF sh _ d] set_drop_subset [of "length (free_cells s)" "k_hook k d"]
    by (intro shape_rehook [OF sh d s'(3,4)]) auto
  then have "shape s' (k\<lparr>k_hook := (k_hook k)(d := drop (length (free_cells s)) (k_hook k d))\<rparr>)"
    using s'(5) by (simp add: shape_def same_rest_def)
  then show ?thesis using DelHookersWithCuteDog_loop [OF sh d] s' by (auto simp: linorder_not_less)
qed

section \<open>Adding and removing a cutedog\<close>

text \<open>
  The links of one cutedog in the list of cutedogs, with the hooker list of a cutedog that
  is not in it left out of account.
\<close>

lemma shape_redogs:
  assumes sh: "shape s k"
    and l: "is_list h DogHd (map Dog ds)"
    and hk: "\<forall>d \<in> set ds. is_list h (HookHd d) (map CliHook (hk d))"
      "\<forall>d \<in> set ds. \<forall>e \<in> set ds. d \<noteq> e \<longrightarrow> set (hk d) \<inter> set (hk e) = {}"
    and same: "same_links (- (dog_nodes \<union> hook_nodes)) (lk s) h"
    and live: "\<forall>d \<in> set ds. D d \<noteq> None \<and> d < n"
  shows "shape (s\<lparr>lk := h, CuteDogs := D, dog_count := n\<rparr>) (k\<lparr>k_dogs := ds, k_hook := hk\<rparr>)"
proof -
  have a: "same_links client_nodes (lk s) h" "same_links send_nodes (lk s) h"
    using same unfolding same_links_def node_sets by auto
  have "clients_shape h k" "sends_shape h k"
    using sh clients_shape_frame [OF _ a(1)] sends_shape_frame [OF _ a(2)] by (auto simp: shape_def)
  then show ?thesis
    using l hk live by (simp add: shape_def dogs_shape_def hooks_shape_def clients_shape_def sends_shape_def)
qed

definition new_dog :: "nat \<Rightarrow> string \<Rightarrow> string \<Rightarrow> nat \<Rightarrow> CUTEDOG" where
  "new_dog hnd name flt c = \<lparr>d_Name = strncpy_str 31 name, d_Filter = strncpy_str 255 flt, d_Master = c,
     d_Thid = True, d_Handle = Some hnd\<rparr>"

lemma AddCuteDog2List_shape:
  assumes sh: "shape s k" and m: "env_malloc env"
  defines "d \<equiv> dog_count s"
  shows "\<exists>h. AddCuteDog2List env (Some hnd) (Some name) flt c s = Some (Some d,
      upd_client c (\<lambda>x. x\<lparr>CuteDog := Some d\<rparr>)
        (s\<lparr>CuteDogs := (CuteDogs s)(d := Some (new_dog hnd name flt c)), dog_count := Suc d, lk := h\<rparr>))
    \<and> shape (s\<lparr>CuteDogs := (CuteDogs s)(d := Some (new_dog hnd name flt c)), dog_count := Suc d, lk := h\<rparr>)
        (k\<lparr>k_dogs := d # k_dogs k, k_hook := (k_hook k)(d := [])\<rparr>)"
proof -
  have fresh: "d \<notin> set (k_dogs k)" using sh by (auto simp: shape_def d_def)
  note l = dogs_loop(1) [OF sh]
  have "Dog d \<notin> set (DogHd # map Dog (k_dogs k))" using fresh by auto
  from list_add_is_list [OF l this] obtain h where
    h: "list_add (Dog d) DogHd (lk s) = Some h" "is_list h DogHd (map Dog (d # k_dogs k))"
    and f: "\<And>y. y \<notin> set (Dog d # DogHd # map Dog (k_dogs k)) \<Longrightarrow> nxt h y = nxt (lk s) y \<and> prv h y = prv (lk s) y"
    by auto
  let ?h = "INIT_LIST_HEAD (HookHd d) h"
  have i: "nxt ?h y = nxt h y \<and> prv ?h y = prv h y" if "y \<noteq> HookHd d" for y
    using that by (simp add: INIT_LIST_HEAD_def)
  have g: "nxt ?h y = nxt (lk s) y \<and> prv ?h y = prv (lk s) y" if "y \<noteq> HookHd d" "y \<notin> dog_nodes" for y
    using i [OF that(1)] f [of y] that(2) by (auto simp: dog_nodes_def)
  have "shape (s\<lparr>lk := ?h, CuteDogs := (CuteDogs s)(d := Some (new_dog hnd name flt c)), dog_count := Suc d\<rparr>)
      (k\<lparr>k_dogs := d # k_dogs k, k_hook := (k_hook k)(d := [])\<rparr>)"
  proof (rule shape_redogs [OF sh])
    show "is_list ?h DogHd (map Dog (d # k_dogs k))"
      by (rule is_list_frame [OF h(2)]) (use i in auto)
    show "\<forall>e \<in> set (d # k_dogs k). is_list ?h (HookHd e) (map CliHook (((k_hook k)(d := [])) e))"
    proof
      fix e assume e: "e \<in> set (d # k_dogs k)"
      show "is_list ?h (HookHd e) (map CliHook (((k_hook k)(d := [])) e))"
      proof (cases "e = d")
        case True
        then show ?thesis by (simp add: is_list_INIT)
      next
        case False
        then have "is_list (lk s) (HookHd e) (map CliHook (k_hook k e))" using hooks_loop(1) [OF sh, of e] e by simp
        then have "is_list ?h (HookHd e) (map CliHook (k_hook k e))"
          by (rule is_list_frame) (use g False in \<open>auto simp: dog_nodes_def\<close>)
        then show ?thesis using False by simp
      qed
    qed
    show "\<forall>a \<in> set (d # k_dogs k). \<forall>b \<in> set (d # k_dogs k). a \<noteq> b \<longrightarrow>
        set (((k_hook k)(d := [])) a) \<inter> set (((k_hook k)(d := [])) b) = {}"
      using hooks_disjoint [OF sh] by auto
    show "same_links (- (dog_nodes \<union> hook_nodes)) (lk s) ?h"
      using g by (auto simp: same_links_def hook_nodes_def)
    show "\<forall>e \<in> set (d # k_dogs k). ((CuteDogs s)(d := Some (new_dog hnd name flt c))) e \<noteq> None \<and> e < Suc d"
      using sh by (auto simp: shape_def d_def less_Suc_eq)
  qed
  moreover have "AddCuteDog2List env (Some hnd) (Some name) flt c s = Some (Some d,
      upd_client c (\<lambda>x. x\<lparr>CuteDog := Some d\<rparr>)
        (s\<lparr>CuteDogs := (CuteDogs s)(d := Some (new_dog hnd name flt c)), dog_count := Suc d, lk := ?h\<rparr>))"
    using h(1) m by (simp add: AddCuteDog2List_def new_dog_def d_def Let_def)
  ultimately show ?thesis by (intro exI [of _ ?h]) (simp add: shape_def)
qed

lemma DelCuteDogInList_shape:
  assumes sh: "shape s k" and d: "CuteDog (ClientInfo s c) = Some d" "d \<in> set (k_dogs k)" and ok: "pool_ok s"
    and tk: "cells_take env (lose_message (dog_at s d)) s (take (length (k_hook k d)) (free_cells s))"
  shows "\<exists>s'. DelCuteDogInList env c s = Some (True, s')
    \<and> posted s (take (length (k_hook k d)) (free_cells s))
        (letters s (lose_message (dog_at s d)) (take (length (free_cells s)) (k_hook k d))) s'
    \<and> shape s' (k\<lparr>k_dogs := remove1 d (k_dogs k), k_hook := (k_hook k)(d := drop (length (free_cells s)) (k_hook k d))\<rparr>)
    \<and> same_rest s (s'\<lparr>lk := lk s, CuteDogs := CuteDogs s, ClientInfo := ClientInfo s\<rparr>)
    \<and> CuteDogs s' = (CuteDogs s)(d := None)
    \<and> ClientInfo s' = (ClientInfo s)(c := (ClientInfo s c)\<lparr>CuteDog := None\<rparr>)"
proof -
  let ?hk = "(k_hook k)(d := drop (length (free_cells s)) (k_hook k d))"
  let ?ds = "remove1 d (k_dogs k)"
  obtain s1 where s1: "DelHookersWithCuteDog env d s = Some (length (k_hook k d) \<le> length (free_cells s), s1)"
    "posted s (take (length (k_hook k d)) (free_cells s))
        (letters s (lose_message (dog_at s d)) (take (length (free_cells s)) (k_hook k d))) s1"
    "shape s1 (k\<lparr>k_hook := ?hk\<rparr>)" "same_rest s (s1\<lparr>lk := lk s\<rparr>)"
    using DelHookersWithCuteDog_shape [OF sh d(2) ok tk] by blast
  have l: "is_list (lk s1) DogHd (map Dog (k_dogs k))" using dogs_loop(1) [OF s1(3)] by simp
  have r: "remove1 (Dog d) (map Dog ds) = map Dog (remove1 d ds)" for ds by (induction ds) auto
  obtain h where h: "list_del (Dog d) (lk s1) = Some h" "is_list h DogHd (map Dog ?ds)"
    and f: "\<And>y. y \<notin> set (DogHd # map Dog (k_dogs k)) \<Longrightarrow> nxt h y = nxt (lk s1) y \<and> prv h y = prv (lk s1) y"
    using list_del_is_list [OF l, of "Dog d"] d(2) r by auto
  have dist: "distinct (k_dogs k)" using l by (simp add: is_list_def distinct_map)
  then have ds: "set ?ds = set (k_dogs k) - {d}" by simp
  let ?h = "set_nxt (HookHd d) None (set_prv (HookHd d) None h)"
  have sh': "shape (s1\<lparr>lk := ?h, CuteDogs := (CuteDogs s)(d := None), dog_count := dog_count s1\<rparr>)
      (k\<lparr>k_hook := ?hk, k_dogs := ?ds, k_hook := ?hk\<rparr>)"
  proof (rule shape_redogs [OF s1(3)])
    show "is_list ?h DogHd (map Dog ?ds)"
      by (rule is_list_frame [OF h(2)]) auto
    show "\<forall>e \<in> set ?ds. is_list ?h (HookHd e) (map CliHook (?hk e))"
    proof
      fix e assume e: "e \<in> set ?ds"
      then have "is_list (lk s1) (HookHd e) (map CliHook (?hk e))" using hooks_loop(1) [OF s1(3), of e] ds by simp
      then show "is_list ?h (HookHd e) (map CliHook (?hk e))"
        by (rule is_list_frame) (use f e ds in auto)
    qed
    show "\<forall>a \<in> set ?ds. \<forall>b \<in> set ?ds. a \<noteq> b \<longrightarrow> set (?hk a) \<inter> set (?hk b) = {}"
      using hooks_disjoint [OF sh] ds by auto
    show "same_links (- (dog_nodes \<union> hook_nodes)) (lk s1) ?h"
      using f unfolding same_links_def node_sets by auto
    show "\<forall>e \<in> set ?ds. ((CuteDogs s)(d := None)) e \<noteq> None \<and> e < dog_count s1"
      using sh s1(4) ds by (auto simp: shape_def same_rest_def)
  qed
  let ?s' = "upd_client c (\<lambda>x. x\<lparr>CuteDog := None\<rparr>) (free_dog d (s1\<lparr>lk := h\<rparr>))"
  have "DelCuteDogInList env c s = Some (True, ?s')"
    using d(1) s1(1) h(1) by (simp add: DelCuteDogInList_def)
  moreover have "shape ?s' (k\<lparr>k_dogs := ?ds, k_hook := ?hk\<rparr>)"
    using sh' s1(4) by (simp add: free_dog_def shape_def same_rest_def)
  moreover have "posted s (take (length (k_hook k d)) (free_cells s))
        (letters s (lose_message (dog_at s d)) (take (length (free_cells s)) (k_hook k d))) ?s'"
    using s1(2) posted_cong [of ?s' s1] by (simp add: free_dog_def)
  ultimately show ?thesis
    using s1(4) by (intro exI [of _ ?s']) (simp add: same_rest_def free_dog_def)
qed

section \<open>The broadcast\<close>

text \<open>
  For each client two cells are taken and the second one is used.  The state after it: the
  pairs are the taken cells, in order.
\<close>

fun pair_list :: "(nat \<times> nat) list \<Rightarrow> nat list" where
  "pair_list [] = []"
| "pair_list ((a, b) # ps) = a # b # pair_list ps"

definition broadcasted :: "dogstate \<Rightarrow> (nat \<times> nat) list \<Rightarrow> (nat option \<times> u32 \<times> string option) list \<Rightarrow> dogstate \<Rightarrow> bool" where
  "broadcasted s ps ls s' \<longleftrightarrow> pool_ok s' \<and> free_cells s = pair_list ps @ free_cells s'
     \<and> queued_cells s' = queued_cells s @ map snd ps \<and> map (cell_message s') (map snd ps) = ls
     \<and> (\<forall>m. m \<notin> set (pair_list ps) \<longrightarrow> cells s' m = cells s m) \<and> same_rest s s'"

lemma snd_pair_list: "set (map snd ps) \<subseteq> set (pair_list ps)"
  by (induction ps rule: pair_list.induct) auto

lemma fst_pair_list: "set (map fst ps) \<subseteq> set (pair_list ps)"
  by (induction ps rule: pair_list.induct) auto

lemma pair_list_parts:
  "distinct (pair_list qs @ zs) \<Longrightarrow> m \<in> fst ` set qs \<Longrightarrow> m \<notin> set zs \<and> m \<notin> set (map snd qs)"
proof (induction qs rule: pair_list.induct)
  case (2 a b qs)
  show ?case
  proof (cases "m \<in> fst ` set qs")
    case True
    with fst_pair_list [of qs] have "m \<in> set (pair_list qs)" by auto
    with 2 True show ?thesis by auto
  next
    case False
    with "2.prems" snd_pair_list [of qs] show ?thesis by auto
  qed
qed simp

lemma pool_ok_get:
  assumes "pool_ok s" "free_cells s = m # ms"
  shows "\<exists>s'. IoGetSendMsgCell c s = Some (Some m, s') \<and> pool_ok s' \<and> free_cells s' = ms
    \<and> queued_cells s' = queued_cells s \<and> same_rest s s' \<and> (\<forall>k. k \<noteq> m \<longrightarrow> cells s' k = cells s k)"
proof -
  have "rings_ok s" using assms(1) by (simp add: pool_ok_def)
  then obtain s' where s': "IoGetSendMsgCell c s = Some (Some m, s')" "rings_ok s'" "free_cells s' = ms"
     "pFifoDogMsg s' = pFifoDogMsg s" "same_rest s s'" "\<forall>k. k \<noteq> m \<longrightarrow> cells s' k = cells s k"
    using IoGetSendMsgCell_some [OF _ assms(2), of c] by fastforce
  then have "pool_ok s'" "queued_cells s' = queued_cells s"
    using assms by (auto simp: pool_ok_def queued_cells_def)
  with s' show ?thesis by blast
qed

lemma broadcast_run:
  assumes "pool_ok s" "free_cells s = pair_list ps @ rest" "length ps = length cs"
    and "cells_take env Body s (map snd ps)"
  shows "\<exists>s'. run_body (broadcast_step env Body) (map Cli cs) s = Some (False, s')
    \<and> broadcasted s ps (letters s Body cs) s'"
  using assms
proof (induction cs arbitrary: s ps)
  case Nil
  then show ?case by (simp add: broadcasted_def letters_def)
next
  case (Cons c cs)
  then obtain a b qs where ps: "ps = (a, b) # qs" by (cases ps rule: pair_list.cases) auto
  let ?tail = "b # pair_list qs @ rest"
  have free: "free_cells s = a # ?tail" using Cons.prems(2) ps by simp
  obtain s1 where s1: "IoGetSendMsgCell c s = Some (Some a, s1)" "pool_ok s1" "free_cells s1 = ?tail"
    "queued_cells s1 = queued_cells s" "same_rest s s1" "\<And>k. k \<noteq> a \<Longrightarrow> cells s1 k = cells s k"
    using pool_ok_get [OF Cons.prems(1) free, of c] by blast
  have dist: "distinct (a # ?tail)" using Cons.prems(1) free by (simp add: pool_ok_def)
  have "takes (env_realloc env b) Body (m_stream (cells s1 b))"
    using Cons.prems(4) ps dist s1(6) [of b] by (auto simp: cells_take_def)
  then obtain s2 where s2: "post env c Body s1 = Some (True, s2)" "posted s1 [b] (letters s1 Body [c]) s2" "same_rest s1 s2"
    using post_posted [OF s1(2,3), of env Body c] by blast
  have free2: "free_cells s2 = pair_list qs @ rest" using s2(2) s1(3) by (simp add: posted_def)
  have eq: "cells s2 k = cells s k" if "k \<noteq> a" "k \<noteq> b" for k
    using that s1(6) s2(2) by (simp add: posted_def)
  have qs: "set (map snd qs) \<inter> {a, b} = {}" using dist snd_pair_list [of qs] by auto
  then have "cells_take env Body s2 (map snd qs)"
    using Cons.prems(4) ps eq unfolding cells_take_def by (auto simp: disjoint_iff)
  moreover have "pool_ok s2" using s2(2) by (simp add: posted_def)
  ultimately obtain s3 where s3: "run_body (broadcast_step env Body) (map Cli cs) s2 = Some (False, s3)"
    "broadcasted s2 qs (letters s2 Body cs) s3"
    using Cons.IH [OF _ free2] Cons.prems(3) ps by auto
  have rr: "same_rest s s2" using same_rest_trans s1(5) s2(3) by blast
  have "run_body (broadcast_step env Body) (map Cli (c # cs)) s = Some (False, s3)"
    using s1(1) s2(1) s3(1) by (simp add: broadcast_step_def)
  moreover have "broadcasted s ps (letters s Body (c # cs)) s3"
  proof -
    have "cell_message s3 b = cell_message s2 b"
      using s3(2) dist by (simp add: broadcasted_def cell_message_def)
    moreover have "cell_message s2 b = (Some c, iSessionID (ClientInfo s c), Some Body)"
      using s2(2) s1(5) by (simp add: posted_def letters_def same_rest_def)
    moreover have "letters s2 Body cs = letters s Body cs" using rr by (simp add: letters_def same_rest_def)
    ultimately show ?thesis
      using s3(2) free free2 eq rr s1(4) s2(2) same_rest_trans ps
      by (auto simp: broadcasted_def letters_def posted_def)
  qed
  ultimately show ?case by blast
qed

lemma CuteDogBroadCast_shape:
  assumes sh: "shape s k" and ok: "pool_ok s"
    and free: "free_cells s = pair_list ps @ rest" "length ps = length (k_work k)"
  defines "Body \<equiv> broadcast_body
    (if k_dogs k = [] then [] else snprintf_str 1024 (Row (dog_at s (last (k_dogs k)))))"
  assumes tk: "cells_take env Body s (map snd ps)"
  shows "\<exists>s'. CuteDogBroadCast env s = Some s' \<and> broadcasted s ps (letters s Body (k_work k)) s'"
proof -
  have "for_each_safe lk WorkHd (broadcast_step env Body) s = run_body (broadcast_step env Body) (map Cli (k_work k)) s"
    by (rule for_each_safe_run [where P = "\<lambda>_ _. True"])
      (auto simp: work_loop(1) [OF sh] broadcast_step_def same_rest_def
        dest!: IoGetSendMsgCell_same_rest post_same_rest split: Option.bind_splits option.splits)
  moreover obtain s' where s': "run_body (broadcast_step env Body) (map Cli (k_work k)) s = Some (False, s')"
      "broadcasted s ps (letters s Body (k_work k)) s'"
    using broadcast_run [OF ok free tk] by blast
  ultimately have "CuteDogBroadCast env s = Some s'"
    using work_loop(2) [OF sh] GetAllCuteDogsFilterString_shape [OF sh]
    by (auto simp: CuteDogBroadCast_def Body_def [symmetric])
  with s'(2) show ?thesis by blast
qed

section \<open>An example state\<close>

text \<open>
  Client 1 runs cutedog 0, client 2 is hooked to it; eight cells are free, none is queued.
  It is the state the concrete instances of the properties start from.
\<close>

definition fresh_stream :: cstream where
  "fresh_stream = \<lparr>stream_size = MSGINITSIZE, chunk_block = replicate (MSGINITSIZE + MIN_MALLOC_LEN) NUL,
     chunk_mem = True, chunk_base = 0, chunk_ptr = 0, chunk_read = 0, chunk_write = 0, syncword = 0, endword = 0\<rparr>"

lemma fresh_stream_init: "init_stream (Some a) (Some 0) MSGINITSIZE = Some (Some fresh_stream)"
  by (simp add: init_stream_def fresh_stream_def align16_eq)

lemma fresh_takes: "no_nul str \<Longrightarrow> length str \<le> 1024 \<Longrightarrow> takes ra str fresh_stream"
  by (rule takes_short) (simp_all add: fresh_stream_def stream_wf_def MSGINITSIZE_def MIN_MALLOC_LEN_def)

definition blank_client :: CLIENTINFO where
  "blank_client = \<lparr>iID = 0, lType = CLIENT_UNKNOWN, lStatus = STATUS_UNKNOWN, lSocketStatus = STATUS_SOCKET_CLOSED,
     IPAddress = 0, strIP = [], lIPPort = 0, Prs = False, Socket = 0, iSessionID = 0, iMsgNumID = 0,
     pCurCat2DogIOMsg = None, iCurSendLen = 0, pSndData = None, pCurSendMsg = None, CuteDog = None\<rparr>"

fun yard_nxt :: "node \<Rightarrow> node option" where
  "yard_nxt FreeHd = Some FreeHd"
| "yard_nxt WorkHd = Some (Cli 1)"
| "yard_nxt DogHd = Some (Dog 0)"
| "yard_nxt (Cli c) = (if c = 1 then Some (Cli 2) else if c = 2 then Some WorkHd else None)"
| "yard_nxt (CliHook c) = (if c = 2 then Some (HookHd 0) else None)"
| "yard_nxt (SendHd c) = Some (SendHd c)"
| "yard_nxt (Cell m) = None"
| "yard_nxt (Dog d) = (if d = 0 then Some DogHd else None)"
| "yard_nxt (HookHd d) = (if d = 0 then Some (CliHook 2) else None)"

fun yard_prv :: "node \<Rightarrow> node option" where
  "yard_prv FreeHd = Some FreeHd"
| "yard_prv WorkHd = Some (Cli 2)"
| "yard_prv DogHd = Some (Dog 0)"
| "yard_prv (Cli c) = (if c = 1 then Some WorkHd else if c = 2 then Some (Cli 1) else None)"
| "yard_prv (CliHook c) = (if c = 2 then Some (HookHd 0) else None)"
| "yard_prv (SendHd c) = Some (SendHd c)"
| "yard_prv (Cell m) = None"
| "yard_prv (Dog d) = (if d = 0 then Some DogHd else None)"
| "yard_prv (HookHd d) = (if d = 0 then Some (CliHook 2) else None)"

definition rex :: CUTEDOG where
  "rex = \<lparr>d_Name = ''rex'', d_Filter = ''tcp port 80'', d_Master = 1, d_Thid = True, d_Handle = Some 7\<rparr>"

definition yard :: dogstate where
  "yard = \<lparr>lk = \<lparr>nxt = yard_nxt, prv = yard_prv\<rparr>,
     ClientInfo = (\<lambda>c. blank_client\<lparr>iSessionID := (if c = 1 then 5 else if c = 2 then 6 else 0),
       lType := (if c = 1 then CLIENT_USER_PIONEER else if c = 2 then CLIENT_USER_HOOKER else CLIENT_UNKNOWN),
       CuteDog := (if c = 1 \<or> c = 2 then Some 0 else None)\<rparr>),
     CuteDogs = (\<lambda>_. None)(0 := Some rex), dog_count = 1,
     cells = (\<lambda>_. \<lparr>m_session = 0, m_client = None, m_stream = fresh_stream\<rparr>),
     pFifoDogMsg = \<lparr>r_cursor = 0, w_cursor = 0, ring_length = 16, ring_data = replicate 16 0\<rparr>,
     pFifoDogMsgFree = \<lparr>r_cursor = 0, w_cursor = 8, ring_length = 16, ring_data = [0..<16]\<rparr>,
     in_cells = (\<lambda>_. \<lparr>in_session = 0, in_client = None, in_stream = fresh_stream\<rparr>),
     Cat2DogIOMsg = [], uiCliPutMsgIndex = 0, uiIoGetMsgIndex = 0, uiCliGetMsgIndex = 1,
     uiCliGetMsgNextIndex = 2, tidp = 0, pcap_handle = Some 7, FunCallBack = Some TcpCallback, effects = []\<rparr>"

definition yard_kennel :: kennel where
  "yard_kennel = \<lparr>k_dogs = [0], k_hook = (\<lambda>d. if d = 0 then [2] else []), k_work = [1, 2], k_free = [],
     k_send = (\<lambda>_. [])\<rparr>"

definition calm :: environ where
  "calm = \<lparr>env_realloc = (\<lambda>_ _. None), env_malloc = True, env_handle = Some 9, env_compile = True, env_setfilter = 0,
     env_ethernet = True, env_create = Some 3, env_cancel = 0\<rparr>"

lemma yard_shape: "shape yard yard_kennel"
  by (simp add: shape_def dogs_shape_def hooks_shape_def clients_shape_def sends_shape_def is_list_def
      yard_def yard_kennel_def)

lemma yard_free: "free_cells yard = [0, 1, 2, 3, 4, 5, 6, 7]"
proof -
  have "fifo_content \<lparr>r_cursor = 0, w_cursor = 8, ring_length = 16, ring_data = [0..<16]\<rparr> = [0, 1, 2, 3, 4, 5, 6, 7]"
    by code_simp
  then show ?thesis by (simp add: free_cells_def yard_def)
qed

lemma yard_queue: "queued_cells yard = []"
proof -
  have "fifo_content \<lparr>r_cursor = 0, w_cursor = 0, ring_length = 16, ring_data = replicate 16 (0 :: nat)\<rparr> = []"
    by code_simp
  then show ?thesis by (simp add: queued_cells_def yard_def)
qed

lemma yard_pool: "pool_ok yard"
  unfolding pool_ok_def yard_free yard_queue
  by (simp add: rings_ok_def fifo_wf_def fifo_room_def yard_def)

lemma yard_takes: "no_nul str \<Longrightarrow> length str \<le> 1024 \<Longrightarrow> cells_take env str yard ms"
  by (simp add: cells_take_def yard_def fresh_takes)

lemma yard_sessions: "iSessionID (ClientInfo yard (Suc 0)) = 5" "iSessionID (ClientInfo yard 2) = 6"
  by (simp_all add: yard_def)

lemma yard_dog: "dog_at yard 0 = rex"
  by (simp add: dog_at_def yard_def)

section \<open>Properties\<close>

text \<open>
  Hooking a client that is hooked nowhere to the first cutedog of the given name puts it
  at the front of that cutedog's hookers and touches no other list; unhooking it gives the
  lists back exactly, but leaves the client's pointer to the cutedog in place.
\<close>

theorem hook_then_unhook:
  assumes "shape s k" and "named s name (k_dogs k) = Some d"
    and "\<forall>e \<in> set (k_dogs k). c \<notin> set (k_hook k e)"
  shows "\<exists>s1 s2. AddHooker2CuteDog (Some name) c s = Some (True, s1)
    \<and> shape s1 (k\<lparr>k_hook := (k_hook k)(d := c # k_hook k d)\<rparr>) \<and> CuteDog (ClientInfo s1 c) = Some d
    \<and> DelHookerInCuteDog c s1 = Some (True, s2) \<and> shape s2 k \<and> CuteDog (ClientInfo s2 c) = Some d"
proof -
  let ?f = "\<lambda>x. x\<lparr>CuteDog := Some d\<rparr>"
  let ?k1 = "k\<lparr>k_hook := (k_hook k)(d := c # k_hook k d)\<rparr>"
  obtain h where h: "AddHooker2CuteDog (Some name) c s = Some (True, upd_client c ?f (s\<lparr>lk := h\<rparr>))"
    "shape (s\<lparr>lk := h\<rparr>) ?k1"
    using AddHooker2CuteDog_shape [OF assms] by blast
  have sh1: "shape (upd_client c ?f (s\<lparr>lk := h\<rparr>)) ?k1" using h(2) by simp
  have d: "d \<in> set (k_dogs ?k1)" "c \<in> set (k_hook ?k1 d)" using named_in [OF assms(2)] by auto
  obtain g where g: "DelHookerInCuteDog c (upd_client c ?f (s\<lparr>lk := h\<rparr>))
      = Some (True, (upd_client c ?f (s\<lparr>lk := h\<rparr>))\<lparr>lk := g\<rparr>)"
    "shape ((upd_client c ?f (s\<lparr>lk := h\<rparr>))\<lparr>lk := g\<rparr>) (?k1\<lparr>k_hook := (k_hook ?k1)(d := remove1 c (k_hook ?k1 d))\<rparr>)"
    using DelHookerInCuteDog_shape [OF sh1 d] by blast
  have "shape ((upd_client c ?f (s\<lparr>lk := h\<rparr>))\<lparr>lk := g\<rparr>) k" using g(2) by simp
  with h(1) sh1 g(1) show ?thesis
    by (intro exI [of _ "upd_client c ?f (s\<lparr>lk := h\<rparr>)"] exI [of _ "(upd_client c ?f (s\<lparr>lk := h\<rparr>))\<lparr>lk := g\<rparr>"]) simp
qed

theorem hook_then_unhook_witness:
  "\<exists>s1 s2. AddHooker2CuteDog (Some ''rex'') 3 yard = Some (True, s1)
    \<and> shape s1 (yard_kennel\<lparr>k_hook := (k_hook yard_kennel)(0 := 3 # k_hook yard_kennel 0)\<rparr>)
    \<and> CuteDog (ClientInfo s1 3) = Some 0
    \<and> DelHookerInCuteDog 3 s1 = Some (True, s2) \<and> shape s2 yard_kennel \<and> CuteDog (ClientInfo s2 3) = Some 0"
  by (rule hook_then_unhook [OF yard_shape]) (simp_all add: named_def yard_dog rex_def yard_kennel_def)

text \<open>
  The broadcast delivers its text to every working client in list order, but it takes two
  cells for each and uses the second one: the first is in neither ring afterwards, so each
  broadcast shrinks the pool by the number of working clients.
\<close>

theorem broadcast_loses_cells:
  assumes "shape s k" and "pool_ok s"
    and "free_cells s = pair_list ps @ rest" and "length ps = length (k_work k)"
    and "Body = broadcast_body
      (if k_dogs k = [] then [] else snprintf_str 1024 (Row (dog_at s (last (k_dogs k)))))"
    and "cells_take env Body s (map snd ps)"
  shows "\<exists>s'. CuteDogBroadCast env s = Some s' \<and> free_cells s' = rest
    \<and> queued_cells s' = queued_cells s @ map snd ps
    \<and> map (cell_message s') (map snd ps) = letters s Body (k_work k)
    \<and> (\<forall>m \<in> fst ` set ps. m \<notin> set (free_cells s') \<and> m \<notin> set (map snd ps))
    \<and> length (free_cells s') + length (queued_cells s') + length (k_work k)
       = length (free_cells s) + length (queued_cells s)"
proof -
  obtain s' where s': "CuteDogBroadCast env s = Some s'" "broadcasted s ps (letters s Body (k_work k)) s'"
    using CuteDogBroadCast_shape [OF assms(1-4)] assms(5,6) by auto
  then have fr: "free_cells s' = rest" "queued_cells s' = queued_cells s @ map snd ps"
    "map (cell_message s') (map snd ps) = letters s Body (k_work k)"
    using assms(3) by (auto simp: broadcasted_def)
  have len: "length (pair_list qs) = 2 * length qs" for qs by (induction qs rule: pair_list.induct) auto
  have "distinct (pair_list ps @ rest)" using assms(2,3) by (simp add: pool_ok_def)
  then have "\<forall>m \<in> fst ` set ps. m \<notin> set rest \<and> m \<notin> set (map snd ps)" using pair_list_parts by blast
  with s'(1) fr assms(3,4) show ?thesis by (intro exI [of _ s']) (simp add: len)
qed

theorem broadcast_loses_cells_witness:
  "\<exists>s'. CuteDogBroadCast calm yard = Some s' \<and> free_cells s' = [4, 5, 6, 7] \<and> queued_cells s' = [1, 3]
    \<and> map (cell_message s') [1, 3] =
       [(Some 1, 5, Some ''<iq type='result'><query xmlns='filter:show'><name>rex</name><filterstring>tcp port 80</filterstring></query></iq>''),
        (Some 2, 6, Some ''<iq type='result'><query xmlns='filter:show'><name>rex</name><filterstring>tcp port 80</filterstring></query></iq>'')]"
proof -
  let ?Body = "''<iq type='result'><query xmlns='filter:show'><name>rex</name><filterstring>tcp port 80</filterstring></query></iq>''"
  have k: "k_dogs yard_kennel = [0]" "k_work yard_kennel = [1, 2]" by (simp_all add: yard_kennel_def)
  have b: "?Body = broadcast_body (if k_dogs yard_kennel = [] then []
      else snprintf_str 1024 (Row (dog_at yard (last (k_dogs yard_kennel)))))"
    by (simp add: k yard_dog broadcast_body_def Row_def rex_def snprintf_str_def)
  have f: "free_cells yard = pair_list [(0, 1), (2, 3)] @ [4, 5, 6, 7]" by (simp add: yard_free)
  have l: "letters yard str [1, 2] = [(Some 1, 5, Some str), (Some 2, 6, Some str)]" for str
    by (simp add: yard_def letters_def)
  have t: "cells_take calm ?Body yard (map snd [(0, 1), (2, 3)])" by (rule yard_takes) simp_all
  show ?thesis
    using broadcast_loses_cells [OF yard_shape yard_pool f _ b t] by (simp only: k yard_queue l) auto
qed

text \<open>
  The filter string that is sent to the clients holds one row only, that of the cutedog
  which has been running longest, whatever the list holds: each row overwrites the one before.
\<close>

theorem filter_string_is_last_row:
  assumes "shape s k" and "k_dogs k \<noteq> []"
  shows "GetAllCuteDogsFilterString 1024 s = Some (Row (dog_at s (last (k_dogs k))))"
proof -
  have "length (Row dog) < 1024" for dog by (simp add: Row_def snprintf_str_def)
  then show ?thesis using GetAllCuteDogsFilterString_shape [OF assms(1)] assms(2) by (simp add: snprintf_str_short)
qed

theorem filter_string_is_last_row_witness:
  "GetAllCuteDogsFilterString 1024 yard = Some ''<name>rex</name><filterstring>tcp port 80</filterstring>''"
proof -
  have "k_dogs yard_kennel = [0]" by (simp add: yard_kennel_def)
  then show ?thesis
    using filter_string_is_last_row [OF yard_shape]
    by (simp add: yard_dog Row_def rex_def snprintf_str_def)
qed

text \<open>
  A new cutedog is put at the front of the list with no hookers, under its name cut to 31
  characters.  A name check finds exactly that name and those that were found before, so a
  longer name is never found again.
\<close>

theorem new_cutedog_found_by_cut_name:
  assumes "shape s k" and "env_malloc env" and "no_nul name"
  shows "\<exists>d s'. AddCuteDog2List env (Some hnd) (Some name) flt c s = Some (Some d, s')
    \<and> shape s' (k\<lparr>k_dogs := d # k_dogs k, k_hook := (k_hook k)(d := [])\<rparr>)
    \<and> CuteDog (ClientInfo s' c) = Some d \<and> d_Master (dog_at s' d) = c
    \<and> (\<forall>n. CheckNameInList n s' = Some (n = take 31 name \<or> CheckNameInList n s = Some True))"
proof -
  let ?d = "dog_count s"
  obtain h where h: "AddCuteDog2List env (Some hnd) (Some name) flt c s = Some (Some ?d,
      upd_client c (\<lambda>x. x\<lparr>CuteDog := Some ?d\<rparr>)
        (s\<lparr>CuteDogs := (CuteDogs s)(?d := Some (new_dog hnd name flt c)), dog_count := Suc ?d, lk := h\<rparr>))"
    "shape (s\<lparr>CuteDogs := (CuteDogs s)(?d := Some (new_dog hnd name flt c)), dog_count := Suc ?d, lk := h\<rparr>)
        (k\<lparr>k_dogs := ?d # k_dogs k, k_hook := (k_hook k)(?d := [])\<rparr>)" (is "shape ?s1 ?k1")
    using AddCuteDog2List_shape [OF assms(1,2)] by blast
  let ?s' = "upd_client c (\<lambda>x. x\<lparr>CuteDog := Some ?d\<rparr>) ?s1"
  have sh': "shape ?s' ?k1" using h(2) by simp
  have old: "?d \<notin> set (k_dogs k)" using assms(1) by (auto simp: shape_def)
  have rest: "named ?s' n ds = named s n ds" if "?d \<notin> set ds" for n ds
    using that by (induction ds) (auto simp: named_def dog_at_def)
  have "CheckNameInList n ?s' = Some (n = take 31 name \<or> CheckNameInList n s = Some True)" for n
    using CheckNameInList_shape [OF sh', of n] CheckNameInList_shape [OF assms(1), of n] rest [OF old, of n] assms(3)
    by (auto simp: named_def dog_at_def new_dog_def strncpy_str_def)
  with h(1) sh' show ?thesis
    by (intro exI [of _ ?d] exI [of _ ?s']) (simp add: dog_at_def new_dog_def)
qed

theorem new_cutedog_found_by_cut_name_witness:
  "\<exists>d s'. AddCuteDog2List calm (Some 8) (Some ''a name of more than 31 characters'') ''tcp'' 2 yard = Some (Some d, s')
    \<and> CheckNameInList ''a name of more than 31 characters'' s' = Some False
    \<and> CheckNameInList ''a name of more than 31 characte'' s' = Some True"
proof -
  have "CheckNameInList ''a name of more than 31 characters'' yard = Some False"
    using CheckNameInList_shape [OF yard_shape] by (simp add: named_def yard_kennel_def yard_dog rex_def)
  then show ?thesis
    using new_cutedog_found_by_cut_name [OF yard_shape, of calm "''a name of more than 31 characters''" 8 "''tcp''" 2]
    by (auto simp: calm_def)
qed

end
