(* ===== verification/Packet.thy ===== *)
theory Packet
  imports Prelude
begin

text \<open>
  The frame decoders of the capture threads, \<^verbatim>\<open>src/CuteDog/NoseTcp.c\<close> and
  \<^verbatim>\<open>src/CuteDog/NoseUdp.c\<close>.  A captured frame is the list of its captured bytes;
  libpcap hands over \<open>caplen\<close> of them.  Reading a byte outside the frame is
  \<^term>\<open>None\<close>.  What a decoder does is the call of \<^verbatim>\<open>SendTcp2Cats\<close> it makes,
  if it makes one; the pointer to the payload is an offset into the frame.
\<close>

section \<open>Reading a frame\<close>

definition be16 :: "byte list \<Rightarrow> nat \<Rightarrow> nat option" where \<comment> \<open>\<^verbatim>\<open>ntohs\<close>\<close>
  "be16 f off = do { a \<leftarrow> nth_opt f off; b \<leftarrow> nth_opt f (off + 1); Some (256 * unat a + unat b) }"

definition be32 :: "byte list \<Rightarrow> nat \<Rightarrow> nat option" where \<comment> \<open>\<^verbatim>\<open>ntohl\<close>\<close>
  "be32 f off = do { a \<leftarrow> be16 f off; b \<leftarrow> be16 f (off + 2); Some (65536 * a + b) }"

definition inet_ntoa :: "byte list \<Rightarrow> nat \<Rightarrow> string option" where
  "inet_ntoa f off = do {
     a \<leftarrow> nth_opt f off; b \<leftarrow> nth_opt f (off + 1); c \<leftarrow> nth_opt f (off + 2); d \<leftarrow> nth_opt f (off + 3);
     Some (fmt_d (unat a) @ ''.'' @ fmt_d (unat b) @ ''.'' @ fmt_d (unat c) @ ''.'' @ fmt_d (unat d))
   }"

definition low_nibble :: "byte \<Rightarrow> nat" where
  "low_nibble b = unat (b AND 0x0F)"

definition high_nibble :: "byte \<Rightarrow> nat" where
  "high_nibble b = unat (drop_bit 4 b)"

section \<open>The headers\<close>

record ether_header =
  ether_dhost :: "byte list"
  ether_shost :: "byte list"
  ether_type :: nat

definition read_ether_header :: "byte list \<Rightarrow> ether_header option" where
  "read_ether_header f = do {
     d \<leftarrow> read_at 0 6 f; s \<leftarrow> read_at 6 6 f; t \<leftarrow> be16 f 12;
     Some \<lparr>ether_dhost = d, ether_shost = s, ether_type = t\<rparr>
   }"

record ip_header =
  ip_header_length :: nat
  ip_version :: nat
  ip_tos :: byte
  ip_length :: nat
  ip_id :: nat
  ip_off :: nat
  ip_ttl :: byte
  ip_protocol :: byte
  ip_checksum :: nat
  ip_souce_address :: string
  ip_destination_address :: string

definition read_ip_header :: "byte list \<Rightarrow> ip_header option" where
  "read_ip_header f = do {
     v \<leftarrow> nth_opt f 14; tos \<leftarrow> nth_opt f 15; len \<leftarrow> be16 f 16; ident \<leftarrow> be16 f 18; off \<leftarrow> be16 f 20;
     ttl \<leftarrow> nth_opt f 22; proto \<leftarrow> nth_opt f 23; sum \<leftarrow> be16 f 24;
     src \<leftarrow> inet_ntoa f 26; dst \<leftarrow> inet_ntoa f 30;
     Some \<lparr>ip_header_length = low_nibble v, ip_version = high_nibble v, ip_tos = tos, ip_length = len,
       ip_id = ident, ip_off = off, ip_ttl = ttl, ip_protocol = proto, ip_checksum = sum,
       ip_souce_address = src, ip_destination_address = dst\<rparr>
   }"

record tcp_header =
  tcp_source_port :: nat
  tcp_destination_port :: nat
  tcp_acknowledgement :: nat
  tcp_ack :: nat
  tcp_reserved :: nat
  tcp_offset :: nat
  tcp_flags :: byte
  tcp_windows :: nat
  tcp_checksum :: nat
  tcp_urgent_pointer :: nat

text \<open>The transport headers are read behind an IP header of 20 bytes, whatever its length field says.\<close>

definition read_tcp_header :: "byte list \<Rightarrow> tcp_header option" where
  "read_tcp_header f = do {
     sp \<leftarrow> be16 f 34; dp \<leftarrow> be16 f 36; sq \<leftarrow> be32 f 38; ak \<leftarrow> be32 f 42;
     ho \<leftarrow> nth_opt f 46; fl \<leftarrow> nth_opt f 47; win \<leftarrow> be16 f 48; sum \<leftarrow> be16 f 50; urg \<leftarrow> be16 f 52;
     Some \<lparr>tcp_source_port = sp, tcp_destination_port = dp, tcp_acknowledgement = sq, tcp_ack = ak,
       tcp_reserved = low_nibble ho, tcp_offset = high_nibble ho, tcp_flags = fl, tcp_windows = win,
       tcp_checksum = sum, tcp_urgent_pointer = urg\<rparr>
   }"

record udp_header =
  udp_source_port :: nat
  udp_destination_port :: nat
  udp_length :: nat
  udp_checksum :: nat

definition read_udp_header :: "byte list \<Rightarrow> udp_header option" where
  "read_udp_header f = do {
     sp \<leftarrow> be16 f 34; dp \<leftarrow> be16 f 36; len \<leftarrow> be16 f 38; sum \<leftarrow> be16 f 40;
     Some \<lparr>udp_source_port = sp, udp_destination_port = dp, udp_length = len, udp_checksum = sum\<rparr>
   }"

section \<open>The callbacks\<close>

text \<open>The arguments of \<^verbatim>\<open>SendTcp2Cats\<close>.\<close>

record captured =
  cap_from :: string
  cap_fp :: string
  cap_to :: string
  cap_tp :: string
  cap_data :: nat
  cap_size :: nat

text \<open>\<^verbatim>\<open>SENDTCP2CATS_LO\<close>: no call for an empty payload.\<close>

definition SENDTCP2CATS_LO :: "captured \<Rightarrow> captured option" where
  "SENDTCP2CATS_LO c = (if 0 < cap_size c then Some c else None)"

text \<open>
  \<^verbatim>\<open>TcpData_Len\<close> is an unsigned difference.  The addresses go through
  \<^verbatim>\<open>strncpy\<close> into arrays of 32 bytes, the ports through \<^verbatim>\<open>sprintf\<close> into
  arrays of 8.
\<close>

definition tcp_protocol_packet_callback :: "nat \<Rightarrow> byte list \<Rightarrow> captured option option" where
  "tcp_protocol_packet_callback caplen f = do {
     tcp \<leftarrow> read_tcp_header f;
     ip \<leftarrow> read_ip_header f;
     let_len \<leftarrow> Some (tcp_offset tcp * 4);
     Some (SENDTCP2CATS_LO
       \<lparr>cap_from = strncpy_str 32 (ip_souce_address ip), cap_fp = fmt_d (tcp_source_port tcp),
        cap_to = strncpy_str 32 (ip_destination_address ip), cap_tp = fmt_d (tcp_destination_port tcp),
        cap_data = 14 + 20 + let_len,
        cap_size = unat (word_of_nat caplen - 14 - 20 - word_of_nat let_len :: u32)\<rparr>)
   }"

definition udp_protocol_packet_callback :: "nat \<Rightarrow> byte list \<Rightarrow> captured option option" where
  "udp_protocol_packet_callback caplen f = do {
     udp \<leftarrow> read_udp_header f;
     ip \<leftarrow> read_ip_header f;
     Some (SENDTCP2CATS_LO
       \<lparr>cap_from = strncpy_str 32 (ip_souce_address ip), cap_fp = fmt_d (udp_source_port udp),
        cap_to = strncpy_str 32 (ip_destination_address ip), cap_tp = fmt_d (udp_destination_port udp),
        cap_data = 14 + 20, cap_size = udp_length udp\<rparr>)
   }"

definition ip_protocol_packet_callback_tcp :: "nat \<Rightarrow> byte list \<Rightarrow> captured option option" where
  "ip_protocol_packet_callback_tcp caplen f = do {
     ip \<leftarrow> read_ip_header f;
     if ip_protocol ip = 6 then tcp_protocol_packet_callback caplen f else Some None
   }"

definition ip_protocol_packet_callback_udp :: "nat \<Rightarrow> byte list \<Rightarrow> captured option option" where
  "ip_protocol_packet_callback_udp caplen f = do {
     ip \<leftarrow> read_ip_header f;
     if ip_protocol ip = 17 then udp_protocol_packet_callback caplen f else Some None
   }"

text \<open>The packet counter is a static variable of each file.\<close>

definition tcp_ethernet_protocol_packet_callback ::
  "nat \<Rightarrow> byte list \<Rightarrow> u32 \<Rightarrow> (captured option \<times> u32) option" where
  "tcp_ethernet_protocol_packet_callback caplen f packet_number = do {
     eth \<leftarrow> read_ether_header f;
     c \<leftarrow> (if ether_type eth = 0x0800 then ip_protocol_packet_callback_tcp caplen f else Some None);
     Some (c, packet_number + 1)
   }"

definition udp_ethernet_protocol_packet_callback ::
  "nat \<Rightarrow> byte list \<Rightarrow> u32 \<Rightarrow> (captured option \<times> u32) option" where
  "udp_ethernet_protocol_packet_callback caplen f packet_number = do {
     eth \<leftarrow> read_ether_header f;
     c \<leftarrow> (if ether_type eth = 0x0800 then ip_protocol_packet_callback_udp caplen f else Some None);
     Some (c, packet_number + 1)
   }"

text \<open>
  The bytes that \<^verbatim>\<open>SendTcp2Cats\<close> encodes: at most \<^verbatim>\<open>MAX_TCPDATA_SIZE\<close> of them,
  read from the frame.
\<close>

definition MAX_TCPDATA_SIZE :: nat where
  "MAX_TCPDATA_SIZE = 3072"

definition captured_payload :: "byte list \<Rightarrow> captured \<Rightarrow> byte list option" where
  "captured_payload f c =
     read_at (cap_data c) (if MAX_TCPDATA_SIZE < cap_size c then MAX_TCPDATA_SIZE else cap_size c) f"

section \<open>Reads inside the frame\<close>

lemma be16_ok: "off + 1 < length f \<Longrightarrow> be16 f off = Some (256 * unat (f ! off) + unat (f ! (off + 1)))"
  by (simp add: be16_def mem_simps)

lemma be32_ok: "off + 3 < length f \<Longrightarrow> \<exists>n. be32 f off = Some n"
  by (simp add: be32_def be16_ok)

lemma inet_ntoa_ok: "off + 3 < length f \<Longrightarrow> \<exists>s. inet_ntoa f off = Some s"
  by (simp add: inet_ntoa_def mem_simps)

text \<open>An address of four bytes in dotted decimal form.\<close>

definition dotted :: "byte list \<Rightarrow> string" where
  "dotted bs = concat (map (\<lambda>b. fmt_d (unat b) @ ''.'') (butlast bs)) @ fmt_d (unat (last bs))"

lemma inet_ntoa_dotted:
  assumes "off + 3 < length f"
  shows "inet_ntoa f off = Some (dotted (take 4 (drop off f)))"
proof -
  have "take 4 (drop off f) = [f ! off, f ! (off + 1), f ! (off + 2), f ! (off + 3)]"
    using assms by (intro nth_equalityI) (auto simp: less_Suc_eq numeral_eq_Suc)
  then show ?thesis using assms by (simp add: inet_ntoa_def dotted_def mem_simps)
qed

lemma read_ip_header_ok:
  assumes "34 \<le> length f"
  shows "\<exists>ip. read_ip_header f = Some ip \<and> ip_protocol ip = f ! 23
    \<and> ip_souce_address ip = dotted (take 4 (drop 26 f)) \<and> ip_destination_address ip = dotted (take 4 (drop 30 f))"
  using assms inet_ntoa_dotted [of 26 f] inet_ntoa_dotted [of 30 f]
  by (auto simp: read_ip_header_def be16_ok mem_simps)

lemma dotted_fits:
  assumes "length bs = 4"
  shows "strncpy_str 32 (dotted bs) = dotted bs"
proof -
  have d: "length (fmt_d (unat b)) \<le> 3" for b :: byte
  proof -
    have "unat b < 2 ^ LENGTH(8)" by (rule unsigned_less)
    then show ?thesis using length_fmt_d_le [of "unat b" 2] by simp
  qed
  obtain b0 b1 b2 b3 where bs: "bs = [b0, b1, b2, b3]"
    using assms by (auto simp: numeral_eq_Suc length_Suc_conv)
  have "length (dotted bs) \<le> 32"
    using d [of b0] d [of b1] d [of b2] d [of b3] by (simp add: dotted_def bs)
  moreover have "no_nul (dotted bs)" by (simp add: dotted_def bs)
  ultimately show ?thesis by (rule strncpy_str_short [rotated])
qed

lemma read_tcp_header_ok:
  assumes "54 \<le> length f"
  shows "\<exists>tcp. read_tcp_header f = Some tcp \<and> tcp_offset tcp = high_nibble (f ! 46)
    \<and> tcp_source_port tcp = 256 * unat (f ! 34) + unat (f ! 35)
    \<and> tcp_destination_port tcp = 256 * unat (f ! 36) + unat (f ! 37)"
  using assms be32_ok [of 38 f] be32_ok [of 42 f]
  by (auto simp: read_tcp_header_def be16_ok mem_simps)

lemma read_udp_header_ok:
  assumes "42 \<le> length f"
  shows "\<exists>udp. read_udp_header f = Some udp \<and> udp_length udp = 256 * unat (f ! 38) + unat (f ! 39)
    \<and> udp_source_port udp = 256 * unat (f ! 34) + unat (f ! 35)
    \<and> udp_destination_port udp = 256 * unat (f ! 36) + unat (f ! 37)"
  using assms by (auto simp: read_udp_header_def be16_ok mem_simps)

lemma read_ether_header_ok:
  assumes "14 \<le> length f"
  shows "\<exists>eth. read_ether_header f = Some eth \<and> ether_type eth = 256 * unat (f ! 12) + unat (f ! 13)"
  using assms by (auto simp: read_ether_header_def be16_ok mem_simps)

lemma high_nibble_less: "high_nibble b < 16"
proof -
  have "unat b < 2 ^ LENGTH(8)" by (rule unsigned_less)
  then have "unat b div 16 < 16" by (simp add: less_mult_imp_div_less)
  then show ?thesis by (simp add: high_nibble_def unsigned_drop_bit_eq drop_bit_eq_div unat_div_distrib)
qed

text \<open>A TCP frame as the decoder sees it: IPv4 by its type, TCP by its protocol byte.\<close>

definition is_ipv4 :: "byte \<Rightarrow> byte list \<Rightarrow> bool" where
  "is_ipv4 proto f \<longleftrightarrow> f ! 12 = 0x08 \<and> f ! 13 = 0x00 \<and> f ! 23 = proto"

definition tcp_data_offset :: "byte list \<Rightarrow> nat" where
  "tcp_data_offset f = 34 + 4 * high_nibble (f ! 46)"

lemma tcp_callback_frame:
  assumes "54 \<le> length f" "is_ipv4 6 f"
  obtains c where "tcp_ethernet_protocol_packet_callback caplen f n = Some (SENDTCP2CATS_LO c, n + 1)"
    "cap_data c = tcp_data_offset f"
    "cap_size c = unat (word_of_nat caplen - word_of_nat (tcp_data_offset f) :: u32)"
    "cap_fp c = fmt_d (256 * unat (f ! 34) + unat (f ! 35))"
    "cap_tp c = fmt_d (256 * unat (f ! 36) + unat (f ! 37))"
    "cap_from c = dotted (take 4 (drop 26 f))" "cap_to c = dotted (take 4 (drop 30 f))"
proof -
  obtain eth where eth: "read_ether_header f = Some eth" "ether_type eth = 0x0800"
    using read_ether_header_ok [of f] assms by (auto simp: is_ipv4_def)
  obtain ip where ip: "read_ip_header f = Some ip" "ip_protocol ip = 6"
    "ip_souce_address ip = dotted (take 4 (drop 26 f))" "ip_destination_address ip = dotted (take 4 (drop 30 f))"
    using read_ip_header_ok [of f] assms by (auto simp: is_ipv4_def)
  have short: "strncpy_str 32 (dotted (take 4 (drop 26 f))) = dotted (take 4 (drop 26 f))"
    "strncpy_str 32 (dotted (take 4 (drop 30 f))) = dotted (take 4 (drop 30 f))"
    by (rule dotted_fits; use assms(1) in simp)+
  obtain tcp where tcp: "read_tcp_header f = Some tcp" "tcp_offset tcp = high_nibble (f ! 46)"
    "tcp_source_port tcp = 256 * unat (f ! 34) + unat (f ! 35)"
    "tcp_destination_port tcp = 256 * unat (f ! 36) + unat (f ! 37)"
    using read_tcp_header_ok [OF assms(1)] by blast
  have "word_of_nat caplen - 14 - 20 - word_of_nat (tcp_offset tcp * 4)
      = (word_of_nat caplen - word_of_nat (tcp_data_offset f) :: u32)"
    by (simp add: tcp_data_offset_def tcp(2) algebra_simps)
  then show thesis
    using eth ip tcp
    by (intro that [of "\<lparr>cap_from = strncpy_str 32 (ip_souce_address ip), cap_fp = fmt_d (tcp_source_port tcp),
        cap_to = strncpy_str 32 (ip_destination_address ip), cap_tp = fmt_d (tcp_destination_port tcp),
        cap_data = 14 + 20 + tcp_offset tcp * 4,
        cap_size = unat (word_of_nat caplen - 14 - 20 - word_of_nat (tcp_offset tcp * 4) :: u32)\<rparr>"])
      (simp_all add: tcp_ethernet_protocol_packet_callback_def ip_protocol_packet_callback_tcp_def
        tcp_protocol_packet_callback_def tcp_data_offset_def mult.commute diff_diff_eq short)
qed

lemma captured_payload_Some:
  "captured_payload f c = Some p \<longleftrightarrow>
     cap_data c + min MAX_TCPDATA_SIZE (cap_size c) \<le> length f
     \<and> p = take (min MAX_TCPDATA_SIZE (cap_size c)) (drop (cap_data c) f)"
  by (auto simp: captured_payload_def read_at_def min_def)

lemma unat_word_diff:
  assumes "b \<le> a" "a < 2 ^ 32"
  shows "unat (word_of_nat a - word_of_nat b :: u32) = a - b"
proof -
  have "(word_of_nat a - word_of_nat b :: u32) = word_of_nat (a - b)"
    using assms(1) by (simp add: of_nat_diff)
  moreover have "unat (word_of_nat (a - b) :: u32) = (a - b) mod 2 ^ 32" by (simp add: unat_of_nat)
  moreover have "(a - b) mod 2 ^ 32 = a - b" using assms(2) by simp
  ultimately show ?thesis by (simp only:)
qed

lemma unat_word_underflow:
  assumes "a < b" "b < 2 ^ 16"
  shows "2 ^ 32 - 2 ^ 16 \<le> unat (word_of_nat a - word_of_nat b :: u32)"
proof -
  have "(word_of_nat a - word_of_nat b :: u32) = - word_of_nat (b - a)"
    using assms(1) by (simp add: of_nat_diff)
  also have "\<dots> = word_of_nat (2 ^ 32 - (b - a))"
    using assms by (simp add: of_nat_diff)
  finally have "unat (word_of_nat a - word_of_nat b :: u32) = (2 ^ 32 - (b - a)) mod 2 ^ 32"
    by (simp only: unat_of_nat) simp
  moreover have "0 < b - a" "b - a < 2 ^ 16" using assms by simp_all
  ultimately show ?thesis by simp
qed

section \<open>Properties\<close>

text \<open>
  C31. From a complete Ethernet, IPv4 (20-byte header) and TCP frame the decoder hands
  exactly the bytes behind the TCP header and its options to the clients, cut to 3072, with
  the source and destination addresses of the IP header in dotted decimal form and the ports of the
  TCP header; a frame without payload makes no call.
\<close>

theorem tcp_payload_extracted:
  fixes macs ip tcp payload :: "byte list"
  assumes "length macs = 12" and "length ip = 20" and "ip ! 9 = 6"
    and "20 \<le> length tcp" and "length tcp = 4 * high_nibble (tcp ! 12)"
    and "f = macs @ [0x08, 0x00] @ ip @ tcp @ payload" and "length f < 2 ^ 32"
  shows "\<exists>c. tcp_ethernet_protocol_packet_callback (length f) f n
        = Some (if payload = [] then None else Some c, n + 1)
    \<and> captured_payload f c = Some (take 3072 payload) \<and> cap_size c = length payload
    \<and> cap_fp c = fmt_d (256 * unat (tcp ! 0) + unat (tcp ! 1))
    \<and> cap_tp c = fmt_d (256 * unat (tcp ! 2) + unat (tcp ! 3))
    \<and> cap_from c = dotted (take 4 (drop 12 ip)) \<and> cap_to c = dotted (take 4 (drop 16 ip))"
proof -
  have f: "f ! 12 = 0x08" "f ! 13 = 0x00" "f ! 23 = ip ! 9" "f ! 34 = tcp ! 0" "f ! 35 = tcp ! 1"
    "f ! 36 = tcp ! 2" "f ! 37 = tcp ! 3" "f ! 46 = tcp ! 12"
    using assms(1,2,4) by (cases tcp; auto simp: assms(6) nth_append nth_Cons')+
  have len: "length f = 34 + length tcp + length payload" using assms(1,2) by (simp add: assms(6))
  have off: "tcp_data_offset f = 34 + length tcp" by (simp add: tcp_data_offset_def f assms(5))
  have "f = (macs @ [0x08, 0x00] @ ip @ tcp) @ payload" by (simp add: assms(6))
  moreover have "length (macs @ [0x08, 0x00] @ ip @ tcp) = 34 + length tcp" using assms(1,2) by simp
  ultimately have "drop (34 + length tcp) f = payload" by (metis append_eq_conv_conj)
  moreover have "54 \<le> length f" "is_ipv4 6 f" using len assms(3,4) f by (simp_all add: is_ipv4_def)
  then obtain c where c: "tcp_ethernet_protocol_packet_callback (length f) f n = Some (SENDTCP2CATS_LO c, n + 1)"
    "cap_data c = tcp_data_offset f"
    "cap_size c = unat (word_of_nat (length f) - word_of_nat (tcp_data_offset f) :: u32)"
    "cap_fp c = fmt_d (256 * unat (f ! 34) + unat (f ! 35))"
    "cap_tp c = fmt_d (256 * unat (f ! 36) + unat (f ! 37))"
    "cap_from c = dotted (take 4 (drop 26 f))" "cap_to c = dotted (take 4 (drop 30 f))"
    by (rule tcp_callback_frame)
  moreover have "take 4 (drop 26 f) = take 4 (drop 12 ip)" "take 4 (drop 30 f) = take 4 (drop 16 ip)"
    using assms(1,2) by (simp_all add: assms(6))
  moreover have "cap_size c = length payload"
    using unat_word_diff [of "tcp_data_offset f" "length f"] assms(7) len off c(3) by simp
  ultimately show ?thesis
    using f len off by (intro exI [of _ c]) (auto simp: SENDTCP2CATS_LO_def captured_payload_Some
        MAX_TCPDATA_SIZE_def min_def)
qed

theorem tcp_payload_extracted_witness:
  "\<exists>c. tcp_ethernet_protocol_packet_callback 56
      (replicate 12 0 @ [0x08, 0x00] @ replicate 9 0 @ [6, 0, 0, 10, 0, 0, 1, 10, 0, 0, 2]
        @ [0x15, 0xB3, 0x00, 0x50] @ replicate 8 0 @ [0x50] @ replicate 7 0 @ [0x41, 0x42]) 7 = Some (Some c, 8)
    \<and> cap_size c = 2 \<and> cap_fp c = fmt_d 5555 \<and> cap_tp c = fmt_d 80 \<and> cap_from c = dotted [10, 0, 0, 1]
    \<and> cap_to c = dotted [10, 0, 0, 2]"
  using tcp_payload_extracted [of "replicate 12 0" "replicate 9 0 @ [6, 0, 0, 10, 0, 0, 1, 10, 0, 0, 2]"
      "[0x15, 0xB3, 0x00, 0x50] @ replicate 8 0 @ [0x50] @ replicate 7 0" _ "[0x41, 0x42]" 7, OF _ _ _ _ _ refl]
  by (auto simp: nth_append nth_Cons' high_nibble_def)

text \<open>
  C32. For every captured TCP frame of at least 54 bytes the read of the payload stays in
  the frame exactly when the data offset of the TCP header does: the unsigned length of a
  frame that ends before its own offset wraps to almost \<^term>\<open>2 ^ 32 :: nat\<close> and the
  payload is then read past the captured bytes.
\<close>

theorem tcp_payload_in_bounds_iff:
  assumes "54 \<le> length f" and "length f < 2 ^ 32" and "is_ipv4 6 f"
  shows "\<exists>r. tcp_ethernet_protocol_packet_callback (length f) f n = Some (r, n + 1)
    \<and> (case r of None \<Rightarrow> tcp_data_offset f = length f
       | Some c \<Rightarrow> (captured_payload f c \<noteq> None) = (tcp_data_offset f < length f))"
proof -
  obtain c where c: "tcp_ethernet_protocol_packet_callback (length f) f n = Some (SENDTCP2CATS_LO c, n + 1)"
    "cap_data c = tcp_data_offset f"
    "cap_size c = unat (word_of_nat (length f) - word_of_nat (tcp_data_offset f) :: u32)"
    using tcp_callback_frame [OF assms(1,3), of "length f" n] by blast
  have off: "tcp_data_offset f < 2 ^ 16"
    using high_nibble_less [of "f ! 46"] by (simp add: tcp_data_offset_def)
  show ?thesis
  proof (cases "tcp_data_offset f \<le> length f")
    case True
    with c(3) assms(2) have "cap_size c = length f - tcp_data_offset f"
      by (simp only: unat_word_diff)
    with c True show ?thesis
      by (auto simp: SENDTCP2CATS_LO_def captured_payload_def read_at_def MAX_TCPDATA_SIZE_def)
  next
    case False
    with unat_word_underflow [of "length f" "tcp_data_offset f"] off c(3)
    have "2 ^ 32 - 2 ^ 16 \<le> cap_size c" by simp
    with c False show ?thesis
      by (auto simp: SENDTCP2CATS_LO_def captured_payload_def read_at_def MAX_TCPDATA_SIZE_def)
  qed
qed

definition short_tcp_frame :: "byte list" where
  "short_tcp_frame = (replicate 54 0)[12 := 8, 23 := 6, 46 := 0xF0]"

theorem tcp_payload_in_bounds_iff_witness:
  "\<exists>c. tcp_ethernet_protocol_packet_callback 54 short_tcp_frame 1 = Some (Some c, 2)
    \<and> captured_payload short_tcp_frame c = None"
proof -
  have f: "length short_tcp_frame = 54" "is_ipv4 6 short_tcp_frame" "short_tcp_frame ! 46 = 0xF0"
    by (simp_all add: short_tcp_frame_def is_ipv4_def)
  then have "tcp_data_offset short_tcp_frame = 94" by (simp add: tcp_data_offset_def high_nibble_def)
  then show ?thesis
    using tcp_payload_in_bounds_iff [of short_tcp_frame 1] f by (auto split: option.splits)
qed

text \<open>
  For a captured UDP frame the decoder hands over the bytes from the start of the UDP
  header on, as many as the header's own length field says: the eight header bytes are
  sent as if they were payload, and the read stays in the frame only when that field is
  honest.
\<close>

theorem udp_payload_starts_with_header:
  assumes "42 \<le> length f" and "is_ipv4 17 f"
    and "udp_len = 256 * unat (f ! 38) + unat (f ! 39)"
  shows "\<exists>c. udp_ethernet_protocol_packet_callback (length f) f n
      = Some (if udp_len = 0 then None else Some c, n + 1)
    \<and> captured_payload f c = (if 34 + min 3072 udp_len \<le> length f
         then Some (take (min 3072 udp_len) (drop 34 f)) else None)"
proof -
  obtain eth where eth: "read_ether_header f = Some eth" "ether_type eth = 0x0800"
    using read_ether_header_ok [of f] assms by (auto simp: is_ipv4_def)
  obtain ip where ip: "read_ip_header f = Some ip" "ip_protocol ip = 17"
    using read_ip_header_ok [of f] assms by (auto simp: is_ipv4_def)
  obtain udp where udp: "read_udp_header f = Some udp" "udp_length udp = udp_len"
    using read_udp_header_ok [OF assms(1)] assms(3) by blast
  let ?c = "\<lparr>cap_from = strncpy_str 32 (ip_souce_address ip), cap_fp = fmt_d (udp_source_port udp),
        cap_to = strncpy_str 32 (ip_destination_address ip), cap_tp = fmt_d (udp_destination_port udp),
        cap_data = 14 + 20, cap_size = udp_length udp\<rparr>"
  have "udp_ethernet_protocol_packet_callback (length f) f n = Some (SENDTCP2CATS_LO ?c, n + 1)"
    using eth ip udp by (simp add: udp_ethernet_protocol_packet_callback_def
        ip_protocol_packet_callback_udp_def udp_protocol_packet_callback_def)
  then show ?thesis
    using udp(2) by (intro exI [of _ ?c])
      (auto simp: SENDTCP2CATS_LO_def captured_payload_def read_at_def MAX_TCPDATA_SIZE_def min_def)
qed

definition short_udp_frame :: "byte list" where
  "short_udp_frame = replicate 12 0 @ [8, 0] @ replicate 9 0 @ [17] @ replicate 10 0 @
     [1, 2, 3, 4, 0, 9, 5, 6] @ [0x41]"

theorem udp_payload_starts_with_header_witness:
  "\<exists>c. udp_ethernet_protocol_packet_callback 43 short_udp_frame 1 = Some (Some c, 2)
    \<and> captured_payload short_udp_frame c = Some [1, 2, 3, 4, 0, 9, 5, 6, 0x41]"
proof -
  have f: "length short_udp_frame = 43" "is_ipv4 17 short_udp_frame" "short_udp_frame ! 38 = 0" "short_udp_frame ! 39 = 9"
    "drop 34 short_udp_frame = [1, 2, 3, 4, 0, 9, 5, 6, 0x41]"
    by (simp_all add: short_udp_frame_def is_ipv4_def nth_append nth_Cons')
  then show ?thesis
    using udp_payload_starts_with_header [of short_udp_frame 9 1] by auto
qed

section \<open>Sizes of the strings\<close>

definition captured_fits :: "captured \<Rightarrow> bool" where
  "captured_fits c \<longleftrightarrow> length (cap_from c) < 32 \<and> length (cap_to c) < 32
     \<and> length (cap_fp c) < 8 \<and> length (cap_tp c) < 8"

lemma byte_fmt_le: "length (fmt_d (unat (b :: byte))) \<le> 3"
proof -
  have "unat b < 2 ^ LENGTH(8)" by (rule unsigned_less)
  then show ?thesis using length_fmt_d_le [of "unat b" 2] by simp
qed

lemma be16_less: "be16 f off = Some n \<Longrightarrow> n < 65536"
proof -
  assume "be16 f off = Some n"
  then obtain a b :: byte where n: "n = 256 * unat a + unat b"
    by (auto simp: be16_def split: Option.bind_splits)
  have "unat a < 2 ^ LENGTH(8)" "unat b < 2 ^ LENGTH(8)" by (rule unsigned_less)+
  then show ?thesis by (simp add: n)
qed

lemma port_fmt_less: "be16 f off = Some n \<Longrightarrow> length (fmt_d n) < 8"
  using be16_less [of f off n] length_fmt_d_le [of n 4] by simp

lemma inet_ntoa_less: "inet_ntoa f off = Some s \<Longrightarrow> length (strncpy_str 32 s) < 32"
proof -
  assume "inet_ntoa f off = Some s"
  then obtain a b c d :: byte where s: "s = fmt_d (unat a) @ ''.'' @ fmt_d (unat b) @ ''.'' @
      fmt_d (unat c) @ ''.'' @ fmt_d (unat d)"
    by (auto simp: inet_ntoa_def split: Option.bind_splits)
  have "length s \<le> 15"
    using byte_fmt_le [of a] byte_fmt_le [of b] byte_fmt_le [of c] byte_fmt_le [of d] by (simp add: s)
  moreover have "length (c_str s) \<le> length s" by (simp add: c_str_def length_takeWhile_le)
  ultimately show ?thesis by (simp add: strncpy_str_def)
qed

lemma read_ip_addresses:
  "read_ip_header f = Some ip \<Longrightarrow> length (strncpy_str 32 (ip_souce_address ip)) < 32
     \<and> length (strncpy_str 32 (ip_destination_address ip)) < 32"
  by (auto simp: read_ip_header_def inet_ntoa_less split: Option.bind_splits)

lemma read_tcp_ports:
  "read_tcp_header f = Some tcp \<Longrightarrow> length (fmt_d (tcp_source_port tcp)) < 8
     \<and> length (fmt_d (tcp_destination_port tcp)) < 8"
  by (auto simp: read_tcp_header_def port_fmt_less split: Option.bind_splits)

lemma read_udp_ports:
  "read_udp_header f = Some udp \<Longrightarrow> length (fmt_d (udp_source_port udp)) < 8
     \<and> length (fmt_d (udp_destination_port udp)) < 8"
  by (auto simp: read_udp_header_def port_fmt_less split: Option.bind_splits)

text \<open>
  Whatever frame is captured, the address strings fit the arrays of 32 bytes that
  \<^verbatim>\<open>strncpy\<close> fills with their terminating NUL, and the port strings fit the arrays
  of 8 bytes that \<^verbatim>\<open>sprintf\<close> fills without a bound.
\<close>

theorem captured_strings_fit:
  assumes "tcp_ethernet_protocol_packet_callback caplen f n = Some (Some c, m)
    \<or> udp_ethernet_protocol_packet_callback caplen f n = Some (Some c, m)"
  shows "captured_fits c"
proof -
  have t: "captured_fits c" if "tcp_protocol_packet_callback caplen f = Some (Some c)"
    using that read_ip_addresses [of f] read_tcp_ports [of f]
    by (auto simp: tcp_protocol_packet_callback_def SENDTCP2CATS_LO_def captured_fits_def
        split: Option.bind_splits if_splits)
  have u: "captured_fits c" if "udp_protocol_packet_callback caplen f = Some (Some c)"
    using that read_ip_addresses [of f] read_udp_ports [of f]
    by (auto simp: udp_protocol_packet_callback_def SENDTCP2CATS_LO_def captured_fits_def
        split: Option.bind_splits if_splits)
  from assms show ?thesis
    by (auto simp: tcp_ethernet_protocol_packet_callback_def udp_ethernet_protocol_packet_callback_def
        ip_protocol_packet_callback_tcp_def ip_protocol_packet_callback_udp_def
        split: Option.bind_splits if_splits intro: t u)
qed

theorem captured_strings_fit_witness:
  "captured_fits (the (fst (the (tcp_ethernet_protocol_packet_callback 54 short_tcp_frame 1))))"
proof (rule captured_strings_fit)
  obtain c where "tcp_ethernet_protocol_packet_callback 54 short_tcp_frame 1
      = Some (SENDTCP2CATS_LO c, 1 + 1)" "cap_size c = unat (word_of_nat 54 - word_of_nat (tcp_data_offset short_tcp_frame) :: u32)"
    by (rule tcp_callback_frame [of short_tcp_frame 54 1])
      (simp_all add: short_tcp_frame_def is_ipv4_def)
  moreover have "tcp_data_offset short_tcp_frame = 94"
    by (simp add: tcp_data_offset_def high_nibble_def short_tcp_frame_def)
  ultimately show "tcp_ethernet_protocol_packet_callback 54 short_tcp_frame 1
      = Some (Some (the (fst (the (tcp_ethernet_protocol_packet_callback 54 short_tcp_frame 1)))), 2)
    \<or> udp_ethernet_protocol_packet_callback 54 short_tcp_frame 1
      = Some (Some (the (fst (the (tcp_ethernet_protocol_packet_callback 54 short_tcp_frame 1)))), 2)"
    by (simp add: SENDTCP2CATS_LO_def)
qed

end
