(* ===== verification/DogNose.thy ===== *)
theory DogNose
  imports DogLists Base64 Packet
begin

text \<open>
  Capturing, \<^verbatim>\<open>src/CuteDog/cdogNose.c\<close> and \<^verbatim>\<open>SendTcp2Cats\<close> of
  \<^verbatim>\<open>src/CuteDog/cdogEar.c\<close>: starting and stopping a capture thread, and what such a
  thread does with a frame: the payload goes, base64 encoded in a message, to the client that
  runs the cutedog and to all its hookers.  A handler is one atomic step on the server state.
\<close>

section \<open>Sending a payload\<close>

text \<open>\<^verbatim>\<open>%d\<close> given an unsigned argument prints its low 32 bits as a signed number.\<close>

definition fmt_s32 :: "u32 \<Rightarrow> string" where
  "fmt_s32 w = fmt_int (sint w)"

definition quoted :: "string \<Rightarrow> string" where
  "quoted v = CHR 0x27 # v @ [CHR 0x27]"

definition message_text :: "captured \<Rightarrow> nat \<Rightarrow> u32 \<Rightarrow> string \<Rightarrow> string" where
  "message_text c size1 sn body =
     ''<message from='' @ quoted (cap_from c) @ '' fp='' @ quoted (cap_fp c)
     @ '' to='' @ quoted (cap_to c) @ '' tp='' @ quoted (cap_tp c)
     @ ''><body size='' @ quoted (fmt_s32 (word_of_nat size1)) @ '' rawsize='' @ quoted (fmt_s32 (word_of_nat (cap_size c)))
     @ '' sn='' @ quoted (fmt_s32 sn) @ ''>'' @ body @ ''</body></message>''"

definition hooker_step :: "environ \<Rightarrow> string \<Rightarrow> node \<Rightarrow> dogstate \<Rightarrow> (bool \<times> dogstate) option" where
  "hooker_step env message n s = do {
     c \<leftarrow> hooker_of n;
     x \<leftarrow> post env c message s;
     Some (\<not> fst x, snd x)
   }"

text \<open>
  The arguments are those of the callback; \<open>tcpData\<close> is what follows the pointer to the
  payload.  A body that could not be allocated would be printed through NULL.
\<close>

definition SendTcp2Cats :: "environ \<Rightarrow> captured \<Rightarrow> byte list \<Rightarrow> nat \<Rightarrow> dogstate \<Rightarrow> (bool \<times> dogstate) option" where
  "SendTcp2Cats env a tcpData c s = do {
     x \<leftarrow> IoGetSendMsgCell c s;
     case fst x of
       None \<Rightarrow> Some (False, snd x)
     | Some m \<Rightarrow> do {
         let size1 = (if MAX_TCPDATA_SIZE < cap_size a then MAX_TCPDATA_SIZE else cap_size a);
         buf \<leftarrow> read_at 0 size1 tcpData;
         en \<leftarrow> base64_encode (env_malloc env) buf (int size1);
         pEnBody \<leftarrow> en;
         let s = upd_client c (\<lambda>x. x\<lparr>iMsgNumID := iMsgNumID x + 1\<rparr>) (snd x);
         let message = snprintf_str (4096 + 512) (message_text a size1 (iMsgNumID (ClientInfo s c)) pEnBody);
         s \<leftarrow> push_cell_string env m message s;
         let s = IoPutSendMsgCell m s;
         d \<leftarrow> CuteDog (ClientInfo s c);
         dog \<leftarrow> CuteDogs s d;
         if list_notempty (HookHd d) (lk s)
         then do {
           r \<leftarrow> for_each lk (HookHd d) (hooker_step env message) s;
           Some (\<not> fst r, snd r)
         }
         else Some (True, s)
       }
   }"

section \<open>Capture threads\<close>

definition create_ok :: string where
  "create_ok = ''<iq type='result'><query xmlns='filter:new' action='create'><error id='OK' content=''
     @ quoted [] @ ''/></query></iq>''"

definition create_refused :: string where
  "create_refused = ''<iq type='result'><query xmlns='filter:new' action='create'><error id='401' content='set failed'/></query></iq>''"

text \<open>
  \<^verbatim>\<open>SetCapFilter\<close>.  The result of \<^verbatim>\<open>pcap_compile\<close> is not looked at: when it
  fails, \<^verbatim>\<open>pcap_setfilter\<close> reads an uninitialised program.
\<close>

definition SetCapFilter ::
  "environ \<Rightarrow> nat option \<Rightarrow> string option \<Rightarrow> nat \<Rightarrow> dogstate \<Rightarrow> (bool \<times> dogstate) option" where
  "SetCapFilter env Handle FilterStr c s =
     (case (Handle, FilterStr) of
        (Some hnd, Some flt) \<Rightarrow>
          if \<not> env_compile env then None
          else if env_setfilter env = 0
          then post env c create_ok s
          else do {
            x \<leftarrow> post env c create_refused s;
            Some (False, snd x)
          }
      | _ \<Rightarrow> Some (False, s))"

fun contains :: "string \<Rightarrow> string \<Rightarrow> bool" where \<comment> \<open>\<^verbatim>\<open>strstr(s, t) != NULL\<close>\<close>
  "contains [] t \<longleftrightarrow> t = []"
| "contains (c # s) t \<longleftrightarrow> take (length t) (c # s) = t \<or> contains s t"

text \<open>
  \<^verbatim>\<open>StartDogNose\<close>.  For a model other than 0 and 1 the interface name is an
  uninitialised pointer.  The thread number that \<^verbatim>\<open>pthread_create\<close> writes goes to the
  global \<^verbatim>\<open>tidp\<close>, to which every cutedog points.
\<close>

definition StartDogNose ::
  "environ \<Rightarrow> string \<Rightarrow> string option \<Rightarrow> nat \<Rightarrow> nat \<Rightarrow> dogstate \<Rightarrow> (int \<times> dogstate) option" where
  "StartDogNose env FilterStr Name c model s =
     (if model \<noteq> 0 \<and> model \<noteq> 1 then None
      else do {
        let s = (if contains FilterStr ''udp'' then s\<lparr>FunCallBack := Some UdpCallback\<rparr> else s);
        let s = s\<lparr>FunCallBack := Some TcpCallback\<rparr>;
        let s = s\<lparr>pcap_handle := env_handle env\<rparr>;
        x \<leftarrow> SetCapFilter env (pcap_handle s) (Some FilterStr) c s;
        let s = snd x;
        if \<not> fst x then Some (0, s)
        else if \<not> env_ethernet env then Some (0, s)
        else do {
          y \<leftarrow> AddCuteDog2List env (pcap_handle s) Name FilterStr c s;
          let s = snd y;
          case fst y of
            None \<Rightarrow> Some (- 1, s)
          | Some d \<Rightarrow>
              (case env_create env of
                 Some t \<Rightarrow> Some (1, log_effect (PthreadCreate t d) (s\<lparr>tidp := t\<rparr>))
               | None \<Rightarrow> Some (0, s))
        }
      })"

text \<open>
  \<^verbatim>\<open>StartDogNoseThread\<close> reads the cutedog before it checks the pointer; the result is
  what \<^verbatim>\<open>pcap_loop\<close> is called with, or NULL when there is no handle.
\<close>

definition StartDogNoseThread :: "nat \<Rightarrow> dogstate \<Rightarrow> (nat \<times> callback \<times> nat) option option" where
  "StartDogNoseThread d s = do {
     dog \<leftarrow> CuteDogs s d;
     case d_Handle dog of
       None \<Rightarrow> Some None
     | Some hnd \<Rightarrow> do { cb \<leftarrow> FunCallBack s; Some (Some (hnd, cb, d_Master dog)) }
   }"

text \<open>One frame delivered by \<^verbatim>\<open>pcap_loop\<close> to the callback.\<close>

definition capture_frame ::
  "environ \<Rightarrow> callback \<Rightarrow> nat \<Rightarrow> nat \<Rightarrow> byte list \<Rightarrow> u32 \<Rightarrow> dogstate \<Rightarrow> (u32 \<times> dogstate) option" where
  "capture_frame env cb c caplen f n s = do {
     x \<leftarrow> (case cb of
            TcpCallback \<Rightarrow> tcp_ethernet_protocol_packet_callback caplen f n
          | UdpCallback \<Rightarrow> udp_ethernet_protocol_packet_callback caplen f n);
     case fst x of
       None \<Rightarrow> Some (snd x, s)
     | Some a \<Rightarrow> do {
         y \<leftarrow> SendTcp2Cats env a (drop (cap_data a) f) c s;
         Some (snd x, snd y)
       }
   }"

definition cancel_ok :: string where
  "cancel_ok = ''<iq type='result'><query xmlns='filter:new' action='cancel'><error id='OK' content=''
     @ quoted [] @ ''/></query></iq>''"

definition cancel_refused :: string where
  "cancel_refused = ''<iq type='result'><query xmlns='filter:new' action='cancel'><error id='401'/></query></iq>''"

definition StopDogNose :: "environ \<Rightarrow> nat \<Rightarrow> dogstate \<Rightarrow> (int \<times> dogstate) option" where
  "StopDogNose env c s =
     (case CuteDog (ClientInfo s c) of
        None \<Rightarrow> Some (0, s)
      | Some d \<Rightarrow> do {
          dog \<leftarrow> CuteDogs s d;
          case d_Handle dog of
            None \<Rightarrow> Some (0, s)
          | Some hnd \<Rightarrow> do {
              let s = log_effect (PcapClose hnd) s;
              _ \<leftarrow> (if d_Thid dog then Some () else None);
              let s = log_effect (PthreadCancel (tidp s)) s;
              let Ret = env_cancel env;
              let s = (if Ret \<noteq> 0 then s
                       else s\<lparr>CuteDogs := (CuteDogs s)(d := Some (dog\<lparr>d_Handle := None\<rparr>))\<rparr>);
              let Body = (if Ret \<noteq> 0
                then cancel_refused else cancel_ok);
              x \<leftarrow> post env c Body s;
              Some (if fst x then Ret else 0, snd x)
            }
        })"

section \<open>Messages\<close>

lemma length_fmt_s32: "length (fmt_s32 w) \<le> 11"
proof -
  have b: "- (2 ^ 31) \<le> sint w" "sint w < 2 ^ 31"
    using sint_ge [of w] sint_lt [of w] by simp_all
  have "nat (sint w) < 10 ^ Suc 9" "nat (- sint w) < 10 ^ Suc 9" using b by simp_all
  then have "length (show_base 10 (nat (sint w))) \<le> Suc 9" "length (show_base 10 (nat (- sint w))) \<le> Suc 9"
    by (intro length_show_base_le; simp)+
  then show ?thesis by (simp add: fmt_s32_def fmt_int_def)
qed

text \<open>The text is always shorter than the array of 4608 characters it is printed into.\<close>

lemma length_message_text:
  assumes "captured_fits a" and "length body \<le> 4096"
  shows "length (message_text a n sn body) < 4608"
proof -
  have "length (fmt_s32 w) \<le> 11" for w by (rule length_fmt_s32)
  note f = this [of "word_of_nat n"] this [of "word_of_nat (cap_size a)"] this [of sn]
  then show ?thesis using assms by (simp add: message_text_def quoted_def captured_fits_def)
qed

definition capped :: "captured \<Rightarrow> nat" where
  "capped a = (if MAX_TCPDATA_SIZE < cap_size a then MAX_TCPDATA_SIZE else cap_size a)"

definition cat_letter :: "captured \<Rightarrow> byte list \<Rightarrow> u32 \<Rightarrow> string" where
  "cat_letter a buf sn = message_text a (capped a) sn (encode_spec buf)"

lemma cat_letter_fits:
  assumes "captured_fits a" and "length buf \<le> MAX_TCPDATA_SIZE"
  shows "snprintf_str 4608 (cat_letter a buf sn) = cat_letter a buf sn"
proof -
  have "length (encode_spec buf) \<le> 4096"
    using assms(2) by (simp add: length_encode_spec MAX_TCPDATA_SIZE_def)
  then show ?thesis using length_message_text [OF assms(1)] by (simp add: snprintf_str_short cat_letter_def)
qed

section \<open>What a payload does\<close>

lemma hooker_run:
  "run_body (hooker_step env message) (map CliHook cs) s =
     do { x \<leftarrow> send_all (post env) cs message s; Some (\<not> fst x, snd x) }"
proof (induction cs arbitrary: s)
  case (Cons c cs)
  then show ?case by (cases "post env c message s") (auto simp: hooker_step_def)
qed simp

lemma hooker_loop:
  assumes "is_list (lk s) (HookHd d) (map CliHook cs)"
  shows "for_each lk (HookHd d) (hooker_step env message) s = run_body (hooker_step env message) (map CliHook cs) s"
  by (rule for_each_run [where P = "\<lambda>_ _. True"])
    (auto simp: assms hooker_step_def same_rest_def dest!: post_same_rest split: Option.bind_splits)

text \<open>The part of \<^verbatim>\<open>SendTcp2Cats\<close> up to its loop.\<close>

lemma SendTcp2Cats_first:
  fixes c :: nat
  assumes ok: "pool_ok s" and free: "free_cells s = m # ms"
    and a: "captured_fits a" and buf: "read_at 0 (capped a) tcpData = Some buf" "buf \<noteq> []" and mem: "env_malloc env"
  defines "message \<equiv> cat_letter a buf (iMsgNumID (ClientInfo s c) + 1)"
  assumes tk: "takes (env_realloc env m) message (m_stream (cells s m))"
  shows "\<exists>s1. posted s [m] (letters s message [c]) s1 \<and> lk s1 = lk s \<and> CuteDogs s1 = CuteDogs s
    \<and> dog_count s1 = dog_count s
    \<and> ClientInfo s1 = (ClientInfo s)(c := (ClientInfo s c)\<lparr>iMsgNumID := iMsgNumID (ClientInfo s c) + 1\<rparr>)
    \<and> SendTcp2Cats env a tcpData c s = do {
        d \<leftarrow> CuteDog (ClientInfo s c);
        dog \<leftarrow> CuteDogs s d;
        if list_notempty (HookHd d) (lk s)
        then do { r \<leftarrow> for_each lk (HookHd d) (hooker_step env message) s1; Some (\<not> fst r, snd r) }
        else Some (True, s1) }"
proof -
  have r: "rings_ok s" using ok by (simp add: pool_ok_def)
  obtain x where x: "IoGetSendMsgCell c s = Some (Some m, x)" "rings_ok x" "free_cells x = ms"
    "pFifoDogMsg x = pFifoDogMsg s" "same_rest s x"
    "cells x = (cells s)(m := (cells s m)\<lparr>m_client := Some c, m_session := iSessionID (ClientInfo s c),
        m_stream := reset_stream (m_stream (cells s m))\<rparr>)"
    using IoGetSendMsgCell_some [OF r free, of c] by blast
  obtain hs where hs: "push_stream_string (env_realloc env m) message (reset_stream (m_stream (cells s m))) = Some hs"
    "get_stream_ptr hs = Some message"
    using tk by (auto simp: takes_def)
  let ?y = "upd_client c (\<lambda>x. x\<lparr>iMsgNumID := iMsgNumID x + 1\<rparr>) x"
  let ?z = "upd_cell m (\<lambda>x. x\<lparr>m_stream := hs\<rparr>) ?y"
  let ?s1 = "IoPutSendMsgCell m ?z"
  have size1: "(if MAX_TCPDATA_SIZE < cap_size a then MAX_TCPDATA_SIZE else cap_size a) = capped a"
    by (simp add: capped_def)
  have len: "length buf = capped a" using buf(1) by (rule read_at_length)
  then have le: "length buf \<le> MAX_TCPDATA_SIZE" by (simp add: capped_def)
  then have en: "base64_encode True buf (int (capped a)) = Some (Some (encode_spec buf))"
    using encode_ok [OF buf(2)] len by (simp add: MAX_TCPDATA_SIZE_def)
  have ci: "ClientInfo x = ClientInfo s" "lk x = lk s" "CuteDogs x = CuteDogs s"
    using x(5) by (simp_all add: same_rest_def)
  have msg: "snprintf_str 4608 (message_text a (capped a) (iMsgNumID (ClientInfo s c) + 1) (encode_spec buf)) = message"
    using cat_letter_fits [OF a le] by (simp add: message_def cat_letter_def)
  have push: "push_cell_string env m message ?y = Some ?z"
    using x(6) hs(1) by (simp add: push_cell_string_def)
  have okz: "rings_ok ?z" "room_for 1 ?z" "free_cells ?z = ms" "queued_cells ?z = queued_cells s"
    using x ok free by (simp_all add: rings_ok_def room_for_def free_cells_def queued_cells_def pool_ok_def)
  note put = IoPutSendMsgCell_ok [OF okz(1,2), of m]
  have cm: "cell_message ?s1 m = (Some c, iSessionID (ClientInfo s c), Some message)"
    using put x(6) hs(2) by (simp add: cell_message_def)
  have room: "fifo_room (pFifoDogMsg ?s1) = fifo_room (pFifoDogMsg s)" using put x(4) by simp
  have "pool_ok ?s1"
    unfolding pool_ok_def using put okz(3,4) ok free room by (simp add: pool_ok_def)
  then have "posted s [m] (letters s message [c]) ?s1"
    unfolding posted_def using put okz(3,4) free cm x(6) by (simp add: letters_def)
  moreover have "lk ?s1 = lk s" "CuteDogs ?s1 = CuteDogs s" "dog_count ?s1 = dog_count s"
    "ClientInfo ?s1 = (ClientInfo s)(c := (ClientInfo s c)\<lparr>iMsgNumID := iMsgNumID (ClientInfo s c) + 1\<rparr>)"
    using put x(5) by (simp_all add: same_rest_def)
  moreover have "SendTcp2Cats env a tcpData c s = do {
        d \<leftarrow> CuteDog (ClientInfo s c);
        dog \<leftarrow> CuteDogs s d;
        if list_notempty (HookHd d) (lk s)
        then do { r \<leftarrow> for_each lk (HookHd d) (hooker_step env message) ?s1; Some (\<not> fst r, snd r) }
        else Some (True, ?s1) }"
    using x(1) buf(1) mem en msg push ci
    by (simp add: SendTcp2Cats_def size1 Let_def cong: if_cong)
  ultimately show ?thesis by blast
qed

lemma post_keeps_capture:
  "post env c str s = Some (b, s') \<Longrightarrow> FunCallBack s' = FunCallBack s \<and> pcap_handle s' = pcap_handle s"
  by (auto simp: post_def IoGetSendMsgCell_def push_cell_string_def IoPutSendMsgCell_def upd_cell_def
      split: Option.bind_splits option.splits prod.splits if_splits)

section \<open>Properties\<close>

text \<open>
  The message as the clients are to read it: an element \<^verbatim>\<open>message\<close> with the addresses and the
  ports, in it an element \<^verbatim>\<open>body\<close> with the number of bytes it carries, the size of the payload
  and the number of the message, and in that the encoded bytes.
\<close>

definition xml_attr :: "string \<times> string \<Rightarrow> string" where
  "xml_attr x = '' '' @ fst x @ ''='' @ [CHR 0x27] @ snd x @ [CHR 0x27]"

definition xml_elem :: "string \<Rightarrow> (string \<times> string) list \<Rightarrow> string \<Rightarrow> string" where
  "xml_elem n as body = ''<'' @ n @ concat (map xml_attr as) @ ''>'' @ body @ ''</'' @ n @ ''>''"

definition letter :: "captured \<Rightarrow> byte list \<Rightarrow> u32 \<Rightarrow> string" where
  "letter a buf sn =
     xml_elem ''message'' [(''from'', cap_from a), (''fp'', cap_fp a), (''to'', cap_to a), (''tp'', cap_tp a)]
       (xml_elem ''body'' [(''size'', fmt_s32 (word_of_nat (length buf))), (''rawsize'', fmt_s32 (word_of_nat (cap_size a))),
            (''sn'', fmt_s32 sn)]
          (encode_spec buf))"

lemma cat_letter_is: "length buf = capped a \<Longrightarrow> cat_letter a buf sn = letter a buf sn"
  by (simp add: cat_letter_def message_text_def letter_def xml_elem_def xml_attr_def quoted_def)

text \<open>
  C12. A captured payload is posted to the client that runs the cutedog and then to the hooked
  clients, in list order, as far as there are free cells, to all of them as one and the same
  message; the numbering of the first client goes up by one and no list changes.  The message is
  never cut: it carries the addresses, the ports, both sizes, the number and the encoding of the
  first 3072 bytes of the payload, and the encoding decodes to these bytes.
\<close>

theorem payload_reaches_all_cats:
  assumes sh: "shape s k" and ok: "pool_ok s" and free: "free_cells s \<noteq> []"
    and d: "CuteDog (ClientInfo s c) = Some d" "d \<in> set (k_dogs k)"
    and a: "captured_fits a" and buf: "min 3072 (cap_size a) \<le> length tcpData" "buf = take (min 3072 (cap_size a)) tcpData" "buf \<noteq> []"
    and mem: "env_malloc env" and letter: "message = letter a buf (iMsgNumID (ClientInfo s c) + 1)"
    and tk: "cells_take env message s (take (Suc (length (k_hook k d))) (free_cells s))"
  shows "\<exists>s'. SendTcp2Cats env a tcpData c s = Some (length (k_hook k d) < length (free_cells s), s')
    \<and> posted s (take (Suc (length (k_hook k d))) (free_cells s))
        (letters s message (c # take (length (free_cells s) - 1) (k_hook k d))) s'
    \<and> iMsgNumID (ClientInfo s' c) = iMsgNumID (ClientInfo s c) + 1 \<and> shape s' k
    \<and> length message < 4608
    \<and> base64_decode True (Some (encode_spec buf)) = Some (Some (buf @ replicate (pad_zeros buf + 1) 0))"
proof -
  let ?hooks = "k_hook k d"
  have n: "capped a = min 3072 (cap_size a)" by (simp add: capped_def MAX_TCPDATA_SIZE_def)
  then have rd: "read_at 0 (capped a) tcpData = Some buf" using buf(1,2) by (simp add: read_at_def)
  have message: "message = cat_letter a buf (iMsgNumID (ClientInfo s c) + 1)"
    using cat_letter_is [of buf a] letter read_at_length [OF rd] by simp
  obtain m ms where ms: "free_cells s = m # ms" using free by (cases "free_cells s") auto
  have t: "takes (env_realloc env m) message (m_stream (cells s m))"
    using tk ms by (simp add: cells_take_def)
  obtain s1 where s1: "posted s [m] (letters s message [c]) s1" "lk s1 = lk s" "CuteDogs s1 = CuteDogs s"
      "dog_count s1 = dog_count s"
      "ClientInfo s1 = (ClientInfo s)(c := (ClientInfo s c)\<lparr>iMsgNumID := iMsgNumID (ClientInfo s c) + 1\<rparr>)"
    and run: "SendTcp2Cats env a tcpData c s = do {
        d \<leftarrow> CuteDog (ClientInfo s c);
        dog \<leftarrow> CuteDogs s d;
        if list_notempty (HookHd d) (lk s)
        then do { r \<leftarrow> for_each lk (HookHd d) (hooker_step env message) s1; Some (\<not> fst r, snd r) }
        else Some (True, s1) }"
    using SendTcp2Cats_first [OF ok ms a rd buf(3) mem, of c] t unfolding message [symmetric] by blast
  have sh1: "shape s1 k" using shape_frame [OF sh] s1 by simp
  have free1: "free_cells s1 = ms" "pool_ok s1" using s1(1) ms by (simp_all add: posted_def)
  have "cells_take env message s1 (take (length ?hooks) ms)"
    using cells_take_posted [OF s1(1) _ ok, of env message "take (length ?hooks) ms" "drop (length ?hooks) ms"] tk ms by simp
  then obtain s2 where s2: "send_all (post env) ?hooks message s1 = Some (length ?hooks \<le> length ms, s2)"
    "delivered s1 (take (length ?hooks) ms) (map (\<lambda>c. (c, message)) (take (length ms) ?hooks)) s2"
    using mail.send_each [OF free1(2), of env message ?hooks] free1(1) by auto
  have res: "SendTcp2Cats env a tcpData c s = Some (length ?hooks \<le> length ms, s2)"
    using run d linked_dog [OF sh d(2)] hooks_loop [OF sh d(2)] hooker_loop [OF hooks_loop(1) [OF sh1 d(2)]]
      hooker_run [of env message ?hooks s1] s2(1)
    by auto
  have len: "length buf \<le> 3072" using buf(2) by simp
  have dec: "base64_decode True (Some (encode_spec buf)) = Some (Some (buf @ replicate (pad_zeros buf + 1) 0))"
    using decode_encode_spec [OF buf(3)] len by simp
  have "length (encode_spec buf) \<le> 4096" using len by (simp add: length_encode_spec)
  then have short: "length message < 4608"
    using length_message_text [OF a] by (simp add: message cat_letter_def)
  have "map (\<lambda>c. (Some c, iSessionID (ClientInfo s1 c), Some message)) cs = letters s message cs" for cs
    using s1(5) by (simp add: letters_def)
  then have "posted s1 (take (length ?hooks) ms) (letters s message (take (length ms) ?hooks)) s2"
    using s2(2) by (simp add: delivered_def comp_def)
  from posted_trans [OF s1(1) this ok]
  have "posted s (take (Suc (length ?hooks)) (free_cells s))
      (letters s message (c # take (length (free_cells s) - 1) ?hooks)) s2"
    using ms by (simp add: letters_def)
  moreover have "shape s2 k" "iMsgNumID (ClientInfo s2 c) = iMsgNumID (ClientInfo s c) + 1"
    using s2(2) shape_same_rest [OF _ sh1] s1(5) by (simp_all add: delivered_def same_rest_def)
  ultimately show ?thesis using res dec short ms by (intro exI [of _ s2]) (auto simp: less_Suc_eq_le)
qed

definition demo_captured :: captured where
  "demo_captured = \<lparr>cap_from = ''10.0.0.1'', cap_fp = ''80'', cap_to = ''10.0.0.2'', cap_tp = ''4000'',
     cap_data = 54, cap_size = 3\<rparr>"

definition demo_message :: string where
  "demo_message = ''<message from='10.0.0.1' fp='80' to='10.0.0.2' tp='4000'><body size='3' rawsize='3' sn='1'>YWJj</body></message>''"

lemma demo_letter: "cat_letter demo_captured [0x61, 0x62, 0x63] 1 = demo_message"
  by code_simp

lemma demo_spec: "demo_message = letter demo_captured [0x61, 0x62, 0x63] 1"
  by code_simp

lemma demo_captured_ok: "captured_fits demo_captured" "capped demo_captured = 3"
  by (simp_all add: demo_captured_def captured_fits_def capped_def MAX_TCPDATA_SIZE_def)

lemma demo_message_ok: "no_nul demo_message" "length demo_message \<le> 1024"
  by (simp_all add: demo_message_def)

theorem payload_reaches_all_cats_witness:
  "\<exists>s'. SendTcp2Cats calm demo_captured [0x61, 0x62, 0x63, 0x64] 1 yard = Some (True, s')
    \<and> posted yard [0, 1] [(Some 1, 5, Some demo_message), (Some 2, 6, Some demo_message)] s'
    \<and> iMsgNumID (ClientInfo s' 1) = 1 \<and> shape s' yard_kennel"
proof -
  have k: "k_hook yard_kennel 0 = [2]" "k_dogs yard_kennel = [0]" by (simp_all add: yard_kennel_def)
  have c: "CuteDog (ClientInfo yard 1) = Some 0" "iMsgNumID (ClientInfo yard 1) = 0"
    by (simp_all add: yard_def blank_client_def)
  have sz: "min 3072 (cap_size demo_captured) = 3" by (simp add: demo_captured_def)
  have r: "min 3072 (cap_size demo_captured) \<le> length [0x61, 0x62, 0x63, 0x64 :: byte]"
    "[0x61, 0x62, 0x63 :: byte] = take (min 3072 (cap_size demo_captured)) [0x61, 0x62, 0x63, 0x64]"
    by (simp_all add: sz numeral_3_eq_3)
  have m: "demo_message = letter demo_captured [0x61, 0x62, 0x63] (iMsgNumID (ClientInfo yard 1) + 1)"
    unfolding c add_0 by (rule demo_spec)
  have t: "cells_take calm demo_message yard (take (Suc (length (k_hook yard_kennel 0))) (free_cells yard))"
    by (rule yard_takes) (rule demo_message_ok)+
  have e: "env_malloc calm" by (simp add: calm_def)
  have f: "free_cells yard \<noteq> []" "0 \<in> set (k_dogs yard_kennel)" "[0x61, 0x62, 0x63] \<noteq> ([] :: byte list)"
    by (simp_all add: yard_free k)
  have t1: "take (Suc (length (k_hook yard_kennel 0))) (free_cells yard) = [0, 1]"
    "(length (k_hook yard_kennel 0) < length (free_cells yard)) = True"
    by (simp_all add: k yard_free)
  have t2: "letters yard demo_message (1 # take (length (free_cells yard) - 1) (k_hook yard_kennel 0))
      = [(Some 1, 5, Some demo_message), (Some 2, 6, Some demo_message)]"
    by (simp add: k yard_free letters_def yard_sessions)
  show ?thesis
    using payload_reaches_all_cats [OF yard_shape yard_pool f(1) c(1) f(2) demo_captured_ok(1) r f(3) e m t]
    unfolding t1 t2 c(2) add_0 by blast
qed

lemma self_loop_drains:
  assumes "pool_ok s" "nxt (lk s) (CliHook c) = Some (CliHook c)" "cells_take env message s (free_cells s)"
  shows "\<exists>s'. list_for_each lk (HookHd d) (hooker_step env message) (CliHook c) s = Some (True, s')
    \<and> posted s (free_cells s) (letters s message (replicate (length (free_cells s)) c)) s' \<and> free_cells s' = []"
  using assms
proof (induction "free_cells s" arbitrary: s)
  case Nil
  then have "hooker_step env message (CliHook c) s = Some (True, s)"
    using post_exhausted [of s env c message] by (simp add: hooker_step_def)
  with Nil show ?case
    by (auto simp: list_for_each.simps [of _ "HookHd d" _ "CliHook c"] letters_def posted_refl)
next
  case (Cons m ms)
  have free: "free_cells s = m # ms" using Cons.hyps(2) by simp
  have t: "takes (env_realloc env m) message (m_stream (cells s m))"
    using Cons.prems(3) free by (simp add: cells_take_def)
  obtain s1 where s1: "post env c message s = Some (True, s1)" "posted s [m] (letters s message [c]) s1" "same_rest s s1"
    using post_posted [OF Cons.prems(1) free t] by blast
  have fr: "ms = free_cells s1" "pool_ok s1" "nxt (lk s1) (CliHook c) = Some (CliHook c)"
    using s1(2,3) free Cons.prems(2) by (simp_all add: posted_def same_rest_def)
  have "cells_take env message s1 ms"
    using cells_take_posted [OF s1(2), of env message ms "[]"] Cons.prems(1,3) free by simp
  then obtain s2 where s2: "list_for_each lk (HookHd d) (hooker_step env message) (CliHook c) s1 = Some (True, s2)"
    "posted s1 ms (letters s1 message (replicate (length ms) c)) s2" "free_cells s2 = []"
    using Cons.hyps(1) [OF fr(1-3)] fr(1) by auto
  have "list_for_each lk (HookHd d) (hooker_step env message) (CliHook c) s = Some (True, s2)"
    using s1(1) fr(3) s2(1) by (simp add: list_for_each.simps [of _ "HookHd d" _ "CliHook c" s] hooker_step_def)
  moreover have ls: "letters s1 message cs = letters s message cs" for cs
    using s1(3) by (simp add: letters_def same_rest_def)
  have "posted s (free_cells s) (letters s message (replicate (length (free_cells s)) c)) s2"
    using posted_trans [OF s1(2) s2(2) [unfolded ls] Cons.prems(1)] free by (simp add: letters_def)
  ultimately show ?case using s2(3) by blast
qed

text \<open>
  A client that hooks the cutedog whose latest hooker it already is makes the list of
  hookers circular: the next captured payload is sent to it again and again until the pool of
  free cells is empty.
\<close>

theorem hooked_twice_drains_the_pool:
  assumes sh: "shape s k" and name: "named s name (k_dogs k) = Some d" and hk: "k_hook k d = c # cs"
    and ok: "pool_ok s" and free: "free_cells s \<noteq> []" and p: "CuteDog (ClientInfo s p) = Some d"
    and a: "captured_fits a" and buf: "read_at 0 (capped a) tcpData = Some buf" "buf \<noteq> []" and mem: "env_malloc env"
    and message: "message = cat_letter a buf (iMsgNumID (ClientInfo s p) + 1)"
    and tk: "cells_take env message s (free_cells s)"
  shows "\<exists>s1 s2. AddHooker2CuteDog (Some name) c s = Some (True, s1)
    \<and> SendTcp2Cats env a tcpData p s1 = Some (False, s2)
    \<and> free_cells s2 = [] \<and> queued_cells s2 = queued_cells s @ free_cells s
    \<and> map (cell_message s2) (free_cells s) = letters s message (p # replicate (length (free_cells s) - 1) c)"
proof -
  have din: "d \<in> set (k_dogs k)" using named_in [OF name] by simp
  have l: "is_list (lk s) (HookHd d) (CliHook c # map CliHook cs)" using hooks_loop(1) [OF sh din] hk by simp
  then have n: "nxt (lk s) (HookHd d) = Some (CliHook c)" by (simp add: is_list_def)
  let ?h = "list_insert_between (CliHook c) (HookHd d) (CliHook c) (lk s)"
  have h: "list_add (CliHook c) (HookHd d) (lk s) = Some ?h" using n by (simp add: list_add_def)
  have loop: "nxt ?h (HookHd d) = Some (CliHook c)" "nxt ?h (CliHook c) = Some (CliHook c)"
    by (simp_all add: list_insert_between_def)
  let ?s1 = "upd_client c (\<lambda>x. x\<lparr>CuteDog := Some d\<rparr>) (s\<lparr>lk := ?h\<rparr>)"
  have add: "AddHooker2CuteDog (Some name) c s = Some (True, ?s1)"
    using AddHooker2CuteDog_loop [OF sh, of name c] name h by simp
  have ok1: "pool_ok ?s1" using ok by simp
  have f1: "free_cells ?s1 = free_cells s" "queued_cells ?s1 = queued_cells s" "cells ?s1 = cells s"
    by (simp_all add: free_cells_def queued_cells_def)
  obtain m ms where ms: "free_cells s = m # ms" using free by (cases "free_cells s") auto
  have p1: "CuteDog (ClientInfo ?s1 p) = Some d" "iMsgNumID (ClientInfo ?s1 p) = iMsgNumID (ClientInfo s p)"
    using p by simp_all
  have t: "takes (env_realloc env m) message (m_stream (cells ?s1 m))" using tk ms by (simp add: cells_take_def)
  have m1: "cat_letter a buf (iMsgNumID (ClientInfo ?s1 p) + 1) = message" by (simp only: p1(2) message)
  obtain s2 where s2: "posted ?s1 [m] (letters ?s1 message [p]) s2" "lk s2 = ?h"
      "ClientInfo s2 = (ClientInfo ?s1)(p := (ClientInfo ?s1 p)\<lparr>iMsgNumID := iMsgNumID (ClientInfo ?s1 p) + 1\<rparr>)"
    and run: "SendTcp2Cats env a tcpData p ?s1 = do {
        d \<leftarrow> CuteDog (ClientInfo ?s1 p);
        dog \<leftarrow> CuteDogs ?s1 d;
        if list_notempty (HookHd d) (lk ?s1)
        then do { r \<leftarrow> for_each lk (HookHd d) (hooker_step env message) s2; Some (\<not> fst r, snd r) }
        else Some (True, s2) }"
    using SendTcp2Cats_first [OF ok1 _ a buf mem, of m ms p, unfolded m1] ms f1(1) t by auto
  have ms2: "free_cells s2 = ms" "pool_ok s2" using s2(1) ms f1(1) by (simp_all add: posted_def)
  have "cells_take env message ?s1 ([m] @ ms)" using tk ms by (simp add: cells_take_def)
  then have ct: "cells_take env message s2 (free_cells s2)"
    using cells_take_posted [OF s2(1) _ ok1, of env message ms "[]"] ms f1(1) ms2(1) by simp
  obtain s3 where s3: "list_for_each lk (HookHd d) (hooker_step env message) (CliHook c) s2 = Some (True, s3)"
    "posted s2 ms (letters s2 message (replicate (length ms) c)) s3" "free_cells s3 = []"
    using self_loop_drains [OF ms2(2) _ ct, of c d] loop(2) s2(2) ms2(1) by auto
  have "SendTcp2Cats env a tcpData p ?s1 = Some (False, s3)"
    using run p1(1) linked_dog [OF sh din] loop(1) s2(2) s3(1) by (simp add: list_notempty_def for_each_def)
  moreover have ls: "letters s2 message zs = letters s message zs" "letters ?s1 message zs = letters s message zs" for zs
    using s2(3) by (simp_all add: letters_def)
  have "posted ?s1 (m # ms) (letters s message (p # replicate (length ms) c)) s3"
    using posted_trans [OF s2(1) [unfolded ls] s3(2) [unfolded ls] ok1] by (simp add: letters_def)
  then have "queued_cells s3 = queued_cells s @ free_cells s"
    "map (cell_message s3) (free_cells s) = letters s message (p # replicate (length (free_cells s) - 1) c)"
    using ms f1(2) by (simp_all add: posted_def)
  ultimately show ?thesis using add s3(3) by blast
qed

theorem hooked_twice_drains_the_pool_witness:
  "\<exists>s1 s2. AddHooker2CuteDog (Some ''rex'') 2 yard = Some (True, s1)
    \<and> SendTcp2Cats calm demo_captured [0x61, 0x62, 0x63, 0x64] 1 s1 = Some (False, s2)
    \<and> free_cells s2 = [] \<and> queued_cells s2 = [0, 1, 2, 3, 4, 5, 6, 7]
    \<and> map (cell_message s2) [0, 1, 2, 3, 4, 5, 6, 7]
      = (Some 1, 5, Some demo_message) # replicate 7 (Some 2, 6, Some demo_message)"
proof -
  have k: "k_hook yard_kennel 0 = [2]" "k_dogs yard_kennel = [0]" by (simp_all add: yard_kennel_def)
  have n: "named yard ''rex'' (k_dogs yard_kennel) = Some 0" by (simp add: k named_def yard_dog rex_def)
  have c: "CuteDog (ClientInfo yard 1) = Some 0" "iMsgNumID (ClientInfo yard 1) = 0"
    by (simp_all add: yard_def blank_client_def)
  have r: "read_at 0 (capped demo_captured) [0x61, 0x62, 0x63, 0x64] = Some [0x61, 0x62, 0x63]"
    by (simp add: demo_captured_ok read_at_def numeral_3_eq_3)
  have m: "demo_message = cat_letter demo_captured [0x61, 0x62, 0x63] (iMsgNumID (ClientInfo yard 1) + 1)"
    by (simp only: c demo_letter add_0)
  have t: "cells_take calm demo_message yard (free_cells yard)"
    by (rule yard_takes) (rule demo_message_ok)+
  have f: "free_cells yard \<noteq> []" "env_malloc calm" "[0x61, 0x62, 0x63] \<noteq> ([] :: byte list)"
    by (simp_all add: yard_free calm_def)
  have l: "letters yard demo_message (1 # replicate (length (free_cells yard) - 1) 2)
      = (Some 1, 5, Some demo_message) # replicate 7 (Some 2, 6, Some demo_message)"
    by (simp add: yard_free letters_def yard_sessions) (simp add: numeral_eq_Suc)
  show ?thesis
    using hooked_twice_drains_the_pool [OF yard_shape n k(1) yard_pool f(1) c(1) demo_captured_ok(1) r f(3) f(2) m t]
    unfolding l yard_queue append_Nil unfolding yard_free by blast
qed

lemma StartDogNose_outcome:
  assumes "pool_ok s" and free: "free_cells s = m # ms" and "env_handle env = None \<or> env_compile env" and "env_malloc env"
    and model: "model \<in> {0, 1}" and sh: "shape s k"
    and tk: "cells_take env create_ok s [m]" "cells_take env create_refused s [m]"
  shows "\<exists>r s'. StartDogNose env flt (Some name) c model s = Some (r, s') \<and> FunCallBack s' = Some TcpCallback
    \<and> (case env_handle env of
         None \<Rightarrow> r = 0 \<and> free_cells s' = free_cells s \<and> shape s' k \<and> effects s' = effects s
       | Some hnd \<Rightarrow>
           posted s [m] (letters s (if env_setfilter env = 0 then create_ok else create_refused) [c]) s'
           \<and> (if env_setfilter env \<noteq> 0 \<or> \<not> env_ethernet env
              then r = 0 \<and> shape s' k \<and> effects s' = effects s
              else shape s' (k\<lparr>k_dogs := dog_count s # k_dogs k, k_hook := (k_hook k)(dog_count s := [])\<rparr>)
                \<and> CuteDogs s' (dog_count s) = Some (new_dog hnd name flt c)
                \<and> CuteDog (ClientInfo s' c) = Some (dog_count s)
                \<and> (case env_create env of
                     None \<Rightarrow> r = 0 \<and> effects s' = effects s
                   | Some t \<Rightarrow> r = 1 \<and> tidp s' = t \<and> effects s' = effects s @ [PthreadCreate t (dog_count s)])))"
proof -
  let ?s0 = "s\<lparr>FunCallBack := Some TcpCallback, pcap_handle := env_handle env\<rparr>"
  have start: "StartDogNose env flt (Some name) c model s = do {
      x \<leftarrow> SetCapFilter env (env_handle env) (Some flt) c ?s0;
      if \<not> fst x then Some (0, snd x)
      else if \<not> env_ethernet env then Some (0, snd x)
      else do {
        y \<leftarrow> AddCuteDog2List env (pcap_handle (snd x)) (Some name) flt c (snd x);
        case fst y of
          None \<Rightarrow> Some (- 1, snd y)
        | Some d \<Rightarrow> (case env_create env of
             Some t \<Rightarrow> Some (1, log_effect (PthreadCreate t d) (snd y\<lparr>tidp := t\<rparr>))
           | None \<Rightarrow> Some (0, snd y)) } }"
    using model unfolding StartDogNose_def Let_def by (auto cong: if_cong)
  show ?thesis
  proof (cases "env_handle env")
    case None
    with start have "StartDogNose env flt (Some name) c model s = Some (0, ?s0)"
      by (simp add: SetCapFilter_def)
    with None sh show ?thesis by (simp add: shape_def free_cells_def)
  next
    case h: (Some hnd)
    let ?text = "if env_setfilter env = 0 then create_ok else create_refused"
    have ok0: "pool_ok ?s0" "free_cells ?s0 = m # ms" using assms(1) free
      by (simp_all add: pool_ok_def rings_ok_def free_cells_def queued_cells_def)
    have "takes (env_realloc env m) ?text (m_stream (cells ?s0 m))" using tk by (simp add: cells_take_def)
    then obtain s1 where s1: "post env c ?text ?s0 = Some (True, s1)" "posted ?s0 [m] (letters ?s0 ?text [c]) s1"
      "same_rest ?s0 s1"
      using post_posted [OF ok0] by blast
    have p1: "posted s [m] (letters s ?text [c]) s1"
      using s1(2) by (simp add: posted_def free_cells_def queued_cells_def letters_def)
    have cb: "FunCallBack s1 = Some TcpCallback" "pcap_handle s1 = Some hnd"
      using post_keeps_capture [OF s1(1)] h by simp_all
    have r1: "lk s1 = lk s" "ClientInfo s1 = ClientInfo s" "CuteDogs s1 = CuteDogs s" "effects s1 = effects s"
      "dog_count s1 = dog_count s"
      using s1(3) by (simp_all add: same_rest_def)
    have sh1: "shape s1 k" using shape_frame [OF sh] r1 by simp
    show ?thesis
    proof (cases "env_setfilter env \<noteq> 0 \<or> \<not> env_ethernet env")
      case True
      then have "StartDogNose env flt (Some name) c model s = Some (0, s1)"
        using start h s1(1) assms(3) by (auto simp: SetCapFilter_def)
      with True h p1 cb r1 sh1 show ?thesis by simp
    next
      case False
      let ?d = "dog_count s"
      let ?nd = "new_dog hnd name flt c"
      obtain g where g: "AddCuteDog2List env (Some hnd) (Some name) flt c s1 = Some (Some ?d,
          upd_client c (\<lambda>x. x\<lparr>CuteDog := Some ?d\<rparr>)
            (s1\<lparr>CuteDogs := (CuteDogs s1)(?d := Some ?nd), dog_count := Suc ?d, lk := g\<rparr>))"
        "shape (s1\<lparr>CuteDogs := (CuteDogs s1)(?d := Some ?nd), dog_count := Suc ?d, lk := g\<rparr>)
          (k\<lparr>k_dogs := ?d # k_dogs k, k_hook := (k_hook k)(?d := [])\<rparr>)"
        using AddCuteDog2List_shape [OF sh1 assms(4), of hnd name flt c] r1(5) by auto
      let ?s2 = "upd_client c (\<lambda>x. x\<lparr>CuteDog := Some ?d\<rparr>)
            (s1\<lparr>CuteDogs := (CuteDogs s1)(?d := Some ?nd), dog_count := Suc ?d, lk := g\<rparr>)"
      have p2: "posted s [m] (letters s ?text [c]) ?s2" using p1 posted_cong [of ?s2 s1] by simp
      have cb2: "FunCallBack ?s2 = Some TcpCallback" using cb by (simp add: upd_client_def)
      have x: "SetCapFilter env (env_handle env) (Some flt) c ?s0 = Some (True, s1)"
        using False h s1(1) assms(3) by (simp add: SetCapFilter_def)
      show ?thesis
      proof (cases "env_create env")
        case None
        then have "StartDogNose env flt (Some name) c model s = Some (0, ?s2)"
          using start x False cb(2) g(1) by simp
        with None False h p2 cb2 g(2) r1 show ?thesis by (intro exI conjI) (assumption | simp)+
      next
        case t: (Some t)
        let ?s3 = "log_effect (PthreadCreate t ?d) (?s2\<lparr>tidp := t\<rparr>)"
        have "StartDogNose env flt (Some name) c model s = Some (1, ?s3)"
          using start x False cb(2) g(1) t by simp
        moreover have "posted s [m] (letters s ?text [c]) ?s3"
          using p2 posted_cong [of ?s3 ?s2] by (simp add: log_effect_def)
        moreover have "shape ?s3 (k\<lparr>k_dogs := ?d # k_dogs k, k_hook := (k_hook k)(?d := [])\<rparr>)"
          using g(2) by (simp add: shape_def)
        moreover have "FunCallBack ?s3 = Some TcpCallback" "tidp ?s3 = t"
          using cb2 by (simp_all add: log_effect_def upd_client_def)
        ultimately show ?thesis using t False h r1 by (intro exI [of _ 1] exI [of _ ?s3]) simp
      qed
    qed
  qed
qed

text \<open>
  C28. What the start of a cutedog with a name does when there is a free message cell and memory
  for the cutedog, for every answer of libpcap and of thread creation:
  without a handle the client is told nothing; when the filter text is not compiled the start is
  undefined, since the result of \<^verbatim>\<open>pcap_compile\<close> is ignored and an uninitialised program
  installed; when the filter is refused the client is told so; when
  the interface is not an Ethernet it is told that the start succeeded although nothing was
  started; when no thread is created the cutedog stays in the list.  In every defined case the
  callback that is installed is the one for TCP, also for a filter that asks for udp.
\<close>

theorem start_dog_nose_outcomes:
  assumes "pool_ok s" and free: "free_cells s = m # ms" and "env_malloc env"
    and model: "model \<in> {0, 1}" and sh: "shape s k"
    and tk: "cells_take env create_ok s [m]" "cells_take env create_refused s [m]"
  shows "if env_handle env \<noteq> None \<and> \<not> env_compile env then StartDogNose env flt (Some name) c model s = None
    else \<exists>r s'. StartDogNose env flt (Some name) c model s = Some (r, s') \<and> FunCallBack s' = Some TcpCallback
    \<and> (case env_handle env of
         None \<Rightarrow> r = 0 \<and> free_cells s' = free_cells s \<and> shape s' k \<and> effects s' = effects s
       | Some hnd \<Rightarrow>
           posted s [m] (letters s (if env_setfilter env = 0 then create_ok else create_refused) [c]) s'
           \<and> (if env_setfilter env \<noteq> 0 \<or> \<not> env_ethernet env
              then r = 0 \<and> shape s' k \<and> effects s' = effects s
              else shape s' (k\<lparr>k_dogs := dog_count s # k_dogs k, k_hook := (k_hook k)(dog_count s := [])\<rparr>)
                \<and> CuteDogs s' (dog_count s) = Some (new_dog hnd name flt c)
                \<and> CuteDog (ClientInfo s' c) = Some (dog_count s)
                \<and> (case env_create env of
                     None \<Rightarrow> r = 0 \<and> effects s' = effects s
                   | Some t \<Rightarrow> r = 1 \<and> tidp s' = t \<and> effects s' = effects s @ [PthreadCreate t (dog_count s)])))"
  (is "if ?bad then _ else ?outcome")
proof (cases ?bad)
  case True
  then show ?thesis using model by (auto simp: StartDogNose_def SetCapFilter_def Let_def)
next
  case False
  have ?outcome by (rule StartDogNose_outcome [OF assms(1,2) _ assms(3-7)]) (use False in blast)
  then show ?thesis unfolding if_not_P [OF False] .
qed

theorem start_dog_nose_outcomes_witness:
  "StartDogNose (calm\<lparr>env_compile := False\<rparr>) ''(('' (Some ''max'') 2 1 yard = None
    \<and> (\<exists>r s'. StartDogNose calm ''udp port 53'' (Some ''max'') 2 1 yard = Some (r, s') \<and> FunCallBack s' = Some TcpCallback
    \<and> r = 1 \<and> posted yard [0] [(Some 2, 6, Some create_ok)] s' \<and> tidp s' = 3
    \<and> effects s' = [PthreadCreate 3 1] \<and> CuteDogs s' 1 = Some (new_dog 9 ''max'' ''udp port 53'' 2))"
proof -
  have f: "free_cells yard = 0 # [1, 2, 3, 4, 5, 6, 7]" by (simp add: yard_free)
  have e: "env_malloc calm" "1 \<in> {0, 1 :: nat}" and ec: "env_compile calm" by (simp_all add: calm_def)
  have t: "cells_take calm create_ok yard [0]" "cells_take calm create_refused yard [0]"
    by (rule yard_takes; simp add: create_ok_def create_refused_def quoted_def)+
  have v: "env_handle calm = Some 9" "env_setfilter calm = 0" "env_ethernet calm = True" "env_create calm = Some 3"
    by (simp_all add: calm_def)
  have y: "dog_count yard = 1" "effects yard = []" "letters yard create_ok [2] = [(Some 2, 6, Some create_ok)]"
    by (simp_all add: yard_def letters_def)
  obtain r s' where r: "StartDogNose calm ''udp port 53'' (Some ''max'') 2 1 yard = Some (r, s')"
      "FunCallBack s' = Some TcpCallback"
    and o: "case env_handle calm of
         None \<Rightarrow> r = 0 \<and> free_cells s' = free_cells yard \<and> shape s' yard_kennel \<and> effects s' = effects yard
       | Some hnd \<Rightarrow>
           posted yard [0] (letters yard (if env_setfilter calm = 0 then create_ok else create_refused) [2]) s'
           \<and> (if env_setfilter calm \<noteq> 0 \<or> \<not> env_ethernet calm
              then r = 0 \<and> shape s' yard_kennel \<and> effects s' = effects yard
              else shape s' (yard_kennel\<lparr>k_dogs := dog_count yard # k_dogs yard_kennel,
                    k_hook := (k_hook yard_kennel)(dog_count yard := [])\<rparr>)
                \<and> CuteDogs s' (dog_count yard) = Some (new_dog hnd ''max'' ''udp port 53'' 2)
                \<and> CuteDog (ClientInfo s' 2) = Some (dog_count yard)
                \<and> (case env_create calm of
                     None \<Rightarrow> r = 0 \<and> effects s' = effects yard
                   | Some t \<Rightarrow> r = 1 \<and> tidp s' = t \<and> effects s' = effects yard @ [PthreadCreate t (dog_count yard)]))"
    using start_dog_nose_outcomes [OF yard_pool f e yard_shape t, of "''udp port 53''" "''max''" 2] ec by auto
  let ?e = "calm\<lparr>env_compile := False\<rparr>"
  have e': "env_malloc ?e" "1 \<in> {0, 1 :: nat}" "env_handle ?e \<noteq> None \<and> \<not> env_compile ?e" by (simp_all add: calm_def)
  have t': "cells_take ?e create_ok yard [0]" "cells_take ?e create_refused yard [0]"
    using t by (auto simp: cells_take_def calm_def)
  have "StartDogNose ?e ''(('' (Some ''max'') 2 1 yard = None"
    using start_dog_nose_outcomes [OF yard_pool f e'(1,2) yard_shape t', of "''((''" "''max''" 2] e'(3) by simp
  moreover from r o have "\<exists>r s'. StartDogNose calm ''udp port 53'' (Some ''max'') 2 1 yard = Some (r, s')
    \<and> FunCallBack s' = Some TcpCallback
    \<and> r = 1 \<and> posted yard [0] [(Some 2, 6, Some create_ok)] s' \<and> tidp s' = 3
    \<and> effects s' = [PthreadCreate 3 1] \<and> CuteDogs s' 1 = Some (new_dog 9 ''max'' ''udp port 53'' 2)"
    unfolding v y option.case by (intro exI [of _ r] exI [of _ s']) (simp add: y)
  ultimately show ?thesis by blast
qed

lemma yard_start:
  "\<exists>r s'. StartDogNose calm ''udp port 53'' (Some ''max'') 2 1 yard = Some (r, s') \<and> FunCallBack s' = Some TcpCallback
    \<and> r = 1 \<and> posted yard [0] [(Some 2, 6, Some create_ok)] s' \<and> tidp s' = 3
    \<and> effects s' = [PthreadCreate 3 1] \<and> CuteDogs s' 1 = Some (new_dog 9 ''max'' ''udp port 53'' 2)"
proof -
  have f: "free_cells yard = 0 # [1, 2, 3, 4, 5, 6, 7]" by (simp add: yard_free)
  have e: "env_compile calm" "env_malloc calm" "1 \<in> {0, 1 :: nat}" by (simp_all add: calm_def)
  have t: "cells_take calm create_ok yard [0]" "cells_take calm create_refused yard [0]"
    by (rule yard_takes; simp add: create_ok_def create_refused_def quoted_def)+
  have v: "env_handle calm = Some 9" "env_setfilter calm = 0" "env_ethernet calm = True" "env_create calm = Some 3"
    by (simp_all add: calm_def)
  have y: "dog_count yard = 1" "effects yard = []" "letters yard create_ok [2] = [(Some 2, 6, Some create_ok)]"
    by (simp_all add: yard_def letters_def)
  obtain r s' where r: "StartDogNose calm ''udp port 53'' (Some ''max'') 2 1 yard = Some (r, s')"
      "FunCallBack s' = Some TcpCallback"
    and o: "case env_handle calm of
         None \<Rightarrow> r = 0 \<and> free_cells s' = free_cells yard \<and> shape s' yard_kennel \<and> effects s' = effects yard
       | Some hnd \<Rightarrow>
           posted yard [0] (letters yard (if env_setfilter calm = 0 then create_ok else create_refused) [2]) s'
           \<and> (if env_setfilter calm \<noteq> 0 \<or> \<not> env_ethernet calm
              then r = 0 \<and> shape s' yard_kennel \<and> effects s' = effects yard
              else shape s' (yard_kennel\<lparr>k_dogs := dog_count yard # k_dogs yard_kennel,
                    k_hook := (k_hook yard_kennel)(dog_count yard := [])\<rparr>)
                \<and> CuteDogs s' (dog_count yard) = Some (new_dog hnd ''max'' ''udp port 53'' 2)
                \<and> CuteDog (ClientInfo s' 2) = Some (dog_count yard)
                \<and> (case env_create calm of
                     None \<Rightarrow> r = 0 \<and> effects s' = effects yard
                   | Some t \<Rightarrow> r = 1 \<and> tidp s' = t \<and> effects s' = effects yard @ [PthreadCreate t (dog_count yard)]))"
    using StartDogNose_outcome [OF yard_pool f disjI2 [OF e(1)] e(2,3) yard_shape t, of "''udp port 53''" "''max''" 2] by blast
  with o show ?thesis unfolding v y option.case by (intro exI [of _ r] exI [of _ s']) (simp add: y)
qed

lemma StartDogNose_1:
  assumes "StartDogNose env flt Name c model s = Some (1, s1)"
  shows "\<exists>t. env_create env = Some t \<and> tidp s1 = t \<and> effects s1 = effects s @ [PthreadCreate t (dog_count s)]
    \<and> (\<forall>d. d \<noteq> dog_count s \<longrightarrow> CuteDogs s1 d = CuteDogs s d)
    \<and> (\<forall>e. e \<noteq> c \<longrightarrow> CuteDog (ClientInfo s1 e) = CuteDog (ClientInfo s e))"
proof -
  let ?s0 = "s\<lparr>FunCallBack := Some TcpCallback, pcap_handle := env_handle env\<rparr>"
  obtain b u y where u: "SetCapFilter env (env_handle env) (Some flt) c ?s0 = Some (b, u)"
    and y: "AddCuteDog2List env (pcap_handle u) Name flt c u = Some y"
    and r: "(case fst y of None \<Rightarrow> Some (- 1, snd y)
          | Some d \<Rightarrow> (case env_create env of
             Some t \<Rightarrow> Some (1, log_effect (PthreadCreate t d) (snd y\<lparr>tidp := t\<rparr>))
           | None \<Rightarrow> Some (0, snd y))) = Some (1 :: int, s1)"
    using assms unfolding StartDogNose_def Let_def
    by (auto split: if_splits Option.bind_splits)
  have "same_rest ?s0 u"
    using u post_same_rest by (auto simp: SetCapFilter_def split: option.splits if_splits Option.bind_splits)
  then have u': "effects u = effects s" "dog_count u = dog_count s" "CuteDogs u = CuteDogs s" "ClientInfo u = ClientInfo s"
    by (simp_all add: same_rest_def)
  from r obtain d t where dt: "fst y = Some d" "env_create env = Some t"
    "s1 = log_effect (PthreadCreate t d) (snd y\<lparr>tidp := t\<rparr>)"
    by (auto split: option.splits)
  from y dt(1) have "d = dog_count u" "effects (snd y) = effects u"
    "\<forall>e. e \<noteq> dog_count u \<longrightarrow> CuteDogs (snd y) e = CuteDogs u e"
    "\<forall>e. e \<noteq> c \<longrightarrow> ClientInfo (snd y) e = ClientInfo u e"
    by (auto simp: AddCuteDog2List_def Let_def split: option.splits if_splits Option.bind_splits)
  with dt u' show ?thesis by simp
qed

text \<open>
  When a client stops its cutedog after another client has started one, the handle that is
  closed is its own, but the thread that is cancelled is the one of the other client: all
  cutedogs point to the one global thread number.  The thread of the stopped cutedog keeps
  running on the closed handle.
\<close>

theorem stop_cancels_last_started_thread:
  assumes start: "StartDogNose env flt Name c2 model s = Some (1, s1)"
    and c1: "c1 \<noteq> c2" "CuteDog (ClientInfo s c1) = Some d1" "CuteDogs s d1 = Some dog" "d1 \<noteq> dog_count s"
    and dog: "d_Handle dog = Some hnd" "d_Thid dog"
    and ok: "pool_ok s1"
    and tk: "cells_take env' (if env_cancel env' = 0 then cancel_ok else cancel_refused) s1 (take 1 (free_cells s1))"
  shows "\<exists>t r s2. env_create env = Some t \<and> effects s1 = effects s @ [PthreadCreate t (dog_count s)]
    \<and> StopDogNose env' c1 s1 = Some (r, s2) \<and> effects s2 = effects s1 @ [PcapClose hnd, PthreadCancel t]
    \<and> (env_cancel env' = 0 \<longrightarrow> d_Handle (dog_at s2 d1) = None)"
proof -
  obtain t where t: "env_create env = Some t" "tidp s1 = t" "effects s1 = effects s @ [PthreadCreate t (dog_count s)]"
    "CuteDogs s1 d1 = Some dog" "CuteDog (ClientInfo s1 c1) = Some d1"
    using StartDogNose_1 [OF start] c1 by auto
  let ?str = "if env_cancel env' = 0 then cancel_ok else cancel_refused"
  let ?s = "log_effect (PthreadCancel t) (log_effect (PcapClose hnd) s1)"
  let ?s' = "if env_cancel env' \<noteq> 0 then ?s else ?s\<lparr>CuteDogs := (CuteDogs ?s)(d1 := Some (dog\<lparr>d_Handle := None\<rparr>))\<rparr>"
  have rings: "pFifoDogMsg ?s' = pFifoDogMsg s1" "pFifoDogMsgFree ?s' = pFifoDogMsgFree s1" "cells ?s' = cells s1"
    by (simp_all add: log_effect_def)
  then have ok': "pool_ok ?s'" "free_cells ?s' = free_cells s1"
    using ok by (simp_all add: pool_ok_def rings_ok_def free_cells_def queued_cells_def)
  obtain b s2 where s2: "post env' c1 ?str ?s' = Some (b, s2)"
  proof (cases "free_cells s1")
    case Nil
    then have "free_cells ?s' = []" by (simp only: ok'(2))
    from post_exhausted [OF ok'(1) this] that show thesis by blast
  next
    case (Cons m ms)
    then have "takes (env_realloc env' m) ?str (m_stream (cells ?s' m))" using tk rings(3) by (simp add: cells_take_def)
    moreover have "free_cells ?s' = m # ms" by (simp only: ok'(2) Cons)
    ultimately show thesis using that post_posted [OF ok'(1)] by blast
  qed
  have "StopDogNose env' c1 s1 = Some (if b then env_cancel env' else 0, s2)"
    using t dog s2 by (auto simp: StopDogNose_def Let_def log_effect_def cong: if_cong)
  moreover have "same_rest ?s' s2" by (rule post_same_rest [OF s2])
  then have "effects s2 = effects s1 @ [PcapClose hnd, PthreadCancel t]" "CuteDogs s2 = CuteDogs ?s'"
    by (auto simp: same_rest_def log_effect_def split: if_splits)
  moreover have "env_cancel env' = 0 \<longrightarrow> d_Handle (dog_at s2 d1) = None"
    using calculation(3) by (simp add: dog_at_def)
  ultimately show ?thesis using t by blast
qed

theorem stop_cancels_last_started_thread_witness:
  "\<exists>s1 r s2. StartDogNose calm ''udp port 53'' (Some ''max'') 2 1 yard = Some (1, s1)
    \<and> StopDogNose calm 1 s1 = Some (r, s2)
    \<and> effects s2 = [PthreadCreate 3 1, PcapClose 7, PthreadCancel 3]"
proof -
  obtain s1 where s1: "StartDogNose calm ''udp port 53'' (Some ''max'') 2 1 yard = Some (1, s1)"
    and p: "posted yard [0] [(Some 2, 6, Some create_ok)] s1"
    using yard_start by blast
  have f: "free_cells s1 = [1, 2, 3, 4, 5, 6, 7]" "pool_ok s1" "cells s1 1 = cells yard 1"
    using p yard_free by (simp_all add: posted_def)
  have y: "CuteDog (ClientInfo yard 1) = Some 0" "CuteDogs yard 0 = Some rex" "0 \<noteq> dog_count yard" "effects yard = []"
    "d_Handle rex = Some 7" "d_Thid rex" "dog_count yard = 1"
    by (simp_all add: yard_def rex_def)
  have c: "env_cancel calm = 0" "env_create calm = Some 3" by (simp_all add: calm_def)
  have "cells_take calm cancel_ok yard [1]" by (rule yard_takes) (simp_all add: cancel_ok_def quoted_def)
  then have t: "cells_take calm (if env_cancel calm = 0 then cancel_ok else cancel_refused) s1 (take 1 (free_cells s1))"
    using f(3) by (simp add: f(1) c cells_take_def)
  show ?thesis
    using stop_cancels_last_started_thread [OF s1 _ y(1,2,3,5,6) f(2) t] s1 by (auto simp: y(4,7) c(2))
qed

lemma SendTcp2Cats_dangling:
  assumes "pool_ok s" "free_cells s \<noteq> []" "CuteDog (ClientInfo s c) = Some d" "CuteDogs s d = None"
  shows "SendTcp2Cats env a tcpData c s = None"
proof -
  obtain m ms where ms: "free_cells s = m # ms" using assms(2) by (cases "free_cells s") auto
  obtain x where x: "IoGetSendMsgCell c s = Some (Some m, x)" "same_rest s x"
    using pool_ok_get [OF assms(1) ms, of c] by blast
  have "push_cell_string env m str y = Some z \<Longrightarrow> CuteDogs z = CuteDogs y \<and> ClientInfo z = ClientInfo y" for str y z
    using push_cell_string_same_rest by (auto simp: same_rest_def)
  then show ?thesis
    using x assms(3,4) by (auto simp: SendTcp2Cats_def same_rest_def Let_def split: Option.bind_splits cong: if_cong)
qed

text \<open>
  C37. When a cutedog is removed, its hookers are told in list order, each by one message in a
  cell of its own, as far as there are free cells; the cutedog leaves the list and is freed.
  The pointers of its hookers are not reset, so they point to freed memory afterwards: a payload
  captured for another client that still points to it is undefined behaviour.
\<close>

theorem removed_cutedog_dangles:
  assumes "shape s k" and "CuteDog (ClientInfo s c) = Some d" and "d \<in> set (k_dogs k)" and "pool_ok s"
    and "cells_take env (lose_message (dog_at s d)) s (take (length (k_hook k d)) (free_cells s))"
  shows "\<exists>s'. DelCuteDogInList env c s = Some (True, s')
    \<and> posted s (take (length (k_hook k d)) (free_cells s))
        (letters s (lose_message (dog_at s d)) (take (length (free_cells s)) (k_hook k d))) s'
    \<and> shape s' (k\<lparr>k_dogs := remove1 d (k_dogs k), k_hook := (k_hook k)(d := drop (length (free_cells s)) (k_hook k d))\<rparr>)
    \<and> CuteDogs s' d = None \<and> CuteDog (ClientInfo s' c) = None
    \<and> (\<forall>e env' a tcpData. e \<noteq> c \<and> CuteDog (ClientInfo s e) = Some d \<and> free_cells s' \<noteq> [] \<longrightarrow>
        CuteDog (ClientInfo s' e) = Some d \<and> SendTcp2Cats env' a tcpData e s' = None)"
proof -
  obtain s' where s': "DelCuteDogInList env c s = Some (True, s')"
    "posted s (take (length (k_hook k d)) (free_cells s))
        (letters s (lose_message (dog_at s d)) (take (length (free_cells s)) (k_hook k d))) s'"
    "shape s' (k\<lparr>k_dogs := remove1 d (k_dogs k), k_hook := (k_hook k)(d := drop (length (free_cells s)) (k_hook k d))\<rparr>)"
    "CuteDogs s' = (CuteDogs s)(d := None)" "ClientInfo s' = (ClientInfo s)(c := (ClientInfo s c)\<lparr>CuteDog := None\<rparr>)"
    using DelCuteDogInList_shape [OF assms] by blast
  have "SendTcp2Cats env' a tcpData e s' = None"
    if "e \<noteq> c" "CuteDog (ClientInfo s e) = Some d" "free_cells s' \<noteq> []" for e env' a tcpData
    using that s'(2,4,5) by (intro SendTcp2Cats_dangling) (auto simp: posted_def)
  with s' show ?thesis by (intro exI [of _ s']) simp
qed

theorem removed_cutedog_dangles_witness:
  "\<exists>s'. DelCuteDogInList calm 1 yard = Some (True, s')
    \<and> posted yard [0]
        [(Some 2, 6, Some ''<iq type='set'><query xmlns='filter:notice' action='lose'><username>rex</username></query></iq>'')] s'
    \<and> shape s' (yard_kennel\<lparr>k_dogs := [], k_hook := (k_hook yard_kennel)(0 := [])\<rparr>)
    \<and> CuteDogs s' 0 = None \<and> CuteDog (ClientInfo s' 1) = None
    \<and> SendTcp2Cats calm demo_captured [0x61, 0x62, 0x63] 2 s' = None"
proof -
  let ?m = "''<iq type='set'><query xmlns='filter:notice' action='lose'><username>rex</username></query></iq>''"
  have m: "lose_message (dog_at yard 0)
      = ''<iq type='set'><query xmlns='filter:notice' action='lose'><username>rex</username></query></iq>''"
    by (simp add: lose_message_def yard_dog rex_def snprintf_str_def)
  have k: "k_hook yard_kennel 0 = [2]" "k_dogs yard_kennel = [0]" by (simp_all add: yard_kennel_def)
  have c: "CuteDog (ClientInfo yard 1) = Some 0" "CuteDog (ClientInfo yard 2) = Some 0"
    "letters yard str [2] = [(Some 2, 6, Some str)]" for str
    by (simp_all add: yard_def letters_def)
  have t: "cells_take calm (lose_message (dog_at yard 0)) yard (take (length (k_hook yard_kennel 0)) (free_cells yard))"
    by (rule yard_takes) (simp_all add: m)
  obtain s' where s': "DelCuteDogInList calm 1 yard = Some (True, s')" "posted yard [0] [(Some 2, 6, Some ?m)] s'"
    "shape s' (yard_kennel\<lparr>k_dogs := [], k_hook := (k_hook yard_kennel)(0 := [])\<rparr>)"
    "CuteDogs s' 0 = None" "CuteDog (ClientInfo s' 1) = None"
    and u: "\<forall>e env' a tcpData. e \<noteq> 1 \<and> CuteDog (ClientInfo yard e) = Some 0 \<and> free_cells s' \<noteq> [] \<longrightarrow>
        CuteDog (ClientInfo s' e) = Some 0 \<and> SendTcp2Cats env' a tcpData e s' = None"
    using removed_cutedog_dangles [OF yard_shape c(1) _ yard_pool t] by (simp only: k m yard_free) (auto simp: c(3))
  have "free_cells s' = [1, 2, 3, 4, 5, 6, 7]" using s'(2) yard_free by (simp add: posted_def)
  with u c(2) have "SendTcp2Cats calm demo_captured [0x61, 0x62, 0x63] 2 s' = None" by simp
  with s' show ?thesis by blast
qed

end
