(* ===== verification/DogIo.thy ===== *)
theory DogIo
  imports DogNose Jabber
begin

text \<open>
  The protocol of the server, \<^verbatim>\<open>src/CuteDog/cdogio.c\<close>: what a parsed stanza of a
  client does.  The parser calls \<^verbatim>\<open>IOProcessCatMsg\<close> for each start of a stream and
  each complete stanza; the stanza is the tree of theory \<open>Iks\<close>.  Every reply goes through
  a message cell; a handler that finds no free cell returns without a reply.
\<close>

section \<open>Handlers\<close>

definition handshake :: string where
  "handshake = ''<stream:stream from='dog' xmlns='jabber:cat' xmlns:stream='http://etherx.jabber.org/streams' id='00'>''"

definition CatHandShake :: "environ \<Rightarrow> nat \<Rightarrow> dogstate \<Rightarrow> (bool \<times> dogstate) option" where
  "CatHandShake env c s = post env c handshake s"

definition login_ok :: string where
  "login_ok = ''<iq type='result'><query xmlns='jabber:iq:auth'><error id='OK'/></query></iq>''"

definition login_taken :: string where
  "login_taken = ''<iq type='result'><query xmlns='jabber:iq:auth'><error id='400'/></query></iq>''"

text \<open>The cell is taken before the name is looked at, and not given back without a name.\<close>

definition RespCatLogin0 :: "environ \<Rightarrow> iks option \<Rightarrow> nat \<Rightarrow> dogstate \<Rightarrow> (bool \<times> dogstate) option" where
  "RespCatLogin0 env node c s = do {
     DogName \<leftarrow> iks_find_cdata node ''username'';
     x \<leftarrow> IoGetSendMsgCell c s;
     case fst x of
       None \<Rightarrow> Some (False, snd x)
     | Some m \<Rightarrow>
         (case DogName of
            None \<Rightarrow> Some (False, snd x)
          | Some name \<Rightarrow> do {
              found \<leftarrow> CheckNameInList name (snd x);
              s \<leftarrow> push_cell_string env m (if \<not> found then login_ok else login_taken) (snd x);
              Some (True, IoPutSendMsgCell m s)
            })
   }"

text \<open>\<^verbatim>\<open>strcmp(a, "...") == 0\<close>, undefined for NULL.\<close>

definition same_str :: "string option \<Rightarrow> string \<Rightarrow> bool option" where
  "same_str a b = do { a \<leftarrow> a; Some (strcmp a b = 0) }"

definition RespCatAllFilters :: "environ \<Rightarrow> iks option \<Rightarrow> nat \<Rightarrow> dogstate \<Rightarrow> (bool \<times> dogstate) option" where
  "RespCatAllFilters env node c s = do {
     action \<leftarrow> iks_find_attrib node ''action'';
     shown \<leftarrow> same_str action ''show'';
     if shown
     then do {
       Filter \<leftarrow> GetAllCuteDogsFilterString 1024 s;
       if Filter \<noteq> []
       then do {
         x \<leftarrow> post env c (snprintf_str (1024 + 128)
           (''<iq type='result'><query xmlns='filter:show' >'' @ Filter @ ''</query></iq>'')) s;
         Some (False, snd x)
       }
       else Some (False, s)
     }
     else Some (False, s)
   }"

definition hook_ok :: string where
  "hook_ok = ''<iq type='result'><query xmlns='filter:hook' action='hook'><error id='OK'/></query></iq>''"
definition hook_unknown :: string where
  "hook_unknown = ''<iq type='result'><query xmlns='filter:hook' action='hook'><error id='301'/></query></iq>''"
definition unhook_ok :: string where
  "unhook_ok = ''<iq type='result'><query xmlns='filter:hook' action='cancel'><error id='OK'/></query></iq>''"
definition unhook_unknown :: string where
  "unhook_unknown = ''<iq type='result'><query xmlns='filter:hook' action='cancel'><error id='301'/></query></iq>''"

definition RespCatSetHooker :: "environ \<Rightarrow> iks option \<Rightarrow> nat \<Rightarrow> dogstate \<Rightarrow> (bool \<times> dogstate) option" where
  "RespCatSetHooker env node c s = do {
     action \<leftarrow> iks_find_attrib node ''action'';
     Item \<leftarrow> iks_find_cdata node ''item'';
     item \<leftarrow> iks_find node ''item'';
     CuteCatName \<leftarrow> iks_find_attrib item ''cat'';
     if iks_strcmp action (Some ''hook'') = 0
     then do {
       y \<leftarrow> AddHooker2CuteDog Item c s;
       let s = (if fst y then upd_client c (\<lambda>x. x\<lparr>lType := CLIENT_USER_HOOKER\<rparr>) (snd y) else snd y);
       x \<leftarrow> post env c (if fst y then hook_ok else hook_unknown) s;
       Some (False, snd x)
     }
     else if iks_strcmp action (Some ''cancel'') = 0
     then do {
       y \<leftarrow> DelHookerInCuteDog c s;
       x \<leftarrow> post env c (if fst y then unhook_ok else unhook_unknown) (snd y);
       Some (False, snd x)
     }
     else Some (False, s)
   }"

text \<open>
  An answer of the environment for each of the calls of one handler: the cells of the
  handler are distinct, the other calls happen once.
\<close>

definition RespCatCreateFilter :: "environ \<Rightarrow> iks option \<Rightarrow> nat \<Rightarrow> dogstate \<Rightarrow> (bool \<times> dogstate) option" where
  "RespCatCreateFilter env node c s = do {
     action \<leftarrow> iks_find_attrib node ''action'';
     DogName \<leftarrow> iks_find_cdata node ''username'';
     FilterStr \<leftarrow> iks_find_cdata node ''filterstring'';
     model \<leftarrow> iks_find_attrib node ''model'';
     let iModel = (if iks_strcmp model (Some ''lo'') = 0 then 0
                   else if iks_strcmp model (Some ''net'') = 0 then 1 else 0);
     if iks_strcmp action (Some ''create'') = 0
     then (case FilterStr of
         None \<Rightarrow> Some (False, s)
       | Some flt \<Rightarrow> do {
           y \<leftarrow> StartDogNose env flt DogName c iModel s;
           if fst y \<noteq> 0
           then do {
             s \<leftarrow> CuteDogBroadCast env (upd_client c (\<lambda>x. x\<lparr>lType := CLIENT_USER_PIONEER\<rparr>) (snd y));
             Some (True, s)
           }
           else Some (True, snd y)
         })
     else if iks_strcmp action (Some ''cancel'') = 0
     then do {
       y \<leftarrow> StopDogNose env c s;
       z \<leftarrow> DelCuteDogInList env c (snd y);
       s \<leftarrow> CuteDogBroadCast env (snd z);
       Some (True, s)
     }
     else Some (True, s)
   }"

section \<open>Dispatch\<close>

definition IOXMLIq :: "environ \<Rightarrow> iks \<Rightarrow> nat \<Rightarrow> dogstate \<Rightarrow> dogstate option" where
  "IOXMLIq env node c s = do {
     ty \<leftarrow> iks_find_attrib (Some node) ''type'';
     x \<leftarrow> iks_find (Some node) ''query'';
     xmlns \<leftarrow> iks_find_attrib x ''xmlns'';
     is_set \<leftarrow> same_str ty ''set'';
     auth \<leftarrow> (if is_set then same_str xmlns ''jabber:iq:auth'' else Some False);
     if auth then do { y \<leftarrow> RespCatLogin0 env x c s; Some (snd y) }
     else do {
       is_get \<leftarrow> same_str ty ''get'';
       shown \<leftarrow> (if is_get then same_str xmlns ''filter:show'' else Some False);
       if shown then do { y \<leftarrow> RespCatAllFilters env x c s; Some (snd y) }
       else do {
         hook \<leftarrow> (if is_set then same_str xmlns ''filter:hook'' else Some False);
         if hook then do { y \<leftarrow> RespCatSetHooker env x c s; Some (snd y) }
         else do {
           new \<leftarrow> (if is_set then same_str xmlns ''filter:new'' else Some False);
           if new then do { y \<leftarrow> RespCatCreateFilter env x c s; Some (snd y) }
           else Some s
         }
       }
     }
   }"

definition IOProcessCatMsg :: "environ \<Rightarrow> nat \<Rightarrow> iksnode \<Rightarrow> dogstate \<Rightarrow> dogstate option" where
  "IOProcessCatMsg env c ev s =
     (case ev of
        IKS_NODE_START node \<Rightarrow> do { y \<leftarrow> CatHandShake env c s; Some (snd y) }
      | IKS_NODE_NORMAL node \<Rightarrow> do {
          pak \<leftarrow> iks_packet node;
          case pak_type pak of
            IKS_PAK_NONE \<Rightarrow> Some s
          | IKS_PAK_MESSAGE \<Rightarrow> Some s
          | IKS_PAK_PRESENCE \<Rightarrow> Some s
          | IKS_PAK_S10N \<Rightarrow> Some s
          | IKS_PAK_IQ \<Rightarrow> IOXMLIq env node c s
        }
      | IKS_NODE_ERROR node \<Rightarrow> Some s
      | IKS_NODE_STOP \<Rightarrow> Some s)"

text \<open>The administrator's callback classifies the stanza and does nothing with it.\<close>

definition IOProcessAdminMsg :: "iksnode \<Rightarrow> dogstate \<Rightarrow> dogstate option" where
  "IOProcessAdminMsg ev s =
     (case ev of
        IKS_NODE_NORMAL node \<Rightarrow> do { pak \<leftarrow> iks_packet node; Some s }
      | _ \<Rightarrow> Some s)"

text \<open>
  \<open>parse\<close> gives the calls the client's parser makes for a text, each with the answers of
  the environment to its handler.
\<close>

fun run_events :: "nat \<Rightarrow> (environ \<times> iksnode) list \<Rightarrow> dogstate \<Rightarrow> dogstate option" where
  "run_events c [] s = Some s"
| "run_events c (e # es) s = do { s \<leftarrow> IOProcessCatMsg (fst e) c (snd e) s; run_events c es s }"

definition IOProcessParser ::
  "(string \<Rightarrow> (environ \<times> iksnode) list) \<Rightarrow> nat \<Rightarrow> cstream \<Rightarrow> dogstate \<Rightarrow> dogstate option" where
  "IOProcessParser parse c hs s =
     (if \<not> Prs (ClientInfo s c) then Some s
      else do {
        pCatMsg \<leftarrow> get_stream_ptr hs;
        run_events c (parse pCatMsg) s
      })"

section \<open>Strings of stanzas\<close>

lemma same_str_iff [simp]: "no_nul a \<Longrightarrow> no_nul b \<Longrightarrow> same_str (Some a) b = Some (a = b)"
  by (simp add: same_str_def strcmp_0_iff)

lemma same_str_NULL [simp]: "same_str None b = None"
  by (simp add: same_str_def)

lemma iks_tag_simps:
  "iks_find_attrib (Some (IksTag n as cs)) a = Some (map_of as a)"
  "iks_find (Some (IksTag n as cs)) t = Some (find_child t cs)"
  "iks_find_attrib None a = Some None" "iks_find None t = Some None" "iks_find_cdata None t = Some None"
  "iks_name (Some (IksTag n as cs)) = Some (Some n)"
  by (simp_all add: iks_find_attrib_def iks_find_def iks_find_cdata_def iks_name_def IKS_TAG_ATTRIBS_def IKS_TAG_CHILDREN_def)

lemma iq_is_dispatched:
  "IOProcessCatMsg env c (IKS_NODE_NORMAL (IksTag ''iq'' as cs)) s = IOXMLIq env (IksTag ''iq'' as cs) c s"
  by (simp add: IOProcessCatMsg_def iks_packet_def iks_tag_simps)

text \<open>
  What \<^verbatim>\<open>IOXMLIq\<close> does with a query of a given type and namespace; \<open>x\<close> is the
  query element.
\<close>

definition iq_query :: "iks list \<Rightarrow> iks option" where
  "iq_query cs = find_child ''query'' cs"

definition query_ns :: "iks option \<Rightarrow> string option" where
  "query_ns x = (case x of Some (IksTag _ as _) \<Rightarrow> map_of as ''xmlns'' | _ \<Rightarrow> None)"

lemma find_child_tag: "find_child n cs = Some x \<Longrightarrow> \<exists>as ds. x = IksTag n as ds"
  by (induction cs) (auto split: iks.splits if_splits)

lemma query_ns_attrib: "iks_find_attrib (iq_query cs) ''xmlns'' = Some (query_ns (iq_query cs))"
proof (cases "iq_query cs")
  case (Some x)
  then show ?thesis using find_child_tag [of "''query''" cs x] by (auto simp: iq_query_def query_ns_def iks_tag_simps)
qed (simp add: query_ns_def iks_tag_simps)

lemma IOXMLIq_set:
  assumes "map_of as ''type'' = Some ''set''" and "query_ns (iq_query cs) = Some ns" and "no_nul ns"
  shows "IOXMLIq env (IksTag n as cs) c s =
    (if ns = ''jabber:iq:auth'' then map_option snd (RespCatLogin0 env (iq_query cs) c s)
     else if ns = ''filter:hook'' then map_option snd (RespCatSetHooker env (iq_query cs) c s)
     else if ns = ''filter:new'' then map_option snd (RespCatCreateFilter env (iq_query cs) c s)
     else Some s)"
  using assms query_ns_attrib [of cs]
  by (simp add: IOXMLIq_def iks_tag_simps iq_query_def [symmetric] map_option_case split: option.split)

section \<open>Logins\<close>

lemma login_run:
  assumes sh: "shape s k" and ok: "pool_ok s" and free: "free_cells s = m # ms"
    and t: "map_of as ''type'' = Some ''set''" and q: "query_ns (iq_query cs) = Some ''jabber:iq:auth''"
    and u: "iks_find_cdata (iq_query cs) ''username'' = Some name"
    and tk: "cells_take env login_ok s [m]" "cells_take env login_taken s [m]"
  shows "\<exists>s'. IOProcessCatMsg env c (IKS_NODE_NORMAL (IksTag ''iq'' as cs)) s = Some s' \<and> shape s' k
    \<and> (case name of
         Some n \<Rightarrow> posted s [m] (letters s (if named s n (k_dogs k) = None then login_ok else login_taken) [c]) s'
       | None \<Rightarrow> free_cells s' = ms \<and> queued_cells s' = queued_cells s)"
proof -
  obtain x where x: "IoGetSendMsgCell c s = Some (Some m, x)" "pool_ok x" "free_cells x = ms"
    "queued_cells x = queued_cells s" "same_rest s x"
    using pool_ok_get [OF ok free, of c] by blast
  have run: "IOProcessCatMsg env c (IKS_NODE_NORMAL (IksTag ''iq'' as cs)) s
      = map_option snd (RespCatLogin0 env (iq_query cs) c s)"
    using IOXMLIq_set [OF t q] by (simp add: iq_is_dispatched)
  show ?thesis
  proof (cases name)
    case None
    then have "IOProcessCatMsg env c (IKS_NODE_NORMAL (IksTag ''iq'' as cs)) s = Some x"
      using run u x(1) by (simp add: RespCatLogin0_def)
    with None x shape_same_rest [OF x(5) sh] show ?thesis by simp
  next
    case (Some n)
    let ?text = "if named s n (k_dogs k) = None then login_ok else login_taken"
    have "takes (env_realloc env m) ?text (m_stream (cells s m))" using tk by (simp add: cells_take_def)
    then obtain s' where s': "post env c ?text s = Some (True, s')" "posted s [m] (letters s ?text [c]) s'" "same_rest s s'"
      using post_posted [OF ok free] by blast
    have sx: "shape x k" by (rule shape_same_rest [OF x(5) sh])
    have "named x n ds = named s n ds" for ds
      using x(5) by (simp add: named_def dog_at_def same_rest_def)
    then have "CheckNameInList n x = Some (named s n (k_dogs k) \<noteq> None)"
      using CheckNameInList_shape [OF sx, of n] by simp
    then have "map_option snd (RespCatLogin0 env (iq_query cs) c s) = Some s'"
      using s'(1) x(1) u Some by (auto simp: RespCatLogin0_def post_def split: Option.bind_splits)
    with run Some s'(2) shape_same_rest [OF s'(3) sh] show ?thesis by simp
  qed
qed

section \<open>Properties\<close>

text \<open>
  A login query with a name is answered in a cell of its own: OK when no linked cutedog has
  that name, 400 when one has.  A login query without a name is not answered and the cell that
  was taken for the answer is lost.
\<close>

theorem login_is_answered:
  assumes sh: "shape s k" and ok: "pool_ok s" and free: "free_cells s = m # ms"
    and t: "map_of as ''type'' = Some ''set''" and q: "query_ns (iq_query cs) = Some ''jabber:iq:auth''"
    and u: "iks_find_cdata (iq_query cs) ''username'' = Some name"
    and tk: "cells_take env login_ok s [m]" "cells_take env login_taken s [m]"
  shows "\<exists>s'. IOProcessCatMsg env c (IKS_NODE_NORMAL (IksTag ''iq'' as cs)) s = Some s' \<and> shape s' k
    \<and> (case name of
         Some n \<Rightarrow> posted s [m] (letters s (if named s n (k_dogs k) = None then login_ok else login_taken) [c]) s'
       | None \<Rightarrow> free_cells s' = ms \<and> queued_cells s' = queued_cells s)"
  by (rule login_run [OF assms])

text \<open>\<^verbatim>\<open><iq type='set'><query xmlns='jabber:iq:auth'><username>u</username></query></iq>\<close>\<close>

definition login_query :: "string \<Rightarrow> iks list" where
  "login_query u = [IksTag ''query'' [(''xmlns'', ''jabber:iq:auth'')] [IksTag ''username'' [] [IksCData u]]]"

theorem login_is_answered_witness:
  "\<exists>s'. IOProcessCatMsg calm 3 (IKS_NODE_NORMAL (IksTag ''iq'' [(''type'', ''set'')] (login_query ''rex''))) yard = Some s'
    \<and> posted yard [0] [(Some 3, 0, Some login_taken)] s'"
proof -
  let ?as = "[(''type'', ''set'')] :: (string \<times> string) list"
  have f: "free_cells yard = 0 # [1, 2, 3, 4, 5, 6, 7]" by (simp add: yard_free)
  have q: "map_of ?as ''type'' = Some ''set''" "query_ns (iq_query (login_query ''rex'')) = Some ''jabber:iq:auth''"
    "iks_find_cdata (iq_query (login_query ''rex'')) ''username'' = Some (Some ''rex'')"
    by (simp_all add: iq_query_def login_query_def query_ns_def iks_find_cdata_def iks_tag_simps IKS_TAG_CHILDREN_def)
  have t: "cells_take calm login_ok yard [0]" "cells_take calm login_taken yard [0]"
    by (rule yard_takes; simp add: login_ok_def login_taken_def)+
  have n: "named yard ''rex'' (k_dogs yard_kennel) = Some 0" by (simp add: named_def yard_kennel_def yard_dog rex_def)
  have l: "letters yard str [3] = [(Some 3, 0, Some str)]" for str by (simp add: letters_def yard_def)
  show ?thesis
    using login_is_answered [OF yard_shape yard_pool f q t, of 3] by (auto simp: n l)
qed

lemma hook_query_run:
  assumes t: "map_of as ''type'' = Some ''set''" and q: "query_ns (iq_query cs) = Some ''filter:hook''"
    and a: "iks_find_attrib (iq_query cs) ''action'' = Some (Some ''hook'')"
    and i: "iks_find_cdata (iq_query cs) ''item'' = Some item"
  shows "IOProcessCatMsg env c (IKS_NODE_NORMAL (IksTag ''iq'' as cs)) s = do {
      y \<leftarrow> AddHooker2CuteDog item c s;
      x \<leftarrow> post env c (if fst y then hook_ok else hook_unknown)
        (if fst y then upd_client c (\<lambda>x. x\<lparr>lType := CLIENT_USER_HOOKER\<rparr>) (snd y) else snd y);
      Some (snd x) }"
proof -
  have "iks_find (iq_query cs) ''item'' = Some (case iq_query cs of Some (IksTag _ _ ds) \<Rightarrow> find_child ''item'' ds | _ \<Rightarrow> None)"
    using find_child_tag [of "''query''" cs] by (cases "iq_query cs") (auto simp: iq_query_def iks_tag_simps)
  then obtain it where it: "iks_find (iq_query cs) ''item'' = Some it" by blast
  have "\<exists>cat. iks_find_attrib it ''cat'' = Some cat"
  proof (cases it)
    case (Some y)
    have "\<exists>n as ds. y = IksTag n as ds"
    proof (cases "iq_query cs")
      case None
      then show ?thesis using it Some by (simp add: iks_tag_simps)
    next
      case (Some z)
      then obtain as ds where "z = IksTag ''query'' as ds" using find_child_tag [of "''query''" cs z] by (auto simp: iq_query_def)
      with Some it \<open>it = Some y\<close> have "find_child ''item'' ds = Some y" by (simp add: iks_tag_simps)
      then show ?thesis using find_child_tag by blast
    qed
    then show ?thesis using Some by (auto simp: iks_tag_simps)
  qed (simp add: iks_tag_simps)
  then obtain cat where cat: "iks_find_attrib it ''cat'' = Some cat" by blast
  have hk: "iks_strcmp (Some ''hook'') (Some ''hook'') = 0" by (simp add: iks_strcmp_0_iff)
  show ?thesis
    using IOXMLIq_set [OF t q] a i it cat hk
    by (auto simp: iq_is_dispatched RespCatSetHooker_def Let_def map_option_case
        split: option.split Option.bind_splits intro!: Option.bind_cong)
qed

text \<open>
  C29. A hook query for an existing cutedog, from a client that is in no list of hookers yet, puts the client at the front
  of its hookers, makes it a hooker and is answered OK; for a name that no cutedog has, or without an item, nothing but
  the negative answer happens.  A client that is in a list already is linked a second time, see
  \<^verbatim>\<open>hooked_twice_drains_the_pool\<close> of theory \<open>DogNose\<close>.
\<close>

theorem hook_query_hooks:
  assumes sh: "shape s k" and ok: "pool_ok s" and free: "free_cells s = m # ms"
    and t: "map_of as ''type'' = Some ''set''" and q: "query_ns (iq_query cs) = Some ''filter:hook''"
    and a: "iks_find_attrib (iq_query cs) ''action'' = Some (Some ''hook'')"
    and i: "iks_find_cdata (iq_query cs) ''item'' = Some item"
    and new: "\<forall>e \<in> set (k_dogs k). c \<notin> set (k_hook k e)"
    and tk: "cells_take env hook_ok s [m]" "cells_take env hook_unknown s [m]"
  shows "\<exists>s'. IOProcessCatMsg env c (IKS_NODE_NORMAL (IksTag ''iq'' as cs)) s = Some s'
    \<and> (case Option.bind item (\<lambda>n. named s n (k_dogs k)) of
         Some d \<Rightarrow> shape s' (k\<lparr>k_hook := (k_hook k)(d := c # k_hook k d)\<rparr>)
           \<and> lType (ClientInfo s' c) = CLIENT_USER_HOOKER \<and> CuteDog (ClientInfo s' c) = Some d
           \<and> posted s [m] (letters s hook_ok [c]) s'
       | None \<Rightarrow> shape s' k \<and> ClientInfo s' = ClientInfo s \<and> posted s [m] (letters s hook_unknown [c]) s')"
proof -
  let ?ev = "IKS_NODE_NORMAL (IksTag ''iq'' as cs)"
  note run = hook_query_run [OF t q a i, of env c s]
  show ?thesis
  proof (cases "Option.bind item (\<lambda>n. named s n (k_dogs k))")
    case None
    have "AddHooker2CuteDog item c s = Some (False, s)"
    proof (cases item)
      case (Some n)
      with None AddHooker2CuteDog_unknown [OF sh] show ?thesis by simp
    qed (simp add: AddHooker2CuteDog_def)
    moreover have "takes (env_realloc env m) hook_unknown (m_stream (cells s m))" using tk by (simp add: cells_take_def)
    then obtain s' where s': "post env c hook_unknown s = Some (True, s')"
        "posted s [m] (letters s hook_unknown [c]) s'" "same_rest s s'"
      using post_posted [OF ok free] by blast
    ultimately have "IOProcessCatMsg env c ?ev s = Some s'" using run by simp
    moreover have "ClientInfo s' = ClientInfo s" using s'(3) by (simp add: same_rest_def)
    ultimately show ?thesis using None s'(2) shape_same_rest [OF s'(3) sh] by simp
  next
    case (Some d)
    then obtain n where n: "item = Some n" "named s n (k_dogs k) = Some d" by (cases item) auto
    let ?k = "k\<lparr>k_hook := (k_hook k)(d := c # k_hook k d)\<rparr>"
    obtain h where h: "AddHooker2CuteDog (Some n) c s
        = Some (True, upd_client c (\<lambda>x. x\<lparr>CuteDog := Some d\<rparr>) (s\<lparr>lk := h\<rparr>))" "shape (s\<lparr>lk := h\<rparr>) ?k"
      using AddHooker2CuteDog_shape [OF sh n(2) new] by blast
    let ?s2 = "upd_client c (\<lambda>x. x\<lparr>lType := CLIENT_USER_HOOKER\<rparr>) (upd_client c (\<lambda>x. x\<lparr>CuteDog := Some d\<rparr>) (s\<lparr>lk := h\<rparr>))"
    have ok2: "pool_ok ?s2" "free_cells ?s2 = m # ms" using ok free by (simp_all add: free_cells_def)
    have "takes (env_realloc env m) hook_ok (m_stream (cells ?s2 m))" using tk by (simp add: cells_take_def)
    then obtain s' where s': "post env c hook_ok ?s2 = Some (True, s')"
        "posted ?s2 [m] (letters ?s2 hook_ok [c]) s'" "same_rest ?s2 s'"
      using post_posted [OF ok2] by blast
    have "IOProcessCatMsg env c ?ev s = Some s'" using run n(1) h(1) s'(1) by simp
    moreover have "posted s [m] (letters s hook_ok [c]) s'" using s'(2) by (simp add: letters_def)
    moreover have "shape s' ?k" using shape_same_rest [OF s'(3)] h(2) by simp
    ultimately show ?thesis using Some s'(3) by (simp add: same_rest_def)
  qed
qed

definition hook_query :: "string \<Rightarrow> iks list" where
  "hook_query n = [IksTag ''query'' [(''xmlns'', ''filter:hook''), (''action'', ''hook'')]
     [IksTag ''item'' [(''cat'', ''tom'')] [IksCData n]]]"

theorem hook_query_hooks_witness:
  "\<exists>s'. IOProcessCatMsg calm 3 (IKS_NODE_NORMAL (IksTag ''iq'' [(''type'', ''set'')] (hook_query ''rex''))) yard = Some s'
    \<and> shape s' (yard_kennel\<lparr>k_hook := (k_hook yard_kennel)(0 := [3, 2])\<rparr>)
    \<and> lType (ClientInfo s' 3) = CLIENT_USER_HOOKER \<and> posted yard [0] [(Some 3, 0, Some hook_ok)] s'"
proof -
  let ?as = "[(''type'', ''set'')] :: (string \<times> string) list"
  have f: "free_cells yard = 0 # [1, 2, 3, 4, 5, 6, 7]" by (simp add: yard_free)
  have q: "map_of ?as ''type'' = Some ''set''" "query_ns (iq_query (hook_query ''rex'')) = Some ''filter:hook''"
    "iks_find_attrib (iq_query (hook_query ''rex'')) ''action'' = Some (Some ''hook'')"
    "iks_find_cdata (iq_query (hook_query ''rex'')) ''item'' = Some (Some ''rex'')"
    by (simp_all add: iq_query_def hook_query_def query_ns_def iks_find_cdata_def iks_tag_simps IKS_TAG_CHILDREN_def)
  have h: "\<forall>e \<in> set (k_dogs yard_kennel). 3 \<notin> set (k_hook yard_kennel e)" by (simp add: yard_kennel_def)
  have t: "cells_take calm hook_ok yard [0]" "cells_take calm hook_unknown yard [0]"
    by (rule yard_takes; simp add: hook_ok_def hook_unknown_def)+
  have n: "named yard ''rex'' (k_dogs yard_kennel) = Some 0" "k_hook yard_kennel 0 = [2]"
    by (simp_all add: named_def yard_kennel_def yard_dog rex_def)
  have l: "letters yard str [3] = [(Some 3, 0, Some str)]" for str by (simp add: letters_def yard_def)
  show ?thesis
    using hook_query_hooks [OF yard_shape yard_pool f q h t] by (auto simp: n l)
qed

text \<open>
  A query without a type, and a set or get query without a namespaced query element, makes
  the server compare a NULL string; a query of any other type has no effect.
\<close>

theorem bad_query_is_undefined:
  assumes "\<forall>t. map_of as ''type'' = Some t \<longrightarrow> no_nul t"
  shows "(map_of as ''type'' = None \<longrightarrow>
      IOProcessCatMsg env c (IKS_NODE_NORMAL (IksTag ''iq'' as cs)) s = None)
    \<and> (map_of as ''type'' \<in> {Some ''set'', Some ''get''} \<and> query_ns (iq_query cs) = None \<longrightarrow>
      IOProcessCatMsg env c (IKS_NODE_NORMAL (IksTag ''iq'' as cs)) s = None)
    \<and> (map_of as ''type'' \<notin> {None, Some ''set'', Some ''get''} \<longrightarrow>
      IOProcessCatMsg env c (IKS_NODE_NORMAL (IksTag ''iq'' as cs)) s = Some s)"
  using assms query_ns_attrib [of cs]
  by (cases "map_of as ''type''")
    (auto simp: iq_is_dispatched IOXMLIq_def iks_tag_simps iq_query_def [symmetric])

theorem bad_query_is_undefined_witness:
  "IOProcessCatMsg calm 3 (IKS_NODE_NORMAL (IksTag ''iq'' [] [])) yard = None
   \<and> IOProcessCatMsg calm 3 (IKS_NODE_NORMAL (IksTag ''iq'' [(''type'', ''set'')] [])) yard = None
   \<and> IOProcessCatMsg calm 3 (IKS_NODE_NORMAL (IksTag ''iq'' [(''type'', ''result'')] [])) yard = Some yard"
  using bad_query_is_undefined [of "[]" calm 3 "[]" yard]
    bad_query_is_undefined [of "[(''type'', ''set'')]" calm 3 "[]" yard]
    bad_query_is_undefined [of "[(''type'', ''result'')]" calm 3 "[]" yard]
  by (simp add: iq_query_def query_ns_def)

end
