(* ===== verification/DogEar.thy ===== *)
theory DogEar
  imports DogIo
begin

text \<open>
  The two loops of the server, \<^verbatim>\<open>processIOThread\<close> and \<^verbatim>\<open>ClientRecSndThread\<close>
  of \<^verbatim>\<open>src/CuteDog/cdogEar.c\<close>, as the steps they repeat.  What the system calls answer
  is an argument of a step; what they are asked to do is recorded in \<open>effects\<close>.
\<close>

section \<open>The I/O thread\<close>

definition FreeObj :: "environ \<Rightarrow> nat \<Rightarrow> dogstate \<Rightarrow> dogstate option" where
  "FreeObj env c s =
     (let s = upd_client c (\<lambda>x. x\<lparr>Prs := False\<rparr>) s in
      if lType (ClientInfo s c) = CLIENT_USER_PIONEER
      then do { x \<leftarrow> StopDogNose env c s; y \<leftarrow> DelCuteDogInList env c (snd x); Some (snd y) }
      else if lType (ClientInfo s c) = CLIENT_USER_HOOKER
      then do { x \<leftarrow> DelHookerInCuteDog c s; Some (snd x) }
      else Some s)"

definition shutdown_text :: string where
  "shutdown_text = ''<SOCKETSHUTDOWN>''"

definition IOSOCKET_CLOSE :: "cstream \<Rightarrow> bool option" where
  "IOSOCKET_CLOSE hs = map_option (\<lambda>t. t = shutdown_text) (get_stream_ptr hs)"

text \<open>
  One round of \<^verbatim>\<open>processIOThread\<close>.  The client of the cell is dereferenced before it is
  compared with NULL.  \<open>parse\<close> gives the calls of each client's parser, \<open>env\<close> the
  answers to the calls of \<^verbatim>\<open>FreeObj\<close>.
\<close>

definition process_io ::
  "environ \<Rightarrow> (nat \<Rightarrow> string \<Rightarrow> (environ \<times> iksnode) list) \<Rightarrow> dogstate \<Rightarrow> dogstate option" where
  "process_io env parse s =
     (if uiCliPutMsgIndex s = uiIoGetMsgIndex s then Some s
      else do {
        slot \<leftarrow> nth_opt (Cat2DogIOMsg s) (uiIoGetMsgIndex s);
        i \<leftarrow> slot;
        c \<leftarrow> in_client (in_cells s i);
        s \<leftarrow> (if in_session (in_cells s i) \<noteq> iSessionID (ClientInfo s c)
                \<or> lStatus (ClientInfo s c) = STATUS_IOCMDCLOSE
              then Some s
              else do {
                let hStream = in_stream (in_cells s i);
                s \<leftarrow> IOProcessParser (parse c) c hStream s;
                close \<leftarrow> IOSOCKET_CLOSE hStream;
                if close then FreeObj env c (upd_client c (\<lambda>x. x\<lparr>lStatus := STATUS_IOCLOSEED\<rparr>) s)
                else Some s
              });
        Some (s\<lparr>uiIoGetMsgIndex := (uiIoGetMsgIndex s + 1) mod CAT2DOGIOMSGNUM\<rparr>)
      })"

section \<open>Input cells\<close>

text \<open>
  \<open>get_in_cell\<close> is the sequence that gives a client an input cell, \<open>Some None\<close> when there
  is none (it occurs twice in the source); \<open>put_in_cell\<close> hands the client's cell to the I/O
  thread.
\<close>

definition get_in_cell :: "nat \<Rightarrow> dogstate \<Rightarrow> dogstate option option" where
  "get_in_cell c s =
     (if pCurCat2DogIOMsg (ClientInfo s c) \<noteq> None then Some (Some s)
      else if uiCliGetMsgNextIndex s = uiIoGetMsgIndex s then Some None
      else do {
        slot \<leftarrow> nth_opt (Cat2DogIOMsg s) (uiCliGetMsgIndex s);
        i \<leftarrow> slot;
        let s = upd_client c (\<lambda>x. x\<lparr>pCurCat2DogIOMsg := Some i\<rparr>) s;
        let s = s\<lparr>uiCliGetMsgIndex := uiCliGetMsgNextIndex s,
          uiCliGetMsgNextIndex := (uiCliGetMsgNextIndex s + 1) mod CAT2DOGIOMSGNUM\<rparr>;
        Some (Some (s\<lparr>in_cells := (in_cells s)(i := (in_cells s i)\<lparr>in_session := iSessionID (ClientInfo s c),
          in_client := Some c, in_stream := reset_stream (in_stream (in_cells s i))\<rparr>)\<rparr>))
      })"

definition put_in_cell :: "nat \<Rightarrow> dogstate \<Rightarrow> dogstate" where
  "put_in_cell c s =
     (let s = s\<lparr>Cat2DogIOMsg := (Cat2DogIOMsg s)[uiCliPutMsgIndex s := pCurCat2DogIOMsg (ClientInfo s c)]\<rparr>;
          s = upd_client c (\<lambda>x. x\<lparr>pCurCat2DogIOMsg := None\<rparr>) s in
      s\<lparr>uiCliPutMsgIndex := (uiCliPutMsgIndex s + 1) mod CAT2DOGIOMSGNUM\<rparr>)"

text \<open>
  The loop over the received bytes; bytes that find no cell are dropped.  A buffer that takes
  no byte would make it run forever.
\<close>

partial_function (option) receive_loop :: "nat \<Rightarrow> string \<Rightarrow> dogstate \<Rightarrow> dogstate option" where
  "receive_loop c lpBuf s =
     (if lpBuf = [] then Some s
      else do {
        x \<leftarrow> get_in_cell c s;
        case x of
          None \<Rightarrow> Some s
        | Some s \<Rightarrow> do {
            i \<leftarrow> pCurCat2DogIOMsg (ClientInfo s c);
            y \<leftarrow> copy_stream lpBuf (in_stream (in_cells s i));
            let s = s\<lparr>in_cells := (in_cells s)(i := (in_cells s i)\<lparr>in_stream := snd y\<rparr>)\<rparr>;
            receive_loop c (fst y) (put_in_cell c s)
          }
      })"

text \<open>
  The label \<^verbatim>\<open>CLIENTTOEND\<close>: the value \<^verbatim>\<open>STATUS_SOCKET_CLOSED\<close> of the other
  enumeration is the number of \<^term>\<open>STATUS_UNKNOWN\<close>.
\<close>

definition CLIENTTOEND :: "(nat \<Rightarrow> string option) \<Rightarrow> nat \<Rightarrow> dogstate \<Rightarrow> dogstate option" where
  "CLIENTTOEND ra c s = do {
     let s = upd_client c (\<lambda>x. x\<lparr>lStatus := STATUS_UNKNOWN\<rparr>) s;
     x \<leftarrow> get_in_cell c s;
     case x of
       None \<Rightarrow> Some s
     | Some s \<Rightarrow> do {
         i \<leftarrow> pCurCat2DogIOMsg (ClientInfo s c);
         hs \<leftarrow> push_stream_string ra shutdown_text (in_stream (in_cells s i));
         Some (put_in_cell c (s\<lparr>in_cells := (in_cells s)(i := (in_cells s i)\<lparr>in_stream := hs\<rparr>)\<rparr>))
       }
   }"

section \<open>Output\<close>

text \<open>The macro \<^verbatim>\<open>POP_DOGMSG_2LISTTAIL\<close>.\<close>

definition push_free :: "nat \<Rightarrow> dogstate \<Rightarrow> dogstate" where
  "push_free m s = s\<lparr>pFifoDogMsgFree := snd (FifoPush (pFifoDogMsgFree s) m)\<rparr>"

definition stale :: "dogstate \<Rightarrow> nat \<Rightarrow> nat \<Rightarrow> bool" where
  "stale s c m \<longleftrightarrow> m_session (cells s m) \<noteq> iSessionID (ClientInfo s c)
     \<or> lSocketStatus (ClientInfo s c) \<noteq> STATUS_SOCKET_CONNECT"

partial_function (option) POP_DOGMSG_2LISTTAIL :: "dogstate \<Rightarrow> dogstate option" where
  "POP_DOGMSG_2LISTTAIL s =
     (case FifoPop (pFifoDogMsg s) of (r, d, q) \<Rightarrow>
        if r \<noteq> RET_OK then Some s
        else do {
          m \<leftarrow> d;
          c \<leftarrow> m_client (cells s m);
          if stale s c m then POP_DOGMSG_2LISTTAIL (push_free m (s\<lparr>pFifoDogMsg := q\<rparr>))
          else do {
            h \<leftarrow> list_add_tail (Cell m) (SendHd c) (lk s);
            POP_DOGMSG_2LISTTAIL (s\<lparr>pFifoDogMsg := q, lk := h\<rparr>)
          }
        })"

fun cell_of :: "node \<Rightarrow> nat option" where \<comment> \<open>\<^verbatim>\<open>list_entry(n, DOG2CATIOMSG, list)\<close>\<close>
  "cell_of (Cell m) = Some m" | "cell_of _ = None"

text \<open>The release of a client that the I/O thread has closed.\<close>

definition release_client :: "nat \<Rightarrow> dogstate \<Rightarrow> dogstate option" where
  "release_client c s = do {
     s \<leftarrow> (if list_notempty (SendHd c) (lk s)
           then do {
             r \<leftarrow> for_each lk (SendHd c) (\<lambda>n s. do { m \<leftarrow> cell_of n; Some (False, push_free m s) }) s;
             Some ((snd r)\<lparr>lk := INIT_LIST_HEAD (SendHd c) (lk (snd r))\<rparr>)
           }
           else Some s);
     let s = (case pCurSendMsg (ClientInfo s c) of
                Some m \<Rightarrow> upd_client c (\<lambda>x. x\<lparr>pCurSendMsg := None\<rparr>) (push_free m s)
              | None \<Rightarrow> s);
     let s = log_effect (CloseSocket (Socket (ClientInfo s c))) s;
     let s = upd_client c (\<lambda>x. x\<lparr>iSessionID := 0, iID := - 1, lSocketStatus := STATUS_SOCKET_CLOSED,
       lStatus := STATUS_UNKNOWN, lType := CLIENT_UNKNOWN, Prs := False\<rparr>) s;
     h \<leftarrow> list_move (Cli c) FreeHd (lk s);
     Some (s\<lparr>lk := h\<rparr>)
   }"

text \<open>The first message of the client's list becomes the one that is sent.\<close>

definition next_message :: "nat \<Rightarrow> dogstate \<Rightarrow> dogstate option" where
  "next_message c s = do {
     n \<leftarrow> nxt (lk s) (SendHd c);
     m \<leftarrow> cell_of n;
     len \<leftarrow> get_stream_len (m_stream (cells s m));
     let s = upd_client c (\<lambda>x. x\<lparr>iCurSendLen := int len, pSndData := Some (m, 0), pCurSendMsg := Some m\<rparr>) s;
     h \<leftarrow> list_del (Cell m) (lk s);
     Some (s\<lparr>lk := h\<rparr>)
   }"

end
