(* ===== verification/DogLoop.thy ===== *)
theory DogLoop
  imports DogEar
begin

text \<open>
  The rounds of the socket thread \<^verbatim>\<open>ClientRecSndThread\<close> of
  \<^verbatim>\<open>src/CuteDog/cdogEar.c\<close>, composed of the steps of theory \<open>DogEar\<close>: move the
  queued cells to the lists of their clients, prepare the descriptor sets and release closed
  clients, accept, then receive and send for every working client.
\<close>

section \<open>The state of the thread\<close>

text \<open>\<^verbatim>\<open>server.SocketListen\<close> and the locals that survive a round.\<close>

record ear =
  SocketListen :: int
  maxfd :: int
  next_session :: u32 \<comment> \<open>the local \<^verbatim>\<open>iSessionID\<close>\<close>

record fd_sets =
  rFds :: "int set"
  wFds :: "int set"

text \<open>
  What the socket calls of one round answer.  \<open>net_ready\<close> are the descriptors with input;
  \<^verbatim>\<open>select(maxfd + 1, ...)\<close> reports those of them that are in the read set and not
  above \<open>maxfd\<close>.  A client is received from and sent to at most once in a round.  The calls answer less
  than the type admits: \<^verbatim>\<open>recv\<close> never gives \<open>Some []\<close>, which would be received as nothing.
\<close>

record net =
  net_select :: bool \<comment> \<open>\<^verbatim>\<open>select(...) > 0\<close>\<close>
  net_ready :: "int set"
  net_accept :: "(int \<times> byte list \<times> nat) option" \<comment> \<open>descriptor, address, port\<close>
  net_parser :: bool \<comment> \<open>\<^verbatim>\<open>iks_stream_new\<close> returned a parser\<close>
  net_recv :: "nat \<Rightarrow> string option" \<comment> \<open>the bytes, \<open>None\<close> for a result \<open>\<le> 0\<close>\<close>
  net_send :: "nat \<Rightarrow> nat option" \<comment> \<open>how many bytes the socket takes, \<open>None\<close> for an error\<close>
  net_realloc :: "nat \<Rightarrow> string option" \<comment> \<open>for the buffer of an input cell\<close>

section \<open>Preparing the descriptor sets\<close>

definition prepare_client :: "nat \<Rightarrow> fd_sets \<times> dogstate \<Rightarrow> (fd_sets \<times> dogstate) option" where
  "prepare_client c x =
     (case x of (f, s) \<Rightarrow>
        if lStatus (ClientInfo s c) = STATUS_IOCLOSEED
        then do { s \<leftarrow> release_client c s; Some (f, s) }
        else if lSocketStatus (ClientInfo s c) = STATUS_SOCKET_CLOSED then Some (f, s)
        else do {
          (f, s) \<leftarrow> (if 0 < iCurSendLen (ClientInfo s c)
              then Some (f\<lparr>wFds := insert (Socket (ClientInfo s c)) (wFds f)\<rparr>, s)
              else if list_notempty (SendHd c) (lk s)
              then do {
                s \<leftarrow> next_message c s;
                Some (f\<lparr>wFds := insert (Socket (ClientInfo s c)) (wFds f)\<rparr>, s)
              }
              else Some (f, s));
          Some (if lStatus (ClientInfo s c) \<noteq> STATUS_IOCMDCLOSE
                then f\<lparr>rFds := insert (Socket (ClientInfo s c)) (rFds f)\<rparr> else f, s)
        })"

definition prepare :: "ear \<Rightarrow> dogstate \<Rightarrow> (fd_sets \<times> dogstate) option" where
  "prepare e s = do {
     r \<leftarrow> for_each_safe (\<lambda>x. lk (snd x)) WorkHd
            (\<lambda>n x. do { c \<leftarrow> client_of n; x \<leftarrow> prepare_client c x; Some (False, x) })
            (\<lparr>rFds = {SocketListen e}, wFds = {}\<rparr>, s);
     Some (snd r)
   }"

section \<open>Accepting\<close>

definition accept_client :: "net \<Rightarrow> ear \<times> dogstate \<Rightarrow> (ear \<times> dogstate) option" where
  "accept_client a x =
     (case x of (e, s) \<Rightarrow>
        case net_accept a of
          None \<Rightarrow> Some (e, s)
        | Some (sd, addr, port) \<Rightarrow>
            if list_empty FreeHd (lk s) then Some (e, log_effect (CloseSocket sd) s)
            else do {
              n \<leftarrow> nxt (lk s) FreeHd;
              c \<leftarrow> client_of n;
              ip \<leftarrow> inet_ntoa addr 0;
              let e = e\<lparr>maxfd := sd, next_session := next_session e + 1\<rparr>;
              let s = upd_client c (\<lambda>x. x\<lparr>Socket := sd, IPAddress := fold (\<lambda>b n. 256 * n + unat b) (rev addr) 0,
                lIPPort := port, strIP := ip, iSessionID := next_session e, iMsgNumID := 0,
                lSocketStatus := STATUS_SOCKET_CONNECT, lStatus := STATUS_UNKNOWN,
                lType := CLIENT_UNKNOWN, Prs := net_parser a\<rparr>) s;
              h \<leftarrow> list_move (Cli c) WorkHd (lk s);
              Some (e, s\<lparr>lk := h\<rparr>)
            })"

section \<open>Receiving and sending\<close>

text \<open>
  \<^verbatim>\<open>send\<close> takes at most the bytes it is given, from the buffer that \<open>pSndData\<close>
  points into; the result is \<open>None\<close> for a result \<open>\<le> 0\<close>.
\<close>

definition send_result :: "net \<Rightarrow> nat \<Rightarrow> dogstate \<Rightarrow> nat option" where
  "send_result a c s =
     (case net_send a c of
        None \<Rightarrow> None
      | Some room \<Rightarrow>
          (let sn = min room (nat (iCurSendLen (ClientInfo s c))) in if sn = 0 then None else Some sn))"

definition sent_bytes :: "dogstate \<Rightarrow> nat \<Rightarrow> nat \<Rightarrow> string option" where
  "sent_bytes s c n = do {
     p \<leftarrow> pSndData (ClientInfo s c);
     let hs = m_stream (cells s (fst p));
     read_at (chunk_base hs + snd p) n (chunk_block hs)
   }"

definition send_client :: "net \<Rightarrow> nat \<Rightarrow> dogstate \<Rightarrow> dogstate option" where
  "send_client a c s =
     (if iCurSendLen (ClientInfo s c) \<noteq> 0
      then (case send_result a c s of
          None \<Rightarrow> CLIENTTOEND (net_realloc a) c s
        | Some sn \<Rightarrow> do {
            bytes \<leftarrow> sent_bytes s c sn;
            let s = log_effect (SendBytes (Socket (ClientInfo s c)) bytes) s;
            let s = upd_client c (\<lambda>x. x\<lparr>iCurSendLen := iCurSendLen x - int sn\<rparr>) s;
            if 0 < iCurSendLen (ClientInfo s c)
            then Some (upd_client c (\<lambda>x. x\<lparr>pSndData := map_option (\<lambda>p. (fst p, snd p + sn)) (pSndData x)\<rparr>) s)
            else do {
              let s = (case pCurSendMsg (ClientInfo s c) of Some m \<Rightarrow> push_free m s | None \<Rightarrow> s);
              let s = upd_client c (\<lambda>x. x\<lparr>iCurSendLen := 0, pCurSendMsg := None\<rparr>) s;
              if list_notempty (SendHd c) (lk s) then next_message c s
              else if lStatus (ClientInfo s c) = STATUS_IOCMDCLOSE then CLIENTTOEND (net_realloc a) c s
              else Some s
            }
          })
      else if lStatus (ClientInfo s c) = STATUS_IOCMDCLOSE then CLIENTTOEND (net_realloc a) c s
      else Some s)"

definition serve_client :: "net \<Rightarrow> int set \<Rightarrow> nat \<Rightarrow> dogstate \<Rightarrow> dogstate option" where
  "serve_client a rd c s =
     (if lStatus (ClientInfo s c) \<noteq> STATUS_IOCMDCLOSE \<and> Socket (ClientInfo s c) \<in> rd
      then (case net_recv a c of
          None \<Rightarrow> CLIENTTOEND (net_realloc a) c s
        | Some data \<Rightarrow> do { s \<leftarrow> receive_loop c data s; send_client a c s })
      else send_client a c s)"

section \<open>A round\<close>

definition readable :: "net \<Rightarrow> ear \<Rightarrow> fd_sets \<Rightarrow> int set" where
  "readable a e f = {fd \<in> rFds f. fd \<in> net_ready a \<and> fd \<le> maxfd e}"

definition ear_round :: "net \<Rightarrow> ear \<times> dogstate \<Rightarrow> (ear \<times> dogstate) option" where
  "ear_round a x = do {
     s \<leftarrow> POP_DOGMSG_2LISTTAIL (snd x);
     (f, s) \<leftarrow> prepare (fst x) s;
     let rd = readable a (fst x) f;
     if net_select a
     then do {
       (e, s) \<leftarrow> (if SocketListen (fst x) \<in> rd then accept_client a (fst x, s) else Some (fst x, s));
       r \<leftarrow> for_each_safe lk WorkHd
              (\<lambda>n s. do { c \<leftarrow> client_of n; s \<leftarrow> serve_client a rd c s; Some (False, s) }) s;
       Some (e, snd r)
     }
     else Some (fst x, s)
   }"

end
