(* ===== verification/DogKeep.thy ===== *)
theory DogKeep
  imports DogEar
begin

text \<open>
  The division of the state between the threads: whatever a handler of the I/O thread does,
  it leaves alone the ring of input cells, the indices, and those fields of a client that
  belong to the socket thread.
\<close>

definition socket_fields ::
  "CLIENTINFO \<Rightarrow> int \<times> u32 \<times> CLIENTSOCKETSTATUS \<times> nat option \<times> int \<times> (nat \<times> nat) option \<times> nat option" where
  "socket_fields x = (Socket x, iSessionID x, lSocketStatus x, pCurCat2DogIOMsg x, iCurSendLen x, pSndData x, pCurSendMsg x)"

definition same_in :: "dogstate \<Rightarrow> dogstate \<Rightarrow> bool" where
  "same_in s s' \<longleftrightarrow> in_cells s' = in_cells s \<and> Cat2DogIOMsg s' = Cat2DogIOMsg s
     \<and> uiCliPutMsgIndex s' = uiCliPutMsgIndex s \<and> uiIoGetMsgIndex s' = uiIoGetMsgIndex s
     \<and> uiCliGetMsgIndex s' = uiCliGetMsgIndex s \<and> uiCliGetMsgNextIndex s' = uiCliGetMsgNextIndex s
     \<and> (\<forall>c. socket_fields (ClientInfo s' c) = socket_fields (ClientInfo s c))"

named_theorems keeps \<open>operations that keep the part of the socket thread\<close>

lemma same_in_refl [simp]: "same_in s s"
  by (simp add: same_in_def)

lemma same_in_trans: "same_in s t \<Longrightarrow> same_in t u \<Longrightarrow> same_in s u"
  by (simp add: same_in_def)

text \<open>The updates that occur in the handlers, as rewrites.\<close>

lemma same_in_updates [simp]:
  "same_in s (s'\<lparr>lk := h\<rparr>) = same_in s s'" "same_in s (s'\<lparr>CuteDogs := d\<rparr>) = same_in s s'"
  "same_in s (s'\<lparr>dog_count := n\<rparr>) = same_in s s'" "same_in s (s'\<lparr>pFifoDogMsgFree := q\<rparr>) = same_in s s'"
  "same_in s (s'\<lparr>pFifoDogMsg := q\<rparr>) = same_in s s'" "same_in s (s'\<lparr>tidp := t\<rparr>) = same_in s s'"
  "same_in s (s'\<lparr>pcap_handle := p\<rparr>) = same_in s s'" "same_in s (s'\<lparr>FunCallBack := f\<rparr>) = same_in s s'"
  "same_in s (upd_cell m g s') = same_in s s'" "same_in s (log_effect e s') = same_in s s'"
  "same_in s (IoPutSendMsgCell m s') = same_in s s'" "same_in s (free_dog n s') = same_in s s'"
  by (simp_all add: same_in_def upd_cell_def log_effect_def IoPutSendMsgCell_def free_dog_def)

lemma same_in_client [simp]:
  assumes "\<And>x. socket_fields (f x) = socket_fields x"
  shows "same_in s (upd_client c f s') = same_in s s'"
  using assms by (auto simp: same_in_def upd_client_def)

lemma socket_fields_updates [simp]:
  "socket_fields (x\<lparr>lType := t\<rparr>) = socket_fields x" "socket_fields (x\<lparr>CuteDog := d\<rparr>) = socket_fields x"
  "socket_fields (x\<lparr>Prs := p\<rparr>) = socket_fields x" "socket_fields (x\<lparr>lStatus := st\<rparr>) = socket_fields x"
  by (simp_all add: socket_fields_def)

lemma same_in_updates_left [simp]:
  "same_in (s\<lparr>lk := h\<rparr>) s' = same_in s s'" "same_in (s\<lparr>CuteDogs := d\<rparr>) s' = same_in s s'"
  "same_in (s\<lparr>pcap_handle := p\<rparr>) s' = same_in s s'" "same_in (s\<lparr>FunCallBack := f\<rparr>) s' = same_in s s'"
  "same_in (log_effect e s) s' = same_in s s'"
  by (simp_all add: same_in_def log_effect_def)

lemma same_in_client_left [simp]:
  assumes "\<And>x. socket_fields (f x) = socket_fields x"
  shows "same_in (upd_client c f s) s' = same_in s s'"
  using assms by (auto simp: same_in_def upd_client_def)

section \<open>Loops\<close>

lemma list_for_each_keeps:
  assumes body: "\<And>n t r. body n t = Some r \<Longrightarrow> same_in t (snd r)"
    and run: "list_for_each lk' head body pos s = Some r"
  shows "same_in s (snd r)"
proof -
  let ?Q = "\<lambda>lk'' head' body' pos' t r. body' = body \<longrightarrow> same_in t (snd r)"
  have "?Q lk' head body pos s r"
    by (rule list_for_each.raw_induct [where P = ?Q, OF _ run])
      (auto split: Option.bind_splits if_splits dest!: body intro: same_in_trans)
  then show ?thesis by simp
qed

lemma list_for_each_safe_keeps:
  assumes body: "\<And>n t r. body n t = Some r \<Longrightarrow> same_in t (snd r)"
    and run: "list_for_each_safe lk' head body pos n s = Some r"
  shows "same_in s (snd r)"
proof -
  let ?Q = "\<lambda>lk'' head' body' pos' n' t r. body' = body \<longrightarrow> same_in t (snd r)"
  have "?Q lk' head body pos n s r"
    by (rule list_for_each_safe.raw_induct [where P = ?Q, OF _ run])
      (auto split: Option.bind_splits if_splits dest!: body intro: same_in_trans)
  then show ?thesis by simp
qed

lemma for_each_keeps:
  assumes run: "for_each lk' head body s = Some (b, s')"
    and body: "\<And>n t b t'. body n t = Some (b, t') \<Longrightarrow> same_in t t'"
  shows "same_in s s'"
proof -
  from run obtain p where "list_for_each lk' head body p s = Some (b, s')"
    by (auto simp: for_each_def split: Option.bind_splits)
  from list_for_each_keeps [OF _ this] body show ?thesis by fastforce
qed

lemma for_each_safe_keeps:
  assumes run: "for_each_safe lk' head body s = Some (b, s')"
    and body: "\<And>n t b t'. body n t = Some (b, t') \<Longrightarrow> same_in t t'"
  shows "same_in s s'"
proof -
  from run obtain p where "list_for_each_safe lk' head body p (nxt (lk' s) p) s = Some (b, s')"
    by (auto simp: for_each_safe_def split: Option.bind_splits)
  from list_for_each_safe_keeps [OF _ this] body show ?thesis by fastforce
qed

section \<open>Handlers\<close>

lemma IoGetSendMsgCell_keeps [keeps]: "IoGetSendMsgCell c s = Some r \<Longrightarrow> same_in s (snd r)"
  by (auto simp: IoGetSendMsgCell_def split: prod.splits if_splits Option.bind_splits)

lemma push_cell_string_keeps [keeps]: "push_cell_string env m str s = Some s' \<Longrightarrow> same_in s s'"
  by (auto simp: push_cell_string_def split: Option.bind_splits)

lemma post_keeps [keeps]: "post env c str s = Some r \<Longrightarrow> same_in s (snd r)"
  by (auto simp: post_def split: Option.bind_splits option.splits dest!: keeps intro: same_in_trans)

lemma broadcast_step_keeps: "broadcast_step env Body n s = Some r \<Longrightarrow> same_in s (snd r)"
  by (auto simp: broadcast_step_def split: Option.bind_splits option.splits dest!: keeps intro: same_in_trans)

lemma CuteDogBroadCast_keeps [keeps]: "CuteDogBroadCast env s = Some s' \<Longrightarrow> same_in s s'"
  by (auto simp: CuteDogBroadCast_def Let_def split: Option.bind_splits if_splits
      elim!: for_each_safe_keeps dest!: broadcast_step_keeps)

lemma AddHooker2CuteDog_keeps [keeps]: "AddHooker2CuteDog name c s = Some r \<Longrightarrow> same_in s (snd r)"
  by (cases r) (auto simp: AddHooker2CuteDog_def split: Option.bind_splits option.splits if_splits elim!: for_each_keeps)

lemma DelHookerInCuteDog_keeps [keeps]: "DelHookerInCuteDog c s = Some r \<Longrightarrow> same_in s (snd r)"
  by (cases r) (auto simp: DelHookerInCuteDog_def split: Option.bind_splits option.splits if_splits elim!: for_each_safe_keeps)

lemma lose_step_keeps: "lose_step env d n s = Some r \<Longrightarrow> same_in s (snd r)"
  by (auto simp: lose_step_def split: Option.bind_splits option.splits if_splits dest!: keeps)

lemma DelHookersWithCuteDog_keeps [keeps]: "DelHookersWithCuteDog env d s = Some r \<Longrightarrow> same_in s (snd r)"
  by (cases r) (auto simp: DelHookersWithCuteDog_def split: Option.bind_splits if_splits
      elim!: for_each_safe_keeps dest!: lose_step_keeps)

lemma DelCuteDogInList_keeps [keeps]: "DelCuteDogInList env c s = Some r \<Longrightarrow> same_in s (snd r)"
  by (auto simp: DelCuteDogInList_def split: Option.bind_splits option.splits dest!: keeps)

lemma AddCuteDog2List_keeps [keeps]: "AddCuteDog2List env h name flt c s = Some r \<Longrightarrow> same_in s (snd r)"
  by (auto simp: AddCuteDog2List_def Let_def split: Option.bind_splits option.splits if_splits)

lemma SetCapFilter_keeps [keeps]: "SetCapFilter env h flt c s = Some r \<Longrightarrow> same_in s (snd r)"
  by (auto simp: SetCapFilter_def split: Option.bind_splits option.splits if_splits dest!: keeps)

lemma StartDogNose_keeps [keeps]: "StartDogNose env flt name c model s = Some r \<Longrightarrow> same_in s (snd r)"
  by (auto simp: StartDogNose_def Let_def split: Option.bind_splits option.splits if_splits
      dest!: keeps intro: same_in_trans)

lemma StopDogNose_keeps [keeps]: "StopDogNose env c s = Some r \<Longrightarrow> same_in s (snd r)"
  by (auto simp: StopDogNose_def Let_def split: Option.bind_splits option.splits if_splits
      dest!: keeps intro: same_in_trans)

lemma CatHandShake_keeps [keeps]: "CatHandShake env c s = Some r \<Longrightarrow> same_in s (snd r)"
  by (auto simp: CatHandShake_def dest!: keeps)

lemma RespCatLogin0_keeps [keeps]: "RespCatLogin0 env node c s = Some r \<Longrightarrow> same_in s (snd r)"
  by (auto simp: RespCatLogin0_def split: Option.bind_splits option.splits dest!: keeps intro: same_in_trans)

lemma RespCatAllFilters_keeps [keeps]: "RespCatAllFilters env node c s = Some r \<Longrightarrow> same_in s (snd r)"
  by (auto simp: RespCatAllFilters_def split: Option.bind_splits option.splits if_splits dest!: keeps)

lemma RespCatSetHooker_keeps [keeps]: "RespCatSetHooker env node c s = Some r \<Longrightarrow> same_in s (snd r)"
  by (auto simp: RespCatSetHooker_def Let_def split: Option.bind_splits option.splits if_splits
      dest!: keeps intro: same_in_trans)

lemma RespCatCreateFilter_keeps [keeps]: "RespCatCreateFilter env node c s = Some r \<Longrightarrow> same_in s (snd r)"
  by (auto simp: RespCatCreateFilter_def Let_def split: Option.bind_splits option.splits if_splits
      dest!: keeps intro: same_in_trans)

lemma IOXMLIq_keeps [keeps]: "IOXMLIq env node c s = Some s' \<Longrightarrow> same_in s s'"
  by (auto simp: IOXMLIq_def split: Option.bind_splits if_splits dest!: keeps)

lemma IOProcessCatMsg_keeps [keeps]: "IOProcessCatMsg env c ev s = Some s' \<Longrightarrow> same_in s s'"
  by (auto simp: IOProcessCatMsg_def split: iksnode.splits Option.bind_splits ikspaktype.splits dest!: keeps)

lemma run_events_keeps [keeps]: "run_events c es s = Some s' \<Longrightarrow> same_in s s'"
  by (induction es arbitrary: s) (auto split: Option.bind_splits dest!: keeps intro: same_in_trans)

lemma IOProcessParser_keeps [keeps]: "IOProcessParser parse c hs s = Some s' \<Longrightarrow> same_in s s'"
  by (auto simp: IOProcessParser_def split: Option.bind_splits if_splits dest!: keeps)

lemma FreeObj_keeps [keeps]: "FreeObj env c s = Some s' \<Longrightarrow> same_in s s'"
  by (auto simp: FreeObj_def Let_def split: Option.bind_splits if_splits dest!: keeps intro: same_in_trans)

end
