(* ===== verification/InRing.thy ===== *)
theory InRing
  imports DogKeep "HOL-Library.Sublist"
begin

text \<open>
  The ring of input cells between the socket thread and the I/O thread.  Its slots hold all
  input cells but one free slot; the cells from the I/O thread's index up to the put index
  are pending, the cell after the put index is the next one the socket thread fills.  The
  abstract queue is the list of pending messages.
\<close>

section \<open>Invariant and abstraction\<close>

definition in_cell_ok :: "CAT2DOGIOMSG \<Rightarrow> bool" where
  "in_cell_ok x \<longleftrightarrow> stream_wf (in_stream x) \<and> stream_slack (in_stream x) \<and> stream_size (in_stream x) = MSGINITSIZE"

definition in_wf :: "dogstate \<Rightarrow> bool" where
  "in_wf s \<longleftrightarrow> length (Cat2DogIOMsg s) = CAT2DOGIOMSGNUM
     \<and> uiCliPutMsgIndex s < CAT2DOGIOMSGNUM \<and> uiIoGetMsgIndex s < CAT2DOGIOMSGNUM
     \<and> uiCliGetMsgIndex s = (uiCliPutMsgIndex s + 1) mod CAT2DOGIOMSGNUM
     \<and> uiCliGetMsgNextIndex s = (uiCliPutMsgIndex s + 2) mod CAT2DOGIOMSGNUM
     \<and> ring_count CAT2DOGIOMSGNUM (uiIoGetMsgIndex s) (uiCliPutMsgIndex s) \<le> CAT2DOGIOMSGNUM - 2
     \<and> (\<forall>i < CAT2DOGIOMSGNUM. i \<noteq> uiCliPutMsgIndex s \<longrightarrow>
          (\<exists>j. Cat2DogIOMsg s ! i = Some j \<and> in_cell_ok (in_cells s j)))
     \<and> (\<forall>i < CAT2DOGIOMSGNUM. \<forall>j < CAT2DOGIOMSGNUM. i \<noteq> uiCliPutMsgIndex s \<longrightarrow> j \<noteq> uiCliPutMsgIndex s \<longrightarrow>
          Cat2DogIOMsg s ! i = Cat2DogIOMsg s ! j \<longrightarrow> i = j)
     \<and> (\<forall>c. pCurCat2DogIOMsg (ClientInfo s c) = None)"

text \<open>The pending cells, oldest first, and what they hold: session, client and received bytes.\<close>

definition in_pending :: "dogstate \<Rightarrow> nat list" where
  "in_pending s = map the (ring_list CAT2DOGIOMSGNUM (uiIoGetMsgIndex s) (uiCliPutMsgIndex s) (Cat2DogIOMsg s))"

definition in_bytes :: "cstream \<Rightarrow> string" where
  "in_bytes hs = take (chunk_ptr hs) (stream_area hs)"

definition in_message :: "CAT2DOGIOMSG \<Rightarrow> u32 \<times> nat option \<times> string" where
  "in_message x = (in_session x, in_client x, in_bytes (in_stream x))"

definition in_queue :: "dogstate \<Rightarrow> (u32 \<times> nat option \<times> string) list" where
  "in_queue s = map (\<lambda>i. in_message (in_cells s i)) (in_pending s)"

text \<open>What the I/O thread reads in a pending cell: the text up to the first NUL of its buffer.\<close>

definition seen :: "CAT2DOGIOMSG \<Rightarrow> u32 \<times> nat option \<times> string" where
  "seen x = (in_session x, in_client x, c_str (stream_area (in_stream x)))"

definition seen_queue :: "dogstate \<Rightarrow> (u32 \<times> nat option \<times> string) list" where
  "seen_queue s = map (\<lambda>i. seen (in_cells s i)) (in_pending s)"

text \<open>
  A text that is read in a cell begins with the bytes that were put into it; behind them is what
  an earlier message left there.
\<close>

definition holds :: "u32 \<times> nat option \<times> string \<Rightarrow> u32 \<times> nat option \<times> string \<Rightarrow> bool" where
  "holds m t \<longleftrightarrow> fst t = fst m \<and> fst (snd t) = fst (snd m) \<and> (\<exists>rest. snd (snd t) = c_str (snd (snd m) @ rest))"

definition in_room :: nat where
  "in_room = CAT2DOGIOMSGNUM - 2"

text \<open>Everything of the state that the input ring is not part of.\<close>

definition same_out :: "dogstate \<Rightarrow> dogstate \<Rightarrow> bool" where
  "same_out s s' \<longleftrightarrow> lk s' = lk s \<and> CuteDogs s' = CuteDogs s \<and> dog_count s' = dog_count s \<and> cells s' = cells s
     \<and> pFifoDogMsg s' = pFifoDogMsg s \<and> pFifoDogMsgFree s' = pFifoDogMsgFree s \<and> effects s' = effects s
     \<and> ClientInfo s' = ClientInfo s"

section \<open>Taking and handing over a cell\<close>

lemma in_full_iff:
  assumes "in_wf s"
  shows "uiCliGetMsgNextIndex s = uiIoGetMsgIndex s \<longleftrightarrow> length (in_pending s) = in_room"
proof -
  let ?N = CAT2DOGIOMSGNUM and ?p = "uiCliPutMsgIndex s" and ?g = "uiIoGetMsgIndex s"
  have b: "?p < ?N" "?g < ?N" "ring_count ?N ?g ?p \<le> ?N - 2" "uiCliGetMsgNextIndex s = (?p + 2) mod ?N"
    using assms by (auto simp: in_wf_def)
  have "(?p + 2) mod ?N = ?g \<longleftrightarrow> ring_count ?N ?g ?p = ?N - 2"
    using b(1-3) unfolding ring_count_def CAT2DOGIOMSGNUM_def by (auto simp: mod_if)
  with b(4) show ?thesis by (simp add: in_pending_def ring_list_def in_room_def)
qed

text \<open>
  The state after the socket thread has filled the next cell and handed it over: cell \<open>i\<close>
  is pending behind the others and no other pending cell is touched.
\<close>

lemma in_put_pending:
  assumes "in_wf s" "length (in_pending s) < in_room"
    and i: "Cat2DogIOMsg s ! uiCliGetMsgIndex s = Some i"
    and s': "Cat2DogIOMsg s' = (Cat2DogIOMsg s)[uiCliPutMsgIndex s := Some i]"
      "uiCliPutMsgIndex s' = (uiCliPutMsgIndex s + 1) mod CAT2DOGIOMSGNUM"
      "uiIoGetMsgIndex s' = uiIoGetMsgIndex s" "uiCliGetMsgIndex s' = uiCliGetMsgNextIndex s"
      "uiCliGetMsgNextIndex s' = (uiCliGetMsgNextIndex s + 1) mod CAT2DOGIOMSGNUM"
      "\<forall>j. j \<noteq> i \<longrightarrow> in_cells s' j = in_cells s j" "in_cell_ok (in_cells s' i)"
      "\<forall>c. pCurCat2DogIOMsg (ClientInfo s' c) = None"
  shows "in_wf s' \<and> in_pending s' = in_pending s @ [i] \<and> in_queue s' = in_queue s @ [in_message (in_cells s' i)]
    \<and> seen_queue s' = seen_queue s @ [seen (in_cells s' i)]"
proof -
  let ?N = CAT2DOGIOMSGNUM and ?p = "uiCliPutMsgIndex s" and ?g = "uiIoGetMsgIndex s"
  let ?a = "Cat2DogIOMsg s"
  have b: "?p < ?N" "?g < ?N" "length ?a = ?N" "ring_count ?N ?g ?p \<le> ?N - 2"
      "uiCliGetMsgNextIndex s = (?p + 2) mod ?N" "uiCliGetMsgIndex s = Suc ?p mod ?N"
      "\<And>i. i < ?N \<Longrightarrow> i \<noteq> ?p \<Longrightarrow> \<exists>j. ?a ! i = Some j \<and> in_cell_ok (in_cells s j)"
      "\<And>i j. i < ?N \<Longrightarrow> j < ?N \<Longrightarrow> i \<noteq> ?p \<Longrightarrow> j \<noteq> ?p \<Longrightarrow> ?a ! i = ?a ! j \<Longrightarrow> i = j"
    using assms(1) by (auto simp: in_wf_def)
  have N: "2 < ?N" by (simp add: CAT2DOGIOMSGNUM_def)
  have cnt: "ring_count ?N ?g ?p < ?N - 2"
    using assms(2) by (simp add: in_pending_def ring_list_def in_room_def)
  have np: "Suc ?p mod ?N \<noteq> ?g" using cnt ring_full_iff [OF b(2,1)] N by auto
  have q: "Suc ?p mod ?N < ?N" "Suc ?p mod ?N \<noteq> ?p"
    using b(1) N by (auto simp: Suc_mod_cases)
  have rl: "ring_list ?N ?g (Suc ?p mod ?N) (?a[?p := Some i]) = ring_list ?N ?g ?p ?a @ [Some i]"
    by (rule ring_list_push [OF b(2,1,3) np])
  then have pend: "in_pending s' = in_pending s @ [i]" by (simp add: in_pending_def s')
  have idx: "Cat2DogIOMsg s' ! j = (if j = ?p then Some i else ?a ! j)" if "j < ?N" for j
    using that b(3) by (simp add: s'(1) nth_list_update)
  have ai: "?a ! (Suc ?p mod ?N) = Some i" using i by (simp add: b(6))
  have some: "\<exists>l. Cat2DogIOMsg s' ! j = Some l \<and> in_cell_ok (in_cells s' l)" if j: "j < ?N" "j \<noteq> Suc ?p mod ?N" for j
  proof (cases "j = ?p")
    case True
    then show ?thesis using j(1) s'(7) by (simp add: idx)
  next
    case False
    then obtain l where l: "?a ! j = Some l" "in_cell_ok (in_cells s l)" using b(7) j(1) by blast
    have "l \<noteq> i" using b(8) [OF j(1) q(1) False q(2)] l(1) ai j(2) by auto
    then show ?thesis using l False j(1) s'(6) by (simp add: idx)
  qed
  have inj: "j = l" if "j < ?N" "l < ?N" "j \<noteq> Suc ?p mod ?N" "l \<noteq> Suc ?p mod ?N"
      "Cat2DogIOMsg s' ! j = Cat2DogIOMsg s' ! l" for j l
    using that b(8) [of j l] b(8) [of "Suc ?p mod ?N" l] b(8) [of j "Suc ?p mod ?N"] q ai
    by (auto simp: idx split: if_splits)
  have m: "(uiCliGetMsgNextIndex s + 1) mod ?N = (uiCliPutMsgIndex s' + 2) mod ?N"
    "uiCliGetMsgNextIndex s = (uiCliPutMsgIndex s' + 1) mod ?N"
    unfolding s'(2) b(5) by (simp_all add: mod_simps)
  have cnt': "ring_count ?N ?g (Suc ?p mod ?N) \<le> ?N - 2"
    using cnt by (simp add: ring_count_push [OF b(2,1) np])
  have wf: "in_wf s'"
    unfolding in_wf_def
  proof (intro conjI)
    show "uiCliGetMsgNextIndex s' = (uiCliPutMsgIndex s' + 2) mod ?N" using m(1) s'(5) by simp
    show "uiCliGetMsgIndex s' = (uiCliPutMsgIndex s' + 1) mod ?N" using m(2) s'(4) by simp
    show "\<forall>i < ?N. \<forall>j < ?N. i \<noteq> uiCliPutMsgIndex s' \<longrightarrow> j \<noteq> uiCliPutMsgIndex s' \<longrightarrow>
        Cat2DogIOMsg s' ! i = Cat2DogIOMsg s' ! j \<longrightarrow> i = j"
      using inj by (simp add: s'(2))
    show "\<forall>i < ?N. i \<noteq> uiCliPutMsgIndex s' \<longrightarrow> (\<exists>j. Cat2DogIOMsg s' ! i = Some j \<and> in_cell_ok (in_cells s' j))"
      using some by (simp add: s'(2))
    show "length (Cat2DogIOMsg s') = ?N" using b(3) by (simp add: s'(1))
    show "uiCliPutMsgIndex s' < ?N" using q(1) by (simp add: s'(2))
    show "uiIoGetMsgIndex s' < ?N" using b(2) by (simp add: s'(3))
    show "ring_count ?N (uiIoGetMsgIndex s') (uiCliPutMsgIndex s') \<le> ?N - 2" using cnt' by (simp add: s'(2,3))
    show "\<forall>c. pCurCat2DogIOMsg (ClientInfo s' c) = None" by (rule s'(8))
  qed
  have "i \<notin> set (in_pending s)"
  proof
    assume "i \<in> set (in_pending s)"
    then obtain l where l: "l < ring_count ?N ?g ?p" "i = the (?a ! ((?g + l) mod ?N))"
      by (auto simp: in_pending_def ring_list_def)
    let ?j = "(?g + l) mod ?N"
    have j: "?j < ?N" "?j \<noteq> ?p" using ring_index_neq [OF b(2,1) l(1)] N by auto
    then have "?a ! ?j = Some i" using b(7) [of ?j] l(2) by auto
    then have e: "?j = Suc ?p mod ?N" using b(8) [OF j(1) q(1) j(2) q(2)] ai by simp
    have "l < ring_count ?N ?g (Suc ?p mod ?N)" using l(1) by (simp add: ring_count_push [OF b(2,1) np])
    then show False using ring_index_neq [OF b(2) q(1)] e by blast
  qed
  then have "in_cells s' j = in_cells s j" if "j \<in> set (in_pending s)" for j using s'(6) that by metis
  then have "map (\<lambda>j. in_message (in_cells s' j)) (in_pending s) = in_queue s"
    "map (\<lambda>j. seen (in_cells s' j)) (in_pending s) = seen_queue s"
    by (simp_all add: in_queue_def seen_queue_def)
  with wf pend show ?thesis by (simp add: in_queue_def seen_queue_def)
qed

text \<open>What \<^verbatim>\<open>get_in_cell\<close>, a change of the taken cell's buffer and \<^verbatim>\<open>put_in_cell\<close> do together.\<close>

definition filled :: "nat \<Rightarrow> nat \<Rightarrow> cstream \<Rightarrow> dogstate \<Rightarrow> dogstate" where
  "filled c i hs s =
     s\<lparr>uiCliGetMsgIndex := uiCliGetMsgNextIndex s,
       uiCliGetMsgNextIndex := (uiCliGetMsgNextIndex s + 1) mod CAT2DOGIOMSGNUM,
       in_cells := (in_cells s)(i := (in_cells s i)\<lparr>in_session := iSessionID (ClientInfo s c),
         in_client := Some c, in_stream := hs\<rparr>),
       Cat2DogIOMsg := (Cat2DogIOMsg s)[uiCliPutMsgIndex s := Some i],
       uiCliPutMsgIndex := (uiCliPutMsgIndex s + 1) mod CAT2DOGIOMSGNUM\<rparr>"

lemma next_in_cell:
  assumes "in_wf s"
  obtains i where "nth_opt (Cat2DogIOMsg s) (uiCliGetMsgIndex s) = Some (Some i)"
    "Cat2DogIOMsg s ! uiCliGetMsgIndex s = Some i" "in_cell_ok (in_cells s i)"
proof -
  have p: "uiCliPutMsgIndex s < CAT2DOGIOMSGNUM" "uiCliGetMsgIndex s = Suc (uiCliPutMsgIndex s) mod CAT2DOGIOMSGNUM"
    using assms by (simp_all add: in_wf_def)
  then have "uiCliGetMsgIndex s < CAT2DOGIOMSGNUM" "uiCliGetMsgIndex s \<noteq> uiCliPutMsgIndex s"
    by (auto simp: Suc_mod_cases CAT2DOGIOMSGNUM_def)
  moreover have "length (Cat2DogIOMsg s) = CAT2DOGIOMSGNUM"
    "\<forall>i < CAT2DOGIOMSGNUM. i \<noteq> uiCliPutMsgIndex s \<longrightarrow> (\<exists>j. Cat2DogIOMsg s ! i = Some j \<and> in_cell_ok (in_cells s j))"
    using assms by (simp_all add: in_wf_def)
  ultimately obtain i where "Cat2DogIOMsg s ! uiCliGetMsgIndex s = Some i" "in_cell_ok (in_cells s i)" "uiCliGetMsgIndex s < length (Cat2DogIOMsg s)"
    by auto
  then show ?thesis using that by (simp add: mem_simps)
qed

lemma get_in_cell_full:
  assumes "in_wf s" "length (in_pending s) = in_room"
  shows "get_in_cell c s = Some None"
proof -
  have "pCurCat2DogIOMsg (ClientInfo s c) = None" using assms by (simp add: in_wf_def)
  with assms in_full_iff [OF assms(1)] show ?thesis by (simp add: get_in_cell_def)
qed

lemma get_fill_put:
  assumes "in_wf s" "length (in_pending s) < in_room"
  shows "\<exists>i t. Cat2DogIOMsg s ! uiCliGetMsgIndex s = Some i \<and> in_cell_ok (in_cells s i) \<and> get_in_cell c s = Some (Some t)
    \<and> pCurCat2DogIOMsg (ClientInfo t c) = Some i \<and> in_stream (in_cells t i) = reset_stream (in_stream (in_cells s i))
    \<and> (\<forall>hs. put_in_cell c (t\<lparr>in_cells := (in_cells t)(i := (in_cells t i)\<lparr>in_stream := hs\<rparr>)\<rparr>) = filled c i hs s)"
proof -
  obtain i where i: "nth_opt (Cat2DogIOMsg s) (uiCliGetMsgIndex s) = Some (Some i)"
    "Cat2DogIOMsg s ! uiCliGetMsgIndex s = Some i" "in_cell_ok (in_cells s i)"
    using next_in_cell [OF assms(1)] .
  have n: "pCurCat2DogIOMsg (ClientInfo s c) = None" using assms by (simp add: in_wf_def)
  have "uiCliGetMsgNextIndex s \<noteq> uiIoGetMsgIndex s" using in_full_iff [OF assms(1)] assms(2) by auto
  then show ?thesis
    using i n by (auto simp: get_in_cell_def put_in_cell_def filled_def upd_client_def Let_def fun_upd_idem)
qed

lemma filled_sel [simp]:
  "lk (filled c i hs s) = lk s" "ClientInfo (filled c i hs s) = ClientInfo s" "cells (filled c i hs s) = cells s"
  "uiIoGetMsgIndex (filled c i hs s) = uiIoGetMsgIndex s"
  "in_cells (filled c i hs s) i = (in_cells s i)\<lparr>in_session := iSessionID (ClientInfo s c),
     in_client := Some c, in_stream := hs\<rparr>"
  by (simp_all add: filled_def)

lemma filled_same_out [simp]: "same_out s (filled c i hs s)"
  by (simp add: same_out_def filled_def)

lemma filled_ok:
  assumes "in_wf s" "length (in_pending s) < in_room" "Cat2DogIOMsg s ! uiCliGetMsgIndex s = Some i"
    and "stream_wf hs" "stream_slack hs" "stream_size hs = MSGINITSIZE"
  shows "in_wf (filled c i hs s)" "in_pending (filled c i hs s) = in_pending s @ [i]"
    "in_queue (filled c i hs s) = in_queue s @ [(iSessionID (ClientInfo s c), Some c, in_bytes hs)]"
    "seen_queue (filled c i hs s) = seen_queue s @ [(iSessionID (ClientInfo s c), Some c, c_str (stream_area hs))]"
proof -
  have "\<forall>c. pCurCat2DogIOMsg (ClientInfo s c) = None" using assms(1) by (simp add: in_wf_def)
  then have "in_wf (filled c i hs s) \<and> in_pending (filled c i hs s) = in_pending s @ [i]
      \<and> in_queue (filled c i hs s) = in_queue s @ [in_message (in_cells (filled c i hs s) i)]
      \<and> seen_queue (filled c i hs s) = seen_queue s @ [seen (in_cells (filled c i hs s) i)]"
    using assms(4-6) by (intro in_put_pending [OF assms(1-3)]) (simp_all add: filled_def in_cell_ok_def)
  then show "in_wf (filled c i hs s)" "in_pending (filled c i hs s) = in_pending s @ [i]"
    "in_queue (filled c i hs s) = in_queue s @ [(iSessionID (ClientInfo s c), Some c, in_bytes hs)]"
    "seen_queue (filled c i hs s) = seen_queue s @ [(iSessionID (ClientInfo s c), Some c, c_str (stream_area hs))]"
    by (simp_all add: in_message_def seen_def)
qed

section \<open>Receiving\<close>

text \<open>The received bytes in pieces of the size of a cell.\<close>

function pieces :: "string \<Rightarrow> string list" where
  "pieces [] = []"
| "pieces (x # xs) = take MSGINITSIZE (x # xs) # pieces (drop MSGINITSIZE (x # xs))"
  by pat_completeness auto
termination by (relation "measure length") (auto simp: MSGINITSIZE_def)

lemma concat_pieces: "concat (pieces xs) = xs"
  by (induction xs rule: pieces.induct) auto

lemma copy_into_cell:
  assumes "in_cell_ok x"
  obtains hs where "copy_stream data (reset_stream (in_stream x)) = Some (drop MSGINITSIZE data, hs)"
    "stream_wf hs" "stream_slack hs" "stream_size hs = MSGINITSIZE" "in_bytes hs = take MSGINITSIZE data"
    "\<exists>rest. stream_area hs = take MSGINITSIZE data @ rest"
proof -
  let ?hs = "in_stream x"
  have x: "stream_wf ?hs" "stream_slack ?hs" "stream_size ?hs = MSGINITSIZE" using assms by (auto simp: in_cell_ok_def)
  from copy_stream_reset [OF x(1), of data] x(3) obtain hs where
    hs: "copy_stream data (reset_stream ?hs) = Some (drop MSGINITSIZE data, hs)"
      "stream_area hs = take MSGINITSIZE data @ drop (length (take MSGINITSIZE data)) (stream_area ?hs)"
      "stream_wf hs" "stream_size hs = MSGINITSIZE" "chunk_ptr hs = length (take MSGINITSIZE data)"
    by auto
  moreover have "stream_slack hs"
    using x(2,3) hs(2,4) unfolding stream_slack_area by (auto simp: nth_append min_def)
  moreover have "in_bytes hs = take MSGINITSIZE data" using hs(2,5) by (simp add: in_bytes_def min_def)
  moreover have "\<exists>rest. stream_area hs = take MSGINITSIZE data @ rest" using hs(2) by blast
  ultimately show ?thesis using that by blast
qed

text \<open>
  The loop over the received bytes: the pieces are queued in order, each with the client and
  its session, until the ring is full; the rest is dropped.
\<close>

lemma receive_loop_queues:
  "in_wf s \<Longrightarrow> \<exists>s'. receive_loop c data s = Some s' \<and> in_wf s' \<and> same_out s s'
     \<and> uiIoGetMsgIndex s' = uiIoGetMsgIndex s
     \<and> in_queue s' = in_queue s @ map (\<lambda>p. (iSessionID (ClientInfo s c), Some c, p))
         (take (in_room - length (in_queue s)) (pieces data))
     \<and> (\<exists>new. seen_queue s' = seen_queue s @ new
         \<and> list_all2 holds (map (\<lambda>p. (iSessionID (ClientInfo s c), Some c, p))
             (take (in_room - length (in_queue s)) (pieces data))) new)"
proof (induction data arbitrary: s rule: pieces.induct)
  case 1
  then show ?case by (simp add: receive_loop.simps [of c "[]"] same_out_def)
next
  case (2 x xs)
  let ?d = "x # xs"
  have len: "length (in_pending s) \<le> in_room"
    using "2.prems" by (auto simp: in_wf_def in_pending_def ring_list_def in_room_def)
  have lq: "length (in_queue s) = length (in_pending s)" by (simp add: in_queue_def)
  show ?case
  proof (cases "length (in_pending s) = in_room")
    case True
    have "receive_loop c ?d s = Some s"
      using get_in_cell_full [OF "2.prems" True, of c] by (simp add: receive_loop.simps [of c ?d])
    with True "2.prems" lq show ?thesis by (intro exI [of _ s]) (simp add: same_out_def)
  next
    case False
    with len have room: "length (in_pending s) < in_room" by simp
    obtain i t where it: "Cat2DogIOMsg s ! uiCliGetMsgIndex s = Some i" "get_in_cell c s = Some (Some t)"
      "pCurCat2DogIOMsg (ClientInfo t c) = Some i" "in_stream (in_cells t i) = reset_stream (in_stream (in_cells s i))"
      "\<And>hs. put_in_cell c (t\<lparr>in_cells := (in_cells t)(i := (in_cells t i)\<lparr>in_stream := hs\<rparr>)\<rparr>) = filled c i hs s"
      and ok: "in_cell_ok (in_cells s i)"
      using get_fill_put [OF "2.prems" room, of c] by blast
    obtain hs where hs: "copy_stream ?d (reset_stream (in_stream (in_cells s i))) = Some (drop MSGINITSIZE ?d, hs)"
      "stream_wf hs" "stream_slack hs" "stream_size hs = MSGINITSIZE" "in_bytes hs = take MSGINITSIZE ?d"
      "\<exists>rest. stream_area hs = take MSGINITSIZE ?d @ rest"
      using copy_into_cell [OF ok] .
    let ?s1 = "filled c i hs s"
    note f = filled_ok [OF "2.prems" room it(1) hs(2,3,4), of c]
    obtain s' new where s': "receive_loop c (drop MSGINITSIZE ?d) ?s1 = Some s'" "in_wf s'" "same_out ?s1 s'"
      "uiIoGetMsgIndex s' = uiIoGetMsgIndex ?s1"
      "in_queue s' = in_queue ?s1 @ map (\<lambda>p. (iSessionID (ClientInfo ?s1 c), Some c, p))
         (take (in_room - length (in_queue ?s1)) (pieces (drop MSGINITSIZE ?d)))"
      "seen_queue s' = seen_queue ?s1 @ new"
      "list_all2 holds (map (\<lambda>p. (iSessionID (ClientInfo ?s1 c), Some c, p))
         (take (in_room - length (in_queue ?s1)) (pieces (drop MSGINITSIZE ?d)))) new"
      using "2.IH" [OF f(1)] by blast
    have "receive_loop c ?d s = Some s'"
      using it hs(1) s'(1) by (simp add: receive_loop.simps [of c ?d])
    moreover have "same_out s s'" using s'(3) filled_same_out [of s c i hs] by (simp add: same_out_def)
    moreover have "in_room - length (in_queue s) = Suc (in_room - length (in_queue ?s1))"
      using room lq f(3) by simp
    moreover have "holds (iSessionID (ClientInfo s c), Some c, take MSGINITSIZE ?d)
        (iSessionID (ClientInfo s c), Some c, c_str (stream_area hs))"
      using hs(6) by (auto simp: holds_def)
    ultimately show ?thesis
      using s'(2,4,5,6,7) f(3,4) hs(5)
      by (intro exI [of _ s'] conjI exI [of _ "(iSessionID (ClientInfo s c), Some c, c_str (stream_area hs)) # new"]) simp_all
  qed
qed

section \<open>Closing\<close>

text \<open>The shut-down text always fits, so a closed client is announced whenever there is a cell.\<close>

lemma shutdown_text_fits: "length shutdown_text \<le> MSGINITSIZE" "no_nul shutdown_text"
  by (simp_all add: shutdown_text_def MSGINITSIZE_def)

lemma push_shutdown:
  assumes "in_cell_ok x"
  obtains hs where "push_stream_string ra shutdown_text (reset_stream (in_stream x)) = Some hs"
    "stream_wf hs" "stream_slack hs" "stream_size hs = MSGINITSIZE" "get_stream_ptr hs = Some shutdown_text"
    "\<exists>rest. stream_area hs = (shutdown_text @ [NUL]) @ rest"
proof -
  let ?hs = "in_stream x"
  have x: "stream_wf ?hs" "stream_slack ?hs" "stream_size ?hs = MSGINITSIZE" using assms by (auto simp: in_cell_ok_def)
  have "chunk_base ?hs + length shutdown_text < length (chunk_block ?hs)"
    using x shutdown_text_fits(1) by (simp add: stream_slack_def)
  then obtain hs where hs: "push_stream_string ra shutdown_text (reset_stream ?hs) = Some hs"
      "get_stream_ptr hs = Some shutdown_text"
      "stream_area hs = shutdown_text @ NUL # drop (Suc (length shutdown_text)) (stream_area ?hs)"
      "stream_size hs = MSGINITSIZE" "chunk_base hs = chunk_base ?hs"
      "length (chunk_block hs) = length (chunk_block ?hs)" "chunk_ptr hs = 0"
    using push_after_reset [OF x(1), of shutdown_text ra] shutdown_text_fits x(3) by auto
  moreover have "stream_wf hs" using x(1,3) hs by (simp add: stream_wf_def)
  moreover have "stream_slack hs"
    using x(2,3) hs(3,4) unfolding stream_slack_area
    by (auto simp: nth_append nth_Cons' shutdown_text_def MSGINITSIZE_def)
  moreover have "\<exists>rest. stream_area hs = (shutdown_text @ [NUL]) @ rest" using hs(3) by simp
  ultimately show ?thesis using that by blast
qed

lemma CLIENTTOEND_queues:
  assumes wf: "in_wf s"
  shows "\<exists>s'. CLIENTTOEND ra c s = Some s' \<and> in_wf s' \<and> uiIoGetMsgIndex s' = uiIoGetMsgIndex s
    \<and> same_out (upd_client c (\<lambda>x. x\<lparr>lStatus := STATUS_UNKNOWN\<rparr>) s) s'
    \<and> (if length (in_queue s) = in_room then in_queue s' = in_queue s \<and> seen_queue s' = seen_queue s
       else \<exists>i hs. in_queue s' = in_queue s @ [(iSessionID (ClientInfo s c), Some c, in_bytes hs)]
         \<and> last (in_pending s') = i \<and> in_stream (in_cells s' i) = hs \<and> IOSOCKET_CLOSE hs = Some True
         \<and> (\<exists>t. seen_queue s' = seen_queue s @ [t]
             \<and> holds (iSessionID (ClientInfo s c), Some c, shutdown_text @ [NUL]) t))"
proof -
  let ?s = "upd_client c (\<lambda>x. x\<lparr>lStatus := STATUS_UNKNOWN\<rparr>) s"
  have wf': "in_wf ?s" using wf by (simp add: in_wf_def upd_client_def)
  have pend: "in_pending ?s = in_pending s" "in_queue ?s = in_queue s" "uiIoGetMsgIndex ?s = uiIoGetMsgIndex s"
    "iSessionID (ClientInfo ?s c) = iSessionID (ClientInfo s c)" "seen_queue ?s = seen_queue s"
    by (simp_all add: in_pending_def in_queue_def seen_queue_def upd_client_def)
  have lq: "length (in_queue s) = length (in_pending s)" by (simp add: in_queue_def)
  have len: "length (in_pending s) \<le> in_room"
    using wf by (auto simp: in_wf_def in_pending_def ring_list_def in_room_def)
  show ?thesis
  proof (cases "length (in_pending s) = in_room")
    case True
    then have "CLIENTTOEND ra c s = Some ?s"
      using get_in_cell_full [OF wf', of c] pend by (simp add: CLIENTTOEND_def)
    with True wf' pend lq show ?thesis by (intro exI [of _ ?s]) (simp add: same_out_def)
  next
    case False
    with len pend have room: "length (in_pending ?s) < in_room" by simp
    obtain i t where it: "Cat2DogIOMsg ?s ! uiCliGetMsgIndex ?s = Some i" "get_in_cell c ?s = Some (Some t)"
      "pCurCat2DogIOMsg (ClientInfo t c) = Some i" "in_stream (in_cells t i) = reset_stream (in_stream (in_cells ?s i))"
      "\<And>hs. put_in_cell c (t\<lparr>in_cells := (in_cells t)(i := (in_cells t i)\<lparr>in_stream := hs\<rparr>)\<rparr>) = filled c i hs ?s"
      and ok: "in_cell_ok (in_cells ?s i)"
      using get_fill_put [OF wf' room, of c] by blast
    obtain hs where hs: "push_stream_string ra shutdown_text (reset_stream (in_stream (in_cells ?s i))) = Some hs"
      "stream_wf hs" "stream_slack hs" "stream_size hs = MSGINITSIZE" "get_stream_ptr hs = Some shutdown_text"
      "\<exists>rest. stream_area hs = (shutdown_text @ [NUL]) @ rest"
      using push_shutdown [OF ok] .
    note f = filled_ok [OF wf' room it(1) hs(2,3,4), of c]
    have "CLIENTTOEND ra c s = Some (filled c i hs ?s)" using it hs(1) by (simp add: CLIENTTOEND_def)
    moreover have "IOSOCKET_CLOSE hs = Some True" using hs(5) by (simp add: IOSOCKET_CLOSE_def)
    moreover have "last (in_pending (filled c i hs ?s)) = i" "in_stream (in_cells (filled c i hs ?s) i) = hs"
      using f(2) by simp_all
    moreover have "holds (iSessionID (ClientInfo s c), Some c, shutdown_text @ [NUL])
        (iSessionID (ClientInfo s c), Some c, c_str (stream_area hs))"
      using hs(6) unfolding holds_def by simp metis
    ultimately show ?thesis
      using False f(1,3,4) pend lq by (intro exI [of _ "filled c i hs ?s"]) auto
  qed
qed

section \<open>The I/O thread\<close>

lemma in_wf_same_in:
  assumes "same_in s s'"
  shows "in_wf s' = in_wf s" "in_pending s' = in_pending s" "in_queue s' = in_queue s"
    "seen_queue s' = seen_queue s"
proof -
  have "pCurCat2DogIOMsg (ClientInfo s' c) = pCurCat2DogIOMsg (ClientInfo s c)" for c
    using assms by (simp add: same_in_def socket_fields_def)
  with assms show "in_wf s' = in_wf s" "in_pending s' = in_pending s" "in_queue s' = in_queue s"
    "seen_queue s' = seen_queue s"
    by (simp_all add: same_in_def in_wf_def in_pending_def in_queue_def seen_queue_def)
qed

lemma in_empty_iff: "in_wf s \<Longrightarrow> in_pending s = [] \<longleftrightarrow> uiCliPutMsgIndex s = uiIoGetMsgIndex s"
proof -
  assume "in_wf s"
  then have "uiIoGetMsgIndex s < CAT2DOGIOMSGNUM" "uiCliPutMsgIndex s < CAT2DOGIOMSGNUM" by (simp_all add: in_wf_def)
  from ring_count_0_iff [OF this] show ?thesis by (auto simp: in_pending_def ring_list_def)
qed

lemma in_wf_io_index:
  assumes "in_wf s" "g < CAT2DOGIOMSGNUM" "ring_count CAT2DOGIOMSGNUM g (uiCliPutMsgIndex s) \<le> CAT2DOGIOMSGNUM - 2"
  shows "in_wf (s\<lparr>uiIoGetMsgIndex := g\<rparr>)"
proof -
  let ?t = "s\<lparr>uiIoGetMsgIndex := g\<rparr>"
  have e: "Cat2DogIOMsg ?t = Cat2DogIOMsg s" "uiCliPutMsgIndex ?t = uiCliPutMsgIndex s" "uiIoGetMsgIndex ?t = g"
    "uiCliGetMsgIndex ?t = uiCliGetMsgIndex s" "uiCliGetMsgNextIndex ?t = uiCliGetMsgNextIndex s"
    "in_cells ?t = in_cells s" "ClientInfo ?t = ClientInfo s"
    by simp_all
  show ?thesis using assms unfolding in_wf_def e by blast
qed

definition io_advance :: "dogstate \<Rightarrow> dogstate" where
  "io_advance s = s\<lparr>uiIoGetMsgIndex := (uiIoGetMsgIndex s + 1) mod CAT2DOGIOMSGNUM\<rparr>"

lemma io_advance_ok:
  assumes "in_wf s" "in_pending s = i # is"
  shows "in_wf (io_advance s)" "in_pending (io_advance s) = is" "in_queue (io_advance s) = tl (in_queue s)"
    "nth_opt (Cat2DogIOMsg s) (uiIoGetMsgIndex s) = Some (Some i)" "seen_queue (io_advance s) = tl (seen_queue s)"
    "in_cell_ok (in_cells s i)"
proof -
  let ?N = CAT2DOGIOMSGNUM and ?p = "uiCliPutMsgIndex s" and ?g = "uiIoGetMsgIndex s"
  have b: "?p < ?N" "?g < ?N" "length (Cat2DogIOMsg s) = ?N" "ring_count ?N ?g ?p \<le> ?N - 2"
      "\<And>i. i < ?N \<Longrightarrow> i \<noteq> ?p \<Longrightarrow> \<exists>j. Cat2DogIOMsg s ! i = Some j \<and> in_cell_ok (in_cells s j)"
    using assms(1) by (auto simp: in_wf_def)
  have ne: "?g \<noteq> ?p" using in_empty_iff [OF assms(1)] assms(2) by auto
  have rl: "ring_list ?N ?g ?p (Cat2DogIOMsg s) = Cat2DogIOMsg s ! ?g # ring_list ?N (Suc ?g mod ?N) ?p (Cat2DogIOMsg s)"
    by (rule ring_list_pop [OF b(2,1) ne])
  have pend: "in_pending (io_advance s) = map the (ring_list ?N (Suc ?g mod ?N) ?p (Cat2DogIOMsg s))"
    by (simp add: in_pending_def io_advance_def)
  then show p: "in_pending (io_advance s) = is" using rl assms(2) by (simp add: in_pending_def)
  have "i = the (Cat2DogIOMsg s ! ?g)" using rl assms(2) by (simp add: in_pending_def)
  then show "nth_opt (Cat2DogIOMsg s) ?g = Some (Some i)" "in_cell_ok (in_cells s i)"
    using b(2,3) b(5) [OF b(2) ne] by (auto simp: mem_simps)
  show "seen_queue (io_advance s) = tl (seen_queue s)"
    using p assms(2) by (simp add: seen_queue_def) (simp add: io_advance_def)
  show "in_queue (io_advance s) = tl (in_queue s)"
    using p assms(2) by (simp add: in_queue_def) (simp add: io_advance_def)
  have "0 < ?N" by (simp add: CAT2DOGIOMSGNUM_def)
  moreover have "ring_count ?N (Suc ?g mod ?N) ?p \<le> ?N - 2"
    using ring_count_pop [OF b(2,1) ne] b(4) by simp
  ultimately show "in_wf (io_advance s)" unfolding io_advance_def
    by (intro in_wf_io_index [OF assms(1)]) simp_all
qed

text \<open>A round consumes the oldest pending cell, whatever its handlers do.\<close>

lemma process_io_empty: "in_wf s \<Longrightarrow> in_pending s = [] \<Longrightarrow> process_io env parse s = Some s"
  using in_empty_iff [of s] by (simp add: process_io_def)

text \<open>
  What the I/O thread does with a message, given its session, its client and its text: written
  for the message alone, without the ring.
\<close>

definition io_handle ::
  "environ \<Rightarrow> (nat \<Rightarrow> string \<Rightarrow> (environ \<times> iksnode) list) \<Rightarrow> u32 \<times> nat option \<times> string \<Rightarrow> dogstate \<Rightarrow> dogstate option" where
  "io_handle env parse m s =
     (case m of
        (session, None, t) \<Rightarrow> None
      | (session, Some c, t) \<Rightarrow>
          if session = iSessionID (ClientInfo s c) \<and> lStatus (ClientInfo s c) \<noteq> STATUS_IOCMDCLOSE
          then do {
            s \<leftarrow> (if Prs (ClientInfo s c) then run_events c (parse c t) s else Some s);
            if t = ''<SOCKETSHUTDOWN>'' then FreeObj env c (upd_client c (\<lambda>x. x\<lparr>lStatus := STATUS_IOCLOSEED\<rparr>) s)
            else Some s
          }
          else Some s)"

lemma process_io_handles:
  assumes wf: "in_wf s" and pend: "in_pending s = i # is"
  shows "process_io env parse s = map_option io_advance (io_handle env parse (hd (seen_queue s)) s)"
proof -
  have ne: "uiCliPutMsgIndex s \<noteq> uiIoGetMsgIndex s" using in_empty_iff [OF wf] pend by auto
  note i = io_advance_ok(4,6) [OF wf pend]
  let ?hs = "in_stream (in_cells s i)"
  have "stream_wf ?hs" "stream_slack ?hs" using i(2) by (simp_all add: in_cell_ok_def)
  moreover from this have "NUL \<in> set (stream_area ?hs)" unfolding stream_slack_area by (metis nth_mem)
  ultimately have t: "get_stream_ptr ?hs = Some (c_str (stream_area ?hs))"
    by (subst get_stream_ptr_area) (simp_all add: stream_wf_def)
  have h: "hd (seen_queue s) = seen (in_cells s i)" using pend by (simp add: seen_queue_def)
  show ?thesis
    using ne i(1) t unfolding process_io_def h
    by (auto simp: io_handle_def seen_def IOProcessParser_def IOSOCKET_CLOSE_def shutdown_text_def io_advance_def Let_def
        map_option_case split: option.split Option.bind_split)
qed

lemma process_io_dequeues:
  assumes wf: "in_wf s" and pend: "in_pending s = i # is" and run: "process_io env parse s = Some s'"
  shows "in_wf s' \<and> in_queue s' = tl (in_queue s) \<and> seen_queue s' = tl (seen_queue s)"
proof -
  have ne: "uiCliPutMsgIndex s \<noteq> uiIoGetMsgIndex s" using in_empty_iff [OF wf] pend by auto
  have "\<exists>t. same_in s t \<and> s' = io_advance t"
    using run ne io_advance_ok(4) [OF wf pend] unfolding process_io_def io_advance_def [symmetric]
    by (auto simp: Let_def split: Option.bind_splits if_splits dest!: keeps) (metis same_in_refl same_in_trans)+
  then obtain t where t: "same_in s t" "s' = io_advance t" by blast
  have "in_pending t = i # is" using in_wf_same_in [OF t(1)] pend by simp
  then show ?thesis using io_advance_ok [of t i "is"] in_wf_same_in [OF t(1)] wf t(2) by simp
qed

section \<open>Both threads\<close>

text \<open>
  Interleavings of whole rounds of the two threads.  The socket thread receives bytes or closes
  a client; the run records the messages that it accepted (a full ring takes none).  For the I/O
  thread it records every round: the answers and the parser it was run with, the state before
  and the state after it.
\<close>

type_synonym in_msg = "u32 \<times> nat option \<times> string"
type_synonym io_step = "environ \<times> (nat \<Rightarrow> string \<Rightarrow> (environ \<times> iksnode) list) \<times> dogstate \<times> dogstate"

definition accepted :: "dogstate \<Rightarrow> nat \<Rightarrow> string \<Rightarrow> in_msg list" where
  "accepted s c data = map (\<lambda>p. (iSessionID (ClientInfo s c), Some c, p))
     (take (in_room - length (in_queue s)) (pieces data))"

definition accepted_close :: "dogstate \<Rightarrow> nat \<Rightarrow> in_msg list" where
  "accepted_close s c = (if length (in_queue s) = in_room then []
     else [(iSessionID (ClientInfo s c), Some c, ''<SOCKETSHUTDOWN>'' @ [NUL])])"

inductive in_run :: "dogstate \<Rightarrow> in_msg list \<Rightarrow> io_step list \<Rightarrow> dogstate \<Rightarrow> bool" where
  start: "in_run s [] [] s"
| receive: "in_run s ins ios t \<Longrightarrow> receive_loop c data t = Some u \<Longrightarrow> in_run s (ins @ accepted t c data) ios u"
| close: "in_run s ins ios t \<Longrightarrow> CLIENTTOEND ra c t = Some u \<Longrightarrow> in_run s (ins @ accepted_close t c) ios u"
| io: "in_run s ins ios t \<Longrightarrow> process_io env parse t = Some u \<Longrightarrow> in_run s ins (ios @ [(env, parse, t, u)]) u"

text \<open>
  A round that handled the messages \<open>ms\<close>: none when nothing was pending, otherwise one, with
  which the parser was called and the index moved on.
\<close>

fun handled :: "io_step \<Rightarrow> in_msg list \<Rightarrow> bool" where
  "handled (env, parse, t, u) [] = (u = t \<and> seen_queue t = [])"
| "handled (env, parse, t, u) [m] = (map_option io_advance (io_handle env parse m t) = Some u)"
| "handled x ms = False"

lemma in_run_fifo:
  "in_run s ins ios s' \<Longrightarrow> in_wf s \<Longrightarrow> in_wf s' \<and> (\<exists>texts mss. list_all2 holds ins texts
     \<and> list_all2 handled ios mss \<and> seen_queue s @ texts = concat mss @ seen_queue s')"
proof (induction rule: in_run.induct)
  case (start s)
  then show ?case by (intro conjI exI [of _ "[]"]) simp_all
next
  case (receive s ins ios t c data u)
  then obtain texts mss where t: "in_wf t" "list_all2 holds ins texts" "list_all2 handled ios mss"
    "seen_queue s @ texts = concat mss @ seen_queue t"
    by blast
  from receive_loop_queues [OF t(1), of c data] receive.hyps(2) obtain new where u: "in_wf u"
    "seen_queue u = seen_queue t @ new" "list_all2 holds (accepted t c data) new"
    by (auto simp: accepted_def)
  have "list_all2 holds (ins @ accepted t c data) (texts @ new)" by (rule list_all2_appendI [OF t(2) u(3)])
  moreover have "seen_queue s @ texts @ new = concat mss @ seen_queue u" using t(4) u(2) by (metis append_assoc)
  ultimately show ?case using u(1) t(3) by blast
next
  case (close s ins ios t ra c u)
  then obtain texts mss where t: "in_wf t" "list_all2 holds ins texts" "list_all2 handled ios mss"
    "seen_queue s @ texts = concat mss @ seen_queue t"
    by blast
  from CLIENTTOEND_queues [OF t(1), of ra c] close.hyps(2) obtain new where u: "in_wf u"
    "seen_queue u = seen_queue t @ new" "list_all2 holds (accepted_close t c) new"
    by (auto simp: accepted_close_def shutdown_text_def split: if_splits)
  have "list_all2 holds (ins @ accepted_close t c) (texts @ new)" by (rule list_all2_appendI [OF t(2) u(3)])
  moreover have "seen_queue s @ texts @ new = concat mss @ seen_queue u" using t(4) u(2) by (metis append_assoc)
  ultimately show ?case using u(1) t(3) by blast
next
  case (io s ins ios t env parse u)
  then obtain texts mss where t: "in_wf t" "list_all2 holds ins texts" "list_all2 handled ios mss"
    "seen_queue s @ texts = concat mss @ seen_queue t"
    by blast
  have "\<exists>ms. handled (env, parse, t, u) ms \<and> in_wf u \<and> seen_queue t = ms @ seen_queue u"
  proof (cases "in_pending t")
    case Nil
    with process_io_empty [OF t(1)] io.hyps(2) t show ?thesis by (intro exI [of _ "[]"]) (simp add: seen_queue_def)
  next
    case (Cons i "is")
    have "handled (env, parse, t, u) [hd (seen_queue t)]"
      using process_io_handles [OF t(1) Cons] io.hyps(2) by simp
    moreover have "seen_queue t \<noteq> []" using Cons by (simp add: seen_queue_def)
    ultimately show ?thesis
      using process_io_dequeues [OF t(1) Cons io.hyps(2)] by (intro exI [of _ "[hd (seen_queue t)]"]) simp
  qed
  then obtain ms where ms: "handled (env, parse, t, u) ms" "in_wf u" "seen_queue t = ms @ seen_queue u" by blast
  have "list_all2 handled (ios @ [(env, parse, t, u)]) (mss @ [ms])" using t(3) ms(1) by (simp add: list_all2_appendI)
  moreover have "seen_queue s @ texts = concat (mss @ [ms]) @ seen_queue u" using t(4) ms(3) by simp
  ultimately show ?case using ms(2) t(2) by blast
qed

section \<open>Properties\<close>


text \<open>The state \<^term>\<open>yard\<close> with its ring of input cells.\<close>

definition yard_in :: dogstate where
  "yard_in = yard\<lparr>Cat2DogIOMsg := None # map Some [0..<CAT2DOGIOMSGNUM - 1]\<rparr>"

lemma yard_in_sel [simp]:
  "Cat2DogIOMsg yard_in = None # map Some [0..<CAT2DOGIOMSGNUM - 1]"
  "uiCliPutMsgIndex yard_in = 0" "uiIoGetMsgIndex yard_in = 0" "uiCliGetMsgIndex yard_in = 1"
  "uiCliGetMsgNextIndex yard_in = 2" "ClientInfo yard_in = ClientInfo yard" "lk yard_in = lk yard"
  "in_cells yard_in i = \<lparr>in_session = 0, in_client = None, in_stream = fresh_stream\<rparr>"
  by (simp_all add: yard_in_def) (simp_all add: yard_def)

lemma yard_in_wf: "in_wf yard_in"
proof -
  have "pCurCat2DogIOMsg (ClientInfo yard c) = None" for c by (simp add: yard_def blank_client_def)
  moreover have "in_cell_ok \<lparr>in_session = 0, in_client = None, in_stream = fresh_stream\<rparr>"
    by (simp add: in_cell_ok_def stream_wf_def stream_slack_def fresh_stream_def MSGINITSIZE_def MIN_MALLOC_LEN_def)
  moreover have "(None # map Some [0..<n]) ! i = (if i = 0 then None else Some (i - 1))" if "i < Suc n" for i n :: nat
    using that by (cases i) simp_all
  note this [of _ "CAT2DOGIOMSGNUM - 1"]
  ultimately show ?thesis
    unfolding in_wf_def by (simp add: CAT2DOGIOMSGNUM_def ring_count_def) auto
qed

lemma yard_in_queue: "in_pending yard_in = []" "in_queue yard_in = []"
  by (simp_all add: in_pending_def in_queue_def ring_list_def ring_count_def)

lemma yard_accepts: "accepted yard_in 1 ''<iq/>'' = [(5, Some 1, ''<iq/>'')]"
  using yard_sessions by (simp add: accepted_def yard_in_queue in_room_def CAT2DOGIOMSGNUM_def MSGINITSIZE_def)


text \<open>
  C25. Receiving always ends: the bytes are cut into pieces of the size of a cell, and as many
  pieces as there are free cells are queued in order with the client and its session; the rest
  is dropped.  Nothing but the ring changes.
\<close>

theorem received_bytes_are_queued:
  assumes "in_wf s"
  shows "\<exists>s'. receive_loop c data s = Some s' \<and> in_wf s' \<and> same_out s s'
     \<and> in_queue s' = in_queue s @ accepted s c data \<and> concat (pieces data) = data"
  using receive_loop_queues [OF assms, of c data] by (auto simp: accepted_def concat_pieces)

theorem received_bytes_are_queued_witness:
  "\<exists>s'. receive_loop 1 (replicate 1500 CHR ''x'') yard_in = Some s'
    \<and> map (\<lambda>(_, _, p). length p) (in_queue s') = [1024, 476]"
proof -
  have p: "pieces xs = (if xs = [] then [] else take MSGINITSIZE xs # pieces (drop MSGINITSIZE xs))" for xs
    by (cases xs) simp_all
  have "pieces (replicate 1500 CHR ''x'') = [replicate 1024 CHR ''x'', replicate 476 CHR ''x'']"
    by (subst p, subst p, subst p) (simp add: MSGINITSIZE_def)
  then show ?thesis
    using received_bytes_are_queued [OF yard_in_wf, of 1 "replicate 1500 CHR ''x''"]
    by (auto simp: accepted_def yard_in_queue in_room_def CAT2DOGIOMSGNUM_def)
qed

text \<open>
  C26. Input that was received in an earlier session of a client's slot, or that belongs to a
  client being closed, is skipped without any effect.
\<close>

theorem stale_input_is_skipped:
  assumes "in_wf s" and "in_pending s = i # is" and "in_client (in_cells s i) = Some c"
    and "in_session (in_cells s i) \<noteq> iSessionID (ClientInfo s c) \<or> lStatus (ClientInfo s c) = STATUS_IOCMDCLOSE"
  shows "process_io env parse s = Some (io_advance s) \<and> in_queue (io_advance s) = tl (in_queue s)
    \<and> same_out s (io_advance s)"
proof -
  have "uiCliPutMsgIndex s \<noteq> uiIoGetMsgIndex s" using in_empty_iff [OF assms(1)] assms(2) by auto
  then show ?thesis
    using io_advance_ok [OF assms(1,2)] assms(3,4) by (simp add: process_io_def io_advance_def same_out_def)
qed

theorem stale_input_is_skipped_witness:
  "\<exists>s. in_queue s = [(5, Some 1, ''<iq/>'')] \<and> iSessionID (ClientInfo s 1) = 6
    \<and> process_io calm (\<lambda>_ _. []) s = Some (io_advance s) \<and> in_queue (io_advance s) = []"
proof -
  obtain t where t: "in_wf t" "same_out yard_in t" "in_queue t = in_queue yard_in @ accepted yard_in 1 ''<iq/>''"
    using receive_loop_queues [OF yard_in_wf, of 1 "''<iq/>''"] by (auto simp: accepted_def)
  let ?s = "upd_client 1 (\<lambda>x. x\<lparr>iSessionID := 6\<rparr>) t"
  have q: "in_queue ?s = [(5, Some 1, ''<iq/>'')]"
    using t(3) unfolding yard_accepts yard_in_queue
    by (simp add: in_queue_def in_pending_def upd_client_def)
  have wf: "in_wf ?s" using t(1) by (simp add: in_wf_def upd_client_def)
  obtain i "is" where i: "in_pending ?s = i # is" "in_message (in_cells ?s i) = (5, Some 1, ''<iq/>'')"
    using q by (auto simp: in_queue_def)
  have "process_io calm (\<lambda>_ _. []) ?s = Some (io_advance ?s) \<and> in_queue (io_advance ?s) = tl (in_queue ?s)
    \<and> same_out ?s (io_advance ?s)"
    by (rule stale_input_is_skipped [OF wf i(1)]) (use i(2) in \<open>auto simp: in_message_def\<close>)
  then show ?thesis using q by (intro exI [of _ ?s]) simp
qed

end
