(* ===== verification/DogCells.thy ===== *)
theory DogCells
  imports DogLoop InRing "HOL-Library.Multiset"
begin

text \<open>
  What a round of the socket thread keeps: the lists of the clients, the well-formedness of
  both rings, and the ownership of the message cells.  A cell is free, queued, in the list of
  one client or being sent to one; the multiset of all of them is what a round preserves.
\<close>

section \<open>Ownership of the message cells\<close>

definition held :: "dogstate \<Rightarrow> kennel \<Rightarrow> nat \<Rightarrow> nat multiset" where
  "held s k c = mset (k_send k c) + mset (case pCurSendMsg (ClientInfo s c) of None \<Rightarrow> [] | Some m \<Rightarrow> [m])"

definition held_rest :: "dogstate \<Rightarrow> kennel \<Rightarrow> nat \<Rightarrow> nat multiset" where
  "held_rest s k c = (\<Sum>e \<in> {..<CLIENTNUM} - {c}. held s k e)"

definition owned :: "dogstate \<Rightarrow> kennel \<Rightarrow> nat multiset" where
  "owned s k = mset (free_cells s) + mset (queued_cells s) + (\<Sum>e < CLIENTNUM. held s k e)"

lemma owned_split:
  "c < CLIENTNUM \<Longrightarrow> owned s k = mset (free_cells s) + mset (queued_cells s) + held s k c + held_rest s k c"
  unfolding owned_def held_rest_def by (subst sum.remove [of _ c]) (simp_all add: ac_simps)

lemma held_rest_cong:
  "(\<And>e. e < CLIENTNUM \<Longrightarrow> e \<noteq> c \<Longrightarrow> held s' k' e = held s k e) \<Longrightarrow> held_rest s' k' c = held_rest s k c"
  unfolding held_rest_def by (rule sum.cong) auto

definition cells_ok :: "dogstate \<Rightarrow> kennel \<Rightarrow> bool" where
  "cells_ok s k \<longleftrightarrow> rings_ok s \<and> size (owned s k) \<le> fifo_room (pFifoDogMsgFree s)
     \<and> size (owned s k) \<le> fifo_room (pFifoDogMsg s) \<and> (\<forall>m. count (owned s k) m \<le> 1)"

text \<open>A cell that waits to be sent is addressed to a client and holds a text.\<close>

definition text_ok :: "cstream \<Rightarrow> bool" where
  "text_ok hs \<longleftrightarrow> (\<exists>t. get_stream_ptr hs = Some t \<and> t \<noteq> [])"

definition texts_ok :: "dogstate \<Rightarrow> kennel \<Rightarrow> bool" where
  "texts_ok s k \<longleftrightarrow> (\<forall>m \<in> set (queued_cells s). \<exists>c < CLIENTNUM. m_client (cells s m) = Some c)
     \<and> (\<forall>m \<in> set (queued_cells s). text_ok (m_stream (cells s m)))
     \<and> (\<forall>c < CLIENTNUM. \<forall>m \<in> set (k_send k c). text_ok (m_stream (cells s m)))"

text \<open>The bytes that a client is being sent lie in a buffer, those of its current cell if it has one.\<close>

definition sends_ok :: "dogstate \<Rightarrow> bool" where
  "sends_ok s \<longleftrightarrow> (\<forall>c. 0 \<le> iCurSendLen (ClientInfo s c)
     \<and> (0 < iCurSendLen (ClientInfo s c) \<longrightarrow> (\<exists>m off. pSndData (ClientInfo s c) = Some (m, off)
          \<and> chunk_base (m_stream (cells s m)) + off + nat (iCurSendLen (ClientInfo s c))
              \<le> length (chunk_block (m_stream (cells s m)))))
     \<and> (pCurSendMsg (ClientInfo s c) \<noteq> None \<longrightarrow> 0 < iCurSendLen (ClientInfo s c)))"

lemma sends_okD:
  assumes "sends_ok s"
  shows "0 \<le> iCurSendLen (ClientInfo s c)"
    "0 < iCurSendLen (ClientInfo s c) \<Longrightarrow> \<exists>m off. pSndData (ClientInfo s c) = Some (m, off)
      \<and> chunk_base (m_stream (cells s m)) + off + nat (iCurSendLen (ClientInfo s c))
          \<le> length (chunk_block (m_stream (cells s m)))"
    "pCurSendMsg (ClientInfo s c) \<noteq> None \<Longrightarrow> 0 < iCurSendLen (ClientInfo s c)"
  using assms by (auto simp: sends_ok_def)

definition lists_ok :: "dogstate \<Rightarrow> kennel \<Rightarrow> bool" where
  "lists_ok s k \<longleftrightarrow> clients_shape (lk s) k \<and> sends_shape (lk s) k
     \<and> set (k_work k) \<union> set (k_free k) \<subseteq> {..<CLIENTNUM}"

definition ear_inv :: "dogstate \<Rightarrow> kennel \<Rightarrow> bool" where
  "ear_inv s k \<longleftrightarrow> lists_ok s k \<and> cells_ok s k \<and> texts_ok s k \<and> sends_ok s \<and> in_wf s"

lemmas ear_defs = ear_inv_def lists_ok_def cells_ok_def texts_ok_def

lemma ear_invD:
  assumes "ear_inv s k"
  shows "clients_shape (lk s) k" "sends_shape (lk s) k" "set (k_work k) \<union> set (k_free k) \<subseteq> {..<CLIENTNUM}"
    "rings_ok s" "size (owned s k) \<le> fifo_room (pFifoDogMsgFree s)" "size (owned s k) \<le> fifo_room (pFifoDogMsg s)"
    "\<And>m. count (owned s k) m \<le> 1" "texts_ok s k" "sends_ok s" "in_wf s"
  using assms by (auto simp: ear_inv_def lists_ok_def cells_ok_def)

section \<open>The free ring\<close>

lemma push_free_sel [simp]:
  "lk (push_free m s) = lk s" "ClientInfo (push_free m s) = ClientInfo s" "cells (push_free m s) = cells s"
  "pFifoDogMsg (push_free m s) = pFifoDogMsg s" "queued_cells (push_free m s) = queued_cells s"
  "effects (push_free m s) = effects s" "in_wf (push_free m s) = in_wf s"
  by (simp_all add: push_free_def queued_cells_def in_wf_def)

lemma push_free_ok:
  assumes "rings_ok s" "length (free_cells s) < fifo_room (pFifoDogMsgFree s)"
  shows "rings_ok (push_free m s)" "free_cells (push_free m s) = free_cells s @ [m]"
    "fifo_room (pFifoDogMsgFree (push_free m s)) = fifo_room (pFifoDogMsgFree s)"
proof -
  obtain q where "FifoPush (pFifoDogMsgFree s) m = (RET_OK, q)" "fifo_content q = fifo_content (pFifoDogMsgFree s) @ [m]"
    "fifo_wf q" "fifo_room q = fifo_room (pFifoDogMsgFree s)"
    using FifoPush_ok [of "pFifoDogMsgFree s" m] assms by (auto simp: rings_ok_def free_cells_def)
  then show "rings_ok (push_free m s)" "free_cells (push_free m s) = free_cells s @ [m]"
    "fifo_room (pFifoDogMsgFree (push_free m s)) = fifo_room (pFifoDogMsgFree s)"
    using assms(1) by (simp_all add: push_free_def rings_ok_def free_cells_def)
qed

text \<open>There is room in the free ring for a cell that is owned but not free.\<close>

lemma room_for_one:
  assumes "size (owned s k) \<le> n" "owned s k = mset (free_cells s) + add_mset m M"
  shows "length (free_cells s) < n"
  using assms by simp

section \<open>The lists of waiting cells\<close>

lemma sends_shape_upd:
  assumes sh: "sends_shape h k" and c: "c < CLIENTNUM" and l: "is_list h' (SendHd c) (map Cell xs)"
    and f: "\<And>y. y \<noteq> SendHd c \<Longrightarrow> y \<notin> Cell ` (set xs \<union> set (k_send k c)) \<Longrightarrow> nxt h' y = nxt h y \<and> prv h' y = prv h y"
    and d: "\<And>e. e < CLIENTNUM \<Longrightarrow> e \<noteq> c \<Longrightarrow> set xs \<inter> set (k_send k e) = {}"
  shows "sends_shape h' (k\<lparr>k_send := (k_send k)(c := xs)\<rparr>)"
proof -
  have dis: "set (k_send k c) \<inter> set (k_send k e) = {}" if "e < CLIENTNUM" "e \<noteq> c" for e
    using sh c that by (simp add: sends_shape_def)
  have "is_list h' (SendHd e) (map Cell (((k_send k)(c := xs)) e))" if e: "e < CLIENTNUM" for e
  proof (cases "e = c")
    case False
    have "is_list h (SendHd e) (map Cell (k_send k e))" using sh e by (simp add: sends_shape_def)
    then show ?thesis using False d [OF e False] dis [OF e False]
      by simp (erule is_list_frame, rule f, auto)
  qed (use l in simp)
  moreover have "set (((k_send k)(c := xs)) a) \<inter> set (((k_send k)(c := xs)) b) = {}"
    if "a < CLIENTNUM" "b < CLIENTNUM" "a \<noteq> b" for a b
    using sh that d [of a] d [of b] by (auto simp: sends_shape_def)
  ultimately show ?thesis by (simp add: sends_shape_def)
qed

lemma clients_shape_sends [simp]: "clients_shape h (k\<lparr>k_send := f\<rparr>) = clients_shape h k"
  by (simp add: clients_shape_def)

lemma in_wf_out:
  assumes "in_wf s" "in_cells s' = in_cells s" "Cat2DogIOMsg s' = Cat2DogIOMsg s"
    "uiCliPutMsgIndex s' = uiCliPutMsgIndex s" "uiIoGetMsgIndex s' = uiIoGetMsgIndex s"
    "uiCliGetMsgIndex s' = uiCliGetMsgIndex s" "uiCliGetMsgNextIndex s' = uiCliGetMsgNextIndex s"
    "\<And>c. pCurCat2DogIOMsg (ClientInfo s' c) = pCurCat2DogIOMsg (ClientInfo s c)"
  shows "in_wf s'"
  using assms(1) unfolding in_wf_def assms(2-8) .

text \<open>Everything but the lists and the two rings of message cells.\<close>

definition same_but_cells :: "dogstate \<Rightarrow> dogstate \<Rightarrow> bool" where
  "same_but_cells s s' \<longleftrightarrow> ClientInfo s' = ClientInfo s \<and> cells s' = cells s \<and> effects s' = effects s
     \<and> CuteDogs s' = CuteDogs s \<and> dog_count s' = dog_count s \<and> same_in s s'"

lemma same_but_cells_trans: "same_but_cells s t \<Longrightarrow> same_but_cells t u \<Longrightarrow> same_but_cells s u"
  by (auto simp: same_but_cells_def intro: same_in_trans)

lemma same_but_cells_updates [simp]:
  "same_but_cells s (s\<lparr>pFifoDogMsg := q, lk := h\<rparr>)" "same_but_cells s (push_free m (s\<lparr>pFifoDogMsg := q\<rparr>))"
  by (simp_all add: same_but_cells_def same_in_def push_free_def)

lemma in_wf_push [simp]: "in_wf (s\<lparr>pFifoDogMsg := q\<rparr>) = in_wf s" "in_wf (s\<lparr>pFifoDogMsg := q, lk := h\<rparr>) = in_wf s"
  "in_wf (s\<lparr>lk := h\<rparr>) = in_wf s"
  by (simp_all add: in_wf_def)

lemma sends_ok_cong: "ClientInfo s' = ClientInfo s \<Longrightarrow> cells s' = cells s \<Longrightarrow> sends_ok s' = sends_ok s"
  by (simp add: sends_ok_def)

section \<open>Routing the queued cells\<close>

text \<open>A cell is for a client when it is addressed to it, was filled in its present session, and the client is connected.\<close>

definition wanted :: "dogstate \<Rightarrow> nat \<Rightarrow> nat \<Rightarrow> bool" where
  "wanted s c m \<longleftrightarrow> m_client (cells s m) = Some c \<and> m_session (cells s m) = iSessionID (ClientInfo s c)
     \<and> lSocketStatus (ClientInfo s c) = STATUS_SOCKET_CONNECT"

definition unwanted :: "dogstate \<Rightarrow> nat \<Rightarrow> bool" where
  "unwanted s m \<longleftrightarrow> (\<forall>c. \<not> wanted s c m)"

lemma wanted_iff: "m_client (cells s m) = Some c \<Longrightarrow> wanted s e m \<longleftrightarrow> e = c \<and> \<not> stale s c m"
  "m_client (cells s m) = Some c \<Longrightarrow> unwanted s m \<longleftrightarrow> stale s c m"
  by (auto simp: unwanted_def wanted_def stale_def)

definition routed :: "dogstate \<Rightarrow> kennel \<Rightarrow> kennel" where
  "routed s k = k\<lparr>k_send := (\<lambda>c. k_send k c @ filter (wanted s c) (queued_cells s))\<rparr>"

lemma pop_queued:
  assumes "rings_ok s" "queued_cells s = m # ms"
  obtains q where "FifoPop (pFifoDogMsg s) = (RET_OK, Some m, q)" "rings_ok (s\<lparr>pFifoDogMsg := q\<rparr>)"
    "queued_cells (s\<lparr>pFifoDogMsg := q\<rparr>) = ms" "fifo_room q = fifo_room (pFifoDogMsg s)"
  using FifoPop_ok [of "pFifoDogMsg s" m ms] assms by (auto simp: rings_ok_def queued_cells_def)

text \<open>A stale cell goes back to the free ring.\<close>

lemma pop_stale:
  assumes inv: "ear_inv s k" and q: "queued_cells s = m # ms"
    and c: "m_client (cells s m) = Some c" "stale s c m"
  shows "\<exists>t. POP_DOGMSG_2LISTTAIL s = POP_DOGMSG_2LISTTAIL t \<and> ear_inv t k \<and> owned t k = owned s k
    \<and> queued_cells t = ms \<and> free_cells t = free_cells s @ [m] \<and> same_but_cells s t"
proof -
  note i = ear_invD [OF inv]
  obtain r where r: "FifoPop (pFifoDogMsg s) = (RET_OK, Some m, r)" "rings_ok (s\<lparr>pFifoDogMsg := r\<rparr>)"
    "queued_cells (s\<lparr>pFifoDogMsg := r\<rparr>) = ms" "fifo_room r = fifo_room (pFifoDogMsg s)"
    using pop_queued [OF i(4) q] .
  let ?u = "s\<lparr>pFifoDogMsg := r\<rparr>"
  let ?t = "push_free m ?u"
  have f: "free_cells ?u = free_cells s" by (simp add: free_cells_def)
  have "length (free_cells ?u) < fifo_room (pFifoDogMsgFree s)"
    using room_for_one [OF i(5)] q by (simp add: owned_def f)
  note p = push_free_ok [OF r(2), of m, simplified, OF this]
  have o: "owned ?t k = owned s k"
    using q p(2) r(3) f by (simp add: owned_def held_def)
  have rm: "fifo_room (pFifoDogMsg ?t) = fifo_room (pFifoDogMsg s)" using r(4) by simp
  have "cells_ok ?t k" using i(5-7) p(1,3) rm unfolding cells_ok_def o by simp
  moreover have "texts_ok ?t k" using i(8) q r(3) by (auto simp: texts_ok_def)
  moreover have "lists_ok ?t k" using i(1-3) by (simp add: lists_ok_def)
  ultimately have "ear_inv ?t k" using i(9,10) sends_ok_cong [of ?t s] by (simp add: ear_inv_def)
  moreover have "POP_DOGMSG_2LISTTAIL s = POP_DOGMSG_2LISTTAIL ?t"
    using r(1) c by (subst POP_DOGMSG_2LISTTAIL.simps) simp
  ultimately show ?thesis using o p(2) r(3) f by (intro exI [of _ ?t]) simp
qed

text \<open>Any other cell goes to the end of its client's list.\<close>

lemma pop_wanted:
  assumes inv: "ear_inv s k" and q: "queued_cells s = m # ms"
    and c: "m_client (cells s m) = Some c" "\<not> stale s c m" "c < CLIENTNUM"
  defines "k' \<equiv> k\<lparr>k_send := (k_send k)(c := k_send k c @ [m])\<rparr>"
  shows "\<exists>t. POP_DOGMSG_2LISTTAIL s = POP_DOGMSG_2LISTTAIL t \<and> ear_inv t k' \<and> owned t k' = owned s k
    \<and> queued_cells t = ms \<and> free_cells t = free_cells s \<and> same_but_cells s t"
proof -
  note i = ear_invD [OF inv]
  obtain r where r: "FifoPop (pFifoDogMsg s) = (RET_OK, Some m, r)" "rings_ok (s\<lparr>pFifoDogMsg := r\<rparr>)"
    "queued_cells (s\<lparr>pFifoDogMsg := r\<rparr>) = ms" "fifo_room r = fifo_room (pFifoDogMsg s)"
    using pop_queued [OF i(4) q] .
  have new: "m \<notin> set (k_send k e)" if e: "e < CLIENTNUM" for e
  proof
    assume "m \<in> set (k_send k e)"
    then have "0 < count (held s k e) m" by (simp add: held_def)
    then have "2 \<le> count (owned s k) m" unfolding owned_split [OF e, of s] using q
      by (simp del: count_greater_zero_iff)
    then show False using i(7) [of m] by simp
  qed
  have l: "is_list (lk s) (SendHd c) (map Cell (k_send k c))" using i(2) c(3) by (simp add: sends_shape_def)
  have "Cell m \<notin> set (SendHd c # map Cell (k_send k c))" using new [OF c(3)] by auto
  from list_add_tail_is_list [OF l this] obtain h where
    h: "list_add_tail (Cell m) (SendHd c) (lk s) = Some h" "is_list h (SendHd c) (map Cell (k_send k c @ [m]))"
    and f: "\<And>y. y \<notin> set (Cell m # SendHd c # map Cell (k_send k c)) \<Longrightarrow> nxt h y = nxt (lk s) y \<and> prv h y = prv (lk s) y"
    by auto
  have disj: "set (k_send k c @ [m]) \<inter> set (k_send k e) = {}" if "e < CLIENTNUM" "e \<noteq> c" for e
    using i(2) c(3) that new [OF that(1)] by (auto simp: sends_shape_def)
  have sh: "sends_shape h k'" unfolding k'_def
    by (rule sends_shape_upd [OF i(2) c(3) h(2)]) (use f disj in auto)
  have cl: "clients_shape h k'" unfolding k'_def clients_shape_sends
    by (rule clients_shape_frame [OF i(1)]) (use f in \<open>auto simp: same_links_def client_nodes_def\<close>)
  let ?t = "s\<lparr>pFifoDogMsg := r, lk := h\<rparr>"
  have fr: "free_cells ?t = free_cells s" "queued_cells ?t = ms"
    using r(3) by (simp_all add: free_cells_def queued_cells_def)
  have "held_rest ?t k' c = held_rest s k c" by (rule held_rest_cong) (simp add: held_def k'_def)
  moreover have "held ?t k' c = add_mset m (held s k c)" by (simp add: held_def k'_def)
  ultimately have o: "owned ?t k' = owned s k" using q fr by (simp add: owned_split [OF c(3)])
  have "cells_ok ?t k'" using i(4-7) r(2,4) unfolding cells_ok_def o by (simp add: rings_ok_def)
  moreover have "texts_ok ?t k'" using i(8) q c(3) fr(2) by (auto simp: texts_ok_def k'_def)
  moreover have "lists_ok ?t k'" using sh cl i(3) by (simp add: lists_ok_def k'_def)
  ultimately have "ear_inv ?t k'" using i(9,10) sends_ok_cong [of ?t s] by (simp add: ear_inv_def)
  moreover have "POP_DOGMSG_2LISTTAIL s = POP_DOGMSG_2LISTTAIL ?t"
    using r(1) c(1,2) h(1) by (subst POP_DOGMSG_2LISTTAIL.simps) simp
  ultimately show ?thesis using o fr by (intro exI [of _ ?t]) simp
qed

lemma wanted_cong: "same_but_cells s t \<Longrightarrow> wanted t = wanted s" "same_but_cells s t \<Longrightarrow> unwanted t = unwanted s"
  by (intro ext; simp add: wanted_def unwanted_def same_but_cells_def)+

lemma pop_routes:
  "ear_inv s k \<Longrightarrow> \<exists>s'. POP_DOGMSG_2LISTTAIL s = Some s' \<and> ear_inv s' (routed s k)
     \<and> owned s' (routed s k) = owned s k \<and> queued_cells s' = []
     \<and> free_cells s' = free_cells s @ filter (unwanted s) (queued_cells s) \<and> same_but_cells s s'"
proof (induction "queued_cells s" arbitrary: s k)
  case Nil
  have "FifoPop (pFifoDogMsg s) = (RET_FAIL, None, pFifoDogMsg s)"
    using FifoPop_empty [of "pFifoDogMsg s"] ear_invD(4) [OF Nil.prems] Nil.hyps
    by (simp add: rings_ok_def queued_cells_def)
  then have "POP_DOGMSG_2LISTTAIL s = Some s" by (subst POP_DOGMSG_2LISTTAIL.simps) simp
  moreover have "routed s k = k" by (simp add: routed_def flip: Nil.hyps)
  ultimately show ?case using Nil by (intro exI [of _ s]) (simp add: same_but_cells_def)
next
  case (Cons m ms)
  have q: "queued_cells s = m # ms" using Cons.hyps(2) by simp
  obtain c where c: "m_client (cells s m) = Some c" "c < CLIENTNUM"
    using ear_invD(8) [OF Cons.prems] q by (auto simp: texts_ok_def)
  show ?case
  proof (cases "stale s c m")
    case True
    obtain t where t: "POP_DOGMSG_2LISTTAIL s = POP_DOGMSG_2LISTTAIL t" "ear_inv t k" "owned t k = owned s k"
      "queued_cells t = ms" "free_cells t = free_cells s @ [m]" "same_but_cells s t"
      using pop_stale [OF Cons.prems q c(1) True] by blast
    have w: "\<not> wanted s e m" "unwanted s m" for e using c(1) True by (simp_all add: wanted_iff)
    then have "routed t k = routed s k" using wanted_cong [OF t(6)] q t(4) by (simp add: routed_def)
    with Cons.hyps(1) [of t k] t q w(2) wanted_cong(2) [OF t(6)] show ?thesis
      by (auto intro: same_but_cells_trans)
  next
    case False
    let ?k = "k\<lparr>k_send := (k_send k)(c := k_send k c @ [m])\<rparr>"
    obtain t where t: "POP_DOGMSG_2LISTTAIL s = POP_DOGMSG_2LISTTAIL t" "ear_inv t ?k" "owned t ?k = owned s k"
      "queued_cells t = ms" "free_cells t = free_cells s" "same_but_cells s t"
      using pop_wanted [OF Cons.prems q c(1) False c(2)] by blast
    have w: "wanted s e m \<longleftrightarrow> e = c" "\<not> unwanted s m" for e using c(1) False by (simp_all add: wanted_iff)
    have "(\<lambda>e. k_send ?k e @ filter (wanted t e) ms) = (\<lambda>e. k_send k e @ filter (wanted s e) (m # ms))"
      by (intro ext) (simp add: wanted_cong(1) [OF t(6)] w(1))
    then have "routed t ?k = routed s k" using q t(4) by (simp add: routed_def)
    with Cons.hyps(1) [of t ?k] t q w(2) wanted_cong(2) [OF t(6)] show ?thesis
      by (auto intro: same_but_cells_trans)
  qed
qed

section \<open>Releasing a client\<close>

lemma push_list:
  "rings_ok s \<Longrightarrow> length (free_cells s) + length ms \<le> fifo_room (pFifoDogMsgFree s) \<Longrightarrow>
     \<exists>s'. run_body (\<lambda>n s. do { m \<leftarrow> cell_of n; Some (False, push_free m s) }) (map Cell ms) s = Some (False, s')
       \<and> rings_ok s' \<and> free_cells s' = free_cells s @ ms \<and> fifo_room (pFifoDogMsgFree s') = fifo_room (pFifoDogMsgFree s)
       \<and> (\<exists>q. s' = s\<lparr>pFifoDogMsgFree := q\<rparr>)"
proof (induction ms arbitrary: s)
  case Nil
  then show ?case by (intro exI [of _ s]) (auto intro: exI [of _ "pFifoDogMsgFree s"])
next
  case (Cons m ms)
  then have "length (free_cells s) < fifo_room (pFifoDogMsgFree s)" by simp
  note p = push_free_ok [OF Cons.prems(1) this, of m]
  obtain s' q where s': "run_body (\<lambda>n s. do { m \<leftarrow> cell_of n; Some (False, push_free m s) }) (map Cell ms) (push_free m s)
      = Some (False, s')" "rings_ok s'" "free_cells s' = free_cells s @ m # ms"
    "fifo_room (pFifoDogMsgFree s') = fifo_room (pFifoDogMsgFree s)" "s' = (push_free m s)\<lparr>pFifoDogMsgFree := q\<rparr>"
    using Cons.IH [of "push_free m s"] Cons.prems(2) p by auto
  then show ?case by (intro exI [of _ s']) (auto simp: push_free_def)
qed

lemma same_suffix_nxt:
  assumes "is_list h a (us @ ys)" "is_list h' a (us' @ ys)" "y \<in> set ys"
  shows "nxt h' y = nxt h y"
proof -
  obtain vs ws where "ys = vs @ y # ws" using assms(3) by (meson split_list)
  then show ?thesis
    using is_list_neighbours(2) [of h a "us @ vs" y ws] is_list_neighbours(2) [of h' a "us' @ vs" y ws] assms(1,2)
    by simp
qed

text \<open>Emptying the list of a client.\<close>

lemma empty_send_list:
  assumes inv: "ear_inv s k" and c: "c < CLIENTNUM"
  shows "\<exists>h q. (if list_notempty (SendHd c) (lk s)
      then do {
        r \<leftarrow> for_each lk (SendHd c) (\<lambda>n s. do { m \<leftarrow> cell_of n; Some (False, push_free m s) }) s;
        Some ((snd r)\<lparr>lk := INIT_LIST_HEAD (SendHd c) (lk (snd r))\<rparr>)
      }
      else Some s) = Some (s\<lparr>pFifoDogMsgFree := q, lk := h\<rparr>)
    \<and> fifo_wf q \<and> fifo_content q = free_cells s @ k_send k c \<and> fifo_room q = fifo_room (pFifoDogMsgFree s)
    \<and> sends_shape h (k\<lparr>k_send := (k_send k)(c := [])\<rparr>) \<and> same_links client_nodes (lk s) h"
proof -
  note i = ear_invD [OF inv]
  let ?body = "\<lambda>n s. do { m \<leftarrow> cell_of n; Some (False, push_free m s) }"
  have l: "is_list (lk s) (SendHd c) (map Cell (k_send k c))" using i(2) c by (simp add: sends_shape_def)
  show ?thesis
  proof (cases "k_send k c = []")
    case True
    then have "\<not> list_notempty (SendHd c) (lk s)" using is_list_notempty_iff [OF l] by simp
    moreover have "(k_send k)(c := []) = k_send k" using True by auto
    ultimately show ?thesis
      using True i(2,4)
      by (intro exI [of _ "lk s"] exI [of _ "pFifoDogMsgFree s"]) (simp add: rings_ok_def free_cells_def)
  next
    case False
    then have ne: "list_notempty (SendHd c) (lk s)" using is_list_notempty_iff [OF l] by simp
    have "owned s k = mset (free_cells s) + (mset (k_send k c) + (mset (queued_cells s)
        + mset (case pCurSendMsg (ClientInfo s c) of None \<Rightarrow> [] | Some m \<Rightarrow> [m]) + held_rest s k c))"
      by (simp add: owned_split [OF c] held_def)
    then have room: "length (free_cells s) + length (k_send k c) \<le> fifo_room (pFifoDogMsgFree s)" using i(5) by simp
    obtain q where q: "run_body ?body (map Cell (k_send k c)) s = Some (False, s\<lparr>pFifoDogMsgFree := q\<rparr>)"
      "rings_ok (s\<lparr>pFifoDogMsgFree := q\<rparr>)" "free_cells (s\<lparr>pFifoDogMsgFree := q\<rparr>) = free_cells s @ k_send k c"
      "fifo_room q = fifo_room (pFifoDogMsgFree s)"
      using push_list [OF i(4) room] by auto
    have run: "for_each lk (SendHd c) ?body s = run_body ?body (map Cell (k_send k c)) s"
      by (rule for_each_run [where P = "\<lambda>_ _. True"])
        (use l in \<open>auto split: Option.bind_splits\<close>)
    let ?h = "INIT_LIST_HEAD (SendHd c) (lk s)"
    have "sends_shape ?h (k\<lparr>k_send := (k_send k)(c := [])\<rparr>)"
      by (rule sends_shape_upd [OF i(2) c]) (auto simp: is_list_INIT, auto simp: INIT_LIST_HEAD_def)
    moreover have "same_links client_nodes (lk s) ?h"
      by (auto simp: same_links_def client_nodes_def INIT_LIST_HEAD_def)
    ultimately show ?thesis
      using ne q run by (intro exI [of _ ?h] exI [of _ q]) (simp add: rings_ok_def free_cells_def)
  qed
qed

definition released :: "nat \<Rightarrow> kennel \<Rightarrow> kennel" where
  "released c k = k\<lparr>k_work := remove1 c (k_work k), k_free := c # k_free k, k_send := (k_send k)(c := [])\<rparr>"

lemma move_to_free:
  assumes cl: "clients_shape h k" and se: "sends_shape h k" and c: "c \<in> set (k_work k)"
  shows "\<exists>h'. list_move (Cli c) FreeHd h = Some h'
    \<and> clients_shape h' (k\<lparr>k_work := remove1 c (k_work k), k_free := c # k_free k\<rparr>) \<and> sends_shape h' k"
proof -
  have l: "is_list h WorkHd (map Cli (k_work k))" "is_list h FreeHd (map Cli (k_free k))"
      "set (k_work k) \<inter> set (k_free k) = {}" and d: "distinct (k_work k)"
    using cl by (auto simp: clients_shape_def is_list_def distinct_map)
  have r: "remove1 (Cli c) (map Cli xs) = map Cli (remove1 c xs)" for xs by (induction xs) auto
  have "disjoint_lists WorkHd (map Cli (k_work k)) FreeHd (map Cli (k_free k))"
    using l(3) by (auto simp: disjoint_lists_def)
  from list_move_is_list [OF l(1) _ l(2) this, of "Cli c"] c r obtain h' where
    h': "list_move (Cli c) FreeHd h = Some h'" "is_list h' WorkHd (map Cli (remove1 c (k_work k)))"
      "is_list h' FreeHd (map Cli (c # k_free k))"
    and f: "\<And>y. y \<notin> set (WorkHd # map Cli (k_work k)) \<union> set (FreeHd # map Cli (k_free k)) \<Longrightarrow>
      nxt h' y = nxt h y \<and> prv h' y = prv h y"
    by auto
  have "sends_shape h' k"
    by (rule sends_shape_frame [OF se]) (use f in \<open>auto simp: same_links_def send_nodes_def\<close>)
  then show ?thesis using h' l(3) d by (auto simp: clients_shape_def)
qed

text \<open>The record update of a release, with the links and the free ring it leaves.\<close>

definition release_record :: "nat \<Rightarrow> nat FifoRing \<Rightarrow> node links \<Rightarrow> dogstate \<Rightarrow> dogstate" where
  "release_record c q h s = (upd_client c (\<lambda>x. x\<lparr>pCurSendMsg := None, iSessionID := 0, iID := - 1,
     lSocketStatus := STATUS_SOCKET_CLOSED, lStatus := STATUS_UNKNOWN, lType := CLIENT_UNKNOWN, Prs := False\<rparr>)
     (log_effect (CloseSocket (Socket (ClientInfo s c))) s))\<lparr>pFifoDogMsgFree := q, lk := h\<rparr>"

lemma release_record_sel [simp]:
  "lk (release_record c q h s) = h" "pFifoDogMsgFree (release_record c q h s) = q"
  "pFifoDogMsg (release_record c q h s) = pFifoDogMsg s" "queued_cells (release_record c q h s) = queued_cells s"
  "cells (release_record c q h s) = cells s"
  "effects (release_record c q h s) = effects s @ [CloseSocket (Socket (ClientInfo s c))]"
  "ClientInfo (release_record c q h s) e = (if e = c then (ClientInfo s c)\<lparr>pCurSendMsg := None, iSessionID := 0, iID := - 1,
     lSocketStatus := STATUS_SOCKET_CLOSED, lStatus := STATUS_UNKNOWN, lType := CLIENT_UNKNOWN, Prs := False\<rparr>
     else ClientInfo s e)"
  by (simp_all add: release_record_def queued_cells_def)

lemma release_run:
  assumes inv: "ear_inv s k" and c: "c \<in> set (k_work k)"
  shows "\<exists>h q. release_client c s = Some (release_record c q h s)
    \<and> fifo_wf q \<and> fifo_room q = fifo_room (pFifoDogMsgFree s)
    \<and> mset (fifo_content q) = mset (free_cells s) + held s k c
    \<and> clients_shape h (released c k) \<and> sends_shape h (released c k)"
proof -
  note i = ear_invD [OF inv]
  have c16: "c < CLIENTNUM" using i(3) c by auto
  obtain h1 q1 where 1: "(if list_notempty (SendHd c) (lk s)
      then do {
        r \<leftarrow> for_each lk (SendHd c) (\<lambda>n s. do { m \<leftarrow> cell_of n; Some (False, push_free m s) }) s;
        Some ((snd r)\<lparr>lk := INIT_LIST_HEAD (SendHd c) (lk (snd r))\<rparr>)
      }
      else Some s) = Some (s\<lparr>pFifoDogMsgFree := q1, lk := h1\<rparr>)"
    "fifo_wf q1" "fifo_content q1 = free_cells s @ k_send k c" "fifo_room q1 = fifo_room (pFifoDogMsgFree s)"
    "sends_shape h1 (k\<lparr>k_send := (k_send k)(c := [])\<rparr>)" "same_links client_nodes (lk s) h1"
    using empty_send_list [OF inv c16] by blast
  let ?s1 = "s\<lparr>pFifoDogMsgFree := q1, lk := h1\<rparr>"
  have cl1: "clients_shape h1 (k\<lparr>k_send := (k_send k)(c := [])\<rparr>)"
    using clients_shape_frame [OF i(1) 1(6)] by simp
  obtain q2 where 2: "fifo_wf q2" "fifo_room q2 = fifo_room (pFifoDogMsgFree s)"
    "mset (fifo_content q2) = mset (free_cells s) + held s k c"
    "(case pCurSendMsg (ClientInfo s c) of
        Some m \<Rightarrow> upd_client c (\<lambda>x. x\<lparr>pCurSendMsg := None\<rparr>) (push_free m ?s1) | None \<Rightarrow> ?s1)
      = upd_client c (\<lambda>x. x\<lparr>pCurSendMsg := None\<rparr>) (s\<lparr>pFifoDogMsgFree := q2, lk := h1\<rparr>)"
  proof (cases "pCurSendMsg (ClientInfo s c)")
    case None
    then have "upd_client c (\<lambda>x. x\<lparr>pCurSendMsg := None\<rparr>) ?s1 = ?s1"
      by (simp add: upd_client_def fun_upd_idem)
    with None 1(2,3,4) show ?thesis by (intro that [of q1]) (simp_all add: held_def)
  next
    case (Some m)
    have "owned s k = mset (free_cells s) + (mset (queued_cells s) + (mset (k_send k c) + {#m#}) + held_rest s k c)"
      by (simp add: owned_split [OF c16] held_def Some)
    then have "length (fifo_content q1) < fifo_room q1" using i(5) 1(3,4) by simp
    then obtain q2 where "FifoPush q1 m = (RET_OK, q2)" "fifo_content q2 = fifo_content q1 @ [m]" "fifo_wf q2"
      "fifo_room q2 = fifo_room q1"
      using FifoPush_ok [OF 1(2), of m] by blast
    moreover from this have "push_free m ?s1 = s\<lparr>pFifoDogMsgFree := q2, lk := h1\<rparr>"
      by (cases s) (simp add: push_free_def)
    ultimately show ?thesis using Some 1(3,4) by (intro that [of q2]) (simp_all add: held_def)
  qed
  obtain h where h: "list_move (Cli c) FreeHd h1 = Some h" "clients_shape h (released c k)"
      "sends_shape h (released c k)"
    using move_to_free [OF cl1 1(5), of c] c
    by (auto simp: released_def sends_shape_def clients_shape_def)
  have "release_client c s = Some (release_record c q2 h s)"
    unfolding release_client_def 1(1) using 2(4) h(1)
    by (simp add: Let_def release_record_def upd_client_def log_effect_def)
  with 2 h show ?thesis by blast
qed

lemma release_ok:
  assumes inv: "ear_inv s k" and c: "c \<in> set (k_work k)"
  shows "\<exists>h q. release_client c s = Some (release_record c q h s)
    \<and> mset (fifo_content q) = mset (free_cells s) + held s k c
    \<and> ear_inv (release_record c q h s) (released c k)
    \<and> owned (release_record c q h s) (released c k) = owned s k"
proof -
  note i = ear_invD [OF inv]
  have c16: "c < CLIENTNUM" using i(3) c by auto
  obtain h q where r: "release_client c s = Some (release_record c q h s)"
    "fifo_wf q" "fifo_room q = fifo_room (pFifoDogMsgFree s)"
    "mset (fifo_content q) = mset (free_cells s) + held s k c"
    "clients_shape h (released c k)" "sends_shape h (released c k)"
    using release_run [OF assms] by blast
  let ?t = "release_record c q h s" and ?k = "released c k"
  have "held_rest ?t ?k c = held_rest s k c" by (rule held_rest_cong) (simp add: held_def released_def)
  moreover have "held ?t ?k c = {#}" by (simp add: held_def released_def)
  moreover have "mset (free_cells ?t) = mset (free_cells s) + held s k c" using r(4) by (simp add: free_cells_def)
  ultimately have o: "owned ?t ?k = owned s k" by (simp add: owned_split [OF c16])
  have "cells_ok ?t ?k" using i(4-7) r(2,3) unfolding cells_ok_def o by (simp add: rings_ok_def)
  moreover have "texts_ok ?t ?k" using i(8) by (auto simp: texts_ok_def released_def)
  moreover have "lists_ok ?t ?k"
    using r(5,6) i(3) c by (auto simp: lists_ok_def released_def dest: set_remove1_subset [THEN subsetD])
  moreover have "sends_ok ?t" using i(9) by (auto simp: sends_ok_def)
  moreover have "in_wf ?t"
    by (rule in_wf_out [OF i(10)]) (simp_all add: release_record_def upd_client_def log_effect_def)
  ultimately have "ear_inv ?t ?k" by (simp add: ear_inv_def)
  with r(1,4) o show ?thesis by blast
qed

section \<open>Taking the next message\<close>

definition next_record :: "nat \<Rightarrow> nat \<Rightarrow> nat \<Rightarrow> node links \<Rightarrow> dogstate \<Rightarrow> dogstate" where
  "next_record c m len h s = (upd_client c (\<lambda>x. x\<lparr>iCurSendLen := int len, pSndData := Some (m, 0),
     pCurSendMsg := Some m\<rparr>) s)\<lparr>lk := h\<rparr>"

lemma next_record_sel [simp]:
  "lk (next_record c m len h s) = h" "pFifoDogMsgFree (next_record c m len h s) = pFifoDogMsgFree s"
  "pFifoDogMsg (next_record c m len h s) = pFifoDogMsg s" "cells (next_record c m len h s) = cells s"
  "queued_cells (next_record c m len h s) = queued_cells s" "free_cells (next_record c m len h s) = free_cells s"
  "effects (next_record c m len h s) = effects s"
  "ClientInfo (next_record c m len h s) e = (if e = c then (ClientInfo s c)\<lparr>iCurSendLen := int len,
     pSndData := Some (m, 0), pCurSendMsg := Some m\<rparr> else ClientInfo s e)"
  by (simp_all add: next_record_def queued_cells_def free_cells_def)

lemma text_bounds:
  assumes "get_stream_ptr hs = Some t"
  shows "chunk_base hs + length t < length (chunk_block hs)"
    "take (length t) (drop (chunk_base hs) (chunk_block hs)) = t"
proof -
  have o: "chunk_base hs \<le> length (chunk_block hs)" "NUL \<in> set (drop (chunk_base hs) (chunk_block hs))"
    "t = c_str (drop (chunk_base hs) (chunk_block hs))"
    using assms by (auto simp: get_stream_ptr_def c_str_at_def split: if_splits)
  have "length (takeWhile P xs) < length xs" if "\<exists>x \<in> set xs. \<not> P x" for P and xs :: string
    using that by (induction xs) auto
  from this [of "drop (chunk_base hs) (chunk_block hs)" "\<lambda>c. c \<noteq> NUL"] o
  show "chunk_base hs + length t < length (chunk_block hs)" by (auto simp: c_str_def)
  show "take (length t) (drop (chunk_base hs) (chunk_block hs)) = t"
    by (simp add: o(3) c_str_def takeWhile_eq_take [symmetric])
qed

lemma next_ok:
  assumes inv: "ear_inv s k" and c: "c < CLIENTNUM" and ks: "k_send k c = m # ms"
    and idle: "iCurSendLen (ClientInfo s c) = 0"
  defines "k' \<equiv> k\<lparr>k_send := (k_send k)(c := ms)\<rparr>"
  shows "\<exists>t h. next_message c s = Some (next_record c m (length t) h s)
    \<and> get_stream_ptr (m_stream (cells s m)) = Some t \<and> t \<noteq> []
    \<and> ear_inv (next_record c m (length t) h s) k' \<and> owned (next_record c m (length t) h s) k' = owned s k
    \<and> same_links client_nodes (lk s) h"
proof -
  note i = ear_invD [OF inv]
  have l: "is_list (lk s) (SendHd c) (map Cell (m # ms))" using i(2) c ks by (auto simp: sends_shape_def)
  then have n: "nxt (lk s) (SendHd c) = Some (Cell m)" by (simp add: is_list_def)
  obtain t where t: "get_stream_ptr (m_stream (cells s m)) = Some t" "t \<noteq> []"
    using i(8) c ks by (force simp: texts_ok_def text_ok_def)
  from list_del_is_list [OF l, of "Cell m"] obtain h where
    h: "list_del (Cell m) (lk s) = Some h" "is_list h (SendHd c) (map Cell ms)"
    and f: "\<And>y. y \<notin> set (SendHd c # map Cell (m # ms)) \<Longrightarrow> nxt h y = nxt (lk s) y \<and> prv h y = prv (lk s) y"
    by auto
  let ?t = "next_record c m (length t) h s"
  have "pCurSendMsg (ClientInfo s c) = None" using i(9) idle by (fastforce simp: sends_ok_def)
  note cur = this
  have "next_message c s = Some ?t"
    using n h(1) t(1) by (simp add: next_message_def get_stream_len_of next_record_def Let_def upd_client_def)
  moreover have sl: "same_links client_nodes (lk s) h"
    using f by (auto simp: same_links_def client_nodes_def)
  moreover have o: "owned ?t k' = owned s k"
  proof -
    have "held_rest ?t k' c = held_rest s k c" by (rule held_rest_cong) (simp add: held_def k'_def)
    moreover have "held ?t k' c = held s k c" using cur ks by (simp add: held_def k'_def)
    ultimately show ?thesis by (simp add: owned_split [OF c])
  qed
  moreover have "ear_inv ?t k'"
  proof -
    have "sends_shape h k'" unfolding k'_def
      by (rule sends_shape_upd [OF i(2) c h(2)])
        (use f ks i(2) c in \<open>auto simp: sends_shape_def\<close>, use i(2) c ks in \<open>force simp: sends_shape_def\<close>)
    moreover have "clients_shape h k'"
      using clients_shape_frame [OF i(1) sl] by (simp add: k'_def)
    ultimately have "lists_ok ?t k'" using i(3) by (simp add: lists_ok_def k'_def)
    moreover have "cells_ok ?t k'" using i(4-7) unfolding cells_ok_def o by (simp add: rings_ok_def)
    moreover have "texts_ok ?t k'" using i(8) ks c by (auto simp: texts_ok_def k'_def)
    moreover have "sends_ok ?t" using i(9) t(2) text_bounds(1) [OF t(1)] by (auto simp: sends_ok_def)
    moreover have "in_wf ?t"
      by (rule in_wf_out [OF i(10)]) (simp_all add: next_record_def upd_client_def)
    ultimately show ?thesis by (simp add: ear_inv_def)
  qed
  ultimately show ?thesis using t by blast
qed

end
