(* ===== verification/DogRound.thy ===== *)
theory DogRound
  imports DogCells
begin

text \<open>
  Sending, the loops over the working clients, and the whole round of the socket thread: it
  always ends, conserves the message cells and sends every client the bytes that wait for it.
\<close>

section \<open>Sending\<close>

text \<open>The bytes that a client still has to be sent: the rest of its current message, then its list.\<close>

definition current_bytes :: "dogstate \<Rightarrow> nat \<Rightarrow> string" where
  "current_bytes s c = (case pSndData (ClientInfo s c) of
     None \<Rightarrow> []
   | Some (m, off) \<Rightarrow> take (nat (iCurSendLen (ClientInfo s c)))
       (drop (chunk_base (m_stream (cells s m)) + off) (chunk_block (m_stream (cells s m)))))"

definition cell_text :: "dogstate \<Rightarrow> nat \<Rightarrow> string" where
  "cell_text s m = the (get_stream_ptr (m_stream (cells s m)))"

definition outbox :: "dogstate \<Rightarrow> kennel \<Rightarrow> nat \<Rightarrow> string" where
  "outbox s k c = current_bytes s c @ concat (map (cell_text s) (k_send k c))"

lemma outbox_cong:
  "cells s' = cells s \<Longrightarrow> pSndData (ClientInfo s' c) = pSndData (ClientInfo s c) \<Longrightarrow>
     iCurSendLen (ClientInfo s' c) = iCurSendLen (ClientInfo s c) \<Longrightarrow> k_send k' c = k_send k c \<Longrightarrow>
     outbox s' k' c = outbox s k c"
  by (simp add: outbox_def current_bytes_def cell_text_def [abs_def] split: option.split)

lemma ear_inv_same_out:
  assumes "ear_inv s k" "same_out s s'" "in_wf s'"
  shows "ear_inv s' k" "owned s' k = owned s k"
proof -
  have e: "lk s' = lk s" "ClientInfo s' = ClientInfo s" "cells s' = cells s" "pFifoDogMsg s' = pFifoDogMsg s"
    "pFifoDogMsgFree s' = pFifoDogMsgFree s"
    using assms(2) by (simp_all add: same_out_def)
  then show o: "owned s' k = owned s k" by (simp add: owned_def held_def free_cells_def queued_cells_def)
  have "queued_cells s' = queued_cells s" using e by (simp add: queued_cells_def)
  with assms(1,3) e o sends_ok_cong [OF e(2,3)] show "ear_inv s' k"
    by (simp add: ear_inv_def lists_ok_def cells_ok_def texts_ok_def rings_ok_def)
qed

lemma ear_inv_client:
  assumes inv: "ear_inv s k" and f: "\<And>x. iCurSendLen (f x) = iCurSendLen x \<and> pSndData (f x) = pSndData x
      \<and> pCurSendMsg (f x) = pCurSendMsg x \<and> pCurCat2DogIOMsg (f x) = pCurCat2DogIOMsg x"
  shows "ear_inv (upd_client c f s) k" "owned (upd_client c f s) k = owned s k" "outbox (upd_client c f s) k = outbox s k"
proof -
  let ?s = "upd_client c f s"
  have q: "queued_cells ?s = queued_cells s" "free_cells ?s = free_cells s"
    by (simp_all add: queued_cells_def free_cells_def)
  have "held ?s k e = held s k e" for e by (simp add: held_def f)
  then show o: "owned ?s k = owned s k" by (simp add: owned_def q)
  have "in_wf ?s" by (rule in_wf_out [OF ear_invD(10) [OF inv]]) (simp_all add: upd_client_def f)
  moreover have "sends_ok ?s" using ear_invD(9) [OF inv] by (simp add: sends_ok_def f)
  ultimately show "ear_inv ?s k"
    using inv o q by (simp add: ear_inv_def lists_ok_def cells_ok_def texts_ok_def rings_ok_def)
  show "outbox ?s k = outbox s k" by (intro ext outbox_cong) (simp_all add: f)
qed

text \<open>A client that has a connection and that the socket thread need not release.\<close>

definition alive :: "dogstate \<Rightarrow> nat \<Rightarrow> bool" where
  "alive s c \<longleftrightarrow> lStatus (ClientInfo s c) \<noteq> STATUS_IOCLOSEED \<and> lSocketStatus (ClientInfo s c) \<noteq> STATUS_SOCKET_CLOSED"

lemma CLIENTTOEND_ok:
  assumes inv: "ear_inv s k"
  shows "\<exists>s'. CLIENTTOEND ra c s = Some s' \<and> ear_inv s' k \<and> owned s' k = owned s k \<and> lk s' = lk s
    \<and> outbox s' k = outbox s k \<and> effects s' = effects s
    \<and> (\<forall>d. Socket (ClientInfo s' d) = Socket (ClientInfo s d) \<and> iCurSendLen (ClientInfo s' d) = iCurSendLen (ClientInfo s d)
      \<and> (alive s d \<longrightarrow> alive s' d))"
proof -
  let ?s = "upd_client c (\<lambda>x. x\<lparr>lStatus := STATUS_UNKNOWN\<rparr>) s"
  obtain s' where s': "CLIENTTOEND ra c s = Some s'" "in_wf s'" "same_out ?s s'"
    using CLIENTTOEND_queues [OF ear_invD(10) [OF inv], of ra c] by blast
  have u: "ear_inv ?s k" "owned ?s k = owned s k" by (rule ear_inv_client [OF inv], simp)+
  have "ear_inv s' k" "owned s' k = owned s k" using ear_inv_same_out [OF u(1) s'(3,2)] u(2) by simp_all
  moreover have e: "cells s' = cells s" "ClientInfo s' = ClientInfo ?s" "lk s' = lk s" "effects s' = effects s"
    using s'(3) by (simp_all add: same_out_def)
  moreover have "outbox s' k = outbox s k"
    by (intro ext outbox_cong) (simp_all add: e)
  moreover have "Socket (ClientInfo s' d) = Socket (ClientInfo s d) \<and> iCurSendLen (ClientInfo s' d) = iCurSendLen (ClientInfo s d)
      \<and> (alive s d \<longrightarrow> alive s' d)"
    for d by (simp add: e alive_def)
  ultimately show ?thesis using s'(1) by blast
qed

text \<open>The state after a message has been sent to its end.\<close>

definition sent_record :: "nat \<Rightarrow> string \<Rightarrow> nat FifoRing \<Rightarrow> dogstate \<Rightarrow> dogstate" where
  "sent_record c bytes q s = (upd_client c (\<lambda>x. x\<lparr>iCurSendLen := 0, pCurSendMsg := None\<rparr>)
     (log_effect (SendBytes (Socket (ClientInfo s c)) bytes) s))\<lparr>pFifoDogMsgFree := q\<rparr>"

lemma sent_record_sel [simp]:
  "lk (sent_record c b q s) = lk s" "cells (sent_record c b q s) = cells s"
  "queued_cells (sent_record c b q s) = queued_cells s" "pFifoDogMsg (sent_record c b q s) = pFifoDogMsg s"
  "pFifoDogMsgFree (sent_record c b q s) = q"
  "effects (sent_record c b q s) = effects s @ [SendBytes (Socket (ClientInfo s c)) b]"
  "ClientInfo (sent_record c b q s) e = (if e = c then (ClientInfo s c)\<lparr>iCurSendLen := 0, pCurSendMsg := None\<rparr>
     else ClientInfo s e)"
  by (simp_all add: sent_record_def queued_cells_def)

lemma sent_ok:
  assumes inv: "ear_inv s k" and c: "c < CLIENTNUM"
  shows "\<exists>q. upd_client c (\<lambda>x. x\<lparr>iCurSendLen := 0, pCurSendMsg := None\<rparr>)
      (case pCurSendMsg (ClientInfo s c) of
        Some m \<Rightarrow> push_free m (upd_client c (\<lambda>x. x\<lparr>iCurSendLen := g x\<rparr>)
          (log_effect (SendBytes (Socket (ClientInfo s c)) b) s))
      | None \<Rightarrow> upd_client c (\<lambda>x. x\<lparr>iCurSendLen := g x\<rparr>) (log_effect (SendBytes (Socket (ClientInfo s c)) b) s))
      = sent_record c b q s
    \<and> ear_inv (sent_record c b q s) k \<and> owned (sent_record c b q s) k = owned s k"
proof -
  note i = ear_invD [OF inv]
  let ?u = "upd_client c (\<lambda>x. x\<lparr>iCurSendLen := g x\<rparr>) (log_effect (SendBytes (Socket (ClientInfo s c)) b) s)"
  obtain q where q: "fifo_wf q" "fifo_room q = fifo_room (pFifoDogMsgFree s)"
    "mset (fifo_content q) + mset (k_send k c) = mset (free_cells s) + held s k c"
    "(case pCurSendMsg (ClientInfo s c) of Some m \<Rightarrow> push_free m ?u | None \<Rightarrow> ?u) = ?u\<lparr>pFifoDogMsgFree := q\<rparr>"
  proof (cases "pCurSendMsg (ClientInfo s c)")
    case None
    have "?u\<lparr>pFifoDogMsgFree := pFifoDogMsgFree s\<rparr> = ?u" by (simp add: log_effect_def upd_client_def)
    with None i(4) show ?thesis
      by (intro that [of "pFifoDogMsgFree s"]) (simp_all add: rings_ok_def held_def free_cells_def)
  next
    case (Some m)
    have "owned s k = mset (free_cells s) + (mset (queued_cells s) + (mset (k_send k c) + {#m#}) + held_rest s k c)"
      by (simp add: owned_split [OF c] held_def Some)
    then have "length (fifo_content (pFifoDogMsgFree s)) < fifo_room (pFifoDogMsgFree s)"
      using i(5) by (simp add: free_cells_def)
    then obtain q where "FifoPush (pFifoDogMsgFree s) m = (RET_OK, q)"
      "fifo_content q = fifo_content (pFifoDogMsgFree s) @ [m]" "fifo_wf q"
      "fifo_room q = fifo_room (pFifoDogMsgFree s)"
      using FifoPush_ok [of "pFifoDogMsgFree s" m] i(4) by (auto simp: rings_ok_def)
    with Some show ?thesis
      by (intro that [of q]) (simp_all add: held_def push_free_def free_cells_def)
  qed
  let ?t = "sent_record c b q s"
  have "held_rest ?t k c = held_rest s k c" by (rule held_rest_cong) (simp add: held_def)
  moreover have "held ?t k c = mset (k_send k c)" by (simp add: held_def)
  moreover have "mset (free_cells ?t) + mset (k_send k c) = mset (free_cells s) + held s k c"
    using q(3) by (simp add: free_cells_def)
  ultimately have o: "owned ?t k = owned s k" by (simp add: owned_split [OF c] ac_simps)
  have "cells_ok ?t k" using i(4-7) q(1,2) unfolding cells_ok_def o by (simp add: rings_ok_def)
  moreover have "texts_ok ?t k" using i(8) by (simp add: texts_ok_def)
  moreover have "lists_ok ?t k" using i(1-3) by (simp add: lists_ok_def)
  moreover have "sends_ok ?t" using i(9) by (simp add: sends_ok_def)
  moreover have "in_wf ?t" by (rule in_wf_out [OF i(10)]) (simp_all add: sent_record_def upd_client_def log_effect_def)
  moreover have "upd_client c (\<lambda>x. x\<lparr>iCurSendLen := 0, pCurSendMsg := None\<rparr>) (?u\<lparr>pFifoDogMsgFree := q\<rparr>) = ?t"
    by (simp add: sent_record_def upd_client_def log_effect_def)
  ultimately show ?thesis using q(4) o by (auto simp: ear_inv_def)
qed

text \<open>A send that leaves part of the message.\<close>

lemma sent_part:
  fixes b :: string
  assumes inv: "ear_inv s k" and c: "c < CLIENTNUM" and n: "int sn < iCurSendLen (ClientInfo s c)"
    and p: "pSndData (ClientInfo s c) = Some (m, off)" and t_def: "t = upd_client c (\<lambda>x. x\<lparr>pSndData := map_option (\<lambda>p. (fst p, snd p + sn)) (pSndData x)\<rparr>)
      (upd_client c (\<lambda>x. x\<lparr>iCurSendLen := iCurSendLen x - int sn\<rparr>)
        (log_effect (SendBytes (Socket (ClientInfo s c)) b) s))"
  shows "ear_inv t k" "owned t k = owned s k" "lk t = lk s" "effects t = effects s @ [SendBytes (Socket (ClientInfo s c)) b]"
    "current_bytes t c = drop sn (current_bytes s c)" "cells t = cells s"
    "\<And>e. e \<noteq> c \<Longrightarrow> ClientInfo t e = ClientInfo s e"
proof -
  note i = ear_invD [OF inv]
  show e: "lk t = lk s" "cells t = cells s" "\<And>e. e \<noteq> c \<Longrightarrow> ClientInfo t e = ClientInfo s e"
    "effects t = effects s @ [SendBytes (Socket (ClientInfo s c)) b]"
    by (simp_all add: t_def)
  have tc: "ClientInfo t c = (ClientInfo s c)\<lparr>iCurSendLen := iCurSendLen (ClientInfo s c) - int sn,
      pSndData := Some (m, off + sn)\<rparr>"
    using p by (simp add: t_def)
  have q: "queued_cells t = queued_cells s" "free_cells t = free_cells s" "pFifoDogMsg t = pFifoDogMsg s"
    "pFifoDogMsgFree t = pFifoDogMsgFree s"
    by (simp_all add: t_def queued_cells_def free_cells_def)
  have "held t k e = held s k e" for e by (cases "e = c") (simp_all add: held_def tc e)
  then show o: "owned t k = owned s k" by (simp add: owned_def q)
  have "cells_ok t k" using i(4-7) unfolding cells_ok_def o by (simp add: rings_ok_def q)
  moreover have "texts_ok t k" using i(8) by (simp add: texts_ok_def e q)
  moreover have "lists_ok t k" using i(1-3) by (simp add: lists_ok_def e)
  moreover have "sends_ok t"
    unfolding sends_ok_def
  proof
    fix d
    note s = sends_okD [OF i(9), of d]
    show "0 \<le> iCurSendLen (ClientInfo t d) \<and> (0 < iCurSendLen (ClientInfo t d) \<longrightarrow>
        (\<exists>m off. pSndData (ClientInfo t d) = Some (m, off) \<and> chunk_base (m_stream (cells t m)) + off
          + nat (iCurSendLen (ClientInfo t d)) \<le> length (chunk_block (m_stream (cells t m)))))
      \<and> (pCurSendMsg (ClientInfo t d) \<noteq> None \<longrightarrow> 0 < iCurSendLen (ClientInfo t d))"
    proof (cases "d = c")
      case True
      then show ?thesis using s(2) n p by (auto simp: tc e(2))
    next
      case False
      then show ?thesis using s by (simp add: e)
    qed
  qed
  moreover have "in_wf t" by (rule in_wf_out [OF i(10)]) (simp_all add: t_def upd_client_def log_effect_def)
  ultimately show "ear_inv t k" by (simp add: ear_inv_def)
  show "current_bytes t c = drop sn (current_bytes s c)"
  proof -
    have "nat (iCurSendLen (ClientInfo s c) - int sn) = nat (iCurSendLen (ClientInfo s c)) - sn" by linarith
    then show ?thesis by (simp add: current_bytes_def tc e(2) p drop_take ac_simps)
  qed
qed

lemma send_bytes_ok:
  assumes "sends_ok s" and "send_result a c s = Some sn"
  obtains m off where "pSndData (ClientInfo s c) = Some (m, off)"
    "sent_bytes s c sn = Some (take sn (current_bytes s c))" "0 < sn" "int sn \<le> iCurSendLen (ClientInfo s c)"
    "length (current_bytes s c) = nat (iCurSendLen (ClientInfo s c))" "0 < iCurSendLen (ClientInfo s c)"
proof -
  have sn: "0 < sn" "int sn \<le> iCurSendLen (ClientInfo s c)"
    using assms(2) by (auto simp: send_result_def Let_def split: option.splits if_splits)
  then have "0 < iCurSendLen (ClientInfo s c)" by linarith
  from sends_okD(2) [OF assms(1) this] obtain m off where m: "pSndData (ClientInfo s c) = Some (m, off)"
    "chunk_base (m_stream (cells s m)) + off + nat (iCurSendLen (ClientInfo s c))
      \<le> length (chunk_block (m_stream (cells s m)))"
    by blast
  have "sn \<le> nat (iCurSendLen (ClientInfo s c))" using sn(2) by linarith
  then have "sent_bytes s c sn = Some (take sn (current_bytes s c))"
    using m by (simp add: sent_bytes_def read_at_def current_bytes_def min_def Let_def)
  moreover have "length (current_bytes s c) = nat (iCurSendLen (ClientInfo s c))"
    using m by (simp add: current_bytes_def)
  ultimately show ?thesis using that m(1) sn by simp
qed

text \<open>
  A send takes the first bytes of the client's outbox, and nothing when the socket refuses; it
  changes no other client's outbox, no client list, and conserves the cells.
\<close>

definition send_post :: "net \<Rightarrow> nat \<Rightarrow> dogstate \<Rightarrow> kennel \<Rightarrow> dogstate \<Rightarrow> kennel \<Rightarrow> bool" where
  "send_post a c s k s' k' \<longleftrightarrow> ear_inv s' k' \<and> owned s' k' = owned s k \<and> k_work k' = k_work k \<and> k_free k' = k_free k
     \<and> same_links client_nodes (lk s) (lk s') \<and> (\<forall>e. e \<noteq> c \<longrightarrow> outbox s' k' e = outbox s k e)
     \<and> Socket (ClientInfo s' c) = Socket (ClientInfo s c) \<and> (alive s c \<longrightarrow> alive s' c)
     \<and> (0 < iCurSendLen (ClientInfo s c) \<longrightarrow> outbox s' k' c = [] \<or> 0 < iCurSendLen (ClientInfo s' c))
     \<and> (case send_result a c s of
          None \<Rightarrow> outbox s' k' c = outbox s k c \<and> effects s' = effects s
        | Some sn \<Rightarrow> outbox s k c = take sn (outbox s k c) @ outbox s' k' c \<and> sn \<le> length (outbox s k c)
            \<and> effects s' = effects s @ [SendBytes (Socket (ClientInfo s c)) (take sn (outbox s k c))])"

lemma send_end_ok:
  assumes inv: "ear_inv s k" and none: "send_result a c s = None" and r: "CLIENTTOEND ra c s = r"
  shows "\<exists>s'. r = Some s' \<and> send_post a c s k s' k"
  using CLIENTTOEND_ok [OF inv, of ra c] r none by (auto simp: send_post_def)

lemma send_part_ok:
  assumes inv: "ear_inv s k" and c: "c < CLIENTNUM" and Some: "send_result a c s = Some sn"
    and le: "int sn < iCurSendLen (ClientInfo s c)"
  shows "\<exists>s' k'. send_client a c s = Some s' \<and> send_post a c s k s' k'"
proof -
  note i = ear_invD [OF inv]
  obtain m off where p: "pSndData (ClientInfo s c) = Some (m, off)"
    "sent_bytes s c sn = Some (take sn (current_bytes s c))" "0 < sn" "int sn \<le> iCurSendLen (ClientInfo s c)"
    "length (current_bytes s c) = nat (iCurSendLen (ClientInfo s c))" "0 < iCurSendLen (ClientInfo s c)"
    using send_bytes_ok [OF i(9) Some] .
  let ?b = "take sn (current_bytes s c)" and ?fd = "Socket (ClientInfo s c)"
  let ?rest = "concat (map (cell_text s) (k_send k c))"
  have sn: "sn \<le> length (current_bytes s c)" using p(4,5) by linarith
  then have b: "take sn (outbox s k c) = ?b" "sn \<le> length (outbox s k c)" by (simp_all add: outbox_def)
  let ?t = "upd_client c (\<lambda>x. x\<lparr>pSndData := map_option (\<lambda>p. (fst p, snd p + sn)) (pSndData x)\<rparr>)
      (upd_client c (\<lambda>x. x\<lparr>iCurSendLen := iCurSendLen x - int sn\<rparr>) (log_effect (SendBytes ?fd ?b) s))"
  note t = sent_part [OF inv c le p(1), of ?t ?b, OF refl]
  have "send_client a c s = Some ?t" using Some p(2,6) le by (simp add: send_client_def Let_def)
  moreover have "outbox s k c = ?b @ drop sn (outbox s k c)" by (simp flip: b(1))
  moreover have "outbox ?t k c = drop sn (outbox s k c)"
    using t(5) sn by (simp add: outbox_def cell_text_def [abs_def])
  moreover have "outbox ?t k e = outbox s k e" if "e \<noteq> c" for e
    by (rule outbox_cong) (use that in simp_all)
  ultimately show ?thesis
    using t(1-4) b Some le by (intro exI [of _ ?t] exI [of _ k]) (simp add: send_post_def alive_def)
qed

lemma send_last_ok:
  assumes inv: "ear_inv s k" and c: "c < CLIENTNUM" and Some: "send_result a c s = Some sn"
    and le: "\<not> int sn < iCurSendLen (ClientInfo s c)"
  shows "\<exists>s' k'. send_client a c s = Some s' \<and> send_post a c s k s' k'"
proof -
  note i = ear_invD [OF inv]
  obtain m off where p: "pSndData (ClientInfo s c) = Some (m, off)"
    "sent_bytes s c sn = Some (take sn (current_bytes s c))" "0 < sn" "int sn \<le> iCurSendLen (ClientInfo s c)"
    "length (current_bytes s c) = nat (iCurSendLen (ClientInfo s c))" "0 < iCurSendLen (ClientInfo s c)"
    using send_bytes_ok [OF i(9) Some] .
  let ?b = "take sn (current_bytes s c)" and ?fd = "Socket (ClientInfo s c)"
  let ?rest = "concat (map (cell_text s) (k_send k c))"
  have sn: "sn \<le> length (current_bytes s c)" using p(4,5) by linarith
  then have b: "take sn (outbox s k c) = ?b" "sn \<le> length (outbox s k c)" by (simp_all add: outbox_def)
  have all: "?b = current_bytes s c" "sn = length (current_bytes s c)"
    "iCurSendLen (ClientInfo s c) - int sn = 0" using p(4,5) le by simp_all
  obtain q where q: "upd_client c (\<lambda>x. x\<lparr>iCurSendLen := 0, pCurSendMsg := None\<rparr>)
      (case pCurSendMsg (ClientInfo s c) of
        Some m \<Rightarrow> push_free m (upd_client c (\<lambda>x. x\<lparr>iCurSendLen := iCurSendLen x - int sn\<rparr>)
          (log_effect (SendBytes ?fd ?b) s))
      | None \<Rightarrow> upd_client c (\<lambda>x. x\<lparr>iCurSendLen := iCurSendLen x - int sn\<rparr>) (log_effect (SendBytes ?fd ?b) s))
      = sent_record c ?b q s"
    "ear_inv (sent_record c ?b q s) k" "owned (sent_record c ?b q s) k = owned s k"
    using sent_ok [OF inv c, of "\<lambda>x. iCurSendLen x - int sn" ?b] by blast
  let ?t = "sent_record c ?b q s"
  have ob: "outbox ?t k c = ?rest" "\<And>e. e \<noteq> c \<Longrightarrow> outbox ?t k e = outbox s k e"
    by (simp_all add: outbox_def current_bytes_def cell_text_def [abs_def] split: option.split)
  have out: "outbox s k c = ?b @ ?rest" using all(1) by (simp add: outbox_def)
  note lq = arg_cong [OF q(1), of lk, unfolded upd_client_sel]
  have step: "send_client a c s = (if list_notempty (SendHd c) (lk ?t) then next_message c ?t
      else if lStatus (ClientInfo ?t c) = STATUS_IOCMDCLOSE then CLIENTTOEND (net_realloc a) c ?t else Some ?t)"
    using Some p(2,6) all(3) by (simp add: send_client_def Let_def q(1) lq del: sent_record_sel)
  have l: "is_list (lk s) (SendHd c) (map Cell (k_send k c))" using i(2) c by (simp add: sends_shape_def)
  show ?thesis
  proof (cases "k_send k c")
    case Nil
    then have "\<not> list_notempty (SendHd c) (lk s)" using is_list_notempty_iff [OF l] by simp
    moreover obtain u where "CLIENTTOEND (net_realloc a) c ?t = Some u" "ear_inv u k" "owned u k = owned ?t k"
      "lk u = lk ?t" "outbox u k = outbox ?t k" "effects u = effects ?t"
      "Socket (ClientInfo u c) = Socket (ClientInfo ?t c)" "alive ?t c \<longrightarrow> alive u c"
      using CLIENTTOEND_ok [OF q(2)] by metis
    ultimately show ?thesis
      using step q(2,3) ob out Some b Nil by (auto simp: send_post_def alive_def)
  next
    case (Cons m' ms)
    let ?k = "k\<lparr>k_send := (k_send k)(c := ms)\<rparr>"
    have ne: "list_notempty (SendHd c) (lk s)" using is_list_notempty_iff [OF l] Cons by simp
    obtain t h where n: "next_message c ?t = Some (next_record c m' (length t) h ?t)"
      "get_stream_ptr (m_stream (cells ?t m')) = Some t" "t \<noteq> []" "ear_inv (next_record c m' (length t) h ?t) ?k"
      "owned (next_record c m' (length t) h ?t) ?k = owned ?t k" "same_links client_nodes (lk ?t) h"
      using next_ok [OF q(2) c Cons] by auto
    let ?u = "next_record c m' (length t) h ?t"
    have "outbox ?u ?k c = ?rest"
      using text_bounds(2) [OF n(2)] n(2) Cons
      by (simp add: outbox_def current_bytes_def cell_text_def [abs_def])
    moreover have "outbox ?u ?k e = outbox s k e" if "e \<noteq> c" for e
      by (rule outbox_cong) (use that in simp_all)
    ultimately show ?thesis
      using step ne n(1,3-6) q(3) out Some b
      by (intro exI [of _ ?u] exI [of _ ?k]) (simp add: send_post_def alive_def)
  qed
qed

lemma send_client_ok:
  assumes inv: "ear_inv s k" and c: "c < CLIENTNUM"
  shows "\<exists>s' k'. send_client a c s = Some s' \<and> send_post a c s k s' k'"
proof (cases "send_result a c s")
  case None
  have "send_client a c s = CLIENTTOEND (net_realloc a) c s \<or> send_client a c s = Some s"
    using None by (simp add: send_client_def)
  moreover have "send_post a c s k s k" using inv None by (simp add: send_post_def)
  ultimately show ?thesis using send_end_ok [OF inv None] by metis
next
  case (Some sn)
  show ?thesis
    by (cases "int sn < iCurSendLen (ClientInfo s c)")
      (rule send_part_ok [OF inv c Some], assumption, rule send_last_ok [OF inv c Some], assumption)
qed

section \<open>The loops over the working clients\<close>

lemma run_body_total:
  assumes step: "\<And>x ys s. P (x # ys) s \<Longrightarrow> \<exists>s'. body x s = Some (False, s') \<and> P ys s'"
  shows "P xs s \<Longrightarrow> \<exists>s'. run_body body xs s = Some (False, s') \<and> P [] s'"
proof (induction xs arbitrary: s)
  case (Cons x xs)
  obtain s1 where "body x s = Some (False, s1)" "P xs s1" using step [OF Cons.prems] by blast
  with Cons.IH [of s1] show ?case by simp
qed simp

lemma for_each_safe_total:
  assumes step: "\<And>x ys s. P (x # ys) s \<Longrightarrow>
      \<exists>s'. body x s = Some (False, s') \<and> P ys s' \<and> (\<forall>y \<in> set ys. nxt (lk' s') y = nxt (lk' s) y)"
    and l: "is_list (lk' s) head xs" and P: "P xs s"
  shows "\<exists>s'. for_each_safe lk' head body s = Some (False, s') \<and> P [] s'"
proof -
  have "for_each_safe lk' head body s = run_body body xs s"
    by (rule for_each_safe_run [where P = P and lk = lk' and body = body and head = head and s = s and xs = xs])
      (use step l P in force)+
  moreover have "\<exists>s'. run_body body xs s = Some (False, s') \<and> P [] s'"
    by (rule run_body_total [where P = P, OF _ P]) (use step in blast)
  ultimately show ?thesis by simp
qed

text \<open>The clients that come after the current one keep their successors.\<close>

lemma later_clients:
  assumes "clients_shape h k" "clients_shape h' k'" "k_work k = us @ ys" "k_work k' = us' @ ys"
  shows "\<forall>y \<in> set (map Cli ys). nxt h' y = nxt h y"
proof
  fix y assume "y \<in> set (map Cli ys)"
  moreover have "is_list h WorkHd (map Cli us @ map Cli ys)" "is_list h' WorkHd (map Cli us' @ map Cli ys)"
    using assms by (simp_all add: clients_shape_def)
  ultimately show "nxt h' y = nxt h y" by (intro same_suffix_nxt)
qed

lemma work_client:
  assumes "ear_inv s k" "k_work k = us @ c # ys"
  shows "c < CLIENTNUM" "c \<in> set (k_work k)" "remove1 c (k_work k) = us @ ys"
proof -
  have "distinct (k_work k)" using ear_invD(1) [OF assms(1)] by (auto simp: clients_shape_def is_list_def distinct_map)
  then show "c < CLIENTNUM" "c \<in> set (k_work k)" "remove1 c (k_work k) = us @ ys"
    using ear_invD(3) [OF assms(1)] assms(2) by (auto simp: remove1_append)
qed

text \<open>What is true between two clients of a loop: the clients still to come are the end of the list.\<close>

definition loop_inv :: "nat multiset \<Rightarrow> node list \<Rightarrow> dogstate \<Rightarrow> bool" where
  "loop_inv M ns s \<longleftrightarrow> (\<exists>k us ys. ns = map Cli ys \<and> ear_inv s k \<and> owned s k = M \<and> k_work k = us @ ys)"

lemma prepare_client_ok:
  assumes "loop_inv M (n # ns) s"
  shows "\<exists>c f' s'. client_of n = Some c \<and> prepare_client c (f, s) = Some (f', s') \<and> loop_inv M ns s'
    \<and> (\<forall>y \<in> set ns. nxt (lk s') y = nxt (lk s) y)"
proof -
  obtain k us ys c where k: "n = Cli c" "ns = map Cli ys" "ear_inv s k" "owned s k = M" "k_work k = us @ c # ys"
    using assms by (auto simp: loop_inv_def)
  note i = ear_invD [OF k(3)]
  note w = work_client [OF k(3,5)]
  have go: ?thesis if "prepare_client c (f, s) = Some (f', s')" "ear_inv s' k'" "owned s' k' = M"
      "k_work k' = us' @ ys" for f' s' k' us'
  proof -
    have "loop_inv M ns s'" using that(2,3,4) k(2) unfolding loop_inv_def by blast
    moreover have "\<forall>y \<in> set ns. nxt (lk s') y = nxt (lk s) y"
      unfolding k(2) by (rule later_clients [OF i(1) ear_invD(1) [OF that(2)], of "us @ [c]"]) (use k(5) that(4) in simp_all)
    ultimately show ?thesis using that(1) k(1) by simp
  qed
  have l: "is_list (lk s) (SendHd c) (map Cell (k_send k c))" using i(2) w(1) by (simp add: sends_shape_def)
  have "\<exists>f'. prepare_client c (f, s) = Some (f', s)" if "lStatus (ClientInfo s c) \<noteq> STATUS_IOCLOSEED"
      "lSocketStatus (ClientInfo s c) = STATUS_SOCKET_CLOSED \<or> 0 < iCurSendLen (ClientInfo s c)
        \<or> \<not> list_notempty (SendHd c) (lk s)"
    using that by (auto simp: prepare_client_def)
  then consider (closed) "lStatus (ClientInfo s c) = STATUS_IOCLOSEED"
    | (same) f' where "prepare_client c (f, s) = Some (f', s)"
    | (pick) "lStatus (ClientInfo s c) \<noteq> STATUS_IOCLOSEED" "lSocketStatus (ClientInfo s c) \<noteq> STATUS_SOCKET_CLOSED"
        "\<not> 0 < iCurSendLen (ClientInfo s c)" "list_notempty (SendHd c) (lk s)"
    by blast
  then show ?thesis
  proof cases
    case closed
    obtain h q where r: "release_client c s = Some (release_record c q h s)"
      "ear_inv (release_record c q h s) (released c k)" "owned (release_record c q h s) (released c k) = owned s k"
      using release_ok [OF k(3) w(2)] by blast
    show ?thesis
      by (rule go [of f, OF _ r(2), of us]) (use closed r k(4) w(3) in \<open>simp_all add: prepare_client_def released_def\<close>)
  next
    case same
    show ?thesis by (rule go [OF same k(3,4), of "us @ [c]"]) (use k(5) in simp)
  next
    case pick
    then have idle: "iCurSendLen (ClientInfo s c) = 0" using sends_okD(1) [OF i(9), of c] by simp
    obtain m ms where ms: "k_send k c = m # ms"
      using pick(4) is_list_notempty_iff [OF l] by (cases "k_send k c") auto
    obtain t :: string and h where n: "next_message c s = Some (next_record c m (length t) h s)"
      "ear_inv (next_record c m (length t) h s) (k\<lparr>k_send := (k_send k)(c := ms)\<rparr>)"
      "owned (next_record c m (length t) h s) (k\<lparr>k_send := (k_send k)(c := ms)\<rparr>) = owned s k"
      using next_ok [OF k(3) w(1) ms idle] by blast
    have "\<exists>f'. prepare_client c (f, s) = Some (f', next_record c m (length t) h s)"
      using pick n(1) by (simp add: prepare_client_def)
    then show ?thesis using go [OF _ n(2), of _ "us @ [c]"] n(3) k(4,5) by auto
  qed
qed

lemma serve_client_ok:
  assumes "loop_inv M (n # ns) s"
  shows "\<exists>c s'. client_of n = Some c \<and> serve_client a rd c s = Some s' \<and> loop_inv M ns s'
    \<and> (\<forall>y \<in> set ns. nxt (lk s') y = nxt (lk s) y)"
proof -
  obtain k us ys c where k: "n = Cli c" "ns = map Cli ys" "ear_inv s k" "owned s k = M" "k_work k = us @ c # ys"
    using assms by (auto simp: loop_inv_def)
  note w = work_client(1) [OF k(3,5)]
  let ?Q = "\<lambda>t'. \<exists>k'. ear_inv t' k' \<and> owned t' k' = M \<and> k_work k' = k_work k \<and> same_links client_nodes (lk s) (lk t')"
  have send: "\<exists>t'. send_client a c t = Some t' \<and> ?Q t'" if t: "ear_inv t k" "owned t k = M" "lk t = lk s" for t
    using send_client_ok [OF t(1) w, of a] t(2,3) by (auto simp: send_post_def)
  have "\<exists>s'. serve_client a rd c s = Some s' \<and> ?Q s'"
  proof (cases "lStatus (ClientInfo s c) \<noteq> STATUS_IOCMDCLOSE \<and> Socket (ClientInfo s c) \<in> rd")
    case False
    then have "serve_client a rd c s = send_client a c s" by (auto simp: serve_client_def)
    then show ?thesis using send [OF k(3,4) refl] by simp
  next
    case True
    show ?thesis
    proof (cases "net_recv a c")
      case None
      obtain s' where "CLIENTTOEND (net_realloc a) c s = Some s'" "ear_inv s' k" "owned s' k = owned s k" "lk s' = lk s"
        using CLIENTTOEND_ok [OF k(3), of "net_realloc a" c] by blast
      then show ?thesis using True None k(4) by (intro exI [of _ s']) (auto simp: serve_client_def)
    next
      case (Some data)
      obtain t where t: "receive_loop c data s = Some t" "in_wf t" "same_out s t"
        using receive_loop_queues [OF ear_invD(10) [OF k(3)], of c data] by blast
      have "lk t = lk s" using t(3) by (simp add: same_out_def)
      moreover have "serve_client a rd c s = send_client a c t" using True Some t(1) by (simp add: serve_client_def)
      ultimately show ?thesis using send [of t] ear_inv_same_out [OF k(3) t(3,2)] k(4) by simp
    qed
  qed
  then obtain s' k' where s': "serve_client a rd c s = Some s'" "ear_inv s' k'" "owned s' k' = M"
    "k_work k' = k_work k" "same_links client_nodes (lk s) (lk s')"
    by blast
  have "k_work k' = (us @ [c]) @ ys" using s'(4) k(5) by simp
  then have "loop_inv M ns s'" using s'(2,3) k(2) unfolding loop_inv_def by blast
  moreover have "\<forall>y \<in> set ns. nxt (lk s') y = nxt (lk s) y"
    using s'(5) k(2) by (auto simp: same_links_def client_nodes_def)
  ultimately show ?thesis using s'(1) k(1) by simp
qed

section \<open>A whole round\<close>

lemma move_to_work:
  assumes cl: "clients_shape h k" and se: "sends_shape h k" and c: "k_free k = c # fs"
  shows "\<exists>h'. list_move (Cli c) WorkHd h = Some h'
    \<and> clients_shape h' (k\<lparr>k_work := c # k_work k, k_free := fs\<rparr>) \<and> sends_shape h' (k\<lparr>k_work := c # k_work k, k_free := fs\<rparr>)"
proof -
  have l: "is_list h WorkHd (map Cli (k_work k))" "is_list h FreeHd (map Cli (c # fs))"
      "set (k_work k) \<inter> set (c # fs) = {}" and d: "c \<notin> set fs"
    using cl c by (auto simp: clients_shape_def is_list_def)
  have "disjoint_lists FreeHd (map Cli (c # fs)) WorkHd (map Cli (k_work k))"
    using l(3) by (auto simp: disjoint_lists_def)
  from list_move_is_list [OF l(2) _ l(1) this, of "Cli c"] obtain h' where
    h': "list_move (Cli c) WorkHd h = Some h'" "is_list h' WorkHd (map Cli (c # k_work k))"
      "is_list h' FreeHd (map Cli fs)"
    and f: "\<And>y. y \<notin> set (FreeHd # map Cli (c # fs)) \<union> set (WorkHd # map Cli (k_work k)) \<Longrightarrow>
      nxt h' y = nxt h y \<and> prv h' y = prv h y"
    by auto
  have "sends_shape h' k"
    by (rule sends_shape_frame [OF se]) (use f in \<open>auto simp: same_links_def send_nodes_def\<close>)
  then show ?thesis using h' l(3) d by (auto simp: clients_shape_def sends_shape_def)
qed

text \<open>Accepting with a free client: the first free client gets the connection.\<close>

lemma accept_run:
  assumes inv: "ear_inv s k" and acc: "net_accept a = Some (sd, ad, port)" "length ad = 4" and fr: "k_free k = c # fs"
  shows "\<exists>g h. accept_client a (e, s) = Some (e\<lparr>maxfd := sd, next_session := next_session e + 1\<rparr>, (upd_client c g s)\<lparr>lk := h\<rparr>)
    \<and> (\<forall>x. iCurSendLen (g x) = iCurSendLen x \<and> pSndData (g x) = pSndData x \<and> Socket (g x) = sd
        \<and> iSessionID (g x) = next_session e + 1)
    \<and> ear_inv ((upd_client c g s)\<lparr>lk := h\<rparr>) (k\<lparr>k_work := c # k_work k, k_free := fs\<rparr>)
    \<and> owned ((upd_client c g s)\<lparr>lk := h\<rparr>) (k\<lparr>k_work := c # k_work k, k_free := fs\<rparr>) = owned s k"
proof -
  note i = ear_invD [OF inv]
  have l: "is_list (lk s) FreeHd (map Cli (k_free k))" using i(1) by (simp add: clients_shape_def)
  obtain h where h: "list_move (Cli c) WorkHd (lk s) = Some h"
    "clients_shape h (k\<lparr>k_work := c # k_work k, k_free := fs\<rparr>)" "sends_shape h (k\<lparr>k_work := c # k_work k, k_free := fs\<rparr>)"
    using move_to_work [OF i(1,2) fr] by blast
  have n: "nxt (lk s) FreeHd = Some (Cli c)" using l fr by (simp add: is_list_def)
  have ne: "\<not> list_empty FreeHd (lk s)" using is_list_empty_iff [OF l] fr by simp
  obtain ip where ip: "inet_ntoa ad 0 = Some ip" using acc(2) by (auto simp: inet_ntoa_def mem_simps)
  let ?g = "\<lambda>y. y\<lparr>Socket := sd, IPAddress := fold (\<lambda>b n. 256 * n + unat b) (rev ad) 0,
            lIPPort := port, strIP := ip, iSessionID := next_session e + 1, iMsgNumID := 0,
            lSocketStatus := STATUS_SOCKET_CONNECT, lStatus := STATUS_UNKNOWN,
            lType := CLIENT_UNKNOWN, Prs := net_parser a\<rparr>"
  let ?t = "(upd_client c ?g s)\<lparr>lk := h\<rparr>" and ?k = "k\<lparr>k_work := c # k_work k, k_free := fs\<rparr>"
  have run: "accept_client a (e, s) = Some (e\<lparr>maxfd := sd, next_session := next_session e + 1\<rparr>, ?t)"
    using acc n ne ip h(1) by (simp add: accept_client_def Let_def)
  have q: "queued_cells ?t = queued_cells s" "free_cells ?t = free_cells s"
    by (simp_all add: queued_cells_def free_cells_def)
  have "held ?t ?k d = held s k d" for d by (simp add: held_def)
  then have o: "owned ?t ?k = owned s k" by (simp add: owned_def q)
  have "cells_ok ?t ?k" using i(4-7) unfolding cells_ok_def o by (simp add: rings_ok_def)
  moreover have "texts_ok ?t ?k" using i(8) by (simp add: texts_ok_def q)
  moreover have "lists_ok ?t ?k" using h(2,3) i(3) fr by (simp add: lists_ok_def)
  moreover have "sends_ok ?t" using i(9) by (simp add: sends_ok_def)
  moreover have "in_wf ?t" by (rule in_wf_out [OF i(10)]) (simp_all add: upd_client_def)
  ultimately have "ear_inv ?t ?k" by (simp add: ear_inv_def)
  with run o show ?thesis by (intro exI [of _ ?g] exI [of _ h]) simp
qed

lemma accept_ok:
  assumes inv: "ear_inv s k" and addr: "\<And>sd ad port. net_accept a = Some (sd, ad, port) \<Longrightarrow> length ad = 4"
  shows "\<exists>e' s' k'. accept_client a (e, s) = Some (e', s') \<and> ear_inv s' k' \<and> owned s' k' = owned s k"
proof (cases "net_accept a")
  case None
  then show ?thesis using inv by (auto simp: accept_client_def)
next
  case (Some x)
  obtain sd ad port where x: "net_accept a = Some (sd, ad, port)" using Some by (cases x) auto
  have l: "is_list (lk s) FreeHd (map Cli (k_free k))" using ear_invD(1) [OF inv] by (simp add: clients_shape_def)
  show ?thesis
  proof (cases "k_free k")
    case Nil
    then have "list_empty FreeHd (lk s)" using is_list_empty_iff [OF l] by simp
    moreover have "ear_inv (log_effect ef s) k \<and> owned (log_effect ef s) k = owned s k" for ef
      using inv by (simp add: ear_inv_def lists_ok_def cells_ok_def texts_ok_def sends_ok_def in_wf_def owned_def
          held_def [abs_def] free_cells_def queued_cells_def rings_ok_def log_effect_def)
    ultimately show ?thesis using x by (simp add: accept_client_def) blast
  next
    case (Cons c fs)
    from accept_run [OF inv x addr [OF x] Cons, of e] show ?thesis by blast
  qed
qed

lemma prepare_ok:
  assumes inv: "ear_inv s k"
  shows "\<exists>f s' k'. prepare e s = Some (f, s') \<and> ear_inv s' k' \<and> owned s' k' = owned s k"
proof -
  let ?body = "\<lambda>n x. do { c \<leftarrow> client_of n; x \<leftarrow> prepare_client c x; Some (False, x) }"
  let ?P = "\<lambda>ns (x :: fd_sets \<times> dogstate). loop_inv (owned s k) ns (snd x)"
  have "\<exists>x. for_each_safe (\<lambda>x. lk (snd x)) WorkHd ?body (\<lparr>rFds = {SocketListen e}, wFds = {}\<rparr>, s) = Some (False, x)
      \<and> ?P [] x"
  proof (rule for_each_safe_total [where P = ?P])
    fix n ns and x :: "fd_sets \<times> dogstate" assume "?P (n # ns) x"
    then show "\<exists>x'. ?body n x = Some (False, x') \<and> ?P ns x'
        \<and> (\<forall>y \<in> set ns. nxt (lk (snd x')) y = nxt (lk (snd x)) y)"
      using prepare_client_ok [of "owned s k" n ns "snd x" "fst x"] by force
  next
    show "is_list (lk (snd (\<lparr>rFds = {SocketListen e}, wFds = {}\<rparr>, s))) WorkHd (map Cli (k_work k))"
      using ear_invD(1) [OF inv] by (simp add: clients_shape_def)
    show "?P (map Cli (k_work k)) (\<lparr>rFds = {SocketListen e}, wFds = {}\<rparr>, s)"
      using inv by (auto simp: loop_inv_def)
  qed
  then show ?thesis by (auto simp: prepare_def loop_inv_def)
qed

lemma serve_ok:
  assumes inv: "ear_inv s k"
  shows "\<exists>s' k'. for_each_safe lk WorkHd
      (\<lambda>n s. do { c \<leftarrow> client_of n; s \<leftarrow> serve_client a rd c s; Some (False, s) }) s = Some (False, s')
    \<and> ear_inv s' k' \<and> owned s' k' = owned s k"
proof -
  let ?body = "\<lambda>n s. do { c \<leftarrow> client_of n; s \<leftarrow> serve_client a rd c s; Some (False, s) }"
  have "\<exists>s'. for_each_safe lk WorkHd ?body s = Some (False, s') \<and> loop_inv (owned s k) [] s'"
  proof (rule for_each_safe_total [where P = "loop_inv (owned s k)"])
    fix n ns s1 assume "loop_inv (owned s k) (n # ns) s1"
    then show "\<exists>s'. ?body n s1 = Some (False, s') \<and> loop_inv (owned s k) ns s'
        \<and> (\<forall>y \<in> set ns. nxt (lk s') y = nxt (lk s1) y)"
      using serve_client_ok [of "owned s k" n ns s1 a rd] by auto
  next
    show "is_list (lk s) WorkHd (map Cli (k_work k))" using ear_invD(1) [OF inv] by (simp add: clients_shape_def)
    show "loop_inv (owned s k) (map Cli (k_work k)) s" using inv by (auto simp: loop_inv_def)
  qed
  then show ?thesis by (auto simp: loop_inv_def)
qed

lemma ear_round_ok:
  assumes inv: "ear_inv s k" and addr: "\<And>sd ad port. net_accept a = Some (sd, ad, port) \<Longrightarrow> length ad = 4"
  shows "\<exists>e' s' k'. ear_round a (e, s) = Some (e', s') \<and> ear_inv s' k' \<and> owned s' k' = owned s k"
proof -
  obtain s1 where s1: "POP_DOGMSG_2LISTTAIL s = Some s1" "ear_inv s1 (routed s k)"
      "owned s1 (routed s k) = owned s k"
    using pop_routes [OF inv] by blast
  obtain f s2 k2 where s2: "prepare e s1 = Some (f, s2)" "ear_inv s2 k2" "owned s2 k2 = owned s k"
    using prepare_ok [OF s1(2), of e] s1(3) by auto
  show ?thesis
  proof (cases "net_select a")
    case False
    then show ?thesis using s1(1) s2 by (auto simp: ear_round_def Let_def)
  next
    case True
    let ?acc = "if SocketListen e \<in> readable a e f then accept_client a (e, s2) else Some (e, s2)"
    obtain e3 s3 k3 where s3: "?acc = Some (e3, s3)" "ear_inv s3 k3" "owned s3 k3 = owned s k"
      using accept_ok [OF s2(2), of a e] addr s2(2,3) by (cases "SocketListen e \<in> readable a e f") auto
    obtain s4 k4 where "for_each_safe lk WorkHd
        (\<lambda>n s. do { c \<leftarrow> client_of n; s \<leftarrow> serve_client a (readable a e f) c s; Some (False, s) }) s3 = Some (False, s4)"
      "ear_inv s4 k4" "owned s4 k4 = owned s k"
      using serve_ok [OF s3(2), of a "readable a e f"] s3(3) by auto
    then show ?thesis using True s1(1) s2(1) s3(1) by (auto simp: ear_round_def Let_def)
  qed
qed

section \<open>Properties\<close>

text \<open>
  C3. A round of the socket thread always ends, whatever the sockets answer: it keeps the lists
  of the clients, both rings and the bounds of what is being sent in order, and the message
  cells after it are exactly those before it, none lost and none in two places.
\<close>

theorem round_conserves_cells:
  assumes "ear_inv s k" and "\<And>sd ad port. net_accept a = Some (sd, ad, port) \<Longrightarrow> length ad = 4"
  shows "\<exists>e' s' k'. ear_round a (e, s) = Some (e', s') \<and> ear_inv s' k' \<and> owned s' k' = owned s k"
  using ear_round_ok [OF assms] by simp

lemma yard_in_inv: "ear_inv yard_in yard_kennel"
proof -
  have f: "free_cells yard_in = [0, 1, 2, 3, 4, 5, 6, 7]" "queued_cells yard_in = []"
    using yard_free yard_queue by (simp_all add: free_cells_def queued_cells_def yard_in_def)
  have held: "held yard_in yard_kennel c = {#}" for c
    by (simp add: held_def yard_kennel_def) (simp add: yard_def blank_client_def)
  have o: "owned yard_in yard_kennel = mset [0, 1, 2, 3, 4, 5, 6, 7]" unfolding owned_def by (simp add: f held)
  have r: "pFifoDogMsg yard_in = pFifoDogMsg yard" "pFifoDogMsgFree yard_in = pFifoDogMsgFree yard"
    by (simp_all add: yard_in_def)
  have "cells_ok yard_in yard_kennel"
    using yard_pool unfolding cells_ok_def o by (simp add: r pool_ok_def rings_ok_def) (simp add: yard_def fifo_room_def)
  moreover have "lists_ok yard_in yard_kennel"
    using yard_shape by (simp add: lists_ok_def shape_def) (simp add: yard_kennel_def CLIENTNUM_def)
  moreover have "texts_ok yard_in yard_kennel" by (simp add: texts_ok_def f yard_kennel_def)
  moreover have "sends_ok yard_in" by (simp add: sends_ok_def) (simp add: yard_def blank_client_def)
  ultimately show ?thesis using yard_in_wf by (simp add: ear_inv_def)
qed

text \<open>A client connects from 10.0.0.1 and client 1 sends five bytes.\<close>

definition busy_net :: net where
  "busy_net = \<lparr>net_select = True, net_ready = {3, 0}, net_accept = Some (8, [10, 0, 0, 1], 4000), net_parser = True,
     net_recv = (\<lambda>_. Some ''<iq/>''), net_send = (\<lambda>_. Some 100), net_realloc = (\<lambda>_. None)\<rparr>"

theorem round_conserves_cells_witness:
  "\<exists>e' s' k'. ear_round busy_net (\<lparr>SocketListen = 3, maxfd = 7, next_session = 6\<rparr>, yard_in) = Some (e', s')
    \<and> ear_inv s' k' \<and> owned s' k' = owned yard_in yard_kennel"
  by (rule round_conserves_cells [OF yard_in_inv]) (simp add: busy_net_def)

text \<open>
  C24. Before a round looks at the sockets it empties the queue of posted cells: those of the
  client's present session go to the end of the client's list in the order they were posted (\<^term>\<open>routed s k\<close>),
  if the client is connected; those of an earlier session or of a client that is not connected go back to the free ring.
\<close>

theorem posted_cells_are_routed:
  assumes "ear_inv s k"
  shows "\<exists>s'. POP_DOGMSG_2LISTTAIL s = Some s' \<and> ear_inv s' (routed s k)
     \<and> owned s' (routed s k) = owned s k \<and> queued_cells s' = []
     \<and> free_cells s' = free_cells s @ filter (unwanted s) (queued_cells s)"
  using pop_routes [OF assms] by blast

lemma send_result_pos:
  "net_send a c = Some room \<Longrightarrow> 0 < room \<Longrightarrow> 0 < iCurSendLen (ClientInfo s c) \<Longrightarrow> \<exists>sn. send_result a c s = Some sn \<and> 0 < sn"
  by (simp add: send_result_def Let_def)

text \<open>
  A round gives every working client one turn: the client is prepared in the first loop and
  served in the second.  \<open>client_turns\<close> are the turns of one client in a number of rounds;
  the answers of the socket calls and the readable descriptors differ from round to round.
\<close>

definition client_turn :: "net \<Rightarrow> int set \<Rightarrow> nat \<Rightarrow> dogstate \<Rightarrow> dogstate option" where
  "client_turn a rd c s = do {
     x \<leftarrow> prepare_client c (\<lparr>rFds = {}, wFds = {}\<rparr>, s);
     serve_client a rd c (snd x)
   }"

fun client_turns :: "(nat \<Rightarrow> net) \<Rightarrow> (nat \<Rightarrow> int set) \<Rightarrow> nat \<Rightarrow> nat \<Rightarrow> dogstate \<Rightarrow> dogstate option" where
  "client_turns a rd c 0 s = Some s"
| "client_turns a rd c (Suc n) s = do { s \<leftarrow> client_turn (a n) (rd n) c s; client_turns a rd c n s }"

definition send_effects :: "int \<Rightarrow> string list \<Rightarrow> effect list" where
  "send_effects fd bs = map (SendBytes fd) bs"

text \<open>After the preparation a client that has something to send is sending.\<close>

lemma prepare_loads:
  assumes inv: "ear_inv s k" and c: "c < CLIENTNUM" and al: "alive s c"
  shows "\<exists>x k'. prepare_client c (f, s) = Some x \<and> ear_inv (snd x) k' \<and> outbox (snd x) k' c = outbox s k c
    \<and> effects (snd x) = effects s \<and> Socket (ClientInfo (snd x) c) = Socket (ClientInfo s c) \<and> alive (snd x) c
    \<and> (outbox s k c = [] \<or> 0 < iCurSendLen (ClientInfo (snd x) c))"
proof -
  note i = ear_invD [OF inv]
  have l: "is_list (lk s) (SendHd c) (map Cell (k_send k c))" using i(2) c by (simp add: sends_shape_def)
  consider (busy) "0 < iCurSendLen (ClientInfo s c)" | (idle) "iCurSendLen (ClientInfo s c) = 0" "k_send k c = []"
    | (pick) m ms where "iCurSendLen (ClientInfo s c) = 0" "k_send k c = m # ms"
    using sends_okD(1) [OF i(9), of c] by (cases "k_send k c") force+
  then show ?thesis
  proof cases
    case busy
    then have "\<exists>f'. prepare_client c (f, s) = Some (f', s)" using al by (simp add: prepare_client_def alive_def)
    then show ?thesis using busy inv al by auto
  next
    case idle
    then have "\<not> list_notempty (SendHd c) (lk s)" using is_list_notempty_iff [OF l] by simp
    then have "\<exists>f'. prepare_client c (f, s) = Some (f', s)" using al idle by (simp add: prepare_client_def alive_def)
    moreover have "outbox s k c = []" using idle by (simp add: outbox_def current_bytes_def split: option.split)
    ultimately show ?thesis using inv al by auto
  next
    case pick
    have ne: "list_notempty (SendHd c) (lk s)" using is_list_notempty_iff [OF l] pick(2) by simp
    obtain t h where n: "next_message c s = Some (next_record c m (length t) h s)"
      "get_stream_ptr (m_stream (cells s m)) = Some t" "t \<noteq> []"
      "ear_inv (next_record c m (length t) h s) (k\<lparr>k_send := (k_send k)(c := ms)\<rparr>)"
      using next_ok [OF inv c pick(2,1)] by auto
    let ?u = "next_record c m (length t) h s"
    have "\<exists>f'. prepare_client c (f, s) = Some (f', ?u)"
      using al pick(1) ne n(1) by (simp add: prepare_client_def alive_def)
    moreover have "outbox ?u (k\<lparr>k_send := (k_send k)(c := ms)\<rparr>) c = outbox s k c"
      using text_bounds(2) [OF n(2)] n(2) pick
      by (simp add: outbox_def current_bytes_def cell_text_def [abs_def] split: option.split)
    moreover have "alive ?u c" using al by (simp add: alive_def)
    ultimately show ?thesis using n(3,4) by (auto intro!: exI [of _ "k\<lparr>k_send := (k_send k)(c := ms)\<rparr>"])
  qed
qed

text \<open>Serving: whatever is received, something is sent when the client is sending.\<close>

lemma serve_sends:
  assumes inv: "ear_inv s k" and c: "c < CLIENTNUM" and rc: "net_recv a c \<noteq> None"
  shows "\<exists>s1 s' k'. serve_client a rd c s = Some s' \<and> send_post a c s1 k s' k' \<and> ear_inv s1 k
    \<and> outbox s1 k = outbox s k \<and> ClientInfo s1 = ClientInfo s \<and> effects s1 = effects s"
proof (cases "lStatus (ClientInfo s c) \<noteq> STATUS_IOCMDCLOSE \<and> Socket (ClientInfo s c) \<in> rd")
  case False
  then have "serve_client a rd c s = send_client a c s" by (auto simp: serve_client_def)
  then show ?thesis using send_client_ok [OF inv c, of a] inv by auto
next
  case True
  obtain data where d: "net_recv a c = Some data" using rc by blast
  obtain t where t: "receive_loop c data s = Some t" "in_wf t" "same_out s t"
    using receive_loop_queues [OF ear_invD(10) [OF inv], of c data] by blast
  have e: "cells t = cells s" "ClientInfo t = ClientInfo s" "effects t = effects s" using t(3) by (simp_all add: same_out_def)
  have o: "outbox t k = outbox s k" by (intro ext outbox_cong) (simp_all add: e)
  have i: "ear_inv t k" by (rule ear_inv_same_out(1) [OF inv t(3,2)])
  have "serve_client a rd c s = send_client a c t" using True d t(1) by (simp add: serve_client_def)
  then show ?thesis using send_client_ok [OF i c, of a] i o e by auto
qed

text \<open>One turn: some of the bytes that wait are sent, at least one when there is one.\<close>

lemma turn_sends:
  assumes inv: "ear_inv s k" and c: "c < CLIENTNUM" and al: "alive s c" and rc: "net_recv a c \<noteq> None"
    and room: "net_send a c = Some room" "0 < room"
  shows "\<exists>s' k' b. client_turn a rd c s = Some s' \<and> ear_inv s' k' \<and> alive s' c \<and> outbox s k c = concat b @ outbox s' k' c
    \<and> (outbox s k c = [] \<or> concat b \<noteq> []) \<and> Socket (ClientInfo s' c) = Socket (ClientInfo s c)
    \<and> effects s' = effects s @ send_effects (Socket (ClientInfo s c)) b"
proof -
  obtain x k0 where x: "prepare_client c (\<lparr>rFds = {}, wFds = {}\<rparr>, s) = Some x" "ear_inv (snd x) k0"
    "outbox (snd x) k0 c = outbox s k c" "effects (snd x) = effects s"
    "Socket (ClientInfo (snd x) c) = Socket (ClientInfo s c)" "alive (snd x) c"
    "outbox s k c = [] \<or> 0 < iCurSendLen (ClientInfo (snd x) c)"
    using prepare_loads [OF inv c al] by blast
  obtain s1 s' k' where s': "serve_client a rd c (snd x) = Some s'" "send_post a c s1 k0 s' k'"
    "outbox s1 k0 = outbox (snd x) k0" "ClientInfo s1 = ClientInfo (snd x)" "effects s1 = effects (snd x)"
    using serve_sends [OF x(2) c rc] by blast
  have t: "client_turn a rd c s = Some s'" using x(1) s'(1) by (simp add: client_turn_def)
  have al1: "alive s1 c" using x(6) s'(4) by (simp add: alive_def)
  show ?thesis
  proof (cases "send_result a c s1")
    case None
    have "\<not> 0 < iCurSendLen (ClientInfo (snd x) c)" using send_result_pos [OF room, of s1] None s'(4) by auto
    then have "outbox s k c = []" using x(7) by blast
    then show ?thesis
      using s'(2-5) None x t al1 by (intro exI [of _ s'] exI [of _ k'] exI [of _ "[]"]) (simp add: send_post_def send_effects_def)
  next
    case (Some sn)
    note p = s'(2) [unfolded send_post_def Some option.case]
    have "0 < sn" using Some by (auto simp: send_result_def Let_def split: option.splits if_splits)
    then show ?thesis
      using p s'(3-5) x t al1
      by (intro exI [of _ s'] exI [of _ k'] exI [of _ "[take sn (outbox s k c)]"]) (simp add: send_effects_def)
  qed
qed

lemma turns_drain:
  "ear_inv s k \<Longrightarrow> c < CLIENTNUM \<Longrightarrow> alive s c \<Longrightarrow> (\<And>i. net_recv (a i) c \<noteq> None) \<Longrightarrow>
     (\<And>i. \<exists>room > 0. net_send (a i) c = Some room) \<Longrightarrow> length (outbox s k c) \<le> n \<Longrightarrow>
     \<exists>s' k' bs. client_turns a rd c n s = Some s' \<and> ear_inv s' k' \<and> outbox s' k' c = [] \<and> concat bs = outbox s k c
       \<and> effects s' = effects s @ send_effects (Socket (ClientInfo s c)) bs"
proof (induction n arbitrary: s k)
  case 0
  then show ?case by (auto intro!: exI [of _ "[]"] simp: send_effects_def)
next
  case (Suc n)
  obtain room where room: "net_send (a n) c = Some room" "0 < room" using Suc.prems(5) by blast
  obtain s1 k1 b where s1: "client_turn (a n) (rd n) c s = Some s1" "ear_inv s1 k1" "alive s1 c"
    "outbox s k c = concat b @ outbox s1 k1 c" "outbox s k c = [] \<or> concat b \<noteq> []"
    "Socket (ClientInfo s1 c) = Socket (ClientInfo s c)" "effects s1 = effects s @ send_effects (Socket (ClientInfo s c)) b"
    using turn_sends [OF Suc.prems(1-4) room] by metis
  have "length (concat b) \<noteq> 0 \<or> outbox s1 k1 c = []" using s1(4,5) by (metis append_is_Nil_conv length_0_conv)
  then have "length (outbox s1 k1 c) \<le> n"
    using arg_cong [OF s1(4), of length] Suc.prems(6) unfolding length_append by (elim disjE) (linarith, simp)
  from Suc.IH [OF s1(2) Suc.prems(2) s1(3) Suc.prems(4,5) this] obtain s' k' bs where
    s': "client_turns a rd c n s1 = Some s'" "ear_inv s' k'" "outbox s' k' c = []" "concat bs = outbox s1 k1 c"
    "effects s' = effects s1 @ send_effects (Socket (ClientInfo s1 c)) bs"
    by blast
  then show ?case
    using s1(1,4,6,7) by (intro exI [of _ s'] exI [of _ k'] exI [of _ "b @ bs"]) (simp add: send_effects_def)
qed

lemma post_free_room:
  "post env c str s = Some (b, s') \<Longrightarrow> fifo_room (pFifoDogMsgFree s') = fifo_room (pFifoDogMsgFree s)"
  by (auto simp: post_def IoGetSendMsgCell_def IoPutSendMsgCell_def push_cell_string_def FifoPop_def fifo_room_def
      upd_cell_def split: Option.bind_splits option.splits if_splits)

lemma owned_once:
  assumes "ear_inv s k" "free_cells s = m # ms" "e < CLIENTNUM"
  shows "m \<notin> set (k_send k e)" "m \<notin> set (queued_cells s)"
proof -
  have "count (owned s k) m \<le> 1" by (rule ear_invD(7) [OF assms(1)])
  then have c: "count (mset (queued_cells s)) m + count (held s k e) m + count (held_rest s k e) m = 0"
    unfolding owned_split [OF assms(3), of s] using assms(2) by simp
  then have "m \<notin># mset (queued_cells s)" "m \<notin># held s k e" by (simp_all only: not_in_iff add_is_0)
  then show "m \<notin> set (k_send k e)" "m \<notin> set (queued_cells s)" by (auto simp: held_def)
qed

text \<open>
  A handler's post keeps the invariant of the socket thread, unless a client is still being
  sent bytes out of the cell that is taken.
\<close>

definition unread :: "dogstate \<Rightarrow> nat \<Rightarrow> bool" where
  "unread s m \<longleftrightarrow> (\<forall>d off. 0 < iCurSendLen (ClientInfo s d) \<longrightarrow> pSndData (ClientInfo s d) \<noteq> Some (m, off))"

lemma post_ok:
  assumes inv: "ear_inv s k" and free: "free_cells s = m # ms" and c: "c < CLIENTNUM"
    and tk: "takes (env_realloc env m) str (m_stream (cells s m))" "str \<noteq> []" and un: "unread s m"
  shows "\<exists>s'. post env c str s = Some (True, s') \<and> ear_inv s' k \<and> owned s' k = owned s k
    \<and> queued_cells s' = queued_cells s @ [m] \<and> cell_message s' m = (Some c, iSessionID (ClientInfo s c), Some str)
    \<and> ClientInfo s' = ClientInfo s \<and> (\<forall>e < CLIENTNUM. outbox s' k e = outbox s k e)"
proof -
  note i = ear_invD [OF inv]
  have "room_for 1 s" using i(6) free by (simp add: room_for_def owned_def)
  from post_some [OF i(4) free this tk(1)] obtain s' where s': "post env c str s = Some (True, s')" "rings_ok s'"
      "free_cells s' = ms" "queued_cells s' = queued_cells s @ [m]" "fifo_room (pFifoDogMsg s') = fifo_room (pFifoDogMsg s)"
      "cell_message s' m = (Some c, iSessionID (ClientInfo s c), Some str)" "\<And>j. j \<noteq> m \<Longrightarrow> cells s' j = cells s j"
      "same_rest s s'"
    by blast
  have r: "lk s' = lk s" "ClientInfo s' = ClientInfo s" using s'(8) by (simp_all add: same_rest_def)
  have o: "owned s' k = owned s k" by (simp add: owned_def held_def s'(3,4) free r)
  note once = owned_once [OF inv free]
  have "cells_ok s' k" using i(5-7) s'(2,5) post_free_room [OF s'(1)] unfolding cells_ok_def o by simp
  moreover have "texts_ok s' k"
    using i(8) s'(4,6,7) once c tk(2) unfolding texts_ok_def cell_message_def text_ok_def by (auto, metis+)
  moreover have "lists_ok s' k" using i(1-3) by (simp add: lists_ok_def r)
  moreover have "sends_ok s'"
    using i(9) un s'(7) unfolding sends_ok_def unread_def r by (metis (no_types, lifting))
  moreover have "in_wf s'" using in_wf_same_in(1) [OF post_keeps [OF s'(1)]] i(10) by simp
  ultimately have "ear_inv s' k" by (simp add: ear_inv_def)
  moreover have "outbox s' k e = outbox s k e" if e: "e < CLIENTNUM" for e
  proof -
    have "map (cell_text s') (k_send k e) = map (cell_text s) (k_send k e)"
      using once(1) [OF e] s'(7) by (intro map_cong) (auto simp: cell_text_def, metis)
    moreover have "current_bytes s' e = current_bytes s e"
    proof (cases "0 < iCurSendLen (ClientInfo s e)")
      case True
      then have "cells s' a = cells s a" if "pSndData (ClientInfo s e) = Some (a, b)" for a b
        using un s'(7) [of a] that by (auto simp: unread_def)
      then show ?thesis by (auto simp: current_bytes_def r split: option.split)
    qed (simp add: current_bytes_def r split: option.split)
    ultimately show ?thesis by (simp only: outbox_def)
  qed
  ultimately show ?thesis using s'(1,4,6) o r(2) by blast
qed

theorem posted_cells_are_routed_witness:
  "\<exists>s s'. queued_cells s = [0] \<and> POP_DOGMSG_2LISTTAIL s = Some s' \<and> queued_cells s' = []
    \<and> free_cells s' = [1, 2, 3, 4, 5, 6, 7] @ [0]"
proof -
  have f: "free_cells yard_in = 0 # [1, 2, 3, 4, 5, 6, 7]" "queued_cells yard_in = []"
    using yard_free yard_queue by (simp_all add: free_cells_def queued_cells_def yard_in_def)
  have u: "unread yard_in 0" by (simp add: unread_def) (simp add: yard_def blank_client_def)
  have t: "takes (env_realloc calm 0) ''hi'' (m_stream (cells yard_in 0))"
    by (simp add: yard_in_def) (simp add: yard_def fresh_takes)
  have "Suc 0 < CLIENTNUM" by (simp add: CLIENTNUM_def)
  from post_ok [OF yard_in_inv f(1) this t _ u] obtain s where s: "post calm (Suc 0) ''hi'' yard_in = Some (True, s)"
      "ear_inv s yard_kennel" "queued_cells s = [0]" "cell_message s 0 = (Some (Suc 0), 5, Some ''hi'')"
      "ClientInfo s = ClientInfo yard" "owned s yard_kennel = owned yard_in yard_kennel"
    using f(2) yard_sessions by auto
  have "unwanted s 0" using s(4,5) by (simp add: unwanted_def wanted_def cell_message_def) (simp add: yard_def blank_client_def)
  moreover have "free_cells s = [1, 2, 3, 4, 5, 6, 7]"
    using post_posted [OF _ _ t, of "[1, 2, 3, 4, 5, 6, 7]" "Suc 0"] s(1) yard_pool f(1) yard_free yard_queue
    by (auto simp: posted_def pool_ok_def rings_ok_def yard_in_def free_cells_def queued_cells_def)
  ultimately show ?thesis using posted_cells_are_routed [OF s(2)] s(3) by auto
qed

text \<open>
  C5. Over the turns of a connected client in the rounds, from any state the invariant admits
  (the client may be idle with messages in its list, or in the middle of one): as long as its
  socket takes at least one byte in a turn and receiving does not report the end of the
  connection, the bytes that wait for the client are sent, all of them, in the order in which the
  messages were routed to it, and to its socket; one turn per waiting byte is always enough.
\<close>

theorem outbox_is_sent:
  assumes "ear_inv s k" and "c < CLIENTNUM" and "lStatus (ClientInfo s c) \<noteq> STATUS_IOCLOSEED"
    and "lSocketStatus (ClientInfo s c) \<noteq> STATUS_SOCKET_CLOSED"
    and "\<And>i. net_recv (a i) c \<noteq> None" and "\<And>i. \<exists>room > 0. net_send (a i) c = Some room"
  shows "\<exists>s' k' bs. client_turns a rd c (length (outbox s k c)) s = Some s' \<and> ear_inv s' k' \<and> outbox s' k' c = []
     \<and> concat bs = outbox s k c \<and> effects s' = effects s @ send_effects (Socket (ClientInfo s c)) bs"
  using turns_drain [of s k c a] assms by (simp add: alive_def)

lemma post_joins:
  assumes inv: "ear_inv s k" and free: "free_cells s = m # ms" and q: "queued_cells s = []" and c: "c < CLIENTNUM"
    and tk: "takes (env_realloc env m) str (m_stream (cells s m))" "str \<noteq> []" and un: "unread s m"
    and con: "lSocketStatus (ClientInfo s c) = STATUS_SOCKET_CONNECT"
  shows "\<exists>s1 s2 k2. post env c str s = Some (True, s1) \<and> POP_DOGMSG_2LISTTAIL s1 = Some s2 \<and> ear_inv s2 k2
    \<and> outbox s2 k2 c = outbox s k c @ str \<and> (\<forall>e < CLIENTNUM. e \<noteq> c \<longrightarrow> outbox s2 k2 e = outbox s k e)
    \<and> ClientInfo s2 = ClientInfo s \<and> k_work k2 = k_work k \<and> k_send k2 c = k_send k c @ [m]"
proof -
  obtain s1 where s1: "post env c str s = Some (True, s1)" "ear_inv s1 k" "queued_cells s1 = [m]"
      "cell_message s1 m = (Some c, iSessionID (ClientInfo s c), Some str)" "ClientInfo s1 = ClientInfo s"
      "\<And>e. e < CLIENTNUM \<Longrightarrow> outbox s1 k e = outbox s k e"
    using post_ok [OF inv free c tk un] q by auto
  obtain s2 where s2: "POP_DOGMSG_2LISTTAIL s1 = Some s2" "ear_inv s2 (routed s1 k)" "same_but_cells s1 s2"
    using pop_routes [OF s1(2)] by blast
  have w: "wanted s1 e m \<longleftrightarrow> e = c" for e
    using s1(4,5) con by (auto simp: wanted_def cell_message_def)
  have "outbox s2 (routed s1 k) e = outbox s1 k e @ (if e = c then cell_text s1 m else [])" for e
  proof -
    have "outbox s2 (routed s1 k) e = outbox s1 (routed s1 k) e"
      using s2(3) by (intro outbox_cong) (simp_all add: same_but_cells_def)
    also have "\<dots> = outbox s1 k e @ (if e = c then cell_text s1 m else [])"
      by (simp add: outbox_def routed_def s1(3) w)
    finally show ?thesis .
  qed
  moreover have "cell_text s1 m = str" using s1(4) by (simp add: cell_message_def cell_text_def)
  moreover have "ClientInfo s2 = ClientInfo s" "k_work (routed s1 k) = k_work k" "k_send (routed s1 k) c = k_send k c @ [m]"
    using s2(3) s1(3,5) w by (simp_all add: same_but_cells_def routed_def)
  ultimately show ?thesis
    using s1(1,6) s2(1,2) c by (intro exI [of _ s1] exI [of _ s2] exI [of _ "routed s1 k"]) simp
qed

text \<open>
  What a handler posts for a connected client is appended by the next round to the bytes
  that wait for the client, and to nothing else.
\<close>

theorem posted_text_joins_outbox:
  assumes inv: "ear_inv s k" and free: "free_cells s = m # ms" and q: "queued_cells s = []" and c: "c < CLIENTNUM"
    and tk: "takes (env_realloc env m) str (m_stream (cells s m))" "str \<noteq> []" and un: "unread s m"
    and con: "lSocketStatus (ClientInfo s c) = STATUS_SOCKET_CONNECT"
  shows "\<exists>s1 s2 k2. post env c str s = Some (True, s1) \<and> POP_DOGMSG_2LISTTAIL s1 = Some s2 \<and> ear_inv s2 k2
    \<and> outbox s2 k2 c = outbox s k c @ str \<and> (\<forall>e < CLIENTNUM. e \<noteq> c \<longrightarrow> outbox s2 k2 e = outbox s k e)"
  using post_joins [OF assms] by blast

text \<open>
  C38. Releasing a client returns its cells but keeps the count and the position of the bytes
  it was being sent.  The next connection gets the same slot, so the bytes that the old client
  did not receive are the first ones sent to the new one, from a cell that is already free.
\<close>

theorem unsent_bytes_reach_the_next_client:
  assumes inv: "ear_inv s k" and c: "c \<in> set (k_work k)" and part: "0 < iCurSendLen (ClientInfo s c)"
    and cur: "pCurSendMsg (ClientInfo s c) = Some m"
    and acc: "net_accept a = Some (sd, ad, port)" "length ad = 4"
  shows "\<exists>s1 e' s2 k2. release_client c s = Some s1 \<and> accept_client a (e, s1) = Some (e', s2) \<and> ear_inv s2 k2
    \<and> Socket (ClientInfo s2 c) = sd \<and> iSessionID (ClientInfo s2 c) = next_session e + 1
    \<and> outbox s2 k2 c = current_bytes s c \<and> current_bytes s c \<noteq> [] \<and> m \<in> set (free_cells s2)"
proof -
  obtain h q where r: "release_client c s = Some (release_record c q h s)"
      "mset (fifo_content q) = mset (free_cells s) + held s k c"
      "ear_inv (release_record c q h s) (released c k)"
    using release_ok [OF inv c] by blast
  let ?s1 = "release_record c q h s"
  have fr: "k_free (released c k) = c # k_free k" by (simp add: released_def)
  obtain g h2 where t: "accept_client a (e, ?s1) = Some (e\<lparr>maxfd := sd, next_session := next_session e + 1\<rparr>,
      (upd_client c g ?s1)\<lparr>lk := h2\<rparr>)"
    "\<And>x. iCurSendLen (g x) = iCurSendLen x \<and> pSndData (g x) = pSndData x \<and> Socket (g x) = sd
      \<and> iSessionID (g x) = next_session e + 1"
    "ear_inv ((upd_client c g ?s1)\<lparr>lk := h2\<rparr>) ((released c k)\<lparr>k_work := c # k_work (released c k), k_free := k_free k\<rparr>)"
    using accept_run [OF r(3) acc fr] by blast
  let ?s2 = "(upd_client c g ?s1)\<lparr>lk := h2\<rparr>"
    and ?k2 = "(released c k)\<lparr>k_work := c # k_work (released c k), k_free := k_free k\<rparr>"
  have "outbox ?s2 ?k2 c = current_bytes s c"
    by (simp add: outbox_def released_def current_bytes_def t(2) split: option.split)
  moreover have "current_bytes s c \<noteq> []"
    using sends_okD(2) [OF ear_invD(9) [OF inv] part] part by (auto simp: current_bytes_def)
  moreover have "m \<in># mset (fifo_content q)" unfolding r(2) by (simp add: held_def cur)
  then have "m \<in> set (free_cells ?s2)" by (simp add: free_cells_def)
  ultimately show ?thesis using r(1) t by (intro exI [of _ ?s1] exI conjI) auto
qed

lemma yard_kennel_sel: "k_work yard_kennel = [1, 2]" "k_free yard_kennel = []" "k_send yard_kennel c = []"
  by (simp_all add: yard_kennel_def)

text \<open>The example state with client 1 connected on descriptor 9.\<close>

definition yard_on :: dogstate where
  "yard_on = upd_client 1 (\<lambda>x. x\<lparr>lSocketStatus := STATUS_SOCKET_CONNECT, Socket := 9\<rparr>) yard_in"

lemma yard_on_facts:
  "ear_inv yard_on yard_kennel" "free_cells yard_on = 0 # [1, 2, 3, 4, 5, 6, 7]" "queued_cells yard_on = []"
  "lSocketStatus (ClientInfo yard_on 1) = STATUS_SOCKET_CONNECT" "Socket (ClientInfo yard_on 1) = 9"
  "iCurSendLen (ClientInfo yard_on c) = 0" "unread yard_on m" "outbox yard_on yard_kennel c = []"
  "takes (env_realloc calm 0) ''hi'' (m_stream (cells yard_on 0))" "1 < CLIENTNUM"
proof -
  show "ear_inv yard_on yard_kennel" unfolding yard_on_def by (rule ear_inv_client [OF yard_in_inv]) simp
  show z: "iCurSendLen (ClientInfo yard_on c) = 0" for c by (simp add: yard_on_def) (simp add: yard_def blank_client_def)
  then show "unread yard_on m" by (simp add: unread_def)
  show "outbox yard_on yard_kennel c = []" using z [of c] by (simp add: outbox_def current_bytes_def yard_kennel_def split: option.split)
  show "free_cells yard_on = 0 # [1, 2, 3, 4, 5, 6, 7]" "queued_cells yard_on = []"
    using yard_free yard_queue by (simp_all add: free_cells_def queued_cells_def yard_on_def yard_in_def)
  show "takes (env_realloc calm 0) ''hi'' (m_stream (cells yard_on 0))"
    by (simp add: yard_on_def yard_in_def) (simp add: yard_def fresh_takes)
qed (simp_all add: yard_on_def CLIENTNUM_def)

theorem posted_text_joins_outbox_witness:
  "\<exists>s1 s2 k2. post calm 1 ''hi'' yard_on = Some (True, s1) \<and> POP_DOGMSG_2LISTTAIL s1 = Some s2
    \<and> ear_inv s2 k2 \<and> outbox s2 k2 1 = ''hi''"
  using posted_text_joins_outbox [OF yard_on_facts(1,2,3,10,9) _ yard_on_facts(7,4)]
  by (simp add: yard_on_facts(8) del: One_nat_def) blast

text \<open>Client 1 is being sent a message of two bytes.\<close>

lemma talking:
  obtains s k where "ear_inv s k" "1 \<in> set (k_work k)" "0 < iCurSendLen (ClientInfo s 1)" "pCurSendMsg (ClientInfo s 1) = Some 0"
    "outbox s k 1 = ''hi''" "current_bytes s 1 = ''hi''" "Socket (ClientInfo s 1) = 9"
proof -
  obtain s2 k2 where s2: "ear_inv s2 k2" "outbox s2 k2 1 = ''hi''" "ClientInfo s2 = ClientInfo yard_on"
      "k_work k2 = k_work yard_kennel" "k_send k2 1 = [0]"
    using post_joins [OF yard_on_facts(1,2,3,10,9) _ yard_on_facts(7,4)]
    by (auto simp add: yard_on_facts(8) yard_kennel_sel simp del: One_nat_def)
  have idle: "iCurSendLen (ClientInfo s2 1) = 0" by (simp only: s2(3) yard_on_facts(6))
  from next_ok [OF s2(1) yard_on_facts(10) s2(5) idle] obtain t :: string and h where
    n: "get_stream_ptr (m_stream (cells s2 0)) = Some t" "t \<noteq> []"
      "ear_inv (next_record 1 0 (length t) h s2) (k2\<lparr>k_send := (k_send k2)(1 := [])\<rparr>)"
    by blast
  let ?s = "next_record 1 0 (length t) h s2" and ?k = "k2\<lparr>k_send := (k_send k2)(1 := [])\<rparr>"
  have "current_bytes s2 1 = []" using idle by (simp add: current_bytes_def split: option.split)
  then have "t = ''hi''" using s2(2,5) n(1) by (simp add: outbox_def cell_text_def)
  then have "current_bytes ?s 1 = ''hi''" using text_bounds(2) [OF n(1)]
    by (simp add: current_bytes_def numeral_2_eq_2)
  moreover from this have "outbox ?s ?k 1 = ''hi''" by (simp add: outbox_def)
  moreover have "1 \<in> set (k_work ?k)" using s2(4) by (simp add: yard_kennel_def)
  moreover have "Socket (ClientInfo ?s 1) = 9" using yard_on_facts(5) s2(3) by simp
  ultimately show ?thesis using n(2,3) by (intro that [of ?s ?k]) simp_all
qed

theorem outbox_is_sent_witness:
  "\<exists>s s' bs. iCurSendLen (ClientInfo s 1) = 0 \<and> client_turns (\<lambda>_. busy_net) (\<lambda>_. {9}) 1 2 s = Some s'
     \<and> concat bs = ''hi'' \<and> effects s' = effects s @ send_effects 9 bs"
proof -
  obtain s2 k2 where s2: "ear_inv s2 k2" "outbox s2 k2 1 = ''hi''" "ClientInfo s2 = ClientInfo yard_on"
    using post_joins [OF yard_on_facts(1,2,3,10,9) _ yard_on_facts(7,4)]
    by (auto simp add: yard_on_facts(8) simp del: One_nat_def)
  have st: "lStatus (ClientInfo s2 1) \<noteq> STATUS_IOCLOSEED" "lSocketStatus (ClientInfo s2 1) \<noteq> STATUS_SOCKET_CLOSED"
    by (simp_all only: s2(3) yard_on_facts(4)) (simp_all add: yard_on_def yard_in_def yard_def blank_client_def)
  have net: "net_recv busy_net 1 \<noteq> None" "\<exists>room > 0. net_send busy_net 1 = Some room" by (simp_all add: busy_net_def)
  from outbox_is_sent [OF s2(1) yard_on_facts(10) st, of "\<lambda>_. busy_net" "\<lambda>_. {9}", OF net] obtain s' bs where
    "client_turns (\<lambda>_. busy_net) (\<lambda>_. {9}) 1 (length ''hi'') s2 = Some s'" "concat bs = ''hi''"
    "effects s' = effects s2 @ send_effects (Socket (ClientInfo s2 1)) bs"
    unfolding s2(2) by blast
  moreover have "iCurSendLen (ClientInfo s2 1) = 0" "Socket (ClientInfo s2 1) = 9" "length ''hi'' = 2"
    by (simp_all only: s2(3) yard_on_facts(5,6)) simp
  ultimately show ?thesis by metis
qed

theorem unsent_bytes_reach_the_next_client_witness:
  "\<exists>s s1 e s2 k2. release_client 1 s = Some s1 \<and> accept_client busy_net (\<lparr>SocketListen = 3, maxfd = 9, next_session = 6\<rparr>, s1) = Some (e, s2)
    \<and> Socket (ClientInfo s2 1) = 8 \<and> outbox s2 k2 1 = ''hi'' \<and> 0 \<in> set (free_cells s2)"
proof -
  obtain s k where s: "ear_inv s k" "1 \<in> set (k_work k)" "0 < iCurSendLen (ClientInfo s 1)"
    "pCurSendMsg (ClientInfo s 1) = Some 0" "current_bytes s 1 = ''hi''"
    using talking by metis
  have "net_accept busy_net = Some (8, [10, 0, 0, 1], 4000)" by (simp add: busy_net_def)
  from unsent_bytes_reach_the_next_client [OF s(1-4) this] show ?thesis unfolding s(5) by (simp del: One_nat_def) blast
qed

text \<open>
  C39. Accepting a connection sets the highest watched descriptor to the new one even when it
  is lower: while that is so no client with a higher descriptor is found readable, so nothing
  it sends is received.
\<close>

theorem accept_blinds_higher_descriptors:
  assumes inv: "ear_inv s k" and free: "k_free k \<noteq> []"
    and acc: "net_accept a = Some (sd, ad, port)" "length ad = 4"
    and d: "d \<in> set (k_work k)" "sd < Socket (ClientInfo s d)"
  shows "\<exists>e' s'. accept_client a (e, s) = Some (e', s') \<and> Socket (ClientInfo s' d) = Socket (ClientInfo s d)
    \<and> (\<forall>a' f. Socket (ClientInfo s' d) \<notin> readable a' e' f)
    \<and> (\<forall>a' f. serve_client a' (readable a' e' f) d s' = send_client a' d s')"
proof -
  obtain c fs where fr: "k_free k = c # fs" using free by (cases "k_free k") auto
  have "c \<noteq> d" using ear_invD(1) [OF inv] fr d(1) by (auto simp: clients_shape_def)
  moreover obtain g h where "accept_client a (e, s) = Some (e\<lparr>maxfd := sd, next_session := next_session e + 1\<rparr>,
      (upd_client c g s)\<lparr>lk := h\<rparr>)"
    using accept_run [OF inv acc fr] by blast
  ultimately show ?thesis using d(2) by (auto simp: readable_def serve_client_def)
qed

theorem accept_blinds_higher_descriptors_witness:
  "\<exists>s e' s'. accept_client busy_net (\<lparr>SocketListen = 3, maxfd = 9, next_session = 6\<rparr>, s) = Some (e', s')
    \<and> Socket (ClientInfo s' 1) = 9 \<and> (\<forall>a' f. serve_client a' (readable a' e' f) 1 s' = send_client a' 1 s')"
proof -
  have w: "2 \<in> set (k_work yard_kennel)" by (simp add: yard_kennel_sel)
  obtain h q where r: "ear_inv (release_record 2 q h yard_on) (released 2 yard_kennel)"
    using release_ok [OF yard_on_facts(1) w] by blast
  let ?s = "release_record 2 q h yard_on" and ?k = "released 2 yard_kennel"
  have f: "k_free ?k \<noteq> []" "1 \<in> set (k_work ?k)" by (simp_all add: released_def yard_kennel_sel)
  have s9: "Socket (ClientInfo ?s 1) = 9" using yard_on_facts(5) by simp
  have "net_accept busy_net = Some (8, [10, 0, 0, 1], 4000)" "length [10, 0, 0, 1 :: byte] = 4" by (simp_all add: busy_net_def)
  from accept_blinds_higher_descriptors [OF r f(1) this f(2)] show ?thesis unfolding s9 by (simp del: One_nat_def) blast
qed

end
