(* ===== verification/DogServer.thy ===== *)
theory DogServer
  imports DogRound Iks CLib
begin

text \<open>
  Starting the server, \<^verbatim>\<open>src/CuteDog/cdogEar.c\<close>: \<^verbatim>\<open>InitServer\<close> with the
  configuration file and the listening socket.
\<close>

section \<open>Configuration\<close>

text \<open>
  \<^verbatim>\<open>SERVER\<close>.  A \<open>strIP\<close> of \<open>None\<close> is a pointer that must not be read: NULL, or
  the address of text that was freed.  \<open>bpf\<close> holds the bytes of the array.
\<close>

record SERVER =
  sv_strIP :: "string option"
  sv_port :: u16
  sv_bpf :: string

text \<open>
  \<^verbatim>\<open>iks_load\<close> gives the document \<open>x\<close>, or NULL.  The address is a pointer into the
  document, which is deleted before the function returns.
\<close>

definition Load_Config :: "iks option \<Rightarrow> SERVER \<Rightarrow> (bool \<times> SERVER) option" where
  "Load_Config x server = do {
     _ \<leftarrow> iks_find x ''end'';
     case iks_child x of
       IksCData _ # _ \<Rightarrow> do {
         ip \<leftarrow> iks_find_cdata x ''ip'';
         p \<leftarrow> iks_find_cdata x ''port'';
         port \<leftarrow> p;
         n \<leftarrow> atoi port;
         b \<leftarrow> iks_find_cdata x ''bpf'';
         bpf \<leftarrow> b;
         Some (True, \<lparr>sv_strIP = None, sv_port = of_int n,
           sv_bpf = take 32 (bpf @ replicate 32 NUL)\<rparr>)
       }
     | _ \<Rightarrow> Some (False, server)
   }"

text \<open>The answers of the socket calls; \<open>inet_addr\<close> reads the text of the address.\<close>

record listen_env =
  le_socket :: "int option"
  le_setsockopt :: bool
  le_bind :: bool
  le_listen :: bool

datatype listen_result = Listening int | ListenError int | ProcessExit

definition CreateSocketListen ::
  "listen_env \<Rightarrow> string option \<Rightarrow> u16 \<Rightarrow> (listen_result \<times> effect list) option" where
  "CreateSocketListen env ip port = do {
     _ \<leftarrow> ip;
     case le_socket env of
       None \<Rightarrow> Some (ListenError (- 1), [])
     | Some fd \<Rightarrow>
         if \<not> le_setsockopt env then Some (ProcessExit, [])
         else if \<not> le_bind env then Some (ListenError (- 2), [CloseSocket fd])
         else if \<not> le_listen env then Some (ListenError (- 3), [CloseSocket fd])
         else Some (Listening fd, [])
   }"

section \<open>The initial state\<close>

text \<open>
  The allocations of \<^verbatim>\<open>InitServer\<close>: for each input cell and each message cell the
  addresses of the record and the block of its buffer.  The unchecked allocations, of the
  two arrays of cells and of the two rings, are taken to succeed; the slots of a new ring
  hold anything.
\<close>

record init_env =
  ie_in :: "nat \<Rightarrow> nat option \<times> nat option"
  ie_cell :: "nat \<Rightarrow> nat option \<times> nat option"
  ie_ring :: "nat list"
  ie_ring_free :: "nat list"

datatype init_error = E_MALLOC | E_CONFIG | E_LISTEN int | E_EXIT

fun init_in_cells :: "init_env \<Rightarrow> nat list \<Rightarrow> dogstate \<Rightarrow> (init_error + dogstate) option" where
  "init_in_cells env [] s = Some (Inr s)"
| "init_in_cells env (i # is) s = do {
     hs \<leftarrow> init_stream (fst (ie_in env i)) (snd (ie_in env i)) MSGINITSIZE;
     case hs of
       None \<Rightarrow> Some (Inl E_MALLOC)
     | Some hs \<Rightarrow> init_in_cells env is
         (s\<lparr>Cat2DogIOMsg := (Cat2DogIOMsg s)[i + 1 := Some i],
            in_cells := (in_cells s)(i := (in_cells s i)\<lparr>in_stream := hs\<rparr>)\<rparr>)
   }"

fun init_clients :: "nat list \<Rightarrow> dogstate \<Rightarrow> dogstate option" where
  "init_clients [] s = Some s"
| "init_clients (c # cs) s = do {
     h \<leftarrow> list_add (Cli c) FreeHd (lk s);
     init_clients cs (s\<lparr>lk := INIT_LIST_HEAD (SendHd c) h\<rparr>)
   }"

fun init_msg_cells :: "init_env \<Rightarrow> nat list \<Rightarrow> dogstate \<Rightarrow> (init_error + dogstate) option" where
  "init_msg_cells env [] s = Some (Inr s)"
| "init_msg_cells env (m # ms) s = do {
     hs \<leftarrow> init_stream (fst (ie_cell env m)) (snd (ie_cell env m)) MSGINITSIZE;
     case hs of
       None \<Rightarrow> Some (Inl E_MALLOC)
     | Some hs \<Rightarrow> init_msg_cells env ms (push_free m (upd_cell m (\<lambda>x. x\<lparr>m_stream := hs\<rparr>) s))
   }"

text \<open>The statements up to the reading of the configuration; \<open>s\<close> holds the globals at program start.\<close>

definition init_memory :: "init_env \<Rightarrow> dogstate \<Rightarrow> (init_error + dogstate) option" where
  "init_memory env s = do {
     r \<leftarrow> init_in_cells env [0..<CAT2DOGIOMSGNUM - 1] (s\<lparr>Cat2DogIOMsg := replicate CAT2DOGIOMSGNUM None\<rparr>);
     case r of
       Inl e \<Rightarrow> Some (Inl e)
     | Inr s \<Rightarrow> do {
         s \<leftarrow> init_clients [0..<CLIENTNUM] (s\<lparr>ClientInfo := (\<lambda>_. blank_client),
           lk := INIT_LIST_HEAD DogHd (INIT_LIST_HEAD WorkHd (INIT_LIST_HEAD FreeHd (lk s)))\<rparr>);
         q \<leftarrow> FifoNew (of_nat DOG2CATIOMSGNUM) (Some (ie_ring env));
         q' \<leftarrow> FifoNew (of_nat DOG2CATIOMSGNUM) (Some (ie_ring_free env));
         init_msg_cells env [0..<DOG2CATIOMSGNUM - 1] (s\<lparr>pFifoDogMsg := q, pFifoDogMsgFree := q'\<rparr>)
       }
   }"

definition InitServer ::
  "init_env \<Rightarrow> iks option \<Rightarrow> listen_env \<Rightarrow> SERVER \<Rightarrow> dogstate \<Rightarrow> (init_error + SERVER \<times> int \<times> dogstate) option" where
  "InitServer env doc le server s = do {
     r \<leftarrow> init_memory env s;
     case r of
       Inl e \<Rightarrow> Some (Inl e)
     | Inr s \<Rightarrow> do {
         (ok, server) \<leftarrow> Load_Config doc server;
         if \<not> ok then Some (Inl E_CONFIG)
         else do {
           (res, es) \<leftarrow> CreateSocketListen le (sv_strIP server) (sv_port server);
           case res of
             Listening fd \<Rightarrow> Some (Inr (server, fd, s))
           | ListenError n \<Rightarrow> Some (Inl (E_LISTEN n))
           | ProcessExit \<Rightarrow> Some (Inl E_EXIT)
         }
       }
   }"

section \<open>The initial state\<close>

text \<open>The allocations of the cells numbered by a list succeed.\<close>

definition all_given :: "nat list \<Rightarrow> (nat \<Rightarrow> nat option \<times> nat option) \<Rightarrow> bool" where
  "all_given is f \<longleftrightarrow> (\<forall>i \<in> set is. \<exists>a b. f i = (Some a, Some b))"

lemma init_in_cells_run:
  "all_given is (ie_in env) \<Longrightarrow> distinct is \<Longrightarrow> (\<forall>i \<in> set is. Suc i < length (Cat2DogIOMsg s)) \<Longrightarrow>
    \<exists>a b. init_in_cells env is s = Some (Inr (s\<lparr>Cat2DogIOMsg := a, in_cells := b\<rparr>))
      \<and> length a = length (Cat2DogIOMsg s)
      \<and> (\<forall>i \<in> set is. a ! Suc i = Some i \<and> in_cell_ok (b i))
      \<and> (\<forall>i. i \<notin> set is \<longrightarrow> b i = in_cells s i \<and> (Suc i < length (Cat2DogIOMsg s) \<longrightarrow> a ! Suc i = Cat2DogIOMsg s ! Suc i))"
proof (induction "is" arbitrary: s)
  case Nil
  show ?case by (intro exI [of _ "Cat2DogIOMsg s"] exI [of _ "in_cells s"]) simp
next
  case (Cons i "is")
  obtain x y where xy: "ie_in env i = (Some x, Some y)" using Cons.prems(1) unfolding all_given_def by force
  obtain hs where hs: "init_stream (Some x) (Some y) MSGINITSIZE = Some (Some hs)" by (simp add: init_stream_def)
  then have size: "stream_size hs = MSGINITSIZE" by (auto simp: init_stream_def)
  have wf: "stream_wf hs" "stream_slack hs" using init_stream_wf [OF hs] by (simp_all add: MSGINITSIZE_def)
  let ?s = "s\<lparr>Cat2DogIOMsg := (Cat2DogIOMsg s)[i + 1 := Some i],
      in_cells := (in_cells s)(i := (in_cells s i)\<lparr>in_stream := hs\<rparr>)\<rparr>"
  obtain a b where ab: "init_in_cells env is ?s = Some (Inr (?s\<lparr>Cat2DogIOMsg := a, in_cells := b\<rparr>))"
      "length a = length (Cat2DogIOMsg s)" "\<forall>j \<in> set is. a ! Suc j = Some j \<and> in_cell_ok (b j)"
      "\<forall>j. j \<notin> set is \<longrightarrow> b j = in_cells ?s j \<and> (Suc j < length (Cat2DogIOMsg s) \<longrightarrow> a ! Suc j = Cat2DogIOMsg ?s ! Suc j)"
    using Cons.IH [of ?s] Cons.prems by (auto simp: all_given_def)
  have "init_in_cells env (i # is) s = Some (Inr (s\<lparr>Cat2DogIOMsg := a, in_cells := b\<rparr>))"
    using xy hs ab(1) by simp
  moreover have "a ! Suc i = Some i \<and> in_cell_ok (b i)"
    using ab(4) Cons.prems size wf by (simp add: in_cell_ok_def)
  ultimately show ?case using ab(2-4) by (intro exI [of _ a] exI [of _ b]) auto
qed

lemma init_clients_run:
  "is_list (lk s) FreeHd (map Cli fs) \<Longrightarrow> distinct (cs @ fs) \<Longrightarrow>
     \<exists>h. init_clients cs s = Some (s\<lparr>lk := h\<rparr>) \<and> is_list h FreeHd (map Cli (rev cs @ fs))
       \<and> (\<forall>c \<in> set cs. is_list h (SendHd c) [])
       \<and> (\<forall>y. y \<notin> insert FreeHd (Cli ` set (cs @ fs) \<union> SendHd ` set cs) \<longrightarrow> nxt h y = nxt (lk s) y \<and> prv h y = prv (lk s) y)"
proof (induction cs arbitrary: s fs)
  case Nil
  then show ?case by (intro exI [of _ "lk s"]) simp
next
  case (Cons c cs)
  have "Cli c \<notin> set (FreeHd # map Cli fs)" using Cons.prems(2) by auto
  from list_add_is_list [OF Cons.prems(1) this] obtain h1 where
    h1: "list_add (Cli c) FreeHd (lk s) = Some h1" "is_list h1 FreeHd (map Cli (c # fs))"
    and f1: "\<And>y. y \<notin> set (Cli c # FreeHd # map Cli fs) \<Longrightarrow> nxt h1 y = nxt (lk s) y \<and> prv h1 y = prv (lk s) y"
    by auto
  let ?h2 = "INIT_LIST_HEAD (SendHd c) h1"
  have f2: "nxt ?h2 y = nxt h1 y \<and> prv ?h2 y = prv h1 y" if "y \<noteq> SendHd c" for y
    using that by (simp add: INIT_LIST_HEAD_def)
  have l2: "is_list (lk (s\<lparr>lk := ?h2\<rparr>)) FreeHd (map Cli (c # fs))"
    by simp (rule is_list_frame [OF h1(2), simplified], use f2 in auto)
  have d: "distinct (cs @ c # fs)" "c \<notin> set cs" using Cons.prems(2) by auto
  obtain h where h: "init_clients cs (s\<lparr>lk := ?h2\<rparr>) = Some (s\<lparr>lk := h\<rparr>)" "is_list h FreeHd (map Cli (rev cs @ c # fs))"
      "\<forall>d \<in> set cs. is_list h (SendHd d) []"
      "\<And>y. y \<notin> insert FreeHd (Cli ` set (cs @ c # fs) \<union> SendHd ` set cs) \<Longrightarrow> nxt h y = nxt ?h2 y \<and> prv h y = prv ?h2 y"
    using Cons.IH [OF l2 d(1)] by auto
  have "is_list h (SendHd c) []"
    by (rule is_list_frame [OF is_list_INIT [of "SendHd c" h1]]) (use h(4) d in auto)
  moreover have "nxt h y = nxt (lk s) y \<and> prv h y = prv (lk s) y"
    if "y \<notin> insert FreeHd (Cli ` set ((c # cs) @ fs) \<union> SendHd ` set (c # cs))" for y
    using that h(4) [of y] f2 [of y] f1 [of y] by auto
  ultimately show ?case using h(1-3) h1(1) by (intro exI [of _ h]) auto
qed

lemma init_msg_cells_run:
  "all_given ms (ie_cell env) \<Longrightarrow> rings_ok s \<Longrightarrow> length (free_cells s) + length ms \<le> fifo_room (pFifoDogMsgFree s) \<Longrightarrow>
    \<exists>b q. init_msg_cells env ms s = Some (Inr (s\<lparr>cells := b, pFifoDogMsgFree := q\<rparr>))
      \<and> fifo_wf q \<and> fifo_content q = free_cells s @ ms \<and> fifo_room q = fifo_room (pFifoDogMsgFree s)"
proof (induction ms arbitrary: s)
  case Nil
  then show ?case
    by (intro exI [of _ "cells s"] exI [of _ "pFifoDogMsgFree s"]) (simp add: rings_ok_def free_cells_def)
next
  case (Cons m ms)
  obtain x y where xy: "ie_cell env m = (Some x, Some y)" using Cons.prems(1) unfolding all_given_def by force
  obtain hs where hs: "init_stream (Some x) (Some y) MSGINITSIZE = Some (Some hs)" by (simp add: init_stream_def)
  let ?u = "upd_cell m (\<lambda>x. x\<lparr>m_stream := hs\<rparr>) s"
  have u: "rings_ok ?u" "free_cells ?u = free_cells s" "fifo_room (pFifoDogMsgFree ?u) = fifo_room (pFifoDogMsgFree s)"
    using Cons.prems(2) by (simp_all add: rings_ok_def free_cells_def)
  have "length (free_cells ?u) < fifo_room (pFifoDogMsgFree ?u)" using Cons.prems(3) u by simp
  note p = push_free_ok [OF u(1) this, of m]
  let ?t = "push_free m ?u"
  obtain b q where bq: "init_msg_cells env ms ?t = Some (Inr (?t\<lparr>cells := b, pFifoDogMsgFree := q\<rparr>))"
      "fifo_wf q" "fifo_content q = free_cells s @ m # ms" "fifo_room q = fifo_room (pFifoDogMsgFree s)"
    using Cons.IH [OF _ p(1)] Cons.prems(1,3) p(2,3) u by (auto simp: all_given_def)
  have "?t\<lparr>cells := b, pFifoDogMsgFree := q\<rparr> = s\<lparr>cells := b, pFifoDogMsgFree := q\<rparr>"
    by (cases s) (simp add: push_free_def upd_cell_def)
  then show ?case using xy hs bq by auto
qed

text \<open>The lists of the server after its start: all clients are free, the last one first.\<close>

definition kennel_init :: kennel where
  "kennel_init = \<lparr>k_dogs = [], k_hook = (\<lambda>_. []), k_work = [], k_free = rev [0..<CLIENTNUM], k_send = (\<lambda>_. [])\<rparr>"

definition program_start :: "dogstate \<Rightarrow> bool" where
  "program_start s \<longleftrightarrow> uiCliPutMsgIndex s = 0 \<and> uiIoGetMsgIndex s = 0 \<and> uiCliGetMsgIndex s = 1
     \<and> uiCliGetMsgNextIndex s = 2"

lemma init_lists:
  obtains h where "init_clients [0..<CLIENTNUM] (s\<lparr>lk := INIT_LIST_HEAD DogHd (INIT_LIST_HEAD WorkHd (INIT_LIST_HEAD FreeHd g))\<rparr>)
      = Some (s\<lparr>lk := h\<rparr>)"
    "dogs_shape h kennel_init" "hooks_shape h kennel_init" "clients_shape h kennel_init" "sends_shape h kennel_init"
proof -
  let ?g = "INIT_LIST_HEAD DogHd (INIT_LIST_HEAD WorkHd (INIT_LIST_HEAD FreeHd g))"
  have l: "is_list ?g FreeHd []" "is_list ?g WorkHd []" "is_list ?g DogHd []"
    by (simp_all add: INIT_LIST_HEAD_def is_list_def)
  obtain h where h: "init_clients [0..<CLIENTNUM] (s\<lparr>lk := ?g\<rparr>) = Some (s\<lparr>lk := h\<rparr>)"
      "is_list h FreeHd (map Cli (rev [0..<CLIENTNUM]))" "\<forall>c < CLIENTNUM. is_list h (SendHd c) []"
      "\<And>y. y \<notin> insert FreeHd (Cli ` {0..<CLIENTNUM} \<union> SendHd ` {0..<CLIENTNUM}) \<Longrightarrow> nxt h y = nxt ?g y \<and> prv h y = prv ?g y"
    using init_clients_run [of "s\<lparr>lk := ?g\<rparr>" "[]" "[0..<CLIENTNUM]"] l(1) by auto
  have "is_list h WorkHd []" "is_list h DogHd []"
    using l(2,3) h(4) [of WorkHd] h(4) [of DogHd] by (auto simp: is_list_def)
  with h(2,3) have "dogs_shape h kennel_init" "hooks_shape h kennel_init" "clients_shape h kennel_init" "sends_shape h kennel_init"
    by (simp_all add: dogs_shape_def hooks_shape_def clients_shape_def sends_shape_def kennel_init_def)
  with h(1) that show ?thesis by blast
qed

lemma new_ring:
  assumes "length xs = DOG2CATIOMSGNUM"
  obtains q where "FifoNew (of_nat DOG2CATIOMSGNUM) (Some xs) = Some q" "fifo_wf q" "fifo_content q = []"
    "fifo_room q = DOG2CATIOMSGNUM - 1"
proof -
  have n: "unat (of_nat DOG2CATIOMSGNUM :: u64) = DOG2CATIOMSGNUM" "DOG2CATIOMSGNUM < 2 ^ 31"
    by (simp_all add: DOG2CATIOMSGNUM_def)
  obtain q where q: "FifoNew (of_nat DOG2CATIOMSGNUM) (Some xs) = Some q"
    by (simp add: FifoNew_def DOG2CATIOMSGNUM_def)
  from FifoNew_wf [OF q] assms n q that show ?thesis by simp
qed

lemma init_in_wf:
  assumes "program_start s" "length (Cat2DogIOMsg s) = CAT2DOGIOMSGNUM"
    and "\<forall>i < CAT2DOGIOMSGNUM - 1. Cat2DogIOMsg s ! Suc i = Some i \<and> in_cell_ok (in_cells s i)"
    and "\<And>c. pCurCat2DogIOMsg (ClientInfo s c) = None"
  shows "in_wf s"
proof -
  have N: "CAT2DOGIOMSGNUM = Suc (CAT2DOGIOMSGNUM - 1)" "2 < CAT2DOGIOMSGNUM" by (simp_all add: CAT2DOGIOMSGNUM_def)
  have slot: "Cat2DogIOMsg s ! i = Some (i - 1) \<and> in_cell_ok (in_cells s (i - 1))" if i: "i < CAT2DOGIOMSGNUM" "i \<noteq> 0" for i
  proof -
    obtain j where "i = Suc j" using i(2) by (cases i) auto
    then show ?thesis using assms(3) i(1) by auto
  qed
  have "i = j" if "i < CAT2DOGIOMSGNUM" "j < CAT2DOGIOMSGNUM" "i \<noteq> 0" "j \<noteq> 0"
      "Cat2DogIOMsg s ! i = Cat2DogIOMsg s ! j" for i j
    using slot [OF that(1,3)] slot [OF that(2,4)] that(3-5) by auto
  then show ?thesis
    using assms(1,2,4) slot N(2) unfolding in_wf_def program_start_def by (auto simp: ring_count_def)
qed

lemma init_memory_ok:
  assumes start: "program_start s" and mem: "all_given [0..<CAT2DOGIOMSGNUM - 1] (ie_in env)"
      "all_given [0..<DOG2CATIOMSGNUM - 1] (ie_cell env)"
    and rings: "length (ie_ring env) = DOG2CATIOMSGNUM" "length (ie_ring_free env) = DOG2CATIOMSGNUM"
  shows "\<exists>s'. init_memory env s = Some (Inr s') \<and> shape s' kennel_init \<and> pool_ok s' \<and> ear_inv s' kennel_init
    \<and> free_cells s' = [0..<DOG2CATIOMSGNUM - 1] \<and> queued_cells s' = [] \<and> in_queue s' = []"
proof -
  let ?s0 = "s\<lparr>Cat2DogIOMsg := replicate CAT2DOGIOMSGNUM None\<rparr>"
  have "\<forall>i \<in> set [0..<CAT2DOGIOMSGNUM - 1]. Suc i < length (Cat2DogIOMsg ?s0)"
    by (auto simp: CAT2DOGIOMSGNUM_def)
  from init_in_cells_run [OF mem(1) distinct_upt this] obtain a b where 1: "init_in_cells env [0..<CAT2DOGIOMSGNUM - 1] ?s0 = Some (Inr (?s0\<lparr>Cat2DogIOMsg := a, in_cells := b\<rparr>))"
      "length a = CAT2DOGIOMSGNUM" "\<forall>i < CAT2DOGIOMSGNUM - 1. a ! Suc i = Some i \<and> in_cell_ok (b i)"
    by auto
  let ?s1 = "?s0\<lparr>Cat2DogIOMsg := a, in_cells := b, ClientInfo := (\<lambda>_. blank_client)\<rparr>"
  obtain h where 2: "init_clients [0..<CLIENTNUM] (?s1\<lparr>lk := INIT_LIST_HEAD DogHd (INIT_LIST_HEAD WorkHd (INIT_LIST_HEAD FreeHd (lk s)))\<rparr>)
      = Some (?s1\<lparr>lk := h\<rparr>)"
    "dogs_shape h kennel_init" "hooks_shape h kennel_init" "clients_shape h kennel_init" "sends_shape h kennel_init"
    using init_lists .
  obtain q q0 where 3: "FifoNew (of_nat DOG2CATIOMSGNUM) (Some (ie_ring env)) = Some q" "fifo_wf q" "fifo_content q = []"
    "fifo_room q = DOG2CATIOMSGNUM - 1" "FifoNew (of_nat DOG2CATIOMSGNUM) (Some (ie_ring_free env)) = Some q0" "fifo_wf q0"
    "fifo_content q0 = []" "fifo_room q0 = DOG2CATIOMSGNUM - 1"
    using new_ring [OF rings(1)] new_ring [OF rings(2)] by metis
  let ?s2 = "?s1\<lparr>lk := h, pFifoDogMsg := q, pFifoDogMsgFree := q0\<rparr>"
  obtain d q' where 4: "init_msg_cells env [0..<DOG2CATIOMSGNUM - 1] ?s2 = Some (Inr (?s2\<lparr>cells := d, pFifoDogMsgFree := q'\<rparr>))"
      "fifo_wf q'" "fifo_content q' = [0..<DOG2CATIOMSGNUM - 1]" "fifo_room q' = DOG2CATIOMSGNUM - 1"
    using init_msg_cells_run [OF mem(2), of ?s2] 3 by (auto simp: rings_ok_def free_cells_def)
  let ?s' = "?s2\<lparr>cells := d, pFifoDogMsgFree := q'\<rparr>"
  have run: "init_memory env s = Some (Inr ?s')"
    unfolding init_memory_def 1(1) using 2(1) 3(1,5) 4(1) by simp
  have f: "free_cells ?s' = [0..<DOG2CATIOMSGNUM - 1]" "queued_cells ?s' = []" "rings_ok ?s'"
    using 3 4 by (simp_all add: free_cells_def queued_cells_def rings_ok_def)
  have "held ?s' kennel_init c = {#}" for c by (simp add: held_def kennel_init_def blank_client_def)
  then have o: "owned ?s' kennel_init = mset [0..<DOG2CATIOMSGNUM - 1]" unfolding owned_def f by simp
  have "count (mset [0..<n]) m \<le> 1" for n m :: nat by (simp add: count_mset_set')
  then have "cells_ok ?s' kennel_init" using f(3) 3(4) 4(4) unfolding cells_ok_def o by simp
  moreover have "lists_ok ?s' kennel_init" using 2(4,5) by (auto simp: lists_ok_def) (auto simp: kennel_init_def)
  moreover have "texts_ok ?s' kennel_init" unfolding texts_ok_def f(2) by (simp add: kennel_init_def)
  moreover have "sends_ok ?s'" by (simp add: sends_ok_def blank_client_def)
  moreover have "in_wf ?s'"
    by (rule init_in_wf) (use start 1(2,3) in \<open>simp_all add: program_start_def blank_client_def\<close>)
  ultimately have "ear_inv ?s' kennel_init" by (simp add: ear_inv_def)
  moreover have "shape ?s' kennel_init" using 2(2-5) by (simp add: shape_def) (simp add: kennel_init_def)
  moreover have "pool_ok ?s'" using f(3) 3(4) unfolding pool_ok_def f(1,2) by simp
  moreover have "in_queue ?s' = []"
    using start by (simp add: in_queue_def in_pending_def ring_list_def ring_count_def program_start_def)
  ultimately show ?thesis using run f by blast
qed

lemma init_in_cells_fails:
  assumes hdr: "\<forall>i. fst (ie_in env i) \<noteq> None"
  shows "\<exists>i \<in> set is. snd (ie_in env i) = None \<Longrightarrow> init_in_cells env is s = Some (Inl E_MALLOC)"
proof (induction "is" arbitrary: s)
  case (Cons i "is")
  obtain x where x: "fst (ie_in env i) = Some x" using hdr by (meson not_None_eq)
  show ?case
  proof (cases "snd (ie_in env i)")
    case (Some y)
    then show ?thesis using x Cons by (simp add: init_stream_def)
  qed (simp add: x init_stream_def)
qed simp

lemma init_msg_cells_fails:
  assumes hdr: "\<forall>i. fst (ie_cell env i) \<noteq> None"
  shows "\<exists>i \<in> set is. snd (ie_cell env i) = None \<Longrightarrow> init_msg_cells env is s = Some (Inl E_MALLOC)"
proof (induction "is" arbitrary: s)
  case (Cons i "is")
  obtain x where x: "fst (ie_cell env i) = Some x" using hdr by (meson not_None_eq)
  show ?case
  proof (cases "snd (ie_cell env i)")
    case (Some y)
    then show ?thesis using x Cons by (simp add: init_stream_def)
  qed (simp add: x init_stream_def)
qed simp

text \<open>Up to the message cells the set-up succeeds when the input cells can be allocated.\<close>

lemma init_memory_out_of_cells:
  assumes "all_given [0..<CAT2DOGIOMSGNUM - 1] (ie_in env)"
    and rings: "length (ie_ring env) = DOG2CATIOMSGNUM" "length (ie_ring_free env) = DOG2CATIOMSGNUM"
    and fail: "\<And>t. init_msg_cells env [0..<DOG2CATIOMSGNUM - 1] t = Some (Inl E_MALLOC)"
  shows "init_memory env s = Some (Inl E_MALLOC)"
proof -
  let ?s0 = "s\<lparr>Cat2DogIOMsg := replicate CAT2DOGIOMSGNUM None\<rparr>"
  have "\<forall>i \<in> set [0..<CAT2DOGIOMSGNUM - 1]. Suc i < length (Cat2DogIOMsg ?s0)" by (auto simp: CAT2DOGIOMSGNUM_def)
  from init_in_cells_run [OF assms(1) distinct_upt this] obtain s1 where
    1: "init_in_cells env [0..<CAT2DOGIOMSGNUM - 1] ?s0 = Some (Inr s1)" by blast
  obtain s2 where 2: "init_clients [0..<CLIENTNUM] (s1\<lparr>ClientInfo := (\<lambda>_. blank_client),
      lk := INIT_LIST_HEAD DogHd (INIT_LIST_HEAD WorkHd (INIT_LIST_HEAD FreeHd (lk s1)))\<rparr>) = Some s2"
    using init_lists [where s = "s1\<lparr>ClientInfo := (\<lambda>_. blank_client)\<rparr>" and g = "lk s1"] by auto
  obtain q q0 where "FifoNew (of_nat DOG2CATIOMSGNUM) (Some (ie_ring env)) = Some q"
    "FifoNew (of_nat DOG2CATIOMSGNUM) (Some (ie_ring_free env)) = Some q0"
    using new_ring [OF rings(1)] new_ring [OF rings(2)] by metis
  then show ?thesis unfolding init_memory_def 1 using 2 fail by simp
qed

section \<open>Properties\<close>

text \<open>
  C27. The part of the start that sets up the memory ends with E_MALLOC as soon as the buffer of
  an input cell or of a message cell cannot be allocated.  When every allocation succeeds it
  establishes the shape of the lists with all clients free, the pool of 4095 free cells, and
  the invariants of the socket thread.
\<close>

theorem start_establishes_invariants:
  assumes "program_start s" and "\<forall>i. fst (ie_in env i) \<noteq> None \<and> fst (ie_cell env i) \<noteq> None"
    and "length (ie_ring env) = DOG2CATIOMSGNUM" "length (ie_ring_free env) = DOG2CATIOMSGNUM"
  shows "if (\<exists>i < CAT2DOGIOMSGNUM - 1. snd (ie_in env i) = None) \<or> (\<exists>m < DOG2CATIOMSGNUM - 1. snd (ie_cell env m) = None)
    then init_memory env s = Some (Inl E_MALLOC)
    else \<exists>s'. init_memory env s = Some (Inr s') \<and> shape s' kennel_init \<and> pool_ok s' \<and> ear_inv s' kennel_init
      \<and> free_cells s' = [0..<DOG2CATIOMSGNUM - 1] \<and> queued_cells s' = [] \<and> in_queue s' = []"
proof -
  have given: "all_given is f" if "\<forall>i. fst (f i) \<noteq> None" "\<forall>i \<in> set is. snd (f i) \<noteq> None" for "is" f
    unfolding all_given_def using that by (metis not_None_eq prod.collapse)
  have d: "snd (f i) \<noteq> None" if "all_given [0..<n] f" "i < n" for f n i
    using that by (force simp: all_given_def)
  let ?s0 = "s\<lparr>Cat2DogIOMsg := replicate CAT2DOGIOMSGNUM None\<rparr>"
  consider (input) "\<exists>i \<in> set [0..<CAT2DOGIOMSGNUM - 1]. snd (ie_in env i) = None"
    | (cell) "all_given [0..<CAT2DOGIOMSGNUM - 1] (ie_in env)" "\<exists>m \<in> set [0..<DOG2CATIOMSGNUM - 1]. snd (ie_cell env m) = None"
    | (ok) "all_given [0..<CAT2DOGIOMSGNUM - 1] (ie_in env)" "all_given [0..<DOG2CATIOMSGNUM - 1] (ie_cell env)"
    using given [of "ie_in env" "[0..<CAT2DOGIOMSGNUM - 1]"] given [of "ie_cell env" "[0..<DOG2CATIOMSGNUM - 1]"]
      assms(2) by metis
  then show ?thesis
  proof cases
    case input
    then have "init_memory env s = Some (Inl E_MALLOC)"
      using init_in_cells_fails [of env "[0..<CAT2DOGIOMSGNUM - 1]" ?s0] assms(2) by (simp add: init_memory_def)
    then show ?thesis using input by auto
  next
    case cell
    then have "init_memory env s = Some (Inl E_MALLOC)"
      using init_memory_out_of_cells [OF cell(1) assms(3,4)] init_msg_cells_fails [OF _ cell(2)] assms(2) by auto
    then show ?thesis using cell by auto
  next
    case ok
    then have "\<not> ((\<exists>i < CAT2DOGIOMSGNUM - 1. snd (ie_in env i) = None) \<or> (\<exists>m < DOG2CATIOMSGNUM - 1. snd (ie_cell env m) = None))"
      using d [OF ok(1)] d [OF ok(2)] by blast
    then show ?thesis using init_memory_ok [OF assms(1) ok assms(3,4)] by (simp only: if_False)
  qed
qed

definition plenty :: init_env where
  "plenty = \<lparr>ie_in = (\<lambda>_. (Some 0, Some 0)), ie_cell = (\<lambda>_. (Some 0, Some 0)),
     ie_ring = replicate DOG2CATIOMSGNUM 0, ie_ring_free = replicate DOG2CATIOMSGNUM 0\<rparr>"

lemma yard_start_indices: "program_start yard"
  by (simp add: program_start_def yard_def)

theorem start_establishes_invariants_witness:
  "\<exists>s'. init_memory plenty yard = Some (Inr s') \<and> ear_inv s' kennel_init \<and> length (free_cells s') = 4095"
  using start_establishes_invariants [OF yard_start_indices, of plenty]
  by (auto simp: plenty_def DOG2CATIOMSGNUM_def)

text \<open>
  Whenever the configuration is accepted, the start goes on to read the address in it
  through a pointer into the document that was deleted before; a refused configuration ends
  the start.
\<close>

theorem configured_address_is_freed:
  assumes "init_memory env s = Some (Inr t)" and "Load_Config doc server = Some (ok, server')"
  shows "InitServer env doc le server s = (if ok then None else Some (Inl E_CONFIG))"
proof -
  have "ok \<Longrightarrow> sv_strIP server' = None"
    using assms(2) by (auto simp: Load_Config_def split: Option.bind_splits list.splits iks.splits)
  then show ?thesis using assms by (simp add: InitServer_def CreateSocketListen_def)
qed

text \<open>\<^verbatim>\<open>cdog.xml\<close> in the form that is accepted: text before the first element.\<close>

definition cdog_xml :: iks where
  "cdog_xml = IksTag ''config'' [] [IksCData '' '', IksTag ''ip'' [] [IksCData ''10.0.0.1''],
     IksTag ''port'' [] [IksCData ''8000''], IksTag ''bpf'' [] [IksCData ''tcp'']]"

theorem configured_address_is_freed_witness:
  "InitServer plenty (Some cdog_xml) \<lparr>le_socket = Some 3, le_setsockopt = True, le_bind = True, le_listen = True\<rparr>
     \<lparr>sv_strIP = None, sv_port = 0, sv_bpf = []\<rparr> yard = None"
proof -
  have mem: "all_given is (ie_in plenty)" "all_given is (ie_cell plenty)" for "is" by (simp_all add: all_given_def plenty_def)
  have r: "length (ie_ring plenty) = DOG2CATIOMSGNUM" "length (ie_ring_free plenty) = DOG2CATIOMSGNUM"
    by (simp_all add: plenty_def)
  obtain t where t: "init_memory plenty yard = Some (Inr t)" using init_memory_ok [OF yard_start_indices mem r] by blast
  have "atoi ''8000'' = Some 8000" by code_simp
  then have "Load_Config (Some cdog_xml) \<lparr>sv_strIP = None, sv_port = 0, sv_bpf = []\<rparr>
      = Some (True, \<lparr>sv_strIP = None, sv_port = 8000, sv_bpf = take 32 (''tcp'' @ replicate 32 NUL)\<rparr>)"
    by (simp add: Load_Config_def cdog_xml_def iks_tag_simps iks_child_def iks_find_cdata_def IKS_TAG_CHILDREN_def)
  from configured_address_is_freed [OF t this] show ?thesis by simp
qed

end
