(* ===== verification/DogParse.thy ===== *)
theory DogParse
  imports DogServer StreamProps StreamKeep
begin

text \<open>
  The parser inside the server: \<^verbatim>\<open>IOProcessParser\<close> of \<^verbatim>\<open>src/CuteDog/cdogio.c\<close> with the
  stream parser of theory \<open>IksStream\<close> in the place of the parameter \<open>parse\<close> of theory
  \<open>DogIo\<close>, and what a client can make the server do over its connection.
\<close>

section \<open>The connected parser\<close>

text \<open>
  \<^verbatim>\<open>IOProcessCatMsg\<close> as the hook of a stream.  The world of a parser is the state of the
  server with the number of the calls so far; \<open>envs\<close> gives the answers of the environment to each
  call.  The callback returns 0, which is \<open>IKS_OK\<close>.
\<close>

definition cat_hook :: "(nat \<Rightarrow> environ) \<Rightarrow> nat \<Rightarrow> (nat \<times> dogstate) stream_hook" where
  "cat_hook envs c ev w = map_option (\<lambda>s. (IKS_OK, Suc (fst w), s)) (IOProcessCatMsg (envs (fst w)) c ev (snd w))"

type_synonym cat_parser = "iksparser \<times> (nat \<times> dogstate) stream_data"

text \<open>The state of the server is the world of the parser while it runs.\<close>

definition in_world :: "nat \<times> dogstate \<Rightarrow> cat_parser \<Rightarrow> cat_parser" where
  "in_world w x = (fst x, (snd x)\<lparr>world := w\<rparr>)"

text \<open>
  One input cell of client \<open>c\<close>; \<open>x\<close> is the client's parser and \<open>k\<close> the number of the next
  callback.  The result of the parser is printed and otherwise ignored.
\<close>

definition parse_cell ::
  "(nat \<Rightarrow> string option) \<Rightarrow> crypto \<Rightarrow> (nat \<Rightarrow> environ) \<Rightarrow> nat \<Rightarrow> cstream \<Rightarrow> cat_parser \<Rightarrow> nat \<times> dogstate
     \<Rightarrow> (cat_parser \<times> nat \<times> dogstate) option" where
  "parse_cell alloc cr envs c hs x w =
     (if \<not> Prs (ClientInfo (snd w) c) then Some (x, w)
      else do {
        pCatMsg \<leftarrow> get_stream_ptr hs;
        (y, e) \<leftarrow> iks_parse alloc (stream_hooks cr (cat_hook envs c)) (Some pCatMsg) 0 (in_world w x);
        Some (y, world (snd y))
      })"

lemma hook_run_events:
  "hook_run (cat_hook envs c) es (k, s)
    = map_option (\<lambda>s'. (IKS_OK, k + length es, s')) (run_events c (zip (map envs [k..<k + length es]) es) s)"
proof (induction es arbitrary: k s)
  case (Cons ev es)
  have u: "map envs [k..<k + length (ev # es)] = envs k # map envs [Suc k..<Suc k + length es]" by (subst upt_conv_Cons) simp_all
  have run1: "cat_hook envs c ev (k, s) = map_option (\<lambda>s. (IKS_OK, Suc k, s)) (IOProcessCatMsg (envs k) c ev s)"
    by (simp add: cat_hook_def)
  show ?case unfolding u
    using Cons.IH [of "Suc k"] by (cases "IOProcessCatMsg (envs k) c ev s") (simp_all add: run1 del: upt_Suc)
qed simp

lemma parse_text:
  assumes "no_nul t"
  shows "iks_parse alloc h (Some t) 0 x = feed alloc h [t] x"
proof -
  have "c_str t = t" using assms by (simp add: c_str_def no_nul_def takeWhile_eq_all_conv) metis
  then show ?thesis by (simp add: iks_parse_def read_at_def split: bind_splits)
qed

section \<open>Concrete cells\<close>

definition demo_cell :: "string \<Rightarrow> cstream" where
  "demo_cell t = \<lparr>stream_size = 1024, chunk_block = t @ [NUL], chunk_mem = True, chunk_base = 0, chunk_ptr = 0,
     chunk_read = 0, chunk_write = 0, syncword = 0, endword = 0\<rparr>"

lemma demo_cell_text: "no_nul t \<Longrightarrow> get_stream_ptr (demo_cell t) = Some t"
  by (simp add: get_stream_ptr_def demo_cell_def c_str_at_def c_str_terminated)

definition demo_server :: dogstate where
  "demo_server = upd_client 3 (\<lambda>x. x\<lparr>Prs := True\<rparr>) yard"

lemma demo_server_prs: "Prs (ClientInfo demo_server 3)"
  by (simp add: demo_server_def)

definition stream_start :: iksnode where
  "stream_start = IKS_NODE_START (IksTag ''stream:stream'' [(''to'', ''dog'')] [])"

lemma stream_start_ok: "event_ok stream_start"
  by (simp add: stream_start_def event_ok_def attrs_ok_def attr_name_ok_def tag_char_def is_whitespace_def ascii_def byte_of_def is_special_def)

lemma stream_start_text: "session_text [stream_start] = ''<stream:stream to='' @ CHR 0x27 # ''dog'' @ CHR 0x27 # ''>''"
  by (simp add: stream_start_def session_text_def event_text_def tag_text_def raw_attrs_def raw_attr_def)

section \<open>Properties\<close>

text \<open>
  C10. A client's session reaches the handlers: when the text of a session (after an optional processing
  instruction) arrives in any chunks that split no character, the calls of the client's parser
  for these chunks change the server's state exactly as the handlers called one after the other
  for the events of the session, and are undefined when one of the handlers is.
\<close>

theorem wire_session_runs_handlers:
  assumes "roomy alloc" and "clean_cut ss" and "concat ss = p @ t" and "prolog_ok p"
    and "\<forall>ev \<in> set es. event_ok ev" and "session_form es t"
  shows "case run_events c (zip (map envs [0..<length es]) es) s of
      None \<Rightarrow> feed alloc (stream_hooks cr (cat_hook envs c)) ss (iks_stream_new ns (0, s)) = None
    | Some s' \<Rightarrow> \<exists>prs d. feed alloc (stream_hooks cr (cat_hook envs c)) ss (iks_stream_new ns (0, s)) = Some ((prs, d), IKS_OK)
        \<and> world d = (length es, s')"
  using session_feed [OF assms ready_new [of ns "(0, s)"], where hook = "cat_hook envs c" and cr = cr]
    hook_run_events [of envs c es 0 s]
  by (cases "run_events c (zip (map envs [0..<length es]) es) s") (auto simp: iks_stream_new_def)

theorem wire_session_runs_handlers_witness:
  "\<exists>prs d s'. feed (\<lambda>n. give_block n) (stream_hooks no_crypto (cat_hook (\<lambda>i. calm) 3))
      [''<stream:str'', ''eam to='' @ CHR 0x27 # ''dog'' @ CHR 0x27 # ''>''] (iks_stream_new ''jabber:cat'' (0, yard)) = Some ((prs, d), IKS_OK)
    \<and> world d = (1, s') \<and> posted yard [0] (letters yard handshake [3]) s'"
proof -
  let ?ss = "[''<stream:str'', ''eam to='' @ CHR 0x27 # ''dog'' @ CHR 0x27 # ''>'']"
  have t: "cells_take calm handshake yard [0]" by (rule yard_takes) (simp_all add: handshake_def)
  have f: "free_cells yard = 0 # [1, 2, 3, 4, 5, 6, 7]" by (simp add: yard_free)
  have "takes (env_realloc calm 0) handshake (m_stream (cells yard 0))" using t by (simp add: cells_take_def)
  then obtain s' where s': "post calm 3 handshake yard = Some (True, s')" "posted yard [0] (letters yard handshake [3]) s'"
    using post_posted [OF yard_pool f] by blast
  have run: "run_events 3 (zip (map (\<lambda>i. calm) [0..<length [stream_start]]) [stream_start]) yard = Some s'"
    using s'(1) by (simp add: stream_start_def IOProcessCatMsg_def CatHandShake_def)
  have cut: "clean_cut ?ss" by (simp add: clean_cut_def cont_byte_def byte_of_def)
  have tx: "concat ?ss = [] @ session_text [stream_start]" by (simp add: stream_start_text)
  have p: "prolog_ok []" by (simp add: prolog_ok_def)
  have ev: "\<forall>ev \<in> set [stream_start]. event_ok ev" using stream_start_ok by simp
  from wire_session_runs_handlers [OF roomy_give cut tx p ev printed_session [OF ev], where envs = "\<lambda>i. calm" and c = 3 and s = yard and cr = no_crypto
      and ns = "''jabber:cat''"]
  obtain prs d where "feed (\<lambda>n. give_block n) (stream_hooks no_crypto (cat_hook (\<lambda>i. calm) 3)) ?ss
      (iks_stream_new ''jabber:cat'' (0, yard)) = Some ((prs, d), IKS_OK)" "world d = (length [stream_start], s')"
    unfolding run option.case by blast
  then show ?thesis using s'(2) by (simp del: feed.simps)
qed

lemma parse_cell_events:
  assumes "roomy alloc" and "ready x" and "get_stream_ptr hs = Some t" and "no_nul t" and "t = p @ q" and "session_form es q"
    and "prolog_ok p" and "\<forall>ev \<in> set es. event_ok ev" and "t = [] \<or> \<not> cont_byte (hd t)"
  shows "case IOProcessParser (\<lambda>_. zip (map envs [k..<k + length es]) es) c hs s of
      None \<Rightarrow> parse_cell alloc cr envs c hs x (k, s) = None
    | Some s' \<Rightarrow> \<exists>y j. parse_cell alloc cr envs c hs x (k, s) = Some (y, j, s') \<and> ready y"
proof (cases "Prs (ClientInfo s c)")
  case False
  then show ?thesis using assms(2) by (simp add: IOProcessParser_def parse_cell_def)
next
  case True
  have r: "ready (in_world (k, s) x)" using assms(2) by (simp add: ready_def in_world_def)
  have cut: "clean_cut [t]" using assms(9) by (simp add: clean_cut_def)
  have w: "world (snd (in_world (k, s) x)) = (k, s)" by (simp add: in_world_def)
  have pt: "iks_parse alloc h (Some (p @ q)) 0 y = feed alloc h [p @ q] y"
    for h :: "(nat \<times> dogstate) stream_data hooks" and y
    using parse_text [OF assms(4)] assms(5) by simp
  show ?thesis
    using session_feed [OF assms(1) cut _ assms(7,8,6) r, where hook = "cat_hook envs c" and cr = cr] True assms(3,5)
      hook_run_events [of envs c es k s]
    unfolding w
    by (cases "run_events c (zip (map envs [k..<k + length es]) es) s")
      (auto simp: IOProcessParser_def parse_cell_def pt simp del: feed.simps)
qed

lemma stop_facts:
  "get_stream_ptr (demo_cell ''</stream:stream>'') = Some ''</stream:stream>''" "no_nul ''</stream:stream>''"
  "''</stream:stream>'' = [] @ session_text [IKS_NODE_STOP]" "session_form [IKS_NODE_STOP] (session_text [IKS_NODE_STOP])"
  "prolog_ok []" "\<forall>ev \<in> set [IKS_NODE_STOP]. event_ok ev" "''</stream:stream>'' = [] \<or> \<not> cont_byte (hd ''</stream:stream>'')"
  "IOProcessParser (\<lambda>_. zip (map (\<lambda>i. calm) [0..<0 + length [IKS_NODE_STOP]]) [IKS_NODE_STOP]) 3 (demo_cell ''</stream:stream>'') demo_server
    = Some demo_server"
proof -
  show n: "no_nul ''</stream:stream>''" by (simp add: no_nul_def)
  show "get_stream_ptr (demo_cell ''</stream:stream>'') = Some ''</stream:stream>''" using n by (rule demo_cell_text)
  show "session_form [IKS_NODE_STOP] (session_text [IKS_NODE_STOP])" by (rule printed_session) (simp add: event_ok_def)
  show "IOProcessParser (\<lambda>_. zip (map (\<lambda>i. calm) [0..<0 + length [IKS_NODE_STOP]]) [IKS_NODE_STOP]) 3 (demo_cell ''</stream:stream>'') demo_server
      = Some demo_server"
    by (simp add: IOProcessParser_def demo_server_prs demo_cell_text IOProcessCatMsg_def)
qed (simp_all add: session_text_def event_text_def prolog_ok_def event_ok_def cont_byte_def byte_of_def)

text \<open>
  C22. The cell that holds whole events is handled by the connected parser as theory \<open>DogIo\<close> says for
  a parser that makes the calls for these events, and afterwards the parser is ready for the
  next cell.
\<close>

theorem parse_cell_refines:
  assumes "roomy alloc" and "ready x" and "get_stream_ptr hs = Some t" and "no_nul t" and "t = p @ q" and "session_form es q"
    and "prolog_ok p" and "\<forall>ev \<in> set es. event_ok ev" and "t = [] \<or> \<not> cont_byte (hd t)"
  shows "case IOProcessParser (\<lambda>_. zip (map envs [k..<k + length es]) es) c hs s of
      None \<Rightarrow> parse_cell alloc cr envs c hs x (k, s) = None
    | Some s' \<Rightarrow> \<exists>y j. parse_cell alloc cr envs c hs x (k, s) = Some (y, j, s') \<and> ready y"
  by (rule parse_cell_events [OF assms])

theorem parse_cell_refines_witness:
  "\<exists>y j. parse_cell (\<lambda>n. give_block n) no_crypto (\<lambda>i. calm) 3 (demo_cell ''</stream:stream>'') (iks_stream_new ''jabber:cat'' (0, demo_server))
      (0, demo_server) = Some (y, j, demo_server) \<and> ready y"
  using parse_cell_refines [OF roomy_give ready_new [of "''jabber:cat''" "(0, demo_server)"] stop_facts(1-7),
      where c = 3 and s = demo_server and k = 0 and envs = "\<lambda>i. calm" and cr = no_crypto]
  unfolding stop_facts(8) option.case by blast

lemma stop_cell:
  "\<exists>y j. parse_cell (\<lambda>n. give_block n) no_crypto (\<lambda>i. calm) 3 (demo_cell ''</stream:stream>'') (iks_stream_new ''jabber:cat'' (0, demo_server))
      (0, demo_server) = Some (y, j, demo_server) \<and> ready y"
  using parse_cell_events [OF roomy_give ready_new [of "''jabber:cat''" "(0, demo_server)"] stop_facts(1-7),
      where c = 3 and s = demo_server and k = 0 and envs = "\<lambda>i. calm" and cr = no_crypto]
  unfolding stop_facts(8) option.case by blast

text \<open>After any input the handlers have kept what belongs to the socket thread.\<close>

interpretation server: hook_keeps "stream_hooks cr (cat_hook envs c)" "\<lambda>d. trans d = None \<and> same_in s (snd (world d))"
  for cr envs c s
  by (rule stream_keeps) (auto simp: cat_hook_def split: bind_splits dest!: IOProcessCatMsg_keeps intro: same_in_trans)



text \<open>
  C34. Any client can bring the server down with one stanza: when its cell holds a \<^verbatim>\<open>challenge\<close> whose
  text decodes to a string with \<^verbatim>\<open>rspauth\<close>, handling the cell is undefined in every state of
  the server, before any handler is called.
\<close>

theorem challenge_stops_server:
  assumes "roomy alloc" and "ready x" and "trans (snd x) = None" and "Prs (ClientInfo st c)"
    and "get_stream_ptr hs = Some (node_text (IksTag ''challenge'' [] [IksCData s]))"
    and "s \<noteq> []" and "utext (\<lambda>_. True) s" and "iks_base64_decode True (Some s) = Some (Some bytes)"
    and "strstr_at 0 (c_str (map (\<lambda>b. char_of (unat b)) bytes)) ''rspauth'' \<noteq> None"
  shows "parse_cell alloc cr envs c hs x (k, st) = None"
proof -
  let ?t = "node_text (IksTag ''challenge'' [] [IksCData s])"
  have r: "ready (in_world (k, st) x)" "trans (snd (in_world (k, st) x)) = None"
    using assms(2,3) by (simp_all add: ready_def in_world_def)
  have cut: "clean_cut [?t]" by (simp add: clean_cut_def cont_byte_def byte_of_def)
  have "no_nul (escaped s)"
    using uscan_no_nul [OF assms(7)] by (induction s) (auto simp: escape_char.simps)
  then have "no_nul ?t" by simp
  then have "iks_parse alloc (stream_hooks cr (cat_hook envs c)) (Some ?t) 0 (in_world (k, st) x) = None"
    using challenge_feed [OF assms(1) cut _ assms(6-9) r, where cr = cr and hook = "cat_hook envs c"]
    by (simp add: parse_text del: feed.simps node_text.simps)
  then show ?thesis using assms(4,5) by (simp add: parse_cell_def del: node_text.simps)
qed

theorem challenge_stops_server_witness:
  "parse_cell (\<lambda>n. give_block n) no_crypto (\<lambda>i. calm) 3 (demo_cell ''<challenge>cnNwYXV0aA==</challenge>'')
     (iks_stream_new ''jabber:cat'' (0, demo_server)) (0, demo_server) = None"
proof (rule challenge_stops_server [OF roomy_give ready_new _ demo_server_prs, where s = "''cnNwYXV0aA==''" and bytes = "map of_char ''rspauth'' @ [0, 0, 0]"])
  show "get_stream_ptr (demo_cell ''<challenge>cnNwYXV0aA==</challenge>'') = Some (node_text (IksTag ''challenge'' [] [IksCData ''cnNwYXV0aA==''])) "
    by (simp add: demo_cell_text escape_char.simps)
  show "utext (\<lambda>_. True) ''cnNwYXV0aA==''" by (simp add: byte_of_def)
  show "iks_base64_decode True (Some ''cnNwYXV0aA=='') = Some (Some (map of_char ''rspauth'' @ [0, 0, 0]))" by code_simp
  show "strstr_at 0 (c_str (map (\<lambda>b. char_of (unat b)) (map of_char ''rspauth'' @ [0, 0, 0] :: byte list))) ''rspauth'' \<noteq> None" by code_simp
qed (simp_all add: iks_stream_new_def)

text \<open>
  The server ignores the errors of its parser: a cell with an ampersand and 8 more characters
  is refused by the parser, and the next cell of the client makes it write past the array of
  the entity, whatever ASCII text the cell holds.
\<close>

theorem long_entity_stops_server:
  assumes "Prs (ClientInfo st c)" and "get_stream_ptr hs = Some (CHR ''&'' # e)" and "length e = 8"
    and "\<forall>a \<in> set e. ascii a \<and> a \<noteq> CHR '';''" and "get_stream_ptr hs' = Some (a # t)" and "ascii a" and "no_nul t"
    and "x = iks_stream_new ns w"
  shows "\<exists>y. parse_cell alloc cr envs c hs x (k, st) = Some (y, k, st) \<and> parse_cell alloc cr envs c hs' y (k, st) = None"
proof -
  let ?h = "stream_hooks cr (cat_hook envs c)" and ?buf = "CHR ''&'' # e"
  have n: "no_nul ?buf" "no_nul (a # t)" using assms(4,6,7) by (auto simp: no_nul_def ascii_def)
  have p: "iks_parse alloc ?h (Some u) 0 z = iks_parse alloc ?h (Some u) (length u) z" if "no_nul u" for u z
    using parse_text [OF that, of alloc ?h z] by (auto split: bind_splits)
  obtain d where x: "in_world (k, st) x = (iks_sax_extend, d)" "world d = (k, st)"
    using assms(8) by (simp add: in_world_def iks_stream_new_def)
  obtain y where y: "iks_parse alloc ?h (Some ?buf) 9 (iks_sax_extend, d) = Some (y, IKS_BADXML)"
      "iks_parse alloc ?h (Some (a # t)) (length (a # t)) y = None" "snd y = d"
    using entity_overrun [OF assms(3,4,6), of alloc ?h d t] by blast
  have "in_world (k, st) y = y" using y(3) x(2) by (cases y) (simp add: in_world_def)
  then have "parse_cell alloc cr envs c hs' y (k, st) = None"
    using assms(1,5) y(2) p [OF n(2)] by (simp add: parse_cell_def)
  moreover have "parse_cell alloc cr envs c hs x (k, st) = Some (y, k, st)"
    using assms(1-3) y(1,3) x p [OF n(1)] by (simp add: parse_cell_def)
  ultimately show ?thesis by blast
qed

theorem long_entity_stops_server_witness:
  "\<exists>y. parse_cell (\<lambda>n. give_block n) no_crypto (\<lambda>i. calm) 3 (demo_cell ''&12345678'') (iks_stream_new ''jabber:cat'' (0, demo_server)) (0, demo_server)
      = Some (y, 0, demo_server)
    \<and> parse_cell (\<lambda>n. give_block n) no_crypto (\<lambda>i. calm) 3 (demo_cell ''<a/>'') y (0, demo_server) = None"
  by (rule long_entity_stops_server [OF demo_server_prs, where e = "''12345678''" and a = "CHR ''<''" and t = "''a/>''"])
    (simp_all add: demo_cell_text ascii_def byte_of_def)

end
