(* ===== verification/WireText.thy ===== *)
theory WireText
  imports StreamProps CLib
begin

text \<open>
  The values the programs print into their stanzas: base64 text and decimal numbers need no escaping, and
  \<^verbatim>\<open>atoi\<close> reads a printed number back.
\<close>

definition plain :: "string \<Rightarrow> bool" where
  "plain s \<longleftrightarrow> utext (\<lambda>c. \<not> is_special c) s"

lemma plain_ascii: "\<forall>c \<in> set s. ascii c \<and> \<not> is_special c \<Longrightarrow> plain s"
  by (simp add: plain_def utext_ascii)

lemma plain_escaped: "plain s \<Longrightarrow> escaped s = s"
  using uscan_no_special escaped_plain_text by (simp add: plain_def)

lemma plain_utext: "plain s \<Longrightarrow> utext (\<lambda>_. True) s"
  unfolding plain_def by (rule uscan_mono) simp_all

lemma plain_no_nul: "plain s \<Longrightarrow> no_nul s"
  unfolding plain_def by (rule uscan_no_nul)

section \<open>Base64\<close>

lemma charset_plain: "\<forall>c \<in> set base64_charset. ascii c \<and> \<not> is_special c"
  by code_simp

lemma encode_spec_plain: "plain (encode_spec bs)"
proof (rule plain_ascii)
  have c: "ascii (sextet_char (sextets a b c ! i)) \<and> \<not> is_special (sextet_char (sextets a b c ! i))" if "i < 4" for a b c i
  proof -
    have "unat (sextets a b c ! i) < length base64_charset"
      using that sextets_less [of "sextets a b c ! i" a b c] by (simp add: length_sextets base64_charset_def)
    then show ?thesis using charset_plain by (simp add: sextet_char_def)
  qed
  have e: "ascii CHR ''='' \<and> \<not> is_special CHR ''=''" by (simp add: ascii_def byte_of_def is_special_def)
  show "\<forall>c \<in> set (encode_spec bs). ascii c \<and> \<not> is_special c"
    by (induction bs rule: encode_spec.induct) (simp_all only: encode_spec_groups, simp_all add: c e)
qed

section \<open>Numbers\<close>

lemma digit_char_plain: "n < 10 \<Longrightarrow> is_digit (digit_char n) \<and> (of_char (digit_char n) :: nat) = 48 + n"
  by (simp add: digit_char_def is_digit_def)

lemma digit_plain: "is_digit c \<Longrightarrow> ascii c \<and> \<not> is_special c"
proof -
  assume d: "is_digit c"
  define n where "n = (of_char c :: nat) - 48"
  have n: "n < 10" "c = char_of (48 + n)"
    using d unfolding n_def is_digit_def by (linarith, simp)
  then have "n \<in> {0, 1, 2, 3, 4, 5, 6, 7, 8, 9}" by auto
  then show ?thesis using n(2)
    by (auto simp: ascii_def byte_of_def is_special_def char_of_def)
qed

lemma show_base_digits: "\<forall>c \<in> set (show_base 10 n). is_digit c"
proof (induction n rule: less_induct)
  case (less n)
  show ?case
    using less [of "n div 10"] by (subst show_base.simps) (auto simp: digit_char_plain)
qed

lemma show_base_value: "foldl (\<lambda>m c. 10 * m + (of_char c - 48)) 0 (show_base 10 n) = (n :: nat)"
proof (induction n rule: less_induct)
  case (less n)
  show ?case
  proof (cases "n < 10")
    case True
    then show ?thesis by (subst show_base.simps) (simp add: digit_char_plain)
  next
    case False
    then show ?thesis using less [of "n div 10"]
      by (subst show_base.simps) (simp add: digit_char_plain)
  qed
qed

lemma atoi_unsigned:
  assumes "\<not> is_space c" and "c \<noteq> CHR ''-''" and "c \<noteq> CHR ''+''"
  shows "atoi (c # s) = (if digits_val (c # s) < 2 ^ 31 then Some (digits_val (c # s)) else None)"
proof -
  have "- (2 ^ 31) \<le> digits_val (c # s)" by (simp add: digits_val_def)
  moreover have "(case c # s of CHR ''-'' # r \<Rightarrow> - digits_val r | CHR ''+'' # r \<Rightarrow> digits_val r | _ \<Rightarrow> digits_val (c # s)) = digits_val (c # s)"
    using assms(2,3) by (cases c) (auto split: bool.splits)
  ultimately show ?thesis using assms(1) unfolding atoi_def Let_def dropWhile.simps by (simp only: if_False) simp
qed

lemma atoi_show_base:
  assumes "n < 2 ^ 31"
  shows "atoi (show_base 10 n) = Some (int n)"
proof -
  obtain c s where cs: "show_base 10 n = c # s" using show_base_not_Nil by (cases "show_base 10 n") auto
  then have d: "is_digit c" using show_base_digits [of n] by simp
  then have "\<not> is_space c" "c \<noteq> CHR ''-''" "c \<noteq> CHR ''+''" by (auto simp: is_digit_def is_space_def)
  moreover have "digits_val (show_base 10 n) = int n"
    using show_base_digits [of n] by (simp add: digits_val_def show_base_value takeWhile_eq_all_conv [THEN iffD2])
  ultimately show ?thesis
    using assms unfolding cs by (simp add: atoi_unsigned)
qed

end
