(* ===== verification/CatDog.thy ===== *)
theory CatDog
  imports CatEar DogParse WireText
begin

text \<open>
  The client and the server together: each side's printed requests and answers are texts of the stanzas the
  other side's handlers expect, so a login runs through both parsers, and a captured payload
  arrives in the client's list of messages byte for byte.
\<close>

section \<open>What the client reads\<close>

lemma client_reads:
  assumes "roomy (l_alloc lib)" and "ready x" and "no_nul t" and "t \<noteq> []" and "\<not> cont_byte (hd t)"
    and "session_form es t" and "\<forall>ev \<in> set es. event_ok ev" and "iks_strcasecmp (Some t) (Some CLOSE_STREAM) \<noteq> 0"
    and "hook_run (dog_hook (l_envs lib)) es (world (snd x)) = Some (IKS_OK, w)"
  shows "\<exists>y. cat_IOProcessParser lib (t @ [NUL]) (length t) x = Some y \<and> world (snd y) = w \<and> ready y"
proof -
  have cut: "clean_cut [t]" using assms(5) by (simp add: clean_cut_def)
  have cs: "c_str (t @ [NUL]) = t" using c_str_terminated [OF assms(3), of "[]"] by simp
  have par: "iks_parse (l_alloc lib) h (Some (t @ [NUL])) 0 z = feed (l_alloc lib) h [t] z"
    for h :: "(nat \<times> client) stream_data hooks" and z
    using cs by (simp add: iks_parse_def read_at_def split: bind_splits)
  obtain y where y: "feed (l_alloc lib) (dog_hooks lib) [t] x = Some (y, IKS_OK)" "world (snd y) = w" "ready y"
    using session_feed [OF assms(1) cut _ _ assms(7,6,2), where p = "[]" and hook = "dog_hook (l_envs lib)" and cr = "l_crypto lib"]
      assms(9) by (auto simp: prolog_ok_def)
  then show ?thesis using assms(4,8) by (simp add: cat_IOProcessParser_def cs par del: feed.simps)
qed

lemma dog_hook_one:
  "IOProcessDogMsg (envs k) ev s = Some s' \<Longrightarrow> hook_run (dog_hook envs) [ev] (k, s) = Some (IKS_OK, Suc k, s')"
  by (simp add: dog_hook_def)

section \<open>The texts of a login\<close>

abbreviation etherx :: string where "etherx \<equiv> ''http://etherx.jabber.org/streams''"

definition cat_start :: iksnode where
  "cat_start = IKS_NODE_START (IksTag ''stream:stream'' [(''to'', ''dog''), (''xmlns'', ''jabber:cat''), (''xmlns:stream'', etherx)] [])"

definition dog_start :: iksnode where
  "dog_start = IKS_NODE_START (IksTag ''stream:stream'' [(''from'', ''dog''), (''xmlns'', ''jabber:cat''), (''xmlns:stream'', etherx), (''id'', ''00'')] [])"

definition auth_answer :: "string \<Rightarrow> iks" where
  "auth_answer e = IksTag ''iq'' [(''type'', ''result'')] [IksTag ''query'' [(''xmlns'', ''jabber:iq:auth'')] [IksTag ''error'' [(''id'', e)] []]]"

definition login_stanza :: "string \<Rightarrow> iks" where
  "login_stanza n = IksTag ''iq'' [(''type'', ''set'')] (login_query n)"

lemmas ok_defs = event_ok_def name_ok_def tag_name_ok_def attrs_ok_def attr_name_ok_def tag_char_def is_whitespace_def
  ascii_def byte_of_def is_special_def

lemma start_ok: "event_ok cat_start" "event_ok dog_start"
  by (simp_all add: cat_start_def dog_start_def ok_defs)

lemma auth_answer_ok: "e \<in> {''OK'', ''400''} \<Longrightarrow> event_ok (IKS_NODE_NORMAL (auth_answer e))"
  by (auto simp: auth_answer_def ok_defs)

lemma login_ok_event: "plain n \<Longrightarrow> n \<noteq> [] \<Longrightarrow> event_ok (IKS_NODE_NORMAL (login_stanza n))"
  using plain_utext [of n] by (simp add: login_stanza_def login_query_def ok_defs)

lemma cat_start_form: "HANDSHAKE_STREAM = (''<?xml version='' @ in_quotes ''1.0'' @ '' encoding='' @ in_quotes ''UTF-8'' @ ''?>'') @ event_text cat_start"
  by (simp add: HANDSHAKE_STREAM_def cat_start_def event_text_def tag_text_def raw_attrs_def raw_attr_def)

lemma dog_start_text: "handshake = event_text dog_start"
  by (simp add: handshake_def dog_start_def event_text_def tag_text_def raw_attrs_def raw_attr_def)

lemma auth_answer_text: "login_ok = event_text (IKS_NODE_NORMAL (auth_answer ''OK''))" "login_taken = event_text (IKS_NODE_NORMAL (auth_answer ''400''))"
  by (simp_all add: login_ok_def login_taken_def auth_answer_def event_text_def escape_char.simps)

lemma login_form:
  assumes "plain n"
  shows "node_form (login_stanza n) (LOGIN_STREAM n)"
proof -
  have "node_form (IksCData n) n" using cdata_form [of n] by (simp add: plain_escaped [OF assms])
  then have "nodes_form [IksCData n] n" using more_form [OF _ no_form, of "IksCData n" n] by simp
  from open_form [OF _ this, of 0 "[]" "''username''"]
  have "nodes_form [IksTag ''username'' [] [IksCData n]] (spaced_tag ''username'' [] 0 IKS_OPEN @ n @ ''</'' @ ''username'' @ ''>'')"
    using more_form [OF _ no_form] by fastforce
  from open_form [OF _ this, of 0 "[(''xmlns'', ''jabber:iq:auth'')]" "''query''"]
  have "nodes_form (login_query n) (spaced_tag ''query'' [(''xmlns'', ''jabber:iq:auth'')] 0 IKS_OPEN
      @ (spaced_tag ''username'' [] 0 IKS_OPEN @ n @ ''</'' @ ''username'' @ ''>'') @ ''</'' @ ''query'' @ ''>'')"
    using more_form [OF _ no_form] by (fastforce simp: login_query_def)
  from open_form [OF _ this, of 1 "[(''type'', ''set'')]" "''iq''"]
  show ?thesis by (simp add: login_stanza_def LOGIN_STREAM_def spaced_tag_def raw_attrs_def raw_attr_def)
qed


section \<open>The handlers of a login\<close>

text \<open>What the client has to send.\<close>

definition queued :: "cat \<Rightarrow> string \<Rightarrow> bool" where
  "queued c t \<longleftrightarrow> read_at 0 (length t) (VMSendBuf c) = Some t \<and> cat_SendLen c = int (length t)"

lemma push_queued: "length t \<le> CatState.MSGINITSIZE \<Longrightarrow> queued (fst (push t s)) t"
  by (simp add: queued_def push_def PushSendStream_def read_at_def)

lemma length_login: "length (LOGIN_STREAM n) = 80 + length n"
  by (simp add: LOGIN_STREAM_def)

lemma client_starts:
  assumes "length (m_Name (snd s)) < 32"
  shows "\<exists>s'. IOProcessDogMsg env dog_start s = Some s' \<and> snd s' = snd s \<and> Status (fst s') = CLIENT_LOGINED
    \<and> queued (fst s') (LOGIN_STREAM (m_Name (snd s)))"
proof -
  let ?t = "LOGIN_STREAM (m_Name (snd s))"
  have "length ?t < 1024" using assms by (simp add: length_login)
  then have "IOProcessDogMsg env dog_start s
      = Some ((fst s)\<lparr>Status := CLIENT_LOGINED, VMSendBuf := take CatState.MSGINITSIZE (?t @ replicate CatState.MSGINITSIZE NUL), cat_SendLen := int (length ?t)\<rparr>, snd s)"
    by (simp add: IOProcessDogMsg_def dog_start_def fits_def PushSendStream_def SetClientStatus_def)
  then show ?thesis using \<open>length ?t < 1024\<close> by (simp add: queued_def read_at_def CatState.MSGINITSIZE_def)
qed

text \<open>What an answer to a login makes of the client.\<close>

definition logged_in :: "bool \<Rightarrow> client \<Rightarrow> client \<Rightarrow> bool" where
  "logged_in good s s' \<longleftrightarrow>
     (if good then m_Status (snd s') = RUN_AUTHED \<and> queued (fst s') FILTER_SHOW \<and> \<not> enabled (snd s') BTN_LOGIN
        \<and> enabled (snd s') RADIO1 \<and> enabled (snd s') RADIO2 \<and> boxes (snd s') = boxes (snd s)
      else m_Status (snd s') = RUN_UNAUTH \<and> fst s' = fst s \<and> enabled (snd s') = enabled (snd s)
        \<and> boxes (snd s') = boxes (snd s) @ [''Name have existed please change another one!''])"

lemma client_is_answered:
  assumes "e \<in> {''OK'', ''400''}"
  shows "\<exists>s'. IOProcessDogMsg env (IKS_NODE_NORMAL (auth_answer e)) s = Some s' \<and> logged_in (e = ''OK'') s s'"
proof -
  let ?x = "IksTag ''query'' [(''xmlns'', ''jabber:iq:auth'')] [IksTag ''error'' [(''id'', e)] []]"
  have "IOProcessDogMsg env (IKS_NODE_NORMAL (auth_answer e)) s = RespLogin env (Some ?x) s"
    by (simp add: IOProcessDogMsg_def auth_answer_def iks_packet_def iks_tag_simps IOXMLIQ_def both_are_def)
  moreover have "answered_ok (Some ?x) = Some (e = ''OK'')"
    using assms by (auto simp: answered_ok_def iks_tag_simps iks_strcmp_def)
  moreover have "length FILTER_SHOW \<le> CatState.MSGINITSIZE" by (simp add: FILTER_SHOW_def CatState.MSGINITSIZE_def)
  ultimately show ?thesis
    by (simp add: RespLogin_def logged_in_def Let_def HCIStatusCenter_def controls_def set_status_def AfxMessageBox_def push_queued)
      (simp add: push_def)
qed

lemma server_reads:
  assumes "roomy alloc" and "ready z" and "Prs (ClientInfo s c)" and "get_stream_ptr hs = Some t" and "no_nul t" and "t = p @ q"
    and "prolog_ok p" and "event_form ev q" and "event_ok ev" and "\<not> cont_byte (hd t)"
    and "IOProcessCatMsg (envs k) c ev s = Some s'"
  shows "\<exists>z' j. parse_cell alloc cr envs c hs z (k, s) = Some (z', j, s') \<and> ready z'"
proof -
  have run: "IOProcessParser (\<lambda>_. zip (map envs [k..<k + length [ev]]) [ev]) c hs s = Some s'"
    using assms(3,4,11) by (simp add: IOProcessParser_def)
  show ?thesis
    using parse_cell_events [OF assms(1,2,4,5,6) session_form_one [OF assms(8)] assms(7), where c = c and s = s and k = k and envs = envs and cr = cr]
      assms(9,10) run by auto
qed


lemma client_hears:
  assumes "roomy (l_alloc lib)" and "ready x" and "event_form ev t" and "event_ok ev" and "no_nul t" and "t \<noteq> []"
    and "\<not> cont_byte (hd t)" and "iks_strcasecmp (Some t) (Some CLOSE_STREAM) \<noteq> 0"
    and "IOProcessDogMsg (l_envs lib (fst (world (snd x)))) ev (the_client x) = Some s'"
  shows "\<exists>y. cat_IOProcessParser lib (t @ [NUL]) (length t) x = Some y \<and> the_client y = s' \<and> ready y"
proof -
  have "hook_run (dog_hook (l_envs lib)) [ev] (world (snd x)) = Some (IKS_OK, Suc (fst (world (snd x))), s')"
    using dog_hook_one [where envs = "l_envs lib", OF assms(9)] by (simp add: the_client_def)
  from client_reads [OF assms(1,2,5,6,7) session_form_one [OF assms(3)] _ assms(8) this] assms(4) show ?thesis
    by (auto simp: the_client_def)
qed

lemma texts_facts:
  "no_nul handshake" "no_nul login_ok" "no_nul login_taken" "no_nul HANDSHAKE_STREAM"
  "handshake \<noteq> []" "login_ok \<noteq> []" "login_taken \<noteq> []"
  "\<not> cont_byte (hd handshake)" "\<not> cont_byte (hd login_ok)" "\<not> cont_byte (hd login_taken)" "\<not> cont_byte (hd HANDSHAKE_STREAM)"
  by (simp_all add: handshake_def login_ok_def login_taken_def HANDSHAKE_STREAM_def cont_byte_def byte_of_def)

lemma texts_not_close:
  "iks_strcasecmp (Some handshake) (Some CLOSE_STREAM) \<noteq> 0" "iks_strcasecmp (Some login_ok) (Some CLOSE_STREAM) \<noteq> 0"
  "iks_strcasecmp (Some login_taken) (Some CLOSE_STREAM) \<noteq> 0"
  by code_simp+


lemma handshake_exchange:
  fixes x :: dog_parser and z :: cat_parser
  assumes "roomy alloc" "ready z" "roomy (l_alloc lib)" "ready x"
    and server: "pool_ok s" "free_cells s = m # ms" "Prs (ClientInfo s c)" "cells_take (envs k) handshake s [m]"
    and n: "m_Name (snd (the_client x)) = n" "length n < 32" and arrive: "get_stream_ptr hs = Some HANDSHAKE_STREAM"
  obtains z1 j s1 x1 where "parse_cell alloc cr envs c hs z (k, s) = Some (z1, j, s1)" "ready z1"
    "posted s [m] (letters s handshake [c]) s1" "same_rest s s1"
    "cat_IOProcessParser lib (handshake @ [NUL]) (length handshake) x = Some x1" "ready x1"
    "queued (cat_of x1) (LOGIN_STREAM n)"
proof -
  obtain s1 where s1: "post (envs k) c handshake s = Some (True, s1)" "posted s [m] (letters s handshake [c]) s1" "same_rest s s1"
    using post_posted [OF server(1,2), of "envs k" handshake c] server(4) by (auto simp: cells_take_def)
  have "IOProcessCatMsg (envs k) c cat_start s = Some s1" using s1(1) by (simp add: cat_start_def IOProcessCatMsg_def CatHandShake_def)
  moreover have "prolog_ok (''<?xml version='' @ in_quotes ''1.0'' @ '' encoding='' @ in_quotes ''UTF-8'' @ ''?>'')"
    unfolding prolog_ok_def
    by (intro disjI2 exI [of _ "''xml version='' @ in_quotes ''1.0'' @ '' encoding='' @ in_quotes ''UTF-8'' @ ''?''"]) (simp add: ascii_def byte_of_def)
  ultimately obtain z1 j where z1: "parse_cell alloc cr envs c hs z (k, s) = Some (z1, j, s1)" "ready z1"
    using server_reads [OF assms(1,2) server(3) arrive texts_facts(4) cat_start_form _ printed_event [OF start_ok(1)] start_ok(1) texts_facts(11),
        where envs = envs and k = k and s' = s1 and cr = cr] by blast
  obtain w1 where w1: "IOProcessDogMsg (l_envs lib (fst (world (snd x)))) dog_start (the_client x) = Some w1"
      "queued (fst w1) (LOGIN_STREAM n)"
    using client_starts [of "the_client x"] n by blast
  have "event_form dog_start handshake" unfolding dog_start_text by (rule printed_event [OF start_ok(2)])
  then obtain x1 where "cat_IOProcessParser lib (handshake @ [NUL]) (length handshake) x = Some x1" "the_client x1 = w1" "ready x1"
    using client_hears [OF assms(3,4) _ start_ok(2) texts_facts(1,5,8) texts_not_close(1) w1(1)] by blast
  then show ?thesis using that z1 s1(2,3) w1(2) by blast
qed

lemma login_exchange:
  fixes x :: dog_parser and z :: cat_parser
  assumes "roomy alloc" "ready z" "roomy (l_alloc lib)" "ready x"
    and server: "shape s k" "pool_ok s" "free_cells s = m # ms" "Prs (ClientInfo s c)"
    and tk: "cells_take (envs j) login_ok s [m]" "cells_take (envs j) login_taken s [m]"
    and name: "plain n" "n \<noteq> []" and arrive: "get_stream_ptr hs = Some (LOGIN_STREAM n)"
    and answer: "answer = (if named s n (k_dogs k) = None then login_ok else login_taken)"
  obtains z2 i s2 x2 where "parse_cell alloc cr envs c hs z (j, s) = Some (z2, i, s2)" "posted s [m] (letters s answer [c]) s2"
    "cat_IOProcessParser lib (answer @ [NUL]) (length answer) x = Some x2"
    "logged_in (named s n (k_dogs k) = None) (the_client x) (the_client x2)"
proof -
  have q: "map_of [(''type'', ''set'')] ''type'' = Some ''set''" "query_ns (iq_query (login_query n)) = Some ''jabber:iq:auth''"
      "iks_find_cdata (iq_query (login_query n)) ''username'' = Some (Some n)"
    by (simp_all add: iq_query_def login_query_def query_ns_def iks_find_cdata_def iks_tag_simps IKS_TAG_CHILDREN_def)
  obtain s2 where s2: "IOProcessCatMsg (envs j) c (IKS_NODE_NORMAL (login_stanza n)) s = Some s2" "posted s [m] (letters s answer [c]) s2"
    using login_run [OF server(1-3) q tk, of c] by (auto simp: login_stanza_def answer)
  have lf: "event_form (IKS_NODE_NORMAL (login_stanza n)) (LOGIN_STREAM n)" using login_form [OF name(1)] by (simp add: event_form_def)
  have ln: "no_nul (LOGIN_STREAM n)" "LOGIN_STREAM n = [] @ LOGIN_STREAM n" "prolog_ok []" "\<not> cont_byte (hd (LOGIN_STREAM n))"
    using plain_no_nul [OF name(1)] by (simp_all add: LOGIN_STREAM_def prolog_ok_def cont_byte_def byte_of_def)
  obtain z2 i where z2: "parse_cell alloc cr envs c hs z (j, s) = Some (z2, i, s2)"
    using server_reads [OF assms(1,2) server(4) arrive ln(1,2,3) lf login_ok_event [OF name] ln(4),
        where envs = envs and k = j and s' = s2 and cr = cr] s2(1) by blast
  let ?good = "named s n (k_dogs k) = None" and ?e = "if named s n (k_dogs k) = None then ''OK'' else ''400''"
  have e: "?e \<in> {''OK'', ''400''}" and good: "(?e = ''OK'') = ?good" by simp_all
  obtain w2 where w2: "IOProcessDogMsg (l_envs lib (fst (world (snd x)))) (IKS_NODE_NORMAL (auth_answer ?e)) (the_client x) = Some w2"
      "logged_in ?good (the_client x) w2"
    using client_is_answered [OF e, of _ "the_client x"] unfolding good by blast
  have af: "event_form (IKS_NODE_NORMAL (auth_answer ?e)) answer"
    using printed_event [OF auth_answer_ok [OF e]]
    by (cases "named s n (k_dogs k)") (simp_all add: answer auth_answer_text)
  have facts: "no_nul answer" "answer \<noteq> []" "\<not> cont_byte (hd answer)" "iks_strcasecmp (Some answer) (Some CLOSE_STREAM) \<noteq> 0"
    using texts_facts texts_not_close by (simp_all add: answer)
  obtain x2 where "cat_IOProcessParser lib (answer @ [NUL]) (length answer) x = Some x2" "the_client x2 = w2"
    using client_hears [OF assms(3,4) af auth_answer_ok [OF e] facts w2(1)] by blast
  then show ?thesis using that z2 s2(2) w2(2) by blast
qed

section \<open>A captured payload\<close>

definition message_stanza :: "captured \<Rightarrow> nat \<Rightarrow> u32 \<Rightarrow> string \<Rightarrow> iks" where
  "message_stanza a n sn body =
     IksTag ''message'' [(''from'', cap_from a), (''fp'', cap_fp a), (''to'', cap_to a), (''tp'', cap_tp a)]
       [IksTag ''body'' [(''size'', fmt_s32 (word_of_nat n)), (''rawsize'', fmt_s32 (word_of_nat (cap_size a))), (''sn'', fmt_s32 sn)]
         [IksCData body]]"

definition captured_plain :: "captured \<Rightarrow> bool" where
  "captured_plain a \<longleftrightarrow> plain (cap_from a) \<and> plain (cap_fp a) \<and> plain (cap_to a) \<and> plain (cap_tp a)"

lemma fmt_s32_plain: "plain (fmt_s32 w)"
proof (rule plain_ascii)
  show "\<forall>c \<in> set (fmt_s32 w). ascii c \<and> \<not> is_special c"
    using digit_plain show_base_digits by (auto simp: fmt_s32_def fmt_int_def ascii_def byte_of_def is_special_def)
qed

lemma atoi_fmt_s32: "n < 2 ^ 31 \<Longrightarrow> atoi (fmt_s32 (word_of_nat n)) = Some (int n)"
proof -
  assume n: "n < 2 ^ 31"
  then have "sint (word_of_nat n :: u32) = int n"
    by (simp add: signed_of_nat signed_take_bit_int_eq_self)
  then show ?thesis using atoi_show_base [OF n] by (simp add: fmt_s32_def fmt_int_def)
qed

lemma message_form:
  assumes "plain body"
  shows "event_form (IKS_NODE_NORMAL (message_stanza a n sn body)) (message_text a n sn body)"
proof -
  let ?as = "[(''size'', fmt_s32 (word_of_nat n)), (''rawsize'', fmt_s32 (word_of_nat (cap_size a))), (''sn'', fmt_s32 sn)]"
  have "node_form (IksCData body) body" using cdata_form [of body] by (simp add: plain_escaped [OF assms])
  then have "nodes_form [IksCData body] body" using more_form [OF _ no_form, of "IksCData body" body] by simp
  from open_form [OF _ this, of 0 ?as "''body''"]
  have "nodes_form [IksTag ''body'' ?as [IksCData body]] (spaced_tag ''body'' ?as 0 IKS_OPEN @ body @ ''</'' @ ''body'' @ ''>'')"
    using more_form [OF _ no_form] by fastforce
  from open_form [OF _ this, of 0 "[(''from'', cap_from a), (''fp'', cap_fp a), (''to'', cap_to a), (''tp'', cap_tp a)]" "''message''"]
  show ?thesis
    by (simp add: event_form_def message_stanza_def message_text_def spaced_tag_def raw_attrs_def raw_attr_def quoted_def)
qed

lemma message_ok:
  assumes "captured_plain a" and "plain body" and "body \<noteq> []"
  shows "event_ok (IKS_NODE_NORMAL (message_stanza a n sn body))"
  using assms plain_utext [of body] fmt_s32_plain by (simp add: message_stanza_def captured_plain_def plain_def ok_defs)

text \<open>The row and the element the client keeps of a message.\<close>

definition message_row :: "captured \<Rightarrow> nat \<Rightarrow> u32 \<Rightarrow> string \<Rightarrow> msg_row" where
  "message_row a n sn bytes = \<lparr>row_sn = Some (fmt_s32 sn), row_from = Some (cap_from a), row_fp = Some (cap_fp a),
     row_to = Some (cap_to a), row_tp = Some (cap_tp a), row_len = Some (fmt_s32 (word_of_nat n)), row_content = c_str (bytes @ [NUL])\<rparr>"

lemma client_stores:
  assumes "buf \<noteq> []" and "length buf \<le> 4096" and "cap_room env"
  defines "bytes \<equiv> map (\<lambda>b. char_of (unat b)) buf"
  shows "IOProcessDogMsg env (IKS_NODE_NORMAL (message_stanza a (length buf) sn (encode_spec buf))) s
    = Some (fst s, (snd s)\<lparr>m_ListMsg := m_ListMsg (snd s) @ [message_row a (length buf) sn bytes],
        m_CapElement := m_CapElement (snd s) @ [\<lparr>cap_len = length buf, cap_buf = bytes @ [NUL]\<rparr>]\<rparr>)"
proof -
  let ?node = "message_stanza a (length buf) sn (encode_spec buf)"
  have "IOProcessDogMsg env (IKS_NODE_NORMAL ?node) s = IOXMLMessage env ?node s"
    by (simp add: IOProcessDogMsg_def message_stanza_def iks_packet_def iks_tag_simps)
  moreover have "atoi (fmt_s32 (word_of_nat (length buf))) = Some (int (length buf))" using assms(2) by (simp add: atoi_fmt_s32)
  moreover have "iks_base64_decode True (Some (encode_spec buf)) = Some (Some (buf @ replicate (pad_zeros buf + 1) 0))"
    using decode_encode_spec [OF assms(1)] assms(2) by (simp add: iks_base64_decode_def)
  moreover have "read_at 0 (length buf) (buf @ t) = Some buf" for t :: "byte list" by (simp add: read_at_def)
  ultimately show ?thesis
    using assms(1-3)
    by (simp add: IOXMLMessage_def message_stanza_def iks_tag_simps iks_find_cdata_def IKS_TAG_CHILDREN_def message_row_def bytes_def Let_def)
qed

section \<open>Properties\<close>

text \<open>
  C1. A login runs through both programs: the client's first text makes the server's parser post the handshake to
  that client alone; the handshake makes the client queue the login with its name; that text
  makes the server post OK exactly when no cutedog has the name; and the answer opens the client's
  window and queues the request for the list of cutedogs, or shows the message that the name is taken.
\<close>

theorem login_conversation:
  fixes x :: dog_parser and z :: cat_parser
  assumes parsers: "roomy alloc" "ready z" "roomy (l_alloc lib)" "ready x"
    and server: "shape s k" "pool_ok s" "free_cells s = m1 # m2 # ms" "Prs (ClientInfo s c)"
    and take: "\<And>i t. t \<in> {handshake, login_ok, login_taken} \<Longrightarrow> cells_take (envs i) t s [m1, m2]"
    and name: "m_Name (snd (the_client x)) = n" "plain n" "n \<noteq> []" "length n < 32"
    and arrive: "get_stream_ptr hs1 = Some HANDSHAKE_STREAM" "get_stream_ptr hs2 = Some (LOGIN_STREAM n)"
    and answer: "answer = (if named s n (k_dogs k) = None then login_ok else login_taken)"
  shows "\<exists>z1 j s1 x1 z2 i s2 x2. parse_cell alloc cr envs c hs1 z (0, s) = Some (z1, j, s1) \<and> posted s [m1] (letters s handshake [c]) s1
    \<and> cat_IOProcessParser lib (handshake @ [NUL]) (length handshake) x = Some x1 \<and> queued (cat_of x1) (LOGIN_STREAM n)
    \<and> parse_cell alloc cr envs c hs2 z1 (j, s1) = Some (z2, i, s2) \<and> posted s1 [m2] (letters s1 answer [c]) s2
    \<and> cat_IOProcessParser lib (answer @ [NUL]) (length answer) x1 = Some x2
    \<and> logged_in (named s n (k_dogs k) = None) (the_client x1) (the_client x2)"
proof -
  have t1: "cells_take (envs i) handshake s [m1]" for i using take [of handshake i] by (simp add: cells_take_def)
  obtain z1 j s1 x1 where one: "parse_cell alloc cr envs c hs1 z (0, s) = Some (z1, j, s1)" "ready z1"
      "posted s [m1] (letters s handshake [c]) s1" "same_rest s s1"
      "cat_IOProcessParser lib (handshake @ [NUL]) (length handshake) x = Some x1" "ready x1" "queued (cat_of x1) (LOGIN_STREAM n)"
    by (rule handshake_exchange [OF parsers server(2,3,4) t1 name(1,4) arrive(1), where cr = cr])
  have f: "free_cells s1 = m2 # ms" "pool_ok s1" using one(3) server(3) by (simp_all add: posted_def)
  have "m2 \<noteq> m1" using server(2,3) by (auto simp: pool_ok_def)
  then have m2: "cells s1 m2 = cells s m2" using one(3) by (simp add: posted_def)
  have sh1: "shape s1 k" by (rule shape_same_rest [OF one(4) server(1)])
  have same: "named s1 n ds = named s n ds" for ds using one(4) by (simp add: named_def dog_at_def same_rest_def)
  have prs1: "Prs (ClientInfo s1 c)" using one(4) server(4) by (simp add: same_rest_def)
  have t2: "cells_take (envs j) login_ok s1 [m2]" "cells_take (envs j) login_taken s1 [m2]"
    using take [of login_ok j] take [of login_taken j] m2 by (simp_all add: cells_take_def)
  have an: "answer = (if named s1 n (k_dogs k) = None then login_ok else login_taken)" using answer by (simp add: same)
  obtain z2 i s2 x2 where "parse_cell alloc cr envs c hs2 z1 (j, s1) = Some (z2, i, s2)" "posted s1 [m2] (letters s1 answer [c]) s2"
      "cat_IOProcessParser lib (answer @ [NUL]) (length answer) x1 = Some x2"
      "logged_in (named s1 n (k_dogs k) = None) (the_client x1) (the_client x2)"
    by (rule login_exchange [where cr = cr and envs = envs and j = j and lib = lib, OF parsers(1) one(2) parsers(3) one(6) sh1 f(2,1) prs1 t2 name(2,3) arrive(2) an])
  then show ?thesis using one(1,3,5,7) unfolding same by blast
qed


lemma demo_server_facts:
  "shape demo_server yard_kennel" "pool_ok demo_server" "free_cells demo_server = 0 # 1 # [2, 3, 4, 5, 6, 7]"
  "no_nul t \<Longrightarrow> length t \<le> 1024 \<Longrightarrow> cells_take (envs i) t demo_server [0, 1]"
  "named demo_server n ds = named yard n ds"
proof -
  have "rings_ok demo_server = rings_ok yard" "free_cells demo_server = free_cells yard" "queued_cells demo_server = queued_cells yard"
      "pFifoDogMsg demo_server = pFifoDogMsg yard"
    by (simp_all add: demo_server_def rings_ok_def free_cells_def queued_cells_def)
  then show "pool_ok demo_server" "free_cells demo_server = 0 # 1 # [2, 3, 4, 5, 6, 7]"
    using yard_pool by (simp_all add: pool_ok_def yard_free)
  show "shape demo_server yard_kennel" using yard_shape by (simp add: shape_def demo_server_def)
  show "no_nul t \<Longrightarrow> length t \<le> 1024 \<Longrightarrow> cells_take (envs i) t demo_server [0, 1]"
    using yard_takes [of t "envs i" "[0, 1]"] by (simp add: cells_take_def demo_server_def)
  show "named demo_server n ds = named yard n ds" by (simp add: named_def dog_at_def demo_server_def)
qed

theorem login_conversation_witness:
  "\<exists>z1 j s1 x1 z2 i s2 x2. parse_cell (\<lambda>n. give_block n) no_crypto (\<lambda>i. calm) 3 (demo_cell HANDSHAKE_STREAM)
       (iks_stream_new ''jabber:cat'' (0, demo_server)) (0, demo_server) = Some (z1, j, s1)
    \<and> parse_cell (\<lambda>n. give_block n) no_crypto (\<lambda>i. calm) 3 (demo_cell (LOGIN_STREAM ''tom'')) z1 (j, s1) = Some (z2, i, s2)
    \<and> cat_IOProcessParser demo_lib (handshake @ [NUL]) (length handshake) new_client = Some x1
    \<and> cat_IOProcessParser demo_lib (login_ok @ [NUL]) (length login_ok) x1 = Some x2
    \<and> m_Status (snd (the_client x2)) = RUN_AUTHED \<and> queued (cat_of x2) FILTER_SHOW"
proof -
  have p: "roomy (l_alloc demo_lib)" "ready new_client" "m_Name (snd (the_client new_client)) = ''tom''"
    using roomy_give ready_new by (simp_all add: demo_lib_def new_client_def iks_stream_new_def the_client_def dlg_idle_def)
  have tk: "cells_take calm t demo_server [0, 1]" if "t \<in> {handshake, login_ok, login_taken}" for t
    by (rule demo_server_facts(4)) (use that in \<open>auto simp: handshake_def login_ok_def login_taken_def\<close>)
  have n: "plain ''tom''" "''tom'' \<noteq> []" "length ''tom'' < 32"
    by (simp_all add: plain_def byte_of_def is_special_def)
  have "no_nul (LOGIN_STREAM ''tom'')" by (simp add: LOGIN_STREAM_def)
  then have a: "get_stream_ptr (demo_cell HANDSHAKE_STREAM) = Some HANDSHAKE_STREAM"
      "get_stream_ptr (demo_cell (LOGIN_STREAM ''tom'')) = Some (LOGIN_STREAM ''tom'')"
    using texts_facts(4) by (simp_all add: demo_cell_text)
  have nm: "named demo_server ''tom'' (k_dogs yard_kennel) = None"
    unfolding demo_server_facts(5) by (simp add: named_def yard_kennel_def yard_dog rex_def)
  have an: "login_ok = (if named demo_server ''tom'' (k_dogs yard_kennel) = None then login_ok else login_taken)" by (simp add: nm)
  show ?thesis
    using login_conversation [where cr = no_crypto and envs = "\<lambda>i. calm", OF roomy_give ready_new p(1,2) demo_server_facts(1-3) demo_server_prs tk p(3) n a an,
        of "''jabber:cat''" "(0, demo_server)"]
    unfolding nm logged_in_def by auto
qed

text \<open>
  C2. The client's side of a capture: a client whose parser reads the message (\<open>letter\<close>, of the first 3072 bytes of a payload)
  adds one row and one stored element, which holds exactly these bytes followed by a NUL, whatever they are.  (The row shows
  them as text.)
\<close>

theorem captured_payload_arrives:
  assumes "roomy (l_alloc lib)" and "ready x" and "captured_plain a" and "read_at 0 (capped a) tcpData = Some buf" and "buf \<noteq> []"
    and "cap_room (l_envs lib (fst (world (snd x))))" and "t = letter a buf sn" and "the_client x = (c, d)"
  shows "\<exists>y. cat_IOProcessParser lib (t @ [NUL]) (length t) x = Some y
    \<and> the_client y = (c, d\<lparr>m_ListMsg := m_ListMsg d @ [message_row a (capped a) sn (map (\<lambda>b. char_of (unat b)) buf)],
        m_CapElement := m_CapElement d @ [\<lparr>cap_len = capped a, cap_buf = map (\<lambda>b. char_of (unat b)) buf @ [NUL]\<rparr>]\<rparr>) \<and> ready y"
proof -
  have n: "capped a = length buf" "length buf \<le> 3072"
    using assms(4) by (auto simp: read_at_def capped_def MAX_TCPDATA_SIZE_def split: if_splits)
  have t': "t = cat_letter a buf sn" using cat_letter_is [of buf a sn] assms(7) n(1) by simp
  have ne: "encode_spec buf \<noteq> []" using assms(5) by (cases buf rule: encode_spec.cases) (simp_all add: sextets_def)
  have f: "event_form (IKS_NODE_NORMAL (message_stanza a (length buf) sn (encode_spec buf))) t"
    unfolding t' cat_letter_def n(1) by (rule message_form [OF encode_spec_plain])
  have ok: "event_ok (IKS_NODE_NORMAL (message_stanza a (length buf) sn (encode_spec buf)))"
    by (rule message_ok [OF assms(3) encode_spec_plain ne])
  have "no_nul (fmt_s32 w)" for w by (rule plain_no_nul [OF fmt_s32_plain])
  then have t: "no_nul t" "t \<noteq> []" "\<not> cont_byte (hd t)" "iks_strcasecmp (Some t) (Some CLOSE_STREAM) \<noteq> 0"
    using plain_no_nul assms(3) encode_spec_no_nul
    by (simp_all add: t' cat_letter_def message_text_def quoted_def captured_plain_def cont_byte_def byte_of_def
        iks_strcasecmp_def CLOSE_STREAM_def tolower_def)
  show ?thesis
    using client_hears [OF assms(1,2) f ok t client_stores [OF assms(5)]] n assms(6,8) by simp
qed

theorem captured_payload_arrives_witness:
  "\<exists>y d. cat_IOProcessParser demo_lib (demo_message @ [NUL]) (length demo_message) new_client = Some y
    \<and> snd (the_client y) = d \<and> m_CapElement d = [\<lparr>cap_len = 3, cap_buf = ''abc'' @ [NUL]\<rparr>] \<and> ready y"
proof -
  have x: "roomy (l_alloc demo_lib)" "ready new_client" "cap_room (l_envs demo_lib (fst (world (snd new_client))))"
    using roomy_give ready_new by (simp_all add: demo_lib_def new_client_def)
  have c: "the_client new_client = (cat_of new_client, dlg_idle)"
    by (simp add: new_client_def iks_stream_new_def the_client_def)
  have p: "captured_plain demo_captured" by (simp add: captured_plain_def demo_captured_def plain_def byte_of_def is_special_def)
  have r: "read_at 0 (capped demo_captured) [0x61, 0x62, 0x63] = Some [0x61, 0x62, 0x63 :: byte]"
    by (simp add: demo_captured_ok read_at_def)
  have abc: "char_of (97 :: nat) = CHR ''a''" "char_of (98 :: nat) = CHR ''b''" "char_of (99 :: nat) = CHR ''c''" by code_simp+
  note m = demo_spec
  show ?thesis
    using captured_payload_arrives [OF x(1,2) p r _ x(3) m c]
    by (auto simp: demo_captured_ok(2) dlg_idle_def abc)
qed

end
