(* ===== verification/Dom.thy ===== *)
theory Dom
  imports SaxNodes
begin

text \<open>
  The tree parser of \<^verbatim>\<open>src/CuteCat/iksemel/dom.c\<close>: its hooks, \<^verbatim>\<open>iks_tree\<close>, and
  loading and saving of files.  The calls of the C library on files are parameters.
\<close>

section \<open>The hooks\<close>

text \<open>
  \<open>iksptr\<close> is what the caller's variable holds, and \<open>dom_current\<close> the element \<^verbatim>\<open>current\<close> with
  its ancestors, innermost first.
\<close>

record dom_data =
  iksptr :: "iks option"
  dom_current :: "open_tag list"
  chunk_size :: nat

definition dom_close :: "string \<Rightarrow> dom_data \<Rightarrow> ikserror \<times> dom_data" where
  "dom_close name d =
     (case dom_current d of
        [] \<Rightarrow> (IKS_BADXML, d)
      | x # parents \<Rightarrow>
          if iks_strcmp (Some (fst x)) (Some name) \<noteq> 0 then (IKS_BADXML, d)
          else (IKS_OK, case parents of
              [] \<Rightarrow> d\<lparr>iksptr := Some (node_of x), dom_current := []\<rparr>
            | parent # rest \<Rightarrow> d\<lparr>dom_current := into_parent x parent # rest\<rparr>))"

definition dom_tagHook :: "dom_data tag_fun" where
  "dom_tagHook d name attrs ty =
     (let d = (if ty = IKS_OPEN \<or> ty = IKS_SINGLE then d\<lparr>dom_current := tag_node name attrs # dom_current d\<rparr> else d) in
      Some (if ty = IKS_CLOSE \<or> ty = IKS_SINGLE then dom_close name d else (IKS_OK, d)))"

definition dom_cdataHook :: "dom_data \<Rightarrow> string \<Rightarrow> dom_data" where
  "dom_cdataHook d cdata = d\<lparr>dom_current := add_cdata cdata (dom_current d)\<rparr>"

definition dom_deleteHook :: "dom_data \<Rightarrow> dom_data" where
  "dom_deleteHook d = d\<lparr>dom_current := []\<rparr>"

definition dom_hooks :: "dom_data hooks" where
  "dom_hooks = \<lparr>tagHook = Some dom_tagHook, cdataHook = Some (\<lambda>d s. Some (IKS_OK, dom_cdataHook d s)),
     deleteHook = Some dom_deleteHook\<rparr>"

type_synonym dom_parser = "iksparser \<times> dom_data"

definition DEFAULT_DOM_IKS_CHUNK_SIZE :: nat where "DEFAULT_DOM_IKS_CHUNK_SIZE = 2048"
definition FILE_IO_BUF_SIZE :: nat where "FILE_IO_BUF_SIZE = 4096"

text \<open>\<open>room\<close> answers the allocation of the parser.\<close>

definition iks_dom_new :: "bool \<Rightarrow> dom_parser option" where
  "iks_dom_new room =
     (if room then Some (iks_sax_extend, \<lparr>iksptr = None, dom_current = [], chunk_size = DEFAULT_DOM_IKS_CHUNK_SIZE\<rparr>) else None)"

definition iks_set_size_hint :: "nat \<Rightarrow> dom_parser \<Rightarrow> dom_parser" where
  "iks_set_size_hint approx_size x =
     (let cs = approx_size div 10 in
      (fst x, (snd x)\<lparr>chunk_size := if cs < DEFAULT_DOM_IKS_CHUNK_SIZE then DEFAULT_DOM_IKS_CHUNK_SIZE else cs\<rparr>))"

definition iks_tree :: "(nat \<Rightarrow> string option) \<Rightarrow> bool \<Rightarrow> string \<Rightarrow> nat \<Rightarrow> (iks option \<times> ikserror) option" where
  "iks_tree alloc room xml_str len =
     (let len = (if len = 0 then length (c_str xml_str) else len) in
      case iks_dom_new room of
        None \<Rightarrow> Some (None, IKS_NOMEM)
      | Some x \<Rightarrow> do {
          (x, e) \<leftarrow> iks_parse alloc dom_hooks (Some xml_str) len x;
          Some (iksptr (iks_parser_delete dom_hooks x), e)
        })"

section \<open>Files\<close>

datatype iksfileerror = IKS_XML ikserror | IKS_FILE_NOFILE | IKS_FILE_NOACCESS | IKS_FILE_RWERR

text \<open>What \<^verbatim>\<open>fopen\<close> answers: the error is \<^verbatim>\<open>ENOENT\<close> or another one.\<close>

datatype fopen_result = Opened | No_Entry | No_Access

text \<open>
  The loop of \<^verbatim>\<open>iks_load\<close>.  \<open>fread i\<close> gives the bytes that the \<open>i\<close>-th call of \<^verbatim>\<open>fread\<close> stores and
  whether \<^verbatim>\<open>feof\<close> holds after it.
\<close>

partial_function (option) load_loop ::
  "(nat \<Rightarrow> string option) \<Rightarrow> (nat \<Rightarrow> string \<times> bool) \<Rightarrow> nat \<Rightarrow> dom_parser \<Rightarrow> (iksfileerror \<times> dom_parser) option" where
  "load_loop alloc fread i x =
     (case fread i of
        (buf, feof) \<Rightarrow>
          if length buf < FILE_IO_BUF_SIZE \<and> \<not> feof then Some (IKS_FILE_RWERR, x)
          else if 0 < length buf then do {
            (x, e) \<leftarrow> iks_parse alloc dom_hooks (Some buf) (length buf) x;
            if e \<noteq> IKS_OK then Some (IKS_XML e, x)
            else if length buf < FILE_IO_BUF_SIZE then Some (IKS_XML IKS_OK, x)
            else load_loop alloc fread (i + 1) x
          }
          else Some (IKS_XML IKS_OK, x))"

text \<open>\<open>room1\<close> answers the allocation of the buffer.\<close>

definition iks_load ::
  "(nat \<Rightarrow> string option) \<Rightarrow> bool \<Rightarrow> bool \<Rightarrow> fopen_result \<Rightarrow> (nat \<Rightarrow> string \<times> bool) \<Rightarrow> (iksfileerror \<times> iks option) option" where
  "iks_load alloc room1 room fopen fread =
     (if \<not> room1 then Some (IKS_XML IKS_NOMEM, None)
      else case iks_dom_new room of
        None \<Rightarrow> Some (IKS_XML IKS_NOMEM, None)
      | Some x \<Rightarrow>
          (case fopen of
             Opened \<Rightarrow> do {
               (ret, x) \<leftarrow> load_loop alloc fread 0 x;
               Some (ret, iksptr (iks_parser_delete dom_hooks x))
             }
           | No_Entry \<Rightarrow> Some (IKS_FILE_NOFILE, iksptr (iks_parser_delete dom_hooks x))
           | No_Access \<Rightarrow> Some (IKS_FILE_NOACCESS, iksptr (iks_parser_delete dom_hooks x))))"

text \<open>
  The contents of the files by name.  \<open>fopen\<close> answers whether the file is opened, which empties it;
  \<open>fputs\<close> gives what is stored of a text and whether that is a success.
\<close>

definition iks_save ::
  "(nat \<Rightarrow> string option) \<Rightarrow> bool \<Rightarrow> (string \<Rightarrow> string \<times> bool) \<Rightarrow> string \<Rightarrow> iks option \<Rightarrow> (string \<Rightarrow> string option)
     \<Rightarrow> (iksfileerror \<times> (string \<Rightarrow> string option)) option" where
  "iks_save alloc fopen fputs fname x fs = do {
     str \<leftarrow> iks_string alloc x;
     case str of
       None \<Rightarrow> Some (IKS_XML IKS_NOMEM, fs)
     | Some str \<Rightarrow>
         if \<not> fopen then Some (IKS_FILE_NOACCESS, fs)
         else (case fputs (c_str str) of
             (stored, good) \<Rightarrow> Some (if good then IKS_XML IKS_OK else IKS_FILE_RWERR, fs(fname \<mapsto> stored)))
   }"

section \<open>The contract of the hooks\<close>

interpretation dom: piecewise_hooks dom_hooks dom_tagHook dom_cdataHook
proof
  show "dom_cdataHook d (s @ t) = dom_cdataHook (dom_cdataHook d s) t" if "s \<noteq> []" "t \<noteq> []" for d s t
    using add_cdata_joins [OF that] by (simp add: dom_cdataHook_def)
qed (simp_all add: dom_hooks_def)

lemma dom_end: "dom_tagHook d n as IKS_CLOSE = Some (dom_close n d)"
  by (simp add: dom_tagHook_def)

interpretation dom_tree: tree_builder dom_tagHook dom_cdataHook dom_current "\<lambda>ts d. d\<lparr>dom_current := ts\<rparr>" "\<lambda>d n. no_nul n"
  by unfold_locales
    (auto simp: dom_tagHook_def dom_cdataHook_def dom_close_def iks_strcmp_0_iff into_parent_child)

section \<open>Pieces of a file\<close>

text \<open>The bytes of a file \<open>t\<close> as the calls of \<^verbatim>\<open>fread\<close> give them.\<close>

definition reads_file :: "string \<Rightarrow> (nat \<Rightarrow> string \<times> bool) \<Rightarrow> bool" where
  "reads_file t fread \<longleftrightarrow>
     (\<forall>i. fst (fread i) = take 4096 (drop (4096 * i) t) \<and> (length (fst (fread i)) < 4096 \<longrightarrow> snd (fread i)))"

function blocks_of :: "string \<Rightarrow> string list" where
  "blocks_of s = (if s = [] then [] else if length s < 4096 then [s] else take 4096 s # blocks_of (drop 4096 s))"
  by pat_completeness auto
termination by (relation "measure length") auto

declare blocks_of.simps [simp del]

lemma concat_blocks: "concat (blocks_of s) = s"
proof (induction s rule: blocks_of.induct)
  case (1 s)
  then show ?case by (subst blocks_of.simps) simp
qed

lemma clean_blocks:
  "\<forall>i. 4096 * i < length s \<longrightarrow> \<not> cont_byte (s ! (4096 * i)) \<Longrightarrow> clean_cut (blocks_of s)"
proof (induction s rule: blocks_of.induct)
  case (1 s)
  show ?case
  proof (cases "s = [] \<or> length s < 4096")
    case True
    then show ?thesis using 1(2) [rule_format, of 0] by (subst blocks_of.simps) (auto simp: clean_cut_def hd_conv_nth)
  next
    case False
    have "\<not> cont_byte (drop 4096 s ! (4096 * i))" if "4096 * i < length (drop 4096 s)" for i
      using 1(2) [rule_format, of "Suc i"] that False by (simp add: nth_drop)
    then have "clean_cut (blocks_of (drop 4096 s))" using 1(1) False by blast
    moreover have "\<not> cont_byte (hd (take 4096 s))" using 1(2) [rule_format, of 0] False by (simp add: hd_conv_nth)
    ultimately show ?thesis using False by (subst blocks_of.simps) (simp add: clean_cut_Cons)
  qed
qed

lemma load_feed:
  assumes "reads_file t fread"
  shows "load_loop alloc fread i x
    = map_option (\<lambda>(x, e). (IKS_XML e, x)) (feed alloc dom_hooks (blocks_of (drop (4096 * i) t)) x)"
proof (induction "length t - 4096 * i" arbitrary: i x rule: less_induct)
  case less
  let ?s = "drop (4096 * i) t"
  obtain b where r: "fread i = (take 4096 ?s, b)" and b: "length ?s < 4096 \<Longrightarrow> b"
    using assms unfolding reads_file_def by (metis length_take min_less_iff_disj prod.collapse)
  have IH: "load_loop alloc fread (Suc i) y = map_option (\<lambda>(x, e). (IKS_XML e, x)) (feed alloc dom_hooks (blocks_of (drop 4096 ?s)) y)"
    if "4096 \<le> length ?s" for y
    using less [of "Suc i" y] that by (simp add: add.commute)
  show ?case
  proof (cases "length ?s < 4096")
    case True
    then show ?thesis using b
      by (subst load_loop.simps, subst blocks_of.simps) (auto simp: r FILE_IO_BUF_SIZE_def split: Option.bind_split)
  next
    case False
    then show ?thesis using IH
      by (subst load_loop.simps, subst blocks_of.simps) (auto simp: r FILE_IO_BUF_SIZE_def split: Option.bind_split)
  qed
qed

lemma roomy_sized:
  assumes "roomy alloc"
  shows "sized alloc"
  unfolding sized_def
proof
  fix n
  obtain b where "alloc n = Some b" "length b = n" using assms by (rule roomyE)
  then show "case alloc n of None \<Rightarrow> True | Some blk \<Rightarrow> length blk = n" by simp
qed

section \<open>Documents\<close>

definition dom_start :: dom_data where
  "dom_start = \<lparr>iksptr = None, dom_current = [], chunk_size = DEFAULT_DOM_IKS_CHUNK_SIZE\<rparr>"

lemma iks_tree_feed:
  "iks_tree alloc True t (length t)
    = map_option (\<lambda>(x, e). (iksptr (snd x), e)) (feed alloc dom_hooks [t] (iks_sax_extend, dom_start))"
  by (auto simp: iks_tree_def iks_dom_new_def dom_start_def iks_parser_delete_def call_delete_def dom_hooks_def dom_deleteHook_def
      c_str_def Let_def split: Option.bind_split)

lemma iks_load_feed:
  "reads_file t fread \<Longrightarrow> iks_load alloc True True Opened fread
    = map_option (\<lambda>(x, e). (IKS_XML e, iksptr (snd x))) (feed alloc dom_hooks (blocks_of t) (iks_sax_extend, dom_start))"
  using load_feed [of t fread alloc 0]
  by (auto simp: iks_load_def iks_dom_new_def dom_start_def iks_parser_delete_def call_delete_def dom_hooks_def dom_deleteHook_def
      split: Option.bind_split)

lemma dom_idle: "idle 0 lexer_start"
  by (simp add: idle_def lexer_start_def)

text \<open>What the reference tokenizer says of a whole document, cut in any clean way.\<close>

lemma document_run:
  assumes "node_ok (IksTag n as cs)" and "node_form (IksTag n as cs) t"
  shows "goes_on dom_tagHook dom_cdataHook s (Some (IKS_OK, dom_start\<lparr>iksptr := Some (IksTag n as cs)\<rparr>))
    (lx_run dom_tagHook dom_cdataHook (t @ s) dom_start lexer_start)"
proof -
  have nul: "no_nul n" using assms(1) name_no_nul by simp
  have "dom_tagHook (dom_start\<lparr>dom_current := [(n, as, cs)]\<rparr>) n [] IKS_CLOSE
      = Some (IKS_OK, dom_start\<lparr>iksptr := Some (IksTag n as cs)\<rparr>)"
    by (simp add: dom_end dom_close_def nul iks_strcmp_0_iff node_of_def dom_start_def)
  then show ?thesis
    using dom_tree.node_run [OF assms(2,1) _ dom_idle nul, where s = s and u = dom_start] by (simp add: dom_start_def)
qed

lemma document_feed:
  assumes "roomy alloc" and "clean_cut ss" and "node_form (IksTag n as cs) (concat ss)" and "node_ok (IksTag n as cs)"
  shows "\<exists>p. feed alloc dom_hooks ss (iks_sax_extend, dom_start) = Some ((p, dom_start\<lparr>iksptr := Some (IksTag n as cs)\<rparr>), IKS_OK)"
proof -
  obtain m l where "12 dvd m" "idle m l"
      "lx_run dom_tagHook dom_cdataHook (concat ss) dom_start lexer_start = Some (l, dom_start\<lparr>iksptr := Some (IksTag n as cs)\<rparr>, IKS_OK)"
    using document_run [OF assms(4,3), of "[]"] by (auto simp: ok_def elim: goes_onD)
  then show ?thesis using dom.feed_agrees [OF rest_at_start assms(1,2), of dom_start] by auto
qed

lemma node_text_head: "\<exists>s. node_text (IksTag n as cs) = CHR ''<'' # s"
  by simp

lemma angle_clean: "clean_cut [CHR ''<'' # s]"
  by (simp add: clean_cut_def cont_byte_def byte_of_def)

text \<open>
  A document that can be printed is read back: \<^verbatim>\<open>iks_tree\<close> makes of the text of a tree the same
  tree.
\<close>

theorem iks_tree_reads_text:
  assumes "roomy alloc" and "node_ok (IksTag n as cs)"
  shows "iks_tree alloc True (node_text (IksTag n as cs)) (length (node_text (IksTag n as cs))) = Some (Some (IksTag n as cs), IKS_OK)"
proof -
  obtain s where "node_text (IksTag n as cs) = CHR ''<'' # s" using node_text_head by blast
  then have "clean_cut [node_text (IksTag n as cs)]" by (simp only: angle_clean)
  from document_feed [OF assms(1) this _ assms(2)] show ?thesis
    unfolding iks_tree_feed using printed_form(1) [OF assms(2)] by auto
qed

theorem iks_tree_reads_text_witness:
  "iks_tree (\<lambda>n. Some (replicate n NUL)) True (node_text (IksTag ''a'' [(''b'', ''1'')] [IksCData ''x<y'', IksTag ''c'' [] []]))
      (length (node_text (IksTag ''a'' [(''b'', ''1'')] [IksCData ''x<y'', IksTag ''c'' [] []])))
    = Some (Some (IksTag ''a'' [(''b'', ''1'')] [IksCData ''x<y'', IksTag ''c'' [] []]), IKS_OK)"
  by (rule iks_tree_reads_text)
    (simp_all add: roomy_def name_ok_def tag_name_ok_def attrs_ok_def attr_name_ok_def tag_char_def is_whitespace_def ascii_def
      byte_of_def is_special_def is_cdata_def)

text \<open>
  C14. Loading a file gives the same result as parsing its whole contents, though the file is read in
  blocks of 4096 bytes: the same error, and the same tree when there is none, as long as no
  block starts inside a character.
\<close>

theorem iks_load_is_iks_tree:
  assumes "roomy alloc" and "reads_file t fread" and "\<forall>i. 4096 * i < length t \<longrightarrow> \<not> cont_byte (t ! (4096 * i))"
  shows "map_option (\<lambda>(r, x). (r, if r = IKS_XML IKS_OK then x else None)) (iks_load alloc True True Opened fread)
    = map_option (\<lambda>(x, e). (IKS_XML e, if e = IKS_OK then x else None)) (iks_tree alloc True t (length t))"
proof -
  have "clean_cut [t]" using assms(3) [rule_format, of 0] by (auto simp: clean_cut_def hd_conv_nth)
  from dom.cuts_agree [OF assms(1) clean_blocks [OF assms(3)] this _ rest_at_start, of dom_start]
  show ?thesis unfolding iks_load_feed [OF assms(2)] iks_tree_feed
    by (cases "feed alloc dom_hooks (blocks_of t) (iks_sax_extend, dom_start)"; cases "feed alloc dom_hooks [t] (iks_sax_extend, dom_start)")
      (auto simp: concat_blocks split: if_splits)
qed

text \<open>A long file, whose blocks end in the middle of its text.\<close>

definition block_reads :: "string \<Rightarrow> nat \<Rightarrow> string \<times> bool" where
  "block_reads t i = (take 4096 (drop (4096 * i) t), length t < 4096 * i + 4096)"

lemma block_reads_file: "reads_file t (block_reads t)"
  by (auto simp: reads_file_def block_reads_def)

lemma ascii_blocks: "\<forall>c \<in> set t. ascii c \<Longrightarrow> \<forall>i. 4096 * i < length t \<longrightarrow> \<not> cont_byte (t ! (4096 * i))"
  using ascii_not_cont by (force simp: ascii_def)

theorem iks_load_is_iks_tree_witness:
  "map_option (\<lambda>(r, x). (r, if r = IKS_XML IKS_OK then x else None))
      (iks_load (\<lambda>n. Some (replicate n NUL)) True True Opened (block_reads (''<a>'' @ replicate 5000 CHR ''x'' @ ''</a>'')))
    = map_option (\<lambda>(x, e). (IKS_XML e, if e = IKS_OK then x else None))
      (iks_tree (\<lambda>n. Some (replicate n NUL)) True (''<a>'' @ replicate 5000 CHR ''x'' @ ''</a>'') (length (''<a>'' @ replicate 5000 CHR ''x'' @ ''</a>'')))"
proof (rule iks_load_is_iks_tree [OF _ block_reads_file ascii_blocks])
  show "roomy (\<lambda>n. Some (replicate n NUL))" by (simp add: roomy_def)
  show "\<forall>c \<in> set (''<a>'' @ replicate 5000 CHR ''x'' @ ''</a>''). ascii c" by (simp add: ascii_def byte_of_def)
qed

text \<open>
  C6. What \<^verbatim>\<open>iks_save\<close> stores of a printable tree, \<^verbatim>\<open>iks_load\<close> gives back, as long as no block of the file
  starts inside a character.
\<close>

theorem save_load_round_trip:
  assumes "roomy alloc" and "node_ok (IksTag n as cs)"
    and "\<forall>i. 4096 * i < length (node_text (IksTag n as cs)) \<longrightarrow> \<not> cont_byte (node_text (IksTag n as cs) ! (4096 * i))"
  shows "\<exists>t. iks_save alloc True (\<lambda>s. (s, True)) fname (Some (IksTag n as cs)) fs = Some (IKS_XML IKS_OK, fs(fname \<mapsto> t))
    \<and> (\<forall>fread. reads_file t fread \<longrightarrow> iks_load alloc True True Opened fread = Some (IKS_XML IKS_OK, Some (IksTag n as cs)))"
proof -
  let ?x = "IksTag n as cs"
  have sz: "sized alloc" using assms(1) by (rule roomy_sized)
  obtain b where "alloc (length (node_text ?x) + 1) = Some b" using assms(1) by (auto simp: roomy_def)
  moreover have "iks_type (Some ?x) = IKS_TAG" by (simp add: iks_type_def)
  ultimately have "iks_string alloc (Some ?x) = Some (Some (node_text ?x @ [NUL]))"
    using iks_string_fills_block [OF sz, of ?x] by simp
  moreover have "c_str (node_text ?x @ [NUL]) = node_text ?x"
    using node_text_no_nul(1) [OF assms(2)] by (rule c_str_terminated)
  ultimately have "iks_save alloc True (\<lambda>s. (s, True)) fname (Some ?x) fs = Some (IKS_XML IKS_OK, fs(fname \<mapsto> node_text ?x))"
    by (simp add: iks_save_def del: node_text.simps)
  moreover have "iks_load alloc True True Opened fread = Some (IKS_XML IKS_OK, Some ?x)" if "reads_file (node_text ?x) fread" for fread
    using document_feed [OF assms(1) clean_blocks [OF assms(3)] _ assms(2), unfolded concat_blocks, OF printed_form(1) [OF assms(2)]]
    unfolding iks_load_feed [OF that] by auto
  ultimately show ?thesis by blast
qed

theorem save_load_round_trip_witness:
  "\<exists>t. iks_save (\<lambda>n. Some (replicate n NUL)) True (\<lambda>s. (s, True)) ''cdog.xml'' (Some (IksTag ''config'' [] [IksTag ''ip'' [] [IksCData ''10.0.0.1'']])) Map.empty
      = Some (IKS_XML IKS_OK, [''cdog.xml'' \<mapsto> t])
    \<and> (\<forall>fread. reads_file t fread
        \<longrightarrow> iks_load (\<lambda>n. Some (replicate n NUL)) True True Opened fread = Some (IKS_XML IKS_OK, Some (IksTag ''config'' [] [IksTag ''ip'' [] [IksCData ''10.0.0.1'']])))"
proof (rule save_load_round_trip)
  show "\<forall>i. 4096 * i < length (node_text (IksTag ''config'' [] [IksTag ''ip'' [] [IksCData ''10.0.0.1'']]))
    \<longrightarrow> \<not> cont_byte (node_text (IksTag ''config'' [] [IksTag ''ip'' [] [IksCData ''10.0.0.1'']]) ! (4096 * i))"
    by (rule ascii_blocks) (simp add: ascii_def byte_of_def escape_char.simps)
qed (simp_all add: roomy_def name_ok_def tag_name_ok_def attrs_ok_def tag_char_def is_whitespace_def ascii_def byte_of_def is_cdata_def)

text \<open>
  A closing tag with another name than the open element is an error: \<^verbatim>\<open>iks_tree\<close> answers
  \<open>IKS_BADXML\<close> whatever follows.
\<close>

theorem wrong_closing_tag_is_badxml:
  assumes "roomy alloc" and "node_ok (IksTag n as cs)" and "name_ok k" and "k \<noteq> n"
    and "t = tag_text n as IKS_OPEN @ nodes_text cs @ ''</'' @ k @ ''>'' @ s"
  shows "\<exists>x. iks_tree alloc True t (length t) = Some (x, IKS_BADXML)"
proof -
  have ok: "name_ok n" "attrs_ok as" "nodes_ok cs" using assms(2) by simp_all
  have "dom_tagHook (dom_start\<lparr>dom_current := [(n, as, cs)]\<rparr>) k [] IKS_CLOSE
      = Some (IKS_BADXML, dom_start\<lparr>dom_current := [(n, as, cs)]\<rparr>)"
    using assms(4) name_no_nul [OF ok(1)] name_no_nul [OF assms(3)] by (simp add: dom_end dom_close_def iks_strcmp_0_iff)
  then obtain l u where "lx_run dom_tagHook dom_cdataHook (concat [t]) dom_start lexer_start = Some (l, u, IKS_BADXML)"
    using dom_tree.close_run [OF ok(1,2) dom_tree.children_run(2) [OF printed_form(2) [OF ok(3)] ok(3)] _ dom_idle name_no_nul [OF ok(1)] _ assms(3), where k = 0 and s = s and u = dom_start]
    unfolding assms(5) tag_text_spaced by (auto simp: goes_on_def dom_start_def)
  moreover have "clean_cut [t]" unfolding assms(5) tag_text_def append_Cons by (simp only: angle_clean)
  ultimately obtain z where "feed alloc dom_hooks [t] (iks_sax_extend, dom_start) = Some (z, IKS_BADXML)"
    using dom.feed_agrees [OF rest_at_start assms(1), of "[t]" dom_start] by auto
  then show ?thesis unfolding iks_tree_feed by auto
qed

theorem wrong_closing_tag_is_badxml_witness:
  "\<exists>x. iks_tree (\<lambda>n. Some (replicate n NUL)) True ''<a>x</b></a>'' (length ''<a>x</b></a>'') = Some (x, IKS_BADXML)"
  using wrong_closing_tag_is_badxml [of "\<lambda>n. Some (replicate n NUL)" "''a''" "[]" "[IksCData ''x'']" "''b''" "''<a>x</b></a>''" "''</a>''"]
  by (simp add: roomy_def name_ok_def tag_name_ok_def attrs_ok_def tag_char_def is_whitespace_def ascii_def byte_of_def
      is_cdata_def tag_text_def raw_attrs_def escape_char.simps)

lemma unfinished_run:
  assumes "node_ok (IksTag n as cs)"
  shows "\<exists>l. lx_run dom_tagHook dom_cdataHook (tag_text n as IKS_OPEN @ nodes_text cs) dom_start lexer_start
    = Some (l, dom_start\<lparr>dom_current := [(n, as, cs)]\<rparr>, IKS_OK)"
proof -
  have ok: "name_ok n" "attrs_ok as" "nodes_ok cs" using assms by simp_all
  show ?thesis
    using dom_tree.open_run [OF ok(1,2) dom_tree.children_run(2) [OF printed_form(2) [OF ok(3)] ok(3)] _ dom_idle name_no_nul [OF ok(1)], where k = 0 and s = "[]" and u = dom_start]
    unfolding tag_text_spaced
    by (auto simp: ok_def dom_start_def elim: goes_onD)
qed

lemma unfinished_load:
  assumes "roomy alloc" and "node_ok (IksTag n as cs)" and "t = tag_text n as IKS_OPEN @ nodes_text cs"
    and "reads_file t fread" and "\<forall>i. 4096 * i < length t \<longrightarrow> \<not> cont_byte (t ! (4096 * i))"
  shows "iks_load alloc True True Opened fread = Some (IKS_XML IKS_OK, None)"
  using unfinished_run [OF assms(2)] dom.feed_agrees [OF rest_at_start assms(1) clean_blocks [OF assms(5)], of dom_start]
  unfolding concat_blocks iks_load_feed [OF assms(4)] assms(3) by (auto simp: dom_start_def)

text \<open>
  An unfinished document is no error: when the text ends before the closing tag of the root,
  loading answers \<open>IKS_OK\<close> and gives no tree.
\<close>

theorem unfinished_document_is_ok:
  assumes "roomy alloc" and "node_ok (IksTag n as cs)" and "t = tag_text n as IKS_OPEN @ nodes_text cs"
    and "reads_file t fread" and "\<forall>i. 4096 * i < length t \<longrightarrow> \<not> cont_byte (t ! (4096 * i))"
  shows "iks_load alloc True True Opened fread = Some (IKS_XML IKS_OK, None)"
  using unfinished_load [OF assms] .

theorem unfinished_document_is_ok_witness:
  "iks_load (\<lambda>n. Some (replicate n NUL)) True True Opened (block_reads ''<config>10.0.0.1'') = Some (IKS_XML IKS_OK, None)"
proof (rule unfinished_document_is_ok [OF _ _ _ block_reads_file ascii_blocks])
  show "''<config>10.0.0.1'' = tag_text ''config'' [] IKS_OPEN @ nodes_text [IksCData ''10.0.0.1'']"
    by (simp add: tag_text_def raw_attrs_def escape_char.simps)
qed (simp_all add: roomy_def name_ok_def tag_name_ok_def attrs_ok_def tag_char_def is_whitespace_def ascii_def byte_of_def is_cdata_def)

end
