(* ===== verification/DogBoot.thy ===== *)
theory DogBoot
  imports DogServer Dom
begin

text \<open>
  The configuration file of the server: \<^verbatim>\<open>Load_Config\<close> of \<^verbatim>\<open>src/CuteDog/cdogEar.c\<close> with the tree
  parser of theory \<open>Dom\<close> that reads \<^verbatim>\<open>cdog.xml\<close>, and what becomes of the start of the server.
\<close>

text \<open>
  The result of \<^verbatim>\<open>iks_load\<close> is printed and otherwise ignored; \<open>fopen\<close> and \<open>fread\<close> answer the calls on the
  file.
\<close>

definition Load_Config_file ::
  "(nat \<Rightarrow> string option) \<Rightarrow> fopen_result \<Rightarrow> (nat \<Rightarrow> string \<times> bool) \<Rightarrow> SERVER \<Rightarrow> (bool \<times> SERVER) option" where
  "Load_Config_file alloc fopen fread server = do {
     (e, x) \<leftarrow> iks_load alloc True True fopen fread;
     Load_Config x server
   }"

definition InitServer_file ::
  "(nat \<Rightarrow> string option) \<Rightarrow> fopen_result \<Rightarrow> (nat \<Rightarrow> string \<times> bool) \<Rightarrow> init_env \<Rightarrow> listen_env \<Rightarrow> SERVER \<Rightarrow> dogstate
     \<Rightarrow> (init_error + SERVER \<times> int \<times> dogstate) option" where
  "InitServer_file alloc fopen fread env le server s = do {
     r \<leftarrow> init_memory env s;
     case r of
       Inl e \<Rightarrow> Some (Inl e)
     | Inr _ \<Rightarrow> do {
         (e, x) \<leftarrow> iks_load alloc True True fopen fread;
         InitServer env x le server s
       }
   }"

lemma InitServer_refused: "init_memory env s = Some (Inr t) \<Longrightarrow> Load_Config x server = Some (False, server') \<Longrightarrow>
    InitServer env x le server s = Some (Inl E_CONFIG)"
  by (simp add: InitServer_def)

lemma InitServer_config:
  assumes "init_memory env s = Some (Inr t)"
  shows "InitServer env (Some (IksTag n as cs)) le server s
    = (case cs of IksCData _ # _ \<Rightarrow> None | _ \<Rightarrow> Some (Inl E_CONFIG))"
proof -
  have "iks_find (Some (IksTag n as cs)) ''end'' \<noteq> None" by (simp add: iks_find_def IKS_TAG_CHILDREN_def)
  then show ?thesis using assms
    by (auto simp: InitServer_def Load_Config_def CreateSocketListen_def iks_child_def IKS_TAG_CHILDREN_def
        split: list.split iks.split Option.bind_split)
qed

text \<open>
  C40. The start with a readable configuration file has no good end: when the root element starts
  with text, as in the file that comes with the program, the server reads what is missing or
  has been freed, and otherwise it refuses the file.
\<close>

theorem start_from_file_outcomes:
  assumes "roomy alloc" and "node_ok (IksTag n as cs)" and "reads_file (node_text (IksTag n as cs)) fread"
    and "\<forall>i. 4096 * i < length (node_text (IksTag n as cs)) \<longrightarrow> \<not> cont_byte (node_text (IksTag n as cs) ! (4096 * i))"
    and "init_memory env s = Some (Inr t)"
  shows "InitServer_file alloc Opened fread env le server s
    = (case cs of IksCData _ # _ \<Rightarrow> None | _ \<Rightarrow> Some (Inl E_CONFIG))"
proof -
  have "iks_load alloc True True Opened fread = Some (IKS_XML IKS_OK, Some (IksTag n as cs))"
    using document_feed [OF assms(1) clean_blocks [OF assms(4)] _ assms(2), unfolded concat_blocks, OF printed_form(1) [OF assms(2)]]
    unfolding iks_load_feed [OF assms(3)] by auto
  then show ?thesis using InitServer_config [OF assms(5)] assms(5) by (simp add: InitServer_file_def)
qed

lemma plenty_memory: "\<exists>t. init_memory plenty yard = Some (Inr t)"
proof -
  have mem: "all_given is (ie_in plenty)" "all_given is (ie_cell plenty)" for "is" by (simp_all add: all_given_def plenty_def)
  have r: "length (ie_ring plenty) = DOG2CATIOMSGNUM" "length (ie_ring_free plenty) = DOG2CATIOMSGNUM"
    by (simp_all add: plenty_def)
  from init_memory_ok [OF yard_start_indices mem r] show ?thesis by blast
qed

theorem start_from_file_outcomes_witness:
  "InitServer_file (\<lambda>n. Some (replicate n NUL)) Opened (block_reads (node_text cdog_xml)) plenty
     \<lparr>le_socket = Some 3, le_setsockopt = True, le_bind = True, le_listen = True\<rparr>
     \<lparr>sv_strIP = None, sv_port = 0, sv_bpf = []\<rparr> yard = None"
proof -
  obtain t where t: "init_memory plenty yard = Some (Inr t)" using plenty_memory by blast
  have x: "node_ok cdog_xml"
    by (simp add: cdog_xml_def name_ok_def tag_name_ok_def attrs_ok_def tag_char_def is_whitespace_def ascii_def byte_of_def is_cdata_def)
  have b: "\<forall>i. 4096 * i < length (node_text cdog_xml) \<longrightarrow> \<not> cont_byte (node_text cdog_xml ! (4096 * i))"
    by (rule ascii_blocks) (simp add: cdog_xml_def ascii_def byte_of_def escape_char.simps)
  have r: "roomy (\<lambda>n. Some (replicate n NUL))" by (simp add: roomy_def)
  from start_from_file_outcomes [OF r x [unfolded cdog_xml_def] block_reads_file b [unfolded cdog_xml_def] t]
  show ?thesis unfolding cdog_xml_def by (simp del: node_text.simps)
qed

text \<open>
  A configuration file that was cut off before its last tag is not an error of the parser, and
  the start of the server ends without a message about it.
\<close>

theorem unfinished_file_is_refused:
  assumes "roomy alloc" and "node_ok (IksTag n as cs)" and "t = tag_text n as IKS_OPEN @ nodes_text cs"
    and "reads_file t fread" and "\<forall>i. 4096 * i < length t \<longrightarrow> \<not> cont_byte (t ! (4096 * i))"
    and "init_memory env s = Some (Inr s')"
  shows "InitServer_file alloc Opened fread env le server s = Some (Inl E_CONFIG)"
proof -
  have "iks_load alloc True True Opened fread = Some (IKS_XML IKS_OK, None)"
    using unfinished_load [OF assms(1-5)] .
  moreover have "Load_Config None server = Some (False, server)" by (simp add: Load_Config_def iks_find_def iks_child_def)
  ultimately show ?thesis using InitServer_refused [OF assms(6)] assms(6) by (simp add: InitServer_file_def)
qed

end
