(* ===== verification/HexDump.thy ===== *)
theory HexDump
  imports Prelude
begin

text \<open>
  The hex dumps of \<^verbatim>\<open>src/CuteDog/cdogNose.c\<close> and \<^verbatim>\<open>src/CuteCat/CuteCat/print.c\<close>
  and the client's \<^verbatim>\<open>find_and_printf_sn\<close>.  A function returns what it prints; its
  local arrays are blocks with checked writes, and \<^verbatim>\<open>snprintf\<close> is given the
  \<^verbatim>\<open>size_t\<close> bound that the code computes, which wraps when the cursor has left the array.
\<close>

section \<open>Formatted writes\<close>

definition snprintf_at :: "nat \<Rightarrow> string \<Rightarrow> string \<Rightarrow> string option" where
  "snprintf_at off s mem =
     (let n = nat ((int (length mem) - int off) mod 2 ^ 64) in
      if n = 0 then Some mem else write_at off (take (n - 1) s @ [NUL]) mem)"

definition isgraph :: "byte \<Rightarrow> bool" where
  "isgraph b \<longleftrightarrow> 33 \<le> unat b \<and> unat b \<le> 126"

definition ascii_char :: "byte \<Rightarrow> char" where
  "ascii_char b = (if isgraph b then char_of (unat b) else CHR ''.'')"

definition hex2 :: "byte \<Rightarrow> string" where \<comment> \<open>\<^verbatim>\<open>%02x\<close>\<close>
  "hex2 b = fmt_0x 2 (unat b)"

definition dump_line :: "string \<Rightarrow> nat \<Rightarrow> nat \<Rightarrow> string \<Rightarrow> string \<Rightarrow> string" where
  "dump_line ident oset width hex asc =
     ident @ ''0x'' @ fmt_0x 4 oset @ '': '' @ pad_right width hex @ ''  '' @ asc"

definition HEXDUMP_BYTES_PER_LINE :: nat where
  "HEXDUMP_BYTES_PER_LINE = 16"

definition HEXDUMP_SHORTS_PER_LINE :: nat where
  "HEXDUMP_SHORTS_PER_LINE = HEXDUMP_BYTES_PER_LINE div 2"

definition HEXDUMP_HEXSTUFF_PER_SHORT :: nat where
  "HEXDUMP_HEXSTUFF_PER_SHORT = 5"

definition HEXDUMP_HEXSTUFF_PER_LINE :: nat where
  "HEXDUMP_HEXSTUFF_PER_LINE = HEXDUMP_HEXSTUFF_PER_SHORT * HEXDUMP_SHORTS_PER_LINE"

definition ASCII_LINELENGTH :: nat where
  "ASCII_LINELENGTH = 300"

lemmas hexdump_consts = HEXDUMP_BYTES_PER_LINE_def HEXDUMP_SHORTS_PER_LINE_def
  HEXDUMP_HEXSTUFF_PER_SHORT_def HEXDUMP_HEXSTUFF_PER_LINE_def ASCII_LINELENGTH_def

section \<open>Lines of sixteen bytes\<close>

text \<open>The locals: both arrays, the cursors into them, the count of pairs, the offset, the output.\<close>

record dump =
  hexstuff :: string
  hsp :: nat
  asciistuff :: string
  asp :: nat
  shorts :: nat
  oset :: nat
  printed :: string

definition put_pair :: "byte \<Rightarrow> byte \<Rightarrow> dump \<Rightarrow> dump option" where
  "put_pair s1 s2 d = do {
     h \<leftarrow> snprintf_at (hsp d) ('' '' @ hex2 s1 @ hex2 s2) (hexstuff d);
     a \<leftarrow> write_at (asp d) [ascii_char s1] (asciistuff d);
     a \<leftarrow> write_at (asp d + 1) [ascii_char s2] a;
     Some (d\<lparr>hexstuff := h, hsp := hsp d + HEXDUMP_HEXSTUFF_PER_SHORT, asciistuff := a,
       asp := asp d + 2, shorts := shorts d + 1\<rparr>)
   }"

definition put_single :: "byte \<Rightarrow> dump \<Rightarrow> dump option" where
  "put_single s1 d = do {
     h \<leftarrow> snprintf_at (hsp d) ('' '' @ hex2 s1) (hexstuff d);
     a \<leftarrow> write_at (asp d) [ascii_char s1] (asciistuff d);
     Some (d\<lparr>hexstuff := h, hsp := hsp d + 3, asciistuff := a, asp := asp d + 1,
       shorts := shorts d + 1\<rparr>)
   }"

text \<open>\<^verbatim>\<open>*hsp = *asp = 0\<close> and the line's \<^verbatim>\<open>printf\<close>.\<close>

definition print_line :: "string \<Rightarrow> nat \<Rightarrow> nat \<Rightarrow> dump \<Rightarrow> dump option" where
  "print_line ident os width d = do {
     a \<leftarrow> write_at (asp d) [NUL] (asciistuff d);
     h \<leftarrow> write_at (hsp d) [NUL] (hexstuff d);
     hs \<leftarrow> c_str_at 0 h;
     as \<leftarrow> c_str_at 0 a;
     Some (d\<lparr>hexstuff := h, asciistuff := a, printed := printed d @ dump_line ident os width hs as\<rparr>)
   }"

fun dump_loop :: "string \<Rightarrow> nat \<Rightarrow> byte list \<Rightarrow> dump \<Rightarrow> (byte list \<times> dump) option" where
  "dump_loop ident 0 cp d = Some (cp, d)"
| "dump_loop ident (Suc nshorts) cp d = do {
     s1 \<leftarrow> nth_opt cp 0;
     s2 \<leftarrow> nth_opt cp 1;
     d \<leftarrow> put_pair s1 s2 d;
     d \<leftarrow> (if HEXDUMP_SHORTS_PER_LINE \<le> shorts d then do {
            d \<leftarrow> print_line ident (oset d) HEXDUMP_HEXSTUFF_PER_LINE d;
            Some (d\<lparr>shorts := 0, hsp := 0, asp := 0,
              oset := (oset d + HEXDUMP_BYTES_PER_LINE) mod 2 ^ 32\<rparr>)
          } else Some d);
     dump_loop ident nshorts (drop 2 cp) d
   }"

text \<open>\<open>h\<close> and \<open>a\<close> are the uninitialised contents of the local arrays.\<close>

definition hex_and_ascii_print_with_offset ::
  "string \<Rightarrow> string \<Rightarrow> string \<Rightarrow> byte list \<Rightarrow> nat \<Rightarrow> nat \<Rightarrow> string option" where
  "hex_and_ascii_print_with_offset h a ident cp len os = do {
     x \<leftarrow> dump_loop ident (len div 2) cp
       \<lparr>hexstuff = h, hsp = 0, asciistuff = a, asp = 0, shorts = 0, oset = os, printed = []\<rparr>;
     d \<leftarrow> (if odd len then do { s1 \<leftarrow> nth_opt (fst x) 0; put_single s1 (snd x) } else Some (snd x));
     d \<leftarrow> (if 0 < shorts d then print_line ident (oset d) HEXDUMP_HEXSTUFF_PER_LINE d else Some d);
     Some (printed d)
   }"

section \<open>The server's one-line dump\<close>

fun print_loop :: "nat \<Rightarrow> byte list \<Rightarrow> dump \<Rightarrow> (byte list \<times> dump) option" where
  "print_loop 0 cp d = Some (cp, d)"
| "print_loop (Suc nshorts) cp d = do {
     s1 \<leftarrow> nth_opt cp 0;
     s2 \<leftarrow> nth_opt cp 1;
     d \<leftarrow> put_pair s1 s2 d;
     print_loop nshorts (drop 2 cp) d
   }"

definition line_break :: string where
  "line_break = [CHR 0x0A, CHR 0x09]"

definition hex_and_ascii_print :: "string \<Rightarrow> string \<Rightarrow> byte list \<Rightarrow> nat \<Rightarrow> string option" where
  "hex_and_ascii_print h a cp len = do {
     x \<leftarrow> print_loop (len div 2) cp
       \<lparr>hexstuff = h, hsp = 0, asciistuff = a, asp = 0, shorts = 0, oset = 0, printed = []\<rparr>;
     d \<leftarrow> (if odd len then do { s1 \<leftarrow> nth_opt (fst x) 0; put_single s1 (snd x) } else Some (snd x));
     d \<leftarrow> (if 0 < shorts d then print_line line_break 32 32 d else Some d);
     Some (printed d)
   }"

section \<open>The client's dumps\<close>

definition cat_hex_and_ascii_print :: "string \<Rightarrow> string \<Rightarrow> string \<Rightarrow> byte list \<Rightarrow> nat \<Rightarrow> string option" where
  "cat_hex_and_ascii_print h a ident cp len = hex_and_ascii_print_with_offset h a ident cp len 0"

text \<open>The counter and offset of \<^verbatim>\<open>hex_print_with_offset\<close>, and what is printed so far.\<close>

fun hex_print_loop ::
  "string \<Rightarrow> nat \<Rightarrow> byte list \<Rightarrow> nat \<Rightarrow> nat \<Rightarrow> string \<Rightarrow> (byte list \<times> nat \<times> nat \<times> string) option" where
  "hex_print_loop ident 0 cp i os out = Some (cp, i, os, out)"
| "hex_print_loop ident (Suc nshorts) cp i os out = do {
     y \<leftarrow> Some (if i mod 8 = 0
       then ((os + HEXDUMP_BYTES_PER_LINE) mod 2 ^ 32, out @ ident @ ''0x'' @ fmt_0x 4 os @ '': '')
       else (os, out));
     s \<leftarrow> nth_opt cp 0;
     s2 \<leftarrow> nth_opt cp 1;
     hex_print_loop ident nshorts (drop 2 cp) (i + 1) (fst y) (snd y @ '' '' @ hex2 s @ hex2 s2)
   }"

definition hex_print_with_offset :: "string \<Rightarrow> byte list \<Rightarrow> nat \<Rightarrow> nat \<Rightarrow> string option" where
  "hex_print_with_offset ident cp len os = do {
     x \<leftarrow> hex_print_loop ident (len div 2) cp 0 os [];
     case x of (cp, i, os, out) \<Rightarrow>
       if odd len then do {
         s \<leftarrow> nth_opt cp 0;
         Some (out @ (if i mod 8 = 0 then ident @ ''0x'' @ fmt_0x 4 os @ '': '' else []) @ '' '' @ hex2 s)
       } else Some out
   }"

section \<open>What a dump looks like\<close>

fun hex_of :: "byte list \<Rightarrow> string" where
  "hex_of (a # b # bs) = '' '' @ hex2 a @ hex2 b @ hex_of bs"
| "hex_of [a] = '' '' @ hex2 a"
| "hex_of [] = []"

definition line_of :: "string \<Rightarrow> nat \<Rightarrow> byte list \<Rightarrow> string" where
  "line_of ident os bs = dump_line ident os 40 (hex_of bs) (map ascii_char bs)"

fun dump_spec :: "string \<Rightarrow> nat \<Rightarrow> byte list \<Rightarrow> string" where
  "dump_spec ident os bs =
     (if bs = [] then []
      else line_of ident os (take 16 bs) @ dump_spec ident ((os + 16) mod 2 ^ 32) (drop 16 bs))"

declare dump_spec.simps [simp del]

lemma length_hex2: "length (hex2 b) = 2"
proof -
  have "unat b < 2 ^ LENGTH(8)" by (rule unsigned_less)
  then have "length (show_base 16 (unat b)) \<le> 2"
    using length_show_base_le [of 16 "unat b" 1] by simp
  then show ?thesis by (simp add: hex2_def fmt_0x_def pad_left_def)
qed

lemma no_nul_hex2: "no_nul (hex2 b)"
  using show_base_no_nul [of 16 "unat b"]
  by (auto simp: hex2_def fmt_0x_def pad_left_def no_nul_def)

lemma ascii_char_not_nul: "ascii_char b \<noteq> NUL"
proof
  assume n: "ascii_char b = NUL"
  then have "isgraph b" "char_of (unat b) = NUL" by (auto simp: ascii_char_def split: if_splits)
  then have "of_char (char_of (unat b) :: char) = (0 :: nat)" "33 \<le> unat b" "unat b \<le> 126"
    by (simp_all add: isgraph_def)
  then show False by simp
qed

lemma no_nul_map_ascii: "no_nul (map ascii_char bs)"
  using ascii_char_not_nul by (auto simp: no_nul_def) metis

lemma no_nul_hex_of: "no_nul (hex_of bs)"
  by (induction bs rule: hex_of.induct) (simp_all add: no_nul_hex2)

lemma length_hex_of: "length (hex_of bs) = 5 * (length bs div 2) + (if odd (length bs) then 3 else 0)"
  by (induction bs rule: hex_of.induct) (simp_all add: length_hex2)

lemma hex_of_append: "even (length xs) \<Longrightarrow> hex_of (xs @ ys) = hex_of xs @ hex_of ys"
  by (induction xs rule: hex_of.induct) simp_all

section \<open>The arrays hold what was formatted\<close>

text \<open>\<open>H\<close> and \<open>A\<close> are the sizes of the arrays, \<open>bs\<close> the bytes formatted into them.\<close>

definition dump_rep :: "nat \<Rightarrow> nat \<Rightarrow> byte list \<Rightarrow> dump \<Rightarrow> bool" where
  "dump_rep H A bs d \<longleftrightarrow> length (hexstuff d) = H \<and> length (asciistuff d) = A
     \<and> hsp d = length (hex_of bs) \<and> take (hsp d) (hexstuff d) = hex_of bs \<and> hsp d < H
     \<and> asp d = length bs \<and> take (asp d) (asciistuff d) = map ascii_char bs \<and> asp d < A
     \<and> shorts d = (length bs + 1) div 2"

lemma snprintf_at_fits:
  assumes "off + length s < length mem" "length mem < 2 ^ 63"
  shows "snprintf_at off s mem = Some (take off mem @ s @ NUL # drop (off + length s + 1) mem)"
proof -
  have "nat ((int (length mem) - int off) mod 2 ^ 64) = length mem - off"
  proof -
    have "int (length mem) < 2 ^ 63"
      using assms(2) by (metis of_nat_less_iff of_nat_numeral of_nat_power)
    then have "(int (length mem) - int off) mod 2 ^ 64 = int (length mem) - int off"
      using assms(1) by (intro mod_pos_pos_trivial) auto
    then show ?thesis by simp
  qed
  then show ?thesis using assms by (simp add: snprintf_at_def write_at_def)
qed

lemma write_1: "off < length mem \<Longrightarrow> write_at off [x] mem = Some (take off mem @ x # drop (off + 1) mem)"
  by (simp add: write_at_def)

lemma put_pair_rep:
  assumes "dump_rep H A bs d" "even (length bs)" "hsp d + 5 < H" "asp d + 2 < A" "H < 2 ^ 63"
  shows "\<exists>d'. put_pair s1 s2 d = Some d' \<and> dump_rep H A (bs @ [s1, s2]) d'
    \<and> oset d' = oset d \<and> printed d' = printed d"
proof -
  let ?s = "'' '' @ hex2 s1 @ hex2 s2"
  have l: "length ?s = 5" by (simp add: length_hex2)
  have h: "snprintf_at (hsp d) ?s (hexstuff d)
      = Some (take (hsp d) (hexstuff d) @ ?s @ NUL # drop (hsp d + length ?s + 1) (hexstuff d))"
    using assms l by (intro snprintf_at_fits) (simp_all add: dump_rep_def)
  have a1: "write_at (asp d) [ascii_char s1] (asciistuff d)
      = Some (take (asp d) (asciistuff d) @ ascii_char s1 # drop (asp d + 1) (asciistuff d))"
    using assms by (intro write_1) (simp add: dump_rep_def)
  let ?a = "take (asp d) (asciistuff d) @ ascii_char s1 # drop (asp d + 1) (asciistuff d)"
  have a2: "write_at (asp d + 1) [ascii_char s2] ?a
      = Some (take (asp d + 1) ?a @ ascii_char s2 # drop (asp d + 2) ?a)"
    using assms by (subst write_1) (simp_all add: dump_rep_def)
  have ho: "hex_of (bs @ [s1, s2]) = hex_of bs @ ?s" using assms(2) by (simp add: hex_of_append)
  show ?thesis
    unfolding put_pair_def h a1 Option.bind.simps a2 dump_rep_def ho
    using assms l by (auto simp: dump_rep_def hexdump_consts)
qed

lemma put_single_rep:
  assumes "dump_rep H A bs d" "even (length bs)" "hsp d + 3 < H" "asp d + 1 < A" "H < 2 ^ 63"
  shows "\<exists>d'. put_single s1 d = Some d' \<and> dump_rep H A (bs @ [s1]) d'
    \<and> oset d' = oset d \<and> printed d' = printed d"
proof -
  let ?s = "'' '' @ hex2 s1"
  have l: "length ?s = 3" by (simp add: length_hex2)
  have h: "snprintf_at (hsp d) ?s (hexstuff d)
      = Some (take (hsp d) (hexstuff d) @ ?s @ NUL # drop (hsp d + length ?s + 1) (hexstuff d))"
    using assms l by (intro snprintf_at_fits) (simp_all add: dump_rep_def)
  have a1: "write_at (asp d) [ascii_char s1] (asciistuff d)
      = Some (take (asp d) (asciistuff d) @ ascii_char s1 # drop (asp d + 1) (asciistuff d))"
    using assms by (intro write_1) (simp add: dump_rep_def)
  have ho: "hex_of (bs @ [s1]) = hex_of bs @ ?s" using assms(2) by (simp add: hex_of_append)
  show ?thesis
    unfolding put_single_def h a1 Option.bind.simps dump_rep_def ho
    using assms l by (auto simp: dump_rep_def)
qed

lemma print_line_rep:
  assumes "dump_rep H A bs d"
  shows "\<exists>d'. print_line ident os w d = Some d' \<and> length (hexstuff d') = H \<and> length (asciistuff d') = A
    \<and> oset d' = oset d
    \<and> printed d' = printed d @ dump_line ident os w (hex_of bs) (map ascii_char bs)"
proof -
  have h: "write_at (hsp d) [NUL] (hexstuff d) = Some (hex_of bs @ NUL # drop (hsp d + 1) (hexstuff d))"
    and a: "write_at (asp d) [NUL] (asciistuff d)
      = Some (map ascii_char bs @ NUL # drop (asp d + 1) (asciistuff d))"
  proof -
    have "hsp d < length (hexstuff d)" "take (hsp d) (hexstuff d) = hex_of bs"
      "asp d < length (asciistuff d)" "take (asp d) (asciistuff d) = map ascii_char bs"
      using assms unfolding dump_rep_def by blast+
    then show "write_at (hsp d) [NUL] (hexstuff d) = Some (hex_of bs @ NUL # drop (hsp d + 1) (hexstuff d))"
      "write_at (asp d) [NUL] (asciistuff d) = Some (map ascii_char bs @ NUL # drop (asp d + 1) (asciistuff d))"
      by (simp_all only: write_1)
  qed
  have c: "c_str_at 0 (hex_of bs @ NUL # x) = Some (hex_of bs)"
    "c_str_at 0 (map ascii_char bs @ NUL # x) = Some (map ascii_char bs)" for x
    by (simp_all add: c_str_at_def c_str_terminated no_nul_hex_of no_nul_map_ascii)
  show ?thesis
    unfolding print_line_def h a Option.bind.simps c using assms by (auto simp: dump_rep_def)
qed

section \<open>The loop\<close>

lemma hexstuff_size: "dump_rep 41 301 bs d \<Longrightarrow> length bs < 16 \<Longrightarrow> even (length bs) \<Longrightarrow> hsp d + 5 < 41"
  by (auto simp: dump_rep_def length_hex_of)

lemma dump_spec_line:
  "length bs = 16 \<Longrightarrow> dump_spec ident os (bs @ xs) = line_of ident os bs @ dump_spec ident ((os + 16) mod 2 ^ 32) xs"
  by (subst dump_spec.simps) auto

lemma dump_spec_short:
  "bs \<noteq> [] \<Longrightarrow> length bs \<le> 16 \<Longrightarrow> dump_spec ident os bs = line_of ident os bs"
  by (subst dump_spec.simps) (simp add: dump_spec.simps [of _ _ "[]"])

lemma dump_rep_reset:
  "length (hexstuff d) = 41 \<Longrightarrow> length (asciistuff d) = 301 \<Longrightarrow> hsp d = 0 \<Longrightarrow> asp d = 0 \<Longrightarrow>
     shorts d = 0 \<Longrightarrow> dump_rep 41 301 [] d"
  by (simp add: dump_rep_def)

text \<open>One round: the pair joins the current line, which is printed when it is full.\<close>

lemma dump_loop_rep:
  "dump_rep 41 301 cur d \<Longrightarrow> even (length cur) \<Longrightarrow> length cur < 16 \<Longrightarrow> 2 * k \<le> length cp \<Longrightarrow>
     \<exists>cur' d'. dump_loop ident k cp d = Some (drop (2 * k) cp, d') \<and> dump_rep 41 301 cur' d'
       \<and> even (length cur') \<and> length cur' < 16
       \<and> (\<forall>xs. printed d' @ dump_spec ident (oset d') (cur' @ xs)
           = printed d @ dump_spec ident (oset d) (cur @ take (2 * k) cp @ xs))"
proof (induction k arbitrary: cur d cp)
  case 0
  then show ?case by auto
next
  case (Suc k)
  then obtain a b bs where cp: "cp = a # b # bs"
    by (cases cp; cases "tl cp") auto
  have n: "nth_opt cp 0 = Some a" "nth_opt cp 1 = Some b" "drop 2 cp = bs"
    "drop (2 * Suc k) cp = drop (2 * k) bs" "take (2 * Suc k) cp = a # b # take (2 * k) bs"
    by (simp_all add: cp nth_opt_def)
  obtain d1 where d1: "put_pair a b d = Some d1" "dump_rep 41 301 (cur @ [a, b]) d1"
    "oset d1 = oset d" "printed d1 = printed d"
    using put_pair_rep [OF Suc.prems(1,2) hexstuff_size [OF Suc.prems(1,3,2)], of a b] Suc.prems
    by (auto simp: dump_rep_def)
  have s: "shorts d1 = (length cur + 2) div 2" using d1(2) Suc.prems(2) by (auto simp: dump_rep_def)
  have l: "2 * k \<le> length bs" using Suc.prems(4) by (simp add: cp)
  show ?case
  proof (cases "length cur = 14")
    case False
    then have "length (cur @ [a, b]) < 16" "\<not> HEXDUMP_SHORTS_PER_LINE \<le> shorts d1"
      using Suc.prems(2,3) s by (auto simp: hexdump_consts elim!: evenE)
    with Suc.IH [OF d1(2) _ _ l] Suc.prems(2) d1 n show ?thesis by simp
  next
    case True
    then have "HEXDUMP_SHORTS_PER_LINE \<le> shorts d1" using s by (simp add: hexdump_consts)
    moreover obtain d2 where d2: "print_line ident (oset d1) 40 d1 = Some d2"
      "length (hexstuff d2) = 41" "length (asciistuff d2) = 301" "oset d2 = oset d1"
      "printed d2 = printed d1 @ line_of ident (oset d1) (cur @ [a, b])"
      using print_line_rep [OF d1(2), of ident "oset d1" 40] by (auto simp: line_of_def)
    let ?d3 = "d2\<lparr>shorts := 0, hsp := 0, asp := 0, oset := (oset d2 + HEXDUMP_BYTES_PER_LINE) mod 2 ^ 32\<rparr>"
    have rep: "dump_rep 41 301 [] ?d3" using d2 by (intro dump_rep_reset) simp_all
    have full: "dump_spec ident (oset d) (cur @ a # b # xs)
        = line_of ident (oset d) (cur @ [a, b]) @ dump_spec ident ((oset d + 16) mod 2 ^ 32) xs" for xs
      using dump_spec_line [of "cur @ [a, b]" ident "oset d" xs] True by simp
    have w: "HEXDUMP_HEXSTUFF_PER_LINE = 40" by (simp add: hexdump_consts)
    have "dump_loop ident (Suc k) cp d = dump_loop ident k bs ?d3"
      using d1(1) d2(1) calculation n by (simp add: w)
    with Suc.IH [OF rep _ _ l] show ?thesis
      unfolding n(4,5) using d1(3,4) d2(4,5) full by (simp add: HEXDUMP_BYTES_PER_LINE_def)
  qed
qed

section \<open>The one-line dump and its arrays\<close>

lemma print_loop_rep:
  "dump_rep 1500 1500 cur d \<Longrightarrow> even (length cur) \<Longrightarrow> length cur + 2 * k < 600 \<Longrightarrow> 2 * k \<le> length cp \<Longrightarrow>
     \<exists>d'. print_loop k cp d = Some (drop (2 * k) cp, d') \<and> dump_rep 1500 1500 (cur @ take (2 * k) cp) d'
       \<and> printed d' = printed d"
proof (induction k arbitrary: cur d cp)
  case 0
  then show ?case by auto
next
  case (Suc k)
  then obtain a b bs where cp: "cp = a # b # bs"
    by (cases cp; cases "tl cp") auto
  have n: "nth_opt cp 0 = Some a" "nth_opt cp 1 = Some b" "drop 2 cp = bs"
    "drop (2 * Suc k) cp = drop (2 * k) bs" "take (2 * Suc k) cp = a # b # take (2 * k) bs"
    by (simp_all add: cp nth_opt_def)
  have "hsp d + 5 < 1500" "asp d + 2 < 1500"
    using Suc.prems by (auto simp: dump_rep_def length_hex_of elim!: evenE)
  then obtain d1 where d1: "put_pair a b d = Some d1" "dump_rep 1500 1500 (cur @ [a, b]) d1"
    "printed d1 = printed d"
    using put_pair_rep [OF Suc.prems(1,2), of a b] by auto
  have "2 * k \<le> length bs" using Suc.prems(4) by (simp add: cp)
  with Suc.IH [OF d1(2), of bs] Suc.prems(2,3) d1 n show ?case by simp
qed

lemma put_pair_sizes:
  "put_pair a b d = Some d' \<Longrightarrow> hsp d' = hsp d + 5 \<and> length (hexstuff d') = length (hexstuff d)"
  by (auto simp: put_pair_def snprintf_at_def hexdump_consts Let_def dest: length_write_at
      split: Option.bind_splits if_splits)

lemma put_single_sizes:
  "put_single a d = Some d' \<Longrightarrow> hsp d' = hsp d + 3 \<and> length (hexstuff d') = length (hexstuff d)
     \<and> 0 < shorts d'"
  by (auto simp: put_single_def snprintf_at_def Let_def dest: length_write_at
      split: Option.bind_splits if_splits)

lemma put_pair_shorts: "put_pair a b d = Some d' \<Longrightarrow> shorts d' = Suc (shorts d)"
  by (auto simp: put_pair_def split: Option.bind_splits)

lemma print_loop_sizes:
  "print_loop k cp d = Some x \<Longrightarrow> hsp (snd x) = hsp d + 5 * k
     \<and> length (hexstuff (snd x)) = length (hexstuff d) \<and> shorts (snd x) = shorts d + k"
proof (induction k arbitrary: cp d)
  case (Suc k)
  then obtain a b d1 where "put_pair a b d = Some d1" "print_loop k (drop 2 cp) d1 = Some x"
    by (auto split: Option.bind_splits)
  with Suc.IH [OF this(2)] put_pair_sizes put_pair_shorts show ?case by fastforce
qed auto

lemma print_line_overflow: "length (hexstuff d) \<le> hsp d \<Longrightarrow> print_line ident os w d = None"
  by (auto simp: print_line_def write_at_def split: Option.bind_splits)

section \<open>Properties\<close>

text \<open>
  The line dump stays in its arrays for every input and prints it in lines of sixteen
  bytes, each with its offset, its pairs in hex padded to forty columns, and its characters.
\<close>

theorem hex_dump_lines:
  assumes "length h = 41" and "length a = 301" and "len \<le> length cp"
  shows "hex_and_ascii_print_with_offset h a ident cp len os = Some (dump_spec ident os (take len cp))"
proof -
  let ?d = "\<lparr>hexstuff = h, hsp = 0, asciistuff = a, asp = 0, shorts = 0, oset = os, printed = []\<rparr>"
  let ?k = "len div 2"
  have "dump_rep 41 301 [] ?d" using assms by (simp add: dump_rep_def)
  moreover have "2 * ?k \<le> length cp" using assms(3) div_times_less_eq_dividend [of len 2] by linarith
  ultimately obtain cur d where
    d: "dump_loop ident ?k cp ?d = Some (drop (2 * ?k) cp, d)" "dump_rep 41 301 cur d"
      "even (length cur)" "length cur < 16"
      "\<And>xs. printed d @ dump_spec ident (oset d) (cur @ xs) = dump_spec ident os (take (2 * ?k) cp @ xs)"
    using dump_loop_rep [of "[]" ?d ?k cp ident] by auto
  have line: "(if 0 < shorts d' then print_line ident (oset d') HEXDUMP_HEXSTUFF_PER_LINE d' else Some d')
      \<bind> (\<lambda>d. Some (printed d)) = Some (printed d' @ dump_spec ident (oset d') cur')"
    if "dump_rep 41 301 cur' d'" "length cur' \<le> 16" for d' cur'
  proof (cases "cur' = []")
    case True
    then show ?thesis using that(1) by (simp add: dump_rep_def dump_spec.simps [of _ _ "[]"])
  next
    case False
    then have "0 < shorts d'" using that(1) by (cases cur') (auto simp: dump_rep_def)
    with print_line_rep [OF that(1), of ident "oset d'" 40] dump_spec_short [OF False that(2)]
    show ?thesis by (auto simp: line_of_def hexdump_consts)
  qed
  show ?thesis
  proof (cases "odd len")
    case False
    then have "2 * ?k = len" by simp
    with line [OF d(2)] d(1,4) d(5) [of "[]"] False show ?thesis
      by (auto simp: hex_and_ascii_print_with_offset_def split: if_splits)
  next
    case True
    then have k: "2 * ?k < length cp" "len = Suc (2 * ?k)" using assms(3) by (auto elim!: oddE)
    let ?s = "cp ! (2 * ?k)"
    have s: "nth_opt (drop (2 * ?k) cp) 0 = Some ?s" using k(1) by (simp add: nth_opt_def)
    have "hsp d + 3 < 41" "asp d + 1 < 301"
      using hexstuff_size [OF d(2,4,3)] d(2,4) by (auto simp: dump_rep_def)
    then obtain d1 where d1: "put_single ?s d = Some d1" "dump_rep 41 301 (cur @ [?s]) d1"
      "oset d1 = oset d" "printed d1 = printed d"
      using put_single_rep [OF d(2,3), of ?s] by auto
    have "take len cp = take (2 * ?k) cp @ [?s]"
      by (metis k take_Suc_conv_app_nth)
    with line [OF d1(2)] d(1,4) d(5) [of "[?s]"] d1 s True show ?thesis
      by (simp add: hex_and_ascii_print_with_offset_def)
  qed
qed

theorem hex_dump_lines_witness:
  "hex_and_ascii_print_with_offset (replicate 41 NUL) (replicate 301 NUL) ''#'' [0x41, 0x0A, 0x7B] 3 16
    = Some (line_of ''#'' 16 [0x41, 0x0A, 0x7B])"
  using hex_dump_lines [of "replicate 41 NUL" "replicate 301 NUL" 3 "[0x41, 0x0A, 0x7B]" "''#''" 16]
    dump_spec_short [of "[0x41, 0x0A, 0x7B]" "''#''" 16]
  by simp

text \<open>
  The server's one-line dump, whose arrays have 1500 bytes, leaves the first of them
  exactly for inputs of 600 bytes or more, fewer than half of a full Ethernet frame; for the
  shorter ones it prints a single line under the constant offset 32.
\<close>

theorem hex_and_ascii_print_defined_iff:
  assumes "length h = 1500" and "length a = 1500" and "len \<le> length cp"
  shows "hex_and_ascii_print h a cp len
    = (if len = 0 then Some [] else if len < 600
       then Some (dump_line line_break 32 32 (hex_of (take len cp)) (map ascii_char (take len cp)))
       else None)"
proof -
  let ?d = "\<lparr>hexstuff = h, hsp = 0, asciistuff = a, asp = 0, shorts = 0, oset = 0, printed = []\<rparr>"
  let ?k = "len div 2"
  show ?thesis
  proof (cases "len < 600")
    case True
    have rep0: "dump_rep 1500 1500 [] ?d" using assms by (simp add: dump_rep_def)
    have "2 * ?k \<le> length cp" "2 * ?k < 600"
      using assms(3) True div_times_less_eq_dividend [of len 2] by linarith+
    then obtain d where
      d: "print_loop ?k cp ?d = Some (drop (2 * ?k) cp, d)" "dump_rep 1500 1500 (take (2 * ?k) cp) d"
        "printed d = []"
      using print_loop_rep [OF rep0, of ?k cp] by auto
    show ?thesis
    proof (cases "odd len")
      case False
      then have k: "2 * ?k = len" by simp
      have "len \<noteq> 0 \<Longrightarrow> 0 < shorts d" "len = 0 \<Longrightarrow> shorts d = 0"
        using d(2) k assms(3) False unfolding dump_rep_def by auto
      with print_line_rep [OF d(2), of line_break 32 32] d(1,3) k True False show ?thesis
        by (auto simp: hex_and_ascii_print_def)
    next
      case odd: True
      then have k: "2 * ?k < length cp" "len = Suc (2 * ?k)" using assms(3) by (auto elim!: oddE)
      let ?s = "cp ! (2 * ?k)"
      have s: "nth_opt (drop (2 * ?k) cp) 0 = Some ?s" using k(1) by (simp add: nth_opt_def)
      have e: "even (length (take (2 * ?k) cp))" using k(1) by simp
      have "hsp d + 3 < 1500" "asp d + 1 < 1500"
        using d(2) k(1) True by (auto simp: dump_rep_def length_hex_of)
      then obtain d1 where d1: "put_single ?s d = Some d1"
        "dump_rep 1500 1500 (take (2 * ?k) cp @ [?s]) d1" "printed d1 = []"
        using put_single_rep [OF d(2) e, of ?s] d(3) by auto
      have "take len cp = take (2 * ?k) cp @ [?s]" by (metis k take_Suc_conv_app_nth)
      moreover have "0 < shorts d1" using d1(2) by (simp add: dump_rep_def)
      ultimately show ?thesis
        using print_line_rep [OF d1(2), of line_break 32 32] d(1) d1 s odd True
        by (auto simp: hex_and_ascii_print_def)
    qed
  next
    case False
    then have k: "300 \<le> ?k" by simp
    have "hex_and_ascii_print h a cp len = None"
    proof (cases "print_loop ?k cp ?d")
      case None
      then show ?thesis by (simp add: hex_and_ascii_print_def)
    next
      case (Some x)
      have x: "1500 \<le> hsp (snd x)" "length (hexstuff (snd x)) = 1500" "0 < shorts (snd x)"
        using print_loop_sizes [OF Some] k assms(1) by auto
      have "print_line line_break 32 32 d = None"
        if "put_single s (snd x) = Some d" for s d
        using put_single_sizes [OF that] x by (intro print_line_overflow) simp
      moreover have "print_line line_break 32 32 (snd x) = None" using x by (intro print_line_overflow) simp
      ultimately show ?thesis
        using Some x
        by (auto simp: hex_and_ascii_print_def dest: put_single_sizes split: Option.bind_splits)
    qed
    with False show ?thesis by simp
  qed
qed

theorem hex_and_ascii_print_defined_iff_witness:
  "hex_and_ascii_print (replicate 1500 NUL) (replicate 1500 NUL) (replicate 1514 0) 1514 = None"
  by (subst hex_and_ascii_print_defined_iff) simp_all

end
