(* ===== verification/Sha.thy ===== *)
theory Sha
  imports Prelude
begin

text \<open>
  The SHA-1 digest of \<^verbatim>\<open>src/CuteCat/iksemel/sha.c\<close>.  The words of a block are built byte by byte in the
  first sixteen words of \<^verbatim>\<open>buf\<close>, over what the block before left there; \<^verbatim>\<open>blen\<close>, an \<^verbatim>\<open>int\<close> that never
  reaches 64 between two bytes, is a natural number.
\<close>

section \<open>State\<close>

record iksha =
  hash :: "u32 list"
  sha_buf :: "u32 list"
  sha_blen :: nat
  lenhi :: u32
  lenlo :: u32

section \<open>One block\<close>

definition SRL :: "u32 \<Rightarrow> nat \<Rightarrow> u32" where
  "SRL x y = push_bit y x OR drop_bit (32 - y) x"

text \<open>The macro \<^verbatim>\<open>SHA\<close> on the registers A to E.\<close>

type_synonym regs5 = "u32 \<times> u32 \<times> u32 \<times> u32 \<times> u32"

definition SHA_round :: "(u32 \<Rightarrow> u32 \<Rightarrow> u32 \<Rightarrow> u32) \<Rightarrow> u32 \<Rightarrow> u32 list \<Rightarrow> nat \<Rightarrow> regs5 \<Rightarrow> regs5" where
  "SHA_round f c buf i r = (case r of (A, B, C, D, E) \<Rightarrow> (SRL A 5 + f B C D + E + buf ! i + c, A, SRL B 30, C, D))"

definition SHA_loop :: "nat \<Rightarrow> nat \<Rightarrow> (u32 \<Rightarrow> u32 \<Rightarrow> u32 \<Rightarrow> u32) \<Rightarrow> u32 \<Rightarrow> u32 list \<Rightarrow> regs5 \<Rightarrow> regs5" where
  "SHA_loop a b f c buf r = fold (SHA_round f c buf) [a..<b + 1] r"

definition sha_schedule :: "u32 list \<Rightarrow> u32 list" where
  "sha_schedule buf =
     fold (\<lambda>i buf. buf[i := SRL (buf ! (i - 3) XOR buf ! (i - 8) XOR buf ! (i - 14) XOR buf ! (i - 16)) 1]) [16..<80] buf"

definition sha_calculate :: "iksha \<Rightarrow> iksha" where
  "sha_calculate sha =
     (let buf = sha_schedule (sha_buf sha);
          h = hash sha;
          r = (h ! 0, h ! 1, h ! 2, h ! 3, h ! 4);
          r = SHA_loop 0 19 (\<lambda>B C D. ((C XOR D) AND B) XOR D) 0x5a827999 buf r;
          r = SHA_loop 20 39 (\<lambda>B C D. B XOR C XOR D) 0x6ed9eba1 buf r;
          r = SHA_loop 40 59 (\<lambda>B C D. (B AND C) OR (D AND (B OR C))) 0x8f1bbcdc buf r;
          r = SHA_loop 60 79 (\<lambda>B C D. B XOR C XOR D) 0xca62c1d6 buf r in
      case r of (A, B, C, D, E) \<Rightarrow>
        sha\<lparr>sha_buf := buf, hash := [h ! 0 + A, h ! 1 + B, h ! 2 + C, h ! 3 + D, h ! 4 + E]\<rparr>)"

section \<open>The digest\<close>

definition iks_sha_reset :: iksha where
  "iks_sha_reset = \<lparr>hash = [0x67452301, 0xefcdab89, 0x98badcfe, 0x10325476, 0xc3d2e1f0],
     sha_buf = replicate 80 0, sha_blen = 0, lenhi = 0, lenlo = 0\<rparr>"

definition iks_sha_new :: "bool \<Rightarrow> iksha option" where
  "iks_sha_new room = (if room then Some iks_sha_reset else None)"

text \<open>The body of the loop of \<^verbatim>\<open>sha_buffer\<close>.\<close>

definition sha_byte :: "byte \<Rightarrow> iksha \<Rightarrow> iksha" where
  "sha_byte b sha =
     (let k = sha_blen sha div 4;
          sha = sha\<lparr>sha_buf := (sha_buf sha)[k := push_bit 8 (sha_buf sha ! k) OR ucast b], sha_blen := sha_blen sha + 1\<rparr>;
          sha = (if sha_blen sha mod 64 = 0 then (sha_calculate sha)\<lparr>sha_blen := 0\<rparr> else sha);
          sha = sha\<lparr>lenlo := lenlo sha + 8\<rparr> in
      sha\<lparr>lenhi := lenhi sha + (if lenlo sha < 8 then 1 else 0)\<rparr>)"

text \<open>The length becomes an \<^verbatim>\<open>int\<close>: nothing is done for a negative one.\<close>

definition sha_buffer :: "byte list \<Rightarrow> iksha \<Rightarrow> iksha" where
  "sha_buffer data sha = fold sha_byte (take (nat (sint (word_of_nat (length data) :: u32))) data) sha"

text \<open>\<^verbatim>\<open>while (sha->blen != 56) sha_buffer (sha, &padc, 1)\<close>\<close>

lemma sha_blen_byte: "sha_blen (sha_byte b sha) = (if (sha_blen sha + 1) mod 64 = 0 then 0 else sha_blen sha + 1)"
  by (simp add: sha_byte_def Let_def)

function pad_to_56 :: "iksha \<Rightarrow> iksha" where
  "pad_to_56 sha = (if sha_blen sha \<noteq> 56 then pad_to_56 (sha_byte 0 sha) else sha)"
  by pat_completeness auto
termination
proof (relation "measure (\<lambda>sha. if sha_blen sha \<le> 56 then 56 - sha_blen sha else 64 - sha_blen sha mod 64 + 57)")
  fix sha :: iksha assume 56: "sha_blen sha \<noteq> 56"
  let ?n = "sha_blen sha"
  have "?n mod 64 < 64" by simp
  moreover have "(?n + 1) mod 64 = 0 \<or> (?n + 1) mod 64 = ?n mod 64 + 1" by (simp add: mod_Suc)
  moreover have "?n < 56 \<Longrightarrow> (?n + 1) mod 64 = ?n + 1" by simp
  ultimately show "(sha_byte 0 sha, sha)
      \<in> measure (\<lambda>sha. if sha_blen sha \<le> 56 then 56 - sha_blen sha else 64 - sha_blen sha mod 64 + 57)"
    using 56 by (cases "?n < 56") (auto simp: sha_blen_byte not_le simp del: add_Suc_right One_nat_def)
qed simp

declare pad_to_56.simps [simp del]

definition iks_sha_hash :: "iksha \<Rightarrow> byte list option \<Rightarrow> bool \<Rightarrow> iksha" where
  "iks_sha_hash sha data finish =
     (let sha = (case data of Some d \<Rightarrow> if length d \<noteq> 0 then sha_buffer d sha else sha | None \<Rightarrow> sha) in
      if \<not> finish then sha
      else
        let pad = [ucast (drop_bit 24 (lenhi sha) AND 0xff), ucast (drop_bit 16 (lenhi sha) AND 0xff),
              ucast (drop_bit 8 (lenhi sha) AND 0xff), ucast (lenhi sha AND 0xff),
              ucast (drop_bit 24 (lenlo sha) AND 0xff), ucast (drop_bit 16 (lenlo sha) AND 0xff),
              ucast (drop_bit 8 (lenlo sha) AND 0xff), ucast (lenlo sha AND 255)];
            sha = sha_buffer [0x80] sha in
        sha_buffer pad (pad_to_56 sha))"

definition iks_sha_print :: "iksha \<Rightarrow> string" where
  "iks_sha_print sha = concat (map (\<lambda>i. pad_left CHR ''0'' 8 (show_base 16 (unat (hash sha ! i)))) [0..<5])"

text \<open>The result of \<^verbatim>\<open>iks_sha_new\<close> is not looked at.\<close>

definition iks_sha :: "bool \<Rightarrow> string \<Rightarrow> string option" where
  "iks_sha room data = do {
     sha \<leftarrow> iks_sha_new room;
     Some (iks_sha_print (iks_sha_hash sha (Some (map of_char (c_str data))) True))
   }"

end
