(* ===== verification/Md5.thy ===== *)
theory Md5
  imports Prelude
begin

text \<open>
  The MD5 digest of \<^verbatim>\<open>src/CuteCat/iksemel/md5.c\<close>.  The type \<open>'w\<close> is the width of \<^verbatim>\<open>unsigned long int\<close>,
  32 bits on the client's system and 64 on a present server; the words are not cut to 32 bits between the
  steps.
\<close>

section \<open>State\<close>

record 'w iksmd5 =
  total :: "'w list"
  md_state :: "'w list"
  md_buffer :: "byte list"
  md_blen :: byte

section \<open>One block\<close>

definition GET_UINT32 :: "byte list \<Rightarrow> nat \<Rightarrow> 'w::len word" where
  "GET_UINT32 b i = ucast (b ! i) OR push_bit 8 (ucast (b ! (i + 1))) OR push_bit 16 (ucast (b ! (i + 2)))
     OR push_bit 24 (ucast (b ! (i + 3)))"

definition uint32_bytes :: "'w::len word \<Rightarrow> byte list" where
  "uint32_bytes n = [ucast n, ucast (drop_bit 8 n), ucast (drop_bit 16 n), ucast (drop_bit 24 n)]"

definition PUT_UINT32 :: "'w::len word \<Rightarrow> byte list \<Rightarrow> nat \<Rightarrow> byte list option" where
  "PUT_UINT32 n b i = write_at i (uint32_bytes n) b"

definition md5_F :: "'w::len word \<Rightarrow> 'w word \<Rightarrow> 'w word \<Rightarrow> 'w word" where
  "md5_F x y z = z XOR (x AND (y XOR z))"
definition md5_G :: "'w::len word \<Rightarrow> 'w word \<Rightarrow> 'w word \<Rightarrow> 'w word" where
  "md5_G x y z = y XOR (z AND (x XOR y))"
definition md5_H :: "'w::len word \<Rightarrow> 'w word \<Rightarrow> 'w word \<Rightarrow> 'w word" where
  "md5_H x y z = x XOR y XOR z"
definition md5_I :: "'w::len word \<Rightarrow> 'w word \<Rightarrow> 'w word \<Rightarrow> 'w word" where
  "md5_I x y z = y XOR (x OR NOT z)"

definition md5_S :: "'w::len word \<Rightarrow> nat \<Rightarrow> 'w word" where
  "md5_S x n = push_bit n x OR drop_bit (32 - n) (x AND 0xFFFFFFFF)"

text \<open>The macro \<^verbatim>\<open>P\<close> on the array of four registers.\<close>

definition md5_P :: "('w::len word \<Rightarrow> 'w word \<Rightarrow> 'w word \<Rightarrow> 'w word) \<Rightarrow> nat \<Rightarrow> 'w word \<Rightarrow> nat \<Rightarrow> 'w word \<Rightarrow> 'w word list \<Rightarrow> 'w word list" where
  "md5_P f i x s t r =
     (let r = r[i := r ! i + (f (r ! ((i + 1) mod 4)) (r ! ((i + 2) mod 4)) (r ! ((i + 3) mod 4)) + x + t)] in
      r[i := md5_S (r ! i) s + r ! ((i + 1) mod 4)])"

definition md5_T :: "'w::len word list" where
  "md5_T = [
     0xd76aa478, 0xe8c7b756, 0x242070db, 0xc1bdceee, 0xf57c0faf, 0x4787c62a, 0xa8304613, 0xfd469501,
     0x698098d8, 0x8b44f7af, 0xffff5bb1, 0x895cd7be, 0x6b901122, 0xfd987193, 0xa679438e, 0x49b40821,
     0xf61e2562, 0xc040b340, 0x265e5a51, 0xe9b6c7aa, 0xd62f105d, 0x02441453, 0xd8a1e681, 0xe7d3fbc8,
     0x21e1cde6, 0xc33707d6, 0xf4d50d87, 0x455a14ed, 0xa9e3e905, 0xfcefa3f8, 0x676f02d9, 0x8d2a4c8a,
     0xfffa3942, 0x8771f681, 0x6d9d6122, 0xfde5380c, 0xa4beea44, 0x4bdecfa9, 0xf6bb4b60, 0xbebfbc70,
     0x289b7ec6, 0xeaa127fa, 0xd4ef3085, 0x04881d05, 0xd9d4d039, 0xe6db99e5, 0x1fa27cf8, 0xc4ac5665,
     0xf4292244, 0x432aff97, 0xab9423a7, 0xfc93a039, 0x655b59c3, 0x8f0ccc92, 0xffeff47d, 0x85845dd1,
     0x6fa87e4f, 0xfe2ce6e0, 0xa3014314, 0x4e0811a1, 0xf7537e82, 0xbd3af235, 0x2ad7d2bb, 0xeb86d391]"

text \<open>
  One of the four loops: \<open>n\<close> rounds are left of the 16, \<open>p\<close> and its step \<open>d\<close> select the word of the block, \<open>off\<close>
  the part of the table.
\<close>

fun md5_loop ::
  "('w::len word \<Rightarrow> 'w word \<Rightarrow> 'w word \<Rightarrow> 'w word) \<Rightarrow> nat list \<Rightarrow> nat \<Rightarrow> nat \<Rightarrow> 'w word list \<Rightarrow> nat \<Rightarrow> nat \<Rightarrow> nat \<Rightarrow> nat
     \<Rightarrow> 'w word list \<Rightarrow> 'w word list" where
  "md5_loop f RS off d X 0 i k p R = R"
| "md5_loop f RS off d X (Suc n) i k p R =
     md5_loop f RS off d X n (i + 1) ((k + 3) mod 4) ((p + d) mod 16)
       (md5_P f k (X ! p) (RS ! (i mod 4)) (md5_T ! (i + off)) R)"

definition iks_md5_compute :: "'w::len word iksmd5 \<Rightarrow> 'w word iksmd5" where
  "iks_md5_compute md5 =
     (let X = map (\<lambda>i. GET_UINT32 (md_buffer md5) (i * 4)) [0..<16];
          R = md_state md5;
          R = md5_loop md5_F [7, 12, 17, 22] 0 1 X 16 0 0 0 R;
          R = md5_loop md5_G [5, 9, 14, 20] 16 5 X 16 0 0 1 R;
          R = md5_loop md5_H [4, 11, 16, 23] 32 3 X 16 0 0 5 R;
          R = md5_loop md5_I [6, 10, 15, 21] 48 7 X 16 0 0 0 R in
      md5\<lparr>md_state := map2 (+) (md_state md5) R\<rparr>)"

section \<open>The digest\<close>

definition iks_md5_reset :: "'w::len word iksmd5" where
  "iks_md5_reset = \<lparr>total = [0, 0], md_state = [0x67452301, 0xEFCDAB89, 0x98BADCFE, 0x10325476],
     md_buffer = replicate 64 0, md_blen = 0\<rparr>"

definition iks_md5_new :: "bool \<Rightarrow> 'w::len word iksmd5 option" where
  "iks_md5_new room = (if room then Some iks_md5_reset else None)"

text \<open>\<^verbatim>\<open>total[0] += n; total[1] += (total[0] < n)\<close>\<close>

definition add_total :: "nat \<Rightarrow> 'w::len word iksmd5 \<Rightarrow> 'w word iksmd5" where
  "add_total n md5 =
     (let t0 = total md5 ! 0 + word_of_nat n in
      md5\<lparr>total := [t0, total md5 ! 1 + (if t0 < word_of_nat n then 1 else 0)]\<rparr>)"

text \<open>\<^verbatim>\<open>memcpy\<close> into the buffer.\<close>

definition fill_buffer :: "byte list \<Rightarrow> 'w iksmd5 \<Rightarrow> 'w iksmd5 option" where
  "fill_buffer bs md5 = do {
     b \<leftarrow> write_at (unat (md_blen md5)) bs (md_buffer md5);
     Some (md5\<lparr>md_buffer := b, md_blen := md_blen md5 + word_of_nat (length bs)\<rparr>)
   }"

text \<open>The loop over the rest of the data.\<close>

function md5_blocks :: "byte list \<Rightarrow> 'w::len word iksmd5 \<Rightarrow> 'w word iksmd5 option" where
  "md5_blocks data md5 =
     (if data = [] then Some md5
      else do {
        let md5 = add_total (8 * 64) ((iks_md5_compute md5)\<lparr>md_blen := 0\<rparr>);
        md5 \<leftarrow> fill_buffer (take 64 data) md5;
        md5_blocks (drop 64 data) md5
      })"
  by pat_completeness auto
termination by (relation "measure (\<lambda>(data, md5). length data)") auto

declare md5_blocks.simps [simp del]

text \<open>\<^verbatim>\<open>while (md5->blen < n) md5->buffer[(md5->blen)++] = 0x00\<close>\<close>

function zero_until :: "byte \<Rightarrow> 'w iksmd5 \<Rightarrow> 'w iksmd5 option" where
  "zero_until n md5 = (if md_blen md5 < n then do { md5 \<leftarrow> fill_buffer [0] md5; zero_until n md5 } else Some md5)"
  by pat_completeness auto
termination
proof (relation "measure (\<lambda>(n, md5). unat n - unat (md_blen md5))")
  fix n :: byte and md5 md5' :: "'w iksmd5"
  assume less: "md_blen md5 < n" and "fill_buffer [0] md5 = Some md5'"
  then have "md_blen md5' = md_blen md5 + 1" by (auto simp: fill_buffer_def split: bind_splits)
  moreover have "unat (md_blen md5 + 1) = unat (md_blen md5) + 1"
    using less unsigned_less [of n, where ?'a = nat] by (simp add: unat_word_ariths word_less_nat_alt)
  ultimately show "((n, md5'), n, md5) \<in> measure (\<lambda>(n, md5). unat n - unat (md_blen md5))"
    using less by (simp add: word_less_nat_alt)
qed simp

declare zero_until.simps [simp del]

definition md5_finish :: "'w::len word iksmd5 \<Rightarrow> 'w word iksmd5 option" where
  "md5_finish md5 = do {
     md5 \<leftarrow> fill_buffer [0x80] (add_total (8 * unat (md_blen md5)) md5);
     md5 \<leftarrow> (if 56 < md_blen md5
       then do { md5 \<leftarrow> zero_until 64 md5; Some ((iks_md5_compute md5)\<lparr>md_blen := 0\<rparr>) } else Some md5);
     md5 \<leftarrow> zero_until 56 md5;
     b \<leftarrow> PUT_UINT32 (total md5 ! 0) (md_buffer md5) 56;
     b \<leftarrow> PUT_UINT32 (total md5 ! 1) b 60;
     Some (iks_md5_compute (md5\<lparr>md_buffer := b\<rparr>))
   }"

text \<open>The length is converted to an \<^verbatim>\<open>int\<close>; a negative one makes \<^verbatim>\<open>memcpy\<close> leave the data.\<close>

definition iks_md5_hash :: "'w::len word iksmd5 \<Rightarrow> byte list \<Rightarrow> bool \<Rightarrow> 'w word iksmd5 option" where
  "iks_md5_hash md5 data finish =
     (if 2 ^ 31 \<le> int (length data) then None
      else do {
        let i = 64 - unat (md_blen md5);
        let j = (if length data < i then length data else i);
        md5 \<leftarrow> fill_buffer (take j data) md5;
        md5 \<leftarrow> md5_blocks (drop j data) md5;
        if finish then md5_finish md5 else Some md5
      })"

definition iks_md5_digest :: "'w::len word iksmd5 \<Rightarrow> byte list option" where
  "iks_md5_digest md5 = do {
     d \<leftarrow> PUT_UINT32 (md_state md5 ! 0) (replicate 16 0) 0;
     d \<leftarrow> PUT_UINT32 (md_state md5 ! 1) d 4;
     d \<leftarrow> PUT_UINT32 (md_state md5 ! 2) d 8;
     PUT_UINT32 (md_state md5 ! 3) d 12
   }"

definition iks_md5_print :: "'w::len word iksmd5 \<Rightarrow> string option" where
  "iks_md5_print md5 = do { d \<leftarrow> iks_md5_digest md5; Some (concat (map (\<lambda>b. pad_left CHR ''0'' 2 (show_base 16 (unat b))) d)) }"

definition iks_md5 :: "'w::len itself \<Rightarrow> bool \<Rightarrow> string \<Rightarrow> string option" where
  "iks_md5 w room data = do {
     md5 \<leftarrow> (iks_md5_new room :: 'w word iksmd5 option);
     md5 \<leftarrow> iks_md5_hash md5 (map of_char data) True;
     iks_md5_print md5
   }"

end
