(* ===== verification/Md5Spec.thy ===== *)
theory Md5Spec
  imports Md5
begin

text \<open>
  MD5 as RFC 1321 states it, on words of 32 bits and with a table of its own, and the proof that \<^verbatim>\<open>src/CuteCat/iksemel/md5.c\<close> computes it
  where its buffer is large enough, whatever the width of \<^verbatim>\<open>unsigned long int\<close>.
\<close>

section \<open>The specification\<close>

type_synonym quad = "u32 \<times> u32 \<times> u32 \<times> u32"

definition rfc_fun :: "nat \<Rightarrow> u32 \<Rightarrow> u32 \<Rightarrow> u32 \<Rightarrow> u32" where
  "rfc_fun i x y z =
     (if i < 16 then (x AND y) OR (NOT x AND z)
      else if i < 32 then (x AND z) OR (y AND NOT z)
      else if i < 48 then x XOR y XOR z
      else y XOR (x OR NOT z))"

definition rfc_index :: "nat \<Rightarrow> nat" where
  "rfc_index i =
     (if i < 16 then i else if i < 32 then (5 * i + 1) mod 16 else if i < 48 then (3 * i + 5) mod 16 else (7 * i) mod 16)"

definition rfc_shift :: "nat \<Rightarrow> nat" where
  "rfc_shift i = [7, 12, 17, 22, 5, 9, 14, 20, 4, 11, 16, 23, 6, 10, 15, 21] ! (4 * (i div 16) + i mod 4)"

text \<open>The table of section 3.4: entry \<open>i\<close> is the integer part of \<open>2 ^ 32 * abs (sin (i + 1))\<close>.\<close>

definition rfc_T :: "u32 list" where
  "rfc_T = [
     0xd76aa478, 0xe8c7b756, 0x242070db, 0xc1bdceee, 0xf57c0faf, 0x4787c62a, 0xa8304613, 0xfd469501,
     0x698098d8, 0x8b44f7af, 0xffff5bb1, 0x895cd7be, 0x6b901122, 0xfd987193, 0xa679438e, 0x49b40821,
     0xf61e2562, 0xc040b340, 0x265e5a51, 0xe9b6c7aa, 0xd62f105d, 0x02441453, 0xd8a1e681, 0xe7d3fbc8,
     0x21e1cde6, 0xc33707d6, 0xf4d50d87, 0x455a14ed, 0xa9e3e905, 0xfcefa3f8, 0x676f02d9, 0x8d2a4c8a,
     0xfffa3942, 0x8771f681, 0x6d9d6122, 0xfde5380c, 0xa4beea44, 0x4bdecfa9, 0xf6bb4b60, 0xbebfbc70,
     0x289b7ec6, 0xeaa127fa, 0xd4ef3085, 0x04881d05, 0xd9d4d039, 0xe6db99e5, 0x1fa27cf8, 0xc4ac5665,
     0xf4292244, 0x432aff97, 0xab9423a7, 0xfc93a039, 0x655b59c3, 0x8f0ccc92, 0xffeff47d, 0x85845dd1,
     0x6fa87e4f, 0xfe2ce6e0, 0xa3014314, 0x4e0811a1, 0xf7537e82, 0xbd3af235, 0x2ad7d2bb, 0xeb86d391]"

definition rfc_step :: "u32 list \<Rightarrow> nat \<Rightarrow> quad \<Rightarrow> quad" where
  "rfc_step M i q =
     (case q of (A, B, C, D) \<Rightarrow>
        (D, B + word_rotl (rfc_shift i) (A + rfc_fun i B C D + M ! rfc_index i + rfc_T ! i), B, C))"

text \<open>Sixteen words of four bytes, the low byte first.\<close>

definition rfc_words :: "byte list \<Rightarrow> u32 list" where
  "rfc_words b = map (\<lambda>i. word_rcat (rev (take 4 (drop (4 * i) b)))) [0..<16]"

definition rfc_compress :: "quad \<Rightarrow> byte list \<Rightarrow> quad" where
  "rfc_compress q block =
     (case (q, fold (rfc_step (rfc_words block)) [0..<64] q) of
        ((a, b, c, d), (a', b', c', d')) \<Rightarrow> (a + a', b + b', c + c', d + d'))"

definition rfc_start :: quad where
  "rfc_start = (0x67452301, 0xEFCDAB89, 0x98BADCFE, 0x10325476)"

text \<open>A one bit, zeroes up to 8 bytes before the end of a block, and the length in bits, low byte first.\<close>

definition le64 :: "nat \<Rightarrow> byte list" where
  "le64 n = map (\<lambda>i. word_of_nat (n div 2 ^ (8 * i))) [0..<8]"

definition rfc_padding :: "nat \<Rightarrow> byte list" where
  "rfc_padding n = 0x80 # replicate ((119 - n mod 64) mod 64) 0 @ le64 (8 * n)"

function blocks64 :: "byte list \<Rightarrow> byte list list" where
  "blocks64 bs = (if bs = [] then [] else take 64 bs # blocks64 (drop 64 bs))"
  by pat_completeness auto
termination by (relation "measure length") auto

declare blocks64.simps [simp del]

definition le32 :: "u32 \<Rightarrow> byte list" where
  "le32 w = map (\<lambda>i. word_of_nat (unat w div 2 ^ (8 * i))) [0..<4]"

definition quad_bytes :: "quad \<Rightarrow> byte list" where
  "quad_bytes q = (case q of (a, b, c, d) \<Rightarrow> le32 a @ le32 b @ le32 c @ le32 d)"

definition rfc1321 :: "byte list \<Rightarrow> byte list" where
  "rfc1321 m = quad_bytes (foldl rfc_compress rfc_start (blocks64 (m @ rfc_padding (length m))))"

section \<open>The low 32 bits\<close>

definition lo :: "'w::len word \<Rightarrow> u32" where
  "lo x = ucast x"

lemma bit_lo: "32 \<le> LENGTH('w::len) \<Longrightarrow> bit (lo (x :: 'w word)) n \<longleftrightarrow> n < 32 \<and> bit x n"
  by (auto simp: lo_def bit_ucast_iff)

lemma lo_logic:
  assumes "32 \<le> LENGTH('w::len)"
  shows "lo ((x :: 'w word) AND y) = lo x AND lo y" "lo (x OR y) = lo x OR lo y" "lo (x XOR y) = lo x XOR lo y"
    "lo (NOT x) = NOT (lo x)"
  using assms by (auto intro!: bit_word_eqI simp: bit_lo bit_and_iff bit_or_iff bit_xor_iff bit_not_iff)

lemma lo_plus:
  assumes "32 \<le> LENGTH('w::len)"
  shows "lo ((x :: 'w word) + y) = lo x + lo y"
proof -
  have "uint (lo z) = take_bit 32 (uint z)" for z :: "'w word"
    by (simp add: lo_def unsigned_ucast_eq)
  moreover have "take_bit 32 (uint (x + y)) = take_bit 32 (uint x + uint y)"
  proof -
    have "uint (x + y) = take_bit LENGTH('w) (uint x + uint y)" by (simp add: uint_word_ariths take_bit_eq_mod)
    then show ?thesis using assms by (simp add: min_def)
  qed
  ultimately show ?thesis
    by (intro word_uint_eqI) (simp add: uint_word_ariths take_bit_eq_mod mod_simps)
qed

lemma lo_S:
  assumes "32 \<le> LENGTH('w::len)" and "0 < n" and "n < 32"
  shows "lo (md5_S (x :: 'w word) n) = word_rotl n (lo x)"
proof (rule bit_word_eqI)
  fix k assume k: "k < LENGTH(32)"
  have m: "x AND 0xFFFFFFFF = take_bit 32 x" by (simp add: take_bit_eq_mask mask_eq_exp_minus_1)
  have r: "(k + 32 - n) mod 32 = (if n \<le> k then k - n else 32 + k - n)" using k assms(2,3) by (auto simp: mod_if)
  show "bit (lo (md5_S x n)) k = bit (word_rotl n (lo x)) k"
    unfolding md5_S_def m using k assms
    by (auto simp: bit_lo bit_or_iff bit_push_bit_iff bit_drop_bit_eq bit_take_bit_iff bit_word_rotl_iff r)
qed


section \<open>The rounds\<close>

text \<open>The register that the round \<open>k\<close> changes is the first of the four of the specification.\<close>

definition regs :: "nat \<Rightarrow> 'w::len word list \<Rightarrow> quad \<Rightarrow> bool" where
  "regs k R q \<longleftrightarrow> length R = 4 \<and> k < 4
     \<and> q = (lo (R ! k), lo (R ! ((k + 1) mod 4)), lo (R ! ((k + 2) mod 4)), lo (R ! ((k + 3) mod 4)))"

lemma regs_0: "regs 0 R q \<longleftrightarrow> length R = 4 \<and> q = (lo (R ! 0), lo (R ! 1), lo (R ! 2), lo (R ! 3))"
proof -
  have m: "(0 + 1) mod 4 = (1 :: nat)" "(0 + 2) mod 4 = (2 :: nat)" "(0 + 3) mod 4 = (3 :: nat)" "(0 < (4 :: nat)) = True" by simp_all
  show ?thesis by (simp only: regs_def m simp_thms)
qed

lemma less_4: "k < 4 \<longleftrightarrow> k = 0 \<or> k = 1 \<or> k = 2 \<or> k = (3 :: nat)"
  by auto

lemma P_step:
  fixes R :: "'w::len word list"
  assumes w: "32 \<le> LENGTH('w)" and r: "regs k R (A, B, C, D)" and s: "0 < s" "s < 32"
    and f: "\<And>x y z. lo (f x y z) = g (lo x) (lo y) (lo z)"
  shows "regs ((k + 3) mod 4) (md5_P f k x s t R) (D, B + word_rotl s (A + g B C D + lo x + lo t), B, C)"
proof -
  have R: "length R = 4" "k < 4" and q: "A = lo (R ! k)" "B = lo (R ! ((k + 1) mod 4))" "C = lo (R ! ((k + 2) mod 4))" "D = lo (R ! ((k + 3) mod 4))"
    using r by (simp_all add: regs_def)
  have n: "(k + 1) mod 4 \<noteq> k" "(k + 2) mod 4 \<noteq> k" "(k + 3) mod 4 \<noteq> k" "((k + 3) mod 4 + 1) mod 4 = k"
      "((k + 3) mod 4 + 2) mod 4 = (k + 1) mod 4" "((k + 3) mod 4 + 3) mod 4 = (k + 2) mod 4"
    using R(2) by presburger+
  define y where "y = R ! k + (f (R ! ((k + 1) mod 4)) (R ! ((k + 2) mod 4)) (R ! ((k + 3) mod 4)) + x + t)"
  have P: "md5_P f k x s t R = R[k := md5_S y s + R ! ((k + 1) mod 4)]"
    using R n(1) by (simp add: md5_P_def Let_def y_def)
  have "lo (md5_S y s + R ! ((k + 1) mod 4)) = B + word_rotl s (A + g B C D + lo x + lo t)"
    by (simp add: lo_plus [OF w] lo_S [OF w s] y_def f q add.assoc add.commute add.left_commute)
  then show ?thesis using R n q by (simp add: regs_def P)
qed

lemma loop_run:
  fixes R :: "'w::len word list"
  assumes w: "32 \<le> LENGTH('w)"
    and X: "M = map lo X" "length X = 16"
    and f: "\<And>x y z j. j < n \<Longrightarrow> lo (f x y z) = rfc_fun (off + i + j) (lo x) (lo y) (lo z)"
    and p: "\<And>j. j < n \<Longrightarrow> (p + j * d) mod 16 = rfc_index (off + i + j)" "p < 16"
    and s: "\<And>j. j < n \<Longrightarrow> RS ! ((i + j) mod 4) = rfc_shift (off + i + j) \<and> 0 < RS ! ((i + j) mod 4) \<and> RS ! ((i + j) mod 4) < 32"
    and T: "\<And>j. j < n \<Longrightarrow> lo (md5_T ! (off + i + j) :: 'w word) = rfc_T ! (off + i + j)"
    and r: "regs k R q"
  shows "regs ((k + 3 * n) mod 4) (md5_loop f RS off d X n i k p R) (fold (rfc_step M) [off + i..<off + i + n] q)"
  using f p s T r
proof (induction n arbitrary: i k p R q)
  case 0
  then show ?case by (auto simp: regs_def)
next
  case (Suc n)
  obtain A B C D where q: "q = (A, B, C, D)" by (cases q)
  have f0: "lo (f x y z) = rfc_fun (off + i) (lo x) (lo y) (lo z)" for x y z using Suc.prems(1) [of 0 x y z] by simp
  have p0: "p = rfc_index (off + i)" using Suc.prems(2) [of 0] Suc.prems(3) by simp
  have s0: "RS ! (i mod 4) = rfc_shift (off + i)" "0 < RS ! (i mod 4)" "RS ! (i mod 4) < 32" using Suc.prems(4) [of 0] by simp_all
  have t0: "lo (md5_T ! (i + off) :: 'w word) = rfc_T ! (off + i)" using Suc.prems(5) [of 0] by (simp add: add.commute)
  let ?R = "md5_P f k (X ! p) (RS ! (i mod 4)) (md5_T ! (i + off)) R"
  have "M ! p = lo (X ! p)" using X Suc.prems(3) by simp
  then have r1: "regs ((k + 3) mod 4) ?R (rfc_step M (off + i) q)"
    using P_step [where f = f and g = "rfc_fun (off + i)", OF w Suc.prems(6) [unfolded q] s0(2,3) f0, of "X ! p" "md5_T ! (i + off)"]
    by (simp add: q rfc_step_def p0 [symmetric] s0(1) [symmetric] t0)
  have sh: "off + (i + 1) + j = off + i + Suc j" "i + 1 + j = i + Suc j" for j by simp_all
  have p1: "((p + d) mod 16 + j * d) mod 16 = rfc_index (off + (i + 1) + j)" if "j < n" for j
    using Suc.prems(2) [of "Suc j"] that by (simp add: sh mod_simps add.assoc add.commute add.left_commute)
  have IH: "regs (((k + 3) mod 4 + 3 * n) mod 4) (md5_loop f RS off d X n (i + 1) ((k + 3) mod 4) ((p + d) mod 16) ?R)
      (fold (rfc_step M) [off + (i + 1)..<off + (i + 1) + n] (rfc_step M (off + i) q))"
    by (rule Suc.IH)
      (use Suc.prems(1) [of "Suc _"] Suc.prems(4) [of "Suc _"] Suc.prems(5) [of "Suc _"] p1 r1 in \<open>auto simp only: sh Suc_less_eq, simp_all\<close>)
  have "((k + 3) mod 4 + 3 * n) mod 4 = (k + 3 * Suc n) mod 4" by presburger
  moreover have "[off + i..<off + i + Suc n] = (off + i) # [off + (i + 1)..<off + (i + 1) + n]" by (subst upt_conv_Cons) simp_all
  ultimately show ?case using IH by simp
qed


lemma table_run:
  fixes R :: "'w::len word list"
  assumes w: "32 \<le> LENGTH('w)" and T: "\<And>j. j < 64 \<Longrightarrow> lo (md5_T ! j :: 'w word) = rfc_T ! j"
    and r: "regs 0 R q" and X: "M = map lo X" "length X = 16"
  shows "regs 0 (md5_loop md5_I [6, 10, 15, 21] 48 7 X 16 0 0 0 (md5_loop md5_H [4, 11, 16, 23] 32 3 X 16 0 0 5
      (md5_loop md5_G [5, 9, 14, 20] 16 5 X 16 0 0 1 (md5_loop md5_F [7, 12, 17, 22] 0 1 X 16 0 0 0 R))))
    (fold (rfc_step M) [0..<64] q)"
proof -
  have F: "lo (md5_F x y z) = rfc_fun (0 + 0 + j) (lo x) (lo y) (lo z)" if "j < 16" for x y z :: "'w word" and j
    using that by (auto intro!: bit_word_eqI simp: md5_F_def rfc_fun_def lo_logic [OF w] bit_and_iff bit_or_iff bit_xor_iff bit_not_iff)
  have G: "lo (md5_G x y z) = rfc_fun (16 + 0 + j) (lo x) (lo y) (lo z)" if "j < 16" for x y z :: "'w word" and j
    using that by (auto intro!: bit_word_eqI simp: md5_G_def rfc_fun_def lo_logic [OF w] bit_and_iff bit_or_iff bit_xor_iff bit_not_iff)
  have H: "lo (md5_H x y z) = rfc_fun (32 + 0 + j) (lo x) (lo y) (lo z)" if "j < 16" for x y z :: "'w word" and j
    using that by (simp add: md5_H_def rfc_fun_def lo_logic [OF w])
  have I: "lo (md5_I x y z) = rfc_fun (48 + 0 + j) (lo x) (lo y) (lo z)" if "j < 16" for x y z :: "'w word" and j
    using that by (simp add: md5_I_def rfc_fun_def lo_logic [OF w])
  have s: "RS ! ((0 + j) mod 4) = rfc_shift (off + 0 + j) \<and> 0 < RS ! ((0 + j) mod 4) \<and> RS ! ((0 + j) mod 4) < 32"
    if "(off, RS) \<in> {(0, [7, 12, 17, 22]), (16, [5, 9, 14, 20]), (32, [4, 11, 16, 23]), (48, [6, 10, 15, 21])}" "j < 16" for off RS j
  proof -
    have "[0..<16] = [0, 1, 2, 3, 4, 5, 6, 7, 8, 9, 10, 11, 12, 13, 14, 15 :: nat]" by code_simp
    moreover have "j \<in> set [0..<16]" using that(2) by simp
    ultimately have "j \<in> {0, 1, 2, 3, 4, 5, 6, 7, 8, 9, 10, 11, 12, 13, 14, 15}" by (simp only: list.set)
    then show ?thesis using that(1) by (auto simp: rfc_shift_def)
  qed
  have p: "(0 + j * 1) mod 16 = rfc_index (0 + 0 + j)" "(1 + j * 5) mod 16 = rfc_index (16 + 0 + j)"
      "(5 + j * 3) mod 16 = rfc_index (32 + 0 + j)" "(0 + j * 7) mod 16 = rfc_index (48 + 0 + j)" if "j < 16" for j
  proof -
    have m: "(5 * (16 + j) + 1) mod 16 = (1 + j * 5) mod 16" "(3 * (32 + j) + 5) mod 16 = (5 + j * 3) mod 16"
      "(7 * (48 + j)) mod 16 = (0 + j * 7) mod 16"
    proof -
      have e: "5 * (16 + j) + 1 = 1 + j * 5 + 5 * 16" "3 * (32 + j) + 5 = 5 + j * 3 + 6 * 16" "7 * (48 + j) = 0 + j * 7 + 21 * 16"
        by simp_all
      show "(5 * (16 + j) + 1) mod 16 = (1 + j * 5) mod 16" "(3 * (32 + j) + 5) mod 16 = (5 + j * 3) mod 16"
        "(7 * (48 + j)) mod 16 = (0 + j * 7) mod 16"
        unfolding e by (rule mod_mult_self1)+
    qed
    show "(0 + j * 1) mod 16 = rfc_index (0 + 0 + j)" using that by (simp add: rfc_index_def)
    show "(1 + j * 5) mod 16 = rfc_index (16 + 0 + j)" using that m(1) by (simp only: rfc_index_def) simp
    show "(5 + j * 3) mod 16 = rfc_index (32 + 0 + j)" using that m(2) by (simp only: rfc_index_def) simp
    show "(0 + j * 7) mod 16 = rfc_index (48 + 0 + j)" using that m(3) by (simp only: rfc_index_def) simp
  qed
  have k: "(0 + 3 * 16) mod 4 = (0 :: nat)" by simp
  have t: "off + 16 \<le> 64 \<Longrightarrow> j < 16 \<Longrightarrow> lo (md5_T ! (off + 0 + j) :: 'w word) = rfc_T ! (off + 0 + j)" for off j using T by simp
  note l1 = loop_run [OF w X, where n = 16 and i = 0 and k = 0 and off = 0 and d = 1 and p = 0 and RS = "[7, 12, 17, 22]", OF F p(1) _ s t r, unfolded k]
  note l2 = loop_run [OF w X, where n = 16 and i = 0 and k = 0 and off = 16 and d = 5 and p = 1 and RS = "[5, 9, 14, 20]", OF G p(2) _ s t l1, unfolded k]
  note l3 = loop_run [OF w X, where n = 16 and i = 0 and k = 0 and off = 32 and d = 3 and p = 5 and RS = "[4, 11, 16, 23]", OF H p(3) _ s t l2, unfolded k]
  note l4 = loop_run [OF w X, where n = 16 and i = 0 and k = 0 and off = 48 and d = 7 and p = 0 and RS = "[6, 10, 15, 21]", OF I p(4) _ s t l3, unfolded k]
  have "[0..<64] = [0 + 0..<0 + 0 + 16] @ [16 + 0..<16 + 0 + 16] @ [32 + 0..<32 + 0 + 16] @ [48 + 0..<48 + 0 + (16 :: nat)]"
    by code_simp
  then show ?thesis using l4 by (simp only: fold_append comp_def) simp
qed


section \<open>Blocks\<close>

text \<open>The constants and the words of a block do not depend on the width.\<close>

lemma md5_T_length: "length md5_T = 64"
  by (simp add: md5_T_def)

lemma table_lo:
  assumes "32 \<le> LENGTH('w::len)" and "j < 64"
  shows "lo (md5_T ! j :: 'w word) = rfc_T ! j"
proof -
  have l: "lo (word_of_int c :: 'w word) = word_of_int c" for c
    using assms(1) by (intro bit_word_eqI) (simp add: bit_lo bit_word_of_int_iff)
  have "map lo (md5_T :: 'w word list) = rfc_T"
    unfolding md5_T_def rfc_T_def list.map by (simp add: l [of "numeral _", simplified])
  then show ?thesis using assms(2) by (metis length_map nth_map md5_T_length)
qed


lemma words_lo:
  assumes "32 \<le> LENGTH('w::len)"
  shows "lo (GET_UINT32 b i :: 'w word) = GET_UINT32 b i"
proof -
  have "lo (push_bit k (ucast (x :: byte) :: 'w word)) = push_bit k (ucast x)" "lo (ucast x :: 'w word) = ucast x" for k x
    using assms by (auto intro!: bit_word_eqI simp: bit_lo bit_push_bit_iff bit_ucast_iff)
  then show ?thesis by (simp add: GET_UINT32_def lo_logic [OF assms])
qed

lemma get_four: "(GET_UINT32 [a, b, c, d] 0 :: u32) = word_rcat [d, c, b, a]"
proof (rule bit_word_eqI)
  fix n assume n: "n < LENGTH(32)"
  have "n div 8 < Suc (Suc (Suc (Suc 0)))" using n by simp
  then have rc: "bit (word_rcat [d, c, b, a] :: u32) n \<longleftrightarrow> bit ([a, b, c, d] ! (n div 8)) (n mod 8)"
    using n bit_horner_sum_uint_exp_iff [of "[a, b, c, d]" n]
    by (simp only: word_rcat_def bit_word_of_int_iff o_apply rev.simps append.simps list.size) simp
  have dm: "n div 8 = q" "n mod 8 = n - 8 * q" if "8 * q \<le> n" "n < 8 * Suc q" for q
  proof -
    show q: "n div 8 = q" using that by (intro div_nat_eqI) auto
    show "n mod 8 = n - 8 * q" by (simp only: q modulo_nat_def)
  qed
  have bounds: "\<not> bit x k" if "8 \<le> k" for x :: byte and k using that bit_imp_le_length [of x k] by auto
  consider "n < 8" | "8 \<le> n" "n < 16" | "16 \<le> n" "n < 24" | "24 \<le> n" "n < 32" using n by fastforce
  then show "bit (GET_UINT32 [a, b, c, d] 0 :: u32) n = bit (word_rcat [d, c, b, a] :: u32) n"
  proof cases
    case 1
    then show ?thesis by (auto simp: rc dm [of 0] GET_UINT32_def bit_or_iff bit_push_bit_iff bit_ucast_iff)
  next
    case 2
    then show ?thesis by (auto simp: rc dm [of 1] GET_UINT32_def bit_or_iff bit_push_bit_iff bit_ucast_iff bounds)
  next
    case 3
    then show ?thesis by (auto simp: rc dm [of 2] GET_UINT32_def bit_or_iff bit_push_bit_iff bit_ucast_iff bounds)
  next
    case 4
    then show ?thesis by (auto simp: rc dm [of 3] GET_UINT32_def bit_or_iff bit_push_bit_iff bit_ucast_iff bounds)
  qed
qed

lemma four_bytes: "length bs = 4 \<Longrightarrow> \<exists>x y z w. bs = [x, y, z, w]"
  by (auto simp: numeral_eq_Suc length_Suc_conv)

lemma get_word:
  assumes "4 * i + 4 \<le> length b"
  shows "(GET_UINT32 b (i * 4) :: u32) = word_rcat (rev (take 4 (drop (4 * i) b)))"
proof -
  have "length (take 4 (drop (4 * i) b)) = 4" using assms by simp
  then obtain x y z w where four: "take 4 (drop (4 * i) b) = [x, y, z, w]" using four_bytes by blast
  have "b ! (4 * i + j) = take 4 (drop (4 * i) b) ! j" if "j < 4" for j using that assms by simp
  from this [of 0] this [of 1] this [of 2] this [of 3] have "b ! (i * 4) = x" "b ! (i * 4 + 1) = y" "b ! (i * 4 + 2) = z" "b ! (i * 4 + 3) = w"
    unfolding four by (simp_all add: mult.commute numeral_eq_Suc)
  then have "(GET_UINT32 b (i * 4) :: u32) = GET_UINT32 [x, y, z, w] 0" by (simp add: GET_UINT32_def numeral_eq_Suc)
  then show ?thesis by (simp add: get_four four)
qed

lemma bytes_le32: "uint32_bytes (w :: u32) = le32 w"
proof -
  have n: "[0..<4] = [0, 1, 2, 3 :: nat]" by code_simp
  have "ucast (drop_bit k w) = (word_of_nat (unat w div 2 ^ k) :: byte)" for k
  proof -
    have "ucast (drop_bit k w) = (word_of_nat (unat (drop_bit k w)) :: byte)" by (simp only: of_nat_unat)
    moreover have "unat (drop_bit k w) = drop_bit k (unat w)" by (rule unat_drop_bit_eq)
    ultimately show ?thesis by (simp only: drop_bit_eq_div [of k "unat w"])
  qed
  from this [of 0] this [of 8] this [of 16] this [of 24] show ?thesis
    unfolding le32_def uint32_bytes_def n list.map by (simp only: drop_bit_0 id_apply) simp
qed

definition lo_state :: "'w::len word iksmd5 \<Rightarrow> quad" where
  "lo_state md5 = (lo (md_state md5 ! 0), lo (md_state md5 ! 1), lo (md_state md5 ! 2), lo (md_state md5 ! 3))"

lemma compute_fields [simp]:
  "md_buffer (iks_md5_compute md5) = md_buffer md5" "md_blen (iks_md5_compute md5) = md_blen md5" "total (iks_md5_compute md5) = total md5"
  by (simp_all add: iks_md5_compute_def Let_def)

lemma compute_compresses:
  fixes md5 :: "'w::len word iksmd5"
  assumes w: "32 \<le> LENGTH('w)" and s: "length (md_state md5) = 4" and l: "length (md_buffer md5) = 64"
  shows "lo_state (iks_md5_compute md5) = rfc_compress (lo_state md5) (md_buffer md5) \<and> length (md_state (iks_md5_compute md5)) = 4"
proof -
  let ?X = "map (\<lambda>i. GET_UINT32 (md_buffer md5) (i * 4)) [0..<16] :: 'w word list"
  have M: "rfc_words (md_buffer md5) = map lo ?X"
    using l get_word [of _ "md_buffer md5"] by (simp add: rfc_words_def words_lo [OF w] comp_def del: upt_Suc)
  have r: "regs 0 (md_state md5) (lo_state md5)" using s by (simp add: regs_0 lo_state_def)
  define R where "R = md5_loop md5_I [6, 10, 15, 21] 48 7 ?X 16 0 0 0 (md5_loop md5_H [4, 11, 16, 23] 32 3 ?X 16 0 0 5
      (md5_loop md5_G [5, 9, 14, 20] 16 5 ?X 16 0 0 1 (md5_loop md5_F [7, 12, 17, 22] 0 1 ?X 16 0 0 0 (md_state md5))))"
  have R: "regs 0 R (fold (rfc_step (rfc_words (md_buffer md5))) [0..<64] (lo_state md5))"
    unfolding R_def by (rule table_run [OF w table_lo [OF w] r M]) simp_all
  have st: "md_state (iks_md5_compute md5) = map2 (+) (md_state md5) R"
    by (simp add: iks_md5_compute_def Let_def R_def)
  have l: "length R = 4" "length (md_state md5) = 4" using R s by (simp_all add: regs_0)
  then have "map2 (+) (md_state md5) R ! i = md_state md5 ! i + R ! i" if "i < 4" for i using that by simp
  then have "lo_state (iks_md5_compute md5) = (lo (md_state md5 ! 0) + lo (R ! 0), lo (md_state md5 ! 1) + lo (R ! 1),
      lo (md_state md5 ! 2) + lo (R ! 2), lo (md_state md5 ! 3) + lo (R ! 3))"
    by (simp add: lo_state_def st lo_plus [OF w])
  moreover have "fold (rfc_step (rfc_words (md_buffer md5))) [0..<64] (lo_state md5) = (lo (R ! 0), lo (R ! 1), lo (R ! 2), lo (R ! 3))"
    using R by (simp add: regs_0)
  ultimately show ?thesis using l by (simp add: rfc_compress_def lo_state_def st)
qed


section \<open>What has been read\<close>

text \<open>The blocks \<open>bs\<close> are compressed, the bytes \<open>rest\<close> are in the buffer, and \<open>t\<close> is counted.\<close>

definition holds :: "nat \<Rightarrow> byte list list \<Rightarrow> byte list \<Rightarrow> 'w::len word iksmd5 \<Rightarrow> bool" where
  "holds t bs rest md5 \<longleftrightarrow> length (md_buffer md5) = 64 \<and> length (md_state md5) = 4 \<and> (\<forall>b \<in> set bs. length b = 64)
     \<and> length rest \<le> 64 \<and> md_blen md5 = word_of_nat (length rest) \<and> take (length rest) (md_buffer md5) = rest
     \<and> lo_state md5 = foldl rfc_compress rfc_start bs \<and> total md5 = [word_of_nat t, 0]"

text \<open>A full buffer is compressed only when more data comes.\<close>

definition absorbed :: "byte list \<Rightarrow> 'w::len word iksmd5 \<Rightarrow> bool" where
  "absorbed m md5 \<longleftrightarrow> (\<exists>bs rest. m = concat bs @ rest \<and> (bs \<noteq> [] \<longrightarrow> rest \<noteq> []) \<and> holds (512 * length bs) bs rest md5)"

lemma unat_small: "n \<le> 64 \<Longrightarrow> unat (word_of_nat n :: byte) = n"
  by (simp add: unat_of_nat)

lemma fill_holds:
  assumes "holds t bs rest md5" and "length rest + length d \<le> 64"
  shows "\<exists>md5'. fill_buffer d md5 = Some md5' \<and> holds t bs (rest @ d) md5'"
proof -
  let ?b = "take (length rest) (md_buffer md5) @ d @ drop (length rest + length d) (md_buffer md5)"
  have h: "length (md_buffer md5) = 64" "md_blen md5 = word_of_nat (length rest)" "take (length rest) (md_buffer md5) = rest"
    "unat (md_blen md5) = length rest"
    using assms by (simp_all add: holds_def unat_small)
  then have "fill_buffer d md5 = Some (md5\<lparr>md_buffer := ?b, md_blen := word_of_nat (length (rest @ d))\<rparr>)"
    using assms(2) by (simp add: fill_buffer_def write_at_def)
  moreover have "take (length (rest @ d)) ?b = rest @ d" using h by simp
  ultimately show ?thesis using assms h(1) by (auto simp: holds_def lo_state_def)
qed

lemma add_total_small:
  fixes md5 :: "'w::len word iksmd5"
  assumes w: "32 \<le> LENGTH('w)" and h: "holds k bs rest md5" and n: "k + n < 2 ^ 32"
  shows "holds (k + n) bs rest (add_total n md5)"
proof -
  have t: "total md5 = [word_of_nat k, 0]" using h by (simp add: holds_def)
  have "k + n < 2 ^ LENGTH('w)" using n power_increasing [OF w, of "2 :: nat"] by linarith
  then have "\<not> (word_of_nat (k + n) :: 'w word) < word_of_nat n"
    by (simp add: word_less_nat_alt unat_of_nat del: of_nat_add)
  then have "add_total n md5 = md5\<lparr>total := [word_of_nat (k + n), 0]\<rparr>" by (simp add: add_total_def t add.commute)
  then show ?thesis using h by (simp add: holds_def lo_state_def)
qed

lemma block_holds:
  fixes md5 :: "'w::len word iksmd5"
  assumes w: "32 \<le> LENGTH('w)" and h: "holds t bs rest md5" and l: "length rest = 64"
  shows "holds t (bs @ [rest]) [] ((iks_md5_compute md5)\<lparr>md_blen := 0\<rparr>)"
proof -
  have "rest = md_buffer md5" using h l by (auto simp: holds_def)
  moreover have "length (md_state md5) = 4" using h by (simp add: holds_def)
  note compute_compresses [OF w this]
  ultimately show ?thesis using h by (auto simp: holds_def lo_state_def)
qed

lemma length_blocks: "\<forall>b \<in> set bs. length b = 64 \<Longrightarrow> length (concat bs) = 64 * length bs"
  by (induction bs) auto

lemma blocks_hold:
  fixes md5 :: "'w::len word iksmd5"
  assumes w: "32 \<le> LENGTH('w)"
  shows "holds (512 * length bs) bs rest md5 \<Longrightarrow> data \<noteq> [] \<longrightarrow> length rest = 64 \<Longrightarrow> 8 * length (concat bs @ rest @ data) < 2 ^ 32
    \<Longrightarrow> bs \<noteq> [] \<longrightarrow> rest \<noteq> [] \<Longrightarrow> \<exists>md5'. md5_blocks data md5 = Some md5' \<and> absorbed (concat bs @ rest @ data) md5'"
proof (induction "length data" arbitrary: data md5 bs rest rule: less_induct)
  case less
  show ?case
  proof (cases "data = []")
    case True
    then show ?thesis using less.prems by (auto simp: md5_blocks.simps absorbed_def)
  next
    case False
    have lb: "length (concat bs) = 64 * length bs" using less.prems(1) by (intro length_blocks) (simp add: holds_def)
    let ?m = "add_total 512 ((iks_md5_compute md5)\<lparr>md_blen := 0\<rparr>)"
    have "holds (512 * length bs + 512) (bs @ [rest]) [] ?m"
      by (rule add_total_small [OF w block_holds [OF w less.prems(1)]]) (use False less.prems(2,3) lb in simp_all)
    then have h: "holds (512 * length (bs @ [rest])) (bs @ [rest]) [] ?m" by (simp add: add.commute)
    obtain m' where m': "fill_buffer (take 64 data) ?m = Some m'" "holds (512 * length (bs @ [rest])) (bs @ [rest]) (take 64 data) m'"
      using fill_holds [OF h, of "take 64 data"] by auto
    have "\<exists>md5'. md5_blocks (drop 64 data) m' = Some md5' \<and> absorbed (concat (bs @ [rest]) @ take 64 data @ drop 64 data) md5'"
      by (rule less.hyps [OF _ m'(2)]) (use False less.prems(3) in auto)
    then show ?thesis using False m'(1) by (simp add: md5_blocks.simps [of data] Let_def)
  qed
qed

lemma hash_absorbs:
  fixes md5 :: "'w::len word iksmd5"
  assumes w: "32 \<le> LENGTH('w)" and a: "absorbed m md5" and n: "8 * length (m @ d) < 2 ^ 32"
  shows "\<exists>md5'. iks_md5_hash md5 d fin = (if fin then md5_finish md5' else Some md5') \<and> absorbed (m @ d) md5'"
proof -
  obtain bs rest where h: "m = concat bs @ rest" "bs \<noteq> [] \<longrightarrow> rest \<noteq> []" "holds (512 * length bs) bs rest md5"
    using a by (auto simp: absorbed_def)
  let ?j = "if length d < 64 - length rest then length d else 64 - length rest"
  have l: "length rest \<le> 64" "unat (md_blen md5) = length rest" using h(3) by (simp_all add: holds_def unat_small)
  obtain m' where m': "fill_buffer (take ?j d) md5 = Some m'" "holds (512 * length bs) bs (rest @ take ?j d) m'"
  proof -
    have "length rest + length (take ?j d) \<le> 64" using l(1) by auto
    then show ?thesis using fill_holds [OF h(3)] that by blast
  qed
  have "\<exists>md5'. md5_blocks (drop ?j d) m' = Some md5' \<and> absorbed (concat bs @ (rest @ take ?j d) @ drop ?j d) md5'"
    by (rule blocks_hold [OF w m'(2)]) (use l(1) h n in \<open>auto\<close>)
  then obtain md5' where md5': "md5_blocks (drop ?j d) m' = Some md5'" "absorbed (m @ d) md5'" using h(1) by auto
  moreover have "int (length d) < 2 ^ 31" using n by simp
  ultimately have "iks_md5_hash md5 d fin = (if fin then md5_finish md5' else Some md5')"
    using m'(1) by (simp add: iks_md5_hash_def l(2) Let_def)
  then show ?thesis using md5'(2) by blast
qed

section \<open>The end\<close>

lemma zeros_hold:
  assumes "holds t bs rest md5" and "length rest \<le> n" and "n \<le> 64"
  shows "\<exists>md5'. zero_until (word_of_nat n) md5 = Some md5' \<and> holds t bs (rest @ replicate (n - length rest) 0) md5'"
  using assms
proof (induction "n - length rest" arbitrary: rest md5)
  case 0
  then have "md_blen md5 = word_of_nat n" by (simp add: holds_def)
  then show ?case using 0 by (simp add: zero_until.simps)
next
  case (Suc k)
  have "unat (md_blen md5) = length rest" using Suc.prems(1) by (simp add: holds_def unat_small)
  then have less: "md_blen md5 < word_of_nat n" using Suc.hyps(2) Suc.prems(3) by (simp add: word_less_nat_alt unat_small)
  obtain m' where m': "fill_buffer [0] md5 = Some m'" "holds t bs (rest @ [0]) m'"
  proof -
    have "length rest + length [0 :: byte] \<le> 64" using Suc.hyps(2) Suc.prems(3) by simp
    then show ?thesis using fill_holds [OF Suc.prems(1)] that by blast
  qed
  have "\<exists>md5'. zero_until (word_of_nat n) m' = Some md5' \<and> holds t bs ((rest @ [0]) @ replicate (n - length (rest @ [0])) 0) md5'"
    by (rule Suc.hyps(1) [OF _ m'(2)]) (use Suc in auto)
  moreover have "replicate (n - length rest) (0 :: byte) = 0 # replicate (n - length (rest @ [0])) 0"
    using Suc.hyps(2) by (simp flip: replicate_Suc)
  ultimately show ?case using less m'(1) by (simp add: zero_until.simps [of "word_of_nat n" md5])
qed

lemma uint32_le64:
  assumes w: "32 \<le> LENGTH('w::len)" and n: "n < 2 ^ 32"
  shows "uint32_bytes (word_of_nat n :: 'w word) @ uint32_bytes (0 :: 'w word) = le64 n"
proof -
  have "n < 2 ^ LENGTH('w)" using n power_increasing [OF w, of "2 :: nat"] by linarith
  then have d: "ucast (drop_bit k (word_of_nat n :: 'w word)) = (word_of_nat (n div 2 ^ k) :: byte)" for k
  proof -
    have "ucast (drop_bit k (word_of_nat n :: 'w word)) = (word_of_nat (unat (drop_bit k (word_of_nat n :: 'w word))) :: byte)"
      by (simp only: of_nat_unat)
    also have "unat (drop_bit k (word_of_nat n :: 'w word)) = n div 2 ^ k"
      using \<open>n < 2 ^ LENGTH('w)\<close> by (simp only: unat_drop_bit_eq) (simp add: drop_bit_eq_div unat_of_nat)
    finally show ?thesis .
  qed
  have z: "n div 2 ^ k = 0" if "32 \<le> k" for k
    using n power_increasing [OF that, of "2 :: nat"] by simp
  have "[0..<8] = [0, 1, 2, 3, 4, 5, 6, 7 :: nat]" by code_simp
  then show ?thesis using d [of 0] d [of 8] d [of 16] d [of 24] z [of 32] z [of 40] z [of 48] z [of 56]
    by (simp add: uint32_bytes_def le64_def)
qed


lemma blocks64_concat: "\<forall>b \<in> set bs. length b = 64 \<Longrightarrow> blocks64 (concat bs @ t) = bs @ blocks64 t"
proof (induction bs)
  case (Cons b bs)
  then have "b \<noteq> []" by auto
  with Cons show ?case by (simp add: blocks64.simps [of "b @ concat bs @ t"])
qed simp

lemma blocks64_one: "length t = 64 \<Longrightarrow> blocks64 t = [t]"
  by (subst blocks64.simps) (auto simp: blocks64.simps [of "[]"])

lemma length_le64: "length (le64 n) = 8"
  by (simp add: le64_def)

text \<open>The last bytes: \<open>56\<close> bytes of the last block are in the buffer.\<close>

lemma last_block:
  fixes md5 :: "'w::len word iksmd5"
  assumes w: "32 \<le> LENGTH('w)" and h: "holds t bs rest md5" and l: "length rest = 56" and t: "t < 2 ^ 32"
  shows "\<exists>md5'. do { b \<leftarrow> PUT_UINT32 (total md5 ! 0) (md_buffer md5) 56; b \<leftarrow> PUT_UINT32 (total md5 ! 1) b 60;
      Some (iks_md5_compute (md5\<lparr>md_buffer := b\<rparr>)) } = Some md5'
    \<and> lo_state md5' = foldl rfc_compress rfc_start (bs @ [rest @ le64 t])"
proof -
  have f: "length (md_buffer md5) = 64" "take 56 (md_buffer md5) = rest" "total md5 = [word_of_nat t, 0]"
      "length (md_state md5) = 4" "lo_state md5 = foldl rfc_compress rfc_start bs"
    using h l by (simp_all add: holds_def)
  let ?u = "uint32_bytes (word_of_nat t :: 'w word)" and ?z = "uint32_bytes (0 :: 'w word)"
  have u: "length ?u = 4" "length ?z = 4" by (simp_all add: uint32_bytes_def)
  have one: "PUT_UINT32 (total md5 ! 0) (md_buffer md5) 56 = Some (rest @ ?u @ drop 60 (md_buffer md5))"
    using f u by (simp add: PUT_UINT32_def write_at_def)
  have two: "PUT_UINT32 (total md5 ! 1) (rest @ ?u @ drop 60 (md_buffer md5)) 60 = Some (rest @ ?u @ ?z)"
    using f u l by (simp add: PUT_UINT32_def write_at_def)
  let ?m = "md5\<lparr>md_buffer := rest @ le64 t\<rparr>"
  have "lo_state (iks_md5_compute ?m) = rfc_compress (lo_state ?m) (rest @ le64 t)"
    using compute_compresses [OF w, of ?m] f(4) l by (simp add: length_le64)
  moreover have "lo_state ?m = lo_state md5" by (simp add: lo_state_def)
  ultimately show ?thesis using one two f(5) by (simp add: uint32_le64 [OF w t])
qed

text \<open>The two ways to the last block: the length has room in the block of the rest, or not.\<close>

lemma last_block_short:
  fixes md5 :: "'w::len word iksmd5"
  assumes w: "32 \<le> LENGTH('w)" and h: "holds t bs pad md5" and l: "length pad \<le> 56" and t: "t < 2 ^ 32"
  shows "\<exists>md5'. do { md5 \<leftarrow> zero_until 56 md5; b \<leftarrow> PUT_UINT32 (total md5 ! 0) (md_buffer md5) 56;
      b \<leftarrow> PUT_UINT32 (total md5 ! 1) b 60; Some (iks_md5_compute (md5\<lparr>md_buffer := b\<rparr>)) } = Some md5'
    \<and> lo_state md5' = foldl rfc_compress rfc_start (bs @ [(pad @ replicate (56 - length pad) 0) @ le64 t])"
proof -
  have "\<exists>m. zero_until (word_of_nat 56) md5 = Some m \<and> holds t bs (pad @ replicate (56 - length pad) 0) m"
    by (rule zeros_hold [OF h l]) simp
  then obtain m where m: "zero_until 56 md5 = Some m" "holds t bs (pad @ replicate (56 - length pad) 0) m"
    by (simp only: of_nat_numeral) blast
  have "length (pad @ replicate (56 - length pad) 0) = 56" using l by simp
  from last_block [OF w m(2) this t] show ?thesis unfolding m(1) bind.bind_lunit .
qed

lemma last_block_long:
  fixes md5 :: "'w::len word iksmd5"
  assumes w: "32 \<le> LENGTH('w)" and h: "holds t bs pad md5" and l: "length pad \<le> 64"
  shows "\<exists>md5'. zero_until 64 md5 = Some md5'
    \<and> holds t (bs @ [pad @ replicate (64 - length pad) 0]) [] ((iks_md5_compute md5')\<lparr>md_blen := 0\<rparr>)"
proof -
  have "\<exists>m. zero_until (word_of_nat 64) md5 = Some m \<and> holds t bs (pad @ replicate (64 - length pad) 0) m"
    by (rule zeros_hold [OF h l]) simp
  then obtain m where m: "zero_until 64 md5 = Some m" "holds t bs (pad @ replicate (64 - length pad) 0) m"
    by (simp only: of_nat_numeral) blast
  have "length (pad @ replicate (64 - length pad) 0) = 64" using l by simp
  from block_holds [OF w m(2) this] m(1) show ?thesis by blast
qed

lemma rfc_pads:
  assumes "\<forall>b \<in> set bs. length b = 64" and "length rest < 64"
  shows "blocks64 ((concat bs @ rest) @ rfc_padding (length (concat bs @ rest))) =
    (let pad = rest @ [0x80]; t = 512 * length bs + 8 * length rest in
      if length pad \<le> 56 then bs @ [(pad @ replicate (56 - length pad) 0) @ le64 t]
      else (bs @ [pad @ replicate (64 - length pad) 0]) @ [replicate 56 0 @ le64 t])"
proof -
  have lb: "length (concat bs) = 64 * length bs" by (rule length_blocks [OF assms(1)])
  let ?t = "512 * length bs + 8 * length rest" and ?r = "length rest"
  have t: "8 * length (concat bs @ rest) = ?t" using lb by simp
  have md: "length (concat bs @ rest) mod 64 = ?r" using lb assms(2) by simp
  have one: "blocks64 ((concat bs @ rest) @ x) = bs @ blocks64 (rest @ x)" for x
    using blocks64_concat [OF assms(1)] by simp
  show ?thesis
  proof (cases "?r < 56")
    case True
    then have "rest @ rfc_padding (length (concat bs @ rest)) = ((rest @ [0x80]) @ replicate (56 - length (rest @ [0x80 :: byte])) 0) @ le64 ?t"
      unfolding rfc_padding_def t md by (simp add: mod_if)
    then show ?thesis unfolding one Let_def using True by (simp add: blocks64_one length_le64 del: replicate.simps)
  next
    case False
    let ?b = "(rest @ [0x80]) @ replicate (64 - length (rest @ [0x80 :: byte])) (0 :: byte)"
    have "(119 - ?r) mod 64 = (64 - length (rest @ [0x80 :: byte])) + 56" using False assms(2) by simp
    then have "replicate ((119 - ?r) mod 64) (0 :: byte) = replicate (64 - length (rest @ [0x80 :: byte])) 0 @ replicate 56 0"
      by (simp only: replicate_add)
    then have pads: "rest @ rfc_padding (length (concat bs @ rest)) = concat [?b] @ replicate 56 0 @ le64 ?t"
      unfolding rfc_padding_def t md by (simp only: append_assoc append_Cons append_Nil concat.simps)
    have "length ?b = 64" using assms(2) by simp
    then have two: "blocks64 (concat [?b] @ x) = [?b] @ blocks64 x" for x by (intro blocks64_concat) simp
    have three: "blocks64 (replicate 56 0 @ le64 ?t) = [replicate 56 0 @ le64 ?t]"
      by (rule blocks64_one) (simp only: length_append length_replicate length_le64)
    have "\<not> length (rest @ [0x80 :: byte]) \<le> 56" using False by simp
    then show ?thesis unfolding one Let_def pads two three by (simp only: if_False append_assoc)
  qed
qed

lemma finish_rfc:
  fixes md5 :: "'w::len word iksmd5"
  assumes w: "32 \<le> LENGTH('w)" and h: "holds (512 * length bs) bs rest md5" and l: "length rest < 64"
    and n: "8 * length (concat bs @ rest) < 2 ^ 32"
  shows "\<exists>md5'. md5_finish md5 = Some md5'
    \<and> lo_state md5' = foldl rfc_compress rfc_start (blocks64 ((concat bs @ rest) @ rfc_padding (length (concat bs @ rest))))"
proof -
  have b64: "\<forall>b \<in> set bs. length b = 64" using h by (simp add: holds_def)
  let ?t = "512 * length bs + 8 * length rest" and ?r = "length rest" and ?p = "rest @ [0x80]"
  have t: "?t < 2 ^ 32" using length_blocks [OF b64] n by simp
  have u: "unat (md_blen md5) = ?r" using h by (simp add: holds_def unat_small)
  have h0: "holds ?t bs rest (add_total (8 * ?r) md5)" by (rule add_total_small [OF w h]) (rule t)
  have lp: "length ?p \<le> 64" using l by simp
  then have "length rest + length [0x80 :: byte] \<le> 64" by simp
  then obtain m1 where m1: "fill_buffer [0x80] (add_total (8 * ?r) md5) = Some m1" "holds ?t bs ?p m1"
    using fill_holds [OF h0] by blast
  have bl: "56 < md_blen m1 \<longleftrightarrow> \<not> length ?p \<le> 56"
    using m1(2) l by (auto simp: holds_def word_less_nat_alt unat_of_nat simp flip: of_nat_Suc)
  show ?thesis
  proof (cases "length ?p \<le> 56")
    case True
    from last_block_short [OF w m1(2) this t] obtain m where m: "do { md5 \<leftarrow> zero_until 56 m1; b \<leftarrow> PUT_UINT32 (total md5 ! 0) (md_buffer md5) 56;
      b \<leftarrow> PUT_UINT32 (total md5 ! 1) b 60; Some (iks_md5_compute (md5\<lparr>md_buffer := b\<rparr>)) } = Some m"
      "lo_state m = foldl rfc_compress rfc_start (bs @ [(?p @ replicate (56 - length ?p) 0) @ le64 ?t])" by blast
    have "md5_finish md5 = Some m" unfolding md5_finish_def u m1(1) bind.bind_lunit using bl True m(1)
      by (simp only: if_False not_True_eq_False bind.bind_lunit)
    then show ?thesis using rfc_pads [OF b64 l] m(2) True by (simp only: Let_def if_True) blast
  next
    case False
    obtain m2 where m2: "zero_until 64 m1 = Some m2"
      "holds ?t (bs @ [?p @ replicate (64 - length ?p) 0]) [] ((iks_md5_compute m2)\<lparr>md_blen := 0\<rparr>)"
      using last_block_long [OF w m1(2) lp] by blast
    have "length ([] :: byte list) \<le> 56" by simp
    from last_block_short [OF w m2(2) this t, unfolded append_Nil list.size diff_zero] obtain m where m: "do { md5 \<leftarrow> zero_until 56 ((iks_md5_compute m2)\<lparr>md_blen := 0\<rparr>);
      b \<leftarrow> PUT_UINT32 (total md5 ! 0) (md_buffer md5) 56; b \<leftarrow> PUT_UINT32 (total md5 ! 1) b 60;
      Some (iks_md5_compute (md5\<lparr>md_buffer := b\<rparr>)) } = Some m"
      "lo_state m = foldl rfc_compress rfc_start ((bs @ [?p @ replicate (64 - length ?p) 0]) @ [replicate 56 0 @ le64 ?t])"
      by blast
    have "md5_finish md5 = Some m" unfolding md5_finish_def u m1(1) bind.bind_lunit using bl False m(1) m2(1)
      by (simp only: if_True not_False_eq_True bind.bind_lunit)
    then show ?thesis using rfc_pads [OF b64 l] m(2) False by (simp only: Let_def if_False) blast
  qed
qed

section \<open>Properties\<close>

lemma digest_bytes:
  fixes md5 :: "'w::len word iksmd5"
  assumes "32 \<le> LENGTH('w)"
  shows "iks_md5_digest md5 = Some (quad_bytes (lo_state md5))"
proof -
  have b: "uint32_bytes (x :: 'w word) = uint32_bytes (lo x)" for x
    using assms by (auto intro!: bit_word_eqI simp: uint32_bytes_def bit_lo bit_ucast_iff bit_drop_bit_eq)
  have u: "length (uint32_bytes x) = 4" for x :: u32 by (simp add: uint32_bytes_def)
  have "iks_md5_digest md5 = Some (uint32_bytes (md_state md5 ! 0) @ uint32_bytes (md_state md5 ! 1)
      @ uint32_bytes (md_state md5 ! 2) @ uint32_bytes (md_state md5 ! 3))"
    by (simp add: iks_md5_digest_def PUT_UINT32_def write_at_def b u)
  then show ?thesis by (simp add: quad_bytes_def lo_state_def b bytes_le32)
qed

text \<open>The calls for the pieces of a message.\<close>

fun md5_feed :: "byte list list \<Rightarrow> 'w::len word iksmd5 \<Rightarrow> 'w word iksmd5 option" where
  "md5_feed [] md5 = Some md5"
| "md5_feed (d # ds) md5 = do { md5 \<leftarrow> iks_md5_hash md5 d False; md5_feed ds md5 }"

lemma feed_absorbs:
  fixes md5 :: "'w::len word iksmd5"
  assumes w: "32 \<le> LENGTH('w)"
  shows "absorbed m md5 \<Longrightarrow> 8 * length (m @ concat ds) < 2 ^ 32 \<Longrightarrow> \<exists>md5'. md5_feed ds md5 = Some md5' \<and> absorbed (m @ concat ds) md5'"
proof (induction ds arbitrary: m md5)
  case (Cons d ds)
  then obtain x where x: "iks_md5_hash md5 d False = Some x" "absorbed (m @ d) x"
    using hash_absorbs [OF w Cons.prems(1), of d False] by auto
  with Cons.IH [of "m @ d" x] Cons.prems(2) show ?case by simp
qed simp

lemma start_absorbs:
  assumes "32 \<le> LENGTH('w::len)"
  shows "absorbed [] (iks_md5_reset :: 'w word iksmd5)"
proof -
  have l: "lo (word_of_int c :: 'w word) = word_of_int c" for c
    using assms by (intro bit_word_eqI) (simp add: bit_lo bit_word_of_int_iff)
  have "lo_state (iks_md5_reset :: 'w word iksmd5) = rfc_start"
    by (simp add: lo_state_def iks_md5_reset_def rfc_start_def l [of "numeral _", simplified] numeral_2_eq_2 numeral_3_eq_3)
  then have "holds 0 [] [] (iks_md5_reset :: 'w word iksmd5)" by (simp add: holds_def) (simp add: iks_md5_reset_def)
  then show ?thesis unfolding absorbed_def by (intro exI [of _ "[]"]) simp
qed

text \<open>
  C15. Whatever the width of \<^verbatim>\<open>unsigned long int\<close> and in whatever pieces a message below 512 MB is given, the digest is
  the MD5 of RFC 1321, except for the messages whose length is a positive multiple of 64: there
  the byte \<^verbatim>\<open>0x80\<close> is written behind the buffer.
\<close>

theorem md5_is_rfc1321:
  assumes "32 \<le> LENGTH('w::len)" and "length (concat ds @ d) < 2 ^ 29"
  shows "do { md5 \<leftarrow> md5_feed ds (iks_md5_reset :: 'w word iksmd5); md5 \<leftarrow> iks_md5_hash md5 d True; iks_md5_digest md5 }
    = (if concat ds @ d \<noteq> [] \<and> 64 dvd length (concat ds @ d) then None else Some (rfc1321 (concat ds @ d)))"
proof -
  have n: "8 * length (concat ds @ d) < 2 ^ 32" using assms(2) by simp
  obtain x where x: "md5_feed ds (iks_md5_reset :: 'w word iksmd5) = Some x" "absorbed (concat ds) x"
    using feed_absorbs [OF assms(1) start_absorbs [OF assms(1)], of ds] n by auto
  obtain y where y: "iks_md5_hash x d True = md5_finish y" "absorbed (concat ds @ d) y"
    using hash_absorbs [OF assms(1) x(2), of d True] n by auto
  obtain bs rest where h: "concat ds @ d = concat bs @ rest" "bs \<noteq> [] \<longrightarrow> rest \<noteq> []" "holds (512 * length bs) bs rest y"
    using y(2) by (auto simp: absorbed_def)
  have r: "length rest \<le> 64" "length (concat bs) = 64 * length bs" "unat (md_blen y) = length rest" "length (md_buffer y) = 64"
    using h(3) by (simp_all add: holds_def unat_small length_blocks)
  have dvd: "concat ds @ d \<noteq> [] \<and> 64 dvd length (concat ds @ d) \<longleftrightarrow> length rest = 64"
  proof -
    have "64 dvd length (concat bs @ rest) \<longleftrightarrow> 64 dvd length rest" using r(2) by (simp add: dvd_add_right_iff)
    moreover have "64 dvd length rest \<longleftrightarrow> rest = [] \<or> length rest = 64" using r(1) by (auto dest: dvd_imp_le)
    ultimately show ?thesis unfolding h(1) using h(2) by auto
  qed
  show ?thesis
  proof (cases "length rest = 64")
    case True
    then have "md5_finish y = None" using r by (simp add: md5_finish_def fill_buffer_def write_at_def add_total_def Let_def)
    then show ?thesis unfolding if_P [OF dvd [THEN iffD2, OF True]] using x(1) y(1) by simp
  next
    case False
    then obtain z where "md5_finish y = Some z" "lo_state z = foldl rfc_compress rfc_start (blocks64 ((concat bs @ rest) @ rfc_padding (length (concat bs @ rest))))"
      using finish_rfc [OF assms(1) h(3)] r(1) n h(1) by auto
    then show ?thesis unfolding if_not_P [OF False [unfolded dvd [symmetric]]] using x(1) y(1)
      by (simp add: digest_bytes [OF assms(1)] rfc1321_def h(1) del: length_append)
  qed
qed

theorem md5_is_rfc1321_witness:
  "do { md5 \<leftarrow> md5_feed [map of_char ''ab''] (iks_md5_reset :: 64 word iksmd5); md5 \<leftarrow> iks_md5_hash md5 (map of_char ''c'') True;
      iks_md5_digest md5 } = Some (rfc1321 (map of_char ''abc''))"
  using md5_is_rfc1321 [where 'w = 64 and ds = "[map of_char ''ab'']" and d = "map of_char ''c''"] by (simp del: of_char_Char add: dvd_eq_mod_eq_0)

end
