(* ===== verification/ShaSpec.thy ===== *)
theory ShaSpec
  imports Sha Md5Spec
begin

text \<open>
  SHA-1 as FIPS 180-1 states it, and the proof that \<^verbatim>\<open>src/CuteCat/iksemel/sha.c\<close> computes it, whatever the
  pieces in which the message comes.
\<close>

section \<open>The specification\<close>

fun fips_W :: "u32 list \<Rightarrow> nat \<Rightarrow> u32" where
  "fips_W M t =
     (if t < 16 then M ! t
      else word_rotl 1 (fips_W M (t - 3) XOR fips_W M (t - 8) XOR fips_W M (t - 14) XOR fips_W M (t - 16)))"

declare fips_W.simps [simp del]

definition fips_f :: "nat \<Rightarrow> u32 \<Rightarrow> u32 \<Rightarrow> u32 \<Rightarrow> u32" where
  "fips_f t B C D =
     (if t < 20 then (B AND C) OR (NOT B AND D)
      else if t < 40 then B XOR C XOR D
      else if t < 60 then (B AND C) OR (B AND D) OR (C AND D)
      else B XOR C XOR D)"

definition fips_K :: "nat \<Rightarrow> u32" where
  "fips_K t = [0x5A827999, 0x6ED9EBA1, 0x8F1BBCDC, 0xCA62C1D6] ! (t div 20)"

definition fips_step :: "u32 list \<Rightarrow> nat \<Rightarrow> regs5 \<Rightarrow> regs5" where
  "fips_step M t r =
     (case r of (A, B, C, D, E) \<Rightarrow>
        (word_rotl 5 A + fips_f t B C D + E + fips_W M t + fips_K t, A, word_rotl 30 B, C, D))"

text \<open>The words of a block, the high byte first.\<close>

definition fips_words :: "byte list \<Rightarrow> u32 list" where
  "fips_words block = map (\<lambda>i. word_rcat (take 4 (drop (4 * i) block))) [0..<16]"

definition fips_compress :: "regs5 \<Rightarrow> byte list \<Rightarrow> regs5" where
  "fips_compress h block =
     (case (h, fold (fips_step (fips_words block)) [0..<80] h) of
        ((a, b, c, d, e), (A, B, C, D, E)) \<Rightarrow> (a + A, b + B, c + C, d + D, e + E))"

definition fips_start :: regs5 where
  "fips_start = (0x67452301, 0xEFCDAB89, 0x98BADCFE, 0x10325476, 0xC3D2E1F0)"

definition fips_padding :: "nat \<Rightarrow> byte list" where
  "fips_padding n = 0x80 # replicate ((119 - n mod 64) mod 64) 0 @ rev (le64 (8 * n))"

definition fips_sha1 :: "byte list \<Rightarrow> regs5" where
  "fips_sha1 m = foldl fips_compress fips_start (blocks64 (m @ fips_padding (length m)))"

text \<open>A word as eight hexadecimal digits.\<close>

definition hex32 :: "u32 \<Rightarrow> string" where
  "hex32 x = map (\<lambda>i. digit_char (unat x div 16 ^ (7 - i) mod 16)) [0..<8]"

definition fips_text :: "regs5 \<Rightarrow> string" where
  "fips_text h = (case h of (a, b, c, d, e) \<Rightarrow> concat (map hex32 [a, b, c, d, e]))"

section \<open>A block\<close>

lemma SRL_rotl:
  assumes "0 < n" and "n < 32"
  shows "SRL x n = word_rotl n x"
proof (rule bit_word_eqI)
  fix k assume k: "k < LENGTH(32)"
  have r: "(k + 32 - n) mod 32 = (if n \<le> k then k - n else 32 + k - n)" using k assms by (auto simp: mod_if)
  show "bit (SRL x n) k = bit (word_rotl n x) k"
    unfolding SRL_def using k assms
    by (auto simp: bit_or_iff bit_push_bit_iff bit_drop_bit_eq bit_word_rotl_iff r dest: bit_imp_le_length)
qed

lemma schedule_W:
  assumes "length buf = 80" and "n \<le> 80" and "16 \<le> n"
  shows "length (fold (\<lambda>i buf. buf[i := SRL (buf ! (i - 3) XOR buf ! (i - 8) XOR buf ! (i - 14) XOR buf ! (i - 16)) 1]) [16..<n] buf) = 80
    \<and> (\<forall>t < n. fold (\<lambda>i buf. buf[i := SRL (buf ! (i - 3) XOR buf ! (i - 8) XOR buf ! (i - 14) XOR buf ! (i - 16)) 1]) [16..<n] buf ! t
        = fips_W (take 16 buf) t)"
  using assms(3,2)
proof (induction n rule: dec_induct)
  case base
  then show ?case using assms(1) by (simp add: fips_W.simps)
next
  case (step n)
  let ?b = "fold (\<lambda>i buf. buf[i := SRL (buf ! (i - 3) XOR buf ! (i - 8) XOR buf ! (i - 14) XOR buf ! (i - 16)) 1]) [16..<n] buf"
  have IH: "length ?b = 80" "\<And>t. t < n \<Longrightarrow> ?b ! t = fips_W (take 16 buf) t" using step.IH step.prems by auto
  have "SRL (?b ! (n - 3) XOR ?b ! (n - 8) XOR ?b ! (n - 14) XOR ?b ! (n - 16)) 1 = fips_W (take 16 buf) n"
    using step.hyps(1) IH(2) by (simp add: fips_W.simps [of _ n] SRL_rotl)
  then show ?case using step.hyps step.prems IH by (simp add: nth_list_update less_Suc_eq)
qed

lemma loop_fips:
  assumes "\<And>i. i \<in> {a..b} \<Longrightarrow> (\<forall>B C D. f B C D = fips_f i B C D) \<and> buf ! i = fips_W M i \<and> c = fips_K i"
  shows "SHA_loop a b f c buf r = fold (fips_step M) [a..<b + 1] r"
  unfolding SHA_loop_def
proof (rule fold_cong [OF refl refl])
  fix i assume "i \<in> set [a..<b + 1]"
  then have "i \<in> {a..b}" by auto
  from assms [OF this] show "SHA_round f c buf i = fips_step M i"
    by (intro ext) (auto simp: SHA_round_def fips_step_def SRL_rotl split: prod.split)
qed

lemma choose_xor: "((C XOR D) AND B) XOR D = (B AND C) OR (NOT B AND D)" for B C D :: u32
  by (rule bit_word_eqI) (auto simp: bit_simps)

lemma majority: "(B AND C) OR (D AND (B OR C)) = (B AND C) OR (B AND D) OR (C AND D)" for B C D :: u32
  by (rule bit_word_eqI) (auto simp: bit_simps)

definition state5 :: "iksha \<Rightarrow> regs5" where
  "state5 sha = (hash sha ! 0, hash sha ! 1, hash sha ! 2, hash sha ! 3, hash sha ! 4)"

lemma calculate_compresses:
  assumes "length (sha_buf sha) = 80" and "take 16 (sha_buf sha) = fips_words block"
  shows "state5 (sha_calculate sha) = fips_compress (state5 sha) block"
    "length (hash (sha_calculate sha)) = 5" "length (sha_buf (sha_calculate sha)) = 80"
    "sha_blen (sha_calculate sha) = sha_blen sha" "lenhi (sha_calculate sha) = lenhi sha" "lenlo (sha_calculate sha) = lenlo sha"
proof -
  let ?b = "sha_schedule (sha_buf sha)" and ?M = "fips_words block"
  have "length ?b = 80 \<and> (\<forall>t < 80. ?b ! t = fips_W ?M t)"
    unfolding sha_schedule_def assms(2) [symmetric] by (rule schedule_W [OF assms(1)]) simp_all
  then have b: "length ?b = 80" "\<And>t. t < 80 \<Longrightarrow> ?b ! t = fips_W ?M t" by blast+
  have l1: "SHA_loop 0 19 (\<lambda>B C D. ((C XOR D) AND B) XOR D) 0x5a827999 ?b r = fold (fips_step ?M) [0..<19 + 1] r" for r
    by (intro loop_fips) (auto simp: choose_xor fips_f_def fips_K_def b(2))
  have l2: "SHA_loop 20 39 (\<lambda>B C D. B XOR C XOR D) 0x6ed9eba1 ?b r = fold (fips_step ?M) [20..<39 + 1] r" for r
  proof -
    have "i div 20 = 1" if "i \<in> {20..39}" for i :: nat using that by (intro div_nat_eqI) auto
    then show ?thesis by (intro loop_fips) (auto simp: fips_f_def fips_K_def b(2))
  qed
  have l3: "SHA_loop 40 59 (\<lambda>B C D. (B AND C) OR (D AND (B OR C))) 0x8f1bbcdc ?b r = fold (fips_step ?M) [40..<59 + 1] r" for r
  proof -
    have "i div 20 = 2" if "i \<in> {40..59}" for i :: nat using that by (intro div_nat_eqI) auto
    then show ?thesis by (intro loop_fips) (auto simp: majority fips_f_def fips_K_def b(2))
  qed
  have l4: "SHA_loop 60 79 (\<lambda>B C D. B XOR C XOR D) 0xca62c1d6 ?b r = fold (fips_step ?M) [60..<79 + 1] r" for r
  proof -
    have "i div 20 = 3" if "i \<in> {60..79}" for i :: nat using that by (intro div_nat_eqI) auto
    then show ?thesis by (intro loop_fips) (auto simp: fips_f_def fips_K_def b(2))
  qed
  have "[0..<80] = [0..<19 + 1] @ [20..<39 + 1] @ [40..<59 + 1] @ [60..<79 + (1 :: nat)]" by code_simp
  then have all: "fold (fips_step ?M) [0..<80] r
      = fold (fips_step ?M) [60..<79 + 1] (fold (fips_step ?M) [40..<59 + 1] (fold (fips_step ?M) [20..<39 + 1] (fold (fips_step ?M) [0..<19 + 1] r)))" for r
    by (simp only: fold_append o_apply)
  obtain A B C D E where f: "fold (fips_step ?M) [0..<80] (state5 sha) = (A, B, C, D, E)" by (metis prod_cases5)
  then have "sha_calculate sha = sha\<lparr>sha_buf := ?b,
      hash := [hash sha ! 0 + A, hash sha ! 1 + B, hash sha ! 2 + C, hash sha ! 3 + D, hash sha ! 4 + E]\<rparr>"
    by (simp only: sha_calculate_def Let_def l1 l2 l3 l4 all [symmetric] state5_def [symmetric] prod.case)
  then show "state5 (sha_calculate sha) = fips_compress (state5 sha) block"
    "length (hash (sha_calculate sha)) = 5" "length (sha_buf (sha_calculate sha)) = 80"
    "sha_blen (sha_calculate sha) = sha_blen sha" "lenhi (sha_calculate sha) = lenhi sha" "lenlo (sha_calculate sha) = lenlo sha"
    using f b(1) by (simp_all add: fips_compress_def) (simp add: state5_def)
qed

section \<open>Bytes into words\<close>

definition shift_in :: "u32 \<Rightarrow> byte \<Rightarrow> u32" where
  "shift_in w b = push_bit 8 w OR ucast b"

text \<open>Four bytes push out whatever was in the word.\<close>

lemma shift_in_four: "length bs = 4 \<Longrightarrow> foldl shift_in w bs = word_rcat bs"
proof -
  assume "length bs = 4"
  then obtain a b c d where bs: "bs = [a, b, c, d]" by (auto simp: numeral_eq_Suc length_Suc_conv)
  have "shift_in (shift_in (shift_in (shift_in w a) b) c) d = word_rcat [a, b, c, d]"
  proof (rule bit_word_eqI)
    fix n assume n: "n < LENGTH(32)"
    have "n div 8 < Suc (Suc (Suc (Suc 0)))" using n by simp
    then have rc: "bit (word_rcat [a, b, c, d] :: u32) n \<longleftrightarrow> bit ([d, c, b, a] ! (n div 8)) (n mod 8)"
      using n bit_horner_sum_uint_exp_iff [of "[d, c, b, a]" n]
      by (simp only: word_rcat_def bit_word_of_int_iff o_apply rev.simps append.simps list.size) simp
    have dm: "n div 8 = q" "n mod 8 = n - 8 * q" if "8 * q \<le> n" "n < 8 * Suc q" for q
    proof -
      show q: "n div 8 = q" using that by (intro div_nat_eqI) auto
      show "n mod 8 = n - 8 * q" by (simp only: q modulo_nat_def)
    qed
    have bounds: "\<not> bit x k" if "8 \<le> k" for x :: byte and k using that bit_imp_le_length [of x k] by auto
    consider "n < 8" | "8 \<le> n" "n < 16" | "16 \<le> n" "n < 24" | "24 \<le> n" "n < 32" using n by fastforce
    then show "bit (shift_in (shift_in (shift_in (shift_in w a) b) c) d) n = bit (word_rcat [a, b, c, d] :: u32) n"
    proof cases
      case 1
      then show ?thesis by (auto simp: rc dm [of 0] shift_in_def bit_or_iff bit_push_bit_iff bit_ucast_iff)
    next
      case 2
      then show ?thesis by (auto simp: rc dm [of 1] shift_in_def bit_or_iff bit_push_bit_iff bit_ucast_iff bounds)
    next
      case 3
      then show ?thesis by (auto simp: rc dm [of 2] shift_in_def bit_or_iff bit_push_bit_iff bit_ucast_iff bounds)
    next
      case 4
      then show ?thesis by (auto simp: rc dm [of 3] shift_in_def bit_or_iff bit_push_bit_iff bit_ucast_iff bounds)
    qed
  qed
  then show ?thesis by (simp add: bs)
qed

section \<open>The length\<close>

definition len64 :: "iksha \<Rightarrow> u64" where
  "len64 sha = word_cat (lenhi sha) (lenlo sha)"

lemma word_cat_int: "(word_cat (h :: u32) (l :: u32) :: u64) = word_of_int (uint l + 2 ^ 32 * uint h)"
  by (simp add: word_cat_eq concat_bit_eq push_bit_eq_mult mult.commute take_bit_int_eq_self_iff)

lemma carry_8:
  "(word_cat (h + (if l + 8 < 8 then 1 else 0)) (l + 8) :: u64) = word_cat h l + 8" for h l :: u32
proof -
  have w: "(word_of_int (2 ^ 32 * uint (h + 1)) :: u64) = word_of_int (2 ^ 32 * (uint h + 1))"
  proof (cases "uint h + 1 < 2 ^ 32")
    case True
    then show ?thesis by (simp add: uint_word_ariths)
  next
    case False
    then have "uint h = 2 ^ 32 - 1" using uint_bounded [of h] by simp
    then have "uint (h + 1) = 0" "2 ^ 32 * (uint h + 1) = 2 ^ LENGTH(64)" by (simp_all add: uint_word_ariths)
    then show ?thesis by (simp only: of_int_power of_int_mult) simp
  qed
  show ?thesis
  proof (cases "uint l + 8 < 2 ^ 32")
    case True
    then have u: "uint (l + 8) = uint l + 8" by (simp add: uint_word_ariths)
    then have "\<not> l + 8 < 8" using uint_ge_0 [of l] by (simp add: word_less_def)
    then show ?thesis by (simp add: word_cat_int u)
  next
    case False
    then have "(uint l + 8 - 2 ^ 32) mod 2 ^ 32 = uint l + 8 - 2 ^ 32"
      using uint_bounded [of l] by (intro mod_pos_pos_trivial) simp_all
    then have "(uint l + 8) mod 2 ^ 32 = uint l + 8 - 2 ^ 32" by (simp only: minus_mod_self2)
    then have u: "uint (l + 8) = uint l + 8 - 2 ^ 32" by (simp add: uint_word_ariths)
    then have "l + 8 < 8" using uint_bounded [of l] by (simp add: word_less_def)
    then show ?thesis using w by (simp add: word_cat_int u algebra_simps)
  qed
qed

lemma len64_byte: "len64 (sha_byte b sha) = len64 sha + 8"
proof -
  have "lenlo (sha_byte b sha) = lenlo sha + 8" "lenhi (sha_byte b sha) = lenhi sha + (if lenlo sha + 8 < 8 then 1 else 0)"
    by (simp_all add: sha_byte_def Let_def sha_calculate_def split: prod.split)
  then show ?thesis by (simp only: len64_def carry_8)
qed

definition len_pad :: "iksha \<Rightarrow> byte list" where
  "len_pad sha =
     [ucast (drop_bit 24 (lenhi sha) AND 0xff), ucast (drop_bit 16 (lenhi sha) AND 0xff),
      ucast (drop_bit 8 (lenhi sha) AND 0xff), ucast (lenhi sha AND 0xff),
      ucast (drop_bit 24 (lenlo sha) AND 0xff), ucast (drop_bit 16 (lenlo sha) AND 0xff),
      ucast (drop_bit 8 (lenlo sha) AND 0xff), ucast (lenlo sha AND 255)]"

lemma len_pad_le64:
  assumes "len64 sha = word_of_nat n"
  shows "len_pad sha = rev (le64 n)"
proof -
  have b: "bit n k \<longleftrightarrow> bit (if k < 32 then lenlo sha else lenhi sha) (if k < 32 then k else k - 32)" if "k < 64" for k
  proof -
    have "bit n k \<longleftrightarrow> bit (len64 sha) k" using that by (simp add: assms bit_of_nat_iff)
    then show ?thesis using that by (simp add: len64_def bit_word_cat_iff)
  qed
  have 255: "(0xff :: u32) = mask 8" by (simp add: mask_eq_exp_minus_1)
  have lo: "ucast (drop_bit k (lenlo sha) AND 0xff) = (word_of_nat (n div 2 ^ k) :: byte)" if "k + 8 \<le> 32" for k
    using that by (intro bit_word_eqI) (simp add: 255 bit_simps b flip: drop_bit_eq_div)
  have hi: "ucast (drop_bit k (lenhi sha) AND 0xff) = (word_of_nat (n div 2 ^ (k + 32)) :: byte)" if "k + 8 \<le> 32" for k
    using that by (intro bit_word_eqI) (simp add: 255 bit_simps b flip: drop_bit_eq_div)
  have "[0..<8] = [0, 1, 2, 3, 4, 5, 6, 7 :: nat]" by code_simp
  then show ?thesis using lo [of 0] lo [of 8] lo [of 16] lo [of 24] hi [of 0] hi [of 8] hi [of 16] hi [of 24]
    by (simp add: len_pad_def le64_def)
qed

section \<open>Absorbing a message\<close>

definition sha_holds :: "byte list list \<Rightarrow> byte list \<Rightarrow> iksha \<Rightarrow> bool" where
  "sha_holds bs rest sha \<longleftrightarrow> length (hash sha) = 5 \<and> length (sha_buf sha) = 80 \<and> (\<forall>b \<in> set bs. length b = 64)
     \<and> length rest < 64 \<and> sha_blen sha = length rest \<and> state5 sha = foldl fips_compress fips_start bs
     \<and> (\<exists>old. \<forall>i < 16. sha_buf sha ! i = foldl shift_in (old i) (take 4 (drop (4 * i) rest)))
     \<and> len64 sha = word_of_nat (8 * length (concat bs @ rest))"

definition sha_absorbed :: "byte list \<Rightarrow> iksha \<Rightarrow> bool" where
  "sha_absorbed m sha \<longleftrightarrow> (\<exists>bs rest. m = concat bs @ rest \<and> sha_holds bs rest sha)"

text \<open>The word of the next byte.\<close>

lemma next_byte_word:
  assumes b: "\<forall>i < 16. buf ! i = foldl shift_in (old i) (take 4 (drop (4 * i) rest))"
    and l: "length rest < 64" "length buf = 80" and i: "i < 16"
  shows "buf[length rest div 4 := push_bit 8 (buf ! (length rest div 4)) OR ucast b] ! i
    = foldl shift_in (old i) (take 4 (drop (4 * i) (rest @ [b])))"
proof -
  let ?k = "length rest div 4" and ?r = "length rest mod 4"
  have n: "length rest = 4 * ?k + ?r" "?r < 4" "?k < 16" using l(1) by auto
  consider "i < ?k" | "i = ?k" | "?k < i" by linarith
  then show ?thesis
  proof cases
    case 1
    then have "4 * i + 4 \<le> length rest" using n by linarith
    then show ?thesis using 1 b i by simp
  next
    case 2
    then have "length (drop (4 * i) rest) < 4" "4 * i \<le> length rest" using n by auto
    then show ?thesis using 2 b i l by (simp add: shift_in_def)
  next
    case 3
    then have "4 * i \<ge> length (rest @ [b])" using n by simp
    then show ?thesis using 3 b i by simp
  qed
qed

lemma full_words:
  assumes b: "\<forall>i < 16. buf ! i = foldl shift_in (old i) (take 4 (drop (4 * i) block))"
    and l: "length block = 64" "length buf = 80"
  shows "take 16 buf = fips_words block"
proof (rule nth_equalityI)
  fix i assume "i < length (take 16 buf)"
  then have i: "i < 16" by simp
  then have "length (take 4 (drop (4 * i) block)) = 4" using l by simp
  then show "take 16 buf ! i = fips_words block ! i"
    using i b by (simp add: fips_words_def shift_in_four)
qed (simp add: l fips_words_def)

lemma byte_absorbed:
  assumes "sha_absorbed m sha"
  shows "sha_absorbed (m @ [b]) (sha_byte b sha)"
proof -
  obtain bs rest old where m: "m = concat bs @ rest" and h: "length (hash sha) = 5" "length (sha_buf sha) = 80"
      "\<forall>b \<in> set bs. length b = 64" "length rest < 64" "sha_blen sha = length rest" "state5 sha = foldl fips_compress fips_start bs"
      "\<forall>i < 16. sha_buf sha ! i = foldl shift_in (old i) (take 4 (drop (4 * i) rest))"
      "len64 sha = word_of_nat (8 * length (concat bs @ rest))"
    using assms by (auto simp: sha_absorbed_def sha_holds_def)
  let ?k = "length rest div 4"
  define buf where "buf = (sha_buf sha)[?k := push_bit 8 (sha_buf sha ! ?k) OR ucast b]"
  define s where "s = sha\<lparr>sha_buf := buf, sha_blen := length rest + 1\<rparr>"
  have lb: "length buf = 80" using h(2) by (simp add: buf_def)
  have w: "\<forall>i < 16. buf ! i = foldl shift_in (old i) (take 4 (drop (4 * i) (rest @ [b])))"
    using next_byte_word [OF h(7,4,2)] by (simp add: buf_def)
  have n: "len64 (sha_byte b sha) = word_of_nat (8 * length (m @ [b]))" using h(8) by (simp add: len64_byte m)
  let ?s = "if (length rest + 1) mod 64 = 0 then (sha_calculate s)\<lparr>sha_blen := 0\<rparr> else s"
  have sb: "sha_byte b sha = ?s\<lparr>lenlo := lenlo sha + 8, lenhi := lenhi sha + (if lenlo sha + 8 < 8 then 1 else 0)\<rparr>"
    using calculate_compresses(5,6) by (simp add: sha_byte_def Let_def h(5) s_def buf_def) (simp add: sha_calculate_def Let_def split: prod.split)
  show ?thesis
  proof (cases "length rest = 63")
    case True
    then have f: "take 16 (sha_buf s) = fips_words (rest @ [b])" using full_words [OF w _ lb] by (simp add: s_def)
    have s: "length (sha_buf s) = 80" "state5 s = state5 sha" using lb by (simp_all add: s_def state5_def)
    note c = calculate_compresses [OF s(1) f]
    have "sha_holds (bs @ [rest @ [b]]) [] (sha_byte b sha)"
      unfolding sha_holds_def
    proof (intro conjI)
      show "state5 (sha_byte b sha) = foldl fips_compress fips_start (bs @ [rest @ [b]])"
        using True c(1) s(2) h(6) by (simp add: sb state5_def)
      show "\<exists>old'. \<forall>i<16. sha_buf (sha_byte b sha) ! i = foldl shift_in (old' i) (take 4 (drop (4 * i) []))"
        by (intro exI [of _ "\<lambda>i. sha_buf (sha_byte b sha) ! i"]) simp
    qed (use True c h m n in \<open>auto simp: sb\<close>)
    then show ?thesis unfolding sha_absorbed_def m by (intro exI [of _ "bs @ [rest @ [b]]"] exI [of _ "[]"]) simp
  next
    case False
    then have sb': "sha_byte b sha = s\<lparr>lenlo := lenlo sha + 8, lenhi := lenhi sha + (if lenlo sha + 8 < 8 then 1 else 0)\<rparr>"
      using h(4) sb by simp
    have "sha_holds bs (rest @ [b]) (sha_byte b sha)"
      unfolding sha_holds_def
    proof (intro conjI)
      show "\<exists>old. \<forall>i<16. sha_buf (sha_byte b sha) ! i = foldl shift_in (old i) (take 4 (drop (4 * i) (rest @ [b])))"
        using w by (intro exI [of _ old]) (simp add: sb' s_def)
      show "len64 (sha_byte b sha) = word_of_nat (8 * length (concat bs @ rest @ [b]))" using n m by simp
    qed (use False h lb in \<open>auto simp: sb' s_def state5_def\<close>)
    then show ?thesis unfolding sha_absorbed_def m by (intro exI [of _ bs] exI [of _ "rest @ [b]"]) simp
  qed
qed

lemma bytes_absorbed: "sha_absorbed m sha \<Longrightarrow> sha_absorbed (m @ d) (fold sha_byte d sha)"
proof (induction d arbitrary: m sha)
  case (Cons b d)
  from Cons.IH [OF byte_absorbed [OF Cons.prems]] show ?case by simp
qed simp

lemma buffer_absorbed:
  assumes "sha_absorbed m sha" and "length d < 2 ^ 31"
  shows "sha_absorbed (m @ d) (sha_buffer d sha)"
proof -
  have u: "unat (word_of_nat (length d) :: u32) = length d" using assms(2) by (simp add: unat_of_nat)
  then have "nat (sint (word_of_nat (length d) :: u32)) = length d" using sint_small [of "word_of_nat (length d)"] assms(2) by simp
  then show ?thesis using bytes_absorbed [OF assms(1)] by (simp add: sha_buffer_def)
qed

lemma absorbed_blen: "sha_absorbed m sha \<Longrightarrow> sha_blen sha = length m mod 64"
  by (auto simp: sha_absorbed_def sha_holds_def length_blocks)

lemma pad_absorbed:
  "sha_absorbed m sha \<Longrightarrow> sha_absorbed (m @ replicate ((120 - length m mod 64) mod 64) 0) (pad_to_56 sha)"
proof (induction sha arbitrary: m rule: pad_to_56.induct)
  case (1 sha)
  have bl: "sha_blen sha = length m mod 64" by (rule absorbed_blen [OF 1(2)])
  show ?case
  proof (cases "length m mod 64 = 56")
    case True
    then show ?thesis using 1(2) bl by (simp add: pad_to_56.simps)
  next
    case False
    then have "sha_absorbed ((m @ [0]) @ replicate ((120 - length (m @ [0 :: byte]) mod 64) mod 64) 0) (pad_to_56 (sha_byte 0 sha))"
      using bl by (intro 1(1) byte_absorbed [OF 1(2)]) simp
    moreover have "(120 - length m mod 64) mod 64 = Suc ((120 - length (m @ [0 :: byte]) mod 64) mod 64)"
    proof -
      have "length m mod 64 < 64" by simp
      moreover have "Suc (length m) mod 64 = (if length m mod 64 = 63 then 0 else Suc (length m mod 64))" by (simp add: mod_Suc)
      moreover have "(120 - k) mod 64 = (if k \<le> 56 then 56 - k else 120 - k)" if "k < 64" for k :: nat using that by (auto simp: mod_if)
      ultimately show ?thesis using False by auto
    qed
    ultimately show ?thesis using False bl by (simp add: pad_to_56.simps [of sha])
  qed
qed

text \<open>The zeroes between the marking bit and the length.\<close>

lemma finish_absorbed:
  assumes "sha_absorbed m sha"
  shows "sha_absorbed (m @ fips_padding (length m)) (iks_sha_hash sha None True)"
proof -
  have z: "(120 - length (m @ [0x80 :: byte]) mod 64) mod 64 = (119 - length m mod 64) mod 64"
  proof -
    have "length m mod 64 < 64" by simp
    moreover have "Suc (length m) mod 64 = (if length m mod 64 = 63 then 0 else Suc (length m mod 64))" by (simp add: mod_Suc)
    ultimately show ?thesis by auto
  qed
  have "len64 sha = word_of_nat (8 * length m)" using assms by (auto simp: sha_absorbed_def sha_holds_def)
  then have p: "len_pad sha = rev (le64 (8 * length m))" by (rule len_pad_le64)
  have "sha_absorbed (m @ [0x80]) (sha_buffer [0x80] sha)" by (rule buffer_absorbed [OF assms]) simp
  from pad_absorbed [OF this]
  have "sha_absorbed ((m @ [0x80]) @ replicate ((119 - length m mod 64) mod 64) 0) (pad_to_56 (sha_buffer [0x80] sha))"
    unfolding z .
  moreover have "length (len_pad sha) < 2 ^ 31" by (simp add: len_pad_def)
  ultimately have "sha_absorbed (((m @ [0x80]) @ replicate ((119 - length m mod 64) mod 64) 0) @ len_pad sha)
      (sha_buffer (len_pad sha) (pad_to_56 (sha_buffer [0x80] sha)))"
    by (rule buffer_absorbed)
  moreover have "iks_sha_hash sha None True = sha_buffer (len_pad sha) (pad_to_56 (sha_buffer [0x80] sha))"
    by (simp add: iks_sha_hash_def Let_def len_pad_def)
  ultimately show ?thesis unfolding fips_padding_def p by simp
qed

lemma padded_length: "64 dvd length (m @ fips_padding (length m))"
proof -
  let ?n = "length m" and ?r = "length m mod 64" and ?q = "length m div 64"
  have r: "?r < 64" "64 * ?q + ?r = ?n" by simp_all
  have l: "length (m @ fips_padding ?n) = ?n + 9 + (119 - ?r) mod 64" by (simp add: fips_padding_def length_le64)
  show ?thesis
  proof (cases "?r \<le> 55")
    case True
    then have "119 - ?r = 64 + (55 - ?r)" by linarith
    then have "(119 - ?r) mod 64 = 55 - ?r" using True by (simp only: mod_add_self1) simp
    moreover have "n + 9 + (55 - r) = 64 * (q + 1)" if "r \<le> 55" "64 * q + r = n" for n q r :: nat using that by (auto simp: algebra_simps)
    note this [OF True r(2)]
    ultimately have "?n + 9 + (119 - ?r) mod 64 = 64 * (?q + 1)" by (simp only:)
    then show ?thesis unfolding l by (simp only: dvd_triv_left)
  next
    case False
    then have "(119 - ?r) mod 64 = 119 - ?r" by simp
    moreover have "n + 9 + (119 - r) = 64 * (q + 2)" if "r < 64" "64 * q + r = n" for n q r :: nat using that by (auto simp: algebra_simps)
    note this [OF r]
    ultimately have "?n + 9 + (119 - ?r) mod 64 = 64 * (?q + 2)" by (simp only:)
    then show ?thesis unfolding l by (simp only: dvd_triv_left)
  qed
qed

lemma absorbed_whole:
  assumes "sha_absorbed m sha" and "64 dvd length m"
  shows "state5 sha = foldl fips_compress fips_start (blocks64 m)"
proof -
  obtain bs rest where h: "m = concat bs @ rest" "sha_holds bs rest sha" using assms(1) by (auto simp: sha_absorbed_def)
  then have "length rest = length m mod 64" "\<forall>b \<in> set bs. length b = 64" by (simp_all add: sha_holds_def length_blocks)
  then have "rest = []" "blocks64 m = bs" using assms(2) h(1) blocks64_concat [of bs "[]"]
    by (simp_all add: dvd_eq_mod_eq_0 blocks64.simps [of "[]"])
  then show ?thesis using h(2) by (simp add: sha_holds_def)
qed

lemma reset_absorbed: "sha_absorbed [] iks_sha_reset"
proof -
  have b: "sha_buf iks_sha_reset = replicate 80 0" "length (hash iks_sha_reset) = 5" "sha_blen iks_sha_reset = 0"
      "lenhi iks_sha_reset = 0" "lenlo iks_sha_reset = 0" "state5 iks_sha_reset = fips_start"
    by (simp_all add: iks_sha_reset_def state5_def fips_start_def)
  have "i < 16 \<Longrightarrow> replicate 80 (0 :: u32) ! i = 0" for i by (rule nth_replicate) simp
  then have "\<forall>i < 16. sha_buf iks_sha_reset ! i = foldl shift_in 0 (take 4 (drop (4 * i) []))" by (simp only: b) simp
  then have "sha_holds [] [] iks_sha_reset"
    unfolding sha_holds_def len64_def word_cat_int b by (intro conjI exI [of _ "\<lambda>_. 0"]) (simp_all only: length_replicate, simp_all)
  then show ?thesis unfolding sha_absorbed_def by (intro exI [of _ "[]"]) simp
qed

lemma hash_absorbed:
  assumes "sha_absorbed m sha" and "length d < 2 ^ 31"
  shows "sha_absorbed (m @ d) (iks_sha_hash sha (Some d) False)"
  using assms buffer_absorbed [OF assms] by (simp add: iks_sha_hash_def Let_def)

lemma hash_finish: "iks_sha_hash sha (Some d) True = iks_sha_hash (iks_sha_hash sha (Some d) False) None True"
  by (simp add: iks_sha_hash_def Let_def)

definition sha_feed :: "byte list list \<Rightarrow> iksha \<Rightarrow> iksha" where
  "sha_feed ds sha = fold (\<lambda>d sha. iks_sha_hash sha (Some d) False) ds sha"

lemma feed_absorbed:
  "sha_absorbed m sha \<Longrightarrow> \<forall>d \<in> set ds. length d < 2 ^ 31 \<Longrightarrow> sha_absorbed (m @ concat ds) (sha_feed ds sha)"
proof (induction ds arbitrary: m sha)
  case (Cons d ds)
  then have "sha_absorbed ((m @ d) @ concat ds) (sha_feed ds (iks_sha_hash sha (Some d) False))"
    by (intro Cons.IH hash_absorbed) simp_all
  then show ?case by (simp add: sha_feed_def)
qed (simp add: sha_feed_def)

section \<open>The printed digest\<close>

lemma pad_digits:
  "0 < k \<Longrightarrow> n < 16 ^ k \<Longrightarrow>
    pad_left CHR ''0'' k (show_base 16 n) = map (\<lambda>i. digit_char (n div 16 ^ (k - 1 - i) mod 16)) [0..<k]"
proof (induction k arbitrary: n)
  case (Suc j)
  have z: "digit_char 0 = CHR ''0''" by code_simp
  show ?case
  proof (cases "n < 16")
    case True
    have "n div 16 ^ (j - i) = 0" if "i < j" for i
    proof -
      have "(16 :: nat) ^ 1 \<le> 16 ^ (j - i)" using that by (intro power_increasing) simp_all
      then show ?thesis using True by simp
    qed
    then have "map (\<lambda>i. digit_char (n div 16 ^ (j - i) mod 16)) [0..<j] = replicate j CHR ''0''"
      by (intro replicate_eqI) (auto simp: z)
    then show ?thesis using True by (simp add: show_base.simps [of 16 n] pad_left_def)
  next
    case False
    then have "0 < j" "n div 16 < 16 ^ j" using Suc.prems by (auto intro: gr0I simp: less_mult_imp_div_less mult.commute)
    note IH = Suc.IH [OF this]
    have "n div 16 div 16 ^ (j - 1 - i) = n div 16 ^ (j - i)" if "i < j" for i
    proof -
      have "(16 :: nat) * 16 ^ (j - 1 - i) = 16 ^ (j - i)" using that by (simp flip: power_Suc)
      then show ?thesis by (simp flip: div_mult2_eq)
    qed
    then have "map (\<lambda>i. digit_char (n div 16 div 16 ^ (j - 1 - i) mod 16)) [0..<j]
        = map (\<lambda>i. digit_char (n div 16 ^ (j - i) mod 16)) [0..<j]" by simp
    then show ?thesis using False IH by (simp add: show_base.simps [of 16 n] pad_left_def)
  qed
qed simp

lemma print_text: "iks_sha_print sha = fips_text (state5 sha)"
proof -
  have "pad_left CHR ''0'' 8 (show_base 16 (unat x)) = hex32 x" for x :: u32
    using pad_digits [of 8 "unat x"] unsigned_less [of x, where ?'a = nat] by (simp add: hex32_def del: upt_rec_numeral)
  moreover have "[0..<5] = [0, 1, 2, 3, 4 :: nat]" by code_simp
  ultimately show ?thesis by (simp add: iks_sha_print_def fips_text_def state5_def)
qed

section \<open>Properties\<close>

lemma sha_text:
  assumes "\<forall>x \<in> set ds. length x < 2 ^ 31" and "length d < 2 ^ 31"
  shows "iks_sha_print (iks_sha_hash (sha_feed ds iks_sha_reset) (Some d) True) = fips_text (fips_sha1 (concat ds @ d))"
proof -
  have "sha_absorbed (concat ds) (sha_feed ds iks_sha_reset)" using feed_absorbed [OF reset_absorbed assms(1)] by simp
  from finish_absorbed [OF hash_absorbed [OF this assms(2)]] show ?thesis
    by (simp only: print_text hash_finish [of _ d] absorbed_whole [OF _ padded_length] fips_sha1_def)
qed

text \<open>
  C16. In whatever pieces, each below 2 GB, a message is given to \<^verbatim>\<open>iks_sha_hash\<close>, \<^verbatim>\<open>iks_sha_print\<close> writes
  the SHA-1 of FIPS 180-1 of the whole message as forty lower case hexadecimal digits.
\<close>

theorem sha_is_fips180:
  assumes "\<forall>x \<in> set ds. length x < 2 ^ 31" and "length d < 2 ^ 31"
  shows "iks_sha_print (iks_sha_hash (sha_feed ds iks_sha_reset) (Some d) True) = fips_text (fips_sha1 (concat ds @ d))"
  using assms by (rule sha_text)

theorem sha_is_fips180_witness:
  "iks_sha_print (iks_sha_hash (sha_feed [[97], [98]] iks_sha_reset) (Some [99]) True) = fips_text (fips_sha1 [97, 98, 99])"
  using sha_is_fips180 [of "[[97], [98]]" "[99]"] by simp

text \<open>The digest of the login by stream id, of \<^verbatim>\<open>jabber.c\<close>.\<close>

definition auth_digest :: "bool \<Rightarrow> string \<Rightarrow> string \<Rightarrow> string option" where
  "auth_digest room sid pass = do {
     sha \<leftarrow> iks_sha_new room;
     let sha = iks_sha_hash sha (Some (map of_char sid)) False;
     Some (iks_sha_print (iks_sha_hash sha (Some (map of_char pass)) True))
   }"

lemma auth_digest_fips:
  "length sid < 2 ^ 31 \<Longrightarrow> length pass < 2 ^ 31 \<Longrightarrow> auth_digest True sid pass = Some (fips_text (fips_sha1 (map of_char (sid @ pass))))"
  using sha_text [of "[map of_char sid]" "map of_char pass"] by (simp add: auth_digest_def iks_sha_new_def sha_feed_def)

lemma iks_sha_fips:
  "no_nul s \<Longrightarrow> length s < 2 ^ 31 \<Longrightarrow> iks_sha True s = Some (fips_text (fips_sha1 (map of_char s)))"
  using sha_text [of "[]" "map of_char s"] by (simp add: iks_sha_def iks_sha_new_def sha_feed_def)

text \<open>Without memory the digest object is used all the same.\<close>

lemma no_room_for_sha: "iks_sha False s = None" "auth_digest False sid pass = None"
  by (simp_all add: iks_sha_def auth_digest_def iks_sha_new_def)

end
