(* ===== verification/IksStack.thy ===== *)
theory IksStack
  imports Prelude
begin

text \<open>
  The memory stacks of the library, \<^verbatim>\<open>src/CuteCat/iksemel/ikstack.c\<close>, on a system with 64 bit pointers and
  an alignment of 8: a chain of chunks for objects and a chain of chunks for strings, which only grow.
  A chain is the list of its chunks in the order of \<^verbatim>\<open>next\<close>; a pointer into one is the position of a
  chunk and an offset in its \<^verbatim>\<open>data\<close>.  \<open>room\<close> says which requests \<^verbatim>\<open>malloc\<close> grants, \<open>junk\<close> what the memory
  it gives holds.
\<close>

section \<open>State\<close>

definition size_mod :: nat where "size_mod = 2 ^ 64"

record ikschunk =
  ck_size :: nat
  used :: nat
  last_at :: nat
  data :: string

record ikstack =
  allocated :: nat
  meta :: "ikschunk list"
  strs :: "ikschunk list"

type_synonym ptr = "nat \<times> nat"

definition DEFAULT_ALIGNMENT :: nat where "DEFAULT_ALIGNMENT = 8"
definition MIN_CHUNK_SIZE :: nat where "MIN_CHUNK_SIZE = DEFAULT_ALIGNMENT * 8"
definition MIN_ALLOC_SIZE :: nat where "MIN_ALLOC_SIZE = DEFAULT_ALIGNMENT"

definition ALIGN :: "nat \<Rightarrow> nat" where
  "ALIGN x = (x + (DEFAULT_ALIGNMENT - x mod DEFAULT_ALIGNMENT)) mod size_mod"

definition align_up :: "nat \<Rightarrow> nat" where
  "align_up x = (if x mod DEFAULT_ALIGNMENT \<noteq> 0 then ALIGN x else x)"

text \<open>\<^verbatim>\<open>sizeof (ikschunk)\<close>, the offset of \<^verbatim>\<open>data\<close> in it, and \<^verbatim>\<open>sizeof (ikstack)\<close>.\<close>

definition sizeof_chunk :: nat where "sizeof_chunk = 40"
definition data_off :: nat where "data_off = 32"
definition sizeof_stack :: nat where "sizeof_stack = 24"

text \<open>The chunk at the start of a block of \<open>n\<close> bytes.\<close>

definition new_chunk :: "(nat \<Rightarrow> char) \<Rightarrow> nat \<Rightarrow> nat \<Rightarrow> ikschunk" where
  "new_chunk junk n sz = \<lparr>ck_size = sz, used = 0, last_at = size_mod - 1, data = map junk [data_off..<n]\<rparr>"

definition left :: "ikschunk \<Rightarrow> nat" where
  "left c = (ck_size c + size_mod - used c) mod size_mod"

text \<open>The result is the position of the chunk, the chain, and what was added to \<^verbatim>\<open>allocated\<close>.\<close>

fun find_space :: "(nat \<Rightarrow> bool) \<Rightarrow> (nat \<Rightarrow> char) \<Rightarrow> nat \<Rightarrow> ikschunk list \<Rightarrow> (nat \<times> ikschunk list \<times> nat) option" where
  "find_space room junk sz [] = None"
| "find_space room junk sz (c # cs) =
     (if sz \<le> left c then Some (0, c # cs, 0)
      else if cs = [] then
        (let sz = (if sz < ck_size c * 2 mod size_mod then ck_size c * 2 mod size_mod else sz);
             n = (sizeof_chunk + sz) mod size_mod in
         if room n then Some (1, [c, new_chunk junk n sz], n) else None)
      else map_option (\<lambda>(i, cs, n). (i + 1, c # cs, n)) (find_space room junk sz cs))"

text \<open>Where the sizes of the two chunks do not fit in a \<^verbatim>\<open>size_t\<close> the block is too small for them.\<close>

definition iks_stack_new :: "(nat \<Rightarrow> bool) \<Rightarrow> (nat \<Rightarrow> char) \<Rightarrow> nat \<Rightarrow> nat \<Rightarrow> ikstack option option" where
  "iks_stack_new room junk meta_chunk data_chunk =
     (let meta_chunk = align_up (if meta_chunk < MIN_CHUNK_SIZE then MIN_CHUNK_SIZE else meta_chunk);
          data_chunk = align_up (if data_chunk < MIN_CHUNK_SIZE then MIN_CHUNK_SIZE else data_chunk);
          len = sizeof_stack + meta_chunk + data_chunk + sizeof_chunk * 2 in
      if \<not> room (len mod size_mod) then Some None
      else if size_mod \<le> len then None
      else Some (Some \<lparr>allocated = len, meta = [new_chunk junk (sizeof_chunk + meta_chunk) meta_chunk],
        strs = [new_chunk junk (sizeof_chunk + data_chunk) data_chunk]\<rparr>))"

section \<open>Objects\<close>

definition iks_stack_alloc :: "(nat \<Rightarrow> bool) \<Rightarrow> (nat \<Rightarrow> char) \<Rightarrow> ikstack \<Rightarrow> nat \<Rightarrow> ikstack \<times> ptr option" where
  "iks_stack_alloc room junk s sz =
     (let sz = align_up (if sz < MIN_ALLOC_SIZE then MIN_ALLOC_SIZE else sz) in
      case find_space room junk sz (meta s) of
        None \<Rightarrow> (s, None)
      | Some (i, cs, n) \<Rightarrow>
          let c = cs ! i in
          (s\<lparr>allocated := (allocated s + n) mod size_mod, meta := cs[i := c\<lparr>used := (used c + sz) mod size_mod\<rparr>]\<rparr>,
           Some (i, used c)))"

section \<open>Strings\<close>

text \<open>A length of 0 stands for \<^verbatim>\<open>strlen\<close>.\<close>

definition given_len :: "string \<Rightarrow> nat \<Rightarrow> nat option" where
  "given_len mem len = (if len = 0 then map_option length (c_str_at 0 mem) else Some len)"

definition iks_stack_strdup ::
  "(nat \<Rightarrow> bool) \<Rightarrow> (nat \<Rightarrow> char) \<Rightarrow> ikstack \<Rightarrow> string option \<Rightarrow> nat \<Rightarrow> (ikstack \<times> ptr option) option" where
  "iks_stack_strdup room junk s src len =
     (case src of
       None \<Rightarrow> Some (s, None)
     | Some src \<Rightarrow> do {
         len \<leftarrow> given_len src len;
         case find_space room junk ((len + 1) mod size_mod) (strs s) of
           None \<Rightarrow> Some (s, None)
         | Some (i, cs, n) \<Rightarrow> do {
             let c = cs ! i;
             text \<leftarrow> read_at 0 len src;
             d \<leftarrow> write_at (used c) text (data c);
             d \<leftarrow> write_at (used c + len) [NUL] d;
             Some (s\<lparr>allocated := (allocated s + n) mod size_mod,
                 strs := cs[i := c\<lparr>last_at := used c, used := (used c + len + 1) mod size_mod, data := d\<rparr>]\<rparr>,
               Some (i, used c))
           }
       })"

text \<open>The string moves to the end of a chunk with enough space.\<close>

definition move_cat ::
  "(nat \<Rightarrow> bool) \<Rightarrow> (nat \<Rightarrow> char) \<Rightarrow> ikstack \<Rightarrow> ptr \<Rightarrow> nat \<Rightarrow> string \<Rightarrow> nat \<Rightarrow> (ikstack \<times> ptr option) option" where
  "move_cat room junk s old old_len src src_len =
     (case find_space room junk ((old_len + src_len + 1) mod size_mod) (strs s) of
        None \<Rightarrow> Some (s, None)
      | Some (i, cs, n) \<Rightarrow> do {
          let c = cs ! i;
          o_text \<leftarrow> read_at (snd old) old_len (data (cs ! fst old));
          d \<leftarrow> write_at (used c) o_text (data c);
          text \<leftarrow> read_at 0 src_len src;
          d \<leftarrow> write_at (used c + old_len) text d;
          d \<leftarrow> write_at (used c + old_len + src_len) [NUL] d;
          Some (s\<lparr>allocated := (allocated s + n) mod size_mod,
              strs := cs[i := c\<lparr>last_at := used c, used := (used c + old_len + src_len + 1) mod size_mod, data := d\<rparr>]\<rparr>,
            Some (i, used c))
        })"

text \<open>
  \<open>old\<close> is a string of the stack.  Only the chunk it is in can answer the search for it.
\<close>

definition iks_stack_strcat ::
  "(nat \<Rightarrow> bool) \<Rightarrow> (nat \<Rightarrow> char) \<Rightarrow> ikstack \<Rightarrow> ptr option \<Rightarrow> nat \<Rightarrow> string \<Rightarrow> nat \<Rightarrow> (ikstack \<times> ptr option) option" where
  "iks_stack_strcat room junk s old old_len src src_len =
     (case old of
       None \<Rightarrow> iks_stack_strdup room junk s (Some src) src_len
     | Some (i, off) \<Rightarrow> do {
         c \<leftarrow> nth_opt (strs s) i;
         old_len \<leftarrow> given_len (drop off (data c)) old_len;
         src_len \<leftarrow> given_len src src_len;
         if last_at c \<noteq> off then move_cat room junk s (i, off) old_len src src_len
         else if src_len < left c then do {
           text \<leftarrow> read_at 0 src_len src;
           d \<leftarrow> write_at (last_at c + old_len) text (data c);
           d \<leftarrow> write_at (last_at c + old_len + src_len) [NUL] d;
           Some (s\<lparr>strs := (strs s)[i := c\<lparr>used := (used c + src_len) mod size_mod, data := d\<rparr>]\<rparr>, Some (i, last_at c))
         }
         else move_cat room junk s (i, off) old_len src src_len
       })"

section \<open>Statistics and the end\<close>

definition iks_stack_stat :: "ikstack \<Rightarrow> nat \<times> nat" where
  "iks_stack_stat s =
     (allocated s, fold (\<lambda>c n. (n + used c) mod size_mod) (strs s) (fold (\<lambda>c n. (n + used c) mod size_mod) (meta s) 0))"

text \<open>The blocks freed, in order; the first chunks are parts of the block of the stack itself.\<close>

datatype block = Meta_Chunk nat | Str_Chunk nat | Stack_Block

definition iks_stack_delete :: "ikstack \<Rightarrow> block list" where
  "iks_stack_delete s =
     map Meta_Chunk [1..<length (meta s)] @ map Str_Chunk [1..<length (strs s)] @ [Stack_Block]"

section \<open>The space found\<close>

text \<open>No block is larger than the address space.\<close>

definition sane :: "(nat \<Rightarrow> bool) \<Rightarrow> bool" where
  "sane room \<longleftrightarrow> (\<forall>n. room n \<longrightarrow> n < 2 ^ 62)"

definition chunk_ok :: "ikschunk \<Rightarrow> bool" where
  "chunk_ok c \<longleftrightarrow> used c \<le> ck_size c \<and> ck_size c \<le> length (data c) \<and> ck_size c < 2 ^ 62"

lemma left_ok: "chunk_ok c \<Longrightarrow> left c = ck_size c - used c"
proof -
  assume c: "chunk_ok c"
  then have "ck_size c + size_mod - used c = ck_size c - used c + size_mod" by (simp add: chunk_ok_def)
  moreover have "ck_size c < 2 ^ 62" using c by (simp only: chunk_ok_def)
  then have "ck_size c - used c < 2 ^ 62" by (rule le_less_trans [OF diff_le_self])
  then have "ck_size c - used c < size_mod" by (rule less_trans) (simp add: size_mod_def)
  ultimately show "left c = ck_size c - used c" by (simp only: left_def mod_add_self2 mod_less)
qed

lemma new_chunk_ok:
  assumes "sane room" and "ck_size c < 2 ^ 62" and "sz < 2 ^ 63"
    and "sz' = (if sz < ck_size c * 2 mod size_mod then ck_size c * 2 mod size_mod else sz)"
    and "room ((sizeof_chunk + sz') mod size_mod)"
  shows "chunk_ok (new_chunk junk ((sizeof_chunk + sz') mod size_mod) sz')" "sz \<le> sz'"
proof -
  have "sz' < 2 ^ 63" using assms(2,3,4) by (simp add: size_mod_def)
  then have m: "(sizeof_chunk + sz') mod size_mod = sizeof_chunk + sz'" by (simp add: size_mod_def sizeof_chunk_def)
  then have "sizeof_chunk + sz' < 2 ^ 62" using assms(1,5) by (simp add: sane_def)
  then show "chunk_ok (new_chunk junk ((sizeof_chunk + sz') mod size_mod) sz')"
    unfolding m by (simp add: chunk_ok_def new_chunk_def sizeof_chunk_def data_off_def)
  show "sz \<le> sz'" using assms(4) by simp
qed

lemma found:
  assumes "sane room" and "\<forall>c \<in> set cs. chunk_ok c" and "sz < 2 ^ 63" and "find_space room junk sz cs = Some (i, cs', n)"
  shows "\<exists>new. cs' = cs @ new \<and> (\<forall>c \<in> set cs'. chunk_ok c) \<and> (\<forall>c \<in> set new. used c = 0) \<and> i < length cs'
    \<and> used (cs' ! i) + sz \<le> ck_size (cs' ! i)"
  using assms(2,4)
proof (induction cs arbitrary: i cs' n)
  case (Cons c cs)
  have c: "chunk_ok c" "ck_size c < 2 ^ 62" using Cons.prems(1) by (simp_all add: chunk_ok_def)
  consider (here) "sz \<le> left c" | (grow) "\<not> sz \<le> left c" "cs = []" | (on) "\<not> sz \<le> left c" "cs \<noteq> []" by blast
  then show ?case
  proof cases
    case here
    then have e: "i = 0" "cs' = c # cs" using Cons.prems(2) by simp_all
    have "used c \<le> ck_size c" using c by (simp add: chunk_ok_def)
    then have "used c + sz \<le> ck_size c" using here left_ok [OF c(1)] by linarith
    then show ?thesis unfolding e using Cons.prems(1) by (intro exI [of _ "[]"]) simp
  next
    case grow
    define sz' where "sz' = (if sz < ck_size c * 2 mod size_mod then ck_size c * 2 mod size_mod else sz)"
    have e: "i = 1" "cs' = [c, new_chunk junk n sz']" "n = (sizeof_chunk + sz') mod size_mod" "room n"
      using Cons.prems(2) grow by (auto simp: Let_def simp flip: sz'_def split: if_splits)
    note new = new_chunk_ok [OF assms(1) c(2) assms(3) sz'_def e(4) [unfolded e(3)]]
    show ?thesis unfolding e(1,2) using new c grow(2)
      by (intro exI [of _ "[new_chunk junk n sz']"]) (auto simp flip: e(3) simp: new_chunk_def)
  next
    case on
    then obtain j ds where "find_space room junk sz cs = Some (j, ds, n)" and e: "i = j + 1" "cs' = c # ds"
      using Cons.prems(2) by auto
    with Cons.IH obtain new where "ds = cs @ new" "\<forall>c \<in> set ds. chunk_ok c" "\<forall>c \<in> set new. used c = 0" "j < length ds"
      "used (ds ! j) + sz \<le> ck_size (ds ! j)" using Cons.prems(1) by fastforce
    then show ?thesis unfolding e using c by (intro exI [of _ new]) auto
  qed
qed simp

section \<open>The strings of a stack\<close>

definition holds_text :: "ikschunk \<Rightarrow> nat \<Rightarrow> string \<Rightarrow> bool" where
  "holds_text c off t \<longleftrightarrow> off + length t < used c \<and> read_at off (length t + 1) (data c) = Some (t @ [NUL])"

text \<open>The strings at the offsets of a chunk; the one at \<^verbatim>\<open>last\<close> is the last of the chunk.\<close>

definition chunk_texts :: "(nat \<rightharpoonup> string) \<Rightarrow> ikschunk \<Rightarrow> bool" where
  "chunk_texts B c \<longleftrightarrow> (\<forall>off t. B off = Some t \<longrightarrow> holds_text c off t
     \<and> (if off = last_at c then used c = off + length t + 1 else off + length t < last_at c))"

definition strings_hold :: "(ptr \<rightharpoonup> string) \<Rightarrow> ikschunk list \<Rightarrow> bool" where
  "strings_hold A cs \<longleftrightarrow> (\<forall>c \<in> set cs. chunk_ok c) \<and> (\<forall>i off t. A (i, off) = Some t \<longrightarrow> i < length cs)
     \<and> (\<forall>i < length cs. chunk_texts (\<lambda>off. A (i, off)) (cs ! i))"

lemma write_twice:
  "off + length xs + length ys \<le> length mem \<Longrightarrow>
     do { m \<leftarrow> write_at off xs mem; write_at (off + length xs) ys m } = write_at off (xs @ ys) mem"
  by (simp add: write_at_def ac_simps)

lemma read_prefix: "read_at a (length xs + n) mem = Some (xs @ ys) \<Longrightarrow> read_at a (length xs) mem = Some xs"
proof -
  assume r: "read_at a (length xs + n) mem = Some (xs @ ys)"
  then have "take (length xs + n) (drop a mem) = xs @ ys" "a + length xs \<le> length mem" by (simp_all add: read_at_def split: if_splits)
  moreover have "take (length xs) (drop a mem) = take (length xs) (take (length xs + n) (drop a mem))" by (simp add: min.absorb1)
  ultimately show ?thesis by (simp add: read_at_def)
qed

lemma read_join:
  "read_at a m mem = Some xs \<Longrightarrow> read_at (a + m) n mem = Some ys \<Longrightarrow> read_at a (m + n) mem = Some (xs @ ys)"
  by (auto simp: read_at_def take_add ac_simps split: if_splits)

lemma read_after_write:
  assumes "write_at off xs mem = Some mem'"
  shows "read_at off (length xs) mem' = Some xs"
    "\<And>a n. a + n \<le> off \<Longrightarrow> read_at a n mem' = read_at a n mem"
  using assms by (auto simp: write_at_def read_at_def drop_take min.absorb1 split: if_splits)

lemma chunk_put:
  assumes "chunk_texts B c" and "chunk_ok c" and "used c + length t + 1 \<le> ck_size c"
    and "write_at (used c) (t @ [NUL]) (data c) = Some d"
    and "c' = c\<lparr>last_at := used c, used := used c + length t + 1, data := d\<rparr>"
  shows "chunk_texts (B(used c \<mapsto> t)) c'" "chunk_ok c'" "B (used c) = None"
proof -
  note w = read_after_write [OF assms(4)]
  have before: "off + length u < used c" "read_at off (length u + 1) (data c) = Some (u @ [NUL])" if "B off = Some u" for off u
    using assms(1) that by (auto simp: chunk_texts_def holds_text_def)
  show "B (used c) = None" by (cases "B (used c)") (auto dest: before(1))
  show "chunk_texts (B(used c \<mapsto> t)) c'"
    unfolding chunk_texts_def
  proof (intro allI impI)
    fix off u assume "(B(used c \<mapsto> t)) off = Some u"
    then consider "off = used c" "u = t" | "off \<noteq> used c" "B off = Some u" by (auto split: if_splits)
    then show "holds_text c' off u \<and> (if off = last_at c' then used c' = off + length u + 1 else off + length u < last_at c')"
    proof cases
      case 1
      then show ?thesis using w(1) by (simp add: holds_text_def assms(5))
    next
      case 2
      then show ?thesis using before [OF 2(2)] w(2) [of off "length u + 1"] by (simp add: holds_text_def assms(5))
    qed
  qed
  have "length d = length (data c)" by (rule length_write_at [OF assms(4)])
  then show "chunk_ok c'" using assms(2,3) by (simp add: chunk_ok_def assms(5))
qed

lemma chunk_extend:
  assumes "chunk_texts B c" and "chunk_ok c" and "B (last_at c) = Some q" and "used c + length t \<le> ck_size c"
    and "write_at (last_at c + length q) (t @ [NUL]) (data c) = Some d"
    and "c' = c\<lparr>used := used c + length t, data := d\<rparr>"
  shows "chunk_texts (B(last_at c \<mapsto> q @ t)) c'" "chunk_ok c'"
proof -
  note w = read_after_write [OF assms(5)]
  have q: "used c = last_at c + length q + 1" "read_at (last_at c) (length q + 1) (data c) = Some (q @ [NUL])"
    using assms(1,3) by (auto simp: chunk_texts_def holds_text_def)
  have before: "off + length u < last_at c" "read_at off (length u + 1) (data c) = Some (u @ [NUL])"
    if "B off = Some u" "off \<noteq> last_at c" for off u
    using assms(1) that by (auto simp: chunk_texts_def holds_text_def)
  have "read_at (last_at c) (length q) d = Some q"
    using w(2) [of "last_at c" "length q"] read_prefix [OF q(2)] by simp
  from read_join [OF this w(1)] have all: "read_at (last_at c) (length (q @ t) + 1) d = Some ((q @ t) @ [NUL])"
    by (simp add: ac_simps)
  show "chunk_texts (B(last_at c \<mapsto> q @ t)) c'"
    unfolding chunk_texts_def
  proof (intro allI impI)
    fix off u assume "(B(last_at c \<mapsto> q @ t)) off = Some u"
    then consider "off = last_at c" "u = q @ t" | "off \<noteq> last_at c" "B off = Some u" by (auto split: if_splits)
    then show "holds_text c' off u \<and> (if off = last_at c' then used c' = off + length u + 1 else off + length u < last_at c')"
    proof cases
      case 1
      then show ?thesis using all q(1) by (simp add: holds_text_def assms(6))
    next
      case 2
      then show ?thesis using before [OF 2(2,1)] w(2) [of off "length u + 1"] q(1) by (simp add: holds_text_def assms(6))
    qed
  qed
  have "length d = length (data c)" by (rule length_write_at [OF assms(5)])
  then show "chunk_ok c'" using assms(2,4) by (simp add: chunk_ok_def assms(6))
qed

lemma holds_text_at:
  assumes "strings_hold A cs" and "A (i, off) = Some t"
  shows "i < length cs" "holds_text (cs ! i) off t" "chunk_ok (cs ! i)" "length t < 2 ^ 62"
proof -
  show i: "i < length cs" using assms by (auto simp: strings_hold_def)
  then show h: "holds_text (cs ! i) off t" using assms by (auto simp: strings_hold_def chunk_texts_def)
  show c: "chunk_ok (cs ! i)" using assms(1) i by (simp add: strings_hold_def)
  have "off + length t < used (cs ! i)" using h by (simp add: holds_text_def)
  moreover have "used (cs ! i) \<le> ck_size (cs ! i)" "ck_size (cs ! i) < 2 ^ 62" using c by (simp_all only: chunk_ok_def)
  ultimately show "length t < 2 ^ 62" by linarith
qed

lemma grow_holds:
  assumes "strings_hold A cs" and "\<forall>c \<in> set (cs @ new). chunk_ok c"
  shows "strings_hold A (cs @ new)"
  using assms by (fastforce simp: strings_hold_def nth_append chunk_texts_def)

lemma update_holds:
  assumes "strings_hold A cs" and "i < length cs" and "chunk_ok c'" and "chunk_texts ((\<lambda>off. A (i, off))(off \<mapsto> t)) c'"
  shows "strings_hold (A((i, off) \<mapsto> t)) (cs[i := c'])"
proof -
  have e: "(\<lambda>k. (A((i, off) \<mapsto> t)) (j, k)) = (if j = i then (\<lambda>k. A (i, k))(off \<mapsto> t) else (\<lambda>k. A (j, k)))" for j
    by (auto simp: fun_eq_iff)
  have "\<forall>c \<in> set (cs[i := c']). chunk_ok c"
    using assms(1,3) set_update_subset_insert [of cs i c'] by (auto simp: strings_hold_def)
  moreover have "(A((i, off) \<mapsto> t)) (j, k) = Some u \<Longrightarrow> j < length cs" for j k u
    using assms(1,2) by (auto simp: strings_hold_def split: if_splits)
  moreover have "chunk_texts (if j = i then (\<lambda>k. A (i, k))(off \<mapsto> t) else (\<lambda>k. A (j, k))) (cs[i := c'] ! j)" if "j < length cs" for j
    using assms(1,4) that by (auto simp: strings_hold_def nth_list_update)
  ultimately show ?thesis unfolding strings_hold_def e by simp
qed

text \<open>Writing a string at the end of a chunk.\<close>

lemma put_holds:
  assumes "strings_hold A cs" and "i < length cs" and "used (cs ! i) + length t + 1 \<le> ck_size (cs ! i)"
    and "write_at (used (cs ! i)) (t @ [NUL]) (data (cs ! i)) = Some d"
  shows "strings_hold (A((i, used (cs ! i)) \<mapsto> t))
      (cs[i := (cs ! i)\<lparr>last_at := used (cs ! i), used := (used (cs ! i) + length t + 1) mod size_mod, data := d\<rparr>])"
    "A (i, used (cs ! i)) = None"
proof -
  let ?c = "cs ! i"
  have c: "chunk_texts (\<lambda>off. A (i, off)) ?c" "chunk_ok ?c" using assms(1,2) by (simp_all add: strings_hold_def)
  then have "ck_size ?c < 2 ^ 62" by (simp only: chunk_ok_def)
  then have "used ?c + length t + 1 < 2 ^ 62" using assms(3) by linarith
  then have "used ?c + length t + 1 < size_mod" by (rule less_trans) (simp add: size_mod_def)
  then have m: "(used ?c + length t + 1) mod size_mod = used ?c + length t + 1" by (rule mod_less)
  note p = chunk_put [OF c assms(3,4) refl]
  show "strings_hold (A((i, used ?c) \<mapsto> t)) (cs[i := ?c\<lparr>last_at := used ?c, used := (used ?c + length t + 1) mod size_mod, data := d\<rparr>])"
    unfolding m by (rule update_holds [OF assms(1,2) p(2,1)])
  show "A (i, used ?c) = None" by (rule p(3))
qed

lemma write_fits: "used c + length t + 1 \<le> ck_size c \<Longrightarrow> chunk_ok c \<Longrightarrow> \<exists>d. write_at (used c) (t @ [NUL]) (data c) = Some d"
  by (simp add: chunk_ok_def write_at_def)

section \<open>The text of the caller\<close>

definition given_text :: "string \<Rightarrow> nat \<Rightarrow> string option" where
  "given_text mem len = (if len = 0 then c_str_at 0 mem else read_at 0 len mem)"

lemma length_c_str_le: "length (c_str cs) \<le> length cs"
  by (simp add: c_str_def length_takeWhile_le)

lemma given:
  assumes "given_text mem len = Some t"
  shows "given_len mem len = Some (length t)" "read_at 0 (length t) mem = Some t"
proof -
  show "given_len mem len = Some (length t)" using assms by (auto simp: given_text_def given_len_def read_at_length split: if_splits)
  show "read_at 0 (length t) mem = Some t"
  proof (cases "len = 0")
    case True
    then have "t = c_str mem" using assms by (auto simp: given_text_def c_str_at_def split: if_splits)
    then show ?thesis by (simp add: read_at_def length_c_str_le) (simp add: c_str_def flip: takeWhile_eq_take)
  next
    case False
    then show ?thesis using assms by (auto simp: given_text_def read_at_length)
  qed
qed

text \<open>What an operation that returns a pointer does to the strings of a stack.\<close>

definition string_made :: "(ptr \<rightharpoonup> string) \<Rightarrow> ikstack \<Rightarrow> string \<Rightarrow> (ikstack \<times> ptr option) option \<Rightarrow> bool" where
  "string_made A s t r \<longleftrightarrow> r = Some (s, None)
     \<or> (\<exists>s' p. r = Some (s', Some p) \<and> A p = None \<and> strings_hold (A(p \<mapsto> t)) (strs s') \<and> meta s' = meta s)"

lemma strdup_made:
  assumes "sane room" and "strings_hold A (strs s)" and "given_text src len = Some t" and "length t < 2 ^ 62"
  shows "string_made A s t (iks_stack_strdup room junk s (Some src) len)"
proof (cases "find_space room junk ((length t + 1) mod size_mod) (strs s)")
  case None
  then show ?thesis using given [OF assms(3)] by (simp add: iks_stack_strdup_def string_made_def)
next
  case (Some f)
  obtain i cs n where f: "f = (i, cs, n)" by (cases f)
  have m: "(length t + 1) mod size_mod = length t + 1" using assms(4) by (simp add: size_mod_def)
  have "\<forall>c \<in> set (strs s). chunk_ok c" using assms(2) by (simp add: strings_hold_def)
  then obtain new where cs: "cs = strs s @ new" "\<forall>c \<in> set cs. chunk_ok c" "i < length cs"
      "used (cs ! i) + (length t + 1) \<le> ck_size (cs ! i)"
    using found [OF assms(1) _ _ Some [unfolded f m]] assms(4) by fastforce
  have h: "strings_hold A cs" using grow_holds [OF assms(2)] cs(1,2) by simp
  have fit: "used (cs ! i) + length t + 1 \<le> ck_size (cs ! i)" using cs(4) by simp
  obtain d where d: "write_at (used (cs ! i)) (t @ [NUL]) (data (cs ! i)) = Some d"
    using write_fits [OF fit] cs(2,3) by auto
  have "used (cs ! i) + length t + length [NUL] \<le> length (data (cs ! i))"
    using d by (simp add: write_at_def split: if_splits)
  from write_twice [OF this] d
  have "iks_stack_strdup room junk s (Some src) len = Some (s\<lparr>allocated := (allocated s + n) mod size_mod,
      strs := cs[i := (cs ! i)\<lparr>last_at := used (cs ! i), used := (used (cs ! i) + length t + 1) mod size_mod, data := d\<rparr>]\<rparr>,
      Some (i, used (cs ! i)))"
    using given [OF assms(3)] Some by (auto simp: iks_stack_strdup_def f Let_def split: bind_splits)
  then show ?thesis using put_holds [OF h cs(3) fit d] by (simp add: string_made_def)
qed

lemma move_made:
  assumes "sane room" and "strings_hold A (strs s)" and "A (i, off) = Some q" and "read_at 0 (length t) src = Some t"
    and "length t < 2 ^ 62"
  shows "string_made A s (q @ t) (move_cat room junk s (i, off) (length q) src (length t))"
proof (cases "find_space room junk ((length q + length t + 1) mod size_mod) (strs s)")
  case None
  then show ?thesis by (simp add: move_cat_def string_made_def)
next
  case (Some f)
  obtain j cs n where f: "f = (j, cs, n)" by (cases f)
  note old = holds_text_at [OF assms(2,3)]
  have small: "length q + length t + 1 < 2 ^ 63" using assms(5) old(4) by simp
  then have m: "(length q + length t + 1) mod size_mod = length q + length t + 1" by (simp add: size_mod_def)
  have "\<forall>c \<in> set (strs s). chunk_ok c" using assms(2) by (simp add: strings_hold_def)
  then obtain new where cs: "cs = strs s @ new" "\<forall>c \<in> set cs. chunk_ok c" "j < length cs"
      "used (cs ! j) + (length q + length t + 1) \<le> ck_size (cs ! j)"
    using found [OF assms(1) _ small Some [unfolded f m]] by fastforce
  have h: "strings_hold A cs" using grow_holds [OF assms(2)] cs(1,2) by simp
  have fit: "used (cs ! j) + length (q @ t) + 1 \<le> ck_size (cs ! j)" using cs(4) by simp
  obtain d where d: "write_at (used (cs ! j)) ((q @ t) @ [NUL]) (data (cs ! j)) = Some d"
    using write_fits [OF fit] cs(2,3) by auto
  have room: "used (cs ! j) + length q + length (t @ [NUL]) \<le> length (data (cs ! j))"
      "used (cs ! j) + length q \<le> length (data (cs ! j))"
    using d by (auto simp: write_at_def split: if_splits)
  have "read_at off (length q) (data (cs ! i)) = Some q"
    using old(1,2) read_prefix [of off q 1 _ "[NUL]"] by (auto simp: cs(1) nth_append holds_text_def)
  moreover have "do { d \<leftarrow> write_at (used (cs ! j)) q (data (cs ! j)); d \<leftarrow> write_at (used (cs ! j) + length q) t d;
      write_at (used (cs ! j) + length q + length t) [NUL] d } = Some d"
  proof -
    obtain d1 where d1: "write_at (used (cs ! j)) q (data (cs ! j)) = Some d1" using room(2) by (simp add: write_at_def)
    then have l: "length d1 = length (data (cs ! j))" by (rule length_write_at)
    have "do { d \<leftarrow> write_at (used (cs ! j) + length q) t d1; write_at (used (cs ! j) + length q + length t) [NUL] d }
        = write_at (used (cs ! j) + length q) (t @ [NUL]) d1"
      by (rule write_twice) (use room(1) l in simp)
    moreover have "write_at (used (cs ! j) + length q) (t @ [NUL]) d1 = write_at (used (cs ! j)) (q @ (t @ [NUL])) (data (cs ! j))"
      using write_twice [OF room(1)] d1 by simp
    ultimately show ?thesis using d d1 by simp
  qed
  ultimately have "move_cat room junk s (i, off) (length q) src (length t) = Some (s\<lparr>allocated := (allocated s + n) mod size_mod,
      strs := cs[j := (cs ! j)\<lparr>last_at := used (cs ! j), used := (used (cs ! j) + length (q @ t) + 1) mod size_mod, data := d\<rparr>]\<rparr>,
      Some (j, used (cs ! j)))"
    using Some assms(4) by (auto simp: move_cat_def f Let_def add.assoc split: bind_splits)
  then show ?thesis using put_holds [OF h cs(3) fit d] by (simp add: string_made_def)
qed

section \<open>Appending\<close>

lemma given_len_old:
  assumes "holds_text c off q" and "old_len = length q \<or> old_len = 0 \<and> no_nul q"
  shows "given_len (drop off (data c)) old_len = Some (length q)"
proof (cases "old_len = 0")
  case True
  then have n: "no_nul q" using assms(2) by auto
  have t: "take (length q + 1) (drop off (data c)) = q @ [NUL]" using assms(1) by (simp add: holds_text_def read_at_def split: if_splits)
  then obtain rest where "drop off (data c) = (q @ [NUL]) @ rest" by (metis append_take_drop_id)
  then show ?thesis using True n by (simp add: given_len_def c_str_at_def c_str_terminated)
qed (use assms(2) in \<open>auto simp: given_len_def\<close>)

definition string_joined :: "(ptr \<rightharpoonup> string) \<Rightarrow> ikstack \<Rightarrow> ptr \<Rightarrow> string \<Rightarrow> (ikstack \<times> ptr option) option \<Rightarrow> bool" where
  "string_joined A s old t r \<longleftrightarrow> r = Some (s, None)
     \<or> (\<exists>s' p. r = Some (s', Some p) \<and> (p = old \<or> A p = None) \<and> strings_hold (A(p \<mapsto> t)) (strs s') \<and> meta s' = meta s)"

lemma made_joined: "string_made A s t r \<Longrightarrow> string_joined A s old t r"
  by (auto simp: string_made_def string_joined_def)

lemma strcat_joined:
  assumes "sane room" and "strings_hold A (strs s)" and "A (i, off) = Some q"
    and "old_len = length q \<or> old_len = 0 \<and> no_nul q" and "given_text src src_len = Some t" and "length t < 2 ^ 62"
  shows "string_joined A s (i, off) (q @ t) (iks_stack_strcat room junk s (Some (i, off)) old_len src src_len)"
proof -
  let ?c = "strs s ! i"
  note old = holds_text_at [OF assms(2,3)] and g = given [OF assms(5)]
  have gl: "given_len (drop off (data ?c)) old_len = Some (length q)" by (rule given_len_old [OF old(2) assms(4)])
  have r: "iks_stack_strcat room junk s (Some (i, off)) old_len src src_len =
      (if last_at ?c = off \<and> length t < left ?c
       then do { d \<leftarrow> write_at (off + length q) t (data ?c); d \<leftarrow> write_at (off + length q + length t) [NUL] d;
          Some (s\<lparr>strs := (strs s)[i := ?c\<lparr>used := (used ?c + length t) mod size_mod, data := d\<rparr>]\<rparr>, Some (i, off)) }
       else move_cat room junk s (i, off) (length q) src (length t))"
    using old(1) gl g by (auto simp: iks_stack_strcat_def nth_opt_Some)
  show ?thesis
  proof (cases "last_at ?c = off \<and> length t < left ?c")
    case False
    then show ?thesis unfolding r using made_joined [OF move_made [OF assms(1,2,3) g(2) assms(6)]] by (simp only: if_False)
  next
    case True
    have bounds: "used ?c \<le> ck_size ?c" "ck_size ?c \<le> length (data ?c)" "ck_size ?c < 2 ^ 62"
      using old(3) by (simp_all only: chunk_ok_def)
    have fit: "used ?c + length t \<le> ck_size ?c" using True left_ok [OF old(3)] bounds(1) by linarith
    then have "used ?c + length t < 2 ^ 62" using bounds(3) by linarith
    then have "used ?c + length t < size_mod" by (rule less_trans) (simp add: size_mod_def)
    then have m: "(used ?c + length t) mod size_mod = used ?c + length t" by (rule mod_less)
    have texts: "chunk_texts (\<lambda>off. A (i, off)) ?c" using assms(2) old(1) by (simp add: strings_hold_def)
    then have "used ?c = off + length q + 1" using assms(3) True by (auto simp: chunk_texts_def)
    then have b: "off + length q + length t + length [NUL] \<le> length (data ?c)" using fit bounds(2) by simp
    then obtain d where d: "write_at (off + length q) (t @ [NUL]) (data ?c) = Some d" by (simp add: write_at_def)
    have w: "do { d \<leftarrow> write_at (off + length q) t (data ?c); write_at (off + length q + length t) [NUL] d } = Some d"
      using write_twice [OF b] d by simp
    then have r': "iks_stack_strcat room junk s (Some (i, off)) old_len src src_len =
        Some (s\<lparr>strs := (strs s)[i := ?c\<lparr>used := used ?c + length t, data := d\<rparr>]\<rparr>, Some (i, off))"
      unfolding r using True m by (auto split: bind_splits)
    have at: "(\<lambda>off. A (i, off)) (last_at ?c) = Some q" "last_at ?c = off" using assms(3) True by simp_all
    note e = chunk_extend [OF texts old(3) at(1) fit d [folded at(2)] refl]
    have "strings_hold (A((i, off) \<mapsto> q @ t)) ((strs s)[i := ?c\<lparr>used := used ?c + length t, data := d\<rparr>])"
      by (rule update_holds [OF assms(2) old(1) e(2) e(1) [unfolded at(2)]])
    then show ?thesis unfolding r' string_joined_def by simp
  qed
qed

section \<open>Objects\<close>

definition objects_hold :: "(ptr \<times> nat) list \<Rightarrow> ikschunk list \<Rightarrow> bool" where
  "objects_hold obs cs \<longleftrightarrow> (\<forall>c \<in> set cs. chunk_ok c \<and> 8 dvd used c)
     \<and> (\<forall>((i, off), n) \<in> set obs. i < length cs \<and> 8 dvd off \<and> off + n \<le> used (cs ! i))
     \<and> sorted_wrt (\<lambda>(p, n) (q, m). fst p = fst q \<longrightarrow> snd q + m \<le> snd p) obs"

lemma align_up_bounds:
  assumes "x < 2 ^ 62"
  shows "x \<le> align_up x" "8 dvd align_up x" "align_up x < 2 ^ 63"
proof -
  have e: "8 * (x div 8) + x mod 8 = x" "x mod 8 < 8" by simp_all
  have small: "x + 8 < size_mod" using assms by (simp add: size_mod_def)
  have a: "align_up x = (if x mod 8 = 0 then x else x + (8 - x mod 8))"
    using small by (simp add: align_up_def ALIGN_def DEFAULT_ALIGNMENT_def)
  have "y + (8 - r) = 8 * (q + 1)" if "8 * q + r = y" "r < 8" for y q r :: nat using that by auto
  from this [OF e] have "x + (8 - x mod 8) = 8 * (x div 8 + 1)" .
  then show "8 dvd align_up x" unfolding a by (simp add: dvd_eq_mod_eq_0)
  show "x \<le> align_up x" unfolding a using e(2) by (auto intro: trans_le_add1)
  have "align_up x \<le> x + 8" unfolding a by simp
  then show "align_up x < 2 ^ 63" using assms by simp
qed

lemma alloc_holds:
  assumes "sane room" and "objects_hold obs (meta s)" and "sz < 2 ^ 62" and "iks_stack_alloc room junk s sz = (s', r)"
  shows "strs s' = strs s" "case r of None \<Rightarrow> s' = s | Some p \<Rightarrow> objects_hold ((p, sz) # obs) (meta s')"
proof -
  define sz' where "sz' = align_up (if sz < MIN_ALLOC_SIZE then MIN_ALLOC_SIZE else sz)"
  have "(if sz < MIN_ALLOC_SIZE then MIN_ALLOC_SIZE else sz) < 2 ^ 62" "sz \<le> (if sz < MIN_ALLOC_SIZE then MIN_ALLOC_SIZE else sz)"
    using assms(3) by (simp_all add: MIN_ALLOC_SIZE_def DEFAULT_ALIGNMENT_def)
  with align_up_bounds [OF this(1)] have z: "sz \<le> sz'" "8 dvd sz'" "sz' < 2 ^ 63" unfolding sz'_def by linarith+
  have ok: "\<forall>c \<in> set (meta s). chunk_ok c \<and> 8 dvd used c"
    "\<forall>((i, off), n) \<in> set obs. i < length (meta s) \<and> 8 dvd off \<and> off + n \<le> used (meta s ! i)"
    "sorted_wrt (\<lambda>(p, n) (q, m). fst p = fst q \<longrightarrow> snd q + m \<le> snd p) obs"
    using assms(2) by (simp_all add: objects_hold_def)
  show "strs s' = strs s" using assms(4) by (auto simp: iks_stack_alloc_def Let_def split: option.splits)
  show "case r of None \<Rightarrow> s' = s | Some p \<Rightarrow> objects_hold ((p, sz) # obs) (meta s')"
  proof (cases "find_space room junk sz' (meta s)")
    case None
    then show ?thesis using assms(4) by (auto simp: iks_stack_alloc_def Let_def sz'_def)
  next
    case (Some f)
    obtain i cs n where f: "f = (i, cs, n)" by (cases f)
    obtain new where cs: "cs = meta s @ new" "\<forall>c \<in> set cs. chunk_ok c" "\<forall>c \<in> set new. used c = 0" "i < length cs"
        "used (cs ! i) + sz' \<le> ck_size (cs ! i)"
      using found [OF assms(1) _ z(3) Some [unfolded f]] ok(1) by blast
    let ?c = "cs ! i"
    have c: "chunk_ok ?c" "8 dvd used ?c" using cs(1,2,3,4) ok(1) by (auto simp: nth_append)
    then have "ck_size ?c < 2 ^ 62" by (simp only: chunk_ok_def)
    then have "used ?c + sz' < 2 ^ 62" using cs(5) by linarith
    then have "used ?c + sz' < size_mod" by (rule less_trans) (simp add: size_mod_def)
    then have m: "(used ?c + sz') mod size_mod = used ?c + sz'" by (rule mod_less)
    let ?c' = "?c\<lparr>used := used ?c + sz'\<rparr>"
    have r: "r = Some (i, used ?c)" "meta s' = cs[i := ?c']"
      using assms(4) Some m by (auto simp: iks_stack_alloc_def Let_def f simp flip: sz'_def)
    have c': "chunk_ok ?c' \<and> 8 dvd used ?c'" using c cs(5) z(2) by (simp add: chunk_ok_def)
    have all: "\<forall>c \<in> set (cs[i := ?c']). chunk_ok c \<and> 8 dvd used c"
      using c' ok(1) cs(1,2,3) set_update_subset_insert [of cs i ?c'] by fastforce
    have olds: "j < length cs \<and> 8 dvd off \<and> off + k \<le> used (cs ! j)" if "((j, off), k) \<in> set obs" for j off k
      using bspec [OF ok(2) that] by (simp add: cs(1) nth_append)
    have still: "j < length (cs[i := ?c']) \<and> 8 dvd off \<and> off + k \<le> used (cs[i := ?c'] ! j)" if "((j, off), k) \<in> set obs" for j off k
      using olds [OF that] cs(4) by (cases "j = i") simp_all
    have "i < length (cs[i := ?c']) \<and> 8 dvd used ?c \<and> used ?c + sz \<le> used (cs[i := ?c'] ! i)" using c(2) cs(4) z(1) by simp
    then have "\<forall>((j, off), k) \<in> set (((i, used ?c), sz) # obs). j < length (cs[i := ?c']) \<and> 8 dvd off \<and> off + k \<le> used (cs[i := ?c'] ! j)"
      using still by (simp only: list.set ball_simps prod.case) blast
    moreover have "sorted_wrt (\<lambda>(p, n) (q, m). fst p = fst q \<longrightarrow> snd q + m \<le> snd p) (((i, used ?c), sz) # obs)"
      using ok(3) olds by (auto simp: split_beta)
    ultimately show ?thesis unfolding r objects_hold_def option.case using all by blast
  qed
qed

section \<open>A stack in use\<close>

lemma new_holds:
  assumes "sane room" and "iks_stack_new room junk m d = Some (Some s)"
  shows "strings_hold Map.empty (strs s)" "objects_hold [] (meta s)" "meta s \<noteq> []" "strs s \<noteq> []"
proof -
  define m' where "m' = align_up (if m < MIN_CHUNK_SIZE then MIN_CHUNK_SIZE else m)"
  define d' where "d' = align_up (if d < MIN_CHUNK_SIZE then MIN_CHUNK_SIZE else d)"
  define len where "len = sizeof_stack + m' + d' + sizeof_chunk * 2"
  have r: "len < size_mod" "room len" "meta s = [new_chunk junk (sizeof_chunk + m') m']" "strs s = [new_chunk junk (sizeof_chunk + d') d']"
    using assms(2) by (auto simp: iks_stack_new_def Let_def simp flip: m'_def d'_def len_def split: if_splits)
  then have "len < 2 ^ 62" using assms(1) by (simp add: sane_def)
  then have "m' < 2 ^ 62" "d' < 2 ^ 62" by (simp_all add: len_def)
  then have "chunk_ok (new_chunk junk (sizeof_chunk + m') m')" "chunk_ok (new_chunk junk (sizeof_chunk + d') d')"
    by (simp_all add: chunk_ok_def new_chunk_def sizeof_chunk_def data_off_def)
  then show "strings_hold Map.empty (strs s)" "objects_hold [] (meta s)" "meta s \<noteq> []" "strs s \<noteq> []"
    using r(3,4) by (simp_all add: strings_hold_def chunk_texts_def objects_hold_def) (simp add: new_chunk_def)
qed

text \<open>
  A stack after any calls: its strings, as a map from the pointers returned to the texts they stand
  for, and its objects with the sizes asked for, the youngest first.
\<close>

inductive stack_run :: "(nat \<Rightarrow> bool) \<Rightarrow> (nat \<Rightarrow> char) \<Rightarrow> ikstack \<Rightarrow> (ptr \<rightharpoonup> string) \<Rightarrow> (ptr \<times> nat) list \<Rightarrow> bool"
  for room junk where
  start: "iks_stack_new room junk m d = Some (Some s) \<Longrightarrow> stack_run room junk s Map.empty []"
| alloc: "stack_run room junk s A obs \<Longrightarrow> sz < 2 ^ 62 \<Longrightarrow> iks_stack_alloc room junk s sz = (s', Some p)
    \<Longrightarrow> stack_run room junk s' A ((p, sz) # obs)"
| dup: "stack_run room junk s A obs \<Longrightarrow> given_text src len = Some t \<Longrightarrow> length t < 2 ^ 62
    \<Longrightarrow> iks_stack_strdup room junk s (Some src) len = Some (s', Some p) \<Longrightarrow> stack_run room junk s' (A(p \<mapsto> t)) obs"
| cat: "stack_run room junk s A obs \<Longrightarrow> A old = Some q \<Longrightarrow> old_len = length q \<or> old_len = 0 \<and> no_nul q
    \<Longrightarrow> given_text src src_len = Some t \<Longrightarrow> length t < 2 ^ 62
    \<Longrightarrow> iks_stack_strcat room junk s (Some old) old_len src src_len = Some (s', Some p)
    \<Longrightarrow> stack_run room junk s' (A(p \<mapsto> q @ t)) obs"

inductive_cases stack_runE: "stack_run room junk s A obs"

lemma run_holds:
  assumes "sane room"
  shows "stack_run room junk s A obs \<Longrightarrow> strings_hold A (strs s) \<and> objects_hold obs (meta s)"
proof (induction rule: stack_run.induct)
  case (start m d s)
  then show ?case using new_holds [OF assms] by blast
next
  case (alloc s A obs sz s' p)
  then show ?case using alloc_holds [OF assms _ alloc(2,3)] by force
next
  case (dup s A obs src len t s' p)
  then have "strings_hold A (strs s)" by blast
  from strdup_made [OF assms this dup(2,3), of junk] dup show ?case by (auto simp: string_made_def simp del: fun_upd_apply)
next
  case (cat s A obs old q old_len src src_len t s' p)
  obtain i off where old: "old = (i, off)" by (cases old)
  have "string_joined A s (i, off) (q @ t) (iks_stack_strcat room junk s (Some (i, off)) old_len src src_len)"
    by (rule strcat_joined [OF assms _ _ cat(3,4,5)]) (use cat old in simp_all)
  then show ?case using cat(6,7) old by (auto simp: string_joined_def simp del: fun_upd_apply)
qed

lemma stack_starts:
  assumes "room (sizeof_stack + 64 + 64 + sizeof_chunk * 2)"
  shows "\<exists>s. iks_stack_new room junk 0 0 = Some (Some s)"
  using assms by (simp add: iks_stack_new_def Let_def align_up_def MIN_CHUNK_SIZE_def DEFAULT_ALIGNMENT_def size_mod_def sizeof_stack_def sizeof_chunk_def)

section \<open>Properties\<close>

text \<open>
  C17. Whatever calls a stack has seen, every string it returned is where it was returned, whole and
  with its NUL, until it is itself extended, and the objects are aligned, inside their chunks, and apart from each
  other.
\<close>

theorem stack_keeps_what_it_gave:
  assumes "sane room" and "stack_run room junk s A obs"
  shows "(\<forall>i off t. A (i, off) = Some t \<longrightarrow>
      i < length (strs s) \<and> read_at off (length t + 1) (data (strs s ! i)) = Some (t @ [NUL]))
    \<and> (\<forall>((i, off), n) \<in> set obs. i < length (meta s) \<and> off mod 8 = 0 \<and> off + n \<le> length (data (meta s ! i)))
    \<and> sorted_wrt (\<lambda>(p, n) (q, m). fst p = fst q \<longrightarrow> snd q + m \<le> snd p) obs"
proof -
  have h: "strings_hold A (strs s)" "objects_hold obs (meta s)" using run_holds [OF assms] by blast+
  have "i < length (meta s) \<and> off mod 8 = 0 \<and> off + n \<le> length (data (meta s ! i))" if "((i, off), n) \<in> set obs" for i off n
  proof -
    have o: "i < length (meta s)" "8 dvd off" "off + n \<le> used (meta s ! i)" and "chunk_ok (meta s ! i)"
      using h(2) that by (auto simp: objects_hold_def)
    then have "used (meta s ! i) \<le> ck_size (meta s ! i)" "ck_size (meta s ! i) \<le> length (data (meta s ! i))"
      by (simp_all only: chunk_ok_def)
    then show ?thesis using o by (simp add: dvd_eq_mod_eq_0)
  qed
  moreover have "i < length (strs s) \<and> read_at off (length t + 1) (data (strs s ! i)) = Some (t @ [NUL])" if "A (i, off) = Some t" for i off t
    using holds_text_at [OF h(1) that] by (simp add: holds_text_def)
  ultimately show ?thesis using h(2) by (auto simp: objects_hold_def)
qed

definition some_room :: "nat \<Rightarrow> bool" where "some_room n \<longleftrightarrow> n < 1000"

definition ex_new :: ikstack where
  "ex_new = \<lparr>allocated = 232, meta = [\<lparr>ck_size = 64, used = 0, last_at = size_mod - 1, data = replicate 72 CHR ''x''\<rparr>],
     strs = [\<lparr>ck_size = 64, used = 0, last_at = size_mod - 1, data = replicate 72 CHR ''x''\<rparr>]\<rparr>"

definition ex_dup :: ikstack where
  "ex_dup = ex_new\<lparr>strs := [\<lparr>ck_size = 64, used = 3, last_at = 0, data = ''ab'' @ NUL # replicate 69 CHR ''x''\<rparr>]\<rparr>"

definition ex_cat :: ikstack where
  "ex_cat = ex_new\<lparr>strs := [\<lparr>ck_size = 64, used = 5, last_at = 0, data = ''abcd'' @ NUL # replicate 67 CHR ''x''\<rparr>]\<rparr>"

lemma ex_runs:
  "iks_stack_new some_room (\<lambda>_. CHR ''x'') 0 0 = Some (Some ex_new)"
  "iks_stack_strdup some_room (\<lambda>_. CHR ''x'') ex_new (Some ''ab'') 2 = Some (ex_dup, Some (0, 0))"
  "iks_stack_strcat some_room (\<lambda>_. CHR ''x'') ex_dup (Some (0, 0)) 2 ''cd'' 2 = Some (ex_cat, Some (0, 0))"
proof -
  have m: "map (\<lambda>_. CHR ''x'') [32..<104] = replicate 72 CHR ''x''" by code_simp
  show "iks_stack_new some_room (\<lambda>_. CHR ''x'') 0 0 = Some (Some ex_new)"
    unfolding ex_new_def m [symmetric]
    by (simp add: iks_stack_new_def Let_def align_up_def MIN_CHUNK_SIZE_def DEFAULT_ALIGNMENT_def size_mod_def sizeof_stack_def
        sizeof_chunk_def some_room_def new_chunk_def data_off_def del: upt_rec_numeral)
  show "iks_stack_strdup some_room (\<lambda>_. CHR ''x'') ex_new (Some ''ab'') 2 = Some (ex_dup, Some (0, 0))"
    by (simp add: iks_stack_strdup_def given_len_def ex_new_def ex_dup_def left_def size_mod_def read_at_def write_at_def)
  show "iks_stack_strcat some_room (\<lambda>_. CHR ''x'') ex_dup (Some (0, 0)) 2 ''cd'' 2 = Some (ex_cat, Some (0, 0))"
    by (simp add: iks_stack_strcat_def nth_opt_def given_len_def ex_new_def ex_dup_def ex_cat_def left_def size_mod_def read_at_def write_at_def)
qed

lemma ex_run: "sane some_room" "stack_run some_room (\<lambda>_. CHR ''x'') ex_dup (Map.empty((0, 0) \<mapsto> ''ab'')) []"
  "stack_run some_room (\<lambda>_. CHR ''x'') ex_cat (Map.empty((0, 0) \<mapsto> ''ab'', (0, 0) \<mapsto> ''abcd'')) []"
proof -
  show "sane some_room" by (simp add: sane_def some_room_def)
  show dup: "stack_run some_room (\<lambda>_. CHR ''x'') ex_dup (Map.empty((0, 0) \<mapsto> ''ab'')) []"
    by (rule stack_run.dup [OF stack_run.start [OF ex_runs(1)] _ _ ex_runs(2)]) (simp_all add: given_text_def read_at_def)
  show "stack_run some_room (\<lambda>_. CHR ''x'') ex_cat (Map.empty((0, 0) \<mapsto> ''ab'', (0, 0) \<mapsto> ''abcd'')) []"
  proof -
    have "stack_run some_room (\<lambda>_. CHR ''x'') ex_cat (Map.empty((0, 0) \<mapsto> ''ab'', (0, 0) \<mapsto> ''ab'' @ ''cd'')) []"
      by (rule stack_run.cat [OF dup _ _ _ _ ex_runs(3)]) (simp_all add: given_text_def read_at_def)
    then show ?thesis by (simp only: append.simps)
  qed
qed

theorem stack_keeps_what_it_gave_witness:
  "read_at 0 5 (data (strs ex_cat ! 0)) = Some (''abcd'' @ [NUL])"
proof -
  have "(Map.empty((0, 0) \<mapsto> ''ab'', (0, 0) \<mapsto> ''abcd'')) (0, 0) = Some ''abcd''" by simp
  then have "read_at 0 (length ''abcd'' + 1) (data (strs ex_cat ! 0)) = Some (''abcd'' @ [NUL])"
    using stack_keeps_what_it_gave [OF ex_run(1,3)] by blast
  moreover have "length ''abcd'' + 1 = 5" by simp
  ultimately show ?thesis by (simp only:)
qed

text \<open>
  Appending to a string of a stack in use either finds no memory and changes nothing, or
  returns the joined string, in its old place or in a new one that no string has; the strings at all other places
  stay.  No access is out of bounds.
\<close>

theorem strcat_joins:
  assumes "sane room" and "stack_run room junk s A obs" and "A old = Some q"
    and "old_len = length q \<or> old_len = 0 \<and> no_nul q" and "given_text src src_len = Some t" and "length t < 2 ^ 62"
  shows "iks_stack_strcat room junk s (Some old) old_len src src_len = Some (s, None)
    \<or> (\<exists>s' p. iks_stack_strcat room junk s (Some old) old_len src src_len = Some (s', Some p) \<and> (p = old \<or> A p = None)
        \<and> strings_hold (A(p \<mapsto> q @ t)) (strs s') \<and> meta s' = meta s)"
proof -
  obtain i off where old: "old = (i, off)" by (cases old)
  have "strings_hold A (strs s)" using run_holds [OF assms(1,2)] by blast
  from strcat_joined [OF assms(1) this assms(3) [unfolded old] assms(4,5,6)] show ?thesis unfolding old string_joined_def .
qed

theorem strcat_joins_witness:
  "iks_stack_strcat some_room (\<lambda>_. CHR ''x'') ex_dup (Some (0, 0)) 2 ''cd'' 2 = Some (ex_cat, Some (0, 0))
    \<and> strings_hold (Map.empty((0, 0) \<mapsto> ''ab'', (0, 0) \<mapsto> ''abcd'')) (strs ex_cat)"
  using strcat_joins [OF ex_run(1,2), of "(0, 0)" "''ab''" 2 "''cd''" 2 "''cd''"] ex_runs(3) by (simp add: given_text_def read_at_def)

text \<open>The blocks of a stack are freed once each, the one that holds the others last.\<close>

lemma delete_frees_once:
  "distinct (iks_stack_delete s) \<and> last (iks_stack_delete s) = Stack_Block
    \<and> set (iks_stack_delete s) = {Stack_Block} \<union> Meta_Chunk ` {1..<length (meta s)} \<union> Str_Chunk ` {1..<length (strs s)}"
  by (auto simp: iks_stack_delete_def distinct_map inj_on_def)

end
