(* ===== verification/IksLinks.thy ===== *)
theory IksLinks
  imports Main
begin

text \<open>
  Doubly linked lists without a head, as \<^verbatim>\<open>src/CuteCat/iksemel/filter.c\<close> links its rules and
  \<^verbatim>\<open>src/CuteCat/iksemel/iks.c\<close> the children of a node.  Only the links matter here: the map from an address to the
  pair of \<^verbatim>\<open>next\<close> and \<^verbatim>\<open>prev\<close>.
\<close>

type_synonym addr = nat
type_synonym link_map = "addr \<rightharpoonup> addr option \<times> addr option"

text \<open>From \<open>p\<close> on, after \<open>pr\<close>, come the nodes \<open>as\<close> and then \<open>q\<close>.\<close>

fun seg :: "link_map \<Rightarrow> addr option \<Rightarrow> addr option \<Rightarrow> addr list \<Rightarrow> addr option \<Rightarrow> bool" where
  "seg L pr p [] q \<longleftrightarrow> p = q"
| "seg L pr p (a # as) q \<longleftrightarrow> p = Some a \<and> (\<exists>n. L a = Some (n, pr) \<and> seg L (Some a) n as q)"

definition lst :: "addr option \<Rightarrow> addr list \<Rightarrow> addr option" where
  "lst pr as = (if as = [] then pr else Some (last as))"

definition fst_of :: "addr list \<Rightarrow> addr option" where
  "fst_of as = (case as of [] \<Rightarrow> None | a # _ \<Rightarrow> Some a)"

lemma seg_append: "seg L pr p (xs @ ys) q \<longleftrightarrow> (\<exists>m. seg L pr p xs m \<and> seg L (lst pr xs) m ys q)"
proof (induction xs arbitrary: pr p)
  case (Cons a xs)
  have "lst (Some a) xs = lst pr (a # xs)" by (simp add: lst_def)
  then show ?case using Cons by auto
qed (simp add: lst_def)

lemma seg_first: "seg L pr p as None \<Longrightarrow> p = fst_of as"
  by (cases as) (auto simp: fst_of_def)

lemma seg_node: "seg L pr p as q \<Longrightarrow> a \<in> set as \<Longrightarrow> \<exists>n m. L a = Some (n, m)"
  by (induction as arbitrary: pr p) auto

lemma seg_cong: "(\<And>a. a \<in> set as \<Longrightarrow> L' a = L a) \<Longrightarrow> seg L' pr p as q = seg L pr p as q"
  by (induction as arbitrary: pr p) auto

lemma seg_frame: "a \<notin> set as \<Longrightarrow> seg (L(a := v)) pr p as q = seg L pr p as q"
  by (rule seg_cong) auto

lemma seg_set_next:
  "as \<noteq> [] \<Longrightarrow> distinct as \<Longrightarrow> seg L pr p as q \<Longrightarrow> seg (L(last as \<mapsto> (q', snd (the (L (last as)))))) pr p as q'"
proof (induction as arbitrary: pr p)
  case (Cons a as)
  show ?case
  proof (cases "as = []")
    case False
    then have "last as \<noteq> a" using Cons.prems(2) by auto
    then show ?thesis using Cons False by auto
  qed (use Cons.prems in auto)
qed simp

lemma seg_set_prev: "seg L pr p (a # as) q \<Longrightarrow> a \<notin> set as \<Longrightarrow> seg (L(a \<mapsto> (fst (the (L a)), pr'))) pr' p (a # as) q"
  by (auto simp: seg_frame)

text \<open>A node in the middle.\<close>

lemma seg_middle:
  assumes "seg L None p (xs @ a # ys) None"
  shows "L a = Some (fst_of ys, lst None xs)" "seg L None p xs (Some a)" "seg L (Some a) (fst_of ys) ys None"
proof -
  obtain m where m: "seg L None p xs m" "seg L (lst None xs) m (a # ys) None"
    using assms by (auto simp: seg_append simp del: seg.simps)
  then obtain n where n: "m = Some a" "L a = Some (n, lst None xs)" "seg L (Some a) n ys None" by auto
  moreover have "n = fst_of ys" by (rule seg_first [OF n(3)])
  ultimately show "L a = Some (fst_of ys, lst None xs)" "seg L None p xs (Some a)" "seg L (Some a) (fst_of ys) ys None"
    using m(1) by simp_all
qed

lemma lst_in: "lst None xs = Some c \<Longrightarrow> c \<in> set xs"
  by (auto simp: lst_def split: if_splits)

lemma fst_of_in: "fst_of ys = Some c \<Longrightarrow> c \<in> set ys"
  by (cases ys) (auto simp: fst_of_def)

text \<open>The link behind \<open>xs\<close> and the one before \<open>ys\<close>, where there are such nodes.\<close>

definition link_next :: "addr option \<Rightarrow> addr option \<Rightarrow> link_map \<Rightarrow> link_map" where
  "link_next b n L = (case b of Some b \<Rightarrow> L(b \<mapsto> (n, snd (the (L b)))) | None \<Rightarrow> L)"

definition link_prev :: "addr option \<Rightarrow> addr option \<Rightarrow> link_map \<Rightarrow> link_map" where
  "link_prev c m L = (case c of Some c \<Rightarrow> L(c \<mapsto> (fst (the (L c)), m)) | None \<Rightarrow> L)"

lemma link_next_other: "b \<noteq> Some c \<Longrightarrow> link_next b n L c = L c"
  and link_prev_other: "b \<noteq> Some c \<Longrightarrow> link_prev b n L c = L c"
  by (auto simp: link_next_def link_prev_def split: option.split)

lemma seg_link_next:
  assumes "seg L None p xs q" and "distinct xs"
  shows "seg (link_next (lst None xs) n L) None (if xs = [] then n else p) xs n"
proof (cases "xs = []")
  case False
  then show ?thesis using seg_set_next [OF False assms(2,1), of n] by (simp add: link_next_def lst_def)
qed simp

lemma seg_link_prev:
  assumes "seg L m (fst_of ys) ys None" and "distinct ys"
  shows "seg (link_prev (fst_of ys) m' L) m' (fst_of ys) ys None"
proof (cases ys)
  case (Cons c zs)
  then show ?thesis using assms seg_set_prev [of L m "Some c" c zs None m'] by (simp add: link_prev_def fst_of_def)
qed (simp add: fst_of_def)

lemma seg_link_next_other: "set ys \<inter> set xs = {} \<Longrightarrow> seg (link_next (lst None xs) n L) m p ys q = seg L m p ys q"
  by (rule seg_cong) (auto intro!: link_next_other dest: lst_in)

lemma seg_link_prev_other: "set ys \<inter> set xs = {} \<Longrightarrow> seg (link_prev (fst_of ys) n L) m p xs q = seg L m p xs q"
  by (rule seg_cong) (auto intro!: link_prev_other dest: fst_of_in)

text \<open>The neighbours of a node are linked to each other.\<close>

lemma seg_unlink:
  assumes "distinct (xs @ a # ys)" and "seg L None p (xs @ a # ys) None"
  shows "seg (link_prev (fst_of ys) (lst None xs) (link_next (lst None xs) (fst_of ys) L)) None (if xs = [] then fst_of ys else p) (xs @ ys) None"
proof -
  note m = seg_middle [OF assms(2)]
  have d: "distinct xs" "distinct ys" "set ys \<inter> set xs = {}" using assms(1) by auto
  let ?L = "link_next (lst None xs) (fst_of ys) L"
  have "seg ?L None (if xs = [] then fst_of ys else p) xs (fst_of ys)" by (rule seg_link_next [OF m(2) d(1)])
  moreover have "seg ?L (Some a) (fst_of ys) ys None" using m(3) by (simp only: seg_link_next_other [OF d(3)])
  ultimately show ?thesis unfolding seg_append
    using seg_link_prev [OF _ d(2)] seg_link_prev_other [OF d(3)] by blast
qed

text \<open>A node is put between two.\<close>

lemma seg_insert:
  assumes "distinct (xs @ ys)" and "seg L None p (xs @ ys) None" and "y \<notin> set (xs @ ys)"
    and "\<And>b. b \<noteq> y \<Longrightarrow> L' b = link_prev (fst_of ys) (Some y) (link_next (lst None xs) (Some y) L) b"
    and "L' y = Some (fst_of ys, lst None xs)"
  shows "seg L' None (if xs = [] then Some y else p) (xs @ y # ys) None"
proof -
  have d: "distinct xs" "distinct ys" "set ys \<inter> set xs = {}" "y \<notin> set xs" "y \<notin> set ys" using assms(1,3) by auto
  obtain m where m: "seg L None p xs m" "seg L (lst None xs) m ys None" using assms(2) by (auto simp: seg_append)
  have my: "m = fst_of ys" by (rule seg_first [OF m(2)])
  let ?L1 = "link_next (lst None xs) (Some y) L"
  let ?L2 = "link_prev (fst_of ys) (Some y) ?L1"
  have "seg ?L1 (lst None xs) (fst_of ys) ys None" using m(2) by (simp only: seg_link_next_other [OF d(3)] my)
  then have ys: "seg ?L2 (Some y) (fst_of ys) ys None" by (rule seg_link_prev [OF _ d(2)])
  have xs: "seg ?L2 None (if xs = [] then Some y else p) xs (Some y)"
    using seg_link_next [OF m(1) d(1), of "Some y"] by (simp only: seg_link_prev_other [OF d(3)])
  have "seg L' m p as q = seg ?L2 m p as q" if "y \<notin> set as" for m p as q
    by (rule seg_cong) (use that assms(4) in metis)
  with xs ys d(4,5) have "seg L' None (if xs = [] then Some y else p) xs (Some y)" "seg L' (Some y) (fst_of ys) ys None" by blast+
  then show ?thesis unfolding seg_append using assms(5) by auto
qed

end
