(* ===== verification/IksFilter.thy ===== *)
theory IksFilter
  imports Jabber IksLinks "HOL-Library.Multiset"
begin

text \<open>
  The stanza filter of \<^verbatim>\<open>src/CuteCat/iksemel/filter.c\<close>.  A rule lives in a stack of its own, at an address;
  the heap maps the addresses of the rules in use.  A rule's strings are taken to find memory.  A hook
  is a function of its data and the packet, and leaves the filter alone.
\<close>

section \<open>State\<close>

record iksrule =
  nxt :: "addr option"
  prv :: "addr option"
  user_data :: nat
  filterHook :: nat
  r_id :: "string option"
  r_from :: "string option"
  r_ns :: "string option"
  score :: nat
  tests :: nat
  r_type :: ikspaktype
  r_subtype :: iksubtype

record iksfilter =
  f_rules :: "addr option"
  last_rule :: "addr option"

type_synonym rule_heap = "addr \<rightharpoonup> iksrule"

datatype iksfilterret = IKS_FILTER_PASS | IKS_FILTER_EAT

text \<open>The arguments behind \<open>user_data\<close>, up to \<^verbatim>\<open>IKS_RULE_DONE\<close>.\<close>

datatype rule_arg =
  IKS_RULE_ID "string option" | IKS_RULE_TYPE ikspaktype | IKS_RULE_SUBTYPE iksubtype
| IKS_RULE_FROM "string option" | IKS_RULE_FROM_PARTIAL "string option" | IKS_RULE_NS "string option"

fun rule_code :: "rule_arg \<Rightarrow> nat" where
  "rule_code (IKS_RULE_ID _) = 1"
| "rule_code (IKS_RULE_TYPE _) = 2"
| "rule_code (IKS_RULE_SUBTYPE _) = 4"
| "rule_code (IKS_RULE_FROM _) = 8"
| "rule_code (IKS_RULE_FROM_PARTIAL _) = 16"
| "rule_code (IKS_RULE_NS _) = 32"

section \<open>The list of rules\<close>

definition iks_filter_new :: "bool \<Rightarrow> iksfilter option" where
  "iks_filter_new room = (if room then Some \<lparr>f_rules = None, last_rule = None\<rparr> else None)"

definition set_arg :: "rule_arg \<Rightarrow> iksrule \<Rightarrow> iksrule" where
  "set_arg t rule =
     (let rule = rule\<lparr>tests := tests rule + rule_code t\<rparr> in
      case t of
        IKS_RULE_TYPE x \<Rightarrow> rule\<lparr>r_type := x\<rparr>
      | IKS_RULE_SUBTYPE x \<Rightarrow> rule\<lparr>r_subtype := x\<rparr>
      | IKS_RULE_ID x \<Rightarrow> rule\<lparr>r_id := x\<rparr>
      | IKS_RULE_NS x \<Rightarrow> rule\<lparr>r_ns := x\<rparr>
      | IKS_RULE_FROM x \<Rightarrow> rule\<lparr>r_from := x\<rparr>
      | IKS_RULE_FROM_PARTIAL x \<Rightarrow> rule\<lparr>r_from := x\<rparr>)"

definition new_rule :: "nat \<Rightarrow> nat \<Rightarrow> rule_arg list \<Rightarrow> iksrule" where
  "new_rule hook ud ts = fold set_arg ts
     \<lparr>nxt = None, prv = None, user_data = ud, filterHook = hook, r_id = None, r_from = None, r_ns = None,
      score = 0, tests = 0, r_type = IKS_PAK_NONE, r_subtype = IKS_TYPE_NONE\<rparr>"

text \<open>\<open>blk\<close> is the rule's address in the new stack, if there is memory.\<close>

definition iks_filter_add_rule ::
  "addr option \<Rightarrow> rule_heap \<Rightarrow> iksfilter \<Rightarrow> nat \<Rightarrow> nat \<Rightarrow> rule_arg list \<Rightarrow> (rule_heap \<times> iksfilter \<times> addr option) option" where
  "iks_filter_add_rule blk h f hook ud ts =
     (case blk of
       None \<Rightarrow> Some (h, f, None)
     | Some a \<Rightarrow> do {
         h \<leftarrow> Some (h(a \<mapsto> new_rule hook ud ts));
         f \<leftarrow> Some (if f_rules f = None then f\<lparr>f_rules := Some a\<rparr> else f);
         h \<leftarrow> (case last_rule f of
                Some l \<Rightarrow> do { r \<leftarrow> h l; Some (h(l \<mapsto> r\<lparr>nxt := Some a\<rparr>)) }
              | None \<Rightarrow> Some h);
         r \<leftarrow> h a;
         Some (h(a \<mapsto> r\<lparr>prv := last_rule f\<rparr>), f\<lparr>last_rule := Some a\<rparr>, Some a)
       })"

definition iks_filter_remove_rule :: "rule_heap \<Rightarrow> iksfilter \<Rightarrow> addr \<Rightarrow> (rule_heap \<times> iksfilter) option" where
  "iks_filter_remove_rule h f rule = do {
     r \<leftarrow> h rule;
     h \<leftarrow> (case prv r of Some p \<Rightarrow> do { q \<leftarrow> h p; Some (h(p \<mapsto> q\<lparr>nxt := nxt r\<rparr>)) } | None \<Rightarrow> Some h);
     r \<leftarrow> h rule;
     h \<leftarrow> (case nxt r of Some n \<Rightarrow> do { q \<leftarrow> h n; Some (h(n \<mapsto> q\<lparr>prv := prv r\<rparr>)) } | None \<Rightarrow> Some h);
     r \<leftarrow> h rule;
     f \<leftarrow> Some (if f_rules f = Some rule then f\<lparr>f_rules := nxt r\<rparr> else f);
     f \<leftarrow> Some (if last_rule f = Some rule then f\<lparr>last_rule := prv r\<rparr> else f);
     Some (h(rule := None), f)
   }"

partial_function (option) remove_hook_from ::
  "nat \<Rightarrow> rule_heap \<times> iksfilter \<Rightarrow> addr option \<Rightarrow> (rule_heap \<times> iksfilter) option" where
  "remove_hook_from hook hf rule =
     (case rule of
       None \<Rightarrow> Some hf
     | Some a \<Rightarrow> do {
         r \<leftarrow> fst hf a;
         hf \<leftarrow> (if filterHook r = hook then iks_filter_remove_rule (fst hf) (snd hf) a else Some hf);
         remove_hook_from hook hf (nxt r)
       })"

definition iks_filter_remove_hook :: "rule_heap \<Rightarrow> iksfilter \<Rightarrow> nat \<Rightarrow> (rule_heap \<times> iksfilter) option" where
  "iks_filter_remove_hook h f hook = remove_hook_from hook (h, f) (f_rules f)"

text \<open>The addresses freed.\<close>

partial_function (option) delete_from :: "rule_heap \<Rightarrow> addr option \<Rightarrow> rule_heap option" where
  "delete_from h rule =
     (case rule of
       None \<Rightarrow> Some h
     | Some a \<Rightarrow> do { r \<leftarrow> h a; delete_from (h(a := None)) (nxt r) })"

definition iks_filter_delete :: "rule_heap \<Rightarrow> iksfilter \<Rightarrow> rule_heap option" where
  "iks_filter_delete h f = delete_from h (f_rules f)"

section \<open>A packet\<close>

text \<open>One test of a rule, on the pair of the score and \<^verbatim>\<open>fail\<close>.\<close>

definition test_rule :: "iksrule \<Rightarrow> nat \<Rightarrow> bool \<Rightarrow> nat \<Rightarrow> nat \<times> bool \<Rightarrow> nat \<times> bool" where
  "test_rule rule code good pts sf =
     (case sf of (sc, fail) \<Rightarrow> if tests rule AND code \<noteq> 0 then (if good then (sc + pts, fail) else (sc, True)) else (sc, fail))"

definition from_full :: "ikspak \<Rightarrow> string option" where
  "from_full pak = (case pak_from pak of Some i \<Rightarrow> id_full i | None \<Rightarrow> None)"

definition from_partial :: "ikspak \<Rightarrow> string option" where
  "from_partial pak = (case pak_from pak of Some i \<Rightarrow> id_partial i | None \<Rightarrow> None)"

definition rule_score :: "ikspak \<Rightarrow> iksrule \<Rightarrow> nat" where
  "rule_score pak rule =
     (let sf = (0, False);
          sf = test_rule rule 2 (r_type rule = pak_type pak) 1 sf;
          sf = test_rule rule 4 (r_subtype rule = pak_subtype pak) 2 sf;
          sf = test_rule rule 1 (iks_strcmp (r_id rule) (pak_id pak) = 0) 16 sf;
          sf = test_rule rule 32 (iks_strcmp (r_ns rule) (pak_ns pak) = 0) 4 sf;
          sf = test_rule rule 8 (pak_from pak \<noteq> None \<and> iks_strcmp (r_from rule) (from_full pak) = 0) 8 sf;
          sf = test_rule rule 16 (pak_from pak \<noteq> None \<and> iks_strcmp (r_from rule) (from_partial pak) = 0) 8 sf in
      if snd sf then 0 else fst sf)"

partial_function (option) score_rules ::
  "ikspak \<Rightarrow> rule_heap \<Rightarrow> addr option \<Rightarrow> addr option \<times> nat \<Rightarrow> (rule_heap \<times> addr option) option" where
  "score_rules pak h rule best =
     (case rule of
       None \<Rightarrow> Some (h, fst best)
     | Some a \<Rightarrow> do {
         r \<leftarrow> h a;
         score_rules pak (h(a \<mapsto> r\<lparr>score := rule_score pak r\<rparr>)) (nxt r)
           (if rule_score pak r > snd best then (Some a, rule_score pak r) else best)
       })"

partial_function (option) max_from :: "rule_heap \<Rightarrow> addr option \<Rightarrow> addr option \<times> nat \<Rightarrow> addr option option" where
  "max_from h rule best =
     (case rule of
       None \<Rightarrow> Some (fst best)
     | Some a \<Rightarrow> do { r \<leftarrow> h a; max_from h (nxt r) (if score r > snd best then (Some a, score r) else best) })"

text \<open>The rules whose hooks are called, in order.\<close>

partial_function (option) call_hooks ::
  "(nat \<Rightarrow> nat \<Rightarrow> ikspak \<Rightarrow> iksfilterret) \<Rightarrow> ikspak \<Rightarrow> rule_heap \<Rightarrow> iksfilter \<Rightarrow> addr option \<Rightarrow> addr list option" where
  "call_hooks hooks pak h f max_rule =
     (case max_rule of
       None \<Rightarrow> Some []
     | Some a \<Rightarrow> do {
         r \<leftarrow> h a;
         if hooks (filterHook r) (user_data r) pak = IKS_FILTER_EAT then Some [a]
         else do {
           m \<leftarrow> max_from (h(a \<mapsto> r\<lparr>score := 0\<rparr>)) (f_rules f) (None, 0);
           rest \<leftarrow> call_hooks hooks pak (h(a \<mapsto> r\<lparr>score := 0\<rparr>)) f m;
           Some (a # rest)
         }
       })"

definition iks_filter_packet ::
  "(nat \<Rightarrow> nat \<Rightarrow> ikspak \<Rightarrow> iksfilterret) \<Rightarrow> rule_heap \<Rightarrow> iksfilter \<Rightarrow> ikspak \<Rightarrow> addr list option" where
  "iks_filter_packet hooks h f pak = do {
     (h, m) \<leftarrow> score_rules pak h (f_rules f) (None, 0);
     call_hooks hooks pak h f m
   }"

section \<open>The rules as a list\<close>

definition rlink :: "rule_heap \<Rightarrow> link_map" where
  "rlink h = (\<lambda>a. map_option (\<lambda>r. (nxt r, prv r)) (h a))"

text \<open>What a rule is, its links and its last score aside.\<close>

definition body :: "iksrule \<Rightarrow> iksrule" where
  "body r = r\<lparr>nxt := None, prv := None, score := 0\<rparr>"

definition filter_is :: "rule_heap \<Rightarrow> iksfilter \<Rightarrow> (addr \<times> iksrule) list \<Rightarrow> bool" where
  "filter_is h f rs \<longleftrightarrow> distinct (map fst rs) \<and> seg (rlink h) None (f_rules f) (map fst rs) None
     \<and> last_rule f = lst None (map fst rs) \<and> (\<forall>(a, b) \<in> set rs. map_option body (h a) = Some b)"

lemma rlink_upd: "rlink (h(a := v)) = (rlink h)(a := map_option (\<lambda>r. (nxt r, prv r)) v)"
  by (auto simp: rlink_def fun_eq_iff)

lemma rlink_next: "h b = Some r \<Longrightarrow> rlink (h(b \<mapsto> r\<lparr>nxt := n\<rparr>)) = link_next (Some b) n (rlink h)"
  and rlink_prev: "h b = Some r \<Longrightarrow> rlink (h(b \<mapsto> r\<lparr>prv := n\<rparr>)) = link_prev (Some b) n (rlink h)"
  by (auto simp: rlink_upd link_next_def link_prev_def rlink_def fun_eq_iff)

lemma body_link [simp]: "body (r\<lparr>nxt := x\<rparr>) = body r" "body (r\<lparr>prv := x\<rparr>) = body r" "body (r\<lparr>score := n\<rparr>) = body r"
  by (simp_all add: body_def)

lemma seg_rule: "seg (rlink h) pr p as q \<Longrightarrow> a \<in> set as \<Longrightarrow> \<exists>r. h a = Some r"
  using seg_node [of "rlink h" pr p as q a] by (auto simp: rlink_def)

lemma new_rule_body: "body (new_rule hook ud ts) = new_rule hook ud ts" "nxt (new_rule hook ud ts) = None"
proof -
  have "body r = r \<Longrightarrow> body (fold set_arg ts r) = fold set_arg ts r" for r
  proof (induction ts arbitrary: r)
    case (Cons t ts)
    have "body (set_arg t r) = set_arg t (body r)" by (simp add: set_arg_def body_def Let_def split: rule_arg.split)
    then show ?case using Cons by simp
  qed simp
  then show b: "body (new_rule hook ud ts) = new_rule hook ud ts" by (simp add: new_rule_def body_def)
  have "nxt (body r) = None" for r by (simp add: body_def)
  from this [of "new_rule hook ud ts"] show "nxt (new_rule hook ud ts) = None" by (simp only: b)
qed

lemma add_refines:
  assumes "filter_is h f rs" and "h a = None"
  shows "\<exists>h' f'. iks_filter_add_rule (Some a) h f hook ud ts = Some (h', f', Some a)
    \<and> filter_is h' f' (rs @ [(a, new_rule hook ud ts)])"
proof -
  let ?n = "new_rule hook ud ts" and ?as = "map fst rs" and ?l = "lst None (map fst rs)"
  have h: "distinct ?as" "seg (rlink h) None (f_rules f) ?as None" "last_rule f = ?l"
      "\<forall>(a, b) \<in> set rs. map_option body (h a) = Some b"
    using assms(1) by (simp_all add: filter_is_def)
  have a: "a \<notin> set ?as" using seg_rule [OF h(2)] assms(2) by force
  then have la: "?l \<noteq> Some a" using lst_in [of ?as a] by blast
  let ?h1 = "h(a \<mapsto> ?n)"
  define h2 where "h2 = (case ?l of Some l \<Rightarrow> ?h1(l \<mapsto> (the (?h1 l))\<lparr>nxt := Some a\<rparr>) | None \<Rightarrow> ?h1)"
  have l: "\<exists>r. ?h1 l = Some r \<and> h l = Some r" if "?l = Some l" for l
    using seg_rule [OF h(2) lst_in [OF that]] that la by auto
  have h2: "h2 a = Some ?n \<and> rlink h2 = link_next ?l (Some a) (rlink ?h1)
      \<and> (case ?l of Some l \<Rightarrow> do { r \<leftarrow> ?h1 l; Some (?h1(l \<mapsto> r\<lparr>nxt := Some a\<rparr>)) } | None \<Rightarrow> Some ?h1) = Some h2"
  proof (cases ?l)
    case None
    then show ?thesis by (simp add: h2_def link_next_def)
  next
    case (Some b)
    then obtain r where "?h1 b = Some r" "b \<noteq> a" using l la by auto
    moreover from this have "h2 = ?h1(b \<mapsto> r\<lparr>nxt := Some a\<rparr>)" using Some by (simp add: h2_def)
    ultimately show ?thesis unfolding Some using rlink_next [of ?h1 b r "Some a"] by simp
  qed
  let ?f = "(if f_rules f = None then f\<lparr>f_rules := Some a\<rparr> else f)\<lparr>last_rule := Some a\<rparr>" and ?h3 = "h2(a \<mapsto> ?n\<lparr>prv := ?l\<rparr>)"
  have run: "iks_filter_add_rule (Some a) h f hook ud ts = Some (?h3, ?f, Some a)"
    using h2 h(3) by (simp add: iks_filter_add_rule_def)
  have "seg (rlink ?h3) None (if ?as = [] then Some a else f_rules f) (?as @ [a]) None"
  proof (rule seg_insert [where ys = "[]" and L = "rlink h"])
    show "rlink ?h3 b = link_prev (fst_of []) (Some a) (link_next ?l (Some a) (rlink h)) b" if "b \<noteq> a" for b
      using that by (simp add: rlink_upd [of h2] h2 rlink_upd [of h] fst_of_def link_prev_def link_next_def split: option.split)
  qed (use h a in \<open>simp_all add: rlink_upd fst_of_def new_rule_body\<close>)
  moreover have "f_rules ?f = (if ?as = [] then Some a else f_rules f)"
    using seg_first [OF h(2)] by (cases rs) (auto simp: fst_of_def)
  moreover have "map_option body (?h3 x) = Some b" if "(x, b) \<in> set rs" for x b
  proof -
    have "x \<noteq> a" "map_option body (h x) = Some b" using that a h(4) by force+
    then show ?thesis using l by (auto simp: h2_def split: option.split)
  qed
  then have "\<forall>(x, b) \<in> set (rs @ [(a, ?n)]). map_option body (?h3 x) = Some b" by (auto simp: new_rule_body)
  ultimately have "filter_is ?h3 ?f (rs @ [(a, ?n)])" using h(1) a unfolding filter_is_def by (simp add: lst_def)
  then show ?thesis using run by blast
qed

lemma filter_rule:
  assumes "filter_is h f (xs @ (a, b) # ys)"
  shows "\<exists>r. h a = Some r \<and> body r = b \<and> prv r = lst None (map fst xs) \<and> nxt r = fst_of (map fst ys)"
proof -
  have "seg (rlink h) None (f_rules f) (map fst xs @ a # map fst ys) None" using assms by (simp add: filter_is_def)
  from seg_middle(1) [OF this] obtain r where "h a = Some r" "prv r = lst None (map fst xs)" "nxt r = fst_of (map fst ys)" by (auto simp: rlink_def)
  moreover have "body r = b" using assms calculation(1) by (auto simp: filter_is_def)
  ultimately show ?thesis by blast
qed

lemma remove_refines:
  assumes "filter_is h f (xs @ (a, b) # ys)"
  shows "\<exists>h' f'. iks_filter_remove_rule h f a = Some (h', f') \<and> filter_is h' f' (xs @ ys) \<and> h' a = None"
proof -
  let ?xs = "map fst xs" and ?ys = "map fst ys"
  have h: "distinct (?xs @ a # ?ys)" "seg (rlink h) None (f_rules f) (?xs @ a # ?ys) None" "last_rule f = lst None (?xs @ a # ?ys)"
      "\<forall>(a, b) \<in> set (xs @ ys). map_option body (h a) = Some b"
    using assms by (auto simp: filter_is_def simp del: seg.simps)
  obtain r where r: "h a = Some r" "prv r = lst None ?xs" "nxt r = fst_of ?ys" using filter_rule [OF assms] by blast
  define h1 where "h1 = (case prv r of Some b \<Rightarrow> h(b \<mapsto> (the (h b))\<lparr>nxt := nxt r\<rparr>) | None \<Rightarrow> h)"
  define h2 where "h2 = (case nxt r of Some c \<Rightarrow> h1(c \<mapsto> (the (h1 c))\<lparr>prv := prv r\<rparr>) | None \<Rightarrow> h1)"
  have d: "a \<notin> set ?xs" "a \<notin> set ?ys" using h(1) by auto
  have p: "\<exists>q. h c = Some q \<and> c \<noteq> a" if "prv r = Some c" for c
  proof -
    have "c \<in> set ?xs" using that r(2) by (intro lst_in) simp
    then show ?thesis using seg_rule [OF h(2), of c] d by auto
  qed
  have n: "\<exists>q. h c = Some q \<and> c \<noteq> a" if "nxt r = Some c" for c
  proof -
    have "c \<in> set ?ys" using that r(3) by (intro fst_of_in) simp
    then show ?thesis using seg_rule [OF h(2), of c] d by auto
  qed
  have s1: "(case prv r of Some p \<Rightarrow> do { q \<leftarrow> h p; Some (h(p \<mapsto> q\<lparr>nxt := nxt r\<rparr>)) } | None \<Rightarrow> Some h) = Some h1" "h1 a = Some r"
      "rlink h1 = link_next (prv r) (nxt r) (rlink h)"
    using p r(1) rlink_next by (auto simp: h1_def link_next_def split: option.split)
  have n1: "\<exists>q. h1 c = Some q \<and> c \<noteq> a" if "nxt r = Some c" for c
    using n [OF that] p by (auto simp: h1_def split: option.split)
  then have s2: "(case nxt r of Some n \<Rightarrow> do { q \<leftarrow> h1 n; Some (h1(n \<mapsto> q\<lparr>prv := prv r\<rparr>)) } | None \<Rightarrow> Some h1) = Some h2" "h2 a = Some r"
      "rlink h2 = link_prev (nxt r) (prv r) (rlink h1)"
    using s1(2) rlink_prev by (auto simp: h2_def link_prev_def split: option.split)
  let ?f1 = "if f_rules f = Some a then f\<lparr>f_rules := nxt r\<rparr> else f"
  let ?f2 = "if last_rule ?f1 = Some a then ?f1\<lparr>last_rule := prv r\<rparr> else ?f1"
  have run: "iks_filter_remove_rule h f a = Some (h2(a := None), ?f2)"
    unfolding iks_filter_remove_rule_def using r(1) s1(1,2) s2(1,2) by simp
  have fr: "f_rules ?f2 = (if ?xs = [] then fst_of ?ys else f_rules f)"
    using seg_first [OF h(2)] d(1) r(3) by (cases xs) (auto simp: fst_of_def)
  have lr: "last_rule ?f2 = lst None (?xs @ ?ys)"
  proof (cases ys rule: rev_cases)
    case Nil
    then show ?thesis using h(3) r(2) by (simp add: lst_def)
  next
    case (snoc zs z)
    then have "last_rule f = Some (fst z)" "fst z \<noteq> a" using h(3) d(2) by (auto simp: lst_def)
    then show ?thesis using snoc by (simp add: lst_def)
  qed
  have "rlink h2 = link_prev (fst_of ?ys) (lst None ?xs) (link_next (lst None ?xs) (fst_of ?ys) (rlink h))"
    by (simp only: s2(3) s1(3) r(2,3))
  then have "seg (rlink h2) None (f_rules ?f2) (?xs @ ?ys) None" using seg_unlink [OF h(1,2)] by (simp only: fr)
  then have "seg (rlink (h2(a := None))) None (f_rules ?f2) (?xs @ ?ys) None" using d by (simp add: rlink_upd seg_frame)
  moreover have "\<forall>(c, b) \<in> set (xs @ ys). map_option body ((h2(a := None)) c) = Some b"
  proof (intro ballI, clarsimp simp del: fun_upd_apply)
    fix c b assume "(c, b) \<in> set xs \<or> (c, b) \<in> set ys"
    then have c: "map_option body (h c) = Some b" "c \<noteq> a" using h(4) d by force+
    have "map_option body (h1 c) = map_option body (h c)" using c(1) by (auto simp: h1_def split: option.split)
    moreover have "map_option body (h2 c) = map_option body (h1 c)" using c(1) calculation by (auto simp: h2_def split: option.split)
    ultimately show "\<exists>z. (h2(a := None)) c = Some z \<and> body z = b" using c by auto
  qed
  ultimately have "filter_is (h2(a := None)) ?f2 (xs @ ys)" using h(1) lr unfolding filter_is_def by simp
  then show ?thesis by (intro exI [of _ "h2(a := None)"] exI [of _ ?f2] conjI run) simp_all
qed

lemma remove_hook_refines_from:
  "filter_is h f (xs @ ys) \<Longrightarrow> \<exists>h' f'. remove_hook_from hook (h, f) (fst_of (map fst ys)) = Some (h', f')
     \<and> filter_is h' f' (xs @ filter (\<lambda>(a, b). filterHook b \<noteq> hook) ys)"
proof (induction ys arbitrary: h f xs)
  case Nil
  then show ?case by (simp add: remove_hook_from.simps [of _ _ None] fst_of_def)
next
  case (Cons ab ys)
  obtain a b where ab: "ab = (a, b)" by (cases ab)
  obtain r where r: "h a = Some r" "body r = b" "nxt r = fst_of (map fst ys)"
    using filter_rule [OF Cons.prems [unfolded ab]] by blast
  have hk: "filterHook r = filterHook b" using r(2) by (auto simp: body_def)
  show ?case
  proof (cases "filterHook b = hook")
    case True
    then obtain h' f' where 1: "iks_filter_remove_rule h f a = Some (h', f')" "filter_is h' f' (xs @ ys)"
      using remove_refines [OF Cons.prems [unfolded ab]] by blast
    from Cons.IH [OF 1(2)] show ?thesis using 1(1) True r(1,3) hk
      by (simp add: ab fst_of_def [of "a # _"] remove_hook_from.simps [of _ _ "Some a"])
  next
    case False
    have "filter_is h f ((xs @ [ab]) @ ys)" using Cons.prems by simp
    from Cons.IH [OF this] show ?thesis using False r(1,3) hk
      by (simp add: ab fst_of_def [of "a # _"] remove_hook_from.simps [of _ _ "Some a"])
  qed
qed

lemma remove_hook_refines:
  assumes "filter_is h f rs"
  shows "\<exists>h' f'. iks_filter_remove_hook h f hook = Some (h', f') \<and> filter_is h' f' (filter (\<lambda>(a, b). filterHook b \<noteq> hook) rs)"
proof -
  have "f_rules f = fst_of (map fst rs)" using assms by (intro seg_first) (auto simp: filter_is_def)
  then show ?thesis using remove_hook_refines_from [of h f "[]" rs] assms by (simp add: iks_filter_remove_hook_def)
qed

text \<open>Deleting a filter frees its rules and nothing else.\<close>

lemma delete_frees:
  "seg (rlink h) pr p as None \<Longrightarrow> distinct as \<Longrightarrow> delete_from h p = Some (h |` (- set as))"
proof (induction as arbitrary: h pr p)
  case Nil
  then show ?case by (simp add: delete_from.simps [of _ None])
next
  case (Cons a as)
  then obtain r where r: "p = Some a" "h a = Some r" "seg (rlink h) (Some a) (nxt r) as None" by (auto simp: rlink_def)
  have d: "a \<notin> set as" "distinct as" using Cons.prems(2) by simp_all
  have "seg (rlink (h(a := None))) (Some a) (nxt r) as None" using r(3) by (simp only: rlink_upd seg_frame [OF d(1)])
  then have "delete_from (h(a := None)) (nxt r) = Some ((h(a := None)) |` (- set as))" using d(2) by (rule Cons.IH)
  moreover have "(h(a := None)) |` (- set as) = h |` (- set (a # as))" by (auto simp: restrict_map_def fun_eq_iff)
  moreover have "delete_from h p = delete_from (h(a := None)) (nxt r)" using r by (simp add: delete_from.simps [of h "Some a"])
  ultimately show ?case by (simp only:)
qed

section \<open>The order of the hooks\<close>

definition better :: "(addr \<Rightarrow> nat) \<Rightarrow> addr \<Rightarrow> addr option \<times> nat \<Rightarrow> addr option \<times> nat" where
  "better sc a best = (if sc a > snd best then (Some a, sc a) else best)"

definition pick :: "(addr \<Rightarrow> nat) \<Rightarrow> addr list \<Rightarrow> addr option" where
  "pick sc as = fst (fold (better sc) as (None, 0))"

definition comes_before :: "addr list \<Rightarrow> addr \<Rightarrow> addr \<Rightarrow> bool" where
  "comes_before as a b \<longleftrightarrow> (\<exists>xs ys. as = xs @ a # ys \<and> b \<in> set ys)"

text \<open>By descending score, the older rule first where scores are equal; rules without a score are left out.\<close>

definition ranked :: "(addr \<Rightarrow> nat) \<Rightarrow> addr list \<Rightarrow> addr list \<Rightarrow> bool" where
  "ranked sc as order \<longleftrightarrow> distinct order \<and> set order = {a \<in> set as. 0 < sc a}
     \<and> sorted_wrt (\<lambda>a b. sc b < sc a \<or> sc b = sc a \<and> comes_before as a b) order"

lemma pick_cases:
  "case fold (better sc) as (None, 0) of
     (None, n) \<Rightarrow> n = 0 \<and> (\<forall>a \<in> set as. sc a = 0)
   | (Some a, n) \<Rightarrow> n = sc a \<and> 0 < n \<and> (\<exists>xs ys. as = xs @ a # ys \<and> (\<forall>b \<in> set xs. sc b < n) \<and> (\<forall>b \<in> set ys. sc b \<le> n))"
proof (induction as rule: rev_induct)
  case (snoc x as)
  obtain m n where mn: "fold (better sc) as (None, 0) = (m, n)" by fastforce
  show ?case
  proof (cases "n < sc x")
    case True
    have "\<forall>b \<in> set as. sc b < sc x" using snoc True by (cases m) (fastforce simp: mn)+
    have "fold (better sc) (as @ [x]) (None, 0) = (Some x, sc x)" using True mn by (simp add: better_def [of sc x])
    note e = this
    have "\<exists>xs ys. as @ [x] = xs @ x # ys \<and> (\<forall>b \<in> set xs. sc b < sc x) \<and> (\<forall>b \<in> set ys. sc b \<le> sc x)"
      by (rule exI [of _ as], rule exI [of _ "[]"]) (simp add: \<open>\<forall>b \<in> set as. sc b < sc x\<close>)
    then show ?thesis unfolding e prod.case option.case by (intro conjI refl) (use True in simp)
  next
    case False
    then have e: "fold (better sc) (as @ [x]) (None, 0) = (m, n)" using mn by (simp add: better_def [of sc x])
    show ?thesis
    proof (cases m)
      case None
      then show ?thesis unfolding e using snoc False by (simp add: mn)
    next
      case (Some a)
      then obtain xs ys where "as = xs @ a # ys" "\<forall>b \<in> set xs. sc b < n" "\<forall>b \<in> set ys. sc b \<le> n" "n = sc a" "0 < n"
        using snoc by (auto simp: mn)
      moreover have "\<exists>xs ys. as @ [x] = xs @ a # ys \<and> (\<forall>b \<in> set xs. sc b < n) \<and> (\<forall>b \<in> set ys. sc b \<le> n)"
        by (rule exI [of _ xs], rule exI [of _ "ys @ [x]"]) (use calculation False in auto)
      ultimately show ?thesis unfolding e Some by simp
    qed
  qed
qed simp

lemma pick_None: "pick sc as = None \<Longrightarrow> ranked sc as []"
  using pick_cases [of as sc] by (auto simp: pick_def ranked_def split: prod.splits option.splits)

lemma pick_Some:
  assumes "pick sc as = Some a"
  shows "0 < sc a" "\<exists>xs ys. as = xs @ a # ys \<and> (\<forall>b \<in> set xs. sc b < sc a) \<and> (\<forall>b \<in> set ys. sc b \<le> sc a)"
  using pick_cases [of as sc] assms by (auto simp: pick_def split: prod.splits option.splits)

lemma ranked_step:
  assumes p: "pick sc as = Some a" and o: "ranked (sc(a := 0)) as order"
  shows "ranked sc as (a # order)"
proof -
  obtain xs ys where as: "as = xs @ a # ys" "\<forall>b \<in> set xs. sc b < sc a" "\<forall>b \<in> set ys. sc b \<le> sc a"
    using pick_Some(2) [OF p] by blast
  have set: "set order = {b \<in> set as. 0 < (sc(a := 0)) b}" using o by (simp add: ranked_def)
  then have n: "a \<notin> set order" by simp
  have first: "sc b < sc a \<or> sc b = sc a \<and> comes_before as a b" if "b \<in> set order" for b
  proof -
    have "b \<in> set as" "b \<noteq> a" using that set by (auto split: if_splits)
    then have "b \<in> set xs \<or> b \<in> set ys" using as(1) by auto
    then show ?thesis using as by (force simp: comes_before_def le_less)
  qed
  have "sorted_wrt (\<lambda>x y. sc y < sc x \<or> sc y = sc x \<and> comes_before as x y) order"
  proof (rule sorted_wrt_mono_rel)
    show "sorted_wrt (\<lambda>x y. (sc(a := 0)) y < (sc(a := 0)) x \<or> (sc(a := 0)) y = (sc(a := 0)) x \<and> comes_before as x y) order"
      using o by (simp add: ranked_def)
  qed (use n in \<open>auto split: if_splits\<close>)
  moreover have "set (a # order) = {b \<in> set as. 0 < sc b}" using set as(1) pick_Some(1) [OF p] by (auto split: if_splits)
  moreover have "distinct (a # order)" using o n by (simp add: ranked_def)
  ultimately show ?thesis using first by (simp add: ranked_def)
qed

lemma ranked_exists: "\<exists>order. ranked sc as order"
proof (induction "card {a \<in> set as. 0 < sc a}" arbitrary: sc rule: less_induct)
  case less
  show ?case
  proof (cases "pick sc as")
    case None
    then show ?thesis using pick_None by blast
  next
    case (Some a)
    then have "a \<in> set as" "0 < sc a" using pick_Some by force+
    then have "{b \<in> set as. 0 < (sc(a := 0)) b} \<subset> {b \<in> set as. 0 < sc b}" by auto
    then have "card {b \<in> set as. 0 < (sc(a := 0)) b} < card {b \<in> set as. 0 < sc b}" by (intro psubset_card_mono) simp_all
    then show ?thesis using less ranked_step [OF Some] by blast
  qed
qed

fun upto_eat :: "('a \<Rightarrow> bool) \<Rightarrow> 'a list \<Rightarrow> 'a list" where
  "upto_eat eats [] = []"
| "upto_eat eats (a # as) = a # (if eats a then [] else upto_eat eats as)"

section \<open>A packet goes through the rules\<close>

lemma max_from_pick:
  "seg (rlink h) pr p as None \<Longrightarrow> max_from h p best = Some (fst (fold (better (\<lambda>a. score (the (h a)))) as best))"
proof (induction as arbitrary: pr p best)
  case Nil
  then show ?case by (simp add: max_from.simps [of _ None])
next
  case (Cons a as)
  then obtain r where r: "p = Some a" "h a = Some r" "seg (rlink h) (Some a) (nxt r) as None" by (auto simp: rlink_def)
  show ?case using Cons.IH [OF r(3)] r(1,2) by (simp add: max_from.simps [of _ "Some a"] better_def)
qed

definition scored :: "ikspak \<Rightarrow> rule_heap \<Rightarrow> addr set \<Rightarrow> rule_heap" where
  "scored pak h A = (\<lambda>a. if a \<in> A then map_option (\<lambda>r. r\<lparr>score := rule_score pak r\<rparr>) (h a) else h a)"

lemma score_rules_pick:
  "seg (rlink h) pr p as None \<Longrightarrow> distinct as \<Longrightarrow> score_rules pak h p best
     = Some (scored pak h (set as), fst (fold (better (\<lambda>a. rule_score pak (the (h a)))) as best))"
proof (induction as arbitrary: h pr p best)
  case Nil
  then show ?case by (simp add: score_rules.simps [of _ _ None] scored_def)
next
  case (Cons a as)
  then obtain r where r: "p = Some a" "h a = Some r" "seg (rlink h) (Some a) (nxt r) as None" and d: "a \<notin> set as" "distinct as"
    by (auto simp: rlink_def)
  let ?h = "h(a \<mapsto> r\<lparr>score := rule_score pak r\<rparr>)" and ?sc = "\<lambda>a. rule_score pak (the (h a))"
  have s: "seg (rlink ?h) (Some a) (nxt r) as None" using r(3) by (simp only: rlink_upd seg_frame [OF d(1)])
  have f: "fold (better (\<lambda>a. rule_score pak (the (?h a)))) as b = fold (better ?sc) as b" for b
    by (rule fold_cong) (use d(1) in \<open>auto simp: better_def fun_eq_iff\<close>)
  have e: "scored pak ?h (set as) = scored pak h (set (a # as))" using r(2) d(1) by (auto simp: scored_def fun_eq_iff)
  have "score_rules pak ?h (nxt r) b = Some (scored pak h (set (a # as)), fst (fold (better ?sc) as b))" for b
    by (simp only: Cons.IH [OF s d(2)] f e)
  then show ?case using r(1,2) by (simp add: score_rules.simps [of _ _ "Some a"] better_def [of ?sc a best])
qed

lemma call_hooks_order:
  assumes "seg (rlink h) None (f_rules f) as None"
  shows "\<exists>order. ranked (\<lambda>a. score (the (h a))) as order
    \<and> call_hooks hooks pak h f (pick (\<lambda>a. score (the (h a))) as)
      = Some (upto_eat (\<lambda>a. hooks (filterHook (the (h a))) (user_data (the (h a))) pak = IKS_FILTER_EAT) order)"
  using assms
proof (induction "card {a \<in> set as. 0 < score (the (h a))}" arbitrary: h rule: less_induct)
  case less
  let ?sc = "\<lambda>a. score (the (h a))" and ?eat = "\<lambda>a. hooks (filterHook (the (h a))) (user_data (the (h a))) pak = IKS_FILTER_EAT"
  show ?case
  proof (cases "pick ?sc as")
    case None
    then show ?thesis using pick_None [OF None] by (intro exI [of _ "[]"]) (simp add: call_hooks.simps [of _ _ _ _ None])
  next
    case (Some a)
    then have a: "a \<in> set as" "0 < ?sc a" using pick_Some by force+
    then obtain r where r: "h a = Some r" using seg_rule [OF less.prems] by blast
    obtain o1 where o1: "ranked (?sc(a := 0)) as o1" using ranked_exists by blast
    show ?thesis
    proof (cases "?eat a")
      case True
      then show ?thesis using ranked_step [OF Some o1] r Some
        by (intro exI [of _ "a # o1"]) (simp add: call_hooks.simps [of _ _ _ _ "Some a"])
    next
      case False
      let ?h = "h(a \<mapsto> r\<lparr>score := 0\<rparr>)"
      have sc: "(\<lambda>b. score (the (?h b))) = ?sc(a := 0)" by (auto simp: fun_eq_iff)
      have eat: "(\<lambda>b. hooks (filterHook (the (?h b))) (user_data (the (?h b))) pak = IKS_FILTER_EAT) = ?eat"
        using r by (auto simp: fun_eq_iff)
      have "rlink ?h = rlink h" using r by (auto simp: rlink_def fun_eq_iff)
      then have s: "seg (rlink ?h) None (f_rules f) as None" using less.prems by (simp only:)
      have "{b \<in> set as. 0 < score (the (?h b))} \<subset> {b \<in> set as. 0 < ?sc b}" using a by auto
      then have "card {b \<in> set as. 0 < score (the (?h b))} < card {b \<in> set as. 0 < ?sc b}" by (intro psubset_card_mono) simp_all
      from less.hyps [OF this s, unfolded sc eat]
      obtain o2 where o2: "ranked (?sc(a := 0)) as o2" "call_hooks hooks pak ?h f (pick (?sc(a := 0)) as) = Some (upto_eat ?eat o2)"
        by blast
      have "max_from ?h (f_rules f) (None, 0) = Some (pick (?sc(a := 0)) as)"
        using max_from_pick [OF s, of "(None, 0)", unfolded sc] by (simp add: pick_def)
      then have "call_hooks hooks pak h f (Some a) = Some (upto_eat ?eat (a # o2))"
        using False r o2(2) by (simp add: call_hooks.simps [of _ _ _ _ "Some a"])
      then show ?thesis using ranked_step [OF Some o2(1)] Some by auto
    qed
  qed
qed

lemma score_body: "rule_score pak (body r) = rule_score pak r"
  by (simp add: rule_score_def test_rule_def body_def)

lemma packet_order:
  assumes "filter_is h f rs"
  shows "\<exists>order. ranked (\<lambda>a. rule_score pak (the (map_of rs a))) (map fst rs) order
    \<and> iks_filter_packet hooks h f pak
      = Some (upto_eat (\<lambda>a. hooks (filterHook (the (map_of rs a))) (user_data (the (map_of rs a))) pak = IKS_FILTER_EAT) order)"
proof -
  let ?as = "map fst rs" and ?h = "scored pak h (set (map fst rs))"
  have h: "distinct ?as" "seg (rlink h) None (f_rules f) ?as None" "\<forall>(a, b) \<in> set rs. map_option body (h a) = Some b"
    using assms by (simp_all add: filter_is_def)
  have rule: "\<exists>r. h a = Some r \<and> map_of rs a = Some (body r)" if "a \<in> set ?as" for a
  proof -
    have "\<exists>b. (a, b) \<in> set rs" using that by force
    then obtain b where "(a, b) \<in> set rs" by blast
    then show ?thesis using h(1,3) by (auto simp: map_of_eq_Some_iff)
  qed
  have sc: "(\<lambda>a. score (the (?h a))) a = rule_score pak (the (map_of rs a))"
      "rule_score pak (the (h a)) = rule_score pak (the (map_of rs a))"
      "hooks (filterHook (the (?h a))) (user_data (the (?h a))) pak = hooks (filterHook (the (map_of rs a))) (user_data (the (map_of rs a))) pak"
    if "a \<in> set ?as" for a
    using rule [OF that] that score_body [of pak] by (auto simp: scored_def body_def)
  have "rlink ?h = rlink h" by (auto simp: rlink_def scored_def option.map_comp o_def fun_eq_iff)
  then have s: "seg (rlink ?h) None (f_rules f) ?as None" using h(2) by (simp only:)
  from call_hooks_order [OF this, of hooks pak] obtain order where
    o: "ranked (\<lambda>a. score (the (?h a))) ?as order"
    "call_hooks hooks pak ?h f (pick (\<lambda>a. score (the (?h a))) ?as)
      = Some (upto_eat (\<lambda>a. hooks (filterHook (the (?h a))) (user_data (the (?h a))) pak = IKS_FILTER_EAT) order)" by blast
  have sub: "set order \<subseteq> set ?as" using o(1) by (auto simp: ranked_def)
  have "ranked (\<lambda>a. rule_score pak (the (map_of rs a))) ?as order"
  proof -
    have "sorted_wrt (\<lambda>a b. rule_score pak (the (map_of rs b)) < rule_score pak (the (map_of rs a))
        \<or> rule_score pak (the (map_of rs b)) = rule_score pak (the (map_of rs a)) \<and> comes_before ?as a b) order"
      by (rule sorted_wrt_mono_rel [of order "\<lambda>a b. score (the (?h b)) < score (the (?h a)) \<or> score (the (?h b)) = score (the (?h a)) \<and> comes_before ?as a b"])
        (use o(1) sub sc(1) in \<open>auto simp: ranked_def\<close>)
    moreover have "set order = {a \<in> set ?as. 0 < rule_score pak (the (map_of rs a))}"
    proof -
      have "set order = {a \<in> set ?as. 0 < score (the (?h a))}" using o(1) unfolding ranked_def by blast
      also have "\<dots> = {a \<in> set ?as. 0 < rule_score pak (the (map_of rs a))}"
        using sc(1) by (intro Collect_cong conj_cong refl) (simp only:)
      finally show ?thesis .
    qed
    ultimately show ?thesis using o(1) by (simp add: ranked_def)
  qed
  moreover have "pick (\<lambda>a. score (the (?h a))) ?as = fst (fold (better (\<lambda>a. rule_score pak (the (h a)))) ?as (None, 0))"
    unfolding pick_def by (intro arg_cong [where f = fst] fold_cong refl) (use sc(1,2) in \<open>auto simp: better_def fun_eq_iff\<close>)
  moreover have "upto_eat (\<lambda>a. hooks (filterHook (the (?h a))) (user_data (the (?h a))) pak = IKS_FILTER_EAT) order
      = upto_eat (\<lambda>a. hooks (filterHook (the (map_of rs a))) (user_data (the (map_of rs a))) pak = IKS_FILTER_EAT) order"
    using sub sc(3) by (induction order) auto
  ultimately show ?thesis using o(2) score_rules_pick [OF h(2,1), of pak "(None, 0)"] by (auto simp: iks_filter_packet_def)
qed

section \<open>What a rule means\<close>

text \<open>Two texts are there and compare equal; a condition on a packet and its weight.\<close>

definition same_text :: "string option \<Rightarrow> string option \<Rightarrow> bool" where
  "same_text x y \<longleftrightarrow> iks_strcmp x y = 0"

lemma same_text_iff: "pred_option no_nul x \<Longrightarrow> pred_option no_nul y \<Longrightarrow> same_text x y \<longleftrightarrow> x \<noteq> None \<and> x = y"
  by (auto simp: same_text_def iks_strcmp_0_iff)

definition arg_holds :: "ikspak \<Rightarrow> rule_arg \<Rightarrow> bool" where
  "arg_holds pak t =
     (case t of
       IKS_RULE_TYPE x \<Rightarrow> x = pak_type pak
     | IKS_RULE_SUBTYPE x \<Rightarrow> x = pak_subtype pak
     | IKS_RULE_ID x \<Rightarrow> same_text x (pak_id pak)
     | IKS_RULE_NS x \<Rightarrow> same_text x (pak_ns pak)
     | IKS_RULE_FROM x \<Rightarrow> same_text x (from_full pak)
     | IKS_RULE_FROM_PARTIAL x \<Rightarrow> same_text x (from_partial pak))"

definition weight :: "rule_arg \<Rightarrow> nat" where
  "weight t = (case t of IKS_RULE_TYPE _ \<Rightarrow> 1 | IKS_RULE_SUBTYPE _ \<Rightarrow> 2 | IKS_RULE_ID _ \<Rightarrow> 16 | IKS_RULE_NS _ \<Rightarrow> 4
     | IKS_RULE_FROM _ \<Rightarrow> 8 | IKS_RULE_FROM_PARTIAL _ \<Rightarrow> 8)"

text \<open>The field of a rule that an argument sets.\<close>

fun slot :: "rule_arg \<Rightarrow> nat" where
  "slot (IKS_RULE_ID _) = 0"
| "slot (IKS_RULE_TYPE _) = 1"
| "slot (IKS_RULE_SUBTYPE _) = 2"
| "slot (IKS_RULE_FROM _) = 3"
| "slot (IKS_RULE_FROM_PARTIAL _) = 3"
| "slot (IKS_RULE_NS _) = 4"

lemma add_bit:
  fixes n :: nat
  assumes "\<not> bit n k"
  shows "bit (n + 2 ^ k) j \<longleftrightarrow> j = k \<or> bit n j"
proof -
  have "n AND 2 ^ k = 0" using assms by (simp add: and_exp_eq_0_iff_not_bit)
  then have "n + 2 ^ k = n OR 2 ^ k" by (simp add: disjunctive_add_eq_or)
  then show ?thesis by (auto simp: bit_or_iff bit_exp_iff)
qed

lemma add_code:
  assumes "n AND c = 0" and "c \<in> {1, 2, 4, 8, 16, 32}" and "d \<in> {1, 2, 4, 8, 16, 32 :: nat}"
  shows "(n + c) AND d = 0 \<longleftrightarrow> d \<noteq> c \<and> n AND d = 0"
proof -
  have p: "\<exists>k. x = 2 ^ k" if "x \<in> {1, 2, 4, 8, 16, 32 :: nat}" for x
  proof -
    have "(1 :: nat) = 2 ^ 0" "(2 :: nat) = 2 ^ 1" "(4 :: nat) = 2 ^ 2" "(8 :: nat) = 2 ^ 3" "(16 :: nat) = 2 ^ 4" "(32 :: nat) = 2 ^ 5"
      by simp_all
    then show ?thesis using that by (metis empty_iff insertE)
  qed
  obtain k j where kj: "c = 2 ^ k" "d = 2 ^ j" using p assms(2,3) by meson
  have "\<not> bit n k" using assms(1) by (simp add: kj and_exp_eq_0_iff_not_bit)
  then show ?thesis unfolding kj by (simp add: and_exp_eq_0_iff_not_bit add_bit)
qed

definition full_score :: "ikspak \<Rightarrow> iksrule \<Rightarrow> nat \<times> bool" where
  "full_score pak rule =
     test_rule rule 16 (pak_from pak \<noteq> None \<and> iks_strcmp (r_from rule) (from_partial pak) = 0) 8
      (test_rule rule 8 (pak_from pak \<noteq> None \<and> iks_strcmp (r_from rule) (from_full pak) = 0) 8
       (test_rule rule 32 (iks_strcmp (r_ns rule) (pak_ns pak) = 0) 4
        (test_rule rule 1 (iks_strcmp (r_id rule) (pak_id pak) = 0) 16
         (test_rule rule 4 (r_subtype rule = pak_subtype pak) 2
          (test_rule rule 2 (r_type rule = pak_type pak) 1 (0, False))))))"

lemma rule_full_score: "rule_score pak r = (if snd (full_score pak r) then 0 else fst (full_score pak r))"
  by (simp add: rule_score_def full_score_def Let_def)

lemma code_in: "rule_code t \<in> {1, 2, 4, 8, 16, 32}"
  by (cases t) simp_all

text \<open>Whether a rule makes a test.\<close>

definition on :: "iksrule \<Rightarrow> nat \<Rightarrow> bool" where
  "on r c \<longleftrightarrow> tests r AND c \<noteq> 0"

lemma test_rule_on:
  "test_rule r c g p sf = (fst sf + (if on r c \<and> g then p else 0), snd sf \<or> on r c \<and> \<not> g)"
  by (cases sf) (simp add: test_rule_def on_def)

lemmas full_sum = full_score_def test_rule_on fst_conv snd_conv

lemma on_set_arg:
  assumes "tests r AND rule_code t = 0" and "d \<in> {1, 2, 4, 8, 16, 32}"
  shows "on (set_arg t r) d \<longleftrightarrow> d = rule_code t \<or> on r d"
proof -
  have "tests (set_arg t r) = tests r + rule_code t" by (simp add: set_arg_def Let_def split: rule_arg.split)
  then show ?thesis using add_code [OF assms(1) code_in assms(2)] by (auto simp: on_def)
qed

lemma from_holds:
  "pak_from pak \<noteq> None \<and> iks_strcmp x (from_full pak) = 0 \<longleftrightarrow> same_text x (from_full pak)"
  "pak_from pak \<noteq> None \<and> iks_strcmp x (from_partial pak) = 0 \<longleftrightarrow> same_text x (from_partial pak)"
  by (auto simp: same_text_def iks_strcmp_def from_full_def from_partial_def split: option.splits)

lemma score_set_arg:
  assumes "\<And>u. slot u = slot t \<Longrightarrow> tests r AND rule_code u = 0"
  shows "full_score pak (set_arg t r)
    = (fst (full_score pak r) + (if arg_holds pak t then weight t else 0), snd (full_score pak r) \<or> \<not> arg_holds pak t)"
proof -
  have z: "tests r AND rule_code t = 0" by (rule assms) simp
  have o: "on (set_arg t r) 1 \<longleftrightarrow> 1 = rule_code t \<or> on r 1" "on (set_arg t r) 2 \<longleftrightarrow> 2 = rule_code t \<or> on r 2"
    "on (set_arg t r) 4 \<longleftrightarrow> 4 = rule_code t \<or> on r 4" "on (set_arg t r) 8 \<longleftrightarrow> 8 = rule_code t \<or> on r 8"
    "on (set_arg t r) 16 \<longleftrightarrow> 16 = rule_code t \<or> on r 16" "on (set_arg t r) 32 \<longleftrightarrow> 32 = rule_code t \<or> on r 32"
    by (rule on_set_arg [OF z]; simp)+
  have off: "\<not> on r (rule_code u)" if "slot u = slot t" for u using assms [OF that] by (simp add: on_def)
  show ?thesis
  proof (cases t)
    case (IKS_RULE_FROM x)
    have "\<not> on r 8" "\<not> on r 16" using off [of t] off [of "IKS_RULE_FROM_PARTIAL x"] IKS_RULE_FROM by simp_all
    then show ?thesis using o unfolding IKS_RULE_FROM full_sum from_holds by (simp add: set_arg_def arg_holds_def weight_def)
  next
    case (IKS_RULE_FROM_PARTIAL x)
    have "\<not> on r 8" "\<not> on r 16" using off [of t] off [of "IKS_RULE_FROM x"] IKS_RULE_FROM_PARTIAL by simp_all
    then show ?thesis using o unfolding IKS_RULE_FROM_PARTIAL full_sum from_holds by (simp add: set_arg_def arg_holds_def weight_def)
  next
    case (IKS_RULE_ID x)
    then have "\<not> on r 1" using off [of t] by simp
    then show ?thesis using o unfolding IKS_RULE_ID full_sum
      by (simp add: set_arg_def arg_holds_def weight_def same_text_def)
  next
    case (IKS_RULE_TYPE x)
    then have "\<not> on r 2" using off [of t] by simp
    then show ?thesis using o unfolding IKS_RULE_TYPE full_sum by (simp add: set_arg_def arg_holds_def weight_def)
  next
    case (IKS_RULE_SUBTYPE x)
    then have "\<not> on r 4" using off [of t] by simp
    then show ?thesis using o unfolding IKS_RULE_SUBTYPE full_sum by (simp add: set_arg_def arg_holds_def weight_def)
  next
    case (IKS_RULE_NS x)
    then have "\<not> on r 32" using off [of t] by simp
    then show ?thesis using o unfolding IKS_RULE_NS full_sum
      by (simp add: set_arg_def arg_holds_def weight_def same_text_def)
  qed
qed

lemma tests_set_arg:
  assumes "\<And>u. slot u = slot t \<Longrightarrow> tests r AND rule_code u = 0" and "slot v \<noteq> slot t" and "tests r AND rule_code v = 0"
  shows "tests (set_arg t r) AND rule_code v = 0"
proof -
  have "tests (set_arg t r) = tests r + rule_code t" by (simp add: set_arg_def Let_def split: rule_arg.split)
  moreover have "rule_code u \<in> {1, 2, 4, 8, 16, 32}" for u by (cases u) simp_all
  moreover have "rule_code v \<noteq> rule_code t" using assms(2) by (cases v; cases t) simp_all
  ultimately show ?thesis using add_code [of "tests r" "rule_code t" "rule_code v"] assms(1,3) by metis
qed

lemma fold_set_arg:
  "distinct (map slot ts) \<Longrightarrow> \<forall>t. slot t \<in> slot ` set ts \<longrightarrow> tests r AND rule_code t = 0 \<Longrightarrow>
    full_score pak (fold set_arg ts r) = (fst (full_score pak r) + sum_list (map (\<lambda>t. if arg_holds pak t then weight t else 0) ts),
      snd (full_score pak r) \<or> \<not> (\<forall>t \<in> set ts. arg_holds pak t))"
proof (induction ts arbitrary: r)
  case (Cons t ts)
  have u: "tests r AND rule_code u = 0" if "slot u = slot t" for u using Cons.prems(2) that by simp
  have "\<forall>v. slot v \<in> slot ` set ts \<longrightarrow> tests (set_arg t r) AND rule_code v = 0"
  proof (intro allI impI)
    fix v assume v: "slot v \<in> slot ` set ts"
    then have "slot v \<noteq> slot t" using Cons.prems(1) by auto
    with u show "tests (set_arg t r) AND rule_code v = 0" by (rule tests_set_arg) (use v Cons.prems(2) in auto)
  qed
  then show ?case using Cons.IH [of "set_arg t r"] Cons.prems(1) score_set_arg [of t r pak, OF u] by auto
qed simp

lemma rule_meaning:
  assumes "distinct (map slot ts)"
  shows "rule_score pak (new_rule hook ud ts) = (if \<forall>t \<in> set ts. arg_holds pak t then sum_list (map weight ts) else 0)"
proof -
  let ?r = "\<lparr>nxt = None, prv = None, user_data = ud, filterHook = hook, r_id = None, r_from = None, r_ns = None,
      score = 0, tests = 0, r_type = IKS_PAK_NONE, r_subtype = IKS_TYPE_NONE\<rparr>"
  have "full_score pak (new_rule hook ud ts) = (sum_list (map (\<lambda>t. if arg_holds pak t then weight t else 0) ts), \<not> (\<forall>t \<in> set ts. arg_holds pak t))"
    using fold_set_arg [OF assms, of ?r pak] by (simp add: new_rule_def full_score_def [of pak ?r] test_rule_def)
  then have f: "fst (full_score pak (new_rule hook ud ts)) = sum_list (map (\<lambda>t. if arg_holds pak t then weight t else 0) ts)"
    "snd (full_score pak (new_rule hook ud ts)) \<longleftrightarrow> \<not> (\<forall>t \<in> set ts. arg_holds pak t)" by simp_all
  show ?thesis
  proof (cases "\<forall>t \<in> set ts. arg_holds pak t")
    case True
    then have "map (\<lambda>t. if arg_holds pak t then weight t else 0) ts = map weight ts" by simp
    note m = this
    show ?thesis unfolding rule_full_score f m using True by simp
  next
    case False
    then show ?thesis unfolding rule_full_score f if_P [OF False] if_not_P [OF False] by blast
  qed
qed

section \<open>Properties\<close>

text \<open>
  The list of rules, linked both ways, is kept by every operation: a new rule comes last,
  a removed one is unlinked from its neighbours and freed, and removing a hook removes exactly the rules of the hook.
\<close>

theorem filter_keeps_its_rules:
  assumes "filter_is h f rs"
  shows "(h a = None \<longrightarrow> (\<exists>h' f'. iks_filter_add_rule (Some a) h f hook ud ts = Some (h', f', Some a)
        \<and> filter_is h' f' (rs @ [(a, new_rule hook ud ts)])))
    \<and> (rs = xs @ (c, b) # ys \<longrightarrow> (\<exists>h' f'. iks_filter_remove_rule h f c = Some (h', f') \<and> filter_is h' f' (xs @ ys) \<and> h' c = None))
    \<and> (\<exists>h' f'. iks_filter_remove_hook h f hook = Some (h', f') \<and> filter_is h' f' (filter (\<lambda>(a, b). filterHook b \<noteq> hook) rs))"
  using add_refines [OF assms] remove_refines [of h f xs c b ys] remove_hook_refines [OF assms] assms by blast

theorem filter_keeps_its_rules_witness:
  "\<exists>h' f'. iks_filter_add_rule (Some 5) Map.empty \<lparr>f_rules = None, last_rule = None\<rparr> 7 0 [IKS_RULE_TYPE IKS_PAK_IQ] = Some (h', f', Some 5)
    \<and> filter_is h' f' [(5, new_rule 7 0 [IKS_RULE_TYPE IKS_PAK_IQ])]"
proof -
  have "filter_is Map.empty \<lparr>f_rules = None, last_rule = None\<rparr> []" by (simp add: filter_is_def lst_def)
  from filter_keeps_its_rules [OF this, of 5 7 0 "[IKS_RULE_TYPE IKS_PAK_IQ]"] show ?thesis by simp
qed

text \<open>
  A rule as it was asked for: its address, hook, data and conditions.  It fits a packet when it has conditions and
  they all hold; its rank is the sum of their weights.
\<close>

type_synonym asked = "addr \<times> nat \<times> nat \<times> rule_arg list"

definition rule_at :: "asked \<Rightarrow> addr \<times> iksrule" where
  "rule_at c = (case c of (a, hook, ud, ts) \<Rightarrow> (a, new_rule hook ud ts))"

definition fits :: "ikspak \<Rightarrow> asked \<Rightarrow> bool" where
  "fits pak c \<longleftrightarrow> (case c of (a, hook, ud, ts) \<Rightarrow> ts \<noteq> [] \<and> (\<forall>t \<in> set ts. arg_holds pak t))"

definition rank :: "asked \<Rightarrow> nat" where
  "rank c = (case c of (a, hook, ud, ts) \<Rightarrow> sum_list (map weight ts))"

definition eats :: "(nat \<Rightarrow> nat \<Rightarrow> ikspak \<Rightarrow> iksfilterret) \<Rightarrow> ikspak \<Rightarrow> asked \<Rightarrow> bool" where
  "eats hooks pak c \<longleftrightarrow> (case c of (a, hook, ud, ts) \<Rightarrow> hooks hook ud pak = IKS_FILTER_EAT)"

lemma sorted_wrt_same:
  "sorted_wrt R xs \<Longrightarrow> sorted_wrt R ys \<Longrightarrow> set xs = set ys \<Longrightarrow> distinct xs \<Longrightarrow> distinct ys \<Longrightarrow> (\<And>a b. R a b \<Longrightarrow> \<not> R b a) \<Longrightarrow> xs = ys"
proof (induction xs arbitrary: ys)
  case (Cons x xs)
  then obtain y zs where ys: "ys = y # zs" by (cases ys) auto
  have "x = y"
  proof (rule ccontr)
    assume "x \<noteq> y"
    then have "y \<in> set xs" "x \<in> set zs" using Cons.prems(3) by (auto simp: ys)
    then show False using Cons.prems(1,2,6) by (auto simp: ys)
  qed
  moreover have "set xs = set zs" using Cons.prems(3-5) calculation by (auto simp: ys)
  ultimately show ?case using Cons by (simp add: ys)
qed simp

lemma comes_before_nth: "distinct as \<Longrightarrow> comes_before as a b \<longleftrightarrow> (\<exists>i j. i < j \<and> j < length as \<and> as ! i = a \<and> as ! j = b)"
proof
  assume "comes_before as a b"
  then obtain xs ys where "as = xs @ a # ys" "b \<in> set ys" by (auto simp: comes_before_def)
  then obtain k where "k < length ys" "ys ! k = b" by (auto simp: in_set_conv_nth)
  then show "\<exists>i j. i < j \<and> j < length as \<and> as ! i = a \<and> as ! j = b" unfolding \<open>as = xs @ a # ys\<close>
    by (intro exI [of _ "length xs"] exI [of _ "length xs + Suc k"]) (simp add: nth_append)
next
  assume "\<exists>i j. i < j \<and> j < length as \<and> as ! i = a \<and> as ! j = b"
  then obtain i j where ij: "i < j" "j < length as" "as ! i = a" "as ! j = b" by blast
  then have "as = take i as @ a # drop (Suc i) as" using id_take_nth_drop [of i as] by simp
  moreover have "b \<in> set (drop (Suc i) as)"
    using ij by (auto simp: in_set_conv_nth intro!: exI [of _ "j - Suc i"])
  ultimately show "comes_before as a b" unfolding comes_before_def by blast
qed

lemma new_rule_hook: "filterHook (new_rule hook ud ts) = hook" "user_data (new_rule hook ud ts) = ud"
proof -
  have "filterHook (fold set_arg ts r) = filterHook r \<and> user_data (fold set_arg ts r) = user_data r" for r
    by (induction ts arbitrary: r) (simp_all add: set_arg_def Let_def split: rule_arg.split)
  then show "filterHook (new_rule hook ud ts) = hook" "user_data (new_rule hook ud ts) = ud" by (simp_all add: new_rule_def)
qed

text \<open>There is one such order: the stable sort by rank.\<close>

lemma ranked_sorts:
  assumes "distinct as" and "ranked sc as order"
  shows "order = sort_key (\<lambda>a. - int (sc a)) (filter (\<lambda>a. 0 < sc a) as)"
proof (rule properties_for_sort_key [symmetric])
  let ?R = "\<lambda>a b. sc b < sc a \<or> sc b = sc a \<and> comes_before as a b"
  have o: "distinct order" "set order = set (filter (\<lambda>a. 0 < sc a) as)" "sorted_wrt ?R order"
    using assms(2) by (auto simp: ranked_def)
  show "mset order = mset (filter (\<lambda>a. 0 < sc a) as)"
    using o(1,2) assms(1) set_eq_iff_mset_eq_distinct [of order "filter (\<lambda>a. 0 < sc a) as"] by simp
  show "sorted (map (\<lambda>a. - int (sc a)) order)"
    unfolding sorted_map by (rule sorted_wrt_mono_rel [OF _ o(3)]) auto
  show "filter (\<lambda>x. - int (sc k) = - int (sc x)) order = filter (\<lambda>x. - int (sc k) = - int (sc x)) (filter (\<lambda>a. 0 < sc a) as)" for k
  proof (rule sorted_wrt_same)
    show "sorted_wrt (comes_before as) (filter (\<lambda>x. - int (sc k) = - int (sc x)) order)"
      by (rule sorted_wrt_mono_rel [OF _ sorted_wrt_filter [OF o(3)]]) auto
    have "sorted_wrt (comes_before as) as"
      unfolding sorted_wrt_iff_nth_less using comes_before_nth [OF assms(1)] by blast
    then show "sorted_wrt (comes_before as) (filter (\<lambda>x. - int (sc k) = - int (sc x)) (filter (\<lambda>a. 0 < sc a) as))"
      by (intro sorted_wrt_filter)
    show "\<not> comes_before as b a" if "comes_before as a b" for a b
      using that assms(1) by (auto simp: comes_before_nth nth_eq_iff_index_eq)
  qed (use o(1,2) assms(1) in auto)
qed

lemma map_sort_key: "\<forall>x \<in> set xs. g x = k (f x) \<Longrightarrow> map f (sort_key g xs) = sort_key k (map f xs)"
proof (induction xs)
  case (Cons x xs)
  have "map f (insort_key g x ys) = insort_key k (f x) (map f ys)" if "\<forall>y \<in> set ys. g y = k (f y)" for ys
    using that Cons.prems by (induction ys) auto
  then show ?case using Cons by simp
qed simp

lemma upto_eat_map: "upto_eat P (map f xs) = map f (upto_eat (\<lambda>x. P (f x)) xs)"
  by (induction xs) auto

lemma upto_eat_cong: "\<forall>x \<in> set xs. P x = Q x \<Longrightarrow> upto_eat P xs = upto_eat Q xs"
  by (induction xs) auto

text \<open>
  C18. A packet is given to the hooks of the rules that fit it, the highest rank first and the older rule first
  among equals, each once, up to the first hook that eats it, and the call returns.  A rule fits when it was made
  with conditions, no two of them for the same field, and all of them hold; one without conditions is never called.
\<close>

theorem filter_calls_by_rank:
  assumes "filter_is h f (map rule_at cs)" and "\<forall>(a, hook, ud, ts) \<in> set cs. distinct (map slot ts)"
  shows "iks_filter_packet hooks h f pak
    = Some (map fst (upto_eat (eats hooks pak) (sort_key (\<lambda>c. - int (rank c)) (filter (fits pak) cs))))"
proof -
  let ?rs = "map rule_at cs" and ?as = "map fst cs"
  let ?sc = "\<lambda>a. rule_score pak (the (map_of ?rs a))"
  have as: "map fst ?rs = ?as" by (auto simp: rule_at_def split: prod.splits)
  have d: "distinct ?as" using assms(1) unfolding filter_is_def as by simp
  have rule: "map_of ?rs a = Some (new_rule hook ud ts)" if "(a, hook, ud, ts) \<in> set cs" for a hook ud ts
  proof (rule map_of_is_SomeI)
    show "distinct (map fst ?rs)" using d by (simp only: as)
    show "(a, new_rule hook ud ts) \<in> set ?rs" using that by (force simp: rule_at_def)
  qed
  have sc: "?sc (fst c) = (if fits pak c then rank c else 0)" if "c \<in> set cs" for c
  proof -
    obtain a hook ud ts where c: "c = (a, hook, ud, ts)" by (cases c)
    then have "distinct (map slot ts)" using assms(2) that by auto
    then show ?thesis using rule_meaning rule that by (auto simp: c fits_def rank_def)
  qed
  have w: "0 < weight t" for t by (simp add: weight_def split: rule_arg.split)
  have pos: "0 < rank c" if "fits pak c" for c
    using that w by (auto simp: fits_def rank_def neq_Nil_conv split: prod.splits)
  have fil: "filter (\<lambda>a. 0 < ?sc a) ?as = map fst (filter (fits pak) cs)"
    unfolding filter_map using sc pos by (intro arg_cong [where f = "map fst"] filter_cong) auto
  obtain order where o: "ranked ?sc ?as order"
      "iks_filter_packet hooks h f pak = Some (upto_eat (\<lambda>a. hooks (filterHook (the (map_of ?rs a))) (user_data (the (map_of ?rs a))) pak = IKS_FILTER_EAT) order)"
    using packet_order [OF assms(1)] unfolding as by blast
  let ?cs = "sort_key (\<lambda>c. - int (rank c)) (filter (fits pak) cs)"
  have order: "order = map fst ?cs"
    unfolding ranked_sorts [OF d o(1)] fil by (rule map_sort_key [symmetric]) (use sc in auto)
  have "hooks (filterHook (the (map_of ?rs (fst c)))) (user_data (the (map_of ?rs (fst c)))) pak = IKS_FILTER_EAT \<longleftrightarrow> eats hooks pak c"
    if "c \<in> set ?cs" for c
  proof -
    obtain a hook ud ts where c: "c = (a, hook, ud, ts)" by (cases c)
    have "set ?cs \<subseteq> set cs" by simp
    then have "(a, hook, ud, ts) \<in> set cs" using that unfolding c by (rule subsetD)
    from rule [OF this] show ?thesis by (simp add: c eats_def new_rule_hook)
  qed
  then have "upto_eat (\<lambda>c. hooks (filterHook (the (map_of ?rs (fst c)))) (user_data (the (map_of ?rs (fst c)))) pak = IKS_FILTER_EAT) ?cs
      = upto_eat (eats hooks pak) ?cs"
    by (intro upto_eat_cong) blast
  then show ?thesis unfolding o(2) order upto_eat_map by (simp only:)
qed

definition ex_pak :: ikspak where
  "ex_pak = \<lparr>pak_from = None, pak_query = None, pak_ns = None, pak_id = Some ''a'', pak_type = IKS_PAK_IQ,
     pak_subtype = IKS_TYPE_NONE, pak_show = IKS_SHOW_UNAVAILABLE\<rparr>"

text \<open>The rule 6 has the higher score and is called first.\<close>

theorem filter_calls_by_rank_witness:
  "\<exists>h f. iks_filter_packet (\<lambda>_ _ _. IKS_FILTER_PASS) h f ex_pak = Some [6, 5]"
proof -
  let ?r5 = "new_rule 7 0 [IKS_RULE_TYPE IKS_PAK_IQ]" and ?r6 = "new_rule 8 0 [IKS_RULE_ID (Some ''a'')]"
  let ?cs = "[(5, 7, 0, [IKS_RULE_TYPE IKS_PAK_IQ]), (6, 8, 0, [IKS_RULE_ID (Some ''a'')])]"
  let ?h = "[5 \<mapsto> ?r5\<lparr>nxt := Some 6\<rparr>, 6 \<mapsto> ?r6\<lparr>prv := Some 5\<rparr>]"
  have p: "prv (new_rule hook ud ts) = None" for hook ud ts
    using new_rule_body(1) [of hook ud ts] by (metis (no_types) body_def iksrule.select_convs(2) iksrule.surjective iksrule.update_convs(1,2,8))
  have "filter_is ?h \<lparr>f_rules = Some 5, last_rule = Some 6\<rparr> (map rule_at ?cs)"
    by (simp add: filter_is_def rule_at_def lst_def rlink_def new_rule_body p)
  from filter_calls_by_rank [OF this, of "\<lambda>_ _ _. IKS_FILTER_PASS" ex_pak] show ?thesis
    by (auto simp: ex_pak_def fits_def rank_def eats_def arg_holds_def weight_def same_text_iff)
qed

text \<open>
  A rule none of whose fields is set twice matches a packet when all its conditions hold; its score is then the sum of their weights, and 0
  otherwise.
\<close>

theorem rule_score_is_sum:
  assumes "distinct (map slot ts)"
  shows "rule_score pak (new_rule hook ud ts) = (if \<forall>t \<in> set ts. arg_holds pak t then sum_list (map weight ts) else 0)"
  by (rule rule_meaning [OF assms])

theorem rule_score_is_sum_witness:
  "rule_score ex_pak (new_rule 7 0 [IKS_RULE_TYPE IKS_PAK_IQ, IKS_RULE_ID (Some ''a'')]) = 17
    \<and> rule_score ex_pak (new_rule 7 0 [IKS_RULE_TYPE IKS_PAK_MESSAGE, IKS_RULE_ID (Some ''a'')]) = 0"
  using rule_score_is_sum [of "[IKS_RULE_TYPE IKS_PAK_IQ, IKS_RULE_ID (Some ''a'')]" ex_pak 7 0]
    rule_score_is_sum [of "[IKS_RULE_TYPE IKS_PAK_MESSAGE, IKS_RULE_ID (Some ''a'')]" ex_pak 7 0]
  by (simp add: ex_pak_def arg_holds_def weight_def same_text_iff)

text \<open>A condition given twice is another condition: two identifiers make a test of the type.\<close>

lemma two_ids_test_the_type:
  "rule_score pak (new_rule hook ud [IKS_RULE_ID x, IKS_RULE_ID y]) = (if pak_type pak = IKS_PAK_NONE then 1 else 0)"
proof -
  have r: "tests (new_rule hook ud [IKS_RULE_ID x, IKS_RULE_ID y]) = 2" "r_type (new_rule hook ud [IKS_RULE_ID x, IKS_RULE_ID y]) = IKS_PAK_NONE"
    by (simp_all add: new_rule_def set_arg_def)
  have "\<not> on (new_rule hook ud [IKS_RULE_ID x, IKS_RULE_ID y]) c" if "c \<in> {1, 4, 8, 16, 32}" for c
    using that by (auto simp: on_def r(1))
  moreover have "on (new_rule hook ud [IKS_RULE_ID x, IKS_RULE_ID y]) 2" by (simp add: on_def r(1))
  ultimately show ?thesis using r(2) unfolding rule_full_score full_sum by simp
qed

text \<open>A rule for both forms of the sender keeps only the later one, and asks it of both.\<close>

lemma both_senders_are_one:
  "rule_score pak (new_rule hook ud [IKS_RULE_FROM_PARTIAL x, IKS_RULE_FROM (Some y)])
    = (if same_text (Some y) (from_full pak) \<and> same_text (Some y) (from_partial pak) then 16 else 0)"
proof -
  let ?r = "new_rule hook ud [IKS_RULE_FROM_PARTIAL x, IKS_RULE_FROM (Some y)]"
  have r: "tests ?r = 24" "r_from ?r = Some y" by (simp_all add: new_rule_def set_arg_def)
  have "\<not> on ?r c" if "c \<in> {1, 2, 4, 32}" for c using that by (auto simp: on_def r(1))
  moreover have "on ?r 8" "on ?r 16" by (simp_all add: on_def r(1))
  ultimately show ?thesis unfolding rule_full_score full_sum from_holds r(2) by auto
qed

end
