(* ===== verification/IksNodes.thy ===== *)
theory IksNodes
  imports Iks IksLinks
begin

text \<open>
  The nodes of \<^verbatim>\<open>src/CuteCat/iksemel/iks.c\<close> with all their links, on a heap: inserting before and after a node,
  hiding a node, and the ways back and up.  Theory \<open>Iks\<close> has the functions that only build and read a tree
  downwards, on trees as values.  \<open>blk\<close> is the address of a new node, if the stack has memory, and \<open>room\<close>
  says whether it has for a text.
\<close>

section \<open>State\<close>

record node =
  n_next :: "addr option"
  n_prev :: "addr option"
  n_parent :: "addr option"
  n_stack :: nat
  n_type :: ikstype
  n_name :: "string option"
  n_attribs :: "(string \<times> string) list"
  n_children :: "addr option"
  n_last_child :: "addr option"
  n_cdata :: "string option"

type_synonym node_heap = "addr \<rightharpoonup> node"

text \<open>
  The fields of a tag, read or written through a cast.  A node made without a name has room for character data
  only, whatever its type says, so the cast is not allowed there.
\<close>

definition tag_fields :: "node \<Rightarrow> bool" where
  "tag_fields r \<longleftrightarrow> n_type r = IKS_TAG \<and> n_name r \<noteq> None"

definition as_tag :: "node_heap \<Rightarrow> addr option \<Rightarrow> (addr \<times> node) option" where
  "as_tag h x = do { x \<leftarrow> x; r \<leftarrow> h x; if tag_fields r then Some (x, r) else None }"

section \<open>New nodes\<close>

definition iks_new_within :: "bool \<Rightarrow> addr option \<Rightarrow> node_heap \<Rightarrow> string option \<Rightarrow> nat \<Rightarrow> node_heap \<times> addr option" where
  "iks_new_within room blk h name s =
     (case blk of
       None \<Rightarrow> (h, None)
     | Some y \<Rightarrow>
         let n = \<lparr>n_next = None, n_prev = None, n_parent = None, n_stack = s, n_type = IKS_TAG, n_name = None,
               n_attribs = [], n_children = None, n_last_child = None, n_cdata = None\<rparr> in
         if name = None then (h(y \<mapsto> n), Some y)
         else if room then (h(y \<mapsto> n\<lparr>n_name := name\<rparr>), Some y)
         else (h(y \<mapsto> n), None))"

text \<open>
  \<^verbatim>\<open>iks_new_within (NULL, x->s)\<close> made a node of character data.  The text ends with a NUL; a length beyond it reads
  outside.
\<close>

definition new_cdata :: "bool \<Rightarrow> addr option \<Rightarrow> node_heap \<Rightarrow> string \<Rightarrow> nat \<Rightarrow> nat \<Rightarrow> (node_heap \<times> addr option) option" where
  "new_cdata room blk h data len s =
     (case iks_new_within room blk h None s of
       (h, None) \<Rightarrow> Some (h, None)
     | (h, Some y) \<Rightarrow>
         let n = (the (h y))\<lparr>n_type := IKS_CDATA\<rparr> in
         if room then do { d \<leftarrow> read_at 0 len (data @ [NUL]); Some (h(y \<mapsto> n\<lparr>n_cdata := Some d\<rparr>), Some y) }
         else Some (h(y \<mapsto> n), None))"

section \<open>Inserting\<close>

definition link_child :: "node_heap \<Rightarrow> addr \<Rightarrow> addr \<Rightarrow> node_heap option" where
  "link_child h x y = do {
     n \<leftarrow> h y;
     let h = h(y \<mapsto> n\<lparr>n_parent := Some x\<rparr>);
     (x, r) \<leftarrow> as_tag h (Some x);
     let h = (if n_children r = None then h(x \<mapsto> r\<lparr>n_children := Some y\<rparr>) else h);
     r \<leftarrow> h x;
     h \<leftarrow> (case n_last_child r of
            Some l \<Rightarrow> do {
              q \<leftarrow> h l;
              let h = h(l \<mapsto> q\<lparr>n_next := Some y\<rparr>);
              n \<leftarrow> h y;
              Some (h(y \<mapsto> n\<lparr>n_prev := n_last_child r\<rparr>))
            }
          | None \<Rightarrow> Some h);
     r \<leftarrow> h x;
     Some (h(x \<mapsto> r\<lparr>n_last_child := Some y\<rparr>))
   }"

definition iks_insert_below :: "bool \<Rightarrow> addr option \<Rightarrow> node_heap \<Rightarrow> addr option \<Rightarrow> string option \<Rightarrow> (node_heap \<times> addr option) option" where
  "iks_insert_below room blk h x name =
     (case x of
       None \<Rightarrow> Some (h, None)
     | Some x \<Rightarrow> do {
         r \<leftarrow> h x;
         case iks_new_within room blk h name (n_stack r) of
           (h, None) \<Rightarrow> Some (h, None)
         | (h, Some y) \<Rightarrow> do { h \<leftarrow> link_child h x y; Some (h, Some y) }
       })"

definition link_after :: "node_heap \<Rightarrow> addr \<Rightarrow> addr \<Rightarrow> node_heap option" where
  "link_after h x y = do {
     r \<leftarrow> h x;
     h \<leftarrow> (case n_next r of
            Some z \<Rightarrow> do { q \<leftarrow> h z; Some (h(z \<mapsto> q\<lparr>n_prev := Some y\<rparr>)) }
          | None \<Rightarrow> do { (p, q) \<leftarrow> as_tag h (n_parent r); Some (h(p \<mapsto> q\<lparr>n_last_child := Some y\<rparr>)) });
     n \<leftarrow> h y;
     let h = h(y \<mapsto> n\<lparr>n_next := n_next r, n_parent := n_parent r, n_prev := Some x\<rparr>);
     r \<leftarrow> h x;
     Some (h(x \<mapsto> r\<lparr>n_next := Some y\<rparr>))
   }"

definition link_before :: "node_heap \<Rightarrow> addr \<Rightarrow> addr \<Rightarrow> node_heap option" where
  "link_before h x y = do {
     r \<leftarrow> h x;
     h \<leftarrow> (case n_prev r of
            Some z \<Rightarrow> do { q \<leftarrow> h z; Some (h(z \<mapsto> q\<lparr>n_next := Some y\<rparr>)) }
          | None \<Rightarrow> do { (p, q) \<leftarrow> as_tag h (n_parent r); Some (h(p \<mapsto> q\<lparr>n_children := Some y\<rparr>)) });
     n \<leftarrow> h y;
     let h = h(y \<mapsto> n\<lparr>n_prev := n_prev r, n_parent := n_parent r, n_next := Some x\<rparr>);
     r \<leftarrow> h x;
     Some (h(x \<mapsto> r\<lparr>n_prev := Some y\<rparr>))
   }"

text \<open>The two functions for each place differ in the node they make.\<close>

definition put_linked :: "(node_heap \<Rightarrow> addr \<Rightarrow> addr \<Rightarrow> node_heap option) \<Rightarrow> addr \<Rightarrow> node_heap \<times> addr option \<Rightarrow> (node_heap \<times> addr option) option" where
  "put_linked lnk x hy =
     (case hy of
       (h, None) \<Rightarrow> Some (h, None)
     | (h, Some y) \<Rightarrow> do { h \<leftarrow> lnk h x y; Some (h, Some y) })"

definition iks_append :: "bool \<Rightarrow> addr option \<Rightarrow> node_heap \<Rightarrow> addr option \<Rightarrow> string option \<Rightarrow> (node_heap \<times> addr option) option" where
  "iks_append room blk h x name =
     (case x of
       None \<Rightarrow> Some (h, None)
     | Some x \<Rightarrow> do { r \<leftarrow> h x; put_linked link_after x (iks_new_within room blk h name (n_stack r)) })"

definition iks_prepend :: "bool \<Rightarrow> addr option \<Rightarrow> node_heap \<Rightarrow> addr option \<Rightarrow> string option \<Rightarrow> (node_heap \<times> addr option) option" where
  "iks_prepend room blk h x name =
     (case x of
       None \<Rightarrow> Some (h, None)
     | Some x \<Rightarrow> do { r \<leftarrow> h x; put_linked link_before x (iks_new_within room blk h name (n_stack r)) })"

text \<open>A length of 0 stands for \<^verbatim>\<open>strlen\<close>.\<close>

definition iks_append_cdata ::
  "bool \<Rightarrow> addr option \<Rightarrow> node_heap \<Rightarrow> addr option \<Rightarrow> string option \<Rightarrow> nat \<Rightarrow> (node_heap \<times> addr option) option" where
  "iks_append_cdata room blk h x data len =
     (case (x, data) of
       (Some x, Some data) \<Rightarrow> do {
         let len = (if len = 0 then length data else len);
         r \<leftarrow> h x;
         hy \<leftarrow> new_cdata room blk h data len (n_stack r);
         put_linked link_after x hy
       }
     | _ \<Rightarrow> Some (h, None))"

definition iks_prepend_cdata ::
  "bool \<Rightarrow> addr option \<Rightarrow> node_heap \<Rightarrow> addr option \<Rightarrow> string option \<Rightarrow> nat \<Rightarrow> (node_heap \<times> addr option) option" where
  "iks_prepend_cdata room blk h x data len =
     (case (x, data) of
       (Some x, Some data) \<Rightarrow> do {
         let len = (if len = 0 then length data else len);
         r \<leftarrow> h x;
         hy \<leftarrow> new_cdata room blk h data len (n_stack r);
         put_linked link_before x hy
       }
     | _ \<Rightarrow> Some (h, None))"

section \<open>Hiding\<close>

definition iks_hide :: "node_heap \<Rightarrow> addr option \<Rightarrow> node_heap option" where
  "iks_hide h x =
     (case x of
       None \<Rightarrow> Some h
     | Some x \<Rightarrow> do {
         r \<leftarrow> h x;
         h \<leftarrow> (case n_prev r of Some p \<Rightarrow> do { q \<leftarrow> h p; Some (h(p \<mapsto> q\<lparr>n_next := n_next r\<rparr>)) } | None \<Rightarrow> Some h);
         r \<leftarrow> h x;
         h \<leftarrow> (case n_next r of Some n \<Rightarrow> do { q \<leftarrow> h n; Some (h(n \<mapsto> q\<lparr>n_prev := n_prev r\<rparr>)) } | None \<Rightarrow> Some h);
         r \<leftarrow> h x;
         case n_parent r of
           None \<Rightarrow> Some h
         | Some y \<Rightarrow> do {
             (y, q) \<leftarrow> as_tag h (Some y);
             let q = (if n_children q = Some x then q\<lparr>n_children := n_next r\<rparr> else q);
             let q = (if n_last_child q = Some x then q\<lparr>n_last_child := n_prev r\<rparr> else q);
             Some (h(y \<mapsto> q))
           }
       })"

section \<open>Back and up\<close>

definition iks_prev :: "node_heap \<Rightarrow> addr option \<Rightarrow> addr option option" where
  "iks_prev h x = (case x of Some x \<Rightarrow> do { r \<leftarrow> h x; Some (n_prev r) } | None \<Rightarrow> Some None)"

partial_function (option) prev_tag_from :: "node_heap \<Rightarrow> addr option \<Rightarrow> addr option option" where
  "prev_tag_from h x =
     (case x of
       None \<Rightarrow> Some None
     | Some a \<Rightarrow> do { r \<leftarrow> h a; if n_type r = IKS_TAG then Some (Some a) else prev_tag_from h (n_prev r) })"

definition iks_prev_tag :: "node_heap \<Rightarrow> addr option \<Rightarrow> addr option option" where
  "iks_prev_tag h x = (case x of Some x \<Rightarrow> do { r \<leftarrow> h x; prev_tag_from h (n_prev r) } | None \<Rightarrow> Some None)"

definition iks_parent :: "node_heap \<Rightarrow> addr option \<Rightarrow> addr option option" where
  "iks_parent h x = (case x of Some x \<Rightarrow> do { r \<leftarrow> h x; Some (n_parent r) } | None \<Rightarrow> Some None)"

partial_function (option) root_from :: "node_heap \<Rightarrow> addr \<Rightarrow> addr option" where
  "root_from h x = do { r \<leftarrow> h x; case n_parent r of Some p \<Rightarrow> root_from h p | None \<Rightarrow> Some x }"

definition iks_root :: "node_heap \<Rightarrow> addr option \<Rightarrow> addr option option" where
  "iks_root h x = (case x of Some x \<Rightarrow> map_option Some (root_from h x) | None \<Rightarrow> Some None)"

definition iks_stack :: "node_heap \<Rightarrow> addr option \<Rightarrow> nat option option" where
  "iks_stack h x = (case x of Some x \<Rightarrow> do { r \<leftarrow> h x; Some (Some (n_stack r)) } | None \<Rightarrow> Some None)"

text \<open>The stack freed, with all nodes on it.\<close>

definition iks_delete :: "node_heap \<Rightarrow> addr option \<Rightarrow> node_heap option" where
  "iks_delete h x =
     (case x of
       None \<Rightarrow> Some h
     | Some x \<Rightarrow> do { r \<leftarrow> h x; Some (\<lambda>a. case h a of Some q \<Rightarrow> if n_stack q = n_stack r then None else Some q | None \<Rightarrow> None) })"

section \<open>The children of a node\<close>

definition nlink :: "node_heap \<Rightarrow> link_map" where
  "nlink h = (\<lambda>a. map_option (\<lambda>r. (n_next r, n_prev r)) (h a))"

definition children_are :: "node_heap \<Rightarrow> addr \<Rightarrow> addr list \<Rightarrow> bool" where
  "children_are h p cs \<longleftrightarrow> p \<notin> set cs \<and> distinct cs
     \<and> (\<exists>q. h p = Some q \<and> tag_fields q \<and> seg (nlink h) None (n_children q) cs None \<and> n_last_child q = lst None cs)
     \<and> (\<forall>c \<in> set cs. \<exists>r. h c = Some r \<and> n_parent r = Some p)"

text \<open>What a node is, its links to its neighbours and children aside.\<close>

definition matter :: "node \<Rightarrow> node" where
  "matter r = r\<lparr>n_next := None, n_prev := None, n_children := None, n_last_child := None\<rparr>"

definition same_matter :: "addr set \<Rightarrow> node_heap \<Rightarrow> node_heap \<Rightarrow> bool" where
  "same_matter A h h' \<longleftrightarrow> (\<forall>b. b \<notin> A \<longrightarrow> map_option matter (h' b) = map_option matter (h b))"

lemma nlink_upd: "nlink (h(a := v)) = (nlink h)(a := map_option (\<lambda>r. (n_next r, n_prev r)) v)"
  by (auto simp: nlink_def fun_eq_iff)

lemma matter_links [simp]: "matter (r\<lparr>n_next := x\<rparr>) = matter r" "matter (r\<lparr>n_prev := x\<rparr>) = matter r"
  "matter (r\<lparr>n_children := x\<rparr>) = matter r" "matter (r\<lparr>n_last_child := x\<rparr>) = matter r"
  by (simp_all add: matter_def)

text \<open>
  A heap where nothing is different but this: behind \<open>l\<close> comes \<open>ln\<close>, before \<open>r\<close> comes \<open>rp\<close>, and where
  there is no \<open>l\<close> or no \<open>r\<close> the parent \<open>p\<close> has a new first or last child.
\<close>

definition relink :: "addr option \<Rightarrow> addr option \<Rightarrow> addr option \<Rightarrow> addr option \<Rightarrow> addr \<Rightarrow> addr \<Rightarrow> node \<Rightarrow> node" where
  "relink l r ln rp p b q =
     (let q = (if l = Some b then q\<lparr>n_next := ln\<rparr> else q);
          q = (if r = Some b then q\<lparr>n_prev := rp\<rparr> else q);
          q = (if l = None \<and> p = b then q\<lparr>n_children := ln\<rparr> else q) in
      if r = None \<and> p = b then q\<lparr>n_last_child := rp\<rparr> else q)"

definition unlinked :: "node_heap \<Rightarrow> addr \<Rightarrow> addr option \<Rightarrow> addr option \<Rightarrow> node_heap" where
  "unlinked h p l r = (\<lambda>b. map_option (relink l r r l p b) (h b))"

text \<open>The node \<open>n\<close> at \<open>y\<close>, between \<open>l\<close> and \<open>r\<close>.\<close>

definition linked :: "node_heap \<Rightarrow> addr \<Rightarrow> addr option \<Rightarrow> addr option \<Rightarrow> addr \<Rightarrow> node \<Rightarrow> node_heap" where
  "linked h p l r y n =
     (\<lambda>b. map_option (relink l r (Some y) (Some y) p b) (h b))(y \<mapsto> n\<lparr>n_next := r, n_prev := l, n_parent := Some p\<rparr>)"

lemma relink_other:
  "pred_option (\<lambda>c. b \<noteq> c) l \<Longrightarrow> pred_option (\<lambda>c. b \<noteq> c) r \<Longrightarrow> (l = None \<or> r = None \<longrightarrow> b \<noteq> p) \<Longrightarrow> map_option (relink l r ln rp p b) v = v"
  by (cases v) (auto simp: relink_def)

lemma linked_upd: "linked (h(y := v)) p l r y n = linked h p l r y n"
  by (auto simp: linked_def fun_eq_iff)

lemma new_links:
  "n\<lparr>n_next := a, n_parent := c, n_prev := b\<rparr> = n\<lparr>n_next := a, n_prev := b, n_parent := c\<rparr>"
  "n\<lparr>n_prev := b, n_parent := c, n_next := a\<rparr> = n\<lparr>n_next := a, n_prev := b, n_parent := c\<rparr>"
  "n_next n = None \<Longrightarrow> n\<lparr>n_parent := c, n_prev := b\<rparr> = n\<lparr>n_next := None, n_prev := b, n_parent := c\<rparr>"
  "n_next n = None \<Longrightarrow> n_prev n = None \<Longrightarrow> n\<lparr>n_parent := c\<rparr> = n\<lparr>n_next := None, n_prev := None, n_parent := c\<rparr>"
  by (cases n; simp)+

lemma tag_fields_links [simp]: "tag_fields (r\<lparr>n_children := x\<rparr>) = tag_fields r" "tag_fields (r\<lparr>n_last_child := x\<rparr>) = tag_fields r"
  by (simp_all add: tag_fields_def)

lemma matter_fields:
  assumes "matter r = matter r'"
  shows "n_parent r = n_parent r'" "n_type r = n_type r'" "n_stack r = n_stack r'" "n_name r = n_name r'"
    "n_cdata r = n_cdata r'" "n_attribs r = n_attribs r'"
proof -
  have "n_parent (matter q) = n_parent q" "n_type (matter q) = n_type q" "n_stack (matter q) = n_stack q" "n_name (matter q) = n_name q"
      "n_cdata (matter q) = n_cdata q" "n_attribs (matter q) = n_attribs q" for q
    by (simp_all add: matter_def)
  then show "n_parent r = n_parent r'" "n_type r = n_type r'" "n_stack r = n_stack r'" "n_name r = n_name r'"
      "n_cdata r = n_cdata r'" "n_attribs r = n_attribs r'" using assms by metis+
qed

lemma childD:
  assumes "children_are h p (xs @ x # ys)"
  shows "\<exists>r. h x = Some r \<and> n_parent r = Some p \<and> n_next r = fst_of ys \<and> n_prev r = lst None xs"
proof -
  obtain first where "seg (nlink h) None first (xs @ x # ys) None" using assms by (auto simp: children_are_def)
  from seg_middle(1) [OF this] show ?thesis using assms by (auto simp: nlink_def children_are_def)
qed

lemma children_frame:
  assumes "children_are h p cs" and "y \<notin> set cs" and "y \<noteq> p"
  shows "children_are (h(y := v)) p cs"
  using assms by (auto simp: children_are_def nlink_upd seg_frame)

lemma insert_children:
  assumes c: "children_are h p (as @ bs)" and y: "y \<notin> set (as @ bs)" "y \<noteq> p"
    and L: "\<And>b. b \<noteq> y \<Longrightarrow> nlink h' b = link_prev (fst_of bs) (Some y) (link_next (lst None as) (Some y) (nlink h)) b"
    and Y: "h' y = Some m" "n_next m = fst_of bs" "n_prev m = lst None as" "n_parent m = Some p"
    and P: "h p = Some q" "h' p = Some q'" "n_children q' = (if as = [] then Some y else n_children q)"
      "n_last_child q' = (if bs = [] then Some y else n_last_child q)"
    and M: "same_matter {y} h h'"
  shows "children_are h' p (as @ y # bs)"
proof -
  have h: "p \<notin> set (as @ bs)" "distinct (as @ bs)" "tag_fields q" "seg (nlink h) None (n_children q) (as @ bs) None"
      "n_last_child q = lst None (as @ bs)" "\<forall>c \<in> set (as @ bs). \<exists>r. h c = Some r \<and> n_parent r = Some p"
    using c P(1) by (simp_all add: children_are_def)
  have "nlink h' y = Some (fst_of bs, lst None as)" using Y(1-3) by (simp add: nlink_def)
  then have "seg (nlink h') None (if as = [] then Some y else n_children q) (as @ y # bs) None"
    by (intro seg_insert [OF h(2,4) y(1)] L)
  then have s: "seg (nlink h') None (n_children q') (as @ y # bs) None" by (simp only: P(3))
  have "map_option matter (h' p) = map_option matter (h p)" using M y(2) by (simp add: same_matter_def)
  then have "matter q' = matter q" using P(1,2) by simp
  then have "tag_fields q'" using h(3) matter_fields(2,4) [of q' q] by (simp add: tag_fields_def)
  moreover have "n_last_child q' = lst None (as @ y # bs)" using P(4) h(5) by (simp add: lst_def)
  moreover have "\<exists>r. h' b = Some r \<and> n_parent r = Some p" if "b \<in> set (as @ y # bs)" for b
  proof (cases "b = y")
    case False
    then have b: "b \<in> set (as @ bs)" using that by auto
    have "map_option matter (h' b) = map_option matter (h b)" using M False by (simp add: same_matter_def)
    moreover obtain r where "h b = Some r" "n_parent r = Some p" using h(6) b by blast
    ultimately obtain r' where "h' b = Some r'" "matter r' = matter r" by auto
    then show ?thesis using matter_fields(1) [OF \<open>matter r' = matter r\<close>] \<open>n_parent r = Some p\<close> by simp
  qed (use Y in simp)
  ultimately show ?thesis using s P(2) h(1,2) y unfolding children_are_def by auto
qed

lemma link_after_children:
  assumes c: "children_are h p (xs @ x # ys)" and y: "y \<notin> set (xs @ x # ys)" "y \<noteq> p" "h y = Some n"
  shows "link_after h x y = Some (linked h p (Some x) (fst_of ys) y n) \<and> children_are (linked h p (Some x) (fst_of ys) y n) p (xs @ x # y # ys)"
proof -
  obtain r where r: "h x = Some r" "n_parent r = Some p" "n_next r = fst_of ys" using childD [OF c] by blast
  obtain q where q: "h p = Some q" "tag_fields q" using c by (auto simp: children_are_def)
  have d: "x \<noteq> y" "x \<noteq> p" "x \<notin> set ys" "p \<notin> set ys" "y \<notin> set ys" using c y by (auto simp: children_are_def)
  let ?n = "n\<lparr>n_next := fst_of ys, n_parent := Some p, n_prev := Some x\<rparr>"
  have c': "children_are h p ((xs @ [x]) @ ys)" "y \<notin> set ((xs @ [x]) @ ys)" using c y(1) by auto
  show ?thesis
  proof (cases ys)
    case Nil
    let ?h = "h(p \<mapsto> q\<lparr>n_last_child := Some y\<rparr>, y \<mapsto> ?n, x \<mapsto> r\<lparr>n_next := Some y\<rparr>)"
    have "link_after h x y = Some ?h" using r q d y Nil by (simp add: link_after_def as_tag_def fst_of_def)
    moreover have M: "same_matter {y} h ?h" using r q by (auto simp: same_matter_def)
    moreover have "children_are ?h p ((xs @ [x]) @ y # ys)"
    proof (rule insert_children [OF c' y(2) _ _ _ _ _ q(1) _ _ _ M, where m = ?n and q' = "q\<lparr>n_last_child := Some y\<rparr>"])
      show "nlink ?h b = link_prev (fst_of ys) (Some y) (link_next (lst None (xs @ [x])) (Some y) (nlink h)) b" if "b \<noteq> y" for b
        using that r q Nil d by (auto simp: nlink_def link_prev_def link_next_def lst_def fst_of_def)
    qed (use d Nil y in \<open>simp_all add: lst_def\<close>)
    moreover have "?h = linked h p (Some x) (fst_of ys) y n"
      by (use r q d y Nil in \<open>auto simp: linked_def relink_def relink_other new_links(1,2) fst_of_def lst_def fun_eq_iff\<close>)
    ultimately show ?thesis by simp
  next
    case (Cons z zs)
    then obtain w where w: "h z = Some w" using c by (auto simp: children_are_def)
    have dz: "z \<noteq> x" "z \<noteq> y" "z \<noteq> p" using d Cons by auto
    let ?h = "h(z \<mapsto> w\<lparr>n_prev := Some y\<rparr>, y \<mapsto> ?n, x \<mapsto> r\<lparr>n_next := Some y\<rparr>)"
    have "link_after h x y = Some ?h" using r w d dz y Cons by (simp add: link_after_def fst_of_def)
    moreover have M: "same_matter {y} h ?h" using r w by (auto simp: same_matter_def)
    moreover have "children_are ?h p ((xs @ [x]) @ y # ys)"
    proof (rule insert_children [OF c' y(2) _ _ _ _ _ q(1) _ _ _ M, where m = ?n and q' = "q"])
      show "nlink ?h b = link_prev (fst_of ys) (Some y) (link_next (lst None (xs @ [x])) (Some y) (nlink h)) b" if "b \<noteq> y" for b
        using that r w Cons d dz by (auto simp: nlink_def link_prev_def link_next_def lst_def fst_of_def)
    qed (use d dz q Cons y in \<open>simp_all add: lst_def\<close>)
    moreover have "?h = linked h p (Some x) (fst_of ys) y n"
    proof
      fix b
      show "?h b = linked h p (Some x) (fst_of ys) y n b"
        by (cases "b = y"; cases "b = z"; cases "b = x")
          (use r w d(1) dz Cons in \<open>simp_all add: linked_def relink_def relink_other new_links(1) fst_of_def\<close>)
    qed
    ultimately show ?thesis by simp
  qed
qed

lemma link_before_children:
  assumes c: "children_are h p (xs @ x # ys)" and y: "y \<notin> set (xs @ x # ys)" "y \<noteq> p" "h y = Some n"
  shows "link_before h x y = Some (linked h p (lst None xs) (Some x) y n) \<and> children_are (linked h p (lst None xs) (Some x) y n) p (xs @ y # x # ys)"
proof -
  obtain r where r: "h x = Some r" "n_parent r = Some p" "n_prev r = lst None xs" using childD [OF c] by blast
  obtain q where q: "h p = Some q" "tag_fields q" using c by (auto simp: children_are_def)
  have d: "x \<noteq> y" "x \<noteq> p" "x \<notin> set xs" "p \<notin> set xs" "y \<notin> set xs" using c y by (auto simp: children_are_def)
  let ?n = "n\<lparr>n_prev := lst None xs, n_parent := Some p, n_next := Some x\<rparr>"
  show ?thesis
  proof (cases xs rule: rev_cases)
    case Nil
    let ?h = "h(p \<mapsto> q\<lparr>n_children := Some y\<rparr>, y \<mapsto> ?n, x \<mapsto> r\<lparr>n_prev := Some y\<rparr>)"
    have "link_before h x y = Some ?h" using r q d y Nil by (simp add: link_before_def as_tag_def lst_def)
    moreover have M: "same_matter {y} h ?h" using r q by (auto simp: same_matter_def)
    moreover have "children_are ?h p (xs @ y # x # ys)"
    proof (rule insert_children [OF c y(1,2) _ _ _ _ _ q(1) _ _ _ M, where m = ?n and q' = "q\<lparr>n_children := Some y\<rparr>"])
      show "nlink ?h b = link_prev (fst_of (x # ys)) (Some y) (link_next (lst None xs) (Some y) (nlink h)) b" if "b \<noteq> y" for b
        using that r q Nil d by (auto simp: nlink_def link_prev_def link_next_def lst_def fst_of_def)
    qed (use d Nil y in \<open>simp_all add: lst_def fst_of_def\<close>)
    moreover have "?h = linked h p (lst None xs) (Some x) y n"
      by (use r q d y Nil in \<open>auto simp: linked_def relink_def relink_other new_links(1,2) fst_of_def lst_def fun_eq_iff\<close>)
    ultimately show ?thesis by simp
  next
    case (snoc ws z)
    then obtain w where w: "h z = Some w" using c by (auto simp: children_are_def)
    have dz: "z \<noteq> x" "z \<noteq> y" "z \<noteq> p" using d snoc by auto
    let ?h = "h(z \<mapsto> w\<lparr>n_next := Some y\<rparr>, y \<mapsto> ?n, x \<mapsto> r\<lparr>n_prev := Some y\<rparr>)"
    have "link_before h x y = Some ?h" using r w d dz y snoc by (simp add: link_before_def lst_def)
    moreover have M: "same_matter {y} h ?h" using r w by (auto simp: same_matter_def)
    moreover have "children_are ?h p (xs @ y # x # ys)"
    proof (rule insert_children [OF c y(1,2) _ _ _ _ _ q(1) _ _ _ M, where m = ?n and q' = "q"])
      show "nlink ?h b = link_prev (fst_of (x # ys)) (Some y) (link_next (lst None xs) (Some y) (nlink h)) b" if "b \<noteq> y" for b
        using that r w snoc d dz by (auto simp: nlink_def link_prev_def link_next_def lst_def fst_of_def)
    qed (use d dz q snoc y in \<open>simp_all add: lst_def fst_of_def\<close>)
    moreover have "?h = linked h p (lst None xs) (Some x) y n"
    proof
      fix b
      show "?h b = linked h p (lst None xs) (Some x) y n b"
        by (cases "b = y"; cases "b = z"; cases "b = x")
          (use r w d(1) dz snoc in \<open>simp_all add: linked_def relink_def relink_other new_links(2) lst_def\<close>)
    qed
    ultimately show ?thesis by simp
  qed
qed

lemma link_child_children:
  assumes c: "children_are h p cs" and y: "y \<notin> set cs" "y \<noteq> p" "h y = Some n" "n_next n = None" "n_prev n = None"
  shows "link_child h p y = Some (linked h p (lst None cs) None y n) \<and> children_are (linked h p (lst None cs) None y n) p (cs @ [y])"
proof -
  obtain q where q: "h p = Some q" "tag_fields q" "n_children q = fst_of cs" "n_last_child q = lst None cs"
    using c seg_first by (auto simp: children_are_def)
  let ?n = "n\<lparr>n_parent := Some p, n_prev := lst None cs\<rparr>"
  have c': "children_are h p (cs @ [])" "y \<notin> set (cs @ [])" using c y(1) by auto
  show ?thesis
  proof (cases cs rule: rev_cases)
    case Nil
    let ?q = "q\<lparr>n_children := Some y, n_last_child := Some y\<rparr>"
    let ?h = "h(y \<mapsto> n\<lparr>n_parent := Some p\<rparr>, p \<mapsto> ?q)"
    have "link_child h p y = Some ?h" using q y Nil by (simp add: link_child_def as_tag_def fst_of_def lst_def)
    moreover have M: "same_matter {y} h ?h" using q by (auto simp: same_matter_def)
    moreover have "children_are ?h p (cs @ y # [])"
    proof (rule insert_children [OF c' y(2) _ _ _ _ _ q(1) _ _ _ M, where m = "n\<lparr>n_parent := Some p\<rparr>" and q' = ?q])
      show "nlink ?h b = link_prev (fst_of []) (Some y) (link_next (lst None cs) (Some y) (nlink h)) b" if "b \<noteq> y" for b
        using that q Nil by (auto simp: nlink_def link_prev_def link_next_def lst_def fst_of_def)
    qed (use Nil y in \<open>simp_all add: lst_def fst_of_def\<close>)
    moreover have "?h = linked h p (lst None cs) None y n"
      by (use q y(1,2) Nil new_links(4) [OF y(4,5), of "Some p"] in \<open>auto simp: linked_def relink_def relink_other fst_of_def lst_def fun_eq_iff\<close>)
    ultimately show ?thesis by simp
  next
    case (snoc ws z)
    then obtain w where w: "h z = Some w" using c by (auto simp: children_are_def)
    have dz: "z \<noteq> y" "z \<noteq> p" "p \<notin> set cs" using c y snoc by (auto simp: children_are_def)
    have ne: "n_children q \<noteq> None" "n_last_child q = Some z" using q(3,4) snoc by (auto simp: fst_of_def lst_def split: list.split)
    let ?q = "q\<lparr>n_last_child := Some y\<rparr>"
    let ?h = "h(z \<mapsto> w\<lparr>n_next := Some y\<rparr>, y \<mapsto> ?n, p \<mapsto> ?q)"
    have "link_child h p y = Some ?h" using q w y dz ne snoc by (auto simp: link_child_def as_tag_def lst_def fun_upd_twist)
    moreover have M: "same_matter {y} h ?h" using q w by (auto simp: same_matter_def)
    moreover have "children_are ?h p (cs @ y # [])"
    proof (rule insert_children [OF c' y(2) _ _ _ _ _ q(1) _ _ _ M, where m = ?n and q' = ?q])
      show "nlink ?h b = link_prev (fst_of []) (Some y) (link_next (lst None cs) (Some y) (nlink h)) b" if "b \<noteq> y" for b
        using that q w snoc dz by (auto simp: nlink_def link_prev_def link_next_def lst_def fst_of_def)
    qed (use snoc y dz in \<open>simp_all add: lst_def fst_of_def\<close>)
    moreover have "?h = linked h p (lst None cs) None y n"
    proof
      fix b
      have l: "lst None cs = Some z" by (simp add: lst_def snoc)
      have n: "?n = n\<lparr>n_next := None, n_prev := Some z, n_parent := Some p\<rparr>" by (simp add: l new_links(3) [OF y(4)])
      show "?h b = linked h p (lst None cs) None y n b"
        by (cases "b = y"; cases "b = z"; cases "b = p")
          (use q(1) w y(2) dz n in \<open>simp_all add: linked_def relink_def relink_other l\<close>)
    qed
    ultimately show ?thesis by simp
  qed
qed

lemma hide_children:
  assumes c: "children_are h p (xs @ x # ys)"
  shows "iks_hide h (Some x) = Some (unlinked h p (lst None xs) (fst_of ys)) \<and> children_are (unlinked h p (lst None xs) (fst_of ys)) p (xs @ ys)"
proof -
  obtain r where r: "h x = Some r" "n_parent r = Some p" "n_next r = fst_of ys" "n_prev r = lst None xs" using childD [OF c] by blast
  obtain q where q: "h p = Some q" "tag_fields q" "seg (nlink h) None (n_children q) (xs @ x # ys) None"
      "n_last_child q = lst None (xs @ x # ys)" using c by (auto simp: children_are_def)
  have d: "distinct (xs @ x # ys)" "p \<notin> set (xs @ x # ys)" "\<forall>c \<in> set (xs @ x # ys). \<exists>r. h c = Some r \<and> n_parent r = Some p"
    using c by (simp_all add: children_are_def)
  have known: "\<exists>w. h b = Some w" if "b \<in> set (xs @ x # ys)" for b using d(3) that by blast
  define h1 where "h1 = (case n_prev r of Some b \<Rightarrow> h(b \<mapsto> (the (h b))\<lparr>n_next := n_next r\<rparr>) | None \<Rightarrow> h)"
  define h2 where "h2 = (case n_next r of Some b \<Rightarrow> h1(b \<mapsto> (the (h1 b))\<lparr>n_prev := n_prev r\<rparr>) | None \<Rightarrow> h1)"
  have p1: "\<exists>w. h b = Some w \<and> b \<noteq> x \<and> b \<noteq> p" if "n_prev r = Some b" for b
  proof -
    have "b \<in> set xs" using that r(4) by (intro lst_in) simp
    then show ?thesis using known [of b] d by auto
  qed
  have n1: "\<exists>w. h b = Some w \<and> b \<noteq> x \<and> b \<noteq> p" if "n_next r = Some b" for b
  proof -
    have "b \<in> set ys" using that r(3) by (intro fst_of_in) simp
    then show ?thesis using known [of b] d by auto
  qed
  have s1: "(case n_prev r of Some p \<Rightarrow> do { q \<leftarrow> h p; Some (h(p \<mapsto> q\<lparr>n_next := n_next r\<rparr>)) } | None \<Rightarrow> Some h) = Some h1"
      "h1 x = Some r" "h1 p = Some q" "nlink h1 = link_next (n_prev r) (n_next r) (nlink h)" "same_matter {} h h1"
    using p1 r(1) q(1) by (auto simp: h1_def link_next_def nlink_def fun_eq_iff same_matter_def split: option.split)
  have n2: "\<exists>w. h1 b = Some w \<and> b \<noteq> x \<and> b \<noteq> p" if "n_next r = Some b" for b
    using n1 [OF that] p1 by (auto simp: h1_def split: option.split)
  have s2: "(case n_next r of Some n \<Rightarrow> do { q \<leftarrow> h1 n; Some (h1(n \<mapsto> q\<lparr>n_prev := n_prev r\<rparr>)) } | None \<Rightarrow> Some h1) = Some h2"
      "h2 x = Some r" "h2 p = Some q" "nlink h2 = link_prev (n_next r) (n_prev r) (nlink h1)" "same_matter {} h1 h2"
    using n2 s1(2,3) by (auto simp: h2_def link_prev_def nlink_def fun_eq_iff same_matter_def split: option.split)
  let ?q1 = "if n_children q = Some x then q\<lparr>n_children := n_next r\<rparr> else q"
  let ?q2 = "if n_last_child ?q1 = Some x then ?q1\<lparr>n_last_child := n_prev r\<rparr> else ?q1"
  let ?h = "h2(p \<mapsto> ?q2)"
  have run: "iks_hide h (Some x) = Some ?h"
    using r(1,2) s1(1,2) s2(1,2,3) q(2) by (simp add: iks_hide_def as_tag_def)
  have M: "same_matter {} h ?h" using s1(3,5) s2(3,5) q(1) by (auto simp: same_matter_def)
  have ch: "n_children ?q2 = (if xs = [] then fst_of ys else n_children q)"
    using seg_first [OF q(3)] d(1) r(3) by (cases xs) (auto simp: fst_of_def)
  have la: "n_last_child ?q2 = lst None (xs @ ys)"
    using q(4) r(4) d(1) by (cases ys rule: rev_cases) (auto simp: lst_def)
  have "nlink ?h = nlink h2" using s2(3) by (auto simp: nlink_def fun_eq_iff)
  then have "nlink ?h = link_prev (fst_of ys) (lst None xs) (link_next (lst None xs) (fst_of ys) (nlink h))"
    by (simp only: s2(4) s1(4) r(3,4))
  then have s: "seg (nlink ?h) None (n_children ?q2) (xs @ ys) None" using seg_unlink [OF d(1) q(3)] by (simp only: ch)
  have "\<exists>w. ?h b = Some w \<and> n_parent w = Some p" if "b \<in> set (xs @ ys)" for b
  proof -
    have "b \<in> set (xs @ x # ys)" using that by auto
    then obtain w where w: "h b = Some w" "n_parent w = Some p" using d(3) by blast
    have "map_option matter (?h b) = map_option matter (h b)" using M by (simp only: same_matter_def) blast
    then obtain w' where w': "?h b = Some w'" "matter w' = matter w" using w(1) by (cases "?h b") (auto simp del: fun_upd_apply)
    then show ?thesis using matter_fields(1) [OF w'(2)] w(2) by simp
  qed
  moreover have "tag_fields ?q2" using q(2) by simp
  ultimately have "children_are ?h p (xs @ ys)" using s la d(1,2) unfolding children_are_def by (auto simp del: fun_upd_apply simp: fun_upd_same)
  moreover have "?h = unlinked h p (lst None xs) (fst_of ys)"
  proof
    fix b
    show "?h b = unlinked h p (lst None xs) (fst_of ys) b"
    proof (cases "b = p")
      case True
      have "n_children q = Some x \<longleftrightarrow> xs = []" using seg_first [OF q(3)] d(1) by (cases xs) (auto simp: fst_of_def)
      moreover have "n_last_child q = Some x \<longleftrightarrow> ys = []" using q(4) d(1) by (cases ys rule: rev_cases) (auto simp: lst_def)
      moreover have "lst None xs \<noteq> Some p" "fst_of ys \<noteq> Some p" using d(2) lst_in [of xs p] fst_of_in [of ys p] by auto
      moreover have "lst None xs = None \<longleftrightarrow> xs = []" "fst_of ys = None \<longleftrightarrow> ys = []" by (cases xs, simp_all add: lst_def) (cases ys, simp_all add: fst_of_def)
      ultimately show ?thesis using True q(1) r(3,4) by (simp add: unlinked_def relink_def)
    next
      case False
      have "h1 b = (if n_prev r = Some b then map_option (\<lambda>w. w\<lparr>n_next := n_next r\<rparr>) (h b) else h b)"
        using p1 [of b] by (auto simp: h1_def split: option.split)
      moreover have "h2 b = (if n_next r = Some b then map_option (\<lambda>w. w\<lparr>n_prev := n_prev r\<rparr>) (h1 b) else h1 b)"
        using n2 [of b] by (auto simp: h2_def split: option.split)
      ultimately show ?thesis using False r(3,4) by (cases "h b") (simp_all add: unlinked_def relink_def)
    qed
  qed
  ultimately show ?thesis using run by simp
qed

section \<open>The operations\<close>

text \<open>A new node.\<close>

definition fresh_node :: "nat \<Rightarrow> ikstype \<Rightarrow> string option \<Rightarrow> string option \<Rightarrow> node" where
  "fresh_node s ty name cd = \<lparr>n_next = None, n_prev = None, n_parent = None, n_stack = s, n_type = ty, n_name = name,
     n_attribs = [], n_children = None, n_last_child = None, n_cdata = cd\<rparr>"

abbreviation "fresh_tag s name \<equiv> fresh_node s IKS_TAG name None"
abbreviation "fresh_text s d \<equiv> fresh_node s IKS_CDATA None (Some d)"

lemma new_within_made: "iks_new_within True (Some y) h name s = (h(y \<mapsto> fresh_tag s name), Some y)"
  by (simp add: iks_new_within_def fresh_node_def Let_def)

lemma new_cdata_made:
  "len \<le> length data \<Longrightarrow> new_cdata True (Some y) h data len s = Some (h(y \<mapsto> fresh_text s (take len data)), Some y)"
  by (simp add: new_cdata_def new_within_made read_at_def Let_def) (simp add: fresh_node_def)

lemma fresh_child:
  assumes "children_are h p cs" and "h y = None"
  shows "y \<notin> set cs" "y \<noteq> p" "children_are (h(y \<mapsto> n)) p cs"
proof -
  show y: "y \<notin> set cs" "y \<noteq> p" using assms by (auto simp: children_are_def)
  then show "children_are (h(y \<mapsto> n)) p cs" using children_frame [OF assms(1)] by blast
qed

text \<open>What comes of a call that makes a node: the node is between \<open>l\<close> and \<open>r\<close>, and nothing else is different.\<close>

definition made :: "node_heap \<Rightarrow> addr \<Rightarrow> addr list \<Rightarrow> addr option \<Rightarrow> addr option \<Rightarrow> addr \<Rightarrow> node \<Rightarrow> (node_heap \<times> addr option) option \<Rightarrow> bool" where
  "made h p cs l r y n res \<longleftrightarrow> res = Some (linked h p l r y n, Some y) \<and> children_are (linked h p l r y n) p cs"

lemma made_after:
  assumes "children_are h p (xs @ x # ys)" and "h y = None"
  shows "made h p (xs @ x # y # ys) (Some x) (fst_of ys) y n (put_linked link_after x (h(y \<mapsto> n), Some y))"
proof -
  note f = fresh_child [OF assms]
  show ?thesis using link_after_children [OF f(3) [of n] f(1,2), of n] by (simp add: made_def put_linked_def linked_upd)
qed

lemma made_before:
  assumes "children_are h p (xs @ x # ys)" and "h y = None"
  shows "made h p (xs @ y # x # ys) (lst None xs) (Some x) y n (put_linked link_before x (h(y \<mapsto> n), Some y))"
proof -
  note f = fresh_child [OF assms]
  show ?thesis using link_before_children [OF f(3) [of n] f(1,2), of n] by (simp add: made_def put_linked_def linked_upd)
qed

lemma made_below:
  assumes "children_are h p cs" and "h y = None"
  shows "made h p (cs @ [y]) (lst None cs) None y (fresh_tag (n_stack (the (h p))) name) (iks_insert_below True (Some y) h (Some p) name)"
proof -
  obtain r where r: "h p = Some r" using assms(1) by (auto simp: children_are_def)
  let ?n = "fresh_tag (n_stack r) name"
  note f = fresh_child [OF assms]
  have "n_next ?n = None" "n_prev ?n = None" by (simp_all add: fresh_node_def)
  then show ?thesis using link_child_children [OF f(3) [of ?n] f(1,2), of ?n] r
    by (simp add: made_def iks_insert_below_def new_within_made linked_upd)
qed

text \<open>
  C19.  On the list of the children of a parent, appending and prepending put a new tag, or a new text, right after
  and right before the node they are given, a new child comes last, and hiding takes the node out.  The whole heap
  is given: the links between the node and its neighbours and, at an end of the list, the first or last child of the
  parent are the only fields of old nodes that change; the new one has the name, or the first bytes of the text
  (all of it for the length 0; a length beyond the text is excluded), and the memory stack of its neighbour.
\<close>

lemma siblings_change_as_lists:
  assumes "children_are h p (xs @ x # ys)" and "h y = None" and "len \<le> length data"
    and "s = n_stack (the (h x))" and "text = take (if len = 0 then length data else len) data"
  shows "made h p (xs @ x # y # ys) (Some x) (fst_of ys) y (fresh_tag s name) (iks_append True (Some y) h (Some x) name)
    \<and> made h p (xs @ y # x # ys) (lst None xs) (Some x) y (fresh_tag s name) (iks_prepend True (Some y) h (Some x) name)
    \<and> made h p (xs @ x # y # ys) (Some x) (fst_of ys) y (fresh_text s text) (iks_append_cdata True (Some y) h (Some x) (Some data) len)
    \<and> made h p (xs @ y # x # ys) (lst None xs) (Some x) y (fresh_text s text) (iks_prepend_cdata True (Some y) h (Some x) (Some data) len)
    \<and> made h p (xs @ x # ys @ [y]) (lst None (xs @ x # ys)) None y (fresh_tag (n_stack (the (h p))) name)
        (iks_insert_below True (Some y) h (Some p) name)
    \<and> iks_hide h (Some x) = Some (unlinked h p (lst None xs) (fst_of ys))
    \<and> children_are (unlinked h p (lst None xs) (fst_of ys)) p (xs @ ys)"
proof -
  obtain r where r: "h x = Some r" using childD [OF assms(1)] by blast
  let ?len = "if len = 0 then length data else len"
  have m: "new_cdata True (Some y) h data ?len (n_stack r) = Some (h(y \<mapsto> fresh_text s text), Some y)"
    using new_cdata_made [of ?len data y h "n_stack r"] assms(3-5) r by simp
  have "iks_append True (Some y) h (Some x) name = put_linked link_after x (h(y \<mapsto> fresh_tag s name), Some y)"
      "iks_prepend True (Some y) h (Some x) name = put_linked link_before x (h(y \<mapsto> fresh_tag s name), Some y)"
      "iks_append_cdata True (Some y) h (Some x) (Some data) len = put_linked link_after x (h(y \<mapsto> fresh_text s text), Some y)"
      "iks_prepend_cdata True (Some y) h (Some x) (Some data) len = put_linked link_before x (h(y \<mapsto> fresh_text s text), Some y)"
    using r m assms(4)
    by (simp_all add: iks_append_def iks_prepend_def iks_append_cdata_def iks_prepend_cdata_def new_within_made Let_def)
  then show ?thesis
    using made_after [OF assms(1,2)] made_before [OF assms(1,2)] made_below [OF assms(1,2)] hide_children [OF assms(1)] by simp
qed

text \<open>A root has no list to be in: the code takes the fields of its parent, which is a null pointer.\<close>

lemma no_sibling_of_a_root:
  assumes "h x = Some r" and "n_parent r = None" and "n_next r = None" and "n_prev r = None" and "x \<noteq> y"
  shows "iks_append True (Some y) h (Some x) name = None" "iks_prepend True (Some y) h (Some x) name = None"
proof -
  note n = new_within_made [of y h name "n_stack r"]
  show "iks_append True (Some y) h (Some x) name = None" "iks_prepend True (Some y) h (Some x) name = None"
    using n assms by (simp_all add: iks_append_def iks_prepend_def put_linked_def link_after_def link_before_def as_tag_def)
qed

text \<open>Back and up.\<close>

definition is_tag_at :: "node_heap \<Rightarrow> addr \<Rightarrow> bool" where
  "is_tag_at h a \<longleftrightarrow> n_type (the (h a)) = IKS_TAG"

lemma prev_tag_from_list:
  assumes "seg (nlink h) None p (xs @ ys) None"
  shows "prev_tag_from h (lst None xs) = Some (lst None (filter (is_tag_at h) xs))"
  using assms
proof (induction xs arbitrary: ys rule: rev_induct)
  case Nil
  then show ?case by (simp add: lst_def prev_tag_from.simps)
next
  case (snoc a xs)
  then have s: "seg (nlink h) None p (xs @ a # ys) None" by simp
  then obtain r where r: "h a = Some r" "n_prev r = lst None xs" using seg_middle(1) [OF s] by (auto simp: nlink_def)
  then show ?case using snoc.IH [OF s] by (simp add: lst_def prev_tag_from.simps is_tag_at_def)
qed

lemma ways_back:
  assumes "children_are h p (xs @ x # ys)"
  shows "iks_prev h (Some x) = Some (lst None xs)"
    and "iks_prev_tag h (Some x) = Some (lst None (filter (is_tag_at h) xs))"
    and "iks_parent h (Some x) = Some (Some p)"
    and "iks_root h (Some x) = iks_root h (Some p)"
proof -
  obtain r where r: "h x = Some r" "n_parent r = Some p" "n_prev r = lst None xs" using childD [OF assms] by blast
  obtain first where "seg (nlink h) None first (xs @ x # ys) None" using assms by (auto simp: children_are_def)
  then have "prev_tag_from h (lst None xs) = Some (lst None (filter (is_tag_at h) xs))" by (rule prev_tag_from_list)
  then show "iks_prev h (Some x) = Some (lst None xs)" "iks_prev_tag h (Some x) = Some (lst None (filter (is_tag_at h) xs))"
      "iks_parent h (Some x) = Some (Some p)" "iks_root h (Some x) = iks_root h (Some p)"
    using r by (simp_all add: iks_prev_def iks_prev_tag_def iks_parent_def iks_root_def root_from.simps [of h x])
qed

inductive upward :: "node_heap \<Rightarrow> addr \<Rightarrow> addr \<Rightarrow> bool" for h where
  top: "h x = Some r \<Longrightarrow> n_parent r = None \<Longrightarrow> upward h x x"
| up: "h x = Some r \<Longrightarrow> n_parent r = Some p \<Longrightarrow> upward h p a \<Longrightarrow> upward h x a"

lemma upward_step:
  "h x = Some r \<Longrightarrow> (n_parent r = None \<Longrightarrow> x = a) \<Longrightarrow> (\<And>p. n_parent r = Some p \<Longrightarrow> upward h p a) \<Longrightarrow> upward h x a"
  by (cases "n_parent r") (auto intro: upward.intros)

lemma root_from_upward:
  assumes "root_from h x = Some a"
  shows "upward h x a"
  by (rule root_from.raw_induct [where P = upward and xa = "(h, x)" and y = a, simplified, OF _ assms])
    (simp add: bind_eq_Some_conv, elim exE conjE, rule upward_step, assumption, simp_all)

lemma root_is_upward: "iks_root h (Some x) = Some (Some a) \<longleftrightarrow> upward h x a"
proof
  assume "upward h x a"
  then show "iks_root h (Some x) = Some (Some a)"
    by induction (simp_all add: iks_root_def root_from.simps)
qed (auto simp: iks_root_def intro: root_from_upward)


text \<open>Without memory for the node or its text the call returns NULL and the tree is what it was.\<close>

lemma no_memory_no_sibling:
  assumes "children_are h p (xs @ x # ys)" and "h y = None"
  shows "\<exists>h'. iks_append False (Some y) h (Some x) (Some name) = Some (h', None) \<and> children_are h' p (xs @ x # ys)"
    and "\<exists>h'. iks_append_cdata False (Some y) h (Some x) (Some data) len = Some (h', None) \<and> children_are h' p (xs @ x # ys)"
    and "iks_append room None h (Some x) name' = Some (h, None)"
    and "iks_append_cdata room None h (Some x) (Some data) len = Some (h, None)"
proof -
  obtain r where r: "h x = Some r" using childD [OF assms(1)] by blast
  note f = fresh_child(3) [OF assms]
  show "\<exists>h'. iks_append False (Some y) h (Some x) (Some name) = Some (h', None) \<and> children_are h' p (xs @ x # ys)"
    using r f by (simp add: iks_append_def iks_new_within_def put_linked_def Let_def)
  show "\<exists>h'. iks_append_cdata False (Some y) h (Some x) (Some data) len = Some (h', None) \<and> children_are h' p (xs @ x # ys)"
    using r f by (simp add: iks_append_cdata_def new_cdata_def iks_new_within_def put_linked_def Let_def)
  show "iks_append room None h (Some x) name' = Some (h, None)"
      "iks_append_cdata room None h (Some x) (Some data) len = Some (h, None)"
    using r by (simp_all add: iks_append_def iks_append_cdata_def new_cdata_def iks_new_within_def put_linked_def Let_def)
qed

section \<open>A tree with one child\<close>

definition small_tree :: node_heap where
  "small_tree =
     (let n = \<lparr>n_next = None, n_prev = None, n_parent = None, n_stack = 0, n_type = IKS_TAG, n_name = Some ''a'', n_attribs = [],
           n_children = None, n_last_child = None, n_cdata = None\<rparr> in
      [1 \<mapsto> n\<lparr>n_children := Some 2, n_last_child := Some 2\<rparr>, 2 \<mapsto> n\<lparr>n_parent := Some 1\<rparr>])"

lemma small_tree_children: "children_are small_tree 1 [2]" "small_tree 5 = None"
  by (simp_all add: children_are_def small_tree_def Let_def tag_fields_def nlink_def lst_def)

lemma siblings_change_as_lists_witness:
  "made small_tree 1 [2, 5] (Some 2) None 5 (fresh_tag 0 (Some ''b'')) (iks_append True (Some 5) small_tree (Some 2) (Some ''b''))
    \<and> made small_tree 1 [5, 2] None (Some 2) 5 (fresh_text 0 ''te'') (iks_prepend_cdata True (Some 5) small_tree (Some 2) (Some ''text'') 2)"
proof -
  have s: "0 = n_stack (the (small_tree 2))" by (simp add: small_tree_def Let_def)
  show ?thesis
    using siblings_change_as_lists [of small_tree 1 "[]" 2 "[]" 5 2 "''text''" 0 "''te''" "Some ''b''", unfolded append.simps, OF small_tree_children _ s]
    by (simp add: lst_def fst_of_def)
qed

end
