(* ===== verification/IksCopy.thy ===== *)
theory IksCopy
  imports IksHooks
begin

text \<open>
  Copying a tree: \<^verbatim>\<open>iks_copy_within\<close> and \<^verbatim>\<open>iks_copy\<close> of \<^verbatim>\<open>src/CuteCat/iksemel/iks.c\<close>, on trees as values.
  The node \<^verbatim>\<open>x\<close> is the list of it and its following siblings, and its ancestors are a list of such lists, the
  nearest first.  The copy is the list of its open tags, with \<^verbatim>\<open>cur\<close> first, and the finished copy once \<^verbatim>\<open>cur\<close> is
  NULL.  Memory is taken to be found: the code does not look, and would go through a null \<^verbatim>\<open>cur\<close>.
\<close>

section \<open>The copy\<close>

type_synonym copy = "open_tag list \<times> iks option"

definition copy_tree :: "copy \<Rightarrow> iks option" where \<comment> \<open>\<^verbatim>\<open>copy\<close>\<close>
  "copy_tree c =
     (case c of
       ([], r) \<Rightarrow> r
     | (t # ts, _) \<Rightarrow> Some (node_of (foldl into_parent t ts)))"

definition cur_parent :: "copy \<Rightarrow> copy option" where \<comment> \<open>\<^verbatim>\<open>cur = cur->parent\<close>\<close>
  "cur_parent c =
     (case c of
       ([], _) \<Rightarrow> None
     | ([t], _) \<Rightarrow> Some ([], Some (node_of t))
     | (t # u # ts, r) \<Rightarrow> Some (into_parent t u # ts, r))"

text \<open>A tag without its attributes; nothing can be inserted into NULL.\<close>

definition copy_name :: "string \<Rightarrow> copy \<Rightarrow> copy" where
  "copy_name name c =
     (case c of
       ([], None) \<Rightarrow> ([(name, [], [])], None)
     | ([], Some y) \<Rightarrow> ([], Some y)
     | (t # ts, r) \<Rightarrow> ((name, [], []) # t # ts, r))"

definition copy_attribs :: "(string \<times> string) list \<Rightarrow> copy \<Rightarrow> copy" where
  "copy_attribs attrs c =
     (case c of
       ([], r) \<Rightarrow> ([], r)
     | ((n, as, cs) # ts, r) \<Rightarrow> ((n, insert_attribs as attrs, cs) # ts, r))"

definition copy_text :: "string \<Rightarrow> copy \<Rightarrow> copy" where
  "copy_text d c = (case c of (ts, r) \<Rightarrow> (add_cdata d ts, r))"

definition copy_visit :: "iks \<Rightarrow> copy \<Rightarrow> copy" where
  "copy_visit x c =
     (case x of
       IksTag name as _ \<Rightarrow> copy_attribs as (copy_name name c)
     | IksCData d \<Rightarrow> copy_text d c)"

definition below :: "iks \<Rightarrow> iks list" where
  "below x = (case x of IksTag _ _ cs \<Rightarrow> cs | IksCData _ \<Rightarrow> [])"

partial_function (option) copy_loop :: "bool \<Rightarrow> nat \<Rightarrow> iks list \<Rightarrow> iks list list \<Rightarrow> copy \<Rightarrow> copy option" where
  "copy_loop up level here ups c =
     (case here of
       [] \<Rightarrow> None
     | x # nx \<Rightarrow>
         let c = (if up then c else copy_visit x c) in
         if \<not> up \<and> below x \<noteq> [] then copy_loop False (level + 1) (below x) (here # ups) c
         else do {
           c \<leftarrow> (if \<not> up \<and> iks_type (Some x) = IKS_TAG then cur_parent c else Some c);
           if nx \<noteq> [] then if level = 0 then Some c else copy_loop False level nx ups c
           else if level < 2 then Some c
           else case ups of
             [] \<Rightarrow> None
           | p # ups \<Rightarrow> do { c \<leftarrow> cur_parent c; copy_loop True (level - 1) p ups c }
         })"

definition iks_copy_within :: "iks list \<Rightarrow> iks option option" where
  "iks_copy_within x = do { c \<leftarrow> copy_loop False 0 x [] ([], None); Some (copy_tree c) }"

definition iks_copy :: "iks list \<Rightarrow> iks option option" where
  "iks_copy x = iks_copy_within x"

section \<open>What the loop does\<close>

fun copied :: "iks \<Rightarrow> open_tag \<Rightarrow> open_tag" and copied_all :: "iks list \<Rightarrow> open_tag \<Rightarrow> open_tag" where
  "copied (IksTag n as cs) t = into_parent (copied_all cs (tag_node n as)) t"
| "copied (IksCData d) t = hd (add_cdata d [t])"
| "copied_all [] t = t"
| "copied_all (x # xs) t = copied_all xs (copied x t)"

text \<open>What is left when \<open>x\<close> is done, with \<open>nx\<close> behind it.\<close>

definition after :: "nat \<Rightarrow> iks list \<Rightarrow> iks list list \<Rightarrow> copy \<Rightarrow> copy option" where
  "after level nx ups c =
     (if nx \<noteq> [] then if level = 0 then Some c else copy_loop False level nx ups c
      else if level < 2 then Some c
      else case ups of
        [] \<Rightarrow> None
      | p # ups \<Rightarrow> do { c \<leftarrow> cur_parent c; copy_loop True (level - 1) p ups c })"

lemma copy_loop_visit:
  "copy_loop False level (x # nx) ups c =
     (if below x \<noteq> [] then copy_loop False (level + 1) (below x) ((x # nx) # ups) (copy_visit x c)
      else do {
        c \<leftarrow> (if iks_type (Some x) = IKS_TAG then cur_parent (copy_visit x c) else Some (copy_visit x c));
        after level nx ups c
      })"
  by (subst copy_loop.simps) (simp add: after_def [abs_def] Let_def)

lemma copy_loop_up: "copy_loop True level (x # nx) ups c = after level nx ups c"
  by (subst copy_loop.simps) (simp add: after_def Let_def)

lemma add_cdata_head: "add_cdata d (t # ts) = hd (add_cdata d [t]) # ts"
  by (cases t) (auto simp: add_cdata_def split: option.split iks.split)

lemma visit_tag: "copy_visit (IksTag n as cs) (t # ts, r) = (tag_node n as # t # ts, r)"
  by (simp add: copy_visit_def copy_name_def copy_attribs_def tag_node_def)

lemma visit_text: "copy_visit (IksCData d) (t # ts, r) = (copied (IksCData d) t # ts, r)"
  by (simp add: copy_visit_def copy_text_def) (rule add_cdata_head)

lemma copy_loop_copies:
  shows "copy_loop False (Suc l) (x # nx) ups (t # ts, r) = after (Suc l) nx ups (copied x t # ts, r)"
    and "xs \<noteq> [] \<Longrightarrow> copy_loop False (Suc l) xs ups (t # ts, r) = after (Suc l) [] ups (copied_all xs t # ts, r)"
proof (induction x t and xs t arbitrary: nx l ups ts r and l ups ts r rule: copied_copied_all.induct)
  case (1 n as cs t)
  show ?case
  proof (cases "cs = []")
    case True
    then show ?thesis by (simp add: copy_loop_visit below_def iks_type_def visit_tag cur_parent_def)
  next
    case False
    then have "copy_loop False (Suc (Suc l)) cs ((IksTag n as cs # nx) # ups) (tag_node n as # t # ts, r)
        = after (Suc (Suc l)) [] ((IksTag n as cs # nx) # ups) (copied_all cs (tag_node n as) # t # ts, r)"
      by (rule "1.IH")
    then show ?thesis using False
      by (simp add: copy_loop_visit below_def visit_tag) (simp add: after_def [of "Suc (Suc l)"] cur_parent_def copy_loop_up)
  qed
next
  case (2 d t)
  then show ?case by (simp add: copy_loop_visit below_def iks_type_def visit_text del: copied.simps)
next
  case (4 x xs t)
  show ?case
  proof (cases "xs = []")
    case False
    then show ?thesis using "4.IH" by (simp add: after_def [of _ xs])
  qed (use "4.IH" in simp)
qed simp

lemma copy_is_copied:
  "iks_copy_within (IksTag n as cs # nx) = Some (Some (node_of (copied_all cs (tag_node n as))))"
proof -
  have v: "copy_visit (IksTag n as cs) ([], None) = ([tag_node n as], None)" for cs
    by (simp add: copy_visit_def copy_name_def copy_attribs_def tag_node_def)
  show ?thesis
  proof (cases "cs = []")
    case True
    then show ?thesis
      by (simp add: iks_copy_within_def copy_loop_visit below_def iks_type_def v) (simp add: cur_parent_def after_def copy_tree_def)
  next
    case False
    then have "copy_loop False (Suc 0) cs [IksTag n as cs # nx] ([tag_node n as], None)
        = after (Suc 0) [] [IksTag n as cs # nx] ([copied_all cs (tag_node n as)], None)"
      by (rule copy_loop_copies(2))
    then show ?thesis using False by (simp add: iks_copy_within_def copy_loop_visit below_def v after_def copy_tree_def)
  qed
qed


section \<open>A copy is what it is a copy of\<close>

text \<open>No attribute twice, and no two texts side by side: what a parser builds.\<close>

fun apart :: "iks list \<Rightarrow> bool" where
  "apart (x # y # xs) \<longleftrightarrow> \<not> (is_cdata x \<and> is_cdata y) \<and> apart (y # xs)"
| "apart _ \<longleftrightarrow> True"

fun attribs_apart :: "iks \<Rightarrow> bool" where
  "attribs_apart (IksTag n as cs) \<longleftrightarrow> distinct (map fst as) \<and> (\<forall>c \<in> set cs. attribs_apart c)"
| "attribs_apart (IksCData d) \<longleftrightarrow> True"

fun texts_apart :: "iks \<Rightarrow> bool" where
  "texts_apart (IksTag n as cs) \<longleftrightarrow> apart cs \<and> (\<forall>c \<in> set cs. texts_apart c)"
| "texts_apart (IksCData d) \<longleftrightarrow> d \<noteq> []"

lemma apart_tail: "apart (x # xs) \<Longrightarrow> apart xs"
  by (cases xs) auto

lemma tag_node_apart: "distinct (map fst as) \<Longrightarrow> tag_node n as = (n, as, [])"
  using insert_attribs_distinct [of "[]" as] by (simp add: tag_node_def)

lemma copied_apart:
  shows "attribs_apart x \<Longrightarrow> texts_apart x \<Longrightarrow> \<not> (is_cdata x \<and> ends_with_cdata t) \<Longrightarrow> copied x t = add_child t x"
    and "\<forall>c \<in> set xs. attribs_apart c \<and> texts_apart c \<Longrightarrow> apart xs \<Longrightarrow> \<not> (xs \<noteq> [] \<and> is_cdata (hd xs) \<and> ends_with_cdata t)
      \<Longrightarrow> copied_all xs t = foldl add_child t xs"
proof (induction x t and xs t rule: copied_copied_all.induct)
  case (1 n as cs t)
  have e: "\<not> ends_with_cdata (tag_node n as)" by (simp add: tag_node_def ends_with_cdata_def)
  have "copied_all cs (tag_node n as) = foldl add_child (tag_node n as) cs"
    by (rule "1.IH") (use 1 e in auto)
  then show ?case using 1 by (simp add: tag_node_apart foldl_add_child into_parent_child)
next
  case (2 d t)
  then show ?case using add_cdata_child [of t d "[]"] by (simp add: is_cdata_def)
next
  case (4 x xs t)
  have x: "copied x t = add_child t x" by (rule "4.IH"(1)) (use 4 in auto)
  have "copied_all xs (add_child t x) = foldl add_child (add_child t x) xs"
    unfolding x [symmetric] by (rule "4.IH"(2)) (use 4 apart_tail in \<open>auto simp: x ends_with_add neq_Nil_conv\<close>)
  then show ?case using x by simp
qed simp

lemma escaped_append: "escaped (a @ b) = escaped a @ escaped b"
  by (simp add: escaped_def)

lemma nodes_text_append: "nodes_text (as @ bs) = nodes_text as @ nodes_text bs"
  by (induction as) simp_all

text \<open>The children of an open tag print as the texts that were put in.\<close>

definition more :: "open_tag \<Rightarrow> open_tag \<Rightarrow> string \<Rightarrow> bool" where
  "more t t' s \<longleftrightarrow> (case t of (n, as, cs) \<Rightarrow> \<exists>cs'. t' = (n, as, cs') \<and> nodes_text cs' = nodes_text cs @ s \<and> (cs' = [] \<longrightarrow> cs = []))"

lemma more_trans: "more t u a \<Longrightarrow> more u v b \<Longrightarrow> more t v (a @ b)"
  by (auto simp: more_def split: prod.splits)

lemma text_more: "more (n, as, cs) (copied (IksCData d) (n, as, cs)) (escaped d) \<and> snd (snd (copied (IksCData d) (n, as, cs))) \<noteq> []"
proof (cases cs rule: rev_cases)
  case (snoc ds x)
  then show ?thesis
    by (cases x) (simp_all add: add_cdata_def insert_whole_cdata Let_def more_def nodes_text_append escaped_append)
qed (simp add: add_cdata_def insert_whole_cdata Let_def more_def)

lemma copied_prints:
  shows "attribs_apart x \<Longrightarrow> more t (copied x t) (node_text x) \<and> snd (snd (copied x t)) \<noteq> []"
    and "\<forall>c \<in> set xs. attribs_apart c \<Longrightarrow> more t (copied_all xs t) (nodes_text xs) \<and> (xs \<noteq> [] \<longrightarrow> snd (snd (copied_all xs t)) \<noteq> [])"
proof (induction x t and xs t rule: copied_copied_all.induct)
  case (1 n as cs t)
  obtain m bs ds where t: "t = (m, bs, ds)" by (cases t)
  have "tag_node n as = (n, as, [])" using 1 by (simp add: tag_node_apart)
  then show ?case using 1 by (auto simp: t more_def into_parent_def node_of_def nodes_text_append)
next
  case (2 d t)
  obtain n as cs where "t = (n, as, cs)" by (cases t)
  then show ?case using text_more [of n as cs d] by (simp del: copied.simps)
next
  case (3 t)
  then show ?case by (simp add: more_def split: prod.split)
next
  case (4 x xs t)
  then have x: "more t (copied x t) (node_text x)" "snd (snd (copied x t)) \<noteq> []"
    and xs: "more (copied x t) (copied_all xs (copied x t)) (nodes_text xs)" by simp_all
  then show ?case using more_trans [OF x(1) xs] by (auto simp: more_def split: prod.splits)
qed

lemma copy_prints:
  assumes "attribs_apart (IksTag n as cs)"
  shows "node_text (node_of (copied_all cs (tag_node n as))) = node_text (IksTag n as cs)"
proof -
  have "tag_node n as = (n, as, [])" using assms by (simp add: tag_node_apart)
  moreover have "more (tag_node n as) (copied_all cs (tag_node n as)) (nodes_text cs)"
      "cs \<noteq> [] \<longrightarrow> snd (snd (copied_all cs (tag_node n as))) \<noteq> []"
    using copied_prints(2) [of cs "tag_node n as"] assms by simp_all
  ultimately show ?thesis by (cases "cs = []") (auto simp: more_def node_of_def)
qed

text \<open>
  C20.  A copy of a tree made of tags with distinct attributes, and of texts that are not empty and none of which
  follows another, is the same tree.  In any tree with distinct attributes the copy joins texts that follow each
  other, which does not show: it prints as the same string.  Nothing behind the node is copied, and the call returns.
\<close>

theorem copy_is_the_tree:
  assumes "attribs_apart (IksTag n as cs)"
  shows "(\<exists>y. iks_copy (IksTag n as cs # nx) = Some (Some y) \<and> node_text y = node_text (IksTag n as cs))
    \<and> (texts_apart (IksTag n as cs) \<longrightarrow> iks_copy (IksTag n as cs # nx) = Some (Some (IksTag n as cs)))"
proof -
  have r: "iks_copy (IksTag n as cs # nx) = Some (Some (node_of (copied_all cs (tag_node n as))))"
    by (simp add: iks_copy_def copy_is_copied)
  have "node_of (copied_all cs (tag_node n as)) = IksTag n as cs" if "texts_apart (IksTag n as cs)"
  proof -
    have "copied_all cs (tag_node n as) = foldl add_child (tag_node n as) cs"
      by (rule copied_apart(2)) (use that assms in \<open>auto simp: tag_node_def ends_with_cdata_def\<close>)
    then show ?thesis using assms by (simp add: tag_node_apart foldl_add_child node_of_def)
  qed
  then show ?thesis using r copy_prints [OF assms] by simp
qed

lemma copy_is_the_tree_witness:
  "iks_copy [IksTag ''a'' [(''k'', ''1'')] [IksCData ''x'', IksTag ''b'' [] [], IksCData ''y''], IksTag ''c'' [] []]
     = Some (Some (IksTag ''a'' [(''k'', ''1'')] [IksCData ''x'', IksTag ''b'' [] [], IksCData ''y'']))"
  using copy_is_the_tree [of "''a''" "[(''k'', ''1'')]" "[IksCData ''x'', IksTag ''b'' [] [], IksCData ''y'']" "[IksTag ''c'' [] []]"]
  by (simp add: is_cdata_def)

text \<open>Two texts become one.\<close>

lemma copy_joins_texts:
  "iks_copy [IksTag ''a'' [] [IksCData ''x'', IksCData ''y'']] = Some (Some (IksTag ''a'' [] [IksCData ''xy'']))"
  by (simp add: iks_copy_def copy_is_copied tag_node_def add_cdata_def insert_whole_cdata node_of_def)

text \<open>A text by itself has no copy: \<^verbatim>\<open>cur\<close> is NULL.\<close>

lemma no_copy_of_a_text: "iks_copy [IksCData d] = Some None"
  by (simp add: iks_copy_def iks_copy_within_def copy_loop_visit below_def iks_type_def copy_visit_def copy_text_def add_cdata_def
    after_def copy_tree_def)

end
