(* ===== verification/Spec2Isabelle.thy ===== *)
theory Spec2Isabelle
  imports CatDog DogBoot HexDump ShaSpec IksStack IksFilter IksNodes IksCopy
begin

text \<open>
  CuteDog is a packet sniffing server, CuteCat its Windows client.  A client connects to the server, logs in
  under a name and either starts a capture with a filter (it becomes a ``cutedog'') or hooks itself to the
  capture of another client; the server then sends every captured payload to all clients of
  that capture.  Both sides speak XML stanzas over one TCP connection and parse them with the library
  iksemel, whose sources are in the repository.  This library models the server, the
  client and the parts of iksemel they use, one theory for each part, and proves what they promise and
  where they break.

  \<^bold>\<open>The program and how its parts interact.\<close>  The server (\<^verbatim>\<open>src/CuteDog\<close>) has a socket thread, an I/O thread and one
  thread for each capture.  The socket thread reads bytes of the clients into input cells and passes
  them to the I/O thread through a ring of cells; the I/O thread runs the client's parser over the
  text of a cell, and the parser calls the protocol handlers.  Handlers and capture threads
  answer through message cells: a cell is taken from the ring of free cells, filled, put into the
  ring of posted cells, moved by the socket thread into the list of its client, sent, and given
  back.  The client (\<^verbatim>\<open>src/CuteCat\<close>) has a network thread with one connection and the same parser, whose
  hook is a method of the dialog, and the window.

  \<^bold>\<open>Shared conventions\<close> (theory \<open>Prelude\<close>).  A C integer whose wrap-around matters is a word of its
  width, otherwise a \<open>nat\<close> or \<open>int\<close>.  A block of memory is the list of its cells, and reads and
  writes are checked: a function that may leave its block, read NULL or go on forever returns an
  option whose \<open>None\<close> is undefined behaviour (or, for a \<open>partial_function\<close>, a run without end); a
  NULL result or a failure the program handles is a value inside.  So ``the result is \<open>Some\<close>''
  says that the code is memory safe and returns.  A C string is the list of its characters
  without the NUL.  What an operating system or library call answers is an argument (a record such as
  \<open>environ\<close>, \<open>net_env\<close>, \<open>round_env\<close>, or \<open>alloc\<close> for \<^verbatim>\<open>malloc\<close>), so the theorems hold for
  every answer, failures included, unless a hypothesis restricts it.

  \<^bold>\<open>Data structures of the server.\<close>
  \<^item> \<open>Fifo\<close>, \<open>FifoThreads\<close> (\<^verbatim>\<open>fifo.c\<close>): the ring at C widths as a bounded queue; the same ring with the two
    memory accesses of each operation as separate steps of a state machine, a queue for one producer
    and one consumer, and not for two consumers.
  \<^item> \<open>LinkedList\<close> (\<^verbatim>\<open>list.h\<close>): the intrusive lists on a store of links; every operation refines the
    one on sequences, and both loop macros run over the sequence.
  \<^item> \<open>MsgStream\<close> (\<^verbatim>\<open>stream.c\<close>): the growing buffers of cells, in bounds and with the text they hold.
  \<^item> \<open>Base64\<close> (\<^verbatim>\<open>cdogBase64.c\<close>, \<^verbatim>\<open>iksemel/base64.c\<close>): encoder and decoder, round trip and bounds.
  \<^item> \<open>Packet\<close> (\<^verbatim>\<open>NoseTcp.c\<close>, \<^verbatim>\<open>NoseUdp.c\<close>): the decoders of captured frames; \<open>HexDump\<close> (\<^verbatim>\<open>cdogNose.c\<close>,
    \<^verbatim>\<open>print.c\<close>): the printers of bytes and the client's \<^verbatim>\<open>find_and_printf_sn\<close>.

  \<^bold>\<open>The server.\<close>
  \<^item> \<open>DogState\<close> (\<^verbatim>\<open>cdogcore.h\<close>, \<^verbatim>\<open>cdogEar.c\<close>): the record \<open>dogstate\<close> of the globals, message cells and \<open>post\<close>; the locale
    \<open>mailbox\<close> is what posting promises, and posting to several clients is proved in it once.
  \<^item> \<open>DogLists\<close> (\<^verbatim>\<open>cdogEar.c\<close>): cutedogs, hookers and the broadcast; \<open>shape\<close> is the abstract view of all lists.
  \<^item> \<open>DogNose\<close> (\<^verbatim>\<open>cdogNose.c\<close>, \<^verbatim>\<open>SendTcp2Cats\<close>): capture control and the delivery of a payload.
  \<^item> \<open>DogIo\<close> (\<^verbatim>\<open>cdogio.c\<close>): the handlers; \<open>DogParse\<close>: the same with the library's parser in the place of a parameter,
    for whole sessions and single cells, and for arbitrary bytes what no client can change.
  \<^item> \<open>DogEar\<close>, \<open>DogKeep\<close>, \<open>InRing\<close> (\<^verbatim>\<open>processIOThread\<close> and input): the I/O thread and the ring of
    input cells as a queue; \<open>DogLoop\<close>, \<open>DogCells\<close>, \<open>DogRound\<close> (\<^verbatim>\<open>ClientRecSndThread\<close>): the rounds of the
    socket thread, which always end, conserve the message cells and, over the turns of a client, send it its bytes in
    order.
  \<^item> \<open>DogServer\<close>, \<open>DogBoot\<close> (\<^verbatim>\<open>InitServer\<close>): the start, with the configuration file read by the library.

  \<^bold>\<open>iksemel\<close> (\<^verbatim>\<open>src/CuteCat/iksemel\<close>).
  \<^item> \<open>IksUtil\<close>, \<open>Iks\<close>, \<open>Jabber\<close>: strings, trees and printing, stanzas.
  \<^item> \<open>Sax\<close> (\<^verbatim>\<open>sax.c\<close>): the tokenizer with its block of names, its array of attributes and the bytes of
    UTF-8.  \<open>SaxSpec\<close> is a reference tokenizer of one byte at a time on strings; \<open>SaxSim\<close>, \<open>SaxRefine\<close> and \<open>SaxProps\<close>
    prove that they agree on any chunks that start at a character, so the
    tokenizer also returns there; \<open>SaxText\<close> and \<open>SaxNodes\<close> compute the reference tokenizer on the
    texts of tags and trees, in the locale \<open>tree_builder\<close> for any hooks that build trees.
    \<open>SaxKeep\<close> (locale \<open>hook_keeps\<close>) is about arbitrary input: what the hooks keep is kept.
  \<^item> \<open>IksHooks\<close>, \<open>IksStream\<close> (\<^verbatim>\<open>stream.c\<close>), \<open>StreamEvents\<close>, \<open>StreamProps\<close>, \<open>StreamKeep\<close>: the stream parser and the round trip of
    sessions; \<open>Dom\<close> (\<^verbatim>\<open>dom.c\<close>): the tree parser, loading and saving files.
  \<^item> \<open>Md5\<close>, \<open>Sha\<close> (\<^verbatim>\<open>md5.c\<close>, \<^verbatim>\<open>sha.c\<close>): the digests; \<open>Md5Spec\<close> and \<open>ShaSpec\<close> state RFC 1321 and FIPS 180-1 on whole messages
    and prove that the code agrees with them, whatever the pieces a message comes in.
  \<^item> \<open>IksStack\<close> (\<^verbatim>\<open>ikstack.c\<close>): the memory stacks, as a map from the pointers returned to the texts they stand for.
  \<^item> \<open>IksLinks\<close>: doubly linked lists without a head; on them \<open>IksFilter\<close> (\<^verbatim>\<open>filter.c\<close>): the rules as a list on a
    heap, their scores, and the order in which a packet goes through their hooks; and \<open>IksNodes\<close> (\<^verbatim>\<open>iks.c\<close>):
    nodes with all their links, where \<open>Iks\<close> has trees as values: inserting beside a node, hiding, and the ways back and up.
    \<open>IksCopy\<close> (\<^verbatim>\<open>iks.c\<close>): the loop that copies a tree, which ends and gives the same tree.

  \<^bold>\<open>The client\<close> (\<^verbatim>\<open>src/CuteCat/CuteCat\<close>).
  \<^item> \<open>CatNet\<close> (\<^verbatim>\<open>net.c\<close>), \<open>CatState\<close> (\<^verbatim>\<open>catcore.h\<close> and what \<^verbatim>\<open>catEar.c\<close> sends), \<open>CatDlg\<close> (\<^verbatim>\<open>CuteCatDlg.cpp\<close>): the
    sockets, the record \<open>cat\<close> of the connection, the hook, the handlers of answers and the buttons.
  \<^item> \<open>CatEar\<close> (\<^verbatim>\<open>catEar.c\<close>): the rounds of the network thread with the parser, and runs of rounds,
    logins and clicks.
  \<^item> \<open>CLib\<close>, \<open>WireText\<close>, \<open>CatDog\<close>: the texts both sides print are texts of the stanzas the other side
    expects; a login and a captured payload through both programs.

  \<^bold>\<open>Atomicity.\<close>  A handler, a capture callback, and each step of a round run without interruption; the
  theories about the ring of input cells prove that what the I/O thread does leaves the socket
  thread's part of the state alone and the other way round, and \<open>FifoThreads\<close> treats the ring at
  the granularity of its memory accesses.  The message cells are also shared by the capture
  threads without a lock, which the step of a single call does not show; theory \<open>FifoThreads\<close> shows what
  two consumers of one ring can do.  On the client a click happens between two rounds, which is exact for one network thread;
  a second login starts a second thread over the same globals, and theory \<open>CatEar\<close> also has the connecting function in two steps,
  its test and the rest, for two threads that both pass the test.

  \<^bold>\<open>Bounds and recursion.\<close>  Sizes are those of the source: rings of 4096 cells, 16 clients, messages of 1024 bytes,
  payloads of 3072, files in pieces of 4096 bytes.  Loops over arrays and strings recurse on what is left; the loop
  over received bytes, the list macros and the tokenizer loop are partial functions, whose runs
  on the states that occur are proved to return (the list macros on any well-formed list, the tokenizer through
  its reference).  No fuel is used.

  \<^bold>\<open>Not modelled.\<close>  The capture library and the thread library (parameters); in the theories of the
  stream parser and the stanzas, MD5 and SHA are parameters, which \<open>Md5\<close> and \<open>Sha\<close> model; the memory of a
  tree, whose success is assumed where a tree is built and given by \<open>alloc\<close> where the tokenizer asks for memory (\<open>IksStack\<close>
  models the allocator itself); the default transport \<^verbatim>\<open>io-posix.c\<close>, which this program does not use; logging, the debug
  console, painting and the set-up of the dialog; \<^verbatim>\<open>FD_SETSIZE\<close>; \<^verbatim>\<open>IKS_RESET\<close>, which only resets
  counters of a parser between stanzas.  The header files of libpcap, the second copy of iksemel
  and the generated projects are not part of the program's own code.
\<close>

end
